(* ===== verification/Prelude.thy ===== *)
theory Prelude
  imports
    Main
    "HOL-Library.Word"
    "HOL-Library.AList"
    "HOL-Library.Multiset"
begin

text \<open>
  Shared types, byte encodings, Go slice and map idioms, and the generic lemmas that the
  component theories rest on.

  \<^item> Machine integers are words (\<open>u8\<close>, \<open>u32\<close>, \<open>u64\<close>); a byte slice or array is
    a list of \<open>u8\<close>.
  \<^item> \<open>be_bytes\<close> and \<open>be_word\<close> are \<^verbatim>\<open>binary.BigEndian.PutUintN\<close> and
    \<^verbatim>\<open>binary.BigEndian.UintN\<close> of Go's standard library.
  \<^item> A Go map is an association list without duplicate keys: \<open>map_of\<close> reads it,
    \<open>AList.update\<close> stores, \<open>AList.delete\<close> removes. Its list order stands for the
    iteration order, which Go leaves open.
  \<^item> A 32-byte digest is a byte list; the hash function itself is third-party code and
    always a parameter.
\<close>

unbundle bit_operations_syntax

type_synonym u8 = "8 word"
type_synonym u32 = "32 word"
type_synonym u64 = "64 word"
type_synonym bytes = "u8 list"

named_theorems codec_simps \<open>evaluation of encoders and decoders on concatenated fields\<close>
named_theorems frame_simps \<open>fields that an operation leaves unchanged\<close>

subsection \<open>Big-endian encodings\<close>

primrec be_bytes :: "nat \<Rightarrow> 'a::len word \<Rightarrow> bytes" where
  "be_bytes 0 w = []"
| "be_bytes (Suc n) w = ucast (drop_bit (8 * n) w) # be_bytes n w"

definition be_word :: "bytes \<Rightarrow> 'a::len word" where
  "be_word bs = foldl (\<lambda>acc b. push_bit 8 acc OR ucast b) 0 bs"

lemma length_be_bytes [simp]: "length (be_bytes n w) = n"
  by (induction n) auto

lemma foldl_be_bytes:
  "foldl (\<lambda>acc b. push_bit 8 acc OR ucast b) a (be_bytes n (w :: 'a::len word))
    = push_bit (8 * n) a OR take_bit (8 * n) w"
proof (induction n arbitrary: a)
  case 0
  show ?case by simp
next
  case (Suc n)
  have split: "push_bit (8 * n) (ucast (ucast (drop_bit (8 * n) w) :: u8)) OR take_bit (8 * n) w
      = take_bit (8 * Suc n) w"
    by (rule bit_eqI) (auto simp: bit_simps)
  have "foldl (\<lambda>acc b. push_bit 8 acc OR ucast b) a (be_bytes (Suc n) w)
      = push_bit (8 * n) (push_bit 8 a OR ucast (ucast (drop_bit (8 * n) w) :: u8))
        OR take_bit (8 * n) w"
    by (simp add: Suc.IH)
  also have "\<dots> = push_bit (8 * Suc n) a
        OR (push_bit (8 * n) (ucast (ucast (drop_bit (8 * n) w) :: u8)) OR take_bit (8 * n) w)"
    by (simp add: push_bit_or or.assoc add.commute)
  also have "\<dots> = push_bit (8 * Suc n) a OR take_bit (8 * Suc n) w"
    by (simp only: split)
  finally show ?case .
qed

lemma nth_be_bytes: "k < n \<Longrightarrow> be_bytes n w ! k = ucast (drop_bit (8 * (n - 1 - k)) w)"
proof (induction n arbitrary: k)
  case (Suc n)
  then show ?case by (cases k) auto
qed simp

lemma be_word_be_bytes: "be_word (be_bytes n (w :: 'a::len word)) = take_bit (8 * n) w"
  by (simp add: be_word_def foldl_be_bytes)

lemma be_word64_roundtrip [simp, codec_simps]: "be_word (be_bytes 8 (w :: u64)) = w"
  by (simp add: be_word_be_bytes take_bit_word_eq_self)

lemma be_word32_roundtrip [simp, codec_simps]: "be_word (be_bytes 4 (w :: u32)) = w"
  by (simp add: be_word_be_bytes take_bit_word_eq_self)

lemma be_bytes64_inject [simp]: "be_bytes 8 (v :: u64) = be_bytes 8 w \<longleftrightarrow> v = w"
  by (metis be_word64_roundtrip)

lemma be_bytes_Suc_snoc:
  "be_bytes (Suc n) (w :: 'a::len word) = be_bytes n (drop_bit 8 w) @ [ucast w]"
  by (induction n) (simp_all add: drop_bit_drop_bit add.commute)

lemma be_bytes_take_bit: "8 * n \<le> m \<Longrightarrow> be_bytes n (take_bit m (w :: 'a::len word)) = be_bytes n w"
proof (induction n)
  case 0
  show ?case by simp
next
  case (Suc n)
  have "ucast (drop_bit (8 * n) (take_bit m w)) = (ucast (drop_bit (8 * n) w) :: u8)"
    using Suc.prems by (intro bit_eqI) (auto simp: bit_simps)
  with Suc show ?case by simp
qed

lemma be_bytes_be_word:
  "8 * length bs \<le> LENGTH('a::len) \<Longrightarrow> be_bytes (length bs) (be_word bs :: 'a word) = bs"
proof (induction bs rule: rev_induct)
  case Nil
  show ?case by simp
next
  case (snoc b bs)
  let ?w = "be_word bs :: 'a word"
  have eq: "be_word (bs @ [b]) = push_bit 8 ?w OR ucast b"
    by (simp add: be_word_def)
  have "drop_bit 8 (push_bit 8 ?w OR ucast b) = take_bit (LENGTH('a) - 8) ?w"
    by (rule bit_eqI) (auto simp: bit_simps dest: bit_imp_le_length)
  moreover have "ucast (push_bit 8 ?w OR ucast b) = b"
    using snoc.prems by (intro bit_eqI) (auto simp: bit_simps)
  ultimately have "be_bytes (Suc (length bs)) (be_word (bs @ [b]) :: 'a word)
      = be_bytes (length bs) (take_bit (LENGTH('a) - 8) ?w) @ [b]"
    by (simp only: be_bytes_Suc_snoc eq)
  also have "\<dots> = bs @ [b]"
    using snoc by (simp add: be_bytes_take_bit)
  finally show ?case by simp
qed

lemma be_bytes64_be_word: "length bs = 8 \<Longrightarrow> be_bytes 8 (be_word bs :: u64) = bs"
  using be_bytes_be_word [of bs, where 'a = 64] by simp

lemma be_bytes32_be_word: "length bs = 4 \<Longrightarrow> be_bytes 4 (be_word bs :: u32) = bs"
  using be_bytes_be_word [of bs, where 'a = 32] by simp

text \<open>
  Go's \<^verbatim>\<open>copy(dst, src)\<close> overwrites the first \<^verbatim>\<open>min(len(dst), len(src))\<close> elements;
  \<open>arr32\<close> is \<^verbatim>\<open>var result [32]byte; copy(result[:], sum)\<close>.
\<close>

definition copy_to :: "'a list \<Rightarrow> 'a list \<Rightarrow> 'a list" where
  "copy_to dst src = take (length dst) src @ drop (length src) dst"

definition zero32 :: bytes where
  "zero32 = replicate 32 0"

definition arr32 :: "bytes \<Rightarrow> bytes" where
  "arr32 bs = copy_to zero32 bs"

text \<open>What the code relies on from BLAKE3: \<^verbatim>\<open>Sum(nil)\<close> is 32 bytes long.\<close>

definition digest :: "(bytes \<Rightarrow> bytes) \<Rightarrow> bool" where
  "digest H \<longleftrightarrow> (\<forall>x. length (H x) = 32)"

lemma length_copy_to [simp]: "length (copy_to dst src) = length dst"
  by (simp add: copy_to_def)

lemma copy_to_same [simp]: "length src = length dst \<Longrightarrow> copy_to dst src = src"
  by (simp add: copy_to_def)

lemma length_zero32 [simp]: "length zero32 = 32"
  by (simp add: zero32_def)

lemma length_arr32 [simp]: "length (arr32 bs) = 32"
  by (simp add: arr32_def)

lemma arr32_id [simp]: "length bs = 32 \<Longrightarrow> arr32 bs = bs"
  by (simp add: arr32_def)

subsection \<open>Go slices\<close>

text \<open>\<^verbatim>\<open>data[off : off+n]\<close> of a slice that is long enough.\<close>

definition go_slice :: "nat \<Rightarrow> nat \<Rightarrow> 'a list \<Rightarrow> 'a list" where
  "go_slice off n xs = take n (drop off xs)"

lemma slice_here [codec_simps]: "length ys = n \<Longrightarrow> go_slice 0 n (ys @ zs) = ys"
  by (simp add: go_slice_def)

lemma slice_skip [codec_simps]:
  "length ys \<le> off \<Longrightarrow> go_slice off n (ys @ zs) = go_slice (off - length ys) n zs"
  by (simp add: go_slice_def)

lemma slice_Cons [codec_simps]: "0 < off \<Longrightarrow> go_slice off n (x # xs) = go_slice (off - 1) n xs"
  by (cases off) (simp_all add: go_slice_def)

lemma slice_all [codec_simps]: "length ys = n \<Longrightarrow> go_slice 0 n ys = ys"
  by (simp add: go_slice_def)

lemma length_slice [simp]: "off + n \<le> length xs \<Longrightarrow> length (go_slice off n xs) = n"
  by (simp add: go_slice_def)

text \<open>\<^verbatim>\<open>append(xs[:i], xs[i+1:]...)\<close>: the first element that satisfies \<open>P\<close> is removed.\<close>

fun remove_first :: "('a \<Rightarrow> bool) \<Rightarrow> 'a list \<Rightarrow> 'a list" where
  "remove_first P [] = []"
| "remove_first P (x # xs) = (if P x then xs else x # remove_first P xs)"

lemma remove_first_none [simp]: "(\<And>x. x \<in> set xs \<Longrightarrow> \<not> P x) \<Longrightarrow> remove_first P xs = xs"
  by (induction xs) auto

lemma set_remove_first_subset: "set (remove_first P xs) \<subseteq> set xs"
  by (induction xs) auto

lemma distinct_remove_first [simp]: "distinct xs \<Longrightarrow> distinct (remove_first P xs)"
  by (induction xs) (use set_remove_first_subset in fastforce)+

lemma set_remove_first_eq:
  "distinct xs \<Longrightarrow> set (remove_first (\<lambda>y. y = x) xs) = set xs - {x}"
  by (induction xs) auto

lemma remove_first_split:
  "x \<notin> set ys \<Longrightarrow> remove_first (\<lambda>y. y = x) (ys @ x # zs) = ys @ zs"
  by (induction ys) auto

lemma sorted_wrt_remove_first: "sorted_wrt R xs \<Longrightarrow> sorted_wrt R (remove_first P xs)"
  by (induction xs) (use set_remove_first_subset in fastforce)+

lemma length_remove_first:
  "(\<exists>x\<in>set xs. P x) \<Longrightarrow> Suc (length (remove_first P xs)) = length xs"
  by (induction xs) auto

subsection \<open>Go maps as association lists\<close>

lemma keys_alist_update [simp]:
  "fst ` set (AList.update k v al) = insert k (fst ` set al)"
  by (metis dom_map_of_conv_image_fst AList.update_conv' dom_fun_upd option.distinct(1))

lemma keys_alist_delete [simp]:
  "fst ` set (AList.delete k al) = fst ` set al - {k}"
  by (metis dom_map_of_conv_image_fst AList.delete_conv' dom_fun_upd)

lemma map_of_alist_update [simp]: "map_of (AList.update k v al) = (map_of al)(k \<mapsto> v)"
  by (rule AList.update_conv')

lemma map_of_alist_delete [simp]: "map_of (AList.delete k al) = (map_of al)(k := None)"
  by (rule AList.delete_conv')

lemma update_absent: "i \<notin> fst ` set xs \<Longrightarrow> AList.update i p xs = xs @ [(i, p)]"
  by (induction xs) auto

lemma update_new: "map_of xs i = None \<Longrightarrow> AList.update i p xs = xs @ [(i, p)]"
  by (rule update_absent) (simp add: map_of_eq_None_iff)

lemma set_alist_update:
  "distinct (map fst al) \<Longrightarrow>
    set (AList.update k v al) = insert (k, v) {p \<in> set al. fst p \<noteq> k}"
  by (induction al) (auto simp: image_iff)

lemma set_alist_delete: "set (AList.delete k al) = {p \<in> set al. fst p \<noteq> k}"
  by (auto simp: AList.delete_eq)

lemma map_of_SomeI: "distinct (map fst al) \<Longrightarrow> (k, v) \<in> set al \<Longrightarrow> map_of al k = Some v"
  by simp

subsection \<open>Sorting\<close>

text \<open>
  \<^verbatim>\<open>sort.Slice\<close> with a strict comparison on keys. Go's sort is not stable, so where keys
  tie the order is open; \<open>sort_key\<close> is one of the permitted results and the only one when
  the keys are distinct. \<open>sort_desc\<close> is the same for the comparison \<open>>\<close>.
\<close>

definition sort_desc :: "('a \<Rightarrow> 'k::linorder) \<Rightarrow> 'a list \<Rightarrow> 'a list" where
  "sort_desc f xs = rev (sort_key f xs)"

lemma set_sort_desc [simp]: "set (sort_desc f xs) = set xs"
  by (simp add: sort_desc_def)

lemma mset_sort_desc [simp]: "mset (sort_desc f xs) = mset xs"
  by (simp add: sort_desc_def)

lemma length_sort_desc [simp]: "length (sort_desc f xs) = length xs"
  by (simp add: sort_desc_def)

lemma sort_key_empty [simp]: "sort_key f xs = [] \<longleftrightarrow> xs = []"
  by (metis length_0_conv length_sort)

lemma sort_desc_empty [simp]: "sort_desc f xs = [] \<longleftrightarrow> xs = []"
  by (simp add: sort_desc_def)

lemma sorted_sort_desc: "sorted_wrt (\<lambda>x y. f y \<le> f x) (sort_desc f xs)"
proof -
  have "sorted_wrt (\<lambda>x y. f x \<le> f y) (sort_key f xs)"
    using sorted_sort_key [of f xs] by (simp add: sorted_map)
  then show ?thesis by (simp add: sort_desc_def sorted_wrt_rev)
qed

lemma hd_sort_key_min: "xs \<noteq> [] \<Longrightarrow> y \<in> set xs \<Longrightarrow> f (hd (sort_key f xs)) \<le> f y"
proof -
  assume ne: "xs \<noteq> []" and y: "y \<in> set xs"
  obtain z zs where s: "sort_key f xs = z # zs"
    using ne by (metis length_0_conv length_sort neq_Nil_conv)
  have "sorted (map f (z # zs))" using sorted_sort_key [of f xs] by (simp add: s)
  moreover have "y \<in> set (z # zs)" using y s by (metis set_sort)
  ultimately show ?thesis by (auto simp: s)
qed

lemma sort_key_unique:
  assumes "set xs = set ys" "distinct (map f xs)" "distinct (map f ys)"
  shows "sort_key f xs = sort_key f ys"
proof (rule map_sorted_distinct_set_unique [of f])
  have "inj_on f (set xs)" using assms(2) by (simp add: distinct_map)
  then show "inj_on f (set (sort_key f xs) \<union> set (sort_key f ys))" using assms(1) by simp
  have "distinct xs" "distinct ys" using assms(2,3) by (simp_all add: distinct_map)
  then show "distinct (map f (sort_key f xs))" "distinct (map f (sort_key f ys))"
    using assms by (simp_all add: distinct_map)
qed (use assms in simp_all)

subsection \<open>Unsigned words and their values\<close>

lemma word64_max_neq_0 [simp]: "(- 1 :: u64) \<noteq> 0"
  by simp

lemma unat64_less: "unat (w :: u64) < 2 ^ 64"
  using unsigned_less [of w] by simp

lemma unat_add_no_wrap: "unat a + unat b < 2 ^ 64 \<Longrightarrow> unat (a + b :: u64) = unat a + unat b"
  by (simp add: unat_word_ariths)

lemma unat_diff_no_wrap: "b \<le> a \<Longrightarrow> unat (a - b :: u64) = unat a - unat b"
  by (simp add: unat_sub word_le_nat_alt)

lemma unat_word_max: "unat (- 1 :: u64) = 2 ^ 64 - 1"
  by (simp add: unsigned_minus_1_eq_mask mask_eq_exp_minus_1)

end
