(* ===== verification/Models.thy ===== *)
theory Models
  imports Prelude
begin

text \<open>
  The stored entities of \<^verbatim>\<open>mt-manager/models\<close> (accounts, balances, orders, transactions)
  and the \<^verbatim>\<open>Hashable\<close> interface of \<^verbatim>\<open>mt-manager/merkletree/types.go\<close> that they
  implement.

  A Go struct is a record; an enumeration over \<^verbatim>\<open>uint8\<close> stays a \<open>u8\<close>, since
  \<^verbatim>\<open>Deserialize\<close> stores any byte in it. A fixed array is a byte list whose length the
  predicates \<open>wf_account\<close>, \<open>wf_balance\<close> and \<open>wf_order\<close> record. BLAKE3
  (\<^verbatim>\<open>github.com/zeebo/blake3\<close>) is the parameter \<open>H\<close>, from the bytes written to the
  hasher to \<^verbatim>\<open>Sum(nil)\<close>; \<^verbatim>\<open>crypto/rand\<close> bytes are an argument.
  The locale \<open>codec\<close> states what a \<^verbatim>\<open>Serialize\<close>/\<^verbatim>\<open>Deserialize\<close> pair owes its
  callers and is interpreted for the three entities that have one.
\<close>

subsection \<open>The interface of stored items\<close>

record 'a hashable =
  h_Hash :: "'a \<Rightarrow> bytes"
  h_Key :: "'a \<Rightarrow> bytes"
  h_ID :: "'a \<Rightarrow> u64"

definition EncodeKey :: "u64 \<Rightarrow> bytes" where
  "EncodeKey i = be_bytes 8 i"

record config =
  MaxDepth :: int
  CacheSize :: int
  CacheShards :: nat
  TopN :: int

definition DefaultConfig :: config where
  "DefaultConfig = \<lparr>MaxDepth = 3, CacheSize = 100000, CacheShards = 8, TopN = 0\<rparr>"

text \<open>\<^verbatim>\<open>fmt.Errorf("invalid ... data: expected at least n bytes, got m")\<close>\<close>

datatype codec_error = ShortData nat nat

subsection \<open>The contract of a fixed-width codec\<close>

locale codec =
  fixes size_of :: nat
    and wf :: "'a \<Rightarrow> bool"
    and enc :: "'a \<Rightarrow> bytes"
    and dec :: "'a \<Rightarrow> bytes \<Rightarrow> codec_error + 'a"
  assumes enc_length: "wf x \<Longrightarrow> length (enc x) = size_of"
    and dec_enc: "wf x \<Longrightarrow> dec z (enc x @ rest) = Inr x"
    and dec_short: "length bs < size_of \<Longrightarrow> dec z bs = Inl (ShortData size_of (length bs))"
    and dec_long: "size_of \<le> length bs \<Longrightarrow> \<exists>x. dec z bs = Inr x \<and> wf x \<and> enc x = take size_of bs"
begin

lemma dec_fails_iff: "(\<exists>e. dec z bs = Inl e) \<longleftrightarrow> length bs < size_of"
proof
  assume "\<exists>e. dec z bs = Inl e"
  then show "length bs < size_of" using dec_long [of bs z] by fastforce
qed (use dec_short in blast)

lemma enc_inject: "wf x \<Longrightarrow> wf y \<Longrightarrow> enc x = enc y \<longleftrightarrow> x = y"
  by (metis dec_enc sum.inject(2))

lemma dec_receiver_irrelevant: "dec z bs = dec z' bs"
proof (cases "length bs < size_of")
  case True
  then show ?thesis by (simp add: dec_short)
next
  case False
  then obtain x where x: "dec z bs = Inr x" "wf x" "enc x = take size_of bs"
    using dec_long [of bs z] by auto
  from dec_enc [OF x(2), of z' "drop size_of bs"] have "dec z' bs = Inr x"
    by (simp add: x(3))
  with x(1) show ?thesis by simp
qed

lemma dec_roundtrip_iff:
  assumes "wf x"
  shows "dec z bs = Inr x \<longleftrightarrow> size_of \<le> length bs \<and> take size_of bs = enc x"
proof
  assume d: "dec z bs = Inr x"
  with dec_short [of bs z] have long: "size_of \<le> length bs" by (cases "length bs < size_of") auto
  with dec_long [of bs z] d show "size_of \<le> length bs \<and> take size_of bs = enc x" by auto
next
  assume "size_of \<le> length bs \<and> take size_of bs = enc x"
  then have "bs = enc x @ drop size_of bs" by (metis append_take_drop_id)
  then show "dec z bs = Inr x" using dec_enc [OF assms] by metis
qed

end

subsection \<open>Accounts\<close>

definition StatusSystem :: u8 where "StatusSystem = 0"
definition StatusBlocked :: u8 where "StatusBlocked = 1"
definition StatusMM :: u8 where "StatusMM = 2"
definition StatusAlgo :: u8 where "StatusAlgo = 3"
definition StatusUser :: u8 where "StatusUser = 4"

definition AccountStatus_String :: "u8 \<Rightarrow> string" where
  "AccountStatus_String s =
    (let names = [''system'', ''blocked'', ''mm'', ''algo'', ''user'']
     in if unat s < length names then names ! unat s else ''unknown'')"

record account =
  acc_PublicKey :: bytes
  acc_UID :: u64
  acc_key :: bytes
  acc_EmailHash :: u64
  acc_Status :: u8

definition wf_account :: "account \<Rightarrow> bool" where
  "wf_account a \<longleftrightarrow> length (acc_PublicKey a) = 32 \<and> length (acc_key a) = 8"

definition Account_ID :: "account \<Rightarrow> u64" where
  "Account_ID a = acc_UID a"

definition Account_Key :: "account \<Rightarrow> bytes" where
  "Account_Key a = acc_key a"

definition Account_Hash :: "(bytes \<Rightarrow> bytes) \<Rightarrow> account \<Rightarrow> bytes" where
  "Account_Hash H a = arr32 (H (acc_key a @ be_bytes 8 (acc_EmailHash a) @ [acc_Status a]
                               @ acc_PublicKey a))"

definition NewAccount :: "bytes \<Rightarrow> u64 \<Rightarrow> u8 \<Rightarrow> account" where
  "NewAccount random uid status =
    \<lparr>acc_PublicKey = random, acc_UID = uid, acc_key = be_bytes 8 uid,
     acc_EmailHash = uid XOR 0xCAFEBABE, acc_Status = status\<rparr>"

definition NewAccountFactory :: account where
  "NewAccountFactory =
    \<lparr>acc_PublicKey = replicate 32 0, acc_UID = 0, acc_key = replicate 8 0,
     acc_EmailHash = 0, acc_Status = 0\<rparr>"

definition Account_Serialize :: "account \<Rightarrow> bytes" where
  "Account_Serialize a = acc_PublicKey a @ be_bytes 8 (acc_UID a) @ acc_key a
     @ be_bytes 8 (acc_EmailHash a) @ [acc_Status a]"

definition Account_Deserialize :: "account \<Rightarrow> bytes \<Rightarrow> codec_error + account" where
  "Account_Deserialize a data =
    (if length data < 57 then Inl (ShortData 57 (length data))
     else Inr (a\<lparr>acc_PublicKey := go_slice 0 32 data,
                acc_UID := be_word (go_slice 32 8 data),
                acc_key := go_slice 40 8 data,
                acc_EmailHash := be_word (go_slice 48 8 data),
                acc_Status := data ! 56\<rparr>))"

subsection \<open>Balances\<close>

record balance =
  bal_UserID :: u64
  bal_AssetID :: u32
  bal_Available :: u64
  bal_Locked :: u64
  bal_key :: bytes

definition wf_balance :: "balance \<Rightarrow> bool" where
  "wf_balance b \<longleftrightarrow> length (bal_key b) = 8"

definition Balance_ID :: "balance \<Rightarrow> u64" where
  "Balance_ID b = push_bit 32 (bal_UserID b) OR ucast (bal_AssetID b)"

definition Balance_Key :: "balance \<Rightarrow> bytes" where
  "Balance_Key b = bal_key b"

definition Balance_Hash :: "(bytes \<Rightarrow> bytes) \<Rightarrow> balance \<Rightarrow> bytes" where
  "Balance_Hash H b = arr32 (H (bal_key b @ be_bytes 8 (bal_UserID b) @ be_bytes 4 (bal_AssetID b)
     @ be_bytes 8 (bal_Available b) @ be_bytes 8 (bal_Locked b)))"

definition NewBalance :: "u64 \<Rightarrow> u32 \<Rightarrow> u64 \<Rightarrow> u64 \<Rightarrow> balance" where
  "NewBalance userID assetID available locked =
    \<lparr>bal_UserID = userID, bal_AssetID = assetID, bal_Available = available,
     bal_Locked = locked, bal_key = be_bytes 8 (push_bit 32 userID OR ucast assetID :: u64)\<rparr>"

definition TotalBalance :: "balance \<Rightarrow> u64" where
  "TotalBalance b = bal_Available b + bal_Locked b"

definition CanWithdraw :: "balance \<Rightarrow> u64 \<Rightarrow> bool" where
  "CanWithdraw b amount \<longleftrightarrow> bal_Available b \<ge> amount"

definition Balance_Serialize :: "balance \<Rightarrow> bytes" where
  "Balance_Serialize b = be_bytes 8 (bal_UserID b) @ be_bytes 4 (bal_AssetID b)
     @ be_bytes 8 (bal_Available b) @ be_bytes 8 (bal_Locked b) @ bal_key b"

definition Balance_Deserialize :: "balance \<Rightarrow> bytes \<Rightarrow> codec_error + balance" where
  "Balance_Deserialize b data =
    (if length data < 36 then Inl (ShortData 36 (length data))
     else Inr (b\<lparr>bal_UserID := be_word (go_slice 0 8 data),
                bal_AssetID := be_word (go_slice 8 4 data),
                bal_Available := be_word (go_slice 12 8 data),
                bal_Locked := be_word (go_slice 20 8 data),
                bal_key := go_slice 28 8 data\<rparr>))"

definition NewBalanceFactory :: balance where
  "NewBalanceFactory = \<lparr>bal_UserID = 0, bal_AssetID = 0, bal_Available = 0, bal_Locked = 0,
     bal_key = replicate 8 0\<rparr>"

subsection \<open>Orders\<close>

record order_item =
  oi_OrderID :: u64
  oi_UserID :: u64
  oi_Symbol :: u32
  oi_Price :: u64
  oi_Quantity :: u64
  oi_Filled :: u64
  oi_Side :: u8
  oi_Type :: u8
  oi_Timestamp :: u64
  oi_key :: bytes

definition wf_order_item :: "order_item \<Rightarrow> bool" where
  "wf_order_item x \<longleftrightarrow> length (oi_key x) = 8"

definition OrderItem_ID :: "order_item \<Rightarrow> u64" where
  "OrderItem_ID x = oi_OrderID x"

definition OrderItem_Key :: "order_item \<Rightarrow> bytes" where
  "OrderItem_Key x = oi_key x"

definition OrderItem_Hash :: "(bytes \<Rightarrow> bytes) \<Rightarrow> order_item \<Rightarrow> bytes" where
  "OrderItem_Hash H x = arr32 (H (oi_key x @ be_bytes 8 (oi_UserID x) @ be_bytes 4 (oi_Symbol x)
     @ be_bytes 8 (oi_Price x) @ be_bytes 8 (oi_Quantity x) @ be_bytes 8 (oi_Filled x)
     @ [oi_Side x, oi_Type x] @ be_bytes 8 (oi_Timestamp x)))"

definition NewOrder :: "u64 \<Rightarrow> u64 \<Rightarrow> u32 \<Rightarrow> u64 \<Rightarrow> u64 \<Rightarrow> u8 \<Rightarrow> u8 \<Rightarrow> order_item" where
  "NewOrder orderID userID symbol price quantity side typ =
    \<lparr>oi_OrderID = orderID, oi_UserID = userID, oi_Symbol = symbol, oi_Price = price,
     oi_Quantity = quantity, oi_Filled = 0, oi_Side = side, oi_Type = typ, oi_Timestamp = 0,
     oi_key = be_bytes 8 orderID\<rparr>"

definition OrderItem_IsFilled :: "order_item \<Rightarrow> bool" where
  "OrderItem_IsFilled x \<longleftrightarrow> oi_Filled x \<ge> oi_Quantity x"

definition RemainingQuantity :: "order_item \<Rightarrow> u64" where
  "RemainingQuantity x =
    (if oi_Filled x \<ge> oi_Quantity x then 0 else oi_Quantity x - oi_Filled x)"

definition OrderItem_Serialize :: "order_item \<Rightarrow> bytes" where
  "OrderItem_Serialize x = be_bytes 8 (oi_OrderID x) @ be_bytes 8 (oi_UserID x)
     @ be_bytes 4 (oi_Symbol x) @ be_bytes 8 (oi_Price x) @ be_bytes 8 (oi_Quantity x)
     @ be_bytes 8 (oi_Filled x) @ [oi_Side x] @ [oi_Type x] @ be_bytes 8 (oi_Timestamp x)
     @ oi_key x"

definition OrderItem_Deserialize :: "order_item \<Rightarrow> bytes \<Rightarrow> codec_error + order_item" where
  "OrderItem_Deserialize x data =
    (if length data < 62 then Inl (ShortData 62 (length data))
     else Inr (x\<lparr>oi_OrderID := be_word (go_slice 0 8 data),
                oi_UserID := be_word (go_slice 8 8 data),
                oi_Symbol := be_word (go_slice 16 4 data),
                oi_Price := be_word (go_slice 20 8 data),
                oi_Quantity := be_word (go_slice 28 8 data),
                oi_Filled := be_word (go_slice 36 8 data),
                oi_Side := data ! 44,
                oi_Type := data ! 45,
                oi_Timestamp := be_word (go_slice 46 8 data),
                oi_key := go_slice 54 8 data\<rparr>))"

definition NewOrderFactory :: order_item where
  "NewOrderFactory = \<lparr>oi_OrderID = 0, oi_UserID = 0, oi_Symbol = 0, oi_Price = 0,
     oi_Quantity = 0, oi_Filled = 0, oi_Side = 0, oi_Type = 0, oi_Timestamp = 0,
     oi_key = replicate 8 0\<rparr>"

subsection \<open>Transactions\<close>

record transaction =
  tx_TxID :: u64
  tx_UserID :: u64
  tx_AssetID :: u32
  tx_Amount :: u64
  tx_Type :: u8
  tx_Timestamp :: u64
  tx_key :: bytes

definition Transaction_ID :: "transaction \<Rightarrow> u64" where
  "Transaction_ID t = tx_TxID t"

definition Transaction_Key :: "transaction \<Rightarrow> bytes" where
  "Transaction_Key t = tx_key t"

definition Transaction_Hash :: "(bytes \<Rightarrow> bytes) \<Rightarrow> transaction \<Rightarrow> bytes" where
  "Transaction_Hash H t = arr32 (H (tx_key t @ be_bytes 8 (tx_UserID t) @ be_bytes 4 (tx_AssetID t)
     @ be_bytes 8 (tx_Amount t) @ [tx_Type t] @ be_bytes 8 (tx_Timestamp t)))"

definition NewTransaction :: "u64 \<Rightarrow> u64 \<Rightarrow> u32 \<Rightarrow> u64 \<Rightarrow> u8 \<Rightarrow> u64 \<Rightarrow> transaction" where
  "NewTransaction txID userID assetID amount typ timestamp =
    \<lparr>tx_TxID = txID, tx_UserID = userID, tx_AssetID = assetID, tx_Amount = amount,
     tx_Type = typ, tx_Timestamp = timestamp, tx_key = be_bytes 8 txID\<rparr>"

subsection \<open>The codecs meet their contract\<close>

lemma nth_slice: "i < length xs \<Longrightarrow> go_slice i (Suc 0) xs = [xs ! i]"
  by (simp add: go_slice_def take_Suc hd_drop_conv_nth)

lemma slice_append_slice: "go_slice i m xs @ go_slice (i + m) n xs = go_slice i (m + n) xs"
  by (simp add: go_slice_def take_add add.commute)

lemmas be_word_slice = be_bytes64_be_word be_bytes32_be_word

interpretation account_codec:
  codec 57 wf_account Account_Serialize Account_Deserialize
proof
  fix x z :: account and bs rest :: bytes
  show "wf_account x \<Longrightarrow> length (Account_Serialize x) = 57"
    by (simp add: wf_account_def Account_Serialize_def)
  show "wf_account x \<Longrightarrow> Account_Deserialize z (Account_Serialize x @ rest) = Inr x"
    by (simp add: wf_account_def Account_Serialize_def Account_Deserialize_def codec_simps
        nth_append)
  show "length bs < 57 \<Longrightarrow> Account_Deserialize z bs = Inl (ShortData 57 (length bs))"
    by (simp add: Account_Deserialize_def)
  assume long: "57 \<le> length bs"
  have "go_slice 0 32 bs @ go_slice 32 8 bs @ go_slice 40 8 bs @ go_slice 48 8 bs @ go_slice 56 1 bs = take 57 bs"
    using slice_append_slice [of 48 8 bs 1] slice_append_slice [of 40 8 bs 9]
      slice_append_slice [of 32 8 bs 17] slice_append_slice [of 0 32 bs 25]
    by (simp add: go_slice_def)
  with long show "\<exists>x. Account_Deserialize z bs = Inr x \<and> wf_account x
      \<and> Account_Serialize x = take 57 bs"
    by (simp add: wf_account_def Account_Serialize_def Account_Deserialize_def be_word_slice
        nth_slice)
qed

interpretation balance_codec:
  codec 36 wf_balance Balance_Serialize Balance_Deserialize
proof
  fix x z :: balance and bs rest :: bytes
  show "wf_balance x \<Longrightarrow> length (Balance_Serialize x) = 36"
    by (simp add: wf_balance_def Balance_Serialize_def)
  show "wf_balance x \<Longrightarrow> Balance_Deserialize z (Balance_Serialize x @ rest) = Inr x"
    by (simp add: wf_balance_def Balance_Serialize_def Balance_Deserialize_def codec_simps)
  show "length bs < 36 \<Longrightarrow> Balance_Deserialize z bs = Inl (ShortData 36 (length bs))"
    by (simp add: Balance_Deserialize_def)
  assume long: "36 \<le> length bs"
  have "go_slice 0 8 bs @ go_slice 8 4 bs @ go_slice 12 8 bs @ go_slice 20 8 bs @ go_slice 28 8 bs = take 36 bs"
    using slice_append_slice [of 20 8 bs 8] slice_append_slice [of 12 8 bs 16]
      slice_append_slice [of 8 4 bs 24] slice_append_slice [of 0 8 bs 28]
    by (simp add: go_slice_def)
  with long show "\<exists>x. Balance_Deserialize z bs = Inr x \<and> wf_balance x
      \<and> Balance_Serialize x = take 36 bs"
    by (simp add: wf_balance_def Balance_Serialize_def Balance_Deserialize_def be_word_slice)
qed

interpretation order_codec:
  codec 62 wf_order_item OrderItem_Serialize OrderItem_Deserialize
proof
  fix x z :: order_item and bs rest :: bytes
  show "wf_order_item x \<Longrightarrow> length (OrderItem_Serialize x) = 62"
    by (simp add: wf_order_item_def OrderItem_Serialize_def)
  show "wf_order_item x \<Longrightarrow> OrderItem_Deserialize z (OrderItem_Serialize x @ rest) = Inr x"
    by (simp add: wf_order_item_def OrderItem_Serialize_def OrderItem_Deserialize_def codec_simps
        nth_append)
  show "length bs < 62 \<Longrightarrow> OrderItem_Deserialize z bs = Inl (ShortData 62 (length bs))"
    by (simp add: OrderItem_Deserialize_def)
  assume long: "62 \<le> length bs"
  have "go_slice 0 8 bs @ go_slice 8 8 bs @ go_slice 16 4 bs @ go_slice 20 8 bs @ go_slice 28 8 bs
      @ go_slice 36 8 bs @ go_slice 44 1 bs @ go_slice 45 1 bs @ go_slice 46 8 bs @ go_slice 54 8 bs = take 62 bs"
    using slice_append_slice [of 46 8 bs 8] slice_append_slice [of 45 1 bs 16]
      slice_append_slice [of 44 1 bs 17] slice_append_slice [of 36 8 bs 18]
      slice_append_slice [of 28 8 bs 26] slice_append_slice [of 20 8 bs 34]
      slice_append_slice [of 16 4 bs 42] slice_append_slice [of 8 8 bs 46]
      slice_append_slice [of 0 8 bs 54]
    by (simp add: go_slice_def)
  with long show "\<exists>x. OrderItem_Deserialize z bs = Inr x \<and> wf_order_item x
      \<and> OrderItem_Serialize x = take 62 bs"
    by (simp add: wf_order_item_def OrderItem_Serialize_def OrderItem_Deserialize_def
        be_word_slice nth_slice)
qed

subsection \<open>Properties\<close>

text \<open>C32. Orders survive storage: whatever object \<^verbatim>\<open>Deserialize\<close> is called on, it
  returns a well-formed order exactly for the byte strings that begin with that order's
  \<^verbatim>\<open>Serialize\<close> output, and it fails exactly on fewer than 62 bytes.\<close>

theorem order_item_codec:
  assumes "wf_order_item x"
  shows "(OrderItem_Deserialize z bs = Inr x \<longleftrightarrow> 62 \<le> length bs \<and> take 62 bs = OrderItem_Serialize x)
    \<and> ((\<exists>e. OrderItem_Deserialize z bs = Inl e) \<longleftrightarrow> length bs < 62)"
  using order_codec.dec_roundtrip_iff [OF assms] order_codec.dec_fails_iff by simp

lemma order_item_codec_witness:
  "OrderItem_Deserialize NewOrderFactory (OrderItem_Serialize (NewOrder 7 1 2 100 5 0 1) @ [9])
    = Inr (NewOrder 7 1 2 100 5 0 1)"
proof -
  have wf: "wf_order_item (NewOrder 7 1 2 100 5 0 1)" by (simp add: wf_order_item_def NewOrder_def)
  have "length (OrderItem_Serialize (NewOrder 7 1 2 100 5 0 1)) = 62"
    by (simp add: OrderItem_Serialize_def NewOrder_def)
  with order_item_codec [OF wf] show ?thesis by simp
qed

text \<open>Accounts survive storage: \<^verbatim>\<open>Deserialize\<close> returns a well-formed account exactly
  for the byte strings that begin with its \<^verbatim>\<open>Serialize\<close> output, and fails exactly on
  fewer than 57 bytes.\<close>

theorem account_codec_exact:
  assumes "wf_account x"
  shows "(Account_Deserialize z bs = Inr x \<longleftrightarrow> 57 \<le> length bs \<and> take 57 bs = Account_Serialize x)
    \<and> ((\<exists>e. Account_Deserialize z bs = Inl e) \<longleftrightarrow> length bs < 57)"
  using account_codec.dec_roundtrip_iff [OF assms] account_codec.dec_fails_iff by simp

lemma account_codec_exact_witness:
  "Account_Deserialize NewAccountFactory (Account_Serialize (NewAccount (replicate 32 5) 7 StatusUser))
    = Inr (NewAccount (replicate 32 5) 7 StatusUser)"
proof -
  have wf: "wf_account (NewAccount (replicate 32 5) 7 StatusUser)" by (simp add: wf_account_def NewAccount_def)
  have "length (Account_Serialize (NewAccount (replicate 32 5) 7 StatusUser)) = 57"
    by (simp add: Account_Serialize_def NewAccount_def)
  with account_codec_exact [OF wf] show ?thesis by simp
qed

text \<open>Balances survive storage: \<^verbatim>\<open>Deserialize\<close> returns a well-formed balance exactly
  for the byte strings that begin with its \<^verbatim>\<open>Serialize\<close> output, and fails exactly on
  fewer than 36 bytes.\<close>

theorem balance_codec_exact:
  assumes "wf_balance x"
  shows "(Balance_Deserialize z bs = Inr x \<longleftrightarrow> 36 \<le> length bs \<and> take 36 bs = Balance_Serialize x)
    \<and> ((\<exists>e. Balance_Deserialize z bs = Inl e) \<longleftrightarrow> length bs < 36)"
  using balance_codec.dec_roundtrip_iff [OF assms] balance_codec.dec_fails_iff by simp

lemma balance_codec_exact_witness:
  "Balance_Deserialize NewBalanceFactory (Balance_Serialize (NewBalance 3 2 100 5)) = Inr (NewBalance 3 2 100 5)"
proof -
  have wf: "wf_balance (NewBalance 3 2 100 5)" by (simp add: wf_balance_def NewBalance_def)
  have "length (Balance_Serialize (NewBalance 3 2 100 5)) = 36"
    by (simp add: Balance_Serialize_def NewBalance_def)
  with balance_codec_exact [OF wf] show ?thesis by simp
qed

lemma Balance_ID_bits:
  "bit (Balance_ID b) n \<longleftrightarrow> (if n < 32 then bit (bal_AssetID b) n else n < 64 \<and> bit (bal_UserID b) (n - 32))"
  by (auto simp: Balance_ID_def bit_simps dest: bit_imp_le_length)

lemma Balance_ID_eq_iff:
  "Balance_ID b = Balance_ID c \<longleftrightarrow>
    take_bit 32 (bal_UserID b) = take_bit 32 (bal_UserID c) \<and> bal_AssetID b = bal_AssetID c"
proof
  assume eq: "Balance_ID b = Balance_ID c"
  have bits: "bit (Balance_ID b) n = bit (Balance_ID c) n" for n by (simp add: eq)
  have "take_bit 32 (bal_UserID b) = take_bit 32 (bal_UserID c)"
  proof (rule bit_eqI)
    fix n
    show "bit (take_bit 32 (bal_UserID b)) n = bit (take_bit 32 (bal_UserID c)) n"
      using bits [of "n + 32"] by (auto simp: Balance_ID_bits bit_simps)
  qed
  moreover have "bal_AssetID b = bal_AssetID c"
  proof (rule bit_eqI)
    fix n assume "possible_bit TYPE(32 word) n"
    then show "bit (bal_AssetID b) n = bit (bal_AssetID c) n"
      using bits [of n] by (simp add: Balance_ID_bits)
  qed
  ultimately show "take_bit 32 (bal_UserID b) = take_bit 32 (bal_UserID c) \<and> bal_AssetID b = bal_AssetID c"
    by simp
next
  assume r: "take_bit 32 (bal_UserID b) = take_bit 32 (bal_UserID c) \<and> bal_AssetID b = bal_AssetID c"
  then have user: "bit (bal_UserID b) n = bit (bal_UserID c) n" if "n < 32" for n
    using that bit_take_bit_iff [of 32 "bal_UserID b" n] bit_take_bit_iff [of 32 "bal_UserID c" n] by simp
  show "Balance_ID b = Balance_ID c"
    by (rule bit_eqI) (use r user in \<open>auto simp: Balance_ID_bits\<close>)
qed

text \<open>A balance's ID, which is also its tree key, is unique per user and asset only below
  \<open>2 ^ 32\<close> users: under that bound equal IDs mean equal user and asset, and
  without it the balances of the users \<open>u\<close> and \<open>u + 2 ^ 32\<close> always collide.\<close>

theorem balance_id_unique_below_32_bits:
  "(unat (bal_UserID b) < 2 ^ 32 \<longrightarrow> unat (bal_UserID c) < 2 ^ 32 \<longrightarrow> Balance_ID b = Balance_ID c \<longrightarrow>
      bal_UserID b = bal_UserID c \<and> bal_AssetID b = bal_AssetID c)
    \<and> Balance_ID (b\<lparr>bal_UserID := bal_UserID b + 2 ^ 32\<rparr>) = Balance_ID b
    \<and> bal_key (NewBalance u a x y) = EncodeKey (Balance_ID (NewBalance u a x y))"
proof -
  have small: "take_bit 32 w = w" if "unat w < 2 ^ 32" for w :: u64
    using that by (simp only: take_bit_eq_mod) (simp add: word_unat_eq_iff unat_mod)
  have "take_bit 32 (bal_UserID b + 2 ^ 32) = take_bit 32 (bal_UserID b)"
    by (simp only: take_bit_eq_mod)
       (simp add: word_unat_eq_iff unat_mod unat_word_ariths mod_mod_cancel)
  then have "Balance_ID (b\<lparr>bal_UserID := bal_UserID b + 2 ^ 32\<rparr>) = Balance_ID b"
    by (simp add: Balance_ID_eq_iff)
  moreover have "bal_key (NewBalance u a x y) = EncodeKey (Balance_ID (NewBalance u a x y))"
    by (simp add: NewBalance_def EncodeKey_def Balance_ID_def)
  ultimately show ?thesis using small by (auto simp: Balance_ID_eq_iff)
qed

lemma balance_id_unique_witness:
  "Balance_ID (NewBalance 4294967297 5 0 0) = Balance_ID (NewBalance 1 5 9 9)"
  using balance_id_unique_below_32_bits [of "NewBalance 1 5 0 0"]
  by (simp add: NewBalance_def Balance_ID_def)

end
