(* ===== verification/MetaTree.thy ===== *)
theory MetaTree
  imports Prelude
begin

text \<open>
  The Merkle tree over the roots of all trees of a manager:
  \<^verbatim>\<open>computeMerkleRoot\<close> and \<^verbatim>\<open>computeProofPath\<close> of
  \<^verbatim>\<open>mt-manager/merkletree/manager.go\<close> and \<^verbatim>\<open>MerkleProof.Verify\<close> of
  \<^verbatim>\<open>merkle_proof.go\<close>. The methods read no field of the manager, so they are functions
  of the hash function \<open>H\<close> and their arguments.
\<close>

subsection \<open>The root\<close>

text \<open>One pass of the inner loop: pairs are hashed, a missing right hash is the zero hash.\<close>

definition node_hash :: "(bytes \<Rightarrow> bytes) \<Rightarrow> bytes \<Rightarrow> bytes \<Rightarrow> bytes" where
  "node_hash H l r = arr32 (H (l @ r))"

fun next_level :: "(bytes \<Rightarrow> bytes) \<Rightarrow> bytes list \<Rightarrow> bytes list" where
  "next_level H [] = []"
| "next_level H [l] = [node_hash H l zero32]"
| "next_level H (l # r # hs) = node_hash H l r # next_level H hs"

lemma length_next_level: "length (next_level H hs) = (length hs + 1) div 2"
  by (induction H hs rule: next_level.induct) auto

function merkle_levels :: "(bytes \<Rightarrow> bytes) \<Rightarrow> bytes list \<Rightarrow> bytes" where
  "merkle_levels H currentLevel =
    (if 1 < length currentLevel then merkle_levels H (next_level H currentLevel)
     else currentLevel ! 0)"
  by pat_completeness auto
termination
  by (relation "measure (\<lambda>(H, hs). length hs)") (auto simp: length_next_level)

declare merkle_levels.simps [simp del]

definition computeMerkleRoot :: "(bytes \<Rightarrow> bytes) \<Rightarrow> bytes list \<Rightarrow> bytes" where
  "computeMerkleRoot H hashes =
    (if length hashes = 0 then zero32
     else if length hashes = 1 then hashes ! 0
     else merkle_levels H hashes)"

subsection \<open>The proof path\<close>

text \<open>
  The inner loop at level position \<open>i\<close>: at the pair that holds \<open>currentIndex\<close> (whose low
  bit \<^verbatim>\<open>&^1\<close> clears) the sibling and its side are appended, and the next level is built.
  \<open>acc\<close> is the pair of \<^verbatim>\<open>proofPath\<close> and \<^verbatim>\<open>isLeft\<close>.
\<close>

definition proof_step :: "nat \<Rightarrow> nat \<Rightarrow> bytes \<Rightarrow> bytes \<Rightarrow> bytes list \<times> bool list
    \<Rightarrow> bytes list \<times> bool list" where
  "proof_step i currentIndex leftHash rightHash acc =
    (if i = currentIndex - currentIndex mod 2
     then if currentIndex mod 2 = 0 then (fst acc @ [rightHash], snd acc @ [True])
          else (fst acc @ [leftHash], snd acc @ [False])
     else acc)"

fun proof_scan :: "(bytes \<Rightarrow> bytes) \<Rightarrow> nat \<Rightarrow> nat \<Rightarrow> bytes list \<Rightarrow> bytes list \<times> bool list
    \<Rightarrow> bytes list \<times> bytes list \<times> bool list" where
  "proof_scan H i currentIndex [] acc = ([], acc)"
| "proof_scan H i currentIndex [leftHash] acc =
    ([node_hash H leftHash zero32], proof_step i currentIndex leftHash zero32 acc)"
| "proof_scan H i currentIndex (leftHash # rightHash # hs) acc =
    (let (nextLevel, acc') =
       proof_scan H (i + 2) currentIndex hs (proof_step i currentIndex leftHash rightHash acc)
     in (node_hash H leftHash rightHash # nextLevel, acc'))"

lemma proof_scan_next: "fst (proof_scan H i idx hs acc) = next_level H hs"
  by (induction H i idx hs acc rule: proof_scan.induct) (simp_all add: split_beta)

function proof_levels :: "(bytes \<Rightarrow> bytes) \<Rightarrow> bytes list \<Rightarrow> nat \<Rightarrow> bytes list \<times> bool list
    \<Rightarrow> bytes list \<times> bool list" where
  "proof_levels H currentLevel currentIndex acc =
    (if 1 < length currentLevel
     then proof_levels H (fst (proof_scan H 0 currentIndex currentLevel acc)) (currentIndex div 2)
            (snd (proof_scan H 0 currentIndex currentLevel acc))
     else acc)"
  by pat_completeness auto
termination
  by (relation "measure (\<lambda>(H, hs, _). length hs)") (auto simp: proof_scan_next length_next_level)

declare proof_levels.simps [simp del]

definition computeProofPath :: "(bytes \<Rightarrow> bytes) \<Rightarrow> bytes list \<Rightarrow> nat \<Rightarrow> bytes list \<times> bool list" where
  "computeProofPath H hashes targetIndex =
    (if length hashes \<le> 1 then ([], []) else proof_levels H hashes targetIndex ([], []))"

subsection \<open>Verification\<close>

record merkle_proof =
  mp_TreeName :: string
  mp_TreeRoot :: bytes
  mp_ProofPath :: "bytes list"
  mp_IsLeft :: "bool list"
  mp_GlobalRoot :: bytes

text \<open>\<open>None\<close> is the panic of \<^verbatim>\<open>proof.IsLeft[i]\<close> out of range.\<close>

fun verify_loop :: "(bytes \<Rightarrow> bytes) \<Rightarrow> bytes \<Rightarrow> bytes list \<Rightarrow> bool list \<Rightarrow> bytes option" where
  "verify_loop H currentHash [] lefts = Some currentHash"
| "verify_loop H currentHash (p # ps) [] = None"
| "verify_loop H currentHash (p # ps) (isLeft # lefts) =
    verify_loop H
      (copy_to currentHash (if isLeft then H (currentHash @ p) else H (p @ currentHash)))
      ps lefts"

definition Verify :: "(bytes \<Rightarrow> bytes) \<Rightarrow> merkle_proof \<Rightarrow> bool option" where
  "Verify H p = map_option (\<lambda>h. h = mp_GlobalRoot p)
     (verify_loop H (mp_TreeRoot p) (mp_ProofPath p) (mp_IsLeft p))"

subsection \<open>Every generated proof verifies\<close>

definition sibling :: "bytes list \<Rightarrow> nat \<Rightarrow> bytes" where
  "sibling hs i =
    (if even i then if Suc i < length hs then hs ! Suc i else zero32 else hs ! (i - 1))"

lemma proof_scan_passed:
  "even i \<Longrightarrow> idx < i \<Longrightarrow> snd (proof_scan H i idx hs acc) = acc"
  by (induction H i idx hs acc rule: proof_scan.induct)
     (auto simp: split_beta proof_step_def)

lemma proof_scan_hit:
  "even i \<Longrightarrow> i \<le> idx \<Longrightarrow> idx < i + length hs \<Longrightarrow>
    snd (proof_scan H i idx hs acc)
      = (fst acc @ [sibling hs (idx - i)], snd acc @ [even idx])"
proof (induction H i idx hs acc rule: proof_scan.induct)
  case (1 H i idx acc)
  then show ?case by simp
next
  case (2 H i idx l acc)
  then have "idx = i" by simp
  with "2.prems" show ?case by (simp add: proof_step_def sibling_def)
next
  case (3 H i idx l r hs acc)
  show ?case
  proof (cases "idx < i + 2")
    case True
    with "3.prems" have "idx = i \<or> idx = Suc i" by auto
    with "3.prems" True show ?thesis
      by (auto simp: split_beta proof_scan_passed proof_step_def sibling_def odd_iff_mod_2_eq_one)
  next
    case False
    with "3.prems" have skip: "proof_step i idx l r acc = acc"
      by (auto simp: proof_step_def)
    from False obtain d where d: "idx = i + 2 + d" by (metis le_Suc_ex not_less)
    have "sibling (l # r # hs) (d + 2) = sibling hs d"
      by (auto simp: sibling_def nth_Cons split: nat.split)
    moreover from skip d have "proof_step i (Suc (Suc (i + d))) l r acc = acc" by simp
    ultimately show ?thesis
      using "3.IH" "3.prems" False by (simp add: split_beta d)
  qed
qed

lemma next_level_nth:
  "i < length hs \<Longrightarrow>
    next_level H hs ! (i div 2)
      = (if even i then node_hash H (hs ! i) (sibling hs i)
         else node_hash H (sibling hs i) (hs ! i))"
proof (induction H hs arbitrary: i rule: next_level.induct)
  case (1 H)
  then show ?case by simp
next
  case (2 H l)
  then show ?case by (simp add: sibling_def)
next
  case (3 H l r hs)
  show ?case
  proof (cases "i < 2")
    case True
    then have "i = 0 \<or> i = 1" by auto
    then show ?thesis by (auto simp: sibling_def)
  next
    case False
    then obtain j where j: "i = j + 2" by (metis le_Suc_ex add.commute not_less)
    have "sibling (l # r # hs) (j + 2) = sibling hs j"
      by (auto simp: sibling_def nth_Cons split: nat.split)
    with "3.IH" [of j] "3.prems" show ?thesis by (simp add: j)
  qed
qed

lemma verify_loop_append:
  "length ps = length ls \<Longrightarrow>
    verify_loop H h (ps @ qs) (ls @ ms)
      = Option.bind (verify_loop H h ps ls) (\<lambda>h'. verify_loop H h' qs ms)"
  by (induction ps ls arbitrary: h rule: list_induct2) auto

lemma proof_levels_acc:
  assumes "length currentLevel = n" "i < n"
  shows "\<exists>ps ls. length ps = length ls \<and>
    proof_levels H currentLevel i acc = (fst acc @ ps, snd acc @ ls) \<and>
    ((\<forall>x. length (H x) = 32) \<longrightarrow> length (currentLevel ! i) = 32 \<longrightarrow>
      verify_loop H (currentLevel ! i) ps ls = Some (merkle_levels H currentLevel))"
  using assms
proof (induction n arbitrary: currentLevel i acc rule: less_induct)
  case (less n)
  let ?hs = "currentLevel"
  show ?case
  proof (cases "1 < n")
    case False
    with less.prems have "i = 0" by linarith
    with False less.prems have "proof_levels H ?hs i acc = acc" "merkle_levels H ?hs = ?hs ! i"
      by (auto simp: proof_levels.simps [of H ?hs] merkle_levels.simps [of H ?hs])
    then show ?thesis by (intro exI [of _ "[]"]) simp
  next
    case True
    let ?s = "sibling ?hs i" and ?nl = "next_level H ?hs"
    have len: "length ?nl = (n + 1) div 2" and lt: "(n + 1) div 2 < n" and ilt: "i div 2 < (n + 1) div 2"
      using less.prems True by (auto simp: length_next_level)
    have scan: "proof_scan H 0 i ?hs acc = (?nl, fst acc @ [?s], snd acc @ [even i])"
      using less.prems proof_scan_hit [of 0 i ?hs H acc] proof_scan_next [of H 0 i ?hs acc]
      by (simp add: prod_eq_iff)
    obtain ps ls where ih: "length ps = length ls"
      "proof_levels H ?nl (i div 2) (fst acc @ [?s], snd acc @ [even i])
        = ((fst acc @ [?s]) @ ps, (snd acc @ [even i]) @ ls)"
      "(\<forall>x. length (H x) = 32) \<longrightarrow> length (?nl ! (i div 2)) = 32 \<longrightarrow>
        verify_loop H (?nl ! (i div 2)) ps ls = Some (merkle_levels H ?nl)"
      using less.IH [OF lt len ilt, of "(fst acc @ [?s], snd acc @ [even i])"] by auto
    have "proof_levels H ?hs i acc = (fst acc @ ?s # ps, snd acc @ even i # ls)"
      using True less.prems by (simp add: proof_levels.simps [of H ?hs] scan ih(2))
    moreover have "(\<forall>x. length (H x) = 32) \<longrightarrow> length (?hs ! i) = 32 \<longrightarrow>
        verify_loop H (?hs ! i) (?s # ps) (even i # ls) = Some (merkle_levels H ?hs)"
      using ih(3) True less.prems next_level_nth [of i ?hs H]
      by (auto simp: merkle_levels.simps [of H ?hs] node_hash_def)
    ultimately show ?thesis
      using ih(1) by (intro exI [of _ "?s # ps"] exI [of _ "even i # ls"]) simp
  qed
qed

text \<open>The same facts for \<^verbatim>\<open>computeProofPath\<close>, with the number of hashes on the path.\<close>

lemma computeProofPath_verifies:
  assumes "digest H" "i < length hs" "\<forall>h\<in>set hs. length h = 32"
  shows "length (fst (computeProofPath H hs i)) = length (snd (computeProofPath H hs i))"
    and "verify_loop H (hs ! i) (fst (computeProofPath H hs i)) (snd (computeProofPath H hs i))
      = Some (computeMerkleRoot H hs)"
proof -
  have len: "length (hs ! i) = 32" using assms by simp
  obtain ps ls where
    "length ps = length ls" "proof_levels H hs i ([], []) = (ps, ls)"
    "verify_loop H (hs ! i) ps ls = Some (merkle_levels H hs)"
    using proof_levels_acc [OF refl assms(2), of H "([], [])"] assms(1) len
    by (auto simp: digest_def)
  moreover have "\<not> 1 < length hs \<Longrightarrow> i = 0" using assms(2) by simp
  ultimately show
    "length (fst (computeProofPath H hs i)) = length (snd (computeProofPath H hs i))"
    "verify_loop H (hs ! i) (fst (computeProofPath H hs i)) (snd (computeProofPath H hs i))
      = Some (computeMerkleRoot H hs)"
    using assms(2)
    by (auto simp: computeProofPath_def computeMerkleRoot_def not_less le_Suc_eq)
qed

lemma length_proof_levels:
  assumes "length hs = n" "i < n"
  shows "\<exists>k. length (fst (proof_levels H hs i acc)) = length (fst acc) + k
    \<and> n \<le> 2 ^ k \<and> 2 ^ k < 2 * n"
  using assms
proof (induction n arbitrary: hs i acc rule: less_induct)
  case (less n)
  show ?case
  proof (cases "1 < n")
    case False
    with less.prems show ?thesis
      by (intro exI [of _ 0]) (auto simp: proof_levels.simps [of H hs])
  next
    case True
    let ?nl = "next_level H hs"
    have lt: "(n + 1) div 2 < n" and len: "length ?nl = (n + 1) div 2"
      and ilt: "i div 2 < (n + 1) div 2"
      using less.prems True by (auto simp: length_next_level)
    have scan: "proof_scan H 0 i hs acc = (?nl, fst acc @ [sibling hs i], snd acc @ [even i])"
      using less.prems proof_scan_hit [of 0 i hs H acc] proof_scan_next [of H 0 i hs acc]
      by (simp add: prod_eq_iff)
    obtain k where k: "length (fst (proof_levels H ?nl (i div 2) (fst acc @ [sibling hs i], snd acc @ [even i])))
        = Suc (length (fst acc)) + k" "(n + 1) div 2 \<le> 2 ^ k" "2 ^ k < 2 * ((n + 1) div 2)"
      using less.IH [OF lt len ilt, of "(fst acc @ [sibling hs i], snd acc @ [even i])"] by auto
    have "n \<le> 2 ^ Suc k" using k(2) unfolding power_Suc by linarith
    moreover have "2 ^ Suc k < 2 * n"
    proof (cases k)
      case 0
      with True show ?thesis by simp
    next
      case (Suc j)
      have "2 ^ Suc j < 2 * ((n + 1) div 2)" using k(3) Suc by simp
      then have "2 ^ j < (n + 1) div 2" by simp
      then have "2 * 2 ^ j < n" by linarith
      then show ?thesis using Suc by simp
    qed
    ultimately show ?thesis
      using k(1) True less.prems
      by (intro exI [of _ "Suc k"]) (simp add: proof_levels.simps [of H hs] scan)
  qed
qed

subsection \<open>A verified proof binds the tree root\<close>

text \<open>The byte strings that \<^verbatim>\<open>Verify\<close> hashes, in order.\<close>

fun verify_inputs :: "(bytes \<Rightarrow> bytes) \<Rightarrow> bytes \<Rightarrow> bytes list \<Rightarrow> bool list \<Rightarrow> bytes list" where
  "verify_inputs H currentHash (p # ps) (isLeft # lefts) =
    (let x = (if isLeft then currentHash @ p else p @ currentHash)
     in x # verify_inputs H (copy_to currentHash (H x)) ps lefts)"
| "verify_inputs H currentHash _ _ = []"

definition hashed_by_proof :: "(bytes \<Rightarrow> bytes) \<Rightarrow> merkle_proof \<Rightarrow> bytes list" where
  "hashed_by_proof H p = verify_inputs H (mp_TreeRoot p) (mp_ProofPath p) (mp_IsLeft p)"

text \<open>Two runs collide at a step: different strings, the same digest.\<close>

definition collide_at :: "(bytes \<Rightarrow> bytes) \<Rightarrow> bytes list \<Rightarrow> bytes list \<Rightarrow> nat \<Rightarrow> bool" where
  "collide_at H xs ys i \<longleftrightarrow> i < length xs \<and> i < length ys \<and> xs ! i \<noteq> ys ! i \<and> H (xs ! i) = H (ys ! i)"

lemma collide_at_Cons: "collide_at H xs ys i \<Longrightarrow> collide_at H (x # xs) (y # ys) (Suc i)"
  by (simp add: collide_at_def)

lemma verify_loop_binds:
  assumes "digest H" "length ps = length qs"
    and "length a = 32" "length b = 32" "\<forall>p\<in>set ps \<union> set qs. length p = 32"
    and "verify_loop H a ps ls = Some r" "verify_loop H b qs ls = Some r"
    and "a \<noteq> b"
  shows "\<exists>i. collide_at H (verify_inputs H a ps ls) (verify_inputs H b qs ls) i"
  using assms(2-)
proof (induction ps qs arbitrary: ls a b rule: list_induct2)
  case Nil
  then show ?case by simp
next
  case (Cons p ps q qs)
  then obtain l ls' where ls: "ls = l # ls'" by (cases ls) auto
  let ?x = "if l then a @ p else p @ a" and ?y = "if l then b @ q else q @ b"
  have ab: "length (H ?x) = 32" "length (H ?y) = 32" "?x \<noteq> ?y"
    using Cons.prems assms(1) by (auto simp: digest_def)
  have inputs: "verify_inputs H a (p # ps) ls = ?x # verify_inputs H (H ?x) ps ls'"
    "verify_inputs H b (q # qs) ls = ?y # verify_inputs H (H ?y) qs ls'"
    using Cons.prems ab by (simp_all add: ls Let_def)
  show ?case
  proof (cases "H ?x = H ?y")
    case True
    with ab show ?thesis unfolding inputs by (intro exI [of _ 0]) (simp add: collide_at_def)
  next
    case False
    have va: "verify_loop H (H ?x) ps ls' = Some r" and vb: "verify_loop H (H ?y) qs ls' = Some r"
      using Cons.prems ab by (auto simp: ls split: if_splits)
    have "\<exists>i. collide_at H (verify_inputs H (H ?x) ps ls') (verify_inputs H (H ?y) qs ls') i"
      by (rule Cons.IH [OF ab(1,2) _ va vb False]) (use Cons.prems ls in auto)
    then show ?thesis unfolding inputs by (blast intro: collide_at_Cons)
  qed
qed

lemma next_level_append_zero:
  "odd (length hs) \<Longrightarrow> next_level H (hs @ [zero32]) = next_level H hs"
  by (induction H hs rule: next_level.induct) auto

subsection \<open>Properties\<close>

lemma digest_arr32: "digest arr32"
  by (simp add: digest_def)

text \<open>C25. The proof that the manager builds for the tree at any position is accepted:
  \<^verbatim>\<open>Verify\<close> on the path of \<^verbatim>\<open>computeProofPath\<close> ends at the root that
  \<^verbatim>\<open>computeMerkleRoot\<close> computes, for any number of trees (odd levels included), and does
  not panic.\<close>

theorem meta_proof_complete:
  assumes "digest H" "i < length hs" "\<forall>h\<in>set hs. length h = 32"
    and "computeProofPath H hs i = (path, left)"
  shows "Verify H \<lparr>mp_TreeName = name, mp_TreeRoot = hs ! i, mp_ProofPath = path,
           mp_IsLeft = left, mp_GlobalRoot = computeMerkleRoot H hs\<rparr> = Some True"
  using computeProofPath_verifies [OF assms(1-3)] assms(4) by (simp add: Verify_def)

lemma meta_proof_complete_witness:
  "Verify arr32 \<lparr>mp_TreeName = ''t'', mp_TreeRoot = replicate 32 7,
     mp_ProofPath = fst (computeProofPath arr32 [zero32, zero32, replicate 32 7] 2),
     mp_IsLeft = snd (computeProofPath arr32 [zero32, zero32, replicate 32 7] 2),
     mp_GlobalRoot = computeMerkleRoot arr32 [zero32, zero32, replicate 32 7]\<rparr> = Some True"
  using meta_proof_complete [OF digest_arr32, of 2 "[zero32, zero32, replicate 32 7]" _ _ "''t''"]
  by (simp add: prod_eq_iff)

text \<open>C24. A proof binds the tree root: when two accepted proofs for the same position (the same
  sides) and the same global root disagree on the tree root, then at some step the two verifications
  hashed different strings to the same digest; the strings that \<^verbatim>\<open>Verify\<close> hashed contain
  the collision.\<close>

theorem meta_proof_sound:
  assumes "digest H" "Verify H p = Some True" "Verify H q = Some True"
    and "mp_GlobalRoot p = mp_GlobalRoot q" "mp_IsLeft p = mp_IsLeft q"
    and "length (mp_ProofPath p) = length (mp_ProofPath q)"
    and "length (mp_TreeRoot p) = 32" "length (mp_TreeRoot q) = 32"
    and "\<forall>h\<in>set (mp_ProofPath p) \<union> set (mp_ProofPath q). length h = 32"
    and "mp_TreeRoot p \<noteq> mp_TreeRoot q"
  shows "\<exists>i. collide_at H (hashed_by_proof H p) (hashed_by_proof H q) i"
proof -
  have vp: "verify_loop H (mp_TreeRoot p) (mp_ProofPath p) (mp_IsLeft p) = Some (mp_GlobalRoot q)"
    and vq: "verify_loop H (mp_TreeRoot q) (mp_ProofPath q) (mp_IsLeft p) = Some (mp_GlobalRoot q)"
    using assms(2-5) by (auto simp: Verify_def)
  from verify_loop_binds [OF assms(1,6,7,8,9) vp vq assms(10)] show ?thesis
    by (simp add: hashed_by_proof_def assms(5))
qed

definition proof_of :: "bytes \<Rightarrow> merkle_proof" where
  "proof_of r = \<lparr>mp_TreeName = ''t'', mp_TreeRoot = r, mp_ProofPath = [zero32],
     mp_IsLeft = [True], mp_GlobalRoot = zero32\<rparr>"

lemma meta_proof_sound_witness:
  "\<exists>i. collide_at (\<lambda>_. zero32) (hashed_by_proof (\<lambda>_. zero32) (proof_of (replicate 32 1)))
     (hashed_by_proof (\<lambda>_. zero32) (proof_of zero32)) i"
proof -
  have "replicate 32 1 \<noteq> zero32" by (simp add: zero32_def)
  then show ?thesis
    by (intro meta_proof_sound) (simp_all add: proof_of_def digest_def Verify_def)
qed

text \<open>A proof for one of \<open>n\<close> trees holds \<open>k\<close> hashes with \<open>n \<le> 2^k < 2n\<close>, the
  height of the tree, and as many side flags.\<close>

theorem meta_proof_length:
  assumes "i < length hs"
  shows "length hs \<le> 2 ^ length (fst (computeProofPath H hs i))
    \<and> 2 ^ length (fst (computeProofPath H hs i)) < 2 * length hs
    \<and> length (snd (computeProofPath H hs i)) = length (fst (computeProofPath H hs i))"
proof (cases "length hs \<le> 1")
  case True
  with assms show ?thesis by (auto simp: computeProofPath_def)
next
  case False
  then show ?thesis
    using length_proof_levels [OF refl assms, of H "([], [])"]
      proof_levels_acc [OF refl assms, of H "([], [])"]
    by (auto simp: computeProofPath_def)
qed

lemma meta_proof_length_witness:
  "5 \<le> (2::nat) ^ length (fst (computeProofPath arr32 (replicate 5 zero32) 4))
    \<and> 2 ^ length (fst (computeProofPath arr32 (replicate 5 zero32) 4)) < (10::nat)"
  using meta_proof_length [of 4 "replicate 5 zero32" arr32] by simp

text \<open>The padding is not committed: with an odd number (at least three) of trees, a further
  tree whose root is the zero hash (which an empty tree has) leaves the global root unchanged.\<close>

theorem meta_root_zero_padding:
  assumes "odd (length hs)" "1 < length hs"
  shows "computeMerkleRoot H (hs @ [zero32]) = computeMerkleRoot H hs"
  using assms
  by (simp add: computeMerkleRoot_def merkle_levels.simps [of H "hs @ [zero32]"]
      merkle_levels.simps [of H hs] next_level_append_zero)

lemma meta_root_zero_padding_witness:
  "computeMerkleRoot arr32 [[1], [2], [3], zero32] = computeMerkleRoot arr32 [[1], [2], [3]]"
  using meta_root_zero_padding [of "[[1], [2], [3]]" arr32] by simp

end
