(* ===== verification/OrderBook.thy ===== *)
theory OrderBook
  imports Prelude
begin

text \<open>
  The order book of \<^verbatim>\<open>verkle-orderbook/main.go\<close>: its data, the arithmetic and slot
  helpers, the best-price cache, the matching loop and the operations that take the book lock.

  Go's \<^verbatim>\<open>*Order\<close> pointers are shared by the order index and the slots, so orders live in a
  store \<open>ob_heap\<close>; the pointer of an order is its ID (the atomic counter gives each
  allocation its own). \<^verbatim>\<open>putOrderToPool\<close> writes the zero order through the pointer. A
  \<^verbatim>\<open>*PriceLevel\<close> is reached through one map entry only, so a level is a value of the map;
  the matching loop works on the level and stores it back. Metadata of slots is static and left
  out. Every operation holds the book mutex for its whole body, so it is one state
  transformation. \<open>ob_now\<close> is the clock that \<^verbatim>\<open>time.Now()\<close> reads. Printed warnings,
  lock-wait times and the diagnostic call counter are not kept.
\<close>

subsection \<open>Data\<close>

datatype side = BUY | SELL

primrec Side_String :: "side \<Rightarrow> string" where
  "Side_String BUY = ''BUY''"
| "Side_String SELL = ''SELL''"

definition VERKLE_WIDTH :: nat where
  "VERKLE_WIDTH = 16"

definition PRICE_DECIMALS :: u64 where
  "PRICE_DECIMALS = 100"

definition SLOT_VIP :: u8 where "SLOT_VIP = 1"
definition SLOT_SMALL_RETAIL :: u8 where "SLOT_SMALL_RETAIL = 2"
definition SLOT_RETAIL_START :: u8 where "SLOT_RETAIL_START = 3"
definition SLOT_RETAIL_END :: u8 where "SLOT_RETAIL_END = 14"

record trade =
  t_TradeID :: u64
  t_TakerOrderID :: u64
  t_MakerOrderID :: u64
  t_TakerTraderID :: u32
  t_MakerTraderID :: u32
  t_Price :: u64
  t_Size :: u64
  t_TakerSide :: side
  t_TakerPartial :: bool
  t_MakerPartial :: bool
  t_Timestamp :: int

record order =
  o_ID :: u64
  o_TraderID :: u32
  o_Price :: u64
  o_Size :: u64
  o_FilledSize :: u64
  o_Side :: side
  o_Slot :: u8
  o_IsPartialFill :: bool

definition RemainingSize :: "order \<Rightarrow> u64" where
  "RemainingSize ord =
    (if o_FilledSize ord \<ge> o_Size ord then 0 else o_Size ord - o_FilledSize ord)"

definition IsFilled :: "order \<Rightarrow> bool" where
  "IsFilled ord \<longleftrightarrow> o_FilledSize ord \<ge> o_Size ord"

definition safeSubtract :: "u64 \<Rightarrow> u64 \<Rightarrow> u64" where
  "safeSubtract from_v v = (if v > from_v then 0 else from_v - v)"

definition safeAdd :: "u64 \<Rightarrow> u64 \<Rightarrow> u64" where
  "safeAdd a b = (if a > (NOT 0) - b then NOT 0 else a + b)"

record slot =
  s_Orders :: "u64 list"
  s_Volume :: u64

record level =
  l_Price :: u64
  l_TotalVolume :: u64
  l_Slots :: "slot list"

record stats =
  st_TotalOperations :: u64
  st_TotalOrders :: u64
  st_TotalMatches :: u64
  st_TotalCancels :: u64
  st_TotalModifies :: u64
  st_TotalMarketOrders :: u64
  st_LockAcquisitions :: u64

record book =
  ob_Symbol :: string
  ob_nextOrderID :: u64
  ob_nextTradeID :: u64
  ob_BuyLevels :: "(u64 \<times> level) list"
  ob_SellLevels :: "(u64 \<times> level) list"
  ob_heap :: "u64 \<Rightarrow> order"
  ob_OrderIndex :: "u64 list"
  ob_Trades :: "trade list"
  ob_BestBid :: u64
  ob_BestAsk :: u64
  ob_bestBidAtomic :: u64
  ob_bestAskAtomic :: u64
  ob_buyPricesSorted :: "u64 list"
  ob_sellPricesSorted :: "u64 list"
  ob_pricesCacheDirty :: bool
  ob_stats :: stats
  ob_now :: int

subsection \<open>Pools and construction\<close>

definition zero_order :: order where
  "zero_order = \<lparr>o_ID = 0, o_TraderID = 0, o_Price = 0, o_Size = 0, o_FilledSize = 0,
     o_Side = BUY, o_Slot = 0, o_IsPartialFill = False\<rparr>"

definition empty_slot :: slot where
  "empty_slot = \<lparr>s_Orders = [], s_Volume = 0\<rparr>"

definition getPriceLevelFromPool :: level where
  "getPriceLevelFromPool =
    \<lparr>l_Price = 0, l_TotalVolume = 0, l_Slots = replicate VERKLE_WIDTH empty_slot\<rparr>"

definition putOrderToPool :: "u64 \<Rightarrow> book \<Rightarrow> book" where
  "putOrderToPool p ob = ob\<lparr>ob_heap := (ob_heap ob)(p := zero_order)\<rparr>"

definition zero_stats :: stats where
  "zero_stats = \<lparr>st_TotalOperations = 0, st_TotalOrders = 0, st_TotalMatches = 0,
     st_TotalCancels = 0, st_TotalModifies = 0, st_TotalMarketOrders = 0,
     st_LockAcquisitions = 0\<rparr>"

definition NewOrderBook :: "string \<Rightarrow> book" where
  "NewOrderBook symbol = \<lparr>ob_Symbol = symbol, ob_nextOrderID = 0, ob_nextTradeID = 0,
     ob_BuyLevels = [], ob_SellLevels = [], ob_heap = (\<lambda>_. zero_order), ob_OrderIndex = [],
     ob_Trades = [], ob_BestBid = 0, ob_BestAsk = 0, ob_bestBidAtomic = 0, ob_bestAskAtomic = 0,
     ob_buyPricesSorted = [], ob_sellPricesSorted = [], ob_pricesCacheDirty = False, ob_stats = zero_stats, ob_now = 0\<rparr>"

primrec levels :: "side \<Rightarrow> book \<Rightarrow> (u64 \<times> level) list" where
  "levels BUY ob = ob_BuyLevels ob"
| "levels SELL ob = ob_SellLevels ob"

primrec set_levels :: "side \<Rightarrow> (u64 \<times> level) list \<Rightarrow> book \<Rightarrow> book" where
  "set_levels BUY ls ob = ob\<lparr>ob_BuyLevels := ls\<rparr>"
| "set_levels SELL ls ob = ob\<lparr>ob_SellLevels := ls\<rparr>"

primrec opposite :: "side \<Rightarrow> side" where
  "opposite BUY = SELL"
| "opposite SELL = BUY"

definition index_insert :: "u64 \<Rightarrow> book \<Rightarrow> book" where
  "index_insert p ob = ob\<lparr>ob_OrderIndex := List.insert p (ob_OrderIndex ob)\<rparr>"

definition index_delete :: "u64 \<Rightarrow> book \<Rightarrow> book" where
  "index_delete p ob = ob\<lparr>ob_OrderIndex := filter (\<lambda>q. q \<noteq> p) (ob_OrderIndex ob)\<rparr>"

definition upd_stats :: "(stats \<Rightarrow> stats) \<Rightarrow> book \<Rightarrow> book" where
  "upd_stats f ob = ob\<lparr>ob_stats := f (ob_stats ob)\<rparr>"

definition count_ops :: "stats \<Rightarrow> stats" where
  "count_ops s = s\<lparr>st_TotalOperations := st_TotalOperations s + 1\<rparr>"

definition count_order :: "stats \<Rightarrow> stats" where
  "count_order s = count_ops (s\<lparr>st_TotalOrders := st_TotalOrders s + 1\<rparr>)"

definition count_modify :: "stats \<Rightarrow> stats" where
  "count_modify s = count_ops (s\<lparr>st_TotalModifies := st_TotalModifies s + 1\<rparr>)"

subsection \<open>Slots and best prices\<close>

definition determineSlot :: "order \<Rightarrow> u8" where
  "determineSlot ord =
    (if o_TraderID ord < 100 then SLOT_VIP
     else if o_Size ord < 1000 then SLOT_SMALL_RETAIL
     else SLOT_RETAIL_START
       + ucast (o_TraderID ord mod ucast (SLOT_RETAIL_END - SLOT_RETAIL_START + 1)))"

definition GetSpreadUnsafe :: "book \<Rightarrow> u64 \<times> u64" where
  "GetSpreadUnsafe ob = (ob_BestBid ob, ob_BestAsk ob)"

definition rebuildBestPrices :: "book \<Rightarrow> book" where
  "rebuildBestPrices ob =
    (let buys = sort_desc (\<lambda>x. x) (map fst (ob_BuyLevels ob));
         sells = sort_key (\<lambda>x. x) (map fst (ob_SellLevels ob))
     in ob\<lparr>ob_buyPricesSorted := buys,
           ob_bestBidAtomic := (if length buys > 0 then buys ! 0 else 0),
           ob_sellPricesSorted := sells,
           ob_bestAskAtomic := (if length sells > 0 then sells ! 0 else 0),
           ob_pricesCacheDirty := False\<rparr>)"

definition updateBestPrices :: "book \<Rightarrow> book" where
  "updateBestPrices ob =
    (if \<not> ob_pricesCacheDirty ob \<and> length (ob_buyPricesSorted ob) > 0
        \<and> length (ob_sellPricesSorted ob) > 0
     then ob\<lparr>ob_bestBidAtomic := ob_buyPricesSorted ob ! 0, ob_bestAskAtomic := ob_sellPricesSorted ob ! 0\<rparr>
     else rebuildBestPrices ob)"

end
