(* ===== verification/Matching.thy ===== *)
theory Matching
  imports OrderBook
begin

text \<open>
  The matching engine of \<^verbatim>\<open>verkle-orderbook/main.go\<close>: \<^verbatim>\<open>tryMatchUnsafe\<close> and the operations
  that take liquidity or add it (\<^verbatim>\<open>AddLimitOrder\<close>, \<^verbatim>\<open>AddLimitOrderBatch\<close>,
  \<^verbatim>\<open>ExecuteMarketOrder\<close>). The three nested loops of \<^verbatim>\<open>tryMatchUnsafe\<close> are
  \<open>try_match\<close> (best price after best price), \<open>match_slots\<close> (slots 0 to 15 of a level) and
  \<open>match_orders\<close> (the FIFO queue of a slot).

  The taker, which the loops reach only through the parameter \<^verbatim>\<open>takerOrder\<close>, is passed and
  returned as a value and stored back by the callers that keep it; the makers are read and written
  through their pointers. \<open>try_match\<close> is a total function: its termination proof is that an
  iteration that matched and did not fill the taker has removed a resting order from the
  opposite side.
\<close>

subsection \<open>One trade\<close>

definition fill :: "u64 \<Rightarrow> order \<Rightarrow> order" where
  "fill n ord = ord\<lparr>o_FilledSize := o_FilledSize ord + n\<rparr>"

definition mark_partial :: "order \<Rightarrow> order" where
  "mark_partial ord = (if \<not> IsFilled ord then ord\<lparr>o_IsPartialFill := True\<rparr> else ord)"

definition exec_size :: "order \<Rightarrow> order \<Rightarrow> u64" where
  "exec_size taker maker =
    (if RemainingSize maker < RemainingSize taker then RemainingSize maker
     else RemainingSize taker)"

definition after_trade :: "u64 \<Rightarrow> order \<Rightarrow> order" where
  "after_trade executeSize ord = mark_partial (fill executeSize ord)"

text \<open>The trade record, the updated maker and the counters; the taker is updated beside it.\<close>

definition execute_trade :: "order \<Rightarrow> u64 \<Rightarrow> u64 \<Rightarrow> book \<Rightarrow> book" where
  "execute_trade taker m bestPrice ob =
    (let maker = ob_heap ob m;
         executeSize = exec_size taker maker;
         tradeID = ob_nextTradeID ob + 1;
         trd = \<lparr>t_TradeID = tradeID,
                t_TakerOrderID = o_ID taker, t_MakerOrderID = o_ID maker,
                t_TakerTraderID = o_TraderID taker, t_MakerTraderID = o_TraderID maker,
                t_Price = bestPrice, t_Size = executeSize, t_TakerSide = o_Side taker,
                t_TakerPartial = (\<not> IsFilled (fill executeSize taker)),
                t_MakerPartial = (\<not> IsFilled (fill executeSize maker)),
                t_Timestamp = ob_now ob\<rparr>
     in ob\<lparr>ob_heap := (ob_heap ob)(m := after_trade executeSize maker),
           ob_nextTradeID := tradeID, ob_Trades := ob_Trades ob @ [trd],
           ob_stats := (ob_stats ob)\<lparr>st_TotalMatches := st_TotalMatches (ob_stats ob) + 1\<rparr>\<rparr>)"

subsection \<open>The queue of a slot, the slots of a level\<close>

text \<open>
  After the queue come the book, the slot volume, the level's total volume and
  \<^verbatim>\<open>levelMatched\<close>; the result has the remaining queue, the taker, the book, the two volumes
  and the flag.
\<close>

fun match_orders :: "order \<Rightarrow> u64 \<Rightarrow> u64 list \<Rightarrow> book \<Rightarrow> u64 \<Rightarrow> u64 \<Rightarrow> bool
    \<Rightarrow> u64 list \<times> order \<times> book \<times> u64 \<times> u64 \<times> bool" where
  "match_orders taker bestPrice [] ob vol tot matched = ([], taker, ob, vol, tot, matched)"
| "match_orders taker bestPrice (m # ms) ob vol tot matched =
    (if IsFilled taker then (m # ms, taker, ob, vol, tot, matched)
     else let executeSize = exec_size taker (ob_heap ob m);
              ob' = execute_trade taker m bestPrice ob;
              taker' = after_trade executeSize taker;
              vol' = safeSubtract vol executeSize;
              tot' = safeSubtract tot executeSize
          in if IsFilled (ob_heap ob' m)
             then match_orders taker' bestPrice ms (putOrderToPool m (index_delete (o_ID (ob_heap ob' m)) ob'))
                    vol' tot' True
             else let (ms', res) = match_orders taker' bestPrice ms ob' vol' tot' True
                  in (m # ms', res))"

fun match_slots :: "order \<Rightarrow> u64 \<Rightarrow> slot list \<Rightarrow> book \<Rightarrow> u64 \<Rightarrow> bool
    \<Rightarrow> slot list \<times> order \<times> book \<times> u64 \<times> bool" where
  "match_slots taker bestPrice [] ob tot matched = ([], taker, ob, tot, matched)"
| "match_slots taker bestPrice (s # ss) ob tot matched =
    (if IsFilled taker then (s # ss, taker, ob, tot, matched)
     else if length (s_Orders s) = 0
     then let (ss', res) = match_slots taker bestPrice ss ob tot matched in (s # ss', res)
     else let (os, taker', ob', vol, tot', matched') =
                match_orders taker bestPrice (s_Orders s) ob (s_Volume s) tot matched;
              s' = \<lparr>s_Orders = os, s_Volume = (if length os = 0 then 0 else vol)\<rparr>;
              (ss', res) = match_slots taker' bestPrice ss ob' tot' matched'
          in (s' # ss', res))"

subsection \<open>Progress of the loops\<close>

lemma IsFilled_flag [simp]: "IsFilled (r\<lparr>o_IsPartialFill := b\<rparr>) = IsFilled r"
  by (simp add: IsFilled_def)

lemma IsFilled_mark [simp]: "IsFilled (mark_partial r) = IsFilled r"
  by (simp add: mark_partial_def)

lemma mark_partial_fields [simp]:
  "o_ID (mark_partial r) = o_ID r" "o_TraderID (mark_partial r) = o_TraderID r"
  "o_Price (mark_partial r) = o_Price r" "o_Size (mark_partial r) = o_Size r"
  "o_FilledSize (mark_partial r) = o_FilledSize r" "o_Side (mark_partial r) = o_Side r"
  "o_Slot (mark_partial r) = o_Slot r"
  by (simp_all add: mark_partial_def)

lemma after_trade_fields [simp]:
  "o_ID (after_trade n r) = o_ID r" "o_TraderID (after_trade n r) = o_TraderID r"
  "o_Price (after_trade n r) = o_Price r" "o_Size (after_trade n r) = o_Size r"
  "o_FilledSize (after_trade n r) = o_FilledSize r + n" "o_Side (after_trade n r) = o_Side r"
  "o_Slot (after_trade n r) = o_Slot r"
  by (simp_all add: after_trade_def fill_def)

text \<open>A trade leaves the taker or the maker filled, whatever the two orders are.\<close>

lemma trade_fills_one:
  "IsFilled (after_trade (exec_size taker maker) taker)
    \<or> IsFilled (after_trade (exec_size taker maker) maker)"
  by (auto simp: exec_size_def RemainingSize_def IsFilled_def)

lemma heap_execute_trade [simp]:
  "ob_heap (execute_trade taker m p ob)
    = (ob_heap ob)(m := after_trade (exec_size taker (ob_heap ob m)) (ob_heap ob m))"
  by (simp add: execute_trade_def Let_def)

lemma match_orders_stop:
  "IsFilled taker \<Longrightarrow> match_orders taker p ms ob v tot mt = (ms, taker, ob, v, tot, mt)"
  by (cases ms) auto

lemma match_slots_stop:
  "IsFilled taker \<Longrightarrow> match_slots taker p ss ob tot mt = (ss, taker, ob, tot, mt)"
  by (cases ss) auto

lemma match_orders_length:
  "match_orders taker p ms ob v tot mt = (ms', taker', ob', v', tot', mt') \<Longrightarrow>
    length ms' \<le> length ms
    \<and> (ms \<noteq> [] \<longrightarrow> \<not> IsFilled taker \<longrightarrow> IsFilled taker' \<or> length ms' < length ms)"
proof (induction taker p ms ob v tot mt arbitrary: ms' taker' ob' v' tot' mt'
    rule: match_orders.induct)
  case (1 taker p ob v tot mt)
  then show ?case by simp
next
  case (2 taker p m ms ob v tot mt)
  show ?case
  proof (cases "IsFilled taker")
    case True
    with "2.prems" show ?thesis by simp
  next
    case False
    let ?e = "exec_size taker (ob_heap ob m)"
    show ?thesis
    proof (cases "IsFilled (after_trade ?e (ob_heap ob m))")
      case True
      with "2.prems" False "2.IH"(1) [OF False refl refl refl refl refl] show ?thesis
        by (simp add: Let_def)
    next
      case unfilled: False
      with trade_fills_one have "IsFilled (after_trade ?e taker)" by blast
      with "2.prems" False unfilled show ?thesis
        by (auto simp: Let_def match_orders_stop)
    qed
  qed
qed

definition slots_size :: "slot list \<Rightarrow> nat" where
  "slots_size ss = sum_list (map (\<lambda>s. length (s_Orders s)) ss)"

lemma match_slots_size:
  "match_slots taker p ss ob tot mt = (ss', taker', ob', tot', mt') \<Longrightarrow>
    slots_size ss' \<le> slots_size ss
    \<and> (mt' \<longrightarrow> mt \<or> IsFilled taker' \<or> slots_size ss' < slots_size ss)"
proof (induction taker p ss ob tot mt arbitrary: ss' taker' ob' tot' mt' rule: match_slots.induct)
  case (1 taker p ob tot mt)
  then show ?case by simp
next
  case (2 taker p s ss ob tot mt)
  show ?case
  proof (cases "IsFilled taker \<or> length (s_Orders s) = 0")
    case True
    with "2.prems" "2.IH"(1) show ?thesis
      by (auto simp: slots_size_def split: if_splits prod.splits)
  next
    case False
    obtain os tk1 ob1 v1 tot1 mt1 where mo:
      "match_orders taker p (s_Orders s) ob (s_Volume s) tot mt = (os, tk1, ob1, v1, tot1, mt1)"
      by (metis prod_cases6)
    obtain ss1 where ms: "match_slots tk1 p ss ob1 tot1 mt1 = (ss1, taker', ob', tot', mt')"
      and ss': "ss' = \<lparr>s_Orders = os, s_Volume = (if length os = 0 then 0 else v1)\<rparr> # ss1"
      using "2.prems" False mo by (auto simp: Let_def split: prod.splits)
    have le: "slots_size ss1 \<le> slots_size ss"
      using "2.IH"(2) [of "(os, tk1, ob1, v1, tot1, mt1)"] False mo ms by fastforce
    have prog: "IsFilled tk1 \<or> length os < length (s_Orders s)" "length os \<le> length (s_Orders s)"
      using match_orders_length [OF mo] False by auto
    show ?thesis
    proof (cases "IsFilled tk1")
      case True
      with ms have "taker' = tk1" by (simp add: match_slots_stop)
      with True le prog(2) show ?thesis by (simp add: ss' slots_size_def)
    next
      case unfilled: False
      with le prog show ?thesis by (simp add: ss' slots_size_def)
    qed
  qed
qed

text \<open>What the inner loops do not touch: the price levels, the best-price cache, the counter of
  order IDs, the clock; and of the taker only its filled size and partial flag.\<close>

definition book_frame :: "book \<Rightarrow> book \<Rightarrow> bool" where
  "book_frame ob ob' \<longleftrightarrow> ob' = ob
    \<lparr>ob_heap := ob_heap ob', ob_OrderIndex := ob_OrderIndex ob', ob_Trades := ob_Trades ob',
     ob_nextTradeID := ob_nextTradeID ob', ob_stats := ob_stats ob'\<rparr>"

definition taker_frame :: "order \<Rightarrow> order \<Rightarrow> bool" where
  "taker_frame tk tk' \<longleftrightarrow>
    tk' = tk\<lparr>o_FilledSize := o_FilledSize tk', o_IsPartialFill := o_IsPartialFill tk'\<rparr>"

lemma book_frame_refl [simp]: "book_frame ob ob"
  by (simp add: book_frame_def)

lemma book_frame_trans: "book_frame ob ob' \<Longrightarrow> book_frame ob' ob'' \<Longrightarrow> book_frame ob ob''"
  unfolding book_frame_def by (cases ob, cases ob', cases ob'') simp

lemma book_frame_trade: "book_frame ob (execute_trade tk m p ob)"
  by (simp add: book_frame_def execute_trade_def Let_def)

lemma book_frame_remove: "book_frame ob (putOrderToPool m (index_delete q ob))"
  by (simp add: book_frame_def putOrderToPool_def index_delete_def)

lemma book_frame_levels: "book_frame ob ob' \<Longrightarrow> levels sd ob' = levels sd ob"
  by (cases sd; cases ob; cases ob') (simp_all add: book_frame_def)

lemma taker_frame_refl [simp]: "taker_frame tk tk"
  by (simp add: taker_frame_def)

lemma taker_frame_trans: "taker_frame a b \<Longrightarrow> taker_frame b c \<Longrightarrow> taker_frame a c"
  unfolding taker_frame_def by (cases a, cases b, cases c) simp

lemma taker_frame_trade: "taker_frame tk (after_trade n tk)"
  by (simp add: taker_frame_def after_trade_def fill_def mark_partial_def)

lemma taker_frame_fields:
  "taker_frame tk tk' \<Longrightarrow> o_ID tk' = o_ID tk \<and> o_TraderID tk' = o_TraderID tk
    \<and> o_Price tk' = o_Price tk \<and> o_Size tk' = o_Size tk \<and> o_Side tk' = o_Side tk
    \<and> o_Slot tk' = o_Slot tk"
  unfolding taker_frame_def by (cases tk, cases tk') simp

lemma match_orders_frame:
  "match_orders tk p ms ob v tot mt = (ms', tk', ob', v', tot', mt') \<Longrightarrow>
    book_frame ob ob' \<and> taker_frame tk tk'"
proof (induction tk p ms ob v tot mt arbitrary: ms' tk' ob' v' tot' mt' rule: match_orders.induct)
  case (1 tk p ob v tot mt)
  then show ?case by simp
next
  case (2 tk p m ms ob v tot mt)
  let ?e = "exec_size tk (ob_heap ob m)" and ?ob = "execute_trade tk m p ob"
  show ?case
  proof (cases "IsFilled tk")
    case True
    with "2.prems" show ?thesis by simp
  next
    case False
    show ?thesis
    proof (cases "IsFilled (ob_heap ?ob m)")
      case True
      with "2.prems" False "2.IH"(1) [OF False refl refl refl refl refl True]
      have "book_frame (putOrderToPool m (index_delete (o_ID (ob_heap ?ob m)) ?ob)) ob' \<and> taker_frame (after_trade ?e tk) tk'"
        by (simp add: Let_def)
      then show ?thesis
        by (meson book_frame_trade book_frame_remove book_frame_trans taker_frame_trade taker_frame_trans)
    next
      case unfilled: False
      then obtain ms1 where
        "match_orders (after_trade ?e tk) p ms ?ob (safeSubtract v ?e) (safeSubtract tot ?e) True
          = (ms1, tk', ob', v', tot', mt')"
        using "2.prems" False by (auto simp: Let_def split: prod.splits)
      with "2.IH"(2) [OF False refl refl refl refl refl] unfilled
      have "book_frame ?ob ob' \<and> taker_frame (after_trade ?e tk) tk'" by simp
      then show ?thesis
        by (meson book_frame_trade book_frame_trans taker_frame_trade taker_frame_trans)
    qed
  qed
qed

lemma match_slots_frame:
  "match_slots tk p ss ob tot mt = (ss', tk', ob', tot', mt') \<Longrightarrow>
    book_frame ob ob' \<and> taker_frame tk tk' \<and> length ss' = length ss"
proof (induction tk p ss ob tot mt arbitrary: ss' tk' ob' tot' mt' rule: match_slots.induct)
  case (1 tk p ob tot mt)
  then show ?case by simp
next
  case (2 tk p s ss ob tot mt)
  show ?case
  proof (cases "IsFilled tk \<or> length (s_Orders s) = 0")
    case True
    with "2.prems" "2.IH"(1) show ?thesis by (auto split: if_splits prod.splits)
  next
    case False
    obtain os tk1 ob1 v1 tot1 mt1 where mo:
      "match_orders tk p (s_Orders s) ob (s_Volume s) tot mt = (os, tk1, ob1, v1, tot1, mt1)"
      by (metis prod_cases6)
    obtain ss1 where ms: "match_slots tk1 p ss ob1 tot1 mt1 = (ss1, tk', ob', tot', mt')"
      and ss': "ss' = \<lparr>s_Orders = os, s_Volume = (if length os = 0 then 0 else v1)\<rparr> # ss1"
      using "2.prems" False mo by (auto simp: Let_def split: prod.splits)
    have "book_frame ob1 ob' \<and> taker_frame tk1 tk' \<and> length ss1 = length ss"
      using "2.IH"(2) [of "(os, tk1, ob1, v1, tot1, mt1)"] False mo ms by fastforce
    with match_orders_frame [OF mo] show ?thesis
      by (auto simp: ss' intro: book_frame_trans taker_frame_trans)
  qed
qed

subsection \<open>Price after price\<close>

text \<open>After a level was worked on: a level without volume is deleted and the best prices are
  updated, any other level is stored back.\<close>

definition store_level :: "side \<Rightarrow> u64 \<Rightarrow> level \<Rightarrow> book \<Rightarrow> book" where
  "store_level sd price lv ob =
    (if l_TotalVolume lv = 0
     then updateBestPrices (set_levels sd (AList.delete price (levels sd ob)) ob)
     else set_levels sd (AList.update price lv (levels sd ob)) ob)"

definition finish_match :: "order \<Rightarrow> book \<Rightarrow> order \<times> book" where
  "finish_match taker ob = (taker, if IsFilled taker then index_delete (o_ID taker) ob else ob)"

definition best_opposite :: "side \<Rightarrow> book \<Rightarrow> u64" where
  "best_opposite sd ob = (if sd = BUY then ob_bestAskAtomic ob else ob_bestBidAtomic ob)"

definition can_match :: "order \<Rightarrow> u64 \<Rightarrow> bool" where
  "can_match taker bestPrice \<longleftrightarrow> bestPrice > 0 \<and>
    (if o_Side taker = BUY then bestPrice \<le> o_Price taker else bestPrice \<ge> o_Price taker)"

definition side_size :: "(u64 \<times> level) list \<Rightarrow> nat" where
  "side_size ls = sum_list (map (\<lambda>(_, lv). slots_size (l_Slots lv)) ls)"

lemma side_size_update:
  "map_of ls p = Some lv \<Longrightarrow> slots_size (l_Slots lv') < slots_size (l_Slots lv) \<Longrightarrow>
    side_size (AList.update p lv' ls) < side_size ls"
  by (induction ls) (auto simp: side_size_def split: if_splits)

lemma side_size_delete_le: "side_size (AList.delete p ls) \<le> side_size ls"
  by (induction ls) (auto simp: side_size_def AList.delete_eq)

lemma side_size_delete:
  "map_of ls p = Some lv \<Longrightarrow> 0 < slots_size (l_Slots lv) \<Longrightarrow>
    side_size (AList.delete p ls) < side_size ls"
proof (induction ls)
  case (Cons x ls)
  with side_size_delete_le [of p ls] show ?case
    by (cases "fst x = p") (auto simp: side_size_def AList.delete_eq split: prod.splits)
qed simp

lemma levels_set_levels: "levels sd (set_levels sd' ls ob) = (if sd = sd' then ls else levels sd ob)"
  by (cases sd; cases sd') auto

lemma levels_updateBestPrices [simp]: "levels sd (updateBestPrices ob) = levels sd ob"
  by (cases sd) (auto simp: updateBestPrices_def rebuildBestPrices_def Let_def)

lemma levels_store_level:
  "levels sd (store_level sd' p lv ob) =
    (if sd = sd' then if l_TotalVolume lv = 0 then AList.delete p (levels sd ob)
                      else AList.update p lv (levels sd ob)
     else levels sd ob)"
  by (simp add: store_level_def levels_set_levels)

lemma try_match_progress:
  assumes "map_of (levels (opposite (o_Side tk)) ob) p = Some lv"
    and ms: "(slots', tk', ob', tot', True)
      = match_slots tk p (l_Slots lv) ob (l_TotalVolume lv) False"
    and "\<not> IsFilled tk'"
  shows "side_size (levels (opposite (o_Side tk'))
      (store_level (opposite (o_Side tk)) p (lv\<lparr>l_Slots := slots', l_TotalVolume := tot'\<rparr>) ob'))
    < side_size (levels (opposite (o_Side tk)) ob)"
proof -
  from match_slots_size [OF ms [symmetric]] assms(3)
  have lt: "slots_size slots' < slots_size (l_Slots lv)" by simp
  have "o_Side tk' = o_Side tk" "\<And>sd. levels sd ob' = levels sd ob"
    using match_slots_frame [OF ms [symmetric]] taker_frame_fields book_frame_levels by blast+
  with assms(1) lt show ?thesis
    by (auto simp: levels_store_level intro: side_size_update side_size_delete)
qed

function try_match :: "order \<Rightarrow> book \<Rightarrow> order \<times> book" where
  "try_match taker ob =
    (if IsFilled taker then finish_match taker ob
     else let opp = opposite (o_Side taker);
              bestPrice = best_opposite (o_Side taker) ob
          in if \<not> can_match taker bestPrice then finish_match taker ob
          else case map_of (levels opp ob) bestPrice of
            None \<Rightarrow> finish_match taker ob
          | Some lv \<Rightarrow>
              (case match_slots taker bestPrice (l_Slots lv) ob (l_TotalVolume lv) False of
                (slots', taker', ob', tot', levelMatched) \<Rightarrow>
                  let ob2 = store_level opp bestPrice
                              (lv\<lparr>l_Slots := slots', l_TotalVolume := tot'\<rparr>) ob'
                  in if levelMatched then try_match taker' ob2 else finish_match taker' ob2))"
  by pat_completeness auto
termination
  by (relation "measure (\<lambda>(tk, ob). if IsFilled tk then 0
       else Suc (side_size (levels (opposite (o_Side tk)) ob)))")
     (auto intro!: try_match_progress)

declare try_match.simps [simp del]

subsection \<open>Operations that add or take liquidity\<close>

text \<open>\<^verbatim>\<open>getOrderFromPool\<close> and the assignments after it; pooled orders are zeroed.\<close>

definition new_order :: "u32 \<Rightarrow> u64 \<Rightarrow> u64 \<Rightarrow> side \<Rightarrow> book \<Rightarrow> order \<times> book" where
  "new_order traderID price sz sd ob =
    (let oid = ob_nextOrderID ob + 1;
         ord = zero_order\<lparr>o_ID := oid, o_TraderID := traderID, o_Price := price, o_Size := sz,
                 o_FilledSize := 0, o_IsPartialFill := False, o_Side := sd\<rparr>
     in (ord\<lparr>o_Slot := determineSlot ord\<rparr>, ob\<lparr>ob_nextOrderID := oid\<rparr>))"

definition write_order :: "order \<Rightarrow> book \<Rightarrow> book" where
  "write_order ord ob = ob\<lparr>ob_heap := (ob_heap ob)(o_ID ord := ord)\<rparr>"

definition fresh_level :: "u64 \<Rightarrow> level" where
  "fresh_level price = getPriceLevelFromPool\<lparr>l_Price := price, l_TotalVolume := 0\<rparr>"

definition add_to_level :: "order \<Rightarrow> level \<Rightarrow> level" where
  "add_to_level ord lv =
    (let i = unat (o_Slot ord); s = l_Slots lv ! i; remainingSize = RemainingSize ord
     in lv\<lparr>l_Slots := (l_Slots lv)[i := \<lparr>s_Orders = s_Orders s @ [o_ID ord],
                                        s_Volume = safeAdd (s_Volume s) remainingSize\<rparr>],
           l_TotalVolume := safeAdd (l_TotalVolume lv) remainingSize\<rparr>)"

text \<open>
  The order enters the level at its price; a missing level is created first and
  \<open>on_new\<close> is what the caller does about the best prices then.
\<close>

definition rest_order :: "(book \<Rightarrow> book) \<Rightarrow> order \<Rightarrow> book \<Rightarrow> book" where
  "rest_order on_new ord ob =
    (let sd = o_Side ord; price = o_Price ord;
         ob1 = (if price \<in> fst ` set (levels sd ob) then ob
                else on_new (set_levels sd (AList.update price (fresh_level price) (levels sd ob)) ob))
     in case map_of (levels sd ob1) price of
          None \<Rightarrow> ob1
        | Some lv \<Rightarrow> set_levels sd (AList.update price (add_to_level ord lv) (levels sd ob1)) ob1)"

definition improve_best :: "side \<Rightarrow> u64 \<Rightarrow> book \<Rightarrow> book" where
  "improve_best sd price ob =
    (if sd = SELL
     then if ob_bestAskAtomic ob = 0 \<or> price < ob_bestAskAtomic ob
          then ob\<lparr>ob_bestAskAtomic := price\<rparr> else ob
     else if price > ob_bestBidAtomic ob then ob\<lparr>ob_bestBidAtomic := price\<rparr> else ob)"

definition mark_cache_dirty :: "book \<Rightarrow> book" where
  "mark_cache_dirty ob = ob\<lparr>ob_pricesCacheDirty := True\<rparr>"

definition AddLimitOrder :: "u32 \<Rightarrow> u64 \<Rightarrow> u64 \<Rightarrow> side \<Rightarrow> book \<Rightarrow> order \<times> book" where
  "AddLimitOrder traderID price sz sd ob =
    (let (ord, ob1) = new_order traderID price sz sd ob;
         ob2 = upd_stats (\<lambda>s. s\<lparr>st_LockAcquisitions := st_LockAcquisitions s + 1\<rparr>) ob1;
         (ord', ob3) = try_match ord ob2;
         ob4 = write_order ord' ob3;
         ob5 = (if \<not> IsFilled ord'
                then index_insert (o_ID ord') (rest_order (improve_best sd price) ord' ob4)
                else ob4)
     in (ord', upd_stats count_order ob5))"

type_synonym order_request = "u32 \<times> u64 \<times> u64 \<times> side"

fun add_batch_loop :: "order_request list \<Rightarrow> book \<Rightarrow> order list \<times> book" where
  "add_batch_loop [] ob = ([], ob)"
| "add_batch_loop ((traderID, price, sz, sd) # reqs) ob =
    (let (ord, ob1) = new_order traderID price sz sd ob;
         (ord', ob2) = try_match ord ob1;
         ob3 = write_order ord' ob2;
         ob4 = (if \<not> IsFilled ord'
                then index_insert (o_ID ord') (rest_order mark_cache_dirty ord' ob3)
                else ob3);
         (results, ob5) = add_batch_loop reqs (upd_stats count_order ob4)
     in (ord' # results, ob5))"

definition AddLimitOrderBatch :: "order_request list \<Rightarrow> book \<Rightarrow> order list \<times> book" where
  "AddLimitOrderBatch reqs ob =
    (let (results, ob') = add_batch_loop reqs ob in (results, updateBestPrices ob'))"

definition ExecuteMarketOrder :: "u32 \<Rightarrow> u64 \<Rightarrow> side \<Rightarrow> book \<Rightarrow> bool \<times> book" where
  "ExecuteMarketOrder traderID sz sd ob =
    (let oppositeLevels = levels (opposite sd) ob; bestPrice = best_opposite sd ob
     in if bestPrice = 0 \<or> length oppositeLevels = 0 then (False, ob)
        else case map_of oppositeLevels bestPrice of
          None \<Rightarrow> (False, ob)
        | Some _ \<Rightarrow>
            (let (ord, ob1) = new_order traderID (if sd = BUY then NOT 0 else 0) sz sd ob;
                 (ord', ob2) = try_match ord ob1;
                 ob3 = putOrderToPool (o_ID ord') ob2
             in (True, upd_stats (\<lambda>s. count_ops
                   (s\<lparr>st_TotalMarketOrders := st_TotalMarketOrders s + 1\<rparr>)) ob3)))"

end
