(* ===== verification/BookOps.thy ===== *)
theory BookOps
  imports Matching
begin

text \<open>
  The remaining operations of \<^verbatim>\<open>verkle-orderbook/main.go\<close> that change or query the book:
  \<^verbatim>\<open>CancelOrder\<close>, \<^verbatim>\<open>CancelAllByTrader\<close>, \<^verbatim>\<open>ModifyOrder\<close>, \<^verbatim>\<open>CleanupEmptyLevels\<close>,
  \<^verbatim>\<open>validateAndFixLevelConsistency\<close> and the trade-history functions.
\<close>

subsection \<open>Cancelling\<close>

text \<open>The removal of an order from its slot, with or without taking its volume out.\<close>

definition drop_from_slot :: "u64 \<Rightarrow> book \<Rightarrow> slot \<Rightarrow> slot" where
  "drop_from_slot oid ob s =
    s\<lparr>s_Orders := remove_first (\<lambda>p. o_ID (ob_heap ob p) = oid) (s_Orders s)\<rparr>"

definition in_slot :: "u64 \<Rightarrow> book \<Rightarrow> slot \<Rightarrow> bool" where
  "in_slot oid ob s \<longleftrightarrow> (\<exists>p\<in>set (s_Orders s). o_ID (ob_heap ob p) = oid)"

definition zero_if_empty :: "slot \<Rightarrow> slot" where
  "zero_if_empty s = (if length (s_Orders s) = 0 then s\<lparr>s_Volume := 0\<rparr> else s)"

definition CancelOrder :: "u64 \<Rightarrow> book \<Rightarrow> bool \<times> book" where
  "CancelOrder orderID ob =
    (if orderID \<notin> set (ob_OrderIndex ob) then (False, ob)
     else let ord = ob_heap ob orderID; sd = o_Side ord
     in case map_of (levels sd ob) (o_Price ord) of
       None \<Rightarrow> (True, upd_stats (\<lambda>s. s\<lparr>st_TotalCancels := st_TotalCancels s + 1\<rparr>)
                       (putOrderToPool orderID (index_delete orderID ob)))
     | Some lv \<Rightarrow>
        (let i = unat (o_Slot ord); s = l_Slots lv ! i;
             remainingSize = RemainingSize ord;
             (s', tot') =
               (if in_slot orderID ob s
                then (drop_from_slot orderID ob (s\<lparr>s_Volume := safeSubtract (s_Volume s) remainingSize\<rparr>),
                      safeSubtract (l_TotalVolume lv) remainingSize)
                else (s, l_TotalVolume lv));
             lv' = lv\<lparr>l_Slots := (l_Slots lv)[i := zero_if_empty s'], l_TotalVolume := tot'\<rparr>;
             ob' = putOrderToPool orderID (index_delete orderID ob);
             ob'' = (if tot' = 0
                     then updateBestPrices (set_levels sd (AList.delete (l_Price lv) (levels sd ob')) ob')
                     else set_levels sd (AList.update (o_Price ord) lv' (levels sd ob')) ob')
         in (True, upd_stats (\<lambda>s. count_ops (s\<lparr>st_TotalCancels := st_TotalCancels s + 1\<rparr>)) ob'')))"

fun cancel_all_loop :: "u64 list \<Rightarrow> book \<Rightarrow> nat \<times> book" where
  "cancel_all_loop [] ob = (0, ob)"
| "cancel_all_loop (oid # oids) ob =
    (let (ok, ob') = CancelOrder oid ob; (n, ob'') = cancel_all_loop oids ob'
     in (if ok then Suc n else n, ob''))"

definition CancelAllByTrader :: "u32 \<Rightarrow> book \<Rightarrow> nat \<times> book" where
  "CancelAllByTrader traderID ob =
    cancel_all_loop (filter (\<lambda>oid. o_TraderID (ob_heap ob oid) = traderID) (ob_OrderIndex ob)) ob"

subsection \<open>Modifying\<close>

text \<open>Case 1: only the size changes; the order stays at its price level.\<close>

definition modify_size :: "u64 \<Rightarrow> u64 \<Rightarrow> level \<Rightarrow> book \<Rightarrow> book" where
  "modify_size orderID newSize lv ob =
    (let ord = ob_heap ob orderID; sd = o_Side ord; i = unat (o_Slot ord);
         oldRemaining = RemainingSize ord;
         s = (l_Slots lv ! i)\<lparr>s_Volume := safeSubtract (s_Volume (l_Slots lv ! i)) oldRemaining\<rparr>;
         tot = safeSubtract (l_TotalVolume lv) oldRemaining;
         ord' = ord\<lparr>o_Size := newSize\<rparr>;
         ob1 = ob\<lparr>ob_heap := (ob_heap ob)(orderID := ord')\<rparr>;
         newRemaining = RemainingSize ord';
         store = (\<lambda>lv' b. set_levels sd (AList.update (o_Price ord) lv' (levels sd b)) b)
     in if newRemaining = 0
        then let s' = zero_if_empty (drop_from_slot orderID ob1 s);
                 lv' = lv\<lparr>l_Slots := (l_Slots lv)[i := s'], l_TotalVolume := tot\<rparr>;
                 ob2 = (if tot = 0 then set_levels sd (AList.delete (l_Price lv) (levels sd ob1)) ob1
                        else store lv' ob1)
             in upd_stats count_modify (putOrderToPool orderID (index_delete orderID ob2))
        else let newSlot = determineSlot ord'
             in if newSlot \<noteq> o_Slot ord'
                then let slots1 = (l_Slots lv)[i := zero_if_empty (drop_from_slot orderID ob1 s)];
                         j = unat newSlot; tgt = slots1 ! j;
                         tgt' = \<lparr>s_Orders = s_Orders tgt @ [orderID],
                                 s_Volume = safeAdd (s_Volume tgt) newRemaining\<rparr>;
                         lv' = lv\<lparr>l_Slots := slots1[j := tgt'],
                                  l_TotalVolume := safeAdd tot newRemaining\<rparr>;
                         ob2 = ob1\<lparr>ob_heap := (ob_heap ob1)(orderID := ord'\<lparr>o_Slot := newSlot\<rparr>)\<rparr>
                     in upd_stats count_modify (store lv' ob2)
                else let s' = s\<lparr>s_Volume := safeAdd (s_Volume s) newRemaining\<rparr>;
                         lv' = lv\<lparr>l_Slots := (l_Slots lv)[i := s'],
                                  l_TotalVolume := safeAdd tot newRemaining\<rparr>
                     in upd_stats count_modify (store lv' ob1))"

text \<open>Case 2: the price changes (and possibly the size). The first component is the result.\<close>

definition modify_price :: "u64 \<Rightarrow> u64 \<Rightarrow> u64 \<Rightarrow> level \<Rightarrow> book \<Rightarrow> bool \<times> book" where
  "modify_price orderID newPrice newSize lv ob =
    (let ord = ob_heap ob orderID; sd = o_Side ord; i = unat (o_Slot ord); s = l_Slots lv ! i;
         oldRemaining = RemainingSize ord
     in if \<not> in_slot orderID ob s then (False, ob)
        else let s' = zero_if_empty (drop_from_slot orderID ob
                        (s\<lparr>s_Volume := safeSubtract (s_Volume s) oldRemaining\<rparr>));
                 tot = safeSubtract (l_TotalVolume lv) oldRemaining;
                 lv' = lv\<lparr>l_Slots := (l_Slots lv)[i := s'], l_TotalVolume := tot\<rparr>;
                 ob1 = (if tot = 0
                        then updateBestPrices
                               (set_levels sd (AList.delete (l_Price lv) (levels sd ob)) ob)
                        else set_levels sd (AList.update (o_Price ord) lv' (levels sd ob)) ob);
                 ord1 = ord\<lparr>o_Price := newPrice, o_Size := newSize\<rparr>;
                 ord' = ord1\<lparr>o_Slot := determineSlot ord1\<rparr>;
                 ob2 = ob1\<lparr>ob_heap := (ob_heap ob1)(orderID := ord')\<rparr>
             in if RemainingSize ord' = 0
                then (True, upd_stats count_modify (putOrderToPool orderID (index_delete orderID ob2)))
                else let ob3 = upd_stats count_modify (rest_order updateBestPrices ord' ob2);
                         (taker, ob4) = try_match ord' ob3
                     in (True, ob4\<lparr>ob_heap := (ob_heap ob4)(orderID := taker)\<rparr>))"

definition ModifyOrder :: "u64 \<Rightarrow> u64 option \<Rightarrow> u64 option \<Rightarrow> book \<Rightarrow> bool \<times> book" where
  "ModifyOrder orderID newPrice newSize ob =
    (if orderID \<notin> set (ob_OrderIndex ob) then (False, ob)
     else let ord = ob_heap ob orderID;
              priceChanged = (case newPrice of None \<Rightarrow> False | Some p \<Rightarrow> p \<noteq> o_Price ord);
              sizeChanged = (case newSize of None \<Rightarrow> False | Some n \<Rightarrow> n \<noteq> o_Size ord)
          in if \<not> priceChanged \<and> \<not> sizeChanged then (True, ob)
             else case map_of (levels (o_Side ord) ob) (o_Price ord) of
               None \<Rightarrow> (False, ob)
             | Some lv \<Rightarrow>
                 if \<not> priceChanged \<and> sizeChanged
                 then (True, modify_size orderID (the newSize) lv ob)
                 else modify_price orderID (the newPrice)
                        (if sizeChanged then the newSize else o_Size ord) lv ob)"

subsection \<open>Maintenance\<close>

definition CleanupEmptyLevels :: "book \<Rightarrow> nat \<times> book" where
  "CleanupEmptyLevels ob =
    (let empty = (\<lambda>(_, lv). l_TotalVolume lv = 0);
         removed = length (filter empty (ob_BuyLevels ob)) + length (filter empty (ob_SellLevels ob));
         ob' = ob\<lparr>ob_BuyLevels := filter (\<lambda>x. \<not> empty x) (ob_BuyLevels ob),
                 ob_SellLevels := filter (\<lambda>x. \<not> empty x) (ob_SellLevels ob)\<rparr>
     in (removed, if removed > 0 then updateBestPrices ob' else ob'))"

text \<open>\<^verbatim>\<open>validateAndFixLevelConsistency\<close>: sums \<^verbatim>\<open>order.Size\<close> and wraps like \<^verbatim>\<open>uint64\<close>.\<close>

definition order_plausible :: "u64 \<Rightarrow> order \<Rightarrow> bool" where
  "order_plausible price ord \<longleftrightarrow> o_Price ord = price \<and> \<not> o_Size ord > 1000000 * PRICE_DECIMALS"

definition fix_slot :: "book \<Rightarrow> u64 \<Rightarrow> slot \<Rightarrow> slot" where
  "fix_slot ob price s =
    (let valid = filter (\<lambda>p. order_plausible price (ob_heap ob p)) (s_Orders s)
     in \<lparr>s_Orders = valid, s_Volume = sum_list (map (\<lambda>p. o_Size (ob_heap ob p)) valid)\<rparr>)"

definition validateAndFixLevelConsistency :: "book \<Rightarrow> level \<Rightarrow> level" where
  "validateAndFixLevelConsistency ob lv =
    (let slots = map (fix_slot ob (l_Price lv)) (l_Slots lv)
     in lv\<lparr>l_Slots := slots, l_TotalVolume := sum_list (map s_Volume slots)\<rparr>)"

subsection \<open>Trade history\<close>

definition GetTradesByOrderID :: "u64 \<Rightarrow> book \<Rightarrow> trade list" where
  "GetTradesByOrderID orderID ob =
    filter (\<lambda>t. t_TakerOrderID t = orderID \<or> t_MakerOrderID t = orderID) (ob_Trades ob)"

definition GetTradesByTraderID :: "u32 \<Rightarrow> book \<Rightarrow> trade list" where
  "GetTradesByTraderID traderID ob =
    filter (\<lambda>t. t_TakerTraderID t = traderID \<or> t_MakerTraderID t = traderID) (ob_Trades ob)"

definition GetRecentTrades :: "int \<Rightarrow> book \<Rightarrow> trade list" where
  "GetRecentTrades limit ob =
    (let n = int (length (ob_Trades ob)); l = (if limit \<le> 0 \<or> limit > n then n else limit)
     in drop (nat (n - l)) (ob_Trades ob))"

text \<open>\<open>cutoff\<close> is \<^verbatim>\<open>time.Now().Add(-olderThan).UnixNano()\<close>.\<close>

fun first_fresh :: "int \<Rightarrow> nat \<Rightarrow> trade list \<Rightarrow> nat" where
  "first_fresh cutoff i [] = 0"
| "first_fresh cutoff i (t # ts) =
    (if t_Timestamp t \<ge> cutoff then i else first_fresh cutoff (Suc i) ts)"

definition ClearOldTrades :: "int \<Rightarrow> book \<Rightarrow> nat \<times> book" where
  "ClearOldTrades olderThan ob =
    (let cutoff = ob_now ob - olderThan; firstValidIdx = first_fresh cutoff 0 (ob_Trades ob)
     in if firstValidIdx = 0 then (0, ob)
        else (firstValidIdx, ob\<lparr>ob_Trades := drop firstValidIdx (ob_Trades ob)\<rparr>))"

end
