(* ===== verification/BookInv.thy ===== *)
theory BookInv
  imports BookOps
begin

text \<open>
  The invariant of the order book and what the matching loops do to it.

  \<open>book_inv\<close> ties the three views of an order together: the order index, the price levels with
  their slot queues, and the cached volumes. It is stated over the level maps, the heap and the
  index (\<open>book_ok\<close>), so that one lemma for replacing a level (\<open>book_ok_update\<close>) and one for
  deleting a level (\<open>book_ok_delete\<close>) carry every operation. \<open>consumed\<close> says what the two inner
  loops of \<^verbatim>\<open>tryMatchUnsafe\<close> do: they eat a prefix of the queue, in order, and only the next
  maker may be left partially filled.
\<close>

named_theorems rem_simps \<open>the unfilled quantity after updates\<close>

subsection \<open>Unfilled quantities\<close>

definition rem :: "order \<Rightarrow> nat" where
  "rem ord = unat (RemainingSize ord)"

lemma rem_eq: "rem ord = unat (o_Size ord) - unat (o_FilledSize ord)"
  by (auto simp: rem_def RemainingSize_def word_le_nat_alt unat_sub)

lemma IsFilled_rem: "IsFilled ord \<longleftrightarrow> rem ord = 0"
  by (simp add: rem_eq IsFilled_def word_le_nat_alt)

lemma unat_exec_size: "unat (exec_size a b) = min (rem a) (rem b)"
  by (auto simp: exec_size_def rem_def word_less_nat_alt)

lemma rem_after_trade [rem_simps]:
  assumes "unat n \<le> rem ord"
  shows "rem (after_trade n ord) = rem ord - unat n"
proof (cases "n = 0")
  case False
  then have "0 < unat n" by (simp add: word_unat_eq_iff)
  with assms have "unat (o_FilledSize ord) + unat n \<le> unat (o_Size ord)"
    by (simp add: rem_eq)
  then have "unat (o_FilledSize ord + n) = unat (o_FilledSize ord) + unat n"
    using unat64_less [of "o_Size ord"] by (intro unat_add_no_wrap) simp
  then show ?thesis by (simp add: rem_eq)
qed (simp add: rem_eq)

lemma filled_le_after_trade:
  "unat n \<le> rem ord \<Longrightarrow> o_FilledSize ord \<le> o_Size ord \<Longrightarrow>
    o_FilledSize ord + n \<le> o_Size ord"
  using unat64_less [of "o_Size ord"] unat_add_no_wrap [of "o_FilledSize ord" n]
  by (simp add: rem_eq word_le_nat_alt)

lemma unat_safeSubtract: "unat (safeSubtract a b) = unat a - unat b"
  by (auto simp: safeSubtract_def word_less_nat_alt unat_sub word_le_nat_alt)

lemma unat_safeAdd: "unat (safeAdd a b) = min (2 ^ 64 - 1) (unat a + unat b)"
proof -
  have m: "unat (- 1 - b :: u64) = 2 ^ 64 - 1 - unat b"
    by (subst unat_sub) (simp_all add: unat_word_max)
  show ?thesis
  proof (cases "unat a + unat b < 2 ^ 64")
    case True
    then have "\<not> a > - 1 - b" by (simp add: word_less_nat_alt m)
    with True show ?thesis by (simp add: safeAdd_def unat_add_no_wrap)
  next
    case False
    then have "a > - 1 - b"
      using unat64_less [of a] unat64_less [of b] by (simp add: word_less_nat_alt m)
    with False show ?thesis by (simp add: safeAdd_def unat_word_max)
  qed
qed

subsection \<open>The structural invariant\<close>

definition volume :: "(u64 \<Rightarrow> order) \<Rightarrow> u64 list \<Rightarrow> nat" where
  "volume h ps = sum_list (map (\<lambda>p. rem (h p)) ps)"

definition resting :: "(u64 \<Rightarrow> order) \<Rightarrow> side \<Rightarrow> u64 \<Rightarrow> nat \<Rightarrow> u64 \<Rightarrow> bool" where
  "resting h sd price i p \<longleftrightarrow> o_ID (h p) = p \<and> o_Side (h p) = sd \<and> o_Price (h p) = price
    \<and> unat (o_Slot (h p)) = i \<and> \<not> IsFilled (h p) \<and> o_FilledSize (h p) \<le> o_Size (h p)"

definition slot_ok :: "(u64 \<Rightarrow> order) \<Rightarrow> side \<Rightarrow> u64 \<Rightarrow> nat \<Rightarrow> slot \<Rightarrow> bool" where
  "slot_ok h sd price i s \<longleftrightarrow> distinct (s_Orders s) \<and> (\<forall>p\<in>set (s_Orders s). resting h sd price i p)
    \<and> unat (s_Volume s) = volume h (s_Orders s)"

fun slots_ok :: "(u64 \<Rightarrow> order) \<Rightarrow> side \<Rightarrow> u64 \<Rightarrow> nat \<Rightarrow> slot list \<Rightarrow> bool" where
  "slots_ok h sd price i [] \<longleftrightarrow> True"
| "slots_ok h sd price i (s # ss) \<longleftrightarrow> slot_ok h sd price i s \<and> slots_ok h sd price (Suc i) ss"

definition queue :: "slot list \<Rightarrow> u64 list" where
  "queue ss = concat (map s_Orders ss)"

definition level_ok :: "(u64 \<Rightarrow> order) \<Rightarrow> side \<Rightarrow> u64 \<Rightarrow> level \<Rightarrow> bool" where
  "level_ok h sd price lv \<longleftrightarrow> l_Price lv = price \<and> length (l_Slots lv) = VERKLE_WIDTH
    \<and> slots_ok h sd price 0 (l_Slots lv)
    \<and> unat (l_TotalVolume lv) = volume h (queue (l_Slots lv)) \<and> l_TotalVolume lv \<noteq> 0"

definition placed :: "(side \<Rightarrow> (u64 \<times> level) list) \<Rightarrow> (u64 \<Rightarrow> order) \<Rightarrow> u64 \<Rightarrow> bool" where
  "placed L h p \<longleftrightarrow> (case map_of (L (o_Side (h p))) (o_Price (h p)) of
     None \<Rightarrow> False | Some lv \<Rightarrow> p \<in> set (queue (l_Slots lv)))"

definition book_ok :: "(side \<Rightarrow> (u64 \<times> level) list) \<Rightarrow> (u64 \<Rightarrow> order) \<Rightarrow> u64 set \<Rightarrow> bool" where
  "book_ok L h I \<longleftrightarrow>
    (\<forall>sd. distinct (map fst (L sd)) \<and>
       (\<forall>(price, lv)\<in>set (L sd). level_ok h sd price lv \<and> set (queue (l_Slots lv)) \<subseteq> I))
    \<and> (\<forall>p\<in>I. placed L h p)"

definition book_levels :: "book \<Rightarrow> side \<Rightarrow> (u64 \<times> level) list" where
  "book_levels ob = (\<lambda>sd. levels sd ob)"

definition book_inv :: "book \<Rightarrow> bool" where
  "book_inv ob \<longleftrightarrow> book_ok (book_levels ob) (ob_heap ob) (set (ob_OrderIndex ob))
    \<and> distinct (ob_OrderIndex ob) \<and> (\<forall>p\<in>set (ob_OrderIndex ob). 0 < p \<and> p \<le> ob_nextOrderID ob)"

lemma queue_simps [simp]: "queue [] = []" "queue (s # ss) = s_Orders s @ queue ss"
  by (simp_all add: queue_def)

lemma volume_simps [simp]:
  "volume h [] = 0" "volume h (p # ps) = rem (h p) + volume h ps"
  "volume h (ps @ qs) = volume h ps + volume h qs"
  by (simp_all add: volume_def)

lemma volume_cong: "(\<And>p. p \<in> set ps \<Longrightarrow> h' p = h p) \<Longrightarrow> volume h' ps = volume h ps"
  by (simp add: volume_def cong: map_cong)

lemma resting_cong: "h' p = h p \<Longrightarrow> resting h' sd price i p = resting h sd price i p"
  by (simp add: resting_def)

lemma slot_ok_cong:
  assumes "\<And>p. p \<in> set (s_Orders s) \<Longrightarrow> h' p = h p"
  shows "slot_ok h' sd price i s = slot_ok h sd price i s"
  using assms volume_cong [OF assms] by (auto simp: slot_ok_def resting_def)

lemma slots_ok_cong:
  assumes "\<And>p. p \<in> set (queue ss) \<Longrightarrow> h' p = h p"
  shows "slots_ok h' sd price i ss = slots_ok h sd price i ss"
  using assms
proof (induction ss arbitrary: i)
  case (Cons s ss)
  then have "slot_ok h' sd price i s = slot_ok h sd price i s"
    by (intro slot_ok_cong) simp
  with Cons show ?case by simp
qed simp

lemma level_ok_cong:
  assumes "\<And>p. p \<in> set (queue (l_Slots lv)) \<Longrightarrow> h' p = h p"
  shows "level_ok h' sd price lv = level_ok h sd price lv"
  using volume_cong [OF assms] slots_ok_cong [OF assms] by (simp add: level_ok_def)

lemma slots_ok_resting:
  "slots_ok h sd price i ss \<Longrightarrow> p \<in> set (queue ss) \<Longrightarrow>
    resting h sd price (unat (o_Slot (h p))) p \<and> i \<le> unat (o_Slot (h p))"
proof (induction ss arbitrary: i)
  case (Cons s ss)
  then show ?case by (fastforce simp: slot_ok_def resting_def)
qed simp

lemma slots_ok_distinct: "slots_ok h sd price i ss \<Longrightarrow> distinct (queue ss)"
proof (induction ss arbitrary: i)
  case (Cons s ss)
  moreover have "p \<notin> set (queue ss)" if "p \<in> set (s_Orders s)" for p
    using Cons.prems that slots_ok_resting [of h sd price "Suc i" ss p]
    by (auto simp: slot_ok_def resting_def)
  ultimately show ?case by (auto simp: slot_ok_def)
qed simp

lemma slots_ok_nth:
  "slots_ok h sd price i ss \<longleftrightarrow> (\<forall>j<length ss. slot_ok h sd price (i + j) (ss ! j))"
proof (induction ss arbitrary: i)
  case (Cons s ss)
  have "(\<forall>j<Suc n. P j) \<longleftrightarrow> P 0 \<and> (\<forall>j<n. P (Suc j))" for n and P :: "nat \<Rightarrow> bool"
    using less_Suc_eq_0_disj by auto
  with Cons show ?case by simp
qed simp

subsection \<open>Replacing and deleting a level\<close>

lemma book_ok_memD:
  assumes "book_ok L h I" "(price, lv) \<in> set (L sd)"
  shows "level_ok h sd price lv" "set (queue (l_Slots lv)) \<subseteq> I"
  using assms unfolding book_ok_def by fastforce+

lemma level_okD:
  assumes "book_ok L h I" "map_of (L sd) price = Some lv"
  shows "level_ok h sd price lv" "set (queue (l_Slots lv)) \<subseteq> I"
  using book_ok_memD [OF assms(1)] map_of_SomeD [OF assms(2)] by blast+

lemma queue_nth:
  "p \<in> set (queue ss) \<Longrightarrow> \<exists>i<length ss. p \<in> set (s_Orders (ss ! i))"
proof (induction ss)
  case (Cons s ss)
  show ?case
  proof (cases "p \<in> set (s_Orders s)")
    case True
    then show ?thesis by (intro exI [of _ 0]) simp
  next
    case False
    with Cons obtain i where "i < length ss" "p \<in> set (s_Orders (ss ! i))" by auto
    then show ?thesis by (intro exI [of _ "Suc i"]) simp
  qed
qed simp

lemma queue_located:
  assumes "level_ok h sd price lv" "p \<in> set (queue (l_Slots lv))"
  shows "o_ID (h p) = p" "o_Side (h p) = sd" "o_Price (h p) = price" "\<not> IsFilled (h p)"
    "o_FilledSize (h p) \<le> o_Size (h p)" "unat (o_Slot (h p)) < VERKLE_WIDTH"
    "p \<in> set (s_Orders (l_Slots lv ! unat (o_Slot (h p))))"
proof -
  from assms have ok: "slots_ok h sd price 0 (l_Slots lv)" and len: "length (l_Slots lv) = VERKLE_WIDTH"
    by (auto simp: level_ok_def)
  from slots_ok_resting [OF ok assms(2)] show
    "o_ID (h p) = p" "o_Side (h p) = sd" "o_Price (h p) = price" "\<not> IsFilled (h p)"
    "o_FilledSize (h p) \<le> o_Size (h p)"
    by (auto simp: resting_def)
  obtain i where i: "i < length (l_Slots lv)" "p \<in> set (s_Orders (l_Slots lv ! i))"
    using queue_nth [OF assms(2)] by blast
  with ok have "unat (o_Slot (h p)) = i" by (auto simp: slots_ok_nth slot_ok_def resting_def)
  with i len show "unat (o_Slot (h p)) < VERKLE_WIDTH"
    "p \<in> set (s_Orders (l_Slots lv ! unat (o_Slot (h p))))" by auto
qed

definition level_queue :: "(side \<Rightarrow> (u64 \<times> level) list) \<Rightarrow> side \<Rightarrow> u64 \<Rightarrow> u64 set" where
  "level_queue L sd price = (case map_of (L sd) price of
     None \<Rightarrow> {} | Some lv \<Rightarrow> set (queue (l_Slots lv)))"

text \<open>Orders outside the level at a side and price belong to a level elsewhere.\<close>

lemma placed_elsewhere:
  assumes "book_ok L h I" "p \<in> I" "p \<notin> level_queue L sd price"
  shows "\<not> (o_Side (h p) = sd \<and> o_Price (h p) = price)"
  using assms by (auto simp: book_ok_def placed_def level_queue_def split: option.splits)

lemma other_level_disjoint:
  assumes "book_ok L h I" "(price', lv') \<in> set (L sd')" "sd' \<noteq> sd \<or> price' \<noteq> price"
    and "q \<in> set (queue (l_Slots lv'))"
  shows "q \<in> I - level_queue L sd price"
proof -
  have ok: "level_ok h sd' price' lv'" "q \<in> I"
    using book_ok_memD [OF assms(1,2)] assms(4) by auto
  have "q \<notin> level_queue L sd price"
  proof
    assume "q \<in> level_queue L sd price"
    then obtain lv where lv: "map_of (L sd) price = Some lv" "q \<in> set (queue (l_Slots lv))"
      by (auto simp: level_queue_def split: option.splits)
    with level_okD [OF assms(1) lv(1)] queue_located(2,3) [OF _ lv(2)] queue_located(2,3) [OF ok(1) assms(4)]
      assms(3)
    show False by blast
  qed
  with ok show ?thesis by simp
qed

lemma book_ok_delete:
  assumes ok: "book_ok L h I" and I': "I' = I - level_queue L sd price"
    and h': "\<And>q. q \<in> I' \<Longrightarrow> h' q = h q"
  shows "book_ok (L(sd := AList.delete price (L sd))) h' I'" (is "book_ok ?L _ _")
  unfolding book_ok_def
proof (intro conjI allI ballI, unfold split_paired_all prod.case)
  show "distinct (map fst (?L sd'))" for sd'
    using ok by (simp add: book_ok_def distinct_delete)
next
  fix sd' price' lv' assume "(price', lv') \<in> set (?L sd')"
  then have mem: "(price', lv') \<in> set (L sd')" and ne: "sd' \<noteq> sd \<or> price' \<noteq> price"
    by (auto simp: set_alist_delete split: if_splits)
  have sub: "set (queue (l_Slots lv')) \<subseteq> I'"
    using other_level_disjoint [OF ok mem ne] I' by blast
  with h' have "level_ok h' sd' price' lv' = level_ok h sd' price' lv'"
    by (intro level_ok_cong) blast
  with book_ok_memD(1) [OF ok mem] sub
  show "level_ok h' sd' price' lv' \<and> set (queue (l_Slots lv')) \<subseteq> I'" by simp
next
  fix p assume p: "p \<in> I'"
  with placed_elsewhere [OF ok, of p sd price] I'
  have "\<not> (o_Side (h p) = sd \<and> o_Price (h p) = price)" by simp
  moreover from ok p I' have "placed L h p" by (auto simp: book_ok_def)
  ultimately show "placed ?L h' p" using h' [OF p] by (auto simp: placed_def)
qed

lemma book_ok_update:
  assumes ok: "book_ok L h I" and lv': "level_ok h' sd price lv'"
    and new: "set (queue (l_Slots lv')) \<inter> (I - level_queue L sd price) = {}"
    and I': "I' = (I - level_queue L sd price) \<union> set (queue (l_Slots lv'))"
    and h': "\<And>q. q \<in> I - level_queue L sd price \<Longrightarrow> h' q = h q"
  shows "book_ok (L(sd := AList.update price lv' (L sd))) h' I'" (is "book_ok ?L _ _")
  unfolding book_ok_def
proof (intro conjI allI ballI, unfold split_paired_all prod.case)
  show "distinct (map fst (?L sd'))" for sd'
    using ok by (simp add: book_ok_def distinct_update)
next
  fix sd' price' lv0 assume m: "(price', lv0) \<in> set (?L sd')"
  have dist: "distinct (map fst (L sd))" using ok by (simp add: book_ok_def)
  show "level_ok h' sd' price' lv0 \<and> set (queue (l_Slots lv0)) \<subseteq> I'"
  proof (cases "sd' = sd \<and> price' = price")
    case True
    with m dist have "lv0 = lv'" by (auto simp: set_alist_update)
    with True lv' I' show ?thesis by auto
  next
    case ne: False
    with m dist have mem: "(price', lv0) \<in> set (L sd')"
      by (auto simp: set_alist_update split: if_splits)
    have sub: "set (queue (l_Slots lv0)) \<subseteq> I - level_queue L sd price"
      using other_level_disjoint [OF ok mem, of sd price] ne by blast
    with h' have "level_ok h' sd' price' lv0 = level_ok h sd' price' lv0"
      by (intro level_ok_cong) blast
    with book_ok_memD(1) [OF ok mem] sub I' show ?thesis by auto
  qed
next
  fix p assume p: "p \<in> I'"
  show "placed ?L h' p"
  proof (cases "p \<in> set (queue (l_Slots lv'))")
    case True
    with queue_located(2,3) [OF lv'] show ?thesis by (simp add: placed_def)
  next
    case False
    with p I' have q: "p \<in> I - level_queue L sd price" by simp
    with placed_elsewhere [OF ok, of p sd price]
    have "\<not> (o_Side (h p) = sd \<and> o_Price (h p) = price)" by simp
    moreover from ok q have "placed L h p" by (auto simp: book_ok_def)
    ultimately show ?thesis using h' [OF q] by (auto simp: placed_def)
  qed
qed

end
