(* ===== verification/MatchSpec.thy ===== *)
theory MatchSpec
  imports BookInv
begin

text \<open>
  What a pass of the matching loops over a level does. \<open>consumed\<close> is the specification: of the
  queue \<open>ms\<close> (the orders of the level in slot order, each slot first in, first out) the first
  \<open>k\<close> are filled and leave the book, at most the next one is filled partially, the rest is
  untouched; the trades \<open>ts\<close> name the makers in that order and their sizes account for every
  unit of the taker and of the makers.
\<close>

definition trade_at :: "order \<Rightarrow> u64 \<Rightarrow> trade \<Rightarrow> bool" where
  "trade_at tk price t \<longleftrightarrow> t_TakerOrderID t = o_ID tk \<and> t_TakerTraderID t = o_TraderID tk
    \<and> t_TakerSide t = o_Side tk \<and> t_Price t = price \<and> 0 < t_Size t"

definition traded :: "trade list \<Rightarrow> nat" where
  "traded ts = sum_list (map (\<lambda>t. unat (t_Size t)) ts)"

definition maker_step :: "order \<Rightarrow> order \<Rightarrow> bool" where
  "maker_step a b \<longleftrightarrow> taker_frame a b \<and> \<not> IsFilled b \<and> o_FilledSize b \<le> o_Size b"

definition consumed ::
  "order \<Rightarrow> u64 \<Rightarrow> u64 list \<Rightarrow> book \<Rightarrow> order \<Rightarrow> book \<Rightarrow> nat \<Rightarrow> trade list \<Rightarrow> bool" where
  "consumed tk price ms ob tk' ob' k ts \<longleftrightarrow>
    k \<le> length ms
    \<and> (\<forall>q. q \<notin> set (take (Suc k) ms) \<longrightarrow> ob_heap ob' q = ob_heap ob q)
    \<and> (\<forall>q\<in>set (drop k ms). maker_step (ob_heap ob q) (ob_heap ob' q))
    \<and> set (ob_OrderIndex ob') = set (ob_OrderIndex ob) - set (take k ms)
    \<and> (distinct (ob_OrderIndex ob) \<longrightarrow> distinct (ob_OrderIndex ob'))
    \<and> ob_Trades ob' = ob_Trades ob @ ts
    \<and> map t_MakerOrderID ts = take (length ts) ms \<and> k \<le> length ts \<and> length ts \<le> Suc k
    \<and> length ts \<le> length ms \<and> (\<forall>t\<in>set ts. trade_at tk price t)
    \<and> taker_frame tk tk' \<and> rem tk = rem tk' + traded ts
    \<and> (o_FilledSize tk \<le> o_Size tk \<longrightarrow> o_FilledSize tk' \<le> o_Size tk')
    \<and> volume (ob_heap ob) ms = volume (ob_heap ob') (drop k ms) + traded ts
    \<and> (\<not> IsFilled tk' \<longrightarrow> k = length ms)"

lemma traded_simps [simp]:
  "traded [] = 0" "traded (t # ts) = unat (t_Size t) + traded ts"
  "traded (ts @ us) = traded ts + traded us"
  by (simp_all add: traded_def)

lemma trade_at_frame: "taker_frame tk tk1 \<Longrightarrow> trade_at tk1 price t = trade_at tk price t"
  by (auto simp: trade_at_def dest: taker_frame_fields)

lemma resting_maker_step:
  "resting h sd price i q \<Longrightarrow> maker_step (h q) (h' q) \<Longrightarrow> resting h' sd price i q"
  by (auto simp: resting_def maker_step_def dest: taker_frame_fields)

subsection \<open>Building consumed runs\<close>

lemma consumed_none:
  assumes "IsFilled tk \<or> ms = []" "\<forall>q\<in>set ms. resting (ob_heap ob) sd price (f q) q"
  shows "consumed tk price ms ob tk ob 0 []"
  using assms by (auto simp: consumed_def maker_step_def resting_def)

lemma consumed_one_filled:
  assumes m: "resting (ob_heap ob) sd price i m" and tk: "\<not> IsFilled tk"
    and e: "e = exec_size tk (ob_heap ob m)" and full: "IsFilled (after_trade e (ob_heap ob m))"
  shows "\<exists>t. unat (t_Size t) = unat e \<and> consumed tk price [m] ob (after_trade e tk)
    (putOrderToPool m (index_delete m (execute_trade tk m price ob))) (Suc 0) [t]"
proof -
  let ?m = "ob_heap ob m"
  have le: "unat e \<le> rem tk" "unat e \<le> rem ?m" and pos: "0 < unat e"
    using m tk by (auto simp: e unat_exec_size resting_def IsFilled_rem)
  with full have all: "unat e = rem ?m" by (simp add: IsFilled_rem rem_after_trade)
  from pos have "0 < e" by (simp add: word_less_nat_alt)
  with le m all show ?thesis
    by (auto simp: consumed_def execute_trade_def putOrderToPool_def index_delete_def Let_def e [symmetric]
        trade_at_def resting_def taker_frame_trade rem_after_trade filled_le_after_trade intro!: exI)
qed

lemma consumed_one_partial:
  assumes m: "resting (ob_heap ob) sd price i m" and tk: "\<not> IsFilled tk"
    and e: "e = exec_size tk (ob_heap ob m)" and part: "\<not> IsFilled (after_trade e (ob_heap ob m))"
  shows "\<exists>t. unat (t_Size t) = unat e
    \<and> consumed tk price [m] ob (after_trade e tk) (execute_trade tk m price ob) 0 [t]"
proof -
  let ?m = "ob_heap ob m"
  have le: "unat e \<le> rem tk" "unat e \<le> rem ?m" and pos: "0 < unat e"
    using m tk by (auto simp: e unat_exec_size resting_def IsFilled_rem)
  have "IsFilled (after_trade e tk)" using trade_fills_one [of tk ?m] part by (simp add: e)
  moreover from pos have "0 < e" by (simp add: word_less_nat_alt)
  ultimately show ?thesis
    using le m part
    by (auto simp: consumed_def execute_trade_def Let_def e [symmetric] maker_step_def
        trade_at_def resting_def taker_frame_trade rem_after_trade filled_le_after_trade intro!: exI)
qed

lemma consumed_extend:
  assumes c: "consumed tk price ms ob tk' ob' k ts" and full: "IsFilled tk'"
    and more: "\<forall>q\<in>set ms2. resting (ob_heap ob) sd price (f q) q" "set ms2 \<inter> set ms = {}"
  shows "consumed tk price (ms @ ms2) ob tk' ob' k ts"
proof -
  from c have k: "k \<le> length ms" and frame: "\<And>q. q \<notin> set (take (Suc k) ms) \<Longrightarrow> ob_heap ob' q = ob_heap ob q"
    by (auto simp: consumed_def)
  have same: "ob_heap ob' q = ob_heap ob q" if "q \<in> set ms2" for q
    using that more(2) frame [of q] set_take_subset [of "Suc k" ms] by blast
  then have "maker_step (ob_heap ob q) (ob_heap ob' q)" if "q \<in> set ms2" for q
    using that more(1) by (auto simp: maker_step_def resting_def)
  moreover have "volume (ob_heap ob') ms2 = volume (ob_heap ob) ms2"
    by (rule volume_cong) (rule same)
  ultimately show ?thesis
    using c k full by (auto simp: consumed_def)
qed

lemma consumed_append:
  assumes a: "consumed tk price ms ob tk1 ob1 (length ms) ts"
    and b: "consumed tk1 price ms2 ob1 tk' ob' k us"
    and dis: "set ms2 \<inter> set ms = {}"
  shows "consumed tk price (ms @ ms2) ob tk' ob' (length ms + k) (ts @ us)"
proof -
  from a have ta: "length ts = length ms" and fa: "\<And>q. q \<notin> set ms \<Longrightarrow> ob_heap ob1 q = ob_heap ob q"
    by (auto simp: consumed_def)
  from b have fb: "\<And>q. q \<notin> set (take (Suc k) ms2) \<Longrightarrow> ob_heap ob' q = ob_heap ob1 q"
    by (auto simp: consumed_def)
  have same: "ob_heap ob1 q = ob_heap ob q" if "q \<in> set ms2" for q
    using that dis fa by blast
  have vol: "volume (ob_heap ob1) ms2 = volume (ob_heap ob) ms2"
    by (rule volume_cong) (rule same)
  have steps: "\<forall>q\<in>set (drop k ms2). maker_step (ob_heap ob q) (ob_heap ob' q)"
  proof
    fix q assume q: "q \<in> set (drop k ms2)"
    with b have "maker_step (ob_heap ob1 q) (ob_heap ob' q)" by (simp add: consumed_def)
    with same [OF in_set_dropD [OF q]] show "maker_step (ob_heap ob q) (ob_heap ob' q)" by simp
  qed
  have frames: "taker_frame tk tk1" using a by (simp add: consumed_def)
  with b trade_at_frame have "\<forall>t\<in>set us. trade_at tk price t" by (auto simp: consumed_def)
  moreover have "\<forall>q. q \<notin> set (take (Suc (length ms + k)) (ms @ ms2)) \<longrightarrow> ob_heap ob' q = ob_heap ob q"
    using fa fb by (auto simp: Suc_diff_le)
  ultimately show ?thesis
    using a b ta vol steps taker_frame_trans [OF frames]
    unfolding consumed_def by (intro conjI) (simp_all, blast+)
qed

subsection \<open>The loops consume the queue\<close>

lemma consumed_traded_le: "consumed tk price ms ob tk' ob' k ts \<Longrightarrow> traded ts \<le> volume (ob_heap ob) ms"
  by (simp add: consumed_def)

lemma match_orders_consumed:
  assumes "match_orders tk price ms ob v tot mt = (ms', tk', ob', v', tot', mt')"
    and "distinct ms" "\<forall>q\<in>set ms. resting (ob_heap ob) sd price i q"
    and "volume (ob_heap ob) ms \<le> unat v" "volume (ob_heap ob) ms \<le> unat tot"
  shows "\<exists>k ts. consumed tk price ms ob tk' ob' k ts \<and> ms' = drop k ms
    \<and> unat v' + traded ts = unat v \<and> unat tot' + traded ts = unat tot"
  using assms
proof (induction ms arbitrary: tk ob v tot mt ms')
  case Nil
  then show ?case
    using consumed_none [of tk "[]"] by (intro exI [of _ 0] exI [of _ "[]"]) simp
next
  case (Cons m ms)
  let ?h = "ob_heap ob" and ?e = "exec_size tk (ob_heap ob m)" and ?ob = "execute_trade tk m price ob"
  have rest: "resting ?h sd price i m" "\<forall>q\<in>set ms. resting ?h sd price i q" "o_ID (?h m) = m"
    and dis: "distinct ms" "m \<notin> set ms"
    using Cons.prems by (auto simp: resting_def)
  have e: "unat ?e \<le> rem (?h m)" by (simp add: unat_exec_size)
  show ?case
  proof (cases "IsFilled tk")
    case True
    with Cons.prems show ?thesis
      using consumed_none [of tk "m # ms" ob sd price "\<lambda>_. i"] by (intro exI [of _ 0] exI [of _ "[]"]) simp
  next
    case tk: False
    show ?thesis
    proof (cases "IsFilled (after_trade ?e (?h m))")
      case True
      let ?ob1 = "putOrderToPool m (index_delete m ?ob)"
      obtain t where t: "unat (t_Size t) = unat ?e"
        and one: "consumed tk price [m] ob (after_trade ?e tk) ?ob1 (Suc 0) [t]"
        using consumed_one_filled [OF rest(1) tk refl True] by blast
      have h1: "ob_heap ?ob1 q = ?h q" if "q \<noteq> m" for q
        using that by (simp add: putOrderToPool_def index_delete_def)
      have vol: "volume (ob_heap ?ob1) ms = volume ?h ms"
        by (rule volume_cong, rule h1) (use dis in blast)
      have rest1: "\<forall>q\<in>set ms. resting (ob_heap ?ob1) sd price i q"
        using rest dis h1 by (metis resting_cong)
      have call: "match_orders (after_trade ?e tk) price ms ?ob1 (safeSubtract v ?e) (safeSubtract tot ?e) True
          = (ms', tk', ob', v', tot', mt')"
        using Cons.prems(1) tk True rest(3) by (simp add: Let_def)
      have "volume (ob_heap ?ob1) ms \<le> unat (safeSubtract v ?e)"
        "volume (ob_heap ?ob1) ms \<le> unat (safeSubtract tot ?e)"
        using Cons.prems(4,5) e by (auto simp: unat_safeSubtract vol)
      from Cons.IH [OF call dis(1) rest1 this] obtain k ts where k:
        "consumed (after_trade ?e tk) price ms ?ob1 tk' ob' k ts" "ms' = drop k ms"
        "unat v' + traded ts = unat (safeSubtract v ?e)" "unat tot' + traded ts = unat (safeSubtract tot ?e)"
        by blast
      have "consumed tk price (m # ms) ob tk' ob' (Suc k) (t # ts)"
        using consumed_append [of tk price "[m]" ob _ ?ob1 "[t]"] one k(1) dis by simp
      moreover have "unat (safeSubtract v ?e) + unat ?e = unat v"
        "unat (safeSubtract tot ?e) + unat ?e = unat tot"
        using Cons.prems(4,5) e by (auto simp: unat_safeSubtract)
      ultimately show ?thesis
        using k t by (intro exI [of _ "Suc k"] exI [of _ "t # ts"]) simp
    next
      case part: False
      obtain t where t: "unat (t_Size t) = unat ?e"
        and one: "consumed tk price [m] ob (after_trade ?e tk) ?ob 0 [t]"
        using consumed_one_partial [OF rest(1) tk refl part] by blast
      have full: "IsFilled (after_trade ?e tk)" using trade_fills_one part by blast
      with Cons.prems(1) tk part have res: "ms' = m # ms" "tk' = after_trade ?e tk" "ob' = ?ob"
        "v' = safeSubtract v ?e" "tot' = safeSubtract tot ?e"
        by (simp_all add: Let_def match_orders_stop)
      have "consumed tk price (m # ms) ob tk' ob' 0 [t]"
        using consumed_extend [OF one full, of ms sd "\<lambda>_. i"] rest dis res by simp
      with res t Cons.prems(4,5) e show ?thesis
        by (intro exI [of _ 0] exI [of _ "[t]"]) (simp add: unat_safeSubtract)
    qed
  qed
qed

lemma slot_ok_consumed:
  assumes s: "slot_ok (ob_heap ob) sd price i s"
    and c: "consumed tk price (s_Orders s) ob tk' ob' k ts" and v: "unat v + traded ts = unat (s_Volume s)"
  shows "slot_ok (ob_heap ob') sd price i
    \<lparr>s_Orders = drop k (s_Orders s), s_Volume = (if length (drop k (s_Orders s)) = 0 then 0 else v)\<rparr>"
proof -
  have "resting (ob_heap ob') sd price i q" if q: "q \<in> set (drop k (s_Orders s))" for q
    using q c s resting_maker_step in_set_dropD [OF q] by (auto simp: consumed_def slot_ok_def)
  with s c v show ?thesis by (auto simp: consumed_def slot_ok_def)
qed

lemma match_slots_consumed:
  assumes "match_slots tk price ss ob tot mt = (ss', tk', ob', tot', mt')"
    and "slots_ok (ob_heap ob) sd price i ss" "volume (ob_heap ob) (queue ss) \<le> unat tot"
  shows "\<exists>k ts. consumed tk price (queue ss) ob tk' ob' k ts \<and> queue ss' = drop k (queue ss)
    \<and> slots_ok (ob_heap ob') sd price i ss' \<and> unat tot' + traded ts = unat tot"
  using assms
proof (induction ss arbitrary: tk ob tot mt ss' i)
  case Nil
  then show ?case
    using consumed_none [of tk "[]"] by (intro exI [of _ 0] exI [of _ "[]"]) simp
next
  case (Cons s ss)
  let ?h = "ob_heap ob"
  have ok: "slot_ok ?h sd price i s" "slots_ok ?h sd price (Suc i) ss"
    and dist: "distinct (s_Orders s)" "set (queue ss) \<inter> set (s_Orders s) = {}"
    using Cons.prems(2) slots_ok_distinct [OF Cons.prems(2)] by auto
  have rest: "\<forall>q\<in>set (queue ss). resting ?h sd price (unat (o_Slot (?h q))) q"
    "\<forall>q\<in>set (s_Orders s). resting ?h sd price i q"
    using slots_ok_resting [OF ok(2)] ok(1) by (auto simp: slot_ok_def)
  have all: "\<forall>q\<in>set (queue (s # ss)). resting ?h sd price (unat (o_Slot (?h q))) q"
    using slots_ok_resting [OF Cons.prems(2)] by blast
  consider "IsFilled tk" | "\<not> IsFilled tk" "s_Orders s = []" | "\<not> IsFilled tk" "s_Orders s \<noteq> []"
    by blast
  then show ?case
  proof cases
    case 1
    with Cons.prems all show ?thesis
      using consumed_none [of tk "queue (s # ss)" ob sd price]
      by (intro exI [of _ 0] exI [of _ "[]"]) simp
  next
    case 2
    with Cons.prems obtain ss1 where "match_slots tk price ss ob tot mt = (ss1, tk', ob', tot', mt')"
      and ss': "ss' = s # ss1" by (auto split: prod.splits)
    from Cons.IH [OF this(1) ok(2)] Cons.prems(3) 2 ok(1) ss' show ?thesis
      by (fastforce simp: slot_ok_def)
  next
    case 3
    obtain os tk1 ob1 v1 tot1 mt1 where mo:
      "match_orders tk price (s_Orders s) ob (s_Volume s) tot mt = (os, tk1, ob1, v1, tot1, mt1)"
      by (metis prod_cases6)
    obtain ss1 where ms: "match_slots tk1 price ss ob1 tot1 mt1 = (ss1, tk', ob', tot', mt')"
      and ss': "ss' = \<lparr>s_Orders = os, s_Volume = (if length os = 0 then 0 else v1)\<rparr> # ss1"
      using Cons.prems 3 mo by (auto simp: Let_def split: prod.splits)
    obtain k ts where c: "consumed tk price (s_Orders s) ob tk1 ob1 k ts" and os: "os = drop k (s_Orders s)"
      and v1: "unat v1 + traded ts = unat (s_Volume s)" and tot1: "unat tot1 + traded ts = unat tot"
      using match_orders_consumed [OF mo dist(1) rest(2)] ok(1) Cons.prems(3)
      by (auto simp: slot_ok_def)
    have head: "slot_ok (ob_heap ob1) sd price i (hd ss')"
      using slot_ok_consumed [OF ok(1) c v1] by (simp add: ss' os)
    have same: "ob_heap ob1 q = ?h q" if "q \<in> set (queue ss)" for q
      using c that dist(2) set_take_subset [of "Suc k" "s_Orders s"] by (auto simp: consumed_def)
    have ok1: "slots_ok (ob_heap ob1) sd price (Suc i) ss"
      and vol: "volume (ob_heap ob1) (queue ss) = volume ?h (queue ss)"
      using slots_ok_cong [OF same] volume_cong [OF same] ok(2) by auto
    show ?thesis
    proof (cases "IsFilled tk1")
      case True
      with ms have res: "ss1 = ss" "tk' = tk1" "ob' = ob1" "tot' = tot1" by (simp_all add: match_slots_stop)
      have "consumed tk price (s_Orders s @ queue ss) ob tk' ob' k ts"
        using consumed_extend [OF c True rest(1) dist(2)] res by simp
      with tot1 head ok1 res show ?thesis
        using c by (intro exI [of _ k] exI [of _ ts]) (simp add: ss' os consumed_def)
    next
      case False
      with c have k: "k = length (s_Orders s)" by (simp add: consumed_def)
      have "volume (ob_heap ob1) (queue ss) \<le> unat tot1"
        using consumed_traded_le [OF c] tot1 Cons.prems(3) vol by simp
      from Cons.IH [OF ms ok1 this] obtain k2 us where r:
        "consumed tk1 price (queue ss) ob1 tk' ob' k2 us" "queue ss1 = drop k2 (queue ss)"
        "slots_ok (ob_heap ob') sd price (Suc i) ss1" "unat tot' + traded us = unat tot1"
        by blast
      have "consumed tk price (s_Orders s @ queue ss) ob tk' ob' (k + k2) (ts @ us)"
        using consumed_append [of tk price "s_Orders s"] c r(1) dist(2) k by simp
      with r tot1 show ?thesis
        by (intro exI [of _ "k + k2"] exI [of _ "ts @ us"]) (simp add: ss' os k slot_ok_def)
    qed
  qed
qed

end
