(* ===== verification/MatchInv.thy ===== *)
theory MatchInv
  imports MatchSpec
begin

text \<open>
  From one level to the whole matching engine. \<open>matched\<close> relates the taker and the book before
  and after any number of passes of the outer loop; it composes, it keeps the book invariant, and
  it accounts for every traded unit. \<open>try_match\<close> satisfies it.
\<close>

definition within_limit :: "order \<Rightarrow> u64 \<Rightarrow> bool" where
  "within_limit tk price \<longleftrightarrow>
    (if o_Side tk = BUY then price \<le> o_Price tk else price \<ge> o_Price tk)"

definition side_volume :: "(u64 \<times> level) list \<Rightarrow> nat" where
  "side_volume ls = sum_list (map (\<lambda>(_, lv). unat (l_TotalVolume lv)) ls)"

definition matched :: "order \<Rightarrow> book \<Rightarrow> order \<Rightarrow> book \<Rightarrow> trade list \<Rightarrow> bool" where
  "matched tk ob tk' ob' ts \<longleftrightarrow> book_inv ob' \<and> taker_frame tk tk'
    \<and> (o_FilledSize tk \<le> o_Size tk \<longrightarrow> o_FilledSize tk' \<le> o_Size tk')
    \<and> rem tk = rem tk' + traded ts \<and> ob_Trades ob' = ob_Trades ob @ ts
    \<and> (\<forall>t\<in>set ts. trade_at tk (t_Price t) t \<and> within_limit tk (t_Price t))
    \<and> set (ob_OrderIndex ob') \<subseteq> set (ob_OrderIndex ob)
    \<and> (\<forall>q. q \<notin> set (ob_OrderIndex ob) \<longrightarrow> ob_heap ob' q = ob_heap ob q)
    \<and> levels (o_Side tk) ob' = levels (o_Side tk) ob
    \<and> side_volume (levels (opposite (o_Side tk)) ob)
        = side_volume (levels (opposite (o_Side tk)) ob') + traded ts
    \<and> ob_nextOrderID ob' = ob_nextOrderID ob"

lemma matched_refl: "book_inv ob \<Longrightarrow> matched tk ob tk ob []"
  by (simp add: matched_def)

lemma within_limit_frame: "taker_frame tk tk1 \<Longrightarrow> within_limit tk1 price = within_limit tk price"
  by (auto simp: within_limit_def dest: taker_frame_fields)

lemma matched_trans:
  assumes a: "matched tk ob tk1 ob1 ts" and b: "matched tk1 ob1 tk' ob' us"
  shows "matched tk ob tk' ob' (ts @ us)"
proof -
  have fr: "taker_frame tk tk1" "o_Side tk1 = o_Side tk"
    using a taker_frame_fields by (auto simp: matched_def)
  have "\<forall>t\<in>set us. trade_at tk (t_Price t) t \<and> within_limit tk (t_Price t)"
    using b by (simp add: matched_def trade_at_frame [OF fr(1)] within_limit_frame [OF fr(1)])
  moreover have "ob_heap ob' q = ob_heap ob q" if "q \<notin> set (ob_OrderIndex ob)" for q
    using a b that by (auto simp: matched_def)
  ultimately show ?thesis
    using a b fr taker_frame_trans [OF fr(1)] by (auto simp: matched_def)
qed

lemma side_volume_update:
  "map_of ls p = Some lv \<Longrightarrow>
    side_volume (AList.update p lv' ls) + unat (l_TotalVolume lv)
      = side_volume ls + unat (l_TotalVolume lv')"
  by (induction ls) (auto simp: side_volume_def split: if_splits)

lemma side_volume_delete:
  "distinct (map fst ls) \<Longrightarrow> map_of ls p = Some lv \<Longrightarrow>
    side_volume (AList.delete p ls) + unat (l_TotalVolume lv) = side_volume ls"
proof (induction ls)
  case (Cons x ls)
  have "AList.delete p ls = ls" if "p \<notin> fst ` set ls"
    using that by (induction ls) auto
  with Cons show ?case by (auto simp: side_volume_def AList.delete_eq split: if_splits prod.splits)
qed simp

lemma levels_other_fields [simp]:
  "levels sd (ob\<lparr>ob_heap := x0\<rparr>) = levels sd ob"
  "levels sd (ob\<lparr>ob_OrderIndex := x1\<rparr>) = levels sd ob"
  "levels sd (ob\<lparr>ob_nextOrderID := x2\<rparr>) = levels sd ob"
  "levels sd (ob\<lparr>ob_nextTradeID := x3\<rparr>) = levels sd ob"
  "levels sd (ob\<lparr>ob_Trades := x4\<rparr>) = levels sd ob"
  "levels sd (ob\<lparr>ob_stats := x5\<rparr>) = levels sd ob"
  "levels sd (ob\<lparr>ob_bestBidAtomic := x6\<rparr>) = levels sd ob"
  "levels sd (ob\<lparr>ob_bestAskAtomic := x7\<rparr>) = levels sd ob"
  "levels sd (ob\<lparr>ob_pricesCacheDirty := x8\<rparr>) = levels sd ob"
  by (cases sd; simp)+

lemma book_levels_other_fields [simp]:
  "book_levels (ob\<lparr>ob_heap := x0\<rparr>) = book_levels ob"
  "book_levels (ob\<lparr>ob_OrderIndex := x1\<rparr>) = book_levels ob"
  "book_levels (ob\<lparr>ob_nextOrderID := x2\<rparr>) = book_levels ob"
  "book_levels (ob\<lparr>ob_nextTradeID := x3\<rparr>) = book_levels ob"
  "book_levels (ob\<lparr>ob_Trades := x4\<rparr>) = book_levels ob"
  "book_levels (ob\<lparr>ob_stats := x5\<rparr>) = book_levels ob"
  "book_levels (ob\<lparr>ob_bestBidAtomic := x6\<rparr>) = book_levels ob"
  "book_levels (ob\<lparr>ob_bestAskAtomic := x7\<rparr>) = book_levels ob"
  "book_levels (ob\<lparr>ob_pricesCacheDirty := x8\<rparr>) = book_levels ob"
  by (simp_all add: book_levels_def)

lemma book_levels_set: "book_levels (set_levels sd ls ob) = (book_levels ob)(sd := ls)"
  by (auto simp: book_levels_def levels_set_levels)

lemma set_levels_frame [simp]:
  "ob_heap (set_levels sd ls ob) = ob_heap ob" "ob_OrderIndex (set_levels sd ls ob) = ob_OrderIndex ob"
  "ob_nextOrderID (set_levels sd ls ob) = ob_nextOrderID ob" "ob_Trades (set_levels sd ls ob) = ob_Trades ob"
  by (cases sd; simp)+

lemma updateBestPrices_frame [simp]:
  "ob_heap (updateBestPrices ob) = ob_heap ob" "ob_OrderIndex (updateBestPrices ob) = ob_OrderIndex ob"
  "ob_nextOrderID (updateBestPrices ob) = ob_nextOrderID ob" "ob_Trades (updateBestPrices ob) = ob_Trades ob"
  "book_levels (updateBestPrices ob) = book_levels ob"
  by (simp_all add: book_levels_def)
     (simp_all add: updateBestPrices_def rebuildBestPrices_def Let_def)

lemma store_level_frame [simp]:
  "ob_heap (store_level sd p lv ob) = ob_heap ob"
  "ob_OrderIndex (store_level sd p lv ob) = ob_OrderIndex ob"
  "ob_nextOrderID (store_level sd p lv ob) = ob_nextOrderID ob"
  "ob_Trades (store_level sd p lv ob) = ob_Trades ob"
  by (simp_all add: store_level_def)

lemma volume_zero: "\<forall>p\<in>set ps. \<not> IsFilled (h p) \<Longrightarrow> volume h ps = 0 \<Longrightarrow> ps = []"
  by (cases ps) (auto simp: IsFilled_rem)

subsection \<open>One pass over a level\<close>

lemma consumed_book_ok:
  assumes inv: "book_inv ob" and lv: "map_of (levels sd ob) price = Some lv"
    and c: "consumed tk price (queue (l_Slots lv)) ob tk' ob' k ts"
    and q': "queue slots' = drop k (queue (l_Slots lv))"
    and s': "slots_ok (ob_heap ob') sd price 0 slots'" "length slots' = length (l_Slots lv)"
    and tot': "unat tot' + traded ts = unat (l_TotalVolume lv)"
    and fr: "book_frame ob ob'"
  shows "book_inv (store_level sd price (lv\<lparr>l_Slots := slots', l_TotalVolume := tot'\<rparr>) ob')"
    (is "book_inv (store_level sd price ?lv ob')")
proof -
  let ?ms = "queue (l_Slots lv)" and ?L = "book_levels ob" and ?I = "set (ob_OrderIndex ob)"
  let ?I' = "set (ob_OrderIndex ob')"
  have ok: "book_ok ?L (ob_heap ob) ?I" and ids: "distinct (ob_OrderIndex ob)"
    "\<forall>p\<in>?I. 0 < p \<and> p \<le> ob_nextOrderID ob"
    using inv by (auto simp: book_inv_def)
  have at: "map_of (?L sd) price = Some lv" using lv by (simp add: book_levels_def)
  note lok = level_okD [OF ok at]
  have lq: "level_queue ?L sd price = set ?ms" by (simp add: level_queue_def at)
  have I': "?I' = ?I - set (take k ?ms)" using c by (simp add: consumed_def)
  have "distinct (take k ?ms @ drop k ?ms)"
    using slots_ok_distinct lok(1) by (simp only: append_take_drop_id) (auto simp: level_ok_def)
  then have "set (take k ?ms) \<inter> set (drop k ?ms) = {}" by (simp only: distinct_append)
  moreover have "set ?ms = set (take k ?ms) \<union> set (drop k ?ms)"
    by (metis append_take_drop_id set_append)
  ultimately have I'': "?I' = (?I - set ?ms) \<union> set (drop k ?ms)" using I' lok(2) by blast
  have h': "ob_heap ob' q = ob_heap ob q" if "q \<in> ?I - set ?ms" for q
    using c that set_take_subset [of "Suc k" ?ms] by (auto simp: consumed_def)
  have vol: "unat tot' = volume (ob_heap ob') (queue slots')"
    using c tot' lok(1) q' by (auto simp: consumed_def level_ok_def)
  have lev: "levels sd' ob' = levels sd' ob" for sd' by (rule book_frame_levels [OF fr])
  then have bl: "book_levels ob' = ?L" by (auto simp: book_levels_def)
  have rest: "distinct (ob_OrderIndex ob')" "\<forall>p\<in>?I'. 0 < p \<and> p \<le> ob_nextOrderID ob'"
  proof -
    have "ob_nextOrderID ob' = ob_nextOrderID ob"
      using fr by (cases ob, cases ob') (simp add: book_frame_def)
    with c ids I' show "distinct (ob_OrderIndex ob')" "\<forall>p\<in>?I'. 0 < p \<and> p \<le> ob_nextOrderID ob'"
      by (auto simp: consumed_def)
  qed
  show ?thesis
  proof (cases "tot' = 0")
    case True
    have "\<forall>p\<in>set (queue slots'). \<not> IsFilled (ob_heap ob' p)"
      using c q' by (auto simp: consumed_def maker_step_def)
    with vol True have "queue slots' = []" by (intro volume_zero) auto
    then have "?I' = ?I - level_queue ?L sd price" using I'' q' lq by simp
    from book_ok_delete [OF ok this, of "ob_heap ob'"] h' lq I''
    have "book_ok (?L(sd := AList.delete price (?L sd))) (ob_heap ob') ?I'"
      using \<open>queue slots' = []\<close> q' by auto
    with True rest bl lev show ?thesis
      by (simp add: book_inv_def store_level_def book_levels_set) (simp add: book_levels_def fun_upd_def)
  next
    case False
    have "level_ok (ob_heap ob') sd price ?lv"
      using lok(1) s' vol False by (simp add: level_ok_def)
    moreover have "set (queue slots') \<inter> (?I - set ?ms) = {}"
      using set_drop_subset [of k ?ms] q' by auto
    ultimately have "book_ok (?L(sd := AList.update price ?lv (?L sd))) (ob_heap ob') ?I'"
      by (intro book_ok_update [OF ok]) (simp_all add: lq I'' q' h')
    with False rest bl lev show ?thesis
      by (simp add: book_inv_def store_level_def book_levels_set) (simp add: book_levels_def fun_upd_def)
  qed
qed

lemma level_pass_matched:
  assumes inv: "book_inv ob" and lv: "map_of (levels (opposite (o_Side tk)) ob) price = Some lv"
    and ms: "match_slots tk price (l_Slots lv) ob (l_TotalVolume lv) False = (slots', tk', ob', tot', mt)"
    and lim: "within_limit tk price"
  shows "\<exists>ts. matched tk ob tk' (store_level (opposite (o_Side tk)) price
    (lv\<lparr>l_Slots := slots', l_TotalVolume := tot'\<rparr>) ob') ts"
proof -
  let ?sd = "opposite (o_Side tk)" and ?lv = "lv\<lparr>l_Slots := slots', l_TotalVolume := tot'\<rparr>"
  have ok: "book_ok (book_levels ob) (ob_heap ob) (set (ob_OrderIndex ob))"
    using inv by (simp add: book_inv_def)
  have lok: "level_ok (ob_heap ob) ?sd price lv" "set (queue (l_Slots lv)) \<subseteq> set (ob_OrderIndex ob)"
    using level_okD [OF ok, of ?sd price lv] lv by (auto simp: book_levels_def)
  obtain k ts where c: "consumed tk price (queue (l_Slots lv)) ob tk' ob' k ts"
    and q': "queue slots' = drop k (queue (l_Slots lv))"
    and s': "slots_ok (ob_heap ob') ?sd price 0 slots'" and tot': "unat tot' + traded ts = unat (l_TotalVolume lv)"
    using match_slots_consumed [OF ms, of ?sd 0] lok by (auto simp: level_ok_def)
  have fr: "book_frame ob ob'" "length slots' = length (l_Slots lv)"
    using match_slots_frame [OF ms] by auto
  have inv': "book_inv (store_level ?sd price ?lv ob')"
    by (rule consumed_book_ok [OF inv lv c q' s' fr(2) tot' fr(1)])
  have lev: "levels sd ob' = levels sd ob" for sd by (rule book_frame_levels [OF fr(1)])
  have nxt: "ob_nextOrderID ob' = ob_nextOrderID ob"
    using fr(1) by (cases ob, cases ob') (simp add: book_frame_def)
  have dist: "distinct (map fst (levels ?sd ob))"
    using ok by (auto simp: book_ok_def book_levels_def)
  have vol: "side_volume (levels ?sd ob) = side_volume (levels ?sd (store_level ?sd price ?lv ob')) + traded ts"
    using side_volume_update [OF lv, of ?lv] side_volume_delete [OF dist lv] tot'
    by (auto simp: levels_store_level lev)
  have same: "levels (o_Side tk) (store_level ?sd price ?lv ob') = levels (o_Side tk) ob"
    by (cases "o_Side tk") (simp_all add: levels_store_level lev)
  have "\<forall>t\<in>set ts. trade_at tk (t_Price t) t \<and> within_limit tk (t_Price t)"
    using c lim by (auto simp: consumed_def trade_at_def)
  moreover have "ob_heap ob' q = ob_heap ob q" if "q \<notin> set (ob_OrderIndex ob)" for q
    using c that lok(2) set_take_subset [of _ "queue (l_Slots lv)"] by (fastforce simp: consumed_def)
  moreover have "set (ob_OrderIndex ob') \<subseteq> set (ob_OrderIndex ob)"
    using c by (auto simp: consumed_def)
  ultimately show ?thesis
    using c inv' vol same nxt by (intro exI [of _ ts]) (simp add: matched_def consumed_def)
qed

subsection \<open>The whole engine\<close>

lemma finish_match_matched:
  assumes "book_inv ob" "o_ID tk \<notin> set (ob_OrderIndex ob)"
  shows "matched tk ob (fst (finish_match tk ob)) (snd (finish_match tk ob)) []"
proof -
  have "filter (\<lambda>q. q \<noteq> o_ID tk) (ob_OrderIndex ob) = ob_OrderIndex ob"
    using assms(2) by (intro filter_True) auto
  then have "index_delete (o_ID tk) ob = ob" by (simp add: index_delete_def)
  with assms(1) show ?thesis by (simp add: finish_match_def matched_refl)
qed

lemma can_match_within: "can_match tk p \<Longrightarrow> within_limit tk p"
  by (simp add: can_match_def within_limit_def)

lemma try_match_matched:
  assumes "book_inv ob" "o_ID tk \<notin> set (ob_OrderIndex ob)"
  shows "\<exists>ts. matched tk ob (fst (try_match tk ob)) (snd (try_match tk ob)) ts"
  using assms
proof (induction tk ob rule: try_match.induct)
  case (1 tk ob)
  let ?opp = "opposite (o_Side tk)" and ?p = "best_opposite (o_Side tk) ob"
  show ?case
  proof (cases "IsFilled tk \<or> \<not> can_match tk ?p \<or> map_of (levels ?opp ob) ?p = None")
    case True
    then have "try_match tk ob = finish_match tk ob"
      by (subst try_match.simps) (auto simp: Let_def)
    with finish_match_matched [OF "1.prems"] show ?thesis by auto
  next
    case False
    then obtain lv where lv: "map_of (levels ?opp ob) ?p = Some lv"
      and can: "\<not> IsFilled tk" "can_match tk ?p" by auto
    obtain slots' tk1 ob1 tot1 mt where ms:
      "match_slots tk ?p (l_Slots lv) ob (l_TotalVolume lv) False = (slots', tk1, ob1, tot1, mt)"
      by (metis prod_cases5)
    let ?ob2 = "store_level ?opp ?p (lv\<lparr>l_Slots := slots', l_TotalVolume := tot1\<rparr>) ob1"
    obtain ts where m: "matched tk ob tk1 ?ob2 ts"
      using level_pass_matched [OF "1.prems"(1) lv ms can_match_within [OF can(2)]] by blast
    have inv2: "book_inv ?ob2" and id2: "o_ID tk1 \<notin> set (ob_OrderIndex ?ob2)"
      using m "1.prems"(2) taker_frame_fields [of tk tk1] by (auto simp: matched_def)
    have eq: "try_match tk ob = (if mt then try_match tk1 ?ob2 else finish_match tk1 ?ob2)"
      using can lv ms by (subst try_match.simps) (simp add: Let_def)
    show ?thesis
    proof (cases mt)
      case True
      from "1.IH" [OF can(1) refl refl _ lv ms [symmetric] refl refl refl refl True inv2 id2] can(2)
      obtain us where "matched tk1 ?ob2 (fst (try_match tk1 ?ob2)) (snd (try_match tk1 ?ob2)) us" by auto
      with matched_trans [OF m] eq True show ?thesis by auto
    next
      case False
      with matched_trans [OF m finish_match_matched [OF inv2 id2]] eq show ?thesis by auto
    qed
  qed
qed

end
