(* ===== verification/BookProps.thy ===== *)
theory BookProps
  imports MatchInv
begin

text \<open>
  The operations of the order book keep its invariant, and what they return. Every operation that
  moves an order in or out of a queue replaces one slot of one level (\<open>level_slot_update\<close>), so
  adding, cancelling and modifying share the same two steps.
\<close>

subsection \<open>Replacing one slot of a level\<close>

definition level_shape :: "(u64 \<Rightarrow> order) \<Rightarrow> side \<Rightarrow> u64 \<Rightarrow> level \<Rightarrow> bool" where
  "level_shape h sd price lv \<longleftrightarrow> l_Price lv = price \<and> length (l_Slots lv) = VERKLE_WIDTH
    \<and> slots_ok h sd price 0 (l_Slots lv) \<and> unat (l_TotalVolume lv) = volume h (queue (l_Slots lv))"

lemma level_ok_shape: "level_ok h sd price lv \<longleftrightarrow> level_shape h sd price lv \<and> l_TotalVolume lv \<noteq> 0"
  by (auto simp: level_ok_def level_shape_def)

lemma volume_queue_update:
  "i < length ss \<Longrightarrow> volume h (queue (ss[i := s])) + volume h (s_Orders (ss ! i))
    = volume h (queue ss) + volume h (s_Orders s)"
proof (induction ss arbitrary: i)
  case (Cons x ss)
  then show ?case by (cases i) (auto simp: algebra_simps)
qed simp

lemma set_queue_update:
  "i < length ss \<Longrightarrow> distinct (queue ss) \<Longrightarrow>
    set (queue (ss[i := s])) = (set (queue ss) - set (s_Orders (ss ! i))) \<union> set (s_Orders s)"
proof (induction ss arbitrary: i)
  case (Cons x ss)
  show ?case
  proof (cases i)
    case 0
    with Cons.prems show ?thesis by auto
  next
    case (Suc j)
    with Cons.prems have "set (s_Orders (ss ! j)) \<subseteq> set (queue ss)"
      by (auto simp: queue_def)
    with Cons Suc show ?thesis by auto
  qed
qed simp

lemma slot_volume_le: "i < length ss \<Longrightarrow> volume h (s_Orders (ss ! i)) \<le> volume h (queue ss)"
proof (induction ss arbitrary: i)
  case (Cons x ss)
  then show ?case by (cases i) (auto intro: trans_le_add2)
qed simp

lemma slot_ok_at:
  "level_shape h sd price lv \<Longrightarrow> i < VERKLE_WIDTH \<Longrightarrow> slot_ok h sd price i (l_Slots lv ! i)"
  by (auto simp: level_shape_def slots_ok_nth)

lemma level_slot_update:
  assumes lv: "level_shape h sd price lv" and i: "i < VERKLE_WIDTH"
    and same: "\<And>q. q \<in> set (queue (l_Slots lv)) - set (s_Orders (l_Slots lv ! i)) \<Longrightarrow> h' q = h q"
    and s: "slot_ok h' sd price i s"
    and tot: "unat tot + volume h (s_Orders (l_Slots lv ! i))
      = unat (l_TotalVolume lv) + volume h' (s_Orders s)"
  shows "level_shape h' sd price (lv\<lparr>l_Slots := (l_Slots lv)[i := s], l_TotalVolume := tot\<rparr>)"
    and "set (queue ((l_Slots lv)[i := s]))
      = (set (queue (l_Slots lv)) - set (s_Orders (l_Slots lv ! i))) \<union> set (s_Orders s)"
proof -
  let ?ss = "l_Slots lv"
  have len: "length ?ss = VERKLE_WIDTH" and ok: "slots_ok h sd price 0 ?ss"
    and vol: "unat (l_TotalVolume lv) = volume h (queue ?ss)"
    using lv by (auto simp: level_shape_def)
  have dist: "distinct (queue ?ss)" by (rule slots_ok_distinct [OF ok])
  have others: "q \<in> set (queue ?ss) - set (s_Orders (?ss ! i))"
    if "j < VERKLE_WIDTH" "j \<noteq> i" "q \<in> set (s_Orders (?ss ! j))" for j q
  proof -
    have "q \<in> set (queue ?ss)" using that len by (auto simp: queue_def)
    moreover have "q \<notin> set (s_Orders (?ss ! i))"
      using slot_ok_at [OF lv that(1)] slot_ok_at [OF lv i] that by (auto simp: slot_ok_def resting_def)
    ultimately show ?thesis by simp
  qed
  have "slot_ok h' sd price j (?ss[i := s] ! j)" if j: "j < VERKLE_WIDTH" for j
  proof (cases "j = i")
    case False
    have "slot_ok h' sd price j (?ss ! j) = slot_ok h sd price j (?ss ! j)"
      by (rule slot_ok_cong, rule same, rule others [OF j False])
    with slot_ok_at [OF lv j] False show ?thesis by simp
  qed (use s j len in simp)
  then have ok': "slots_ok h' sd price 0 (?ss[i := s])" by (simp add: slots_ok_nth len)
  have "volume h' (queue (?ss[i := \<lparr>s_Orders = [], s_Volume = 0\<rparr>]))
      = volume h (queue (?ss[i := \<lparr>s_Orders = [], s_Volume = 0\<rparr>]))"
    by (rule volume_cong) (use same set_queue_update [of i ?ss] i len dist in auto)
  with volume_queue_update [of i ?ss h "\<lparr>s_Orders = [], s_Volume = 0\<rparr>"]
    volume_queue_update [of i "?ss[i := \<lparr>s_Orders = [], s_Volume = 0\<rparr>]" h' s] i len tot vol
  have "unat tot = volume h' (queue (?ss[i := s]))" by simp
  with ok' lv show "level_shape h' sd price (lv\<lparr>l_Slots := ?ss[i := s], l_TotalVolume := tot\<rparr>)"
    by (simp add: level_shape_def)
  show "set (queue (?ss[i := s])) = (set (queue ?ss) - set (s_Orders (?ss ! i))) \<union> set (s_Orders s)"
    using set_queue_update [of i ?ss s] i len dist by simp
qed

subsection \<open>An order enters a level\<close>

definition fits :: "side \<Rightarrow> u64 \<Rightarrow> nat \<Rightarrow> book \<Rightarrow> bool" where
  "fits sd price n ob \<longleftrightarrow> (case map_of (levels sd ob) price of
     None \<Rightarrow> n < 2 ^ 64 | Some lv \<Rightarrow> unat (l_TotalVolume lv) + n < 2 ^ 64)"

text \<open>The same at the width of the code: adding \<open>sz\<close> does not saturate \<^verbatim>\<open>safeAdd\<close>.\<close>

definition room_for :: "side \<Rightarrow> u64 \<Rightarrow> u64 \<Rightarrow> book \<Rightarrow> bool" where
  "room_for sd price sz ob \<longleftrightarrow> (case map_of (levels sd ob) price of
     None \<Rightarrow> True | Some lv \<Rightarrow> sz \<le> (NOT 0) - l_TotalVolume lv)"

lemma le_complement: "(n :: u64) \<le> - 1 - t \<longleftrightarrow> unat t + unat n < 2 ^ 64"
proof -
  have "unat (- 1 - t :: u64) = 2 ^ 64 - 1 - unat t"
    by (subst unat_sub) (simp_all add: unat_word_max)
  then show ?thesis using unat64_less [of t] by (auto simp: word_le_nat_alt)
qed

lemma room_for_fits: "room_for sd price sz ob \<Longrightarrow> fits sd price (unat sz) ob"
  using unat64_less [of sz] by (auto simp: room_for_def fits_def le_complement split: option.splits)

lemma determineSlot_range: "0 < unat (determineSlot ord) \<and> unat (determineSlot ord) < 15"
proof -
  let ?m = "o_TraderID ord mod 12"
  have "unat ?m < 12" by (simp add: unat_mod)
  then have "unat (ucast ?m :: u8) < 12" by (simp add: unsigned_ucast_eq unsigned_take_bit_eq take_bit_eq_mod)
  then have "unat (3 + (ucast ?m :: u8)) = 3 + unat (ucast ?m :: u8)" "unat (ucast ?m :: u8) < 12"
    by (simp_all add: unat_word_ariths)
  then show ?thesis
    by (auto simp: determineSlot_def SLOT_VIP_def SLOT_SMALL_RETAIL_def SLOT_RETAIL_START_def
        SLOT_RETAIL_END_def)
qed

lemma fresh_level_shape: "level_shape h sd price (fresh_level price)"
  by (auto simp: level_shape_def fresh_level_def getPriceLevelFromPool_def slots_ok_nth slot_ok_def
      empty_slot_def queue_def)

lemma fresh_level_queue: "set (queue (l_Slots (fresh_level price))) = {}"
  by (simp add: fresh_level_def getPriceLevelFromPool_def empty_slot_def queue_def)

lemma add_to_level_ok:
  assumes lv: "level_shape h sd price lv" and p: "p \<notin> set (queue (l_Slots lv))"
    and same: "\<And>q. q \<noteq> p \<Longrightarrow> h' q = h q" and h': "h' p = ord"
    and ord: "resting h' sd price (unat (o_Slot ord)) p" "unat (o_Slot ord) < VERKLE_WIDTH"
    and room: "unat (l_TotalVolume lv) + rem ord < 2 ^ 64"
  shows "level_ok h' sd price (add_to_level ord lv)"
    and "set (queue (l_Slots (add_to_level ord lv))) = insert p (set (queue (l_Slots lv)))"
proof -
  let ?i = "unat (o_Slot ord)" and ?s = "l_Slots lv ! unat (o_Slot ord)"
  let ?s' = "\<lparr>s_Orders = s_Orders ?s @ [o_ID ord], s_Volume = safeAdd (s_Volume ?s) (RemainingSize ord)\<rparr>"
  let ?tot = "safeAdd (l_TotalVolume lv) (RemainingSize ord)"
  have i: "?i < length (l_Slots lv)" and len: "length (l_Slots lv) = VERKLE_WIDTH"
    using lv ord by (auto simp: level_shape_def)
  have oid: "o_ID ord = p" and unfilled: "0 < rem ord"
    using ord h' by (auto simp: resting_def IsFilled_rem)
  have s: "slot_ok h sd price ?i ?s" by (rule slot_ok_at [OF lv ord(2)])
  have sub: "set (s_Orders ?s) \<subseteq> set (queue (l_Slots lv))"
    using nth_mem [OF i] by (auto simp: queue_def)
  have sv: "unat (s_Volume ?s) \<le> unat (l_TotalVolume lv)"
    using slot_volume_le [OF i] s lv by (simp add: slot_ok_def level_shape_def)
  have vol: "volume h' (s_Orders ?s) = volume h (s_Orders ?s)"
    by (rule volume_cong, rule same) (use p sub in blast)
  have res: "resting h' sd price ?i q" if "q \<in> set (s_Orders ?s)" for q
  proof -
    from that p sub have "q \<noteq> p" by blast
    with s that resting_cong [of h' q h, OF same] show ?thesis by (simp add: slot_ok_def)
  qed
  have "unat (safeAdd (s_Volume ?s) (RemainingSize ord)) = unat (s_Volume ?s) + rem ord"
    "unat ?tot = unat (l_TotalVolume lv) + rem ord"
    using room sv by (simp_all add: unat_safeAdd rem_def)
  note v = this
  have s': "slot_ok h' sd price ?i ?s'"
    using s res ord(1) p sub v vol h' oid by (auto simp: slot_ok_def)
  have tot: "unat ?tot + volume h (s_Orders ?s) = unat (l_TotalVolume lv) + volume h' (s_Orders ?s')"
    using v vol h' oid by simp
  have eq: "add_to_level ord lv = lv\<lparr>l_Slots := (l_Slots lv)[?i := ?s'], l_TotalVolume := ?tot\<rparr>"
    by (simp add: add_to_level_def Let_def)
  have same': "h' q = h q" if "q \<in> set (queue (l_Slots lv)) - set (s_Orders ?s)" for q
    by (rule same) (use that p in blast)
  note upd = level_slot_update [OF lv ord(2) same' s' tot]
  from v(2) unfilled have "?tot \<noteq> 0" by auto
  with upd(1) show "level_ok h' sd price (add_to_level ord lv)"
    by (simp add: eq level_ok_shape)
  show "set (queue (l_Slots (add_to_level ord lv))) = insert p (set (queue (l_Slots lv)))"
    using upd(2) sub oid by (auto simp: eq)
qed

subsection \<open>What the callers of the insertion do about the best prices\<close>

text \<open>
  The three callers of the insertion differ in what they do when a level is new. The interface is
  that the hook touches the best-price cache only.
\<close>

locale best_price_hook =
  fixes on_new :: "book \<Rightarrow> book"
  assumes hook_levels: "levels sd (on_new ob) = levels sd ob"
    and hook_heap: "ob_heap (on_new ob) = ob_heap ob"
    and hook_index: "ob_OrderIndex (on_new ob) = ob_OrderIndex ob"
    and hook_next: "ob_nextOrderID (on_new ob) = ob_nextOrderID ob"
    and hook_trades: "ob_Trades (on_new ob) = ob_Trades ob"
begin

lemma rest_order_frame:
  "ob_heap (rest_order on_new ord ob) = ob_heap ob"
  "ob_OrderIndex (rest_order on_new ord ob) = ob_OrderIndex ob"
  "ob_nextOrderID (rest_order on_new ord ob) = ob_nextOrderID ob"
  "ob_Trades (rest_order on_new ord ob) = ob_Trades ob"
  by (auto simp: rest_order_def Let_def hook_heap hook_index hook_next hook_trades split: option.splits)

lemma rest_order_levels:
  "book_levels (rest_order on_new ord ob) = (book_levels ob)(o_Side ord :=
    AList.update (o_Price ord)
      (add_to_level ord (case map_of (levels (o_Side ord) ob) (o_Price ord) of
         None \<Rightarrow> fresh_level (o_Price ord) | Some lv \<Rightarrow> lv))
      (levels (o_Side ord) ob))"
proof (cases "map_of (levels (o_Side ord) ob) (o_Price ord)")
  case None
  then have "o_Price ord \<notin> fst ` set (levels (o_Side ord) ob)" by (simp add: map_of_eq_None_iff)
  with None show ?thesis
    by (auto simp: rest_order_def Let_def book_levels_def levels_set_levels hook_levels AList.update_last)
next
  case (Some lv)
  then have "o_Price ord \<in> fst ` set (levels (o_Side ord) ob)"
    by (metis map_of_eq_None_iff option.distinct(1))
  with Some show ?thesis
    by (auto simp: rest_order_def Let_def book_levels_def levels_set_levels)
qed

lemma rest_order_inv:
  assumes inv: "book_inv ob" and p: "o_ID ord \<notin> set (ob_OrderIndex ob)"
    "0 < o_ID ord" "o_ID ord \<le> ob_nextOrderID ob"
    and h: "ob_heap ob (o_ID ord) = ord"
    and ord: "\<not> IsFilled ord" "o_FilledSize ord \<le> o_Size ord" "unat (o_Slot ord) < VERKLE_WIDTH"
    and room: "fits (o_Side ord) (o_Price ord) (rem ord) ob"
  shows "book_inv (index_insert (o_ID ord) (rest_order on_new ord ob))"
proof -
  let ?sd = "o_Side ord" and ?price = "o_Price ord" and ?L = "book_levels ob" and ?h = "ob_heap ob"
  let ?I = "set (ob_OrderIndex ob)"
  let ?lv = "case map_of (levels ?sd ob) ?price of None \<Rightarrow> fresh_level ?price | Some lv \<Rightarrow> lv"
  have ok: "book_ok ?L ?h ?I" using inv by (simp add: book_inv_def)
  have old: "level_queue ?L ?sd ?price = set (queue (l_Slots ?lv))"
    by (auto simp: level_queue_def book_levels_def fresh_level_queue split: option.splits)
  have shape: "level_shape ?h ?sd ?price ?lv" and sub: "set (queue (l_Slots ?lv)) \<subseteq> ?I"
    using level_okD [OF ok, of ?sd ?price]
    by (auto simp: fresh_level_shape fresh_level_queue book_levels_def level_ok_shape split: option.splits)
  have room': "unat (l_TotalVolume ?lv) + rem ord < 2 ^ 64"
    using room by (auto simp: fits_def fresh_level_def getPriceLevelFromPool_def split: option.splits)
  have res: "resting ?h ?sd ?price (unat (o_Slot ord)) (o_ID ord)"
    using h ord by (simp add: resting_def)
  have pn: "o_ID ord \<notin> set (queue (l_Slots ?lv))" using sub p by blast
  note add = add_to_level_ok [OF shape pn refl h res ord(3) room']
  have "book_ok (?L(?sd := AList.update ?price (add_to_level ord ?lv) (?L ?sd))) ?h (insert (o_ID ord) ?I)"
    using add(2) old p sub by (intro book_ok_update [OF ok add(1)]) auto
  with inv p show ?thesis
    by (simp add: book_inv_def index_insert_def rest_order_frame rest_order_levels)
       (simp add: book_levels_def)
qed

end

interpretation improving: best_price_hook "improve_best sd price" for sd price
  by unfold_locales (auto simp: improve_best_def split: if_splits)

interpretation marking: best_price_hook mark_cache_dirty
  by unfold_locales (auto simp: mark_cache_dirty_def)

interpretation updating: best_price_hook updateBestPrices
  by unfold_locales simp_all

subsection \<open>Adding orders\<close>

lemma book_ok_heap:
  assumes ok: "book_ok L h I" and same: "\<And>q. q \<in> I \<Longrightarrow> h' q = h q"
  shows "book_ok L h' I"
  unfolding book_ok_def
proof (intro conjI allI ballI, unfold split_paired_all prod.case)
  show "distinct (map fst (L sd))" for sd using ok by (simp add: book_ok_def)
  show "level_ok h' sd price lv \<and> set (queue (l_Slots lv)) \<subseteq> I" if "(price, lv) \<in> set (L sd)" for sd price lv
  proof -
    note m = book_ok_memD [OF ok that]
    have "level_ok h' sd price lv = level_ok h sd price lv"
      by (rule level_ok_cong, rule same) (use m(2) in blast)
    with m show ?thesis by simp
  qed
  show "placed L h' p" if "p \<in> I" for p
    using ok that same [OF that] by (simp add: book_ok_def placed_def)
qed

lemma book_inv_cong:
  assumes "book_inv ob" "book_levels ob' = book_levels ob" "ob_OrderIndex ob' = ob_OrderIndex ob"
    and "\<And>q. q \<in> set (ob_OrderIndex ob) \<Longrightarrow> ob_heap ob' q = ob_heap ob q"
    and "ob_nextOrderID ob \<le> ob_nextOrderID ob'"
  shows "book_inv ob'"
  using assms book_ok_heap [of "book_levels ob" "ob_heap ob" "set (ob_OrderIndex ob)" "ob_heap ob'"]
  by (auto simp: book_inv_def intro: order_trans)

lemma upd_stats_frame [simp]:
  "book_levels (upd_stats f ob) = book_levels ob" "ob_heap (upd_stats f ob) = ob_heap ob"
  "ob_OrderIndex (upd_stats f ob) = ob_OrderIndex ob" "ob_nextOrderID (upd_stats f ob) = ob_nextOrderID ob"
  "ob_Trades (upd_stats f ob) = ob_Trades ob" "levels sd (upd_stats f ob) = levels sd ob"
  by (simp_all add: upd_stats_def)

lemma book_inv_stats [simp]: "book_inv (upd_stats f ob) \<longleftrightarrow> book_inv ob"
  by (simp add: book_inv_def)

lemma index_insert_frame [simp]:
  "ob_heap (index_insert p ob) = ob_heap ob" "ob_Trades (index_insert p ob) = ob_Trades ob"
  "ob_nextOrderID (index_insert p ob) = ob_nextOrderID ob"
  "levels sd (index_insert p ob) = levels sd ob" "book_levels (index_insert p ob) = book_levels ob"
  by (simp_all add: index_insert_def)

lemma new_order_facts:
  assumes "new_order traderID price sz sd ob = (ord, ob1)"
  shows "ord = \<lparr>o_ID = ob_nextOrderID ob + 1, o_TraderID = traderID, o_Price = price, o_Size = sz,
      o_FilledSize = 0, o_Side = sd, o_Slot = o_Slot ord, o_IsPartialFill = False\<rparr>"
    and "0 < unat (o_Slot ord)" "unat (o_Slot ord) < 15" "rem ord = unat sz"
    and "ob1 = ob\<lparr>ob_nextOrderID := ob_nextOrderID ob + 1\<rparr>"
  using assms determineSlot_range by (auto simp: new_order_def zero_order_def Let_def rem_eq)

lemma fresh_id:
  assumes "book_inv ob" "ob_nextOrderID ob < - 1"
  shows "ob_nextOrderID ob + 1 \<notin> set (ob_OrderIndex ob)" "0 < ob_nextOrderID ob + 1"
    "ob_nextOrderID ob < ob_nextOrderID ob + 1"
proof -
  have "unat (ob_nextOrderID ob) + unat (1 :: u64) < 2 ^ 64"
    using assms(2) by (simp add: word_less_nat_alt unat_word_max)
  then show lt: "ob_nextOrderID ob < ob_nextOrderID ob + 1"
    by (simp add: word_less_nat_alt unat_add_no_wrap)
  then show "0 < ob_nextOrderID ob + 1" by (rule le_less_trans [OF word_zero_le])
  show "ob_nextOrderID ob + 1 \<notin> set (ob_OrderIndex ob)"
    using assms(1) lt by (fastforce simp: book_inv_def)
qed

text \<open>Matching the new order and storing it, common to all three operations.\<close>

lemma new_order_matched:
  assumes inv: "book_inv ob" and nxt: "ob_nextOrderID ob < - 1"
    and no: "new_order traderID price sz sd ob = (ord, ob1)"
    and tm: "try_match ord (upd_stats f ob1) = (ord', ob3)"
  obtains ts where "matched ord (upd_stats f ob1) ord' ob3 ts" "o_ID ord' = ob_nextOrderID ob + 1"
    "o_Side ord' = sd" "o_Price ord' = price" "o_TraderID ord' = traderID" "o_Size ord' = sz"
    "unat (o_Slot ord') < VERKLE_WIDTH" "o_FilledSize ord' \<le> o_Size ord'" "rem ord' \<le> unat sz"
    "o_ID ord' \<notin> set (ob_OrderIndex ob3)" "book_inv (write_order ord' ob3)"
proof -
  note facts = new_order_facts [OF no]
  note fresh = fresh_id [OF inv nxt]
  have inv1: "book_inv (upd_stats f ob1)"
    by (rule book_inv_cong [OF inv]) (use facts(5) fresh(3) in \<open>auto intro: less_imp_le\<close>)
  have id: "o_ID ord = ob_nextOrderID ob + 1" "o_Side ord = sd" "o_Price ord = price"
    "o_TraderID ord = traderID" "o_Size ord = sz" "o_FilledSize ord = 0"
    by (subst facts(1), simp)+
  have "o_ID ord \<notin> set (ob_OrderIndex (upd_stats f ob1))" using fresh(1) id facts(5) by simp
  from try_match_matched [OF inv1 this] obtain ts where m: "matched ord (upd_stats f ob1) ord' ob3 ts"
    by (auto simp: tm)
  then have fr: "taker_frame ord ord'" by (simp add: matched_def)
  have out: "o_ID ord' \<notin> set (ob_OrderIndex ob3)"
    using m fresh(1) id facts(5) taker_frame_fields [OF fr] by (auto simp: matched_def)
  have inv3: "book_inv ob3" using m by (simp add: matched_def)
  have "book_inv (write_order ord' ob3)"
    by (rule book_inv_cong [OF inv3]) (use out in \<open>auto simp: write_order_def\<close>)
  moreover have "o_FilledSize ord' \<le> o_Size ord'" "rem ord' \<le> unat sz"
    using m facts(4) id by (auto simp: matched_def)
  ultimately show ?thesis
    using that [OF m] out taker_frame_fields [OF fr] id facts(3) by (simp add: VERKLE_WIDTH_def)
qed

lemma fits_mono: "fits sd price n ob \<Longrightarrow> m \<le> n \<Longrightarrow> fits sd price m ob"
  by (auto simp: fits_def split: option.splits)

lemma fits_levels: "levels sd ob' = levels sd ob \<Longrightarrow> fits sd price n ob' = fits sd price n ob"
  by (simp add: fits_def)

context best_price_hook
begin

lemma insert_matched_inv:
  assumes inv: "book_inv ob" and nxt: "ob_nextOrderID ob < - 1" and room: "fits sd price (unat sz) ob"
    and no: "new_order traderID price sz sd ob = (ord, ob1)"
    and tm: "try_match ord (upd_stats f ob1) = (ord', ob3)"
  shows "book_inv (if \<not> IsFilled ord' then index_insert (o_ID ord') (rest_order on_new ord' (write_order ord' ob3))
    else write_order ord' ob3)"
proof -
  obtain ts where m: "matched ord (upd_stats f ob1) ord' ob3 ts" and o': "o_ID ord' = ob_nextOrderID ob + 1"
    "o_Side ord' = sd" "o_Price ord' = price" "unat (o_Slot ord') < VERKLE_WIDTH"
    "o_FilledSize ord' \<le> o_Size ord'" "rem ord' \<le> unat sz" "o_ID ord' \<notin> set (ob_OrderIndex ob3)"
    and inv4: "book_inv (write_order ord' ob3)"
    using new_order_matched [OF inv nxt no tm] by blast
  note facts = new_order_facts [OF no]
  have "o_Side ord = sd" by (subst facts(1)) simp
  with m facts(5) have "levels sd (write_order ord' ob3) = levels sd ob"
    and nx: "ob_nextOrderID (write_order ord' ob3) = ob_nextOrderID ob + 1"
    by (auto simp: matched_def write_order_def)
  with fits_mono [OF room o'(6)] fits_levels
  have "fits (o_Side ord') (o_Price ord') (rem ord') (write_order ord' ob3)"
    unfolding o'(2,3) by blast
  moreover have "0 < ob_nextOrderID ob + 1" by (rule fresh_id(2) [OF inv nxt])
  ultimately show ?thesis
    using inv4 rest_order_inv [OF inv4, of ord'] o' nx by (auto simp: write_order_def)
qed

end

lemma AddLimitOrder_inv:
  assumes "book_inv ob" "ob_nextOrderID ob < - 1" "room_for sd price sz ob"
  shows "book_inv (snd (AddLimitOrder traderID price sz sd ob))"
proof -
  obtain ord ob1 where no: "new_order traderID price sz sd ob = (ord, ob1)" by fastforce
  let ?f = "\<lambda>s. s\<lparr>st_LockAcquisitions := st_LockAcquisitions s + 1\<rparr>"
  obtain ord' ob3 where tm: "try_match ord (upd_stats ?f ob1) = (ord', ob3)" by fastforce
  from improving.insert_matched_inv [OF assms(1,2) room_for_fits [OF assms(3)] no tm, of sd price]
  show ?thesis by (simp add: AddLimitOrder_def no tm Let_def)
qed

subsection \<open>An order leaves its level\<close>

lemma remove_first_cong:
  "(\<And>x. x \<in> set xs \<Longrightarrow> P x = Q x) \<Longrightarrow> remove_first P xs = remove_first Q xs"
  by (induction xs) auto

lemma volume_remove_first:
  "p \<in> set ps \<Longrightarrow> volume h (remove_first (\<lambda>q. q = p) ps) + rem (h p) = volume h ps"
  by (induction ps) auto

lemma remove_from_level:
  assumes lv: "level_shape h sd price lv" and i: "i < VERKLE_WIDTH"
    and p: "p \<in> set (s_Orders (l_Slots lv ! i))"
    and same: "\<And>q. q \<noteq> p \<Longrightarrow> h' q = h q"
    and ids: "\<And>q. q \<in> set (s_Orders (l_Slots lv ! i)) \<Longrightarrow> o_ID (ob_heap obd q) = q"
    and s: "s = zero_if_empty (drop_from_slot p obd ((l_Slots lv ! i)\<lparr>s_Volume :=
      safeSubtract (s_Volume (l_Slots lv ! i)) (RemainingSize (h p))\<rparr>))"
    and tot: "tot = safeSubtract (l_TotalVolume lv) (RemainingSize (h p))"
  shows "level_shape h' sd price (lv\<lparr>l_Slots := (l_Slots lv)[i := s], l_TotalVolume := tot\<rparr>)"
    and "set (queue ((l_Slots lv)[i := s])) = set (queue (l_Slots lv)) - {p}"
    and "p \<notin> set (s_Orders s)"
proof -
  let ?s = "l_Slots lv ! i"
  have ok: "slot_ok h sd price i ?s" by (rule slot_ok_at [OF lv i])
  have il: "i < length (l_Slots lv)" using lv i by (simp add: level_shape_def)
  have sub: "set (s_Orders ?s) \<subseteq> set (queue (l_Slots lv))"
    using nth_mem [OF il] by (auto simp: queue_def)
  have orders: "s_Orders s = remove_first (\<lambda>q. q = p) (s_Orders ?s)"
    using remove_first_cong [of "s_Orders ?s" "\<lambda>q. o_ID (ob_heap obd q) = p" "\<lambda>q. q = p"] ids
    by (simp add: s zero_if_empty_def drop_from_slot_def)
  have mem: "set (s_Orders s) = set (s_Orders ?s) - {p}"
    using ok by (simp add: orders set_remove_first_eq slot_ok_def)
  then show "p \<notin> set (s_Orders s)" by simp
  have vol: "volume h' (s_Orders s) + rem (h p) = volume h (s_Orders ?s)"
    using volume_remove_first [OF p, of h] volume_cong [of "s_Orders s" h' h] same mem orders by auto
  have le: "volume h (s_Orders ?s) \<le> unat (l_TotalVolume lv)"
    using slot_volume_le [OF il] lv by (simp add: level_shape_def)
  have "resting h' sd price i q" if "q \<in> set (s_Orders s)" for q
    using ok that mem resting_cong [of h' q h] same [of q] by (simp add: slot_ok_def)
  moreover have "unat (s_Volume s) = volume h' (s_Orders s)"
    using vol ok orders
    by (auto simp: s zero_if_empty_def drop_from_slot_def unat_safeSubtract slot_ok_def rem_def)
  ultimately have s': "slot_ok h' sd price i s"
    using ok by (simp add: slot_ok_def orders)
  have t: "unat tot + volume h (s_Orders ?s) = unat (l_TotalVolume lv) + volume h' (s_Orders s)"
    using vol le by (simp add: tot unat_safeSubtract rem_def)
  have same': "h' q = h q" if "q \<in> set (queue (l_Slots lv)) - set (s_Orders ?s)" for q
    by (rule same) (use that p in blast)
  note upd = level_slot_update [OF lv i same' s' t]
  show "level_shape h' sd price (lv\<lparr>l_Slots := (l_Slots lv)[i := s], l_TotalVolume := tot\<rparr>)"
    by (rule upd(1))
  show "set (queue ((l_Slots lv)[i := s])) = set (queue (l_Slots lv)) - {p}"
    using upd(2) mem sub p by auto
qed

lemma level_shape_unfilled:
  "level_shape h sd price lv \<Longrightarrow> l_TotalVolume lv = 0 \<Longrightarrow> queue (l_Slots lv) = []"
  by (rule volume_zero [of _ h])
     (auto simp: level_shape_def resting_def dest: slots_ok_resting)

text \<open>The book without an order: its level is deleted when nothing is left in it.\<close>

lemma book_ok_remove:
  assumes ok: "book_ok L h I" and at: "map_of (L sd) price = Some lv"
    and lv': "level_shape h' sd price lv'" and q: "set (queue (l_Slots lv')) = set (queue (l_Slots lv)) - {p}"
    and p: "p \<in> set (queue (l_Slots lv))" and same: "\<And>q. q \<noteq> p \<Longrightarrow> h' q = h q"
  shows "book_ok (L(sd := if l_TotalVolume lv' = 0 then AList.delete price (L sd)
    else AList.update price lv' (L sd))) h' (I - {p})"
proof -
  have lq: "level_queue L sd price = set (queue (l_Slots lv))" by (simp add: level_queue_def at)
  note lok = level_okD [OF ok at]
  show ?thesis
  proof (cases "l_TotalVolume lv' = 0")
    case True
    then have "set (queue (l_Slots lv)) = {p}" using level_shape_unfilled [OF lv'] q p by auto
    with True same show ?thesis by (auto intro!: book_ok_delete [OF ok] simp: lq)
  next
    case False
    with lv' have lok': "level_ok h' sd price lv'" by (simp add: level_ok_shape)
    have "book_ok (L(sd := AList.update price lv' (L sd))) h' (I - {p})"
    proof (rule book_ok_update [OF ok lok'])
      show "h' q = h q" if "q \<in> I - level_queue L sd price" for q
        by (rule same) (use that p lq in blast)
    qed (use q p lq lok(2) in auto)
    with False show ?thesis by simp
  qed
qed

lemma book_inv_located:
  assumes inv: "book_inv ob" and p: "p \<in> set (ob_OrderIndex ob)"
  obtains lv where "map_of (levels (o_Side (ob_heap ob p)) ob) (o_Price (ob_heap ob p)) = Some lv"
    "level_ok (ob_heap ob) (o_Side (ob_heap ob p)) (o_Price (ob_heap ob p)) lv"
    "p \<in> set (queue (l_Slots lv))" "unat (o_Slot (ob_heap ob p)) < VERKLE_WIDTH"
    "p \<in> set (s_Orders (l_Slots lv ! unat (o_Slot (ob_heap ob p))))"
    "\<And>q. q \<in> set (s_Orders (l_Slots lv ! unat (o_Slot (ob_heap ob p)))) \<Longrightarrow> o_ID (ob_heap ob q) = q"
    "\<not> IsFilled (ob_heap ob p)" "o_ID (ob_heap ob p) = p" "o_FilledSize (ob_heap ob p) \<le> o_Size (ob_heap ob p)"
proof -
  let ?o = "ob_heap ob p"
  have ok: "book_ok (book_levels ob) (ob_heap ob) (set (ob_OrderIndex ob))"
    using inv by (simp add: book_inv_def)
  with p have "placed (book_levels ob) (ob_heap ob) p" by (simp add: book_ok_def)
  then obtain lv where lv: "map_of (book_levels ob (o_Side ?o)) (o_Price ?o) = Some lv"
    and q: "p \<in> set (queue (l_Slots lv))"
    by (auto simp: placed_def split: option.splits)
  note lok = level_okD [OF ok lv]
  note loc = queue_located [OF lok(1) q]
  have shape: "level_shape (ob_heap ob) (o_Side ?o) (o_Price ?o) lv" using lok(1) by (simp add: level_ok_shape)
  have "o_ID (ob_heap ob q) = q" if "q \<in> set (s_Orders (l_Slots lv ! unat (o_Slot ?o)))" for q
    using slot_ok_at [OF shape loc(6)] that by (simp add: slot_ok_def resting_def)
  with that [of lv] lv lok(1) q loc show ?thesis by (simp add: book_levels_def)
qed

lemma CancelOrder_found:
  assumes inv: "book_inv ob" and oid: "oid \<in> set (ob_OrderIndex ob)"
  shows "fst (CancelOrder oid ob)"
    and "set (ob_OrderIndex (snd (CancelOrder oid ob))) = set (ob_OrderIndex ob) - {oid}"
    and "book_inv (snd (CancelOrder oid ob))"
    and "side_volume (levels sd (snd (CancelOrder oid ob)))
      + (if o_Side (ob_heap ob oid) = sd then rem (ob_heap ob oid) else 0) = side_volume (levels sd ob)"
proof -
  let ?h = "ob_heap ob" and ?o = "ob_heap ob oid" and ?I = "set (ob_OrderIndex ob)" and ?L = "book_levels ob"
  let ?sd = "o_Side ?o" and ?price = "o_Price ?o" and ?i = "unat (o_Slot ?o)"
  obtain lv where lv: "map_of (levels ?sd ob) ?price = Some lv" and lok: "level_ok ?h ?sd ?price lv"
    and q: "oid \<in> set (queue (l_Slots lv))" and i: "?i < VERKLE_WIDTH"
    and mem: "oid \<in> set (s_Orders (l_Slots lv ! ?i))"
    and ids: "\<And>q. q \<in> set (s_Orders (l_Slots lv ! ?i)) \<Longrightarrow> o_ID (?h q) = q"
    and id: "o_ID ?o = oid"
    using book_inv_located [OF inv oid] by metis
  let ?s = "zero_if_empty (drop_from_slot oid ob ((l_Slots lv ! ?i)\<lparr>s_Volume :=
      safeSubtract (s_Volume (l_Slots lv ! ?i)) (RemainingSize ?o)\<rparr>))"
  let ?tot = "safeSubtract (l_TotalVolume lv) (RemainingSize ?o)"
  let ?lv = "lv\<lparr>l_Slots := (l_Slots lv)[?i := ?s], l_TotalVolume := ?tot\<rparr>"
  let ?ob = "putOrderToPool oid (index_delete oid ob)"
  let ?res = "if ?tot = 0 then updateBestPrices (set_levels ?sd (AList.delete ?price (levels ?sd ?ob)) ?ob)
    else set_levels ?sd (AList.update ?price ?lv (levels ?sd ?ob)) ?ob"
  have shape: "level_shape ?h ?sd ?price lv" and lp: "l_Price lv = ?price"
    using lok by (auto simp: level_ok_shape level_shape_def)
  note rm = remove_from_level [OF shape i mem _ ids refl refl, of "?h(oid := zero_order)"]
  have found: "in_slot oid ob (l_Slots lv ! ?i)" using mem id by (auto simp: in_slot_def)
  have res: "CancelOrder oid ob = (True, upd_stats (\<lambda>s. count_ops
      (s\<lparr>st_TotalCancels := st_TotalCancels s + 1\<rparr>)) ?res)"
    using oid lv found lp by (simp add: CancelOrder_def Let_def)
  have idx: "ob_OrderIndex ?ob = filter (\<lambda>q. q \<noteq> oid) (ob_OrderIndex ob)" "ob_heap ?ob = ?h(oid := zero_order)"
    "levels sd' ?ob = levels sd' ob" "ob_nextOrderID ?ob = ob_nextOrderID ob" for sd'
    by (simp_all add: putOrderToPool_def index_delete_def)
  show "fst (CancelOrder oid ob)" by (simp add: res)
  show "set (ob_OrderIndex (snd (CancelOrder oid ob))) = ?I - {oid}" by (auto simp: res idx)
  have at: "map_of (?L ?sd) ?price = Some lv" using lv by (simp add: book_levels_def)
  have ok: "book_ok ?L ?h ?I" using inv by (simp add: book_inv_def)
  have "book_ok (?L(?sd := if ?tot = 0 then AList.delete ?price (?L ?sd)
      else AList.update ?price ?lv (?L ?sd))) (?h(oid := zero_order)) (?I - {oid})"
    using book_ok_remove [OF ok at rm(1) _ q] rm(2) by simp
  moreover have "book_levels ?res = ?L(?sd := if ?tot = 0 then AList.delete ?price (?L ?sd)
      else AList.update ?price ?lv (?L ?sd))"
    by (auto simp: book_levels_set idx) (auto simp: book_levels_def idx levels_set_levels)
  moreover have "{x \<in> ?I. x \<noteq> oid} = ?I - {oid}" by auto
  ultimately show "book_inv (snd (CancelOrder oid ob))"
    using inv by (auto simp: res book_inv_def idx)
  have "rem ?o \<le> unat (l_TotalVolume lv)"
    using volume_remove_first [OF q, of ?h] shape by (simp add: level_shape_def)
  then have "unat ?tot + rem ?o = unat (l_TotalVolume lv)" by (simp add: unat_safeSubtract rem_def)
  moreover have "distinct (map fst (levels ?sd ob))" using ok by (auto simp: book_ok_def book_levels_def)
  ultimately show "side_volume (levels sd (snd (CancelOrder oid ob))) + (if ?sd = sd then rem ?o else 0)
      = side_volume (levels sd ob)"
    using side_volume_update [OF lv, of ?lv] side_volume_delete [OF _ lv]
    by (auto simp: res idx levels_set_levels)
qed

subsection \<open>Changing the size of a resting order\<close>

lemma rem_unfilled: "rem ord \<noteq> 0 \<Longrightarrow> \<not> IsFilled ord \<and> o_FilledSize ord \<le> o_Size ord"
  by (auto simp: IsFilled_rem rem_eq word_le_nat_alt)

lemma RemainingSize_0: "RemainingSize ord = 0 \<longleftrightarrow> rem ord = 0"
  by (simp add: rem_def word_unat_eq_iff)

text \<open>The size changes and the slot does not: the order keeps its place in the queue.\<close>

lemma resize_in_level:
  assumes lv: "level_shape h sd price lv" and i: "i < VERKLE_WIDTH"
    and p: "p \<in> set (s_Orders (l_Slots lv ! i))" and same: "\<And>q. q \<noteq> p \<Longrightarrow> h' q = h q"
    and p': "resting h' sd price i p"
    and room: "unat (l_TotalVolume lv) - rem (h p) + rem (h' p) < 2 ^ 64"
    and s: "s = (l_Slots lv ! i)\<lparr>s_Volume := safeAdd
      (safeSubtract (s_Volume (l_Slots lv ! i)) (RemainingSize (h p))) (RemainingSize (h' p))\<rparr>"
    and tot: "tot = safeAdd (safeSubtract (l_TotalVolume lv) (RemainingSize (h p))) (RemainingSize (h' p))"
  shows "level_ok h' sd price (lv\<lparr>l_Slots := (l_Slots lv)[i := s], l_TotalVolume := tot\<rparr>)"
    and "set (queue ((l_Slots lv)[i := s])) = set (queue (l_Slots lv))"
proof -
  let ?s = "l_Slots lv ! i" and ?rest = "remove_first (\<lambda>q. q = p) (s_Orders (l_Slots lv ! i))"
  have ok: "slot_ok h sd price i ?s" by (rule slot_ok_at [OF lv i])
  have il: "i < length (l_Slots lv)" using lv i by (simp add: level_shape_def)
  have "volume h' ?rest = volume h ?rest"
    by (rule volume_cong, rule same) (use ok in \<open>auto simp: slot_ok_def set_remove_first_eq\<close>)
  then have vol: "volume h' (s_Orders ?s) + rem (h p) = volume h (s_Orders ?s) + rem (h' p)"
    using volume_remove_first [OF p, of h] volume_remove_first [OF p, of h'] by simp
  have le: "volume h (s_Orders ?s) \<le> unat (l_TotalVolume lv)" "rem (h p) \<le> volume h (s_Orders ?s)"
    using slot_volume_le [OF il] lv volume_remove_first [OF p, of h] by (auto simp: level_shape_def)
  have v: "unat (s_Volume ?s) = volume h (s_Orders ?s)" using ok by (simp add: slot_ok_def)
  have vs: "unat (s_Volume s) = volume h' (s_Orders ?s)"
    "unat tot = unat (l_TotalVolume lv) - rem (h p) + rem (h' p)"
    using vol le room v by (auto simp: s tot unat_safeAdd unat_safeSubtract rem_def [symmetric])
  have "resting h' sd price i q" if "q \<in> set (s_Orders ?s)" for q
    using ok that p' resting_cong [of h' q h] same [of q] by (cases "q = p") (auto simp: slot_ok_def)
  with ok vs have s': "slot_ok h' sd price i s" by (simp add: slot_ok_def s)
  have t: "unat tot + volume h (s_Orders ?s) = unat (l_TotalVolume lv) + volume h' (s_Orders s)"
    using vs vol le by (simp add: s)
  have same': "h' q = h q" if "q \<in> set (queue (l_Slots lv)) - set (s_Orders ?s)" for q
    by (rule same) (use that p in blast)
  note upd = level_slot_update [OF lv i same' s' t]
  have "tot \<noteq> 0" using vs(2) p' by (auto simp: resting_def IsFilled_rem)
  with upd(1) show "level_ok h' sd price (lv\<lparr>l_Slots := (l_Slots lv)[i := s], l_TotalVolume := tot\<rparr>)"
    by (simp add: level_ok_shape)
  show "set (queue ((l_Slots lv)[i := s])) = set (queue (l_Slots lv))"
    using upd(2) nth_mem [OF il] by (auto simp: s queue_def)
qed

definition size_fits :: "u64 \<Rightarrow> u64 \<Rightarrow> book \<Rightarrow> bool" where
  "size_fits oid newSize ob \<longleftrightarrow>
    room_for (o_Side (ob_heap ob oid)) (o_Price (ob_heap ob oid)) newSize ob"

lemma modify_size_inv:
  assumes inv: "book_inv ob" and oid: "oid \<in> set (ob_OrderIndex ob)"
    and lv: "map_of (levels (o_Side (ob_heap ob oid)) ob) (o_Price (ob_heap ob oid)) = Some lv"
    and fit: "unat (l_TotalVolume lv) + unat newSize < 2 ^ 64"
  shows "book_inv (modify_size oid newSize lv ob)"
proof -
  let ?h = "ob_heap ob" and ?o = "ob_heap ob oid" and ?I = "set (ob_OrderIndex ob)" and ?L = "book_levels ob"
  let ?sd = "o_Side ?o" and ?price = "o_Price ?o" and ?i = "unat (o_Slot ?o)"
  let ?o' = "?o\<lparr>o_Size := newSize\<rparr>"
  let ?o'' = "?o'\<lparr>o_Slot := determineSlot ?o'\<rparr>"
  let ?sv = "(l_Slots lv ! ?i)\<lparr>s_Volume := safeSubtract (s_Volume (l_Slots lv ! ?i)) (RemainingSize ?o)\<rparr>"
  let ?tot = "safeSubtract (l_TotalVolume lv) (RemainingSize ?o)"
  let ?ob1 = "ob\<lparr>ob_heap := ?h(oid := ?o')\<rparr>"
  let ?s = "zero_if_empty (drop_from_slot oid ?ob1 ?sv)"
  let ?lv = "lv\<lparr>l_Slots := (l_Slots lv)[?i := ?s], l_TotalVolume := ?tot\<rparr>"
  have lok: "level_ok ?h ?sd ?price lv" and q: "oid \<in> set (queue (l_Slots lv))"
    and i: "?i < VERKLE_WIDTH" and mem: "oid \<in> set (s_Orders (l_Slots lv ! ?i))"
    and ids: "\<And>q. q \<in> set (s_Orders (l_Slots lv ! ?i)) \<Longrightarrow> o_ID (?h q) = q" and id: "o_ID ?o = oid"
    using book_inv_located [OF inv oid] lv by (metis option.inject)+
  have shape: "level_shape ?h ?sd ?price lv" and lp: "l_Price lv = ?price"
    using lok by (auto simp: level_ok_shape level_shape_def)
  have ids': "o_ID (ob_heap ?ob1 q) = q" if "q \<in> set (s_Orders (l_Slots lv ! ?i))" for q
    using ids [OF that] id by simp
  have at: "map_of (?L ?sd) ?price = Some lv" using lv by (simp add: book_levels_def)
  have ok: "book_ok ?L ?h ?I" using inv by (simp add: book_inv_def)
  have lq: "level_queue ?L ?sd ?price = set (queue (l_Slots lv))" by (simp add: level_queue_def at)
  note sub = level_okD(2) [OF ok at]
  have remle: "rem ?o' \<le> unat newSize" by (simp add: rem_eq)
  have upd: "book_inv (upd_stats f (set_levels ?sd (AList.update ?price lv' (levels ?sd b)) b))"
    if "level_ok (ob_heap b) ?sd ?price lv'" "set (queue (l_Slots lv')) = set (queue (l_Slots lv))"
      "b = ob\<lparr>ob_heap := ?h(oid := r)\<rparr>" for b lv' r f
  proof -
    have "book_ok (?L(?sd := AList.update ?price lv' (?L ?sd))) (ob_heap b) ?I"
    proof (rule book_ok_update [OF ok that(1)])
      show "ob_heap b x = ?h x" if "x \<in> ?I - level_queue ?L ?sd ?price" for x
        using that q lq \<open>b = _\<close> by auto
    qed (use that(2) lq sub in auto)
    with inv that(3) show ?thesis
      by (simp add: book_inv_def book_levels_set) (simp add: book_levels_def)
  qed
  consider (gone) "RemainingSize ?o' = 0"
    | (move) "RemainingSize ?o' \<noteq> 0" "determineSlot ?o' \<noteq> o_Slot ?o'"
    | (stay) "RemainingSize ?o' \<noteq> 0" "determineSlot ?o' = o_Slot ?o'" by blast
  then show ?thesis
  proof cases
    case gone
    note rm = remove_from_level [OF shape i mem _ ids' refl refl, of "?h(oid := zero_order)"]
    have "book_ok (?L(?sd := if ?tot = 0 then AList.delete ?price (?L ?sd)
        else AList.update ?price ?lv (?L ?sd))) (?h(oid := zero_order)) (?I - {oid})"
      using book_ok_remove [OF ok at rm(1) _ q] rm(2) by simp
    moreover have "{x \<in> ?I. x \<noteq> oid} = ?I - {oid}" by auto
    ultimately show ?thesis
      using inv gone
      by (cases "?tot = 0")
         (simp_all add: modify_size_def Let_def lp book_inv_def putOrderToPool_def index_delete_def book_levels_set,
          simp_all add: book_levels_def)
  next
    case move
    let ?h2 = "?h(oid := ?o'')"
    note rm = remove_from_level [OF shape i mem _ ids' refl refl, of ?h2]
    have rr: "rem ?o'' = rem ?o'" by (simp add: rem_eq)
    have s2: "level_shape ?h2 ?sd ?price ?lv" and q2: "set (queue (l_Slots ?lv)) = set (queue (l_Slots lv)) - {oid}"
      using rm(1,2) by auto
    have n: "rem ?o'' \<noteq> 0" using move(1) RemainingSize_0 rr by simp
    have res: "resting ?h2 ?sd ?price (unat (o_Slot ?o'')) oid"
      using rem_unfilled [OF n] id by (simp add: resting_def)
    have slot: "unat (o_Slot ?o'') < VERKLE_WIDTH" using determineSlot_range [of ?o'] by (simp add: VERKLE_WIDTH_def)
    have "unat ?tot \<le> unat (l_TotalVolume lv)" by (simp add: unat_safeSubtract)
    with fit remle have room: "unat (l_TotalVolume ?lv) + rem ?o'' < 2 ^ 64" by (simp add: rr)
    have pn: "oid \<notin> set (queue (l_Slots ?lv))" using q2 by simp
    note add = add_to_level_ok [OF s2 pn refl _ res slot room]
    have "modify_size oid newSize lv ob = upd_stats count_modify
       (set_levels ?sd (AList.update ?price (add_to_level ?o'' ?lv) (levels ?sd (ob\<lparr>ob_heap := ?h2\<rparr>)))
         (ob\<lparr>ob_heap := ?h2\<rparr>))"
      using move id by (simp add: modify_size_def Let_def add_to_level_def)
        (simp add: RemainingSize_def)
    then show ?thesis using upd [of "ob\<lparr>ob_heap := ?h2\<rparr>" "add_to_level ?o'' ?lv" ?o''] add q2 q by auto
  next
    case stay
    let ?h1 = "?h(oid := ?o')"
    have n: "rem ?o' \<noteq> 0" using stay(1) RemainingSize_0 by simp
    have res: "resting ?h1 ?sd ?price ?i oid" using rem_unfilled [OF n] id by (simp add: resting_def)
    have room: "unat (l_TotalVolume lv) - rem ?o + rem (?h1 oid) < 2 ^ 64" using fit remle by simp
    let ?s1 = "(l_Slots lv ! ?i)\<lparr>s_Volume := safeAdd (s_Volume ?sv) (RemainingSize ?o')\<rparr>"
    let ?lv1 = "lv\<lparr>l_Slots := (l_Slots lv)[?i := ?s1], l_TotalVolume := safeAdd ?tot (RemainingSize ?o')\<rparr>"
    have h1: "ob_heap ?ob1 = ?h1" by simp
    have lok1: "level_ok (ob_heap ?ob1) ?sd ?price ?lv1"
      unfolding h1 by (rule resize_in_level(1) [OF shape i mem _ res room]) simp_all
    have q1: "set (queue (l_Slots ?lv1)) = set (queue (l_Slots lv))"
      using resize_in_level(2) [OF shape i mem _ res room, of ?s1] by simp
    have "book_inv (upd_stats count_modify (set_levels ?sd (AList.update ?price ?lv1 (levels ?sd ?ob1)) ?ob1))"
      by (rule upd [OF lok1 q1 refl])
    with stay show ?thesis by (simp add: modify_size_def Let_def)
  qed
qed

end
