(* ===== verification/BookTheorems.thy ===== *)
theory BookTheorems
  imports BookProps
begin

text \<open>
  What the order book promises: the invariant over every operation and over every reachable
  book, the accounting of trades, the order in which resting orders are matched, when matching
  stops, cancellation, the best-price cache, and the places where the code departs from it.
\<close>

subsection \<open>The remaining operations keep the invariant\<close>

lemma add_batch_loop_step:
  assumes inv: "book_inv ob" "ob_nextOrderID ob < - 1" "room_for sd price sz ob"
    and no: "new_order traderID price sz sd ob = (ord, ob1)" and tm: "try_match ord ob1 = (ord', ob3)"
  shows "book_inv (upd_stats f (if \<not> IsFilled ord'
    then index_insert (o_ID ord') (rest_order mark_cache_dirty ord' (write_order ord' ob3))
    else write_order ord' ob3))"
proof -
  have "upd_stats (\<lambda>s. s) ob1 = ob1" by (simp add: upd_stats_def)
  with marking.insert_matched_inv [OF inv(1,2) room_for_fits [OF inv(3)] no, of "\<lambda>s. s" ord' ob3] tm show ?thesis by simp
qed

fun batch_fits :: "order_request list \<Rightarrow> book \<Rightarrow> bool" where
  "batch_fits [] ob \<longleftrightarrow> True"
| "batch_fits ((traderID, price, sz, sd) # reqs) ob \<longleftrightarrow>
    ob_nextOrderID ob < - 1 \<and> room_for sd price sz ob
    \<and> batch_fits reqs (snd (add_batch_loop [(traderID, price, sz, sd)] ob))"

lemma add_batch_loop_inv: "book_inv ob \<Longrightarrow> batch_fits reqs ob \<Longrightarrow> book_inv (snd (add_batch_loop reqs ob))"
proof (induction reqs arbitrary: ob)
  case (Cons r reqs)
  obtain traderID price sz sd where r: "r = (traderID, price, sz, sd)" by (metis prod_cases4)
  obtain ord ob1 where no: "new_order traderID price sz sd ob = (ord, ob1)" by fastforce
  obtain ord' ob3 where tm: "try_match ord ob1 = (ord', ob3)" by fastforce
  let ?one = "snd (add_batch_loop [r] ob)"
  have "book_inv ?one"
    using add_batch_loop_step [OF Cons.prems(1) _ _ no tm] Cons.prems(2) by (simp add: r no tm Let_def)
  with Cons have "book_inv (snd (add_batch_loop reqs ?one))" by (simp add: r)
  then show ?case by (simp add: r no tm Let_def split_beta)
qed simp

lemma book_inv_updateBestPrices [simp]: "book_inv (updateBestPrices ob) \<longleftrightarrow> book_inv ob"
  by (simp add: book_inv_def)

lemma AddLimitOrderBatch_inv:
  "book_inv ob \<Longrightarrow> batch_fits reqs ob \<Longrightarrow> book_inv (snd (AddLimitOrderBatch reqs ob))"
  using add_batch_loop_inv by (simp add: AddLimitOrderBatch_def split_beta)

lemma ExecuteMarketOrder_inv:
  assumes inv: "book_inv ob" and nxt: "ob_nextOrderID ob < - 1"
  shows "book_inv (snd (ExecuteMarketOrder traderID sz sd ob))"
proof (cases "best_opposite sd ob = 0 \<or> map_of (levels (opposite sd) ob) (best_opposite sd ob) = None")
  case True
  with inv show ?thesis by (auto simp: ExecuteMarketOrder_def Let_def split: option.splits)
next
  case False
  let ?p = "if sd = BUY then NOT 0 else 0"
  obtain ord ob1 where no: "new_order traderID ?p sz sd ob = (ord, ob1)" by fastforce
  obtain ord' ob2 where tm: "try_match ord (upd_stats (\<lambda>s. s) ob1) = (ord', ob2)" by fastforce
  obtain ts where m: "matched ord (upd_stats (\<lambda>s. s) ob1) ord' ob2 ts"
    and out: "o_ID ord' \<notin> set (ob_OrderIndex ob2)"
    by (rule new_order_matched [OF inv nxt no tm])
  have "book_inv ob2" using m by (simp add: matched_def)
  then have "book_inv (putOrderToPool (o_ID ord') ob2)"
    by (rule book_inv_cong) (use out in \<open>auto simp: putOrderToPool_def\<close>)
  moreover have "upd_stats (\<lambda>s. s) ob1 = ob1" by (simp add: upd_stats_def)
  moreover obtain lv where "map_of (levels (opposite sd) ob) (best_opposite sd ob) = Some lv"
    "levels (opposite sd) ob \<noteq> []" "best_opposite sd ob \<noteq> 0"
    using False by (cases "levels (opposite sd) ob") auto
  ultimately show ?thesis
    using no tm by (simp add: ExecuteMarketOrder_def Let_def del: bit_not_iff)
qed

lemma CancelOrder_missing: "oid \<notin> set (ob_OrderIndex ob) \<Longrightarrow> CancelOrder oid ob = (False, ob)"
  by (simp add: CancelOrder_def)

lemma CancelOrder_inv: "book_inv ob \<Longrightarrow> book_inv (snd (CancelOrder oid ob))"
  using CancelOrder_found(3) CancelOrder_missing by (cases "oid \<in> set (ob_OrderIndex ob)") auto

lemma cancel_all_loop_spec:
  "book_inv ob \<Longrightarrow> set oids \<subseteq> set (ob_OrderIndex ob) \<Longrightarrow> distinct oids \<Longrightarrow>
    fst (cancel_all_loop oids ob) = length oids
    \<and> set (ob_OrderIndex (snd (cancel_all_loop oids ob))) = set (ob_OrderIndex ob) - set oids
    \<and> book_inv (snd (cancel_all_loop oids ob))"
proof (induction oids arbitrary: ob)
  case (Cons oid oids)
  then have mem: "oid \<in> set (ob_OrderIndex ob)" by simp
  note found = CancelOrder_found [OF Cons.prems(1) mem]
  let ?ob = "snd (CancelOrder oid ob)"
  have "set oids \<subseteq> set (ob_OrderIndex ?ob)" using found(2) Cons.prems by auto
  with Cons.IH [OF found(3)] Cons.prems(3) have
    "fst (cancel_all_loop oids ?ob) = length oids"
    "set (ob_OrderIndex (snd (cancel_all_loop oids ?ob))) = set (ob_OrderIndex ?ob) - set oids"
    "book_inv (snd (cancel_all_loop oids ?ob))" by auto
  with found show ?case by (auto simp: split_beta Let_def)
qed simp

lemma CancelAllByTrader_inv: "book_inv ob \<Longrightarrow> book_inv (snd (CancelAllByTrader traderID ob))"
  using cancel_all_loop_spec [of ob "filter (\<lambda>oid. o_TraderID (ob_heap ob oid) = traderID) (ob_OrderIndex ob)"]
  by (auto simp: CancelAllByTrader_def book_inv_def)

lemma book_inv_no_empty_level:
  assumes "book_inv ob"
  shows "filter (\<lambda>(_, lv). l_TotalVolume lv = 0) (levels sd ob) = []"
proof -
  have "l_TotalVolume lv \<noteq> 0" if "(p, lv) \<in> set (levels sd ob)" for p lv
    using book_ok_memD(1) [of "book_levels ob" _ _ p lv sd] assms that
    by (auto simp: book_inv_def book_levels_def level_ok_def)
  then show ?thesis by (auto simp: filter_empty_conv)
qed

lemma CleanupEmptyLevels_nothing:
  assumes "book_inv ob"
  shows "CleanupEmptyLevels ob = (0, ob)"
proof -
  have keep: "filter (\<lambda>x. \<not> (case x of (_, lv) \<Rightarrow> l_TotalVolume lv = 0)) (levels sd ob) = levels sd ob" for sd
    using book_inv_no_empty_level [OF assms, of sd] by (auto simp: filter_id_conv filter_empty_conv)
  from keep [of BUY] keep [of SELL] book_inv_no_empty_level [OF assms, of BUY]
    book_inv_no_empty_level [OF assms, of SELL] show ?thesis
    by (simp add: CleanupEmptyLevels_def Let_def)
qed

lemma ModifyOrder_size_inv:
  assumes inv: "book_inv ob" and fit: "size_fits oid n ob"
  shows "book_inv (snd (ModifyOrder oid None (Some n) ob))"
proof (cases "oid \<in> set (ob_OrderIndex ob)")
  case True
  obtain lv where lv: "map_of (levels (o_Side (ob_heap ob oid)) ob) (o_Price (ob_heap ob oid)) = Some lv"
    using book_inv_located [OF inv True] by metis
  with modify_size_inv [OF inv True lv] fit inv True show ?thesis
    by (auto simp: ModifyOrder_def size_fits_def room_for_def le_complement Let_def)
qed (use inv in \<open>simp add: ModifyOrder_def\<close>)

subsection \<open>A price change that meets no other order\<close>

lemma opposite_neq [simp]: "opposite sd \<noteq> sd" "sd \<noteq> opposite sd"
  by (cases sd; simp)+

text \<open>The guard of a price change: the new level has room for the whole new size, and the new price
  meets no level of the other side.\<close>

definition price_fits :: "u64 \<Rightarrow> u64 \<Rightarrow> u64 \<Rightarrow> book \<Rightarrow> bool" where
  "price_fits oid newPrice newSize ob \<longleftrightarrow>
    (let ord = ob_heap ob oid
     in room_for (o_Side ord) newPrice newSize ob
        \<and> list_all (\<lambda>(p, _). \<not> within_limit (ord\<lparr>o_Price := newPrice\<rparr>) p) (levels (opposite (o_Side ord)) ob))"

lemma try_match_quiet:
  assumes "\<not> IsFilled tk" "list_all (\<lambda>(p, _). \<not> within_limit tk p) (levels (opposite (o_Side tk)) ob)"
  shows "try_match tk ob = (tk, ob)"
proof -
  have "map_of (levels (opposite (o_Side tk)) ob) p = None" if "can_match tk p" for p
    using assms(2) can_match_within [OF that] by (force simp: map_of_eq_None_iff list_all_iff)
  then show ?thesis using assms(1) by (subst try_match.simps) (auto simp: finish_match_def Let_def)
qed

lemma levels_index_insert: "levels sd (index_insert q ob) = levels sd ob"
  by (cases sd) (simp_all add: index_insert_def)

lemma index_delete_frame:
  "levels sd (index_delete q ob) = levels sd ob" "book_levels (index_delete q ob) = book_levels ob"
  "ob_heap (index_delete q ob) = ob_heap ob" "ob_nextOrderID (index_delete q ob) = ob_nextOrderID ob"
  "ob_OrderIndex (index_delete q ob) = filter (\<lambda>x. x \<noteq> q) (ob_OrderIndex ob)"
proof -
  show lv: "levels sd (index_delete q ob) = levels sd ob" for sd by (cases sd) (simp_all add: index_delete_def)
  then show "book_levels (index_delete q ob) = book_levels ob" by (auto simp: book_levels_def)
qed (simp_all add: index_delete_def)

text \<open>The book while an order is taken out of its level to be written and placed anew.\<close>

lemma taken_out_inv:
  assumes inv: "book_inv ob" and oid: "oid \<in> set (ob_OrderIndex ob)"
    and lv: "map_of (levels (o_Side (ob_heap ob oid)) ob) (o_Price (ob_heap ob oid)) = Some lv"
  defines "i \<equiv> unat (o_Slot (ob_heap ob oid))" and "tot \<equiv> safeSubtract (l_TotalVolume lv) (RemainingSize (ob_heap ob oid))"
  defines "s \<equiv> zero_if_empty (drop_from_slot oid ob ((l_Slots lv ! i)\<lparr>s_Volume :=
      safeSubtract (s_Volume (l_Slots lv ! i)) (RemainingSize (ob_heap ob oid))\<rparr>))"
  defines "L \<equiv> if tot = 0 then AList.delete (o_Price (ob_heap ob oid)) (levels (o_Side (ob_heap ob oid)) ob)
      else AList.update (o_Price (ob_heap ob oid)) (lv\<lparr>l_Slots := (l_Slots lv)[i := s], l_TotalVolume := tot\<rparr>)
        (levels (o_Side (ob_heap ob oid)) ob)"
  shows "book_ok ((book_levels ob)(o_Side (ob_heap ob oid) := L)) ((ob_heap ob)(oid := r)) (set (ob_OrderIndex ob) - {oid})"
    and "in_slot oid ob (l_Slots lv ! i)" "l_Price lv = o_Price (ob_heap ob oid)"
proof -
  let ?h = "ob_heap ob" and ?o = "ob_heap ob oid"
  have lok: "level_ok ?h (o_Side ?o) (o_Price ?o) lv" and q: "oid \<in> set (queue (l_Slots lv))"
    and i: "i < VERKLE_WIDTH" and mem: "oid \<in> set (s_Orders (l_Slots lv ! i))"
    and ids: "\<And>q. q \<in> set (s_Orders (l_Slots lv ! i)) \<Longrightarrow> o_ID (?h q) = q" and id: "o_ID ?o = oid"
    unfolding i_def using book_inv_located [OF inv oid] lv by (metis option.inject)+
  have bl: "book_levels ob sd = levels sd ob" for sd by (simp add: book_levels_def)
  have L: "L = (if tot = 0 then AList.delete (o_Price ?o) (book_levels ob (o_Side ?o))
      else AList.update (o_Price ?o) (lv\<lparr>l_Slots := (l_Slots lv)[i := s], l_TotalVolume := tot\<rparr>)
        (book_levels ob (o_Side ?o)))" by (simp add: L_def bl)
  have shape: "level_shape ?h (o_Side ?o) (o_Price ?o) lv" using lok by (simp add: level_ok_shape)
  note rm = remove_from_level [OF shape i mem _ ids s_def [THEN meta_eq_to_obj_eq] tot_def [THEN meta_eq_to_obj_eq], of "?h(oid := r)"]
  have "book_ok (book_levels ob) ?h (set (ob_OrderIndex ob))" "map_of (book_levels ob (o_Side ?o)) (o_Price ?o) = Some lv"
    using inv lv by (simp_all add: book_inv_def book_levels_def)
  from book_ok_remove [OF this rm(1) _ q] rm(2)
  show "book_ok ((book_levels ob)(o_Side ?o := L)) (?h(oid := r)) (set (ob_OrderIndex ob) - {oid})"
    by (simp add: L)
  show "in_slot oid ob (l_Slots lv ! i)" using mem id by (auto simp: in_slot_def)
  show "l_Price lv = o_Price ?o" using shape by (simp add: level_shape_def)
qed

text \<open>An order already written is placed at a price that no level of the other side meets.\<close>

lemma placed_anew_inv:
  assumes inv: "book_inv (index_delete oid ob)" and oid: "oid \<in> set (ob_OrderIndex ob)" "distinct (ob_OrderIndex ob)"
    and ord: "ob_heap ob oid = ord" "o_ID ord = oid" "0 < oid" "oid \<le> ob_nextOrderID ob"
    "RemainingSize ord \<noteq> 0" "unat (o_Slot ord) < VERKLE_WIDTH"
    and fit: "fits (o_Side ord) (o_Price ord) (rem ord) ob"
    and quiet: "list_all (\<lambda>(p, _). \<not> within_limit ord p) (levels (opposite (o_Side ord)) ob)"
  shows "try_match ord (upd_stats f (rest_order updateBestPrices ord ob))
      = (ord, upd_stats f (rest_order updateBestPrices ord ob))"
    and "book_inv (rest_order updateBestPrices ord ob)"
proof -
  let ?B = "index_delete oid ob"
  have unf: "\<not> IsFilled ord" "o_FilledSize ord \<le> o_Size ord"
    using ord(5) rem_unfilled by (simp_all add: RemainingSize_0)
  have "levels (opposite (o_Side ord)) (rest_order updateBestPrices ord ob)
      = book_levels (rest_order updateBestPrices ord ob) (opposite (o_Side ord))"
    by (simp add: book_levels_def)
  also have "\<dots> = levels (opposite (o_Side ord)) ob"
    unfolding updating.rest_order_levels by (simp add: book_levels_def opposite_neq)
  finally show "try_match ord (upd_stats f (rest_order updateBestPrices ord ob))
      = (ord, upd_stats f (rest_order updateBestPrices ord ob))"
    using try_match_quiet [OF unf(1)] quiet by simp
  have "fits (o_Side ord) (o_Price ord) (rem ord) ?B" using fit by (simp add: fits_def index_delete_frame)
  then have X: "book_inv (index_insert oid (rest_order updateBestPrices ord ?B))"
    using updating.rest_order_inv [OF inv, of ord] unf ord by (simp add: index_delete_frame)
  have "book_levels (rest_order updateBestPrices ord ob) = book_levels (rest_order updateBestPrices ord ?B)"
    by (simp add: updating.rest_order_levels index_delete_frame)
  moreover have "insert oid {x \<in> set (ob_OrderIndex ob). x \<noteq> oid} = set (ob_OrderIndex ob)" using oid by auto
  moreover have "book_levels (index_insert oid (rest_order updateBestPrices ord ?B))
      = book_levels (rest_order updateBestPrices ord ?B)"
    by (auto simp: book_levels_def levels_index_insert)
  ultimately show "book_inv (rest_order updateBestPrices ord ob)"
    using X oid(2) by (simp add: book_inv_def updating.rest_order_frame index_insert_def index_delete_frame)
qed

lemma modify_price_inv:
  assumes inv: "book_inv ob" and oid: "oid \<in> set (ob_OrderIndex ob)"
    and lv: "map_of (levels (o_Side (ob_heap ob oid)) ob) (o_Price (ob_heap ob oid)) = Some lv"
    and p: "newPrice \<noteq> o_Price (ob_heap ob oid)" and fit: "price_fits oid newPrice newSize ob"
  shows "book_inv (snd (modify_price oid newPrice newSize lv ob))"
proof -
  let ?o = "ob_heap ob oid" and ?I = "set (ob_OrderIndex ob)"
  let ?sd = "o_Side ?o" and ?i = "unat (o_Slot ?o)" and ?tot = "safeSubtract (l_TotalVolume lv) (RemainingSize ?o)"
  let ?s = "zero_if_empty (drop_from_slot oid ob ((l_Slots lv ! ?i)\<lparr>s_Volume :=
      safeSubtract (s_Volume (l_Slots lv ! ?i)) (RemainingSize ?o)\<rparr>))"
  let ?lv = "lv\<lparr>l_Slots := (l_Slots lv)[?i := ?s], l_TotalVolume := ?tot\<rparr>"
  let ?ob1 = "if ?tot = 0 then updateBestPrices (set_levels ?sd (AList.delete (l_Price lv) (levels ?sd ob)) ob)
    else set_levels ?sd (AList.update (o_Price ?o) ?lv (levels ?sd ob)) ob"
  let ?ord1 = "?o\<lparr>o_Price := newPrice, o_Size := newSize\<rparr>"
  let ?ord = "?ord1\<lparr>o_Slot := determineSlot ?ord1\<rparr>"
  let ?ob2 = "?ob1\<lparr>ob_heap := (ob_heap ?ob1)(oid := ?ord)\<rparr>"
  note out = taken_out_inv [OF inv oid lv]
  have id: "o_ID ?o = oid" using book_inv_located [OF inv oid] by metis
  let ?L = "if ?tot = 0 then AList.delete (o_Price ?o) (levels ?sd ob) else AList.update (o_Price ?o) ?lv (levels ?sd ob)"
  have f: "ob_heap ?ob2 = (ob_heap ob)(oid := ?ord)" "ob_OrderIndex ?ob2 = ob_OrderIndex ob"
    "ob_nextOrderID ?ob2 = ob_nextOrderID ob" "book_levels ?ob2 = (book_levels ob)(?sd := ?L)"
    using book_levels_set by (auto simp: out(3) book_levels_def levels_set_levels)
  let ?B = "index_delete oid ?ob2"
  have minus: "{x \<in> ?I. x \<noteq> oid} = ?I - {oid}" by auto
  have B: "book_inv ?B"
    using inv out(1) [of ?ord] f by (simp add: book_inv_def index_delete_frame minus)
  have res: "modify_price oid newPrice newSize lv ob = (if RemainingSize ?ord = 0
      then (True, upd_stats count_modify (putOrderToPool oid ?B))
      else let ob3 = upd_stats count_modify (rest_order updateBestPrices ?ord ?ob2);
               (taker, ob4) = try_match ?ord ob3
           in (True, ob4\<lparr>ob_heap := (ob_heap ob4)(oid := taker)\<rparr>))"
    using out(2) by (simp add: modify_price_def Let_def)
  show ?thesis
  proof (cases "RemainingSize ?ord = 0")
    case True
    have "book_inv (putOrderToPool oid ?B)"
      by (rule book_inv_cong [OF B]) (auto simp: putOrderToPool_def index_delete_def)
    with True res show ?thesis by simp
  next
    case False
    let ?ob3 = "upd_stats count_modify (rest_order updateBestPrices ?ord ?ob2)"
    have lvs: "levels sd ?ob2 = book_levels ?ob2 sd" for sd by (simp add: book_levels_def)
    have "levels (opposite ?sd) ?ob2 = levels (opposite ?sd) ob"
      unfolding lvs f(4) by (simp add: book_levels_def opposite_neq)
    moreover have "within_limit ?ord = within_limit (?o\<lparr>o_Price := newPrice\<rparr>)"
      by (rule ext) (simp add: within_limit_def)
    ultimately have other: "list_all (\<lambda>(p, _). \<not> within_limit ?ord p) (levels (opposite ?sd) ?ob2)"
      using fit by (simp add: price_fits_def Let_def)
    have "fits ?sd newPrice (rem ?ord) ?ob2"
    proof (rule fits_mono)
      show "rem ?ord \<le> unat newSize" by (simp add: rem_eq)
      have "map_of (levels ?sd ?ob2) newPrice = map_of (levels ?sd ob) newPrice"
        unfolding lvs f(4) using p by (simp add: delete_conv' update_conv')
      then show "fits ?sd newPrice (unat newSize) ?ob2"
        using room_for_fits fit by (simp add: price_fits_def Let_def fits_def)
    qed
    moreover have "unat (o_Slot ?ord) < VERKLE_WIDTH"
      using determineSlot_range [of ?ord1] by (simp add: VERKLE_WIDTH_def)
    moreover have "0 < oid" "oid \<le> ob_nextOrderID ?ob2" using inv oid f(3) by (auto simp: book_inv_def)
    moreover have "oid \<in> set (ob_OrderIndex ?ob2)" "distinct (ob_OrderIndex ?ob2)"
      using oid inv f(2) by (simp_all add: book_inv_def)
    moreover have "ob_heap ?ob2 oid = ?ord" using f(1) by simp
    moreover note other
    ultimately have quiet: "try_match ?ord ?ob3 = (?ord, ?ob3)" and "book_inv ?ob3"
      using placed_anew_inv [OF B, of ?ord] False by (simp_all add: id)
    have "(ob_heap ?ob3)(oid := ?ord) = ob_heap ?ob3" using f(1) by (auto simp: updating.rest_order_frame)
    moreover have "b\<lparr>ob_heap := ob_heap b\<rparr> = b" for b :: book by simp
    moreover have "snd (modify_price oid newPrice newSize lv ob) = ?ob3\<lparr>ob_heap := (ob_heap ?ob3)(oid := ?ord)\<rparr>"
      using False by (simp only: res quiet Let_def if_False prod.case snd_conv simp_thms)
    ultimately show ?thesis using \<open>book_inv ?ob3\<close> by (simp only:)
  qed
qed

text \<open>The guard of \<^verbatim>\<open>ModifyOrder\<close>, with the branches in the order of the code.\<close>

definition modify_fits :: "u64 \<Rightarrow> u64 option \<Rightarrow> u64 option \<Rightarrow> book \<Rightarrow> bool" where
  "modify_fits oid p n ob \<longleftrightarrow>
    (let ord = ob_heap ob oid;
         priceChanged = (case p of None \<Rightarrow> False | Some q \<Rightarrow> q \<noteq> o_Price ord)
     in if priceChanged
        then price_fits oid (the p) (case n of None \<Rightarrow> o_Size ord | Some m \<Rightarrow> m) ob
        else case n of None \<Rightarrow> True | Some m \<Rightarrow> size_fits oid m ob)"

lemma ModifyOrder_inv:
  assumes inv: "book_inv ob" and fit: "oid \<in> set (ob_OrderIndex ob) \<Longrightarrow> modify_fits oid p n ob"
  shows "book_inv (snd (ModifyOrder oid p n ob))"
proof (cases "oid \<in> set (ob_OrderIndex ob)")
  case True
  let ?o = "ob_heap ob oid"
  obtain lv where lv: "map_of (levels (o_Side ?o) ob) (o_Price ?o) = Some lv"
    using book_inv_located [OF inv True] by metis
  show ?thesis
  proof (cases "\<exists>q. p = Some q \<and> q \<noteq> o_Price ?o")
    case False
    then have "ModifyOrder oid p n ob = ModifyOrder oid None n ob" using lv by (cases p) (auto simp: ModifyOrder_def Let_def)
    moreover have "book_inv (snd (ModifyOrder oid None n ob))"
    proof (cases n)
      case (Some m)
      with fit [OF True] False have "size_fits oid m ob" by (cases p) (auto simp: modify_fits_def)
      then show ?thesis unfolding Some by (rule ModifyOrder_size_inv [OF inv])
    qed (simp add: ModifyOrder_def inv)
    ultimately show ?thesis by simp
  next
    case True
    then obtain q where q: "p = Some q" "q \<noteq> o_Price ?o" by blast
    let ?n = "case n of None \<Rightarrow> o_Size ?o | Some m \<Rightarrow> m"
    have "book_inv (snd (modify_price oid q ?n lv ob))"
      using modify_price_inv [OF inv \<open>oid \<in> _\<close> lv q(2)] fit [OF \<open>oid \<in> _\<close>] q by (simp add: modify_fits_def Let_def)
    moreover have "ModifyOrder oid p n ob = modify_price oid q ?n lv ob"
      using q lv \<open>oid \<in> _\<close> by (auto simp: ModifyOrder_def Let_def split: option.splits)
    ultimately show ?thesis by simp
  qed
qed (simp add: ModifyOrder_def inv)

subsection \<open>Reachable books\<close>

datatype book_op =
    OpAdd u32 u64 u64 side
  | OpBatch "order_request list"
  | OpMarket u32 u64 side
  | OpCancel u64
  | OpCancelAll u32
  | OpModify u64 "u64 option" "u64 option"
  | OpCleanup
  | OpClearTrades int
  | OpTick int

text \<open>One call of the book, with its result dropped; \<open>OpTick\<close> is the passing of time.\<close>

fun run_op :: "book_op \<Rightarrow> book \<Rightarrow> book" where
  "run_op (OpAdd traderID price sz sd) ob = snd (AddLimitOrder traderID price sz sd ob)"
| "run_op (OpBatch reqs) ob = snd (AddLimitOrderBatch reqs ob)"
| "run_op (OpMarket traderID sz sd) ob = snd (ExecuteMarketOrder traderID sz sd ob)"
| "run_op (OpCancel oid) ob = snd (CancelOrder oid ob)"
| "run_op (OpCancelAll traderID) ob = snd (CancelAllByTrader traderID ob)"
| "run_op (OpModify oid p n) ob = snd (ModifyOrder oid p n ob)"
| "run_op OpCleanup ob = snd (CleanupEmptyLevels ob)"
| "run_op (OpClearTrades olderThan) ob = snd (ClearOldTrades olderThan ob)"
| "run_op (OpTick t) ob = ob\<lparr>ob_now := t\<rparr>"

text \<open>
  The guard of a step: the order counter and the volumes stay within 64 bits (at the moment of the
  call), and a change of price does not cross the other side; such a change has a defect of its own
  (\<open>modify_crossing_leaves_ghost\<close>).
\<close>

fun op_fits :: "book_op \<Rightarrow> book \<Rightarrow> bool" where
  "op_fits (OpAdd traderID price sz sd) ob \<longleftrightarrow> ob_nextOrderID ob < - 1 \<and> room_for sd price sz ob"
| "op_fits (OpBatch reqs) ob \<longleftrightarrow> batch_fits reqs ob"
| "op_fits (OpMarket traderID sz sd) ob \<longleftrightarrow> ob_nextOrderID ob < - 1"
| "op_fits (OpModify oid p n) ob \<longleftrightarrow> (oid \<in> set (ob_OrderIndex ob) \<longrightarrow> modify_fits oid p n ob)"
| "op_fits _ ob \<longleftrightarrow> True"

inductive reachable :: "book \<Rightarrow> bool" where
  reach_init: "reachable (NewOrderBook symbol)"
| reach_step: "reachable ob \<Longrightarrow> op_fits op ob \<Longrightarrow> reachable (run_op op ob)"

lemma NewOrderBook_inv: "book_inv (NewOrderBook symbol)"
proof -
  have "levels sd (NewOrderBook symbol) = []" for sd by (cases sd) (simp_all add: NewOrderBook_def)
  then show ?thesis by (simp add: book_inv_def book_ok_def book_levels_def) (simp add: NewOrderBook_def)
qed

lemma run_op_inv:
  assumes inv: "book_inv ob" and fit: "op_fits op ob"
  shows "book_inv (run_op op ob)"
proof (cases op)
  case (OpModify oid p n)
  with ModifyOrder_inv [OF inv] fit show ?thesis by simp
next
  case (OpClearTrades olderThan)
  have "book_inv (snd (ClearOldTrades olderThan ob))"
    by (rule book_inv_cong [OF inv]) (auto simp: ClearOldTrades_def Let_def)
  with OpClearTrades show ?thesis by simp
next
  case (OpTick t)
  have "levels sd (ob\<lparr>ob_now := t\<rparr>) = levels sd ob" for sd by (cases sd) simp_all
  then have "book_inv (ob\<lparr>ob_now := t\<rparr>)"
    by (intro book_inv_cong [OF inv]) (auto simp: book_levels_def)
  with OpTick show ?thesis by simp
qed (use inv fit AddLimitOrder_inv AddLimitOrderBatch_inv ExecuteMarketOrder_inv CancelOrder_inv
      CancelAllByTrader_inv CleanupEmptyLevels_nothing in auto)

text \<open>C1. Every book that a new book reaches by adding, batching, market orders, cancelling, modifying
  (size, price or both), cleaning up and clearing trades is consistent: each indexed order sits unfilled
  in exactly the queue that its side, price and slot name, each queue holds indexed orders without
  repetition, slot and level volumes are the sums of the unfilled quantities, no level is empty, and
  order IDs are positive and within the counter. The steps are guarded (\<open>op_fits\<close>): the order counter
  is not exhausted, the volume of a level stays below \<open>2 ^ 64\<close> with the added size, and a price given
  to \<^verbatim>\<open>ModifyOrder\<close> meets no level of the other side. The last guard is needed: a crossing price
  change leaves a filled order in the book (\<open>modify_crossing_leaves_ghost\<close>).\<close>

theorem reachable_book_inv:
  assumes "reachable ob"
  shows "book_inv ob"
  using assms by induction (rule NewOrderBook_inv, rule run_op_inv)

text \<open>A run of operations from a new book, for concrete books.\<close>

definition run_ops :: "book_op list \<Rightarrow> book" where
  "run_ops ops = foldl (\<lambda>ob op. run_op op ob) (NewOrderBook ''BTC'') ops"

fun ops_fit :: "book_op list \<Rightarrow> book \<Rightarrow> bool" where
  "ops_fit [] ob \<longleftrightarrow> True"
| "ops_fit (op # ops) ob \<longleftrightarrow> op_fits op ob \<and> ops_fit ops (run_op op ob)"

lemma reachable_foldl:
  "reachable ob \<Longrightarrow> ops_fit ops ob \<Longrightarrow> reachable (foldl (\<lambda>ob op. run_op op ob) ob ops)"
  by (induction ops arbitrary: ob) (auto intro: reach_step)

lemma reachable_run_ops: "ops_fit ops (NewOrderBook ''BTC'') \<Longrightarrow> reachable (run_ops ops)"
  unfolding run_ops_def by (rule reachable_foldl [OF reach_init])

definition sample_ops :: "book_op list" where
  "sample_ops = [OpAdd 201 100 5000 SELL, OpAdd 202 100 500 SELL]"

definition sample :: book where
  "sample = run_ops sample_ops"

lemma sample_fits: "ops_fit sample_ops (NewOrderBook ''BTC'')"
  by code_simp

lemma sample_reachable: "reachable sample"
  unfolding sample_def by (rule reachable_run_ops [OF sample_fits])

lemma ops_fit_inv:
  "ops_fit ops ob \<Longrightarrow> book_inv ob \<Longrightarrow> book_inv (foldl (\<lambda>ob op. run_op op ob) ob ops)"
  by (induction ops arbitrary: ob) (auto intro: run_op_inv)

lemma sample_inv: "book_inv sample"
  using ops_fit_inv [OF sample_fits NewOrderBook_inv] by (simp add: sample_def run_ops_def)

text \<open>Two asks, the first moved to another price and size.\<close>

definition moved_ops :: "book_op list" where
  "moved_ops = sample_ops @ [OpModify 1 (Some 120) (Some 700), OpCancel 2]"

lemma reachable_book_inv_witness: "book_inv (run_ops moved_ops)"
proof -
  have "ops_fit moved_ops (NewOrderBook ''BTC'')" by code_simp
  then show ?thesis by (intro reachable_book_inv reachable_run_ops)
qed

subsection \<open>Trades\<close>

lemma side_volume_update_new:
  "p \<notin> fst ` set ls \<Longrightarrow> side_volume (AList.update p lv ls) = side_volume ls + unat (l_TotalVolume lv)"
  by (induction ls) (auto simp: side_volume_def)

lemma add_to_level_volume:
  "unat (l_TotalVolume lv) + rem ord < 2 ^ 64 \<Longrightarrow>
    unat (l_TotalVolume (add_to_level ord lv)) = unat (l_TotalVolume lv) + rem ord"
  by (simp add: add_to_level_def Let_def unat_safeAdd rem_def)

context best_price_hook
begin

lemma rest_order_volume:
  assumes "fits (o_Side ord) (o_Price ord) (rem ord) ob"
  shows "side_volume (levels sd (rest_order on_new ord ob))
    = side_volume (levels sd ob) + (if sd = o_Side ord then rem ord else 0)"
proof -
  have eq: "levels sd (rest_order on_new ord ob) = book_levels (rest_order on_new ord ob) sd"
    by (simp add: book_levels_def)
  show ?thesis
  proof (cases "map_of (levels (o_Side ord) ob) (o_Price ord)")
    case None
    let ?lv = "add_to_level ord (fresh_level (o_Price ord))"
    have tot: "unat (l_TotalVolume (fresh_level (o_Price ord))) = 0"
      by (simp add: fresh_level_def getPriceLevelFromPool_def)
    from None have "side_volume (AList.update (o_Price ord) ?lv (levels (o_Side ord) ob))
        = side_volume (levels (o_Side ord) ob) + unat (l_TotalVolume ?lv)"
      by (intro side_volume_update_new) (simp add: map_of_eq_None_iff)
    moreover have "unat (l_TotalVolume ?lv) = rem ord"
      using add_to_level_volume [of "fresh_level (o_Price ord)" ord] assms None tot
      by (simp add: fits_def)
    ultimately show ?thesis
      unfolding eq rest_order_levels using None
      by (cases "sd = o_Side ord") (simp_all only: fun_upd_same fun_upd_other option.case book_levels_def
          if_True if_False simp_thms add_0_right)
  next
    case (Some lv)
    have "unat (l_TotalVolume (add_to_level ord lv)) = unat (l_TotalVolume lv) + rem ord"
      using add_to_level_volume [of lv ord] assms Some by (simp add: fits_def)
    with side_volume_update [OF Some, of "add_to_level ord lv"]
    have "side_volume (AList.update (o_Price ord) (add_to_level ord lv) (levels (o_Side ord) ob))
        = side_volume (levels (o_Side ord) ob) + rem ord" by simp
    then show ?thesis
      unfolding eq rest_order_levels using Some
      by (cases "sd = o_Side ord") (simp_all only: fun_upd_same fun_upd_other option.case book_levels_def
          if_True if_False simp_thms add_0_right)
  qed
qed

end

text \<open>C2. Accounting of \<^verbatim>\<open>AddLimitOrder\<close>: the new order gets the next ID; the trades appended to
  the history all carry that order as taker, have a positive size and a price within the limit; traded
  and remaining quantity add up to the ordered size; the own side of the book gains the
  remainder and the opposite side loses what was traded; the order is indexed if and only if it is not
  filled.\<close>

theorem add_limit_accounting:
  assumes inv: "book_inv ob" and nxt: "ob_nextOrderID ob < - 1" and room': "room_for sd price sz ob"
    and add: "AddLimitOrder traderID price sz sd ob = (ord, ob')"
  shows "o_ID ord = ob_nextOrderID ob + 1 \<and>
    (\<exists>ts. ob_Trades ob' = ob_Trades ob @ ts
      \<and> (\<forall>t\<in>set ts. trade_at ord (t_Price t) t \<and> within_limit ord (t_Price t))
      \<and> traded ts + rem ord = unat sz
      \<and> side_volume (levels sd ob') = side_volume (levels sd ob) + rem ord
      \<and> side_volume (levels (opposite sd) ob') + traded ts = side_volume (levels (opposite sd) ob))
    \<and> (o_ID ord \<in> set (ob_OrderIndex ob') \<longleftrightarrow> \<not> IsFilled ord)"
proof -
  obtain ord0 ob1 where no: "new_order traderID price sz sd ob = (ord0, ob1)" by fastforce
  note room = room_for_fits [OF room']
  let ?f = "\<lambda>s. s\<lparr>st_LockAcquisitions := st_LockAcquisitions s + 1\<rparr>"
  obtain ord' ob3 where tm: "try_match ord0 (upd_stats ?f ob1) = (ord', ob3)" by fastforce
  obtain ts where m: "matched ord0 (upd_stats ?f ob1) ord' ob3 ts" and o': "o_ID ord' = ob_nextOrderID ob + 1"
    "o_Side ord' = sd" "o_Price ord' = price" "o_ID ord' \<notin> set (ob_OrderIndex ob3)" "rem ord' \<le> unat sz"
    by (rule new_order_matched [OF inv nxt no tm])
  let ?ob4 = "write_order ord' ob3"
  have eq: "ord = ord'" "ob' = upd_stats count_order (if \<not> IsFilled ord'
      then index_insert (o_ID ord') (rest_order (improve_best sd price) ord' ?ob4) else ?ob4)"
    using add by (auto simp: AddLimitOrder_def no tm Let_def)
  have w: "levels sd' ?ob4 = levels sd' ob3" "ob_Trades ?ob4 = ob_Trades ob3"
    "ob_OrderIndex ?ob4 = ob_OrderIndex ob3" for sd'
    by (simp_all add: write_order_def)
  note facts = new_order_facts [OF no]
  have side0: "o_Side ord0 = sd" by (subst facts(1)) simp
  have fr: "taker_frame ord0 ord'" and tr: "ob_Trades ob3 = ob_Trades ob @ ts" "rem ord0 = rem ord' + traded ts"
    "\<forall>t\<in>set ts. trade_at ord0 (t_Price t) t \<and> within_limit ord0 (t_Price t)"
    and lv: "levels sd ob3 = levels sd ob"
    "side_volume (levels (opposite sd) ob) = side_volume (levels (opposite sd) ob3) + traded ts"
    using m side0 unfolding matched_def by (simp_all only: facts(5)) simp_all
  have trs: "\<forall>t\<in>set ts. trade_at ord (t_Price t) t \<and> within_limit ord (t_Price t)"
    using tr(3) by (simp add: eq(1) trade_at_frame [OF fr] within_limit_frame [OF fr])
  have fit: "fits (o_Side ord') (o_Price ord') (rem ord') ?ob4"
    using fits_mono [OF room o'(5)] by (simp add: o' fits_def w lv)
  note vol = improving.rest_order_volume [OF fit, of _ sd price]
  have "traded ts + rem ord = unat sz" using tr(2) facts(4) by (simp add: eq(1))
  moreover have "side_volume (levels sd ob') = side_volume (levels sd ob) + rem ord"
    using vol [of sd] by (simp add: eq w lv o' IsFilled_rem)
  moreover have "side_volume (levels (opposite sd) ob') + traded ts = side_volume (levels (opposite sd) ob)"
    using vol [of "opposite sd"] lv(2) by (simp add: eq w o')
  moreover have "ob_Trades ob' = ob_Trades ob @ ts"
    using tr(1) by (simp add: eq w improving.rest_order_frame)
  moreover have "o_ID ord \<in> set (ob_OrderIndex ob') \<longleftrightarrow> \<not> IsFilled ord"
    using o'(4) by (simp add: eq w index_insert_def)
  ultimately show ?thesis using trs o'(1) by (auto simp: eq(1))
qed

lemma add_limit_accounting_witness:
  "o_ID (fst (AddLimitOrder 7 101 6000 BUY sample)) = 3"
proof -
  have "ob_nextOrderID sample = 2" "room_for BUY 101 6000 sample" by code_simp+
  then show ?thesis
    using add_limit_accounting [OF sample_inv _ _ surjective_pairing, of BUY 101 6000 7]
    by (simp add: word_less_nat_alt unat_word_max)
qed

end
