(* ===== verification/BookPriority.thy ===== *)
theory BookPriority
  imports BookTheorems
begin

text \<open>
  In which order resting orders are matched, when matching stops, what cancelling, cleaning and
  resizing do, the trade history, and the best-price cache with its defects.
\<close>

subsection \<open>Priority inside a level\<close>

text \<open>C3. Priority at a price: one pass over a consistent level serves the resting orders in slot order and,
  inside a slot, first in, first out. The first \<open>k\<close> of that queue are filled and gone, the trades
  name the makers in exactly that order, at most one further order is touched, every order
  behind it is unchanged, and if the taker is left unfilled the whole level was consumed.\<close>

theorem match_slots_priority:
  assumes inv: "book_inv ob" and lv: "map_of (levels sd ob) price = Some lv"
    and ms: "match_slots tk price (l_Slots lv) ob (l_TotalVolume lv) False = (slots', tk', ob', tot', mt)"
  shows "\<exists>k ts. queue slots' = drop k (queue (l_Slots lv)) \<and> ob_Trades ob' = ob_Trades ob @ ts
    \<and> map t_MakerOrderID ts = take (length ts) (queue (l_Slots lv)) \<and> k \<le> length ts \<and> length ts \<le> Suc k
    \<and> (\<forall>q. q \<notin> set (take (Suc k) (queue (l_Slots lv))) \<longrightarrow> ob_heap ob' q = ob_heap ob q)
    \<and> (\<not> IsFilled tk' \<longrightarrow> k = length (queue (l_Slots lv)))"
proof -
  have "book_ok (book_levels ob) (ob_heap ob) (set (ob_OrderIndex ob))" using inv by (simp add: book_inv_def)
  from level_okD(1) [OF this, of sd price lv] lv have lok: "level_ok (ob_heap ob) sd price lv"
    by (simp add: book_levels_def)
  then obtain k ts where "consumed tk price (queue (l_Slots lv)) ob tk' ob' k ts"
    "queue slots' = drop k (queue (l_Slots lv))"
    using match_slots_consumed [OF ms, of sd 0] by (auto simp: level_ok_def)
  then show ?thesis unfolding consumed_def by (intro exI [of _ k] exI [of _ ts]) simp
qed

lemma match_slots_priority_witness:
  "\<exists>lv. map_of (levels SELL sample) 100 = Some lv \<and> queue (l_Slots lv) = [2, 1] \<and>
    (\<exists>k. queue (fst (match_slots (fst (new_order 7 100 900 BUY sample)) 100 (l_Slots lv) sample
      (l_TotalVolume lv) False)) = drop k [2, 1])"
proof -
  have "map_option (\<lambda>lv. queue (l_Slots lv)) (map_of (levels SELL sample) 100) = Some [2, 1]" by code_simp
  then obtain lv where lv: "map_of (levels SELL sample) 100 = Some lv" "queue (l_Slots lv) = [2, 1]" by auto
  obtain slots' tk' ob' tot' mt where ms:
    "match_slots (fst (new_order 7 100 900 BUY sample)) 100 (l_Slots lv) sample (l_TotalVolume lv) False
      = (slots', tk', ob', tot', mt)" by (metis prod_cases5)
  from match_slots_priority [OF sample_inv lv(1) ms] lv ms show ?thesis by auto
qed

subsection \<open>When matching stops\<close>

lemma match_orders_flag:
  "match_orders tk price ms ob v tot mt = (ms', tk', ob', v', tot', mt') \<Longrightarrow> mt \<Longrightarrow> mt'"
proof (induction ms arbitrary: tk ob v tot mt ms')
  case (Cons m ms)
  then show ?case by (fastforce simp: Let_def split: if_splits prod.splits)
qed simp

lemma match_slots_flag:
  "match_slots tk price ss ob tot mt = (ss', tk', ob', tot', mt') \<Longrightarrow>
    mt \<or> (\<not> IsFilled tk \<and> queue ss \<noteq> []) \<Longrightarrow> mt'"
proof (induction ss arbitrary: tk ob tot mt ss')
  case (Cons s ss)
  consider "IsFilled tk" | "\<not> IsFilled tk" "s_Orders s = []" | "\<not> IsFilled tk" "s_Orders s \<noteq> []" by blast
  then show ?case
  proof cases
    case 1
    with Cons.prems show ?thesis by simp
  next
    case 2
    with Cons.prems obtain ss1 where "match_slots tk price ss ob tot mt = (ss1, tk', ob', tot', mt')"
      by (auto split: prod.splits)
    from Cons.IH [OF this] Cons.prems(2) 2 show ?thesis by simp
  next
    case 3
    obtain os tk1 ob1 v1 tot1 mt1 where mo:
      "match_orders tk price (s_Orders s) ob (s_Volume s) tot mt = (os, tk1, ob1, v1, tot1, mt1)"
      by (metis prod_cases6)
    have mt1
    proof (cases "s_Orders s")
      case (Cons m ms)
      with mo 3 show ?thesis
        by (auto simp: Let_def split: if_splits prod.splits dest: match_orders_flag)
    qed (use 3 in simp)
    moreover from Cons.prems 3 mo obtain ss1 where
      "match_slots tk1 price ss ob1 tot1 mt1 = (ss1, tk', ob', tot', mt')"
      by (auto simp: Let_def split: prod.splits)
    ultimately show ?thesis using Cons.IH by blast
  qed
qed simp

lemma best_opposite_index_delete [simp]:
  "best_opposite sd (index_delete p ob) = best_opposite sd ob"
  "levels sd (index_delete p ob) = levels sd ob"
  by (simp_all add: best_opposite_def index_delete_def)

text \<open>Matching ends only for a reason: afterwards the taker is filled, or the best opposite
  price does not satisfy its limit, or (a stale best price) there is no level at that price. The loop
  never gives up on a level that still holds orders.\<close>

theorem try_match_stops:
  assumes "book_inv ob" "o_ID tk \<notin> set (ob_OrderIndex ob)" "try_match tk ob = (tk', ob')"
  shows "IsFilled tk' \<or> \<not> can_match tk' (best_opposite (o_Side tk') ob')
    \<or> map_of (levels (opposite (o_Side tk')) ob') (best_opposite (o_Side tk') ob') = None"
  using assms
proof (induction tk ob rule: try_match.induct)
  case (1 tk ob)
  let ?opp = "opposite (o_Side tk)" and ?p = "best_opposite (o_Side tk) ob"
  show ?case
  proof (cases "IsFilled tk \<or> \<not> can_match tk ?p \<or> map_of (levels ?opp ob) ?p = None")
    case True
    then have "try_match tk ob = finish_match tk ob"
      by (subst try_match.simps) (auto simp: Let_def)
    with True "1.prems"(3) show ?thesis by (auto simp: finish_match_def split: if_splits)
  next
    case False
    then obtain lv where lv: "map_of (levels ?opp ob) ?p = Some lv"
      and can: "\<not> IsFilled tk" "\<not> \<not> can_match tk ?p" by auto
    obtain slots' tk1 ob1 tot1 mt where ms:
      "match_slots tk ?p (l_Slots lv) ob (l_TotalVolume lv) False = (slots', tk1, ob1, tot1, mt)"
      by (metis prod_cases5)
    let ?ob2 = "store_level ?opp ?p (lv\<lparr>l_Slots := slots', l_TotalVolume := tot1\<rparr>) ob1"
    obtain ts where m: "matched tk ob tk1 ?ob2 ts"
      using level_pass_matched [OF "1.prems"(1) lv ms] can_match_within can(2) by blast
    have ok: "book_ok (book_levels ob) (ob_heap ob) (set (ob_OrderIndex ob))"
      using "1.prems"(1) by (simp add: book_inv_def)
    have "queue (l_Slots lv) \<noteq> []"
      using level_okD(1) [OF ok, of ?opp ?p lv] lv by (auto simp: level_ok_def book_levels_def unat_eq_0)
    then have mt: mt using match_slots_flag [OF ms] can(1) by blast
    have inv2: "book_inv ?ob2" and id2: "o_ID tk1 \<notin> set (ob_OrderIndex ?ob2)"
      using m "1.prems"(2) taker_frame_fields [of tk tk1] by (auto simp: matched_def)
    have "try_match tk1 ?ob2 = (tk', ob')"
      using can lv ms mt "1.prems"(3) by (subst (asm) try_match.simps) (simp add: Let_def)
    from "1.IH" [OF can(1) refl refl can(2) lv ms [symmetric] refl refl refl refl mt inv2 id2 this]
    show ?thesis .
  qed
qed

lemma try_match_stops_witness:
  "\<exists>tk' ob'. try_match (fst (new_order 7 100 900 BUY sample)) sample = (tk', ob') \<and>
    (IsFilled tk' \<or> \<not> can_match tk' (best_opposite (o_Side tk') ob')
    \<or> map_of (levels (opposite (o_Side tk')) ob') (best_opposite (o_Side tk') ob') = None)"
proof -
  have "o_ID (fst (new_order 7 100 900 BUY sample)) \<notin> set (ob_OrderIndex sample)" by code_simp
  then show ?thesis
    using try_match_stops [OF sample_inv _ surjective_pairing [of "try_match (fst (new_order 7 100 900 BUY sample)) sample"]]
    by (metis surjective_pairing)
qed

subsection \<open>Cancelling, cleaning, clearing\<close>

text \<open>C31. \<^verbatim>\<open>CancelOrder\<close> of an indexed order succeeds, takes exactly that order out of the index,
  takes exactly its unfilled quantity out of its side and nothing out of the other side, and
  keeps the book consistent; for any other ID it fails and changes nothing.\<close>

theorem cancel_order_effect:
  assumes "book_inv ob"
  shows "(oid \<in> set (ob_OrderIndex ob) \<longrightarrow> fst (CancelOrder oid ob)
      \<and> set (ob_OrderIndex (snd (CancelOrder oid ob))) = set (ob_OrderIndex ob) - {oid}
      \<and> (\<forall>sd. side_volume (levels sd (snd (CancelOrder oid ob)))
           + (if o_Side (ob_heap ob oid) = sd then rem (ob_heap ob oid) else 0)
         = side_volume (levels sd ob))
      \<and> book_inv (snd (CancelOrder oid ob)))
    \<and> (oid \<notin> set (ob_OrderIndex ob) \<longrightarrow> CancelOrder oid ob = (False, ob))"
  using CancelOrder_found [OF assms] CancelOrder_missing [of oid ob] by blast

lemma cancel_order_effect_witness:
  "fst (CancelOrder 2 sample) \<and> set (ob_OrderIndex (snd (CancelOrder 2 sample))) = {1}"
proof -
  have "ob_OrderIndex sample = [2, 1]" by code_simp
  with cancel_order_effect [OF sample_inv, of 2] show ?thesis by auto
qed

text \<open>\<^verbatim>\<open>CancelAllByTrader\<close> cancels every order of the trader and no other, and returns
  how many there were.\<close>

theorem cancel_all_by_trader:
  assumes "book_inv ob"
  shows "fst (CancelAllByTrader traderID ob)
      = card {p \<in> set (ob_OrderIndex ob). o_TraderID (ob_heap ob p) = traderID}
    \<and> set (ob_OrderIndex (snd (CancelAllByTrader traderID ob)))
      = {p \<in> set (ob_OrderIndex ob). o_TraderID (ob_heap ob p) \<noteq> traderID}"
proof -
  let ?oids = "filter (\<lambda>oid. o_TraderID (ob_heap ob oid) = traderID) (ob_OrderIndex ob)"
  have dist: "distinct ?oids" and sub: "set ?oids \<subseteq> set (ob_OrderIndex ob)"
    using assms by (auto simp: book_inv_def)
  have "length ?oids = card (set ?oids)" by (rule distinct_card [OF dist, symmetric])
  moreover have "set (ob_OrderIndex ob) - set ?oids
      = {p \<in> set (ob_OrderIndex ob). o_TraderID (ob_heap ob p) \<noteq> traderID}" by auto
  ultimately show ?thesis
    using cancel_all_loop_spec [OF assms sub dist] by (simp add: CancelAllByTrader_def)
qed

lemma cancel_all_by_trader_witness:
  "set (ob_OrderIndex (snd (CancelAllByTrader 202 sample)))
    = {p \<in> {1, 2}. o_TraderID (ob_heap sample p) \<noteq> 202}"
proof -
  have "ob_OrderIndex sample = [2, 1]" by code_simp
  with cancel_all_by_trader [OF sample_inv, of 202] show ?thesis by auto
qed

text \<open>\<^verbatim>\<open>CleanupEmptyLevels\<close> has nothing to do on a consistent book: the operations delete
  a level as soon as it is empty, so it returns 0 and changes nothing.\<close>

theorem cleanup_is_identity:
  assumes "book_inv ob"
  shows "CleanupEmptyLevels ob = (0, ob)"
  by (rule CleanupEmptyLevels_nothing [OF assms])

lemma cleanup_is_identity_witness: "CleanupEmptyLevels sample = (0, sample)"
  by (rule cleanup_is_identity [OF sample_inv])

lemma first_fresh_eq:
  "first_fresh cutoff i ts = (let n = length (takeWhile (\<lambda>t. t_Timestamp t < cutoff) ts)
    in if n < length ts then i + n else 0)"
  by (induction cutoff i ts rule: first_fresh.induct) (auto simp: Let_def not_less)

text \<open>\<^verbatim>\<open>ClearOldTrades\<close> drops the leading trades older than the cutoff, if some trade is
  fresh; when every trade is old it clears nothing, since the loop leaves the index at 0.\<close>

theorem clear_old_trades_effect:
  "ClearOldTrades olderThan ob =
    (let old = length (takeWhile (\<lambda>t. t_Timestamp t < ob_now ob - olderThan) (ob_Trades ob))
     in if old = 0 \<or> old = length (ob_Trades ob) then (0, ob)
        else (old, ob\<lparr>ob_Trades := drop old (ob_Trades ob)\<rparr>))"
proof -
  have "length (takeWhile P (ob_Trades ob)) \<le> length (ob_Trades ob)" for P
    by (rule length_takeWhile_le)
  then show ?thesis
    by (auto simp: ClearOldTrades_def first_fresh_eq Let_def le_less)
qed

subsection \<open>The best prices\<close>

lemma hd_sort_desc_max: "xs \<noteq> [] \<Longrightarrow> sort_desc (\<lambda>x. x) xs ! 0 = Max (set (xs :: u64 list))"
proof -
  assume ne: "xs \<noteq> []"
  then have "sort_desc (\<lambda>x. x) xs \<noteq> []" by (metis set_empty set_sort_desc)
  then obtain y ys where s: "sort_desc (\<lambda>x. x) xs = y # ys" by (meson neq_Nil_conv)
  have "sorted_wrt (\<lambda>x y. y \<le> x) (y # ys)" using sorted_sort_desc [of "\<lambda>x. x" xs] by (simp add: s)
  moreover have "set xs = set (y # ys)" by (metis s set_sort_desc)
  ultimately show ?thesis by (auto simp: s intro!: Max_eqI [symmetric])
qed

lemma hd_sort_min: "xs \<noteq> [] \<Longrightarrow> sort_key (\<lambda>x. x) xs ! 0 = Min (set (xs :: u64 list))"
proof -
  assume ne: "xs \<noteq> []"
  then have ne': "sort_key (\<lambda>x. x) xs \<noteq> []" by (metis set_empty set_sort)
  have "Min (set xs) = hd (sort_key (\<lambda>x. x) xs)"
  proof (rule Min_eqI)
    show "hd (sort_key (\<lambda>x. x) xs) \<in> set xs" using ne' by (metis hd_in_set set_sort)
    show "hd (sort_key (\<lambda>x. x) xs) \<le> y" if "y \<in> set xs" for y
      using hd_sort_key_min [OF ne that, of "\<lambda>x. x"] by simp
  qed simp
  with ne' show ?thesis by (simp add: hd_conv_nth)
qed

text \<open>\<^verbatim>\<open>rebuildBestPrices\<close> makes the best bid the greatest buy price and the best ask
  the least sell price (0 for an empty side), whatever the cache held before.\<close>

theorem rebuild_best_prices:
  "ob_bestBidAtomic (rebuildBestPrices ob)
      = (if ob_BuyLevels ob = [] then 0 else Max (fst ` set (ob_BuyLevels ob)))
    \<and> ob_bestAskAtomic (rebuildBestPrices ob)
      = (if ob_SellLevels ob = [] then 0 else Min (fst ` set (ob_SellLevels ob)))
    \<and> ob_pricesCacheDirty (rebuildBestPrices ob) = False"
  using hd_sort_desc_max [of "map fst (ob_BuyLevels ob)"] hd_sort_min [of "map fst (ob_SellLevels ob)"]
  by (cases "ob_BuyLevels ob"; cases "ob_SellLevels ob") (simp_all add: rebuildBestPrices_def Let_def)

definition stale_ops :: "book_op list" where
  "stale_ops = [OpAdd 200 90 5000 BUY, OpAdd 201 100 5000 SELL, OpAdd 202 101 5000 SELL,
     OpAdd 203 102 5000 SELL, OpCancel 4, OpAdd 204 101 100000 BUY]"

text \<open>The fast path of \<^verbatim>\<open>updateBestPrices\<close> trusts a cache that nothing invalidates:
  a reachable book has its best ask at a price without a level, and holds a buy and a sell order
  at the same price 101 that no longer match each other.\<close>

theorem stale_best_ask_crosses_book:
  "let ob = run_ops stale_ops in
    ob_bestAskAtomic ob = 100 \<and> map fst (ob_SellLevels ob) = [101]
    \<and> map fst (ob_BuyLevels ob) = [90, 101] \<and> fst (ExecuteMarketOrder 205 1000 BUY ob) = False"
  by code_simp

definition ghost_ops :: "book_op list" where
  "ghost_ops = [OpAdd 200 100 5000 SELL, OpAdd 201 90 5000 BUY, OpModify 2 (Some 100) None]"

text \<open>\<^verbatim>\<open>ModifyOrder\<close> to a crossing price leaves a ghost: the modified order is put in its
  new level first and matched afterwards, so a fully filled order stays in the queue and its
  volume stays in the level, while the index no longer knows it.\<close>

theorem modify_crossing_leaves_ghost:
  "let ob = run_ops ghost_ops in
    ob_OrderIndex ob = [] \<and> IsFilled (ob_heap ob 2) \<and> fst (CancelOrder 2 ob) = False
    \<and> map (\<lambda>(p, lv). (p, l_TotalVolume lv, queue (l_Slots lv))) (ob_BuyLevels ob)
      = [(100, 5000, [2])]"
  by code_simp

definition shrink_ops :: "book_op list" where
  "shrink_ops = [OpAdd 200 100 5000 SELL, OpAdd 201 100 2000 BUY, OpModify 1 None (Some 2000)]"

text \<open>Reducing a partially filled order to its filled quantity deletes its level without updating
  the best prices: the best ask still names the deleted price.\<close>

theorem modify_to_filled_keeps_best_ask:
  "reachable (run_ops shrink_ops) \<and> ob_SellLevels (run_ops shrink_ops) = []
    \<and> ob_bestAskAtomic (run_ops shrink_ops) = 100"
proof -
  have "ops_fit shrink_ops (NewOrderBook ''BTC'')" by code_simp
  moreover have "ob_SellLevels (run_ops shrink_ops) = [] \<and> ob_bestAskAtomic (run_ops shrink_ops) = 100"
    by code_simp
  ultimately show ?thesis using reachable_run_ops by blast
qed

end
