(* ===== verification/BookMaintenance.thy ===== *)
theory BookMaintenance
  imports BookTheorems
begin

text \<open>
  Two functions of the order book that do not do what their names say:
  \<^verbatim>\<open>GetSpreadUnsafe\<close> reads fields that no operation writes, and
  \<^verbatim>\<open>validateAndFixLevelConsistency\<close> counts ordered instead of unfilled quantities.
\<close>

subsection \<open>The spread\<close>

named_theorems spread_simps \<open>operations leave the fields of the spread alone\<close>

lemma spread_set_levels [spread_simps]: "GetSpreadUnsafe (set_levels sd ls ob) = GetSpreadUnsafe ob"
  by (cases sd) (simp_all add: GetSpreadUnsafe_def)

lemma spread_small [spread_simps]:
  "GetSpreadUnsafe (updateBestPrices ob) = GetSpreadUnsafe ob"
  "GetSpreadUnsafe (index_delete p ob) = GetSpreadUnsafe ob"
  "GetSpreadUnsafe (index_insert p ob) = GetSpreadUnsafe ob"
  "GetSpreadUnsafe (putOrderToPool p ob) = GetSpreadUnsafe ob"
  "GetSpreadUnsafe (upd_stats f ob) = GetSpreadUnsafe ob"
  "GetSpreadUnsafe (write_order ord ob) = GetSpreadUnsafe ob"
  "GetSpreadUnsafe (improve_best sd p ob) = GetSpreadUnsafe ob"
  "GetSpreadUnsafe (mark_cache_dirty ob) = GetSpreadUnsafe ob"
  "GetSpreadUnsafe (ob\<lparr>ob_heap := h\<rparr>) = GetSpreadUnsafe ob"
  by (simp_all add: GetSpreadUnsafe_def updateBestPrices_def rebuildBestPrices_def Let_def index_delete_def
      index_insert_def putOrderToPool_def upd_stats_def write_order_def improve_best_def mark_cache_dirty_def)

lemma spread_book_frame: "book_frame ob ob' \<Longrightarrow> GetSpreadUnsafe ob' = GetSpreadUnsafe ob"
  by (cases ob; cases ob') (simp add: book_frame_def GetSpreadUnsafe_def)

lemma spread_store_level [spread_simps]: "GetSpreadUnsafe (store_level sd p lv ob) = GetSpreadUnsafe ob"
  by (simp add: store_level_def spread_simps)

lemma spread_try_match [spread_simps]: "GetSpreadUnsafe (snd (try_match tk ob)) = GetSpreadUnsafe ob"
proof (induction tk ob rule: try_match.induct)
  case (1 tk ob)
  let ?opp = "opposite (o_Side tk)" and ?p = "best_opposite (o_Side tk) ob"
  have fin: "GetSpreadUnsafe (snd (finish_match t b)) = GetSpreadUnsafe b" for t b
    by (simp add: finish_match_def spread_simps)
  show ?case
  proof (cases "IsFilled tk \<or> \<not> can_match tk ?p \<or> map_of (levels ?opp ob) ?p = None")
    case True
    then have "try_match tk ob = finish_match tk ob" by (subst try_match.simps) (auto simp: Let_def)
    with fin show ?thesis by simp
  next
    case False
    then obtain lv where lv: "map_of (levels ?opp ob) ?p = Some lv"
      and can: "\<not> IsFilled tk" "\<not> \<not> can_match tk ?p" by auto
    obtain slots' tk1 ob1 tot1 mt where ms:
      "match_slots tk ?p (l_Slots lv) ob (l_TotalVolume lv) False = (slots', tk1, ob1, tot1, mt)"
      by (metis prod_cases5)
    let ?ob2 = "store_level ?opp ?p (lv\<lparr>l_Slots := slots', l_TotalVolume := tot1\<rparr>) ob1"
    have "GetSpreadUnsafe ?ob2 = GetSpreadUnsafe ob"
      using spread_book_frame match_slots_frame [OF ms] by (simp add: spread_store_level)
    moreover have "try_match tk ob = (if mt then try_match tk1 ?ob2 else finish_match tk1 ?ob2)"
      using can lv ms by (subst try_match.simps) (simp add: Let_def)
    ultimately show ?thesis
      using fin "1.IH" [OF can(1) refl refl can(2) lv ms [symmetric] refl refl refl refl] by auto
  qed
qed

lemma spread_new_order: "new_order a b c d ob = (ord, ob1) \<Longrightarrow> GetSpreadUnsafe ob1 = GetSpreadUnsafe ob"
  by (auto simp: new_order_def Let_def GetSpreadUnsafe_def)

lemma spread_try: "try_match tk ob = (tk', ob') \<Longrightarrow> GetSpreadUnsafe ob' = GetSpreadUnsafe ob"
  using spread_try_match [of tk ob] by simp

lemma spread_rest_order:
  "(\<And>b. GetSpreadUnsafe (f b) = GetSpreadUnsafe b) \<Longrightarrow>
    GetSpreadUnsafe (rest_order f ord ob) = GetSpreadUnsafe ob"
  by (auto simp: rest_order_def Let_def spread_simps split: option.splits)

lemma spread_add [spread_simps]: "GetSpreadUnsafe (snd (AddLimitOrder a b c d ob)) = GetSpreadUnsafe ob"
proof -
  let ?f = "\<lambda>s. s\<lparr>st_LockAcquisitions := st_LockAcquisitions s + 1\<rparr>"
  obtain ord ob1 where no: "new_order a b c d ob = (ord, ob1)" by fastforce
  obtain ord' ob2 where tm: "try_match ord (upd_stats ?f ob1) = (ord', ob2)" by fastforce
  have "GetSpreadUnsafe ob2 = GetSpreadUnsafe ob"
    using spread_try [OF tm] spread_new_order [OF no] by (simp add: spread_simps)
  then show ?thesis by (simp add: AddLimitOrder_def no tm Let_def spread_simps spread_rest_order)
qed

lemma spread_batch_loop [spread_simps]: "GetSpreadUnsafe (snd (add_batch_loop reqs ob)) = GetSpreadUnsafe ob"
proof (induction reqs arbitrary: ob)
  case (Cons r reqs)
  obtain a b c d where r: "r = (a, b, c, d)" by (metis prod_cases4)
  obtain ord ob1 where no: "new_order a b c d ob = (ord, ob1)" by fastforce
  obtain ord' ob2 where tm: "try_match ord ob1 = (ord', ob2)" by fastforce
  have "GetSpreadUnsafe ob2 = GetSpreadUnsafe ob"
    using spread_try [OF tm] spread_new_order [OF no] by simp
  then show ?case by (simp add: r no tm Let_def split_beta Cons.IH spread_simps spread_rest_order)
qed simp

lemma spread_market [spread_simps]: "GetSpreadUnsafe (snd (ExecuteMarketOrder a b c ob)) = GetSpreadUnsafe ob"
proof -
  obtain ord ob1 where no: "new_order a (if c = BUY then NOT 0 else 0) b c ob = (ord, ob1)" by fastforce
  obtain ord' ob2 where tm: "try_match ord ob1 = (ord', ob2)" by fastforce
  have "GetSpreadUnsafe ob2 = GetSpreadUnsafe ob"
    using spread_try [OF tm] spread_new_order [OF no] by simp
  then show ?thesis unfolding ExecuteMarketOrder_def no tm Let_def prod.case
    by (simp add: spread_simps split: option.split)
qed

lemma spread_cancel [spread_simps]: "GetSpreadUnsafe (snd (CancelOrder oid ob)) = GetSpreadUnsafe ob"
  by (auto simp: CancelOrder_def Let_def spread_simps split: prod.split option.split)

lemma spread_cancel_all [spread_simps]: "GetSpreadUnsafe (snd (cancel_all_loop oids ob)) = GetSpreadUnsafe ob"
  by (induction oids arbitrary: ob) (auto simp: split_beta Let_def spread_simps)

lemma spread_modify_size [spread_simps]: "GetSpreadUnsafe (modify_size oid n lv ob) = GetSpreadUnsafe ob"
  by (simp add: modify_size_def Let_def spread_simps)

lemma spread_modify_price [spread_simps]: "GetSpreadUnsafe (snd (modify_price oid p n lv ob)) = GetSpreadUnsafe ob"
  by (auto simp: modify_price_def Let_def spread_simps spread_rest_order split: prod.split dest!: spread_try)

lemma spread_run_op: "GetSpreadUnsafe (run_op op ob) = GetSpreadUnsafe ob"
proof (cases op)
  case (OpModify oid p n)
  then show ?thesis by (auto simp: ModifyOrder_def Let_def spread_simps split: option.split)
qed (auto simp: spread_simps AddLimitOrderBatch_def split_beta CancelAllByTrader_def
      CleanupEmptyLevels_def ClearOldTrades_def Let_def, auto simp: GetSpreadUnsafe_def)

text \<open>\<^verbatim>\<open>GetSpreadUnsafe\<close> answers (0, 0) on every book, whatever operations it has
  seen: it reads \<^verbatim>\<open>BestBid\<close> and \<^verbatim>\<open>BestAsk\<close>, and the code writes only the atomic
  copies.\<close>

theorem spread_is_always_zero: "GetSpreadUnsafe (run_ops ops) = (0, 0)"
proof -
  have "GetSpreadUnsafe (foldl (\<lambda>ob op. run_op op ob) ob ops) = GetSpreadUnsafe ob" for ob
    by (induction ops arbitrary: ob) (simp_all add: spread_run_op)
  then show ?thesis by (simp add: run_ops_def) (simp add: GetSpreadUnsafe_def NewOrderBook_def)
qed

subsection \<open>The consistency repair\<close>

definition filled :: "(u64 \<Rightarrow> order) \<Rightarrow> u64 list \<Rightarrow> nat" where
  "filled h ps = sum_list (map (\<lambda>p. unat (o_FilledSize (h p))) ps)"

lemma unat_sum_list: "sum_list (map (\<lambda>x. unat (f x)) xs) < 2 ^ 64 \<Longrightarrow>
    unat (sum_list (map f xs) :: u64) = sum_list (map (\<lambda>x. unat (f x)) xs)"
  by (induction xs) (auto simp: unat_add_no_wrap)

lemma volume_filled:
  "\<forall>p\<in>set ps. o_FilledSize (h p) \<le> o_Size (h p) \<Longrightarrow>
    volume h ps + filled h ps = sum_list (map (\<lambda>p. unat (o_Size (h p))) ps)"
  by (induction ps) (auto simp: filled_def rem_eq word_le_nat_alt)

lemma sum_list_queue: "sum_list (map f (queue ss)) = sum_list (map (\<lambda>s. sum_list (map f (s_Orders s))) ss)"
  by (induction ss) simp_all

text \<open>\<^verbatim>\<open>validateAndFixLevelConsistency\<close> makes a correct level wrong as soon as one of
  its orders is partially filled: run on a consistent level with orders of plausible size, it raises
  the level's total volume by everything that has already been filled.\<close>

theorem validate_adds_filled_volume:
  assumes lv: "level_ok (ob_heap ob) sd price lv"
    and plausible: "\<forall>p\<in>set (queue (l_Slots lv)). o_Size (ob_heap ob p) \<le> 1000000 * PRICE_DECIMALS"
    and room: "unat (l_TotalVolume lv) + filled (ob_heap ob) (queue (l_Slots lv)) < 2 ^ 64"
  shows "unat (l_TotalVolume (validateAndFixLevelConsistency ob lv))
    = unat (l_TotalVolume lv) + filled (ob_heap ob) (queue (l_Slots lv))"
proof -
  let ?h = "ob_heap ob" and ?q = "queue (l_Slots lv)"
  let ?size = "\<lambda>p. o_Size (?h p)"
  have loc: "o_Price (?h p) = price \<and> o_FilledSize (?h p) \<le> o_Size (?h p)" if "p \<in> set ?q" for p
    using queue_located [OF lv that] by simp
  have "s_Volume (fix_slot ob (l_Price lv) s) = sum_list (map ?size (s_Orders s))" if "s \<in> set (l_Slots lv)" for s
  proof -
    have "filter (\<lambda>p. order_plausible (l_Price lv) (?h p)) (s_Orders s) = s_Orders s"
      using that loc plausible lv
      by (intro filter_True) (auto simp: order_plausible_def queue_def level_ok_def not_less)
    then show ?thesis by (simp add: fix_slot_def Let_def)
  qed
  then have "map (\<lambda>s. s_Volume (fix_slot ob (l_Price lv) s)) (l_Slots lv)
      = map (\<lambda>s. sum_list (map ?size (s_Orders s))) (l_Slots lv)"
    by (rule map_cong [OF refl])
  note sums = arg_cong [OF this, of sum_list]
  have "l_TotalVolume (validateAndFixLevelConsistency ob lv) = sum_list (map ?size ?q)"
    unfolding validateAndFixLevelConsistency_def Let_def sum_list_queue sums [symmetric]
    by (simp add: comp_def)
  moreover have "volume ?h ?q + filled ?h ?q = sum_list (map (\<lambda>p. unat (?size p)) ?q)"
    using loc by (intro volume_filled) blast
  ultimately show ?thesis
    using unat_sum_list [of ?size ?q] room lv by (simp add: level_ok_def)
qed

definition half_filled :: book where
  "half_filled = run_ops [OpAdd 201 100 5000 SELL, OpAdd 202 100 2000 BUY]"

lemma validate_adds_filled_volume_witness:
  "\<exists>lv. map_of (levels SELL half_filled) 100 = Some lv \<and> unat (l_TotalVolume lv) = 3000
    \<and> unat (l_TotalVolume (validateAndFixLevelConsistency half_filled lv)) = 5000"
proof -
  have "map_option (\<lambda>lv. (l_TotalVolume lv, queue (l_Slots lv))) (map_of (levels SELL half_filled) 100)
      = Some (3000, [1])" by code_simp
  then obtain lv where lv: "map_of (levels SELL half_filled) 100 = Some lv"
    "l_TotalVolume lv = 3000" "queue (l_Slots lv) = [1]" by auto
  have "(o_Size (ob_heap half_filled 1), o_FilledSize (ob_heap half_filled 1)) = (5000, 2000)"
    by code_simp
  then have o: "o_Size (ob_heap half_filled 1) = 5000" "o_FilledSize (ob_heap half_filled 1) = 2000"
    by auto
  have "ops_fit [OpAdd 201 100 5000 SELL, OpAdd 202 100 2000 BUY] (NewOrderBook ''BTC'')" by code_simp
  then have "book_inv half_filled"
    unfolding half_filled_def run_ops_def by (rule ops_fit_inv) (rule NewOrderBook_inv)
  then have "level_ok (ob_heap half_filled) SELL 100 lv"
    using level_okD(1) [of "book_levels half_filled" _ _ SELL] lv(1)
    unfolding book_inv_def book_levels_def by blast
  from validate_adds_filled_volume [OF this] lv o show ?thesis
    by (simp add: PRICE_DECIMALS_def filled_def)
qed

end
