(* ===== verification/BookTree.thy ===== *)
theory BookTree
  imports OrderBook
begin

text \<open>
  The 16-ary hash tree over the price levels of a book (\<^verbatim>\<open>rebuildTree\<close>,
  \<^verbatim>\<open>buildSideTree\<close>, \<^verbatim>\<open>hashNode\<close>, \<^verbatim>\<open>hashPriceLevel\<close>,
  \<^verbatim>\<open>GetSideHashes\<close>, \<^verbatim>\<open>collectTreeStats\<close> of \<^verbatim>\<open>verkle-orderbook/main.go\<close>).
  A child is a Go interface value: empty, a price level or a node. BLAKE3 is the parameter \<open>H\<close>.
  The hash that \<^verbatim>\<open>hashNode\<close> also stores in the node and the metadata string are left out.
\<close>

subsection \<open>The tree\<close>

datatype node_type = NODE_ROOT | NODE_BUY_SIDE | NODE_SELL_SIDE | NODE_PRICE_GROUP | NODE_LEAF

datatype 'a vtree = VEmpty | VLevel 'a | VNode node_type "'a vtree list"

definition children16 :: "'a vtree list \<Rightarrow> 'a vtree list" where
  "children16 cs = cs @ replicate (VERKLE_WIDTH - length cs) VEmpty"

definition nonempty_levels :: "(u64 \<times> level) list \<Rightarrow> level list" where
  "nonempty_levels ls = filter (\<lambda>lv. l_TotalVolume lv > 0) (map snd ls)"

definition sorted_levels :: "(u64 \<times> level) list \<Rightarrow> node_type \<Rightarrow> level list" where
  "sorted_levels ls sideType =
    (if sideType = NODE_BUY_SIDE then sort_desc l_Price (nonempty_levels ls)
     else sort_key l_Price (nonempty_levels ls))"

definition price_group :: "nat \<Rightarrow> level list \<Rightarrow> nat \<Rightarrow> level vtree" where
  "price_group groupSize sortedLevels groupIdx =
    VNode NODE_PRICE_GROUP (children16 (map VLevel
      (take VERKLE_WIDTH (take groupSize (drop (groupIdx * groupSize) sortedLevels)))))"

definition buildSideTree :: "(u64 \<times> level) list \<Rightarrow> node_type \<Rightarrow> level vtree" where
  "buildSideTree ls sideType =
    (let sortedLevels = sorted_levels ls sideType; n = length sortedLevels;
         groupSize = (n + VERKLE_WIDTH - 1) div VERKLE_WIDTH
     in VNode sideType (children16
          (if n \<le> VERKLE_WIDTH then map VLevel sortedLevels
           else map (price_group groupSize sortedLevels)
                  (takeWhile (\<lambda>g. g * groupSize < n) [0..<VERKLE_WIDTH]))))"

definition rebuildTree :: "book \<Rightarrow> level vtree" where
  "rebuildTree ob = VNode NODE_ROOT (children16
    [if length (ob_BuyLevels ob) > 0 then buildSideTree (ob_BuyLevels ob) NODE_BUY_SIDE else VEmpty,
     if length (ob_SellLevels ob) > 0 then buildSideTree (ob_SellLevels ob) NODE_SELL_SIDE else VEmpty])"

subsection \<open>Hashes and statistics\<close>

definition level_bytes :: "level \<Rightarrow> bytes" where
  "level_bytes lv = be_bytes 8 (l_Price lv) @ be_bytes 8 (l_TotalVolume lv)
    @ concat (map (\<lambda>s. be_bytes 8 (s_Volume s)) (l_Slots lv))"

definition hashPriceLevel :: "(bytes \<Rightarrow> bytes) \<Rightarrow> level \<Rightarrow> bytes" where
  "hashPriceLevel H lv = arr32 (H (level_bytes lv))"

primrec node_type_byte :: "node_type \<Rightarrow> u8" where
  "node_type_byte NODE_ROOT = 0"
| "node_type_byte NODE_BUY_SIDE = 1"
| "node_type_byte NODE_SELL_SIDE = 2"
| "node_type_byte NODE_PRICE_GROUP = 3"
| "node_type_byte NODE_LEAF = 4"

fun hashNode :: "(bytes \<Rightarrow> bytes) \<Rightarrow> level vtree \<Rightarrow> bytes" where
  "hashNode H VEmpty = zero32"
| "hashNode H (VLevel lv) = hashPriceLevel H lv"
| "hashNode H (VNode t cs) = arr32 (H (node_type_byte t # concat (map (hashNode H) cs)))"

definition computeRootHash :: "(bytes \<Rightarrow> bytes) \<Rightarrow> book \<Rightarrow> bytes" where
  "computeRootHash H ob = hashNode H (rebuildTree ob)"

definition GetSideHashes :: "(bytes \<Rightarrow> bytes) \<Rightarrow> book \<Rightarrow> bytes \<times> bytes" where
  "GetSideHashes H ob =
    (case rebuildTree ob of
       VNode _ cs \<Rightarrow> (hashNode H (cs ! 0), hashNode H (cs ! 1))
     | _ \<Rightarrow> (zero32, zero32))"

record tree_stats =
  ts_TotalNodes :: nat
  ts_PriceLevels :: nat
  ts_TotalOrders :: nat
  ts_TotalVolume :: u64

definition add_stats :: "tree_stats \<Rightarrow> tree_stats \<Rightarrow> tree_stats" where
  "add_stats a b = \<lparr>ts_TotalNodes = ts_TotalNodes a + ts_TotalNodes b,
     ts_PriceLevels = ts_PriceLevels a + ts_PriceLevels b,
     ts_TotalOrders = ts_TotalOrders a + ts_TotalOrders b,
     ts_TotalVolume = ts_TotalVolume a + ts_TotalVolume b\<rparr>"

fun collectTreeStats :: "level vtree \<Rightarrow> tree_stats" where
  "collectTreeStats VEmpty = \<lparr>ts_TotalNodes = 0, ts_PriceLevels = 0, ts_TotalOrders = 0, ts_TotalVolume = 0\<rparr>"
| "collectTreeStats (VLevel lv) = \<lparr>ts_TotalNodes = 1, ts_PriceLevels = 1,
     ts_TotalOrders = sum_list (map (\<lambda>s. length (s_Orders s)) (l_Slots lv)),
     ts_TotalVolume = l_TotalVolume lv\<rparr>"
| "collectTreeStats (VNode t cs) = foldl add_stats
     \<lparr>ts_TotalNodes = 1, ts_PriceLevels = 0, ts_TotalOrders = 0, ts_TotalVolume = 0\<rparr>
     (map collectTreeStats cs)"

subsection \<open>What the tree holds\<close>

fun leaves :: "'a vtree \<Rightarrow> 'a list" where
  "leaves VEmpty = []"
| "leaves (VLevel a) = [a]"
| "leaves (VNode t cs) = concat (map leaves cs)"

lemma concat_leaves_children16 [simp]: "concat (map leaves (children16 cs)) = concat (map leaves cs)"
  by (simp add: children16_def)

lemma leaves_levels [simp]: "concat (map (leaves \<circ> VLevel) xs) = xs"
  by (induction xs) auto

lemma concat_chunks: "concat (map (\<lambda>g. take m (drop (g * m) xs)) [0..<k]) = take (k * m) xs"
  by (induction k) (simp_all add: take_add [symmetric] add.commute)

lemma takeWhile_chunks:
  "concat (map (\<lambda>g. take m (drop (g * m) xs)) (takeWhile (\<lambda>g. g * m < length xs) [0..<k]))
    = take (k * m) xs"
proof (induction k)
  case (Suc k)
  show ?case
  proof (cases "\<forall>g\<in>set [0..<k]. g * m < length xs")
    case True
    then have "takeWhile (\<lambda>g. g * m < length xs) [0..<k] = [0..<k]" by (simp add: takeWhile_eq_all_conv)
    with True show ?thesis
      by (auto simp: concat_chunks takeWhile_append take_add [symmetric] add.commute)
  next
    case False
    then obtain g where g: "g < k" "length xs \<le> g * m" by (auto simp: not_less)
    then have "length xs \<le> k * m" by (meson less_imp_le_nat mult_le_mono1 order_trans)
    moreover have "takeWhile (\<lambda>g. g * m < length xs) ([0..<k] @ [k])
        = takeWhile (\<lambda>g. g * m < length xs) [0..<k]"
      using False by (auto simp: takeWhile_append1)
    ultimately show ?thesis using Suc.IH by simp
  qed
qed simp

lemma leaves_price_group:
  "leaves (price_group m xs g) = take VERKLE_WIDTH (take m (drop (g * m) xs))"
  by (simp add: price_group_def)

lemma length_sorted_levels: "length (sorted_levels ls sd) = length (nonempty_levels ls)"
  by (simp add: sorted_levels_def)

text \<open>A side with at most 256 non-empty price levels is committed completely: the leaves of
  \<^verbatim>\<open>buildSideTree\<close> are exactly its non-empty levels in price order, whether they hang
  directly below the side node or in groups.\<close>

theorem side_tree_commits_all:
  assumes "length (nonempty_levels ls) \<le> 256"
  shows "leaves (buildSideTree ls sideType) = sorted_levels ls sideType"
proof -
  let ?xs = "sorted_levels ls sideType"
  let ?m = "(15 + length ?xs) div 16"
  have n: "length ?xs \<le> 256" using assms by (simp add: length_sorted_levels)
  then have "?m \<le> 16" and all: "length ?xs \<le> 16 * ?m" by linarith+
  then have "leaves \<circ> price_group ?m ?xs = (\<lambda>g. take ?m (drop (g * ?m) ?xs))"
    by (simp add: fun_eq_iff leaves_price_group VERKLE_WIDTH_def min.absorb2)
  with all takeWhile_chunks [of ?m ?xs 16] show ?thesis
    by (simp add: buildSideTree_def Let_def VERKLE_WIDTH_def)
qed

definition one_level :: "(u64 \<times> level) list" where
  "one_level = [(100, getPriceLevelFromPool\<lparr>l_Price := 100, l_TotalVolume := 7\<rparr>)]"

lemma side_tree_commits_all_witness:
  "map l_Price (leaves (buildSideTree one_level NODE_BUY_SIDE)) = [100]"
proof -
  have "length (nonempty_levels one_level) \<le> 256" by (simp add: one_level_def nonempty_levels_def)
  from side_tree_commits_all [OF this] show ?thesis
    by (simp add: sorted_levels_def nonempty_levels_def one_level_def sort_desc_def)
qed

lemma sum_list_le: "(\<And>x. x \<in> set xs \<Longrightarrow> f x \<le> (b::nat)) \<Longrightarrow> sum_list (map f xs) \<le> length xs * b"
proof (induction xs)
  case (Cons x xs)
  then have "f x \<le> b" "sum_list (map f xs) \<le> length xs * b" by auto
  then show ?case by simp
qed simp

text \<open>Beyond 256 levels the tree forgets: whatever the side holds, at most 256 levels are
  leaves, so a side with more non-empty levels has some that its hash does not cover.\<close>

theorem side_tree_holds_at_most_256: "length (leaves (buildSideTree ls sideType)) \<le> 256"
proof -
  let ?xs = "sorted_levels ls sideType"
  let ?m = "(15 + length ?xs) div 16"
  let ?gs = "takeWhile (\<lambda>g. g * ?m < length ?xs) [0..<16]"
  have "length (concat (map leaves (map (price_group ?m ?xs) ?gs)))
      = sum_list (map (\<lambda>g. length (leaves (price_group ?m ?xs g))) ?gs)"
    by (simp add: length_concat comp_def)
  also have "\<dots> \<le> length ?gs * 16"
    by (rule sum_list_le) (simp add: leaves_price_group VERKLE_WIDTH_def)
  also have "length ?gs \<le> 16" using length_takeWhile_le [of _ "[0..<16]"] by simp
  finally show ?thesis
    by (auto simp: buildSideTree_def Let_def VERKLE_WIDTH_def)
qed

subsection \<open>The root hash binds the committed levels\<close>

text \<open>What the hash sees of a level, and the trees that the code builds: every node has 16
  children and every level 16 slots.\<close>

definition level_view :: "level \<Rightarrow> u64 \<times> u64 \<times> u64 list" where
  "level_view lv = (l_Price lv, l_TotalVolume lv, map s_Volume (l_Slots lv))"

fun tree_shape :: "level vtree \<Rightarrow> bool" where
  "tree_shape VEmpty \<longleftrightarrow> True"
| "tree_shape (VLevel lv) \<longleftrightarrow> length (l_Slots lv) = VERKLE_WIDTH"
| "tree_shape (VNode t cs) \<longleftrightarrow> length cs = VERKLE_WIDTH \<and> (\<forall>c\<in>set cs. tree_shape c)"

text \<open>
  Every byte string that hashing a tree feeds to the hash function, and what is asked of it: on
  those strings there is no collision and no digest is zero, the hash of an empty child.
\<close>

fun hash_inputs :: "(bytes \<Rightarrow> bytes) \<Rightarrow> level vtree \<Rightarrow> bytes list" where
  "hash_inputs H VEmpty = []"
| "hash_inputs H (VLevel lv) = [level_bytes lv]"
| "hash_inputs H (VNode t cs) =
    (node_type_byte t # concat (map (hashNode H) cs)) # concat (map (hash_inputs H) cs)"

definition collision_free :: "(bytes \<Rightarrow> bytes) \<Rightarrow> bytes set \<Rightarrow> bool" where
  "collision_free H X \<longleftrightarrow> (\<forall>x\<in>X. \<forall>y\<in>X. H x = H y \<longrightarrow> x = y) \<and> (\<forall>x\<in>X. H x \<noteq> zero32)"

lemma concat_fixed_inject:
  assumes "\<forall>x\<in>set xs \<union> set ys. length x = n" "length xs = length ys" "concat xs = concat ys"
  shows "xs = ys"
  using assms(2,1,3) by (induction xs ys rule: list_induct2) auto

lemma map_inject_word:
  "map (\<lambda>s. be_bytes 8 (s_Volume s)) xs = map (\<lambda>s. be_bytes 8 (s_Volume s)) ys \<Longrightarrow>
    map s_Volume xs = map s_Volume ys"
  by (induction xs arbitrary: ys) auto

lemma level_bytes_inject:
  assumes "length (l_Slots a) = length (l_Slots b)" "level_bytes a = level_bytes b"
  shows "level_view a = level_view b"
proof -
  have "map (\<lambda>s. be_bytes 8 (s_Volume s)) (l_Slots a) = map (\<lambda>s. be_bytes 8 (s_Volume s)) (l_Slots b)"
    by (rule concat_fixed_inject [of _ _ 8]) (use assms in \<open>auto simp: level_bytes_def\<close>)
  then have "map s_Volume (l_Slots a) = map s_Volume (l_Slots b)"
    by (rule map_inject_word)
  with assms(2) show ?thesis by (simp add: level_bytes_def level_view_def)
qed

lemma length_level_bytes: "length (level_bytes lv) = 16 + 8 * length (l_Slots lv)"
  by (simp add: level_bytes_def length_concat comp_def sum_list_triv)

lemma length_hashNode: "digest H \<Longrightarrow> length (hashNode H t) = 32"
  by (cases t) (simp_all add: hashPriceLevel_def)

lemma node_type_byte_inject [simp]: "node_type_byte s = node_type_byte t \<longleftrightarrow> s = t"
  by (cases s; cases t) simp_all

lemma hashNode_binds:
  assumes H: "digest H" and free: "collision_free H X"
    and "set (hash_inputs H a) \<subseteq> X" "set (hash_inputs H b) \<subseteq> X"
    and "tree_shape a" "tree_shape b" "hashNode H a = hashNode H b"
  shows "map_vtree level_view a = map_vtree level_view b"
  using assms(3-)
proof (induction a arbitrary: b)
  case VEmpty
  show ?case
  proof (cases "b = VEmpty")
    case False
    then obtain x where "hashNode H b = arr32 (H x)" "x \<in> set (hash_inputs H b)"
      by (cases b) (auto simp: hashPriceLevel_def)
    with VEmpty.prems H have "H x = zero32" "x \<in> X" by (auto simp: digest_def)
    with free show ?thesis by (auto simp: collision_free_def)
  qed simp
next
  case (VLevel lv)
  have inj: "x = y" if "H x = H y" "x \<in> X" "y \<in> X" for x y using that free by (auto simp: collision_free_def)
  show ?case
  proof (cases b)
    case VEmpty
    with VLevel.prems H have "H (level_bytes lv) = zero32" "level_bytes lv \<in> X"
      by (simp_all add: hashPriceLevel_def digest_def)
    with free show ?thesis by (auto simp: collision_free_def)
  next
    case b: (VLevel lv')
    have "H (level_bytes lv) = H (level_bytes lv')" "level_bytes lv \<in> X" "level_bytes lv' \<in> X"
      using VLevel.prems b H by (simp_all add: hashPriceLevel_def digest_def)
    then have "level_bytes lv = level_bytes lv'" by (rule inj)
    then have "level_view lv = level_view lv'"
      using VLevel.prems b by (intro level_bytes_inject) simp_all
    with b show ?thesis by simp
  next
    case b: (VNode t cs)
    let ?x = "node_type_byte t # concat (map (hashNode H) cs)"
    have "H (level_bytes lv) = H ?x" "level_bytes lv \<in> X" "?x \<in> X"
      using VLevel.prems b H by (simp_all add: hashPriceLevel_def digest_def)
    then have "level_bytes lv = ?x" by (rule inj)
    from arg_cong [OF this, of length] VLevel.prems b length_hashNode [OF H] show ?thesis
      by (simp add: length_level_bytes length_concat comp_def sum_list_triv VERKLE_WIDTH_def)
  qed
next
  case (VNode t cs)
  have inj: "x = y" if "H x = H y" "x \<in> X" "y \<in> X" for x y using that free by (auto simp: collision_free_def)
  show ?case
  proof (cases b)
    case VEmpty
    let ?x = "node_type_byte t # concat (map (hashNode H) cs)"
    from VEmpty VNode.prems H have "H ?x = zero32" "?x \<in> X" by (simp_all add: digest_def)
    with free show ?thesis by (auto simp: collision_free_def)
  next
    case b: (VLevel lv)
    let ?x = "node_type_byte t # concat (map (hashNode H) cs)"
    have "H ?x = H (level_bytes lv)" "?x \<in> X" "level_bytes lv \<in> X"
      using VNode.prems b H by (simp_all add: hashPriceLevel_def digest_def)
    then have "?x = level_bytes lv" by (rule inj)
    from arg_cong [OF this, of length] VNode.prems b length_hashNode [OF H] show ?thesis
      by (simp add: length_level_bytes length_concat comp_def sum_list_triv VERKLE_WIDTH_def)
  next
    case b: (VNode t' cs')
    let ?x = "node_type_byte t # concat (map (hashNode H) cs)"
      and ?y = "node_type_byte t' # concat (map (hashNode H) cs')"
    have "H ?x = H ?y" "?x \<in> X" "?y \<in> X"
      using VNode.prems b H by (simp_all add: digest_def)
    then have eq: "?x = ?y" by (rule inj)
    have len: "length cs = length cs'" using VNode.prems b by simp
    have hs: "map (hashNode H) cs = map (hashNode H) cs'"
      by (rule concat_fixed_inject [of _ _ 32]) (use eq len length_hashNode [OF H] in auto)
    have "map_vtree level_view (cs ! i) = map_vtree level_view (cs' ! i)" if i: "i < length cs" for i
    proof (rule VNode.IH)
      show "cs ! i \<in> set cs" using i by simp
      show "hashNode H (cs ! i) = hashNode H (cs' ! i)"
        using arg_cong [OF hs, of "\<lambda>xs. xs ! i"] i len by simp
      have m: "cs ! i \<in> set cs" "cs' ! i \<in> set cs'" using i len by simp_all
      then show "set (hash_inputs H (cs ! i)) \<subseteq> X" "set (hash_inputs H (cs' ! i)) \<subseteq> X"
        "tree_shape (cs ! i)" "tree_shape (cs' ! i)"
        using VNode.prems b by auto
    qed
    then have "map (map_vtree level_view) cs = map (map_vtree level_view) cs'"
      using len by (simp add: list_eq_iff_nth_eq)
    with eq b show ?thesis by simp
  qed
qed

lemma tree_shape_side:
  assumes "\<forall>(p, lv)\<in>set ls. length (l_Slots lv) = VERKLE_WIDTH"
  shows "tree_shape (buildSideTree ls sideType)"
proof -
  let ?xs = "sorted_levels ls sideType"
  have shape: "length (l_Slots lv) = VERKLE_WIDTH" if "lv \<in> set ?xs" for lv
    using that assms by (auto simp: sorted_levels_def nonempty_levels_def split: if_splits)
  have "tree_shape (price_group m ?xs g)" for m g
    using shape by (auto simp: price_group_def children16_def dest!: in_set_takeD in_set_dropD)
  moreover have "length (takeWhile P [0..<VERKLE_WIDTH]) \<le> VERKLE_WIDTH" for P
    using length_takeWhile_le [of P "[0..<VERKLE_WIDTH]"] by simp
  ultimately show ?thesis
    using shape by (auto simp: buildSideTree_def Let_def children16_def)
qed

lemma leaves_map: "leaves (map_vtree f t) = map f (leaves t)"
  by (induction t) (auto simp: map_concat comp_def intro: arg_cong [of _ _ concat])

text \<open>C30. The root hash is a commitment: if two books with at most 256 non-empty levels a side have
  the same root hash, and hashing the two trees met neither a collision nor a zero digest, then each
  side shows the same sequence of prices, level volumes and slot volumes in both.\<close>

theorem root_hash_binds_levels:
  assumes H: "digest H" and eq: "computeRootHash H ob = computeRootHash H ob'"
    and slots: "\<forall>(p, lv)\<in>set (ob_BuyLevels ob @ ob_SellLevels ob @ ob_BuyLevels ob' @ ob_SellLevels ob').
      length (l_Slots lv) = VERKLE_WIDTH"
    and small: "length (nonempty_levels (ob_BuyLevels ob)) \<le> 256" "length (nonempty_levels (ob_SellLevels ob)) \<le> 256"
      "length (nonempty_levels (ob_BuyLevels ob')) \<le> 256" "length (nonempty_levels (ob_SellLevels ob')) \<le> 256"
    and free: "collision_free H (set (hash_inputs H (rebuildTree ob) @ hash_inputs H (rebuildTree ob')))"
  shows "map level_view (sorted_levels (ob_BuyLevels ob) NODE_BUY_SIDE)
        = map level_view (sorted_levels (ob_BuyLevels ob') NODE_BUY_SIDE)
    \<and> map level_view (sorted_levels (ob_SellLevels ob) NODE_SELL_SIDE)
        = map level_view (sorted_levels (ob_SellLevels ob') NODE_SELL_SIDE)"
proof -
  let ?side = "\<lambda>ls st. if length ls > 0 then buildSideTree ls st else (VEmpty :: level vtree)"
  have shape: "tree_shape (?side ls st)" if "\<forall>(p, lv)\<in>set ls. length (l_Slots lv) = VERKLE_WIDTH" for ls st
    using tree_shape_side [OF that] by simp
  have "tree_shape (rebuildTree b)" if "b = ob \<or> b = ob'" for b
    using that slots
    by (auto simp: rebuildTree_def children16_def VERKLE_WIDTH_def [symmetric] intro!: tree_shape_side)
      (auto simp: VERKLE_WIDTH_def)
  then have "map_vtree level_view (rebuildTree ob) = map_vtree level_view (rebuildTree ob')"
    using hashNode_binds [OF H free] eq by (simp add: computeRootHash_def)
  then have sides: "map_vtree level_view (?side (ob_BuyLevels ob) NODE_BUY_SIDE)
        = map_vtree level_view (?side (ob_BuyLevels ob') NODE_BUY_SIDE)"
    "map_vtree level_view (?side (ob_SellLevels ob) NODE_SELL_SIDE)
        = map_vtree level_view (?side (ob_SellLevels ob') NODE_SELL_SIDE)"
    unfolding rebuildTree_def children16_def vtree.map by simp_all
  have lv: "leaves (?side ls st) = sorted_levels ls st" if "length (nonempty_levels ls) \<le> 256" for ls st
    using side_tree_commits_all [OF that] by (simp add: sorted_levels_def nonempty_levels_def sort_desc_def)
  show ?thesis
    using arg_cong [OF sides(1), of leaves] arg_cong [OF sides(2), of leaves]
    unfolding leaves_map lv [OF small(1)] lv [OF small(2)] lv [OF small(3)] lv [OF small(4)] by simp
qed

definition sample_hash :: "bytes \<Rightarrow> bytes" where
  "sample_hash x = replicate 32 (of_nat (length x) + x ! 0)"

definition one_level_book :: "string \<Rightarrow> book" where
  "one_level_book symbol = NewOrderBook symbol\<lparr>ob_BuyLevels := one_level\<rparr>"

lemma root_hash_binds_levels_witness:
  "map level_view (sorted_levels (ob_BuyLevels (one_level_book ''A'')) NODE_BUY_SIDE)
    = map level_view (sorted_levels (ob_BuyLevels (one_level_book ''B'')) NODE_BUY_SIDE)"
proof -
  have tree: "rebuildTree (one_level_book s) = VNode NODE_ROOT (children16
      [VNode NODE_BUY_SIDE (children16 [VLevel (snd (hd one_level))]), VEmpty])" for s
    by (simp add: rebuildTree_def one_level_book_def NewOrderBook_def one_level_def buildSideTree_def
        sorted_levels_def nonempty_levels_def sort_desc_def VERKLE_WIDTH_def)
  have d: "digest sample_hash" by (simp add: digest_def sample_hash_def)
  have len: "length (concat (map (hashNode sample_hash) (children16 cs))) = 512" if "length cs \<le> 16" for cs
    using that length_hashNode [OF d]
    by (simp add: length_concat comp_def sum_list_triv children16_def VERKLE_WIDTH_def sum_list_replicate)
  let ?l = "snd (hd one_level)"
  let ?b = "concat (map (hashNode sample_hash) (children16 [VLevel ?l]))"
  let ?r = "concat (map (hashNode sample_hash) (children16 [VNode NODE_BUY_SIDE (children16 [VLevel ?l]), VEmpty]))"
  have inputs: "set (hash_inputs sample_hash (rebuildTree (one_level_book s))) = {0 # ?r, 1 # ?b, level_bytes ?l}" for s
    unfolding tree by (simp add: children16_def)
  have first: "be_bytes 8 (100 :: u64) ! 0 = 0" by code_simp
  have "level_bytes ?l ! 0 = be_bytes 8 (100 :: u64) ! 0"
    by (simp only: level_bytes_def nth_append length_be_bytes) (simp add: one_level_def)
  with first have lb: "length (level_bytes ?l) = 144" "level_bytes ?l ! 0 = 0"
    by (simp_all add: length_level_bytes one_level_def getPriceLevelFromPool_def VERKLE_WIDTH_def)
  have hs: "sample_hash (0 # ?r) = replicate 32 1" "sample_hash (1 # ?b) = replicate 32 2"
    "sample_hash (level_bytes ?l) = replicate 32 144"
    using len lb by (simp_all add: sample_hash_def)
  have free: "collision_free sample_hash {0 # ?r, 1 # ?b, level_bytes ?l}"
    using hs by (auto simp: collision_free_def zero32_def)
  have slots: "\<forall>(p, lv)\<in>set (ob_BuyLevels (one_level_book s) @ ob_SellLevels (one_level_book s)).
      length (l_Slots lv) = VERKLE_WIDTH" for s
    by (simp add: one_level_book_def one_level_def NewOrderBook_def getPriceLevelFromPool_def)
  have small: "length (nonempty_levels (ob_BuyLevels (one_level_book s))) \<le> 256"
    "length (nonempty_levels (ob_SellLevels (one_level_book s))) \<le> 256" for s
    by (simp_all add: one_level_book_def one_level_def NewOrderBook_def nonempty_levels_def)
  have roots: "computeRootHash sample_hash (one_level_book ''A'')
      = computeRootHash sample_hash (one_level_book ''B'')"
    by (simp only: computeRootHash_def tree)
  have all: "set (hash_inputs sample_hash (rebuildTree (one_level_book ''A''))
      @ hash_inputs sample_hash (rebuildTree (one_level_book ''B''))) = {0 # ?r, 1 # ?b, level_bytes ?l}"
    unfolding set_append inputs by simp
  have both: "\<forall>(p, lv)\<in>set (ob_BuyLevels (one_level_book ''A'') @ ob_SellLevels (one_level_book ''A'')
      @ ob_BuyLevels (one_level_book ''B'') @ ob_SellLevels (one_level_book ''B'')).
      length (l_Slots lv) = VERKLE_WIDTH"
    using slots [of "''A''"] slots [of "''B''"] unfolding set_append ball_Un by blast
  show ?thesis
    using root_hash_binds_levels [OF d roots both small small] free unfolding all by blast
qed

end
