(* ===== verification/NodeTree.thy ===== *)
theory NodeTree
  imports Models
begin

text \<open>
  The node tree of \<^verbatim>\<open>mt-manager/merkletree/tree.go\<close>: \<^verbatim>\<open>insertNode\<close>, \<^verbatim>\<open>deleteNode\<close> (with and without
  per-node locks) and \<^verbatim>\<open>computeNodeHash\<close>.

  Every node has one parent, so the pointer structure is a tree and a \<open>node\<close> is a value;
  \<open>nd_kids\<close> pairs the parallel slices \<^verbatim>\<open>Keys\<close> and \<^verbatim>\<open>Children\<close>. The zero value of the item type is
  \<open>None\<close>. An operation returns \<open>None\<close> where the code panics: \<^verbatim>\<open>key[depth]\<close> beyond the
  8 bytes of a key, or a method call on the zero item. The parameters are the hash function
  \<open>h\<close>, the item interface \<open>H\<close>, the maximal depth \<open>D\<close> and the hash \<open>del\<close> of a deleted
  leaf. The goroutines of \<^verbatim>\<open>computeNodeHash\<close> each hash one child, so they are a plain recursion
  here; which strategy runs depends on the number \<open>N\<close> of processors, and is modelled.
\<close>

subsection \<open>Nodes\<close>

datatype 'a node =
  Node (nd_Hash: bytes) (nd_kids: "(u8 \<times> 'a node) list") (nd_Value: "'a option") (nd_IsLeaf: bool) (nd_dirty: bool)

definition alloc :: "'a node" where
  "alloc = Node zero32 [] None False False"

definition new_leaf :: "'a \<Rightarrow> 'a node" where
  "new_leaf item = Node zero32 [] (Some item) True True"

fun set_value :: "'a \<Rightarrow> 'a node \<Rightarrow> 'a node" where
  "set_value item (Node hs kids v lf d) = Node hs kids (Some item) lf True"

fun kill_leaf :: "bytes \<Rightarrow> 'a node \<Rightarrow> 'a node" where
  "kill_leaf del (Node hs kids v lf d) = (if lf then Node del kids None lf False else Node hs kids v lf d)"

definition last_key :: "'a hashable \<Rightarrow> 'a \<Rightarrow> u8" where
  "last_key H item = h_Key H item ! (length (h_Key H item) - 1)"

text \<open>\<open>done_ins\<close> is what an insertion did: the node, how often \<^verbatim>\<open>dirtyNodes\<close> was incremented and
  how many nodes were allocated.\<close>

type_synonym 'a done_ins = "'a node \<times> nat \<times> nat"

function insertNode :: "'a hashable \<Rightarrow> int \<Rightarrow> 'a \<Rightarrow> nat \<Rightarrow> 'a node \<Rightarrow> 'a done_ins option" where
  "insertNode H D item depth (Node hs kids v lf d) =
    (if int depth \<ge> D - 1 then
       let idx = last_key H item
       in case map_of kids idx of
            Some child \<Rightarrow> Some (Node hs (AList.update idx (set_value item child) kids) v lf True, 1, 0)
          | None \<Rightarrow> Some (Node hs (kids @ [(idx, new_leaf item)]) v lf True, 1, 1)
     else if depth \<ge> length (h_Key H item) then None
     else
       let idx = h_Key H item ! depth
       in case map_of kids idx of
            Some child \<Rightarrow>
              map_option (\<lambda>(c, n, a). (Node hs (AList.update idx c kids) v lf True, n + 1, a))
                (insertNode H D item (depth + 1) child)
          | None \<Rightarrow>
              map_option (\<lambda>(c, n, a). (Node hs (kids @ [(idx, c)]) v lf True, n + 1, a + 1))
                (insertNode H D item (depth + 1) alloc))"
  by pat_completeness auto
termination by (relation "measure (\<lambda>(H, D, item, depth, n). nat (D - int depth))") auto

text \<open>The copy that runs under the tree's lock.\<close>

function insertNodeUnderGlobalLock ::
    "'a hashable \<Rightarrow> int \<Rightarrow> 'a \<Rightarrow> nat \<Rightarrow> 'a node \<Rightarrow> 'a done_ins option" where
  "insertNodeUnderGlobalLock H D item depth (Node hs kids v lf d) =
    (if int depth \<ge> D - 1 then
       let idx = last_key H item
       in case map_of kids idx of
            Some child \<Rightarrow> Some (Node hs (AList.update idx (set_value item child) kids) v lf True, 1, 0)
          | None \<Rightarrow> Some (Node hs (kids @ [(idx, new_leaf item)]) v lf True, 1, 1)
     else if depth \<ge> length (h_Key H item) then None
     else
       let idx = h_Key H item ! depth
       in case map_of kids idx of
            Some child \<Rightarrow>
              map_option (\<lambda>(c, n, a). (Node hs (AList.update idx c kids) v lf True, n + 1, a))
                (insertNodeUnderGlobalLock H D item (depth + 1) child)
          | None \<Rightarrow>
              map_option (\<lambda>(c, n, a). (Node hs (kids @ [(idx, c)]) v lf True, n + 1, a + 1))
                (insertNodeUnderGlobalLock H D item (depth + 1) alloc))"
  by pat_completeness auto
termination by (relation "measure (\<lambda>(H, D, item, depth, n). nat (D - int depth))") auto

text \<open>\<open>done_del\<close>: the node, the increments of \<^verbatim>\<open>dirtyNodes\<close> and of \<^verbatim>\<open>deletedNodeCount\<close>.\<close>

type_synonym 'a done_del = "'a node \<times> nat \<times> nat"

function deleteNode :: "'a hashable \<Rightarrow> bytes \<Rightarrow> int \<Rightarrow> 'a \<Rightarrow> nat \<Rightarrow> 'a node \<Rightarrow> 'a done_del option" where
  "deleteNode H del D item depth (Node hs kids v lf d) =
    (if int depth \<ge> D - 1 then
       let idx = last_key H item
       in case map_of kids idx of
            Some child \<Rightarrow>
              Some (Node hs (AList.update idx (kill_leaf del child) kids) v lf True, 1,
                if nd_IsLeaf child then 1 else 0)
          | None \<Rightarrow> Some (Node hs kids v lf d, 0, 0)
     else if depth \<ge> length (h_Key H item) then None
     else
       let idx = h_Key H item ! depth
       in case map_of kids idx of
            Some child \<Rightarrow>
              map_option (\<lambda>(c, n, k). (Node hs (AList.update idx c kids) v lf True, n + 1, k))
                (deleteNode H del D item (depth + 1) child)
          | None \<Rightarrow> Some (Node hs kids v lf d, 0, 0))"
  by pat_completeness auto
termination by (relation "measure (\<lambda>(H, del, D, item, depth, n). nat (D - int depth))") auto

text \<open>The variant without locks skips a child that is not a leaf and marks nothing then.\<close>

function deleteNodeUnderGlobalLock ::
    "'a hashable \<Rightarrow> bytes \<Rightarrow> int \<Rightarrow> 'a \<Rightarrow> nat \<Rightarrow> 'a node \<Rightarrow> 'a done_del option" where
  "deleteNodeUnderGlobalLock H del D item depth (Node hs kids v lf d) =
    (if int depth \<ge> D - 1 then
       let idx = last_key H item
       in case map_of kids idx of
            Some child \<Rightarrow>
              if nd_IsLeaf child then
                Some (Node hs (AList.update idx (kill_leaf del child) kids) v lf True, 1, 1)
              else Some (Node hs kids v lf d, 0, 0)
          | None \<Rightarrow> Some (Node hs kids v lf d, 0, 0)
     else if depth \<ge> length (h_Key H item) then None
     else
       let idx = h_Key H item ! depth
       in case map_of kids idx of
            Some child \<Rightarrow>
              map_option (\<lambda>(c, n, k). (Node hs (AList.update idx c kids) v lf True, n + 1, k))
                (deleteNodeUnderGlobalLock H del D item (depth + 1) child)
          | None \<Rightarrow> Some (Node hs kids v lf d, 0, 0))"
  by pat_completeness auto
termination by (relation "measure (\<lambda>(H, del, D, item, depth, n). nat (D - int depth))") auto

subsection \<open>Hashing\<close>

definition branch_hash :: "(bytes \<Rightarrow> bytes) \<Rightarrow> (u8 \<times> bytes) list \<Rightarrow> bytes" where
  "branch_hash h khs = arr32 (h (concat (map (\<lambda>(k, hash). k # hash) (sort_key fst khs))))"

text \<open>\<^verbatim>\<open>collectLeaves\<close> and \<^verbatim>\<open>computeLeafHashesBatch\<close>: hash the leaves below some nodes in advance.
  A leaf that is dirty or has no hash is hashed and marked clean.\<close>

fun count_leaves :: "'a node \<Rightarrow> nat"
and count_kid_leaves :: "(u8 \<times> 'a node) list \<Rightarrow> nat" where
  "count_leaves (Node hs kids v lf d) = (if lf then 1 else count_kid_leaves kids)"
| "count_kid_leaves [] = 0"
| "count_kid_leaves ((k, c) # kids) = count_leaves c + count_kid_leaves kids"

fun hash_leaves :: "'a hashable \<Rightarrow> 'a node \<Rightarrow> 'a node option"
and hash_kid_leaves :: "'a hashable \<Rightarrow> (u8 \<times> 'a node) list \<Rightarrow> (u8 \<times> 'a node) list option" where
  "hash_leaves H (Node hs kids v lf d) =
    (if lf then
       if d \<or> hs = zero32 then
         case v of None \<Rightarrow> None | Some x \<Rightarrow> Some (Node (h_Hash H x) kids v lf False)
       else Some (Node hs kids v lf d)
     else case hash_kid_leaves H kids of None \<Rightarrow> None | Some kids' \<Rightarrow> Some (Node hs kids' v lf d))"
| "hash_kid_leaves H [] = Some []"
| "hash_kid_leaves H ((k, c) # kids) =
    (case hash_leaves H c of
       None \<Rightarrow> None
     | Some c' \<Rightarrow> case hash_kid_leaves H kids of None \<Rightarrow> None | Some kids' \<Rightarrow> Some ((k, c') # kids'))"

lemma size_hash_leaves [termination_simp]:
  "hash_leaves H n = Some n' \<Longrightarrow> size n' = size n"
  "hash_kid_leaves H kids = Some kids' \<Longrightarrow>
    size_list (size_prod (\<lambda>_. 0) size) kids' = size_list (size_prod (\<lambda>_. 0) size) kids"
  by (induction H n and H kids arbitrary: n' and kids' rule: hash_leaves_hash_kid_leaves.induct)
    (auto split: if_splits option.splits)

definition use_batch :: "nat \<Rightarrow> int \<Rightarrow> bool \<Rightarrow> nat \<Rightarrow> nat \<Rightarrow> bool" where
  "use_batch numCPU D allowParallel depth n \<longleftrightarrow>
    allowParallel \<and> int depth \<ge> D - 4 \<and> n \<ge> 6 \<and> numCPU > 8"

definition use_parallel :: "nat \<Rightarrow> bool \<Rightarrow> nat \<Rightarrow> nat \<Rightarrow> bool" where
  "use_parallel numCPU allowParallel depth n \<longleftrightarrow> allowParallel \<and> depth < 2 \<and> n \<ge> 4 \<and> numCPU > 1"

definition run_batch :: "'a hashable \<Rightarrow> bool \<Rightarrow> (u8 \<times> 'a node) list \<Rightarrow> (u8 \<times> 'a node) list option" where
  "run_batch H batch kids = (if batch then hash_kid_leaves H kids else Some kids)"

text \<open>The hash of a child is taken from the batch (\<^verbatim>\<open>computeNodeHashWithCache\<close>) if the child is
  one of the leaves just hashed.\<close>

function computeNodeHash :: "(bytes \<Rightarrow> bytes) \<Rightarrow> 'a hashable \<Rightarrow> nat \<Rightarrow> int \<Rightarrow> nat \<Rightarrow> bool \<Rightarrow>
    'a node \<Rightarrow> (bytes \<times> 'a node) option"
and compute_kids :: "(bytes \<Rightarrow> bytes) \<Rightarrow> 'a hashable \<Rightarrow> nat \<Rightarrow> int \<Rightarrow> nat \<Rightarrow> bool \<Rightarrow> bool \<Rightarrow>
    (u8 \<times> 'a node) list \<Rightarrow> (u8 \<times> bytes \<times> 'a node) list option" where
  "computeNodeHash h H N D depth par (Node hs kids v lf d) =
    (if \<not> d \<and> hs \<noteq> zero32 then Some (hs, Node hs kids v lf d)
     else if lf then
       case v of None \<Rightarrow> None | Some x \<Rightarrow> Some (h_Hash H x, Node (h_Hash H x) kids v lf False)
     else if length kids = 0 then Some (zero32, Node hs kids v lf d)
     else
       let batch = use_batch N D par depth (length kids) \<and> count_kid_leaves kids \<ge> 16
       in case run_batch H batch kids of
            None \<Rightarrow> None
          | Some kids1 \<Rightarrow>
              case compute_kids h H N D (depth + 1) (use_parallel N par depth (length kids)) batch kids1 of
                None \<Rightarrow> None
              | Some ks \<Rightarrow>
                  let result = branch_hash h (map (\<lambda>(k, hash, c). (k, hash)) ks)
                  in Some (result, Node result (map (\<lambda>(k, hash, c). (k, c)) ks) v lf False))"
| "compute_kids h H N D depth par batch [] = Some []"
| "compute_kids h H N D depth par batch ((k, c) # kids) =
    (case (if batch \<and> nd_IsLeaf c then Some (nd_Hash c, c) else computeNodeHash h H N D depth par c) of
       None \<Rightarrow> None
     | Some (hash, c') \<Rightarrow>
         case compute_kids h H N D depth par batch kids of
           None \<Rightarrow> None
         | Some ks \<Rightarrow> Some ((k, hash, c') # ks))"
  by pat_completeness auto
termination
  by (relation "measure (case_sum (\<lambda>(h, H, N, D, depth, par, n). size n)
      (\<lambda>(h, H, N, D, depth, par, batch, kids). size_list (size_prod (\<lambda>_. 0) size) kids))")
    (auto simp: run_batch_def size_hash_leaves(2) split: if_splits)

text \<open>\<^verbatim>\<open>countDeletedNodes\<close> asks every leaf for its ID; a deleted leaf has no item to ask.\<close>

fun countDeletedNodes :: "'a hashable \<Rightarrow> 'a node \<Rightarrow> nat option"
and count_deleted_kids :: "'a hashable \<Rightarrow> (u8 \<times> 'a node) list \<Rightarrow> nat option" where
  "countDeletedNodes H (Node hs kids v lf d) =
    (if lf then case v of None \<Rightarrow> None | Some x \<Rightarrow> Some (if h_ID H x = 0 then 1 else 0)
     else count_deleted_kids H kids)"
| "count_deleted_kids H [] = Some 0"
| "count_deleted_kids H ((k, c) # kids) =
    (case countDeletedNodes H c of
       None \<Rightarrow> None
     | Some n \<Rightarrow> case count_deleted_kids H kids of None \<Rightarrow> None | Some m \<Rightarrow> Some (n + m))"

end
