(* ===== verification/NodeSpec.thy ===== *)
theory NodeSpec
  imports NodeTree
begin

text \<open>
  What the node tree means. A key selects a path of bytes; \<open>find\<close> follows a path;
  \<open>trie_root\<close> is the root hash computed from scratch from a list of paths with their leaf
  hashes. \<open>node_ok\<close> is the invariant that makes the cached hashes trustworthy: a node that is
  clean and has a hash has the hash of its contents. The lemmas say what each operation does to
  the contents and that the operations keep the invariant.
\<close>

subsection \<open>Paths\<close>

definition path_of :: "'a hashable \<Rightarrow> int \<Rightarrow> 'a \<Rightarrow> u8 list" where
  "path_of H D item = take (nat (D - 1)) (h_Key H item) @ [last_key H item]"

text \<open>The depths for which no key of 8 bytes is read out of range.\<close>

definition depth_fits :: "'a hashable \<Rightarrow> int \<Rightarrow> 'a \<Rightarrow> bool" where
  "depth_fits H D item \<longleftrightarrow> D - 1 \<le> int (length (h_Key H item))"

fun find :: "u8 list \<Rightarrow> 'a node \<Rightarrow> 'a node option" where
  "find [] n = Some n"
| "find (k # p) n = (case map_of (nd_kids n) k of None \<Rightarrow> None | Some c \<Rightarrow> find p c)"

fun ins_path :: "u8 list \<Rightarrow> 'a \<Rightarrow> 'a node \<Rightarrow> 'a node" where
  "ins_path [] item n = set_value item n"
| "ins_path (k # p) item (Node hs kids v lf d) =
    Node hs (AList.update k (ins_path p item
      (case map_of kids k of Some c \<Rightarrow> c | None \<Rightarrow> Node zero32 [] None (p = []) False)) kids) v lf True"

fun del_path :: "bytes \<Rightarrow> u8 list \<Rightarrow> 'a node \<Rightarrow> 'a node" where
  "del_path del [] n = kill_leaf del n"
| "del_path del (k # p) (Node hs kids v lf d) =
    (case map_of kids k of None \<Rightarrow> Node hs kids v lf d
     | Some c \<Rightarrow> Node hs (AList.update k (del_path del p c) kids) v lf True)"

lemma length_path_of: "depth_fits H D item \<Longrightarrow> length (path_of H D item) = Suc (nat (D - 1))"
  by (simp add: path_of_def depth_fits_def)

lemma drop_path_of:
  assumes "depth_fits H D item"
  shows "int depth \<ge> D - 1 \<Longrightarrow> depth \<le> nat (D - 1) \<Longrightarrow> drop depth (path_of H D item) = [last_key H item]"
    "int depth < D - 1 \<Longrightarrow> depth < length (h_Key H item)"
    "int depth < D - 1 \<Longrightarrow> drop depth (path_of H D item) =
      h_Key H item ! depth # drop (Suc depth) (path_of H D item)"
proof -
  show l: "int depth < D - 1 \<Longrightarrow> depth < length (h_Key H item)"
    using assms by (simp add: depth_fits_def)
  show "int depth \<ge> D - 1 \<Longrightarrow> depth \<le> nat (D - 1) \<Longrightarrow> drop depth (path_of H D item) = [last_key H item]"
    using assms by (simp add: path_of_def depth_fits_def)
  assume "int depth < D - 1"
  then have d: "depth < nat (D - 1)" by simp
  then have "path_of H D item ! depth = h_Key H item ! depth"
    using assms by (simp add: path_of_def nth_append depth_fits_def)
  then show "drop depth (path_of H D item) = h_Key H item ! depth # drop (Suc depth) (path_of H D item)"
    using d length_path_of [OF assms] Cons_nth_drop_Suc [of depth "path_of H D item"] by simp
qed

lemma insertNode_path:
  assumes "depth_fits H D item" "depth \<le> nat (D - 1)"
  shows "\<exists>a. insertNode H D item depth n =
    Some (ins_path (drop depth (path_of H D item)) item n, length (drop depth (path_of H D item)), a)"
  using assms
proof (induction H D item depth n rule: insertNode.induct)
  case (1 H D item depth hs kids v lf d)
  show ?case
  proof (cases "int depth \<ge> D - 1")
    case True
    have "new_leaf item = set_value item (Node zero32 [] None True False)" by (simp add: new_leaf_def)
    then show ?thesis
      using True 1(3,4) drop_path_of(1) [OF 1(3)]
      by (cases "map_of kids (last_key H item)") (simp_all add: Let_def update_new)
  next
    case False
    note dp = drop_path_of(2,3) [OF 1(3), of depth]
    have ne: "drop (Suc depth) (path_of H D item) \<noteq> []"
      using length_path_of [OF 1(3)] False by simp
    have le: "depth + 1 \<le> nat (D - 1)" using False by simp
    have len: "length (drop depth (path_of H D item)) = Suc (length (drop (Suc depth) (path_of H D item)))"
      using dp False by simp
    show ?thesis
    proof (cases "map_of kids (h_Key H item ! depth)")
      case None
      with 1(1) [OF _ _ refl None 1(3) le] False dp obtain a where
        "insertNode H D item (depth + 1) alloc = Some (ins_path (drop (Suc depth) (path_of H D item)) item alloc,
          length (drop (Suc depth) (path_of H D item)), a)" by auto
      then show ?thesis
        using None False dp ne len
        by (simp add: Let_def update_new alloc_def)
    next
      case (Some c)
      with 1(2) [OF _ _ refl Some 1(3) le] False dp obtain a where
        "insertNode H D item (depth + 1) c = Some (ins_path (drop (Suc depth) (path_of H D item)) item c,
          length (drop (Suc depth) (path_of H D item)), a)" by auto
      then show ?thesis using Some False dp ne len by (auto simp: Let_def)
    qed
  qed
qed

lemma insertNode_global_lock: "insertNodeUnderGlobalLock H D item depth n = insertNode H D item depth n"
  by (induction H D item depth n rule: insertNode.induct) (auto simp: Let_def split: option.split)

lemma deleteNode_path:
  assumes "depth_fits H D item" "depth \<le> nat (D - 1)"
  shows "\<exists>m. deleteNode H del D item depth n =
    Some (del_path del (drop depth (path_of H D item)) n, m,
      case find (drop depth (path_of H D item)) n of Some l \<Rightarrow> if nd_IsLeaf l then 1 else 0 | None \<Rightarrow> 0)"
  using assms
proof (induction H del D item depth n rule: deleteNode.induct)
  case (1 H del D item depth hs kids v lf d)
  show ?case
  proof (cases "int depth \<ge> D - 1")
    case True
    then show ?thesis
      using 1(2,3) drop_path_of(1) [OF 1(2)]
      by (cases "map_of kids (last_key H item)") (simp_all add: Let_def)
  next
    case False
    note dp = drop_path_of(2,3) [OF 1(2), of depth]
    have le: "depth + 1 \<le> nat (D - 1)" using False by simp
    show ?thesis
    proof (cases "map_of kids (h_Key H item ! depth)")
      case None
      then show ?thesis using False dp by (simp add: Let_def)
    next
      case (Some c)
      with 1(1) [OF _ _ refl Some 1(2) le] False dp show ?thesis by (auto simp: Let_def)
    qed
  qed
qed

subsection \<open>Contents and the invariant\<close>

definition leaf_hash :: "'a hashable \<Rightarrow> bytes \<Rightarrow> 'a option \<Rightarrow> bytes" where
  "leaf_hash H del v = (case v of None \<Rightarrow> del | Some x \<Rightarrow> h_Hash H x)"

primrec fresh :: "(bytes \<Rightarrow> bytes) \<Rightarrow> 'a hashable \<Rightarrow> bytes \<Rightarrow> 'a node \<Rightarrow> bytes" where
  "fresh h H del (Node hs kids v lf d) =
    (if lf then leaf_hash H del v
     else if kids = [] then zero32
     else branch_hash h (map (map_prod id (fresh h H del)) kids))"

fun node_ok :: "(bytes \<Rightarrow> bytes) \<Rightarrow> 'a hashable \<Rightarrow> bytes \<Rightarrow> nat \<Rightarrow> 'a node \<Rightarrow> bool" where
  "node_ok h H del 0 n \<longleftrightarrow> nd_IsLeaf n \<and> nd_kids n = [] \<and> (nd_Value n = None \<longrightarrow> \<not> nd_dirty n \<and> nd_Hash n = del)
    \<and> (\<not> nd_dirty n \<and> nd_Hash n \<noteq> zero32 \<longrightarrow> nd_Hash n = leaf_hash H del (nd_Value n))"
| "node_ok h H del (Suc m) n \<longleftrightarrow> \<not> nd_IsLeaf n \<and> nd_Value n = None \<and> distinct (map fst (nd_kids n))
    \<and> (\<forall>kc\<in>set (nd_kids n). node_ok h H del m (snd kc) \<and> (nd_kids (snd kc) = [] \<longrightarrow> m = 0))
    \<and> (\<not> nd_dirty n \<and> nd_Hash n \<noteq> zero32 \<longrightarrow> nd_Hash n = fresh h H del n)"

text \<open>The item at a path: \<open>Some None\<close> is a deleted leaf.\<close>

definition value_at :: "'a node \<Rightarrow> u8 list \<Rightarrow> 'a option option" where
  "value_at n p = map_option nd_Value (find p n)"

lemma value_at_simps [simp]:
  "value_at n [] = Some (nd_Value n)"
  "value_at n (k # p) = (case map_of (nd_kids n) k of None \<Rightarrow> None | Some c \<Rightarrow> value_at c p)"
  by (simp_all add: value_at_def split: option.split)

lemma node_ok_leaf: "node_ok h H del m n \<Longrightarrow> nd_IsLeaf n \<longleftrightarrow> m = 0"
  by (cases m) auto

lemma node_ok_child:
  "node_ok h H del (Suc m) n \<Longrightarrow> map_of (nd_kids n) k = Some c \<Longrightarrow> node_ok h H del m c"
  by (metis map_of_SomeD node_ok.simps(2) snd_conv)

lemma kids_value_at: "map_of kids k = Some c \<Longrightarrow> k \<in> fst ` set kids"
  by (auto dest: map_of_SomeD simp: rev_image_eqI)

lemma node_ok_ins:
  assumes "node_ok h H del m n \<or> (if m = 0 then nd_IsLeaf n \<and> nd_kids n = [] else n = alloc)" "length p = m"
  shows "node_ok h H del m (ins_path p item n) \<and> (m \<noteq> 0 \<longrightarrow> nd_kids (ins_path p item n) \<noteq> [])"
  using assms
proof (induction p item n arbitrary: m rule: ins_path.induct)
  case (1 item n)
  then show ?case by (cases n) (auto split: if_splits)
next
  case (2 k p item hs kids v lf d)
  obtain m' where m: "m = Suc m'" "length p = m'" using 2(3) by (cases m) auto
  let ?c = "case map_of kids k of Some c \<Rightarrow> c | None \<Rightarrow> Node zero32 [] None (p = []) False"
  have ok: "\<not> lf" "v = None" "distinct (map fst kids)"
    "\<forall>kc\<in>set kids. node_ok h H del m' (snd kc) \<and> (nd_kids (snd kc) = [] \<longrightarrow> m' = 0)"
    using 2(2) m by (auto simp: alloc_def)
  have "node_ok h H del m' ?c \<or> (if m' = 0 then nd_IsLeaf ?c \<and> nd_kids ?c = [] else ?c = alloc)"
  proof (cases "map_of kids k")
    case (Some c)
    then show ?thesis using ok(4) by (force dest: map_of_SomeD)
  qed (use m in \<open>auto simp: alloc_def\<close>)
  from 2(1) [OF this m(2)] ok show ?case
    by (auto simp: m(1) set_alist_update distinct_update)
qed

lemma node_ok_del:
  assumes "node_ok h H del m n" "length p = m"
  shows "node_ok h H del m (del_path del p n) \<and> (nd_kids (del_path del p n) = [] \<longleftrightarrow> nd_kids n = [])"
  using assms
proof (induction del p n arbitrary: m rule: del_path.induct)
  case (1 del n)
  then show ?case by (cases n) (auto simp: leaf_hash_def)
next
  case (2 del k p hs kids v lf d)
  obtain m' where m: "m = Suc m'" "length p = m'" using 2(3) by (cases m) auto
  show ?case
  proof (cases "map_of kids k")
    case (Some c)
    have "node_ok h H del m' c" using node_ok_child [OF 2(2) [unfolded m(1)], of k] Some by simp
    moreover have "nd_kids c = [] \<longrightarrow> m' = 0" using 2(2) m Some by (force dest: map_of_SomeD)
    ultimately show ?thesis
      using 2(1) [OF Some _ m(2)] 2(2) Some
      by (auto simp: m(1) set_alist_update distinct_update)
  qed (use 2 in simp)
qed

lemma value_at_ins:
  "length p = length q \<Longrightarrow> value_at (ins_path p item n) q = (if q = p then Some (Some item) else value_at n q)"
proof (induction p item n arbitrary: q rule: ins_path.induct)
  case (1 item n)
  then show ?case by (cases n) simp
next
  case (2 k p item hs kids v lf d)
  obtain j r where q: "q = j # r" "length p = length r" using 2(2) by (cases q) auto
  have "value_at (Node zero32 [] None b False :: 'a node) r = None" if "r \<noteq> []" for b :: bool
    using that by (cases r) auto
  then show ?case using 2(1) [OF q(2)] q by (cases "r = []") (auto split: option.split)
qed

lemma value_at_del:
  "length p = length q \<Longrightarrow> node_ok h H del (length q) n \<Longrightarrow> value_at (del_path del p n) q =
    (if q = p \<and> value_at n p \<noteq> None then Some None else value_at n q)"
proof (induction del p n arbitrary: q rule: del_path.induct)
  case (1 del n)
  then show ?case by (cases n) auto
next
  case (2 del k p hs kids v lf d)
  obtain j r where q: "q = j # r" "length p = length r" using 2(2) by (cases q) auto
  show ?case
  proof (cases "map_of kids k")
    case (Some c)
    from node_ok_child [OF 2(3) [unfolded q(1) length_Cons], of k] Some
    have "node_ok h H del (length r) c" by simp
    then show ?thesis using 2(1) [OF Some q(2)] q Some by auto
  qed (use q in simp)
qed

subsection \<open>Computing hashes\<close>

text \<open>\<open>rehashed\<close>: the node that \<^verbatim>\<open>computeNodeHash\<close> leaves has the same contents and a
  trustworthy cache.\<close>

definition rehashed :: "(bytes \<Rightarrow> bytes) \<Rightarrow> 'a hashable \<Rightarrow> bytes \<Rightarrow> nat \<Rightarrow> 'a node \<Rightarrow> 'a node \<Rightarrow> bool" where
  "rehashed h H del m n n' \<longleftrightarrow> node_ok h H del m n' \<and> value_at n' = value_at n
    \<and> (nd_kids n' = [] \<longleftrightarrow> nd_kids n = []) \<and> fresh h H del n' = fresh h H del n"

abbreviation rehashed_kids where
  "rehashed_kids h H del m \<equiv> list_all2 (\<lambda>kc kc'. fst kc' = fst kc \<and> rehashed h H del m (snd kc) (snd kc'))"

lemma list_all2_map_of:
  "list_all2 (\<lambda>a b. fst b = fst a \<and> P (snd a) (snd b)) xs ys \<Longrightarrow> rel_option P (map_of xs k) (map_of ys k)"
  by (induction rule: list_all2_induct) auto

lemma rehashed_kidsD:
  assumes "rehashed_kids h H del m kids cs"
  shows "map fst cs = map fst kids" "map (map_prod id (fresh h H del)) cs = map (map_prod id (fresh h H del)) kids"
    "\<forall>kc\<in>set cs. node_ok h H del m (snd kc)"
    "(\<forall>kc\<in>set kids. nd_kids (snd kc) = [] \<longrightarrow> m = 0) \<Longrightarrow> (\<forall>kc\<in>set cs. nd_kids (snd kc) = [] \<longrightarrow> m = 0)"
    "cs = [] \<longleftrightarrow> kids = []"
  using assms by (induction rule: list_all2_induct) (auto simp: rehashed_def map_prod_def split: prod.splits)

lemma rehashed_trans:
  "rehashed h H del m n n' \<Longrightarrow> rehashed h H del m n' n'' \<Longrightarrow> rehashed h H del m n n''"
  by (simp add: rehashed_def)

lemma rehashed_kids_trans:
  "rehashed_kids h H del m xs ys \<Longrightarrow> rehashed_kids h H del m ys zs \<Longrightarrow> rehashed_kids h H del m xs zs"
  by (rule list_all2_trans [of "\<lambda>kc kc'. fst kc' = fst kc \<and> rehashed h H del m (snd kc) (snd kc')"
      "\<lambda>kc kc'. fst kc' = fst kc \<and> rehashed h H del m (snd kc) (snd kc')"]) (auto intro: rehashed_trans)

lemma rehashed_node:
  assumes cs: "rehashed_kids h H del m kids cs" and n: "node_ok h H del (Suc m) (Node hs kids v lf d)"
    and ne: "kids \<noteq> []"
    and hs': "\<not> d' \<and> hs' \<noteq> zero32 \<Longrightarrow> hs' = branch_hash h (map (map_prod id (fresh h H del)) cs)"
  shows "rehashed h H del (Suc m) (Node hs kids v lf d) (Node hs' cs v lf d')"
proof -
  note D = rehashed_kidsD [OF cs]
  have "value_at (Node hs' cs v lf d') p = value_at (Node hs kids v lf d) p" for p
  proof (cases p)
    case (Cons k q)
    from list_all2_map_of [of "rehashed h H del m", OF cs, of k] show ?thesis
      by (cases rule: option.rel_cases) (auto simp: Cons rehashed_def)
  qed simp
  then show ?thesis
    using n ne D hs' by (auto simp: rehashed_def)
qed

lemma value_at_no_kids: "value_at (Node hs [] v lf d) p = (if p = [] then Some v else None)"
  by (cases p) auto

lemma rehashed_refl: "node_ok h H del m n \<Longrightarrow> rehashed h H del m n n"
  by (simp add: rehashed_def)

lemma leaf_rehashed:
  assumes "node_ok h H del m (Node hs kids v True d)" "v = Some x"
  shows "rehashed h H del m (Node hs kids v True d) (Node (h_Hash H x) kids v True False)"
  using assms node_ok_leaf [OF assms(1)]
  by (auto simp: rehashed_def leaf_hash_def fun_eq_iff value_at_no_kids)

text \<open>Hashing leaves in advance; afterwards the hash of every leaf is right.\<close>

definition leaf_hashed :: "(bytes \<Rightarrow> bytes) \<Rightarrow> 'a hashable \<Rightarrow> bytes \<Rightarrow> 'a node \<Rightarrow> bool" where
  "leaf_hashed h H del n \<longleftrightarrow> (nd_IsLeaf n \<longrightarrow> nd_Hash n = fresh h H del n)"

lemma clean_leaf:
  assumes "node_ok h H del m (Node hs kids v True d)" "\<not> (d \<or> hs = zero32) \<or> v = None"
  shows "hs = fresh h H del (Node hs kids v True d)"
  using assms node_ok_leaf [OF assms(1)] by (auto simp: leaf_hash_def)

lemma dirty_leaf:
  assumes "node_ok h H del m (Node hs kids v True d)" "d \<or> hs = zero32" "del \<noteq> zero32"
  obtains x where "v = Some x"
  using assms node_ok_leaf [OF assms(1)] by (cases v) auto

lemma hash_leaves_ok:
  assumes del: "del \<noteq> zero32"
  shows "node_ok h H del m n \<Longrightarrow> \<exists>n'. hash_leaves H n = Some n' \<and> rehashed h H del m n n' \<and> leaf_hashed h H del n'"
    "\<forall>kc\<in>set kids. node_ok h H del m (snd kc) \<Longrightarrow> \<exists>cs. hash_kid_leaves H kids = Some cs
      \<and> rehashed_kids h H del m kids cs \<and> (\<forall>kc\<in>set cs. leaf_hashed h H del (snd kc))"
proof (induction H n and H kids arbitrary: m and m rule: hash_leaves_hash_kid_leaves.induct)
  case (1 H hs kids v lf d)
  show ?case
  proof (cases lf)
    case True
    show ?thesis
    proof (cases "d \<or> hs = zero32")
      case dirty: True
      obtain x where "v = Some x" using dirty_leaf [of h H del m hs kids v d] 1(2) True dirty del by auto
      then show ?thesis using leaf_rehashed [of h H del m hs kids v d x] 1(2) True dirty
        by (simp add: leaf_hashed_def leaf_hash_def)
    next
      case False
      then show ?thesis
        using True rehashed_refl [OF 1(2)] clean_leaf [of h H del m hs kids v d] 1(2) by (auto simp: leaf_hashed_def)
    qed
  next
    case False
    obtain m' where m: "m = Suc m'" using 1(2) False by (cases m) auto
    from 1(1) [OF False, of m'] 1(2) m obtain cs where
      cs: "hash_kid_leaves H kids = Some cs" "rehashed_kids h H del m' kids cs" by auto
    have "rehashed h H del m (Node hs kids v lf d) (Node hs cs v lf d)"
    proof (cases "kids = []")
      case True
      then show ?thesis using cs(2) rehashed_refl [OF 1(2)] by simp
    next
      case ne: False
      then show ?thesis
        using rehashed_node [OF cs(2), of hs v lf d d hs] 1(2) m False rehashed_kidsD(2) [OF cs(2)] by simp
    qed
    then show ?thesis using False cs(1) by (simp add: leaf_hashed_def)
  qed
next
  case (3 H k c kids)
  from 3(1) [of m] 3(3) obtain c' where
    c': "hash_leaves H c = Some c'" "rehashed h H del m c c'" "leaf_hashed h H del c'" by auto
  from 3(2) [OF c'(1), of m] 3(3) c' show ?case by auto
qed simp

lemma computeNodeHash_ok:
  assumes del: "del \<noteq> zero32"
  shows "node_ok h H del m n \<Longrightarrow>
    \<exists>n'. computeNodeHash h H N D depth par n = Some (fresh h H del n, n') \<and> rehashed h H del m n n'"
  "\<forall>kc\<in>set kids. node_ok h H del m (snd kc) \<and> (batch \<longrightarrow> leaf_hashed h H del (snd kc)) \<Longrightarrow>
    \<exists>cs. compute_kids h H N D depth par batch kids = Some (map (\<lambda>(k, c). (k, fresh h H del c, c)) cs)
      \<and> rehashed_kids h H del m kids cs"
proof (induction h H N D depth par n and h H N D depth par batch kids arbitrary: m and m rule: computeNodeHash_compute_kids.induct)
  case (1 h H N D depth par hs kids v lf d)
  consider (clean) "\<not> d \<and> hs \<noteq> zero32" | (leaf) "d \<or> hs = zero32" lf | (empty) "d \<or> hs = zero32" "\<not> lf" "kids = []"
    | (branch) "d \<or> hs = zero32" "\<not> lf" "kids \<noteq> []" by blast
  then show ?case
  proof cases
    case clean
    have "hs = fresh h H del (Node hs kids v lf d)"
      using 1(2) clean by (cases m) (auto simp: leaf_hash_def split: if_splits)
    then show ?thesis using clean rehashed_refl [OF 1(2)] by simp
  next
    case leaf
    obtain x where x: "v = Some x" using dirty_leaf [of h H del m hs kids v d] 1(2) leaf del by auto
    have "\<not> (\<not> d \<and> hs \<noteq> zero32)" using leaf by simp
    then show ?thesis using x leaf(2) leaf_rehashed [of h H del m hs kids v d x] 1(2)
      by (simp add: leaf_hash_def del: de_Morgan_conj)
  next
    case empty
    then show ?thesis using rehashed_refl [OF 1(2)] by simp
  next
    case branch
    obtain m' where m: "m = Suc m'" using 1(2) branch by (cases m) auto
    define batch where "batch \<longleftrightarrow> use_batch N D par depth (length kids) \<and> 16 \<le> count_kid_leaves kids"
    have kids: "\<forall>kc\<in>set kids. node_ok h H del m' (snd kc)" using 1(2) m by simp
    obtain kids1 where k1: "run_batch H batch kids = Some kids1" "rehashed_kids h H del m' kids kids1"
      "batch \<longrightarrow> (\<forall>kc\<in>set kids1. leaf_hashed h H del (snd kc))"
    proof (cases batch)
      case True
      with hash_leaves_ok(2) [OF del kids] that show ?thesis by (auto simp: run_batch_def)
    next
      case False
      moreover have "rehashed_kids h H del m' kids kids" using kids by (auto simp: list_all2_same rehashed_refl)
      ultimately show ?thesis using that by (simp add: run_batch_def)
    qed
    have "\<forall>kc\<in>set kids1. node_ok h H del m' (snd kc) \<and> (batch \<longrightarrow> leaf_hashed h H del (snd kc))"
      using rehashed_kidsD(3) [OF k1(2)] k1(3) by auto
    with 1(1) [of batch kids1 m'] branch k1(1) obtain cs where
      ks: "compute_kids h H N D (depth + 1) (use_parallel N par depth (length kids)) batch kids1
        = Some (map (\<lambda>(k, c). (k, fresh h H del c, c)) cs)"
      and cs1: "rehashed_kids h H del m' kids1 cs" by (auto simp: batch_def)
    have cs: "rehashed_kids h H del m' kids cs" using rehashed_kids_trans [OF k1(2) cs1] .
    have maps: "map (\<lambda>(k, hash, c). (k, hash)) (map (\<lambda>(k, c). (k, fresh h H del c, c)) cs)
        = map (map_prod id (fresh h H del)) cs"
      "map (\<lambda>(k, hash, c). (k, c)) (map (\<lambda>(k, c). (k, fresh h H del c, c)) cs) = cs"
      by (auto intro!: map_idI)
    have out: "computeNodeHash h H N D depth par (Node hs kids v lf d) =
      Some (branch_hash h (map (map_prod id (fresh h H del)) cs),
        Node (branch_hash h (map (map_prod id (fresh h H del)) cs)) cs v lf False)"
    proof -
      have "(\<not> d \<and> hs \<noteq> zero32) = False" "lf = False" "(length kids = 0) = False" using branch by auto
      then show ?thesis
        by (simp only: computeNodeHash.simps if_False Let_def batch_def [symmetric] k1(1) ks option.case maps)
    qed
    have "branch_hash h (map (map_prod id (fresh h H del)) cs) = fresh h H del (Node hs kids v lf d)"
      using branch rehashed_kidsD(2) [OF cs] by simp
    moreover have "rehashed h H del m (Node hs kids v lf d)
        (Node (branch_hash h (map (map_prod id (fresh h H del)) cs)) cs v lf False)"
      unfolding m by (rule rehashed_node [OF cs 1(2) [unfolded m] branch(3)]) (rule refl)
    ultimately show ?thesis unfolding out by metis
  qed
next
  case (3 h H N D depth par batch k c kids)
  have "\<exists>c'. (if batch \<and> nd_IsLeaf c then Some (nd_Hash c, c) else computeNodeHash h H N D depth par c)
      = Some (fresh h H del c, c') \<and> rehashed h H del m c c'"
  proof (cases "batch \<and> nd_IsLeaf c")
    case True
    then show ?thesis using 3(3) rehashed_refl by (auto simp: leaf_hashed_def)
  next
    case False
    then show ?thesis using 3(1) [OF False, of m] 3(3) by auto
  qed
  then obtain c' where c': "(if batch \<and> nd_IsLeaf c then Some (nd_Hash c, c) else computeNodeHash h H N D depth par c)
      = Some (fresh h H del c, c')" "rehashed h H del m c c'" by blast
  from 3(2) [OF c'(1) refl, of m] 3(3) obtain cs where
    "compute_kids h H N D depth par batch kids = Some (map (\<lambda>(k, c). (k, fresh h H del c, c)) cs)"
    "rehashed_kids h H del m kids cs" by auto
  with c' show ?case by (intro exI [of _ "(k, c') # cs"]) (auto simp: rehashed_def)
qed simp

subsection \<open>The root from scratch\<close>

definition all_bytes :: "u8 list" where
  "all_bytes = map of_nat [0..<256]"

definition below :: "u8 \<Rightarrow> (u8 list \<times> bytes) list \<Rightarrow> (u8 list \<times> bytes) list" where
  "below k xs = map (\<lambda>(p, x). (tl p, x)) (filter (\<lambda>(p, x). p \<noteq> [] \<and> hd p = k) xs)"

text \<open>\<open>trie_root h m xs\<close>: the root over the leaves \<open>xs\<close> (paths of length \<open>m\<close> with
  their hashes), by grouping on the first byte in ascending order.\<close>

primrec trie_root :: "(bytes \<Rightarrow> bytes) \<Rightarrow> nat \<Rightarrow> (u8 list \<times> bytes) list \<Rightarrow> bytes" where
  "trie_root h 0 xs = the (map_of xs [])"
| "trie_root h (Suc m) xs =
    (let ks = filter (\<lambda>k. below k xs \<noteq> []) all_bytes
     in if ks = [] then zero32 else branch_hash h (map (\<lambda>k. (k, trie_root h m (below k xs))) ks))"

lemma set_all_bytes: "set all_bytes = UNIV"
proof -
  have "k = of_nat (unat k) \<and> unat k < 256" for k :: u8
    using unsigned_less [of k] by simp
  then have "k \<in> of_nat ` {0..<256}" for k :: u8 by (intro image_eqI [of _ _ "unat k"]) auto
  then show ?thesis by (auto simp: all_bytes_def)
qed

lemma distinct_all_bytes: "distinct all_bytes"
proof -
  have "inj_on (of_nat :: nat \<Rightarrow> u8) {0..<256}"
    by (auto intro!: inj_onI simp: of_nat_inverse dest: arg_cong [of _ _ "unat :: u8 \<Rightarrow> nat"])
  then show ?thesis by (simp add: all_bytes_def distinct_map)
qed

lemma map_of_below: "map_of (below k xs) p = map_of xs (k # p)"
proof (induction xs)
  case (Cons px xs)
  obtain q x where "px = (q, x)" by (cases px)
  with Cons show ?case by (cases q) (simp_all add: below_def)
qed (simp add: below_def)

lemma below_empty: "below k xs = [] \<longleftrightarrow> (\<forall>p. map_of xs (k # p) = None)"
  by (metis map_of_below map_of.simps(1) map_of_eq_empty_iff ext)

lemma trie_root_cong: "map_of xs = map_of ys \<Longrightarrow> trie_root h m xs = trie_root h m ys"
proof (induction m arbitrary: xs ys)
  case (Suc m)
  have "map_of (below k xs) = map_of (below k ys)" for k
    using Suc.prems by (simp add: fun_eq_iff map_of_below)
  then have "trie_root h m (below k xs) = trie_root h m (below k ys)" for k by (rule Suc.IH)
  moreover have "(below k xs \<noteq> []) = (below k ys \<noteq> [])" for k using Suc.prems by (simp add: below_empty)
  ultimately show ?case by (simp only: trie_root.simps)
qed simp

text \<open>The leaf hashes of a tree by path.\<close>

definition hash_at :: "'a hashable \<Rightarrow> bytes \<Rightarrow> 'a node \<Rightarrow> nat \<Rightarrow> u8 list \<Rightarrow> bytes option" where
  "hash_at H del n m p = (if length p = m then map_option (leaf_hash H del) (value_at n p) else None)"

lemma value_at_inhabited:
  "node_ok h H del m n \<Longrightarrow> (nd_kids n = [] \<longrightarrow> m = 0) \<Longrightarrow> \<exists>p. length p = m \<and> value_at n p \<noteq> None"
proof (induction m arbitrary: n)
  case (Suc m)
  then obtain k c kids where kc: "nd_kids n = (k, c) # kids" by (metis neq_Nil_conv prod.exhaust nat.distinct(1))
  with Suc.prems have "node_ok h H del m c" "nd_kids c = [] \<longrightarrow> m = 0" by auto
  with Suc.IH obtain p where "length p = m" "value_at c p \<noteq> None" by blast
  with kc show ?case by (intro exI [of _ "k # p"]) simp
qed simp

lemma fresh_trie_root:
  "node_ok h H del m n \<Longrightarrow> (\<And>p. map_of xs p = hash_at H del n m p) \<Longrightarrow> fresh h H del n = trie_root h m xs"
proof (induction m arbitrary: n xs)
  case 0
  then show ?case using 0(2) [of "[]"] by (cases n) (simp add: hash_at_def)
next
  case (Suc m)
  obtain hs kids v lf d where n: "n = Node hs kids v lf d" by (cases n)
  have ok: "\<not> lf" "distinct (map fst kids)" and kid: "\<And>k c. (k, c) \<in> set kids \<Longrightarrow> node_ok h H del m c \<and> (nd_kids c = [] \<longrightarrow> m = 0)"
    using Suc.prems(1) n by auto
  have sub: "map_of (below k xs) p = hash_at H del c m p" if "map_of kids k = Some c" for k c p
    using that Suc.prems(2) [of "k # p"] by (simp add: map_of_below n hash_at_def)
  have ks: "below k xs \<noteq> [] \<longleftrightarrow> k \<in> fst ` set kids" for k
  proof
    assume "below k xs \<noteq> []"
    then obtain p where "map_of xs (k # p) \<noteq> None" by (auto simp: below_empty)
    then show "k \<in> fst ` set kids"
      using Suc.prems(2) [of "k # p"] by (auto simp: n hash_at_def intro: kids_value_at split: if_splits option.splits)
  next
    assume "k \<in> fst ` set kids"
    then obtain c where c: "map_of kids k = Some c" by (metis map_of_eq_None_iff not_None_eq)
    then have "node_ok h H del m c \<and> (nd_kids c = [] \<longrightarrow> m = 0)" using kid map_of_SomeD by fast
    then obtain p where "length p = m" "value_at c p \<noteq> None" using value_at_inhabited by blast
    then have "map_of xs (k # p) \<noteq> None"
      using Suc.prems(2) [of "k # p"] c by (auto simp: n hash_at_def)
    then show "below k xs \<noteq> []" by (auto simp: below_empty)
  qed
  let ?ks = "filter (\<lambda>k. below k xs \<noteq> []) all_bytes"
  have set_ks: "set ?ks = fst ` set kids" by (auto simp: ks set_all_bytes)
  have IH: "fresh h H del c = trie_root h m (below k xs)" if "(k, c) \<in> set kids" for k c
    using Suc.IH [OF conjunct1 [OF kid [OF that]] sub] that ok(2) by simp
  have "set (map (map_prod id (fresh h H del)) kids) = set (map (\<lambda>k. (k, trie_root h m (below k xs))) ?ks)"
    unfolding set_map set_ks using IH by (force simp: image_iff)
  moreover have "distinct (map fst (map (map_prod id (fresh h H del)) kids))" using ok(2) by (simp add: comp_def)
  moreover have "distinct (map fst (map (\<lambda>k. (k, trie_root h m (below k xs))) ?ks))"
    using distinct_all_bytes by (simp add: comp_def)
  ultimately have "sort_key fst (map (map_prod id (fresh h H del)) kids)
      = sort_key fst (map (\<lambda>k. (k, trie_root h m (below k xs))) ?ks)"
    by (rule sort_key_unique)
  moreover have "?ks = [] \<longleftrightarrow> kids = []" using set_ks by (metis image_is_empty set_empty)
  ultimately show ?case using ok(1) by (simp add: n branch_hash_def Let_def)
qed

end
