(* ===== verification/Lru.thy ===== *)
theory Lru
  imports Prelude
begin

text \<open>
  The LRU cache of \<^verbatim>\<open>mt-manager/merkletree/cache_lru.go\<close> with its hand-linked list, and the
  sharded cache of \<^verbatim>\<open>cache_sharded.go\<close> on top of it.

  A \<^verbatim>\<open>*lruNode\<close> is an address into \<open>lc_nodes\<close>; \<open>lc_alloc\<close> is the next address.
  A value is an option, \<open>None\<close> being the zero value of \<^verbatim>\<open>T\<close>. Every exported method
  holds the mutex for its whole body (\<^verbatim>\<open>get\<close> takes it twice), so each is one state
  transformation. \<open>lru_list\<close> reads the linked list from the head; the refinement lemmas say
  that each method acts on it like the obvious list operation.
\<close>

subsection \<open>The linked list\<close>

record 'a lru_node =
  ln_id :: u64
  ln_value :: "'a option"
  ln_prev :: "nat option"
  ln_next :: "nat option"

record 'a lru =
  lc_cache :: "(u64 \<times> nat) list"
  lc_head :: "nat option"
  lc_tail :: "nat option"
  lc_capacity :: int
  lc_nodes :: "nat \<Rightarrow> 'a lru_node"
  lc_alloc :: nat

definition newLRUCache :: "int \<Rightarrow> 'a lru" where
  "newLRUCache capacity = \<lparr>lc_cache = [], lc_head = None, lc_tail = None, lc_capacity = capacity,
     lc_nodes = (\<lambda>_. \<lparr>ln_id = 0, ln_value = None, ln_prev = None, ln_next = None\<rparr>), lc_alloc = 0\<rparr>"

definition upd_node :: "nat \<Rightarrow> ('a lru_node \<Rightarrow> 'a lru_node) \<Rightarrow> 'a lru \<Rightarrow> 'a lru" where
  "upd_node p f c = c\<lparr>lc_nodes := (lc_nodes c)(p := f (lc_nodes c p))\<rparr>"

definition addToHead :: "nat \<Rightarrow> 'a lru \<Rightarrow> 'a lru" where
  "addToHead p c =
    (let c1 = upd_node p (\<lambda>n. n\<lparr>ln_next := lc_head c, ln_prev := None\<rparr>) c;
         c2 = (case lc_head c1 of None \<Rightarrow> c1 | Some h \<Rightarrow> upd_node h (\<lambda>n. n\<lparr>ln_prev := Some p\<rparr>) c1);
         c3 = c2\<lparr>lc_head := Some p\<rparr>
     in if lc_tail c3 = None then c3\<lparr>lc_tail := Some p\<rparr> else c3)"

definition removeNode :: "nat \<Rightarrow> 'a lru \<Rightarrow> 'a lru" where
  "removeNode p c =
    (let c1 = (case ln_prev (lc_nodes c p) of
                 Some q \<Rightarrow> upd_node q (\<lambda>n. n\<lparr>ln_next := ln_next (lc_nodes c p)\<rparr>) c
               | None \<Rightarrow> c\<lparr>lc_head := ln_next (lc_nodes c p)\<rparr>)
     in case ln_next (lc_nodes c1 p) of
          Some q \<Rightarrow> upd_node q (\<lambda>n. n\<lparr>ln_prev := ln_prev (lc_nodes c1 p)\<rparr>) c1
        | None \<Rightarrow> c1\<lparr>lc_tail := ln_prev (lc_nodes c1 p)\<rparr>)"

definition moveToHead :: "nat \<Rightarrow> 'a lru \<Rightarrow> 'a lru" where
  "moveToHead p c = (if lc_head c = Some p then c else addToHead p (removeNode p c))"

definition removeTail :: "'a lru \<Rightarrow> 'a lru" where
  "removeTail c = (case lc_tail c of
     None \<Rightarrow> c
   | Some p \<Rightarrow> removeNode p (c\<lparr>lc_cache := AList.delete (ln_id (lc_nodes c p)) (lc_cache c)\<rparr>))"

subsection \<open>The operations\<close>

definition lru_put :: "u64 \<Rightarrow> 'a \<Rightarrow> 'a lru \<Rightarrow> 'a lru" where
  "lru_put i item c = (case map_of (lc_cache c) i of
     Some p \<Rightarrow> moveToHead p (upd_node p (\<lambda>n. n\<lparr>ln_value := Some item\<rparr>) c)
   | None \<Rightarrow>
      (let p = lc_alloc c;
           node = \<lparr>ln_id = i, ln_value = Some item, ln_prev = None, ln_next = None\<rparr>;
           c1 = c\<lparr>lc_alloc := Suc p, lc_nodes := (lc_nodes c)(p := node),
                  lc_cache := AList.update i p (lc_cache c)\<rparr>;
           c2 = addToHead p c1
       in if int (length (lc_cache c2)) > lc_capacity c2 then removeTail c2 else c2))"

definition lru_get :: "u64 \<Rightarrow> 'a lru \<Rightarrow> 'a option \<times> 'a lru" where
  "lru_get i c = (case map_of (lc_cache c) i of
     None \<Rightarrow> (None, c)
   | Some p \<Rightarrow> let c' = moveToHead p c in (ln_value (lc_nodes c' p), c'))"

definition lru_tryGet :: "u64 \<Rightarrow> 'a lru \<Rightarrow> 'a option" where
  "lru_tryGet i c = (case map_of (lc_cache c) i of
     None \<Rightarrow> None | Some p \<Rightarrow> ln_value (lc_nodes c p))"

definition lru_delete :: "u64 \<Rightarrow> 'a lru \<Rightarrow> 'a lru" where
  "lru_delete i c = (case map_of (lc_cache c) i of
     None \<Rightarrow> c | Some p \<Rightarrow> removeNode p (c\<lparr>lc_cache := AList.delete i (lc_cache c)\<rparr>))"

definition lru_clear :: "'a lru \<Rightarrow> 'a lru" where
  "lru_clear c = c\<lparr>lc_cache := [], lc_head := None, lc_tail := None\<rparr>"

definition lru_size :: "'a lru \<Rightarrow> nat" where
  "lru_size c = length (lc_cache c)"

text \<open>The eviction loop of \<^verbatim>\<open>Resize\<close> does not end for a negative capacity: an empty cache
  has nothing to evict.\<close>

partial_function (option) evict_loop :: "int \<Rightarrow> 'a lru \<Rightarrow> 'a lru option" where
  "evict_loop newCapacity c =
    (if int (length (lc_cache c)) > newCapacity then evict_loop newCapacity (removeTail c) else Some c)"

definition lru_Resize :: "int \<Rightarrow> 'a lru \<Rightarrow> 'a lru option" where
  "lru_Resize newCapacity c =
    map_option (\<lambda>c'. c'\<lparr>lc_capacity := newCapacity\<rparr>)
      (if newCapacity < lc_capacity c then evict_loop newCapacity c else Some c)"

subsection \<open>The invariant\<close>

definition first_of :: "nat list \<Rightarrow> nat option \<Rightarrow> nat option" where
  "first_of ps d = (case ps of [] \<Rightarrow> d | p # _ \<Rightarrow> Some p)"

definition last_of :: "nat list \<Rightarrow> nat option \<Rightarrow> nat option" where
  "last_of ps d = (if ps = [] then d else Some (last ps))"

fun linked :: "(nat \<Rightarrow> 'a lru_node) \<Rightarrow> nat option \<Rightarrow> nat list \<Rightarrow> nat option \<Rightarrow> bool" where
  "linked h pr [] nx \<longleftrightarrow> True"
| "linked h pr (p # ps) nx \<longleftrightarrow> ln_prev (h p) = pr \<and> ln_next (h p) = first_of ps nx \<and> linked h (Some p) ps nx"

definition ids :: "(nat \<Rightarrow> 'a lru_node) \<Rightarrow> nat list \<Rightarrow> u64 list" where
  "ids h ps = map (\<lambda>p. ln_id (h p)) ps"

definition chain :: "'a lru \<Rightarrow> nat list \<Rightarrow> bool" where
  "chain c ps \<longleftrightarrow> linked (lc_nodes c) None ps None \<and> distinct ps
    \<and> lc_head c = first_of ps None \<and> lc_tail c = last_of ps None"

definition held :: "'a lru \<Rightarrow> nat list \<Rightarrow> bool" where
  "held c ps \<longleftrightarrow> distinct (ids (lc_nodes c) ps) \<and> (\<forall>p\<in>set ps. p < lc_alloc c \<and> ln_value (lc_nodes c p) \<noteq> None)
    \<and> distinct (map fst (lc_cache c)) \<and> set (lc_cache c) = (\<lambda>p. (ln_id (lc_nodes c p), p)) ` set ps"

definition lru_ok :: "'a lru \<Rightarrow> nat list \<Rightarrow> bool" where
  "lru_ok c ps \<longleftrightarrow> chain c ps \<and> held c ps"

fun walk :: "nat \<Rightarrow> (nat \<Rightarrow> 'a lru_node) \<Rightarrow> nat option \<Rightarrow> nat list" where
  "walk 0 h p = []"
| "walk (Suc n) h None = []"
| "walk (Suc n) h (Some p) = p # walk n h (ln_next (h p))"

definition entries :: "(nat \<Rightarrow> 'a lru_node) \<Rightarrow> nat list \<Rightarrow> (u64 \<times> 'a) list" where
  "entries h ps = map (\<lambda>p. (ln_id (h p), the (ln_value (h p)))) ps"

text \<open>The cached pairs, most recently used first.\<close>

definition lru_list :: "'a lru \<Rightarrow> (u64 \<times> 'a) list" where
  "lru_list c = entries (lc_nodes c) (walk (length (lc_cache c)) (lc_nodes c) (lc_head c))"

definition lru_inv :: "'a lru \<Rightarrow> bool" where
  "lru_inv c \<longleftrightarrow> (\<exists>ps. lru_ok c ps)"

lemma first_of_simps [simp]: "first_of [] d = d" "first_of (p # ps) d = Some p"
  by (simp_all add: first_of_def)

lemma last_of_simps [simp]:
  "last_of [] d = d" "last_of (ps @ [p]) d = Some p" "last_of (p # ps) d = last_of ps (Some p)"
  by (simp_all add: last_of_def)

lemma first_of_append [simp]: "first_of (ps @ qs) d = first_of ps (first_of qs d)"
  by (cases ps) simp_all

lemma last_of_append [simp]: "last_of (ps @ qs) d = last_of qs (last_of ps d)"
  by (auto simp: last_of_def)

lemma linked_append:
  "linked h pr (ps @ qs) nx \<longleftrightarrow> linked h pr ps (first_of qs nx) \<and> linked h (last_of ps pr) qs nx"
  by (induction ps arbitrary: pr) auto

lemma linked_cong:
  "(\<And>p. p \<in> set ps \<Longrightarrow> ln_prev (h' p) = ln_prev (h p) \<and> ln_next (h' p) = ln_next (h p)) \<Longrightarrow>
    linked h' pr ps nx = linked h pr ps nx"
  by (induction ps arbitrary: pr) auto

lemma ids_simps [simp]:
  "ids h [] = []" "ids h (p # ps) = ln_id (h p) # ids h ps" "ids h (ps @ qs) = ids h ps @ ids h qs"
  by (simp_all add: ids_def)

lemma entries_simps [simp]:
  "entries h [] = []" "entries h (p # ps) = (ln_id (h p), the (ln_value (h p))) # entries h ps"
  "entries h (ps @ qs) = entries h ps @ entries h qs" "length (entries h ps) = length ps"
  by (simp_all add: entries_def)

lemma walk_linked: "linked h pr ps None \<Longrightarrow> length ps \<le> n \<Longrightarrow> walk n h (first_of ps None) = ps"
proof (induction ps arbitrary: pr n)
  case Nil
  then show ?case by (cases n) auto
next
  case (Cons p ps)
  then obtain m where "n = Suc m" by (cases n) auto
  with Cons.IH [of "Some p" m] Cons.prems show ?case by simp
qed

lemma lru_ok_length: "lru_ok c ps \<Longrightarrow> length (lc_cache c) = length ps"
proof -
  assume ok: "lru_ok c ps"
  have "length (lc_cache c) = card (set (lc_cache c))"
    using ok by (intro distinct_card [symmetric]) (auto simp: lru_ok_def held_def distinct_map)
  also have "\<dots> = card (set ps)"
    using ok by (auto simp: lru_ok_def held_def intro!: card_image inj_onI)
  finally show ?thesis using ok by (simp add: lru_ok_def chain_def distinct_card)
qed

lemma lru_list_ok: "lru_ok c ps \<Longrightarrow> lru_list c = entries (lc_nodes c) ps"
  using walk_linked [of "lc_nodes c" None ps "length (lc_cache c)"] lru_ok_length [of c ps]
  by (simp add: lru_list_def lru_ok_def chain_def)

lemma lru_ok_lookup:
  assumes "lru_ok c ps"
  shows "map_of (lc_cache c) i = Some p \<longleftrightarrow> p \<in> set ps \<and> ln_id (lc_nodes c p) = i"
  using assms by (auto simp: lru_ok_def held_def)

lemma lru_ok_miss:
  assumes "lru_ok c ps"
  shows "map_of (lc_cache c) i = None \<longleftrightarrow> i \<notin> set (ids (lc_nodes c) ps)"
  using assms by (auto simp: lru_ok_def held_def map_of_eq_None_iff ids_def image_image)

subsection \<open>Pointer operations\<close>

lemma upd_node_sel [simp]:
  "lc_nodes (upd_node p f c) q = (if q = p then f (lc_nodes c p) else lc_nodes c q)"
  "lc_head (upd_node p f c) = lc_head c" "lc_tail (upd_node p f c) = lc_tail c"
  "lc_cache (upd_node p f c) = lc_cache c" "lc_alloc (upd_node p f c) = lc_alloc c"
  "lc_capacity (upd_node p f c) = lc_capacity c"
  by (simp_all add: upd_node_def)

lemma addToHead_frame [simp]:
  "lc_cache (addToHead p c) = lc_cache c" "lc_alloc (addToHead p c) = lc_alloc c"
  "lc_capacity (addToHead p c) = lc_capacity c"
  "ln_id (lc_nodes (addToHead p c) q) = ln_id (lc_nodes c q)"
  "ln_value (lc_nodes (addToHead p c) q) = ln_value (lc_nodes c q)"
  by (simp_all add: addToHead_def Let_def split: option.split)

lemma removeNode_frame [simp]:
  "lc_cache (removeNode p c) = lc_cache c" "lc_alloc (removeNode p c) = lc_alloc c"
  "lc_capacity (removeNode p c) = lc_capacity c"
  "ln_id (lc_nodes (removeNode p c) q) = ln_id (lc_nodes c q)"
  "ln_value (lc_nodes (removeNode p c) q) = ln_value (lc_nodes c q)"
  by (simp_all add: removeNode_def Let_def split: option.split)

lemma moveToHead_frame [simp]:
  "lc_cache (moveToHead p c) = lc_cache c" "lc_alloc (moveToHead p c) = lc_alloc c"
  "lc_capacity (moveToHead p c) = lc_capacity c"
  "ln_id (lc_nodes (moveToHead p c) q) = ln_id (lc_nodes c q)"
  "ln_value (lc_nodes (moveToHead p c) q) = ln_value (lc_nodes c q)"
  by (simp_all add: moveToHead_def)

lemma chain_addToHead:
  assumes "chain c ps" "p \<notin> set ps"
  shows "chain (addToHead p c) (p # ps)"
proof (cases ps)
  case Nil
  then show ?thesis using assms by (simp add: chain_def addToHead_def Let_def)
next
  case (Cons q qs)
  have "linked (lc_nodes (addToHead p c)) (Some q) qs None = linked (lc_nodes c) (Some q) qs None"
    using assms Cons by (intro linked_cong) (auto simp: chain_def addToHead_def Let_def)
  then show ?thesis using assms Cons by (auto simp: chain_def addToHead_def Let_def last_of_def)
qed

lemma linked_update_prev:
  assumes "linked h pr (q # qs) nx" "q \<notin> set qs"
  shows "linked (h(q := h q\<lparr>ln_prev := pr'\<rparr>)) pr' (q # qs) nx"
proof -
  have "linked (h(q := h q\<lparr>ln_prev := pr'\<rparr>)) (Some q) qs nx = linked h (Some q) qs nx"
    using assms by (intro linked_cong) auto
  then show ?thesis using assms by simp
qed

lemma linked_update_next:
  assumes "linked h pr (qs @ [q]) nx" "q \<notin> set qs"
  shows "linked (h(q := h q\<lparr>ln_next := nx'\<rparr>)) pr (qs @ [q]) nx'"
proof -
  have "linked (h(q := h q\<lparr>ln_next := nx'\<rparr>)) pr qs (Some q) = linked h pr qs (Some q)"
    using assms by (intro linked_cong) auto
  then show ?thesis using assms by (simp add: linked_append)
qed

lemma linked_upd_other: "q \<notin> set ps \<Longrightarrow> linked (h(q := n)) pr ps nx = linked h pr ps nx"
  by (rule linked_cong) auto

lemma chain_removeNode:
  assumes "chain c (as @ p # bs)"
  shows "chain (removeNode p c) (as @ bs)"
proof -
  let ?h = "lc_nodes c"
  have l: "linked ?h None as (Some p)" "ln_prev (?h p) = last_of as None"
      "ln_next (?h p) = first_of bs None" "linked ?h (Some p) bs None"
    and d: "distinct (as @ p # bs)"
    using assms by (auto simp: chain_def linked_append)
  define c1 where "c1 = (case ln_prev (?h p) of
                 Some q \<Rightarrow> upd_node q (\<lambda>n. n\<lparr>ln_next := ln_next (?h p)\<rparr>) c
               | None \<Rightarrow> c\<lparr>lc_head := ln_next (?h p)\<rparr>)"
  have c1: "linked (lc_nodes c1) None as (first_of bs None)" "linked (lc_nodes c1) (Some p) bs None"
      "lc_nodes c1 p = ?h p" "lc_head c1 = first_of (as @ bs) None" "lc_tail c1 = last_of (as @ p # bs) None"
    using assms l d
    by (cases as rule: rev_cases;
        auto simp: c1_def chain_def upd_node_def linked_upd_other linked_update_next)+
  have r: "removeNode p c = (case ln_next (lc_nodes c1 p) of
          Some q \<Rightarrow> upd_node q (\<lambda>n. n\<lparr>ln_prev := ln_prev (lc_nodes c1 p)\<rparr>) c1
        | None \<Rightarrow> c1\<lparr>lc_tail := ln_prev (lc_nodes c1 p)\<rparr>)"
    unfolding removeNode_def c1_def Let_def by (rule refl)
  show ?thesis
  proof (cases bs)
    case Nil
    then show ?thesis using c1 l(2,3) d by (simp add: r chain_def)
  next
    case (Cons q qs)
    have "linked ((lc_nodes c1)(q := lc_nodes c1 q\<lparr>ln_prev := last_of as None\<rparr>)) (last_of as None) (q # qs) None"
      using linked_update_prev [of "lc_nodes c1" "Some p" q qs None] c1 d Cons by simp
    moreover have "linked ((lc_nodes c1)(q := lc_nodes c1 q\<lparr>ln_prev := last_of as None\<rparr>)) None as (Some q)"
      using c1(1) d Cons by (simp add: linked_upd_other)
    ultimately show ?thesis
      using c1 l(2,3) d Cons by (simp add: r chain_def linked_append upd_node_def last_of_def)
  qed
qed

subsection \<open>Refinement to lists of pairs\<close>

lemma entries_cong:
  "(\<And>p. p \<in> set ps \<Longrightarrow> ln_id (h' p) = ln_id (h p) \<and> ln_value (h' p) = ln_value (h p)) \<Longrightarrow>
    entries h' ps = entries h ps"
  by (induction ps) auto

lemma ids_cong: "(\<And>p. p \<in> set ps \<Longrightarrow> ln_id (h' p) = ln_id (h p)) \<Longrightarrow> ids h' ps = ids h ps"
  by (induction ps) auto

lemma fst_entries: "map fst (entries h ps) = ids h ps"
  by (induction ps) auto

lemma set_ids: "set (ids h ps) = (\<lambda>p. ln_id (h p)) ` set ps"
  by (simp add: ids_def)

lemma delete_absent: "i \<notin> set (map fst xs) \<Longrightarrow> AList.delete i xs = xs"
  by (induction xs) auto

lemma delete_entry:
  assumes "distinct (ids h (as @ p # bs))"
  shows "AList.delete (ln_id (h p)) (entries h (as @ p # bs)) = entries h (as @ bs)"
  using assms delete_absent [of "ln_id (h p)" "entries h as"] delete_absent [of "ln_id (h p)" "entries h bs"]
  by (simp add: AList.delete_eq fst_entries)

lemma lookup_entry:
  assumes "lru_ok c ps"
  shows "map_of (entries (lc_nodes c) ps) i =
    (case map_of (lc_cache c) i of None \<Rightarrow> None | Some p \<Rightarrow> ln_value (lc_nodes c p))"
proof (cases "map_of (lc_cache c) i")
  case None
  then have "i \<notin> fst ` set (entries (lc_nodes c) ps)"
    using assms lru_ok_miss by (metis fst_entries list.set_map)
  then have "map_of (entries (lc_nodes c) ps) i = None" by (simp only: map_of_eq_None_iff not_False_eq_True)
  then show ?thesis using None by simp
next
  case (Some p)
  then have "(i, the (ln_value (lc_nodes c p))) \<in> set (entries (lc_nodes c) ps)"
    using lru_ok_lookup [OF assms] by (auto simp: entries_def)
  then have "map_of (entries (lc_nodes c) ps) i = Some (the (ln_value (lc_nodes c p)))"
    using assms by (intro map_of_is_SomeI) (auto simp: lru_ok_def held_def fst_entries)
  then show ?thesis using Some assms lru_ok_lookup [OF assms] by (auto simp: lru_ok_def held_def)
qed

lemma moveToHead_ok:
  assumes "lru_ok c (as @ p # bs)"
  shows "lru_ok (moveToHead p c) (p # as @ bs)"
    "entries (lc_nodes (moveToHead p c)) ps = entries (lc_nodes c) ps"
proof -
  have d: "p \<notin> set (as @ bs)" using assms by (simp add: lru_ok_def chain_def)
  have ch: "chain (moveToHead p c) (p # as @ bs)"
  proof (cases "lc_head c = Some p")
    case True
    with assms d have "as = []" by (cases as) (auto simp: lru_ok_def chain_def)
    then show ?thesis using True assms by (simp add: moveToHead_def lru_ok_def)
  next
    case False
    then show ?thesis
      using chain_addToHead [OF chain_removeNode d, of c] assms by (simp add: moveToHead_def lru_ok_def)
  qed
  have "ids (lc_nodes (moveToHead p c)) qs = ids (lc_nodes c) qs" for qs
    by (rule ids_cong) simp
  then show "lru_ok (moveToHead p c) (p # as @ bs)"
    using assms ch by (auto simp: lru_ok_def held_def)
  show "entries (lc_nodes (moveToHead p c)) ps = entries (lc_nodes c) ps"
    by (rule entries_cong) simp
qed

lemma removeNode_ok:
  assumes "lru_ok c (as @ p # bs)"
  defines "c' \<equiv> removeNode p (c\<lparr>lc_cache := AList.delete (ln_id (lc_nodes c p)) (lc_cache c)\<rparr>)"
  shows "lru_ok c' (as @ bs)" "entries (lc_nodes c') ps = entries (lc_nodes c) ps"
    "lc_capacity c' = lc_capacity c"
proof -
  let ?c = "c\<lparr>lc_cache := AList.delete (ln_id (lc_nodes c p)) (lc_cache c)\<rparr>"
  have ch: "chain c' (as @ bs)"
    using assms unfolding c'_def by (intro chain_removeNode) (simp add: lru_ok_def chain_def)
  have i: "ids (lc_nodes c') qs = ids (lc_nodes c) qs" for qs
    unfolding c'_def by (rule ids_cong) simp
  have "set (lc_cache c) = (\<lambda>p. (ln_id (lc_nodes c p), p)) ` set (as @ p # bs)"
    "ln_id (lc_nodes c p) \<notin> (\<lambda>p. ln_id (lc_nodes c p)) ` set (as @ bs)"
    using assms(1) by (auto simp: lru_ok_def held_def set_ids)
  then have "set (lc_cache c') = (\<lambda>p. (ln_id (lc_nodes c p), p)) ` set (as @ bs)"
    unfolding c'_def by (auto simp: AList.delete_eq)
  then have "held c' (as @ bs)"
    using assms(1) i by (auto simp: lru_ok_def held_def c'_def distinct_delete)
  with ch show "lru_ok c' (as @ bs)" by (simp add: lru_ok_def)
  show "entries (lc_nodes c') ps = entries (lc_nodes c) ps"
    unfolding c'_def by (rule entries_cong) simp
  show "lc_capacity c' = lc_capacity c" by (simp add: c'_def)
qed

definition abs_put :: "int \<Rightarrow> u64 \<Rightarrow> 'a \<Rightarrow> (u64 \<times> 'a) list \<Rightarrow> (u64 \<times> 'a) list" where
  "abs_put cap i v xs =
    (if i \<in> fst ` set xs then (i, v) # AList.delete i xs
     else if int (length xs) + 1 > cap then butlast ((i, v) # xs) else (i, v) # xs)"

definition abs_get :: "u64 \<Rightarrow> (u64 \<times> 'a) list \<Rightarrow> (u64 \<times> 'a) list" where
  "abs_get i xs = (case map_of xs i of None \<Rightarrow> xs | Some v \<Rightarrow> (i, v) # AList.delete i xs)"

lemma mem_entries:
  assumes "lru_ok c ps"
  shows "i \<in> fst ` set (entries (lc_nodes c) ps) \<longleftrightarrow> map_of (lc_cache c) i \<noteq> None"
  using lru_ok_miss [OF assms, of i] by (metis fst_entries list.set_map)

lemma lru_hit_split:
  assumes "lru_ok c ps" "map_of (lc_cache c) i = Some p"
  obtains as bs where "ps = as @ p # bs" "ln_id (lc_nodes c p) = i"
    "AList.delete i (entries (lc_nodes c) ps) = entries (lc_nodes c) (as @ bs)"
proof -
  have "p \<in> set ps" and i: "ln_id (lc_nodes c p) = i"
    using lru_ok_lookup [OF assms(1)] assms(2) by auto
  then obtain as bs where ps: "ps = as @ p # bs" by (meson split_list)
  have "distinct (ids (lc_nodes c) (as @ p # bs))"
    using assms(1) ps by (simp add: lru_ok_def held_def)
  from delete_entry [OF this] i ps that show thesis by blast
qed

lemma removeTail_ok:
  assumes "lru_ok c ps"
  shows "lru_ok (removeTail c) (butlast ps)" "entries (lc_nodes (removeTail c)) qs = entries (lc_nodes c) qs"
    "lc_capacity (removeTail c) = lc_capacity c"
proof -
  have "lru_ok (removeTail c) (butlast ps) \<and> entries (lc_nodes (removeTail c)) qs = entries (lc_nodes c) qs
    \<and> lc_capacity (removeTail c) = lc_capacity c"
  proof (cases ps rule: rev_cases)
    case Nil
    then have "removeTail c = c" using assms by (simp add: removeTail_def lru_ok_def chain_def)
    then show ?thesis using assms Nil by simp
  next
    case (snoc as p)
    then have "lc_tail c = Some p" using assms by (simp add: lru_ok_def chain_def)
    then have "removeTail c = removeNode p (c\<lparr>lc_cache := AList.delete (ln_id (lc_nodes c p)) (lc_cache c)\<rparr>)"
      by (simp add: removeTail_def)
    then show ?thesis using removeNode_ok [of c as p "[]"] assms snoc by simp
  qed
  then show "lru_ok (removeTail c) (butlast ps)"
    "entries (lc_nodes (removeTail c)) qs = entries (lc_nodes c) qs"
    "lc_capacity (removeTail c) = lc_capacity c" by blast+
qed

lemma entries_butlast: "butlast (entries h ps) = entries h (butlast ps)"
  by (simp add: entries_def map_butlast)

lemma lru_put_miss:
  fixes v :: 'a and c :: "'a lru"
  assumes "lru_ok c ps" "map_of (lc_cache c) i = None"
  defines "node \<equiv> \<lparr>ln_id = i, ln_value = Some v, ln_prev = None, ln_next = None\<rparr>"
  defines "c2 \<equiv> addToHead (lc_alloc c) (c\<lparr>lc_alloc := Suc (lc_alloc c),
      lc_nodes := (lc_nodes c)(lc_alloc c := node), lc_cache := AList.update i (lc_alloc c) (lc_cache c)\<rparr>)"
  shows "lru_ok c2 (lc_alloc c # ps)"
    "entries (lc_nodes c2) (lc_alloc c # ps) = (i, v) # entries (lc_nodes c) ps"
proof -
  let ?p = "lc_alloc c"
  let ?c1 = "c\<lparr>lc_alloc := Suc ?p, lc_nodes := (lc_nodes c)(?p := node), lc_cache := AList.update i ?p (lc_cache c)\<rparr>"
  have new: "?p \<notin> set ps" and lt: "\<forall>p\<in>set ps. p < ?p"
    using assms(1) by (auto simp: lru_ok_def held_def)
  have "chain ?c1 ps"
    using assms(1) new by (simp add: lru_ok_def chain_def linked_upd_other)
  then have ch: "chain c2 (?p # ps)" unfolding c2_def by (rule chain_addToHead [OF _ new])
  have ids: "ids (lc_nodes c2) ps = ids (lc_nodes c) ps"
    using new by (intro ids_cong) (auto simp: c2_def)
  have upd: "AList.update i ?p (lc_cache c) = lc_cache c @ [(i, ?p)]"
    using assms(2) by (intro update_absent) (simp add: map_of_eq_None_iff)
  have "i \<notin> set (ids (lc_nodes c) ps)" using assms lru_ok_miss by blast
  moreover have id2: "ln_id (lc_nodes c2 ?p) = i" "ln_value (lc_nodes c2 ?p) = Some v"
      "lc_cache c2 = lc_cache c @ [(i, ?p)]" "lc_alloc c2 = Suc ?p"
      "\<And>q. q \<in> set ps \<Longrightarrow> ln_id (lc_nodes c2 q) = ln_id (lc_nodes c q)
         \<and> ln_value (lc_nodes c2 q) = ln_value (lc_nodes c q)"
    using new by (auto simp: c2_def upd node_def)
  moreover have "i \<notin> fst ` set (lc_cache c)" using assms(2) by (simp add: map_of_eq_None_iff)
  moreover have "set (lc_cache c) = (\<lambda>p. (ln_id (lc_nodes c2 p), p)) ` set ps"
    using assms(1) id2(5) by (auto simp: lru_ok_def held_def)
  ultimately have "held c2 (?p # ps)"
    using assms(1) ids lt by (simp add: lru_ok_def held_def less_Suc_eq)
  with ch show "lru_ok c2 (?p # ps)" by (simp add: lru_ok_def)
  have "entries (lc_nodes c2) ps = entries (lc_nodes c) ps"
    using new by (intro entries_cong) (auto simp: c2_def)
  then show "entries (lc_nodes c2) (?p # ps) = (i, v) # entries (lc_nodes c) ps"
    by (simp add: c2_def node_def)
qed

lemma lru_put_refines:
  assumes "lru_inv c"
  shows "lru_inv (lru_put i v c)" "lc_capacity (lru_put i v c) = lc_capacity c"
    "lru_list (lru_put i v c) = abs_put (lc_capacity c) i v (lru_list c)"
proof -
  obtain ps where ok: "lru_ok c ps" using assms by (auto simp: lru_inv_def)
  have "\<exists>qs. lru_ok (lru_put i v c) qs \<and> lc_capacity (lru_put i v c) = lc_capacity c
     \<and> entries (lc_nodes (lru_put i v c)) qs = abs_put (lc_capacity c) i v (entries (lc_nodes c) ps)"
  proof (cases "map_of (lc_cache c) i")
    case None
    let ?node = "\<lparr>ln_id = i, ln_value = Some v, ln_prev = None, ln_next = None\<rparr>"
    define c2 where "c2 = addToHead (lc_alloc c) (c\<lparr>lc_alloc := Suc (lc_alloc c),
      lc_nodes := (lc_nodes c)(lc_alloc c := ?node), lc_cache := AList.update i (lc_alloc c) (lc_cache c)\<rparr>)"
    have c2: "lru_ok c2 (lc_alloc c # ps)" "lc_capacity c2 = lc_capacity c"
      "entries (lc_nodes c2) (lc_alloc c # ps) = (i, v) # entries (lc_nodes c) ps"
      using lru_put_miss [OF ok None, of v] by (simp_all add: c2_def)
    have put: "lru_put i v c = (if int (length ps) + 1 > lc_capacity c then removeTail c2 else c2)"
      using None lru_ok_length [OF c2(1)] c2(2) by (simp add: lru_put_def c2_def Let_def)
    then show ?thesis
      using c2 removeTail_ok [OF c2(1)] mem_entries [OF ok, of i] None
        entries_butlast [of "lc_nodes c2" "lc_alloc c # ps"]
      by (auto simp: abs_put_def)
  next
    case (Some p)
    from lru_hit_split [OF ok Some] obtain as bs where ps: "ps = as @ p # bs" "ln_id (lc_nodes c p) = i"
      and del: "AList.delete i (entries (lc_nodes c) ps) = entries (lc_nodes c) (as @ bs)" by metis
    define c1 where "c1 = upd_node p (\<lambda>n. n\<lparr>ln_value := Some v\<rparr>) c"
    have "linked (lc_nodes c1) None ps None = linked (lc_nodes c) None ps None"
      "ids (lc_nodes c1) ps = ids (lc_nodes c) ps"
      by (rule linked_cong ids_cong; simp add: c1_def)+
    then have c1: "lru_ok c1 (as @ p # bs)"
      using ok ps(1) by (auto simp: lru_ok_def chain_def held_def c1_def)
    have "entries (lc_nodes c1) (as @ bs) = entries (lc_nodes c) (as @ bs)"
      using ok ps by (intro entries_cong) (auto simp: c1_def lru_ok_def chain_def)
    with moveToHead_ok(2) [OF c1] have
      "entries (lc_nodes (moveToHead p c1)) (p # as @ bs) = (i, v) # entries (lc_nodes c) (as @ bs)"
      using ps(2) by (simp add: c1_def)
    moreover have "lru_put i v c = moveToHead p c1" using Some by (simp add: lru_put_def c1_def)
    ultimately show ?thesis
      using moveToHead_ok(1) [OF c1] mem_entries [OF ok, of i] del Some
      by (intro exI [of _ "p # as @ bs"]) (simp add: abs_put_def c1_def)
  qed
  then show "lru_inv (lru_put i v c)" "lc_capacity (lru_put i v c) = lc_capacity c"
    "lru_list (lru_put i v c) = abs_put (lc_capacity c) i v (lru_list c)"
    using ok by (auto simp: lru_inv_def lru_list_ok)
qed

lemma lru_get_refines:
  assumes "lru_inv c"
  shows "lru_inv (snd (lru_get i c))" "lc_capacity (snd (lru_get i c)) = lc_capacity c"
    "fst (lru_get i c) = map_of (lru_list c) i" "lru_list (snd (lru_get i c)) = abs_get i (lru_list c)"
proof -
  obtain ps where ok: "lru_ok c ps" using assms by (auto simp: lru_inv_def)
  have "\<exists>qs. lru_ok (snd (lru_get i c)) qs \<and> lc_capacity (snd (lru_get i c)) = lc_capacity c
     \<and> fst (lru_get i c) = map_of (entries (lc_nodes c) ps) i
     \<and> entries (lc_nodes (snd (lru_get i c))) qs = abs_get i (entries (lc_nodes c) ps)"
  proof (cases "map_of (lc_cache c) i")
    case None
    then show ?thesis
      using ok lookup_entry [OF ok, of i] by (auto simp: lru_get_def abs_get_def)
  next
    case (Some p)
    from lru_hit_split [OF ok Some] obtain as bs where ps: "ps = as @ p # bs" "ln_id (lc_nodes c p) = i"
      and del: "AList.delete i (entries (lc_nodes c) ps) = entries (lc_nodes c) (as @ bs)" by metis
    obtain v where v: "ln_value (lc_nodes c p) = Some v"
      using ok ps(1) by (auto simp: lru_ok_def held_def)
    have m: "map_of (entries (lc_nodes c) ps) i = Some v" using lookup_entry [OF ok, of i] Some v by simp
    have r: "lru_get i c = (Some v, moveToHead p c)"
      using Some v by (simp add: lru_get_def Let_def)
    have "entries (lc_nodes (moveToHead p c)) (p # as @ bs) = (i, v) # entries (lc_nodes c) (as @ bs)"
      using moveToHead_ok(2) [of c as p bs] ok ps v by simp
    then show ?thesis
      using moveToHead_ok(1) [of c as p bs] ok ps(1) del m
      by (intro exI [of _ "p # as @ bs"]) (simp add: r abs_get_def)
  qed
  then show "lru_inv (snd (lru_get i c))" "lc_capacity (snd (lru_get i c)) = lc_capacity c"
    "fst (lru_get i c) = map_of (lru_list c) i" "lru_list (snd (lru_get i c)) = abs_get i (lru_list c)"
    using ok by (auto simp: lru_inv_def lru_list_ok)
qed

lemma lru_tryGet_refines: "lru_inv c \<Longrightarrow> lru_tryGet i c = map_of (lru_list c) i"
  using lookup_entry [of c _ i] by (auto simp: lru_inv_def lru_list_ok lru_tryGet_def)

lemma lru_delete_refines:
  assumes "lru_inv c"
  shows "lru_inv (lru_delete i c)" "lc_capacity (lru_delete i c) = lc_capacity c"
    "lru_list (lru_delete i c) = AList.delete i (lru_list c)"
proof -
  obtain ps where ok: "lru_ok c ps" using assms by (auto simp: lru_inv_def)
  have "\<exists>qs. lru_ok (lru_delete i c) qs \<and> lc_capacity (lru_delete i c) = lc_capacity c
     \<and> entries (lc_nodes (lru_delete i c)) qs = AList.delete i (entries (lc_nodes c) ps)"
  proof (cases "map_of (lc_cache c) i")
    case None
    then show ?thesis
      using ok delete_absent [of i "entries (lc_nodes c) ps"] mem_entries [OF ok, of i]
      by (auto simp: lru_delete_def)
  next
    case (Some p)
    from lru_hit_split [OF ok Some] obtain as bs where ps: "ps = as @ p # bs" "ln_id (lc_nodes c p) = i"
      and del: "AList.delete i (entries (lc_nodes c) ps) = entries (lc_nodes c) (as @ bs)" by metis
    show ?thesis
      using removeNode_ok [of c as p bs] ok Some ps del
      by (intro exI [of _ "as @ bs"]) (simp add: lru_delete_def)
  qed
  then show "lru_inv (lru_delete i c)" "lc_capacity (lru_delete i c) = lc_capacity c"
    "lru_list (lru_delete i c) = AList.delete i (lru_list c)"
    using ok by (auto simp: lru_inv_def lru_list_ok)
qed

lemma lru_fresh:
  fixes c :: "'a lru"
  shows "lru_inv (newLRUCache cap :: 'a lru)" "lru_list (newLRUCache cap :: 'a lru) = []"
  "lru_inv (lru_clear c)" "lru_list (lru_clear c) = []"
proof -
  have "lru_ok (newLRUCache cap :: 'a lru) []" "lru_ok (lru_clear c) []"
    by (simp_all add: lru_ok_def chain_def held_def newLRUCache_def lru_clear_def)
  then show "lru_inv (newLRUCache cap :: 'a lru)" "lru_list (newLRUCache cap :: 'a lru) = []"
    "lru_inv (lru_clear c)" "lru_list (lru_clear c) = []"
    by (auto simp: lru_inv_def lru_list_ok)
qed

lemma lru_size_refines: "lru_inv c \<Longrightarrow> lru_size c = length (lru_list c)"
  using lru_ok_length by (auto simp: lru_inv_def lru_list_ok lru_size_def)

lemma lru_distinct: "lru_inv c \<Longrightarrow> distinct (map fst (lru_list c))"
  by (auto simp: lru_inv_def lru_list_ok fst_entries lru_ok_def held_def)

subsection \<open>Resizing\<close>

lemma evict_loop_enough:
  assumes "lru_ok c ps" "0 \<le> n"
  shows "\<exists>c'. evict_loop n c = Some c' \<and> lru_ok c' (take (nat n) ps) \<and> lc_capacity c' = lc_capacity c
    \<and> (\<forall>qs. entries (lc_nodes c') qs = entries (lc_nodes c) qs)"
  using assms(1)
proof (induction "length ps" arbitrary: c ps rule: less_induct)
  case less
  show ?case
  proof (cases "int (length ps) > n")
    case False
    then show ?thesis using less.prems lru_ok_length [OF less.prems] evict_loop.simps [of n c] by simp
  next
    case True
    then have "length (butlast ps) < length ps" using assms(2) by (cases ps rule: rev_cases) auto
    from less.hyps [OF this removeTail_ok(1) [OF less.prems]] obtain c'
      where c': "evict_loop n (removeTail c) = Some c'" "lru_ok c' (take (nat n) (butlast ps))"
        "lc_capacity c' = lc_capacity (removeTail c)"
        "\<forall>qs. entries (lc_nodes c') qs = entries (lc_nodes (removeTail c)) qs" by blast
    have t: "take (nat n) (butlast ps) = take (nat n) ps"
      using True assms(2) by (simp add: butlast_conv_take min_def)
    have "evict_loop n c = Some c'"
      using True c'(1) lru_ok_length [OF less.prems] evict_loop.simps [of n c] by simp
    then show ?thesis using c' t removeTail_ok [OF less.prems] by auto
  qed
qed

lemma lru_Resize_refines:
  assumes "lru_inv c" "0 \<le> n \<or> lc_capacity c \<le> n"
  shows "\<exists>c'. lru_Resize n c = Some c' \<and> lru_inv c' \<and> lc_capacity c' = n
    \<and> lru_list c' = (if n < lc_capacity c then take (nat n) (lru_list c) else lru_list c)"
proof -
  obtain ps where ok: "lru_ok c ps" using assms(1) by (auto simp: lru_inv_def)
  have cap: "lru_ok (d\<lparr>lc_capacity := n\<rparr>) qs = lru_ok d qs" "lc_nodes (d\<lparr>lc_capacity := n\<rparr>) = lc_nodes d"
    for d :: "'a lru" and qs by (simp_all add: lru_ok_def chain_def held_def)
  show ?thesis
  proof (cases "n < lc_capacity c")
    case False
    then have "lru_Resize n c = Some (c\<lparr>lc_capacity := n\<rparr>)" by (simp add: lru_Resize_def)
    moreover have "lru_ok (c\<lparr>lc_capacity := n\<rparr>) ps" using ok by (simp only: cap)
    ultimately show ?thesis using False ok lru_list_ok by (fastforce simp: lru_inv_def)
  next
    case True
    with assms(2) evict_loop_enough [OF ok, of n] obtain c' where c': "evict_loop n c = Some c'"
      "lru_ok c' (take (nat n) ps)" "\<forall>qs. entries (lc_nodes c') qs = entries (lc_nodes c) qs" by auto
    then have "lru_ok (c'\<lparr>lc_capacity := n\<rparr>) (take (nat n) ps)" by (simp only: cap)
    moreover from this have "lru_list (c'\<lparr>lc_capacity := n\<rparr>) = take (nat n) (lru_list c)"
      using c'(3) lru_list_ok [OF ok] lru_list_ok by (fastforce simp: entries_def take_map)
    ultimately show ?thesis using True c'(1) by (auto simp: lru_Resize_def lru_inv_def)
  qed
qed

lemma evict_loop_result: "evict_loop n c = Some c' \<Longrightarrow> int (length (lc_cache c')) \<le> n"
  by (erule evict_loop.raw_induct [rotated, where P = "\<lambda>n c c'. int (length (lc_cache c')) \<le> n"])
    (auto split: if_splits)

text \<open>\<^verbatim>\<open>Resize\<close> returns exactly when the new capacity is not negative or not a
  reduction; with a negative reduction its eviction loop never ends (with the lock held).\<close>

theorem lru_resize_returns:
  assumes "lru_inv c"
  shows "lru_Resize n c \<noteq> None \<longleftrightarrow> 0 \<le> n \<or> lc_capacity c \<le> n"
proof
  assume r: "lru_Resize n c \<noteq> None"
  show "0 \<le> n \<or> lc_capacity c \<le> n"
  proof (rule ccontr)
    assume "\<not> (0 \<le> n \<or> lc_capacity c \<le> n)"
    with r obtain c' where "evict_loop n c = Some c'" "n < 0" by (auto simp: lru_Resize_def)
    with evict_loop_result [of n c c'] show False by simp
  qed
next
  assume "0 \<le> n \<or> lc_capacity c \<le> n"
  with lru_Resize_refines [OF assms] show "lru_Resize n c \<noteq> None" by fastforce
qed

theorem lru_resize_returns_witness:
  "lru_Resize (- 1) (lru_put 4 (7 :: nat) (newLRUCache 2)) = None \<and>
   lru_Resize 0 (lru_put 4 (7 :: nat) (newLRUCache 2)) \<noteq> None"
proof -
  have "lru_inv (lru_put 4 (7 :: nat) (newLRUCache 2))"
    by (intro lru_put_refines(1) lru_fresh)
  moreover have "lc_capacity (lru_put 4 (7 :: nat) (newLRUCache 2)) = 2" by code_simp
  ultimately show ?thesis
    using lru_resize_returns [of "lru_put 4 (7 :: nat) (newLRUCache 2)" "-1"]
      lru_resize_returns [of "lru_put 4 (7 :: nat) (newLRUCache 2)" 0] by simp
qed

subsection \<open>Sequences of operations\<close>

datatype 'a cache_op = Put u64 'a | Get u64 | Delete u64 | Clear | Resize int

fun lru_step :: "'a cache_op \<Rightarrow> 'a lru \<Rightarrow> 'a lru option" where
  "lru_step (Put i v) c = Some (lru_put i v c)"
| "lru_step (Get i) c = Some (snd (lru_get i c))"
| "lru_step (Delete i) c = Some (lru_delete i c)"
| "lru_step Clear c = Some (lru_clear c)"
| "lru_step (Resize n) c = lru_Resize n c"

fun abs_step :: "'a cache_op \<Rightarrow> int \<times> (u64 \<times> 'a) list \<Rightarrow> int \<times> (u64 \<times> 'a) list" where
  "abs_step (Put i v) (cap, xs) = (cap, abs_put cap i v xs)"
| "abs_step (Get i) (cap, xs) = (cap, abs_get i xs)"
| "abs_step (Delete i) (cap, xs) = (cap, AList.delete i xs)"
| "abs_step Clear (cap, xs) = (cap, [])"
| "abs_step (Resize n) (cap, xs) = (n, if n < cap then take (nat n) xs else xs)"

fun op_size_ok :: "'a cache_op \<Rightarrow> bool" where
  "op_size_ok (Resize n) \<longleftrightarrow> 0 \<le> n"
| "op_size_ok _ \<longleftrightarrow> True"

fun lru_run :: "'a cache_op list \<Rightarrow> 'a lru \<Rightarrow> 'a lru option" where
  "lru_run [] c = Some c"
| "lru_run (x # xs) c = Option.bind (lru_step x c) (lru_run xs)"

lemma lru_step_refines:
  assumes "lru_inv c" "op_size_ok x"
  shows "\<exists>c'. lru_step x c = Some c' \<and> lru_inv c' \<and>
    (lc_capacity c', lru_list c') = abs_step x (lc_capacity c, lru_list c)"
  using assms lru_put_refines [OF assms(1)] lru_get_refines [OF assms(1)] lru_delete_refines [OF assms(1)]
    lru_fresh(3,4) [of c] lru_Resize_refines [OF assms(1)]
  by (cases x) (auto simp: lru_clear_def)

lemma length_delete_le: "length (AList.delete i xs) \<le> length xs"
  by (induction xs) auto

lemma length_delete_less: "i \<in> fst ` set xs \<Longrightarrow> length (AList.delete i xs) < length xs"
proof (induction xs)
  case (Cons x xs)
  then show ?case using length_delete_le [of i xs] by (cases "fst x = i") (auto simp: less_Suc_eq_le)
qed simp

lemma abs_step_bounded:
  "op_size_ok x \<Longrightarrow> 0 \<le> fst s \<Longrightarrow> int (length (snd s)) \<le> fst s \<Longrightarrow>
    0 \<le> fst (abs_step x s) \<and> int (length (snd (abs_step x s))) \<le> fst (abs_step x s)"
proof (induction x s rule: abs_step.induct)
  case (1 i v cap xs)
  then show ?case
    using length_delete_less [of i xs] by (cases "i \<in> fst ` set xs") (auto simp: abs_put_def)
next
  case (2 i cap xs)
  then show ?case
    using length_delete_less [of i xs] by (force simp: abs_get_def split: option.split dest: map_of_SomeD)
next
  case (3 i cap xs)
  then show ?case using length_delete_le [of i xs] by simp
qed auto

lemma lru_run_refines:
  "lru_inv c \<Longrightarrow> list_all op_size_ok xs \<Longrightarrow> \<exists>c'. lru_run xs c = Some c' \<and> lru_inv c' \<and>
    (lc_capacity c', lru_list c') = fold abs_step xs (lc_capacity c, lru_list c)"
proof (induction xs arbitrary: c)
  case (Cons x xs)
  with lru_step_refines [of c x] obtain c1 where "lru_step x c = Some c1" "lru_inv c1"
    "(lc_capacity c1, lru_list c1) = abs_step x (lc_capacity c, lru_list c)" by auto
  with Cons.IH [of c1] Cons.prems show ?case by simp
qed simp

lemma abs_run_bounded:
  "list_all op_size_ok xs \<Longrightarrow> 0 \<le> fst s \<Longrightarrow> int (length (snd s)) \<le> fst s \<Longrightarrow>
    int (length (snd (fold abs_step xs s))) \<le> fst (fold abs_step xs s)"
proof (induction xs arbitrary: s)
  case (Cons x xs)
  then show ?case using abs_step_bounded [of x s] Cons.IH [of "abs_step x s"] by simp
qed simp

text \<open>C29. The pointer-based LRU cache implements a bounded list of pairs ordered by recency:
  any sequence of operations on a new cache (with non-negative sizes) runs to the end and acts on
  the linked list like the list operations of \<open>abs_step\<close>; the cache never holds more than
  its capacity, no key twice, and \<^verbatim>\<open>tryGet\<close> and \<^verbatim>\<open>size\<close> answer from that list.\<close>

theorem lru_refines_recency_list:
  assumes "list_all op_size_ok xs" "0 \<le> cap"
  shows "\<exists>c. lru_run xs (newLRUCache cap) = Some c
    \<and> (lc_capacity c, lru_list c) = fold abs_step xs (cap, [])
    \<and> int (lru_size c) \<le> lc_capacity c \<and> lru_size c = length (lru_list c)
    \<and> distinct (map fst (lru_list c)) \<and> (\<forall>i. lru_tryGet i c = map_of (lru_list c) i)"
proof -
  have new: "(lc_capacity (newLRUCache cap), lru_list (newLRUCache cap)) = (cap, [])"
    by (simp add: lru_fresh) (simp add: newLRUCache_def)
  from lru_run_refines [OF lru_fresh(1) assms(1), of cap] obtain c where
    c: "lru_run xs (newLRUCache cap) = Some c" "lru_inv c"
       "(lc_capacity c, lru_list c) = fold abs_step xs (cap, [])" unfolding new by blast
  from abs_run_bounded [OF assms(1), of "(cap, [])"] assms(2)
  have "int (length (lru_list c)) \<le> lc_capacity c" by (simp flip: c(3))
  then show ?thesis
    using c lru_size_refines lru_distinct lru_tryGet_refines by metis
qed

theorem lru_refines_recency_list_witness:
  "\<exists>c. lru_run [Put 1 (10 :: nat), Put 2 20, Get 1, Put 3 30] (newLRUCache 2) = Some c
    \<and> lru_list c = [(3, 30), (1, 10)] \<and> lru_tryGet 2 c = None"
proof -
  have "fold abs_step [Put 1 (10 :: nat), Put 2 20, Get 1, Put 3 30] (2, []) = (2, [(3, 30), (1, 10)])"
    by (simp add: abs_put_def abs_get_def)
  with lru_refines_recency_list [of "[Put 1 (10 :: nat), Put 2 20, Get 1, Put 3 30]" 2]
  show ?thesis by force
qed

end
