(* ===== verification/ShardedCache.thy ===== *)
theory ShardedCache
  imports Lru Models
begin

text \<open>
  The sharded cache of \<^verbatim>\<open>mt-manager/merkletree/cache_sharded.go\<close>, the presets of
  \<^verbatim>\<open>cache_types.go\<close>, and the contract \<open>item_cache\<close> that the tree relies on: a cache may forget
  an item, but never answers with anything but the last value stored. The locale is
  interpreted on a single LRU cache and on the sharded cache.
\<close>

subsection \<open>Presets\<close>

definition SmallConfig :: config where
  "SmallConfig = \<lparr>MaxDepth = 3, CacheSize = 10000, CacheShards = 6, TopN = 0\<rparr>"

definition MediumConfig :: config where
  "MediumConfig = \<lparr>MaxDepth = 3, CacheSize = 100000, CacheShards = 8, TopN = 0\<rparr>"

definition LargeConfig :: config where
  "LargeConfig = \<lparr>MaxDepth = 4, CacheSize = 1000000, CacheShards = 10, TopN = 0\<rparr>"

definition HugeConfig :: config where
  "HugeConfig = \<lparr>MaxDepth = 5, CacheSize = 10000000, CacheShards = 12, TopN = 0\<rparr>"

definition NoCacheConfig :: config where
  "NoCacheConfig = \<lparr>MaxDepth = 3, CacheSize = 0, CacheShards = 0, TopN = 0\<rparr>"

definition CustomConfig :: "int \<Rightarrow> int \<Rightarrow> nat \<Rightarrow> config" where
  "CustomConfig maxDepth cacheSize cacheShards =
    \<lparr>MaxDepth = maxDepth, CacheSize = cacheSize, CacheShards = cacheShards, TopN = 0\<rparr>"

subsection \<open>The sharded cache\<close>

record 'a sharded =
  sc_shards :: "'a lru list"
  sc_shardMask :: u64

text \<open>\<^verbatim>\<open>1 << power\<close> is taken as \<open>2 ^ power\<close>, which is exact for powers below 63. Go divides
  towards zero and HOL towards minus infinity; a negative quotient becomes 1 either way.\<close>

definition shard_capacity :: "int \<Rightarrow> nat \<Rightarrow> int" where
  "shard_capacity totalCapacity numShards =
    (let c = totalCapacity div int numShards in if c < 1 then 1 else c)"

definition newShardedCache :: "int \<Rightarrow> nat \<Rightarrow> 'a sharded" where
  "newShardedCache totalCapacity pow =
    (let numShards = 2 ^ pow
     in \<lparr>sc_shards = replicate numShards (newLRUCache (shard_capacity totalCapacity numShards)),
         sc_shardMask = of_nat (numShards - 1)\<rparr>)"

definition mask_shard :: "'a sharded \<Rightarrow> u64 \<Rightarrow> nat" where
  "mask_shard s key = unat (key AND sc_shardMask s)"

definition getShard :: "'a sharded \<Rightarrow> u64 \<Rightarrow> 'a lru" where
  "getShard s key = sc_shards s ! mask_shard s key"

definition mod_shard :: "'a sharded \<Rightarrow> u64 \<Rightarrow> nat" where
  "mod_shard s i = unat (i mod of_nat (length (sc_shards s)))"

definition upd_shard :: "nat \<Rightarrow> ('a lru \<Rightarrow> 'a lru) \<Rightarrow> 'a sharded \<Rightarrow> 'a sharded" where
  "upd_shard j f s = s\<lparr>sc_shards := (sc_shards s)[j := f (sc_shards s ! j)]\<rparr>"

definition sharded_get :: "u64 \<Rightarrow> 'a sharded \<Rightarrow> 'a option \<times> 'a sharded" where
  "sharded_get key s = (fst (lru_get key (getShard s key)), upd_shard (mask_shard s key) (\<lambda>c. snd (lru_get key c)) s)"

definition sharded_tryGet :: "u64 \<Rightarrow> 'a sharded \<Rightarrow> 'a option" where
  "sharded_tryGet i s = lru_tryGet i (sc_shards s ! mod_shard s i)"

definition sharded_put :: "u64 \<Rightarrow> 'a \<Rightarrow> 'a sharded \<Rightarrow> 'a sharded" where
  "sharded_put key v s = upd_shard (mask_shard s key) (lru_put key v) s"

definition sharded_delete :: "u64 \<Rightarrow> 'a sharded \<Rightarrow> 'a sharded" where
  "sharded_delete i s = upd_shard (mask_shard s i) (lru_delete i) s"

definition sharded_size :: "'a sharded \<Rightarrow> nat" where
  "sharded_size s = foldl (\<lambda>total c. total + lru_size c) 0 (sc_shards s)"

definition sharded_clear :: "'a sharded \<Rightarrow> 'a sharded" where
  "sharded_clear s = s\<lparr>sc_shards := map lru_clear (sc_shards s)\<rparr>"

definition sharded_Resize :: "int \<Rightarrow> 'a sharded \<Rightarrow> 'a sharded option" where
  "sharded_Resize newTotalCapacity s =
    map_option (\<lambda>cs. s\<lparr>sc_shards := cs\<rparr>)
      (those (map (lru_Resize (shard_capacity newTotalCapacity (length (sc_shards s)))) (sc_shards s)))"

definition sharded_capacity :: "'a sharded \<Rightarrow> int" where
  "sharded_capacity s = foldl (\<lambda>capacity c. capacity + lc_capacity c) 0 (sc_shards s)"

subsection \<open>The contract of an item cache\<close>

locale item_cache =
  fixes valid :: "'c \<Rightarrow> bool"
    and look :: "u64 \<Rightarrow> 'c \<Rightarrow> 'a option"
    and put :: "u64 \<Rightarrow> 'a \<Rightarrow> 'c \<Rightarrow> 'c"
    and del :: "u64 \<Rightarrow> 'c \<Rightarrow> 'c"
    and clr :: "'c \<Rightarrow> 'c"
  assumes put_valid: "valid c \<Longrightarrow> valid (put i v c)"
    and del_valid: "valid c \<Longrightarrow> valid (del i c)"
    and clr_valid: "valid c \<Longrightarrow> valid (clr c)"
    and put_hit: "valid c \<Longrightarrow> look i (put i v c) = Some v"
    and put_other: "valid c \<Longrightarrow> j \<noteq> i \<Longrightarrow> look j (put i v c) = Some w \<Longrightarrow> look j c = Some w"
    and del_hit: "valid c \<Longrightarrow> look i (del i c) = None"
    and del_other: "valid c \<Longrightarrow> j \<noteq> i \<Longrightarrow> look j (del i c) = look j c"
    and clr_miss: "valid c \<Longrightarrow> look i (clr c) = None"
begin

text \<open>A cache is coherent with a store when every cached answer is the stored one.\<close>

definition coherent :: "'c \<Rightarrow> (u64 \<Rightarrow> 'a option) \<Rightarrow> bool" where
  "coherent c m \<longleftrightarrow> valid c \<and> (\<forall>i v. look i c = Some v \<longrightarrow> m i = Some v)"

lemma coherent_put: "coherent c m \<Longrightarrow> coherent (put i v c) (m(i \<mapsto> v))"
  unfolding coherent_def by (metis fun_upd_apply put_hit put_other put_valid)

lemma coherent_refill: "coherent c m \<Longrightarrow> m i = Some v \<Longrightarrow> coherent (put i v c) m"
  using coherent_put [of c m i v] by (simp add: fun_upd_idem)

lemma coherent_del: "coherent c m \<Longrightarrow> coherent (del i c) (m(i := None))"
  unfolding coherent_def by (metis del_hit del_other del_valid fun_upd_apply option.distinct(1))

lemma coherent_clr: "coherent c m \<Longrightarrow> coherent (clr c) m'"
  unfolding coherent_def by (simp add: clr_miss clr_valid)

lemma coherent_look: "coherent c m \<Longrightarrow> look i c = Some v \<Longrightarrow> m i = Some v"
  by (simp add: coherent_def)

lemma coherent_empty: "valid c \<Longrightarrow> (\<And>i. look i c = None) \<Longrightarrow> coherent c m"
  by (simp add: coherent_def)

end

definition lru_valid :: "'a lru \<Rightarrow> bool" where
  "lru_valid c \<longleftrightarrow> lru_inv c \<and> 1 \<le> lc_capacity c"

lemma map_of_butlast: "distinct (map fst xs) \<Longrightarrow> map_of (butlast xs) j = Some w \<Longrightarrow> map_of xs j = Some w"
  by (induction xs) (auto split: if_splits)

lemma abs_put_hit: "1 \<le> cap \<Longrightarrow> map_of (abs_put cap i v xs) i = Some v"
  by (cases xs) (auto simp: abs_put_def)

lemma abs_put_other:
  assumes "distinct (map fst xs)" "j \<noteq> i" "map_of (abs_put cap i v xs) j = Some w"
  shows "map_of xs j = Some w"
  using assms map_of_butlast [of "(i, v) # xs" j w]
  by (auto simp: abs_put_def delete_conv' split: if_splits)

interpretation lru_cache: item_cache lru_valid lru_tryGet lru_put lru_delete lru_clear
proof
  fix c :: "'a lru" and i j :: u64 and v w :: 'a
  assume c: "lru_valid c"
  then have inv: "lru_inv c" and cap: "1 \<le> lc_capacity c" by (simp_all add: lru_valid_def)
  note put = lru_put_refines [OF inv, of i v] and del = lru_delete_refines [OF inv, of i]
  show "lru_valid (lru_put i v c)" "lru_valid (lru_delete i c)"
    using put del cap by (simp_all add: lru_valid_def)
  show "lru_valid (lru_clear c)"
    using cap lru_fresh(3) [of c] by (simp add: lru_valid_def lru_clear_def)
  show "lru_tryGet i (lru_put i v c) = Some v"
    using put cap by (simp add: lru_tryGet_refines abs_put_hit)
  show "lru_tryGet j c = Some w" if "j \<noteq> i" "lru_tryGet j (lru_put i v c) = Some w"
    using that abs_put_other [OF lru_distinct [OF inv], of j i "lc_capacity c" v w]
    by (simp add: lru_tryGet_refines put inv)
  show "lru_tryGet i (lru_delete i c) = None"
    using del by (simp add: lru_tryGet_refines delete_conv')
  show "lru_tryGet j (lru_delete i c) = lru_tryGet j c" if "j \<noteq> i"
    using that by (simp add: lru_tryGet_refines delete_conv' del inv)
  show "lru_tryGet i (lru_clear c) = None"
    using lru_fresh(3,4) [of c] by (simp add: lru_tryGet_refines)
qed

subsection \<open>The sharded cache satisfies the contract\<close>

definition sharded_valid :: "'a sharded \<Rightarrow> bool" where
  "sharded_valid s \<longleftrightarrow> (\<exists>k<63. length (sc_shards s) = 2 ^ k \<and> sc_shardMask s = of_nat (2 ^ k - 1))
    \<and> (\<forall>c\<in>set (sc_shards s). lru_valid c)"

lemma sharded_mask:
  assumes "sharded_valid s"
  shows "mask_shard s i < length (sc_shards s)" "mod_shard s i = mask_shard s i"
proof -
  obtain k where k: "k < 63" "length (sc_shards s) = 2 ^ k" "sc_shardMask s = of_nat (2 ^ k - 1)"
    using assms by (auto simp: sharded_valid_def)
  have "sc_shardMask s = mask k" using k by (simp add: mask_eq_exp_minus_1)
  then have m: "i AND sc_shardMask s = take_bit k i" by (simp add: take_bit_eq_mask)
  have "unat (take_bit k i) = unat i mod 2 ^ k" by (simp add: unsigned_take_bit_eq) (simp add: take_bit_eq_mod)
  with m have u: "mask_shard s i = unat i mod 2 ^ k" by (simp add: mask_shard_def)
  then show "mask_shard s i < length (sc_shards s)" using k by simp
  have "(2 :: nat) ^ k < 2 ^ 64" using k(1) by (intro power_strict_increasing) auto
  then have "unat (of_nat (2 ^ k) :: u64) = 2 ^ k"
    using k(1) by (simp only: unsigned_of_nat take_bit_nat_eq_self len_bit1 len_num1 len_bit0) simp
  then have "mod_shard s i = unat i mod 2 ^ k" using k by (simp add: mod_shard_def unat_mod_distrib)
  with u show "mod_shard s i = mask_shard s i" by simp
qed

lemma upd_shard_valid:
  "sharded_valid s \<Longrightarrow> (\<And>c. lru_valid c \<Longrightarrow> lru_valid (f c)) \<Longrightarrow> sharded_valid (upd_shard j f s)"
proof (cases "j < length (sc_shards s)")
  case True
  then show "sharded_valid s \<Longrightarrow> (\<And>c. lru_valid c \<Longrightarrow> lru_valid (f c)) \<Longrightarrow> ?thesis"
    by (auto simp: sharded_valid_def upd_shard_def dest!: subsetD [OF set_update_subset_insert])
qed (simp add: upd_shard_def list_update_beyond)

lemma shard_valid: "sharded_valid s \<Longrightarrow> lru_valid (sc_shards s ! mask_shard s i)"
  using sharded_mask(1) [of s i] by (simp add: sharded_valid_def)

lemma upd_shard_lookup:
  assumes "sharded_valid s" "\<And>c. lru_valid c \<Longrightarrow> lru_valid (f c)"
  shows "sharded_tryGet j (upd_shard (mask_shard s i) f s) =
    (if mask_shard s j = mask_shard s i then lru_tryGet j (f (sc_shards s ! mask_shard s i)) else sharded_tryGet j s)"
proof -
  have v: "sharded_valid (upd_shard (mask_shard s i) f s)" using assms by (rule upd_shard_valid)
  have "mask_shard (upd_shard (mask_shard s i) f s) j = mask_shard s j"
    by (simp add: mask_shard_def upd_shard_def)
  then show ?thesis
    using sharded_mask [OF v, of j] sharded_mask [OF assms(1), of j] sharded_mask [OF assms(1), of i]
    by (auto simp: sharded_tryGet_def upd_shard_def)
qed

lemma sharded_tryGet_mask:
  "sharded_valid s \<Longrightarrow> sharded_tryGet i s = lru_tryGet i (sc_shards s ! mask_shard s i)"
  by (simp add: sharded_tryGet_def sharded_mask)

lemma sharded_clear_lookup:
  assumes "sharded_valid s"
  shows "sharded_tryGet i (sharded_clear s) = None"
proof -
  have "mod_shard (sharded_clear s) i = mask_shard s i"
    using sharded_mask [OF assms, of i] by (simp add: mod_shard_def sharded_clear_def)
  then show ?thesis
    using sharded_mask(1) [OF assms, of i] lru_cache.clr_miss [OF shard_valid [OF assms]]
    by (simp add: sharded_tryGet_def sharded_clear_def)
qed

interpretation sharded_cache: item_cache sharded_valid sharded_tryGet sharded_put sharded_delete sharded_clear
proof
  fix s :: "'a sharded" and i j :: u64 and v w :: 'a
  assume s: "sharded_valid s"
  note sv = shard_valid [OF s]
  note upd = upd_shard_lookup [OF s] sharded_tryGet_mask [OF s]
  show "sharded_valid (sharded_put i v s)" "sharded_valid (sharded_delete i s)"
    unfolding sharded_put_def sharded_delete_def
    by (rule upd_shard_valid [OF s], erule lru_cache.put_valid lru_cache.del_valid)+
  show "sharded_valid (sharded_clear s)"
    using s lru_cache.clr_valid by (auto simp: sharded_valid_def sharded_clear_def)
  show "sharded_tryGet i (sharded_put i v s) = Some v"
    by (simp add: sharded_put_def upd lru_cache.put_valid lru_cache.put_hit sv)
  show "sharded_tryGet j s = Some w" if "j \<noteq> i" "sharded_tryGet j (sharded_put i v s) = Some w"
    using that lru_cache.put_other [OF sv [of i], of j i v w]
    by (simp add: sharded_put_def upd lru_cache.put_valid split: if_splits)
  show "sharded_tryGet i (sharded_delete i s) = None"
    by (simp add: sharded_delete_def upd lru_cache.del_valid lru_cache.del_hit sv)
  show "sharded_tryGet j (sharded_delete i s) = sharded_tryGet j s" if "j \<noteq> i"
    using that lru_cache.del_other [OF sv [of i], of j i]
    by (simp add: sharded_delete_def upd lru_cache.del_valid split: if_splits)
  show "sharded_tryGet i (sharded_clear s) = None" using s by (rule sharded_clear_lookup)
qed

lemma shard_capacity_pos: "1 \<le> shard_capacity cap n"
  by (simp add: shard_capacity_def Let_def)

lemma newSharded_valid: "pow < 63 \<Longrightarrow> sharded_valid (newShardedCache cap pow :: 'a sharded)"
proof -
  assume "pow < 63"
  moreover have "lru_valid (newLRUCache (shard_capacity cap n) :: 'a lru)" for n
    using shard_capacity_pos [of cap n] lru_fresh(1) by (auto simp: lru_valid_def newLRUCache_def)
  ultimately show ?thesis by (auto simp: sharded_valid_def newShardedCache_def Let_def)
qed

lemma newSharded_miss: "pow < 63 \<Longrightarrow> sharded_tryGet i (newShardedCache cap pow) = (None :: 'a option)"
proof -
  assume "pow < 63"
  then have v: "sharded_valid (newShardedCache cap pow :: 'a sharded)" by (rule newSharded_valid)
  then have "sc_shards (newShardedCache cap pow :: 'a sharded) ! mask_shard (newShardedCache cap pow :: 'a sharded) i
      = newLRUCache (shard_capacity cap (2 ^ pow))"
    using sharded_mask(1) [OF v, of i] by (simp add: newShardedCache_def Let_def)
  then show ?thesis using v by (simp add: sharded_tryGet_mask lru_tryGet_def) (simp add: newLRUCache_def)
qed

text \<open>The two ways the code selects a shard, \<^verbatim>\<open>key & shardMask\<close> (put, get, delete) and
  \<^verbatim>\<open>id % len(shards)\<close> (tryGet), always name the same existing shard, so what was put is found.\<close>

theorem shard_selection_agrees:
  fixes v :: 'a and ps :: "(u64 \<times> 'a) list" and cap :: int
  assumes "pow < 63"
  defines "s \<equiv> fold (\<lambda>(j, w). sharded_put j w) ps (newShardedCache cap pow)"
  shows "mod_shard s i = mask_shard s i \<and> mask_shard s i < length (sc_shards s)
    \<and> sharded_tryGet i (sharded_put i v s) = Some v"
proof -
  have "sharded_valid (fold (\<lambda>(j, w). sharded_put j w) ps s')" if "sharded_valid s'" for s' :: "'a sharded"
    using that by (induction ps arbitrary: s') (auto intro: sharded_cache.put_valid)
  then have "sharded_valid s" unfolding s_def using newSharded_valid [OF assms(1)] by blast
  then show ?thesis using sharded_mask [of s i] sharded_cache.put_hit [of s i v] by simp
qed

theorem shard_selection_agrees_witness:
  "mod_shard (sharded_put 40 7 (newShardedCache 10000 6) :: nat sharded) 1000 = 40
    \<and> sharded_tryGet 1000 (sharded_put 1000 5 (sharded_put 40 7 (newShardedCache 10000 6) :: nat sharded)) = Some 5"
proof -
  have "mask_shard (sharded_put 40 7 (newShardedCache 10000 6) :: nat sharded) 1000 = 40"
    by (simp add: mask_shard_def sharded_put_def upd_shard_def newShardedCache_def)
  then show ?thesis using shard_selection_agrees [of 6 "[(40, 7 :: nat)]" 10000 1000 5]
    by (simp del: One_nat_def)
qed

end
