(* ===== verification/TopNCache.thy ===== *)
theory TopNCache
  imports Models
begin

text \<open>
  The top-N cache of \<^verbatim>\<open>mt-manager/merkletree/cache_top_n.go\<close> and its iterator.

  \<^verbatim>\<open>sort.Slice\<close> leaves the order of equal keys open; the model takes the stable order. What the
  lemmas say of the sequence of keys does not depend on that choice. A panic (a negative slice
  bound in \<^verbatim>\<open>GetTop\<close>) is \<open>None\<close>.
\<close>

subsection \<open>The cache\<close>

record 'a topn =
  tc_items :: "'a list"
  tc_capacity :: int
  tc_ascending :: bool
  tc_enabled :: bool

definition NewTopNCache :: "int \<Rightarrow> bool \<Rightarrow> 'a topn" where
  "NewTopNCache capacity ascending =
    (if capacity \<le> 0 then \<lparr>tc_items = [], tc_capacity = 0, tc_ascending = False, tc_enabled = False\<rparr>
     else \<lparr>tc_items = [], tc_capacity = capacity, tc_ascending = ascending, tc_enabled = True\<rparr>)"

definition keyToUint64 :: "bytes \<Rightarrow> u64" where
  "keyToUint64 key = be_word key"

text \<open>The sort order of the cache as an integer, smallest first.\<close>

definition rank :: "'a hashable \<Rightarrow> bool \<Rightarrow> 'a \<Rightarrow> int" where
  "rank H ascending it = (if ascending then uint (keyToUint64 (h_Key H it)) else - uint (keyToUint64 (h_Key H it)))"

definition resortUnderLock :: "'a hashable \<Rightarrow> 'a topn \<Rightarrow> 'a topn" where
  "resortUnderLock H tc = (if length (tc_items tc) \<le> 1 then tc
     else tc\<lparr>tc_items := sort_key (rank H (tc_ascending tc)) (tc_items tc)\<rparr>)"

definition should_insert :: "'a hashable \<Rightarrow> 'a topn \<Rightarrow> 'a \<Rightarrow> bool" where
  "should_insert H tc it =
    (let key = keyToUint64 (h_Key H it);
         lastKey = keyToUint64 (h_Key H (tc_items tc ! (length (tc_items tc) - 1)))
     in if tc_ascending tc then key < lastKey else key > lastKey)"

definition TryInsert :: "'a hashable \<Rightarrow> 'a \<Rightarrow> 'a topn \<Rightarrow> bool \<times> 'a topn" where
  "TryInsert H it tc =
    (let count = length (tc_items tc)
     in if \<not> tc_enabled tc then (False, tc)
        else if int count < tc_capacity tc then
          (True, resortUnderLock H (tc\<lparr>tc_items := tc_items tc @ [it]\<rparr>))
        else if should_insert H tc it then
          (True, resortUnderLock H (tc\<lparr>tc_items := (tc_items tc)[count - 1 := it]\<rparr>))
        else (False, tc))"

fun remove_by_id :: "'a hashable \<Rightarrow> u64 \<Rightarrow> 'a list \<Rightarrow> 'a list option" where
  "remove_by_id H i [] = None"
| "remove_by_id H i (x # xs) = (if h_ID H x = i then Some xs else map_option ((#) x) (remove_by_id H i xs))"

definition topn_Remove :: "'a hashable \<Rightarrow> 'a \<Rightarrow> 'a topn \<Rightarrow> bool \<times> 'a topn" where
  "topn_Remove H it tc =
    (if \<not> tc_enabled tc then (False, tc)
     else case remove_by_id H (h_ID H it) (tc_items tc) of
       Some xs \<Rightarrow> (True, tc\<lparr>tc_items := xs\<rparr>) | None \<Rightarrow> (False, tc))"

definition topn_Clear :: "'a topn \<Rightarrow> 'a topn" where
  "topn_Clear tc = (if \<not> tc_enabled tc then tc else tc\<lparr>tc_items := []\<rparr>)"

definition GetTop :: "int \<Rightarrow> 'a topn \<Rightarrow> 'a list option" where
  "GetTop n tc =
    (if \<not> tc_enabled tc then Some []
     else let count = int (length (tc_items tc));
              m = (if n > count then count else n)
          in if m = 0 then Some [] else if m < 0 then None else Some (take (nat m) (tc_items tc)))"

definition GetFirst :: "'a topn \<Rightarrow> 'a option" where
  "GetFirst tc = (if \<not> tc_enabled tc then None else case tc_items tc of [] \<Rightarrow> None | x # _ \<Rightarrow> Some x)"

definition topn_Count :: "'a topn \<Rightarrow> nat" where
  "topn_Count tc = (if \<not> tc_enabled tc then 0 else length (tc_items tc))"

subsection \<open>The iterator\<close>

record 'a topn_iterator =
  it_items :: "'a list"
  it_current :: nat

definition NewTopNIterator :: "'a list \<Rightarrow> 'a topn_iterator" where
  "NewTopNIterator xs = \<lparr>it_items = xs, it_current = 0\<rparr>"

text \<open>\<^verbatim>\<open>GetIteratorMin\<close> and \<^verbatim>\<open>GetIteratorMax\<close> have the same body.\<close>

definition GetIterator :: "'a topn \<Rightarrow> 'a topn_iterator" where
  "GetIterator tc = (if \<not> tc_enabled tc then NewTopNIterator []
     else if length (tc_items tc) = 0 then NewTopNIterator [] else NewTopNIterator (tc_items tc))"

definition HasNext :: "'a topn_iterator \<Rightarrow> bool" where
  "HasNext it \<longleftrightarrow> it_current it < length (it_items it)"

definition Next :: "'a topn_iterator \<Rightarrow> 'a option \<times> 'a topn_iterator" where
  "Next it = (if \<not> HasNext it then (None, it)
     else (Some (it_items it ! it_current it), it\<lparr>it_current := it_current it + 1\<rparr>))"

definition Peek :: "'a topn_iterator \<Rightarrow> 'a option" where
  "Peek it = (if \<not> HasNext it then None else Some (it_items it ! it_current it))"

definition Remaining :: "'a topn_iterator \<Rightarrow> int" where
  "Remaining it = int (length (it_items it)) - int (it_current it)"

definition iter_Reset :: "'a topn_iterator \<Rightarrow> 'a topn_iterator" where
  "iter_Reset it = it\<lparr>it_current := 0\<rparr>"

definition ToSlice :: "'a topn_iterator \<Rightarrow> 'a list" where
  "ToSlice it = (if \<not> HasNext it then [] else drop (it_current it) (it_items it))"

text \<open>The loops of \<^verbatim>\<open>ForEach\<close> (its callback acts on a state \<open>'s\<close>) and \<^verbatim>\<open>TakeWhile\<close>.\<close>

function ForEach :: "('a \<Rightarrow> 's \<Rightarrow> 's) \<Rightarrow> 'a topn_iterator \<Rightarrow> 's \<Rightarrow> 's \<times> 'a topn_iterator" where
  "ForEach fn it s = (if HasNext it then ForEach fn (snd (Next it)) (fn (the (fst (Next it))) s) else (s, it))"
  by pat_completeness auto
termination
  by (relation "measure (\<lambda>(fn, it, s). length (it_items it) - it_current it)") (auto simp: HasNext_def Next_def)

function TakeWhile_loop :: "('a \<Rightarrow> bool) \<Rightarrow> 'a topn_iterator \<Rightarrow> 'a list \<Rightarrow> 'a list \<times> 'a topn_iterator" where
  "TakeWhile_loop predicate it result =
    (if HasNext it then
       let item = the (Peek it)
       in if \<not> predicate item then (result, it)
          else TakeWhile_loop predicate (snd (Next it)) (result @ [item])
     else (result, it))"
  by pat_completeness auto
termination
  by (relation "measure (\<lambda>(p, it, r). length (it_items it) - it_current it)") (auto simp: HasNext_def Next_def)

definition TakeWhile :: "('a \<Rightarrow> bool) \<Rightarrow> 'a topn_iterator \<Rightarrow> 'a list \<times> 'a topn_iterator" where
  "TakeWhile predicate it = TakeWhile_loop predicate it []"

declare ForEach.simps [simp del] TakeWhile_loop.simps [simp del]

subsection \<open>The iterator reads a list\<close>

definition rest :: "'a topn_iterator \<Rightarrow> 'a list" where
  "rest it = drop (it_current it) (it_items it)"

lemma next_rest:
  "HasNext it \<longleftrightarrow> rest it \<noteq> []"
  "rest it = x # xs \<Longrightarrow> Next it = (Some x, it\<lparr>it_current := it_current it + 1\<rparr>)"
  "rest it = x # xs \<Longrightarrow> rest (it\<lparr>it_current := it_current it + 1\<rparr>) = xs"
  "rest it = x # xs \<Longrightarrow> Peek it = Some x"
proof -
  have cut: "it_current it < length (it_items it) \<and> it_items it ! it_current it = x \<and>
      drop (Suc (it_current it)) (it_items it) = xs" if "rest it = x # xs"
    using that unfolding rest_def by (metis Cons_nth_drop_Suc drop_eq_Nil list.discI list.inject not_le)
  show "HasNext it \<longleftrightarrow> rest it \<noteq> []" by (simp add: HasNext_def rest_def not_le)
  show "rest it = x # xs \<Longrightarrow> Next it = (Some x, it\<lparr>it_current := it_current it + 1\<rparr>)"
    "rest it = x # xs \<Longrightarrow> Peek it = Some x"
    "rest it = x # xs \<Longrightarrow> rest (it\<lparr>it_current := it_current it + 1\<rparr>) = xs"
    using cut by (auto simp: HasNext_def Next_def Peek_def rest_def)
qed

lemma ForEach_fold:
  "ForEach fn it s = (fold fn (rest it) s, it\<lparr>it_current := it_current it + length (rest it)\<rparr>)"
proof (induction "rest it" arbitrary: it s)
  case Nil
  then show ?case by (simp add: ForEach.simps [of fn it] next_rest(1))
next
  case (Cons x xs)
  note nx = next_rest(2,3) [OF Cons.hyps(2) [symmetric]]
  show ?case
    using Cons.hyps(1) [of "it\<lparr>it_current := it_current it + 1\<rparr>" "fn x s"] nx Cons.hyps(2) [symmetric]
    by (simp add: ForEach.simps [of fn it] next_rest(1))
qed

lemma TakeWhile_loop_takeWhile:
  "TakeWhile_loop p it r =
    (r @ takeWhile p (rest it), it\<lparr>it_current := it_current it + length (takeWhile p (rest it))\<rparr>)"
proof (induction "rest it" arbitrary: it r)
  case Nil
  then show ?case by (simp add: TakeWhile_loop.simps [of p it] next_rest(1))
next
  case (Cons x xs)
  note nx = next_rest(2-4) [OF Cons.hyps(2) [symmetric]]
  show ?case
    using Cons.hyps(1) [of "it\<lparr>it_current := it_current it + 1\<rparr>" "r @ [x]"] nx Cons.hyps(2) [symmetric]
    by (simp add: TakeWhile_loop.simps [of p it] next_rest(1))
qed

text \<open>The iterator over a cache delivers exactly the cached items in cache order: \<^verbatim>\<open>ForEach\<close>
  visits them in order, \<^verbatim>\<open>TakeWhile\<close> returns the longest prefix satisfying the predicate and leaves
  the iterator on the first item that does not, whose remainder \<^verbatim>\<open>ToSlice\<close> returns.\<close>

theorem iterator_delivers_items:
  fixes tc :: "'a topn"
  shows "fst (ForEach fn (GetIterator tc) s) = fold fn (if tc_enabled tc then tc_items tc else []) s
   \<and> fst (TakeWhile p (GetIterator tc)) @ ToSlice (snd (TakeWhile p (GetIterator tc))) =
       (if tc_enabled tc then tc_items tc else [])
   \<and> fst (TakeWhile p (GetIterator tc)) = takeWhile p (if tc_enabled tc then tc_items tc else [])
   \<and> \<not> HasNext (snd (ForEach fn (GetIterator tc) s))"
proof -
  have r: "rest (GetIterator tc) = (if tc_enabled tc then tc_items tc else [])"
    by (simp add: rest_def GetIterator_def NewTopNIterator_def)
  have t: "ToSlice it = rest it" for it :: "'a topn_iterator"
    by (simp add: ToSlice_def rest_def HasNext_def)
  have d: "rest (it\<lparr>it_current := it_current it + n\<rparr>) = drop n (rest it)" for it :: "'a topn_iterator" and n
    by (simp add: rest_def add.commute)
  show ?thesis
    by (simp add: ForEach_fold TakeWhile_def TakeWhile_loop_takeWhile t next_rest(1) d)
      (simp add: r flip: dropWhile_eq_drop)
qed

subsection \<open>What the cache holds\<close>

lemma take_insort: "take n (insort r xs) = take n (insort r (take n xs))"
proof (induction xs arbitrary: n)
  case (Cons x xs)
  show ?case
  proof (cases n)
    case (Suc m)
    then show ?thesis using Cons.IH [of m] by (cases m) auto
  qed simp
qed simp

lemma insort_sorted_snoc:
  fixes xs :: "int list"
  assumes "sorted (xs @ [l])"
  shows "insort r (xs @ [l]) = (if r < l then insort r xs @ [l] else xs @ [l, r])"
proof -
  have "sort (insort r (xs @ [l])) = (if r < l then insort r xs @ [l] else xs @ [l, r])"
    using assms by (intro properties_for_sort) (auto simp: sorted_append sorted_insort set_insort_key)
  moreover have "sort (insort r (xs @ [l])) = insort r (xs @ [l])"
    using assms by (intro sorted_sort_id) (simp only: sorted_insort)
  ultimately show ?thesis by simp
qed

lemma sort_snoc: "sort (xs @ [r :: int]) = insort r (sort xs)"
  by (rule properties_for_sort) (auto simp: sorted_insort)

lemma map_sort_key: "map f (sort_key f xs) = sort (map f xs)"
  by (rule properties_for_sort [symmetric]) auto

abbreviation ranks :: "'a hashable \<Rightarrow> 'a topn \<Rightarrow> int list" where
  "ranks H tc \<equiv> map (rank H (tc_ascending tc)) (tc_items tc)"

lemma resort_ranks:
  "ranks H (resortUnderLock H tc) = sort (ranks H tc)"
  "mset (tc_items (resortUnderLock H tc)) = mset (tc_items tc)"
  "tc_ascending (resortUnderLock H tc) = tc_ascending tc" "tc_enabled (resortUnderLock H tc) = tc_enabled tc"
  "tc_capacity (resortUnderLock H tc) = tc_capacity tc"
proof -
  have "length xs \<le> 1 \<Longrightarrow> sort (map f xs) = map f xs" for f :: "'a \<Rightarrow> int" and xs
    by (cases xs) auto
  then show "ranks H (resortUnderLock H tc) = sort (ranks H tc)"
    by (simp add: resortUnderLock_def map_sort_key)
qed (simp_all add: resortUnderLock_def)

lemma TryInsert_ranks:
  assumes "tc_enabled tc" "0 < tc_capacity tc" "ranks H tc = take (nat (tc_capacity tc)) (sort all)"
  shows "ranks H (snd (TryInsert H it tc)) =
    take (nat (tc_capacity tc)) (sort (all @ [rank H (tc_ascending tc) it]))"
proof (cases "int (length (tc_items tc)) < tc_capacity tc")
  case True
  then have "length (sort all) < nat (tc_capacity tc)"
    using arg_cong [OF assms(3), of length] by auto
  then have "ranks H tc = sort all" using assms(3) by simp
  then have "ranks H (snd (TryInsert H it tc)) = sort (all @ [rank H (tc_ascending tc) it])"
    using True assms(1) by (simp add: TryInsert_def Let_def resort_ranks(1) [of H "tc\<lparr>tc_items := tc_items tc @ [it]\<rparr>", simplified] sort_snoc sorted_sort_id)
  then show ?thesis using \<open>length (sort all) < nat (tc_capacity tc)\<close> by simp
next
  case False
  let ?n = "nat (tc_capacity tc)" and ?r = "rank H (tc_ascending tc) it"
  have "length (tc_items tc) = ?n"
    using False arg_cong [OF assms(3), of length] by auto
  then obtain ys y where ys: "tc_items tc = ys @ [y]" and len: "?n = Suc (length ys)"
    using assms(2) by (cases "tc_items tc" rule: rev_cases) auto
  let ?R = "map (rank H (tc_ascending tc)) ys" and ?l = "rank H (tc_ascending tc) y"
  have R: "?R @ [?l] = take ?n (sort all)" using assms(3) ys by simp
  then have sorted: "sorted (?R @ [?l])" by (metis sorted_sort sorted_wrt_take)
  have "take ?n (sort (all @ [?r])) = take ?n (insort ?r (?R @ [?l]))"
    using take_insort [of ?n ?r "sort all"] by (simp add: sort_snoc R)
  also have "\<dots> = (if ?r < ?l then insort ?r ?R else ?R @ [?l])"
    using len ys insort_sorted_snoc [OF sorted, of ?r] by simp
  also have "?r < ?l \<longleftrightarrow> should_insert H tc it"
    by (simp add: should_insert_def Let_def ys rank_def word_less_def)
  finally have "take ?n (sort (all @ [?r])) = (if should_insert H tc it then insort ?r ?R else ?R @ [?l])" .
  moreover have "sort (?R @ [?r]) = insort ?r ?R"
    using sorted by (simp add: sort_snoc sorted_append sorted_sort_id)
  ultimately show ?thesis
    using False assms(1) ys resort_ranks(1) [of H "tc\<lparr>tc_items := ys @ [it]\<rparr>"]
    by (simp add: TryInsert_def Let_def)
qed

definition insert_all :: "'a hashable \<Rightarrow> 'a list \<Rightarrow> 'a topn \<Rightarrow> 'a topn" where
  "insert_all H its tc = fold (\<lambda>it tc. snd (TryInsert H it tc)) its tc"

lemma TryInsert_frame [frame_simps]:
  "tc_ascending (snd (TryInsert H it tc)) = tc_ascending tc"
  "tc_capacity (snd (TryInsert H it tc)) = tc_capacity tc"
  "tc_enabled (snd (TryInsert H it tc)) = tc_enabled tc"
  by (simp_all add: TryInsert_def Let_def resort_ranks)

lemma TryInsert_mset:
  "tc_capacity tc > 0 \<Longrightarrow> mset (tc_items (snd (TryInsert H it tc))) \<subseteq># add_mset it (mset (tc_items tc))"
proof (cases "tc_items tc" rule: rev_cases)
  case (snoc ys y)
  have "mset (ys @ [it]) \<subseteq># add_mset it (mset (ys @ [y]))" by simp
  with snoc show ?thesis by (simp add: TryInsert_def Let_def resort_ranks)
qed (simp add: TryInsert_def Let_def resort_ranks)

lemma insert_all_frame:
  "tc_ascending (insert_all H its tc) = tc_ascending tc" "tc_capacity (insert_all H its tc) = tc_capacity tc"
  "tc_enabled (insert_all H its tc) = tc_enabled tc"
  by (induction its arbitrary: tc) (simp_all add: insert_all_def frame_simps)

lemma insert_all_best:
  assumes "0 < cap"
  shows "ranks H (insert_all H its (NewTopNCache cap asc)) =
      take (nat cap) (sort (map (rank H asc) its)) \<and>
    mset (tc_items (insert_all H its (NewTopNCache cap asc))) \<subseteq># mset its"
proof (induction its rule: rev_induct)
  case Nil
  show ?case using assms by (simp add: insert_all_def NewTopNCache_def)
next
  case (snoc it its)
  let ?tc = "insert_all H its (NewTopNCache cap asc)"
  have f: "tc_ascending ?tc = asc" "tc_capacity ?tc = cap" "tc_enabled ?tc"
    using assms by (simp_all add: insert_all_frame) (simp_all add: NewTopNCache_def)
  have step: "insert_all H (its @ [it]) (NewTopNCache cap asc) = snd (TryInsert H it ?tc)"
    by (simp add: insert_all_def)
  have "mset (tc_items (snd (TryInsert H it ?tc))) \<subseteq># add_mset it (mset its)"
    using TryInsert_mset [of ?tc H it] snoc assms f(2) by (auto intro: subset_mset.order_trans)
  then show ?case
    using TryInsert_ranks [of ?tc H "map (rank H asc) its" it] snoc assms f
    by (simp add: step frame_simps)
qed

text \<open>C33. After any sequence of insertions a top-N cache holds inserted items only, and their
  keys are exactly the N smallest (ascending) or largest (descending) keys inserted, in order;
  \<^verbatim>\<open>GetFirst\<close> answers an item with the extreme key.\<close>

theorem topn_holds_best:
  fixes H :: "'a hashable" and asc :: bool and its :: "'a list" and cap :: int
  assumes "0 < cap"
  defines "tc \<equiv> insert_all H its (NewTopNCache cap asc)"
  shows "map (rank H asc) (tc_items tc) = take (nat cap) (sort (map (rank H asc) its))
    \<and> mset (tc_items tc) \<subseteq># mset its
    \<and> (case GetFirst tc of None \<Rightarrow> its = []
        | Some x \<Rightarrow> x \<in> set its \<and> (\<forall>y\<in>set its. rank H asc x \<le> rank H asc y))"
proof -
  have r: "map (rank H asc) (tc_items tc) = take (nat cap) (sort (map (rank H asc) its))"
    and m: "mset (tc_items tc) \<subseteq># mset its"
    using insert_all_best [OF assms(1), of H its asc] assms(1)
    by (simp_all add: tc_def insert_all_frame) (simp_all add: NewTopNCache_def)
  have en: "tc_enabled tc" using assms(1) by (simp add: tc_def insert_all_frame) (simp add: NewTopNCache_def)
  have "case GetFirst tc of None \<Rightarrow> its = []
        | Some x \<Rightarrow> x \<in> set its \<and> (\<forall>y\<in>set its. rank H asc x \<le> rank H asc y)"
  proof (cases "tc_items tc")
    case Nil
    then have "sort (map (rank H asc) its) = []" using r assms(1) by simp
    then have "its = []" by (metis length_0_conv length_map length_sort)
    then show ?thesis using Nil en by (simp add: GetFirst_def)
  next
    case (Cons x xs)
    then obtain ys where ys: "sort (map (rank H asc) its) = rank H asc x # ys"
      using r by (cases "sort (map (rank H asc) its)") (auto simp: take_Cons' split: if_splits)
    then have "\<forall>z\<in>set (map (rank H asc) its). rank H asc x \<le> z"
      by (metis set_ConsD set_sort sorted_simps(2) sorted_sort order_refl)
    moreover have "x \<in> set its" using Cons m by (metis list.set_intros(1) mset_subset_eqD set_mset_mset)
    ultimately show ?thesis using Cons en by (simp add: GetFirst_def)
  qed
  with r m show ?thesis by blast
qed

definition id_hashable :: "u64 hashable" where
  "id_hashable = \<lparr>h_Hash = (\<lambda>i. EncodeKey i), h_Key = EncodeKey, h_ID = (\<lambda>i. i)\<rparr>"

theorem topn_holds_best_witness:
  "map (rank id_hashable True) (tc_items (insert_all id_hashable [5, 3, 9, 1] (NewTopNCache 2 True))) = [1, 3]"
proof -
  have "map (rank id_hashable True) [5, 3, 9, 1] = [5, 3, 9, 1]"
    by (simp add: rank_def id_hashable_def keyToUint64_def EncodeKey_def)
  then show ?thesis using topn_holds_best [of 2 id_hashable True "[5, 3, 9, 1]"] by simp
qed

text \<open>The cache is not refilled after a removal: with more than N items inserted, removing
  the best one leaves N - 1 items in the cache, so \<^verbatim>\<open>GetTop(N)\<close> answers one item too few until
  something else is inserted, although at least N items remain.\<close>

theorem topn_not_refilled:
  fixes H :: "'a hashable" and asc :: bool and its :: "'a list" and cap :: int
  assumes "0 < cap" "cap < int (length its)"
    and "GetFirst (insert_all H its (NewTopNCache cap asc)) = Some best"
  defines "tc' \<equiv> snd (topn_Remove H best (insert_all H its (NewTopNCache cap asc)))"
  shows "int (topn_Count tc') = cap - 1 \<and> map_option length (GetTop cap tc') = Some (nat (cap - 1))
    \<and> cap \<le> int (length its) - 1"
proof -
  let ?tc = "insert_all H its (NewTopNCache cap asc)"
  have en: "tc_enabled ?tc" using assms(1) by (simp add: insert_all_frame) (simp add: NewTopNCache_def)
  have "length (map (rank H (tc_ascending ?tc)) (tc_items ?tc)) = nat cap"
    using insert_all_best [OF assms(1), of H its asc] assms(1,2) by simp
  then have len: "length (tc_items ?tc) = nat cap" by simp
  obtain xs where xs: "tc_items ?tc = best # xs"
    using assms(3) en by (auto simp: GetFirst_def split: list.splits)
  then have "tc' = ?tc\<lparr>tc_items := xs\<rparr>" by (simp add: tc'_def topn_Remove_def en)
  then show ?thesis using len xs en assms(1,2) by (auto simp: topn_Count_def GetTop_def Let_def)
qed

theorem topn_not_refilled_witness:
  "int (topn_Count (snd (topn_Remove id_hashable 1
      (insert_all id_hashable [5, 3, 1] (NewTopNCache 2 True))))) = 1"
proof -
  have "GetFirst (insert_all id_hashable [5, 3, 1] (NewTopNCache 2 True)) = Some 1" by code_simp
  then show ?thesis using topn_not_refilled [of 2 "[5, 3, 1]" id_hashable True 1] by simp
qed

end
