(* ===== verification/MerkleTree.thy ===== *)
theory MerkleTree
  imports NodeSpec ShardedCache TopNCache
begin

text \<open>
  The tree of \<^verbatim>\<open>mt-manager/merkletree/tree.go\<close>: the record \<open>tree\<close> and its exported methods.

  \<^item> \<^verbatim>\<open>sync.Map\<close> is the association list \<open>t_items\<close>; the counters keep their width.
  \<^item> The arena is represented by its allocation counter, and the float fields of the statistics are left out.
  \<^item> A method that may panic in the node tree returns an option.
  \<^item> Goroutines that store or place items are a schedule: a function from the chunks (or groups)
    they were given to the order in which the items are processed.
\<close>

subsection \<open>State\<close>

record 'a tree =
  t_root :: "'a node"
  t_items :: "(u64 \<times> 'a) list"
  t_itemCount :: u64
  t_allocated :: nat
  t_cache :: "'a sharded"
  t_maxDepth :: int
  t_topMin :: "'a topn"
  t_topMax :: "'a topn"
  t_name :: string
  t_dirtyNodes :: u64
  t_cachedRoot :: bytes
  t_rootCacheValid :: bool
  t_insertCount :: u64
  t_batchInsertCount :: u64
  t_deleteCount :: u64
  t_deletedNodeCount :: u64
  t_getCount :: u64
  t_cacheHits :: u64
  t_cacheMisses :: u64

definition SmallBatchThreshold :: nat where
  "SmallBatchThreshold = 30"

definition ParallelBatchThreshold :: nat where
  "ParallelBatchThreshold = 150"

definition DeletedNodeHash :: "(bytes \<Rightarrow> bytes) \<Rightarrow> bytes" where
  "DeletedNodeHash h = arr32 (h (map of_char ''__DELETED_NODE__''))"

definition NewTree :: "config option \<Rightarrow> 'a tree" where
  "NewTree cfg0 =
    (let cfg = (case cfg0 of None \<Rightarrow> DefaultConfig | Some c \<Rightarrow> c)
     in \<lparr>t_root = alloc, t_items = [], t_itemCount = 0, t_allocated = 1,
         t_cache = newShardedCache (CacheSize cfg) (CacheShards cfg), t_maxDepth = MaxDepth cfg,
         t_topMin = NewTopNCache (TopN cfg) True, t_topMax = NewTopNCache (TopN cfg) False,
         t_name = '''', t_dirtyNodes = 0, t_cachedRoot = zero32, t_rootCacheValid = False,
         t_insertCount = 0, t_batchInsertCount = 0, t_deleteCount = 0, t_deletedNodeCount = 0,
         t_getCount = 0, t_cacheHits = 0, t_cacheMisses = 0\<rparr>)"

subsection \<open>Insertion\<close>

definition place_item :: "'a hashable \<Rightarrow> 'a \<Rightarrow> 'a tree \<Rightarrow> 'a tree option" where
  "place_item H item t =
    map_option (\<lambda>(r, n, a). t\<lparr>t_root := r, t_dirtyNodes := t_dirtyNodes t + of_nat n,
        t_allocated := t_allocated t + a\<rparr>)
      (insertNode H (t_maxDepth t) item 0 (t_root t))"

definition place_item_locked :: "'a hashable \<Rightarrow> 'a \<Rightarrow> 'a tree \<Rightarrow> 'a tree option" where
  "place_item_locked H item t =
    map_option (\<lambda>(r, n, a). t\<lparr>t_root := r, t_dirtyNodes := t_dirtyNodes t + of_nat n,
        t_allocated := t_allocated t + a\<rparr>)
      (insertNodeUnderGlobalLock H (t_maxDepth t) item 0 (t_root t))"

definition Insert :: "'a hashable \<Rightarrow> 'a \<Rightarrow> 'a tree \<Rightarrow> 'a tree option" where
  "Insert H item t =
    (let t1 = t\<lparr>t_items := AList.update (h_ID H item) item (t_items t),
                t_itemCount := t_itemCount t + 1,
                t_cache := sharded_put (h_ID H item) item (t_cache t)\<rparr>
     in case place_item H item t1 of
          None \<Rightarrow> None
        | Some t2 \<Rightarrow> Some (t2\<lparr>t_rootCacheValid := False,
              t_topMin := snd (TryInsert H item (t_topMin t2)),
              t_topMax := snd (TryInsert H item (t_topMax t2)),
              t_insertCount := t_insertCount t2 + 1\<rparr>))"

definition store_item :: "'a hashable \<Rightarrow> 'a \<Rightarrow> 'a tree \<Rightarrow> 'a tree" where
  "store_item H item t =
    t\<lparr>t_items := AList.update (h_ID H item) item (t_items t),
      t_cache := sharded_put (h_ID H item) item (t_cache t),
      t_topMin := snd (TryInsert H item (t_topMin t)),
      t_topMax := snd (TryInsert H item (t_topMax t))\<rparr>"

fun each_item :: "('a \<Rightarrow> 'a tree \<Rightarrow> 'a tree option) \<Rightarrow> 'a list \<Rightarrow> 'a tree \<Rightarrow> 'a tree option" where
  "each_item f [] t = Some t"
| "each_item f (x # xs) t = (case f x t of None \<Rightarrow> None | Some t' \<Rightarrow> each_item f xs t')"

definition store_items :: "'a hashable \<Rightarrow> 'a list \<Rightarrow> nat \<Rightarrow> 'a tree \<Rightarrow> 'a tree" where
  "store_items H stored n t =
    (let t1 = fold (store_item H) stored t in t1\<lparr>t_itemCount := t_itemCount t1 + of_nat n\<rparr>)"

definition invalidate :: "'a tree \<Rightarrow> 'a tree" where
  "invalidate t = t\<lparr>t_rootCacheValid := False\<rparr>"

definition insertBatchSimple :: "'a hashable \<Rightarrow> 'a list \<Rightarrow> 'a tree \<Rightarrow> 'a tree option" where
  "insertBatchSimple H items t =
    map_option invalidate (each_item (place_item_locked H) items (store_items H items (length items) t))"

definition insertBatchSequential :: "'a hashable \<Rightarrow> 'a list \<Rightarrow> 'a tree \<Rightarrow> 'a tree option" where
  "insertBatchSequential H items t =
    map_option invalidate (each_item (place_item H) items (store_items H items (length items) t))"

subsection \<open>Batches in parallel\<close>

type_synonym 'a schedule = "'a list list \<Rightarrow> 'a list"

text \<open>The chunks \<^verbatim>\<open>items[start:end]\<close> handed to \<^verbatim>\<open>numWorkers\<close> goroutines.\<close>

definition chunk_size :: "nat \<Rightarrow> nat \<Rightarrow> nat" where
  "chunk_size n numWorkers = (n + numWorkers - 1) div numWorkers"

definition worker_chunks :: "nat \<Rightarrow> 'a list \<Rightarrow> 'a list list" where
  "worker_chunks numWorkers items =
    (let sz = chunk_size (length items) numWorkers
     in map (\<lambda>i. go_slice (i * sz) sz items)
          (takeWhile (\<lambda>i. i * sz < length items) [0..<numWorkers]))"

definition parallel_workers :: "nat \<Rightarrow> nat \<Rightarrow> nat" where
  "parallel_workers numCPU n =
    (let w1 = (if numCPU \<ge> 32 then numCPU * 3 div 2 else numCPU);
         w2 = (if w1 > 64 then 64 else w1)
     in if w2 > n then n else w2)"

definition insertBatchParallel ::
    "'a hashable \<Rightarrow> nat \<Rightarrow> 'a schedule \<Rightarrow> 'a schedule \<Rightarrow> 'a list \<Rightarrow> 'a tree \<Rightarrow> 'a tree option" where
  "insertBatchParallel H numCPU s1 s2 items t =
    (if length items = 0 then Some t
     else
       let chunks = worker_chunks (parallel_workers numCPU (length items)) items
       in map_option invalidate
            (each_item (place_item H) (s2 chunks) (store_items H (s1 chunks) (length items) t)))"

definition mega_workers :: "nat \<Rightarrow> nat \<Rightarrow> nat" where
  "mega_workers numCPU n =
    (let w1 = numCPU * 3; w2 = (if w1 > 144 then 144 else w1)
     in if w2 > n then n else w2)"

definition group_size :: "nat \<Rightarrow> nat" where
  "group_size n = (if n > 10000 then 4096 else 256)"

definition group_key :: "'a hashable \<Rightarrow> nat \<Rightarrow> 'a \<Rightarrow> nat" where
  "group_key H sz item =
    (let key = h_Key H item
     in if sz = 256 then unat (key ! 0)
        else unat (push_bit 8 (ucast (key ! 0)) OR ucast (key ! 1) :: u64))"

text \<open>The grouping loop; \<open>None\<close> is the panic of an index outside \<^verbatim>\<open>groups\<close>.\<close>

fun group_items :: "'a hashable \<Rightarrow> nat \<Rightarrow> 'a list \<Rightarrow> 'a list list \<Rightarrow> 'a list list option" where
  "group_items H sz [] groups = Some groups"
| "group_items H sz (item # items) groups =
    (let k = group_key H sz item
     in if k \<ge> length groups then None
        else group_items H sz items (groups[k := groups ! k @ [item]]))"

definition insertBatchMegaParallel ::
    "'a hashable \<Rightarrow> nat \<Rightarrow> 'a schedule \<Rightarrow> 'a schedule \<Rightarrow> 'a list \<Rightarrow> 'a tree \<Rightarrow> 'a tree option" where
  "insertBatchMegaParallel H numCPU s1 s2 items t =
    (if length items = 0 then Some t
     else
       let chunks = worker_chunks (mega_workers numCPU (length items)) items;
           t1 = store_items H (s1 chunks) (length items) t;
           sz = group_size (length items)
       in case group_items H sz items (replicate sz []) of
            None \<Rightarrow> None
          | Some groups \<Rightarrow>
              map_option invalidate
                (each_item (place_item H) (s2 (filter (\<lambda>g. length g > 0) groups)) t1))"

definition InsertBatch ::
    "'a hashable \<Rightarrow> nat \<Rightarrow> 'a schedule \<Rightarrow> 'a schedule \<Rightarrow> 'a list \<Rightarrow> 'a tree \<Rightarrow> 'a tree option" where
  "InsertBatch H numCPU s1 s2 items t =
    (if length items = 0 then Some t
     else map_option (\<lambda>t'. t'\<lparr>t_batchInsertCount := t_batchInsertCount t' + 1\<rparr>)
       (if length items < SmallBatchThreshold then insertBatchSimple H items t
        else if length items < ParallelBatchThreshold then insertBatchSequential H items t
        else if length items < 5000 then insertBatchParallel H numCPU s1 s2 items t
        else insertBatchMegaParallel H numCPU s1 s2 items t))"

subsection \<open>Lookup and root\<close>

definition GetItem :: "u64 \<Rightarrow> 'a tree \<Rightarrow> 'a option \<times> 'a tree" where
  "GetItem i t0 =
    (let t = t0\<lparr>t_getCount := t_getCount t0 + 1\<rparr>
     in case sharded_tryGet i (t_cache t) of
          Some item \<Rightarrow>
            let t1 = t\<lparr>t_cacheHits := t_cacheHits t + 1\<rparr>
            in (Some item,
                if t_getCount t1 mod 100 = 0 then t1\<lparr>t_cache := sharded_put i item (t_cache t1)\<rparr> else t1)
        | None \<Rightarrow>
            case map_of (t_items t) i of
              Some item \<Rightarrow>
                (Some item, t\<lparr>t_cache := sharded_put i item (t_cache t), t_cacheMisses := t_cacheMisses t + 1\<rparr>)
            | None \<Rightarrow> (None, t\<lparr>t_cacheMisses := t_cacheMisses t + 1\<rparr>))"

text \<open>\<^verbatim>\<open>ComputeRoot\<close> first computes the hash and then publishes it; the compare-and-swap on
  \<^verbatim>\<open>dirtyNodes\<close> only covers the moments between its own load and swap.\<close>

definition compute_step :: "nat \<Rightarrow> (bytes \<Rightarrow> bytes) \<Rightarrow> 'a hashable \<Rightarrow> 'a tree \<Rightarrow> (bytes \<times> 'a tree) option" where
  "compute_step numCPU h H t = map_option (\<lambda>(root, n). (root, t\<lparr>t_root := n\<rparr>))
     (computeNodeHash h H numCPU (t_maxDepth t) 0 True (t_root t))"

definition publish_step :: "bytes \<Rightarrow> 'a tree \<Rightarrow> 'a tree" where
  "publish_step newRoot t = t\<lparr>t_cachedRoot := newRoot, t_rootCacheValid := True, t_dirtyNodes := 0\<rparr>"

definition ComputeRoot :: "nat \<Rightarrow> (bytes \<Rightarrow> bytes) \<Rightarrow> 'a hashable \<Rightarrow> 'a tree \<Rightarrow> (bytes \<times> 'a tree) option" where
  "ComputeRoot numCPU h H t =
    (if t_rootCacheValid t then Some (t_cachedRoot t, t)
     else map_option (\<lambda>(newRoot, t'). (newRoot, publish_step newRoot t')) (compute_step numCPU h H t))"

definition tree_Size :: "'a tree \<Rightarrow> int" where
  "tree_Size t = sint (t_itemCount t)"

definition GetAllItems :: "'a tree \<Rightarrow> 'a list" where
  "GetAllItems t = map snd (t_items t)"

definition GetDirtyNodeCount :: "'a tree \<Rightarrow> u64" where
  "GetDirtyNodeCount t = t_dirtyNodes t"

definition ClearItems :: "'a tree \<Rightarrow> 'a tree" where
  "ClearItems t = t\<lparr>t_items := [], t_itemCount := 0, t_root := alloc, t_allocated := 1,
     t_cache := sharded_clear (t_cache t), t_rootCacheValid := False,
     t_topMin := topn_Clear (t_topMin t), t_topMax := topn_Clear (t_topMax t),
     t_dirtyNodes := 0, t_deletedNodeCount := 0\<rparr>"

subsection \<open>Deletion\<close>

definition erase_item :: "(bytes \<Rightarrow> bytes) \<Rightarrow> 'a hashable \<Rightarrow> 'a \<Rightarrow> 'a tree \<Rightarrow> 'a tree option" where
  "erase_item h H item t =
    map_option (\<lambda>(r, n, k). t\<lparr>t_root := r, t_dirtyNodes := t_dirtyNodes t + of_nat n,
        t_deletedNodeCount := t_deletedNodeCount t + of_nat k\<rparr>)
      (deleteNode H (DeletedNodeHash h) (t_maxDepth t) item 0 (t_root t))"

definition unstore_item :: "'a hashable \<Rightarrow> u64 \<Rightarrow> 'a \<Rightarrow> 'a tree \<Rightarrow> 'a tree" where
  "unstore_item H i item t =
    t\<lparr>t_items := AList.delete i (t_items t), t_cache := sharded_delete i (t_cache t),
      t_topMin := snd (topn_Remove H item (t_topMin t)),
      t_topMax := snd (topn_Remove H item (t_topMax t))\<rparr>"

definition DeleteItem :: "(bytes \<Rightarrow> bytes) \<Rightarrow> 'a hashable \<Rightarrow> u64 \<Rightarrow> 'a tree \<Rightarrow> (bool \<times> 'a tree) option" where
  "DeleteItem h H i t =
    (case map_of (t_items t) i of
       None \<Rightarrow> Some (False, t)
     | Some item \<Rightarrow>
         let t1 = unstore_item H i item t;
             t2 = t1\<lparr>t_itemCount := t_itemCount t1 + NOT 0\<rparr>
         in map_option (\<lambda>t'. (True, invalidate t')) (erase_item h H item t2))"

fun collect_deletions :: "'a hashable \<Rightarrow> u64 list \<Rightarrow> 'a list \<times> 'a tree \<Rightarrow> 'a list \<times> 'a tree" where
  "collect_deletions H [] (items, t) = (items, t)"
| "collect_deletions H (i # is) (items, t) =
    (case map_of (t_items t) i of
       None \<Rightarrow> collect_deletions H is (items, t)
     | Some item \<Rightarrow> collect_deletions H is (items @ [item], unstore_item H i item t))"

definition delete_workers :: "nat \<Rightarrow> nat \<Rightarrow> nat" where
  "delete_workers numCPU n =
    (let w = (if numCPU > 16 then 16 else numCPU) in if w > n then n else w)"

text \<open>One item is collected per deleted ID, so \<^verbatim>\<open>deleted\<close> is the number of items.\<close>

definition DeleteBatch ::
    "(bytes \<Rightarrow> bytes) \<Rightarrow> 'a hashable \<Rightarrow> nat \<Rightarrow> 'a schedule \<Rightarrow> u64 list \<Rightarrow> 'a tree \<Rightarrow> (nat \<times> 'a tree) option" where
  "DeleteBatch h H numCPU s dead t =
    (if length dead = 0 then Some (0, t)
     else
       let (items, t1) = collect_deletions H dead ([], t);
           deleted = length items
       in if deleted = 0 then Some (0, t1)
          else
            let t2 = t1\<lparr>t_itemCount := t_itemCount t1 + NOT (of_nat (deleted - 1))\<rparr>;
                order = (if length items < SmallBatchThreshold then items
                         else s (worker_chunks (delete_workers numCPU (length items)) items))
            in map_option (\<lambda>t'. (deleted, (invalidate t')\<lparr>t_deleteCount := t_deleteCount t' + of_nat deleted\<rparr>))
                 (each_item (erase_item h H) order t2))"

definition ExistsItem :: "u64 \<Rightarrow> 'a tree \<Rightarrow> bool" where
  "ExistsItem i t \<longleftrightarrow> map_of (t_items t) i \<noteq> None"

definition GetDeletedCount :: "'a tree \<Rightarrow> int" where
  "GetDeletedCount t = sint (t_deletedNodeCount t)"

subsection \<open>Statistics\<close>

text \<open>\<^verbatim>\<open>batchCount\<close>, \<^verbatim>\<open>simpleBatchCount\<close>, \<^verbatim>\<open>parallelBatchCount\<close> and \<^verbatim>\<open>computeCount\<close> are never
  incremented by the code, so the fields read from them are 0.\<close>

record tree_report =
  st_TotalItems :: int
  st_DeletedNodes :: int
  st_AllocatedNodes :: nat
  st_CacheSize :: nat
  st_DirtyNodes :: u64
  st_InsertCount :: u64
  st_BatchInsertCount :: u64
  st_DeleteCount :: u64
  st_GetCount :: u64
  st_CacheHits :: u64
  st_CacheMisses :: u64
  st_ComputeCount :: u64
  st_BatchCount :: u64

definition tree_GetStats :: "'a tree \<Rightarrow> tree_report" where
  "tree_GetStats t =
    \<lparr>st_TotalItems = sint (t_itemCount t), st_DeletedNodes = sint (t_deletedNodeCount t),
     st_AllocatedNodes = t_allocated t, st_CacheSize = sharded_size (t_cache t),
     st_DirtyNodes = t_dirtyNodes t, st_InsertCount = t_insertCount t,
     st_BatchInsertCount = t_batchInsertCount t, st_DeleteCount = t_deleteCount t,
     st_GetCount = t_getCount t, st_CacheHits = t_cacheHits t, st_CacheMisses = t_cacheMisses t,
     st_ComputeCount = 0, st_BatchCount = 0\<rparr>"

definition tree_CacheStats :: "'a tree \<Rightarrow> nat \<times> int" where
  "tree_CacheStats t = (sharded_size (t_cache t), sharded_capacity (t_cache t))"

subsection \<open>Ordered access\<close>

definition GetMin :: "'a tree \<Rightarrow> 'a option" where
  "GetMin t = GetFirst (t_topMin t)"

definition GetMax :: "'a tree \<Rightarrow> 'a option" where
  "GetMax t = GetFirst (t_topMax t)"

definition GetTopMin :: "int \<Rightarrow> 'a tree \<Rightarrow> 'a list option" where
  "GetTopMin n t = GetTop n (t_topMin t)"

definition GetTopMax :: "int \<Rightarrow> 'a tree \<Rightarrow> 'a list option" where
  "GetTopMax n t = GetTop n (t_topMax t)"

definition GetMinKey :: "'a hashable \<Rightarrow> 'a tree \<Rightarrow> u64 option" where
  "GetMinKey H t = (case GetMin t of None \<Rightarrow> None | Some item \<Rightarrow> Some (keyToUint64 (h_Key H item)))"

definition GetMaxKey :: "'a hashable \<Rightarrow> 'a tree \<Rightarrow> u64 option" where
  "GetMaxKey H t = (case GetMax t of None \<Rightarrow> None | Some item \<Rightarrow> Some (keyToUint64 (h_Key H item)))"

definition IsTopNEnabled :: "'a tree \<Rightarrow> bool" where
  "IsTopNEnabled t = tc_enabled (t_topMin t)"

definition GetTopNCapacity :: "'a tree \<Rightarrow> int" where
  "GetTopNCapacity t = (if \<not> tc_enabled (t_topMin t) then 0 else tc_capacity (t_topMin t))"

definition ClearTopN :: "'a tree \<Rightarrow> 'a tree" where
  "ClearTopN t = t\<lparr>t_topMin := topn_Clear (t_topMin t), t_topMax := topn_Clear (t_topMax t)\<rparr>"

definition IterTopMin :: "'a tree \<Rightarrow> 'a topn_iterator" where
  "IterTopMin t = GetIterator (t_topMin t)"

definition IterTopMax :: "'a tree \<Rightarrow> 'a topn_iterator" where
  "IterTopMax t = GetIterator (t_topMax t)"

end
