(* ===== verification/TreeRep.thy ===== *)
theory TreeRep
  imports MerkleTree
begin

text \<open>
  The representation invariant of the tree and the effect of every operation on its two parts:
  the items by ID (\<open>items_rep\<close>: the map, the coherent cache) and the leaves by path
  (\<open>nodes_rep\<close>: the node tree holds exactly the hashes of an association list). A cached root is
  the root of those leaves (\<open>tree_rep\<close>).
\<close>

definition levels :: "'a tree \<Rightarrow> nat" where
  "levels t = Suc (nat (t_maxDepth t - 1))"

lemma levels_root [simp]: "levels (t\<lparr>t_root := n\<rparr>) = levels t"
  by (simp add: levels_def)

abbreviation path_in :: "'a hashable \<Rightarrow> 'a tree \<Rightarrow> 'a \<Rightarrow> u8 list" where
  "path_in H t x \<equiv> path_of H (t_maxDepth t) x"

text \<open>The leaves by path: an item, or \<open>None\<close> after a deletion; and their hashes.\<close>

type_synonym 'a leaves = "(u8 list \<times> 'a option) list"

definition leaf_hashes :: "(bytes \<Rightarrow> bytes) \<Rightarrow> 'a hashable \<Rightarrow> 'a leaves \<Rightarrow> (u8 list \<times> bytes) list" where
  "leaf_hashes h H lvs = map (\<lambda>(p, v). (p, leaf_hash H (DeletedNodeHash h) v)) lvs"

lemma map_of_leaf_hashes: "map_of (leaf_hashes h H lvs) p = map_option (leaf_hash H (DeletedNodeHash h)) (map_of lvs p)"
  by (simp add: leaf_hashes_def map_of_map)

definition root_of :: "(bytes \<Rightarrow> bytes) \<Rightarrow> 'a hashable \<Rightarrow> nat \<Rightarrow> 'a leaves \<Rightarrow> bytes" where
  "root_of h H m lvs = trie_root h m (leaf_hashes h H lvs)"

lemma root_of_cong: "map_of lvs = map_of lvs' \<Longrightarrow> root_of h H m lvs = root_of h H m lvs'"
  unfolding root_of_def by (rule trie_root_cong) (simp add: fun_eq_iff map_of_leaf_hashes)

definition nodes_rep :: "(bytes \<Rightarrow> bytes) \<Rightarrow> 'a hashable \<Rightarrow> 'a tree \<Rightarrow> 'a leaves \<Rightarrow> bool" where
  "nodes_rep h H t lvs \<longleftrightarrow> node_ok h H (DeletedNodeHash h) (levels t) (t_root t)
    \<and> (\<forall>p. map_of lvs p = (if length p = levels t then value_at (t_root t) p else None))"

definition items_rep :: "'a hashable \<Rightarrow> 'a tree \<Rightarrow> (u64 \<times> 'a) list \<Rightarrow> bool" where
  "items_rep H t its \<longleftrightarrow> t_items t = its \<and> distinct (map fst its)
    \<and> (\<forall>(i, x)\<in>set its. h_ID H x = i \<and> depth_fits H (t_maxDepth t) x)
    \<and> sharded_cache.coherent (t_cache t) (map_of its)"

definition tree_rep ::
    "(bytes \<Rightarrow> bytes) \<Rightarrow> 'a hashable \<Rightarrow> 'a tree \<Rightarrow> (u64 \<times> 'a) list \<Rightarrow> 'a leaves \<Rightarrow> bool" where
  "tree_rep h H t its lvs \<longleftrightarrow> items_rep H t its \<and> nodes_rep h H t lvs
    \<and> (\<forall>(i, x)\<in>set its. map_of lvs (path_in H t x) \<noteq> None)
    \<and> (t_rootCacheValid t \<longrightarrow> t_cachedRoot t = root_of h H (levels t) lvs)"

text \<open>Two trees that differ in the node tree and its counters only, and the converse.\<close>

definition same_items :: "'a tree \<Rightarrow> 'a tree \<Rightarrow> bool" where
  "same_items t t' \<longleftrightarrow> t' = t\<lparr>t_root := t_root t', t_dirtyNodes := t_dirtyNodes t', t_allocated := t_allocated t',
     t_deletedNodeCount := t_deletedNodeCount t'\<rparr>"

definition same_nodes :: "'a tree \<Rightarrow> 'a tree \<Rightarrow> bool" where
  "same_nodes t t' \<longleftrightarrow> t_root t' = t_root t \<and> t_maxDepth t' = t_maxDepth t"

lemma same_items_frame:
  assumes "same_items t t'"
  shows "t_maxDepth t' = t_maxDepth t" "levels t' = levels t" "items_rep H t' its = items_rep H t its"
    "t_rootCacheValid t' = t_rootCacheValid t" "t_cachedRoot t' = t_cachedRoot t" "t_itemCount t' = t_itemCount t"
    "t_items t' = t_items t" "t_cache t' = t_cache t"
  by (insert assms, cases t; cases t'; simp add: same_items_def levels_def items_rep_def)+

lemma same_items_trans: "same_items t t' \<Longrightarrow> same_items t' t'' \<Longrightarrow> same_items t t''"
  by (cases t; cases t'; cases t'') (simp add: same_items_def)

lemma same_items_refl: "same_items t t"
  by (simp add: same_items_def)

lemma nodes_rep_cong: "same_nodes t t' \<Longrightarrow> nodes_rep h H t' lvs = nodes_rep h H t lvs"
  by (simp add: same_nodes_def nodes_rep_def levels_def)

subsection \<open>Placing and erasing\<close>

lemma place_item_nodes:
  assumes "nodes_rep h H t lvs" "depth_fits H (t_maxDepth t) x"
  shows "\<exists>t'. place_item H x t = Some t' \<and> same_items t t'
    \<and> nodes_rep h H t' (AList.update (path_in H t x) (Some x) lvs)"
proof -
  let ?p = "path_in H t x" and ?r = "ins_path (path_in H t x) x (t_root t)" and ?del = "DeletedNodeHash h"
  have len: "length ?p = levels t" using length_path_of [OF assms(2)] by (simp add: levels_def)
  obtain a where ins: "insertNode H (t_maxDepth t) x 0 (t_root t) = Some (?r, length ?p, a)"
    using insertNode_path [OF assms(2), of 0 "t_root t"] by auto
  let ?t' = "t\<lparr>t_root := ?r, t_dirtyNodes := t_dirtyNodes t + of_nat (length ?p), t_allocated := t_allocated t + a\<rparr>"
  have "node_ok h H ?del (levels t) ?r"
    using node_ok_ins [of h H ?del "levels t" "t_root t" ?p x] assms(1) len by (simp add: nodes_rep_def)
  moreover have "map_of (AList.update ?p (Some x) lvs) q = (if length q = levels t then value_at ?r q else None)" for q
  proof (cases "length q = levels t")
    case True
    then show ?thesis
      using assms(1) value_at_ins [of ?p q x "t_root t"] len by (auto simp: nodes_rep_def)
  next
    case False
    then show ?thesis using assms(1) len by (auto simp: nodes_rep_def)
  qed
  ultimately have "nodes_rep h H ?t' (AList.update ?p (Some x) lvs)"
    by (simp add: nodes_rep_def levels_def)
  moreover have "place_item H x t = Some ?t'" using ins by (simp add: place_item_def)
  moreover have "same_items t ?t'" by (simp add: same_items_def)
  ultimately show ?thesis by blast
qed

lemma erase_item_nodes:
  assumes "nodes_rep h H t lvs" "depth_fits H (t_maxDepth t) x" "map_of lvs (path_in H t x) \<noteq> None"
  shows "\<exists>t'. erase_item h H x t = Some t' \<and> same_items t t'
    \<and> nodes_rep h H t' (AList.update (path_in H t x) None lvs)"
proof -
  let ?p = "path_in H t x" and ?del = "DeletedNodeHash h"
  let ?r = "del_path ?del ?p (t_root t)"
  have len: "length ?p = levels t" using length_path_of [OF assms(2)] by (simp add: levels_def)
  obtain n k where del: "deleteNode H ?del (t_maxDepth t) x 0 (t_root t) = Some (?r, n, k)"
    using deleteNode_path [OF assms(2), of 0 ?del "t_root t"] by auto
  let ?t' = "t\<lparr>t_root := ?r, t_dirtyNodes := t_dirtyNodes t + of_nat n,
     t_deletedNodeCount := t_deletedNodeCount t + of_nat k\<rparr>"
  have ok: "node_ok h H ?del (levels t) (t_root t)" using assms(1) by (simp add: nodes_rep_def)
  then have "node_ok h H ?del (levels t) ?r" using node_ok_del [OF _ len] by blast
  moreover have "value_at (t_root t) ?p \<noteq> None"
    using assms(1,3) len by (auto simp: nodes_rep_def)
  moreover have "map_of (AList.update ?p None lvs) q = (if length q = levels t then value_at ?r q else None)" for q
  proof (cases "length q = levels t")
    case True
    then show ?thesis
      using assms(1) value_at_del [of ?p q h H ?del "t_root t"] ok len \<open>value_at (t_root t) ?p \<noteq> None\<close>
      by (auto simp: nodes_rep_def)
  next
    case False
    then show ?thesis using assms(1) len by (auto simp: nodes_rep_def)
  qed
  ultimately have "nodes_rep h H ?t' (AList.update ?p None lvs)"
    by (simp add: nodes_rep_def levels_def)
  moreover have "erase_item h H x t = Some ?t'" using del by (simp add: erase_item_def)
  moreover have "same_items t ?t'" by (simp add: same_items_def)
  ultimately show ?thesis by blast
qed

definition place_leaf :: "'a hashable \<Rightarrow> int \<Rightarrow> 'a \<Rightarrow> 'a leaves \<Rightarrow> 'a leaves" where
  "place_leaf H D x lvs = AList.update (path_of H D x) (Some x) lvs"

definition erase_leaf :: "'a hashable \<Rightarrow> int \<Rightarrow> 'a \<Rightarrow> 'a leaves \<Rightarrow> 'a leaves" where
  "erase_leaf H D x lvs = AList.update (path_of H D x) None lvs"

lemma place_items_nodes:
  "nodes_rep h H t lvs \<Longrightarrow> \<forall>x\<in>set xs. depth_fits H (t_maxDepth t) x \<Longrightarrow>
    \<exists>t'. each_item (place_item H) xs t = Some t' \<and> same_items t t'
      \<and> nodes_rep h H t' (fold (place_leaf H (t_maxDepth t)) xs lvs)"
proof (induction xs arbitrary: t lvs)
  case (Cons x xs)
  then obtain t1 where t1: "place_item H x t = Some t1" "same_items t t1"
    "nodes_rep h H t1 (place_leaf H (t_maxDepth t) x lvs)"
    using place_item_nodes [of h H t lvs x] by (auto simp: place_leaf_def)
  with Cons.IH [OF t1(3)] Cons.prems(2) same_items_frame(1) [OF t1(2)] obtain t' where
    "each_item (place_item H) xs t1 = Some t'" "same_items t1 t'"
    "nodes_rep h H t' (fold (place_leaf H (t_maxDepth t)) xs (place_leaf H (t_maxDepth t) x lvs))" by auto
  with t1 show ?case using same_items_trans by auto
qed (simp add: same_items_refl)

lemma erase_items_nodes:
  "nodes_rep h H t lvs \<Longrightarrow> \<forall>x\<in>set xs. depth_fits H (t_maxDepth t) x \<and> map_of lvs (path_in H t x) \<noteq> None \<Longrightarrow>
    \<exists>t'. each_item (erase_item h H) xs t = Some t' \<and> same_items t t'
      \<and> nodes_rep h H t' (fold (erase_leaf H (t_maxDepth t)) xs lvs)"
proof (induction xs arbitrary: t lvs)
  case (Cons x xs)
  then obtain t1 where t1: "erase_item h H x t = Some t1" "same_items t t1"
    "nodes_rep h H t1 (erase_leaf H (t_maxDepth t) x lvs)"
    using erase_item_nodes [of h H t lvs x] by (auto simp: erase_leaf_def)
  have "\<forall>y\<in>set xs. depth_fits H (t_maxDepth t1) y \<and>
      map_of (erase_leaf H (t_maxDepth t) x lvs) (path_in H t1 y) \<noteq> None"
    using Cons.prems(2) same_items_frame(1) [OF t1(2)] by (simp add: erase_leaf_def)
  from Cons.IH [OF t1(3) this] same_items_frame(1) [OF t1(2)] obtain t' where
    "each_item (erase_item h H) xs t1 = Some t'" "same_items t1 t'"
    "nodes_rep h H t' (fold (erase_leaf H (t_maxDepth t)) xs
       (erase_leaf H (t_maxDepth t) x lvs))" by auto
  with t1 show ?case using same_items_trans by auto
qed (simp add: same_items_refl)

lemma place_item_locked_eq: "place_item_locked H x t = place_item H x t"
  by (simp add: place_item_locked_def place_item_def insertNode_global_lock)

subsection \<open>Storing and unstoring\<close>

definition store_pair :: "'a hashable \<Rightarrow> 'a \<Rightarrow> (u64 \<times> 'a) list \<Rightarrow> (u64 \<times> 'a) list" where
  "store_pair H x its = AList.update (h_ID H x) x its"

lemma items_rep_put:
  assumes "items_rep H t its" "depth_fits H (t_maxDepth t) x"
    and "t_items t' = store_pair H x (t_items t)" "t_cache t' = sharded_put (h_ID H x) x (t_cache t)"
    "t_maxDepth t' = t_maxDepth t"
  shows "items_rep H t' (store_pair H x its)"
  using assms sharded_cache.coherent_put [of "t_cache t" "map_of its" "h_ID H x" x]
  by (auto simp: items_rep_def store_pair_def set_alist_update distinct_update)

lemma store_item_rep:
  assumes "items_rep H t its" "depth_fits H (t_maxDepth t) x"
  shows "items_rep H (store_item H x t) (store_pair H x its)"
  using assms by (rule items_rep_put) (simp_all add: store_item_def store_pair_def)

lemma same_nodes_store: "same_nodes t (fold (store_item H) xs t)"
  by (induction xs arbitrary: t) (simp_all add: same_nodes_def store_item_def)

lemma store_frame:
  "t_itemCount (fold (store_item H) xs t) = t_itemCount t"
  by (induction xs arbitrary: t) (simp_all add: store_item_def)

lemma store_items_rep:
  assumes "items_rep H t its" "\<forall>x\<in>set xs. depth_fits H (t_maxDepth t) x"
  shows "items_rep H (store_items H xs n t) (fold (store_pair H) xs its)"
    "same_nodes t (store_items H xs n t)" "t_itemCount (store_items H xs n t) = t_itemCount t + of_nat n"
proof -
  have "items_rep H (fold (store_item H) xs t) (fold (store_pair H) xs its)"
    using assms
  proof (induction xs arbitrary: t its)
    case (Cons x xs)
    from store_item_rep [OF Cons.prems(1), of x] Cons.prems(2)
      Cons.IH [of "store_item H x t" "store_pair H x its"] show ?case by (simp add: store_item_def)
  qed simp
  then show "items_rep H (store_items H xs n t) (fold (store_pair H) xs its)"
    by (simp add: store_items_def Let_def items_rep_def)
  show "same_nodes t (store_items H xs n t)"
    using same_nodes_store [of t H xs] by (simp add: store_items_def Let_def same_nodes_def)
  show "t_itemCount (store_items H xs n t) = t_itemCount t + of_nat n"
    by (simp add: store_items_def Let_def store_frame)
qed

lemma map_of_fold_store:
  "map_of (fold (store_pair H) xs its) i =
    (case map_of (rev (map (\<lambda>x. (h_ID H x, x)) xs)) i of Some x \<Rightarrow> Some x | None \<Rightarrow> map_of its i)"
  by (induction xs rule: rev_induct) (auto simp: store_pair_def)

lemma map_of_fold_place:
  "map_of (fold (place_leaf H D) xs lvs) p =
    (case map_of (rev (map (\<lambda>x. (path_of H D x, Some x)) xs)) p of Some v \<Rightarrow> Some v | None \<Rightarrow> map_of lvs p)"
  by (induction xs rule: rev_induct) (auto simp: place_leaf_def)

lemma fold_place_mem: "map_of (fold (place_leaf H D) xs lvs) (path_of H D x) \<noteq> None"
  if "x \<in> set xs \<or> map_of lvs (path_of H D x) \<noteq> None"
proof (cases "x \<in> set xs")
  case True
  then have "map_of (rev (map (\<lambda>x. (path_of H D x, Some x)) xs)) (path_of H D x) \<noteq> None"
    by (auto simp: map_of_eq_None_iff image_iff)
  then show ?thesis by (auto simp: map_of_fold_place split: option.split)
qed (use that in \<open>auto simp: map_of_fold_place split: option.split\<close>)

lemma alist_update_subset: "set (AList.update k v al) \<subseteq> insert (k, v) (set al)"
  by (induction al) auto

lemma fold_store_set: "(i, x) \<in> set (fold (store_pair H) xs its) \<Longrightarrow> x \<in> set xs \<or> (i, x) \<in> set its"
  by (induction xs rule: rev_induct) (auto simp: store_pair_def dest!: subsetD [OF alist_update_subset])

subsection \<open>The operations\<close>

lemma invalidate_frame [simp]:
  "nodes_rep h H (invalidate t) lvs = nodes_rep h H t lvs" "items_rep H (invalidate t) its = items_rep H t its"
  "t_maxDepth (invalidate t) = t_maxDepth t" "t_itemCount (invalidate t) = t_itemCount t"
  "t_rootCacheValid (invalidate t) = False" "t_items (invalidate t) = t_items t"
  by (simp_all add: invalidate_def nodes_rep_def items_rep_def levels_def)

text \<open>The common shape of all insertions: store in one order, place in another.\<close>

lemma store_place_rep:
  assumes t: "tree_rep h H t its lvs" and fits: "\<forall>x\<in>set xs \<union> set ys. depth_fits H (t_maxDepth t) x"
    and same: "set xs = set ys"
  shows "\<exists>t'. map_option invalidate (each_item (place_item H) ys (store_items H xs n t)) = Some t'
    \<and> tree_rep h H t' (fold (store_pair H) xs its) (fold (place_leaf H (t_maxDepth t)) ys lvs)
    \<and> t_maxDepth t' = t_maxDepth t \<and> t_itemCount t' = t_itemCount t + of_nat n"
proof -
  let ?t1 = "store_items H xs n t" and ?D = "t_maxDepth t"
  note st = store_items_rep [of H t its xs n]
  have rep: "items_rep H t its" "nodes_rep h H t lvs"
    and link: "\<forall>(i, x)\<in>set its. map_of lvs (path_in H t x) \<noteq> None"
    using t by (auto simp: tree_rep_def)
  have t1: "items_rep H ?t1 (fold (store_pair H) xs its)" "same_nodes t ?t1" "t_itemCount ?t1 = t_itemCount t + of_nat n"
    using st rep(1) fits by auto
  then have D1: "t_maxDepth ?t1 = ?D" by (simp add: same_nodes_def)
  have "nodes_rep h H ?t1 lvs" using nodes_rep_cong [OF t1(2)] rep(2) by simp
  from place_items_nodes [OF this, of ys] fits D1 obtain t2 where
    t2: "each_item (place_item H) ys ?t1 = Some t2" "same_items ?t1 t2"
      "nodes_rep h H t2 (fold (place_leaf H ?D) ys lvs)" by auto
  note f = same_items_frame [OF t2(2)]
  have "map_of (fold (place_leaf H ?D) ys lvs) (path_of H ?D x) \<noteq> None"
    if "(i, x) \<in> set (fold (store_pair H) xs its)" for i x
  proof (rule fold_place_mem)
    from fold_store_set [OF that] link same
    show "x \<in> set ys \<or> map_of lvs (path_of H ?D x) \<noteq> None" by auto
  qed
  then have "tree_rep h H (invalidate t2) (fold (store_pair H) xs its) (fold (place_leaf H ?D) ys lvs)"
    using t1 t2(3) f D1 by (auto simp: tree_rep_def)
  then show ?thesis using t2(1) f D1 t1(3) by simp
qed

lemma tree_rep_counters:
  assumes "tree_rep h H t its lvs"
    and "t_root t' = t_root t" "t_items t' = t_items t" "t_cache t' = t_cache t" "t_maxDepth t' = t_maxDepth t"
      "t_rootCacheValid t' = t_rootCacheValid t" "t_cachedRoot t' = t_cachedRoot t"
  shows "tree_rep h H t' its lvs"
  using assms(1) unfolding tree_rep_def items_rep_def nodes_rep_def levels_def assms(2-7) .

lemma Insert_rep:
  assumes "tree_rep h H t its lvs" "depth_fits H (t_maxDepth t) x"
  shows "\<exists>t'. Insert H x t = Some t'
    \<and> tree_rep h H t' (store_pair H x its) (place_leaf H (t_maxDepth t) x lvs)
    \<and> t_maxDepth t' = t_maxDepth t \<and> t_itemCount t' = t_itemCount t + 1"
proof -
  obtain t' where t': "map_option invalidate (each_item (place_item H) [x] (store_items H [x] 1 t)) = Some t'"
    "tree_rep h H t' (store_pair H x its) (place_leaf H (t_maxDepth t) x lvs)"
    "t_maxDepth t' = t_maxDepth t" "t_itemCount t' = t_itemCount t + 1"
    using store_place_rep [OF assms(1), of "[x]" "[x]" 1] assms(2) by auto
  let ?t1 = "t\<lparr>t_items := AList.update (h_ID H x) x (t_items t), t_itemCount := t_itemCount t + 1,
                t_cache := sharded_put (h_ID H x) x (t_cache t)\<rparr>"
  have "store_items H [x] 1 t = ?t1\<lparr>t_topMin := snd (TryInsert H x (t_topMin t)), t_topMax := snd (TryInsert H x (t_topMax t))\<rparr>"
    by (simp add: store_items_def store_item_def)
  moreover have "place_item H x (?t1\<lparr>t_topMin := mi, t_topMax := ma\<rparr>)
      = map_option (\<lambda>t'. t'\<lparr>t_topMin := mi, t_topMax := ma\<rparr>) (place_item H x ?t1)" for mi ma
    by (cases "insertNode H (t_maxDepth t) x 0 (t_root t)") (auto simp: place_item_def intro!: tree.equality)
  ultimately obtain t2 where t2: "place_item H x ?t1 = Some t2"
    "t' = invalidate (t2\<lparr>t_topMin := snd (TryInsert H x (t_topMin t)), t_topMax := snd (TryInsert H x (t_topMax t))\<rparr>)"
    using t'(1) by (cases "place_item H x ?t1") auto
  then obtain t3 where t3: "Insert H x t = Some t3" "t_root t3 = t_root t'" "t_items t3 = t_items t'"
      "t_cache t3 = t_cache t'" "t_maxDepth t3 = t_maxDepth t'" "t_rootCacheValid t3 = t_rootCacheValid t'"
      "t_cachedRoot t3 = t_cachedRoot t'" "t_itemCount t3 = t_itemCount t'"
    by (simp add: Insert_def Let_def invalidate_def)
  then show ?thesis using tree_rep_counters [OF t'(2), of t3] t'(3,4) by auto
qed

subsection \<open>Batches\<close>

lemma concat_slices:
  "concat (map (\<lambda>i. go_slice (i * sz) sz xs) [0..<j]) = take (j * sz) xs"
proof (induction j)
  case (Suc j)
  have "take (j * sz + sz) xs = take (j * sz) xs @ take sz (drop (j * sz) xs)" by (rule take_add)
  with Suc show ?case by (simp add: go_slice_def add.commute)
qed simp

lemma concat_worker_chunks:
  assumes "0 < w"
  shows "concat (worker_chunks w xs) = xs"
proof -
  define sz where "sz = chunk_size (length xs) w"
  define j where "j = length (takeWhile (\<lambda>i. i * sz < length xs) [0..<w])"
  have "length xs + w - 1 < w * (sz + 1)"
    using assms by (simp add: sz_def chunk_size_def) (metis dividend_less_times_div assms mult.commute)
  then have enough: "length xs \<le> w * sz" using assms by simp
  have tw: "takeWhile (\<lambda>i. i * sz < length xs) [0..<w] = [0..<j]"
    using length_takeWhile_le [of "\<lambda>i. i * sz < length xs" "[0..<w]"]
    by (metis (lifting) add_0 diff_zero j_def length_upt takeWhile_eq_take take_upt)
  have "length xs \<le> j * sz"
  proof (cases "j < w")
    case True
    then have "\<not> ([0..<w] ! j * sz < length xs)"
      unfolding j_def by (intro nth_length_takeWhile) (simp add: j_def)
    then show ?thesis using True by simp
  next
    case False
    have "j \<le> w" using length_takeWhile_le [of "\<lambda>i. i * sz < length xs" "[0..<w]"] by (simp add: j_def)
    then show ?thesis using False enough by (metis le_antisym not_less)
  qed
  then show ?thesis
    using tw by (simp add: worker_chunks_def Let_def sz_def [symmetric] concat_slices)
qed

lemma concat_nonempty: "concat (filter (\<lambda>g. g \<noteq> []) gs) = concat gs"
  by (induction gs) auto

lemma mset_concat_update:
  "k < length gs \<Longrightarrow> mset (concat (gs[k := gs ! k @ [x]])) = add_mset x (mset (concat gs))"
proof (induction gs arbitrary: k)
  case (Cons g gs)
  then show ?case by (cases k) auto
qed simp

lemma group_items_fits:
  "\<forall>x\<in>set xs. group_key H sz x < length gs \<Longrightarrow>
    \<exists>gs'. group_items H sz xs gs = Some gs' \<and> mset (concat gs') = mset xs + mset (concat gs)"
proof (induction xs arbitrary: gs)
  case (Cons x xs)
  let ?k = "group_key H sz x"
  from Cons.IH [of "gs[?k := gs ! ?k @ [x]]"] Cons.prems show ?case by (auto simp: Let_def mset_concat_update)
qed simp

lemma group_items_panics:
  "\<exists>x\<in>set xs. length gs \<le> group_key H sz x \<Longrightarrow> group_items H sz xs gs = None"
proof (induction xs arbitrary: gs)
  case (Cons x xs)
  let ?k = "group_key H sz x"
  from Cons.IH [of "gs[?k := gs ! ?k @ [x]]"] Cons.prems show ?case by (auto simp: Let_def)
qed simp

definition fair :: "'a schedule \<Rightarrow> bool" where
  "fair s \<longleftrightarrow> (\<forall>gs. mset (s gs) = mset (concat gs))"

text \<open>Only the grouping of a batch beyond 10000 items can panic.\<close>

definition grouping_fits :: "'a hashable \<Rightarrow> 'a list \<Rightarrow> bool" where
  "grouping_fits H items \<longleftrightarrow> length items \<ge> 5000 \<longrightarrow>
    (\<forall>x\<in>set items. group_key H (group_size (length items)) x < group_size (length items))"

lemma mset_concat_replicate: "concat (replicate n []) = []"
  by (induction n) auto

text \<open>Whatever the strategy, the items are stored in one order and their leaves are written in another;
  below \<^verbatim>\<open>ParallelBatchThreshold\<close> both are the order of the batch.\<close>

lemma InsertBatch_order:
  assumes ne: "items \<noteq> []" and cpu: "0 < numCPU" and fair: "fair s1" "fair s2" and grp: "grouping_fits H items"
  shows "\<exists>xs ys. mset xs = mset items \<and> mset ys = mset items
    \<and> (length items < ParallelBatchThreshold \<longrightarrow> xs = items \<and> ys = items)
    \<and> InsertBatch H numCPU s1 s2 items t = map_option (\<lambda>t'. t'\<lparr>t_batchInsertCount := t_batchInsertCount t' + 1\<rparr>)
        (map_option invalidate (each_item (place_item H) ys (store_items H xs (length items) t)))"
proof -
  have ne': "length items \<noteq> 0" using ne by simp
  consider (seq) "length items < ParallelBatchThreshold"
    | (par) "\<not> length items < ParallelBatchThreshold" "length items < 5000" | (mega) "\<not> length items < 5000"
    by linarith
  then show ?thesis
  proof cases
    case seq
    have "place_item_locked H = place_item H" by (simp add: fun_eq_iff place_item_locked_eq)
    then show ?thesis using ne' seq
      by (intro exI [of _ items]) (simp add: InsertBatch_def insertBatchSimple_def insertBatchSequential_def)
  next
    case par
    let ?chunks = "worker_chunks (parallel_workers numCPU (length items)) items"
    have "0 < parallel_workers numCPU (length items)"
      using cpu ne' by (simp add: parallel_workers_def Let_def)
    then have "mset (s1 ?chunks) = mset items" "mset (s2 ?chunks) = mset items"
      using fair by (simp_all add: fair_def concat_worker_chunks)
    then show ?thesis using ne' par
      by (intro exI [of _ "s1 ?chunks"] exI [of _ "s2 ?chunks"])
        (simp add: InsertBatch_def insertBatchParallel_def ParallelBatchThreshold_def SmallBatchThreshold_def Let_def)
  next
    case mega
    let ?chunks = "worker_chunks (mega_workers numCPU (length items)) items" and ?sz = "group_size (length items)"
    have "0 < mega_workers numCPU (length items)" using cpu ne' by (simp add: mega_workers_def Let_def)
    then have s1: "mset (s1 ?chunks) = mset items" using fair by (simp add: fair_def concat_worker_chunks)
    from group_items_fits [of items H ?sz "replicate ?sz []"] grp mega obtain gs where
      gs: "group_items H ?sz items (replicate ?sz []) = Some gs" "mset (concat gs) = mset items"
      by (auto simp: grouping_fits_def mset_concat_replicate)
    have "mset (s2 (filter (\<lambda>g. length g > 0) gs)) = mset items"
      using fair gs(2) by (simp add: fair_def concat_nonempty)
    with s1 show ?thesis using ne' mega gs(1)
      by (intro exI [of _ "s1 ?chunks"] exI [of _ "s2 (filter (\<lambda>g. length g > 0) gs)"])
        (simp add: InsertBatch_def insertBatchMegaParallel_def ParallelBatchThreshold_def SmallBatchThreshold_def Let_def)
  qed
qed

lemma InsertBatch_rep:
  assumes t: "tree_rep h H t its lvs" and fits: "\<forall>x\<in>set items. depth_fits H (t_maxDepth t) x"
    and cpu: "0 < numCPU" and fair: "fair s1" "fair s2" and grp: "grouping_fits H items"
  shows "\<exists>t' xs ys. InsertBatch H numCPU s1 s2 items t = Some t' \<and> mset xs = mset items \<and> mset ys = mset items
    \<and> tree_rep h H t' (fold (store_pair H) xs its) (fold (place_leaf H (t_maxDepth t)) ys lvs)
    \<and> t_maxDepth t' = t_maxDepth t \<and> t_itemCount t' = t_itemCount t + of_nat (length items)
    \<and> (length items < ParallelBatchThreshold \<longrightarrow> xs = items \<and> ys = items)"
proof (cases "length items = 0")
  case True
  then show ?thesis using t by (intro exI [of _ t] exI [of _ "[]"]) (simp add: InsertBatch_def)
next
  case False
  have run: "\<exists>t'. map_option (\<lambda>t'. t'\<lparr>t_batchInsertCount := t_batchInsertCount t' + 1\<rparr>)
        (map_option invalidate (each_item (place_item H) ys (store_items H xs (length items) t))) = Some t'
      \<and> tree_rep h H t' (fold (store_pair H) xs its) (fold (place_leaf H (t_maxDepth t)) ys lvs)
      \<and> t_maxDepth t' = t_maxDepth t \<and> t_itemCount t' = t_itemCount t + of_nat (length items)"
    if m: "mset xs = mset items" "mset ys = mset items" for xs ys
  proof -
    have "set xs = set items" "set ys = set items" using m by (metis set_mset_mset)+
    with store_place_rep [OF t, of xs ys "length items"] fits obtain t1 where
      "map_option invalidate (each_item (place_item H) ys (store_items H xs (length items) t)) = Some t1"
      "tree_rep h H t1 (fold (store_pair H) xs its) (fold (place_leaf H (t_maxDepth t)) ys lvs)"
      "t_maxDepth t1 = t_maxDepth t" "t_itemCount t1 = t_itemCount t + of_nat (length items)" by auto
    then show ?thesis using tree_rep_counters by fastforce
  qed
  from InsertBatch_order [OF _ cpu fair grp, of t] False obtain xs ys where o: "mset xs = mset items" "mset ys = mset items"
    "length items < ParallelBatchThreshold \<longrightarrow> xs = items \<and> ys = items"
    and out: "InsertBatch H numCPU s1 s2 items t = map_option (\<lambda>t'. t'\<lparr>t_batchInsertCount := t_batchInsertCount t' + 1\<rparr>)
        (map_option invalidate (each_item (place_item H) ys (store_items H xs (length items) t)))"
    by auto
  from run [OF o(1,2)] o show ?thesis unfolding out by blast
qed

lemma mega_batch_panics:
  assumes "10000 < length items" "x \<in> set items" "16 \<le> unat (h_Key H x ! 0)"
  shows "InsertBatch H numCPU s1 s2 items t = None"
proof -
  let ?a = "h_Key H x ! 0" and ?b = "h_Key H x ! 1"
  have a: "unat ?a < 256" using unsigned_less [of ?a] by simp
  then have "unat (ucast ?a :: u64) = unat ?a" by (simp add: unsigned_ucast_eq take_bit_nat_eq_self)
  then have "unat (push_bit 8 (ucast ?a) :: u64) = unat ?a * 256"
    using a by (simp add: push_bit_eq_mult unat_word_ariths)
  moreover have "push_bit 8 (ucast ?a :: u64) \<le> push_bit 8 (ucast ?a) OR ucast ?b" by (rule le_word_or2)
  ultimately have "4096 \<le> unat (push_bit 8 (ucast ?a) OR ucast ?b :: u64)"
    using assms(3) unfolding word_le_nat_alt by linarith
  then have "4096 \<le> group_key H 4096 x" by (simp add: group_key_def Let_def)
  then have "group_items H 4096 items (replicate 4096 []) = None"
    using assms(2) by (intro group_items_panics) auto
  then show ?thesis using assms(1)
    by (auto simp: InsertBatch_def insertBatchMegaParallel_def group_size_def ParallelBatchThreshold_def SmallBatchThreshold_def Let_def)
qed

subsection \<open>Deletion, lookup, root\<close>

lemma unstore_item_rep:
  assumes "items_rep H t its"
  shows "items_rep H (unstore_item H i x t) (AList.delete i its)" "same_nodes t (unstore_item H i x t)"
    "t_itemCount (unstore_item H i x t) = t_itemCount t"
    "t_rootCacheValid (unstore_item H i x t) = t_rootCacheValid t"
    "t_cachedRoot (unstore_item H i x t) = t_cachedRoot t"
  using assms sharded_cache.coherent_del [of "t_cache t" "map_of its" i]
  by (auto simp: items_rep_def unstore_item_def same_nodes_def set_alist_delete distinct_delete)

lemma unstore_link:
  "\<forall>(i, x)\<in>set its. P x \<Longrightarrow> \<forall>(i, x)\<in>set (AList.delete j its). P x"
  by (auto simp: set_alist_delete)

lemma DeleteItem_rep:
  assumes "tree_rep h H t its lvs"
  shows "\<exists>t'. DeleteItem h H i t = Some (map_of its i \<noteq> None, t') \<and> t_maxDepth t' = t_maxDepth t \<and>
    (case map_of its i of None \<Rightarrow> t' = t
     | Some x \<Rightarrow> tree_rep h H t' (AList.delete i its) (erase_leaf H (t_maxDepth t) x lvs)
        \<and> t_itemCount t' = t_itemCount t - 1)"
proof (cases "map_of its i")
  case None
  then show ?thesis using assms by (simp add: DeleteItem_def tree_rep_def items_rep_def)
next
  case (Some x)
  have rep: "items_rep H t its" "nodes_rep h H t lvs"
    and link: "\<forall>(i, x)\<in>set its. map_of lvs (path_in H t x) \<noteq> None"
    using assms by (auto simp: tree_rep_def)
  let ?t1 = "unstore_item H i x t"
  let ?t2 = "?t1\<lparr>t_itemCount := t_itemCount ?t1 + NOT 0\<rparr>"
  note un = unstore_item_rep [OF rep(1), of i x]
  have "same_nodes t ?t2" using un(2) by (simp add: same_nodes_def)
  then have n2: "nodes_rep h H ?t2 lvs" and D2: "t_maxDepth ?t2 = t_maxDepth t"
    using nodes_rep_cong [of t ?t2] rep(2) by (simp_all add: same_nodes_def)
  have i2: "items_rep H ?t2 (AList.delete i its)" using un(1) by (simp add: items_rep_def)
  have "(i, x) \<in> set its" using Some by (rule map_of_SomeD)
  then have "depth_fits H (t_maxDepth ?t2) x" "map_of lvs (path_in H ?t2 x) \<noteq> None"
    using rep(1) link D2 by (auto simp: items_rep_def)
  from erase_item_nodes [OF n2 this] obtain t3 where t3: "erase_item h H x ?t2 = Some t3" "same_items ?t2 t3"
    "nodes_rep h H t3 (erase_leaf H (t_maxDepth t) x lvs)"
    unfolding erase_leaf_def D2 by blast
  note f = same_items_frame [OF t3(2)]
  have "\<forall>(j, y)\<in>set (AList.delete i its).
      map_of (erase_leaf H (t_maxDepth t) x lvs) (path_in H t y) \<noteq> None"
    using unstore_link [OF link, of i] by (auto simp: erase_leaf_def)
  then have "tree_rep h H (invalidate t3) (AList.delete i its) (erase_leaf H (t_maxDepth t) x lvs)"
    using t3(3) i2 f D2 by (auto simp: tree_rep_def)
  moreover have "DeleteItem h H i t = Some (True, invalidate t3)"
    using Some t3(1) rep(1) by (simp add: DeleteItem_def items_rep_def Let_def)
  moreover have "t_itemCount (invalidate t3) = t_itemCount t - 1" using f un(3) by simp
  ultimately show ?thesis using Some f D2 by simp
qed

lemma GetItem_rep:
  assumes "tree_rep h H t its lvs"
  shows "fst (GetItem i t) = map_of its i" "tree_rep h H (snd (GetItem i t)) its lvs"
    "t_maxDepth (snd (GetItem i t)) = t_maxDepth t" "t_itemCount (snd (GetItem i t)) = t_itemCount t"
proof -
  have co: "sharded_cache.coherent (t_cache t) (map_of its)" and it: "t_items t = its"
    using assms by (auto simp: tree_rep_def items_rep_def)
  note look = sharded_cache.coherent_look [OF co, of i]
  show "fst (GetItem i t) = map_of its i"
    using look it by (auto simp: GetItem_def Let_def split: option.split)
  have put: "tree_rep h H t' its lvs" if "t_cache t' = t_cache t \<or> (\<exists>v. map_of its i = Some v \<and> t_cache t' = sharded_put i v (t_cache t))"
     "t_root t' = t_root t" "t_items t' = t_items t" "t_maxDepth t' = t_maxDepth t"
      "t_rootCacheValid t' = t_rootCacheValid t" "t_cachedRoot t' = t_cachedRoot t" for t'
  proof -
    have "sharded_cache.coherent (t_cache t') (map_of its)"
      using that(1) co sharded_cache.coherent_refill [OF co] by auto
    then show ?thesis
      using assms unfolding tree_rep_def items_rep_def nodes_rep_def levels_def that(2-) by blast
  qed
  show "tree_rep h H (snd (GetItem i t)) its lvs"
    by (rule put) (use look it in \<open>auto simp: GetItem_def Let_def split: option.split\<close>)
  show "t_maxDepth (snd (GetItem i t)) = t_maxDepth t" "t_itemCount (snd (GetItem i t)) = t_itemCount t"
    by (auto simp: GetItem_def Let_def split: option.split)
qed

lemma compute_step_rep:
  assumes "nodes_rep h H t lvs" "DeletedNodeHash h \<noteq> zero32"
  shows "\<exists>t'. compute_step N h H t = Some (root_of h H (levels t) lvs, t') \<and> nodes_rep h H t' lvs
    \<and> t' = t\<lparr>t_root := t_root t'\<rparr>"
proof -
  have ok: "node_ok h H (DeletedNodeHash h) (levels t) (t_root t)"
    and lv: "\<And>p. map_of lvs p = (if length p = levels t then value_at (t_root t) p else None)"
    using assms(1) by (auto simp: nodes_rep_def)
  from computeNodeHash_ok(1) [OF assms(2) ok, of N "t_maxDepth t" 0 True] obtain n where
    n: "computeNodeHash h H N (t_maxDepth t) 0 True (t_root t) = Some (fresh h H (DeletedNodeHash h) (t_root t), n)"
      "rehashed h H (DeletedNodeHash h) (levels t) (t_root t) n" by blast
  have "nodes_rep h H (t\<lparr>t_root := n\<rparr>) lvs"
    using n(2) lv unfolding nodes_rep_def rehashed_def levels_root by simp
  moreover have "map_of (leaf_hashes h H lvs) p = hash_at H (DeletedNodeHash h) (t_root t) (levels t) p" for p
    by (simp add: map_of_leaf_hashes lv hash_at_def)
  ultimately show ?thesis
    using n(1) fresh_trie_root [OF ok, of "leaf_hashes h H lvs"]
    by (intro exI [of _ "t\<lparr>t_root := n\<rparr>"]) (simp add: compute_step_def root_of_def)
qed

lemma ComputeRoot_rep:
  assumes "tree_rep h H t its lvs" "DeletedNodeHash h \<noteq> zero32"
  shows "\<exists>t'. ComputeRoot N h H t = Some (root_of h H (levels t) lvs, t') \<and> tree_rep h H t' its lvs
    \<and> t_maxDepth t' = t_maxDepth t \<and> t_itemCount t' = t_itemCount t \<and> t_rootCacheValid t'
    \<and> t_cachedRoot t' = root_of h H (levels t) lvs"
proof (cases "t_rootCacheValid t")
  case True
  then show ?thesis using assms by (simp add: ComputeRoot_def tree_rep_def)
next
  case False
  from assms(1) have "nodes_rep h H t lvs" by (simp add: tree_rep_def)
  from compute_step_rep [OF this assms(2)] obtain t1 where
    t1: "compute_step N h H t = Some (root_of h H (levels t) lvs, t1)" "nodes_rep h H t1 lvs" "t1 = t\<lparr>t_root := t_root t1\<rparr>" by blast
  then have f: "t_maxDepth t1 = t_maxDepth t" "t_items t1 = t_items t" "t_cache t1 = t_cache t"
      "t_itemCount t1 = t_itemCount t" by (metis tree.ext_inject tree.surjective tree.update_convs(1))+
  let ?t2 = "publish_step (root_of h H (levels t) lvs) t1"
  have f2: "same_nodes t1 ?t2" "t_maxDepth ?t2 = t_maxDepth t" "levels ?t2 = levels t"
      "t_items ?t2 = t_items t" "t_cache ?t2 = t_cache t"
    using f by (simp_all add: publish_step_def same_nodes_def levels_def)
  have "items_rep H ?t2 its"
    using assms(1) unfolding tree_rep_def items_rep_def f2(2,4,5) by blast
  moreover have "nodes_rep h H ?t2 lvs" using nodes_rep_cong [OF f2(1)] t1(2) by simp
  ultimately have "tree_rep h H ?t2 its lvs"
    using assms(1) f2(2,3) unfolding tree_rep_def by (simp only:) (simp add: publish_step_def)
  then show ?thesis
    using False t1(1) f by (simp add: ComputeRoot_def publish_step_def)
qed

lemma empty_rep:
  assumes "t_root t = alloc" "t_items t = []" "sharded_valid (t_cache t)" "\<And>i. sharded_tryGet i (t_cache t) = None"
    "\<not> t_rootCacheValid t"
  shows "tree_rep h H t [] []"
  using assms sharded_cache.coherent_empty [of "t_cache t" "map_of []"]
  by (auto simp: tree_rep_def items_rep_def nodes_rep_def levels_def alloc_def hash_at_def value_at_def length_Suc_conv)

lemma NewTree_rep: "CacheShards cfg < 63 \<Longrightarrow> tree_rep h H (NewTree (Some cfg)) [] []"
  by (rule empty_rep) (simp_all add: NewTree_def Let_def newSharded_valid newSharded_miss)

lemma ClearItems_rep:
  assumes "tree_rep h H t its lvs"
  shows "tree_rep h H (ClearItems t) [] []" "t_maxDepth (ClearItems t) = t_maxDepth t" "t_itemCount (ClearItems t) = 0"
proof -
  have v: "sharded_valid (t_cache t)"
    using assms by (auto simp: tree_rep_def items_rep_def sharded_cache.coherent_def)
  show "tree_rep h H (ClearItems t) [] []"
    by (rule empty_rep) (simp_all add: ClearItems_def sharded_clear_lookup [OF v] sharded_cache.clr_valid [OF v])
qed (simp_all add: ClearItems_def)

end
