(* ===== verification/TreeTheorems.thy ===== *)
theory TreeTheorems
  imports TreeRep
begin

text \<open>
  Properties of the tree. \<open>tree_op\<close> lists its operations and \<open>abs_op\<close> what each does to the
  two association lists that the tree represents: the items by ID and the leaf hashes by path.
\<close>

subsection \<open>Deleting a batch\<close>

fun abs_collect :: "u64 list \<Rightarrow> (u64 \<times> 'a) list \<Rightarrow> 'a list" where
  "abs_collect [] its = []"
| "abs_collect (i # dead) its =
    (case map_of its i of None \<Rightarrow> abs_collect dead its | Some x \<Rightarrow> x # abs_collect dead (AList.delete i its))"

lemma collect_deletions_rep:
  assumes "items_rep H t its"
  shows "\<exists>t'. collect_deletions H dead (acc, t) = (acc @ abs_collect dead its, t')
    \<and> items_rep H t' (fold AList.delete dead its) \<and> same_nodes t t' \<and> t_itemCount t' = t_itemCount t
    \<and> t_rootCacheValid t' = t_rootCacheValid t \<and> t_cachedRoot t' = t_cachedRoot t
    \<and> (abs_collect dead its = [] \<longrightarrow> t' = t) \<and> set (abs_collect dead its) \<subseteq> snd ` set its"
  using assms
proof (induction dead arbitrary: acc t its)
  case (Cons i dead)
  have it: "t_items t = its" using Cons.prems by (simp add: items_rep_def)
  show ?case
  proof (cases "map_of its i")
    case None
    then have "AList.delete i its = its" by (simp add: delete_absent map_of_eq_None_iff)
    then show ?thesis using Cons.IH [OF Cons.prems, of acc] None it by simp
  next
    case (Some x)
    note un = unstore_item_rep [OF Cons.prems, of i x]
    from Cons.IH [OF un(1), of "acc @ [x]"] obtain t' where t':
      "collect_deletions H dead (acc @ [x], unstore_item H i x t) = (acc @ [x] @ abs_collect dead (AList.delete i its), t')"
      "items_rep H t' (fold AList.delete dead (AList.delete i its))" "same_nodes (unstore_item H i x t) t'"
      "t_itemCount t' = t_itemCount t" "t_rootCacheValid t' = t_rootCacheValid t" "t_cachedRoot t' = t_cachedRoot t"
      "set (abs_collect dead (AList.delete i its)) \<subseteq> snd ` set (AList.delete i its)"
      using un by auto
    have "x \<in> snd ` set its" using Some by (metis map_of_SomeD imageI snd_conv)
    moreover have "snd ` set (AList.delete i its) \<subseteq> snd ` set its" by (auto simp: set_alist_delete)
    moreover have "same_nodes t t'" using un(2) t'(3) by (simp add: same_nodes_def)
    ultimately show ?thesis using t' Some it by auto
  qed
qed (auto simp: same_nodes_def)

lemma map_of_fold_erase:
  "map_of (fold (erase_leaf H D) xs lvs) p = (if p \<in> path_of H D ` set xs then Some None else map_of lvs p)"
  by (induction xs rule: rev_induct) (auto simp: erase_leaf_def)

lemma nodes_rep_map: "map_of lvs = map_of lvs' \<Longrightarrow> nodes_rep h H t lvs = nodes_rep h H t lvs'"
  by (simp add: nodes_rep_def)

lemma tree_rep_map: "map_of lvs = map_of lvs' \<Longrightarrow> tree_rep h H t its lvs = tree_rep h H t its lvs'"
  using nodes_rep_map root_of_cong unfolding tree_rep_def by metis

lemma fold_delete_subset: "set (fold AList.delete dead its) \<subseteq> set its"
proof (induction dead arbitrary: its)
  case (Cons i dead)
  have "set (AList.delete i its) \<subseteq> set its" by (auto simp: set_alist_delete)
  with Cons.IH [of "AList.delete i its"] show ?case by simp
qed simp

lemma DeleteBatch_rep:
  assumes t: "tree_rep h H t its lvs" and cpu: "0 < numCPU" "fair s"
  shows "\<exists>t'. DeleteBatch h H numCPU s dead t = Some (length (abs_collect dead its), t')
    \<and> tree_rep h H t' (fold AList.delete dead its)
        (fold (erase_leaf H (t_maxDepth t)) (abs_collect dead its) lvs)
    \<and> t_maxDepth t' = t_maxDepth t \<and> t_itemCount t' = t_itemCount t - of_nat (length (abs_collect dead its))"
proof -
  let ?xs = "abs_collect dead its" and ?D = "t_maxDepth t" and ?del = "DeletedNodeHash h"
  have rep: "items_rep H t its" "nodes_rep h H t lvs"
    and link: "\<forall>(i, x)\<in>set its. map_of lvs (path_in H t x) \<noteq> None"
    using t by (auto simp: tree_rep_def)
  from collect_deletions_rep [OF rep(1), of dead "[]"] obtain t1 where
    c: "collect_deletions H dead ([], t) = (?xs, t1)" and i1: "items_rep H t1 (fold AList.delete dead its)"
    and n1: "same_nodes t t1" and cnt: "t_itemCount t1 = t_itemCount t"
    and same: "?xs = [] \<longrightarrow> t1 = t" and sub: "set ?xs \<subseteq> snd ` set its" by auto
  note del_sub = fold_delete_subset [of dead its]
  show ?thesis
  proof (cases "?xs = []")
    case True
    with same i1 have "fold AList.delete dead its = its" using rep(1) by (simp add: items_rep_def)
    then show ?thesis using True c same t by (cases dead) (simp_all add: DeleteBatch_def)
  next
    case False
    then have ne: "dead \<noteq> []" by auto
    let ?t2 = "t1\<lparr>t_itemCount := t_itemCount t1 + NOT (of_nat (length ?xs - 1))\<rparr>"
    let ?order = "if length ?xs < SmallBatchThreshold then ?xs
       else s (worker_chunks (delete_workers numCPU (length ?xs)) ?xs)"
    have "0 < delete_workers numCPU (length ?xs)" using cpu False by (simp add: delete_workers_def Let_def)
    then have "mset ?order = mset ?xs" using cpu(2) by (simp add: fair_def concat_worker_chunks)
    then have so: "set ?order = set ?xs" by (metis set_mset_mset)
    have "same_nodes t ?t2" using n1 by (simp add: same_nodes_def)
    then have n2: "nodes_rep h H ?t2 lvs" and D2: "t_maxDepth ?t2 = ?D"
      using nodes_rep_cong [of t ?t2] rep(2) by (simp_all add: same_nodes_def)
    have "\<forall>x\<in>set ?order. depth_fits H (t_maxDepth ?t2) x \<and> map_of lvs (path_in H ?t2 x) \<noteq> None"
    proof
      fix x assume "x \<in> set ?order"
      then obtain i where "(i, x) \<in> set its" using so sub by auto
      then show "depth_fits H (t_maxDepth ?t2) x \<and> map_of lvs (path_in H ?t2 x) \<noteq> None"
        using rep(1) link unfolding D2 items_rep_def by blast
    qed
    from erase_items_nodes [OF n2 this] D2 obtain t3 where t3: "each_item (erase_item h H) ?order ?t2 = Some t3"
      "same_items ?t2 t3" "nodes_rep h H t3 (fold (erase_leaf H ?D) ?order lvs)" by auto
    note f = same_items_frame [OF t3(2)]
    let ?lvs = "fold (erase_leaf H ?D) ?xs lvs"
    have "map_of (fold (erase_leaf H ?D) ?order lvs) = map_of ?lvs"
      using so by (simp add: fun_eq_iff map_of_fold_erase)
    then have "nodes_rep h H t3 ?lvs" using t3(3) nodes_rep_map by metis
    moreover have "\<forall>(i, x)\<in>set (fold AList.delete dead its). map_of ?lvs (path_of H ?D x) \<noteq> None"
      using link del_sub by (auto simp: map_of_fold_erase)
    moreover have "items_rep H ?t2 (fold AList.delete dead its)" using i1 by (simp add: items_rep_def)
    then have "items_rep H t3 (fold AList.delete dead its)" by (simp only: f(3))
    ultimately have "tree_rep h H (invalidate t3) (fold AList.delete dead its) ?lvs"
      using f D2 by (simp add: tree_rep_def)
    moreover have "t_itemCount t3 = t_itemCount t - of_nat (length ?xs)"
    proof -
      have "NOT (of_nat n :: u64) = - of_nat (Suc n)" for n by (simp add: not_eq_complement)
      from this [of "length ?xs - 1"] False
      have "NOT (of_nat (length ?xs - 1) :: u64) = - of_nat (length ?xs)" by simp
      then show ?thesis using f(6) cnt by simp
    qed
    moreover have "DeleteBatch h H numCPU s dead t = Some (length ?xs,
        (invalidate t3)\<lparr>t_deleteCount := t_deleteCount t3 + of_nat (length ?xs)\<rparr>)"
      using ne False c t3(1) by (simp add: DeleteBatch_def Let_def)
    ultimately show ?thesis
      using tree_rep_counters [of h H "invalidate t3" _ ?lvs
          "(invalidate t3)\<lparr>t_deleteCount := t_deleteCount t3 + of_nat (length ?xs)\<rparr>"] f D2 by simp
  qed
qed

subsection \<open>Sequences of operations\<close>

datatype 'a tree_op =
    OpInsert 'a | OpInsertBatch "'a list" | OpDelete u64 | OpDeleteBatch "u64 list"
  | OpGet u64 | OpComputeRoot | OpClear

record 'a runtime =
  rt_NumCPU :: nat
  rt_store :: "'a schedule"
  rt_place :: "'a schedule"

definition runtime_ok :: "'a runtime \<Rightarrow> bool" where
  "runtime_ok R \<longleftrightarrow> 0 < rt_NumCPU R \<and> fair (rt_store R) \<and> fair (rt_place R)"

fun tree_step :: "(bytes \<Rightarrow> bytes) \<Rightarrow> 'a hashable \<Rightarrow> 'a runtime \<Rightarrow> 'a tree_op \<Rightarrow> 'a tree \<Rightarrow> 'a tree option" where
  "tree_step h H R (OpInsert x) t = Insert H x t"
| "tree_step h H R (OpInsertBatch xs) t = InsertBatch H (rt_NumCPU R) (rt_store R) (rt_place R) xs t"
| "tree_step h H R (OpDelete i) t = map_option snd (DeleteItem h H i t)"
| "tree_step h H R (OpDeleteBatch dead) t = map_option snd (DeleteBatch h H (rt_NumCPU R) (rt_place R) dead t)"
| "tree_step h H R (OpGet i) t = Some (snd (GetItem i t))"
| "tree_step h H R OpComputeRoot t = map_option snd (ComputeRoot (rt_NumCPU R) h H t)"
| "tree_step h H R OpClear t = Some (ClearItems t)"

fun tree_run :: "(bytes \<Rightarrow> bytes) \<Rightarrow> 'a hashable \<Rightarrow> 'a runtime \<Rightarrow> 'a tree_op list \<Rightarrow> 'a tree \<Rightarrow> 'a tree option" where
  "tree_run h H R [] t = Some t"
| "tree_run h H R (x # xs) t = (case tree_step h H R x t of None \<Rightarrow> None | Some t' \<Rightarrow> tree_run h H R xs t')"

type_synonym 'a abs_tree = "(u64 \<times> 'a) list \<times> 'a leaves"

fun abs_op :: "'a hashable \<Rightarrow> int \<Rightarrow> 'a tree_op \<Rightarrow> 'a abs_tree \<Rightarrow> 'a abs_tree" where
  "abs_op H D (OpInsert x) (its, lvs) = (store_pair H x its, place_leaf H D x lvs)"
| "abs_op H D (OpInsertBatch xs) (its, lvs) = (fold (store_pair H) xs its, fold (place_leaf H D) xs lvs)"
| "abs_op H D (OpDelete i) (its, lvs) =
    (case map_of its i of None \<Rightarrow> (its, lvs) | Some x \<Rightarrow> (AList.delete i its, erase_leaf H D x lvs))"
| "abs_op H D (OpDeleteBatch dead) (its, lvs) =
    (fold AList.delete dead its, fold (erase_leaf H D) (abs_collect dead its) lvs)"
| "abs_op H D OpClear s = ([], [])"
| "abs_op H D _ s = s"

text \<open>The abstract operations only depend on the maps that the two lists stand for.\<close>

definition same_maps :: "'a abs_tree \<Rightarrow> 'a abs_tree \<Rightarrow> bool" where
  "same_maps s s' \<longleftrightarrow> map_of (fst s) = map_of (fst s') \<and> map_of (snd s) = map_of (snd s')"

lemma same_mapsI: "map_of (fst s) = map_of (fst s') \<Longrightarrow> map_of (snd s) = map_of (snd s') \<Longrightarrow> same_maps s s'"
  by (simp add: same_maps_def)

lemma same_maps_trans: "same_maps s s' \<Longrightarrow> same_maps s' s'' \<Longrightarrow> same_maps s s''"
  by (simp add: same_maps_def)

lemma abs_collect_map: "map_of its = map_of its' \<Longrightarrow> abs_collect dead its = abs_collect dead its'"
proof (induction dead arbitrary: its its')
  case (Cons i dead)
  have "map_of (AList.delete i its) = map_of (AList.delete i its')" using Cons.prems by (simp add: delete_conv')
  from Cons.IH [OF this] Cons.IH [OF Cons.prems] Cons.prems show ?case by (simp split: option.split)
qed simp

lemma map_of_fold_delete: "map_of (fold AList.delete dead its) i = (if i \<in> set dead then None else map_of its i)"
  by (induction dead arbitrary: its) (simp_all add: delete_conv')

lemma abs_op_same:
  assumes "same_maps s s'"
  shows "same_maps (abs_op H D x s) (abs_op H D x s')"
proof -
  obtain its lvs its' lvs' where s: "s = (its, lvs)" "s' = (its', lvs')" by (cases s, cases s')
  then have m: "map_of its = map_of its'" "map_of lvs = map_of lvs'" using assms by (simp_all add: same_maps_def)
  note c = abs_collect_map [OF m(1)]
  show ?thesis unfolding s
  proof (cases x)
    case (OpDelete i)
    then show "same_maps (abs_op H D x (its, lvs)) (abs_op H D x (its', lvs'))"
      by (cases "map_of its' i") (simp_all add: same_maps_def m erase_leaf_def update_conv' delete_conv')
  next
    case (OpInsertBatch xs)
    have "map_of (fold (store_pair H) xs its) = map_of (fold (store_pair H) xs its')"
      "map_of (fold (place_leaf H D) xs lvs) = map_of (fold (place_leaf H D) xs lvs')"
      by (rule ext, simp only: map_of_fold_store map_of_fold_place m)+
    then show "same_maps (abs_op H D x (its, lvs)) (abs_op H D x (its', lvs'))"
      by (simp add: OpInsertBatch same_maps_def)
  qed (simp_all add: same_maps_def m c store_pair_def place_leaf_def update_conv'
      map_of_fold_erase map_of_fold_delete fun_eq_iff)
qed

lemma abs_run_same: "same_maps s s' \<Longrightarrow> same_maps (fold (abs_op H D) xs s) (fold (abs_op H D) xs s')"
  by (induction xs arbitrary: s s') (simp_all add: abs_op_same)

text \<open>Batches of \<^verbatim>\<open>ParallelBatchThreshold\<close> items and more are stored and placed in an order chosen by
  the scheduler, and with more than 10000 items the grouping table can be too small. The effect is
  determined when the IDs and the paths are distinct and the table is large enough.\<close>

definition order_free :: "'a hashable \<Rightarrow> int \<Rightarrow> 'a list \<Rightarrow> bool" where
  "order_free H D xs \<longleftrightarrow> grouping_fits H xs \<and> distinct (map (h_ID H) xs) \<and> distinct (map (path_of H D) xs)"

fun op_fits :: "'a hashable \<Rightarrow> int \<Rightarrow> 'a tree_op \<Rightarrow> bool" where
  "op_fits H D (OpInsert x) \<longleftrightarrow> depth_fits H D x"
| "op_fits H D (OpInsertBatch xs) \<longleftrightarrow>
    list_all (depth_fits H D) xs \<and> (length xs < ParallelBatchThreshold \<or> order_free H D xs)"
| "op_fits H D _ \<longleftrightarrow> True"

lemma map_of_perm:
  assumes "mset xs = mset ys" "distinct (map fst xs)"
  shows "map_of xs = map_of ys"
proof -
  have "set xs = set ys" using assms(1) by (rule mset_eq_setD)
  moreover have "distinct (map fst ys)" using assms by (metis mset_eq_imp_distinct_iff mset_map)
  ultimately show ?thesis using assms(2) by (metis map_of_inject_set)
qed

lemma fold_store_perm:
  assumes "mset xs = mset ys" "distinct (map (h_ID H) xs)"
  shows "map_of (fold (store_pair H) xs its) = map_of (fold (store_pair H) ys its)"
proof -
  have "map_of (rev (map (\<lambda>x. (h_ID H x, x)) xs)) = map_of (rev (map (\<lambda>x. (h_ID H x, x)) ys))"
    using assms by (intro map_of_perm) (simp_all add: comp_def flip: rev_map)
  then show ?thesis by (simp add: fun_eq_iff map_of_fold_store)
qed

lemma fold_place_perm:
  assumes "mset xs = mset ys" "distinct (map (path_of H D) xs)"
  shows "map_of (fold (place_leaf H D) xs lvs) = map_of (fold (place_leaf H D) ys lvs)"
proof -
  have "map_of (rev (map (\<lambda>x. (path_of H D x, Some x)) xs)) = map_of (rev (map (\<lambda>x. (path_of H D x, Some x)) ys))"
    using assms by (intro map_of_perm) (simp_all add: comp_def flip: rev_map)
  then show ?thesis by (simp add: fun_eq_iff map_of_fold_place)
qed

lemma tree_step_rep:
  assumes t: "tree_rep h H t its lvs" and R: "runtime_ok R" and fits: "op_fits H (t_maxDepth t) x"
    and del: "DeletedNodeHash h \<noteq> zero32"
  shows "\<exists>t' its' lvs'. tree_step h H R x t = Some t' \<and> t_maxDepth t' = t_maxDepth t \<and> tree_rep h H t' its' lvs'
    \<and> same_maps (its', lvs') (abs_op H (t_maxDepth t) x (its, lvs))"
proof -
  have exact: ?thesis if "tree_step h H R x t = Some t'" "t_maxDepth t' = t_maxDepth t"
    "tree_rep h H t' (fst (abs_op H (t_maxDepth t) x (its, lvs))) (snd (abs_op H (t_maxDepth t) x (its, lvs)))" for t'
    using that by (intro exI conjI) (auto simp: same_maps_def)
  show ?thesis
  proof (cases x)
    case (OpInsert x)
    then show ?thesis using Insert_rep [OF t, of x] fits exact by auto
  next
    case (OpInsertBatch xs)
    have "grouping_fits H xs" using fits OpInsertBatch
      by (auto simp: grouping_fits_def ParallelBatchThreshold_def order_free_def)
    moreover have "\<forall>x\<in>set xs. depth_fits H (t_maxDepth t) x" using fits OpInsertBatch by (simp add: list_all_iff)
    ultimately obtain t' ys zs where o: "tree_step h H R x t = Some t'" "t_maxDepth t' = t_maxDepth t"
      "mset ys = mset xs" "mset zs = mset xs" "length xs < ParallelBatchThreshold \<longrightarrow> ys = xs \<and> zs = xs"
      "tree_rep h H t' (fold (store_pair H) ys its) (fold (place_leaf H (t_maxDepth t)) zs lvs)"
      using InsertBatch_rep [OF t, of xs "rt_NumCPU R" "rt_store R" "rt_place R"] R OpInsertBatch
      by (auto simp: runtime_ok_def)
    have "same_maps (fold (store_pair H) ys its, fold (place_leaf H (t_maxDepth t)) zs lvs)
      (abs_op H (t_maxDepth t) x (its, lvs))"
      using o(3-5) fits OpInsertBatch fold_store_perm [of xs ys H its] fold_place_perm [of xs zs H "t_maxDepth t" lvs]
      by (auto simp: order_free_def same_maps_def)
    with o show ?thesis by blast
  next
    case (OpDelete i)
    show ?thesis
    proof (cases "map_of its i")
      case None
      with DeleteItem_rep [OF t, of i] t show ?thesis by (intro exact [of t]) (simp_all add: OpDelete)
    next
      case (Some y)
      with DeleteItem_rep [OF t, of i] obtain t' where "DeleteItem h H i t = Some (True, t')"
        "t_maxDepth t' = t_maxDepth t" "tree_rep h H t' (AList.delete i its) (erase_leaf H (t_maxDepth t) y lvs)"
        by auto
      with Some show ?thesis by (intro exact [of t']) (simp_all add: OpDelete)
    qed
  next
    case (OpDeleteBatch dead)
    from DeleteBatch_rep [OF t, of "rt_NumCPU R" "rt_place R" dead] R obtain t' where
      "tree_step h H R x t = Some t'" "t_maxDepth t' = t_maxDepth t"
      "tree_rep h H t' (fst (abs_op H (t_maxDepth t) x (its, lvs))) (snd (abs_op H (t_maxDepth t) x (its, lvs)))"
      by (auto simp: OpDeleteBatch runtime_ok_def)
    then show ?thesis by (rule exact)
  next
    case (OpGet i)
    from GetItem_rep [OF t, of i] show ?thesis by (intro exact [of "snd (GetItem i t)"]) (simp_all add: OpGet)
  next
    case OpComputeRoot
    from ComputeRoot_rep [OF t del, of "rt_NumCPU R"] obtain t' where
      "tree_step h H R x t = Some t'" "t_maxDepth t' = t_maxDepth t" "tree_rep h H t' its lvs"
      by (auto simp: OpComputeRoot)
    then show ?thesis by (intro exact) (simp_all add: OpComputeRoot)
  next
    case OpClear
    from ClearItems_rep [OF t] show ?thesis by (intro exact [of "ClearItems t"]) (simp_all add: OpClear)
  qed
qed

lemma tree_run_rep:
  assumes "tree_rep h H t its lvs" "runtime_ok R" "list_all (op_fits H (t_maxDepth t)) xs"
    "DeletedNodeHash h \<noteq> zero32"
  shows "\<exists>t' its' lvs'. tree_run h H R xs t = Some t' \<and> t_maxDepth t' = t_maxDepth t \<and> tree_rep h H t' its' lvs'
    \<and> same_maps (its', lvs') (fold (abs_op H (t_maxDepth t)) xs (its, lvs))"
  using assms(1,3)
proof (induction xs arbitrary: t its lvs)
  case (Cons x xs)
  let ?D = "t_maxDepth t"
  from tree_step_rep [OF Cons.prems(1) assms(2) _ assms(4), of x] Cons.prems(2) obtain t1 its1 lvs1 where
    t1: "tree_step h H R x t = Some t1" "t_maxDepth t1 = ?D" "tree_rep h H t1 its1 lvs1"
      "same_maps (its1, lvs1) (abs_op H ?D x (its, lvs))" by auto
  from Cons.IH [OF t1(3)] Cons.prems(2) t1(2) obtain t' its' lvs' where
    t': "tree_run h H R xs t1 = Some t'" "t_maxDepth t' = ?D" "tree_rep h H t' its' lvs'"
      "same_maps (its', lvs') (fold (abs_op H ?D) xs (its1, lvs1))" by auto
  with t1(1) same_maps_trans [OF t'(4) abs_run_same [OF t1(4)]] show ?case by auto
qed (auto simp: same_maps_def)

text \<open>The depth of a tree with this configuration.\<close>

definition config_levels :: "config \<Rightarrow> nat" where
  "config_levels cfg = Suc (nat (MaxDepth cfg - 1))"

abbreviation abs_run where
  "abs_run H cfg ops \<equiv> fold (abs_op H (MaxDepth cfg)) ops ([], [])"

lemma run_new:
  assumes "CacheShards cfg < 63" "runtime_ok R" "list_all (op_fits H (MaxDepth cfg)) ops"
    "DeletedNodeHash h \<noteq> zero32"
  shows "\<exists>t its. tree_run h H R ops (NewTree (Some cfg)) = Some t \<and> t_maxDepth t = MaxDepth cfg
    \<and> levels t = config_levels cfg \<and> tree_rep h H t its (snd (abs_run H cfg ops))
    \<and> map_of its = map_of (fst (abs_run H cfg ops))"
proof -
  have D: "t_maxDepth (NewTree (Some cfg)) = MaxDepth cfg" by (simp add: NewTree_def Let_def)
  from tree_run_rep [OF NewTree_rep [OF assms(1)] assms(2) _ assms(4), of H ops] assms(3) obtain t its lvs where
    "tree_run h H R ops (NewTree (Some cfg)) = Some t" "t_maxDepth t = MaxDepth cfg" "tree_rep h H t its lvs"
    "same_maps (its, lvs) (abs_run H cfg ops)" unfolding D by auto
  then show ?thesis using tree_rep_map [of lvs "snd (abs_run H cfg ops)" h H t its]
    by (auto simp: levels_def config_levels_def same_maps_def)
qed

text \<open>C4. Whatever operations ran on a tree, no operation fails, its items are those of the plain
  map, \<^verbatim>\<open>Get\<close> answers from that map in spite of the cache, and \<^verbatim>\<open>ComputeRoot\<close>, which recomputes
  dirty nodes only, returns the root computed from scratch over the leaf at each path: the hash
  of the last item placed there, or the tombstone after its deletion. The guard \<open>op_fits\<close>: keys are at
  least as long as the paths; a batch of 150 items and more, which goroutines store and place in an order of
  their own, has distinct IDs and distinct paths and, from 5000 items, keys within the grouping table (for
  other keys \<^verbatim>\<open>InsertBatch\<close> panics, \<open>large_batch_panics\<close>). Smaller batches are unrestricted.\<close>

theorem tree_refines_maps:
  fixes H :: "'a hashable"
  assumes "CacheShards cfg < 63" "runtime_ok R" "list_all (op_fits H (MaxDepth cfg)) ops"
    "DeletedNodeHash h \<noteq> zero32"
  shows "\<exists>t t'. tree_run h H R ops (NewTree (Some cfg)) = Some t
    \<and> distinct (map fst (t_items t)) \<and> map_of (t_items t) = map_of (fst (abs_run H cfg ops))
    \<and> (\<forall>i. fst (GetItem i t) = map_of (fst (abs_run H cfg ops)) i)
    \<and> ComputeRoot N h H t = Some (root_of h H (config_levels cfg) (snd (abs_run H cfg ops)), t')"
proof -
  from run_new [OF assms] obtain t its where t: "tree_run h H R ops (NewTree (Some cfg)) = Some t"
    "levels t = config_levels cfg" "tree_rep h H t its (snd (abs_run H cfg ops))"
    "map_of its = map_of (fst (abs_run H cfg ops))" by blast
  from ComputeRoot_rep [OF t(3) assms(4), of N] t(2) obtain t' where
    "ComputeRoot N h H t = Some (root_of h H (config_levels cfg) (snd (abs_run H cfg ops)), t')" by auto
  moreover have "t_items t = its" "distinct (map fst its)" using t(3) by (simp_all add: tree_rep_def items_rep_def)
  ultimately show ?thesis using t(1,4) GetItem_rep(1) [OF t(3)] by (intro exI conjI) simp_all
qed

definition sample_hash :: "bytes \<Rightarrow> bytes" where
  "sample_hash x = replicate 32 1"

definition sample_runtime :: "'a runtime" where
  "sample_runtime = \<lparr>rt_NumCPU = 4, rt_store = concat, rt_place = concat\<rparr>"

lemma sample_ok [simp]:
  "runtime_ok sample_runtime" "DeletedNodeHash sample_hash \<noteq> zero32" "CacheShards SmallConfig < 63"
  "MaxDepth SmallConfig = 3" "depth_fits id_hashable 3 i" "path_of id_hashable 3 i = [ucast (drop_bit 56 i), ucast (drop_bit 48 i), ucast i]"
proof -
  have "take 2 (be_bytes 8 i) = [be_bytes 8 i ! 0, be_bytes 8 i ! 1]"
    by (simp add: take_Suc_conv_app_nth numeral_2_eq_2)
  then show "path_of id_hashable 3 i = [ucast (drop_bit 56 i), ucast (drop_bit 48 i), ucast i]"
    by (simp add: path_of_def last_key_def id_hashable_def EncodeKey_def nth_be_bytes)
qed (simp_all add: runtime_ok_def sample_runtime_def fair_def DeletedNodeHash_def sample_hash_def zero32_def
      SmallConfig_def depth_fits_def id_hashable_def EncodeKey_def)

lemma sample_root: "map_of lvs (k # p) \<noteq> None \<Longrightarrow> root_of sample_hash H (Suc m) lvs = replicate 32 1"
proof -
  assume "map_of lvs (k # p) \<noteq> None"
  then have "map_of (leaf_hashes sample_hash H lvs) (k # p) \<noteq> None" by (simp add: map_of_leaf_hashes)
  then have "below k (leaf_hashes sample_hash H lvs) \<noteq> []" by (auto simp: below_empty)
  then have "filter (\<lambda>k. below k (leaf_hashes sample_hash H lvs) \<noteq> []) all_bytes \<noteq> []"
    by (auto simp: filter_empty_conv set_all_bytes)
  then show ?thesis by (simp add: root_of_def branch_hash_def sample_hash_def arr32_def copy_to_def)
qed

text \<open>Items with \<open>n\<close> distinct paths: 256 values of the last byte for each value of the second.\<close>

definition spread :: "nat \<Rightarrow> u64" where
  "spread k = of_nat (k div 256 * 2 ^ 48 + k mod 256)"

definition spread_items :: "nat \<Rightarrow> u64 list" where
  "spread_items n = map spread [0..<n]"

lemma spread_path:
  assumes "k < 65536"
  shows "path_of id_hashable 3 (spread k) = [0, of_nat (k div 256), of_nat (k mod 256)]"
proof -
  let ?a = "k div 256" and ?b = "k mod 256"
  have ab: "?a < 256" "?b < 256" using assms by (simp_all add: less_mult_imp_div_less)
  then have n: "?a * 2 ^ 48 + ?b < 2 ^ 64" "(?a * 2 ^ 48 + ?b) div 2 ^ 56 = 0" "(?a * 2 ^ 48 + ?b) div 2 ^ 48 = ?a" by simp_all
  have u: "unat (spread k) = ?a * 2 ^ 48 + ?b" unfolding spread_def by (subst unat_of_nat) (use n(1) in simp)
  have "unat (drop_bit 56 (spread k)) = 0" "unat (drop_bit 48 (spread k)) = ?a"
    by (simp_all only: unsigned_drop_bit_eq u) (use n in \<open>simp_all add: drop_bit_eq_div take_bit_nat_eq_self\<close>)
  then have "drop_bit 56 (spread k) = 0" "drop_bit 48 (spread k) = of_nat ?a"
    by (simp_all add: unat_eq_zero flip: \<open>unat (drop_bit 48 (spread k)) = ?a\<close>)
  moreover have "x * 2 ^ 48 + y = y + 256 * (x * 2 ^ 40)" for x y :: nat by simp
  then have "(x * 2 ^ 48 + y) mod 256 = y mod 256" for x y :: nat by (simp only: mod_mult_self2)
  from this [of ?a ?b] have "ucast (spread k) = (of_nat ?b :: u8)"
    by (simp add: word_unat_eq_iff unat_of_nat unsigned_ucast_eq u take_bit_eq_mod)
  ultimately show ?thesis using ab(1) by (simp add: word_unat_eq_iff unat_of_nat unsigned_ucast_eq take_bit_eq_mod)
qed

lemma spread_items_ok:
  assumes "n \<le> 65536"
  shows "list_all (depth_fits id_hashable 3) (spread_items n)" "order_free id_hashable 3 (spread_items n)"
proof -
  have path: "path_of id_hashable 3 (spread k) = [0, of_nat (k div 256), of_nat (k mod 256)]" if "k < n" for k
    using spread_path that assms by simp
  have "k = j" if "k < n" "j < n" "path_of id_hashable 3 (spread k) = path_of id_hashable 3 (spread j)" for k j
  proof -
    have "(of_nat (k div 256) :: u8) = of_nat (j div 256)" "(of_nat (k mod 256) :: u8) = of_nat (j mod 256)"
      using that path by simp_all
    then have "k div 256 = j div 256" "k mod 256 = j mod 256"
      using that(1,2) assms by (simp_all add: word_unat_eq_iff unat_of_nat)
    then show ?thesis by (metis div_mult_mod_eq)
  qed
  then have "inj_on (\<lambda>k. path_of id_hashable 3 (spread k)) (set [0..<n])" by (auto intro: inj_onI)
  then have d: "distinct (map (path_of id_hashable 3) (spread_items n))"
    by (simp add: spread_items_def distinct_map comp_def)
  then have "distinct (spread_items n)" by (simp add: distinct_map)
  moreover have "map (h_ID id_hashable) xs = xs" for xs by (simp add: id_hashable_def)
  moreover have key: "group_key id_hashable sz (spread k) < 256" if "k < n" for k sz
  proof -
    have "h_Key id_hashable (spread k) ! 0 = 0"
      using path [OF that] unfolding sample_ok(6) by (simp add: id_hashable_def EncodeKey_def nth_be_bytes)
    moreover have "unat (ucast (b :: u8) :: u64) < 256" for b
    proof -
      have "unat b < 256" by (rule unsigned_less [THEN order.strict_trans2]) simp
      then show ?thesis by (simp add: unsigned_ucast_eq take_bit_nat_eq_self)
    qed
    ultimately show ?thesis by (simp add: group_key_def Let_def)
  qed
  then have "grouping_fits id_hashable (spread_items n)"
    using less_trans [OF key] by (auto simp: grouping_fits_def spread_items_def group_size_def)
  ultimately show "order_free id_hashable 3 (spread_items n)" using d by (simp add: order_free_def)
qed (simp add: list_all_iff)

theorem tree_refines_maps_witness:
  "\<exists>t t'. tree_run sample_hash id_hashable sample_runtime [OpInsert 2, OpInsertBatch (spread_items 200), OpDelete 1]
      (NewTree (Some SmallConfig)) = Some t \<and> map_of (t_items t) 1 = None \<and> fst (GetItem 2 t) = Some 2
    \<and> ComputeRoot 16 sample_hash id_hashable t = Some (replicate 32 1, t')"
proof -
  let ?ops = "[OpInsert 2, OpInsertBatch (spread_items 200), OpDelete 1] :: u64 tree_op list"
  let ?A = "abs_run id_hashable SmallConfig ?ops"
  have fits: "list_all (op_fits id_hashable (MaxDepth SmallConfig)) ?ops"
    using spread_items_ok [of 200] by simp
  have id: "h_ID id_hashable = (\<lambda>x. x)" by (simp add: id_hashable_def)
  have A: "fst ?A = AList.delete 1 (fold (store_pair id_hashable) (spread_items 200) [(2, 2)])"
    "snd ?A = erase_leaf id_hashable 3 1 (fold (place_leaf id_hashable 3) (spread_items 200) (place_leaf id_hashable 3 2 []))"
  proof -
    let ?its = "fold (store_pair id_hashable) (spread_items 200) [(2, 2)]"
    have "spread 1 = 1" "1 \<in> {0..<200::nat}" by (simp_all add: spread_def)
    then have "1 \<in> set (spread_items 200)" unfolding spread_items_def set_map set_upt by (metis imageI)
    then have "map_of ?its 1 = Some 1"
      by (simp add: map_of_fold_store id rev_map map_of_map_restrict restrict_map_def)
    then show "fst ?A = AList.delete 1 ?its" "snd ?A = erase_leaf id_hashable 3 1
        (fold (place_leaf id_hashable 3) (spread_items 200) (place_leaf id_hashable 3 2 []))"
      by (simp_all add: store_pair_def id)
  qed
  have its: "map_of (fst ?A) 1 = None" "map_of (fst ?A) 2 = Some 2"
    unfolding A by (simp_all add: delete_conv' map_of_fold_store id rev_map map_of_map_restrict restrict_map_def)
  have "map_of (snd ?A) [0, 0, 2] \<noteq> None"
    unfolding A by (simp add: erase_leaf_def place_leaf_def update_conv' map_of_fold_place split: option.split)
  then have "root_of sample_hash id_hashable (config_levels SmallConfig) (snd ?A) = replicate 32 1"
    unfolding config_levels_def by (rule sample_root)
  with tree_refines_maps [where N = 16, OF _ _ fits, of sample_runtime sample_hash] its
  show ?thesis by (simp del: fold_simps tree_run.simps) metis
qed

subsection \<open>Batches and order\<close>

lemma Insert_each_rep:
  "tree_rep h H t its lvs \<Longrightarrow> \<forall>x\<in>set xs. depth_fits H (t_maxDepth t) x \<Longrightarrow>
    \<exists>t'. each_item (Insert H) xs t = Some t' \<and> t_maxDepth t' = t_maxDepth t
      \<and> tree_rep h H t' (fold (store_pair H) xs its) (fold (place_leaf H (t_maxDepth t)) xs lvs)"
proof (induction xs arbitrary: t its lvs)
  case (Cons x xs)
  then obtain t1 where t1: "Insert H x t = Some t1" "t_maxDepth t1 = t_maxDepth t"
    "tree_rep h H t1 (store_pair H x its) (place_leaf H (t_maxDepth t) x lvs)"
    using Insert_rep [of h H t its lvs x] by auto
  with Cons.IH [OF t1(3)] Cons.prems(2) show ?case by auto
qed simp

text \<open>C34. A batch of items with distinct IDs and distinct paths has the effect of inserting them one
  by one, whichever of the four strategies its length selects and in whatever order the goroutines
  run: the same root and the same answer to every lookup. From 5000 items on this needs keys that the
  grouping table can hold (\<open>grouping_fits\<close>): always true up to 10000 items, beyond that the first byte of
  each key has to be below 16, else \<^verbatim>\<open>InsertBatch\<close> panics and single insertions do not (\<open>large_batch_panics\<close>).\<close>

theorem batch_equals_single_inserts:
  fixes H :: "'a hashable"
  assumes "CacheShards cfg < 63" "runtime_ok R" "list_all (op_fits H (MaxDepth cfg)) ops"
    "DeletedNodeHash h \<noteq> zero32" "tree_run h H R ops (NewTree (Some cfg)) = Some t"
    and "list_all (depth_fits H (MaxDepth cfg)) items" "grouping_fits H items"
    "distinct (map (h_ID H) items)" "distinct (map (path_of H (MaxDepth cfg)) items)"
  shows "\<exists>t1 t2. tree_step h H R (OpInsertBatch items) t = Some t1 \<and> each_item (Insert H) items t = Some t2
    \<and> map_option fst (ComputeRoot N h H t1) = map_option fst (ComputeRoot N h H t2)
    \<and> (\<forall>i. fst (GetItem i t1) = fst (GetItem i t2))"
proof -
  let ?D = "MaxDepth cfg"
  obtain its lvs where t: "tree_rep h H t its lvs" "t_maxDepth t = ?D"
    using run_new [OF assms(1-4)] assms(5) by auto
  have fits: "\<forall>x\<in>set items. depth_fits H (t_maxDepth t) x" using assms(6) t(2) by (simp add: list_all_iff)
  from InsertBatch_rep [OF t(1) fits, of "rt_NumCPU R" "rt_store R" "rt_place R"] assms(2,7)
  obtain t1 xs ys where t1: "tree_step h H R (OpInsertBatch items) t = Some t1" "mset xs = mset items" "mset ys = mset items"
    "tree_rep h H t1 (fold (store_pair H) xs its) (fold (place_leaf H ?D) ys lvs)" "t_maxDepth t1 = ?D"
    by (auto simp: runtime_ok_def t(2))
  from Insert_each_rep [OF t(1) fits] obtain t2 where t2: "each_item (Insert H) items t = Some t2" "t_maxDepth t2 = ?D"
    "tree_rep h H t2 (fold (store_pair H) items its) (fold (place_leaf H ?D) items lvs)" by (auto simp: t(2))
  have "map_of (fold (store_pair H) xs its) = map_of (fold (store_pair H) items its)"
    "map_of (fold (place_leaf H ?D) ys lvs) = map_of (fold (place_leaf H ?D) items lvs)"
    using fold_store_perm [of items xs H its] fold_place_perm [of items ys H ?D lvs] t1(2,3) assms(8,9) by simp_all
  moreover have "levels t1 = levels t2" using t1(5) t2(2) by (simp add: levels_def)
  ultimately have "root_of h H (levels t1) (fold (place_leaf H ?D) ys lvs) = root_of h H (levels t2) (fold (place_leaf H ?D) items lvs)"
    "\<forall>i. fst (GetItem i t1) = fst (GetItem i t2)"
    using GetItem_rep(1) [OF t1(4)] GetItem_rep(1) [OF t2(3)] root_of_cong by metis+
  then show ?thesis
    using t1(1) t2(1) ComputeRoot_rep [OF t1(4) assms(4), of N] ComputeRoot_rep [OF t2(3) assms(4), of N] by fastforce
qed

text \<open>What the property says of the batch of \<open>n\<close> items; the lengths below select the simple, the
  sequential, the parallel and both grouped strategies.\<close>

definition batch_agrees :: "nat \<Rightarrow> bool" where
  "batch_agrees n \<longleftrightarrow> (\<exists>t t1 t2. Insert id_hashable 9 (NewTree (Some SmallConfig)) = Some t
    \<and> InsertBatch id_hashable 4 concat concat (spread_items n) t = Some t1
    \<and> each_item (Insert id_hashable) (spread_items n) t = Some t2
    \<and> map_option fst (ComputeRoot 16 sample_hash id_hashable t1) = map_option fst (ComputeRoot 16 sample_hash id_hashable t2)
    \<and> (\<forall>i. fst (GetItem i t1) = fst (GetItem i t2)))"

theorem batch_equals_single_inserts_witness:
  "batch_agrees 3 \<and> batch_agrees 100 \<and> batch_agrees 200 \<and> batch_agrees 6000 \<and> batch_agrees 10001"
proof -
  have run: "list_all (op_fits id_hashable (MaxDepth SmallConfig)) [OpInsert 9]" by simp
  from run_new [OF _ _ run, of sample_runtime sample_hash] obtain t where
    t: "tree_run sample_hash id_hashable sample_runtime [OpInsert 9] (NewTree (Some SmallConfig)) = Some t" by auto
  have ins: "Insert id_hashable 9 (NewTree (Some SmallConfig)) = Some t" using t by (simp split: option.splits)
  have "batch_agrees n" if n: "n \<le> 65536" for n
  proof -
    have "list_all (depth_fits id_hashable (MaxDepth SmallConfig)) (spread_items n)"
      "grouping_fits id_hashable (spread_items n)" "distinct (map (h_ID id_hashable) (spread_items n))"
      "distinct (map (path_of id_hashable (MaxDepth SmallConfig)) (spread_items n))"
      using spread_items_ok [OF n] by (simp_all only: order_free_def sample_ok simp_thms)
    from batch_equals_single_inserts [where N = 16, OF _ _ run _ t this] obtain t1 t2 where
      "tree_step sample_hash id_hashable sample_runtime (OpInsertBatch (spread_items n)) t = Some t1"
      "each_item (Insert id_hashable) (spread_items n) t = Some t2"
      "map_option fst (ComputeRoot 16 sample_hash id_hashable t1) = map_option fst (ComputeRoot 16 sample_hash id_hashable t2)"
      "\<forall>i. fst (GetItem i t1) = fst (GetItem i t2)" by auto
    moreover have "tree_step sample_hash id_hashable sample_runtime (OpInsertBatch (spread_items n)) t
        = InsertBatch id_hashable 4 concat concat (spread_items n) t" by (simp add: sample_runtime_def)
    ultimately show ?thesis using ins unfolding batch_agrees_def by metis
  qed
  then show ?thesis by simp
qed

text \<open>A batch of more than 10000 items panics when some key begins with a byte of 16 or more: the
  grouping table has 4096 entries but is indexed with the first two bytes of the key.\<close>

theorem large_batch_panics:
  assumes "10000 < length items" "x \<in> set items" "16 \<le> unat (h_Key H x ! 0)"
  shows "InsertBatch H numCPU s1 s2 items t = None"
  using assms by (rule mega_batch_panics)

theorem large_batch_panics_witness:
  "InsertBatch id_hashable 4 concat concat (replicate 10001 (2 ^ 60)) (NewTree (Some SmallConfig)) = None"
proof (rule large_batch_panics)
  show "10000 < length (replicate 10001 (2 ^ 60 :: u64))" by (simp only: length_replicate)
  show "2 ^ 60 \<in> set (replicate 10001 (2 ^ 60 :: u64))" by (simp only: in_set_replicate) simp
  show "16 \<le> unat (h_Key id_hashable (2 ^ 60) ! 0)"
    by (simp add: id_hashable_def EncodeKey_def nth_be_bytes)
qed

subsection \<open>Paths that collide\<close>

text \<open>Two items whose keys agree on the first \<^verbatim>\<open>MaxDepth - 1\<close> bytes and on the last byte share a
  leaf: the second insertion replaces the first in the root, although both items stay stored and
  counted. So the root does not commit to the first item.\<close>

theorem colliding_items_share_a_leaf:
  fixes H :: "'a hashable"
  assumes "CacheShards cfg < 63" "DeletedNodeHash h \<noteq> zero32"
    "depth_fits H (MaxDepth cfg) x" "depth_fits H (MaxDepth cfg) y"
    "path_of H (MaxDepth cfg) x = path_of H (MaxDepth cfg) y" "h_ID H x \<noteq> h_ID H y"
  shows "\<exists>t1 t2. each_item (Insert H) [x, y] (NewTree (Some cfg)) = Some t1
    \<and> each_item (Insert H) [y] (NewTree (Some cfg)) = Some t2
    \<and> map_option fst (ComputeRoot N h H t1) = map_option fst (ComputeRoot N h H t2)
    \<and> fst (GetItem (h_ID H x) t1) = Some x \<and> tree_Size t1 = 2"
proof -
  let ?D = "MaxDepth cfg" and ?t = "NewTree (Some cfg) :: 'a tree"
  have t: "tree_rep h H ?t [] []" "t_maxDepth ?t = ?D" "t_itemCount ?t = 0"
    using NewTree_rep [OF assms(1)] by (simp_all add: NewTree_def Let_def)
  obtain tx where tx: "Insert H x ?t = Some tx" "t_itemCount tx = 1" "t_maxDepth tx = ?D"
    "tree_rep h H tx (store_pair H x []) (place_leaf H ?D x [])"
    using Insert_rep [OF t(1), of x] assms(3) t(2,3) by auto
  obtain t1 where t1: "Insert H y tx = Some t1" "t_itemCount t1 = 2" "t_maxDepth t1 = ?D"
    "tree_rep h H t1 (store_pair H y (store_pair H x [])) (place_leaf H ?D y (place_leaf H ?D x []))"
    using Insert_rep [OF tx(4), of y] assms(4) tx(2,3) by auto
  obtain t2 where t2: "Insert H y ?t = Some t2" "t_maxDepth t2 = ?D"
    "tree_rep h H t2 (store_pair H y []) (place_leaf H ?D y [])"
    using Insert_rep [OF t(1), of y] assms(4) t(2,3) by auto
  have "place_leaf H ?D y (place_leaf H ?D x []) = place_leaf H ?D y []" "levels t1 = levels t2"
    using assms(5) t1(3) t2(2) by (simp_all add: place_leaf_def levels_def)
  then have "map_option fst (ComputeRoot N h H t1) = map_option fst (ComputeRoot N h H t2)"
    using ComputeRoot_rep [OF t1(4) assms(2), of N] ComputeRoot_rep [OF t2(3) assms(2), of N] by fastforce
  moreover have "fst (GetItem (h_ID H x) t1) = Some x"
    using GetItem_rep(1) [OF t1(4)] assms(6) by (simp add: store_pair_def)
  ultimately show ?thesis using tx t1 t2 by (simp add: tree_Size_def)
qed

theorem colliding_items_share_a_leaf_witness:
  "\<exists>t1 t2. each_item (Insert id_hashable) [1, 257] (NewTree (Some SmallConfig)) = Some t1
    \<and> each_item (Insert id_hashable) [257] (NewTree (Some SmallConfig)) = Some t2
    \<and> map_option fst (ComputeRoot 16 sample_hash id_hashable t1) = map_option fst (ComputeRoot 16 sample_hash id_hashable t2)
    \<and> fst (GetItem 1 t1) = Some 1 \<and> tree_Size t1 = 2"
proof -
  have "h_ID id_hashable 1 = 1" "h_ID id_hashable 257 = 257" by (simp_all add: id_hashable_def)
  then show ?thesis
    using colliding_items_share_a_leaf [where N = 16, of SmallConfig sample_hash id_hashable 1 257] by simp
qed

text \<open>With the default depth 3 and keys that encode the ID, all IDs below \<open>2 ^ 48\<close> share 256
  leaves, selected by the last byte of the ID.\<close>

theorem default_depth_has_256_leaves:
  assumes "h_Key H x = EncodeKey i" "i < 2 ^ 48"
  shows "path_of H (MaxDepth DefaultConfig) x = [0, 0, ucast i]"
proof -
  have "path_of H (MaxDepth DefaultConfig) x = path_of id_hashable 3 i"
    using assms(1) by (simp add: DefaultConfig_def path_of_def last_key_def id_hashable_def)
  moreover have "drop_bit 48 i = 0" "drop_bit 56 i = 0"
  proof -
    have i: "unat i < 2 ^ 48" using assms(2) by (simp add: word_less_nat_alt)
    then have "unat (drop_bit 48 i) = 0" "unat (drop_bit 56 i) = 0"
      by (simp_all add: unsigned_drop_bit_eq) (simp_all add: drop_bit_eq_div take_bit_nat_eq_self)
    then show "drop_bit 48 i = 0" "drop_bit 56 i = 0" by (simp_all only: unat_eq_zero)
  qed
  ultimately show ?thesis by simp
qed

theorem default_depth_has_256_leaves_witness:
  "path_of id_hashable (MaxDepth DefaultConfig) 123456789 = [0, 0, 21]"
  using default_depth_has_256_leaves [of id_hashable 123456789 123456789] by (simp add: id_hashable_def)

subsection \<open>Counting, deleting, racing\<close>

text \<open>\<^verbatim>\<open>Size\<close> counts insertions, not items: storing an item under an ID that is already present
  raises the counter although the number of items stays the same.\<close>

theorem size_counts_overwrites:
  fixes H :: "'a hashable"
  assumes "CacheShards cfg < 63" "runtime_ok R" "list_all (op_fits H (MaxDepth cfg)) ops"
    "DeletedNodeHash h \<noteq> zero32" "tree_run h H R ops (NewTree (Some cfg)) = Some t"
    and "depth_fits H (MaxDepth cfg) x" "ExistsItem (h_ID H x) t"
  shows "\<exists>t'. Insert H x t = Some t' \<and> t_itemCount t' = t_itemCount t + 1
    \<and> length (GetAllItems t') = length (GetAllItems t)"
proof -
  obtain its lvs where t: "tree_rep h H t its lvs" "t_maxDepth t = MaxDepth cfg"
    using run_new [OF assms(1-4)] assms(5) by auto
  from Insert_rep [OF t(1), of x] assms(6) t(2) obtain t' where t': "Insert H x t = Some t'"
    "tree_rep h H t' (store_pair H x its) (place_leaf H (t_maxDepth t) x lvs)" "t_itemCount t' = t_itemCount t + 1"
    by auto
  have i: "t_items t = its" "t_items t' = store_pair H x its" "distinct (map fst its)"
    using t(1) t'(2) by (simp_all add: tree_rep_def items_rep_def)
  then have "h_ID H x \<in> fst ` set its" using assms(7) by (simp add: ExistsItem_def map_of_eq_None_iff)
  then have "length (store_pair H x its) = length its"
    unfolding store_pair_def by (induction its) auto
  then show ?thesis using t'(1,3) i by (simp add: GetAllItems_def)
qed

theorem size_counts_overwrites_witness:
  "\<exists>t t'. Insert id_hashable 7 (NewTree (Some SmallConfig)) = Some t \<and> Insert id_hashable 7 t = Some t'
    \<and> t_itemCount t' = t_itemCount t + 1 \<and> length (GetAllItems t') = length (GetAllItems t)"
proof -
  have run: "list_all (op_fits id_hashable (MaxDepth SmallConfig)) [OpInsert 7]" by simp
  from run_new [OF _ _ run, of sample_runtime sample_hash] obtain t where
    t: "tree_run sample_hash id_hashable sample_runtime [OpInsert 7] (NewTree (Some SmallConfig)) = Some t"
      "\<exists>its. tree_rep sample_hash id_hashable t its (place_leaf id_hashable 3 7 []) \<and> map_of its = map_of (store_pair id_hashable 7 [])"
    by auto
  have "h_ID id_hashable 7 = 7" by (simp add: id_hashable_def)
  then have "ExistsItem (h_ID id_hashable 7) t"
    using t(2) by (auto simp: tree_rep_def items_rep_def ExistsItem_def store_pair_def)
  from size_counts_overwrites [OF _ _ run _ t(1) _ this] t(1) show ?thesis by (auto split: option.splits)
qed

text \<open>Deleting an item and inserting it again gives back the root it had, and in between lookups
  miss it and the root commits to the tombstone at its path.\<close>

theorem delete_then_reinsert_restores_root:
  fixes H :: "'a hashable"
  assumes "CacheShards cfg < 63" "runtime_ok R" "list_all (op_fits H (MaxDepth cfg)) ops"
    "DeletedNodeHash h \<noteq> zero32" "tree_run h H R ops (NewTree (Some cfg)) = Some t"
    and "depth_fits H (MaxDepth cfg) x"
  shows "\<exists>t1 t2 t3 lvs. Insert H x t = Some t1 \<and> DeleteItem h H (h_ID H x) t1 = Some (True, t2)
    \<and> Insert H x t2 = Some t3 \<and> fst (GetItem (h_ID H x) t2) = None
    \<and> map_of lvs (path_of H (MaxDepth cfg) x) = Some None
    \<and> map_option fst (ComputeRoot N h H t2) = Some (root_of h H (config_levels cfg) lvs)
    \<and> map_option fst (ComputeRoot N h H t3) = map_option fst (ComputeRoot N h H t1)"
proof -
  let ?D = "MaxDepth cfg" and ?del = "DeletedNodeHash h"
  obtain its lvs where t: "tree_rep h H t its lvs" "t_maxDepth t = ?D"
    using run_new [OF assms(1-4)] assms(5) by auto
  obtain t1 where t1: "Insert H x t = Some t1" "t_maxDepth t1 = ?D"
    "tree_rep h H t1 (store_pair H x its) (place_leaf H ?D x lvs)"
    using Insert_rep [OF t(1), of x] assms(6) t(2) by auto
  have "map_of (store_pair H x its) (h_ID H x) = Some x" by (simp add: store_pair_def)
  with DeleteItem_rep [OF t1(3), of "h_ID H x"] t1(2) obtain t2 where t2:
    "DeleteItem h H (h_ID H x) t1 = Some (True, t2)" "t_maxDepth t2 = ?D"
    "tree_rep h H t2 (AList.delete (h_ID H x) (store_pair H x its)) (erase_leaf H ?D x (place_leaf H ?D x lvs))"
    by auto
  obtain t3 where t3: "Insert H x t2 = Some t3" "t_maxDepth t3 = ?D"
    "tree_rep h H t3 (store_pair H x (AList.delete (h_ID H x) (store_pair H x its)))
       (place_leaf H ?D x (erase_leaf H ?D x (place_leaf H ?D x lvs)))"
    using Insert_rep [OF t2(3), of x] assms(6) t2(2) by auto
  have "map_of (place_leaf H ?D x (erase_leaf H ?D x (place_leaf H ?D x lvs))) = map_of (place_leaf H ?D x lvs)"
    by (simp add: fun_eq_iff place_leaf_def erase_leaf_def)
  from root_of_cong [OF this, of h H "config_levels cfg"]
  have "map_option fst (ComputeRoot N h H t3) = map_option fst (ComputeRoot N h H t1)"
    using ComputeRoot_rep [OF t3(3) assms(4), of N] ComputeRoot_rep [OF t1(3) assms(4), of N] t1(2) t3(2)
    by (fastforce simp: levels_def config_levels_def)
  moreover have "map_option fst (ComputeRoot N h H t2) = Some (root_of h H (config_levels cfg)
      (erase_leaf H ?D x (place_leaf H ?D x lvs)))"
    using ComputeRoot_rep [OF t2(3) assms(4), of N] t2(2) by (fastforce simp: levels_def config_levels_def)
  moreover have "fst (GetItem (h_ID H x) t2) = None" using GetItem_rep(1) [OF t2(3)] by simp
  moreover have "map_of (erase_leaf H ?D x (place_leaf H ?D x lvs)) (path_of H ?D x) = Some None"
    by (simp add: erase_leaf_def)
  ultimately show ?thesis using t1(1) t2(1) t3(1) by blast
qed

theorem delete_then_reinsert_restores_root_witness:
  "\<exists>t1 t2 t3. Insert id_hashable 7 (NewTree (Some SmallConfig)) = Some t1
    \<and> DeleteItem sample_hash id_hashable 7 t1 = Some (True, t2) \<and> Insert id_hashable 7 t2 = Some t3
    \<and> fst (GetItem 7 t2) = None
    \<and> map_option fst (ComputeRoot 16 sample_hash id_hashable t3) = map_option fst (ComputeRoot 16 sample_hash id_hashable t1)"
proof -
  have "h_ID id_hashable 7 = 7" by (simp add: id_hashable_def)
  with delete_then_reinsert_restores_root [where N = 16, of SmallConfig sample_runtime id_hashable "[]" sample_hash "NewTree (Some SmallConfig)" 7]
  show ?thesis by auto
qed

text \<open>\<^verbatim>\<open>ComputeRoot\<close> loses an insertion that runs between its hashing and its publication: the old
  root is published as valid, and the next call returns it, without the new item.\<close>

theorem compute_root_loses_update:
  fixes H :: "'a hashable"
  assumes "CacheShards cfg < 63" "runtime_ok R" "list_all (op_fits H (MaxDepth cfg)) ops"
    "DeletedNodeHash h \<noteq> zero32" "tree_run h H R ops (NewTree (Some cfg)) = Some t"
    and "depth_fits H (MaxDepth cfg) x"
  shows "\<exists>old t1 t2. compute_step N h H t = Some (old, t1) \<and> Insert H x t1 = Some t2
    \<and> ComputeRoot N h H (publish_step old t2) = Some (old, publish_step old t2)
    \<and> map_option fst (ComputeRoot N h H t2) =
        Some (root_of h H (config_levels cfg) (place_leaf H (MaxDepth cfg) x (snd (abs_run H cfg ops))))
    \<and> old = root_of h H (config_levels cfg) (snd (abs_run H cfg ops))"
proof -
  let ?lvs = "snd (abs_run H cfg ops)"
  obtain its where t: "tree_rep h H t its ?lvs" "t_maxDepth t = MaxDepth cfg" "levels t = config_levels cfg"
    using run_new [OF assms(1-4)] assms(5) by auto
  then have rep: "nodes_rep h H t ?lvs" by (simp add: tree_rep_def)
  from compute_step_rep [OF rep assms(4), of N] obtain t1 where
    t1: "compute_step N h H t = Some (root_of h H (levels t) ?lvs, t1)" "nodes_rep h H t1 ?lvs" "t1 = t\<lparr>t_root := t_root t1\<rparr>"
    by blast
  obtain n where n: "t1 = t\<lparr>t_root := n\<rparr>" using t1(3) by blast
  have "tree_rep h H t1 its ?lvs"
    using t(1) t1(2) unfolding tree_rep_def n levels_root by (simp add: items_rep_def)
  moreover have D1: "t_maxDepth t1 = MaxDepth cfg" using n t(2) by simp
  ultimately obtain t2 where t2: "Insert H x t1 = Some t2" "t_maxDepth t2 = MaxDepth cfg"
    "tree_rep h H t2 (store_pair H x its) (place_leaf H (MaxDepth cfg) x ?lvs)"
    using Insert_rep [of h H t1 its ?lvs x] assms(6) by auto
  have "map_option fst (ComputeRoot N h H t2) = Some (root_of h H (config_levels cfg) (place_leaf H (MaxDepth cfg) x ?lvs))"
    using ComputeRoot_rep [OF t2(3) assms(4), of N] t2(2) by (fastforce simp: levels_def config_levels_def)
  then show ?thesis
    using t1(1) t2(1) t(3) by (intro exI conjI) (assumption | simp add: ComputeRoot_def publish_step_def)+
qed

theorem compute_root_loses_update_witness:
  "\<exists>t1 t2. compute_step 16 sample_hash id_hashable (NewTree (Some SmallConfig)) = Some (zero32, t1)
    \<and> Insert id_hashable 7 t1 = Some t2
    \<and> ComputeRoot 16 sample_hash id_hashable (publish_step zero32 t2) = Some (zero32, publish_step zero32 t2)
    \<and> map_option fst (ComputeRoot 16 sample_hash id_hashable t2) \<noteq> Some zero32"
proof -
  have e: "root_of sample_hash id_hashable (config_levels SmallConfig) [] = zero32"
    by (simp add: config_levels_def root_of_def leaf_hashes_def below_def numeral_3_eq_3)
  have "map_of (place_leaf id_hashable 3 7 []) [0, 0, 7] \<noteq> None" by (simp add: place_leaf_def)
  from sample_root [OF this, of id_hashable "nat (3 - 1)"]
  have "root_of sample_hash id_hashable (config_levels SmallConfig) (place_leaf id_hashable 3 7 []) \<noteq> zero32"
    by (simp add: config_levels_def zero32_def)
  then show ?thesis
    using compute_root_loses_update [where N = 16, of SmallConfig sample_runtime id_hashable "[]" sample_hash "NewTree (Some SmallConfig)" 7] e
    by (auto simp del: trie_root.simps)
qed

end
