(* ===== verification/Manager.thy ===== *)
theory Manager
  imports TreeTheorems MetaTree "HOL-Library.Char_ord" "HOL-Library.List_Lexorder"
begin

text \<open>
  The tree manager of \<^verbatim>\<open>mt-manager/merkletree/manager.go\<close>: named trees, the cached global root over
  the roots of all trees, and Merkle proofs.

  \<^item> \<^verbatim>\<open>map[string]*Tree\<close> is an association list; the iteration order of a Go map, which is open,
    is its list order. Names are compared bytewise, as \<^verbatim>\<open>sort.Strings\<close> does.
  \<^item> A method returns an option for the panics of the node tree, and a sum for its \<^verbatim>\<open>error\<close>.
  \<^item> \<^verbatim>\<open>GetMerkleProof\<close> calls \<^verbatim>\<open>ComputeGlobalRoot\<close> while it holds the read lock. If that call asks for the
    write lock it waits for itself: the outcome \<open>Blocked\<close>.
  \<^item> The snapshot methods only delegate to the snapshot manager.
\<close>

subsection \<open>State\<close>

record 'a manager =
  m_trees :: "(string \<times> 'a tree) list"
  m_config :: "config option"
  m_globalRootCache :: bytes
  m_globalRootDirty :: bool
  m_treeRootCache :: "(string \<times> bytes) list"

datatype manager_error =
    TreeNotFound string
  | TreeAlreadyExists string
  | TreeNotInIndex string
  | ItemNotFound u64 string

definition NewManager :: "config option \<Rightarrow> 'a manager" where
  "NewManager cfg = \<lparr>m_trees = [], m_config = Some (case cfg of None \<Rightarrow> DefaultConfig | Some c \<Rightarrow> c),
     m_globalRootCache = zero32, m_globalRootDirty = True, m_treeRootCache = []\<rparr>"

definition set_tree :: "string \<Rightarrow> 'a tree \<Rightarrow> 'a manager \<Rightarrow> 'a manager" where
  "set_tree name t m = m\<lparr>m_trees := AList.update name t (m_trees m)\<rparr>"

definition CreateTree :: "string \<Rightarrow> 'a manager \<Rightarrow> manager_error + 'a manager" where
  "CreateTree name m = (case map_of (m_trees m) name of
     Some _ \<Rightarrow> Inl (TreeAlreadyExists name)
   | None \<Rightarrow> Inr ((set_tree name ((NewTree (m_config m))\<lparr>t_name := name\<rparr>) m)\<lparr>m_globalRootDirty := True\<rparr>))"

definition GetTree :: "string \<Rightarrow> 'a manager \<Rightarrow> 'a tree option" where
  "GetTree name m = map_of (m_trees m) name"

definition GetOrCreateTree :: "string \<Rightarrow> 'a manager \<Rightarrow> 'a tree \<times> 'a manager" where
  "GetOrCreateTree name m = (case map_of (m_trees m) name of
     Some t \<Rightarrow> (t, m)
   | None \<Rightarrow>
       let t = (NewTree (m_config m))\<lparr>t_name := name\<rparr>
       in (t, (set_tree name t m)\<lparr>m_globalRootDirty := True\<rparr>))"

definition RemoveTree :: "string \<Rightarrow> 'a manager \<Rightarrow> bool \<times> 'a manager" where
  "RemoveTree name m = (case map_of (m_trees m) name of
     None \<Rightarrow> (False, m)
   | Some _ \<Rightarrow> (True, m\<lparr>m_trees := AList.delete name (m_trees m),
       m_treeRootCache := AList.delete name (m_treeRootCache m), m_globalRootDirty := True\<rparr>))"

definition ListTrees :: "'a manager \<Rightarrow> string list" where
  "ListTrees m = map fst (m_trees m)"

subsection \<open>The global root\<close>

text \<open>The first check stops at a tree without a cached root or with another root; the double check
  under the write lock goes on after a mismatch and stores the new root.\<close>

fun check_roots :: "nat \<Rightarrow> (bytes \<Rightarrow> bytes) \<Rightarrow> 'a hashable \<Rightarrow> (string \<times> bytes) list \<Rightarrow>
    (string \<times> 'a tree) list \<Rightarrow> (bool \<times> (string \<times> 'a tree) list) option" where
  "check_roots N h H cache [] = Some (False, [])"
| "check_roots N h H cache ((name, t) # ts) =
    (case map_of cache name of
       None \<Rightarrow> Some (True, (name, t) # ts)
     | Some cachedRoot \<Rightarrow>
         case ComputeRoot N h H t of
           None \<Rightarrow> None
         | Some (actualRoot, t') \<Rightarrow>
             if actualRoot \<noteq> cachedRoot then Some (True, (name, t') # ts)
             else map_option (\<lambda>(b, ts'). (b, (name, t') # ts')) (check_roots N h H cache ts))"

fun recheck_roots :: "nat \<Rightarrow> (bytes \<Rightarrow> bytes) \<Rightarrow> 'a hashable \<Rightarrow> (string \<times> bytes) list \<Rightarrow>
    (string \<times> 'a tree) list \<Rightarrow> (bool \<times> (string \<times> 'a tree) list \<times> (string \<times> bytes) list) option" where
  "recheck_roots N h H cache [] = Some (False, [], cache)"
| "recheck_roots N h H cache ((name, t) # ts) =
    (case map_of cache name of
       None \<Rightarrow> Some (True, (name, t) # ts, cache)
     | Some cachedRoot \<Rightarrow>
         case ComputeRoot N h H t of
           None \<Rightarrow> None
         | Some (actualRoot, t') \<Rightarrow>
             let cache' = (if actualRoot \<noteq> cachedRoot then AList.update name actualRoot cache else cache)
             in map_option (\<lambda>(b, ts', c). (actualRoot \<noteq> cachedRoot \<or> b, (name, t') # ts', c))
                  (recheck_roots N h H cache' ts))"

fun collect_roots :: "nat \<Rightarrow> (bytes \<Rightarrow> bytes) \<Rightarrow> 'a hashable \<Rightarrow> string list \<Rightarrow> (string \<times> 'a tree) list \<Rightarrow>
    (string \<times> bytes) list \<Rightarrow> (bytes list \<times> (string \<times> 'a tree) list \<times> (string \<times> bytes) list) option" where
  "collect_roots N h H [] trees cache = Some ([], trees, cache)"
| "collect_roots N h H (name # names) trees cache =
    (case map_of trees name of
       None \<Rightarrow> None
     | Some t \<Rightarrow>
         case ComputeRoot N h H t of
           None \<Rightarrow> None
         | Some (root, t') \<Rightarrow>
             map_option (\<lambda>(roots, rest). (root # roots, rest))
               (collect_roots N h H names (AList.update name t' trees) (AList.update name root cache)))"

text \<open>Recomputation under the write lock.\<close>

definition recompute_global :: "nat \<Rightarrow> (bytes \<Rightarrow> bytes) \<Rightarrow> 'a hashable \<Rightarrow> 'a manager \<Rightarrow> (bytes \<times> 'a manager) option" where
  "recompute_global N h H m =
    (if length (m_trees m) = 0 then Some (zero32, m\<lparr>m_globalRootCache := zero32, m_globalRootDirty := False\<rparr>)
     else case collect_roots N h H (sort (map fst (m_trees m))) (m_trees m) (m_treeRootCache m) of
       None \<Rightarrow> None
     | Some (roots, trees, cache) \<Rightarrow>
         let root = computeMerkleRoot h roots
         in Some (root, m\<lparr>m_trees := trees, m_treeRootCache := cache,
              m_globalRootCache := root, m_globalRootDirty := False\<rparr>))"

definition write_locked_global :: "nat \<Rightarrow> (bytes \<Rightarrow> bytes) \<Rightarrow> 'a hashable \<Rightarrow> 'a manager \<Rightarrow> (bytes \<times> 'a manager) option" where
  "write_locked_global N h H m =
    (if \<not> m_globalRootDirty m then
       case recheck_roots N h H (m_treeRootCache m) (m_trees m) of
         None \<Rightarrow> None
       | Some (needsUpdate, trees, cache) \<Rightarrow>
           let m1 = m\<lparr>m_trees := trees, m_treeRootCache := cache\<rparr>
           in if \<not> needsUpdate then Some (m_globalRootCache m1, m1) else recompute_global N h H m1
     else recompute_global N h H m)"

text \<open>The part under the read lock: the cached root, or \<open>None\<close> if it has to be recomputed.\<close>

definition read_locked_global :: "nat \<Rightarrow> (bytes \<Rightarrow> bytes) \<Rightarrow> 'a hashable \<Rightarrow> 'a manager \<Rightarrow> (bytes option \<times> 'a manager) option" where
  "read_locked_global N h H m =
    (if \<not> m_globalRootDirty m then
       map_option (\<lambda>(needsUpdate, trees).
           (if needsUpdate then None else Some (m_globalRootCache m), m\<lparr>m_trees := trees\<rparr>))
         (check_roots N h H (m_treeRootCache m) (m_trees m))
     else Some (None, m))"

definition ComputeGlobalRoot :: "nat \<Rightarrow> (bytes \<Rightarrow> bytes) \<Rightarrow> 'a hashable \<Rightarrow> 'a manager \<Rightarrow> (bytes \<times> 'a manager) option" where
  "ComputeGlobalRoot N h H m =
    (case read_locked_global N h H m of
       None \<Rightarrow> None
     | Some (Some root, m1) \<Rightarrow> Some (root, m1)
     | Some (None, m1) \<Rightarrow> write_locked_global N h H m1)"

definition InvalidateGlobalRoot :: "'a manager \<Rightarrow> 'a manager" where
  "InvalidateGlobalRoot m = m\<lparr>m_globalRootDirty := True\<rparr>"

definition InvalidateTreeRoot :: "string \<Rightarrow> 'a manager \<Rightarrow> 'a manager" where
  "InvalidateTreeRoot treeName m =
    m\<lparr>m_treeRootCache := AList.delete treeName (m_treeRootCache m), m_globalRootDirty := True\<rparr>"

subsection \<open>Proofs\<close>

datatype 'b outcome = Done 'b | Blocked

fun find_index :: "'b \<Rightarrow> 'b list \<Rightarrow> nat option" where
  "find_index x [] = None"
| "find_index x (y # ys) = (if y = x then Some 0 else map_option Suc (find_index x ys))"

definition GetMerkleProof :: "nat \<Rightarrow> (bytes \<Rightarrow> bytes) \<Rightarrow> 'a hashable \<Rightarrow> string \<Rightarrow> 'a manager \<Rightarrow>
    (manager_error + merkle_proof \<times> 'a manager) outcome option" where
  "GetMerkleProof N h H treeName m =
    (if map_of (m_trees m) treeName = None then Some (Done (Inl (TreeNotFound treeName)))
     else
       let names = sort (map fst (m_trees m))
       in case find_index treeName names of
            None \<Rightarrow> Some (Done (Inl (TreeNotInIndex treeName)))
          | Some targetIndex \<Rightarrow>
              case collect_roots N h H names (m_trees m) [] of
                None \<Rightarrow> None
              | Some (roots, trees, _) \<Rightarrow>
                  case read_locked_global N h H (m\<lparr>m_trees := trees\<rparr>) of
                    None \<Rightarrow> None
                  | Some (None, _) \<Rightarrow> Some Blocked
                  | Some (Some globalRoot, m') \<Rightarrow>
                      Some (Done (Inr
                        (\<lparr>mp_TreeName = treeName, mp_TreeRoot = roots ! targetIndex,
                          mp_ProofPath = fst (computeProofPath h roots targetIndex),
                          mp_IsLeft = snd (computeProofPath h roots targetIndex),
                          mp_GlobalRoot = globalRoot\<rparr>, m'))))"

definition VerifyTreeInclusion :: "nat \<Rightarrow> (bytes \<Rightarrow> bytes) \<Rightarrow> 'a hashable \<Rightarrow> string \<Rightarrow> 'a manager \<Rightarrow>
    (manager_error + bool \<times> 'a manager) outcome option" where
  "VerifyTreeInclusion N h H treeName m =
    (case GetMerkleProof N h H treeName m of
       None \<Rightarrow> None
     | Some Blocked \<Rightarrow> Some Blocked
     | Some (Done (Inl e)) \<Rightarrow> Some (Done (Inl e))
     | Some (Done (Inr (p, m'))) \<Rightarrow>
         map_option (\<lambda>b. Done (Inr (b, m'))) (Verify h p))"

fun ComputeAllRoots_loop :: "nat \<Rightarrow> (bytes \<Rightarrow> bytes) \<Rightarrow> 'a hashable \<Rightarrow> (string \<times> 'a tree) list \<Rightarrow>
    ((string \<times> bytes) list \<times> (string \<times> 'a tree) list) option" where
  "ComputeAllRoots_loop N h H [] = Some ([], [])"
| "ComputeAllRoots_loop N h H ((name, t) # ts) =
    (case ComputeRoot N h H t of
       None \<Rightarrow> None
     | Some (root, t') \<Rightarrow>
         map_option (\<lambda>(rs, ts'). ((name, root) # rs, (name, t') # ts')) (ComputeAllRoots_loop N h H ts))"

definition ComputeAllRoots :: "nat \<Rightarrow> (bytes \<Rightarrow> bytes) \<Rightarrow> 'a hashable \<Rightarrow> 'a manager \<Rightarrow> ((string \<times> bytes) list \<times> 'a manager) option" where
  "ComputeAllRoots N h H m =
    map_option (\<lambda>(rs, ts). (rs, m\<lparr>m_trees := ts\<rparr>)) (ComputeAllRoots_loop N h H (m_trees m))"

subsection \<open>Operations on one tree\<close>

text \<open>The part shared by these methods: look the tree up, run a method on it, and keep its new state
  (the map holds pointers, so the tree changes in place).\<close>

definition on_tree :: "string \<Rightarrow> ('a tree \<Rightarrow> ('b \<times> 'a tree) option) \<Rightarrow> 'a manager \<Rightarrow>
    (manager_error + 'b \<times> 'a manager) option" where
  "on_tree name f m = (case GetTree name m of
     None \<Rightarrow> Some (Inl (TreeNotFound name))
   | Some t \<Rightarrow> map_option (\<lambda>(r, t'). Inr (r, set_tree name t' m)) (f t))"

definition InsertToTree :: "'a hashable \<Rightarrow> string \<Rightarrow> 'a \<Rightarrow> 'a manager \<Rightarrow> (manager_error + unit \<times> 'a manager) option" where
  "InsertToTree H treeName item m =
    map_option (map_sum id (map_prod id (InvalidateTreeRoot treeName)))
      (on_tree treeName (\<lambda>t. map_option (Pair ()) (Insert H item t)) m)"

definition BatchInsertToTree :: "'a hashable \<Rightarrow> nat \<Rightarrow> 'a schedule \<Rightarrow> 'a schedule \<Rightarrow> string \<Rightarrow> 'a list \<Rightarrow>
    'a manager \<Rightarrow> (manager_error + unit \<times> 'a manager) option" where
  "BatchInsertToTree H numCPU s1 s2 treeName items m =
    map_option (map_sum id (map_prod id (InvalidateTreeRoot treeName)))
      (on_tree treeName (\<lambda>t. map_option (Pair ()) (InsertBatch H numCPU s1 s2 items t)) m)"

definition TreeExists :: "string \<Rightarrow> 'a manager \<Rightarrow> bool" where
  "TreeExists name m \<longleftrightarrow> map_of (m_trees m) name \<noteq> None"

definition GetTreeSize :: "string \<Rightarrow> 'a manager \<Rightarrow> manager_error + int" where
  "GetTreeSize name m = (case GetTree name m of
     None \<Rightarrow> Inl (TreeNotFound name) | Some t \<Rightarrow> Inr (tree_Size t))"

definition GetTreeStats :: "string \<Rightarrow> 'a manager \<Rightarrow> manager_error + tree_report" where
  "GetTreeStats name m = (case GetTree name m of
     None \<Rightarrow> Inl (TreeNotFound name) | Some t \<Rightarrow> Inr (tree_GetStats t))"

definition GetTreeRoot :: "nat \<Rightarrow> (bytes \<Rightarrow> bytes) \<Rightarrow> 'a hashable \<Rightarrow> string \<Rightarrow> 'a manager \<Rightarrow>
    (manager_error + bytes \<times> 'a manager) option" where
  "GetTreeRoot N h H name m = on_tree name (ComputeRoot N h H) m"

definition GetFromTree :: "string \<Rightarrow> u64 \<Rightarrow> 'a manager \<Rightarrow> (manager_error + 'a) \<times> 'a manager" where
  "GetFromTree treeName i m = (case GetTree treeName m of
     None \<Rightarrow> (Inl (TreeNotFound treeName), m)
   | Some t \<Rightarrow>
       (case fst (GetItem i t) of None \<Rightarrow> Inl (ItemNotFound i treeName) | Some item \<Rightarrow> Inr item,
        set_tree treeName (snd (GetItem i t)) m))"

definition ClearTree :: "string \<Rightarrow> 'a manager \<Rightarrow> manager_error + 'a manager" where
  "ClearTree name m = (case GetTree name m of
     None \<Rightarrow> Inl (TreeNotFound name) | Some t \<Rightarrow> Inr (set_tree name (ClearItems t) m))"

record tree_info =
  ti_Name :: string
  ti_Size :: int
  ti_Nodes :: nat
  ti_CacheSize :: nat
  ti_Root :: bytes

definition GetTreeInfo :: "nat \<Rightarrow> (bytes \<Rightarrow> bytes) \<Rightarrow> 'a hashable \<Rightarrow> string \<Rightarrow> 'a manager \<Rightarrow>
    (manager_error + tree_info \<times> 'a manager) option" where
  "GetTreeInfo N h H name m = on_tree name (\<lambda>t.
     let stats = tree_GetStats t
     in map_option (map_prod (\<lambda>root. \<lparr>ti_Name = name, ti_Size = st_TotalItems stats,
            ti_Nodes = st_AllocatedNodes stats, ti_CacheSize = st_CacheSize stats, ti_Root = root\<rparr>) id)
          (ComputeRoot N h H t)) m"

fun tree_infos :: "nat \<Rightarrow> (bytes \<Rightarrow> bytes) \<Rightarrow> 'a hashable \<Rightarrow> string list \<Rightarrow> 'a manager \<Rightarrow> (tree_info list \<times> 'a manager) option" where
  "tree_infos N h H [] m = Some ([], m)"
| "tree_infos N h H (name # names) m =
    (case GetTreeInfo N h H name m of
       None \<Rightarrow> None
     | Some (Inl e) \<Rightarrow> tree_infos N h H names m
     | Some (Inr (info, m')) \<Rightarrow> map_option (map_prod ((#) info) id) (tree_infos N h H names m'))"

definition GetAllTreesInfo :: "nat \<Rightarrow> (bytes \<Rightarrow> bytes) \<Rightarrow> 'a hashable \<Rightarrow> 'a manager \<Rightarrow> (tree_info list \<times> 'a manager) option" where
  "GetAllTreesInfo N h H m = tree_infos N h H (ListTrees m) m"

subsection \<open>Operations on the set of trees\<close>

definition ClearAll :: "'a manager \<Rightarrow> 'a manager" where
  "ClearAll m = m\<lparr>m_trees := map (\<lambda>(n, t). (n, ClearItems t)) (m_trees m)\<rparr>"

definition RemoveAll :: "'a manager \<Rightarrow> 'a manager" where
  "RemoveAll m = m\<lparr>m_trees := []\<rparr>"

definition RenameTree :: "string \<Rightarrow> string \<Rightarrow> 'a manager \<Rightarrow> manager_error + 'a manager" where
  "RenameTree oldName newName m = (case map_of (m_trees m) oldName of
     None \<Rightarrow> Inl (TreeNotFound oldName)
   | Some t \<Rightarrow>
       if map_of (m_trees m) newName \<noteq> None then Inl (TreeAlreadyExists newName)
       else Inr (m\<lparr>m_trees := AList.delete oldName (AList.update newName t (m_trees m))\<rparr>))"

definition CloneTree :: "'a hashable \<Rightarrow> nat \<Rightarrow> 'a schedule \<Rightarrow> 'a schedule \<Rightarrow> string \<Rightarrow> string \<Rightarrow> 'a manager \<Rightarrow>
    (manager_error + 'a manager) option" where
  "CloneTree H numCPU s1 s2 sourceName newName m = (case map_of (m_trees m) sourceName of
     None \<Rightarrow> Some (Inl (TreeNotFound sourceName))
   | Some sourceTree \<Rightarrow>
       if map_of (m_trees m) newName \<noteq> None then Some (Inl (TreeAlreadyExists newName))
       else map_option (\<lambda>newTree. Inr (set_tree newName newTree m))
              (InsertBatch H numCPU s1 s2 (GetAllItems sourceTree) (NewTree (m_config m))))"

definition CreateTreeWithConfig :: "string \<Rightarrow> config option \<Rightarrow> 'a manager \<Rightarrow> manager_error + 'a manager" where
  "CreateTreeWithConfig name cfg m = (case map_of (m_trees m) name of
     Some _ \<Rightarrow> Inl (TreeAlreadyExists name)
   | None \<Rightarrow> Inr (set_tree name (NewTree cfg) m))"

definition SetDefaultConfig :: "config option \<Rightarrow> 'a manager \<Rightarrow> 'a manager" where
  "SetDefaultConfig cfg m = m\<lparr>m_config := cfg\<rparr>"

text \<open>What \<^verbatim>\<open>LoadSnapshot\<close> does to the manager: the restored trees take the place of the trees it had,
  and the roots cached by name stay.\<close>

definition adopt_trees :: "(string \<times> 'a tree) list \<Rightarrow> 'a manager \<Rightarrow> 'a manager" where
  "adopt_trees newTrees m = m\<lparr>m_trees := newTrees, m_globalRootDirty := True\<rparr>"

subsection \<open>Statistics\<close>

text \<open>\<^verbatim>\<open>int\<close> sums wrap at 64 bits.\<close>

record manager_stats =
  ms_TreeCount :: nat
  ms_TotalItems :: u64
  ms_TotalNodes :: u64
  ms_TotalCacheSize :: u64
  ms_TreeStats :: "(string \<times> tree_report) list"

definition add_totals :: "tree_report \<Rightarrow> manager_stats \<Rightarrow> manager_stats" where
  "add_totals treeStats stats =
    stats\<lparr>ms_TotalItems := ms_TotalItems stats + of_int (st_TotalItems treeStats),
      ms_TotalNodes := ms_TotalNodes stats + of_nat (st_AllocatedNodes treeStats),
      ms_TotalCacheSize := ms_TotalCacheSize stats + of_nat (st_CacheSize treeStats)\<rparr>"

definition GetTotalStats :: "'a manager \<Rightarrow> manager_stats" where
  "GetTotalStats m =
    fold (\<lambda>(name, t) stats. let treeStats = tree_GetStats t
        in add_totals treeStats (stats\<lparr>ms_TreeStats := AList.update name treeStats (ms_TreeStats stats)\<rparr>))
      (m_trees m)
      \<lparr>ms_TreeCount = length (m_trees m), ms_TotalItems = 0, ms_TotalNodes = 0,
       ms_TotalCacheSize = 0, ms_TreeStats = []\<rparr>"

definition GetStats :: "'a manager \<Rightarrow> manager_stats" where
  "GetStats m =
    fold (\<lambda>(name, t). add_totals (tree_GetStats t)) (m_trees m)
      \<lparr>ms_TreeCount = length (m_trees m), ms_TotalItems = 0, ms_TotalNodes = 0,
       ms_TotalCacheSize = 0, ms_TreeStats = []\<rparr>"

end
