(* ===== verification/ManagerInv.thy ===== *)
theory ManagerInv
  imports Manager
begin

text \<open>
  The global root of a manager: the invariant that ties the cached roots to the trees, its
  preservation by the operations, and the properties of \<^verbatim>\<open>ComputeGlobalRoot\<close> and
  \<^verbatim>\<open>GetMerkleProof\<close> that follow.
\<close>

subsection \<open>The root of a tree\<close>

definition tree_good :: "(bytes \<Rightarrow> bytes) \<Rightarrow> 'a hashable \<Rightarrow> 'a tree \<Rightarrow> bool" where
  "tree_good h H t \<longleftrightarrow> (\<exists>its lvs. tree_rep h H t its lvs)"

definition tree_root :: "(bytes \<Rightarrow> bytes) \<Rightarrow> 'a hashable \<Rightarrow> 'a tree \<Rightarrow> bytes" where
  "tree_root h H t = (case ComputeRoot 1 h H t of None \<Rightarrow> zero32 | Some (root, _) \<Rightarrow> root)"

lemma tree_root_rep:
  assumes "tree_rep h H t its lvs" "DeletedNodeHash h \<noteq> zero32"
  shows "tree_root h H t = root_of h H (levels t) lvs"
  using ComputeRoot_rep [OF assms, of 1] by (auto simp: tree_root_def)

lemma ComputeRoot_good:
  assumes "tree_good h H t" "DeletedNodeHash h \<noteq> zero32"
  shows "\<exists>t'. ComputeRoot N h H t = Some (tree_root h H t, t') \<and> tree_good h H t'
    \<and> tree_root h H t' = tree_root h H t"
proof -
  from assms(1) obtain its lvs where t: "tree_rep h H t its lvs" by (auto simp: tree_good_def)
  from ComputeRoot_rep [OF t assms(2), of N] obtain t' where t':
    "ComputeRoot N h H t = Some (root_of h H (levels t) lvs, t')" "tree_rep h H t' its lvs" "levels t' = levels t"
    by (auto simp: levels_def)
  then show ?thesis using tree_root_rep [OF t assms(2)] tree_root_rep [OF t'(2) assms(2)]
    by (auto simp: tree_good_def)
qed

lemma new_tree_good: "tree_good h H (NewTree cfg)" if "case cfg of None \<Rightarrow> True | Some c \<Rightarrow> CacheShards c < 63"
proof (cases cfg)
  case None
  have "NewTree None = (NewTree (Some DefaultConfig) :: 'a tree)" by (simp add: NewTree_def)
  moreover have "CacheShards DefaultConfig < 63" by (simp add: DefaultConfig_def)
  ultimately show ?thesis using NewTree_rep None by (metis tree_good_def)
next
  case (Some c)
  then have "tree_rep h H (NewTree cfg) [] []" using that NewTree_rep by simp
  then show ?thesis unfolding tree_good_def by blast
qed

lemma rename_good: "tree_good h H (t\<lparr>t_name := n\<rparr>) = tree_good h H t"
proof -
  have "tree_rep h H (t\<lparr>t_name := n\<rparr>) its lvs = tree_rep h H t its lvs" for its lvs
    using tree_rep_counters [of h H t its lvs "t\<lparr>t_name := n\<rparr>"]
      tree_rep_counters [of h H "t\<lparr>t_name := n\<rparr>" its lvs t] by auto
  then show ?thesis by (simp add: tree_good_def)
qed

subsection \<open>The roots of all trees\<close>

type_synonym 'a trees = "(string \<times> 'a tree) list"

definition trees_good :: "(bytes \<Rightarrow> bytes) \<Rightarrow> 'a hashable \<Rightarrow> 'a trees \<Rightarrow> bool" where
  "trees_good h H ts \<longleftrightarrow> distinct (map fst ts) \<and> (\<forall>(n, t)\<in>set ts. tree_good h H t)"

definition roots_now :: "(bytes \<Rightarrow> bytes) \<Rightarrow> 'a hashable \<Rightarrow> 'a trees \<Rightarrow> (string \<times> bytes) list" where
  "roots_now h H ts = map (\<lambda>(n, t). (n, tree_root h H t)) ts"

definition global_of :: "(bytes \<Rightarrow> bytes) \<Rightarrow> (string \<times> bytes) list \<Rightarrow> bytes" where
  "global_of h rs = computeMerkleRoot h (map (\<lambda>n. the (map_of rs n)) (sort (map fst rs)))"

lemma roots_now_simps [simp]:
  "roots_now h H [] = []" "roots_now h H ((n, t) # ts) = (n, tree_root h H t) # roots_now h H ts"
  "map fst (roots_now h H ts) = map fst ts" "fst ` set (roots_now h H ts) = fst ` set ts"
  by (simp_all add: roots_now_def comp_def split_beta image_image)

lemma map_of_roots_now: "map_of (roots_now h H ts) n = map_option (tree_root h H) (map_of ts n)"
  by (induction ts) auto

lemma trees_good_simps [simp]:
  "trees_good h H []"
  "trees_good h H ((n, t) # ts) \<longleftrightarrow> n \<notin> fst ` set ts \<and> tree_good h H t \<and> trees_good h H ts"
  by (auto simp: trees_good_def)

lemma trees_good_of: "trees_good h H ts \<Longrightarrow> map_of ts n = Some t \<Longrightarrow> tree_good h H t"
  by (auto simp: trees_good_def dest: map_of_SomeD)

lemma trees_good_update: "trees_good h H ts \<Longrightarrow> tree_good h H t \<Longrightarrow> trees_good h H (AList.update n t ts)"
  using alist_update_subset [of n t ts] by (auto simp: trees_good_def distinct_update)

lemma trees_good_delete: "trees_good h H ts \<Longrightarrow> trees_good h H (AList.delete n ts)"
  by (auto simp: trees_good_def distinct_delete set_alist_delete)

lemma roots_now_update: "roots_now h H (AList.update n t ts) = AList.update n (tree_root h H t) (roots_now h H ts)"
  by (induction ts) auto

lemma roots_now_keep:
  "map_of ts n = Some t \<Longrightarrow> tree_root h H t' = tree_root h H t \<Longrightarrow> roots_now h H (AList.update n t' ts) = roots_now h H ts"
  by (induction ts) auto

lemma sort_same_keys:
  fixes xs ys :: "string list"
  shows "distinct xs \<Longrightarrow> distinct ys \<Longrightarrow> set xs = set ys \<Longrightarrow> sort xs = sort ys"
  by (simp add: sorted_distinct_set_unique)

text \<open>The global root depends on the roots by name only.\<close>

lemma global_of_cong:
  assumes "map_of rs = map_of rs'" "distinct (map fst rs)" "distinct (map fst rs')"
  shows "global_of h rs = global_of h rs'"
proof -
  have "set (map fst rs) = set (map fst rs')" using assms(1) dom_map_of_conv_image_fst by (metis list.set_map)
  then have "sort (map fst rs) = sort (map fst rs')" using assms by (intro sort_same_keys)
  then show ?thesis using assms(1) by (simp add: global_of_def)
qed

lemma keys_update: "fst ` set (AList.update k v al) = insert k (fst ` set al)"
  by (induction al) auto

subsection \<open>The loops\<close>

definition cached_all :: "(string \<times> bytes) list \<Rightarrow> (string \<times> bytes) list \<Rightarrow> bool" where
  "cached_all cache rs \<longleftrightarrow> (\<forall>(n, r)\<in>set rs. map_of cache n = Some r)"

lemma cached_all_simps [simp]:
  "cached_all cache []"
  "cached_all cache ((n, r) # rs) \<longleftrightarrow> map_of cache n = Some r \<and> cached_all cache rs"
  by (auto simp: cached_all_def)

lemma check_roots_ok:
  assumes "trees_good h H ts" "DeletedNodeHash h \<noteq> zero32"
  shows "\<exists>b ts'. check_roots N h H cache ts = Some (b, ts') \<and> trees_good h H ts'
    \<and> roots_now h H ts' = roots_now h H ts
    \<and> (\<not> b \<longleftrightarrow> cached_all cache (roots_now h H ts))"
  using assms(1)
proof (induction ts)
  case (Cons x ts)
  obtain n t where x: "x = (n, t)" by (cases x)
  with Cons.prems have good: "tree_good h H t" "trees_good h H ts" "n \<notin> fst ` set ts" by auto
  from ComputeRoot_good [OF good(1) assms(2), of N] obtain t' where t':
    "ComputeRoot N h H t = Some (tree_root h H t, t')" "tree_good h H t'" "tree_root h H t' = tree_root h H t" by blast
  from Cons.IH [OF good(2)] obtain b ts' where ts': "check_roots N h H cache ts = Some (b, ts')" "trees_good h H ts'"
    "roots_now h H ts' = roots_now h H ts" "\<not> b \<longleftrightarrow> cached_all cache (roots_now h H ts)" by blast
  have n: "n \<notin> fst ` set ts'" using ts'(3) good(3) roots_now_simps(4) by metis
  show ?case
  proof (cases "map_of cache n")
    case None
    then show ?thesis using x Cons.prems by auto
  next
    case (Some c)
    show ?thesis
    proof (cases "tree_root h H t = c")
      case True
      with Some x t' ts' n show ?thesis by (simp add: split_beta)
    next
      case False
      with Some x t' good show ?thesis by auto
    qed
  qed
next
  case Nil
  show ?case by (intro exI [of _ False] exI [of _ "[]"]) simp
qed

lemma recheck_roots_ok:
  assumes "trees_good h H ts" "DeletedNodeHash h \<noteq> zero32" "distinct (map fst cache)"
  shows "\<exists>b ts' cache'. recheck_roots N h H cache ts = Some (b, ts', cache') \<and> trees_good h H ts'
    \<and> roots_now h H ts' = roots_now h H ts \<and> distinct (map fst cache') \<and> fst ` set cache' = fst ` set cache
    \<and> (\<not> b \<longleftrightarrow> cached_all cache (roots_now h H ts)) \<and> (\<not> b \<longrightarrow> cache' = cache)"
  using assms(1,3)
proof (induction ts arbitrary: cache)
  case (Cons x ts)
  obtain n t where x: "x = (n, t)" by (cases x)
  with Cons.prems have good: "tree_good h H t" "trees_good h H ts" "n \<notin> fst ` set ts" by auto
  from ComputeRoot_good [OF good(1) assms(2), of N] obtain t' where t':
    "ComputeRoot N h H t = Some (tree_root h H t, t')" "tree_good h H t'" "tree_root h H t' = tree_root h H t" by blast
  show ?case
  proof (cases "map_of cache n")
    case None
    then have "(n, r) \<notin> set cache" for r by (force simp: map_of_eq_None_iff)
    with None show ?thesis using x Cons.prems
      by (intro exI [of _ True] exI [of _ "x # ts"] exI [of _ cache]) simp
  next
    case (Some c)
    define c1 where "c1 = (if tree_root h H t \<noteq> c then AList.update n (tree_root h H t) cache else cache)"
    have d: "distinct (map fst c1)" using Cons.prems(2) by (simp add: c1_def distinct_update)
    have k: "fst ` set c1 = fst ` set cache"
    proof -
      have "n \<in> fst ` set cache" using Some by (metis domI dom_map_of_conv_image_fst)
      then have "insert n (fst ` set cache) = fst ` set cache" by auto
      then show ?thesis using keys_update [of n "tree_root h H t" cache] by (simp add: c1_def)
    qed
    have other: "map_of c1 m = map_of cache m" if "m \<noteq> n" for m using that by (simp add: c1_def update_conv')
    from Cons.IH [OF good(2) d] obtain b ts' c' where ts': "recheck_roots N h H c1 ts = Some (b, ts', c')" "trees_good h H ts'"
      "roots_now h H ts' = roots_now h H ts" "distinct (map fst c')" "fst ` set c' = fst ` set c1"
      "\<not> b \<longleftrightarrow> cached_all c1 (roots_now h H ts)" "\<not> b \<longrightarrow> c' = c1" by blast
    have n: "n \<notin> fst ` set ts'" using ts'(3) good(3) roots_now_simps(4) by metis
    have run: "recheck_roots N h H cache (x # ts) = Some (tree_root h H t \<noteq> c \<or> b, (n, t') # ts', c')"
      using Some x t'(1) ts'(1) by (simp add: Let_def c1_def)
    have rest: "cached_all c1 (roots_now h H ts) \<longleftrightarrow> cached_all cache (roots_now h H ts)"
      unfolding cached_all_def
    proof (rule ball_cong [OF refl])
      fix y assume "y \<in> set (roots_now h H ts)"
      then have "fst y \<noteq> n" using good(3) roots_now_simps(4) by (metis image_eqI)
      then show "(case y of (m, r) \<Rightarrow> map_of c1 m = Some r) = (case y of (m, r) \<Rightarrow> map_of cache m = Some r)"
        using other [of "fst y"] by (simp add: split_beta)
    qed
    have "cached_all cache (roots_now h H (x # ts))
      \<longleftrightarrow> tree_root h H t = c \<and> cached_all cache (roots_now h H ts)"
      using x Some by auto
    then have b: "\<not> (tree_root h H t \<noteq> c \<or> b) \<longleftrightarrow> cached_all cache (roots_now h H (x # ts))"
      using ts'(6) rest by blast
    have "trees_good h H ((n, t') # ts')" "roots_now h H ((n, t') # ts') = roots_now h H (x # ts)"
      using t' ts' n x by simp_all
    moreover have "\<not> (tree_root h H t \<noteq> c \<or> b) \<longrightarrow> c' = cache" using ts'(7) by (simp add: c1_def)
    ultimately show ?thesis using run ts'(4,5) k b by (intro exI conjI) (assumption | simp)+
  qed
next
  case Nil
  then show ?case by (intro exI [of _ False] exI [of _ "[]"] exI [of _ cache]) simp
qed

lemma collect_roots_ok:
  assumes "DeletedNodeHash h \<noteq> zero32"
  shows "trees_good h H trees \<Longrightarrow> set names \<subseteq> fst ` set trees \<Longrightarrow> distinct (map fst cache) \<Longrightarrow>
    \<exists>trees' cache'. collect_roots N h H names trees cache
        = Some (map (\<lambda>n. the (map_of (roots_now h H trees) n)) names, trees', cache')
      \<and> trees_good h H trees' \<and> roots_now h H trees' = roots_now h H trees \<and> distinct (map fst cache')
      \<and> (\<forall>n. map_of cache' n = (if n \<in> set names then map_of (roots_now h H trees) n else map_of cache n))"
proof (induction names arbitrary: trees cache)
  case (Cons n names)
  from Cons.prems(2) obtain t where t: "map_of trees n = Some t"
    by (metis domD dom_map_of_conv_image_fst list.set_intros(1) subsetD)
  from ComputeRoot_good [OF trees_good_of [OF Cons.prems(1) t] assms, of N] obtain t' where t':
    "ComputeRoot N h H t = Some (tree_root h H t, t')" "tree_good h H t'" "tree_root h H t' = tree_root h H t" by blast
  let ?trees = "AList.update n t' trees" and ?cache = "AList.update n (tree_root h H t) cache"
  have now: "roots_now h H ?trees = roots_now h H trees" using roots_now_keep t t'(3) by metis
  then have "fst ` set ?trees = fst ` set trees" by (metis roots_now_simps(4))
  with Cons.IH [OF trees_good_update [OF Cons.prems(1) t'(2), of n], of ?cache] Cons.prems(2,3)
  obtain trees' cache' where r: "collect_roots N h H names ?trees ?cache
      = Some (map (\<lambda>n. the (map_of (roots_now h H trees) n)) names, trees', cache')"
    "trees_good h H trees'" "roots_now h H trees' = roots_now h H trees" "distinct (map fst cache')"
    "\<forall>m. map_of cache' m = (if m \<in> set names then map_of (roots_now h H trees) m else map_of ?cache m)"
    by (auto simp: now distinct_update)
  have "map_of (roots_now h H trees) n = Some (tree_root h H t)" by (simp add: map_of_roots_now t)
  then show ?case using r t t' by (auto simp: update_conv')
qed simp

subsection \<open>The invariant\<close>

definition mgr_ok :: "(bytes \<Rightarrow> bytes) \<Rightarrow> 'a hashable \<Rightarrow> 'a manager \<Rightarrow> bool" where
  "mgr_ok h H m \<longleftrightarrow> trees_good h H (m_trees m) \<and> distinct (map fst (m_treeRootCache m))
    \<and> fst ` set (m_treeRootCache m) \<subseteq> fst ` set (m_trees m)
    \<and> (\<not> m_globalRootDirty m \<longrightarrow> m_globalRootCache m = global_of h (m_treeRootCache m))"

text \<open>Nothing has changed since the last \<^verbatim>\<open>ComputeGlobalRoot\<close>.\<close>

definition mgr_fresh :: "(bytes \<Rightarrow> bytes) \<Rightarrow> 'a hashable \<Rightarrow> 'a manager \<Rightarrow> bool" where
  "mgr_fresh h H m \<longleftrightarrow> \<not> m_globalRootDirty m
    \<and> cached_all (m_treeRootCache m) (roots_now h H (m_trees m))"

definition global_now :: "(bytes \<Rightarrow> bytes) \<Rightarrow> 'a hashable \<Rightarrow> 'a manager \<Rightarrow> bytes" where
  "global_now h H m = global_of h (roots_now h H (m_trees m))"

lemma distinct_roots_now: "trees_good h H ts \<Longrightarrow> distinct (map fst (roots_now h H ts))"
  by (simp add: trees_good_def)

lemma covers_eq:
  assumes "distinct (map fst rs)" "fst ` set c \<subseteq> fst ` set rs" "cached_all c rs"
  shows "map_of c = map_of rs"
proof
  fix n
  show "map_of c n = map_of rs n"
  proof (cases "map_of rs n")
    case None
    then have "n \<notin> fst ` set c" using assms(2) by (auto simp: map_of_eq_None_iff)
    then have "map_of c n = None" by (simp only: map_of_eq_None_iff) simp
    then show ?thesis using None by simp
  next
    case (Some r)
    then show ?thesis using assms(3) by (auto simp: cached_all_def dest: map_of_SomeD)
  qed
qed

lemma fresh_root:
  assumes "mgr_ok h H m" "mgr_fresh h H m"
  shows "m_globalRootCache m = global_now h H m"
proof -
  have "map_of (m_treeRootCache m) = map_of (roots_now h H (m_trees m))"
    using assms by (intro covers_eq) (auto simp: mgr_ok_def mgr_fresh_def trees_good_def)
  then have "global_of h (m_treeRootCache m) = global_now h H m" unfolding global_now_def
    using assms(1) by (intro global_of_cong) (simp_all add: mgr_ok_def trees_good_def)
  then show ?thesis using assms by (simp add: mgr_ok_def mgr_fresh_def)
qed

lemma recompute_global_ok:
  assumes "trees_good h H (m_trees m)" "DeletedNodeHash h \<noteq> zero32" "distinct (map fst (m_treeRootCache m))"
    "fst ` set (m_treeRootCache m) \<subseteq> fst ` set (m_trees m)"
  shows "\<exists>m'. recompute_global N h H m = Some (global_now h H m, m') \<and> mgr_ok h H m' \<and> mgr_fresh h H m'
    \<and> roots_now h H (m_trees m') = roots_now h H (m_trees m) \<and> m_config m' = m_config m"
proof (cases "m_trees m = []")
  case True
  then show ?thesis using assms
    by (auto simp: recompute_global_def global_now_def global_of_def computeMerkleRoot_def mgr_ok_def mgr_fresh_def)
next
  case False
  let ?rs = "roots_now h H (m_trees m)" and ?names = "sort (map fst (m_trees m))"
  have "set ?names \<subseteq> fst ` set (m_trees m)" by simp
  from collect_roots_ok [OF assms(2,1) this assms(3), of N] obtain trees cache where
    c: "collect_roots N h H ?names (m_trees m) (m_treeRootCache m)
        = Some (map (\<lambda>n. the (map_of ?rs n)) ?names, trees, cache)"
    and trees: "trees_good h H trees" "roots_now h H trees = ?rs" and d: "distinct (map fst cache)"
    and mo: "\<forall>n. map_of cache n = (if n \<in> set ?names then map_of ?rs n else map_of (m_treeRootCache m) n)"
    by blast
  have keys: "fst ` set trees = fst ` set (m_trees m)" using trees(2) by (metis roots_now_simps(4))
  have "map_of cache n = map_of ?rs n" for n
  proof (cases "n \<in> set ?names")
    case False
    then have "map_of (m_treeRootCache m) n = None" "map_of ?rs n = None"
      using assms(4) by (simp_all only: map_of_eq_None_iff) auto
    with mo False show ?thesis by simp
  qed (use mo in simp)
  then have eq: "map_of cache = map_of ?rs" by blast
  then have sub: "fst ` set cache = fst ` set ?rs" by (metis dom_map_of_conv_image_fst)
  let ?root = "computeMerkleRoot h (map (\<lambda>n. the (map_of ?rs n)) ?names)"
  let ?m = "m\<lparr>m_trees := trees, m_treeRootCache := cache, m_globalRootCache := ?root, m_globalRootDirty := False\<rparr>"
  have root: "?root = global_now h H m" by (simp add: global_now_def global_of_def)
  have "recompute_global N h H m = Some (global_now h H m, ?m)"
    using False c root by (simp add: recompute_global_def Let_def)
  moreover have "global_of h cache = global_now h H m"
    unfolding global_now_def using eq d distinct_roots_now [OF assms(1)] by (rule global_of_cong)
  then have "mgr_ok h H ?m" using trees d sub keys root by (simp add: mgr_ok_def)
  moreover have "mgr_fresh h H ?m"
    using distinct_roots_now [OF assms(1)] trees(2) eq by (auto simp: mgr_fresh_def cached_all_def)
  ultimately show ?thesis using trees(2) by fastforce
qed

lemma read_locked_ok:
  assumes "mgr_ok h H m" "DeletedNodeHash h \<noteq> zero32"
  shows "\<exists>m'. read_locked_global N h H m = Some (if mgr_fresh h H m then Some (global_now h H m) else None, m')
    \<and> mgr_ok h H m' \<and> roots_now h H (m_trees m') = roots_now h H (m_trees m) \<and> m_config m' = m_config m
    \<and> (mgr_fresh h H m' \<longleftrightarrow> mgr_fresh h H m)"
proof (cases "m_globalRootDirty m")
  case True
  then show ?thesis using assms by (simp add: read_locked_global_def mgr_fresh_def)
next
  case False
  from check_roots_ok [of h H "m_trees m" N "m_treeRootCache m"] assms obtain b ts where
    c: "check_roots N h H (m_treeRootCache m) (m_trees m) = Some (b, ts)" "trees_good h H ts"
      "roots_now h H ts = roots_now h H (m_trees m)"
      "\<not> b \<longleftrightarrow> cached_all (m_treeRootCache m) (roots_now h H (m_trees m))"
    unfolding mgr_ok_def by blast
  have b: "b = (\<not> mgr_fresh h H m)" using c(4) False by (auto simp: mgr_fresh_def)
  have keys: "fst ` set ts = fst ` set (m_trees m)" using c(3) by (metis roots_now_simps(4))
  have "read_locked_global N h H m = Some (if mgr_fresh h H m then Some (global_now h H m) else None, m\<lparr>m_trees := ts\<rparr>)"
    using c(1) b False fresh_root [OF assms(1)] by (simp add: read_locked_global_def)
  moreover have "mgr_ok h H (m\<lparr>m_trees := ts\<rparr>)" using assms(1) c(2) keys by (simp add: mgr_ok_def)
  moreover have "mgr_fresh h H (m\<lparr>m_trees := ts\<rparr>) \<longleftrightarrow> mgr_fresh h H m" by (simp add: mgr_fresh_def c(3))
  ultimately show ?thesis using c(3) by fastforce
qed

lemma write_locked_ok:
  assumes "mgr_ok h H m" "DeletedNodeHash h \<noteq> zero32"
  shows "\<exists>m'. write_locked_global N h H m = Some (global_now h H m, m') \<and> mgr_ok h H m' \<and> mgr_fresh h H m'
    \<and> roots_now h H (m_trees m') = roots_now h H (m_trees m) \<and> m_config m' = m_config m"
proof (cases "m_globalRootDirty m")
  case True
  then show ?thesis using recompute_global_ok [of h H m N] assms by (simp add: write_locked_global_def mgr_ok_def)
next
  case False
  have "trees_good h H (m_trees m)" "distinct (map fst (m_treeRootCache m))" using assms(1) by (simp_all add: mgr_ok_def)
  from recheck_roots_ok [OF this(1) assms(2) this(2), of N] obtain b ts c where
    c: "recheck_roots N h H (m_treeRootCache m) (m_trees m) = Some (b, ts, c) \<and> trees_good h H ts
      \<and> roots_now h H ts = roots_now h H (m_trees m) \<and> distinct (map fst c) \<and> fst ` set c = fst ` set (m_treeRootCache m)
      \<and> (\<not> b \<longleftrightarrow> cached_all (m_treeRootCache m) (roots_now h H (m_trees m)))
      \<and> (\<not> b \<longrightarrow> c = m_treeRootCache m)"
    by blast
  let ?m1 = "m\<lparr>m_trees := ts, m_treeRootCache := c\<rparr>"
  have now: "roots_now h H (m_trees ?m1) = roots_now h H (m_trees m)" using c by simp
  then have keys: "fst ` set ts = fst ` set (m_trees m)" using roots_now_simps(4) c by metis
  have m1: "trees_good h H (m_trees ?m1)" "distinct (map fst (m_treeRootCache ?m1))"
    "fst ` set (m_treeRootCache ?m1) \<subseteq> fst ` set (m_trees ?m1)"
    using c keys assms(1) by (simp_all add: mgr_ok_def)
  have g: "global_now h H ?m1 = global_now h H m" using now by (simp add: global_now_def)
  show ?thesis
  proof (cases b)
    case True
    then show ?thesis using recompute_global_ok [OF m1(1) assms(2) m1(2,3), of N] c False now g
      by (simp add: write_locked_global_def Let_def)
  next
    case nb: False
    then have "mgr_fresh h H m" "c = m_treeRootCache m" using c False by (simp_all add: mgr_fresh_def)
    then have "mgr_fresh h H ?m1" "mgr_ok h H ?m1" "m_globalRootCache ?m1 = global_now h H m"
      using now m1 assms(1) fresh_root [OF assms(1)] by (simp_all add: mgr_fresh_def mgr_ok_def)
    then show ?thesis using c False nb now by (simp add: write_locked_global_def Let_def)
  qed
qed

lemma ComputeGlobalRoot_ok:
  assumes "mgr_ok h H m" "DeletedNodeHash h \<noteq> zero32"
  shows "\<exists>m'. ComputeGlobalRoot N h H m = Some (global_now h H m, m') \<and> mgr_ok h H m' \<and> mgr_fresh h H m'
    \<and> roots_now h H (m_trees m') = roots_now h H (m_trees m) \<and> m_config m' = m_config m"
proof -
  from read_locked_ok [OF assms, of N] obtain m1 where
    r: "read_locked_global N h H m = Some (if mgr_fresh h H m then Some (global_now h H m) else None, m1)"
    and m1: "mgr_ok h H m1" "roots_now h H (m_trees m1) = roots_now h H (m_trees m)" "m_config m1 = m_config m"
      "mgr_fresh h H m1 \<longleftrightarrow> mgr_fresh h H m" by blast
  have g: "global_now h H m1 = global_now h H m" using m1(2) by (simp add: global_now_def)
  show ?thesis
  proof (cases "mgr_fresh h H m")
    case True
    then show ?thesis using r m1 by (simp add: ComputeGlobalRoot_def)
  next
    case False
    then show ?thesis using r m1 g write_locked_ok [OF m1(1) assms(2), of N] by (simp add: ComputeGlobalRoot_def)
  qed
qed

end
