(* ===== verification/ManagerTheorems.thy ===== *)
theory ManagerTheorems
  imports ManagerInv
begin

text \<open>
  Properties of the manager: sequences of its operations, of direct operations on the trees it
  hands out, and of root computations; the proofs of \<^verbatim>\<open>GetMerkleProof\<close>; and the operations that
  leave a stale global root behind.
\<close>

subsection \<open>Operations\<close>

datatype 'a mgr_op =
    MCreate string | MGetOrCreate string | MCreateWith string "config option" | MClone string string
  | MRemove string | MInsert string 'a | MBatch string "'a list" | MClear string | MClearAll
  | MInvalidate | MInvalidateTree string | MSetConfig "config option" | MGlobalRoot | MAllRoots
  | MTreeRoot string | MGet string u64 | MTreeInfo string | MDirect string "'a tree_op"
  | MRename string string | MRemoveAll

text \<open>An operation that returns an error leaves the manager as it was.\<close>

definition or_same :: "'a manager \<Rightarrow> manager_error + 'a manager \<Rightarrow> 'a manager" where
  "or_same m r = (case r of Inl e \<Rightarrow> m | Inr m' \<Rightarrow> m')"

definition mgr_step :: "(bytes \<Rightarrow> bytes) \<Rightarrow> 'a hashable \<Rightarrow> 'a runtime \<Rightarrow> 'a mgr_op \<Rightarrow> 'a manager \<Rightarrow> 'a manager option" where
  "mgr_step h H R x m = (case x of
     MCreate n \<Rightarrow> Some (or_same m (CreateTree n m))
   | MGetOrCreate n \<Rightarrow> Some (snd (GetOrCreateTree n m))
   | MCreateWith n cfg \<Rightarrow> Some (or_same m (CreateTreeWithConfig n cfg m))
   | MClone s n \<Rightarrow> map_option (or_same m) (CloneTree H (rt_NumCPU R) (rt_store R) (rt_place R) s n m)
   | MRemove n \<Rightarrow> Some (snd (RemoveTree n m))
   | MInsert n y \<Rightarrow> map_option (or_same m \<circ> map_sum id snd) (InsertToTree H n y m)
   | MBatch n ys \<Rightarrow> map_option (or_same m \<circ> map_sum id snd)
       (BatchInsertToTree H (rt_NumCPU R) (rt_store R) (rt_place R) n ys m)
   | MClear n \<Rightarrow> Some (or_same m (ClearTree n m))
   | MClearAll \<Rightarrow> Some (ClearAll m)
   | MInvalidate \<Rightarrow> Some (InvalidateGlobalRoot m)
   | MInvalidateTree n \<Rightarrow> Some (InvalidateTreeRoot n m)
   | MSetConfig cfg \<Rightarrow> Some (SetDefaultConfig cfg m)
   | MGlobalRoot \<Rightarrow> map_option snd (ComputeGlobalRoot (rt_NumCPU R) h H m)
   | MAllRoots \<Rightarrow> map_option snd (ComputeAllRoots (rt_NumCPU R) h H m)
   | MTreeRoot n \<Rightarrow> map_option (or_same m \<circ> map_sum id snd) (GetTreeRoot (rt_NumCPU R) h H n m)
   | MGet n i \<Rightarrow> Some (snd (GetFromTree n i m))
   | MTreeInfo n \<Rightarrow> map_option (or_same m \<circ> map_sum id snd) (GetTreeInfo (rt_NumCPU R) h H n m)
   | MDirect n y \<Rightarrow> map_option (or_same m \<circ> map_sum id snd)
       (on_tree n (\<lambda>t. map_option (Pair ()) (tree_step h H R y t)) m)
   | MRename a b \<Rightarrow> Some (or_same m (RenameTree a b m))
   | MRemoveAll \<Rightarrow> Some (RemoveAll m))"

definition shards_ok :: "config option \<Rightarrow> bool" where
  "shards_ok cfg = (case cfg of None \<Rightarrow> True | Some c \<Rightarrow> CacheShards c < 63)"

definition config_depth :: "config option \<Rightarrow> int" where
  "config_depth cfg = MaxDepth (case cfg of None \<Rightarrow> DefaultConfig | Some c \<Rightarrow> c)"

text \<open>Keys long enough for the depth of the tree, no batch beyond the grouping table, and fewer than
  \<open>2 ^ 63\<close> cache shards.\<close>

definition batch_fits :: "'a hashable \<Rightarrow> int \<Rightarrow> 'a list \<Rightarrow> bool" where
  "batch_fits H D xs \<longleftrightarrow> list_all (depth_fits H D) xs \<and> grouping_fits H xs"

fun op_safe :: "'a hashable \<Rightarrow> int \<Rightarrow> 'a tree_op \<Rightarrow> bool" where
  "op_safe H D (OpInsert x) \<longleftrightarrow> depth_fits H D x"
| "op_safe H D (OpInsertBatch xs) \<longleftrightarrow> batch_fits H D xs"
| "op_safe H D _ \<longleftrightarrow> True"

definition at_tree :: "string \<Rightarrow> ('a tree \<Rightarrow> bool) \<Rightarrow> 'a manager \<Rightarrow> bool" where
  "at_tree n P m = (case GetTree n m of None \<Rightarrow> True | Some t \<Rightarrow> P t)"

text \<open>Every root in the cache belongs to a tree of the manager. \<^verbatim>\<open>RemoveTree\<close> takes care of this;
  \<^verbatim>\<open>RenameTree\<close>, \<^verbatim>\<open>RemoveAll\<close> and \<^verbatim>\<open>LoadSnapshot\<close> do not, so they are steps only where
  it holds afterwards. What happens otherwise is shown under "Stale global roots".\<close>

definition cached_named :: "'a manager \<Rightarrow> bool" where
  "cached_named m \<longleftrightarrow> list_all (\<lambda>(n, _). GetTree n m \<noteq> None) (m_treeRootCache m)"

fun mgr_op_ok :: "'a hashable \<Rightarrow> 'a mgr_op \<Rightarrow> 'a manager \<Rightarrow> bool" where
  "mgr_op_ok H (MCreateWith n cfg) m \<longleftrightarrow> shards_ok cfg"
| "mgr_op_ok H (MSetConfig cfg) m \<longleftrightarrow> shards_ok cfg"
| "mgr_op_ok H (MClone s n) m \<longleftrightarrow> at_tree s (\<lambda>t. batch_fits H (config_depth (m_config m)) (GetAllItems t)) m"
| "mgr_op_ok H (MInsert n x) m \<longleftrightarrow> at_tree n (\<lambda>t. depth_fits H (t_maxDepth t) x) m"
| "mgr_op_ok H (MBatch n xs) m \<longleftrightarrow> at_tree n (\<lambda>t. batch_fits H (t_maxDepth t) xs) m"
| "mgr_op_ok H (MDirect n y) m \<longleftrightarrow> at_tree n (\<lambda>t. op_safe H (t_maxDepth t) y) m"
| "mgr_op_ok H (MRename a b) m \<longleftrightarrow> cached_named (or_same m (RenameTree a b m))"
| "mgr_op_ok H MRemoveAll m \<longleftrightarrow> cached_named (RemoveAll m)"
| "mgr_op_ok H _ m \<longleftrightarrow> True"

text \<open>Trees as \<^verbatim>\<open>deserializeTree\<close> builds them: one batch into an empty tree.\<close>

definition restored_trees :: "'a hashable \<Rightarrow> 'a runtime \<Rightarrow> (string \<times> 'a tree) list \<Rightarrow> bool" where
  "restored_trees H R ts \<longleftrightarrow> distinct (map fst ts) \<and> (\<forall>(n, t)\<in>set ts. \<exists>cfg xs.
     shards_ok cfg \<and> batch_fits H (config_depth cfg) xs
     \<and> InsertBatch H (rt_NumCPU R) (rt_store R) (rt_place R) xs ((NewTree cfg)\<lparr>t_name := n\<rparr>) = Some t)"

inductive mgr_reachable :: "(bytes \<Rightarrow> bytes) \<Rightarrow> 'a hashable \<Rightarrow> 'a runtime \<Rightarrow> 'a manager \<Rightarrow> bool"
  for h H R where
  start: "shards_ok cfg \<Longrightarrow> mgr_reachable h H R (NewManager cfg)"
| step: "mgr_reachable h H R m \<Longrightarrow> mgr_op_ok H x m \<Longrightarrow> mgr_step h H R x m = Some m' \<Longrightarrow> mgr_reachable h H R m'"
| load: "mgr_reachable h H R m \<Longrightarrow> restored_trees H R ts \<Longrightarrow> cached_named (adopt_trees ts m) \<Longrightarrow>
    mgr_reachable h H R (adopt_trees ts m)"

subsection \<open>Preservation\<close>

lemma NewTree_good: "shards_ok cfg \<Longrightarrow> tree_good h H (NewTree cfg)"
  by (rule new_tree_good) (simp add: shards_ok_def)

lemma NewTree_depth: "t_maxDepth (NewTree cfg) = config_depth cfg"
  by (simp add: NewTree_def config_depth_def Let_def)

lemma Insert_good: "tree_good h H t \<Longrightarrow> depth_fits H (t_maxDepth t) x \<Longrightarrow> \<exists>t'. Insert H x t = Some t' \<and> tree_good h H t'"
  unfolding tree_good_def using Insert_rep by metis

lemma InsertBatch_good:
  assumes "tree_good h H t" "batch_fits H (t_maxDepth t) xs" "runtime_ok R"
  shows "\<exists>t'. InsertBatch H (rt_NumCPU R) (rt_store R) (rt_place R) xs t = Some t' \<and> tree_good h H t'"
proof -
  from assms(1) obtain its lvs where t: "tree_rep h H t its lvs" by (auto simp: tree_good_def)
  have "\<forall>x\<in>set xs. depth_fits H (t_maxDepth t) x" "grouping_fits H xs"
    using assms(2) by (simp_all add: batch_fits_def list_all_iff)
  from InsertBatch_rep [OF t this(1) _ _ _ this(2), of "rt_NumCPU R" "rt_store R" "rt_place R"] assms(3)
  obtain t' its' lvs' where "InsertBatch H (rt_NumCPU R) (rt_store R) (rt_place R) xs t = Some t'" "tree_rep h H t' its' lvs'"
    by (auto simp: runtime_ok_def)
  then show ?thesis unfolding tree_good_def by blast
qed

lemma GetItem_good: "tree_good h H t \<Longrightarrow> tree_good h H (snd (GetItem i t))"
  unfolding tree_good_def using GetItem_rep(2) by metis

lemma ClearItems_good: "tree_good h H t \<Longrightarrow> tree_good h H (ClearItems t)"
  unfolding tree_good_def using ClearItems_rep(1) by metis

lemma DeleteItem_good: "tree_good h H t \<Longrightarrow> \<exists>b t'. DeleteItem h H i t = Some (b, t') \<and> tree_good h H t'"
proof -
  assume "tree_good h H t"
  then obtain its lvs where t: "tree_rep h H t its lvs" by (auto simp: tree_good_def)
  from DeleteItem_rep [OF t, of i] t show ?thesis by (cases "map_of its i") (auto simp: tree_good_def)
qed

lemma tree_step_good:
  assumes "tree_good h H t" "op_safe H (t_maxDepth t) x" "runtime_ok R" "DeletedNodeHash h \<noteq> zero32"
  shows "\<exists>t'. tree_step h H R x t = Some t' \<and> tree_good h H t'"
proof (cases x)
  case (OpDeleteBatch dead)
  from assms(1) obtain its lvs where t: "tree_rep h H t its lvs" by (auto simp: tree_good_def)
  from DeleteBatch_rep [OF t, of "rt_NumCPU R" "rt_place R" dead] assms(3)
  show ?thesis by (auto simp: OpDeleteBatch runtime_ok_def tree_good_def)
next
  case (OpDelete i)
  then show ?thesis using DeleteItem_good [OF assms(1), of i] by auto
next
  case OpComputeRoot
  then show ?thesis using ComputeRoot_good [OF assms(1,4), of "rt_NumCPU R"] by auto
qed (use assms in \<open>simp_all add: Insert_good InsertBatch_good GetItem_good ClearItems_good\<close>)

definition mgr_inv :: "(bytes \<Rightarrow> bytes) \<Rightarrow> 'a hashable \<Rightarrow> 'a manager \<Rightarrow> bool" where
  "mgr_inv h H m \<longleftrightarrow> mgr_ok h H m \<and> shards_ok (m_config m)"

lemma mgr_inv_set_tree: "mgr_inv h H m \<Longrightarrow> tree_good h H t \<Longrightarrow> mgr_inv h H (set_tree n t m)"
  by (auto simp: mgr_inv_def mgr_ok_def set_tree_def trees_good_update keys_update)

lemma mgr_inv_dirty: "mgr_inv h H m \<Longrightarrow> mgr_inv h H (m\<lparr>m_globalRootDirty := True\<rparr>)"
  by (simp add: mgr_inv_def mgr_ok_def)

lemma mgr_inv_invalidate: "mgr_inv h H m \<Longrightarrow> mgr_inv h H (InvalidateTreeRoot n m)"
  by (auto simp: mgr_inv_def mgr_ok_def InvalidateTreeRoot_def distinct_delete set_alist_delete)

lemma mgr_inv_get: "mgr_inv h H m \<Longrightarrow> GetTree n m = Some t \<Longrightarrow> tree_good h H t"
  unfolding mgr_inv_def mgr_ok_def GetTree_def by (blast intro: trees_good_of)

lemma on_tree_inv:
  assumes "mgr_inv h H m" "\<And>t. GetTree n m = Some t \<Longrightarrow> \<exists>r t'. f t = Some (r, t') \<and> tree_good h H t'"
  shows "\<exists>r. on_tree n f m = Some r \<and> (case r of Inl e \<Rightarrow> True | Inr (x, m') \<Rightarrow> mgr_inv h H m')"
proof (cases "GetTree n m")
  case None
  then show ?thesis by (simp add: on_tree_def)
next
  case (Some t)
  with assms(2) obtain r t' where "f t = Some (r, t')" "tree_good h H t'" by blast
  then show ?thesis using Some assms(1) by (simp add: on_tree_def mgr_inv_set_tree)
qed

text \<open>The steps of the form \<open>on_tree\<close>.\<close>

lemma on_tree_step:
  assumes "mgr_inv h H m" "\<And>t. GetTree n m = Some t \<Longrightarrow> \<exists>r t'. f t = Some (r, t') \<and> tree_good h H t'"
  shows "\<exists>m'. map_option (or_same m \<circ> map_sum id snd) (on_tree n f m) = Some m' \<and> mgr_inv h H m'"
    and "\<exists>m'. map_option (or_same m \<circ> map_sum id snd)
        (map_option (map_sum id (map_prod id (InvalidateTreeRoot n))) (on_tree n f m)) = Some m' \<and> mgr_inv h H m'"
  using on_tree_inv [of h H m n f] assms
  by (fastforce simp: or_same_def mgr_inv_invalidate split: sum.splits)+

lemma ComputeAllRoots_loop_ok:
  assumes "DeletedNodeHash h \<noteq> zero32"
  shows "trees_good h H ts \<Longrightarrow> \<exists>ts'. ComputeAllRoots_loop N h H ts = Some (roots_now h H ts, ts')
    \<and> trees_good h H ts' \<and> roots_now h H ts' = roots_now h H ts"
proof (induction ts)
  case (Cons x ts)
  obtain n t where x: "x = (n, t)" by (cases x)
  with Cons.prems have good: "tree_good h H t" "trees_good h H ts" "n \<notin> fst ` set ts" by auto
  from ComputeRoot_good [OF good(1) assms, of N] obtain t' where t':
    "ComputeRoot N h H t = Some (tree_root h H t, t')" "tree_good h H t'" "tree_root h H t' = tree_root h H t" by blast
  from Cons.IH [OF good(2)] obtain ts' where ts': "ComputeAllRoots_loop N h H ts = Some (roots_now h H ts, ts')"
    "trees_good h H ts'" "roots_now h H ts' = roots_now h H ts" by blast
  then have "n \<notin> fst ` set ts'" using good(3) roots_now_simps(4) by metis
  then show ?case using x t' ts' by simp
qed simp

lemma ComputeAllRoots_inv:
  assumes "mgr_inv h H m" "DeletedNodeHash h \<noteq> zero32"
  shows "\<exists>m'. ComputeAllRoots N h H m = Some (roots_now h H (m_trees m), m') \<and> mgr_inv h H m'"
proof -
  from ComputeAllRoots_loop_ok [OF assms(2), of H "m_trees m" N] assms(1) obtain ts where
    ts: "ComputeAllRoots_loop N h H (m_trees m) = Some (roots_now h H (m_trees m), ts)" "trees_good h H ts"
      "roots_now h H ts = roots_now h H (m_trees m)" unfolding mgr_inv_def mgr_ok_def by blast
  then have "fst ` set ts = fst ` set (m_trees m)" by (metis roots_now_simps(4))
  then have "mgr_inv h H (m\<lparr>m_trees := ts\<rparr>)" using assms(1) ts(2) by (simp add: mgr_inv_def mgr_ok_def)
  then show ?thesis using ts(1) by (simp add: ComputeAllRoots_def)
qed

lemma CloneTree_inv:
  assumes "mgr_inv h H m" "runtime_ok R"
    "at_tree s (\<lambda>t. batch_fits H (config_depth (m_config m)) (GetAllItems t)) m"
  shows "\<exists>r. CloneTree H (rt_NumCPU R) (rt_store R) (rt_place R) s n m = Some r \<and> mgr_inv h H (or_same m r)"
proof (cases "map_of (m_trees m) s")
  case None
  then show ?thesis using assms(1) by (simp add: CloneTree_def or_same_def)
next
  case (Some t)
  have "tree_good h H (NewTree (m_config m))" using assms(1) by (simp add: NewTree_good mgr_inv_def)
  moreover have "batch_fits H (t_maxDepth (NewTree (m_config m) :: 'a tree)) (GetAllItems t)"
    using assms(3) Some by (simp add: at_tree_def GetTree_def NewTree_depth)
  ultimately obtain t' where "InsertBatch H (rt_NumCPU R) (rt_store R) (rt_place R) (GetAllItems t) (NewTree (m_config m)) = Some t'"
    "tree_good h H t'" using InsertBatch_good [OF _ _ assms(2)] by blast
  then show ?thesis using Some assms(1) by (simp add: CloneTree_def or_same_def mgr_inv_set_tree)
qed

lemma RemoveTree_inv: "mgr_inv h H m \<Longrightarrow> mgr_inv h H (snd (RemoveTree n m))"
  by (auto simp: RemoveTree_def mgr_inv_def mgr_ok_def trees_good_delete distinct_delete set_alist_delete split: option.splits)

lemma ClearAll_inv: "mgr_inv h H m \<Longrightarrow> mgr_inv h H (ClearAll m)"
proof -
  assume inv: "mgr_inv h H m"
  let ?ts = "map (\<lambda>(n, t). (n, ClearItems t)) (m_trees m)"
  have keys: "map fst ?ts = map fst (m_trees m)" by (simp add: comp_def split_beta)
  then have "fst ` set ?ts = fst ` set (m_trees m)" by (metis list.set_map)
  moreover have "distinct (map fst ?ts)" using inv unfolding keys by (simp add: mgr_inv_def mgr_ok_def trees_good_def)
  moreover have "\<forall>(n, t)\<in>set ?ts. tree_good h H t"
    using inv unfolding trees_good_def mgr_inv_def mgr_ok_def by (auto simp: ClearItems_good)
  ultimately have "fst ` set ?ts = fst ` set (m_trees m)" "trees_good h H ?ts" by (simp_all only: trees_good_def)
  then show ?thesis using inv by (simp add: ClearAll_def mgr_inv_def mgr_ok_def)
qed

lemma Create_inv:
  assumes "mgr_inv h H m"
  shows "mgr_inv h H (or_same m (CreateTree n m))" "mgr_inv h H (snd (GetOrCreateTree n m))"
    "shards_ok cfg \<Longrightarrow> mgr_inv h H (or_same m (CreateTreeWithConfig n cfg m))"
proof -
  have "tree_good h H ((NewTree (m_config m))\<lparr>t_name := n\<rparr>)"
    using assms by (simp add: NewTree_good rename_good mgr_inv_def)
  then have "mgr_inv h H ((set_tree n ((NewTree (m_config m))\<lparr>t_name := n\<rparr>) m)\<lparr>m_globalRootDirty := True\<rparr>)"
    using assms mgr_inv_set_tree mgr_inv_dirty by metis
  then show "mgr_inv h H (or_same m (CreateTree n m))" "mgr_inv h H (snd (GetOrCreateTree n m))"
    using assms by (simp_all add: CreateTree_def GetOrCreateTree_def or_same_def Let_def split: option.splits)
  show "mgr_inv h H (or_same m (CreateTreeWithConfig n cfg m))" if "shards_ok cfg"
    using assms that by (simp add: CreateTreeWithConfig_def or_same_def NewTree_good mgr_inv_set_tree split: option.splits)
qed

lemma cached_named_keys: "cached_named m \<Longrightarrow> fst ` set (m_treeRootCache m) \<subseteq> fst ` set (m_trees m)"
  by (force simp: cached_named_def list_all_iff GetTree_def dest: map_of_SomeD)

lemma RenameTree_inv:
  assumes "mgr_inv h H m" "cached_named (or_same m (RenameTree a b m))"
  shows "mgr_inv h H (or_same m (RenameTree a b m))"
proof (cases "RenameTree a b m")
  case (Inr m')
  then obtain t where t: "map_of (m_trees m) a = Some t" "m' = m\<lparr>m_trees := AList.delete a (AList.update b t (m_trees m))\<rparr>"
    by (auto simp: RenameTree_def split: option.splits if_splits)
  have good: "trees_good h H (m_trees m)" using assms(1) by (simp add: mgr_inv_def mgr_ok_def)
  then have "trees_good h H (m_trees m')"
    using trees_good_of [OF good t(1)] by (simp add: t(2) trees_good_delete trees_good_update)
  then show ?thesis
    using assms(1) cached_named_keys [OF assms(2)] t(2) by (simp add: Inr or_same_def mgr_inv_def mgr_ok_def)
qed (use assms in \<open>simp add: or_same_def\<close>)

lemma RemoveAll_inv: "mgr_inv h H m \<Longrightarrow> cached_named (RemoveAll m) \<Longrightarrow> mgr_inv h H (RemoveAll m)"
  using cached_named_keys [of "RemoveAll m"] by (simp add: RemoveAll_def mgr_inv_def mgr_ok_def)

lemma adopt_trees_inv:
  assumes "mgr_inv h H m" "restored_trees H R ts" "cached_named (adopt_trees ts m)" "runtime_ok R"
  shows "mgr_inv h H (adopt_trees ts m)"
proof -
  have "tree_good h H t" if nt: "(n, t) \<in> set ts" for n t
  proof -
    from assms(2) nt obtain cfg xs where c: "shards_ok cfg" "batch_fits H (config_depth cfg) xs"
      "InsertBatch H (rt_NumCPU R) (rt_store R) (rt_place R) xs ((NewTree cfg)\<lparr>t_name := n\<rparr>) = Some t"
      unfolding restored_trees_def by blast
    have "tree_good h H ((NewTree cfg)\<lparr>t_name := n\<rparr>)" using c(1) by (simp add: NewTree_good rename_good)
    moreover have "t_maxDepth ((NewTree cfg :: 'a tree)\<lparr>t_name := n\<rparr>) = config_depth cfg" by (simp add: NewTree_depth)
    ultimately show ?thesis using InsertBatch_good [of h H "(NewTree cfg)\<lparr>t_name := n\<rparr>" xs R] c(2,3) assms(4) by auto
  qed
  then have "trees_good h H ts" using assms(2) by (auto simp: trees_good_def restored_trees_def)
  then show ?thesis
    using assms(1) cached_named_keys [OF assms(3)] by (simp add: adopt_trees_def mgr_inv_def mgr_ok_def)
qed

lemma mgr_step_inv:
  assumes inv: "mgr_inv h H m" and R: "runtime_ok R" and del: "DeletedNodeHash h \<noteq> zero32" and ok: "mgr_op_ok H x m"
  shows "\<exists>m'. mgr_step h H R x m = Some m' \<and> mgr_inv h H m'"
proof (cases x)
  case (MClone s n)
  then show ?thesis using CloneTree_inv [OF inv R, of s n] ok by (auto simp: mgr_step_def)
next
  case (MInsert n y)
  have "\<exists>r t'. map_option (Pair ()) (Insert H y t) = Some (r, t') \<and> tree_good h H t'" if "GetTree n m = Some t" for t
    using Insert_good [OF mgr_inv_get [OF inv that], of y] ok that MInsert by (auto simp: at_tree_def)
  from on_tree_step(2) [OF inv this] show ?thesis by (simp add: MInsert mgr_step_def InsertToTree_def)
next
  case (MBatch n ys)
  have "\<exists>r t'. map_option (Pair ()) (InsertBatch H (rt_NumCPU R) (rt_store R) (rt_place R) ys t) = Some (r, t') \<and> tree_good h H t'"
    if "GetTree n m = Some t" for t
    using InsertBatch_good [OF mgr_inv_get [OF inv that] _ R, of ys] ok that MBatch by (auto simp: at_tree_def)
  from on_tree_step(2) [OF inv this] show ?thesis by (simp add: MBatch mgr_step_def BatchInsertToTree_def)
next
  case (MDirect n y)
  have "\<exists>r t'. map_option (Pair ()) (tree_step h H R y t) = Some (r, t') \<and> tree_good h H t'" if "GetTree n m = Some t" for t
    using tree_step_good [OF mgr_inv_get [OF inv that] _ R del, of y] ok that MDirect by (auto simp: at_tree_def)
  from on_tree_step(1) [OF inv this] show ?thesis by (simp add: MDirect mgr_step_def)
next
  case (MTreeRoot n)
  have "\<exists>r t'. ComputeRoot (rt_NumCPU R) h H t = Some (r, t') \<and> tree_good h H t'" if "GetTree n m = Some t" for t
    using ComputeRoot_good [OF mgr_inv_get [OF inv that] del] by blast
  from on_tree_step(1) [OF inv this] show ?thesis by (simp add: MTreeRoot mgr_step_def GetTreeRoot_def)
next
  case (MTreeInfo n)
  have "\<exists>r t'. map_option (map_prod f id) (ComputeRoot (rt_NumCPU R) h H t) = Some (r, t') \<and> tree_good h H t'"
    if "GetTree n m = Some t" for t :: "'a tree" and f :: "bytes \<Rightarrow> tree_info"
    using ComputeRoot_good [OF mgr_inv_get [OF inv that] del, of "rt_NumCPU R"] by auto
  from on_tree_step(1) [OF inv this] show ?thesis by (simp add: MTreeInfo mgr_step_def GetTreeInfo_def Let_def)
next
  case MGlobalRoot
  then show ?thesis using ComputeGlobalRoot_ok [of h H m "rt_NumCPU R"] inv del by (auto simp: mgr_step_def mgr_inv_def)
next
  case MAllRoots
  then show ?thesis using ComputeAllRoots_inv [OF inv del, of "rt_NumCPU R"] by (auto simp: mgr_step_def)
next
  case (MGet n i)
  then show ?thesis using inv mgr_inv_get [OF inv, of n]
    by (auto simp: mgr_step_def GetFromTree_def mgr_inv_set_tree GetItem_good split: option.split)
next
  case (MClear n)
  then show ?thesis using inv mgr_inv_get [OF inv, of n]
    by (auto simp: mgr_step_def ClearTree_def or_same_def mgr_inv_set_tree ClearItems_good split: option.split)
next
  case (MCreateWith n cfg)
  then show ?thesis using Create_inv(3) [OF inv] ok by (simp add: mgr_step_def)
next
  case (MSetConfig cfg)
  then show ?thesis using inv ok by (simp add: mgr_step_def SetDefaultConfig_def mgr_inv_def mgr_ok_def)
next
  case (MRename a b)
  then show ?thesis using RenameTree_inv [OF inv, of a b] ok by (simp add: mgr_step_def)
next
  case MRemoveAll
  then show ?thesis using RemoveAll_inv [OF inv] ok by (simp add: mgr_step_def)
qed (use inv in \<open>simp_all add: mgr_step_def Create_inv RemoveTree_inv ClearAll_inv mgr_inv_dirty mgr_inv_invalidate InvalidateGlobalRoot_def\<close>)

lemma NewManager_inv: "shards_ok cfg \<Longrightarrow> mgr_inv h H (NewManager cfg)"
  by (auto simp: NewManager_def mgr_inv_def mgr_ok_def shards_ok_def DefaultConfig_def split: option.split)

lemma mgr_reachable_inv:
  assumes "mgr_reachable h H R m" "runtime_ok R" "DeletedNodeHash h \<noteq> zero32"
  shows "mgr_inv h H m"
  using assms(1)
proof induction
  case (start cfg)
  then show ?case by (rule NewManager_inv)
next
  case (step m x m')
  then show ?case using mgr_step_inv [OF step.IH assms(2,3) step.hyps(2)] by simp
next
  case (load m ts)
  then show ?case using adopt_trees_inv assms(2) by blast
qed

subsection \<open>The global root\<close>

lemma global_now_eq: "global_now h H m
    = computeMerkleRoot h (map (\<lambda>n. tree_root h H (the (GetTree n m))) (sort (ListTrees m)))"
proof -
  have "the (map_of (roots_now h H (m_trees m)) n) = tree_root h H (the (GetTree n m))" if "n \<in> fst ` set (m_trees m)" for n
  proof -
    have "map_of (m_trees m) n \<noteq> None" using that by (simp only: map_of_eq_None_iff) simp
    then show ?thesis by (auto simp: map_of_roots_now GetTree_def)
  qed
  then have "map (\<lambda>n. the (map_of (roots_now h H (m_trees m)) n)) (sort (ListTrees m))
      = map (\<lambda>n. tree_root h H (the (GetTree n m))) (sort (ListTrees m))"
    by (intro map_cong) (simp_all add: ListTrees_def)
  then show ?thesis unfolding global_now_def global_of_def by (simp only: ListTrees_def roots_now_simps(3))
qed

text \<open>C14. Whatever was done to a manager and, through the pointers it hands out, directly to its trees,
  \<^verbatim>\<open>ComputeGlobalRoot\<close> returns the Merkle root over the present roots of all trees in the order of
  their names: neither its cached root nor the cached roots of the trees are stale. The steps
  include renaming a tree, removing all trees and loading a snapshot, provided that no root stays cached
  under a name that thereby disappears (\<open>cached_named\<close>); without that the property is false, see
  \<open>renamed_name_hides_new_tree\<close>, \<open>remove_all_keeps_global_root\<close> and \<open>loaded_snapshot_hides_tree\<close>. Keys are long
  enough for the trees, and batches within the grouping table.\<close>

theorem global_root_commits_to_all_trees:
  assumes "mgr_reachable h H R m" "runtime_ok R" "DeletedNodeHash h \<noteq> zero32"
  shows "\<exists>m'. ComputeGlobalRoot N h H m = Some
      (computeMerkleRoot h (map (\<lambda>n. tree_root h H (the (GetTree n m))) (sort (ListTrees m))), m')
    \<and> mgr_inv h H m'"
  using mgr_reachable_inv [OF assms] ComputeGlobalRoot_ok [of h H m N] assms(3)
  by (auto simp: mgr_inv_def simp flip: global_now_eq)

subsection \<open>Proofs\<close>

lemma find_index_found: "n \<in> set xs \<Longrightarrow> \<exists>i. find_index n xs = Some i \<and> i < length xs \<and> xs ! i = n"
  by (induction xs) auto

lemma length_tree_root:
  assumes "tree_good h H t" "DeletedNodeHash h \<noteq> zero32"
  shows "length (tree_root h H t) = 32"
proof -
  from assms(1) obtain its lvs where "tree_rep h H t its lvs" by (auto simp: tree_good_def)
  from tree_root_rep [OF this assms(2)] show ?thesis
    by (simp add: levels_def root_of_def branch_hash_def zero32_def Let_def)
qed

lemma GetMerkleProof_inv:
  assumes inv: "mgr_inv h H m" and del: "DeletedNodeHash h \<noteq> zero32" and n: "GetTree n m = Some t"
  shows "if mgr_fresh h H m then
      \<exists>hs i m'. GetMerkleProof N h H n m = Some (Done (Inr (\<lparr>mp_TreeName = n, mp_TreeRoot = hs ! i,
          mp_ProofPath = fst (computeProofPath h hs i), mp_IsLeft = snd (computeProofPath h hs i),
          mp_GlobalRoot = computeMerkleRoot h hs\<rparr>, m')))
        \<and> i < length hs \<and> (\<forall>x\<in>set hs. length x = 32) \<and> hs ! i = tree_root h H t
        \<and> computeMerkleRoot h hs = global_now h H m
    else GetMerkleProof N h H n m = Some Blocked"
proof -
  let ?names = "sort (map fst (m_trees m))" and ?rs = "roots_now h H (m_trees m)"
  let ?hs = "map (\<lambda>n. the (map_of ?rs n)) ?names"
  have ok: "mgr_ok h H m" "trees_good h H (m_trees m)" using inv by (simp_all add: mgr_inv_def mgr_ok_def)
  have "n \<in> set ?names" using n by (force simp: GetTree_def dest: map_of_SomeD)
  from find_index_found [OF this] obtain i where i: "find_index n ?names = Some i" "i < length ?names" "?names ! i = n"
    by blast
  have "set ?names \<subseteq> fst ` set (m_trees m)" by simp
  from collect_roots_ok [OF del ok(2) this, of "[]" N] obtain ts c where
    ts: "collect_roots N h H ?names (m_trees m) [] = Some (?hs, ts, c)" "trees_good h H ts" "roots_now h H ts = ?rs"
    by auto
  let ?m = "m\<lparr>m_trees := ts\<rparr>"
  have keys: "fst ` set ts = fst ` set (m_trees m)" using ts(3) by (metis roots_now_simps(4))
  have m: "mgr_ok h H ?m" "mgr_fresh h H ?m \<longleftrightarrow> mgr_fresh h H m" "global_now h H ?m = global_now h H m"
    using ok(1) ts keys by (simp_all add: mgr_ok_def mgr_fresh_def global_now_def)
  from read_locked_ok [OF m(1) del, of N] m(2,3) obtain m' where
    r: "read_locked_global N h H ?m = Some (if mgr_fresh h H m then Some (global_now h H m) else None, m')" by auto
  have root: "computeMerkleRoot h ?hs = global_now h H m" by (simp add: global_now_def global_of_def)
  have at: "?hs ! i = tree_root h H t" using i n by (simp add: map_of_roots_now GetTree_def)
  have len: "\<forall>x\<in>set ?hs. length x = 32"
  proof
    fix x assume "x \<in> set ?hs"
    then obtain k where k: "k \<in> fst ` set (m_trees m)" "x = the (map_of ?rs k)" by auto
    then have "map_of (m_trees m) k \<noteq> None" by (simp only: map_of_eq_None_iff) simp
    then obtain u where "map_of (m_trees m) k = Some u" by blast
    with k trees_good_of [OF ok(2)] length_tree_root [OF _ del] show "length x = 32"
      by (fastforce simp: map_of_roots_now)
  qed
  have found: "map_of (m_trees m) n \<noteq> None" using n by (simp add: GetTree_def)
  show ?thesis
  proof (cases "mgr_fresh h H m")
    case True
    have "GetMerkleProof N h H n m = Some (Done (Inr (\<lparr>mp_TreeName = n, mp_TreeRoot = ?hs ! i,
        mp_ProofPath = fst (computeProofPath h ?hs i), mp_IsLeft = snd (computeProofPath h ?hs i),
        mp_GlobalRoot = computeMerkleRoot h ?hs\<rparr>, m')))"
      using found i(1) ts(1) r True root by (simp add: GetMerkleProof_def Let_def)
    then show ?thesis using True i(2) len at root by (metis length_map)
  next
    case False
    then show ?thesis using found i(1) ts(1) r by (simp add: GetMerkleProof_def Let_def)
  qed
qed

text \<open>C35. Right after \<^verbatim>\<open>ComputeGlobalRoot\<close>, the proof for any tree carries the present root of that
  tree and the global root just computed, and it verifies; \<^verbatim>\<open>VerifyTreeInclusion\<close> answers true.
  The manager is one that \<open>mgr_reachable\<close> admits, as above: no root is cached under the name of a tree that
  \<^verbatim>\<open>RenameTree\<close>, \<^verbatim>\<open>RemoveAll\<close> or \<^verbatim>\<open>LoadSnapshot\<close> took away. Otherwise the global root
  may leave a tree out (\<open>renamed_name_hides_new_tree\<close>) that the proof includes, and the proof fails.\<close>

theorem merkle_proof_verifies:
  assumes "mgr_reachable h H R m" "runtime_ok R" "DeletedNodeHash h \<noteq> zero32" "digest h"
    and "ComputeGlobalRoot N h H m = Some (root, m1)" "GetTree n m1 = Some t"
  shows "\<exists>p m2. GetMerkleProof N h H n m1 = Some (Done (Inr (p, m2))) \<and> mp_TreeName p = n
    \<and> mp_TreeRoot p = tree_root h H t \<and> mp_GlobalRoot p = root \<and> Verify h p = Some True
    \<and> VerifyTreeInclusion N h H n m1 = Some (Done (Inr (True, m2)))"
proof -
  from mgr_reachable_inv [OF assms(1-3)] have inv: "mgr_ok h H m" "shards_ok (m_config m)" by (simp_all add: mgr_inv_def)
  from ComputeGlobalRoot_ok [OF inv(1) assms(3), of N] assms(5) inv(2) have
    m1: "mgr_inv h H m1" "mgr_fresh h H m1" "root = global_now h H m1"
    by (auto simp: mgr_inv_def global_now_def)
  from GetMerkleProof_inv [OF m1(1) assms(3,6), of N] m1(2) obtain hs i m2 where
    p: "GetMerkleProof N h H n m1 = Some (Done (Inr (\<lparr>mp_TreeName = n, mp_TreeRoot = hs ! i,
          mp_ProofPath = fst (computeProofPath h hs i), mp_IsLeft = snd (computeProofPath h hs i),
          mp_GlobalRoot = computeMerkleRoot h hs\<rparr>, m2)))"
    and i: "i < length hs" "\<forall>x\<in>set hs. length x = 32" "hs ! i = tree_root h H t"
      "computeMerkleRoot h hs = global_now h H m1" by auto
  have "Verify h \<lparr>mp_TreeName = n, mp_TreeRoot = hs ! i,
          mp_ProofPath = fst (computeProofPath h hs i), mp_IsLeft = snd (computeProofPath h hs i),
          mp_GlobalRoot = computeMerkleRoot h hs\<rparr> = Some True"
    using computeProofPath_verifies [OF assms(4) i(1,2)] by (simp add: Verify_def)
  then show ?thesis using p i(3,4) m1(3) by (simp add: VerifyTreeInclusion_def)
qed

text \<open>C36. After an insertion through the manager, a request for a proof of any tree never returns:
  \<^verbatim>\<open>GetMerkleProof\<close> holds the read lock while the global root, which has to be recomputed, waits
  for the write lock.\<close>

theorem merkle_proof_blocks:
  assumes "mgr_reachable h H R m" "runtime_ok R" "DeletedNodeHash h \<noteq> zero32"
    and "at_tree n (\<lambda>t. depth_fits H (t_maxDepth t) x) m" "GetTree n m \<noteq> None"
  shows "\<exists>m'. InsertToTree H n x m = Some (Inr ((), m'))
    \<and> (\<forall>k. GetTree k m' \<noteq> None \<longrightarrow> GetMerkleProof N h H k m' = Some Blocked)"
proof -
  from mgr_reachable_inv [OF assms(1-3)] have inv: "mgr_inv h H m" .
  from assms(5) obtain t where t: "GetTree n m = Some t" by blast
  from Insert_good [OF mgr_inv_get [OF inv t], of x] assms(4) t obtain t' where
    t': "Insert H x t = Some t'" "tree_good h H t'" by (auto simp: at_tree_def)
  let ?m = "InvalidateTreeRoot n (set_tree n t' m)"
  have "InsertToTree H n x m = Some (Inr ((), ?m))" using t t'(1) by (simp add: InsertToTree_def on_tree_def)
  moreover have "mgr_inv h H ?m" using inv t'(2) by (simp add: mgr_inv_invalidate mgr_inv_set_tree)
  moreover have "\<not> mgr_fresh h H ?m" by (simp add: mgr_fresh_def InvalidateTreeRoot_def)
  ultimately show ?thesis using GetMerkleProof_inv [OF _ assms(3), of H ?m _ _ N] by auto
qed

subsection \<open>Stale global roots\<close>

text \<open>\<^verbatim>\<open>RemoveAll\<close> keeps the old global root: the next \<^verbatim>\<open>ComputeGlobalRoot\<close> of the empty manager
  returns the root of the trees that were removed.\<close>

theorem remove_all_keeps_global_root:
  assumes "mgr_reachable h H R m" "runtime_ok R" "DeletedNodeHash h \<noteq> zero32"
    and "ComputeGlobalRoot N h H m = Some (root, m1)"
  shows "ListTrees (RemoveAll m1) = [] \<and> ComputeGlobalRoot N h H (RemoveAll m1) = Some (root, RemoveAll m1)"
proof -
  from mgr_reachable_inv [OF assms(1-3)] have inv: "mgr_ok h H m" by (simp add: mgr_inv_def)
  from ComputeGlobalRoot_ok [OF inv(1) assms(3), of N] assms(4) have
    m1: "mgr_ok h H m1" "mgr_fresh h H m1" "root = global_now h H m1" by (auto simp: global_now_def)
  then have "m_globalRootCache m1 = root" "\<not> m_globalRootDirty m1"
    using fresh_root [OF m1(1,2)] by (simp_all add: mgr_fresh_def)
  then show ?thesis
    by (simp add: RemoveAll_def ListTrees_def ComputeGlobalRoot_def read_locked_global_def)
qed

text \<open>An empty tree, and what \<^verbatim>\<open>ComputeRoot\<close> makes of it.\<close>

lemma empty_tree_root:
  fixes H :: "'a hashable"
  assumes "CacheShards cfg < 63" "DeletedNodeHash h \<noteq> zero32"
  shows "\<exists>t. ComputeRoot N h H ((NewTree (Some cfg))\<lparr>t_name := n\<rparr>) = Some (zero32, t)
    \<and> ComputeRoot N h H t = Some (zero32, t)"
proof -
  let ?t = "(NewTree (Some cfg))\<lparr>t_name := n\<rparr> :: 'a tree"
  have "tree_rep h H ?t [] []"
    using tree_rep_counters [OF NewTree_rep [OF assms(1)], of ?t h H] by simp
  from ComputeRoot_rep [OF this assms(2), of N] obtain t where
    "ComputeRoot N h H ?t = Some (root_of h H (levels ?t) [], t)" "t_rootCacheValid t"
    "t_cachedRoot t = root_of h H (levels ?t) []" by blast
  moreover have "root_of h H (levels ?t) [] = zero32"
    by (simp add: levels_def root_of_def leaf_hashes_def below_def)
  ultimately show ?thesis by (simp add: ComputeRoot_def)
qed

text \<open>\<^verbatim>\<open>RenameTree\<close> leaves the root cached under the old name. A tree that
  \<^verbatim>\<open>CreateTreeWithConfig\<close> then puts under that name, and whose root equals the one left
  behind, stays out of the global root: with two trees in the manager, \<^verbatim>\<open>ComputeGlobalRoot\<close>
  still returns the root of one tree.\<close>

theorem renamed_name_hides_new_tree:
  fixes H :: "'a hashable"
  assumes "CacheShards cfg < 63" "DeletedNodeHash h \<noteq> zero32" "a \<noteq> b"
  shows "\<exists>m1 m2 m3 m4 m5. CreateTree a (NewManager (Some cfg)) = Inr m1
    \<and> ComputeGlobalRoot N h H m1 = Some (zero32, m2) \<and> RenameTree a b m2 = Inr m3
    \<and> ComputeGlobalRoot N h H m3 = Some (zero32, m4) \<and> CreateTreeWithConfig a (Some cfg) m4 = Inr m5
    \<and> map fst (m_trees m5) = [b, a] \<and> map_option fst (ComputeGlobalRoot N h H m5) = Some zero32
    \<and> computeMerkleRoot h [zero32, zero32] = arr32 (h (zero32 @ zero32))"
proof -
  let ?ta = "(NewTree (Some cfg))\<lparr>t_name := a\<rparr> :: 'a tree" and ?tb = "NewTree (Some cfg) :: 'a tree"
  from empty_tree_root [OF assms(1,2), of N H a] obtain ta where
    ta: "ComputeRoot N h H ?ta = Some (zero32, ta)" "ComputeRoot N h H ta = Some (zero32, ta)" by blast
  have same: "?tb\<lparr>t_name := t_name ?tb\<rparr> = ?tb" by simp
  from empty_tree_root [OF assms(1,2), of N H "t_name ?tb"] obtain tb where
    tb: "ComputeRoot N h H ?tb = Some (zero32, tb)" unfolding same by blast
  let ?m0 = "NewManager (Some cfg) :: 'a manager"
  let ?m1 = "(set_tree a ?ta ?m0)\<lparr>m_globalRootDirty := True\<rparr>"
  let ?m2 = "?m1\<lparr>m_trees := [(a, ta)], m_treeRootCache := [(a, zero32)], m_globalRootDirty := False\<rparr>"
  let ?m3 = "?m2\<lparr>m_trees := [(b, ta)]\<rparr>"
  let ?m4 = "?m3\<lparr>m_treeRootCache := [(a, zero32), (b, zero32)]\<rparr>"
  let ?m5 = "?m4\<lparr>m_trees := [(b, ta), (a, ?tb)]\<rparr>"
  note defs = ComputeGlobalRoot_def read_locked_global_def write_locked_global_def recompute_global_def
    computeMerkleRoot_def set_tree_def NewManager_def Let_def
  have "CreateTree a ?m0 = Inr ?m1" by (simp add: CreateTree_def NewManager_def)
  moreover have "ComputeGlobalRoot N h H ?m1 = Some (zero32, ?m2)" using ta(1) by (simp add: defs)
  moreover have "RenameTree a b ?m2 = Inr ?m3" using assms(3) by (simp add: RenameTree_def)
  moreover have "ComputeGlobalRoot N h H ?m3 = Some (zero32, ?m4)" using ta(2) assms(3) by (simp add: defs)
  moreover have "CreateTreeWithConfig a (Some cfg) ?m4 = Inr ?m5" using assms(3) by (simp add: CreateTreeWithConfig_def set_tree_def)
  moreover have "map_option fst (ComputeGlobalRoot N h H ?m5) = Some zero32" using ta(2) tb assms(3) by (simp add: defs)
  moreover have "map fst (m_trees ?m5) = [b, a]" by simp
  moreover have "computeMerkleRoot h [zero32, zero32] = arr32 (h (zero32 @ zero32))"
    by (simp add: computeMerkleRoot_def merkle_levels.simps node_hash_def)
  ultimately show ?thesis by (intro exI conjI) assumption+
qed

text \<open>The same after loading a snapshot: the roots cached before stay, and a tree that
  \<^verbatim>\<open>CreateTreeWithConfig\<close> puts under the name of one of the trees replaced is left out.\<close>

lemma loaded_snapshot_hides_tree:
  fixes H :: "'a hashable"
  assumes "CacheShards cfg < 63" "DeletedNodeHash h \<noteq> zero32" "a \<noteq> b"
  shows "\<exists>m1 m2 m3 m4. CreateTree a (NewManager (Some cfg)) = Inr m1
    \<and> ComputeGlobalRoot N h H m1 = Some (zero32, m2)
    \<and> ComputeGlobalRoot N h H (adopt_trees [(b, (NewTree (Some cfg))\<lparr>t_name := b\<rparr>)] m2) = Some (zero32, m3)
    \<and> CreateTreeWithConfig a (Some cfg) m3 = Inr m4 \<and> map fst (m_trees m4) = [b, a]
    \<and> map_option fst (ComputeGlobalRoot N h H m4) = Some zero32
    \<and> computeMerkleRoot h [zero32, zero32] = arr32 (h (zero32 @ zero32))"
proof -
  let ?ta = "(NewTree (Some cfg))\<lparr>t_name := a\<rparr> :: 'a tree" and ?tb = "(NewTree (Some cfg))\<lparr>t_name := b\<rparr> :: 'a tree"
    and ?tc = "NewTree (Some cfg) :: 'a tree"
  from empty_tree_root [OF assms(1,2), of N H a] obtain ta where
    ta: "ComputeRoot N h H ?ta = Some (zero32, ta)" by blast
  from empty_tree_root [OF assms(1,2), of N H b] obtain tb where
    tb: "ComputeRoot N h H ?tb = Some (zero32, tb)" "ComputeRoot N h H tb = Some (zero32, tb)" by blast
  have same: "?tc\<lparr>t_name := t_name ?tc\<rparr> = ?tc" by simp
  from empty_tree_root [OF assms(1,2), of N H "t_name ?tc"] obtain tc where
    tc: "ComputeRoot N h H ?tc = Some (zero32, tc)" unfolding same by blast
  let ?m0 = "NewManager (Some cfg) :: 'a manager"
  let ?m1 = "(set_tree a ?ta ?m0)\<lparr>m_globalRootDirty := True\<rparr>"
  let ?m2 = "?m1\<lparr>m_trees := [(a, ta)], m_treeRootCache := [(a, zero32)], m_globalRootDirty := False\<rparr>"
  let ?m3 = "?m2\<lparr>m_trees := [(b, tb)], m_treeRootCache := [(a, zero32), (b, zero32)]\<rparr>"
  let ?m4 = "?m3\<lparr>m_trees := [(b, tb), (a, ?tc)]\<rparr>"
  note defs = ComputeGlobalRoot_def read_locked_global_def write_locked_global_def recompute_global_def
    computeMerkleRoot_def set_tree_def NewManager_def adopt_trees_def Let_def
  have "CreateTree a ?m0 = Inr ?m1" by (simp add: CreateTree_def NewManager_def)
  moreover have "ComputeGlobalRoot N h H ?m1 = Some (zero32, ?m2)" using ta by (simp add: defs)
  moreover have "ComputeGlobalRoot N h H (adopt_trees [(b, ?tb)] ?m2) = Some (zero32, ?m3)"
    using tb assms(3) by (simp add: defs)
  moreover have "CreateTreeWithConfig a (Some cfg) ?m3 = Inr ?m4" using assms(3) by (simp add: CreateTreeWithConfig_def set_tree_def)
  moreover have "map_option fst (ComputeGlobalRoot N h H ?m4) = Some zero32" using tb tc assms(3) by (simp add: defs)
  moreover have "map fst (m_trees ?m4) = [b, a]" by simp
  moreover have "computeMerkleRoot h [zero32, zero32] = arr32 (h (zero32 @ zero32))"
    by (simp add: computeMerkleRoot_def merkle_levels.simps node_hash_def)
  ultimately show ?thesis by (intro exI conjI) assumption+
qed

lemma renamed_name_hides_new_tree_witness:
  "\<exists>m1 m2 m3 m4 m5. CreateTree ''a'' (NewManager (Some SmallConfig)) = Inr m1
    \<and> ComputeGlobalRoot 16 sample_hash id_hashable m1 = Some (zero32, m2) \<and> RenameTree ''a'' ''b'' m2 = Inr m3
    \<and> ComputeGlobalRoot 16 sample_hash id_hashable m3 = Some (zero32, m4)
    \<and> CreateTreeWithConfig ''a'' (Some SmallConfig) m4 = Inr m5
    \<and> map_option fst (ComputeGlobalRoot 16 sample_hash id_hashable m5) = Some zero32
    \<and> computeMerkleRoot sample_hash [zero32, zero32] = replicate 32 1"
proof -
  have "arr32 (sample_hash (zero32 @ zero32)) = replicate 32 1" by (simp add: sample_hash_def)
  with renamed_name_hides_new_tree [where N = 16, of SmallConfig sample_hash "''a''" "''b''" id_hashable]
  show ?thesis by simp blast
qed

text \<open>The manager of the witnesses: two empty trees.\<close>

definition sample_manager :: "u64 manager" where
  "sample_manager = snd (GetOrCreateTree ''b'' (snd (GetOrCreateTree ''a'' (NewManager (Some SmallConfig)))))"

lemma sample_manager_ok: "mgr_reachable h H R sample_manager"
proof -
  have "shards_ok (Some SmallConfig)" by (simp add: shards_ok_def)
  from mgr_reachable.start [OF this, where h = h and H = H and R = R]
  have a: "mgr_reachable h H R (snd (GetOrCreateTree ''a'' (NewManager (Some SmallConfig))))"
    by (rule mgr_reachable.step [where x = "MGetOrCreate ''a''"]) (simp_all add: mgr_step_def)
  then show ?thesis unfolding sample_manager_def
    by (rule mgr_reachable.step [where x = "MGetOrCreate ''b''"]) (simp_all add: mgr_step_def)
qed

lemma sample_manager_trees:
  "GetTree ''a'' sample_manager = Some ((NewTree (Some SmallConfig))\<lparr>t_name := ''a''\<rparr>)" "ListTrees sample_manager = [''a'', ''b'']"
  by (simp_all add: sample_manager_def GetOrCreateTree_def NewManager_def set_tree_def GetTree_def ListTrees_def Let_def)

lemma sort_sample: "sort [''a'', ''b''] = [''a'', ''b'']"
  by (simp add: less_char_def)

lemma sample_global_root: "computeMerkleRoot sample_hash [x, y] = replicate 32 1"
  by (simp add: computeMerkleRoot_def merkle_levels.simps node_hash_def sample_hash_def)

lemma global_root_commits_to_all_trees_witness:
  "\<exists>m m'. RenameTree ''b'' ''c'' sample_manager = Inr m \<and> ListTrees m = [''a'', ''c'']
    \<and> ComputeGlobalRoot 16 sample_hash id_hashable m = Some (replicate 32 1, m')"
proof -
  have tb: "map_of (m_trees sample_manager) ''b'' = Some ((NewTree (Some SmallConfig))\<lparr>t_name := ''b''\<rparr>)"
    "map fst (m_trees sample_manager) = [''a'', ''b'']" "m_treeRootCache sample_manager = []"
    by (simp_all add: sample_manager_def GetOrCreateTree_def NewManager_def set_tree_def Let_def)
  then obtain x y where s: "m_trees sample_manager = [(''a'', x), (''b'', y)]" by (auto simp: map_eq_Cons_conv)
  let ?m = "sample_manager\<lparr>m_trees := AList.delete ''b'' (AList.update ''c'' y (m_trees sample_manager))\<rparr>"
  have r: "RenameTree ''b'' ''c'' sample_manager = Inr ?m" by (simp add: RenameTree_def s)
  have l: "ListTrees ?m = [''a'', ''c'']" by (simp add: s ListTrees_def)
  have "mgr_reachable sample_hash id_hashable sample_runtime ?m"
    by (rule mgr_reachable.step [where x = "MRename ''b'' ''c''", OF sample_manager_ok])
      (simp_all add: mgr_step_def r or_same_def cached_named_def tb)
  moreover have "sort [''a'', ''c''] = [''a'', ''c'']" by (simp add: less_char_def)
  ultimately show ?thesis
    using global_root_commits_to_all_trees [where N = 16, OF _ sample_ok(1,2), of id_hashable ?m] r l
    by (auto simp: sample_global_root simp del: sort_key_simps)
qed

lemma sample_computed:
  "\<exists>m1 t. ComputeGlobalRoot 16 sample_hash id_hashable sample_manager = Some (replicate 32 1, m1)
    \<and> GetTree ''a'' m1 = Some t"
proof -
  have inv: "mgr_ok sample_hash id_hashable sample_manager"
    using mgr_reachable_inv [OF sample_manager_ok sample_ok(1,2)] by (simp add: mgr_inv_def)
  have "global_now sample_hash id_hashable sample_manager = replicate 32 1"
    by (simp add: global_now_eq sample_manager_trees sort_sample sample_global_root del: sort_key_simps)
  with ComputeGlobalRoot_ok [OF inv sample_ok(2), of 16] obtain m1 where
    m1: "ComputeGlobalRoot 16 sample_hash id_hashable sample_manager = Some (replicate 32 1, m1)"
      "roots_now sample_hash id_hashable (m_trees m1) = roots_now sample_hash id_hashable (m_trees sample_manager)" by auto
  from m1(2) have "map_of (roots_now sample_hash id_hashable (m_trees m1)) ''a'' \<noteq> None"
    using sample_manager_trees(1) by (simp add: map_of_roots_now GetTree_def)
  then show ?thesis using m1(1) by (auto simp: map_of_roots_now GetTree_def)
qed

lemma digest_sample: "digest sample_hash"
  by (simp add: digest_def sample_hash_def)

lemma merkle_proof_verifies_witness:
  "\<exists>m1 p m2. ComputeGlobalRoot 16 sample_hash id_hashable sample_manager = Some (replicate 32 1, m1)
    \<and> GetMerkleProof 16 sample_hash id_hashable ''a'' m1 = Some (Done (Inr (p, m2)))
    \<and> mp_GlobalRoot p = replicate 32 1 \<and> Verify sample_hash p = Some True"
proof -
  from sample_computed obtain m1 t where
    m1: "ComputeGlobalRoot 16 sample_hash id_hashable sample_manager = Some (replicate 32 1, m1)" "GetTree ''a'' m1 = Some t" by blast
  from merkle_proof_verifies [OF sample_manager_ok sample_ok(1,2) digest_sample m1] m1(1) show ?thesis by blast
qed

lemma merkle_proof_blocks_witness:
  "\<exists>m'. InsertToTree id_hashable ''a'' 7 sample_manager = Some (Inr ((), m'))
    \<and> (\<forall>k. GetTree k m' \<noteq> None \<longrightarrow> GetMerkleProof 16 sample_hash id_hashable k m' = Some Blocked)"
proof (rule merkle_proof_blocks [OF sample_manager_ok sample_ok(1,2)])
  have "t_maxDepth (NewTree (Some SmallConfig) :: u64 tree) = 3" by (simp add: NewTree_def Let_def)
  then show "at_tree ''a'' (\<lambda>t. depth_fits id_hashable (t_maxDepth t) 7) sample_manager"
    by (simp add: at_tree_def sample_manager_trees)
  show "GetTree ''a'' sample_manager \<noteq> None" by (simp add: sample_manager_trees)
qed

lemma remove_all_keeps_global_root_witness:
  "\<exists>m1. ComputeGlobalRoot 16 sample_hash id_hashable sample_manager = Some (replicate 32 1, m1)
    \<and> ComputeGlobalRoot 16 sample_hash id_hashable (RemoveAll m1) = Some (replicate 32 1, RemoveAll m1)"
proof -
  from sample_computed obtain m1 t where
    m1: "ComputeGlobalRoot 16 sample_hash id_hashable sample_manager = Some (replicate 32 1, m1)" by blast
  from remove_all_keeps_global_root [OF sample_manager_ok sample_ok(1,2) m1] m1 show ?thesis by blast
qed

end
