(* ===== verification/Range.thy ===== *)
theory Range
  imports TreeTheorems
begin

text \<open>
  Range queries of \<^verbatim>\<open>mt-manager/merkletree/range.go\<close>.

  \<^item> A query that calls \<^verbatim>\<open>Key\<close> on the zero item panics: the result is \<open>None\<close>. A nil and an empty
    result are both the empty list.
  \<^item> \<^verbatim>\<open>sort.Slice\<close> leaves the order of equal IDs open; here it is stable. The properties are about
    results without equal IDs.
  \<^item> The goroutines deliver their batches over a channel in an order that a schedule chooses.
  \<^item> The parameter \<^verbatim>\<open>depth\<close> of \<^verbatim>\<open>rangeQueryNode\<close> is never read and left out.
\<close>

subsection \<open>Keys\<close>

fun compare_prefix :: "(u8 \<times> u8) list \<Rightarrow> int option" where
  "compare_prefix [] = None"
| "compare_prefix ((a, b) # ps) = (if a < b then Some (-1) else if a > b then Some 1 else compare_prefix ps)"

definition compareKeys :: "bytes \<Rightarrow> bytes \<Rightarrow> int" where
  "compareKeys a b = (case compare_prefix (zip a b) of
     Some r \<Rightarrow> r
   | None \<Rightarrow> if length a < length b then -1 else if length a > length b then 1 else 0)"

definition idToKey :: "u64 \<Rightarrow> bytes" where
  "idToKey i = map (\<lambda>s. ucast (drop_bit s i)) [56, 48, 40, 32, 24, 16, 8, 0]"

definition keyToID :: "bytes \<Rightarrow> u64" where
  "keyToID key = (if length key < 8 then 0
     else push_bit 56 (ucast (key ! 0)) OR push_bit 48 (ucast (key ! 1)) OR push_bit 40 (ucast (key ! 2))
       OR push_bit 32 (ucast (key ! 3)) OR push_bit 24 (ucast (key ! 4)) OR push_bit 16 (ucast (key ! 5))
       OR push_bit 8 (ucast (key ! 6)) OR ucast (key ! 7))"

subsection \<open>Traversal\<close>

record range =
  r_start :: bytes
  r_end :: bytes
  r_includeStart :: bool
  r_includeEnd :: bool

definition in_range :: "range \<Rightarrow> bytes \<Rightarrow> bool" where
  "in_range r itemKey =
    (let cmpStart = compareKeys itemKey (r_start r); cmpEnd = compareKeys itemKey (r_end r)
     in if r_includeStart r \<and> r_includeEnd r then cmpStart \<ge> 0 \<and> cmpEnd \<le> 0
        else if r_includeStart r \<and> \<not> r_includeEnd r then cmpStart \<ge> 0 \<and> cmpEnd < 0
        else if \<not> r_includeStart r \<and> r_includeEnd r then cmpStart > 0 \<and> cmpEnd \<le> 0
        else cmpStart > 0 \<and> cmpEnd < 0)"

fun rangeQueryNode :: "'a hashable \<Rightarrow> bytes \<Rightarrow> range \<Rightarrow> 'a node \<Rightarrow> 'a list \<Rightarrow> 'a list option"
and range_kids :: "'a hashable \<Rightarrow> bytes \<Rightarrow> range \<Rightarrow> (u8 \<times> 'a node) list \<Rightarrow> 'a list \<Rightarrow> 'a list option" where
  "rangeQueryNode H del r (Node hs kids v lf d) result =
    (if lf then
       if hs = del then Some result
       else case v of
         None \<Rightarrow> None
       | Some item \<Rightarrow> Some (if in_range r (h_Key H item) then result @ [item] else result)
     else range_kids H del r kids result)"
| "range_kids H del r [] result = Some result"
| "range_kids H del r ((k, c) # kids) result =
    (case rangeQueryNode H del r c result of None \<Rightarrow> None | Some result' \<Rightarrow> range_kids H del r kids result')"

definition RangeQuery :: "(bytes \<Rightarrow> bytes) \<Rightarrow> 'a hashable \<Rightarrow> range \<Rightarrow> 'a tree \<Rightarrow> 'a list option" where
  "RangeQuery h H r t =
    (if length (r_start r) = 0 \<or> length (r_end r) = 0 then Some []
     else map_option (sort_key (h_ID H)) (rangeQueryNode H (DeletedNodeHash h) r (t_root t) []))"

subsection \<open>Goroutines\<close>

text \<open>One batch per child of the root; empty batches are not sent.\<close>

fun child_batches :: "'a hashable \<Rightarrow> bytes \<Rightarrow> range \<Rightarrow> 'a node list \<Rightarrow> 'a list list option" where
  "child_batches H del r [] = Some []"
| "child_batches H del r (c # cs) =
    (case rangeQueryNode H del r c [] of
       None \<Rightarrow> None
     | Some localResult \<Rightarrow>
         map_option (\<lambda>bs. if length localResult > 0 then localResult # bs else bs) (child_batches H del r cs))"

definition RangeQueryParallel :: "(bytes \<Rightarrow> bytes) \<Rightarrow> 'a hashable \<Rightarrow> 'a schedule \<Rightarrow> range \<Rightarrow> 'a tree \<Rightarrow> 'a list option" where
  "RangeQueryParallel h H s r t =
    (if length (r_start r) = 0 \<or> length (r_end r) = 0 then Some []
     else
       let children = map snd (nd_kids (t_root t))
       in if length children = 0 then Some []
          else map_option (\<lambda>bs. sort_key (h_ID H) (s bs)) (child_batches H (DeletedNodeHash h) r children))"

definition RangeQueryWorkerPool :: "(bytes \<Rightarrow> bytes) \<Rightarrow> 'a hashable \<Rightarrow> nat \<Rightarrow> 'a schedule \<Rightarrow> range \<Rightarrow> int \<Rightarrow>
    'a tree \<Rightarrow> 'a list option" where
  "RangeQueryWorkerPool h H numCPU s r numWorkers t =
    (if length (r_start r) = 0 \<or> length (r_end r) = 0 then Some []
     else
       let workers = (if numWorkers \<le> 0 then numCPU else nat numWorkers);
           children = map snd (nd_kids (t_root t))
       in if workers = 0 then Some []
          else map_option (\<lambda>bs. sort_key (h_ID H) (s bs)) (child_batches H (DeletedNodeHash h) r children))"

definition id_range :: "u64 \<Rightarrow> u64 \<Rightarrow> bool \<Rightarrow> bool \<Rightarrow> range" where
  "id_range startID endID includeStart includeEnd =
    \<lparr>r_start = idToKey startID, r_end = idToKey endID, r_includeStart = includeStart, r_includeEnd = includeEnd\<rparr>"

definition RangeQueryByID :: "(bytes \<Rightarrow> bytes) \<Rightarrow> 'a hashable \<Rightarrow> u64 \<Rightarrow> u64 \<Rightarrow> bool \<Rightarrow> bool \<Rightarrow> 'a tree \<Rightarrow> 'a list option" where
  "RangeQueryByID h H startID endID includeStart includeEnd t =
    RangeQuery h H (id_range startID endID includeStart includeEnd) t"

definition RangeQueryByIDParallel :: "(bytes \<Rightarrow> bytes) \<Rightarrow> 'a hashable \<Rightarrow> 'a schedule \<Rightarrow> u64 \<Rightarrow> u64 \<Rightarrow> bool \<Rightarrow> bool \<Rightarrow>
    'a tree \<Rightarrow> 'a list option" where
  "RangeQueryByIDParallel h H s startID endID includeStart includeEnd t =
    RangeQueryParallel h H s (id_range startID endID includeStart includeEnd) t"

definition RangeQueryAuto :: "(bytes \<Rightarrow> bytes) \<Rightarrow> 'a hashable \<Rightarrow> 'a schedule \<Rightarrow> range \<Rightarrow> 'a tree \<Rightarrow> 'a list option" where
  "RangeQueryAuto h H s r t =
    (if length (r_start r) = 0 \<or> length (r_end r) = 0 then Some []
     else if keyToID (r_end r) - keyToID (r_start r) > 1000 then RangeQueryParallel h H s r t
     else RangeQuery h H r t)"

subsection \<open>Keys are compared lexicographically\<close>

lemma compareKeys_Cons: "compareKeys (a # as) (b # bs) = (if a < b then -1 else if a > b then 1 else compareKeys as bs)"
  by (simp add: compareKeys_def)

lemma compareKeys_eq: "compareKeys a b = 0 \<longleftrightarrow> a = b"
proof (induction a arbitrary: b)
  case (Cons x a)
  show ?case
  proof (cases b)
    case (Cons y b')
    with Cons.IH [of b'] show ?thesis by (auto simp: compareKeys_Cons)
  qed (simp add: compareKeys_def)
qed (simp add: compareKeys_def)

text \<open>On big-endian encodings it is the order of the numbers.\<close>

lemma mod_256_Suc: "a mod 256 ^ Suc n = 256 ^ n * (a div 256 ^ n mod 256) + a mod (256 ^ n :: nat)"
proof -
  have "(256 :: nat) ^ Suc n = 256 ^ n * 256" by (rule power_Suc2)
  then show ?thesis by (simp only: mod_mult2_eq)
qed

lemma u64_mod: "unat (z :: u64) mod 18446744073709551616 = unat z"
proof -
  have "unat z < 2 ^ LENGTH(64)" by (rule unsigned_less)
  then show ?thesis by simp
qed

lemma compareKeys_be_bytes:
  fixes v w :: u64
  assumes "n \<le> 8"
  shows "compareKeys (be_bytes n v) (be_bytes n w) =
    (if unat v mod 256 ^ n < unat w mod 256 ^ n then -1
     else if unat v mod 256 ^ n > unat w mod 256 ^ n then 1 else 0)"
  using assms
proof (induction n)
  case (Suc n)
  let ?a = "unat v mod 256 ^ n" and ?b = "unat w mod 256 ^ n"
    and ?x = "unat v div 256 ^ n mod 256" and ?y = "unat w div 256 ^ n mod 256"
  have byte: "unat (ucast (drop_bit (8 * n) z) :: u8) = unat z div 256 ^ n mod 256" for z :: u64
    unfolding unsigned_ucast_eq unsigned_drop_bit_eq
    by (simp add: take_bit_eq_mod drop_bit_eq_div power_mult u64_mod)
  have lt: "?a < 256 ^ n" "?b < 256 ^ n" by simp_all
  have less: "unat u mod 256 ^ Suc n < unat z mod 256 ^ Suc n"
    if "unat u div 256 ^ n mod 256 < unat z div 256 ^ n mod 256" for u z :: u64
  proof -
    have "256 ^ n * (unat u div 256 ^ n mod 256) + 256 ^ n \<le> 256 ^ n * (unat z div 256 ^ n mod 256)"
      using that by (metis Suc_leI add.commute mult_Suc_right mult_le_mono2)
    moreover have "unat u mod 256 ^ n < 256 ^ n" by simp
    ultimately show ?thesis unfolding mod_256_Suc by linarith
  qed
  have "(ucast (drop_bit (8 * n) v) :: u8) < ucast (drop_bit (8 * n) w) \<longleftrightarrow> ?x < ?y"
    "(ucast (drop_bit (8 * n) w) :: u8) < ucast (drop_bit (8 * n) v) \<longleftrightarrow> ?y < ?x"
    by (simp_all add: word_less_nat_alt byte)
  then have "compareKeys (be_bytes (Suc n) v) (be_bytes (Suc n) w) =
    (if ?x < ?y then -1 else if ?y < ?x then 1 else compareKeys (be_bytes n v) (be_bytes n w))"
    by (simp add: compareKeys_Cons)
  moreover have "unat v mod 256 ^ Suc n < unat w mod 256 ^ Suc n \<longleftrightarrow> ?a < ?b"
    "unat w mod 256 ^ Suc n < unat v mod 256 ^ Suc n \<longleftrightarrow> ?b < ?a" if "?x = ?y"
    unfolding mod_256_Suc that by simp_all
  ultimately show ?case
    using Suc less [of v w] less [of w v] by (cases "?x < ?y"; cases "?y < ?x") auto
qed (simp add: compareKeys_def)

lemma idToKey_EncodeKey: "idToKey i = EncodeKey i"
  by (simp add: idToKey_def EncodeKey_def numeral_eq_Suc)

lemma compareKeys_EncodeKey:
  "compareKeys (EncodeKey i) (EncodeKey j) = (if i < j then -1 else if i > j then 1 else 0)"
proof -
  have "unat z mod 256 ^ 8 = unat z" for z :: u64 by (simp add: u64_mod)
  then show ?thesis using compareKeys_be_bytes [of 8 i j] by (simp add: EncodeKey_def word_less_nat_alt)
qed

lemma keyToID_be_word: "length key = 8 \<Longrightarrow> keyToID key = be_word key"
proof -
  assume "length key = 8"
  then obtain a b c d e f g i where "key = [a, b, c, d, e, f, g, i]"
    by (auto simp: length_Suc_conv numeral_eq_Suc)
  then show ?thesis
    by (simp add: keyToID_def be_word_def push_bit_or push_bit_push_bit or.assoc)
qed

lemma keyToID_idToKey: "keyToID (idToKey i) = i"
  by (simp add: keyToID_be_word idToKey_EncodeKey EncodeKey_def)

lemma in_id_range:
  assumes "h_Key H x = EncodeKey i"
  shows "in_range (id_range a b ia ib) (h_Key H x)
    \<longleftrightarrow> (if ia then a \<le> i else a < i) \<and> (if ib then i \<le> b else i < b)"
  unfolding assms in_range_def id_range_def idToKey_EncodeKey Let_def
  by (auto simp: compareKeys_EncodeKey)

subsection \<open>What a traversal collects\<close>

text \<open>The leaves of a node with their paths, in the order of the traversal.\<close>

fun paths_of :: "'a node \<Rightarrow> (u8 list \<times> bytes \<times> 'a option) list"
and kid_paths :: "(u8 \<times> 'a node) list \<Rightarrow> (u8 list \<times> bytes \<times> 'a option) list" where
  "paths_of (Node hs kids v lf d) = (if lf then [([], hs, v)] else kid_paths kids)"
| "kid_paths [] = []"
| "kid_paths ((k, c) # kids) = map (\<lambda>(p, x). (k # p, x)) (paths_of c) @ kid_paths kids"

text \<open>The items that a query sees: the leaves whose hash is not the tombstone.\<close>

definition visible :: "'a hashable \<Rightarrow> bytes \<Rightarrow> range \<Rightarrow> (u8 list \<times> bytes \<times> 'a option) list \<Rightarrow> 'a list" where
  "visible H del r ls = filter (\<lambda>x. in_range r (h_Key H x))
     (map (\<lambda>(p, hs, v). the v) (filter (\<lambda>(p, hs, v). hs \<noteq> del) ls))"

lemma visible_simps [simp]:
  "visible H del r [] = []" "visible H del r (xs @ ys) = visible H del r xs @ visible H del r ys"
  "visible H del r (map (\<lambda>(p, x). (k # p, x)) ls) = visible H del r ls"
  by (simp_all add: visible_def filter_map comp_def split_beta)

lemma rangeQueryNode_visible:
  "\<forall>(p, hs, v)\<in>set (paths_of n). v = None \<longrightarrow> hs = del \<Longrightarrow>
    rangeQueryNode H del r n result = Some (result @ visible H del r (paths_of n))"
  "\<forall>(p, hs, v)\<in>set (kid_paths kids). v = None \<longrightarrow> hs = del \<Longrightarrow>
    range_kids H del r kids result = Some (result @ visible H del r (kid_paths kids))"
proof (induction H del r n result and H del r kids result rule: rangeQueryNode_range_kids.induct)
  case (1 H del r hs kids v lf d result)
  then show ?case by (auto simp: visible_def)
next
  case (3 H del r k c kids result)
  have "\<forall>(p, hs, v)\<in>set (paths_of c). v = None \<longrightarrow> hs = del" "\<forall>(p, hs, v)\<in>set (kid_paths kids). v = None \<longrightarrow> hs = del"
    using 3(3) by (simp_all add: ball_Un split_beta)
  with 3(1,2) show ?case by simp
qed simp

end
