(* ===== verification/RangeSpec.thy ===== *)
theory RangeSpec
  imports Range
begin

text \<open>
  What a range query sees in the node tree. \<open>ghost_ok\<close> is the invariant that a clean node has no leaf
  below it that carries an item and still the tombstone hash, so that right after \<^verbatim>\<open>ComputeRoot\<close> a
  query sees every leaf; \<open>paths_of\<close> lists the leaves with their paths.
\<close>

subsection \<open>Leaves by path\<close>

lemma kid_paths_map:
  "map_of (kid_paths kids) [] = None"
  "distinct (map fst kids) \<Longrightarrow> map_of (kid_paths kids) (k # p) =
    (case map_of kids k of None \<Rightarrow> None | Some c \<Rightarrow> map_of (paths_of c) p)"
proof -
  have cons: "map_of (map (\<lambda>(p, x). (k # p, x)) ls) q = (if q \<noteq> [] \<and> hd q = k then map_of ls (tl q) else None)"
    for k :: u8 and ls :: "(u8 list \<times> bytes \<times> 'a option) list" and q
    by (induction ls) (auto simp: neq_Nil_conv)
  show "map_of (kid_paths kids) [] = None"
    by (induction kids) (auto simp: map_add_def cons)
  show "map_of (kid_paths kids) (k # p) = (case map_of kids k of None \<Rightarrow> None | Some c \<Rightarrow> map_of (paths_of c) p)"
    if "distinct (map fst kids)"
    using that
  proof (induction kids)
    case (Cons kc kids)
    obtain j c where kc: "kc = (j, c)" by (cases kc)
    show ?case
    proof (cases "j = k")
      case True
      then have "map_of kids k = None" using Cons.prems kc by (simp add: map_of_eq_None_iff)
      then have "map_of (kid_paths kids) (k # p) = None" using Cons by simp
      then show ?thesis using True kc by (simp add: map_add_def cons split: option.split)
    next
      case False
      then show ?thesis using Cons kc by (simp add: map_add_def cons split: option.split)
    qed
  qed simp
qed

lemma kid_paths_keys:
  "fst ` set (kid_paths kids) = (\<Union>kc\<in>set kids. (#) (fst kc) ` fst ` set (paths_of (snd kc)))"
proof (induction kids)
  case (Cons kc kids)
  then show ?case by (cases kc) (simp add: image_Un image_image split_beta)
qed simp

lemma distinct_kid_paths:
  "distinct (map fst kids) \<Longrightarrow> \<forall>kc\<in>set kids. distinct (map fst (paths_of (snd kc))) \<Longrightarrow>
    distinct (map fst (kid_paths kids))"
proof (induction kids)
  case (Cons kc kids)
  obtain k c where kc: "kc = (k, c)" by (cases kc)
  have "distinct (map fst (map (\<lambda>(p, x). (k # p, x)) (paths_of c)))"
    using Cons.prems(2) kc by (simp add: comp_def split_beta distinct_map inj_on_def)
  moreover have "fst ` set (map (\<lambda>(p, x). (k # p, x)) (paths_of c)) \<inter> fst ` set (kid_paths kids) = {}"
    using Cons.prems(1) kc by (auto simp: kid_paths_keys image_image split_beta)
  moreover have "distinct (map fst (kid_paths kids))" using Cons by simp
  ultimately show ?case using kc by (simp add: image_image)
qed simp

text \<open>A leaf without an item carries the tombstone.\<close>

definition tombs :: "bytes \<Rightarrow> (u8 list \<times> bytes \<times> 'a option) list \<Rightarrow> bool" where
  "tombs del ls \<longleftrightarrow> (\<forall>(p, hs, v)\<in>set ls. v = None \<longrightarrow> hs = del)"

lemma tombs_simps [simp]:
  "tombs del []" "tombs del [(p, hs, v)] \<longleftrightarrow> (v = None \<longrightarrow> hs = del)"
  "tombs del (xs @ ys) \<longleftrightarrow> tombs del xs \<and> tombs del ys"
  "tombs del (map (\<lambda>(p, x). (k # p, x)) ls) \<longleftrightarrow> tombs del ls"
  by (auto simp: tombs_def ball_Un split_beta)

lemma paths_of_ok:
  "node_ok h H del m n \<Longrightarrow> distinct (map fst (paths_of n))
    \<and> (\<forall>p. map_of (paths_of n) p = (if length p = m then map_option (\<lambda>l. (nd_Hash l, nd_Value l)) (find p n) else None))
    \<and> tombs del (paths_of n)"
proof (induction m arbitrary: n)
  case 0
  then show ?case by (cases n) auto
next
  case (Suc m)
  obtain hs kids v lf d where n: "n = Node hs kids v lf d" by (cases n)
  have kids: "\<not> lf" "distinct (map fst kids)" "\<forall>kc\<in>set kids. node_ok h H del m (snd kc)" using Suc.prems n by auto
  have "distinct (map fst (kid_paths kids))" using distinct_kid_paths kids Suc.IH by blast
  moreover have "map_of (kid_paths kids) p =
      (if length p = Suc m then map_option (\<lambda>l. (nd_Hash l, nd_Value l)) (find p n) else None)" for p
  proof (cases p)
    case Nil
    then show ?thesis by (simp add: kid_paths_map(1))
  next
    case (Cons k q)
    show ?thesis
    proof (cases "map_of kids k")
      case None
      then show ?thesis using kids n Cons by (simp add: kid_paths_map(2))
    next
      case (Some c)
      then have "node_ok h H del m c" using kids(3) by (force dest: map_of_SomeD)
      then show ?thesis using Suc.IH Some kids n Cons by (simp add: kid_paths_map(2))
    qed
  qed
  moreover have "\<forall>kc\<in>set kids. tombs del (paths_of (snd kc))" using Suc.IH kids(3) by blast
  then have "tombs del (kid_paths kids)" by (induction kids) auto
  ultimately show ?case using n kids(1) by simp
qed

subsection \<open>Tombstones under new items\<close>

definition settled :: "bytes \<Rightarrow> (u8 list \<times> bytes \<times> 'a option) list \<Rightarrow> bool" where
  "settled del ls \<longleftrightarrow> (\<forall>(p, hs, v)\<in>set ls. v \<noteq> None \<longrightarrow> hs \<noteq> del)"

lemma settled_simps [simp]:
  "settled del []" "settled del [(p, hs, v)] \<longleftrightarrow> v = None \<or> hs \<noteq> del"
  "settled del (xs @ ys) \<longleftrightarrow> settled del xs \<and> settled del ys"
  "settled del (map (\<lambda>(p, x). (k # p, x)) ls) \<longleftrightarrow> settled del ls"
  by (auto simp: settled_def ball_Un split_beta)

fun ghost_ok :: "'a hashable \<Rightarrow> bytes \<Rightarrow> 'a node \<Rightarrow> bool"
and ghost_kids :: "'a hashable \<Rightarrow> bytes \<Rightarrow> (u8 \<times> 'a node) list \<Rightarrow> bool" where
  "ghost_ok H del (Node hs kids v lf d) \<longleftrightarrow> leaf_hash H zero32 v \<noteq> del
    \<and> (\<not> d \<and> hs \<noteq> zero32 \<longrightarrow> settled del (paths_of (Node hs kids v lf d))) \<and> ghost_kids H del kids"
| "ghost_kids H del [] \<longleftrightarrow> True"
| "ghost_kids H del ((k, c) # kids) \<longleftrightarrow> ghost_ok H del c \<and> ghost_kids H del kids"

lemma ghost_kids_iff: "ghost_kids H del kids \<longleftrightarrow> (\<forall>kc\<in>set kids. ghost_ok H del (snd kc))"
  by (induction kids) auto

lemma ghost_ins:
  "ghost_ok H del n \<Longrightarrow> h_Hash H item \<noteq> del \<Longrightarrow> del \<noteq> zero32 \<Longrightarrow> ghost_ok H del (ins_path p item n)"
proof (induction p item n rule: ins_path.induct)
  case (1 item n)
  then show ?case by (cases n) (simp add: leaf_hash_def)
next
  case (2 k p item hs kids v lf d)
  let ?c = "case map_of kids k of Some c \<Rightarrow> c | None \<Rightarrow> Node zero32 [] None (p = []) False"
  have "ghost_ok H del ?c" using 2(2,4) by (auto simp: ghost_kids_iff leaf_hash_def split: option.split dest!: map_of_SomeD)
  then have "ghost_ok H del (ins_path p item ?c)" using 2 by blast
  then have "ghost_kids H del (AList.update k (ins_path p item ?c) kids)"
    using 2(2) alist_update_subset [of k "ins_path p item ?c" kids] by (auto simp: ghost_kids_iff)
  then show ?case using 2(2) by simp
qed

lemma ghost_del:
  "ghost_ok H del n \<Longrightarrow> del \<noteq> zero32 \<Longrightarrow> ghost_ok H del (del_path del p n)"
proof (induction del p n rule: del_path.induct)
  case (1 del n)
  then show ?case by (cases n) (auto simp: leaf_hash_def)
next
  case (2 del k p hs kids v lf d)
  show ?case
  proof (cases "map_of kids k")
    case (Some c)
    then have "ghost_ok H del c" using 2(2) by (force simp: ghost_kids_iff dest: map_of_SomeD)
    then have "ghost_kids H del (AList.update k (del_path del p c) kids)"
      using 2 Some alist_update_subset [of k "del_path del p c" kids] by (auto simp: ghost_kids_iff)
    then show ?thesis using 2(2) Some by simp
  qed (use 2 in simp)
qed

lemma hash_leaves_settled:
  "hash_leaves H n = Some n' \<Longrightarrow> ghost_ok H del n \<Longrightarrow> ghost_ok H del n' \<and> settled del (paths_of n')"
  "hash_kid_leaves H kids = Some kids' \<Longrightarrow> ghost_kids H del kids \<Longrightarrow>
    ghost_kids H del kids' \<and> settled del (kid_paths kids')"
proof (induction H n and H kids arbitrary: n' and kids' rule: hash_leaves_hash_kid_leaves.induct)
  case (1 H hs kids v lf d)
  then show ?case by (auto simp: leaf_hash_def split: if_splits option.splits)
qed (auto split: option.splits)

lemma computeNodeHash_settled:
  "computeNodeHash h H N D depth par n = Some (r, n') \<Longrightarrow> ghost_ok H del n \<Longrightarrow>
    ghost_ok H del n' \<and> settled del (paths_of n')"
  "compute_kids h H N D depth par batch kids = Some ks \<Longrightarrow> ghost_kids H del kids \<Longrightarrow>
    batch \<longrightarrow> settled del (kid_paths kids) \<Longrightarrow>
    ghost_kids H del (map (\<lambda>(k, hash, c). (k, c)) ks) \<and> settled del (kid_paths (map (\<lambda>(k, hash, c). (k, c)) ks))"
proof (induction h H N D depth par n and h H N D depth par batch kids arbitrary: r n' and ks
    rule: computeNodeHash_compute_kids.induct)
  case (1 h H N D depth par hs kids v lf d)
  show ?case
  proof (cases "(\<not> d \<and> hs \<noteq> zero32) \<or> lf \<or> kids = []")
    case True
    then show ?thesis using 1(2,3) by (auto simp: leaf_hash_def split: if_splits option.splits)
  next
    case False
    define batch where "batch \<longleftrightarrow> use_batch N D par depth (length kids) \<and> 16 \<le> count_kid_leaves kids"
    from 1(2) False obtain kids1 ks where k: "run_batch H batch kids = Some kids1"
      "compute_kids h H N D (depth + 1) (use_parallel N par depth (length kids)) batch kids1 = Some ks"
      "n' = Node r (map (\<lambda>(k, hash, c). (k, c)) ks) v lf False"
      by (auto simp: batch_def Let_def split: option.splits if_splits)
    have "ghost_kids H del kids1 \<and> (batch \<longrightarrow> settled del (kid_paths kids1))"
    proof (cases batch)
      case True
      then show ?thesis using hash_leaves_settled(2) [of H kids kids1 del] k(1) 1(3) by (simp add: run_batch_def)
    qed (use k(1) 1(3) in \<open>simp add: run_batch_def\<close>)
    with 1(1) [of batch kids1 ks] False k(1,2) 1(3) show ?thesis unfolding k(3) by (simp add: batch_def)
  qed
next
  case (3 h H N D depth par batch k c kids)
  from 3(3) obtain hash c' ks' where c': "(if batch \<and> nd_IsLeaf c then Some (nd_Hash c, c) else computeNodeHash h H N D depth par c) = Some (hash, c')"
    "compute_kids h H N D depth par batch kids = Some ks'" "ks = (k, hash, c') # ks'"
    by (auto split: option.splits)
  have "ghost_ok H del c' \<and> settled del (paths_of c')"
  proof (cases "batch \<and> nd_IsLeaf c")
    case True
    then show ?thesis using c'(1) 3(4,5) by simp
  next
    case False
    then have "computeNodeHash h H N D depth par c = Some (hash, c')" using c'(1) by (simp split: if_splits)
    then show ?thesis using 3(1) [OF False] 3(4) by simp
  qed
  moreover have "ghost_kids H del (map (\<lambda>(k, hash, c). (k, c)) ks') \<and> settled del (kid_paths (map (\<lambda>(k, hash, c). (k, c)) ks'))"
    using 3(2) [OF c'(1) refl c'(2)] 3(4,5) by simp
  ultimately show ?case unfolding c'(3) by simp
qed simp

end
