(* ===== verification/RangeTheorems.thy ===== *)
theory RangeTheorems
  imports RangeSpec
begin

text \<open>
  Properties of range queries on a tree reached by operations: which items a query returns, that
  the parallel versions return the same, and that a re-inserted item is missed until the next
  \<^verbatim>\<open>ComputeRoot\<close>. \<open>matched\<close> links the leaves to the stored items when no paths collide.
\<close>

subsection \<open>The tombstone invariant of a tree\<close>

definition tree_ghost :: "(bytes \<Rightarrow> bytes) \<Rightarrow> 'a hashable \<Rightarrow> 'a tree \<Rightarrow> bool" where
  "tree_ghost h H t \<longleftrightarrow> ghost_ok H (DeletedNodeHash h) (t_root t)
    \<and> (t_rootCacheValid t \<longrightarrow> settled (DeletedNodeHash h) (paths_of (t_root t)))"

abbreviation avoids :: "(bytes \<Rightarrow> bytes) \<Rightarrow> 'a hashable \<Rightarrow> 'a \<Rightarrow> bool" where
  "avoids h H x \<equiv> h_Hash H x \<noteq> DeletedNodeHash h"

lemma place_item_root:
  assumes "place_item H x t = Some t'" "depth_fits H (t_maxDepth t) x"
  shows "t_root t' = ins_path (path_in H t x) x (t_root t)" "t_maxDepth t' = t_maxDepth t"
    "t_rootCacheValid t' = t_rootCacheValid t"
proof -
  obtain a where "insertNode H (t_maxDepth t) x 0 (t_root t)
      = Some (ins_path (path_in H t x) x (t_root t), length (path_in H t x), a)"
    using insertNode_path [OF assms(2), of 0 "t_root t"] by auto
  with assms(1) show "t_root t' = ins_path (path_in H t x) x (t_root t)" "t_maxDepth t' = t_maxDepth t"
    "t_rootCacheValid t' = t_rootCacheValid t" by (auto simp: place_item_def)
qed

lemma erase_item_root:
  assumes "erase_item h H x t = Some t'" "depth_fits H (t_maxDepth t) x"
  shows "t_root t' = del_path (DeletedNodeHash h) (path_in H t x) (t_root t)" "t_maxDepth t' = t_maxDepth t"
proof -
  obtain m k where "deleteNode H (DeletedNodeHash h) (t_maxDepth t) x 0 (t_root t)
      = Some (del_path (DeletedNodeHash h) (path_in H t x) (t_root t), m, k)"
    using deleteNode_path [OF assms(2), of 0 "DeletedNodeHash h" "t_root t"] by auto
  with assms(1) show "t_root t' = del_path (DeletedNodeHash h) (path_in H t x) (t_root t)" "t_maxDepth t' = t_maxDepth t"
    by (auto simp: erase_item_def)
qed

lemma place_items_ghost:
  assumes del: "DeletedNodeHash h \<noteq> zero32"
  shows "each_item (place_item H) xs t = Some t' \<Longrightarrow> \<forall>x\<in>set xs. depth_fits H (t_maxDepth t) x \<and> avoids h H x \<Longrightarrow>
    ghost_ok H (DeletedNodeHash h) (t_root t) \<Longrightarrow> ghost_ok H (DeletedNodeHash h) (t_root t')"
proof (induction xs arbitrary: t)
  case (Cons x xs)
  from Cons.prems(1) obtain t1 where t1: "place_item H x t = Some t1" "each_item (place_item H) xs t1 = Some t'"
    by (auto split: option.splits)
  note root = place_item_root [OF t1(1)]
  show ?case using Cons.IH [OF t1(2)] root Cons.prems(2,3) ghost_ins [OF Cons.prems(3) _ del, of x] by simp
qed simp

lemma erase_items_ghost:
  assumes del: "DeletedNodeHash h \<noteq> zero32"
  shows "each_item (erase_item h H) xs t = Some t' \<Longrightarrow> \<forall>x\<in>set xs. depth_fits H (t_maxDepth t) x \<Longrightarrow>
    ghost_ok H (DeletedNodeHash h) (t_root t) \<Longrightarrow> ghost_ok H (DeletedNodeHash h) (t_root t')"
proof (induction xs arbitrary: t)
  case (Cons x xs)
  from Cons.prems(1) obtain t1 where t1: "erase_item h H x t = Some t1" "each_item (erase_item h H) xs t1 = Some t'"
    by (auto split: option.splits)
  note root = erase_item_root [OF t1(1)]
  show ?case using Cons.IH [OF t1(2)] root Cons.prems(2,3) ghost_del [OF Cons.prems(3) del] by simp
qed simp

lemma store_items_root: "t_root (store_items H xs n t) = t_root t" "t_maxDepth (store_items H xs n t) = t_maxDepth t"
  using same_nodes_store [of t H xs] by (simp_all add: store_items_def Let_def same_nodes_def)

fun op_avoids :: "(bytes \<Rightarrow> bytes) \<Rightarrow> 'a hashable \<Rightarrow> 'a tree_op \<Rightarrow> bool" where
  "op_avoids h H (OpInsert x) \<longleftrightarrow> avoids h H x"
| "op_avoids h H (OpInsertBatch xs) \<longleftrightarrow> list_all (avoids h H) xs"
| "op_avoids h H _ \<longleftrightarrow> True"

lemma Insert_ghost:
  assumes "Insert H x t = Some t'" "depth_fits H (t_maxDepth t) x" "avoids h H x" "tree_ghost h H t" "DeletedNodeHash h \<noteq> zero32"
  shows "tree_ghost h H t'"
proof -
  let ?t1 = "t\<lparr>t_items := AList.update (h_ID H x) x (t_items t), t_itemCount := t_itemCount t + 1,
     t_cache := sharded_put (h_ID H x) x (t_cache t)\<rparr>"
  from assms(1) obtain t2 where t2: "place_item H x ?t1 = Some t2" "t_root t' = t_root t2" "\<not> t_rootCacheValid t'"
    by (auto simp: Insert_def Let_def split: option.splits)
  then have "t_root t' = ins_path (path_in H t x) x (t_root t)" using place_item_root(1) [OF t2(1)] assms(2) by simp
  then show ?thesis using t2(3) assms(3-5) by (simp add: tree_ghost_def ghost_ins)
qed

lemma InsertBatch_ghost:
  assumes "InsertBatch H N s1 s2 xs t = Some t'" "0 < N" "fair s1" "fair s2" "grouping_fits H xs"
    "\<forall>x\<in>set xs. depth_fits H (t_maxDepth t) x \<and> avoids h H x" "tree_ghost h H t" "DeletedNodeHash h \<noteq> zero32"
  shows "tree_ghost h H t'"
proof (cases "xs = []")
  case False
  from InsertBatch_order [OF False assms(2-5), of t] obtain ys zs where o: "mset zs = mset xs"
    and "InsertBatch H N s1 s2 xs t = map_option (\<lambda>t'. t'\<lparr>t_batchInsertCount := t_batchInsertCount t' + 1\<rparr>)
        (map_option invalidate (each_item (place_item H) zs (store_items H ys (length xs) t)))" by blast
  then obtain t2 where
    t2: "each_item (place_item H) zs (store_items H ys (length xs) t) = Some t2" "t_root t' = t_root t2" "\<not> t_rootCacheValid t'"
    using assms(1) by (cases "each_item (place_item H) zs (store_items H ys (length xs) t)") (auto simp: invalidate_def)
  have "set zs = set xs" using o by (metis set_mset_mset)
  then show ?thesis
    using place_items_ghost [OF assms(8) t2(1)] assms(6,7) t2(2,3) by (simp add: tree_ghost_def store_items_root)
qed (use assms in \<open>simp add: InsertBatch_def\<close>)

lemma DeleteItem_root:
  assumes "DeleteItem h H i t = Some (b, t')" "map_of (t_items t) i = Some x" "depth_fits H (t_maxDepth t) x"
  shows "t_root t' = del_path (DeletedNodeHash h) (path_in H t x) (t_root t)" "\<not> t_rootCacheValid t'"
proof -
  let ?t1 = "unstore_item H i x t"
  from assms(1,2) obtain t2 where t2: "erase_item h H x (?t1\<lparr>t_itemCount := t_itemCount ?t1 + NOT 0\<rparr>) = Some t2"
    "t_root t' = t_root t2" "\<not> t_rootCacheValid t'" by (auto simp: DeleteItem_def Let_def invalidate_def)
  then show "t_root t' = del_path (DeletedNodeHash h) (path_in H t x) (t_root t)" "\<not> t_rootCacheValid t'"
    using erase_item_root(1) [OF t2(1)] assms(3) by (simp_all add: unstore_item_def)
qed

lemma DeleteItem_ghost:
  assumes "DeleteItem h H i t = Some (b, t')" "\<forall>(i, x)\<in>set (t_items t). depth_fits H (t_maxDepth t) x"
    "tree_ghost h H t" "DeletedNodeHash h \<noteq> zero32"
  shows "tree_ghost h H t'"
proof (cases "map_of (t_items t) i")
  case (Some x)
  then have "depth_fits H (t_maxDepth t) x" using assms(2) by (auto dest: map_of_SomeD)
  then show ?thesis using DeleteItem_root [OF assms(1) Some] assms(3,4) by (simp add: tree_ghost_def ghost_del)
qed (use assms in \<open>simp add: DeleteItem_def\<close>)

lemma ComputeRoot_settled:
  assumes "ComputeRoot N h H t = Some (root, t')" "tree_ghost h H t"
  shows "tree_ghost h H t'" "settled (DeletedNodeHash h) (paths_of (t_root t'))"
proof -
  have "ghost_ok H (DeletedNodeHash h) (t_root t') \<and> settled (DeletedNodeHash h) (paths_of (t_root t'))"
  proof (cases "t_rootCacheValid t")
    case True
    then show ?thesis using assms by (simp add: ComputeRoot_def tree_ghost_def)
  next
    case False
    then obtain n where "computeNodeHash h H N (t_maxDepth t) 0 True (t_root t) = Some (root, n)" "t_root t' = n"
      using assms(1) by (auto simp: ComputeRoot_def compute_step_def publish_step_def)
    then show ?thesis using computeNodeHash_settled(1) [of h H N _ _ _ "t_root t" root n] assms(2)
      unfolding tree_ghost_def by blast
  qed
  then show "tree_ghost h H t'" "settled (DeletedNodeHash h) (paths_of (t_root t'))" by (simp_all add: tree_ghost_def)
qed

lemma DeleteBatch_ghost:
  assumes "DeleteBatch h H N s dead t = Some (k, t')" "tree_ghost h H t" "items_rep H t its" "0 < N" "fair s"
    "DeletedNodeHash h \<noteq> zero32"
  shows "tree_ghost h H t'"
proof -
  let ?xs = "abs_collect dead its"
  from collect_deletions_rep [OF assms(3), of dead "[]"] obtain t1 where
    c: "collect_deletions H dead ([], t) = (?xs, t1)" "same_nodes t t1" "?xs = [] \<longrightarrow> t1 = t" "set ?xs \<subseteq> snd ` set its" by auto
  show ?thesis
  proof (cases "?xs = []")
    case True
    then have "t' = t" using assms(1) c by (auto simp: DeleteBatch_def split: if_splits)
    then show ?thesis using assms(2) by simp
  next
    case False
    let ?t2 = "t1\<lparr>t_itemCount := t_itemCount t1 + NOT (of_nat (length ?xs - 1))\<rparr>"
    let ?order = "if length ?xs < SmallBatchThreshold then ?xs
       else s (worker_chunks (delete_workers N (length ?xs)) ?xs)"
    have "0 < delete_workers N (length ?xs)" using assms(4) False by (simp add: delete_workers_def Let_def)
    then have "mset ?order = mset ?xs" using assms(5) by (simp add: fair_def concat_worker_chunks)
    then have so: "set ?order = set ?xs" by (metis set_mset_mset)
    from assms(1) c(1) False obtain t3 where t3: "each_item (erase_item h H) ?order ?t2 = Some t3" "t_root t' = t_root t3"
      "\<not> t_rootCacheValid t'" by (auto simp: DeleteBatch_def Let_def invalidate_def split: if_splits)
    have "t_root ?t2 = t_root t" "t_maxDepth ?t2 = t_maxDepth t" using c(2) by (simp_all add: same_nodes_def)
    moreover have "\<forall>x\<in>set ?order. depth_fits H (t_maxDepth t) x"
      using so c(4) assms(3) unfolding items_rep_def by fastforce
    ultimately show ?thesis using erase_items_ghost [OF assms(6) t3(1)] assms(2) t3(2,3) by (simp add: tree_ghost_def)
  qed
qed

lemma tree_step_ghost:
  assumes "tree_step h H R x t = Some t'" "tree_ghost h H t" "tree_rep h H t its lvs" "runtime_ok R"
    "op_fits H (t_maxDepth t) x" "op_avoids h H x" "DeletedNodeHash h \<noteq> zero32"
  shows "tree_ghost h H t'"
proof -
  have its: "items_rep H t its" "\<forall>(i, x)\<in>set (t_items t). depth_fits H (t_maxDepth t) x"
    using assms(3) by (auto simp: tree_rep_def items_rep_def)
  show ?thesis
  proof (cases x)
    case (OpInsert y)
    then show ?thesis using Insert_ghost [of H y t t' h] assms by simp
  next
    case (OpInsertBatch ys)
    have "grouping_fits H ys" using assms(5) OpInsertBatch
      by (auto simp: order_free_def grouping_fits_def ParallelBatchThreshold_def)
    then show ?thesis using OpInsertBatch InsertBatch_ghost [of H _ _ _ ys t t' h] assms
      by (auto simp: list_all_iff runtime_ok_def)
  next
    case (OpDelete i)
    then show ?thesis using DeleteItem_ghost [of h H i t _ t'] its assms by auto
  next
    case (OpDeleteBatch dead)
    then show ?thesis using DeleteBatch_ghost [of h H _ _ dead t _ t' its] its assms by (auto simp: runtime_ok_def)
  next
    case (OpGet i)
    then have "t_root t' = t_root t" "t_rootCacheValid t' = t_rootCacheValid t"
      using assms(1) by (auto simp: GetItem_def Let_def split: option.splits if_splits)
    then show ?thesis using assms(2) by (simp add: tree_ghost_def)
  next
    case OpComputeRoot
    then show ?thesis using ComputeRoot_settled(1) [of "rt_NumCPU R" h H t _ t'] assms by auto
  next
    case OpClear
    then have "t_root t' = alloc" "\<not> t_rootCacheValid t'" using assms(1) by (auto simp: ClearItems_def)
    then show ?thesis using assms(7) by (simp add: tree_ghost_def alloc_def leaf_hash_def)
  qed
qed

lemma tree_run_ghost:
  assumes "DeletedNodeHash h \<noteq> zero32" "runtime_ok R"
  shows "tree_run h H R xs t = Some t' \<Longrightarrow> tree_ghost h H t \<Longrightarrow> tree_rep h H t its lvs \<Longrightarrow>
    list_all (op_fits H (t_maxDepth t)) xs \<Longrightarrow> list_all (op_avoids h H) xs \<Longrightarrow> tree_ghost h H t'"
proof (induction xs arbitrary: t its lvs)
  case (Cons x xs)
  from Cons.prems(1) obtain t1 where t1: "tree_step h H R x t = Some t1" "tree_run h H R xs t1 = Some t'"
    by (auto split: option.splits)
  from tree_step_rep [OF Cons.prems(3) assms(2) _ assms(1), of x] Cons.prems(4) t1(1) obtain its1 lvs1 where
    "tree_rep h H t1 its1 lvs1" "t_maxDepth t1 = t_maxDepth t" by auto
  moreover have "tree_ghost h H t1" using tree_step_ghost [OF t1(1) Cons.prems(2,3) assms(2)] Cons.prems(4,5) assms(1) by simp
  ultimately show ?case using Cons.IH [OF t1(2)] Cons.prems(4,5) by simp
qed simp

lemma NewTree_ghost: "DeletedNodeHash h \<noteq> zero32 \<Longrightarrow> tree_ghost h H (NewTree cfg)"
  by (simp add: tree_ghost_def NewTree_def alloc_def leaf_hash_def Let_def)

subsection \<open>Leaves and items\<close>

text \<open>When items of a universe \<open>U\<close> have equal IDs exactly if they have equal paths, the leaves
  with items and the stored items are the same.\<close>

definition no_collision :: "'a hashable \<Rightarrow> int \<Rightarrow> 'a set \<Rightarrow> bool" where
  "no_collision H D U \<longleftrightarrow> (\<forall>x\<in>U. \<forall>y\<in>U. h_ID H x = h_ID H y \<longleftrightarrow> path_of H D x = path_of H D y)"

definition matched :: "'a hashable \<Rightarrow> int \<Rightarrow> 'a set \<Rightarrow> 'a abs_tree \<Rightarrow> bool" where
  "matched H D U s \<longleftrightarrow>
    (\<forall>i x. map_of (fst s) i = Some x \<longrightarrow> x \<in> U \<and> h_ID H x = i \<and> map_of (snd s) (path_of H D x) = Some (Some x))
    \<and> (\<forall>p x. map_of (snd s) p = Some (Some x) \<longrightarrow> x \<in> U \<and> path_of H D x = p \<and> map_of (fst s) (h_ID H x) = Some x)"

lemma matched_same: "same_maps s s' \<Longrightarrow> matched H D U s = matched H D U s'"
  by (simp add: matched_def same_maps_def)

lemma matched_insert:
  assumes "matched H D U (its, lvs)" "no_collision H D U" "x \<in> U"
  shows "matched H D U (store_pair H x its, place_leaf H D x lvs)"
  using assms unfolding matched_def no_collision_def store_pair_def place_leaf_def
  by (simp add: update_conv') metis

lemma matched_delete:
  assumes "matched H D U (its, lvs)" "no_collision H D U" "map_of its i = Some x"
  shows "matched H D U (AList.delete i its, erase_leaf H D x lvs)"
  using assms unfolding matched_def no_collision_def erase_leaf_def
  by (simp add: update_conv' delete_conv') metis

fun op_items :: "'a tree_op \<Rightarrow> 'a list" where
  "op_items (OpInsert x) = [x]"
| "op_items (OpInsertBatch xs) = xs"
| "op_items _ = []"

lemma matched_batch:
  "no_collision H D U \<Longrightarrow> matched H D U (its, lvs) \<Longrightarrow> set xs \<subseteq> U \<Longrightarrow>
    matched H D U (fold (store_pair H) xs its, fold (place_leaf H D) xs lvs)"
  by (induction xs arbitrary: its lvs) (simp_all add: matched_insert)

lemma matched_delete_batch:
  "no_collision H D U \<Longrightarrow> matched H D U (its, lvs) \<Longrightarrow>
    matched H D U (fold AList.delete dead its, fold (erase_leaf H D) (abs_collect dead its) lvs)"
proof (induction dead arbitrary: its lvs)
  case (Cons i dead)
  show ?case
  proof (cases "map_of its i")
    case None
    then have "AList.delete i its = its" by (simp add: delete_absent map_of_eq_None_iff)
    then show ?thesis using Cons None by simp
  next
    case (Some x)
    then show ?thesis using Cons.IH [OF Cons.prems(1) matched_delete [OF Cons.prems(2,1) Some]] by simp
  qed
qed simp

lemma matched_run:
  "no_collision H D U \<Longrightarrow> matched H D U s \<Longrightarrow> \<forall>x\<in>set ops. set (op_items x) \<subseteq> U \<Longrightarrow>
    matched H D U (fold (abs_op H D) ops s)"
proof (induction ops arbitrary: s)
  case (Cons x ops)
  have empty: "matched H D U ([], [])" by (simp add: matched_def)
  obtain its lvs where s: "s = (its, lvs)" by (cases s)
  have "matched H D U (abs_op H D x s)"
    using Cons.prems s empty
    by (cases x) (auto simp: matched_insert matched_batch matched_delete_batch matched_delete split: option.split)
  then show ?case using Cons by simp
qed simp

subsection \<open>Exact results\<close>

lemma leaves_eq:
  assumes "tree_rep h H t its lvs"
  shows "distinct (map fst (paths_of (t_root t)))" "tombs (DeletedNodeHash h) (paths_of (t_root t))"
    "map_of lvs p = map_option snd (map_of (paths_of (t_root t)) p)"
proof -
  have n: "node_ok h H (DeletedNodeHash h) (levels t) (t_root t)"
    and lv: "map_of lvs p = (if length p = levels t then value_at (t_root t) p else None)"
    using assms by (auto simp: tree_rep_def nodes_rep_def)
  note paths_of_ok [OF n]
  then show "distinct (map fst (paths_of (t_root t)))" "tombs (DeletedNodeHash h) (paths_of (t_root t))"
    "map_of lvs p = map_option snd (map_of (paths_of (t_root t)) p)"
    using lv by (simp_all add: value_at_def option.map_comp comp_def)
qed

lemma RangeQuery_visible:
  assumes "tree_rep h H t its lvs" "r_start r \<noteq> []" "r_end r \<noteq> []"
  shows "RangeQuery h H r t = Some (sort_key (h_ID H) (visible H (DeletedNodeHash h) r (paths_of (t_root t))))"
  using rangeQueryNode_visible(1) [of "t_root t" "DeletedNodeHash h" H r "[]"] leaves_eq(2) [OF assms(1)] assms(2,3)
  by (simp add: RangeQuery_def tombs_def)

lemma leaf_memD:
  assumes "tree_rep h H t its lvs" "(p, hs, v) \<in> set (paths_of (t_root t))"
  shows "map_of lvs p = Some v"
  using leaves_eq(1,3) [OF assms(1)] assms(2) by simp

lemma visible_items:
  assumes t: "tree_rep h H t its lvs" and m: "matched H (t_maxDepth t) U (its, lvs)"
    and inj: "no_collision H (t_maxDepth t) U" and set: "settled (DeletedNodeHash h) (paths_of (t_root t))"
  shows "sort_key (h_ID H) (visible H (DeletedNodeHash h) r (paths_of (t_root t)))
    = sort_key (h_ID H) (filter (\<lambda>x. in_range r (h_Key H x)) (map snd its))"
proof (rule sort_key_unique)
  let ?del = "DeletedNodeHash h" and ?L = "paths_of (t_root t)" and ?D = "t_maxDepth t"
  let ?S = "filter (\<lambda>(p, hs, v). hs \<noteq> ?del) ?L"
  have shown: "\<exists>x. v = Some x \<and> x \<in> U \<and> path_of H ?D x = p \<and> map_of its (h_ID H x) = Some x"
    if "(p, hs, v) \<in> set ?S" for p hs v
  proof -
    have "v \<noteq> None" using that leaves_eq(2) [OF t] by (auto simp: tombs_def)
    then obtain x where x: "v = Some x" by blast
    then have "map_of lvs p = Some (Some x)" using leaf_memD [OF t] that by auto
    then show ?thesis using m x by (auto simp: matched_def)
  qed
  have "distinct (map fst ?S)" using leaves_eq(1) [OF t] by (rule distinct_map_filter)
  then have "distinct ?S" "inj_on fst (set ?S)" by (simp_all add: distinct_map)
  moreover have "inj_on (\<lambda>(p, hs, v). h_ID H (the v)) (set ?S)"
  proof (rule inj_onI)
    fix a b assume ab: "a \<in> set ?S" "b \<in> set ?S" "(\<lambda>(p, hs, v). h_ID H (the v)) a = (\<lambda>(p, hs, v). h_ID H (the v)) b"
    obtain p hs v p' hs' v' where t: "a = (p, hs, v)" "b = (p', hs', v')" by (cases a, cases b)
    with ab shown [of p hs v] shown [of p' hs' v'] inj have "p = p'" by (auto simp: no_collision_def)
    then show "a = b" using inj_onD [OF \<open>inj_on fst (set ?S)\<close> _ ab(1,2)] t by simp
  qed
  ultimately have "distinct (map (\<lambda>(p, hs, v). h_ID H (the v)) ?S)" by (simp only: distinct_map)
  moreover have "map (h_ID H) (map (\<lambda>(p, hs, v). the v) ?S) = map (\<lambda>(p, hs, v). h_ID H (the v)) ?S" by auto
  ultimately have "distinct (map (h_ID H) (map (\<lambda>(p, hs, v). the v) ?S))" by (simp only:)
  then show "distinct (map (h_ID H) (visible H ?del r ?L))" unfolding visible_def by (rule distinct_map_filter)
  have its: "distinct (map fst its)" "\<forall>(i, x)\<in>set its. h_ID H x = i" using t by (auto simp: tree_rep_def items_rep_def)
  have "map (h_ID H) (map snd its) = map fst its" using its(2) by auto
  then have "distinct (map (h_ID H) (map snd its))" using its(1) by (simp only:)
  then show "distinct (map (h_ID H) (filter (\<lambda>x. in_range r (h_Key H x)) (map snd its)))"
    by (rule distinct_map_filter)
  have "x \<in> (\<lambda>(p, hs, v). the v) ` set ?S \<longleftrightarrow> x \<in> snd ` set its" for x
  proof
    assume "x \<in> (\<lambda>(p, hs, v). the v) ` set ?S"
    then obtain p hs v where "(p, hs, v) \<in> set ?S" "x = the v" by auto
    with shown have "map_of its (h_ID H x) = Some x" by fastforce
    then show "x \<in> snd ` set its" by (force dest: map_of_SomeD)
  next
    assume "x \<in> snd ` set its"
    then obtain i where "map_of its i = Some x" using its(1) by auto
    then have "map_of lvs (path_of H ?D x) = Some (Some x)" using m by (auto simp: matched_def)
    then obtain hs where "map_of ?L (path_of H ?D x) = Some (hs, Some x)" using leaves_eq(3) [OF t, of "path_of H ?D x"] by auto
    then have mem: "(path_of H ?D x, hs, Some x) \<in> set ?L" by (rule map_of_SomeD)
    with set have "hs \<noteq> ?del" by (auto simp: settled_def)
    with mem show "x \<in> (\<lambda>(p, hs, v). the v) ` set ?S" by force
  qed
  then show "set (visible H ?del r ?L) = set (filter (\<lambda>x. in_range r (h_Key H x)) (map snd its))"
    unfolding visible_def set_filter list.set_map by blast
qed

abbreviation ops_items :: "'a tree_op list \<Rightarrow> 'a set" where
  "ops_items ops \<equiv> set (concat (map op_items ops))"

text \<open>C26. After any operations on a tree, when inserted items have equal IDs exactly if they have equal paths, a range
  query that follows \<^verbatim>\<open>ComputeRoot\<close> returns exactly the stored items whose key lies in the range, in
  the order of their IDs. Besides the guard of the operations (\<open>op_fits\<close>: batches of 150 items and more have distinct
  IDs and paths and keys within the grouping table), no inserted item hashes to the tombstone (\<open>op_avoids\<close>), by which the code
  recognises a deleted leaf, and both bounds of the range are non-empty.\<close>

theorem range_query_exact:
  fixes H :: "'a hashable"
  assumes "CacheShards cfg < 63" "runtime_ok R" "list_all (op_fits H (MaxDepth cfg)) ops"
    "DeletedNodeHash h \<noteq> zero32" "tree_run h H R ops (NewTree (Some cfg)) = Some t"
    and "list_all (op_avoids h H) ops" "no_collision H (MaxDepth cfg) (ops_items ops)"
    and "ComputeRoot N h H t = Some (root, t1)" "r_start r \<noteq> []" "r_end r \<noteq> []"
  shows "RangeQuery h H r t1
    = Some (sort_key (h_ID H) (filter (\<lambda>x. in_range r (h_Key H x)) (GetAllItems t)))"
proof -
  let ?D = "MaxDepth cfg" and ?s = "abs_run H cfg ops"
  obtain its where t: "t_maxDepth t = ?D" "tree_rep h H t its (snd ?s)" "map_of its = map_of (fst ?s)"
    using run_new [OF assms(1-4)] assms(5) by auto
  from ComputeRoot_rep [OF t(2) assms(4), of N] assms(8) have
    t1: "tree_rep h H t1 its (snd ?s)" "t_maxDepth t1 = ?D" by (auto simp: t(1))
  have "t_maxDepth (NewTree (Some cfg) :: 'a tree) = ?D" by (simp add: NewTree_def Let_def)
  then have "tree_ghost h H t"
    using tree_run_ghost [OF assms(4,2,5) NewTree_ghost [OF assms(4)] NewTree_rep [OF assms(1)]] assms(3,6) by simp
  then have set: "settled (DeletedNodeHash h) (paths_of (t_root t1))" using ComputeRoot_settled(2) assms(8) by blast
  have "matched H ?D (ops_items ops) ?s"
    using assms(7) by (rule matched_run) (auto simp: matched_def)
  then have "matched H (t_maxDepth t1) (ops_items ops) (its, snd ?s)"
    using matched_same [of "(its, snd ?s)" ?s] t(3) by (simp add: t1(2) same_maps_def)
  from visible_items [OF t1(1) this _ set, of r] assms(7) t1(2)
  have "sort_key (h_ID H) (visible H (DeletedNodeHash h) r (paths_of (t_root t1)))
    = sort_key (h_ID H) (filter (\<lambda>x. in_range r (h_Key H x)) (map snd its))" by simp
  moreover have "GetAllItems t = map snd its" using t(2) by (simp add: GetAllItems_def tree_rep_def items_rep_def)
  ultimately show ?thesis using RangeQuery_visible [OF t1(1) assms(9,10)] by simp
qed

text \<open>With keys that encode the ID, \<^verbatim>\<open>RangeQueryByID\<close> selects by the numeric value of the ID, each
  bound being included or not as asked.\<close>

theorem range_query_by_id:
  fixes H :: "'a hashable"
  assumes "CacheShards cfg < 63" "runtime_ok R" "list_all (op_fits H (MaxDepth cfg)) ops"
    "DeletedNodeHash h \<noteq> zero32" "tree_run h H R ops (NewTree (Some cfg)) = Some t"
    and "list_all (op_avoids h H) ops" "no_collision H (MaxDepth cfg) (ops_items ops)"
    and "ComputeRoot N h H t = Some (root, t1)" "\<forall>x. h_Key H x = EncodeKey (h_ID H x)"
  shows "RangeQueryByID h H a b ia ib t1
    = Some (sort_key (h_ID H) (filter (\<lambda>x. (if ia then a \<le> h_ID H x else a < h_ID H x)
        \<and> (if ib then h_ID H x \<le> b else h_ID H x < b)) (GetAllItems t)))"
proof -
  have "in_range (id_range a b ia ib) (h_Key H x)
      \<longleftrightarrow> (if ia then a \<le> h_ID H x else a < h_ID H x) \<and> (if ib then h_ID H x \<le> b else h_ID H x < b)" for x
    using assms(9) by (intro in_id_range) simp
  moreover have "r_start (id_range a b ia ib) \<noteq> []" "r_end (id_range a b ia ib) \<noteq> []"
    by (simp_all add: id_range_def idToKey_def)
  ultimately show ?thesis
    unfolding RangeQueryByID_def using range_query_exact [OF assms(1-8)] by simp
qed

subsection \<open>Parallel queries\<close>

lemma kid_paths_concat: "visible H del r (kid_paths kids) = concat (map (\<lambda>kc. visible H del r (paths_of (snd kc))) kids)"
  by (induction kids) auto

lemma child_batches_ok:
  "\<forall>c\<in>set cs. tombs del (paths_of c) \<Longrightarrow>
    \<exists>bs. child_batches H del r cs = Some bs \<and> concat bs = concat (map (\<lambda>c. visible H del r (paths_of c)) cs)"
proof (induction cs)
  case (Cons c cs)
  then have "rangeQueryNode H del r c [] = Some (visible H del r (paths_of c))"
    using rangeQueryNode_visible(1) [of c del H r "[]"] by (simp add: tombs_def)
  moreover from Cons obtain bs where "child_batches H del r cs = Some bs"
    "concat bs = concat (map (\<lambda>c. visible H del r (paths_of c)) cs)" by auto
  ultimately show ?case by simp
qed simp

definition same_result :: "'a hashable \<Rightarrow> 'a list option \<Rightarrow> 'a list option \<Rightarrow> bool" where
  "same_result H x y \<longleftrightarrow> (\<exists>xs ys. x = Some xs \<and> y = Some ys \<and> mset xs = mset ys
     \<and> sorted (map (h_ID H) xs) \<and> sorted (map (h_ID H) ys) \<and> (distinct (map (h_ID H) xs) \<longrightarrow> ys = xs))"

lemma same_resultI:
  assumes "mset xs = mset ys"
  shows "same_result H (Some (sort_key (h_ID H) xs)) (Some (sort_key (h_ID H) ys))"
proof -
  have "sort_key (h_ID H) ys = sort_key (h_ID H) xs" if "distinct (map (h_ID H) (sort_key (h_ID H) xs))"
  proof (rule sort_key_unique)
    have "mset (map (h_ID H) (sort_key (h_ID H) xs)) = mset (map (h_ID H) xs)" by simp
    with that show d: "distinct (map (h_ID H) xs)" by (metis mset_eq_imp_distinct_iff)
    have "mset (map (h_ID H) xs) = mset (map (h_ID H) ys)" using assms by simp
    with d show "distinct (map (h_ID H) ys)" by (metis mset_eq_imp_distinct_iff)
    show "set ys = set xs" using assms by (metis set_mset_mset)
  qed
  then show ?thesis using assms by (simp add: same_result_def)
qed

lemma parallel_batches:
  assumes t: "tree_rep h H t its lvs" and r: "r_start r \<noteq> []" "r_end r \<noteq> []" and s: "fair s"
  shows "\<exists>bs. child_batches H (DeletedNodeHash h) r (map snd (nd_kids (t_root t))) = Some bs
    \<and> same_result H (RangeQuery h H r t) (Some (sort_key (h_ID H) (s bs)))"
proof -
  let ?del = "DeletedNodeHash h"
  obtain hs kids v lf d where n: "t_root t = Node hs kids v lf d" by (cases "t_root t")
  have ok: "node_ok h H ?del (levels t) (t_root t)" using t by (simp add: tree_rep_def nodes_rep_def)
  then have lf: "\<not> lf" using n by (simp add: levels_def)
  have "\<forall>c\<in>set (map snd kids). tombs ?del (paths_of c)"
    using ok n paths_of_ok by (fastforce simp: levels_def)
  from child_batches_ok [OF this, of H r] obtain bs where bs: "child_batches H ?del r (map snd kids) = Some bs"
    "concat bs = visible H ?del r (paths_of (t_root t))"
    using n lf by (auto simp: kid_paths_concat comp_def)
  have "mset (visible H ?del r (paths_of (t_root t))) = mset (s bs)" using s bs(2) by (simp add: fair_def)
  from same_resultI [OF this, of H] show ?thesis using bs(1) n RangeQuery_visible [OF t r] by simp
qed

text \<open>The parallel query, the worker pool and the automatic choice return the items of the sequential
  query, sorted by ID, in whatever order the goroutines deliver their batches; the very same list
  when the IDs are distinct.\<close>

theorem parallel_queries_agree:
  fixes H :: "'a hashable"
  assumes "CacheShards cfg < 63" "runtime_ok R" "list_all (op_fits H (MaxDepth cfg)) ops"
    "DeletedNodeHash h \<noteq> zero32" "tree_run h H R ops (NewTree (Some cfg)) = Some t"
    and "r_start r \<noteq> []" "r_end r \<noteq> []" "fair s" "0 < N"
  shows "same_result H (RangeQuery h H r t) (RangeQueryParallel h H s r t)
    \<and> same_result H (RangeQuery h H r t) (RangeQueryWorkerPool h H N s r w t)
    \<and> same_result H (RangeQuery h H r t) (RangeQueryAuto h H s r t)"
proof -
  obtain its lvs where t: "tree_rep h H t its lvs" using run_new [OF assms(1-4)] assms(5) by auto
  from parallel_batches [OF t assms(6-8)] obtain bs where
    bs: "child_batches H (DeletedNodeHash h) r (map snd (nd_kids (t_root t))) = Some bs"
      "same_result H (RangeQuery h H r t) (Some (sort_key (h_ID H) (s bs)))" by blast
  have "mset (s []) = mset (concat [])" using assms(8) unfolding fair_def by blast
  then have "s [] = []" by simp
  then have par: "RangeQueryParallel h H s r t = Some (sort_key (h_ID H) (s bs))"
    using bs(1) assms(6,7) by (auto simp: RangeQueryParallel_def Let_def)
  have "RangeQueryWorkerPool h H N s r w t = Some (sort_key (h_ID H) (s bs))"
    using bs(1) assms(6,7,9) by (auto simp: RangeQueryWorkerPool_def Let_def)
  moreover have "same_result H (RangeQuery h H r t) (RangeQuery h H r t)"
    using RangeQuery_visible [OF t assms(6,7)] same_resultI [OF refl] by simp
  ultimately show ?thesis using bs(2) par assms(6,7) by (simp add: RangeQueryAuto_def)
qed

subsection \<open>A query misses a re-inserted item\<close>

lemma find_ins: "find p n = Some l \<Longrightarrow> find p (ins_path p x n) = Some (set_value x l)"
  by (induction p x n rule: ins_path.induct) (auto split: option.splits)

lemma find_del: "find p n = Some l \<Longrightarrow> find p (del_path del p n) = Some (kill_leaf del l)"
  by (induction del p n rule: del_path.induct) (auto split: option.splits)

lemma kill_set_hash: "nd_IsLeaf l \<Longrightarrow> nd_Hash (set_value x (kill_leaf del l)) = del"
  by (cases l) simp

lemma Insert_root: "Insert H x t = Some t' \<Longrightarrow> depth_fits H (t_maxDepth t) x \<Longrightarrow>
    t_root t' = ins_path (path_in H t x) x (t_root t) \<and> t_maxDepth t' = t_maxDepth t"
proof -
  let ?t1 = "t\<lparr>t_items := AList.update (h_ID H x) x (t_items t), t_itemCount := t_itemCount t + 1,
     t_cache := sharded_put (h_ID H x) x (t_cache t)\<rparr>"
  assume "Insert H x t = Some t'" and fits: "depth_fits H (t_maxDepth t) x"
  then obtain t2 where t2: "place_item H x ?t1 = Some t2" "t_root t' = t_root t2" "t_maxDepth t' = t_maxDepth t2"
    by (auto simp: Insert_def Let_def split: option.splits)
  then show ?thesis using place_item_root [OF t2(1)] fits by simp
qed

lemma find_leaf: "node_ok h H del m n \<Longrightarrow> length p = m \<Longrightarrow> find p n = Some l \<Longrightarrow> nd_IsLeaf l"
proof (induction m arbitrary: n p)
  case (Suc m)
  then obtain k q where p: "p = k # q" "length q = m" by (cases p) auto
  with Suc.prems obtain c where "map_of (nd_kids n) k = Some c" "find q c = Some l" by (auto split: option.splits)
  with Suc.IH node_ok_child [OF Suc.prems(1)] p(2) show ?case by blast
qed simp

text \<open>An item that is deleted and inserted again is stored, and lookups find it, but range queries
  miss it until the next \<^verbatim>\<open>ComputeRoot\<close>: its leaf still carries the tombstone hash by which
  \<^verbatim>\<open>rangeQueryNode\<close> recognises deleted leaves.\<close>

theorem range_query_misses_reinserted:
  fixes H :: "'a hashable"
  assumes "CacheShards cfg < 63" "runtime_ok R" "list_all (op_fits H (MaxDepth cfg)) ops"
    "DeletedNodeHash h \<noteq> zero32" "tree_run h H R ops (NewTree (Some cfg)) = Some t"
    and "depth_fits H (MaxDepth cfg) x" "no_collision H (MaxDepth cfg) (insert x (ops_items ops))"
    and "r_start r \<noteq> []" "r_end r \<noteq> []"
  shows "\<exists>t1 t2 t3 ys. Insert H x t = Some t1 \<and> DeleteItem h H (h_ID H x) t1 = Some (True, t2)
    \<and> Insert H x t2 = Some t3 \<and> fst (GetItem (h_ID H x) t3) = Some x
    \<and> RangeQuery h H r t3 = Some ys \<and> x \<notin> set ys"
proof -
  let ?D = "MaxDepth cfg" and ?del = "DeletedNodeHash h" and ?U = "insert x (ops_items ops)" and ?s = "abs_run H cfg ops"
  obtain its lvs where t: "t_maxDepth t = ?D" "tree_rep h H t its lvs" and "same_maps (its, lvs) ?s"
    using run_new [OF assms(1-4)] assms(5) by (auto simp: same_maps_def)
  moreover have "matched H ?D ?U ?s" using assms(7) by (rule matched_run) (auto simp: matched_def)
  ultimately have m: "matched H ?D ?U (its, lvs)" using matched_same by blast
  obtain t1 where t1: "Insert H x t = Some t1" "t_maxDepth t1 = ?D"
    "tree_rep h H t1 (store_pair H x its) (place_leaf H ?D x lvs)"
    using Insert_rep [OF t(2), of x] assms(6) t(1) by auto
  have m1: "matched H ?D ?U (store_pair H x its, place_leaf H ?D x lvs)" using m assms(7) by (rule matched_insert) simp
  have x: "map_of (store_pair H x its) (h_ID H x) = Some x" by (simp add: store_pair_def)
  with DeleteItem_rep [OF t1(3), of "h_ID H x"] t1(2) obtain t2 where t2: "DeleteItem h H (h_ID H x) t1 = Some (True, t2)"
    "t_maxDepth t2 = ?D" "tree_rep h H t2 (AList.delete (h_ID H x) (store_pair H x its)) (erase_leaf H ?D x (place_leaf H ?D x lvs))"
    by auto
  note m2 = matched_delete [OF m1 assms(7) x]
  obtain t3 its3 lvs3 where t3: "Insert H x t2 = Some t3" "t_maxDepth t3 = ?D" "tree_rep h H t3 its3 lvs3"
    "matched H ?D ?U (its3, lvs3)" "map_of its3 (h_ID H x) = Some x"
    using Insert_rep [OF t2(3), of x] assms(6) t2(2) matched_insert [OF m2 assms(7), of x] by (auto simp: store_pair_def)
  let ?p = "path_of H ?D x" and ?L = "paths_of (t_root t3)"
  have ok: "node_ok h H ?del (levels t1) (t_root t1)" using t1(3) by (simp add: tree_rep_def nodes_rep_def)
  have len: "length ?p = levels t1" using t1(2) assms(6) by (simp add: levels_def length_path_of)
  have "map_of (place_leaf H ?D x lvs) ?p = value_at (t_root t1) ?p" using t1(3) len by (simp add: tree_rep_def nodes_rep_def)
  then have "map_option nd_Value (find ?p (t_root t1)) = Some (Some x)" by (simp add: place_leaf_def value_at_def)
  then have "find ?p (t_root t1) \<noteq> None" by (metis option.map_disc_iff option.distinct(1))
  then obtain l where l: "find ?p (t_root t1) = Some l" by blast
  have items: "t_items t1 = store_pair H x its" using t1(3) by (simp add: tree_rep_def items_rep_def)
  have "t_root t2 = del_path ?del ?p (t_root t1)" "t_root t3 = ins_path ?p x (t_root t2)"
    using DeleteItem_root(1) [OF t2(1), of x] Insert_root [OF t3(1)] x items assms(6) t1(2) t2(2) by simp_all
  then have "find ?p (t_root t3) = Some (set_value x (kill_leaf ?del l))"
    using find_ins [OF find_del [OF l]] by simp
  then have tomb: "map_of ?L ?p = Some (?del, Some x)"
    using paths_of_ok [of h H ?del "levels t3" "t_root t3"] t3(2,3) t1(2) len kill_set_hash [OF find_leaf [OF ok len l], of x ?del]
    by (cases l) (auto simp: tree_rep_def nodes_rep_def levels_def)
  have "x \<notin> set (visible H ?del r ?L)"
  proof
    assume "x \<in> set (visible H ?del r ?L)"
    then obtain q hs v where q: "(q, hs, v) \<in> set ?L" "hs \<noteq> ?del" "x = the v" by (auto simp: visible_def)
    then have "v = Some x" using leaves_eq(2) [OF t3(3)] by (auto simp: tombs_def)
    then have "map_of lvs3 q = Some (Some x)" using leaf_memD [OF t3(3) q(1)] by simp
    then have "q = ?p" using t3(4) by (auto simp: matched_def)
    with map_of_is_SomeI [OF leaves_eq(1) [OF t3(3)] q(1)] tomb q(2) show False by simp
  qed
  then have "x \<notin> set (sort_key (h_ID H) (visible H ?del r ?L))" by simp
  moreover have "fst (GetItem (h_ID H x) t3) = Some x" using GetItem_rep(1) [OF t3(3)] t3(5) by simp
  ultimately show ?thesis using t1(1) t2(1) t3(1) RangeQuery_visible [OF t3(3) assms(8,9)] by blast
qed

subsection \<open>Witnesses\<close>

text \<open>The tree of the witnesses holds the items 2, 5 and 9.\<close>

definition range_ops :: "u64 tree_op list" where
  "range_ops = [OpInsert 5, OpInsert 2, OpInsert 9]"

lemma range_ops_ok:
  "list_all (op_fits id_hashable (MaxDepth SmallConfig)) range_ops"
  "list_all (op_avoids sample_hash id_hashable) range_ops"
  "no_collision id_hashable (MaxDepth SmallConfig) (ops_items range_ops)"
  "no_collision id_hashable (MaxDepth SmallConfig) (insert 7 (ops_items range_ops))"
  "\<forall>x. h_Key id_hashable x = EncodeKey (h_ID id_hashable x)"
proof -
  have "length (EncodeKey i) \<noteq> length (replicate 32 1 :: bytes)" for i by (simp add: EncodeKey_def)
  then have "EncodeKey i \<noteq> replicate 32 1" for i by metis
  moreover have "DeletedNodeHash sample_hash = replicate 32 1" by (simp add: DeletedNodeHash_def sample_hash_def)
  ultimately show "list_all (op_avoids sample_hash id_hashable) range_ops"
    by (simp add: range_ops_def id_hashable_def)
qed (simp_all add: range_ops_def no_collision_def id_hashable_def [THEN arg_cong, of h_ID] id_hashable_def [THEN arg_cong, of h_Key])

lemma tree_run_inserts: "tree_run h H R (map OpInsert xs) t = each_item (Insert H) xs t"
  by (induction xs arbitrary: t) (simp_all split: option.split)

lemma range_tree:
  "\<exists>t root t1. tree_run sample_hash id_hashable sample_runtime range_ops (NewTree (Some SmallConfig)) = Some t
    \<and> GetAllItems t = [5, 2, 9] \<and> ComputeRoot 16 sample_hash id_hashable t = Some (root, t1)"
proof -
  have t0: "tree_rep sample_hash id_hashable (NewTree (Some SmallConfig)) [] []"
    "t_maxDepth (NewTree (Some SmallConfig) :: u64 tree) = 3"
    using NewTree_rep [OF sample_ok(3)] by (simp_all add: NewTree_def Let_def)
  obtain t where t: "each_item (Insert id_hashable) [5, 2, 9] (NewTree (Some SmallConfig)) = Some t"
      "tree_rep sample_hash id_hashable t (fold (store_pair id_hashable) [5, 2, 9] []) (fold (place_leaf id_hashable 3) [5, 2, 9] [])"
    using Insert_each_rep [OF t0(1), of "[5, 2, 9]"] unfolding t0(2) by auto
  have "tree_run sample_hash id_hashable sample_runtime range_ops (NewTree (Some SmallConfig)) = Some t"
    using t(1) tree_run_inserts [of sample_hash id_hashable sample_runtime "[5, 2, 9]"] by (simp add: range_ops_def)
  moreover have "fold (store_pair id_hashable) [5, 2, 9] [] = [(5, 5), (2, 2), (9, 9)]"
    by (simp add: store_pair_def id_hashable_def)
  then have "GetAllItems t = [5, 2, 9]" using t(2) by (simp add: tree_rep_def items_rep_def GetAllItems_def)
  ultimately show ?thesis using ComputeRoot_rep [OF t(2) sample_ok(2), of 16] by blast
qed

lemma range_query_by_id_witness:
  "\<exists>t1. RangeQueryByID sample_hash id_hashable 2 9 True False t1 = Some [2, 5]"
proof -
  from range_tree obtain t root t1 where
    t: "tree_run sample_hash id_hashable sample_runtime range_ops (NewTree (Some SmallConfig)) = Some t"
      "GetAllItems t = [5, 2, 9]" "ComputeRoot 16 sample_hash id_hashable t = Some (root, t1)" by blast
  from range_query_by_id [OF sample_ok(3,1) range_ops_ok(1) sample_ok(2) t(1) range_ops_ok(2,3) t(3) range_ops_ok(5), of 2 9 True False]
  show ?thesis by (auto simp: t(2) id_hashable_def)
qed

lemma range_query_exact_witness:
  "\<exists>t1. RangeQuery sample_hash id_hashable (id_range 2 9 False True) t1 = Some [5, 9]"
proof -
  from range_tree obtain t root t1 where
    t: "tree_run sample_hash id_hashable sample_runtime range_ops (NewTree (Some SmallConfig)) = Some t"
      "GetAllItems t = [5, 2, 9]" "ComputeRoot 16 sample_hash id_hashable t = Some (root, t1)" by blast
  have "r_start (id_range 2 9 False True) \<noteq> []" "r_end (id_range 2 9 False True) \<noteq> []"
    by (simp_all add: id_range_def idToKey_def)
  from range_query_exact [OF sample_ok(3,1) range_ops_ok(1) sample_ok(2) t(1) range_ops_ok(2,3) t(3) this]
  moreover have "in_range (id_range 2 9 False True) (h_Key id_hashable i) \<longleftrightarrow> 2 < i \<and> i \<le> 9" for i
    using in_id_range [of id_hashable i i] by (simp add: id_hashable_def)
  ultimately show ?thesis unfolding t(2) by (auto simp: id_hashable_def [THEN arg_cong, of h_ID])
qed

lemma parallel_queries_agree_witness:
  "\<exists>t. same_result id_hashable (RangeQuery sample_hash id_hashable (id_range 2 9 True True) t)
    (RangeQueryParallel sample_hash id_hashable concat (id_range 2 9 True True) t)"
proof -
  from range_tree obtain t where
    t: "tree_run sample_hash id_hashable sample_runtime range_ops (NewTree (Some SmallConfig)) = Some t" by blast
  have "r_start (id_range 2 9 True True) \<noteq> []" "r_end (id_range 2 9 True True) \<noteq> []" "fair concat" "0 < (4 :: nat)"
    by (simp_all add: id_range_def idToKey_def fair_def)
  from parallel_queries_agree [OF sample_ok(3,1) range_ops_ok(1) sample_ok(2) t this] show ?thesis by blast
qed

lemma range_query_misses_reinserted_witness:
  "\<exists>t t1 t2 t3 ys. Insert id_hashable 7 t = Some t1 \<and> DeleteItem sample_hash id_hashable 7 t1 = Some (True, t2)
    \<and> Insert id_hashable 7 t2 = Some t3 \<and> fst (GetItem 7 t3) = Some 7
    \<and> RangeQuery sample_hash id_hashable (id_range 2 9 True True) t3 = Some ys \<and> 7 \<notin> set ys"
proof -
  from range_tree obtain t where
    t: "tree_run sample_hash id_hashable sample_runtime range_ops (NewTree (Some SmallConfig)) = Some t" by blast
  have "depth_fits id_hashable (MaxDepth SmallConfig) 7" "r_start (id_range 2 9 True True) \<noteq> []" "r_end (id_range 2 9 True True) \<noteq> []"
    by (simp_all add: id_range_def idToKey_def)
  from range_query_misses_reinserted [OF sample_ok(3,1) range_ops_ok(1) sample_ok(2) t this(1) range_ops_ok(4) this(2,3)]
  show ?thesis by (simp add: id_hashable_def [THEN arg_cong, of h_ID]) blast
qed

end
