(* ===== verification/Smt.thy ===== *)
theory Smt
  imports Models "HOL-Library.List_Lexorder" "HOL-Library.Monad_Syntax"
begin

text \<open>
  The sparse Merkle tree with 256-way branching of \<^verbatim>\<open>smt-v3/smt.go\<close>, over the in-memory store and
  without the node cache (\<^verbatim>\<open>NewSMT(store, 0)\<close>).

  \<^item> Nodes are byte strings in the store under their hash; \<open>h\<close> is the hash function.
  \<^item> A nil value (\<open>None\<close>) asks for a deletion.
  \<^item> Errors and panics are values of \<open>smt_error\<close>; \<open>Crash\<close> is an index or slice out of range.
  \<^item> A batch is a window \<open>[lo, hi)\<close> of a backing array, because the code appends to and sorts
    subslices: an append to a window that ends segs its array does overwrites the array. An
    append at the end of the array allocates a new one (spare capacity is seen by nobody and left out).
  \<^item> Batches run sequentially, as they do up to \<^verbatim>\<open>ParallelThreshold\<close> keys.
\<close>

unbundle bit_operations_syntax

subsection \<open>Data\<close>

datatype smt_error = NotFound | KeyNotFound | ShortcutMismatch | BranchEmpty | KeyDeleted | Crash

type_synonym 'b res = "smt_error + 'b"

fun bind_res :: "'b res \<Rightarrow> ('b \<Rightarrow> 'c res) \<Rightarrow> 'c res" where
  "bind_res (Inl e) f = Inl e"
| "bind_res (Inr x) f = f x"

lemma bind_res_cong [fundef_cong]:
  "m = m' \<Longrightarrow> (\<And>x. m' = Inr x \<Longrightarrow> f x = f' x) \<Longrightarrow> bind_res m f = bind_res m' f'"
  by (cases m') simp_all

type_synonym store = "bytes \<Rightarrow> bytes option"

type_synonym kv = "bytes \<times> bytes option"

record smt =
  s_store :: store
  s_root :: bytes
  s_pending :: "kv list"

definition EmptyHash :: bytes where
  "EmptyHash = replicate 32 0"

definition MemoryStore_Get :: "store \<Rightarrow> bytes \<Rightarrow> bytes res" where
  "MemoryStore_Get st k = (case st (arr32 k) of Some v \<Rightarrow> Inr v | None \<Rightarrow> Inl NotFound)"

definition MemoryStore_Set :: "bytes \<Rightarrow> bytes \<Rightarrow> store \<Rightarrow> store" where
  "MemoryStore_Set k v st = st(arr32 k \<mapsto> v)"

definition MemoryStore_Delete :: "bytes \<Rightarrow> store \<Rightarrow> store" where
  "MemoryStore_Delete k st = st(arr32 k := None)"

definition NewSMT :: smt where
  "NewSMT = \<lparr>s_store = Map.empty, s_root = EmptyHash, s_pending = []\<rparr>"

text \<open>Indexing and slicing.\<close>

definition at :: "bytes \<Rightarrow> nat \<Rightarrow> u8 res" where
  "at data i = (if i < length data then Inr (data ! i) else Inl Crash)"

definition slice :: "bytes \<Rightarrow> nat \<Rightarrow> nat \<Rightarrow> bytes res" where
  "slice data a b = (if a \<le> b \<and> b \<le> length data then Inr (take (b - a) (drop a data)) else Inl Crash)"

definition le_bytes :: "u64 \<Rightarrow> bytes" where
  "le_bytes w = rev (be_bytes 8 w)"

definition le_word :: "bytes \<Rightarrow> u64" where
  "le_word bs = be_word (rev (take 8 bs))"

definition le_uint64 :: "bytes \<Rightarrow> nat \<Rightarrow> u64 res" where
  "le_uint64 data a = (if a + 8 \<le> length data then Inr (le_word (drop a data)) else Inl Crash)"

subsection \<open>Nodes\<close>

definition loadNode :: "store \<Rightarrow> bytes \<Rightarrow> bytes res" where
  "loadNode st hash = MemoryStore_Get st hash"

definition leaf_data :: "bytes \<Rightarrow> bytes \<Rightarrow> bytes" where
  "leaf_data key v = 1 # key @ v"

definition storeLeaf :: "(bytes \<Rightarrow> bytes) \<Rightarrow> bytes \<Rightarrow> bytes \<Rightarrow> store \<Rightarrow> bytes \<times> store" where
  "storeLeaf h key v st = (let data = leaf_data key v; hs = h data in (hs, MemoryStore_Set hs data st))"

definition bit_at :: "u64 list \<Rightarrow> nat \<Rightarrow> bool" where
  "bit_at bitmap i \<longleftrightarrow> drop_bit (i mod 64) (bitmap ! (i div 64)) AND 1 = 1"

fun fill_bitmap :: "bytes list \<Rightarrow> nat list \<Rightarrow> u64 list \<Rightarrow> u64 list" where
  "fill_bitmap children [] bitmap = bitmap"
| "fill_bitmap children (i # ixs) bitmap = fill_bitmap children ixs
    (if children ! i \<noteq> EmptyHash then bitmap[i div 64 := bitmap ! (i div 64) OR push_bit (i mod 64) 1] else bitmap)"

definition internal_data :: "bytes list \<Rightarrow> bytes" where
  "internal_data children =
    (let bitmap = fill_bitmap children [0..<256] [0, 0, 0, 0]
     in 0 # concat (map le_bytes bitmap) @ concat (map (\<lambda>i. children ! i) (filter (bit_at bitmap) [0..<256])))"

definition storeInternal :: "(bytes \<Rightarrow> bytes) \<Rightarrow> bytes list \<Rightarrow> store \<Rightarrow> bytes \<times> store" where
  "storeInternal h children st = (let data = internal_data children; hs = h data in (hs, MemoryStore_Set hs data st))"

fun read_bitmap :: "bytes \<Rightarrow> nat list \<Rightarrow> u64 list res" where
  "read_bitmap data [] = Inr []"
| "read_bitmap data (i # ixs) = bind_res (le_uint64 data (1 + i * 8)) (\<lambda>w.
    bind_res (read_bitmap data ixs) (\<lambda>ws. Inr (w # ws)))"

fun read_hashes :: "bytes \<Rightarrow> u64 list \<Rightarrow> nat list \<Rightarrow> nat \<Rightarrow> bytes list res" where
  "read_hashes data bitmap [] offset = Inr []"
| "read_hashes data bitmap (i # ixs) offset =
    (if bit_at bitmap i then
       bind_res (slice data offset (offset + 32)) (\<lambda>c.
       bind_res (read_hashes data bitmap ixs (offset + 32)) (\<lambda>cs. Inr (c # cs)))
     else bind_res (read_hashes data bitmap ixs offset) (\<lambda>cs. Inr (EmptyHash # cs)))"

text \<open>Step 4 of \<^verbatim>\<open>updateBatchParallel\<close>; an error of the second load is ignored, its nil result then
  crashes.\<close>

definition load_children :: "store \<Rightarrow> bytes \<Rightarrow> bytes list res" where
  "load_children st root =
    (if root = EmptyHash then Inr (replicate 256 EmptyHash)
     else case loadNode st root of
       Inl e \<Rightarrow> Inl Crash
     | Inr data \<Rightarrow>
         bind_res (at data 0) (\<lambda>t.
           if t = 0 then bind_res (read_bitmap data [0..<4]) (\<lambda>bitmap. read_hashes data bitmap [0..<256] 33)
           else Inr (replicate 256 EmptyHash)))"

subsection \<open>Lookup\<close>

definition ones :: "u64 \<Rightarrow> nat" where
  "ones w = length (filter (bit w) [0..<64])"

function smt_get :: "store \<Rightarrow> bytes \<Rightarrow> bytes \<Rightarrow> nat \<Rightarrow> bytes res" where
  "smt_get st root key depth =
    (if root = EmptyHash then Inl KeyNotFound
     else bind_res (loadNode st root) (\<lambda>data.
       bind_res (at data 0) (\<lambda>t.
         if t = 1 then
           bind_res (slice data 1 33) (\<lambda>storedKey.
             if storedKey = key then slice data 33 (length data) else Inl ShortcutMismatch)
         else if depth \<ge> 32 then Inl Crash
         else
           let idx = unat (key ! depth); segmentIdx = idx div 64; bitIdx = idx mod 64
           in bind_res (le_uint64 data (1 + segmentIdx * 8)) (\<lambda>segment.
             if drop_bit bitIdx segment AND 1 = 0 then Inl BranchEmpty
             else bind_res (read_bitmap data [0..<segmentIdx]) (\<lambda>segs.
               let childIdx = sum_list (map ones segs) + ones (segment AND (push_bit bitIdx 1 - 1));
                   offset = 33 + childIdx * 32
               in bind_res (slice data offset (offset + 32)) (\<lambda>childHash.
                    smt_get st childHash key (depth + 1)))))))"
  by pat_completeness auto
termination by (relation "measure (\<lambda>(st, root, key, depth). 32 - depth)") auto

definition smt_Get :: "bytes \<Rightarrow> smt \<Rightarrow> bytes res" where
  "smt_Get key s = (case map_of (s_pending s) (arr32 key) of
     Some None \<Rightarrow> Inl KeyDeleted
   | Some (Some v) \<Rightarrow> Inr v
   | None \<Rightarrow> smt_get (s_store s) (s_root s) (arr32 key) 0)"

subsection \<open>Batches\<close>

definition sort_window :: "nat \<Rightarrow> nat \<Rightarrow> kv list \<Rightarrow> kv list" where
  "sort_window lo hi arr = take lo arr @ sort_key fst (drop lo (take hi arr)) @ drop hi arr"

text \<open>Append to the window and sort it. The flag says that a new array was allocated.\<close>

definition append_sort :: "kv \<Rightarrow> kv list \<Rightarrow> nat \<Rightarrow> nat \<Rightarrow> kv list \<times> nat \<times> nat \<times> bool" where
  "append_sort x arr lo hi =
    (if hi < length arr then (sort_window lo (hi + 1) (arr[hi := x]), lo, hi + 1, False)
     else (sort_key fst (drop lo arr @ [x]), 0, hi - lo + 1, True))"

text \<open>Step 3: a leaf whose key is not in the batch joins the batch.\<close>

definition join_leaf :: "store \<Rightarrow> bytes \<Rightarrow> kv list \<Rightarrow> nat \<Rightarrow> nat \<Rightarrow> (kv list \<times> nat \<times> nat \<times> bool) res" where
  "join_leaf st root arr lo hi =
    (if root = EmptyHash then Inr (arr, lo, hi, False)
     else bind_res (loadNode st root) (\<lambda>data.
       bind_res (at data 0) (\<lambda>t.
         if t = 1 then
           bind_res (slice data 1 33) (\<lambda>storedKey.
           bind_res (slice data 33 (length data)) (\<lambda>storedVal.
             if list_ex (\<lambda>x. fst x = storedKey) (drop lo (take hi arr)) then Inr (arr, lo, hi, False)
             else Inr (append_sort (storedKey, Some storedVal) arr lo hi)))
         else Inr (arr, lo, hi, False))))"

text \<open>The end of the group of keys that share the byte at \<open>depth\<close>.\<close>

function group_end :: "kv list \<Rightarrow> nat \<Rightarrow> u8 \<Rightarrow> nat \<Rightarrow> nat \<Rightarrow> nat" where
  "group_end arr depth b i hi =
    (if i < hi \<and> fst (arr ! i) ! depth = b then group_end arr depth b (i + 1) hi else i)"
  by pat_completeness auto
termination by (relation "measure (\<lambda>(arr, depth, b, i, hi). hi - i)") auto

declare group_end.simps [simp del] smt_get.simps [simp del]

lemma group_end_le: "i \<le> group_end arr depth b i hi"
proof (induction arr depth b i hi rule: group_end.induct)
  case (1 arr depth b i hi)
  then show ?case by (subst group_end.simps) auto
qed

text \<open>Step 6.\<close>

definition collapse :: "(bytes \<Rightarrow> bytes) \<Rightarrow> bytes list \<Rightarrow> store \<Rightarrow> bytes \<times> store" where
  "collapse h children st =
    (let active = filter (\<lambda>i. children ! i \<noteq> EmptyHash) [0..<256]
     in if length active = 0 then (EmptyHash, st)
        else if length active = 1 \<and>
            (case loadNode st (children ! last active) of Inl e \<Rightarrow> False | Inr data \<Rightarrow> at data 0 = Inr 1)
        then (children ! last active, st)
        else storeInternal h children st)"

definition store_value :: "(bytes \<Rightarrow> bytes) \<Rightarrow> kv \<Rightarrow> store \<Rightarrow> bytes \<times> store" where
  "store_value h x st = (case snd x of None \<Rightarrow> (EmptyHash, st) | Some v \<Rightarrow> storeLeaf h (fst x) v st)"

text \<open>\<open>updateBatch\<close> is \<^verbatim>\<open>updateBatchParallel\<close>; it returns the root, the store and the array it was
  given. \<open>distribute\<close> is the loop of step 5.\<close>

function updateBatch :: "(bytes \<Rightarrow> bytes) \<Rightarrow> store \<Rightarrow> kv list \<Rightarrow> bytes \<Rightarrow> nat \<Rightarrow> nat \<Rightarrow> nat \<Rightarrow>
    (bytes \<times> store \<times> kv list) res"
and distribute :: "(bytes \<Rightarrow> bytes) \<Rightarrow> store \<Rightarrow> kv list \<Rightarrow> bytes list \<Rightarrow> nat \<Rightarrow> nat \<Rightarrow> nat \<Rightarrow>
    (bytes list \<times> store \<times> kv list) res" where
  "updateBatch h st arr root lo hi depth =
    (if hi - lo = 0 then Inr (root, st, arr)
     else if depth \<ge> 32 then
       (let (root', st') = store_value h (arr ! (hi - 1)) st in Inr (root', st', arr))
     else if root = EmptyHash \<and> hi - lo = 1 then
       (let (root', st') = store_value h (arr ! lo) st in Inr (root', st', arr))
     else
       bind_res (join_leaf st root arr lo hi) (\<lambda>(arr1, lo1, hi1, fresh).
       bind_res (load_children st root) (\<lambda>children.
       bind_res (distribute h st arr1 children lo1 hi1 depth) (\<lambda>(children', st2, arr2).
         let (root', st') = collapse h children' st2
         in Inr (root', st', if fresh then arr else arr2)))))"
| "distribute h st arr children start hi depth =
    (if start \<ge> hi then Inr (children, st, arr)
     else if depth \<ge> 32 then Inl Crash
     else
       let childIdx = fst (arr ! start) ! depth;
           end = group_end arr depth childIdx (start + 1) hi
       in bind_res (updateBatch h st arr (children ! unat childIdx) start end (depth + 1)) (\<lambda>(root', st', arr').
            distribute h st' arr' (children[unat childIdx := root']) end hi depth))"
  by pat_completeness auto
termination
proof (relation "inv_image (less_than <*lex*> less_than <*lex*> less_than)
    (case_sum (\<lambda>(h, st, arr, root, lo, hi, depth). (33 - depth, Suc 0, 0 :: nat))
      (\<lambda>(h, st, arr, children, start, hi, depth). (33 - depth, 0, hi - start)))", goal_cases)
  case (4 h st arr children start hi depth childIdx "end")
  then show ?case using group_end_le [of "start + 1" arr depth childIdx hi] by auto
qed auto

declare updateBatch.simps [simp del] distribute.simps [simp del]

definition smt_Set :: "bytes \<Rightarrow> bytes option \<Rightarrow> smt \<Rightarrow> smt" where
  "smt_Set key v s = s\<lparr>s_pending := AList.update (arr32 key) v (s_pending s)\<rparr>"

definition smt_Commit :: "(bytes \<Rightarrow> bytes) \<Rightarrow> smt \<Rightarrow> smt_error + bytes \<times> smt" where
  "smt_Commit h s =
    (if length (s_pending s) = 0 then Inr (s_root s, s)
     else
       let batch = sort_key fst (s_pending s)
       in bind_res (updateBatch h (s_store s) batch (s_root s) 0 (length batch) 0) (\<lambda>(newRoot, st, arr).
            Inr (newRoot, s\<lparr>s_root := newRoot, s_store := st, s_pending := []\<rparr>)))"

definition smt_Update :: "(bytes \<Rightarrow> bytes) \<Rightarrow> bytes \<Rightarrow> bytes option \<Rightarrow> smt \<Rightarrow> smt_error + bytes \<times> smt" where
  "smt_Update h key v s =
    bind_res (updateBatch h (s_store s) [(arr32 key, v)] (s_root s) 0 1 0) (\<lambda>(newRoot, st, arr).
      Inr (newRoot, s\<lparr>s_root := newRoot, s_store := st\<rparr>))"

definition LoadRoot :: "bytes \<Rightarrow> smt \<Rightarrow> smt" where
  "LoadRoot root s = s\<lparr>s_root := root\<rparr>"

end
