(* ===== verification/SmtSpec.thy ===== *)
theory SmtSpec
  imports Smt
begin

text \<open>
  What the nodes of the sparse Merkle tree mean: reading back the children of an internal node, the
  position that \<^verbatim>\<open>get\<close> computes by counting bits, and the canonical tree \<open>canon\<close> of a finite map
  with the node strings \<open>nodes\<close> it consists of.
\<close>

declare upt_rec_numeral [simp del]

subsection \<open>Encoding of internal nodes\<close>

lemma length_le_bytes [simp]: "length (le_bytes w) = 8"
  by (simp add: le_bytes_def)

lemma le_word_le_bytes [simp]: "le_word (le_bytes w @ rest) = w"
  by (simp add: le_word_def le_bytes_def)

lemma and_one_bit: "(drop_bit n w AND 1 = (1 :: 'a::len word)) \<longleftrightarrow> bit w n" "(drop_bit n w AND 1 = (0 :: 'a::len word)) \<longleftrightarrow> \<not> bit w n"
  by (simp_all add: and_one_eq bit_iff_odd_drop_bit odd_iff_mod_2_eq_one even_iff_mod_2_eq_zero)

lemma bit_at_iff: "bit_at bm i \<longleftrightarrow> bit (bm ! (i div 64)) (i mod 64)"
  by (simp add: bit_at_def and_one_bit)

lemma fill_bitmap_props:
  "length bm = 4 \<Longrightarrow> length (fill_bitmap cs ixs bm) = 4"
  "length bm = 4 \<Longrightarrow> \<forall>i\<in>set ixs. i < 256 \<Longrightarrow> j < 256 \<Longrightarrow>
    bit_at (fill_bitmap cs ixs bm) j \<longleftrightarrow> bit_at bm j \<or> (j \<in> set ixs \<and> cs ! j \<noteq> EmptyHash)"
proof (induction cs ixs bm rule: fill_bitmap.induct)
  case (2 cs i ixs bm)
  { case 1 then show ?case using 2 by simp }
  case 2
  let ?bm = "if cs ! i \<noteq> EmptyHash then bm[i div 64 := bm ! (i div 64) OR push_bit (i mod 64) 1] else bm"
  have "bit_at ?bm j \<longleftrightarrow> bit_at bm j \<or> (j = i \<and> cs ! i \<noteq> EmptyHash)"
  proof (cases "i div 64 = j div 64")
    case True
    then have "i mod 64 = j mod 64 \<longleftrightarrow> i = j" by (metis div_mult_mod_eq)
    moreover have "j div 64 < 4" using 2(3) by simp
    ultimately show ?thesis using True 2(1)
      by (auto simp: bit_at_iff bit_or_iff bit_exp_iff push_bit_of_1)
  next
    case False
    then show ?thesis by (auto simp: bit_at_iff nth_list_update)
  qed
  then show ?case using "2.IH"(2) 2 by auto
qed simp_all

definition bitmap_of :: "bytes list \<Rightarrow> u64 list" where
  "bitmap_of cs = fill_bitmap cs [0..<256] [0, 0, 0, 0]"

lemma bitmap_of_props:
  "length (bitmap_of cs) = 4" "i < 256 \<Longrightarrow> bit_at (bitmap_of cs) i \<longleftrightarrow> cs ! i \<noteq> EmptyHash"
proof -
  show "length (bitmap_of cs) = 4" by (simp add: bitmap_of_def fill_bitmap_props(1))
  assume i: "i < 256"
  have zero: "[0, 0, 0, 0 :: u64] ! q = 0" if "q < 4" for q
  proof -
    have "q = 0 \<or> q = 1 \<or> q = 2 \<or> q = 3" using that by auto
    then show ?thesis by auto
  qed
  have "[0, 0, 0, 0 :: u64] ! (i div 64) = 0" using i by (intro zero) simp
  then have "\<not> bit_at [0, 0, 0, 0] i" by (simp add: bit_at_iff)
  then show "bit_at (bitmap_of cs) i \<longleftrightarrow> cs ! i \<noteq> EmptyHash"
    unfolding bitmap_of_def using i by (subst fill_bitmap_props(2)) auto
qed

text \<open>The active children in order, and the layout of a node.\<close>

definition active :: "bytes list \<Rightarrow> nat list \<Rightarrow> bytes list" where
  "active cs ixs = map (\<lambda>i. cs ! i) (filter (\<lambda>i. cs ! i \<noteq> EmptyHash) ixs)"

lemma internal_data_eq:
  "internal_data cs = 0 # concat (map le_bytes (bitmap_of cs)) @ concat (active cs [0..<256])"
proof -
  have "filter (bit_at (bitmap_of cs)) [0..<256] = filter (\<lambda>i. cs ! i \<noteq> EmptyHash) [0..<256]"
    by (intro filter_cong) (auto simp: bitmap_of_props(2))
  then show ?thesis by (simp add: internal_data_def active_def Let_def flip: bitmap_of_def)
qed

lemma internal_head [simp]: "at (internal_data cs) 0 = Inr 0"
  by (simp add: internal_data_eq at_def)

lemma four_words:
  assumes "length bm = 4"
  obtains a b c d where "bm = [a, b, c, d]"
  using assms by (auto simp: length_Suc_conv numeral_eq_Suc)

lemma read_bitmap_ok:
  assumes "n \<le> 4" "length bm = 4"
  shows "read_bitmap (0 # concat (map le_bytes bm) @ rest) [0..<n] = Inr (take n bm)"
    and "i < 4 \<Longrightarrow> le_uint64 (0 # concat (map le_bytes bm) @ rest) (1 + i * 8) = Inr (bm ! i)"
proof -
  obtain a b c d where bm: "bm = [a, b, c, d]" using assms(2) by (rule four_words)
  have w: "le_uint64 (0 # concat (map le_bytes bm) @ rest) (1 + i * 8) = Inr (bm ! i)" if "i < 4" for i
  proof -
    have "i = 0 \<or> i = 1 \<or> i = 2 \<or> i = 3" using that by auto
    then show ?thesis by (auto simp: bm le_uint64_def)
  qed
  then show "i < 4 \<Longrightarrow> le_uint64 (0 # concat (map le_bytes bm) @ rest) (1 + i * 8) = Inr (bm ! i)" by blast
  have gen: "\<forall>i\<in>set ixs. i < 4 \<Longrightarrow> read_bitmap (0 # concat (map le_bytes bm) @ rest) ixs = Inr (map ((!) bm) ixs)" for ixs
    using w by (induction ixs) simp_all
  have "map ((!) bm) [0..<n] = take n bm" by (rule nth_equalityI) (use assms in auto)
  then show "read_bitmap (0 # concat (map le_bytes bm) @ rest) [0..<n] = Inr (take n bm)"
    using gen [of "[0..<n]"] assms(1) by simp
qed

lemma read_hashes_ok:
  "\<forall>i\<in>set ixs. i < 256 \<and> length (cs ! i) = 32 \<Longrightarrow>
    read_hashes (pre @ concat (active cs ixs)) (bitmap_of cs) ixs (length pre) = Inr (map ((!) cs) ixs)"
proof (induction ixs arbitrary: pre)
  case (Cons i ixs)
  show ?case
  proof (cases "cs ! i = EmptyHash")
    case True
    then have "active cs (i # ixs) = active cs ixs" by (simp add: active_def)
    then show ?thesis using Cons True by (simp add: bitmap_of_props(2))
  next
    case False
    then have a: "active cs (i # ixs) = cs ! i # active cs ixs" by (simp add: active_def)
    have "slice (pre @ concat (active cs (i # ixs))) (length pre) (length pre + 32) = Inr (cs ! i)"
      using Cons.prems by (simp add: slice_def a)
    moreover have "read_hashes (pre @ concat (active cs (i # ixs))) (bitmap_of cs) ixs (length pre + 32) = Inr (map ((!) cs) ixs)"
      using Cons.IH [of "pre @ cs ! i"] Cons.prems by (simp add: a)
    ultimately show ?thesis using Cons.prems False by (simp add: bitmap_of_props(2))
  qed
qed (simp add: active_def)

definition child_list :: "bytes list \<Rightarrow> bool" where
  "child_list cs \<longleftrightarrow> length cs = 256 \<and> (\<forall>c\<in>set cs. length c = 32)"

lemma load_internal:
  assumes "child_list cs" "root \<noteq> EmptyHash" "loadNode st root = Inr (internal_data cs)"
  shows "load_children st root = Inr cs"
proof -
  let ?pre = "0 # concat (map le_bytes (bitmap_of cs))"
  obtain a b c d where "bitmap_of cs = [a, b, c, d]" using bitmap_of_props(1) by (rule four_words)
  then have "length ?pre = 33" by simp
  moreover have "read_hashes (?pre @ concat (active cs [0..<256])) (bitmap_of cs) [0..<256] (length ?pre) = Inr (map ((!) cs) [0..<256])"
    using assms(1) by (intro read_hashes_ok) (simp add: child_list_def)
  moreover have "map ((!) cs) [0..<256] = cs" using assms(1) by (simp add: child_list_def list_eq_iff_nth_eq)
  ultimately have "read_hashes (internal_data cs) (bitmap_of cs) [0..<256] 33 = Inr cs" by (simp add: internal_data_eq)
  moreover have "read_bitmap (internal_data cs) [0..<4] = Inr (bitmap_of cs)"
    using read_bitmap_ok(1) [of 4 "bitmap_of cs"] bitmap_of_props(1) by (simp add: internal_data_eq)
  ultimately show ?thesis using assms(2,3) by (simp add: load_children_def)
qed

subsection \<open>The position of a child\<close>

lemma ones_below: "ones (w AND (push_bit b 1 - 1)) = length (filter (bit w) [0..<b])" if "b < 64"
proof -
  have mask: "(push_bit b 1 - 1 :: u64) = mask b" by (simp add: mask_eq_exp_minus_1 push_bit_of_1)
  have "filter (bit (w AND mask b)) [0..<64] = filter (bit w) [0..<b]"
  proof -
    have "[0..<64] = [0..<b] @ [b..<64]" using that by (metis less_imp_le_nat upt_add_eq_append le_add_diff_inverse zero_le)
    moreover have "filter (bit (w AND mask b)) [0..<b] = filter (bit w) [0..<b]"
      using that by (intro filter_cong) (auto simp: bit_and_iff bit_mask_iff)
    moreover have "filter (bit (w AND mask b)) [b..<64] = []"
      by (auto simp: filter_empty_conv bit_and_iff bit_mask_iff)
    ultimately show ?thesis by simp
  qed
  then show ?thesis by (simp only: ones_def mask)
qed

lemma bits_of_segment:
  assumes "m \<le> 64"
  shows "length (filter (bit_at bm) [q * 64..<q * 64 + m]) = length (filter (bit (bm ! q)) [0..<m])"
proof -
  have "[q * 64..<q * 64 + m] = map (\<lambda>i. q * 64 + i) [0..<m]" by (rule nth_equalityI) auto
  moreover have "filter (bit_at bm \<circ> (\<lambda>i. q * 64 + i)) [0..<m] = filter (bit (bm ! q)) [0..<m]"
    using assms by (intro filter_cong) (auto simp: bit_at_iff)
  ultimately show ?thesis by (simp add: filter_map)
qed

lemma bits_of_segments: "q \<le> length bm \<Longrightarrow>
  sum_list (map ones (take q bm)) = length (filter (bit_at bm) [0..<q * 64])"
proof (induction q)
  case (Suc q)
  have "[0..<Suc q * 64] = [0..<q * 64] @ [q * 64..<q * 64 + 64]"
    by (metis add.commute mult_Suc upt_add_eq_append zero_le)
  then show ?case using Suc bits_of_segment [of 64 bm q] by (simp add: take_Suc_conv_app_nth ones_def)
qed simp

lemma rank_of_bit:
  assumes "i < 256" "length bm = 4"
  shows "sum_list (map ones (take (i div 64) bm)) + ones (bm ! (i div 64) AND (push_bit (i mod 64) 1 - 1))
    = length (filter (bit_at bm) [0..<i])"
proof -
  have "i div 64 < 4" using assms(1) by simp
  have "[0..<i] = [0..<i div 64 * 64] @ [i div 64 * 64..<i div 64 * 64 + i mod 64]"
    by (metis div_mult_mod_eq upt_add_eq_append zero_le)
  then show ?thesis
    using bits_of_segments [of "i div 64" bm] bits_of_segment [of "i mod 64" bm "i div 64"] ones_below [of "i mod 64" "bm ! (i div 64)"]
      \<open>i div 64 < 4\<close> assms(2) by simp
qed

text \<open>The slice at that position is the child.\<close>

lemma concat_blocks:
  "\<forall>x\<in>set xs. length x = n \<Longrightarrow> k < length xs \<Longrightarrow> take n (drop (k * n) (concat xs)) = xs ! k"
proof (induction xs arbitrary: k)
  case (Cons x xs)
  then show ?case by (cases k) simp_all
qed simp

lemma length_concat_blocks: "\<forall>x\<in>set xs. length x = n \<Longrightarrow> length (concat xs) = length xs * n"
  by (induction xs) simp_all

lemma filter_nth_rank:
  "i < n \<Longrightarrow> P i \<Longrightarrow> length (filter P [0..<i]) < length (filter P [0..<n]) \<and> filter P [0..<n] ! length (filter P [0..<i]) = i"
proof -
  assume i: "i < n" "P i"
  have "[0..<n] = [0..<i] @ i # [Suc i..<n]" using i(1) by (metis upt_add_eq_append upt_conv_Cons less_imp_le_nat le_add_diff_inverse zero_le)
  then have "filter P [0..<n] = filter P [0..<i] @ i # filter P [Suc i..<n]" using i(2) by simp
  then show ?thesis by (simp add: nth_append)
qed

lemma drop_pre: "length xs = m \<Longrightarrow> drop (m + n) (xs @ ys) = drop n ys"
  by simp

lemma child_slice:
  assumes "child_list cs" "i < 256" "cs ! i \<noteq> EmptyHash"
  shows "slice (internal_data cs) (33 + length (filter (bit_at (bitmap_of cs)) [0..<i]) * 32)
      (33 + length (filter (bit_at (bitmap_of cs)) [0..<i]) * 32 + 32) = Inr (cs ! i)"
proof -
  let ?P = "\<lambda>i. cs ! i \<noteq> EmptyHash" and ?pre = "0 # concat (map le_bytes (bitmap_of cs))"
  have "filter (bit_at (bitmap_of cs)) [0..<i] = filter ?P [0..<i]"
    using assms(2) by (intro filter_cong) (auto simp: bitmap_of_props(2))
  then have k: "length (filter (bit_at (bitmap_of cs)) [0..<i]) = length (filter ?P [0..<i])" by simp
  define k where "k = length (filter ?P [0..<i])"
  have rank: "k < length (active cs [0..<256])" "active cs [0..<256] ! k = cs ! i"
    using filter_nth_rank [of i 256 ?P] assms(2,3) by (simp_all add: active_def k_def)
  have len: "\<forall>x\<in>set (active cs [0..<256]). length x = 32"
    using assms(1) by (auto simp: active_def child_list_def)
  obtain a b c d where "bitmap_of cs = [a, b, c, d]" using bitmap_of_props(1) by (rule four_words)
  then have pre: "length ?pre = 33" by simp
  have "length (internal_data cs) = 33 + length (active cs [0..<256]) * 32"
    using pre length_concat_blocks [OF len] by (simp add: internal_data_eq)
  moreover have "take 32 (drop (33 + k * 32) (internal_data cs)) = cs ! i"
  proof -
    have "drop (33 + k * 32) (internal_data cs) = drop (k * 32) (concat (active cs [0..<256]))"
      using drop_pre [OF pre] by (simp add: internal_data_eq del: drop_append)
    then show ?thesis using concat_blocks [OF len rank(1)] rank(2) by simp
  qed
  ultimately show ?thesis using rank(1) by (simp add: slice_def k k_def [symmetric])
qed

text \<open>One step of \<^verbatim>\<open>get\<close> at an internal node.\<close>

lemma get_internal:
  assumes "child_list cs" "root \<noteq> EmptyHash" "loadNode st root = Inr (internal_data cs)" "depth < 32"
  shows "smt_get st root key depth =
    (let c = cs ! unat (key ! depth) in if c = EmptyHash then Inl BranchEmpty else smt_get st c key (depth + 1))"
proof -
  let ?i = "unat (key ! depth)" and ?bm = "bitmap_of cs"
  have i: "?i < 256" using unsigned_less [of "key ! depth"] by simp
  then have q: "?i div 64 < 4" by simp
  have data: "internal_data cs = 0 # concat (map le_bytes ?bm) @ concat (active cs [0..<256])" by (rule internal_data_eq)
  have seg: "le_uint64 (internal_data cs) (1 + ?i div 64 * 8) = Inr (?bm ! (?i div 64))"
    unfolding data using q by (intro read_bitmap_ok(2) [of 0]) (simp_all add: bitmap_of_props(1))
  have segs: "read_bitmap (internal_data cs) [0..<?i div 64] = Inr (take (?i div 64) ?bm)"
    unfolding data using q by (intro read_bitmap_ok(1)) (simp_all add: bitmap_of_props(1))
  have bit: "drop_bit (?i mod 64) (?bm ! (?i div 64)) AND 1 = 0 \<longleftrightarrow> cs ! ?i = EmptyHash"
    using bitmap_of_props(2) [OF i, of cs] by (simp add: bit_at_iff and_one_bit)
  show ?thesis
  proof (cases "cs ! ?i = EmptyHash")
    case True
    then show ?thesis using assms(2-4) seg bit by (subst smt_get.simps) (simp add: Let_def)
  next
    case False
    note sl = child_slice [OF assms(1) i False]
    have b: "(drop_bit (?i mod 64) (?bm ! (?i div 64)) AND 1 = 0) = False" "(root = EmptyHash) = False"
      "(depth \<ge> 32) = False" "(0 = (1 :: u8)) = False" "(cs ! ?i = EmptyHash) = False"
      using bit False assms(2,4) by simp_all
    show ?thesis
      by (subst smt_get.simps)
        (simp only: b assms(3) internal_head bind_res.simps if_False Let_def seg segs rank_of_bit [OF i bitmap_of_props(1)] sl)
  qed
qed

end
