(* ===== verification/SmtTree.thy ===== *)
theory SmtTree
  imports SmtSpec
begin

text \<open>
  The canonical tree of a finite map, and the proof that a batch update turns the canonical tree of
  \<open>m\<close> into that of \<open>m\<close> overlaid with the batch.

  \<^item> \<open>canon h n m\<close> is the root of the tree with \<open>n\<close> levels left, \<open>nodes h n m\<close> its node strings;
    \<open>sub d b m\<close> is the part of \<open>m\<close> whose keys have byte \<open>b\<close> at depth \<open>d = 32 - n\<close>.
  \<^item> \<open>sound h D\<close>: \<open>h\<close> gives digests, other than the empty one and without collision, on the
    strings \<open>D\<close>; \<open>good h D st\<close>: the store holds strings of \<open>D\<close> under their hash.
  \<^item> \<open>safe arr lo hi m\<close>: no leaf of the tree joins a window that other windows follow.
\<close>

type_synonym content = "bytes \<Rightarrow> bytes option"

subsection \<open>Contents\<close>

definition sub :: "nat \<Rightarrow> u8 \<Rightarrow> (bytes \<Rightarrow> 'v option) \<Rightarrow> bytes \<Rightarrow> 'v option" where
  "sub d b m = m |` {k. k ! d = b}"

definition overlay :: "kv list \<Rightarrow> content \<Rightarrow> content" where
  "overlay w m = (\<lambda>k. case map_of w k of Some v \<Rightarrow> v | None \<Rightarrow> m k)"

definition keyset :: "nat \<Rightarrow> bytes set \<Rightarrow> bool" where
  "keyset d K \<longleftrightarrow> (\<forall>k\<in>K. length k = 32) \<and> (\<forall>k\<in>K. \<forall>k'\<in>K. take d k = take d k')"

lemma sub_apply: "sub d b m k = (if k ! d = b then m k else None)"
  by (simp add: sub_def restrict_map_def)

lemma sub_all: "(\<And>k. k \<in> dom m \<Longrightarrow> k ! d = b) \<Longrightarrow> sub d b m = m"
proof (rule ext)
  fix k assume "\<And>k. k \<in> dom m \<Longrightarrow> k ! d = b"
  then show "sub d b m k = m k" by (cases "m k") (auto simp: sub_apply dom_def)
qed

lemma dom_sub: "dom (sub d b m) = {k \<in> dom m. k ! d = b}"
  by (auto simp: sub_def)

lemma sub_empty [simp]: "sub d b Map.empty = Map.empty"
  by (simp add: sub_def)

lemma overlay_Nil [simp]: "overlay [] m = m"
  by (simp add: overlay_def)

lemma overlay_cong: "(\<And>k. map_of w k = None \<Longrightarrow> m k = m' k) \<Longrightarrow> overlay w m = overlay w m'"
  by (rule ext) (simp add: overlay_def split: option.split)

lemma map_of_filter_byte: "map_of (filter (\<lambda>x. fst x ! d = b) w) k = (if k ! d = b then map_of w k else None)"
  by (induction w) auto

lemma sub_overlay: "sub d b (overlay w m) = overlay (filter (\<lambda>x. fst x ! d = b) w) (sub d b m)"
  by (rule ext) (auto simp: sub_apply overlay_def map_of_filter_byte split: option.split)

lemma dom_overlay: "dom (overlay w m) \<subseteq> fst ` set w \<union> dom m"
  by (auto simp: overlay_def split: option.splits dest!: map_of_SomeD) (force dest: map_of_SomeD)

lemma keyset_mono: "keyset d K \<Longrightarrow> K' \<subseteq> K \<Longrightarrow> keyset d K'"
  unfolding keyset_def by blast

lemma keyset_Suc:
  assumes "keyset d K" "d < 32" "K' \<subseteq> {k \<in> K. k ! d = b}"
  shows "keyset (Suc d) K'"
proof -
  have len: "length k = 32" "k ! d = b" "k \<in> K" if "k \<in> K'" for k using assms that by (auto simp: keyset_def)
  have "take (Suc d) k = take (Suc d) k'" if "k \<in> K'" "k' \<in> K'" for k k'
  proof -
    have "take d k = take d k'" using assms(1) len(3) that by (simp add: keyset_def)
    then show ?thesis
      using len(1,2) [OF that(1)] len(1,2) [OF that(2)] assms(2) by (simp only: take_Suc_conv_app_nth)
  qed
  then show ?thesis using len(1) unfolding keyset_def by blast
qed

lemma keyset_pair: "keyset d K \<Longrightarrow> k \<in> K \<Longrightarrow> k' \<in> K \<Longrightarrow> take d k = take d k' \<and> length k = 32 \<and> length k' = 32"
  unfolding keyset_def by blast

lemma keyset_full: "keyset 32 K \<Longrightarrow> k \<in> K \<Longrightarrow> k' \<in> K \<Longrightarrow> k = k'"
  by (auto simp: keyset_def)

subsection \<open>The canonical tree\<close>

definition single_leaf :: "content \<Rightarrow> bytes" where
  "single_leaf m = (let k = the_elem (dom m) in leaf_data k (the (m k)))"

primrec node :: "(bytes \<Rightarrow> bytes) \<Rightarrow> nat \<Rightarrow> content \<Rightarrow> bytes" where
  "node h 0 m = single_leaf m"
| "node h (Suc n) m = (if is_singleton (dom m) then single_leaf m
    else internal_data (map (\<lambda>i. let ms = sub (31 - n) (of_nat i) m
      in if ms = Map.empty then EmptyHash else h (node h n ms)) [0..<256]))"

definition canon :: "(bytes \<Rightarrow> bytes) \<Rightarrow> nat \<Rightarrow> content \<Rightarrow> bytes" where
  "canon h n m = (if m = Map.empty then EmptyHash else h (node h n m))"

definition kids :: "(bytes \<Rightarrow> bytes) \<Rightarrow> nat \<Rightarrow> content \<Rightarrow> bytes list" where
  "kids h n m = map (\<lambda>i. canon h n (sub (31 - n) (of_nat i) m)) [0..<256]"

primrec nodes :: "(bytes \<Rightarrow> bytes) \<Rightarrow> nat \<Rightarrow> content \<Rightarrow> bytes set" where
  "nodes h 0 m = (if m = Map.empty then {} else {node h 0 m})"
| "nodes h (Suc n) m = (if m = Map.empty then {} else insert (node h (Suc n) m)
    (if is_singleton (dom m) then {} else \<Union>b. nodes h n (sub (31 - n) b m)))"

lemma node_Suc: "node h (Suc n) m = (if is_singleton (dom m) then single_leaf m else internal_data (kids h n m))"
  by (simp add: kids_def canon_def Let_def)

declare node.simps(2) [simp del]

lemma nodes_empty [simp]: "nodes h n Map.empty = {}"
  by (cases n) simp_all

lemma node_in: "m \<noteq> Map.empty \<Longrightarrow> node h n m \<in> nodes h n m"
  by (cases n) simp_all

lemma canon_empty [simp]: "canon h n Map.empty = EmptyHash"
  by (simp add: canon_def)

lemma node_single: "dom m = {k} \<Longrightarrow> node h n m = leaf_data k (the (m k))"
  by (cases n) (simp_all add: single_leaf_def node_Suc)

lemma nodes_single: "dom m = {k} \<Longrightarrow> nodes h n m = {leaf_data k (the (m k))}"
  using node_single [of m k h n] by (cases n) auto

lemma kids_nth: "i < 256 \<Longrightarrow> kids h n m ! i = canon h n (sub (31 - n) (of_nat i) m)"
  by (simp add: kids_def)

lemma kids_byte: "kids h n m ! unat b = canon h n (sub (31 - n) b m)" for b :: u8
proof -
  have "unat b < 256" using unsigned_less [of b] by simp
  then show ?thesis by (simp add: kids_nth)
qed

lemma length_kids [simp]: "length (kids h n m) = 256"
  by (simp add: kids_def)

subsection \<open>Hashes and stores\<close>

definition sound :: "(bytes \<Rightarrow> bytes) \<Rightarrow> bytes set \<Rightarrow> bool" where
  "sound h D \<longleftrightarrow> inj_on h D \<and> (\<forall>x\<in>D. length (h x) = 32 \<and> h x \<noteq> EmptyHash)"

definition good :: "(bytes \<Rightarrow> bytes) \<Rightarrow> bytes set \<Rightarrow> store \<Rightarrow> bool" where
  "good h D st \<longleftrightarrow> (\<forall>k v. st k = Some v \<longrightarrow> v \<in> D \<and> k = h v)"

definition holds :: "(bytes \<Rightarrow> bytes) \<Rightarrow> store \<Rightarrow> nat \<Rightarrow> content \<Rightarrow> bool" where
  "holds h st n m \<longleftrightarrow> (\<forall>x\<in>nodes h n m. st (h x) = Some x)"

definition ext :: "(bytes \<Rightarrow> bytes) \<Rightarrow> bytes set \<Rightarrow> store \<Rightarrow> store \<Rightarrow> bool" where
  "ext h D st st' \<longleftrightarrow> good h D st' \<and> st \<subseteq>\<^sub>m st'"

lemma ext_refl: "good h D st \<Longrightarrow> ext h D st st"
  by (simp add: ext_def)

lemma ext_trans: "ext h D st st' \<Longrightarrow> ext h D st' st'' \<Longrightarrow> ext h D st st''"
  by (auto simp: ext_def intro: map_le_trans)

lemma ext_good: "ext h D st st' \<Longrightarrow> good h D st'"
  by (simp add: ext_def)

lemma holds_ext: "holds h st n m \<Longrightarrow> ext h D st st' \<Longrightarrow> holds h st' n m"
  by (force simp: holds_def ext_def map_le_def dom_def)

lemma holds_empty [simp]: "holds h st n Map.empty"
  by (simp add: holds_def)

lemma holds_nodes: "holds h st n m \<Longrightarrow> good h D st \<Longrightarrow> nodes h n m \<subseteq> D"
  by (auto simp: holds_def good_def)

lemma store_ext:
  assumes "sound h D" "good h D st" "x \<in> D"
  shows "ext h D st (MemoryStore_Set (h x) x st) \<and> MemoryStore_Set (h x) x st (h x) = Some x"
proof -
  have "arr32 (h x) = h x" using assms by (simp add: sound_def)
  moreover have "v = x" if "st (h x) = Some v" for v
    using assms that by (auto simp: good_def sound_def inj_on_def)
  ultimately show ?thesis
    using assms by (auto simp: ext_def good_def MemoryStore_Set_def map_le_def)
qed

lemma canon_digest:
  "sound h D \<Longrightarrow> nodes h n m \<subseteq> D \<Longrightarrow> length (canon h n m) = 32 \<and> (canon h n m = EmptyHash \<longleftrightarrow> m = Map.empty)"
  using node_in [of m h n] by (auto simp: canon_def sound_def EmptyHash_def)

lemma load_root:
  "sound h D \<Longrightarrow> nodes h n m \<subseteq> D \<Longrightarrow> holds h st n m \<Longrightarrow> m \<noteq> Map.empty \<Longrightarrow>
    loadNode st (canon h n m) = Inr (node h n m)"
  using node_in [of m h n] by (auto simp: canon_def sound_def holds_def loadNode_def MemoryStore_Get_def)

lemma nodes_sub:
  "m \<noteq> Map.empty \<Longrightarrow> \<not> is_singleton (dom m) \<Longrightarrow> nodes h n (sub (31 - n) b m) \<subseteq> nodes h (Suc n) m"
  by auto

lemma holds_sub: "holds h st (Suc n) m \<Longrightarrow> \<not> is_singleton (dom m) \<Longrightarrow> holds h st n (sub (31 - n) b m)"
  by (cases "m = Map.empty") (auto simp: holds_def)

lemma kids_child_list:
  assumes "sound h D" "\<And>b. nodes h n (sub (31 - n) b m) \<subseteq> D"
  shows "child_list (kids h n m)"
  using canon_digest [OF assms(1) assms(2)] by (auto simp: child_list_def kids_def)

end
