(* ===== verification/SmtUpdate.thy ===== *)
theory SmtUpdate
  imports SmtTree
begin

text \<open>
  The functional correctness of \<^verbatim>\<open>updateBatchParallel\<close>: storing a leaf, loading the children, collapsing
  a node, distributing a sorted window over the children, and the recursion over the levels.
\<close>

subsection \<open>Single steps\<close>

lemma store_value_ok:
  assumes "sound h D" "good h D st" "nodes h n (overlay [x] Map.empty) \<subseteq> D"
  shows "\<exists>st'. store_value h x st = (canon h n (overlay [x] Map.empty), st') \<and> ext h D st st' \<and>
    holds h st' n (overlay [x] Map.empty)"
proof (cases "snd x")
  case None
  then have "overlay [x] Map.empty = Map.empty" by (cases x) (auto simp: overlay_def)
  then show ?thesis using None assms(2) by (simp add: store_value_def ext_refl)
next
  case (Some v)
  define m where "m = overlay [x] Map.empty"
  have m: "m = [fst x \<mapsto> v]" using Some by (cases x) (auto simp: m_def overlay_def)
  then have n: "nodes h n m = {leaf_data (fst x) v}" "canon h n m = h (leaf_data (fst x) v)"
    using nodes_single [of m "fst x" h n] node_single [of m "fst x" h n] by (simp_all add: canon_def)
  then have "leaf_data (fst x) v \<in> D" using assms(3) by (simp add: m_def [symmetric])
  from store_ext [OF assms(1,2) this] show ?thesis
    using Some n by (simp add: store_value_def storeLeaf_def holds_def Let_def m_def [symmetric])
qed

lemma kids_empty: "kids h n Map.empty = replicate 256 EmptyHash"
  by (simp add: kids_def map_replicate_const)

lemma load_children_ok:
  assumes "sound h D" "good h D st" "holds h st (Suc n) m"
  shows "load_children st (canon h (Suc n) m) = Inr (kids h n (if is_singleton (dom m) then Map.empty else m))"
proof (cases "m = Map.empty")
  case True
  then show ?thesis by (simp add: load_children_def kids_empty)
next
  case False
  have D: "nodes h (Suc n) m \<subseteq> D" using assms by (rule_tac holds_nodes)
  have load: "loadNode st (canon h (Suc n) m) = Inr (node h (Suc n) m)" by (rule load_root [OF assms(1) D assms(3) False])
  have ne: "canon h (Suc n) m \<noteq> EmptyHash" using canon_digest [OF assms(1) D] False by simp
  show ?thesis
  proof (cases "is_singleton (dom m)")
    case True
    then have "at (node h (Suc n) m) 0 = Inr 1" by (simp add: node_Suc single_leaf_def leaf_data_def at_def Let_def)
    then show ?thesis using True load ne by (simp add: load_children_def kids_empty)
  next
    case nsing: False
    have "child_list (kids h n m)"
      using nodes_sub [OF False nsing] D by (intro kids_child_list [OF assms(1)]) blast
    then show ?thesis using load_internal [OF _ ne] load nsing by (simp add: node_Suc)
  qed
qed

lemma filter_upt_single: "c < n \<Longrightarrow> (\<And>i. i < n \<Longrightarrow> P i \<longleftrightarrow> i = c) \<Longrightarrow> filter P [0..<n] = [c]"
proof (induction n)
  case (Suc n)
  then show ?case by (cases "c = n") (auto simp: filter_empty_conv)
qed simp

lemma one_elem: "length xs = 1 \<Longrightarrow> \<exists>c. xs = [c]"
  by (cases xs) simp_all

lemma unat_of_nat_byte: "i < 256 \<Longrightarrow> unat (of_nat i :: u8) = i"
  by (simp add: unat_of_nat take_bit_eq_mod)

lemma unat_byte: "unat (b :: u8) < 256"
  using unsigned_less [of b] by simp

lemma collapse_ok:
  assumes "sound h D" "good h D st" "nodes h (Suc n) m \<subseteq> D"
    and held: "\<And>b. holds h st n (sub (31 - n) b m)" and keys: "keyset (31 - n) (dom m)" "n \<le> 31"
  shows "\<exists>st'. collapse h (kids h n m) st = (canon h (Suc n) m, st') \<and> ext h D st st' \<and> holds h st' (Suc n) m"
proof -
  have D: "nodes h n (sub (31 - n) b m) \<subseteq> D" for b using held assms(2) by (rule holds_nodes)
  have kid: "kids h n m ! i = EmptyHash \<longleftrightarrow> sub (31 - n) (of_nat i) m = Map.empty" if "i < 256" for i
    using canon_digest [OF assms(1) D] that by (simp add: kids_nth)
  let ?act = "filter (\<lambda>i. kids h n m ! i \<noteq> EmptyHash) [0..<256]"
  have in_act: "i \<in> set ?act \<longleftrightarrow> i < 256 \<and> sub (31 - n) (of_nat i) m \<noteq> Map.empty" for i
    using kid by auto
  have act_key: "unat (k ! (31 - n)) \<in> set ?act" if "k \<in> dom m" for k
  proof -
    have "sub (31 - n) (of_nat (unat (k ! (31 - n)))) m k \<noteq> None" using that by (auto simp: sub_apply)
    then show ?thesis unfolding in_act using unat_byte by fastforce
  qed
  consider "m = Map.empty" | k where "dom m = {k}" | "m \<noteq> Map.empty" "\<not> is_singleton (dom m)"
    by (auto simp: is_singleton_def)
  then show ?thesis
  proof cases
    case 1
    then have "?act = []" using in_act by (auto simp: filter_empty_conv)
    then show ?thesis using 1 assms(2) by (simp add: collapse_def ext_refl)
  next
    case 2
    let ?c = "unat (k ! (31 - n))"
    have sub: "sub (31 - n) (k ! (31 - n)) m = m" using 2 by (auto simp: sub_apply fun_eq_iff)
    have ne: "m \<noteq> Map.empty" using 2 by auto
    have "sub (31 - n) (of_nat i) m = Map.empty" if "i < 256" "i \<noteq> ?c" for i
    proof -
      have "k ! (31 - n) \<noteq> of_nat i" using that unat_of_nat_byte by metis
      then have "dom (sub (31 - n) (of_nat i) m) = {}" using 2 by (auto simp: dom_sub)
      then show ?thesis by simp
    qed
    then have act: "?act = [?c]" using kid sub ne unat_byte
      by (intro filter_upt_single) (auto simp: kids_byte)
    have kidc: "kids h n m ! ?c = canon h n m" by (simp add: kids_byte sub)
    have hn: "holds h st n m" using held [of "k ! (31 - n)"] by (simp add: sub)
    have "nodes h n m \<subseteq> D" using D [of "k ! (31 - n)"] by (simp add: sub)
    then have "loadNode st (canon h n m) = Inr (node h n m)" by (rule load_root [OF assms(1) _ hn ne])
    then have "collapse h (kids h n m) st = (canon h n m, st)"
      using act kidc by (simp add: collapse_def node_single [OF 2] leaf_data_def at_def)
    then show ?thesis using hn assms(2) node_single [OF 2, of h] nodes_single [OF 2, of h] ne
      by (simp add: ext_refl canon_def holds_def del: nodes.simps)
  next
    case 3
    then obtain k where k: "k \<in> dom m" by fastforce
    have ne: "?act \<noteq> []"
    proof
      assume "?act = []"
      then show False using act_key [OF k] by (simp only: list.set empty_iff)
    qed
    have nd: "node h (Suc n) m = internal_data (kids h n m)" using 3 by (simp add: node_Suc)
    have noleaf: "\<not> (length ?act = 1 \<and>
        (case loadNode st (kids h n m ! last ?act) of Inl e \<Rightarrow> False | Inr data \<Rightarrow> at data 0 = Inr 1))"
    proof
      assume a: "length ?act = 1 \<and> (case loadNode st (kids h n m ! last ?act) of Inl e \<Rightarrow> False | Inr data \<Rightarrow> at data 0 = Inr 1)"
      then obtain c where c: "?act = [c]" using one_elem by blast
      have all: "k' ! (31 - n) = k ! (31 - n)" if "k' \<in> dom m" for k'
        using act_key [OF that] act_key [OF k] by (simp add: c word_unat_eq_iff)
      then have sub: "sub (31 - n) (k ! (31 - n)) m = m" by (rule sub_all)
      have "c = unat (k ! (31 - n))" using act_key [OF k] by (simp add: c)
      then have kidc: "kids h n m ! last ?act = canon h n m" by (simp add: c kids_byte sub)
      have "holds h st n m" using held [of "k ! (31 - n)"] by (simp add: sub)
      moreover have "nodes h n m \<subseteq> D" using D [of "k ! (31 - n)"] by (simp add: sub)
      ultimately have "loadNode st (canon h n m) = Inr (node h n m)" using load_root [OF assms(1)] 3(1) by blast
      then have one: "at (node h n m) 0 = Inr 1" using a kidc by simp
      have "\<exists>n'. n = Suc n'"
      proof (cases n)
        case 0
        then have "keyset 32 (dom m)" using keyset_Suc [OF keys(1), of "dom m" "k ! (31 - n)"] all by auto
        then have "dom m = {k}" using k keyset_full by blast
        then show ?thesis using 3(2) by simp
      qed simp
      then have "at (node h n m) 0 = Inr 0" using 3(2) by (auto simp: node_Suc)
      then show False using one by simp
    qed
    then have col: "collapse h (kids h n m) st = storeInternal h (kids h n m) st"
      unfolding collapse_def Let_def by (simp only: length_0_conv ne noleaf if_False)
    have "node h (Suc n) m \<in> D" using node_in [OF 3(1), of h "Suc n"] assms(3) by blast
    from store_ext [OF assms(1,2) this]
    have e: "ext h D st (MemoryStore_Set (h (node h (Suc n) m)) (node h (Suc n) m) st)"
      "MemoryStore_Set (h (node h (Suc n) m)) (node h (Suc n) m) st (h (node h (Suc n) m)) = Some (node h (Suc n) m)"
      by blast+
    have "holds h (MemoryStore_Set (h (node h (Suc n) m)) (node h (Suc n) m) st) (Suc n) m"
      using holds_ext [OF held e(1)] e(2) 3 by (auto simp: holds_def)
    then show ?thesis using e(1) 3(1) by (simp add: col storeInternal_def nd canon_def Let_def)
  qed
qed

subsection \<open>Windows of a batch\<close>

definition win :: "kv list \<Rightarrow> nat \<Rightarrow> nat \<Rightarrow> kv list" where
  "win arr lo hi = drop lo (take hi arr)"

definition valid :: "nat \<Rightarrow> kv list \<Rightarrow> content \<Rightarrow> bool" where
  "valid d w m \<longleftrightarrow> sorted (map fst w) \<and> distinct (map fst w) \<and> keyset d (fst ` set w \<union> dom m)"

definition safe :: "kv list \<Rightarrow> nat \<Rightarrow> nat \<Rightarrow> content \<Rightarrow> bool" where
  "safe arr lo hi m \<longleftrightarrow> m = Map.empty \<or> (\<forall>j. lo \<le> j \<longrightarrow> j < hi \<longrightarrow> j + 1 < length arr \<longrightarrow> fst (arr ! j) \<in> dom m)"

definition safe_parts :: "nat \<Rightarrow> kv list \<Rightarrow> nat \<Rightarrow> nat \<Rightarrow> content \<Rightarrow> bool" where
  "safe_parts d arr lo hi m \<longleftrightarrow> (\<forall>j. lo \<le> j \<longrightarrow> j < hi \<longrightarrow> j + 1 < length arr \<longrightarrow>
    (let ms = sub d (fst (arr ! j) ! d) m in ms = Map.empty \<or> fst (arr ! j) \<in> dom ms))"

lemma length_win: "hi \<le> length arr \<Longrightarrow> length (win arr lo hi) = hi - lo"
  by (simp add: win_def)

lemma win_nth: "hi \<le> length arr \<Longrightarrow> i < hi - lo \<Longrightarrow> win arr lo hi ! i = arr ! (lo + i)"
  by (simp add: win_def)

lemma win_empty: "hi \<le> lo \<Longrightarrow> win arr lo hi = []"
  by (simp add: win_def)

lemma win_append: "lo \<le> e \<Longrightarrow> e \<le> hi \<Longrightarrow> win arr lo hi = win arr lo e @ win arr e hi"
proof -
  assume a: "lo \<le> e" "e \<le> hi"
  have "take hi arr = take e arr @ drop e (take hi arr)" using a by (metis append_take_drop_id min.absorb1 take_take)
  then show ?thesis using a by (cases "e \<le> length arr") (auto simp: win_def drop_take)
qed

lemma win_set:
  assumes "hi \<le> length arr"
  shows "x \<in> set (win arr lo hi) \<longleftrightarrow> (\<exists>j. lo \<le> j \<and> j < hi \<and> x = arr ! j)"
proof
  assume "x \<in> set (win arr lo hi)"
  then obtain i where "i < hi - lo" "x = win arr lo hi ! i" using assms by (auto simp: in_set_conv_nth length_win)
  then show "\<exists>j. lo \<le> j \<and> j < hi \<and> x = arr ! j" using assms by (intro exI [of _ "lo + i"]) (simp add: win_nth)
next
  assume "\<exists>j. lo \<le> j \<and> j < hi \<and> x = arr ! j"
  then obtain j where "lo \<le> j" "j < hi" "x = arr ! j" by blast
  then show "x \<in> set (win arr lo hi)"
    using nth_mem [of "j - lo" "win arr lo hi"] win_nth [of hi arr "j - lo" lo] assms by (simp add: length_win)
qed

lemma safe_parts: "safe arr lo hi m \<Longrightarrow> safe_parts d arr lo hi m"
  by (auto simp: safe_def safe_parts_def Let_def dom_sub)

lemma valid_part: "valid d w m \<Longrightarrow> w = u @ v @ u' \<Longrightarrow> dom m' \<subseteq> fst ` set w \<union> dom m \<Longrightarrow> valid d v m'"
  unfolding valid_def by (auto simp: sorted_append elim!: keyset_mono)

text \<open>Sorted keys with a common prefix are sorted by the next byte.\<close>

lemma byte_mono:
  assumes "k \<le> (k' :: bytes)" "take d k = take d k'" "length k = 32" "length k' = 32" "d < 32"
  shows "k ! d \<le> k' ! d"
proof -
  have "k = take d k @ k ! d # drop (Suc d) k" "k' = take d k' @ k' ! d # drop (Suc d) k'"
    using assms(3-5) by (intro id_take_nth_drop; simp)+
  then have "k = take d k @ k ! d # drop (Suc d) k" "k' = take d k @ k' ! d # drop (Suc d) k'"
    using assms(2) by simp_all
  moreover have "p @ a # s \<le> p @ b # t \<Longrightarrow> a \<le> b" for p s t and a b :: u8
    by (induction p) auto
  ultimately show ?thesis using assms(1) by metis
qed

lemma group_end_props:
  "i \<le> hi \<Longrightarrow> group_end arr d b i hi \<le> hi \<and>
    (\<forall>j. i \<le> j \<longrightarrow> j < group_end arr d b i hi \<longrightarrow> fst (arr ! j) ! d = b) \<and>
    (group_end arr d b i hi < hi \<longrightarrow> fst (arr ! group_end arr d b i hi) ! d \<noteq> b)"
proof (induction arr d b i hi rule: group_end.induct)
  case (1 arr d b i hi)
  show ?case
  proof (cases "i < hi \<and> fst (arr ! i) ! d = b")
    case True
    then have "group_end arr d b i hi = group_end arr d b (i + 1) hi" by (subst group_end.simps) simp
    moreover have "i + 1 \<le> j \<or> j = i" if "i \<le> j" for j using that by auto
    ultimately show ?thesis using 1 True by (metis Suc_eq_plus1 Suc_leI)
  next
    case False
    then have "group_end arr d b i hi = i" by (subst group_end.simps) auto
    then show ?thesis using False 1(2) by auto
  qed
qed

lemma group_split:
  assumes "valid d (win arr start hi) m" "hi \<le> length arr" "start < hi" "d < 32"
  defines "b \<equiv> fst (arr ! start) ! d"
  defines "e \<equiv> group_end arr d b (start + 1) hi"
  shows "start < e" "e \<le> hi" "win arr start hi = win arr start e @ win arr e hi"
    "\<And>x. x \<in> set (win arr start e) \<Longrightarrow> fst x ! d = b" "\<And>x. x \<in> set (win arr e hi) \<Longrightarrow> fst x ! d \<noteq> b"
proof -
  show e: "start < e" "e \<le> hi"
    using group_end_le [of "start + 1" arr d b hi] group_end_props [of "start + 1" hi arr d b] assms(3)
    by (auto simp: e_def)
  then show w: "win arr start hi = win arr start e @ win arr e hi" by (intro win_append) auto
  show "fst x ! d = b" if x: "x \<in> set (win arr start e)" for x
  proof -
    obtain j where j: "start \<le> j" "j < e" "x = arr ! j" using x e assms(2) by (auto simp: win_set)
    then show ?thesis
      using group_end_props [of "start + 1" hi arr d b] assms(3) by (cases "j = start") (auto simp: b_def e_def)
  qed
  show "fst x ! d \<noteq> b" if x: "x \<in> set (win arr e hi)" for x
  proof -
    obtain j where j: "e \<le> j" "j < hi" "x = arr ! j" using x assms(2) by (auto simp: win_set)
    then have ehi: "e < hi" by simp
    have v: "valid d (win arr start hi) m" by (rule assms(1))
    have nth: "win arr start hi ! (i - start) = arr ! i" if "start \<le> i" "i < hi" for i
      using win_nth [OF assms(2), of "i - start" start] that by simp
    have srt: "sorted (map fst (win arr start hi))" using v by (simp add: valid_def)
    have le: "fst (arr ! i) \<le> fst (arr ! i')" if "start \<le> i" "i \<le> i'" "i' < hi" for i i'
    proof -
      have "map fst (win arr start hi) ! (i - start) \<le> map fst (win arr start hi) ! (i' - start)"
        using that by (intro sorted_nth_mono [OF srt]) (simp_all add: length_win [OF assms(2)])
      then show ?thesis using that by (simp add: nth length_win [OF assms(2)])
    qed
    have mem: "fst (arr ! i) \<in> fst ` set (win arr start hi) \<union> dom m" if "start \<le> i" "i < hi" for i
      using that win_set [OF assms(2), of "arr ! i" start] by blast
    have bm: "fst (arr ! i) ! d \<le> fst (arr ! i') ! d" if "start \<le> i" "i \<le> i'" "i' < hi" for i i'
    proof -
      have "keyset d (fst ` set (win arr start hi) \<union> dom m)" using v by (simp add: valid_def)
      from keyset_pair [OF this mem mem, of i i'] that show ?thesis
        by (intro byte_mono [OF le [OF that]]) (simp_all add: assms(4))
    qed
    have "b \<le> fst (arr ! e) ! d" "fst (arr ! e) ! d \<le> fst x ! d"
      unfolding b_def using bm [of start e] bm [of e j] e j by auto
    moreover have "fst (arr ! e) ! d \<noteq> b"
      using group_end_props [of "start + 1" hi arr d b] assms(3) ehi by (simp add: e_def)
    ultimately show ?thesis by auto
  qed
qed

subsection \<open>Batches\<close>

text \<open>What \<^verbatim>\<open>updateBatchParallel\<close> does at depth \<open>d\<close>, with \<open>n\<close> levels left.\<close>

definition correct_at :: "(bytes \<Rightarrow> bytes) \<Rightarrow> bytes set \<Rightarrow> nat \<Rightarrow> nat \<Rightarrow> bool" where
  "correct_at h D n d \<longleftrightarrow> (\<forall>st arr lo hi m. let m' = overlay (win arr lo hi) m in
    good h D st \<longrightarrow> holds h st n m \<longrightarrow> valid d (win arr lo hi) m \<longrightarrow> lo \<le> hi \<longrightarrow> hi \<le> length arr \<longrightarrow>
    safe arr lo hi m \<longrightarrow> nodes h n m' \<subseteq> D \<longrightarrow>
    (\<exists>st'. updateBatch h st arr (canon h n m) lo hi d = Inr (canon h n m', st', arr) \<and>
      ext h D st st' \<and> holds h st' n m'))"

lemma correct_atD:
  assumes "correct_at h D n d" "good h D st" "holds h st n m" "valid d (win arr lo hi) m" "lo \<le> hi" "hi \<le> length arr"
    "safe arr lo hi m" "nodes h n (overlay (win arr lo hi) m) \<subseteq> D"
  shows "\<exists>st'. updateBatch h st arr (canon h n m) lo hi d = Inr (canon h n (overlay (win arr lo hi) m), st', arr) \<and>
      ext h D st st' \<and> holds h st' n (overlay (win arr lo hi) m)"
  using assms unfolding correct_at_def Let_def by blast

lemma filter_bytes:
  "(\<And>x. x \<in> set w \<Longrightarrow> fst x ! d = b) \<Longrightarrow> filter (\<lambda>x. fst x ! d = b') w = (if b' = b then w else [])"
  by (auto simp: filter_empty_conv filter_id_conv)

lemma overlay_append:
  "fst ` set u \<inter> fst ` set v = {} \<Longrightarrow> overlay v (overlay u m) = overlay (u @ v) m"
proof (rule ext)
  fix k assume "fst ` set u \<inter> fst ` set v = {}"
  then have "map_of u k = None \<or> map_of v k = None" unfolding map_of_eq_None_iff by blast
  then show "overlay v (overlay u m) k = overlay (u @ v) m k"
    by (auto simp: overlay_def map_add_def split: option.splits)
qed

lemma kids_update:
  assumes "\<And>x. x \<in> set w \<Longrightarrow> fst x ! (31 - n) = b"
  shows "(kids h n m)[unat b := canon h n (overlay w (sub (31 - n) b m))] = kids h n (overlay w m)"
proof (rule nth_equalityI)
  fix i assume "i < length ((kids h n m)[unat b := canon h n (overlay w (sub (31 - n) b m))])"
  then have i: "i < 256" by simp
  show "(kids h n m)[unat b := canon h n (overlay w (sub (31 - n) b m))] ! i = kids h n (overlay w m) ! i"
  proof (cases "i = unat b")
    case True
    then show ?thesis using i filter_bytes [of w "31 - n" b b, OF assms] by (simp add: kids_byte sub_overlay)
  next
    case False
    then have "of_nat i \<noteq> b" using unat_of_nat_byte [OF i] by auto
    then show ?thesis using False i filter_bytes [of w "31 - n" b "of_nat i", OF assms]
      by (simp add: kids_nth sub_overlay)
  qed
qed simp

lemma distribute_ok:
  assumes "correct_at h D n (Suc d)" "d + n = 31"
    and "good h D st" "\<And>b. holds h st n (sub d b m)"
    and "valid d (win arr start hi) m" "hi \<le> length arr" "safe_parts d arr start hi m"
    and "\<And>b. nodes h n (sub d b (overlay (win arr start hi) m)) \<subseteq> D"
  shows "\<exists>st'. distribute h st arr (kids h n m) start hi d = Inr (kids h n (overlay (win arr start hi) m), st', arr) \<and>
    ext h D st st' \<and> (\<forall>b. holds h st' n (sub d b (overlay (win arr start hi) m)))"
  using assms(3-)
proof (induction "hi - start" arbitrary: st start m rule: less_induct)
  case less
  note hold = less.prems(2) and val = less.prems(3) and hi = less.prems(4) and sf = less.prems(5) and nd = less.prems(6)
  show ?case
  proof (cases "start < hi")
    case False
    then show ?thesis using less.prems(1) hold by (subst distribute.simps) (simp add: win_empty ext_refl)
  next
    case True
    have d: "d < 32" "31 - n = d" using assms(2) by simp_all
    define b where "b = fst (arr ! start) ! d"
    define e where "e = group_end arr d b (start + 1) hi"
    define W G R where "W = win arr start hi" and "G = win arr start e" and "R = win arr e hi"
    note sp = group_split [OF val hi True d(1), folded b_def, folded e_def, folded W_def G_def R_def]
    have G: "filter (\<lambda>x. fst x ! d = b') G = (if b' = b then G else [])" for b'
      using sp(4) by (rule filter_bytes)
    have R: "filter (\<lambda>x. fst x ! d = b) R = []" using sp(5) by (auto simp: filter_empty_conv)
    have subW: "sub d b (overlay W m) = overlay G (sub d b m)" by (simp add: sub_overlay sp(3) G R)
    have disj: "fst ` set G \<inter> fst ` set R = {}" using sp(4,5) by fastforce
    have domG: "dom (overlay G m) \<subseteq> fst ` set W \<union> dom m" using dom_overlay [of G m] by (auto simp: sp(3))
    have vW: "valid d W m" using val by (simp add: W_def)
    have vG: "valid (Suc d) G (sub d b m)"
    proof -
      have "valid d G m" by (rule valid_part [OF vW, of "[]" _ R]) (auto simp: sp(3))
      moreover have "fst ` set G \<union> dom (sub d b m) \<subseteq> {k \<in> fst ` set G \<union> dom m. k ! d = b}"
        using sp(4) by (auto simp: dom_sub)
      ultimately show ?thesis unfolding valid_def using keyset_Suc [OF _ d(1)] by blast
    qed
    have sG: "safe arr start e (sub d b m)"
    proof -
      have byte: "fst (arr ! j) ! d = b" if "start \<le> j" "j < e" for j
        using that sp(2) hi by (intro sp(4)) (auto simp: G_def win_set)
      have "sub d b m = Map.empty \<or> fst (arr ! j) \<in> dom (sub d b m)"
        if j: "start \<le> j" "j < e" "j + 1 < length arr" for j
      proof -
        have "j < hi" using j(2) sp(2) by simp
        then show ?thesis using sf j(1,3) byte [OF j(1,2)] unfolding safe_parts_def Let_def by blast
      qed
      then show ?thesis unfolding safe_def by blast
    qed
    have "nodes h n (overlay G (sub d b m)) \<subseteq> D" using nd [of b] subW by (simp add: W_def)
    then obtain st1 where st1: "updateBatch h st arr (canon h n (sub d b m)) start e (Suc d) = Inr (canon h n (overlay G (sub d b m)), st1, arr)"
      "ext h D st st1" "holds h st1 n (overlay G (sub d b m))"
      using correct_atD [OF assms(1) less.prems(1) hold vG [unfolded G_def] _ _ sG] sp(1,2) hi by (auto simp: G_def)
    have subG: "sub d b' (overlay G m) = (if b' = b then overlay G (sub d b m) else sub d b' m)" for b'
      by (simp add: sub_overlay G)
    have ov: "overlay R (overlay G m) = overlay W m" by (simp add: overlay_append [OF disj] sp(3))
    have "\<exists>st'. distribute h st1 arr (kids h n (overlay G m)) e hi d = Inr (kids h n (overlay R (overlay G m)), st', arr) \<and>
        ext h D st1 st' \<and> (\<forall>b. holds h st' n (sub d b (overlay R (overlay G m))))"
      unfolding R_def
    proof (rule less.hyps)
      show "hi - e < hi - start" using sp(1) True by simp
      show "good h D st1" using st1(2) by (rule ext_good)
      show "holds h st1 n (sub d b' (overlay G m))" for b'
        using st1(3) holds_ext [OF hold st1(2)] by (simp add: subG)
      show "valid d (win arr e hi) (overlay G m)"
        by (rule valid_part [OF vW _ domG, of G _ "[]"]) (simp add: sp(3) R_def)
      show "hi \<le> length arr" by (rule hi)
      show "safe_parts d arr e hi (overlay G m)"
      proof -
        have "fst (arr ! j) ! d \<noteq> b" if "e \<le> j" "j < hi" for j
          using sp(5) [of "arr ! j"] that hi by (auto simp: R_def win_set)
        then show ?thesis using sf sp(1) by (auto simp: safe_parts_def Let_def subG)
      qed
      show "nodes h n (sub d b' (overlay (win arr e hi) (overlay G m))) \<subseteq> D" for b'
        using nd [of b'] ov by (simp add: R_def [symmetric] W_def [symmetric])
    qed
    then obtain st' where st': "distribute h st1 arr (kids h n (overlay G m)) e hi d = Inr (kids h n (overlay W m), st', arr)"
      "ext h D st1 st'" "\<forall>b. holds h st' n (sub d b (overlay W m))" by (auto simp: ov)
    have ku: "(kids h n m)[unat b := canon h n (overlay G (sub d b m))] = kids h n (overlay G m)"
      using kids_update [of G n b h m] sp(4) d(2) by simp
    have "distribute h st arr (kids h n m) start hi d = Inr (kids h n (overlay W m), st', arr)"
      using True d(1) st1(1) st'(1) kids_byte [of h n m b] ku
      by (subst distribute.simps) (simp add: Let_def d(2) b_def [symmetric] e_def [symmetric, simplified])
    then show ?thesis using ext_trans [OF st1(2) st'(2)] st'(3) by (auto simp: W_def)
  qed
qed

lemma nodes_part:
  assumes "31 - n = d" "nodes h (Suc n) m \<subseteq> D"
  shows "nodes h n (sub d b m) \<subseteq> D"
proof (cases "is_singleton (dom m)")
  case True
  then obtain k where k: "dom m = {k}" by (auto simp: is_singleton_def)
  have "nodes h n (sub d b m) \<subseteq> nodes h (Suc n) m"
  proof (cases "k ! d = b")
    case True
    then have "sub d b m = m" using k by (intro sub_all) simp
    then show ?thesis using nodes_single [OF k, of h] by (simp del: nodes.simps)
  next
    case False
    then have "dom (sub d b m) = {}" using k by (simp add: dom_sub)
    then have "sub d b m = Map.empty" by simp
    then show ?thesis by simp
  qed
  then show ?thesis using assms(2) by blast
next
  case False
  then show ?thesis using nodes_sub [of m h n b] assms by (cases "m = Map.empty") (simp_all add: subset_trans)
qed

text \<open>After a leaf has joined the batch, the children are rewritten and the node is collapsed.\<close>

lemma rewrite_node:
  assumes "sound h D" "correct_at h D n (Suc d)" "d + n = 31" "good h D st" "\<And>b. holds h st n (sub d b m)"
    and "valid d (win arr lo hi) m" "hi \<le> length arr" "safe_parts d arr lo hi m"
    and "overlay (win arr lo hi) m = m'" "nodes h (Suc n) m' \<subseteq> D"
  shows "\<exists>st2 st'. distribute h st arr (kids h n m) lo hi d = Inr (kids h n m', st2, arr) \<and>
    collapse h (kids h n m') st2 = (canon h (Suc n) m', st') \<and> ext h D st st' \<and> holds h st' (Suc n) m'"
proof -
  have d: "31 - n = d" using assms(3) by simp
  have km: "keyset d (dom m')"
    using assms(6) dom_overlay [of "win arr lo hi" m] assms(9) by (auto simp: valid_def elim!: keyset_mono)
  have nd: "nodes h n (sub d b m') \<subseteq> D" for b by (rule nodes_part [OF d assms(10)])
  obtain st2 where st2: "distribute h st arr (kids h n m) lo hi d = Inr (kids h n m', st2, arr)"
    "ext h D st st2" "\<forall>b. holds h st2 n (sub d b m')"
    using distribute_ok [OF assms(2-8)] nd by (auto simp: assms(9))
  obtain st' where "collapse h (kids h n m') st2 = (canon h (Suc n) m', st')" "ext h D st2 st'" "holds h st' (Suc n) m'"
    using collapse_ok [OF assms(1) ext_good [OF st2(2)] assms(10)] st2(3) km d assms(3) by auto
  then show ?thesis using st2(1) ext_trans [OF st2(2)] by blast
qed

text \<open>The array after a leaf has joined at its end.\<close>

lemma joined_array:
  assumes "valid d w m" "dom m = {k}" "k \<notin> fst ` set w" "m k = Some v"
  defines "arr \<equiv> sort_key fst (w @ [(k, Some v)])"
  shows "valid d arr Map.empty" "overlay arr Map.empty = overlay w m"
proof -
  have dist: "distinct (map fst (w @ [(k, Some v)]))" using assms(1,3) by (auto simp: valid_def)
  have mset: "mset (map fst arr) = mset (map fst (w @ [(k, Some v)]))" by (simp add: arr_def)
  have da: "distinct (map fst arr)" using dist mset_eq_imp_distinct_iff [OF mset] by blast
  have set: "set arr = insert (k, Some v) (set w)" by (simp add: arr_def)
  have ks: "fst ` set arr \<union> dom Map.empty = fst ` set w \<union> dom m" using assms(2) by (auto simp: set)
  show "valid d arr Map.empty"
    unfolding valid_def ks using assms(1) da by (simp add: valid_def arr_def)
  have "map_of arr = map_of (w @ [(k, Some v)])"
    using map_of_inject_set [OF da dist] set by simp
  moreover have "overlay (w @ [(k, Some v)]) Map.empty = overlay w m"
  proof (rule ext)
    fix k'
    show "overlay (w @ [(k, Some v)]) Map.empty k' = overlay w m k'"
    proof (cases "map_of w k'")
      case None
      have "k' \<notin> dom m" if "k' \<noteq> k" using that assms(2) by simp
      then show ?thesis using None assms(4) by (cases "k' = k") (simp_all add: overlay_def map_add_def domIff)
    next
      case (Some x)
      then have "k' \<noteq> k" using assms(3) by (force dest: map_of_SomeD)
      then show ?thesis using Some by (simp add: overlay_def map_add_def)
    qed
  qed
  ultimately show "overlay arr Map.empty = overlay w m" by (simp add: overlay_def)
qed

lemma singleton_window:
  assumes "valid d w m" "w \<noteq> []" "d = 32"
  obtains x where "w = [x]" "overlay w m = overlay [x] Map.empty"
proof -
  have ks: "keyset 32 (fst ` set w \<union> dom m)" "distinct (map fst w)" using assms by (auto simp: valid_def)
  obtain x w' where w: "w = x # w'" using assms(2) by (cases w) auto
  have same: "k = fst x" if "k \<in> fst ` set w \<union> dom m" for k
    using keyset_full [OF ks(1) that] w by simp
  have "w' = []"
  proof (cases w')
    case (Cons y w'')
    then show ?thesis using ks(2) same [of "fst y"] by (simp add: w)
  qed
  moreover have "overlay [x] m = overlay [x] Map.empty"
  proof (rule overlay_cong)
    fix k assume "map_of [x] k = None"
    then have "k \<noteq> fst x" by (cases x) auto
    then have "k \<notin> dom m" using same [of k] by blast
    then show "m k = None" by (simp add: domIff)
  qed
  ultimately show thesis using that w by simp
qed

lemma store_single:
  assumes "sound h D" "good h D st" "nodes h n (overlay [x] Map.empty) \<subseteq> D"
  shows "\<exists>st'. (let (root', st') = store_value h x st in Inr (root', st', arr)) = Inr (canon h n (overlay [x] Map.empty), st', arr) \<and>
    ext h D st st' \<and> holds h st' n (overlay [x] Map.empty)"
proof -
  obtain st' where "store_value h x st = (canon h n (overlay [x] Map.empty), st')" "ext h D st st'"
    "holds h st' n (overlay [x] Map.empty)" using store_value_ok [OF assms] by blast
  then show ?thesis by simp
qed

text \<open>Joining a leaf: the batch \<open>w\<close> over \<open>m\<close> becomes the window \<open>[lo1, hi1)\<close> of \<open>arr1\<close> over \<open>m1\<close>.\<close>

lemma join_leaf_ok:
  assumes "sound h D" "good h D st" "holds h st (Suc n) m" "valid d (win arr lo hi) m" "lo < hi" "hi \<le> length arr"
    "safe arr lo hi m"
  obtains arr1 lo1 hi1 fresh where
    "join_leaf st (canon h (Suc n) m) arr lo hi = Inr (arr1, lo1, hi1, fresh)" "\<not> fresh \<Longrightarrow> arr1 = arr"
    "valid d (win arr1 lo1 hi1) (if is_singleton (dom m) then Map.empty else m)" "hi1 \<le> length arr1"
    "safe_parts d arr1 lo1 hi1 (if is_singleton (dom m) then Map.empty else m)"
    "overlay (win arr1 lo1 hi1) (if is_singleton (dom m) then Map.empty else m) = overlay (win arr lo hi) m"
proof (cases "is_singleton (dom m)")
  case False
  show thesis
  proof (cases "m = Map.empty")
    case True
    then have "join_leaf st (canon h (Suc n) m) arr lo hi = Inr (arr, lo, hi, False)" by (simp add: join_leaf_def)
    from that [OF this] show thesis using assms(4,6) safe_parts [OF assms(7)] False by simp
  next
    case ne: False
    have D: "nodes h (Suc n) m \<subseteq> D" using assms(3,2) by (rule holds_nodes)
    have "at (node h (Suc n) m) 0 = Inr 0" using False by (simp add: node_Suc)
    then have "join_leaf st (canon h (Suc n) m) arr lo hi = Inr (arr, lo, hi, False)"
      using load_root [OF assms(1) D assms(3) ne] by (simp add: join_leaf_def)
    from that [OF this] show thesis using assms(4,6) safe_parts [OF assms(7)] False by simp
  qed
next
  case sing: True
  then obtain k where k: "dom m = {k}" by (auto simp: is_singleton_def)
  then obtain v where v: "m k = Some v" by auto
  have ne: "m \<noteq> Map.empty" using v by auto
  have D: "nodes h (Suc n) m \<subseteq> D" using assms(3,2) by (rule holds_nodes)
  have len: "length k = 32" using assms(4) k by (simp add: valid_def keyset_def)
  have load: "loadNode st (canon h (Suc n) m) = Inr (leaf_data k v)"
    using load_root [OF assms(1) D assms(3) ne] node_single [OF k, of h "Suc n"] v by simp
  have root: "canon h (Suc n) m \<noteq> EmptyHash" using canon_digest [OF assms(1) D] ne by simp
  have parts: "at (leaf_data k v) 0 = Inr 1" "slice (leaf_data k v) 1 33 = Inr k"
    "slice (leaf_data k v) 33 (length (leaf_data k v)) = Inr v"
    using len by (simp_all add: leaf_data_def at_def slice_def)
  have mem: "list_ex (\<lambda>x. fst x = k) (drop lo (take hi arr)) \<longleftrightarrow> k \<in> fst ` set (win arr lo hi)"
    by (auto simp: list_ex_iff win_def)
  have join: "join_leaf st (canon h (Suc n) m) arr lo hi =
      (if k \<in> fst ` set (win arr lo hi) then Inr (arr, lo, hi, False) else Inr (append_sort (k, Some v) arr lo hi))"
    using root load parts by (simp add: join_leaf_def mem)
  show thesis
  proof (cases "k \<in> fst ` set (win arr lo hi)")
    case True
    have ov: "overlay (win arr lo hi) Map.empty = overlay (win arr lo hi) m"
    proof (rule overlay_cong)
      fix k' assume "map_of (win arr lo hi) k' = None"
      then have "k' \<noteq> k" using True unfolding map_of_eq_None_iff by blast
      then have "k' \<notin> dom m" using k by simp
      then show "None = m k'" by (simp add: domIff)
    qed
    have "valid d (win arr lo hi) Map.empty" using assms(4) by (auto simp: valid_def elim!: keyset_mono)
    then show thesis using that [of arr lo hi False] True join assms(6) ov sing by (simp add: safe_parts_def Let_def)
  next
    case False
    have hi: "hi = length arr"
    proof (rule ccontr)
      assume "hi \<noteq> length arr"
      then have "fst (arr ! (hi - 1)) \<in> dom m" using assms(5-7) ne by (simp add: safe_def)
      moreover have "arr ! (hi - 1) \<in> set (win arr lo hi)" using assms(5) by (subst win_set [OF assms(6)]) (auto intro!: exI [of _ "hi - 1"])
      ultimately show False using False k by auto
    qed
    let ?arr1 = "sort_key fst (win arr lo hi @ [(k, Some v)])"
    have w: "win arr lo (length arr) = drop lo arr" by (simp add: win_def)
    have l: "length ?arr1 = Suc (hi - lo)" by (simp add: length_win [OF assms(6)])
    then have w1: "win ?arr1 0 (Suc (hi - lo)) = ?arr1" by (simp add: win_def)
    have "join_leaf st (canon h (Suc n) m) arr lo hi = Inr (?arr1, 0, Suc (hi - lo), True)"
      using False join by (simp add: append_sort_def hi w)
    then show thesis
      by (rule that) (use joined_array [OF assms(4) k False v] sing l in \<open>simp_all only: w1 if_True not_True_eq_False False_implies_equals safe_parts_def Let_def sub_empty order_refl simp_thms\<close>)
  qed
qed

lemma updateBatch_correct: "sound h D \<Longrightarrow> d + n = 32 \<Longrightarrow> correct_at h D n d"
proof (induction n arbitrary: d)
  case 0
  show ?case unfolding correct_at_def Let_def
  proof (intro allI impI)
    fix st arr lo hi and m :: content
    let ?w = "win arr lo hi"
    assume a: "good h D st" "holds h st 0 m" "valid d ?w m" "lo \<le> hi" "hi \<le> length arr" "safe arr lo hi m"
      "nodes h 0 (overlay ?w m) \<subseteq> D"
    show "\<exists>st'. updateBatch h st arr (canon h 0 m) lo hi d = Inr (canon h 0 (overlay ?w m), st', arr) \<and>
      ext h D st st' \<and> holds h st' 0 (overlay ?w m)"
    proof (cases "lo = hi")
      case True
      then show ?thesis using a(1,2) by (subst updateBatch.simps) (simp add: win_empty ext_refl)
    next
      case False
      then have "length ?w = hi - lo" "?w \<noteq> []" using a(4,5) length_win [OF a(5), of lo] by auto
      moreover obtain x where x: "?w = [x]" "overlay ?w m = overlay [x] Map.empty"
        using singleton_window [OF a(3)] 0 \<open>?w \<noteq> []\<close> by auto
      ultimately have "hi = Suc lo" by simp
      moreover have "arr ! lo = x" using win_nth [OF a(5), of 0 lo] x(1) \<open>hi = Suc lo\<close> by simp
      ultimately have "updateBatch h st arr (canon h 0 m) lo hi d = (let (root', st') = store_value h x st in Inr (root', st', arr))"
        using 0 by (subst updateBatch.simps) simp
      then show ?thesis using store_single [OF 0(1) a(1), of 0 x arr] a(7) x(2) by simp
    qed
  qed
next
  case (Suc n)
  have IH: "correct_at h D n (Suc d)" using Suc by simp
  show ?case unfolding correct_at_def Let_def
  proof (intro allI impI)
    fix st arr lo hi and m :: content
    let ?w = "win arr lo hi" and ?m1 = "if is_singleton (dom m) then Map.empty else m"
    assume a: "good h D st" "holds h st (Suc n) m" "valid d ?w m" "lo \<le> hi" "hi \<le> length arr" "safe arr lo hi m"
      "nodes h (Suc n) (overlay ?w m) \<subseteq> D"
    have root: "canon h (Suc n) m = EmptyHash \<longleftrightarrow> m = Map.empty"
      using canon_digest [OF Suc.prems(1) holds_nodes [OF a(2,1)]] by blast
    consider "lo = hi" | "m = Map.empty" "hi = Suc lo" | "lo < hi" "\<not> (m = Map.empty \<and> hi = Suc lo)" using a(4) by linarith
    then show "\<exists>st'. updateBatch h st arr (canon h (Suc n) m) lo hi d = Inr (canon h (Suc n) (overlay ?w m), st', arr) \<and>
      ext h D st st' \<and> holds h st' (Suc n) (overlay ?w m)"
    proof cases
      case 1
      then show ?thesis using a(1,2) by (subst updateBatch.simps) (simp add: win_empty ext_refl)
    next
      case 2
      then have w: "?w = [arr ! lo]" using a(5) win_nth [OF a(5), of 0 lo] length_win [OF a(5), of lo]
        by (intro nth_equalityI) auto
      have "updateBatch h st arr (canon h (Suc n) m) lo hi d = (let (root', st') = store_value h (arr ! lo) st in Inr (root', st', arr))"
        using 2 Suc.prems(2) by (subst updateBatch.simps) simp
      then show ?thesis using store_single [OF Suc.prems(1) a(1), of "Suc n" "arr ! lo" arr] a(7) 2(1) w by simp
    next
      case 3
      obtain arr1 lo1 hi1 fresh where j: "join_leaf st (canon h (Suc n) m) arr lo hi = Inr (arr1, lo1, hi1, fresh)"
        "\<not> fresh \<Longrightarrow> arr1 = arr" "valid d (win arr1 lo1 hi1) ?m1" "hi1 \<le> length arr1" "safe_parts d arr1 lo1 hi1 ?m1"
        "overlay (win arr1 lo1 hi1) ?m1 = overlay ?w m"
        using join_leaf_ok [OF Suc.prems(1) a(1-3) 3(1) a(5,6)] by blast
      have d: "d + n = 31" "31 - n = d" using Suc.prems(2) by simp_all
      have held: "holds h st n (sub d b ?m1)" for b
        using holds_sub [OF a(2)] d(2) by auto
      obtain st2 st' where r: "distribute h st arr1 (kids h n ?m1) lo1 hi1 d = Inr (kids h n (overlay ?w m), st2, arr1)"
        "collapse h (kids h n (overlay ?w m)) st2 = (canon h (Suc n) (overlay ?w m), st')" "ext h D st st'"
        "holds h st' (Suc n) (overlay ?w m)"
        using rewrite_node [OF Suc.prems(1) IH d(1) a(1) held j(3-6) a(7)] by blast
      have load: "load_children st (canon h (Suc n) m) = Inr (kids h n ?m1)"
        using load_children_ok [OF Suc.prems(1) a(1,2)] .
      have c: "(hi - lo = 0) = False" "(d \<ge> 32) = False" "(canon h (Suc n) m = EmptyHash \<and> hi - lo = 1) = False"
        using 3 Suc.prems(2) root by auto
      have "updateBatch h st arr (canon h (Suc n) m) lo hi d = Inr (canon h (Suc n) (overlay ?w m), st', if fresh then arr else arr1)"
        by (subst updateBatch.simps) (simp only: c if_False j(1) load r(1,2) bind_res.simps prod.case Let_def)
      then show ?thesis using j(2) r(3,4) by (cases fresh) simp_all
    qed
  qed
qed

end
