(* ===== verification/SmtSample.thy ===== *)
theory SmtSample
  imports SmtUpdate
begin

text \<open>
  A concrete instance for the tree's properties: three keys, two of them under the same first byte, and
  a hash function that has no collision on the nodes of their trees.
\<close>

definition key2 :: "u8 \<Rightarrow> u8 \<Rightarrow> bytes" where
  "key2 a b = a # b # replicate 30 0"

definition demo_hash :: "bytes \<Rightarrow> bytes" where
  "demo_hash d = (if d ! 0 = 1 then arr32 (drop 1 d) else arr32 (map ((+) 100) (drop 33 d)))"

lemma key2_simps [simp]: "length (key2 a b) = 32" "key2 a b ! 0 = a" "key2 a b ! Suc 0 = b" "key2 a b = key2 a' b' \<longleftrightarrow> a = a' \<and> b = b'"
  by (simp_all add: key2_def)

lemma key2_cons: "key2 a b = x # y # r \<longleftrightarrow> a = x \<and> b = y \<and> r = replicate 30 0"
    "x # y # r = key2 a b \<longleftrightarrow> a = x \<and> b = y \<and> r = replicate 30 0"
  by (auto simp: key2_def)

lemma arr32_prefix: "length x = 32 \<Longrightarrow> arr32 (x @ y) = x"
  by (simp add: arr32_def copy_to_def zero32_def)

lemma demo_leaf: "length k = 32 \<Longrightarrow> demo_hash (leaf_data k v) = k"
  by (simp add: demo_hash_def leaf_data_def arr32_prefix)

lemma demo_canon_leaf: "dom m = {k} \<Longrightarrow> length k = 32 \<Longrightarrow> canon demo_hash n m = k"
  using node_single [of m k demo_hash n] by (auto simp: canon_def demo_leaf)

lemma demo_node:
  assumes "\<not> is_singleton (dom m)" "31 - n = d" "k \<in> dom m" "\<forall>k'\<in>dom m. k ! d \<le> k' ! d"
    "length (canon demo_hash n (sub d (k ! d) m)) = 32" "canon demo_hash n (sub d (k ! d) m) \<noteq> EmptyHash"
  shows "demo_hash (node demo_hash (Suc n) m) = map ((+) 100) (canon demo_hash n (sub d (k ! d) m))"
proof -
  let ?c = "unat (k ! d)" and ?K = "kids demo_hash n m"
  have first: "?K ! i = EmptyHash" if "i < ?c" for i
  proof -
    have i: "i < 256" using that unat_byte [of "k ! d"] by simp
    have "k' ! d \<noteq> of_nat i" if "k' \<in> dom m" for k'
      using bspec [OF assms(4) that] \<open>i < ?c\<close> unat_of_nat_byte [OF i] by (auto simp: word_le_nat_alt)
    then have "dom (sub d (of_nat i) m) = {}" by (auto simp: dom_sub)
    then show ?thesis using i assms(2) by (simp add: kids_nth)
  qed
  have c: "?K ! ?c = canon demo_hash n (sub d (k ! d) m)" using assms(2) by (simp add: kids_byte)
  have "[0..<256] = [0..<?c] @ ?c # [Suc ?c..<256]"
    using unat_byte [of "k ! d"] by (metis le_add_diff_inverse less_imp_le_nat upt_add_eq_append upt_conv_Cons zero_le)
  then have "active ?K [0..<256] = ?K ! ?c # active ?K [Suc ?c..<256]"
    using first c assms(6) by (auto simp: active_def filter_empty_conv)
  moreover obtain w0 w1 w2 w3 where "bitmap_of ?K = [w0, w1, w2, w3]" using bitmap_of_props(1) by (rule four_words)
  ultimately have "drop 33 (internal_data ?K) = canon demo_hash n (sub d (k ! d) m) @ concat (active ?K [Suc ?c..<256])"
    by (simp add: internal_data_eq c)
  moreover have "internal_data ?K ! 0 = 0" by (simp add: internal_data_eq)
  ultimately show ?thesis using assms(1,5) by (simp add: node_Suc demo_hash_def arr32_prefix)
qed

lemma sub_upd: "sub d b (m(k \<mapsto> v)) = (if k ! d = b then (sub d b m)(k \<mapsto> v) else sub d b m)"
  by (auto simp: sub_apply fun_eq_iff)

text \<open>The contents: two keys with different first bytes, then a third one.\<close>

definition two_keys :: content where
  "two_keys = [key2 1 5 \<mapsto> [8], key2 3 0 \<mapsto> [9]]"

definition three_keys :: content where
  "three_keys = two_keys(key2 1 0 \<mapsto> [6])"

definition two_below :: content where
  "two_below = [key2 1 5 \<mapsto> [8], key2 1 0 \<mapsto> [6]]"

definition demo_nodes :: "bytes set" where
  "demo_nodes = {leaf_data (key2 1 5) [8], leaf_data (key2 3 0) [9], leaf_data (key2 1 0) [6],
    node demo_hash 32 two_keys, node demo_hash 32 three_keys, node demo_hash 31 two_below}"

lemma not_single: "k \<noteq> k' \<Longrightarrow> \<not> is_singleton (insert k (insert k' A))"
  by (auto simp: is_singleton_def)

lemma not_empty_hash: "x ! 0 \<noteq> 0 \<Longrightarrow> x \<noteq> EmptyHash"
  by (auto simp: EmptyHash_def)

lemma demo_digests:
  "demo_hash (node demo_hash 32 two_keys) = map ((+) 100) (key2 1 5)"
  "demo_hash (node demo_hash 31 two_below) = map ((+) 100) (key2 1 0)"
  "demo_hash (node demo_hash 32 three_keys) = map ((+) 200) (key2 1 0)"
proof -
  have c: "canon demo_hash n [k \<mapsto> v] = k" if "length k = 32" for n k v
    using that by (intro demo_canon_leaf) simp_all
  have s2: "sub 0 1 two_keys = [key2 1 5 \<mapsto> [8]]" by (simp add: two_keys_def sub_upd)
  have d2: "dom two_keys = {key2 3 0, key2 1 5}" by (simp add: two_keys_def)
  show "demo_hash (node demo_hash 32 two_keys) = map ((+) 100) (key2 1 5)"
    using demo_node [of two_keys 31 0 "key2 1 5"] by (auto simp: d2 s2 c not_single not_empty_hash)
  have sE: "sub (Suc 0) 0 two_below = [key2 1 0 \<mapsto> [6]]" by (simp add: two_below_def sub_upd)
  have dE: "dom two_below = {key2 1 0, key2 1 5}" by (simp add: two_below_def)
  show hE: "demo_hash (node demo_hash 31 two_below) = map ((+) 100) (key2 1 0)"
    using demo_node [of two_below 30 1 "key2 1 0"] by (auto simp: dE sE c not_single not_empty_hash)
  have s3: "sub 0 1 three_keys = two_below" by (simp add: two_below_def three_keys_def two_keys_def sub_upd)
  have c3: "canon demo_hash 31 two_below = map ((+) 100) (key2 1 0)"
  proof -
    have "two_below \<noteq> Map.empty" using dE by (metis dom_empty insert_not_empty)
    then show ?thesis by (simp add: canon_def hE)
  qed
  have d3: "dom three_keys = {key2 1 0, key2 3 0, key2 1 5}" by (simp add: three_keys_def d2)
  have "map ((+) 100) (key2 1 0) \<noteq> EmptyHash" by (rule not_empty_hash) simp
  then show "demo_hash (node demo_hash 32 three_keys) = map ((+) 200) (key2 1 0)"
    using demo_node [of three_keys 31 0 "key2 1 0"] by (auto simp: d3 s3 c3 not_single)
qed

lemma demo_sound: "sound demo_hash demo_nodes"
proof -
  have "length (map ((+) 100) (key2 1 5)) = 32" by simp
  have ne: "key2 a b \<noteq> EmptyHash" if "a \<noteq> 0" for a b using that by (intro not_empty_hash) simp
  have ne': "a # x \<noteq> EmptyHash" if "a \<noteq> 0" for a x using that by (intro not_empty_hash) simp
  have m: "map ((+) 100) (key2 1 5) = 101 # 105 # replicate 30 100" "map ((+) 100) (key2 1 0) = 101 # 100 # replicate 30 100"
    "map ((+) 200) (key2 1 0) = 201 # 200 # replicate 30 200"
    by (simp_all add: key2_def)
  have all: "demo_hash ` demo_nodes = {key2 1 5, key2 3 0, key2 1 0, 101 # 105 # replicate 30 100, 201 # 200 # replicate 30 200,
      101 # 100 # replicate 30 100}"
    by (simp add: demo_nodes_def demo_leaf demo_digests m insert_commute)
  have inj: "inj_on demo_hash demo_nodes"
    unfolding demo_nodes_def inj_on_def
    by (simp add: demo_leaf demo_digests m key2_cons)
  moreover have "\<forall>y\<in>demo_hash ` demo_nodes. length y = 32 \<and> y \<noteq> EmptyHash"
    unfolding all by (simp add: ne ne')
  ultimately show ?thesis unfolding sound_def by blast
qed

lemma demo_trees:
  "nodes demo_hash n [key2 1 5 \<mapsto> [8]] \<subseteq> demo_nodes" "nodes demo_hash n [key2 3 0 \<mapsto> [9]] \<subseteq> demo_nodes"
  "nodes demo_hash 32 two_keys \<subseteq> demo_nodes" "nodes demo_hash 32 three_keys \<subseteq> demo_nodes"
proof -
  have single: "nodes demo_hash n [k \<mapsto> v] = {leaf_data k v}" for n k v
    using nodes_single [of "[k \<mapsto> v]" k demo_hash n] by simp
  have multi: "nodes demo_hash (Suc n) m \<subseteq> demo_nodes"
    if "node demo_hash (Suc n) m \<in> demo_nodes" "\<And>b. nodes demo_hash n (sub (31 - n) b m) \<subseteq> demo_nodes" for n m
    using that by (auto dest: subsetD)
  show "nodes demo_hash n [key2 1 5 \<mapsto> [8]] \<subseteq> demo_nodes" "nodes demo_hash n [key2 3 0 \<mapsto> [9]] \<subseteq> demo_nodes"
    by (simp_all add: single demo_nodes_def)
  have "nodes demo_hash 31 (sub 0 b two_keys) \<subseteq> demo_nodes" for b
    by (simp add: two_keys_def sub_upd single demo_nodes_def)
  then show "nodes demo_hash 32 two_keys \<subseteq> demo_nodes"
    using multi [of 31 two_keys] by (simp add: demo_nodes_def)
  have "nodes demo_hash 30 (sub (Suc 0) b two_below) \<subseteq> demo_nodes" for b
    by (simp add: two_below_def sub_upd single demo_nodes_def)
  then have "nodes demo_hash 31 two_below \<subseteq> demo_nodes"
    using multi [of 30 two_below] by (simp add: demo_nodes_def)
  then have "nodes demo_hash 31 (sub 0 b three_keys) \<subseteq> demo_nodes" for b
    by (simp add: three_keys_def two_keys_def sub_upd single flip: two_below_def) (simp add: demo_nodes_def)
  then show "nodes demo_hash 32 three_keys \<subseteq> demo_nodes"
    using multi [of 31 three_keys] by (simp add: demo_nodes_def)
qed

end
