(* ===== verification/SmtWf.thy ===== *)
theory SmtWf
  imports SmtSpec
begin

text \<open>
  Well-formedness of the tree's store: digests are 32 bytes long and every value is the encoding of a
  leaf with a 32-byte key or of an internal node with 256 children. Every operation keeps it, for any
  hash function with 32-byte digests and without the assumption that there are no collisions.
\<close>

definition wf_node :: "bytes \<Rightarrow> bool" where
  "wf_node data \<longleftrightarrow> (\<exists>k v. length k = 32 \<and> data = leaf_data k v) \<or> (\<exists>cs. child_list cs \<and> data = internal_data cs)"

definition wf_store :: "store \<Rightarrow> bool" where
  "wf_store st \<longleftrightarrow> (\<forall>k v. st k = Some v \<longrightarrow> length k = 32 \<and> wf_node v)"

definition wf_batch :: "kv list \<Rightarrow> bool" where
  "wf_batch arr \<longleftrightarrow> (\<forall>x\<in>set arr. length (fst x) = 32)"

definition wf_smt :: "smt \<Rightarrow> bool" where
  "wf_smt s \<longleftrightarrow> wf_store (s_store s) \<and> length (s_root s) = 32 \<and> wf_batch (s_pending s)"

lemma length_EmptyHash [simp]: "length EmptyHash = 32"
  by (simp add: EmptyHash_def)

lemma wf_leaf: "length k = 32 \<Longrightarrow> wf_node (leaf_data k v)"
  by (auto simp: wf_node_def)

lemma wf_store_Set: "digest h \<Longrightarrow> wf_store st \<Longrightarrow> wf_node data \<Longrightarrow> wf_store (MemoryStore_Set (h data) data st)"
  by (auto simp: wf_store_def MemoryStore_Set_def)

lemma bind_res_Inr: "bind_res m f = Inr y \<longleftrightarrow> (\<exists>x. m = Inr x \<and> f x = Inr y)"
  by (cases m) simp_all

lemma slice_length: "slice data a b = Inr x \<Longrightarrow> length x = b - a"
  by (auto simp: slice_def split: if_splits)

lemma read_hashes_wf: "read_hashes data bm ixs offset = Inr cs \<Longrightarrow> length cs = length ixs \<and> (\<forall>c\<in>set cs. length c = 32)"
proof (induction ixs arbitrary: offset cs)
  case (Cons i ixs)
  then show ?case by (auto simp: bind_res_Inr dest!: slice_length split: if_splits)
qed simp

lemma load_children_wf: "load_children st root = Inr cs \<Longrightarrow> child_list cs"
  by (auto simp: load_children_def child_list_def bind_res_Inr split: if_splits sum.splits dest!: read_hashes_wf)

lemma store_value_wf:
  "digest h \<Longrightarrow> wf_store st \<Longrightarrow> length (fst x) = 32 \<Longrightarrow> store_value h x st = (root, st') \<Longrightarrow>
    wf_store st' \<and> length root = 32"
  by (auto simp: store_value_def storeLeaf_def Let_def digest_def wf_leaf split: option.splits intro!: wf_store_Set [unfolded digest_def])

lemma collapse_wf:
  assumes "digest h" "wf_store st" "child_list cs" "collapse h cs st = (root, st')"
  shows "wf_store st' \<and> length root = 32"
proof -
  let ?act = "filter (\<lambda>i. cs ! i \<noteq> EmptyHash) [0..<256]"
  have int: "storeInternal h cs st = (r, s) \<Longrightarrow> wf_store s \<and> length r = 32" for r s
    using wf_store_Set [OF assms(1,2), of "internal_data cs"] assms(1,3)
    by (auto simp: storeInternal_def Let_def wf_node_def digest_def)
  have "length (cs ! last ?act) = 32" if "?act \<noteq> []"
  proof -
    have "last ?act \<in> set ?act" by (rule last_in_set [OF that])
    then have "last ?act < length cs" using assms(3) by (simp add: child_list_def)
    then show ?thesis using assms(3) nth_mem by (auto simp: child_list_def)
  qed
  then show ?thesis using assms(2,4) int unfolding collapse_def Let_def
    by (simp only: length_0_conv split: if_splits) auto
qed

lemma join_leaf_wf:
  assumes "join_leaf st root arr lo hi = Inr (arr1, lo1, hi1, fresh)" "wf_batch arr" "lo \<le> hi" "hi \<le> length arr"
  shows "wf_batch arr1 \<and> lo1 \<le> hi1 \<and> hi1 \<le> length arr1 \<and> (fresh \<or> length arr1 = length arr)"
proof -
  have wf: "wf_batch arr \<Longrightarrow> length k = 32 \<Longrightarrow> append_sort (k, v) arr lo hi = (arr1, lo1, hi1, fresh) \<Longrightarrow> ?thesis" for k v
  proof -
    assume a: "wf_batch arr" "length k = 32" "append_sort (k, v) arr lo hi = (arr1, lo1, hi1, fresh)"
    have set: "set arr1 \<subseteq> insert (k, v) (set arr)"
    proof (cases "hi < length arr")
      case True
      then show ?thesis using a(3)
        by (auto simp: append_sort_def sort_window_def
          dest!: in_set_takeD in_set_dropD set_update_subset_insert [THEN subsetD])
    next
      case False
      then show ?thesis using a(3) by (auto simp: append_sort_def dest: in_set_dropD)
    qed
    then have "wf_batch arr1" using a(1,2) by (auto simp: wf_batch_def)
    then show ?thesis using a(3) assms(3,4) by (auto simp: append_sort_def sort_window_def split: if_splits)
  qed
  have joined: "wf_batch arr \<Longrightarrow> slice data 1 33 = Inr k \<Longrightarrow> append_sort (k, v) arr lo hi = (arr1, lo1, hi1, fresh) \<Longrightarrow> ?thesis"
    for data k v using wf slice_length [of data 1 33 k] by simp
  have "(arr1, lo1, hi1, fresh) = (arr, lo, hi, False) \<or>
      (\<exists>data k v. slice data 1 33 = Inr k \<and> append_sort (k, v) arr lo hi = (arr1, lo1, hi1, fresh))"
    using assms(1) by (auto simp: join_leaf_def bind_res_Inr split: if_splits)
  then show ?thesis using assms(2-4) joined by blast
qed

lemma group_end_hi: "i \<le> hi \<Longrightarrow> group_end arr d b i hi \<le> hi"
proof (induction arr d b i hi rule: group_end.induct)
  case (1 arr d b i hi)
  then show ?case by (subst group_end.simps) auto
qed

lemma nth_wf: "wf_batch arr \<Longrightarrow> i < length arr \<Longrightarrow> length (fst (arr ! i)) = 32"
  by (simp add: wf_batch_def)

lemma batches_wf:
  "digest h \<Longrightarrow> wf_store st \<Longrightarrow> wf_batch arr \<Longrightarrow> length root = 32 \<Longrightarrow> lo \<le> hi \<Longrightarrow> hi \<le> length arr \<Longrightarrow>
    updateBatch h st arr root lo hi depth = Inr (root', st', arr') \<Longrightarrow>
    wf_store st' \<and> length root' = 32 \<and> wf_batch arr' \<and> length arr' = length arr"
  "digest h \<Longrightarrow> wf_store st \<Longrightarrow> wf_batch arr \<Longrightarrow> child_list cs \<Longrightarrow> start \<le> hi2 \<Longrightarrow> hi2 \<le> length arr \<Longrightarrow>
    distribute h st arr cs start hi2 depth2 = Inr (cs', st', arr') \<Longrightarrow>
    wf_store st' \<and> child_list cs' \<and> wf_batch arr' \<and> length arr' = length arr"
proof (induction h st arr root lo hi depth and h st arr cs start hi2 depth2
    arbitrary: root' st' arr' and cs' st' arr' rule: updateBatch_distribute.induct)
  case (1 h st arr root lo hi depth)
  consider "hi - lo = 0" | "lo < hi" "depth \<ge> 32" | "lo < hi" "\<not> depth \<ge> 32" "root = EmptyHash \<and> hi - lo = 1"
    | "lo < hi" "\<not> depth \<ge> 32" "\<not> (root = EmptyHash \<and> hi - lo = 1)" by fastforce
  then show ?case
  proof cases
    case 1
    then show ?thesis using "1.prems" by (auto simp: updateBatch.simps [of h st arr])
  next
    case 2
    then show ?thesis using "1.prems" store_value_wf [OF "1.prems"(1,2) nth_wf [OF "1.prems"(3)], of "hi - 1"]
      by (auto simp: updateBatch.simps [of h st arr] split: prod.splits)
  next
    case 3
    then show ?thesis using "1.prems" store_value_wf [OF "1.prems"(1,2) nth_wf [OF "1.prems"(3)], of lo]
      by (auto simp: updateBatch.simps [of h st arr] split: prod.splits)
  next
    case 4
    then obtain arr1 lo1 hi1 fresh cs cs2 st2 arr2 where j:
      "join_leaf st root arr lo hi = Inr (arr1, lo1, hi1, fresh)" "load_children st root = Inr cs"
      "distribute h st arr1 cs lo1 hi1 depth = Inr (cs2, st2, arr2)"
      "collapse h cs2 st2 = (root', st')" "arr' = (if fresh then arr else arr2)"
    proof -
      have "bind_res (join_leaf st root arr lo hi) (\<lambda>(arr1, lo1, hi1, fresh).
          bind_res (load_children st root) (\<lambda>children.
          bind_res (distribute h st arr1 children lo1 hi1 depth) (\<lambda>(children', st2, arr2).
            let (root', st') = collapse h children' st2
            in Inr (root', st', if fresh then arr else arr2)))) = Inr (root', st', arr')"
        using "1.prems"(7) 4 by (subst (asm) updateBatch.simps) auto
      then obtain j where j: "join_leaf st root arr lo hi = Inr j" "(case j of (arr1, lo1, hi1, fresh) \<Rightarrow>
          bind_res (load_children st root) (\<lambda>children.
          bind_res (distribute h st arr1 children lo1 hi1 depth) (\<lambda>(children', st2, arr2).
            let (root', st') = collapse h children' st2
            in Inr (root', st', if fresh then arr else arr2)))) = Inr (root', st', arr')"
        unfolding bind_res_Inr by blast
      obtain arr1 lo1 hi1 fresh where jj: "j = (arr1, lo1, hi1, fresh)" by (cases j)
      with j(2) obtain cs d where d: "load_children st root = Inr cs" "distribute h st arr1 cs lo1 hi1 depth = Inr d"
        "(case d of (children', st2, arr2) \<Rightarrow> let (root', st') = collapse h children' st2
            in Inr (root', st', if fresh then arr else arr2)) = (Inr (root', st', arr') :: (bytes \<times> store \<times> kv list) res)"
        by (auto simp: bind_res_Inr)
      then show thesis using that [of arr1 lo1 hi1 fresh cs] j(1) jj
        by (cases d) (auto split: prod.splits)
    qed
    note jw = join_leaf_wf [OF j(1) "1.prems"(3,5,6)]
    have "wf_store st2 \<and> child_list cs2 \<and> wf_batch arr2 \<and> length arr2 = length arr1"
      using "1.IH" [OF _ _ _ j(1) refl refl refl j(2) "1.prems"(1,2) _ load_children_wf [OF j(2)] _ _ j(3)] 4 jw by auto
    then show ?thesis using collapse_wf [OF "1.prems"(1) _ _ j(4)] j(5) jw "1.prems"(3) by auto
  qed
next
  case (2 h st arr cs start hi depth)
  show ?case
  proof (cases "start < hi")
    case False
    then show ?thesis using "2.prems" by (auto simp: distribute.simps [of h st arr])
  next
    case True
    define b where "b = fst (arr ! start) ! depth"
    define e where "e = group_end arr depth b (start + 1) hi"
    obtain root1 st1 arr1 where u: "\<not> depth \<ge> 32"
      "updateBatch h st arr (cs ! unat b) start e (depth + 1) = Inr (root1, st1, arr1)"
      "distribute h st1 arr1 (cs[unat b := root1]) e hi depth = Inr (cs', st', arr')"
      using "2.prems"(7) True
      by (auto simp: distribute.simps [of h st arr] bind_res_Inr Let_def b_def e_def split: if_splits)
    have e: "start \<le> e" "e \<le> hi" using group_end_le [of "start + 1" arr depth b hi] group_end_hi [of "start + 1" hi arr depth b] True
      by (simp_all add: e_def)
    have bl: "unat b < 256" using unsigned_less [of b] by simp
    then have c: "length (cs ! unat b) = 32" using "2.prems"(4) by (simp add: child_list_def)
    have w1: "wf_store st1 \<and> length root1 = 32 \<and> wf_batch arr1 \<and> length arr1 = length arr"
      using "2.IH"(1) [OF _ u(1) b_def e_def "2.prems"(1-3) c e(1) _ u(2)] True e "2.prems"(6) by auto
    then have "child_list (cs[unat b := root1])"
      using "2.prems"(4) by (auto simp: child_list_def dest!: set_update_subset_insert [THEN subsetD])
    then show ?thesis
      using "2.IH"(2) [OF _ u(1) b_def e_def u(2) refl refl "2.prems"(1) _ _ _ e(2) _ u(3)] True w1 "2.prems"(6) by auto
  qed
qed

end
