(* ===== verification/SmtTheorems.thy ===== *)
theory SmtTheorems
  imports SmtSample SmtWf
begin

text \<open>
  The properties of the sparse Merkle tree: sequences of \<^verbatim>\<open>Update\<close> and \<^verbatim>\<open>Get\<close> against a finite map, the
  root as a function of the contents that binds them, and which batches \<^verbatim>\<open>Commit\<close> applies completely.
\<close>

subsection \<open>Lookup\<close>

definition answers :: "bytes res \<Rightarrow> bytes option \<Rightarrow> bool" where
  "answers r v \<longleftrightarrow> (case v of Some x \<Rightarrow> r = Inr x
    | None \<Rightarrow> r = Inl KeyNotFound \<or> r = Inl ShortcutMismatch \<or> r = Inl BranchEmpty)"

lemma get_leaf:
  assumes "loadNode st root = Inr (leaf_data k v)" "root \<noteq> EmptyHash" "length k = 32"
  shows "smt_get st root key d = (if k = key then Inr v else Inl ShortcutMismatch)"
proof -
  have "at (leaf_data k v) 0 = Inr 1" "slice (leaf_data k v) 1 33 = Inr k"
    "slice (leaf_data k v) 33 (length (leaf_data k v)) = Inr v"
    using assms(3) by (simp_all add: leaf_data_def at_def slice_def)
  then show ?thesis using assms(1,2) by (subst smt_get.simps) auto
qed

lemma get_single:
  assumes "sound h D" "holds h st n m" "nodes h n m \<subseteq> D" "dom m = {k}" "length k = 32"
  shows "answers (smt_get st (canon h n m) key d) (m key)"
proof -
  have ne: "m \<noteq> Map.empty" using assms(4) by auto
  obtain v where v: "m k = Some v" using assms(4) by auto
  have "loadNode st (canon h n m) = Inr (leaf_data k v)"
    using load_root [OF assms(1,3,2) ne] node_single [OF assms(4), of h n] v by simp
  moreover have "canon h n m \<noteq> EmptyHash" using canon_digest [OF assms(1,3)] ne by simp
  moreover have "m key = None" if "key \<noteq> k" using that assms(4) by (metis domIff singletonD)
  ultimately show ?thesis using get_leaf [of st "canon h n m" k v key d] assms(5) v
    by (cases "k = key") (simp_all add: answers_def)
qed

lemma get_canon:
  "sound h D \<Longrightarrow> nodes h n m \<subseteq> D \<Longrightarrow> holds h st n m \<Longrightarrow> d + n = 32 \<Longrightarrow> keyset d (dom m) \<Longrightarrow>
    answers (smt_get st (canon h n m) key d) (m key)"
proof (induction n arbitrary: d m)
  case (0 d m)
  show ?case
  proof (cases "m = Map.empty")
    case True
    then show ?thesis by (subst smt_get.simps) (simp add: answers_def)
  next
    case False
    then obtain k where k: "k \<in> dom m" by fastforce
    have ks: "keyset 32 (dom m)" using 0 by simp
    have "k' = k" if "k' \<in> dom m" for k' using keyset_full [OF ks that k] .
    then have "dom m = {k}" using k by blast
    moreover have "length k = 32" using keyset_pair [OF ks k k] by simp
    ultimately show ?thesis using 0 by (intro get_single)
  qed
next
  case (Suc n d m)
  consider "m = Map.empty" | k where "dom m = {k}" | "m \<noteq> Map.empty" "\<not> is_singleton (dom m)"
    by (auto simp: is_singleton_def)
  then show ?case
  proof cases
    case 1
    then show ?thesis by (subst smt_get.simps) (simp add: answers_def)
  next
    case 2
    then have "length k = 32" using Suc.prems(5) by (simp add: keyset_def)
    then show ?thesis using Suc.prems 2 by (intro get_single)
  next
    case 3
    have d: "31 - n = d" "d < 32" using Suc.prems(4) by simp_all
    have cl: "child_list (kids h n m)"
      using nodes_sub [OF 3] Suc.prems(2) by (intro kids_child_list [OF Suc.prems(1)]) blast
    have ld: "loadNode st (canon h (Suc n) m) = Inr (internal_data (kids h n m))"
      using load_root [OF Suc.prems(1-3) 3(1)] 3(2) by (simp add: node_Suc)
    have ne: "canon h (Suc n) m \<noteq> EmptyHash" using canon_digest [OF Suc.prems(1,2)] 3(1) by simp
    let ?ms = "sub d (key ! d) m"
    have sub: "nodes h n ?ms \<subseteq> D" "holds h st n ?ms"
      using nodes_sub [OF 3, of h n "key ! d"] Suc.prems(2) holds_sub [OF Suc.prems(3) 3(2), of "key ! d"] d(1) by auto
    have "keyset (Suc d) (dom ?ms)" by (rule keyset_Suc [OF Suc.prems(5) d(2), of _ "key ! d"]) (auto simp: dom_sub)
    then have IH: "answers (smt_get st (canon h n ?ms) key (Suc d)) (?ms key)"
      using Suc.IH [OF Suc.prems(1) sub] Suc.prems(4) by simp
    have step: "smt_get st (canon h (Suc n) m) key d =
        (if canon h n ?ms = EmptyHash then Inl BranchEmpty else smt_get st (canon h n ?ms) key (Suc d))"
      using get_internal [OF cl ne ld d(2), of key] by (simp add: Let_def kids_byte d(1))
    show ?thesis
    proof (cases "?ms = Map.empty")
      case True
      then have "?ms key = None" by simp
      then have "m key = None" by (simp add: sub_apply)
      then show ?thesis using True step by (simp add: answers_def)
    next
      case False
      then have "canon h n ?ms \<noteq> EmptyHash" using canon_digest [OF Suc.prems(1) sub(1)] by simp
      then show ?thesis using step IH by (simp add: sub_apply)
    qed
  qed
qed

subsection \<open>Trees and their contents\<close>

text \<open>\<open>represents h D m s\<close>: the tree \<open>s\<close> holds the contents \<open>m\<close>.\<close>

definition represents :: "(bytes \<Rightarrow> bytes) \<Rightarrow> bytes set \<Rightarrow> content \<Rightarrow> smt \<Rightarrow> bool" where
  "represents h D m s \<longleftrightarrow> s_root s = canon h 32 m \<and> good h D (s_store s) \<and> holds h (s_store s) 32 m \<and>
    (\<forall>k\<in>dom m. length k = 32)"

lemma represents_New: "represents h D Map.empty NewSMT"
  by (simp add: represents_def NewSMT_def good_def)

lemma represents_keys: "represents h D m s \<Longrightarrow> keyset 0 (dom m)"
  by (simp add: represents_def keyset_def)

lemma represents_get:
  assumes "sound h D" "represents h D m s"
  shows "answers (smt_get (s_store s) (s_root s) (arr32 key) 0) (m (arr32 key))"
proof -
  have r: "s_root s = canon h 32 m" "good h D (s_store s)" "holds h (s_store s) 32 m"
    using assms(2) by (simp_all add: represents_def)
  show ?thesis unfolding r(1)
    by (rule get_canon [OF assms(1) holds_nodes [OF r(3,2)] r(3) _ represents_keys [OF assms(2)]]) simp
qed

lemma represents_batch:
  assumes "sound h D" "represents h D m s" "sorted (map fst w)" "distinct (map fst w)" "\<forall>x\<in>set w. length (fst x) = 32"
    "m = Map.empty \<or> fst ` set (butlast w) \<subseteq> dom m" "nodes h 32 (overlay w m) \<subseteq> D"
  shows "\<exists>st'. updateBatch h (s_store s) w (s_root s) 0 (length w) 0 = Inr (canon h 32 (overlay w m), st', w) \<and>
    represents h D (overlay w m) (s\<lparr>s_root := canon h 32 (overlay w m), s_store := st'\<rparr>)"
proof -
  have r: "s_root s = canon h 32 m" "good h D (s_store s)" "holds h (s_store s) 32 m" "\<forall>k\<in>dom m. length k = 32"
    using assms(2) by (simp_all add: represents_def)
  have win: "win w 0 (length w) = w" by (simp add: win_def)
  have ks: "\<forall>k\<in>fst ` set w \<union> dom m. length k = 32" using assms(5) r(4) by auto
  then have v: "valid 0 (win w 0 (length w)) m" using assms(3,4) unfolding win valid_def keyset_def by simp
  have sf: "safe w 0 (length w) m"
  proof (cases "m = Map.empty")
    case False
    have "fst (w ! j) \<in> dom m" if "j + 1 < length w" for j
    proof -
      have "w ! j = butlast w ! j" "j < length (butlast w)" using that by (simp_all add: nth_butlast)
      then have "w ! j \<in> set (butlast w)" using nth_mem by metis
      then show ?thesis using assms(6) False by blast
    qed
    then show ?thesis by (simp add: safe_def)
  qed (simp add: safe_def)
  have "correct_at h D 32 0" by (rule updateBatch_correct [OF assms(1)]) simp
  from correct_atD [OF this r(2,3) v _ _ sf] assms(7)
  obtain st' where st': "updateBatch h (s_store s) w (canon h 32 m) 0 (length w) 0 = Inr (canon h 32 (overlay w m), st', w)"
    "ext h D (s_store s) st'" "holds h st' 32 (overlay w m)" by (auto simp: win)
  have "\<forall>k\<in>dom (overlay w m). length k = 32" using dom_overlay [of w m] ks by blast
  then show ?thesis using st' ext_good [OF st'(2)] by (auto simp: represents_def r(1))
qed

subsection \<open>Sequences of operations\<close>

text \<open>The operations, and what they mean for the committed contents and the pending ones.\<close>

datatype smt_op = OpUpdate bytes "bytes option" | OpSet bytes "bytes option" | OpCommit

fun smt_step :: "(bytes \<Rightarrow> bytes) \<Rightarrow> smt_op \<Rightarrow> smt \<Rightarrow> smt res" where
  "smt_step h (OpUpdate k v) s = bind_res (smt_Update h k v s) (\<lambda>(root, s'). Inr s')"
| "smt_step h (OpSet k v) s = Inr (smt_Set k v s)"
| "smt_step h OpCommit s = bind_res (smt_Commit h s) (\<lambda>(root, s'). Inr s')"

fun smt_run :: "(bytes \<Rightarrow> bytes) \<Rightarrow> smt_op list \<Rightarrow> smt \<Rightarrow> smt res" where
  "smt_run h [] s = Inr s"
| "smt_run h (op # ops) s = bind_res (smt_step h op s) (smt_run h ops)"

type_synonym pending = "bytes \<Rightarrow> bytes option option"

definition commit :: "pending \<Rightarrow> content \<Rightarrow> content" where
  "commit p m = (\<lambda>k. case p k of Some v \<Rightarrow> v | None \<Rightarrow> m k)"

fun abs_step :: "smt_op \<Rightarrow> content \<times> pending \<Rightarrow> content \<times> pending" where
  "abs_step (OpUpdate k v) (m, p) = (m(arr32 k := v), p)"
| "abs_step (OpSet k v) (m, p) = (m, p(arr32 k \<mapsto> v))"
| "abs_step OpCommit (m, p) = (commit p m, Map.empty)"

definition abs_run :: "smt_op list \<Rightarrow> content \<times> pending" where
  "abs_run ops = fold abs_step ops (Map.empty, Map.empty)"

text \<open>A batch that \<^verbatim>\<open>Commit\<close> applies completely: the tree is empty, or no pending key but the greatest is
  new.\<close>

definition whole :: "content \<times> pending \<Rightarrow> bool" where
  "whole a \<longleftrightarrow> fst a = Map.empty \<or>
    (\<forall>k\<in>dom (snd a). k \<notin> dom (fst a) \<longrightarrow> (\<forall>k'\<in>dom (snd a). k' \<le> k))"

fun orderly :: "smt_op list \<Rightarrow> content \<times> pending \<Rightarrow> bool" where
  "orderly [] a \<longleftrightarrow> True"
| "orderly (op # ops) a \<longleftrightarrow> (op = OpCommit \<longrightarrow> whole a) \<and> orderly ops (abs_step op a)"

text \<open>The node strings that a sequence writes.\<close>

fun written :: "(bytes \<Rightarrow> bytes) \<Rightarrow> smt_op list \<Rightarrow> content \<times> pending \<Rightarrow> bytes set" where
  "written h [] a = {}"
| "written h (op # ops) a = nodes h 32 (fst (abs_step op a)) \<union> written h ops (abs_step op a)"

text \<open>What \<^verbatim>\<open>Get\<close> answers.\<close>

definition abs_answers :: "bytes res \<Rightarrow> content \<times> pending \<Rightarrow> bytes \<Rightarrow> bool" where
  "abs_answers r a k = (case snd a k of
     Some None \<Rightarrow> r = Inl KeyDeleted
   | Some (Some v) \<Rightarrow> r = Inr v
   | None \<Rightarrow> answers r (fst a k))"

definition models :: "(bytes \<Rightarrow> bytes) \<Rightarrow> bytes set \<Rightarrow> content \<times> pending \<Rightarrow> smt \<Rightarrow> bool" where
  "models h D a s \<longleftrightarrow> represents h D (fst a) s \<and> map_of (s_pending s) = snd a \<and>
    distinct (map fst (s_pending s)) \<and> (\<forall>x\<in>set (s_pending s). length (fst x) = 32)"

lemma models_New: "models h D (Map.empty, Map.empty) NewSMT"
  using represents_New by (simp add: models_def NewSMT_def)

lemma overlay_commit: "map_of w = p \<Longrightarrow> overlay w m = commit p m"
  by (auto simp: overlay_def commit_def)

lemma set_butlast_subset: "set (butlast xs) \<subseteq> set xs"
  by (auto dest: in_set_butlastD)

lemma sorted_batch:
  assumes "distinct (map fst ps)" "map_of ps = p" "whole (m, p)"
  shows "sorted (map fst (sort_key fst ps))" "distinct (map fst (sort_key fst ps))" "map_of (sort_key fst ps) = p"
    "m = Map.empty \<or> fst ` set (butlast (sort_key fst ps)) \<subseteq> dom m"
proof -
  let ?w = "sort_key fst ps"
  show srt: "sorted (map fst ?w)" by simp
  show dist: "distinct (map fst ?w)" using assms(1) by (simp add: distinct_map)
  show "map_of ?w = p" using map_of_inject_set [OF dist assms(1)] assms(2) by simp
  have dom: "dom p = fst ` set ?w" using dom_map_of_conv_image_fst [of ps] assms(2) by simp
  show "m = Map.empty \<or> fst ` set (butlast ?w) \<subseteq> dom m"
  proof (cases "m = Map.empty")
    case False
    have "k \<in> dom m" if k: "k \<in> fst ` set (butlast ?w)" for k
    proof (rule ccontr)
      assume new: "k \<notin> dom m"
      have ne: "?w \<noteq> []" using k by auto
      then have w: "?w = butlast ?w @ [last ?w]" by simp
      have "last ?w \<in> set ?w" by (rule last_in_set [OF ne])
      moreover have "k \<in> fst ` set ?w" using image_mono [OF set_butlast_subset] k by (rule subsetD)
      ultimately have "fst (last ?w) \<le> k" using assms(3) new False dom by (auto simp: whole_def)
      moreover have "k \<le> fst (last ?w)"
        using srt k by (subst (asm) w) (auto simp: sorted_append)
      ultimately have "k = fst (last ?w)" by simp
      then show False using dist k by (subst (asm) w) auto
    qed
    then show ?thesis by blast
  qed simp
qed

lemma update_step:
  assumes "sound h D" "models h D a s" "nodes h 32 (fst (abs_step op a)) \<subseteq> D" "op = OpCommit \<longrightarrow> whole a"
  shows "\<exists>s'. smt_step h op s = Inr s' \<and> models h D (abs_step op a) s'"
proof -
  obtain m p where a: "a = (m, p)" by (cases a)
  have r: "represents h D m s" "map_of (s_pending s) = p" "distinct (map fst (s_pending s))"
    "\<forall>x\<in>set (s_pending s). length (fst x) = 32"
    using assms(2) by (simp_all add: models_def a)
  show ?thesis
  proof (cases op)
    case (OpUpdate k v)
    have ov: "overlay [(arr32 k, v)] m = m(arr32 k := v)" by (auto simp: overlay_def)
    then obtain st' where "updateBatch h (s_store s) [(arr32 k, v)] (s_root s) 0 1 0 = Inr (canon h 32 (m(arr32 k := v)), st', [(arr32 k, v)])"
      "represents h D (m(arr32 k := v)) (s\<lparr>s_root := canon h 32 (m(arr32 k := v)), s_store := st'\<rparr>)"
      using represents_batch [OF assms(1) r(1), of "[(arr32 k, v)]"] assms(3) by (auto simp: OpUpdate a)
    then show ?thesis using r(2-) by (simp add: OpUpdate smt_Update_def a models_def)
  next
    case (OpSet k v)
    have "represents h D m (smt_Set k v s)" using r(1) by (simp add: represents_def smt_Set_def)
    moreover have "\<forall>x\<in>set (AList.update (arr32 k) v (s_pending s)). length (fst x) = 32"
    proof -
      have "fst ` set (AList.update (arr32 k) v (s_pending s)) = insert (arr32 k) (fst ` set (s_pending s))"
        by (simp add: dom_update)
      moreover have "\<forall>k\<in>insert (arr32 k) (fst ` set (s_pending s)). length k = 32" using r(4) by auto
      ultimately show ?thesis by (metis imageI)
    qed
    moreover have "distinct (map fst (AList.update (arr32 k) v (s_pending s)))"
      by (rule distinct_update [OF r(3)])
    ultimately show ?thesis
      using r(2) by (simp add: OpSet a models_def smt_Set_def update_conv' del: set_map)
  next
    case OpCommit
    show ?thesis
    proof (cases "s_pending s = []")
      case True
      then have "commit p m = m" "p = Map.empty" using r(2) by (auto simp: commit_def)
      then show ?thesis using True r by (simp add: OpCommit a models_def smt_Commit_def)
    next
      case False
      let ?w = "sort_key fst (s_pending s)"
      have w: "whole (m, p)" using assms(4) by (simp add: OpCommit a)
      note sb = sorted_batch [OF r(3,2) w]
      have len: "\<forall>x\<in>set ?w. length (fst x) = 32" using r(4) by simp
      have ov: "overlay ?w m = commit p m" by (rule overlay_commit [OF sb(3)])
      obtain st' where "updateBatch h (s_store s) ?w (s_root s) 0 (length ?w) 0 = Inr (canon h 32 (commit p m), st', ?w)"
        "represents h D (commit p m) (s\<lparr>s_root := canon h 32 (commit p m), s_store := st'\<rparr>)"
        using represents_batch [OF assms(1) r(1) sb(1,2) len sb(4)] assms(3) by (auto simp: ov OpCommit a)
      then show ?thesis using False by (auto simp: OpCommit a models_def smt_Commit_def Let_def represents_def)
    qed
  qed
qed

lemma run_models:
  "sound h D \<Longrightarrow> models h D a s \<Longrightarrow> written h ops a \<subseteq> D \<Longrightarrow> orderly ops a \<Longrightarrow>
    \<exists>s'. smt_run h ops s = Inr s' \<and> models h D (fold abs_step ops a) s'"
proof (induction ops arbitrary: a s)
  case (Cons op ops)
  then obtain s1 where "smt_step h op s = Inr s1" "models h D (abs_step op a) s1"
    using update_step [of h D a s op] by auto
  then show ?case using Cons.IH [of "abs_step op a" s1] Cons.prems by auto
qed simp

lemma models_Get:
  assumes "sound h D" "models h D a s"
  shows "abs_answers (smt_Get key s) a (arr32 key)"
  using represents_get [OF assms(1), of "fst a" s key] assms(2)
  by (auto simp: abs_answers_def models_def smt_Get_def split: option.splits)

lemma answers_inj: "answers r v \<Longrightarrow> answers r v' \<Longrightarrow> v = v'"
  by (auto simp: answers_def split: option.splits)

lemma canon_inj:
  assumes "sound h D" "represents h D m s" "represents h D m' s'"
  shows "canon h 32 m = canon h 32 m' \<longleftrightarrow> m = m'"
proof
  assume eq: "canon h 32 m = canon h 32 m'"
  let ?st = "s_store s ++ s_store s'"
  have r: "good h D (s_store s)" "holds h (s_store s) 32 m" "good h D (s_store s')" "holds h (s_store s') 32 m'"
    using assms(2,3) by (simp_all add: represents_def)
  have g: "good h D ?st" using r(1,3) by (auto simp: good_def map_add_Some_iff)
  have "x = y" if "s_store s k = Some x" "s_store s' k = Some y" for k x y
    using that r(1,3) assms(1) by (auto simp: good_def sound_def inj_on_def)
  then have "s_store s \<subseteq>\<^sub>m ?st" by (fastforce simp: map_le_def map_add_def split: option.split)
  moreover have "s_store s' \<subseteq>\<^sub>m ?st" by simp
  ultimately have h: "holds h ?st 32 m" "holds h ?st 32 m'"
    using holds_ext [OF r(2)] holds_ext [OF r(4)] g by (auto simp: ext_def)
  have "m key = m' key" for key
  proof (rule answers_inj)
    show "answers (smt_get ?st (canon h 32 m) key 0) (m key)"
      by (rule get_canon [OF assms(1) holds_nodes [OF h(1) g] h(1) _ represents_keys [OF assms(2)]]) simp
    show "answers (smt_get ?st (canon h 32 m) key 0) (m' key)"
      unfolding eq by (rule get_canon [OF assms(1) holds_nodes [OF h(2) g] h(2) _ represents_keys [OF assms(3)]]) simp
  qed
  then show "m = m'" by (rule ext)
qed simp

text \<open>Well-formedness.\<close>

lemma wf_batch_update: "length k = 32 \<Longrightarrow> wf_batch ps \<Longrightarrow> wf_batch (AList.update k v ps)"
proof (induction ps)
  case (Cons x ps)
  then show ?case by (cases x) (auto simp: wf_batch_def)
qed (simp add: wf_batch_def)

lemma wf_step:
  assumes "digest h" "wf_smt s" "smt_step h op s = Inr s'"
  shows "wf_smt s'"
proof (cases op)
  case (OpUpdate k v)
  then obtain r st arr where "updateBatch h (s_store s) [(arr32 k, v)] (s_root s) 0 1 0 = Inr (r, st, arr)"
    "s' = s\<lparr>s_root := r, s_store := st\<rparr>"
    using assms(3) by (auto simp: smt_Update_def bind_res_Inr)
  then show ?thesis using batches_wf(1) [OF assms(1), of "s_store s" "[(arr32 k, v)]" "s_root s" 0 1 0 r st arr] assms(2)
    by (simp add: wf_smt_def) (simp add: wf_batch_def)
next
  case (OpSet k v)
  then show ?thesis using assms(2,3) wf_batch_update [of "arr32 k" "s_pending s" v] by (auto simp: smt_Set_def wf_smt_def)
next
  case OpCommit
  let ?w = "sort_key fst (s_pending s)"
  show ?thesis
  proof (cases "s_pending s = []")
    case False
    then obtain r st arr where u: "updateBatch h (s_store s) ?w (s_root s) 0 (length ?w) 0 = Inr (r, st, arr)"
      "s' = s\<lparr>s_root := r, s_store := st, s_pending := []\<rparr>"
      using assms(3) OpCommit by (auto simp: smt_Commit_def bind_res_Inr Let_def)
    have "wf_batch ?w" using assms(2) by (simp add: wf_smt_def wf_batch_def)
    then show ?thesis using batches_wf(1) [OF assms(1) _ _ _ _ _ u(1)] assms(2) u(2)
      by (simp add: wf_smt_def) (simp add: wf_batch_def)
  qed (use assms OpCommit in \<open>simp add: smt_Commit_def\<close>)
qed

lemma wf_run: "digest h \<Longrightarrow> wf_smt s \<Longrightarrow> smt_run h ops s = Inr s' \<Longrightarrow> wf_smt s'"
proof (induction ops arbitrary: s)
  case (Cons op ops)
  then show ?case using wf_step [of h s op] by (auto simp: bind_res_Inr)
qed simp

lemma wf_New: "wf_smt NewSMT"
  by (simp add: wf_smt_def NewSMT_def wf_store_def wf_batch_def)

text \<open>Two sample sequences with the same contents, and one that ends with two pending keys.\<close>

definition demo_ops :: "smt_op list" where
  "demo_ops = [OpUpdate (key2 1 5) (Some [8]), OpUpdate (key2 3 0) (Some [9]), OpSet (key2 1 0) (Some [6]), OpCommit]"

definition demo_ops' :: "smt_op list" where
  "demo_ops' = [OpUpdate (key2 3 0) (Some [9]), OpUpdate (key2 1 5) (Some [8]), OpUpdate (key2 1 0) (Some [6])]"

definition demo_pending :: "smt_op list" where
  "demo_pending = [OpUpdate (key2 1 5) (Some [8]), OpUpdate (key2 3 0) (Some [9]), OpSet (key2 1 0) (Some [6]),
    OpSet (key2 2 0) (Some [7])]"

lemma sound_mono: "sound h D \<Longrightarrow> D' \<subseteq> D \<Longrightarrow> sound h D'"
  unfolding sound_def by (meson inj_on_subset subset_iff)

lemma demo_commit: "commit [key2 1 0 \<mapsto> Some [6]] two_keys = three_keys"
  by (auto simp: commit_def three_keys_def fun_eq_iff)

lemma demo_swap: "[key2 3 0 \<mapsto> [9], key2 1 5 \<mapsto> [8]] = two_keys" "two_keys(key2 1 0 \<mapsto> [6]) = three_keys"
  by (auto simp: two_keys_def three_keys_def fun_upd_twist)

lemma demo_written:
  "written demo_hash demo_ops (Map.empty, Map.empty) \<subseteq> demo_nodes"
  "written demo_hash demo_ops' (Map.empty, Map.empty) \<subseteq> demo_nodes"
  "written demo_hash demo_pending (Map.empty, Map.empty) \<subseteq> demo_nodes"
  using demo_trees
  by (simp_all add: demo_ops_def demo_ops'_def demo_pending_def demo_commit demo_swap flip: two_keys_def)

lemma demo_orderly:
  "orderly demo_ops (Map.empty, Map.empty)" "orderly demo_ops' (Map.empty, Map.empty)" "orderly demo_pending (Map.empty, Map.empty)"
  by (simp_all add: demo_ops_def demo_ops'_def demo_pending_def whole_def)

lemma demo_abs:
  "abs_run demo_ops = (three_keys, Map.empty)" "abs_run demo_ops' = (three_keys, Map.empty)"
  "abs_run demo_pending = (two_keys, [key2 1 0 \<mapsto> Some [6], key2 2 0 \<mapsto> Some [7]])"
  by (simp_all add: abs_run_def demo_ops_def demo_ops'_def demo_pending_def demo_commit demo_swap flip: two_keys_def)

text \<open>C5. For a hash function that is collision-free on the node strings the operations write, any
  sequence of \<^verbatim>\<open>Update\<close>, \<^verbatim>\<open>Set\<close> and \<^verbatim>\<open>Commit\<close> from the empty tree returns without error, its root is
  the canonical one of the committed contents, and \<^verbatim>\<open>Get\<close> answers from the pending map first and then
  from the contents, provided each \<^verbatim>\<open>Commit\<close> is on an empty tree or has no new key but its greatest.\<close>

theorem smt_refines_map:
  assumes "sound h (written h ops (Map.empty, Map.empty))" "orderly ops (Map.empty, Map.empty)"
  shows "\<exists>s. smt_run h ops NewSMT = Inr s \<and> s_root s = canon h 32 (fst (abs_run ops)) \<and>
    (\<forall>key. abs_answers (smt_Get key s) (abs_run ops) (arr32 key))"
proof -
  obtain s where "smt_run h ops NewSMT = Inr s" "models h (written h ops (Map.empty, Map.empty)) (abs_run ops) s"
    using run_models [OF assms(1) models_New subset_refl assms(2)] by (auto simp: abs_run_def)
  then show ?thesis using models_Get [OF assms(1)] by (auto simp: models_def represents_def)
qed

theorem smt_refines_map_witness:
  "\<exists>s. smt_run demo_hash demo_ops NewSMT = Inr s \<and> s_root s = canon demo_hash 32 (fst (abs_run demo_ops)) \<and>
    (\<forall>key. abs_answers (smt_Get key s) (abs_run demo_ops) (arr32 key))"
  by (rule smt_refines_map [OF sound_mono [OF demo_sound demo_written(1)] demo_orderly(1)])

text \<open>C11. The root is a commitment: after two such sequences the roots are equal exactly when the
  committed contents are, whatever the order of the operations was.\<close>

theorem smt_root_commits:
  assumes "sound h (written h ops (Map.empty, Map.empty) \<union> written h ops' (Map.empty, Map.empty))"
    "orderly ops (Map.empty, Map.empty)" "orderly ops' (Map.empty, Map.empty)"
    "smt_run h ops NewSMT = Inr s" "smt_run h ops' NewSMT = Inr s'"
  shows "s_root s = s_root s' \<longleftrightarrow> fst (abs_run ops) = fst (abs_run ops')"
proof -
  let ?D = "written h ops (Map.empty, Map.empty) \<union> written h ops' (Map.empty, Map.empty)"
  have "models h ?D (abs_run ops) s"
    using run_models [OF assms(1) models_New _ assms(2)] assms(4) by (auto simp: abs_run_def)
  moreover have "models h ?D (abs_run ops') s'"
    using run_models [OF assms(1) models_New _ assms(3)] assms(5) by (auto simp: abs_run_def)
  ultimately have "represents h ?D (fst (abs_run ops)) s" "represents h ?D (fst (abs_run ops')) s'"
    by (simp_all add: models_def)
  then show ?thesis using canon_inj [OF assms(1)] by (simp add: represents_def)
qed

theorem smt_root_commits_witness:
  "\<exists>s s'. smt_run demo_hash demo_ops NewSMT = Inr s \<and> smt_run demo_hash demo_ops' NewSMT = Inr s' \<and> s_root s = s_root s'"
proof -
  obtain s where s: "smt_run demo_hash demo_ops NewSMT = Inr s"
    using run_models [OF demo_sound models_New demo_written(1) demo_orderly(1)] by blast
  obtain s' where s': "smt_run demo_hash demo_ops' NewSMT = Inr s'"
    using run_models [OF demo_sound models_New demo_written(2) demo_orderly(2)] by blast
  have "sound demo_hash (written demo_hash demo_ops (Map.empty, Map.empty) \<union> written demo_hash demo_ops' (Map.empty, Map.empty))"
    using demo_written by (intro sound_mono [OF demo_sound]) blast
  from smt_root_commits [OF this demo_orderly(1,2) s s'] s s' show ?thesis by (simp add: demo_abs)
qed

subsection \<open>A batch that is not applied completely\<close>

lemma loop_step:
  assumes "start < hi" "depth < 32" "fst (arr ! start) ! depth = b" "group_end arr depth b (start + 1) hi = e"
    "updateBatch h st arr (cs ! unat b) start e (depth + 1) = Inr (r, st', arr')"
  shows "distribute h st arr cs start hi depth = distribute h st' arr' (cs[unat b := r]) e hi depth"
  using assms by (subst distribute.simps) (simp add: Let_def)

lemma rewrite_leaf:
  assumes "sound h D" "good h D st" "dom m = {k}" "m k = Some v" "holds h st (Suc n) m" "n + d = 31" "length k = 32"
    and "k \<notin> fst ` set (win arr lo hi)" "lo < hi" "hi < length arr"
    and "arr' = sort_window lo (hi + 1) (arr[hi := (k, Some v)])"
    and "valid d (win arr' lo (hi + 1)) Map.empty" "overlay (win arr' lo (hi + 1)) Map.empty = m'" "nodes h (Suc n) m' \<subseteq> D"
  shows "\<exists>st'. updateBatch h st arr (canon h (Suc n) m) lo hi d = Inr (canon h (Suc n) m', st', arr') \<and>
    ext h D st st' \<and> holds h st' (Suc n) m'"
proof -
  have ne: "m \<noteq> Map.empty" using assms(4) by auto
  have D: "nodes h (Suc n) m \<subseteq> D" using assms(5,2) by (rule holds_nodes)
  have load: "loadNode st (canon h (Suc n) m) = Inr (leaf_data k v)"
    using load_root [OF assms(1) D assms(5) ne] node_single [OF assms(3), of h "Suc n"] assms(4) by simp
  have root: "canon h (Suc n) m \<noteq> EmptyHash" using canon_digest [OF assms(1) D] ne by simp
  have "at (leaf_data k v) 0 = Inr 1" "slice (leaf_data k v) 1 33 = Inr k"
    "slice (leaf_data k v) 33 (length (leaf_data k v)) = Inr v"
    using assms(7) by (simp_all add: leaf_data_def at_def slice_def)
  moreover have "\<not> list_ex (\<lambda>x. fst x = k) (drop lo (take hi arr))"
    using assms(8) by (auto simp: list_ex_iff win_def)
  ultimately have join: "join_leaf st (canon h (Suc n) m) arr lo hi = Inr (arr', lo, hi + 1, False)"
    using root load assms(10,11) by (simp add: join_leaf_def append_sort_def)
  have kids: "load_children st (canon h (Suc n) m) = Inr (kids h n Map.empty)"
    using load_children_ok [OF assms(1,2,5)] assms(3) by (simp add: is_singleton_def)
  have IH: "correct_at h D n (Suc d)" using assms(6) by (intro updateBatch_correct [OF assms(1)]) simp
  have len: "hi + 1 \<le> length arr'" using assms(9-11) by (simp add: sort_window_def)
  obtain st2 st' where r: "distribute h st arr' (kids h n Map.empty) lo (hi + 1) d = Inr (kids h n m', st2, arr')"
    "collapse h (kids h n m') st2 = (canon h (Suc n) m', st')" "ext h D st st'" "holds h st' (Suc n) m'"
    using rewrite_node [OF assms(1) IH _ assms(2) _ assms(12) len _ assms(13,14)] assms(6)
    by (auto simp: safe_parts_def Let_def)
  have c: "(hi - lo = 0) = False" "(d \<ge> 32) = False" "(canon h (Suc n) m = EmptyHash \<and> hi - lo = 1) = False"
    using assms(6,9) root by auto
  have "updateBatch h st arr (canon h (Suc n) m) lo hi d = Inr (canon h (Suc n) m', st', arr')"
    by (subst updateBatch.simps) (simp only: c if_False join kids r(1,2) bind_res.simps prod.case Let_def)
  then show ?thesis using r(3,4) by blast
qed

lemma overlay_one: "overlay [(k, v)] m = m(k := v)"
  by (auto simp: overlay_def)

text \<open>The leaf \<open>k\<close> joins the subslice of \<open>k1\<close> and overwrites the next element of the batch, \<open>k2\<close>.\<close>

lemma batch_drops:
  assumes "sound h D" "good h D st" "holds h st 32 m" "k1 < k2" "k1 ! 0 \<noteq> k2 ! 0"
    and "{k' \<in> dom m. k' ! 0 = k1 ! 0} = {k}" "k \<noteq> k1" "m k = Some v" "\<not> is_singleton (dom m)"
    and keys: "\<forall>k'\<in>insert k1 (insert k2 (dom m)). length k' = 32" and D: "nodes h 32 (m(k1 := v1)) \<subseteq> D"
  shows "\<exists>st' arr. updateBatch h st [(k1, v1), (k2, v2)] (canon h 32 m) 0 2 0 = Inr (canon h 32 (m(k1 := v1)), st', arr) \<and>
    ext h D st st' \<and> holds h st' 32 (m(k1 := v1))"
proof -
  let ?w = "[(k1, v1), (k2, v2)]" and ?b = "k1 ! 0" and ?m2 = "m(k1 := v1)"
  define ms where "ms = sub 0 ?b m"
  define arr where "arr = sort_key fst [(k1, v1), (k, Some v)]"
  have Suc: "Suc 31 = 32" "Suc 30 = 31" by simp_all
  have km: "k \<in> dom m" "k ! 0 = ?b" using assms(6) by blast+
  have doms: "dom ms = {k}" using assms(6) by (auto simp: ms_def dom_sub)
  have msk: "ms k = Some v" using assms(8) km by (simp add: ms_def sub_apply)
  have ne: "m \<noteq> Map.empty" using assms(8) by auto
  have heldsub: "holds h st 31 (sub 0 b m)" for b
    using holds_sub [of h st 31 m b] assms(3,9) by simp
  have part: "nodes h 31 (sub 0 b ?m2) \<subseteq> D" for b by (rule nodes_part) (simp_all add: D)
  have ov1: "overlay [(k1, v1)] ms = sub 0 ?b ?m2" by (auto simp: overlay_one ms_def sub_apply)
  have v1: "valid 1 [(k1, v1)] ms"
    using doms keys km assms(7) by (auto simp: valid_def keyset_def take_Suc_conv_app_nth)
  have joined: "valid 1 arr Map.empty" "overlay arr Map.empty = sub 0 ?b ?m2"
    using joined_array [OF v1 doms _ msk] assms(7) ov1 by (simp_all add: arr_def)
  have len: "length arr = 2" by (simp add: arr_def)
  have arr': "arr = sort_window 0 (1 + 1) (?w[1 := (k, Some v)])" by (simp add: sort_window_def arr_def)
  have warr: "win arr 0 2 = arr" using len by (simp add: win_def)
  obtain st1 where st1: "updateBatch h st ?w (canon h 31 ms) 0 1 1 = Inr (canon h 31 (sub 0 ?b ?m2), st1, arr)"
    "ext h D st st1" "holds h st1 31 (sub 0 ?b ?m2)"
    using rewrite_leaf [OF assms(1,2) doms msk, of 30 1 ?w 0 1 arr "sub 0 ?b ?m2"] heldsub [of ?b] keys km arr' joined
      part assms(7) warr by (auto simp: Suc ms_def [symmetric] win_def [of ?w] numeral_2_eq_2)
  have ge: "group_end ?w 0 ?b (0 + 1) 2 = 1" using assms(5) by (subst group_end.simps) simp
  have ku: "(kids h 31 m)[unat ?b := canon h 31 (sub 0 ?b ?m2)] = kids h 31 ?m2"
    using kids_update [of "[(k1, v1)]" 31 ?b h m] ov1 by (simp add: overlay_one ms_def)
  have step: "distribute h st ?w (kids h 31 m) 0 2 0 = distribute h st1 arr (kids h 31 ?m2) 1 2 0"
  proof -
    have "updateBatch h st ?w (kids h 31 m ! unat ?b) 0 1 (0 + 1) = Inr (canon h 31 (sub 0 ?b ?m2), st1, arr)"
      using st1(1) by (simp add: kids_byte ms_def)
    from loop_step [OF _ _ _ ge this] show ?thesis by (simp only: ku) simp
  qed
  have mem: "arr ! 1 \<in> {(k1, v1), (k, Some v)}"
  proof -
    have "arr ! 1 \<in> set arr" by (rule nth_mem) (simp add: len)
    then show ?thesis by (simp add: arr_def)
  qed
  moreover have win: "win arr 1 2 = [arr ! 1]"
    using len win_nth [of 2 arr 0 1] length_win [of 2 arr 1] by (intro nth_equalityI) auto
  ultimately have ov3: "overlay (win arr 1 2) ?m2 = ?m2" using assms(7,8) by (auto simp: overlay_one)
  have v3: "valid 0 (win arr 1 2) ?m2"
    using mem win keys km by (auto simp: valid_def keyset_def split: if_splits)
  have held2: "holds h st1 31 (sub 0 b ?m2)" for b
  proof (cases "b = ?b")
    case False
    then have "sub 0 b ?m2 = sub 0 b m" by (auto simp: sub_apply fun_eq_iff)
    then show ?thesis using holds_ext [OF heldsub st1(2)] by simp
  qed (simp add: st1(3))
  obtain st2 where st2: "distribute h st1 arr (kids h 31 ?m2) 1 2 0 = Inr (kids h 31 ?m2, st2, arr)"
    "ext h D st1 st2" "\<forall>b. holds h st2 31 (sub 0 b ?m2)"
  proof -
    have "correct_at h D 31 (Suc 0)" by (rule updateBatch_correct [OF assms(1)]) simp
    from distribute_ok [of h D 31 0 st1 ?m2 arr 1 2, unfolded ov3, OF this _ ext_good [OF st1(2)] held2 v3 _ _ part]
    show thesis using that len by (auto simp: safe_parts_def)
  qed
  have "keyset 0 (dom ?m2)" using keys by (auto simp: keyset_def split: if_splits)
  then obtain st3 where st3: "collapse h (kids h 31 ?m2) st2 = (canon h 32 ?m2, st3)" "ext h D st2 st3" "holds h st3 32 ?m2"
    using collapse_ok [OF assms(1) ext_good [OF st2(2)], of 31 ?m2] D st2(3) by auto
  have root: "canon h 32 m \<noteq> EmptyHash" using canon_digest [OF assms(1) holds_nodes [OF assms(3,2)]] ne by simp
  have load: "load_children st (canon h 32 m) = Inr (kids h 31 m)"
    using load_children_ok [OF assms(1,2), of 31 m] assms(3,9) by simp
  have "at (node h 32 m) 0 = Inr 0" using node_Suc [of h 31 m] assms(9) by simp
  then have join: "join_leaf st (canon h 32 m) ?w 0 2 = Inr (?w, 0, 2, False)"
    using load_root [OF assms(1) holds_nodes [OF assms(3,2)] assms(3) ne] by (simp add: join_leaf_def)
  have "updateBatch h st ?w (canon h 32 m) 0 2 0 = Inr (canon h 32 ?m2, st3, arr)"
    using root join load step st2(1) st3(1) by (subst updateBatch.simps) simp
  then show ?thesis using ext_trans [OF st1(2) ext_trans [OF st2(2) st3(2)]] st3(3) by blast
qed

lemma two_batch:
  assumes "distinct (map fst ps)" "map_of ps = [k1 \<mapsto> v1, k2 \<mapsto> v2]" "k1 < k2"
  shows "sort_key fst ps = [(k1, v1), (k2, v2)]"
proof -
  have ne: "k1 \<noteq> k2" using assms(3) by simp
  have "map_of ps = map_of [(k2, v2), (k1, v1)]" using assms(2) by simp
  then have "set ps = set [(k2, v2), (k1, v1)]"
    using map_of_inject_set [OF assms(1), of "[(k2, v2), (k1, v1)]"] ne by simp
  then have set: "set (sort_key fst ps) = set [(k1, v1), (k2, v2)]" by auto
  show ?thesis
  proof (rule map_sorted_distinct_set_unique [OF _ _ _ _ _ set])
    show "inj_on fst (set (sort_key fst ps) \<union> set [(k1, v1), (k2, v2)])" unfolding set using ne by simp
  qed (use assms(1,3) ne in \<open>simp_all add: distinct_map\<close>)
qed

lemma smt_run_append: "smt_run h (ops @ ops') s = bind_res (smt_run h ops s) (smt_run h ops')"
proof (induction ops arbitrary: s)
  case (Cons op ops)
  then show ?case by (cases "smt_step h op s") simp_all
qed simp

text \<open>C37. A batch with two new keys can lose one. When the tree has one key under the first byte of the
  smaller pending key (and keys elsewhere), that leaf is appended to the subslice of the smaller key and
  overwrites the greater one in the shared array: \<^verbatim>\<open>Commit\<close> succeeds, its root is that of the
  contents with the smaller key only, and \<^verbatim>\<open>Get\<close> of the greater key answers as before the write.\<close>

theorem smt_commit_drops_key:
  assumes "sound h (written h ops (Map.empty, Map.empty) \<union> nodes h 32 ((fst (abs_run ops))(k1 := v1)))"
    and "orderly ops (Map.empty, Map.empty)" "snd (abs_run ops) = [k1 \<mapsto> v1, k2 \<mapsto> v2]"
    and "k1 < k2" "length k1 = 32" "length k2 = 32" "k1 ! 0 \<noteq> k2 ! 0"
    and "{k' \<in> dom (fst (abs_run ops)). k' ! 0 = k1 ! 0} = {k}" "k \<noteq> k1" "\<not> is_singleton (dom (fst (abs_run ops)))"
  shows "\<exists>s. smt_run h (ops @ [OpCommit]) NewSMT = Inr s \<and> s_pending s = [] \<and>
    s_root s = canon h 32 ((fst (abs_run ops))(k1 := v1)) \<and> answers (smt_Get k2 s) (fst (abs_run ops) k2)"
proof -
  define m where "m = fst (abs_run ops)"
  define D where "D = written h ops (Map.empty, Map.empty) \<union> nodes h 32 (m(k1 := v1))"
  have snd: "sound h D" using assms(1) by (simp add: D_def m_def)
  obtain s where s: "smt_run h ops NewSMT = Inr s" "models h D (abs_run ops) s"
    using run_models [OF snd models_New _ assms(2)] by (auto simp: abs_run_def D_def)
  then have r: "represents h D m s" "map_of (s_pending s) = [k1 \<mapsto> v1, k2 \<mapsto> v2]" "distinct (map fst (s_pending s))"
    using assms(3) by (simp_all add: models_def m_def)
  then have r': "s_root s = canon h 32 m" "good h D (s_store s)" "holds h (s_store s) 32 m" "\<forall>k\<in>dom m. length k = 32"
    by (simp_all add: represents_def)
  have w: "sort_key fst (s_pending s) = [(k1, v1), (k2, v2)]" by (rule two_batch [OF r(3,2) assms(4)])
  have "k \<in> dom m" using assms(8) by (auto simp: m_def)
  then obtain v where v: "m k = Some v" by auto
  obtain st' arr where c: "updateBatch h (s_store s) [(k1, v1), (k2, v2)] (canon h 32 m) 0 2 0 = Inr (canon h 32 (m(k1 := v1)), st', arr)"
    "ext h D (s_store s) st'" "holds h st' 32 (m(k1 := v1))"
    using batch_drops [OF snd r'(2,3) assms(4,7) _ assms(9) v, of v1 v2] assms(5,6,8,10) r'(4) by (auto simp: m_def D_def)
  let ?s = "s\<lparr>s_root := canon h 32 (m(k1 := v1)), s_store := st', s_pending := []\<rparr>"
  have "length (s_pending s) = 2" using arg_cong [OF w, of length] by simp
  then have run: "smt_run h (ops @ [OpCommit]) NewSMT = Inr ?s"
    using c(1) [unfolded numeral_2_eq_2] s(1) w by (simp add: smt_run_append smt_Commit_def Let_def r'(1))
  have "represents h D (m(k1 := v1)) ?s"
    using c ext_good [OF c(2)] r'(4) assms(5) by (auto simp: represents_def)
  from represents_get [OF snd this, of k2] have "answers (smt_Get k2 ?s) (m k2)"
    using assms(4,6) less_imp_neq [OF assms(4)] by (simp add: smt_Get_def)
  then show ?thesis using run by (auto simp: m_def)
qed

theorem smt_commit_drops_key_witness:
  "\<exists>s. smt_run demo_hash (demo_pending @ [OpCommit]) NewSMT = Inr s \<and> s_pending s = [] \<and>
    s_root s = canon demo_hash 32 ((fst (abs_run demo_pending))(key2 1 0 := Some [6])) \<and>
    answers (smt_Get (key2 2 0) s) (fst (abs_run demo_pending) (key2 2 0))"
proof (rule smt_commit_drops_key [of demo_hash demo_pending "key2 1 0" "Some [6]" "key2 2 0" "Some [7]" "key2 1 5"])
  show "sound demo_hash (written demo_hash demo_pending (Map.empty, Map.empty) \<union>
      nodes demo_hash 32 ((fst (abs_run demo_pending))(key2 1 0 := Some [6])))"
    using demo_written(3) demo_trees(4) by (intro sound_mono [OF demo_sound]) (simp add: demo_abs demo_swap)
  show "orderly demo_pending (Map.empty, Map.empty)" by (rule demo_orderly)
  show "key2 1 0 < key2 2 0" by (simp add: key2_def)
  show "{k' \<in> dom (fst (abs_run demo_pending)). k' ! 0 = key2 1 0 ! 0} = {key2 1 5}"
    by (auto simp: demo_abs two_keys_def)
  show "\<not> is_singleton (dom (fst (abs_run demo_pending)))"
    by (simp add: demo_abs two_keys_def not_single)
qed (simp_all add: demo_abs)

text \<open>C38. Whatever the operations are, and without any assumption on collisions, the tree stays well
  formed: roots, store keys and pending keys are 32 bytes, and every stored value is the encoding of a
  leaf or of an internal node with 256 child hashes.\<close>

theorem smt_well_formed:
  assumes "digest h" "smt_run h ops NewSMT = Inr s"
  shows "wf_smt s"
  using wf_run [OF assms(1) wf_New assms(2)] .

lemma demo_digest: "digest demo_hash"
  by (simp add: digest_def demo_hash_def)

theorem smt_well_formed_witness: "\<exists>s. smt_run demo_hash demo_ops NewSMT = Inr s \<and> wf_smt s"
proof -
  obtain s where "smt_run demo_hash demo_ops NewSMT = Inr s"
    using run_models [OF demo_sound models_New demo_written(1) demo_orderly(1)] by blast
  then show ?thesis using smt_well_formed [OF demo_digest] by blast
qed

end
