(* ===== verification/Dedup.thy ===== *)
theory Dedup
  imports Models
begin

text \<open>
  Deduplication in \<^verbatim>\<open>v2-tx-pipeline\<close>: the sharded set of \<^verbatim>\<open>sharded_cache.go\<close>, the key hashers, the Bloom
  filter, the UUIDv7 check, the monitor that switches the filter on and off, and the order-ID check of
  the logic pipeline, all of \<^verbatim>\<open>main.go\<close>.

  \<^item> A panic (bad constructor argument, index out of range) is \<open>None\<close>.
  \<^item> \<^verbatim>\<open>Seen\<close> runs as two critical sections, a read and a write; \<open>seen_step\<close> interleaves the calls of
    several goroutines.
  \<^item> The bit field of the filter is a function from the word index; \<open>bloom_index_bound\<close> shows that
    only words below \<^verbatim>\<open>BloomSize\<close> are used.
\<close>

unbundle bit_operations_syntax

subsection \<open>The sharded set\<close>

record sharded_set =
  ss_shards :: "bytes set list"
  ss_mask :: u32
  ss_hasher :: "bytes \<Rightarrow> u32 option"
  ss_keySize :: int

definition le_uint32 :: "bytes \<Rightarrow> u32" where
  "le_uint32 bs = be_word (rev (take 4 bs))"

definition DefaultUUIDHasher :: "bytes \<Rightarrow> u32 option" where
  "DefaultUUIDHasher i = (if length i < 16 then None else Some (le_uint32 (drop 12 i)))"

definition DefaultBlake3Hasher :: "bytes \<Rightarrow> u32 option" where
  "DefaultBlake3Hasher key =
    (let n = length key
     in if n < 4 then Some 0
        else Some (ucast (key ! (n - 4)) OR push_bit 8 (ucast (key ! (n - 3))) OR
          push_bit 16 (ucast (key ! (n - 2))) OR push_bit 24 (ucast (key ! (n - 1)))))"

definition NewShardedSet :: "int \<Rightarrow> int \<Rightarrow> (bytes \<Rightarrow> u32 option) option \<Rightarrow> sharded_set option" where
  "NewShardedSet shardCount keySizeBytes hasher =
    (if shardCount \<le> 0 \<or> shardCount AND (shardCount - 1) \<noteq> 0 then None
     else if keySizeBytes \<le> 0 then None
     else Some \<lparr>ss_shards = replicate (nat shardCount) {}, ss_mask = of_int (shardCount - 1),
       ss_hasher = (case hasher of None \<Rightarrow> DefaultBlake3Hasher | Some f \<Rightarrow> f), ss_keySize = keySizeBytes\<rparr>)"

definition shard_of :: "sharded_set \<Rightarrow> bytes \<Rightarrow> nat option" where
  "shard_of s key = (case ss_hasher s key of
     None \<Rightarrow> None
   | Some h \<Rightarrow> let i = unat (h AND ss_mask s) in if i < length (ss_shards s) then Some i else None)"

definition shard_insert :: "nat \<Rightarrow> bytes \<Rightarrow> sharded_set \<Rightarrow> sharded_set" where
  "shard_insert i key s = s\<lparr>ss_shards := (ss_shards s)[i := insert key (ss_shards s ! i)]\<rparr>"

text \<open>The two critical sections of \<^verbatim>\<open>Seen\<close>.\<close>

definition seen_read :: "bytes \<Rightarrow> nat \<Rightarrow> sharded_set \<Rightarrow> bool" where
  "seen_read key i s \<longleftrightarrow> key \<in> ss_shards s ! i"

definition seen_write :: "bytes \<Rightarrow> nat \<Rightarrow> sharded_set \<Rightarrow> bool \<times> sharded_set" where
  "seen_write key i s = (if key \<in> ss_shards s ! i then (True, s) else (False, shard_insert i key s))"

definition set_Seen :: "bytes \<Rightarrow> sharded_set \<Rightarrow> (bool \<times> sharded_set) option" where
  "set_Seen key s =
    (if int (length key) \<noteq> ss_keySize s then Some (False, s)
     else case shard_of s key of
       None \<Rightarrow> None
     | Some i \<Rightarrow> Some (if seen_read key i s then (True, s) else seen_write key i s))"

definition set_Put :: "bytes \<Rightarrow> sharded_set \<Rightarrow> sharded_set option" where
  "set_Put key s =
    (if int (length key) \<noteq> ss_keySize s then Some s
     else case shard_of s key of None \<Rightarrow> None | Some i \<Rightarrow> Some (shard_insert i key s))"

text \<open>Goroutines that each run one \<^verbatim>\<open>Seen\<close>, interleaved by their critical sections.\<close>

datatype seen_call = Start bytes | Missed bytes | Returned bytes bool

definition seen_step :: "nat \<Rightarrow> sharded_set \<times> seen_call list \<Rightarrow> sharded_set \<times> seen_call list" where
  "seen_step t c = (case c of (s, calls) \<Rightarrow>
     if t \<ge> length calls then (s, calls)
     else case calls ! t of
       Start key \<Rightarrow>
         (if int (length key) \<noteq> ss_keySize s then (s, calls[t := Returned key False])
          else case shard_of s key of
            None \<Rightarrow> (s, calls)
          | Some i \<Rightarrow> (s, calls[t := (if seen_read key i s then Returned key True else Missed key)]))
     | Missed key \<Rightarrow> (case shard_of s key of
            None \<Rightarrow> (s, calls)
          | Some i \<Rightarrow> let (r, s') = seen_write key i s in (s', calls[t := Returned key r]))
     | Returned key r \<Rightarrow> (s, calls))"

subsection \<open>The Bloom filter\<close>

definition BloomSize :: nat where
  "BloomSize = 1024 * 1024 * 8"

type_synonym bloom = "nat \<Rightarrow> u64"

definition bloomHash :: "bytes \<Rightarrow> (u64 \<times> u64) option" where
  "bloomHash i = (if length i < 16 then None
     else let h1 = be_word (rev (take 8 (drop 8 i))) in Some (h1, h1 * 0x9e3779b97f4a7c15))"

definition bloom_index :: "u64 \<Rightarrow> nat" where
  "bloom_index h = unat (h AND (of_nat (BloomSize * 64) - 1))"

definition or_bit :: "nat \<Rightarrow> bloom \<Rightarrow> bloom" where
  "or_bit idx b = b(idx div 64 := b (idx div 64) OR push_bit (idx mod 64) 1)"

definition Bloom_Add :: "bytes \<Rightarrow> bloom \<Rightarrow> bloom option" where
  "Bloom_Add i b = (case bloomHash i of
     None \<Rightarrow> None
   | Some (h1, h2) \<Rightarrow> Some (or_bit (bloom_index h2) (or_bit (bloom_index h1) b)))"

definition MayContain :: "bytes \<Rightarrow> bloom \<Rightarrow> bool option" where
  "MayContain i b = (case bloomHash i of
     None \<Rightarrow> None
   | Some (h1, h2) \<Rightarrow>
       let idx1 = bloom_index h1; idx2 = bloom_index h2
       in Some (if b (idx1 div 64) AND push_bit (idx1 mod 64) 1 = 0 then False
                else if b (idx2 div 64) AND push_bit (idx2 mod 64) 1 = 0 then False
                else True))"

definition Bloom_Clear :: "bloom \<Rightarrow> bloom" where
  "Bloom_Clear b = (\<lambda>i. if i < BloomSize then 0 else b i)"

subsection \<open>Identifiers\<close>

definition MaxTimeDeviationMS :: u64 where
  "MaxTimeDeviationMS = 60000"

definition uuid_time :: "bytes \<Rightarrow> u64" where
  "uuid_time i = push_bit 40 (ucast (i ! 0)) OR push_bit 32 (ucast (i ! 1)) OR push_bit 24 (ucast (i ! 2)) OR
    push_bit 16 (ucast (i ! 3)) OR push_bit 8 (ucast (i ! 4)) OR ucast (i ! 5)"

definition IsValidUUIDv7 :: "u64 \<Rightarrow> bytes \<Rightarrow> bool" where
  "IsValidUUIDv7 now i =
    (if length i \<noteq> 16 then False
     else if drop_bit 4 (i ! 6) \<noteq> 7 then False
     else if drop_bit 6 (i ! 8) \<noteq> 2 then False
     else let ts = uuid_time i; diff = (if ts > now then ts - now else now - ts)
          in diff \<le> MaxTimeDeviationMS)"

subsection \<open>The shield\<close>

definition DDoSThresholdStart :: int where "DDoSThresholdStart = 1000"

definition DDoSThresholdStop :: int where "DDoSThresholdStop = 100"

record shield =
  sh_enabled :: bool
  sh_dups :: int
  sh_bloom :: bloom
  sh_cache :: sharded_set

text \<open>One tick of \<^verbatim>\<open>startDDoSMonitor\<close>.\<close>

definition monitor_tick :: "shield \<Rightarrow> shield" where
  "monitor_tick g =
    (let dups = sh_dups g; g = g\<lparr>sh_dups := 0\<rparr>
     in if \<not> sh_enabled g \<and> dups > DDoSThresholdStart
        then g\<lparr>sh_bloom := Bloom_Clear (sh_bloom g), sh_enabled := True\<rparr>
        else if sh_enabled g \<and> dups < DDoSThresholdStop then g\<lparr>sh_enabled := False\<rparr>
        else g)"

text \<open>The check of one order ID; the answer is whether the transaction goes on.\<close>

definition check_order_id :: "bytes \<Rightarrow> shield \<Rightarrow> (bool \<times> shield) option" where
  "check_order_id oid g =
    (let seen = (case set_Seen oid (sh_cache g) of
           None \<Rightarrow> None
         | Some (True, c) \<Rightarrow> Some (False, g\<lparr>sh_cache := c, sh_dups := sh_dups g + 1\<rparr>)
         | Some (False, c) \<Rightarrow> Some (True, g\<lparr>sh_cache := c\<rparr>))
     in if sh_enabled g then
          (case MayContain oid (sh_bloom g) of
             None \<Rightarrow> None
           | Some False \<Rightarrow> (case Bloom_Add oid (sh_bloom g) of
                 None \<Rightarrow> None
               | Some b \<Rightarrow> (case set_Put oid (sh_cache g) of
                     None \<Rightarrow> None
                   | Some c \<Rightarrow> Some (True, g\<lparr>sh_bloom := b, sh_cache := c\<rparr>)))
           | Some True \<Rightarrow> seen)
        else seen)"

text \<open>What the decoder of the logic pipeline does with the first order ID of a transaction.\<close>

definition admit_order :: "u64 \<Rightarrow> bytes \<Rightarrow> shield \<Rightarrow> (bool \<times> shield) option" where
  "admit_order now oid g =
    (if length oid > 0 then
       (if \<not> IsValidUUIDv7 now oid then Some (False, g) else check_order_id oid g)
     else Some (True, g))"

end
