(* ===== verification/DedupTheorems.thy ===== *)
theory DedupTheorems
  imports Dedup
begin

text \<open>
  Properties of the deduplication: the sharded set as a set, concurrent calls of \<^verbatim>\<open>Seen\<close>, the Bloom
  filter without false negatives, the UUIDv7 check as an arithmetic condition, and the interface
  \<open>once_filter\<close> of a check that lets every key through at most once, interpreted on the order-ID check
  with the shield off and on.
\<close>

subsection \<open>The sharded set as a set\<close>

definition set_inv :: "sharded_set \<Rightarrow> bool" where
  "set_inv s \<longleftrightarrow> (\<forall>key. int (length key) = ss_keySize s \<longrightarrow> shard_of s key \<noteq> None)"

definition in_set :: "bytes \<Rightarrow> sharded_set \<Rightarrow> bool" where
  "in_set key s \<longleftrightarrow> int (length key) = ss_keySize s \<and>
    (case shard_of s key of None \<Rightarrow> False | Some i \<Rightarrow> key \<in> ss_shards s ! i)"

lemma shard_insert_simps [simp]:
  "ss_keySize (shard_insert i key s) = ss_keySize s" "shard_of (shard_insert i key s) k = shard_of s k"
  by (simp_all add: shard_insert_def shard_of_def Let_def split: option.split)

lemma shard_of_bound: "shard_of s key = Some i \<Longrightarrow> i < length (ss_shards s)"
  by (auto simp: shard_of_def Let_def split: option.splits if_splits)

lemma shard_insert_inv: "set_inv s \<Longrightarrow> set_inv (shard_insert i key s)"
  by (simp add: set_inv_def)

lemma in_set_insert:
  assumes "shard_of s key = Some i" "int (length key) = ss_keySize s"
  shows "in_set k (shard_insert i key s) \<longleftrightarrow> k = key \<or> in_set k s"
  using assms shard_of_bound [OF assms(1)]
  by (cases "shard_of s k") (auto simp: in_set_def shard_insert_def nth_list_update shard_of_def Let_def split: option.splits if_splits)

text \<open>Both operations, sequentially.\<close>

lemma set_Seen_ok:
  assumes "set_inv s"
  shows "\<exists>s'. set_Seen key s = Some (in_set key s, s') \<and> set_inv s' \<and> ss_keySize s' = ss_keySize s \<and>
    (\<forall>k. in_set k s' \<longleftrightarrow> in_set k s \<or> (k = key \<and> int (length key) = ss_keySize s))"
proof (cases "int (length key) = ss_keySize s")
  case True
  then obtain i where i: "shard_of s key = Some i" using assms by (auto simp: set_inv_def)
  show ?thesis
  proof (cases "key \<in> ss_shards s ! i")
    case in_s: True
    then have "in_set key s" using True i by (simp add: in_set_def)
    then show ?thesis using True i in_s assms by (auto simp: set_Seen_def seen_read_def)
  next
    case False
    then have "\<not> in_set key s" using i by (simp add: in_set_def)
    then show ?thesis using True i False shard_insert_inv [OF assms] in_set_insert [OF i True]
      by (auto simp: set_Seen_def seen_read_def seen_write_def)
  qed
next
  case False
  then have "\<not> in_set key s" by (simp add: in_set_def)
  then show ?thesis using False assms by (auto simp: set_Seen_def)
qed

lemma set_Put_ok:
  assumes "set_inv s"
  shows "\<exists>s'. set_Put key s = Some s' \<and> set_inv s' \<and> ss_keySize s' = ss_keySize s \<and>
    (\<forall>k. in_set k s' \<longleftrightarrow> in_set k s \<or> (k = key \<and> int (length key) = ss_keySize s))"
proof (cases "int (length key) = ss_keySize s")
  case True
  then obtain i where i: "shard_of s key = Some i" using assms by (auto simp: set_inv_def)
  then show ?thesis using True shard_insert_inv [OF assms] in_set_insert [OF i True] by (auto simp: set_Put_def)
qed (use assms in \<open>auto simp: set_Put_def\<close>)

text \<open>A hasher that does not panic on keys of the right length.\<close>

definition total_hasher :: "(bytes \<Rightarrow> u32 option) option \<Rightarrow> int \<Rightarrow> bool" where
  "total_hasher hasher width \<longleftrightarrow> (\<forall>f key. hasher = Some f \<longrightarrow> int (length key) = width \<longrightarrow> f key \<noteq> None)"

lemma uuid_hasher_total: "total_hasher (Some DefaultUUIDHasher) 16"
  by (simp add: total_hasher_def DefaultUUIDHasher_def)

lemma len32: "LENGTH(32) = 32"
  by simp

lemma NewShardedSet_ok:
  assumes "NewShardedSet n width hasher = Some s"
    and "total_hasher hasher width"
  shows "set_inv s" "\<not> in_set k s" "ss_keySize s = width"
proof -
  have n: "0 < n" and s: "s = \<lparr>ss_shards = replicate (nat n) {}, ss_mask = of_int (n - 1),
      ss_hasher = (case hasher of None \<Rightarrow> DefaultBlake3Hasher | Some f \<Rightarrow> f), ss_keySize = width\<rparr>"
    using assms(1) by (auto simp: NewShardedSet_def split: if_splits)
  show "ss_keySize s = width" by (simp add: s)
  have bound: "unat (h AND of_int (n - 1) :: u32) < nat n" for h
  proof -
    have "unat (h AND of_int (n - 1) :: u32) \<le> unat (of_int (n - 1) :: u32)"
      by (simp add: word_and_le1 word_le_nat_alt [symmetric])
    also have "int \<dots> = (n - 1) mod 2 ^ 32" by (simp only: uint_nat [symmetric] uint_word_of_int len32)
    also have "\<dots> \<le> n - 1" using n by (intro zmod_le_nonneg_dividend) simp
    finally show ?thesis using n by linarith
  qed
  have hash: "ss_hasher s key \<noteq> None" if "int (length key) = width" for key :: bytes
    using assms(2) that by (auto simp: s total_hasher_def DefaultBlake3Hasher_def Let_def split: option.split)
  show "set_inv s" unfolding set_inv_def
  proof (intro allI impI)
    fix key :: bytes assume "int (length key) = ss_keySize s"
    then obtain h where "ss_hasher s key = Some h" using hash \<open>ss_keySize s = width\<close> by auto
    moreover have "ss_mask s = of_int (n - 1)" "length (ss_shards s) = nat n" by (simp_all add: s)
    ultimately show "shard_of s key \<noteq> None" using bound [of h] by (simp add: shard_of_def Let_def)
  qed
  show "\<not> in_set k s"
  proof (cases "shard_of s k")
    case (Some i)
    then have "i < nat n" using shard_of_bound [OF Some] by (simp add: s)
    then have "ss_shards s ! i = {}" by (simp add: s)
    then show ?thesis using Some by (simp add: in_set_def)
  qed (simp add: in_set_def)
qed

text \<open>Sequences of calls against a plain set.\<close>

datatype set_op = SeenOp bytes | PutOp bytes

fun run_set :: "set_op list \<Rightarrow> sharded_set \<Rightarrow> (bool list \<times> sharded_set) option" where
  "run_set [] s = Some ([], s)"
| "run_set (SeenOp k # ops) s = (case set_Seen k s of
     None \<Rightarrow> None
   | Some (r, s') \<Rightarrow> map_option (\<lambda>(rs, s''). (r # rs, s'')) (run_set ops s'))"
| "run_set (PutOp k # ops) s = (case set_Put k s of None \<Rightarrow> None | Some s' \<Rightarrow> run_set ops s')"

fun spec_set :: "int \<Rightarrow> set_op list \<Rightarrow> bytes set \<Rightarrow> bool list" where
  "spec_set width [] M = []"
| "spec_set width (SeenOp k # ops) M =
    (k \<in> M) # spec_set width ops (if int (length k) = width then insert k M else M)"
| "spec_set width (PutOp k # ops) M = spec_set width ops (if int (length k) = width then insert k M else M)"

lemma run_set_ok:
  "set_inv s \<Longrightarrow> ss_keySize s = width \<Longrightarrow> M = {k. in_set k s} \<Longrightarrow> \<exists>s'. run_set ops s = Some (spec_set width ops M, s')"
proof (induction ops arbitrary: s M)
  case (Cons op ops)
  show ?case
  proof (cases op)
    case (SeenOp k)
    obtain s1 where s1: "set_Seen k s = Some (in_set k s, s1)" "set_inv s1" "ss_keySize s1 = ss_keySize s"
      "\<forall>x. in_set x s1 \<longleftrightarrow> in_set x s \<or> (x = k \<and> int (length k) = ss_keySize s)"
      using set_Seen_ok [OF Cons.prems(1)] by blast
    have "(if int (length k) = width then insert k M else M) = {x. in_set x s1}" using s1(4) Cons.prems(2,3) by auto
    then show ?thesis using Cons.IH [of s1 "if int (length k) = width then insert k M else M"] s1 Cons.prems SeenOp by auto
  next
    case (PutOp k)
    obtain s1 where s1: "set_Put k s = Some s1" "set_inv s1" "ss_keySize s1 = ss_keySize s"
      "\<forall>x. in_set x s1 \<longleftrightarrow> in_set x s \<or> (x = k \<and> int (length k) = ss_keySize s)"
      using set_Put_ok [OF Cons.prems(1)] by blast
    have "(if int (length k) = width then insert k M else M) = {x. in_set x s1}" using s1(4) Cons.prems(2,3) by auto
    then show ?thesis using Cons.IH [of s1 "if int (length k) = width then insert k M else M"] s1 Cons.prems PutOp by auto
  qed
qed simp

subsection \<open>Concurrent calls\<close>

fun run_calls :: "nat list \<Rightarrow> sharded_set \<times> seen_call list \<Rightarrow> sharded_set \<times> seen_call list" where
  "run_calls [] c = c"
| "run_calls (t # ts) c = run_calls ts (seen_step t c)"

definition firsts :: "bytes \<Rightarrow> seen_call list \<Rightarrow> nat" where
  "firsts key calls = length (filter (\<lambda>x. x = Returned key False) calls)"

text \<open>One call got the answer that \<open>key\<close> is new exactly when \<open>key\<close> is in the set.\<close>

definition calls_inv :: "bytes \<Rightarrow> sharded_set \<times> seen_call list \<Rightarrow> bool" where
  "calls_inv key c \<longleftrightarrow> set_inv (fst c) \<and> int (length key) = ss_keySize (fst c) \<and>
    firsts key (snd c) = (if in_set key (fst c) then 1 else 0) \<and>
    (Returned key True \<in> set (snd c) \<longrightarrow> in_set key (fst c)) \<and>
    (\<forall>k. Missed k \<in> set (snd c) \<longrightarrow> int (length k) = ss_keySize (fst c))"

lemma firsts_update:
  "t < length calls \<Longrightarrow> calls ! t \<noteq> Returned key False \<Longrightarrow>
    firsts key (calls[t := x]) = firsts key calls + (if x = Returned key False then 1 else 0)"
proof (induction calls arbitrary: t)
  case (Cons c calls)
  then show ?case by (cases t) (auto simp: firsts_def)
qed simp

lemma in_set_update_subset: "y \<in> set (xs[t := x]) \<Longrightarrow> y = x \<or> y \<in> set xs"
  using set_update_subset_insert by fast

lemma seen_step_inv:
  assumes "calls_inv key c"
  shows "calls_inv key (seen_step t c)"
proof (cases c)
  case (Pair s calls)
  note inv = assms [unfolded calls_inv_def Pair, simplified]
  show ?thesis
  proof (cases "t < length calls")
    case False
    then show ?thesis using assms by (simp add: seen_step_def Pair)
  next
    case t: True
    show ?thesis
    proof (cases "calls ! t")
      case (Start k)
      have new: "calls ! t \<noteq> Returned key False" by (simp add: Start)
      show ?thesis
      proof (cases "int (length k) = ss_keySize s")
        case False
        then have "k \<noteq> key" using inv by auto
        then show ?thesis using inv t Start False firsts_update [OF t new]
          by (auto simp: seen_step_def Pair calls_inv_def dest!: in_set_update_subset)
      next
        case True
        then obtain i where i: "shard_of s k = Some i" using inv by (auto simp: set_inv_def)
        have "in_set k s \<longleftrightarrow> k \<in> ss_shards s ! i" using True i by (simp add: in_set_def)
        then show ?thesis using inv t Start True i firsts_update [OF t new]
          by (auto simp: seen_step_def Pair calls_inv_def seen_read_def dest!: in_set_update_subset)
      qed
    next
      case (Missed k)
      have new: "calls ! t \<noteq> Returned key False" by (simp add: Missed)
      have "Missed k \<in> set calls" using nth_mem [OF t] Missed by simp
      then have len: "int (length k) = ss_keySize s" using inv by blast
      then obtain i where i: "shard_of s k = Some i" using inv by (auto simp: set_inv_def)
      have mem: "in_set k s \<longleftrightarrow> k \<in> ss_shards s ! i" using len i by (simp add: in_set_def)
      show ?thesis
      proof (cases "in_set k s")
        case True
        then have "seen_step t c = (s, calls[t := Returned k True])"
          using t Missed i mem by (simp add: seen_step_def Pair seen_write_def)
        then show ?thesis using inv True firsts_update [OF t new]
          by (auto simp: calls_inv_def dest!: in_set_update_subset)
      next
        case False
        then have "seen_step t c = (shard_insert i k s, calls[t := Returned k False])"
          using t Missed i mem by (simp add: seen_step_def Pair seen_write_def)
        then show ?thesis using inv False firsts_update [OF t new] in_set_insert [OF i len] shard_insert_inv [of s i k]
          by (auto simp: calls_inv_def dest!: in_set_update_subset)
      qed
    next
      case (Returned k r)
      then show ?thesis using assms t by (simp add: seen_step_def Pair)
    qed
  qed
qed

lemma run_calls_inv: "calls_inv key c \<Longrightarrow> calls_inv key (run_calls ts c)"
  by (induction ts arbitrary: c) (simp_all add: seen_step_inv)

fun call_key :: "seen_call \<Rightarrow> bytes" where
  "call_key (Start k) = k"
| "call_key (Missed k) = k"
| "call_key (Returned k r) = k"

lemma seen_step_keys: "map call_key (snd (seen_step t c)) = map call_key (snd c)"
  by (auto simp: seen_step_def Let_def map_update list_update_same_conv split: prod.splits seen_call.splits option.splits)

lemma run_calls_keys: "map call_key (snd (run_calls ts c)) = map call_key (snd c)"
  by (induction ts arbitrary: c) (simp_all add: seen_step_keys)

lemma firsts_pos: "Returned key False \<in> set calls \<Longrightarrow> firsts key calls > 0"
  by (auto simp: firsts_def filter_empty_conv)

subsection \<open>Checks that let a key through once\<close>

fun admit :: "('k \<Rightarrow> 's \<Rightarrow> (bool \<times> 's) option) \<Rightarrow> 'k list \<Rightarrow> 's \<Rightarrow> ('k list \<times> 's) option" where
  "admit check [] s = Some ([], s)"
| "admit check (k # ks) s = (case check k s of
     None \<Rightarrow> None
   | Some (r, s') \<Rightarrow> map_option (\<lambda>(acc, s''). (if r then k # acc else acc, s'')) (admit check ks s'))"

text \<open>The contract of a check: it answers \<open>True\<close> exactly for keys it does not know, knows the key
  afterwards, and never forgets one.\<close>

locale once_filter =
  fixes check :: "'k \<Rightarrow> 's \<Rightarrow> (bool \<times> 's) option" and inv :: "'s \<Rightarrow> bool" and known :: "'k \<Rightarrow> 's \<Rightarrow> bool" and ok :: "'k \<Rightarrow> bool"
  assumes check_answer: "inv s \<Longrightarrow> ok k \<Longrightarrow> \<exists>s'. check k s = Some (\<not> known k s, s')"
    and check_keeps: "inv s \<Longrightarrow> ok k \<Longrightarrow> check k s = Some (r, s') \<Longrightarrow> inv s' \<and> known k s' \<and> (\<forall>x. known x s \<longrightarrow> known x s')"
begin

lemma admit_once:
  "inv s \<Longrightarrow> (\<forall>k\<in>set ks. ok k) \<Longrightarrow>
    \<exists>acc s'. admit check ks s = Some (acc, s') \<and> inv s' \<and> distinct acc \<and> (\<forall>k\<in>set acc. \<not> known k s) \<and> (\<forall>k\<in>set ks. known k s')
      \<and> (\<forall>k. known k s \<longrightarrow> known k s')"
proof (induction ks arbitrary: s)
  case (Cons k ks)
  obtain s1 where s1: "check k s = Some (\<not> known k s, s1)" using check_answer Cons.prems by fastforce
  have k1: "inv s1" "known k s1" "\<forall>x. known x s \<longrightarrow> known x s1" using check_keeps [OF Cons.prems(1) _ s1] Cons.prems(2) by auto
  obtain acc s' where r: "admit check ks s1 = Some (acc, s')" "inv s'" "distinct acc" "\<forall>x\<in>set acc. \<not> known x s1"
    "\<forall>x\<in>set ks. known x s'" "\<forall>x. known x s1 \<longrightarrow> known x s'"
    using Cons.IH [OF k1(1)] Cons.prems(2) by auto
  have "k \<notin> set acc" using r(4) k1(2) by blast
  then show ?case using s1 r k1 by (cases "known k s") auto
qed simp

end

subsection \<open>The Bloom filter\<close>

definition has_bit :: "nat \<Rightarrow> bloom \<Rightarrow> bool" where
  "has_bit i b \<longleftrightarrow> bit (b (i div 64)) (i mod 64)"

lemma and_push_bit_zero: "w AND 2 ^ n = 0 \<longleftrightarrow> \<not> bit w n" if "n < 64" for w :: u64
proof (cases "bit w n")
  case True
  then have "bit (w AND 2 ^ n) n" using that by (simp add: bit_and_iff bit_exp_iff)
  then show ?thesis using True by (metis bit_0_eq bot_apply bot_bool_def)
next
  case False
  then show ?thesis by (auto intro!: bit_word_eqI simp: bit_and_iff bit_exp_iff)
qed

lemma has_bit_or: "has_bit j (or_bit i b) \<longleftrightarrow> j = i \<or> has_bit j b"
proof -
  have "j = i \<longleftrightarrow> j div 64 = i div 64 \<and> j mod 64 = i mod 64" by (metis div_mult_mod_eq)
  then show ?thesis by (auto simp: has_bit_def or_bit_def bit_or_iff bit_exp_iff push_bit_of_1)
qed

lemma MayContain_bits:
  "MayContain k b = (case bloomHash k of None \<Rightarrow> None
    | Some (h1, h2) \<Rightarrow> Some (has_bit (bloom_index h1) b \<and> has_bit (bloom_index h2) b))"
  by (simp add: MayContain_def has_bit_def and_push_bit_zero Let_def split: option.split)

lemma bloom_index_bound: "bloom_index h div 64 < BloomSize"
proof -
  have "unat (h AND (of_nat (BloomSize * 64) - 1)) \<le> unat (of_nat (BloomSize * 64) - 1 :: u64)"
    by (simp add: word_and_le1 word_le_nat_alt [symmetric])
  also have "\<dots> = BloomSize * 64 - 1" by (simp add: BloomSize_def)
  finally show ?thesis by (simp add: bloom_index_def BloomSize_def)
qed

lemma Bloom_Add_ok:
  assumes "length k \<ge> 16"
  shows "\<exists>b'. Bloom_Add k b = Some b' \<and> MayContain k b' = Some True \<and>
    (\<forall>x. MayContain x b = Some True \<longrightarrow> MayContain x b' = Some True)"
  using assms by (auto simp: Bloom_Add_def bloomHash_def MayContain_bits has_bit_or Let_def split: option.splits)

lemma MayContain_total: "length k \<ge> 16 \<Longrightarrow> \<exists>r. MayContain k b = Some r"
  by (simp add: MayContain_bits bloomHash_def Let_def)

lemma Bloom_Clear_bits: "\<not> has_bit (bloom_index h) (Bloom_Clear b)"
  using bloom_index_bound [of h] by (simp add: has_bit_def Bloom_Clear_def)

lemma MayContain_Clear: "length k \<ge> 16 \<Longrightarrow> MayContain k (Bloom_Clear b) = Some False"
  by (simp add: MayContain_bits bloomHash_def Bloom_Clear_bits Let_def)

subsection \<open>The order-ID check\<close>

definition order_id :: "bytes \<Rightarrow> bool" where
  "order_id k \<longleftrightarrow> length k = 16"

definition shield_inv :: "shield \<Rightarrow> bool" where
  "shield_inv g \<longleftrightarrow> set_inv (sh_cache g) \<and> ss_keySize (sh_cache g) = 16"

definition knows_off :: "bytes \<Rightarrow> shield \<Rightarrow> bool" where
  "knows_off k g \<longleftrightarrow> in_set k (sh_cache g)"

definition knows_on :: "bytes \<Rightarrow> shield \<Rightarrow> bool" where
  "knows_on k g \<longleftrightarrow> in_set k (sh_cache g) \<and> MayContain k (sh_bloom g) = Some True"

lemma in_set_len: "in_set k s \<Longrightarrow> int (length k) = ss_keySize s"
  by (simp add: in_set_def)

interpretation shield_off: once_filter check_order_id "\<lambda>g. shield_inv g \<and> \<not> sh_enabled g" knows_off order_id
proof
  fix g k assume g: "shield_inv g \<and> \<not> sh_enabled g" and k: "order_id k"
  obtain c where c: "set_Seen k (sh_cache g) = Some (in_set k (sh_cache g), c)" "set_inv c" "ss_keySize c = ss_keySize (sh_cache g)"
    "\<forall>x. in_set x c \<longleftrightarrow> in_set x (sh_cache g) \<or> (x = k \<and> int (length k) = ss_keySize (sh_cache g))"
    using set_Seen_ok g unfolding shield_inv_def by blast
  have chk: "\<exists>s'. check_order_id k g = Some (\<not> knows_off k g, s') \<and> sh_cache s' = c \<and> \<not> sh_enabled s'"
    using g c(1) by (cases "in_set k (sh_cache g)") (simp_all add: check_order_id_def knows_off_def)
  then show "\<exists>s'. check_order_id k g = Some (\<not> knows_off k g, s')" by blast
  fix r s' assume "check_order_id k g = Some (r, s')"
  then have "sh_cache s' = c" "\<not> sh_enabled s'" using chk by auto
  then show "(shield_inv s' \<and> \<not> sh_enabled s') \<and> knows_off k s' \<and> (\<forall>x. knows_off x g \<longrightarrow> knows_off x s')"
    using c(2-4) g k by (auto simp: shield_inv_def knows_off_def order_id_def)
qed

interpretation shield_on: once_filter check_order_id "\<lambda>g. shield_inv g \<and> sh_enabled g" knows_on order_id
proof
  fix g k assume g: "shield_inv g \<and> sh_enabled g" and k: "order_id k"
  have len: "16 \<le> length k" "int (length k) = ss_keySize (sh_cache g)" using k g by (simp_all add: order_id_def shield_inv_def)
  obtain c where c: "set_Seen k (sh_cache g) = Some (in_set k (sh_cache g), c)" "set_inv c" "ss_keySize c = ss_keySize (sh_cache g)"
    "\<forall>x. in_set x c \<longleftrightarrow> in_set x (sh_cache g) \<or> (x = k \<and> int (length k) = ss_keySize (sh_cache g))"
    using set_Seen_ok g unfolding shield_inv_def by blast
  obtain c' where c': "set_Put k (sh_cache g) = Some c'" "set_inv c'" "ss_keySize c' = ss_keySize (sh_cache g)"
    "\<forall>x. in_set x c' \<longleftrightarrow> in_set x (sh_cache g) \<or> (x = k \<and> int (length k) = ss_keySize (sh_cache g))"
    using set_Put_ok g unfolding shield_inv_def by blast
  obtain b where b: "Bloom_Add k (sh_bloom g) = Some b" "MayContain k b = Some True"
    "\<forall>x. MayContain x (sh_bloom g) = Some True \<longrightarrow> MayContain x b = Some True" using Bloom_Add_ok [OF len(1)] by blast
  obtain m where m: "MayContain k (sh_bloom g) = Some m" using MayContain_total [OF len(1)] by blast
  have chk: "\<exists>s'. check_order_id k g = Some (\<not> knows_on k g, s') \<and> shield_inv s' \<and> sh_enabled s' \<and> knows_on k s' \<and>
      (\<forall>x. knows_on x g \<longrightarrow> knows_on x s')"
  proof (cases m)
    case True
    then show ?thesis using g c m len(2)
      by (cases "in_set k (sh_cache g)") (auto simp: check_order_id_def knows_on_def shield_inv_def)
  next
    case False
    then show ?thesis using g c' b m len(2) by (auto simp: check_order_id_def knows_on_def shield_inv_def)
  qed
  then show "\<exists>s'. check_order_id k g = Some (\<not> knows_on k g, s')" by blast
  fix r s' assume "check_order_id k g = Some (r, s')"
  then show "(shield_inv s' \<and> sh_enabled s') \<and> knows_on k s' \<and> (\<forall>x. knows_on x g \<longrightarrow> knows_on x s')"
    using chk by auto
qed

subsection \<open>The time of an identifier\<close>

definition be_value :: "bytes \<Rightarrow> nat" where
  "be_value bs = foldl (\<lambda>a b. 256 * a + unat b) 0 bs"

lemma or_byte: "push_bit 8 w OR ucast b = push_bit 8 w + (ucast (b :: u8) :: u64)"
proof (rule disjunctive_add [symmetric])
  show "\<not> bit (push_bit 8 w) n \<or> \<not> bit (ucast b :: u64) n" for n
    by (auto simp: bit_simps dest: bit_imp_le_length)
qed

lemma unat_be_word: "8 * length bs \<le> 64 \<Longrightarrow> unat (be_word bs :: u64) = be_value bs \<and> be_value bs < 256 ^ length bs"
proof (induction bs rule: rev_induct)
  case (snoc b bs)
  let ?w = "be_word bs :: u64"
  have ih: "unat ?w = be_value bs" "be_value bs < 256 ^ length bs" using snoc by simp_all
  have v: "be_value (bs @ [b]) = 256 * be_value bs + unat b" by (simp add: be_value_def)
  have b: "unat b < 256" using unsigned_less [of b] by simp
  have "256 ^ length bs \<le> (256 ^ 7 :: nat)" using snoc.prems by (intro power_increasing) simp_all
  then have lt: "256 * be_value bs + 255 < 2 ^ 64" using ih(2) by simp
  have "unat (push_bit 8 ?w) = 256 * be_value bs"
    using lt ih(1) unat_mult_lem [of ?w 256] by (simp add: push_bit_eq_mult mult.commute)
  moreover have "unat (ucast b :: u64) = unat b" by (simp add: unsigned_ucast_eq take_bit_eq_mod b order_less_trans [OF b])
  ultimately have "unat (push_bit 8 ?w + ucast b) = 256 * be_value bs + unat b"
    using lt b by (subst unat_add_no_wrap) simp_all
  then show ?case using v ih(2) b by (simp add: be_word_def or_byte)
qed (simp add: be_value_def be_word_def)

lemma uuid_time_word: "length i = 16 \<Longrightarrow> uuid_time i = be_word (take 6 i)"
proof -
  assume "length i = 16"
  then obtain a b c d e f r where "i = a # b # c # d # e # f # r"
    by (auto simp: length_Suc_conv numeral_eq_Suc)
  then show ?thesis by (simp add: uuid_time_def be_word_def push_bit_or push_bit_push_bit or.assoc)
qed

lemma uuid_time_value: "length i = 16 \<Longrightarrow> unat (uuid_time i) = be_value (take 6 i)"
  using unat_be_word [of "take 6 i"] by (simp add: uuid_time_word)

lemma high_bits: "drop_bit 4 (b :: u8) = 7 \<longleftrightarrow> unat b div 16 = 7" "drop_bit 6 (b :: u8) = 2 \<longleftrightarrow> unat b div 64 = 2"
  by (simp_all add: word_unat_eq_iff drop_bit_eq_div unat_div)

lemma deviation: "(if ts > now then ts - now else now - ts :: u64) \<le> d \<longleftrightarrow> unat ts \<le> unat now + unat d \<and> unat now \<le> unat ts + unat d"
  by (auto simp: word_le_nat_alt word_less_nat_alt unat_diff_no_wrap)

text \<open>The sharded set is a set: whatever the shard count and the hash function are, a sequence of
  \<^verbatim>\<open>Seen\<close> and \<^verbatim>\<open>Put\<close> on a new set answers as on a plain set of keys of the right length, and keys of
  another length are never stored.\<close>

theorem sharded_set_refines_set:
  assumes "NewShardedSet n width hasher = Some s"
    and "total_hasher hasher width"
  shows "\<exists>s'. run_set ops s = Some (spec_set width ops {}, s')"
  using run_set_ok [OF NewShardedSet_ok(1) [OF assms] NewShardedSet_ok(3) [OF assms]]
    NewShardedSet_ok(2) [OF assms] by simp

lemma sample_set:
  "NewShardedSet 4 16 (Some DefaultUUIDHasher) = Some \<lparr>ss_shards = replicate 4 {}, ss_mask = 3, ss_hasher = DefaultUUIDHasher, ss_keySize = 16\<rparr>"
proof -
  have "(4 :: int) AND (4 - 1) = 0" by simp
  then show ?thesis by (simp add: NewShardedSet_def)
qed

theorem sharded_set_refines_set_witness:
  "\<exists>s s'. NewShardedSet 4 16 (Some DefaultUUIDHasher) = Some s \<and>
    run_set [SeenOp (replicate 16 1), PutOp (replicate 16 2), SeenOp (replicate 16 2), SeenOp (replicate 16 1), SeenOp [1], SeenOp [1]] s =
      Some ([False, True, True, False, False], s')"
proof -
  let ?ops = "[SeenOp (replicate 16 1), PutOp (replicate 16 2), SeenOp (replicate 16 2), SeenOp (replicate 16 1), SeenOp [1], SeenOp [1]]"
  obtain s where s: "NewShardedSet 4 16 (Some DefaultUUIDHasher) = Some s" using sample_set by blast
  have "spec_set 16 ?ops {} = [False, True, True, False, False]" by (simp add: numeral_eq_Suc)
  with sharded_set_refines_set [OF s uuid_hasher_total, of ?ops] s show ?thesis by auto
qed

text \<open>Concurrent calls of \<^verbatim>\<open>Seen\<close>, interleaved between the read and the write section in any way: once
  all have returned, exactly one call for each key of the right length was told that the key is new.\<close>

theorem seen_admits_once:
  assumes "NewShardedSet n width hasher = Some s"
    and "total_hasher hasher width"
    and "run_calls ts (s, map Start keys) = (s', calls)" "\<forall>c\<in>set calls. \<exists>k r. c = Returned k r"
    and "key \<in> set keys" "int (length key) = width"
  shows "length (filter (\<lambda>c. c = Returned key False) calls) = 1"
proof -
  note new = NewShardedSet_ok [OF assms(1,2)]
  have "firsts key (map Start keys) = 0" by (auto simp: firsts_def filter_empty_conv)
  then have "calls_inv key (s, map Start keys)" using new assms(6) by (auto simp: calls_inv_def)
  then have inv: "calls_inv key (s', calls)" using run_calls_inv assms(3) by metis
  have "map call_key calls = keys" using run_calls_keys [of ts "(s, map Start keys)"] assms(3) by (simp add: o_def)
  then obtain c where c: "c \<in> set calls" "call_key c = key" using assms(5) by auto
  then obtain r where "c = Returned key r" using assms(4) by force
  then have "firsts key calls = 1"
    using inv c(1) firsts_pos [of key calls] by (cases r) (auto simp: calls_inv_def split: if_splits)
  then show ?thesis by (simp add: firsts_def)
qed

theorem seen_admits_once_witness:
  "\<exists>s s' calls. NewShardedSet 4 16 (Some DefaultUUIDHasher) = Some s \<and>
    run_calls [0, 1, 1, 0] (s, map Start [replicate 16 1, replicate 16 1]) = (s', calls) \<and>
    length (filter (\<lambda>c. c = Returned (replicate 16 1) False) calls) = 1"
proof -
  obtain s where s: "NewShardedSet 4 16 (Some DefaultUUIDHasher) = Some s"
    "s = \<lparr>ss_shards = replicate 4 {}, ss_mask = 3, ss_hasher = DefaultUUIDHasher, ss_keySize = 16\<rparr>" using sample_set by blast
  let ?k = "replicate 16 1 :: bytes"
  have i: "shard_of s ?k = Some 1" by (simp add: s(2) shard_of_def DefaultUUIDHasher_def le_uint32_def be_word_def numeral_eq_Suc)
  let ?s' = "shard_insert 1 ?k s" and ?calls = "[Returned ?k True, Returned ?k False]"
  have len: "length (ss_shards s) = 4" "?k \<notin> ss_shards s ! 1" "?k \<in> ss_shards ?s' ! 1" "ss_keySize s = 16"
    by (simp_all add: s(2) shard_insert_def)
  have r: "run_calls [0, 1, 1, 0] (s, map Start [?k, ?k]) = (?s', ?calls)"
    using i len by (simp add: seen_step_def seen_read_def seen_write_def)
  have "length (filter (\<lambda>c. c = Returned ?k False) ?calls) = 1"
    by (rule seen_admits_once [OF s(1) uuid_hasher_total r]) auto
  then show ?thesis using s(1) r by blast
qed

text \<open>\<^verbatim>\<open>IsValidUUIDv7\<close> is exactly: 16 bytes, version nibble 7, variant bits 10, and a big-endian 48-bit
  time at most a minute away from the clock in either direction; the unsigned subtractions never wrap.\<close>

theorem uuid_valid_exact:
  "IsValidUUIDv7 now i \<longleftrightarrow> length i = 16 \<and> unat (i ! 6) div 16 = 7 \<and> unat (i ! 8) div 64 = 2 \<and>
    be_value (take 6 i) \<le> unat now + 60000 \<and> unat now \<le> be_value (take 6 i) + 60000"
proof (cases "length i = 16")
  case True
  have "unat MaxTimeDeviationMS = 60000" by (simp add: MaxTimeDeviationMS_def)
  then show ?thesis using True unfolding IsValidUUIDv7_def Let_def high_bits deviation
    by (auto simp: uuid_time_value)
qed (simp add: IsValidUUIDv7_def)

text \<open>As long as the shield is not switched, every order ID passes at most once: the check never
  fails, the IDs that pass are distinct, and none of them was known before. With the shield off an ID is
  known when it is in the cache; with the shield on it must be in the Bloom filter too.\<close>

theorem order_ids_pass_once:
  assumes "shield_inv g" "\<forall>k\<in>set ks. length k = 16"
  shows "\<exists>acc g'. admit check_order_id ks g = Some (acc, g') \<and> distinct acc \<and>
    (\<forall>k\<in>set acc. \<not> in_set k (sh_cache g) \<or> (sh_enabled g \<and> MayContain k (sh_bloom g) = Some False))"
proof (cases "sh_enabled g")
  case True
  have ok: "\<forall>k\<in>set ks. order_id k" using assms(2) by (simp add: order_id_def)
  obtain acc g' where r: "admit check_order_id ks g = Some (acc, g')" "distinct acc" "\<forall>k\<in>set acc. \<not> knows_on k g"
    using shield_on.admit_once [of g ks] assms(1) True ok by blast
  have "MayContain k (sh_bloom g) = Some False" if "k \<in> set acc" "in_set k (sh_cache g)" for k
  proof -
    have "16 \<le> length k" using in_set_len [OF that(2)] assms(1) by (simp add: shield_inv_def)
    then obtain m where "MayContain k (sh_bloom g) = Some m" using MayContain_total by blast
    then show ?thesis using r(3) that by (cases m) (auto simp: knows_on_def)
  qed
  then show ?thesis using r(1,2) True by blast
next
  case False
  have ok: "\<forall>k\<in>set ks. order_id k" using assms(2) by (simp add: order_id_def)
  show ?thesis using shield_off.admit_once [of g ks] assms(1) False ok by (auto simp: knows_off_def)
qed

definition sample_shield :: "bool \<Rightarrow> shield" where
  "sample_shield on = \<lparr>sh_enabled = on, sh_dups = 1001, sh_bloom = (\<lambda>i. 0),
    sh_cache = \<lparr>ss_shards = replicate 4 {}, ss_mask = 3, ss_hasher = DefaultUUIDHasher, ss_keySize = 16\<rparr>\<rparr>"

lemma sample_shield_inv: "shield_inv (sample_shield on)"
proof -
  have "ss_keySize (sh_cache (sample_shield on)) = 16" by (simp add: sample_shield_def)
  then show ?thesis using NewShardedSet_ok(1) [OF sample_set uuid_hasher_total] by (simp add: shield_inv_def sample_shield_def)
qed

theorem order_ids_pass_once_witness:
  "\<exists>acc g'. admit check_order_id [replicate 16 1, replicate 16 2, replicate 16 1] (sample_shield True) = Some (acc, g') \<and> distinct acc \<and>
    (\<forall>k\<in>set acc. \<not> in_set k (sh_cache (sample_shield True)) \<or>
      (sh_enabled (sample_shield True) \<and> MayContain k (sh_bloom (sample_shield True)) = Some False))"
  by (rule order_ids_pass_once [OF sample_shield_inv]) auto

text \<open>Switching the shield on forgets: when the monitor finds more than 1000 duplicates and activates
  the filter, every order ID that was checked before, accepted or rejected, passes again, although it is
  in the cache.\<close>

theorem shield_readmits_known_ids:
  assumes "shield_inv g" "\<not> sh_enabled g" "\<forall>k\<in>set ks. length k = 16" "k \<in> set ks"
    and "admit check_order_id ks g = Some (acc, g')" "sh_dups g' > 1000"
  shows "in_set k (sh_cache g') \<and> (\<exists>g''. check_order_id k (monitor_tick g') = Some (True, g''))"
proof -
  have ok: "\<forall>k\<in>set ks. order_id k" using assms(3) by (simp add: order_id_def)
  have g': "shield_inv g'" "\<not> sh_enabled g'" "in_set k (sh_cache g')"
    using shield_off.admit_once [of g ks] assms ok by (auto simp: knows_off_def)
  let ?t = "monitor_tick g'"
  have t: "sh_enabled ?t" "sh_cache ?t = sh_cache g'" "sh_bloom ?t = Bloom_Clear (sh_bloom g')"
    using assms(6) g'(2) by (simp_all add: monitor_tick_def Let_def DDoSThresholdStart_def)
  have "\<not> knows_on k ?t" using MayContain_Clear [of k] assms(3,4) by (auto simp: knows_on_def t)
  moreover have "shield_inv ?t" using g'(1) by (simp add: shield_inv_def t)
  ultimately show ?thesis using shield_on.check_answer [of ?t k] t(1) ok assms(4) g'(3) by auto
qed

theorem shield_readmits_known_ids_witness:
  "\<exists>acc g'. admit check_order_id [replicate 16 1] (sample_shield False) = Some (acc, g') \<and>
    in_set (replicate 16 1) (sh_cache g') \<and> (\<exists>g''. check_order_id (replicate 16 1) (monitor_tick g') = Some (True, g''))"
proof -
  let ?k = "replicate 16 1 :: bytes" and ?g = "sample_shield False"
  have "\<not> in_set ?k (sh_cache ?g)" using NewShardedSet_ok(2) [OF sample_set uuid_hasher_total] by (simp add: sample_shield_def)
  moreover obtain c where "set_Seen ?k (sh_cache ?g) = Some (in_set ?k (sh_cache ?g), c)"
    using set_Seen_ok [of "sh_cache ?g" ?k] sample_shield_inv [of False] by (auto simp: shield_inv_def)
  ultimately have r: "admit check_order_id [?k] ?g = Some ([?k], ?g\<lparr>sh_cache := c\<rparr>)"
    by (simp add: check_order_id_def sample_shield_def)
  have "sh_dups (?g\<lparr>sh_cache := c\<rparr>) > 1000" "\<not> sh_enabled ?g" by (simp_all add: sample_shield_def)
  from shield_readmits_known_ids [OF sample_shield_inv this(2) _ _ r this(1), of ?k] r show ?thesis by auto
qed

end
