(* ===== verification/Pipeline.thy ===== *)
theory Pipeline
  imports Dedup "HOL-Library.Signed_Division"
begin

text \<open>
  The proposer pipeline of \<^verbatim>\<open>v2-tx-pipeline/main.go\<close>: \<^verbatim>\<open>Push\<close> and the loop bodies of the decoder,
  verifier, prepare and execution workers, with the channels between them.

  \<^item> A channel is the list of the jobs sent and not yet taken. Decoders and verifiers are pools that
    take jobs from one channel: the job they handle next is any of the list. A prepare or execution
    channel has one consumer, which takes the first job.
  \<^item> A worker handles a job in one step. Each handler touches shared state once (the nonce of a user,
    the signature cache), and the nonce of a user is written by one prepare worker only.
  \<^item> BLAKE3, the protobuf decoder, key expansion and Ed25519 are the fields of \<open>env\<close>.
  \<^item> \<open>None\<close> is a panic. Channel capacities, metrics of time and the printing are left out.
\<close>

record tx_header =
  hd_SignerUid :: u64
  hd_Nonce :: u64
  hd_MarketSymbol :: u32
  hd_Signature :: bytes

record 'p trans =
  tx_Header :: "tx_header option"
  tx_Payload :: 'p

record ('p, 'k) env =
  e_hash :: "bytes \<Rightarrow> bytes"
  e_unmarshal :: "bytes \<Rightarrow> 'p trans option"
  e_expand :: "bytes \<Rightarrow> 'k option"
  e_verify :: "'k \<Rightarrow> bytes \<Rightarrow> bytes \<Rightarrow> bool"

record 'k user =
  us_pub :: bytes
  us_expKey :: "'k option"
  us_inited :: bool
  us_nonce :: u64

text \<open>The key is expanded once, also when that fails.\<close>

definition GetOrInitExpKey :: "('p, 'k) env \<Rightarrow> 'k user \<Rightarrow> 'k option \<times> 'k user" where
  "GetOrInitExpKey e u =
    (if us_expKey u \<noteq> None then (us_expKey u, u)
     else if us_inited u then (None, u)
     else let k = e_expand e (us_pub u) in (k, u\<lparr>us_expKey := k, us_inited := True\<rparr>))"

subsection \<open>Routing\<close>

record tx_router =
  r_SystemMaxUID :: u64
  r_ManualRoutes :: "(u64 \<times> int) list"
  r_NumWorkers :: int

definition TxRouter_Route :: "tx_router \<Rightarrow> u64 \<Rightarrow> int option" where
  "TxRouter_Route r uid = (case map_of (r_ManualRoutes r) uid of
     Some workerID \<Rightarrow> (if r_NumWorkers r = 0 then None else Some (workerID smod r_NumWorkers r))
   | None \<Rightarrow>
       if uid \<le> r_SystemMaxUID r then Some 0
       else if r_NumWorkers r \<le> 1 then Some 0
       else let generalWorkers = of_int (r_NumWorkers r - 1) in Some (1 + sint (uid mod generalWorkers)))"

record exec_router =
  x_SystemMaxUID :: u64
  x_DedicatedCount :: u32
  x_GeneralWorkers :: u32

definition ExecRouter_Route :: "exec_router \<Rightarrow> u64 \<Rightarrow> u32 \<Rightarrow> int" where
  "ExecRouter_Route r uid marketID =
    (if uid \<le> x_SystemMaxUID r then 0
     else if marketID > 0 \<and> marketID \<le> x_DedicatedCount r then uint marketID
     else let offset = 1 + uint (x_DedicatedCount r)
          in if x_GeneralWorkers r = 0 then 0
             else offset + uint marketID mod uint (x_GeneralWorkers r))"

subsection \<open>The buffer of a user\<close>

record 'p pending_tx =
  pd_Nonce :: u64
  pd_Tx :: "'p trans option"
  pd_TxHash :: bytes

definition zero_pending :: "'p pending_tx" where
  "zero_pending = \<lparr>pd_Nonce = 0, pd_Tx = None, pd_TxHash = zero32\<rparr>"

fun shift_in :: "'p pending_tx \<Rightarrow> nat \<Rightarrow> 'p pending_tx list \<Rightarrow> 'p pending_tx list" where
  "shift_in ptx 0 q = q[0 := ptx]"
| "shift_in ptx (Suc i) q =
    (if pd_Nonce (q ! i) > pd_Nonce ptx then shift_in ptx i (q[Suc i := q ! i]) else q[Suc i := ptx])"

definition UserBuffer_Add :: "'p pending_tx \<Rightarrow> 'p pending_tx list \<Rightarrow> 'p pending_tx list" where
  "UserBuffer_Add ptx q =
    (if length q = 0 \<or> pd_Nonce ptx > pd_Nonce (q ! (length q - 1)) then q @ [ptx]
     else shift_in ptx (length q) (q @ [zero_pending]))"

subsection \<open>Jobs and the state of the pipeline\<close>

record decoder_job =
  dj_Sig :: bytes
  dj_Body :: bytes

record 'p verifier_job =
  vj_Tx :: "'p trans"
  vj_TxHash :: bytes
  vj_Signature :: bytes
  vj_SignerUID :: u64

record 'p prepare_job =
  pj_Tx :: "'p trans"
  pj_TxHash :: bytes
  pj_SignerUID :: u64

record 'p exec_job =
  xj_Tx :: "'p trans option"
  xj_TxHash :: bytes
  xj_SignerUID :: u64
  xj_MarketID :: u32

datatype 'p pipe_result =
    TxDone "'p trans option" bytes
  | InvalidUID u64 | InvalidPublicKey u64 | InvalidSignature | UserNotFound u64 | TxHasNoHeader

record ('p, 'k) pipe =
  pl_users :: "'k user list"
  pl_SigCache :: sharded_set
  pl_decoderJobs :: "decoder_job list"
  pl_verifierJobs :: "'p verifier_job list"
  pl_prepareChans :: "'p prepare_job list list"
  pl_execChans :: "'p exec_job list list"
  pl_buffers :: "(u64 \<times> 'p pending_tx list) list list"
  pl_Output :: "'p pipe_result list"
  pl_Router :: tx_router
  pl_ExecRouter :: exec_router
  pl_wg :: int
  pl_processed :: nat

definition wg_Done :: "('p, 'k) pipe \<Rightarrow> ('p, 'k) pipe" where
  "wg_Done s = s\<lparr>pl_wg := pl_wg s - 1\<rparr>"

definition emit :: "'p pipe_result \<Rightarrow> ('p, 'k) pipe \<Rightarrow> ('p, 'k) pipe" where
  "emit r s = s\<lparr>pl_Output := pl_Output s @ [r]\<rparr>"

text \<open>\<^verbatim>\<open>ch[i] <- x\<close> on a list of channels.\<close>

definition send_to :: "int \<Rightarrow> 'j \<Rightarrow> 'j list list \<Rightarrow> 'j list list option" where
  "send_to i x chans =
    (if 0 \<le> i \<and> nat i < length chans then Some (chans[nat i := chans ! nat i @ [x]]) else None)"

definition known_uid :: "u64 \<Rightarrow> ('p, 'k) pipe \<Rightarrow> bool" where
  "known_uid uid s \<longleftrightarrow> \<not> (uid = 0 \<or> unat uid > length (pl_users s))"

definition user_of :: "u64 \<Rightarrow> ('p, 'k) pipe \<Rightarrow> 'k user" where
  "user_of uid s = pl_users s ! (unat uid - 1)"

definition set_user :: "u64 \<Rightarrow> 'k user \<Rightarrow> ('p, 'k) pipe \<Rightarrow> ('p, 'k) pipe" where
  "set_user uid u s = s\<lparr>pl_users := (pl_users s)[unat uid - 1 := u]\<rparr>"

definition NewProposerPipeline :: "int \<Rightarrow> 'k user list \<Rightarrow> sharded_set \<Rightarrow> ('p, 'k) pipe" where
  "NewProposerPipeline numCPU us cache =
    (let numWorkers = (if numCPU < 3 then 4 else numCPU);
         totalExecWorkers = 1 + 64 + numWorkers
     in \<lparr>pl_users = us, pl_SigCache = cache, pl_decoderJobs = [], pl_verifierJobs = [],
         pl_prepareChans = replicate (nat numWorkers) [], pl_execChans = replicate (nat totalExecWorkers) [],
         pl_buffers = replicate (nat numWorkers) [], pl_Output = [],
         pl_Router = \<lparr>r_SystemMaxUID = 100, r_ManualRoutes = [], r_NumWorkers = numWorkers\<rparr>,
         pl_ExecRouter = \<lparr>x_SystemMaxUID = 100, x_DedicatedCount = 64, x_GeneralWorkers = of_int numWorkers\<rparr>,
         pl_wg = 0, pl_processed = 0\<rparr>)"

text \<open>The global signature cache; its constructor arguments pass the checks.\<close>

definition SigCache :: sharded_set where
  "SigCache = the (NewShardedSet 256 32 (Some DefaultBlake3Hasher))"

subsection \<open>Push\<close>

datatype push_error = MsgTooShort nat | DuplicateSignature | ErrTooShort | ErrInvalidProtoMagic | ErrProtoTooLarge

definition validateMsgLen :: "bytes \<Rightarrow> push_error option" where
  "validateMsgLen data = (if length data \<le> 64 then Some (MsgTooShort (length data)) else None)"

definition splitSignature :: "bytes \<Rightarrow> bytes \<times> bytes" where
  "splitSignature data = (take 64 data, drop 64 data)"

definition fastProtoScan :: "bytes \<Rightarrow> push_error option" where
  "fastProtoScan data =
    (if length data < 2 then Some ErrTooShort
     else let b = data ! 0
          in if b \<noteq> 0x0A \<and> b \<noteq> 0x12 then Some ErrInvalidProtoMagic
             else if length data > 8 * 1024 * 1024 then Some ErrProtoTooLarge
             else None)"

definition Push :: "bytes \<Rightarrow> ('p, 'k) pipe \<Rightarrow> (push_error option \<times> ('p, 'k) pipe) option" where
  "Push rawTx s = (case validateMsgLen rawTx of
     Some err \<Rightarrow> Some (Some err, s)
   | None \<Rightarrow>
       let (sig, body) = splitSignature rawTx
       in case set_Seen sig (pl_SigCache s) of
            None \<Rightarrow> None
          | Some (dup, c) \<Rightarrow>
              let s1 = s\<lparr>pl_SigCache := c\<rparr>
              in if dup then Some (Some DuplicateSignature, s1)
                 else case fastProtoScan body of
                        Some err \<Rightarrow> Some (Some err, s1)
                      | None \<Rightarrow> Some (None, s1\<lparr>pl_wg := pl_wg s1 + 1,
                          pl_decoderJobs := pl_decoderJobs s1 @ [\<lparr>dj_Sig = sig, dj_Body = body\<rparr>]\<rparr>))"

subsection \<open>The workers\<close>

definition decode_job :: "('p, 'k) env \<Rightarrow> decoder_job \<Rightarrow> ('p, 'k) pipe \<Rightarrow> ('p, 'k) pipe" where
  "decode_job e job s =
    (let hash = e_hash e (dj_Body job)
     in case e_unmarshal e (dj_Body job) of
          None \<Rightarrow> wg_Done s
        | Some t \<Rightarrow> (case tx_Header t of
            None \<Rightarrow> wg_Done s
          | Some h \<Rightarrow>
              let uid = hd_SignerUid h
              in if \<not> known_uid uid s then s
                 else let lastNonce = us_nonce (user_of uid s)
                      in if hd_Nonce h \<le> lastNonce then wg_Done s
                         else s\<lparr>pl_verifierJobs := pl_verifierJobs s @
                           [\<lparr>vj_Tx = t, vj_TxHash = hash, vj_Signature = dj_Sig job, vj_SignerUID = hd_SignerUid h\<rparr>]\<rparr>))"

definition put_signature :: "bytes \<Rightarrow> 'p trans \<Rightarrow> 'p trans" where
  "put_signature sig t = t\<lparr>tx_Header := map_option (\<lambda>h. h\<lparr>hd_Signature := copy_to (replicate 64 0) sig\<rparr>) (tx_Header t)\<rparr>"

definition verify_job :: "('p, 'k) env \<Rightarrow> 'p verifier_job \<Rightarrow> ('p, 'k) pipe \<Rightarrow> ('p, 'k) pipe option" where
  "verify_job e job s =
    (let uid = vj_SignerUID job
     in if \<not> known_uid uid s then Some (emit (InvalidUID uid) (wg_Done s))
        else let (expKey, u) = GetOrInitExpKey e (user_of uid s); s1 = set_user uid u s
             in case expKey of
                  None \<Rightarrow> Some (wg_Done (emit (InvalidPublicKey uid) s1))
                | Some k \<Rightarrow>
                    if \<not> e_verify e k (vj_TxHash job) (vj_Signature job) then Some (emit InvalidSignature (wg_Done s1))
                    else case set_Put (vj_Signature job) (pl_SigCache s1) of
                           None \<Rightarrow> None
                         | Some c \<Rightarrow>
                             let t = put_signature (vj_Signature job) (vj_Tx job);
                                 s2 = s1\<lparr>pl_SigCache := c, pl_processed := pl_processed s1 + 1\<rparr>
                             in case TxRouter_Route (pl_Router s2) uid of
                                  None \<Rightarrow> None
                                | Some target \<Rightarrow>
                                    map_option (\<lambda>cs. s2\<lparr>pl_prepareChans := cs\<rparr>)
                                      (send_to target \<lparr>pj_Tx = t, pj_TxHash = vj_TxHash job, pj_SignerUID = uid\<rparr>
                                        (pl_prepareChans s2)))"

text \<open>The loop over the queue; the result counts the processed entries.\<close>

fun flush_queue :: "u64 \<Rightarrow> u64 \<Rightarrow> 'p pending_tx list \<Rightarrow> ('p, 'k) pipe \<Rightarrow> (nat \<times> ('p, 'k) pipe) option" where
  "flush_queue jobUID expectedNonce [] s = Some (0, s)"
| "flush_queue jobUID expectedNonce (pending # queue) s =
    (if pd_Nonce pending \<ge> expectedNonce then
       (let h = (case pd_Tx pending of None \<Rightarrow> None | Some t \<Rightarrow> tx_Header t);
            marketID = (case h of None \<Rightarrow> 0 | Some h \<Rightarrow> hd_MarketSymbol h);
            signerUID = (case h of None \<Rightarrow> 0 | Some h \<Rightarrow> hd_SignerUid h);
            targetWorker = ExecRouter_Route (pl_ExecRouter s) signerUID marketID
        in case send_to targetWorker \<lparr>xj_Tx = pd_Tx pending, xj_TxHash = pd_TxHash pending,
                xj_SignerUID = signerUID, xj_MarketID = marketID\<rparr> (pl_execChans s) of
             None \<Rightarrow> None
           | Some cs \<Rightarrow>
               let s1 = set_user jobUID ((user_of jobUID s)\<lparr>us_nonce := pd_Nonce pending\<rparr>) (s\<lparr>pl_execChans := cs\<rparr>)
               in map_option (\<lambda>(n, s2). (n + 1, s2)) (flush_queue jobUID (pd_Nonce pending) queue s1))
     else Some (0, s))"

definition set_buffer :: "nat \<Rightarrow> u64 \<Rightarrow> 'p pending_tx list \<Rightarrow> ('p, 'k) pipe \<Rightarrow> ('p, 'k) pipe" where
  "set_buffer w uid q s = s\<lparr>pl_buffers := (pl_buffers s)[w := AList.update uid q (pl_buffers s ! w)]\<rparr>"

definition prepare_job :: "nat \<Rightarrow> 'p prepare_job \<Rightarrow> ('p, 'k) pipe \<Rightarrow> ('p, 'k) pipe option" where
  "prepare_job w job s =
    (let uid = pj_SignerUID job
     in if \<not> known_uid uid s then Some (emit (UserNotFound uid) (wg_Done s))
        else case tx_Header (pj_Tx job) of
          None \<Rightarrow> Some (emit TxHasNoHeader (wg_Done s))
        | Some header \<Rightarrow>
            let txNonce = hd_Nonce header;
                expectedNonce = us_nonce (user_of uid s) + 1;
                buf = (case map_of (pl_buffers s ! w) uid of None \<Rightarrow> [] | Some q \<Rightarrow> q);
                s1 = set_buffer w uid buf s
            in if txNonce < expectedNonce then Some (wg_Done s1)
               else if length buf < 1024 then
                 (let q = UserBuffer_Add \<lparr>pd_Nonce = txNonce, pd_Tx = Some (pj_Tx job), pd_TxHash = pj_TxHash job\<rparr> buf
                  in case flush_queue uid expectedNonce q s1 of
                       None \<Rightarrow> None
                     | Some (processedCount, s2) \<Rightarrow> Some (set_buffer w uid (drop processedCount q) s2))
               else Some (wg_Done s1))"

definition execute_job :: "'p exec_job \<Rightarrow> ('p, 'k) pipe \<Rightarrow> ('p, 'k) pipe" where
  "execute_job job s = wg_Done (emit (TxDone (xj_Tx job) (xj_TxHash job)) s)"

subsection \<open>Runs\<close>

text \<open>An action names the worker, or the job that a worker of a pool takes; without a job nothing happens.\<close>

datatype action = DoPush bytes | DoDecode nat | DoVerify nat | DoPrepare nat | DoExecute nat

definition take_out :: "nat \<Rightarrow> 'j list \<Rightarrow> 'j list" where
  "take_out i xs = take i xs @ drop (Suc i) xs"

fun do_action :: "('p, 'k) env \<Rightarrow> action \<Rightarrow> ('p, 'k) pipe \<Rightarrow> ('p, 'k) pipe option" where
  "do_action e (DoPush raw) s = map_option snd (Push raw s)"
| "do_action e (DoDecode i) s =
    (if i < length (pl_decoderJobs s)
     then Some (decode_job e (pl_decoderJobs s ! i) (s\<lparr>pl_decoderJobs := take_out i (pl_decoderJobs s)\<rparr>))
     else Some s)"
| "do_action e (DoVerify i) s =
    (if i < length (pl_verifierJobs s)
     then verify_job e (pl_verifierJobs s ! i) (s\<lparr>pl_verifierJobs := take_out i (pl_verifierJobs s)\<rparr>)
     else Some s)"
| "do_action e (DoPrepare w) s =
    (if w < length (pl_prepareChans s) \<and> pl_prepareChans s ! w \<noteq> []
     then prepare_job w (hd (pl_prepareChans s ! w))
       (s\<lparr>pl_prepareChans := (pl_prepareChans s)[w := tl (pl_prepareChans s ! w)]\<rparr>)
     else Some s)"
| "do_action e (DoExecute w) s =
    (if w < length (pl_execChans s) \<and> pl_execChans s ! w \<noteq> []
     then Some (execute_job (hd (pl_execChans s ! w)) (s\<lparr>pl_execChans := (pl_execChans s)[w := tl (pl_execChans s ! w)]\<rparr>))
     else Some s)"

fun run_actions :: "('p, 'k) env \<Rightarrow> action list \<Rightarrow> ('p, 'k) pipe \<Rightarrow> ('p, 'k) pipe option" where
  "run_actions e [] s = Some s"
| "run_actions e (a # as) s = (case do_action e a s of None \<Rightarrow> None | Some s' \<Rightarrow> run_actions e as s')"

end
