(* ===== verification/PipelineInv.thy ===== *)
theory PipelineInv
  imports Pipeline DedupTheorems
begin

text \<open>
  The invariant of the proposer pipeline and its preservation by every action.

  \<^item> \<open>accepted\<close>: a transaction that passed the checks, traced back to a pushed message;
    \<open>core_inv\<close>: shape of the state, where every job comes from, empty buffers, and the wait group
    against the work in flight and the number of jobs a decoder dropped without \<^verbatim>\<open>wg.Done\<close>;
  \<^item> \<open>order_inv\<close>: the nonces of a user on a market, as handed to execution, increase.
\<close>

subsection \<open>Routing\<close>

definition tx_cfg :: "nat \<Rightarrow> tx_router" where
  "tx_cfg N = \<lparr>r_SystemMaxUID = 100, r_ManualRoutes = [], r_NumWorkers = int N\<rparr>"

definition exec_cfg :: "nat \<Rightarrow> exec_router" where
  "exec_cfg N = \<lparr>x_SystemMaxUID = 100, x_DedicatedCount = 64, x_GeneralWorkers = of_nat N\<rparr>"

definition workers_ok :: "nat \<Rightarrow> bool" where
  "workers_ok N \<longleftrightarrow> 3 \<le> N \<and> N < 2 ^ 31"

lemma sint_small: "unat x < 2 ^ 63 \<Longrightarrow> sint (x :: u64) = int (unat x)"
proof -
  assume "unat x < 2 ^ 63"
  then have "int (unat x) < int (2 ^ 63)" by (simp only: of_nat_less_iff)
  then have "int (unat x) < 2 ^ 63" by (simp only: of_nat_power of_nat_numeral)
  then have "signed_take_bit 63 (int (unat x)) = int (unat x)" 
    by (intro signed_take_bit_int_eq_self) (rule order_trans [of _ 0], simp_all)
  then show ?thesis by (simp add: sint_uint)
qed

lemma tx_route_bound:
  assumes "workers_ok N"
  shows "\<exists>w. TxRouter_Route (tx_cfg N) uid = Some (int w) \<and> w < N"
proof (cases "uid \<le> 100")
  case True
  then show ?thesis using assms by (intro exI [of _ 0]) (simp add: TxRouter_Route_def tx_cfg_def workers_ok_def)
next
  case False
  let ?g = "of_int (int N - 1) :: u64"
  have N: "3 \<le> N" "N < 2 ^ 31" using assms by (simp_all add: workers_ok_def)
  have g: "unat ?g = N - 1"
  proof -
    have "?g = of_nat (N - 1)" using N(1) by (simp add: of_nat_diff)
    moreover have "unat (of_nat (N - 1) :: u64) = N - 1" using N(2) by (simp add: unat_of_nat take_bit_eq_mod)
    ultimately show ?thesis by simp
  qed
  have lt: "unat (uid mod ?g) < N - 1" using N(1) g by (simp add: unat_mod)
  have "sint (uid mod ?g) = int (unat (uid mod ?g))"
    using lt N(2) by (intro sint_small) simp
  then show ?thesis using False N lt
    by (intro exI [of _ "1 + unat (uid mod ?g)"]) (simp add: TxRouter_Route_def tx_cfg_def Let_def)
qed

lemma exec_route_bound:
  assumes "workers_ok N"
  shows "0 \<le> ExecRouter_Route (exec_cfg N) uid m \<and> nat (ExecRouter_Route (exec_cfg N) uid m) < 65 + N"
proof -
  have N: "3 \<le> N" "N < 2 ^ 31" using assms by (simp_all add: workers_ok_def)
  have g: "uint (of_nat N :: u32) = int N" using N(2) by (simp add: unsigned_of_nat take_bit_eq_mod)
  have "uint m mod int N < int N" using N(1) by simp
  then have "nat (65 + uint m mod int N) < 65 + N" by linarith
  moreover have "m \<le> 64 \<Longrightarrow> unat m \<le> 64" by (simp add: word_le_nat_alt)
  ultimately show ?thesis using N g by (auto simp: ExecRouter_Route_def exec_cfg_def Let_def)
qed

subsection \<open>Where jobs come from\<close>

definition pubs :: "('p, 'k) pipe \<Rightarrow> bytes list" where
  "pubs s = map us_pub (pl_users s)"

text \<open>The transaction \<open>t\<close> with digest \<open>hash\<close> was decoded from a message of \<open>P\<close> whose signature is valid
  under the key of the signer that its header names.\<close>

definition accepted :: "('p, 'k) env \<Rightarrow> bytes list \<Rightarrow> bytes set \<Rightarrow> 'p trans \<Rightarrow> bytes \<Rightarrow> bool" where
  "accepted e pks P t hash \<longleftrightarrow> (\<exists>raw\<in>P. \<exists>t0 h k. hash = e_hash e (drop 64 raw) \<and> e_unmarshal e (drop 64 raw) = Some t0 \<and>
    t = put_signature (take 64 raw) t0 \<and> tx_Header t0 = Some h \<and> hd_SignerUid h \<noteq> 0 \<and> unat (hd_SignerUid h) \<le> length pks \<and>
    e_expand e (pks ! (unat (hd_SignerUid h) - 1)) = Some k \<and> e_verify e k hash (take 64 raw))"

definition ver_ok :: "('p, 'k) env \<Rightarrow> bytes list \<Rightarrow> bytes set \<Rightarrow> 'p verifier_job \<Rightarrow> bool" where
  "ver_ok e pks P j \<longleftrightarrow> (\<exists>raw\<in>P. vj_TxHash j = e_hash e (drop 64 raw) \<and> e_unmarshal e (drop 64 raw) = Some (vj_Tx j) \<and>
    vj_Signature j = take 64 raw \<and> (\<exists>h. tx_Header (vj_Tx j) = Some h \<and> hd_SignerUid h = vj_SignerUID j) \<and>
    vj_SignerUID j \<noteq> 0 \<and> unat (vj_SignerUID j) \<le> length pks)"

definition prep_ok :: "('p, 'k) env \<Rightarrow> bytes list \<Rightarrow> bytes set \<Rightarrow> 'p prepare_job \<Rightarrow> bool" where
  "prep_ok e pks P j \<longleftrightarrow> accepted e pks P (pj_Tx j) (pj_TxHash j) \<and>
    (\<exists>h. tx_Header (pj_Tx j) = Some h \<and> hd_SignerUid h = pj_SignerUID j) \<and>
    pj_SignerUID j \<noteq> 0 \<and> unat (pj_SignerUID j) \<le> length pks"

definition exec_ok :: "('p, 'k) env \<Rightarrow> bytes list \<Rightarrow> bytes set \<Rightarrow> 'p exec_job \<Rightarrow> bool" where
  "exec_ok e pks P j \<longleftrightarrow> (\<exists>t h. xj_Tx j = Some t \<and> accepted e pks P t (xj_TxHash j) \<and> tx_Header t = Some h \<and>
    hd_SignerUid h = xj_SignerUID j \<and> hd_MarketSymbol h = xj_MarketID j \<and>
    xj_SignerUID j \<noteq> 0 \<and> unat (xj_SignerUID j) \<le> length pks)"

definition out_ok :: "('p, 'k) env \<Rightarrow> bytes list \<Rightarrow> bytes set \<Rightarrow> 'p pipe_result \<Rightarrow> bool" where
  "out_ok e pks P r \<longleftrightarrow> (case r of TxDone to hash \<Rightarrow> (\<exists>t h. to = Some t \<and> accepted e pks P t hash \<and>
    tx_Header t = Some h \<and> hd_SignerUid h \<noteq> 0 \<and> unat (hd_SignerUid h) \<le> length pks) | _ \<Rightarrow> True)"

definition in_flight :: "('p, 'k) pipe \<Rightarrow> nat" where
  "in_flight s = length (pl_decoderJobs s) + length (pl_verifierJobs s) +
    sum_list (map length (pl_prepareChans s)) + sum_list (map length (pl_execChans s))"

definition shape_ok :: "('p, 'k) env \<Rightarrow> nat \<Rightarrow> ('p, 'k) pipe \<Rightarrow> bool" where
  "shape_ok e N s \<longleftrightarrow> length (pl_prepareChans s) = N \<and> length (pl_execChans s) = 65 + N \<and> length (pl_buffers s) = N \<and>
    pl_Router s = tx_cfg N \<and> pl_ExecRouter s = exec_cfg N \<and> set_inv (pl_SigCache s) \<and>
    (\<forall>u\<in>set (pl_users s). us_expKey u \<noteq> None \<longrightarrow> us_expKey u = e_expand e (us_pub u)) \<and>
    (\<forall>b\<in>set (pl_buffers s). \<forall>x\<in>set b. snd x = [])"

definition jobs_ok :: "('p, 'k) env \<Rightarrow> bytes set \<Rightarrow> ('p, 'k) pipe \<Rightarrow> bool" where
  "jobs_ok e P s \<longleftrightarrow>
    (\<forall>j\<in>set (pl_decoderJobs s). \<exists>raw\<in>P. dj_Sig j = take 64 raw \<and> dj_Body j = drop 64 raw) \<and>
    (\<forall>j\<in>set (pl_verifierJobs s). ver_ok e (pubs s) P j) \<and>
    (\<forall>w<length (pl_prepareChans s). \<forall>j\<in>set (pl_prepareChans s ! w). prep_ok e (pubs s) P j \<and>
      TxRouter_Route (pl_Router s) (pj_SignerUID j) = Some (int w)) \<and>
    (\<forall>w<length (pl_execChans s). \<forall>j\<in>set (pl_execChans s ! w). exec_ok e (pubs s) P j \<and>
      ExecRouter_Route (pl_ExecRouter s) (xj_SignerUID j) (xj_MarketID j) = int w) \<and>
    (\<forall>r\<in>set (pl_Output s). out_ok e (pubs s) P r)"

definition core_inv :: "('p, 'k) env \<Rightarrow> nat \<Rightarrow> bytes set \<Rightarrow> nat \<Rightarrow> ('p, 'k) pipe \<Rightarrow> bool" where
  "core_inv e N P L s \<longleftrightarrow> shape_ok e N s \<and> jobs_ok e P s \<and> pl_wg s = int (in_flight s) + int L"

text \<open>A decoder drops a job without \<^verbatim>\<open>wg.Done\<close> exactly when the header names an unknown signer.\<close>

definition leaks :: "('p, 'k) env \<Rightarrow> action \<Rightarrow> ('p, 'k) pipe \<Rightarrow> nat" where
  "leaks e a s = (case a of
     DoDecode i \<Rightarrow> (if i < length (pl_decoderJobs s) then
        (case e_unmarshal e (dj_Body (pl_decoderJobs s ! i)) of
           None \<Rightarrow> 0
         | Some t \<Rightarrow> (case tx_Header t of None \<Rightarrow> 0 | Some h \<Rightarrow> if known_uid (hd_SignerUid h) s then 0 else 1))
        else 0)
   | _ \<Rightarrow> 0)"

definition pushed :: "action \<Rightarrow> bytes set" where
  "pushed a = (case a of DoPush raw \<Rightarrow> {raw} | _ \<Rightarrow> {})"

lemma accepted_mono: "accepted e pks P t hash \<Longrightarrow> P \<subseteq> P' \<Longrightarrow> accepted e pks P' t hash"
  unfolding accepted_def by blast

lemma job_mono:
  "ver_ok e pks P vj \<Longrightarrow> P \<subseteq> P' \<Longrightarrow> ver_ok e pks P' vj"
  "prep_ok e pks P pj \<Longrightarrow> P \<subseteq> P' \<Longrightarrow> prep_ok e pks P' pj"
  "exec_ok e pks P xj \<Longrightarrow> P \<subseteq> P' \<Longrightarrow> exec_ok e pks P' xj"
  "out_ok e pks P r \<Longrightarrow> P \<subseteq> P' \<Longrightarrow> out_ok e pks P' r"
  subgoal unfolding ver_ok_def by (elim bexE) (rule bexI, assumption, erule subsetD, assumption)
  subgoal unfolding prep_ok_def using accepted_mono by blast
  subgoal unfolding exec_ok_def using accepted_mono by blast
  subgoal unfolding out_ok_def using accepted_mono by (cases r) (simp_all, blast)
  done

lemma jobs_ok_mono:
  assumes "jobs_ok e P s" "P \<subseteq> P'"
  shows "jobs_ok e P' s"
  unfolding jobs_ok_def
proof (intro conjI ballI allI impI)
  note j = assms(1) [unfolded jobs_ok_def]
  show "\<exists>raw\<in>P'. dj_Sig j = take 64 raw \<and> dj_Body j = drop 64 raw" if "j \<in> set (pl_decoderJobs s)" for j
    using j that assms(2) by blast
  show "ver_ok e (pubs s) P' j" if "j \<in> set (pl_verifierJobs s)" for j
    using j that by (intro job_mono(1) [OF _ assms(2)]) simp
  show "prep_ok e (pubs s) P' j" if "w < length (pl_prepareChans s)" "j \<in> set (pl_prepareChans s ! w)" for w j
    using j that by (intro job_mono(2) [OF _ assms(2)]) simp
  show "exec_ok e (pubs s) P' j" if "w < length (pl_execChans s)" "j \<in> set (pl_execChans s ! w)" for w j
    using j that by (intro job_mono(3) [OF _ assms(2)]) simp
  show "out_ok e (pubs s) P' r" if "r \<in> set (pl_Output s)" for r
    using j that by (intro job_mono(4) [OF _ assms(2)]) simp
qed (use assms(1) in \<open>simp_all add: jobs_ok_def\<close>)

subsection \<open>Bookkeeping\<close>

lemma sum_lengths_update:
  "w < length xss \<Longrightarrow> sum_list (map length (xss[w := ys])) + length (xss ! w) = sum_list (map length xss) + length ys"
proof (induction xss arbitrary: w)
  case (Cons xs xss)
  then show ?case by (cases w) auto
qed simp

lemma sum_lengths_snoc:
  "w < length xss \<Longrightarrow> sum_list (map length (xss[w := xss ! w @ [x]])) = Suc (sum_list (map length xss))"
  using sum_lengths_update [of w xss "xss ! w @ [x]"] by simp

lemma sum_lengths_tl:
  "w < length xss \<Longrightarrow> xss ! w \<noteq> [] \<Longrightarrow> Suc (sum_list (map length (xss[w := tl (xss ! w)]))) = sum_list (map length xss)"
  using sum_lengths_update [of w xss "tl (xss ! w)"] by (cases "xss ! w") simp_all

lemma chan_snoc: "j \<in> set ((xss[w := xss ! w @ [x]]) ! v) \<Longrightarrow> v < length xss \<Longrightarrow> j \<in> set (xss ! v) \<or> (j = x \<and> v = w)"
  by (cases "v = w") auto

lemma length_take_out: "i < length xs \<Longrightarrow> Suc (length (take_out i xs)) = length xs"
  by (simp add: take_out_def)

lemma set_take_out: "set (take_out i xs) \<subseteq> set xs"
  by (auto simp: take_out_def dest: in_set_takeD in_set_dropD)

lemma pubs_set_user: "us_pub u = us_pub (user_of uid s) \<Longrightarrow> pubs (set_user uid u s) = pubs s"
  by (cases "unat uid - 1 < length (pl_users s)")
    (auto simp: pubs_def set_user_def user_of_def map_update list_update_same_conv list_update_beyond)

lemma set_user_simps [simp]:
  "pl_SigCache (set_user uid u s) = pl_SigCache s" "pl_decoderJobs (set_user uid u s) = pl_decoderJobs s"
  "pl_verifierJobs (set_user uid u s) = pl_verifierJobs s" "pl_prepareChans (set_user uid u s) = pl_prepareChans s"
  "pl_execChans (set_user uid u s) = pl_execChans s" "pl_buffers (set_user uid u s) = pl_buffers s"
  "pl_Output (set_user uid u s) = pl_Output s" "pl_Router (set_user uid u s) = pl_Router s"
  "pl_ExecRouter (set_user uid u s) = pl_ExecRouter s" "pl_wg (set_user uid u s) = pl_wg s"
  "length (pl_users (set_user uid u s)) = length (pl_users s)"
  by (simp_all add: set_user_def)

lemma set_buffer_simps [simp]:
  "pl_SigCache (set_buffer w uid q s) = pl_SigCache s" "pl_decoderJobs (set_buffer w uid q s) = pl_decoderJobs s"
  "pl_verifierJobs (set_buffer w uid q s) = pl_verifierJobs s" "pl_prepareChans (set_buffer w uid q s) = pl_prepareChans s"
  "pl_execChans (set_buffer w uid q s) = pl_execChans s" "pl_users (set_buffer w uid q s) = pl_users s"
  "pl_Output (set_buffer w uid q s) = pl_Output s" "pl_Router (set_buffer w uid q s) = pl_Router s"
  "pl_ExecRouter (set_buffer w uid q s) = pl_ExecRouter s" "pl_wg (set_buffer w uid q s) = pl_wg s"
  "length (pl_buffers (set_buffer w uid q s)) = length (pl_buffers s)"
  by (simp_all add: set_buffer_def)

lemma done_emit_simps [simp]:
  "pl_SigCache (wg_Done s) = pl_SigCache s" "pl_decoderJobs (wg_Done s) = pl_decoderJobs s"
  "pl_verifierJobs (wg_Done s) = pl_verifierJobs s" "pl_prepareChans (wg_Done s) = pl_prepareChans s"
  "pl_execChans (wg_Done s) = pl_execChans s" "pl_buffers (wg_Done s) = pl_buffers s" "pl_users (wg_Done s) = pl_users s"
  "pl_Output (wg_Done s) = pl_Output s" "pl_Router (wg_Done s) = pl_Router s"
  "pl_ExecRouter (wg_Done s) = pl_ExecRouter s" "pl_wg (wg_Done s) = pl_wg s - 1"
  "pl_SigCache (emit r s) = pl_SigCache s" "pl_decoderJobs (emit r s) = pl_decoderJobs s"
  "pl_verifierJobs (emit r s) = pl_verifierJobs s" "pl_prepareChans (emit r s) = pl_prepareChans s"
  "pl_execChans (emit r s) = pl_execChans s" "pl_buffers (emit r s) = pl_buffers s" "pl_users (emit r s) = pl_users s"
  "pl_Output (emit r s) = pl_Output s @ [r]" "pl_Router (emit r s) = pl_Router s"
  "pl_ExecRouter (emit r s) = pl_ExecRouter s" "pl_wg (emit r s) = pl_wg s"
  by (simp_all add: wg_Done_def emit_def)

lemma known_uid_pubs: "known_uid uid s \<longleftrightarrow> uid \<noteq> 0 \<and> unat uid \<le> length (pubs s)"
  by (auto simp: known_uid_def pubs_def)

lemma send_ok: "w < length chans \<Longrightarrow> send_to (int w) x chans = Some (chans[w := chans ! w @ [x]])"
  by (simp add: send_to_def)

text \<open>The parts of the invariant under a change of one component.\<close>

lemma jobs_ok_update:
  assumes "jobs_ok e P s" "pubs s' = pubs s" "pl_Router s' = pl_Router s" "pl_ExecRouter s' = pl_ExecRouter s"
    and "\<forall>j\<in>set (pl_decoderJobs s'). j \<in> set (pl_decoderJobs s)"
    and "\<forall>j\<in>set (pl_verifierJobs s'). j \<in> set (pl_verifierJobs s) \<or> ver_ok e (pubs s) P j"
    and "\<forall>w<length (pl_prepareChans s'). \<forall>j\<in>set (pl_prepareChans s' ! w). w < length (pl_prepareChans s) \<and>
      (j \<in> set (pl_prepareChans s ! w) \<or> prep_ok e (pubs s) P j \<and> TxRouter_Route (pl_Router s) (pj_SignerUID j) = Some (int w))"
    and "\<forall>w<length (pl_execChans s'). \<forall>j\<in>set (pl_execChans s' ! w). w < length (pl_execChans s) \<and>
      (j \<in> set (pl_execChans s ! w) \<or> exec_ok e (pubs s) P j \<and>
        ExecRouter_Route (pl_ExecRouter s) (xj_SignerUID j) (xj_MarketID j) = int w)"
    and "\<forall>r\<in>set (pl_Output s'). r \<in> set (pl_Output s) \<or> out_ok e (pubs s) P r"
  shows "jobs_ok e P s'"
proof -
  note j = assms(1) [unfolded jobs_ok_def]
  show ?thesis
    unfolding jobs_ok_def assms(2-4)
  proof (intro conjI)
    show "\<forall>j\<in>set (pl_decoderJobs s'). \<exists>raw\<in>P. dj_Sig j = take 64 raw \<and> dj_Body j = drop 64 raw" using j assms(5) by blast
    show "\<forall>j\<in>set (pl_verifierJobs s'). ver_ok e (pubs s) P j" using j assms(6) by blast
    show "\<forall>w<length (pl_prepareChans s'). \<forall>j\<in>set (pl_prepareChans s' ! w). prep_ok e (pubs s) P j \<and>
        TxRouter_Route (pl_Router s) (pj_SignerUID j) = Some (int w)" using j assms(7) by blast
    show "\<forall>w<length (pl_execChans s'). \<forall>j\<in>set (pl_execChans s' ! w). exec_ok e (pubs s) P j \<and>
        ExecRouter_Route (pl_ExecRouter s) (xj_SignerUID j) (xj_MarketID j) = int w" using j assms(8) by blast
    show "\<forall>r\<in>set (pl_Output s'). out_ok e (pubs s) P r" using j assms(9) by blast
  qed
qed

subsection \<open>The actions keep the core invariant\<close>

lemma push_core:
  assumes "core_inv e N P L s"
  shows "\<exists>r s'. Push raw s = Some (r, s') \<and> core_inv e N (insert raw P) L s'"
proof -
  have sh: "shape_ok e N s" "jobs_ok e (insert raw P) s" "pl_wg s = int (in_flight s) + int L"
    using assms jobs_ok_mono [of e P s "insert raw P"] by (auto simp: core_inv_def)
  obtain c where c: "set_Seen (take 64 raw) (pl_SigCache s) = Some (in_set (take 64 raw) (pl_SigCache s), c)" "set_inv c"
    using set_Seen_ok [of "pl_SigCache s" "take 64 raw"] sh(1) by (auto simp: shape_ok_def)
  let ?s1 = "s\<lparr>pl_SigCache := c\<rparr>"
  let ?s2 = "?s1\<lparr>pl_wg := pl_wg ?s1 + 1, pl_decoderJobs := pl_decoderJobs ?s1 @ [\<lparr>dj_Sig = take 64 raw, dj_Body = drop 64 raw\<rparr>]\<rparr>"
  have p: "pubs ?s1 = pubs s" "pubs ?s2 = pubs s" by (simp_all add: pubs_def)
  have s1: "core_inv e N (insert raw P) L ?s1"
    using sh c(2) p by (simp add: core_inv_def shape_ok_def jobs_ok_def in_flight_def)
  moreover have s2: "core_inv e N (insert raw P) L ?s2"
    using sh c(2) p by (auto simp: core_inv_def shape_ok_def jobs_ok_def in_flight_def)
  moreover have "core_inv e N (insert raw P) L s" using sh by (simp add: core_inv_def)
  ultimately show ?thesis using c(1)
    by (cases "validateMsgLen raw"; cases "in_set (take 64 raw) (pl_SigCache s)"; cases "fastProtoScan (drop 64 raw)")
      (simp_all add: Push_def splitSignature_def Let_def)
qed

lemma decode_core:
  assumes "core_inv e N P L s" "i < length (pl_decoderJobs s)"
  shows "core_inv e N P (L + leaks e (DoDecode i) s)
    (decode_job e (pl_decoderJobs s ! i) (s\<lparr>pl_decoderJobs := take_out i (pl_decoderJobs s)\<rparr>))"
proof -
  let ?job = "pl_decoderJobs s ! i" and ?s = "s\<lparr>pl_decoderJobs := take_out i (pl_decoderJobs s)\<rparr>"
  have sh: "shape_ok e N s" "jobs_ok e P s" "pl_wg s = int (in_flight s) + int L" using assms(1) by (simp_all add: core_inv_def)
  have p: "pubs ?s = pubs s" by (simp add: pubs_def)
  have sh': "shape_ok e N ?s" using sh(1) by (simp add: shape_ok_def)
  have j': "jobs_ok e P ?s"
    by (rule jobs_ok_update [OF sh(2) p]) (use set_take_out [of i "pl_decoderJobs s"] in auto)
  have fl: "Suc (in_flight ?s) = in_flight s" using length_take_out [OF assms(2)] by (simp add: in_flight_def)
  have drop: "core_inv e N P L (wg_Done ?s)"
    using sh' j' sh(3) fl by (simp add: core_inv_def shape_ok_def jobs_ok_def in_flight_def pubs_def)
  have leak: "core_inv e N P (L + 1) ?s" using sh' j' sh(3) fl by (simp add: core_inv_def)
  obtain raw where raw: "raw \<in> P" "dj_Sig ?job = take 64 raw" "dj_Body ?job = drop 64 raw"
    using sh(2) nth_mem [OF assms(2)] by (auto simp: jobs_ok_def)
  have kn: "known_uid u ?s \<longleftrightarrow> known_uid u s" for u by (simp add: known_uid_def)
  have pass: "core_inv e N P L (?s\<lparr>pl_verifierJobs := pl_verifierJobs ?s @
      [\<lparr>vj_Tx = t, vj_TxHash = e_hash e (dj_Body ?job), vj_Signature = dj_Sig ?job, vj_SignerUID = hd_SignerUid h\<rparr>]\<rparr>)"
    if t: "e_unmarshal e (dj_Body ?job) = Some t" "tx_Header t = Some h" "known_uid (hd_SignerUid h) s" for t h
  proof -
    let ?vj = "\<lparr>vj_Tx = t, vj_TxHash = e_hash e (dj_Body ?job), vj_Signature = dj_Sig ?job, vj_SignerUID = hd_SignerUid h\<rparr>"
    let ?s' = "?s\<lparr>pl_verifierJobs := pl_verifierJobs ?s @ [?vj]\<rparr>"
    have "ver_ok e (pubs s) P ?vj" using raw t by (auto simp: ver_ok_def known_uid_pubs)
    moreover have "pubs ?s' = pubs ?s" by (simp add: pubs_def)
    ultimately have "jobs_ok e P ?s'" using p by (intro jobs_ok_update [OF j']) auto
    then show ?thesis using sh' sh(3) fl by (auto simp: core_inv_def shape_ok_def in_flight_def)
  qed
  show ?thesis
  proof (cases "e_unmarshal e (dj_Body ?job)")
    case None
    then show ?thesis using drop assms(2) by (simp add: decode_job_def leaks_def Let_def)
  next
    case (Some t)
    show ?thesis
    proof (cases "tx_Header t")
      case None
      then show ?thesis using Some drop assms(2) by (simp add: decode_job_def leaks_def Let_def)
    next
      case h: (Some h)
      show ?thesis
      proof (cases "known_uid (hd_SignerUid h) s")
        case True
        then show ?thesis using Some h drop pass [OF Some h True] assms(2) kn
          by (simp add: decode_job_def leaks_def Let_def)
      next
        case False
        then show ?thesis using Some h leak assms(2) kn by (simp add: decode_job_def leaks_def Let_def)
      qed
    qed
  qed
qed

lemma execute_core:
  assumes "core_inv e N P L s" "w < length (pl_execChans s)" "pl_execChans s ! w \<noteq> []"
  shows "core_inv e N P L (execute_job (hd (pl_execChans s ! w)) (s\<lparr>pl_execChans := (pl_execChans s)[w := tl (pl_execChans s ! w)]\<rparr>))"
proof -
  let ?job = "hd (pl_execChans s ! w)" and ?s = "s\<lparr>pl_execChans := (pl_execChans s)[w := tl (pl_execChans s ! w)]\<rparr>"
  let ?s' = "execute_job ?job ?s"
  have sh: "shape_ok e N s" "jobs_ok e P s" "pl_wg s = int (in_flight s) + int L" using assms(1) by (simp_all add: core_inv_def)
  have p: "pubs ?s' = pubs s" by (simp add: execute_job_def pubs_def)
  have "exec_ok e (pubs s) P ?job" using sh(2) assms(2) hd_in_set [OF assms(3)] by (simp add: jobs_ok_def)
  then have out: "out_ok e (pubs s) P (TxDone (xj_Tx ?job) (xj_TxHash ?job))" by (auto simp: exec_ok_def out_ok_def)
  have "jobs_ok e P ?s'"
    by (rule jobs_ok_update [OF sh(2) p])
      (use out assms(2) list.set_sel(2) [OF assms(3)] in \<open>auto simp: execute_job_def nth_list_update split: if_splits\<close>)
  moreover have "shape_ok e N ?s'" using sh(1) by (simp add: execute_job_def shape_ok_def)
  moreover have "Suc (in_flight ?s') = in_flight s"
    using sum_lengths_tl [OF assms(2,3)] by (simp add: execute_job_def in_flight_def)
  ultimately show ?thesis using sh(3) by (simp add: core_inv_def execute_job_def)
qed

lemma known_idx: "known_uid uid s \<Longrightarrow> unat uid - 1 < length (pl_users s)"
proof -
  assume a: "known_uid uid s"
  then have "unat uid \<noteq> 0" "unat uid \<le> length (pl_users s)" by (simp_all add: known_uid_def unat_eq_zero)
  then show ?thesis by linarith
qed

lemma user_of_in: "known_uid uid s \<Longrightarrow> user_of uid s \<in> set (pl_users s)"
  unfolding user_of_def by (intro nth_mem known_idx)

lemma put_signature_header: "tx_Header t = Some h \<Longrightarrow>
  \<exists>h'. tx_Header (put_signature sig t) = Some h' \<and> hd_SignerUid h' = hd_SignerUid h \<and> hd_Nonce h' = hd_Nonce h \<and>
    hd_MarketSymbol h' = hd_MarketSymbol h"
  by (simp add: put_signature_def)

lemma users_update:
  assumes "\<forall>u\<in>set (pl_users s). us_expKey u \<noteq> None \<longrightarrow> us_expKey u = e_expand e (us_pub u)"
    and "us_expKey u \<noteq> None \<longrightarrow> us_expKey u = e_expand e (us_pub u)"
  shows "\<forall>v\<in>set (pl_users (set_user uid u s)). us_expKey v \<noteq> None \<longrightarrow> us_expKey v = e_expand e (us_pub v)"
  using assms set_update_subset_insert [of "pl_users s" "unat uid - 1" u] by (auto simp: set_user_def)

lemma verify_core:
  assumes "core_inv e N P L s" "workers_ok N" "i < length (pl_verifierJobs s)"
  shows "\<exists>s'. verify_job e (pl_verifierJobs s ! i) (s\<lparr>pl_verifierJobs := take_out i (pl_verifierJobs s)\<rparr>) = Some s' \<and>
    core_inv e N P L s'"
proof -
  let ?job = "pl_verifierJobs s ! i" and ?s = "s\<lparr>pl_verifierJobs := take_out i (pl_verifierJobs s)\<rparr>"
  let ?uid = "vj_SignerUID ?job"
  have sh: "shape_ok e N s" "jobs_ok e P s" "pl_wg s = int (in_flight s) + int L" using assms(1) by (simp_all add: core_inv_def)
  have vj: "ver_ok e (pubs s) P ?job" using sh(2) nth_mem [OF assms(3)] by (simp add: jobs_ok_def)
  have p: "pubs ?s = pubs s" by (simp add: pubs_def)
  have kn: "known_uid ?uid ?s" using vj by (auto simp: ver_ok_def known_uid_pubs p)
  have j': "jobs_ok e P ?s"
    by (rule jobs_ok_update [OF sh(2) p]) (use set_take_out [of i "pl_verifierJobs s"] in auto)
  have fl: "Suc (in_flight ?s) = in_flight s" using length_take_out [OF assms(3)] by (simp add: in_flight_def)
  define u where "u = user_of ?uid ?s"
  have us: "\<forall>u\<in>set (pl_users ?s). us_expKey u \<noteq> None \<longrightarrow> us_expKey u = e_expand e (us_pub u)" using sh(1) by (simp add: shape_ok_def)
  have uin: "u \<in> set (pl_users ?s)" unfolding u_def by (rule user_of_in [OF kn])
  obtain k u' where g: "GetOrInitExpKey e u = (k, u')" by (cases "GetOrInitExpKey e u")
  have u': "us_pub u' = us_pub u" "us_expKey u' \<noteq> None \<longrightarrow> us_expKey u' = e_expand e (us_pub u')" "k \<noteq> None \<longrightarrow> k = e_expand e (us_pub u)"
    using g us uin by (auto simp: GetOrInitExpKey_def Let_def split: if_splits)
  define s1 where "s1 = set_user ?uid u' ?s"
  have p1: "pubs s1 = pubs s" using pubs_set_user [of u' ?uid ?s] u'(1) p by (simp add: s1_def u_def)
  have sh1: "shape_ok e N s1" using sh(1) users_update [OF us u'(2)] by (simp add: shape_ok_def s1_def)
  have j1: "jobs_ok e P s1" by (rule jobs_ok_update [OF j']) (simp_all add: s1_def p1 [unfolded s1_def] p)
  have fl1: "Suc (in_flight s1) = in_flight s" using fl by (simp add: in_flight_def s1_def)
  have wg1: "pl_wg s1 = pl_wg s" by (simp add: s1_def)
  have fail: "core_inv e N P L s'" if "s' = emit r (wg_Done s1) \<or> s' = wg_Done (emit r s1)" "\<forall>to hash. r \<noteq> TxDone to hash" for r s'
  proof -
    have "out_ok e (pubs s) P r" using that(2) by (cases r) (simp_all add: out_ok_def)
    moreover have "pubs s' = pubs s1" using that(1) by (auto simp: pubs_def)
    ultimately have "jobs_ok e P s'" using that(1) p1 by (intro jobs_ok_update [OF j1]) auto
    moreover have "shape_ok e N s'" using sh1 that(1) by (auto simp: shape_ok_def)
    moreover have "Suc (in_flight s') = in_flight s" "pl_wg s' = pl_wg s - 1" using that(1) fl1 wg1 by (auto simp: in_flight_def)
    ultimately show ?thesis using sh(3) by (simp add: core_inv_def)
  qed
  have eq: "verify_job e ?job ?s = (case k of None \<Rightarrow> Some (wg_Done (emit (InvalidPublicKey ?uid) s1))
    | Some k \<Rightarrow> if \<not> e_verify e k (vj_TxHash ?job) (vj_Signature ?job) then Some (emit InvalidSignature (wg_Done s1))
        else case set_Put (vj_Signature ?job) (pl_SigCache s1) of None \<Rightarrow> None
        | Some c \<Rightarrow>
            let t = put_signature (vj_Signature ?job) (vj_Tx ?job);
                s2 = s1\<lparr>pl_SigCache := c, pl_processed := pl_processed s1 + 1\<rparr>
            in case TxRouter_Route (pl_Router s2) ?uid of None \<Rightarrow> None
               | Some target \<Rightarrow> map_option (\<lambda>cs. s2\<lparr>pl_prepareChans := cs\<rparr>)
                   (send_to target \<lparr>pj_Tx = t, pj_TxHash = vj_TxHash ?job, pj_SignerUID = ?uid\<rparr> (pl_prepareChans s2)))"
    by (simp only: verify_job_def Let_def kn not_True_eq_False if_False u_def [symmetric] g prod.case s1_def [symmetric])
  show ?thesis
  proof (cases k)
    case None
    then show ?thesis using fail [of "wg_Done (emit (InvalidPublicKey ?uid) s1)" "InvalidPublicKey ?uid"] by (simp add: eq)
  next
    case k: (Some ek)
    show ?thesis
    proof (cases "e_verify e ek (vj_TxHash ?job) (vj_Signature ?job)")
      case False
      then show ?thesis using k fail [of "emit InvalidSignature (wg_Done s1)" InvalidSignature] by (simp add: eq)
    next
      case sig: True
      obtain c where c: "set_Put (vj_Signature ?job) (pl_SigCache s1) = Some c" "set_inv c"
        using set_Put_ok [of "pl_SigCache s1" "vj_Signature ?job"] sh1 by (auto simp: shape_ok_def)
      define s2 where "s2 = s1\<lparr>pl_SigCache := c, pl_processed := pl_processed s1 + 1\<rparr>"
      let ?pj = "\<lparr>pj_Tx = put_signature (vj_Signature ?job) (vj_Tx ?job), pj_TxHash = vj_TxHash ?job, pj_SignerUID = ?uid\<rparr>"
      obtain w where w: "TxRouter_Route (tx_cfg N) ?uid = Some (int w)" "w < N" using tx_route_bound [OF assms(2)] by blast
      have rt: "pl_Router s2 = tx_cfg N" "pl_Router s1 = tx_cfg N" "length (pl_prepareChans s2) = N"
        using sh1 by (simp_all add: shape_ok_def s2_def)
      let ?s3 = "s2\<lparr>pl_prepareChans := (pl_prepareChans s2)[w := pl_prepareChans s2 ! w @ [?pj]]\<rparr>"
      have res: "verify_job e ?job ?s = Some ?s3"
      proof -
        have "send_to (int w) ?pj (pl_prepareChans s2) = Some ((pl_prepareChans s2)[w := pl_prepareChans s2 ! w @ [?pj]])"
          using w(2) rt(3) by (intro send_ok) simp
        then show ?thesis unfolding eq
          by (simp only: k option.case sig not_True_eq_False if_False c(1) s2_def [symmetric] Let_def rt(1) w(1) option.map)
      qed
      obtain raw h where raw: "raw \<in> P" "vj_TxHash ?job = e_hash e (drop 64 raw)" "e_unmarshal e (drop 64 raw) = Some (vj_Tx ?job)"
        "vj_Signature ?job = take 64 raw" "tx_Header (vj_Tx ?job) = Some h" "hd_SignerUid h = ?uid" "?uid \<noteq> 0" "unat ?uid \<le> length (pubs s)"
        using vj by (auto simp: ver_ok_def)
      have "us_pub u = pubs s ! (unat ?uid - 1)"
      proof -
        have "unat ?uid - 1 < length (pl_users s)" using known_idx [OF kn] by simp
        then show ?thesis by (simp add: u_def user_of_def pubs_def)
      qed
      then have "accepted e (pubs s) P (pj_Tx ?pj) (pj_TxHash ?pj)"
        using raw k sig u'(3) unfolding accepted_def by (intro bexI [of _ raw] exI [of _ "vj_Tx ?job"] exI [of _ h] exI [of _ ek]) simp_all
      then have pj: "prep_ok e (pubs s) P ?pj"
        using raw put_signature_header [OF raw(5), of "vj_Signature ?job"] by (auto simp: prep_ok_def)
      have p3: "pubs ?s3 = pubs s1" by (simp add: pubs_def s2_def)
      have "jobs_ok e P ?s3"
        by (rule jobs_ok_update [OF j1 p3])
          (use pj w(1) rt p1 in \<open>auto simp: s2_def dest!: chan_snoc\<close>)
      moreover have "shape_ok e N ?s3" using sh1 c(2) by (simp add: shape_ok_def s2_def)
      moreover have "in_flight ?s3 = in_flight s" using sum_lengths_snoc [of w "pl_prepareChans s2" ?pj] w(2) rt(3) fl1
        by (simp add: in_flight_def s2_def)
      moreover have "pl_wg ?s3 = pl_wg s" by (simp add: s2_def wg1)
      ultimately show ?thesis using sh(3) res by (simp add: core_inv_def)
    qed
  qed
qed

text \<open>With an empty buffer the prepare worker handles the job itself or drops it as stale.\<close>

lemma UserBuffer_Add_Nil [simp]: "UserBuffer_Add ptx [] = [ptx]"
  by (simp add: UserBuffer_Add_def)

definition exec_of :: "'p prepare_job \<Rightarrow> tx_header \<Rightarrow> 'p exec_job" where
  "exec_of j h = \<lparr>xj_Tx = Some (pj_Tx j), xj_TxHash = pj_TxHash j, xj_SignerUID = hd_SignerUid h, xj_MarketID = hd_MarketSymbol h\<rparr>"

definition bump :: "u64 \<Rightarrow> u64 \<Rightarrow> ('p, 'k) pipe \<Rightarrow> ('p, 'k) pipe" where
  "bump uid n s = set_user uid ((user_of uid s)\<lparr>us_nonce := n\<rparr>) s"

lemma update_member: "x \<in> set (AList.update k v al) \<Longrightarrow> x = (k, v) \<or> x \<in> set al"
  by (induction al) (auto split: if_splits)

lemma buffer_lookup:
  assumes "shape_ok e N s" "w < N"
  shows "(case map_of (pl_buffers s ! w) uid of None \<Rightarrow> [] | Some q \<Rightarrow> q) = []"
proof (cases "map_of (pl_buffers s ! w) uid")
  case (Some q)
  then have "(uid, q) \<in> set (pl_buffers s ! w)" by (rule map_of_SomeD)
  moreover have "pl_buffers s ! w \<in> set (pl_buffers s)" using assms by (intro nth_mem) (simp add: shape_ok_def)
  ultimately show ?thesis using assms(1) Some by (fastforce simp: shape_ok_def)
qed simp

lemma set_buffer_empty:
  assumes "shape_ok e N s" "w < N"
  shows "\<forall>b\<in>set (pl_buffers (set_buffer w uid [] s)). \<forall>x\<in>set b. snd x = []"
proof -
  have old: "\<forall>x\<in>set (pl_buffers s ! w). snd x = []" using assms nth_mem [of w "pl_buffers s"] by (auto simp: shape_ok_def)
  have "\<forall>x\<in>set (AList.update uid [] (pl_buffers s ! w)). snd x = []"
  proof
    fix x assume "x \<in> set (AList.update uid [] (pl_buffers s ! w))"
    then have "x = (uid, []) \<or> x \<in> set (pl_buffers s ! w)" by (rule update_member)
    then show "snd x = []" using old by auto
  qed
  moreover have "set (pl_buffers (set_buffer w uid [] s)) \<subseteq> insert (AList.update uid [] (pl_buffers s ! w)) (set (pl_buffers s))"
    unfolding set_buffer_def by (simp add: set_update_subset_insert)
  ultimately show ?thesis using assms(1) unfolding shape_ok_def by blast
qed

end
