(* ===== verification/PipelineOrder.thy ===== *)
theory PipelineOrder
  imports PipelineInv
begin

text \<open>
  The prepare worker, the order of execution, and whole runs.

  \<^item> \<open>prepare_effect\<close>: with an empty buffer a job is dropped as stale or sent on at once, so the buffer
    stays empty;
  \<^item> \<open>order_inv\<close>: on every execution worker the nonces of a user, executed or queued, increase strictly
    and are bounded by the nonce stored for the user;
  \<^item> \<open>run_inv\<close>: both invariants over a run of actions.
\<close>

subsection \<open>The effect of a prepare job\<close>

lemma bump_simps [simp]:
  "pl_SigCache (bump uid n s) = pl_SigCache s" "pl_decoderJobs (bump uid n s) = pl_decoderJobs s"
  "pl_verifierJobs (bump uid n s) = pl_verifierJobs s" "pl_prepareChans (bump uid n s) = pl_prepareChans s"
  "pl_execChans (bump uid n s) = pl_execChans s" "pl_buffers (bump uid n s) = pl_buffers s"
  "pl_Output (bump uid n s) = pl_Output s" "pl_Router (bump uid n s) = pl_Router s"
  "pl_ExecRouter (bump uid n s) = pl_ExecRouter s" "pl_wg (bump uid n s) = pl_wg s" "pubs (bump uid n s) = pubs s"
  "length (pl_users (bump uid n s)) = length (pl_users s)"
  by (simp_all add: bump_def pubs_set_user)

lemma set_buffer_eq: "set_buffer w uid q (s\<lparr>pl_execChans := cs\<rparr>) = (set_buffer w uid q s)\<lparr>pl_execChans := cs\<rparr>"
  by (simp add: set_buffer_def)

lemma pubs_frame [simp]:
  "pubs (set_buffer w uid q s) = pubs s" "pubs (wg_Done s) = pubs s" "pubs (emit r s) = pubs s"
  "pubs (s\<lparr>pl_execChans := cs\<rparr>) = pubs s" "pubs (s\<lparr>pl_prepareChans := ps\<rparr>) = pubs s"
  by (simp_all add: pubs_def)

lemma user_of_frame [simp]:
  "user_of uid (s\<lparr>pl_prepareChans := ps\<rparr>) = user_of uid s" "known_uid uid (s\<lparr>pl_prepareChans := ps\<rparr>) = known_uid uid s"
  "user_of uid (s\<lparr>pl_execChans := cs\<rparr>) = user_of uid s" "known_uid uid (s\<lparr>pl_execChans := cs\<rparr>) = known_uid uid s"
  "user_of uid (set_buffer w uid' q s) = user_of uid s" "known_uid uid (set_buffer w uid' q s) = known_uid uid s"
  by (simp_all add: user_of_def known_uid_def)

definition stale_result :: "nat \<Rightarrow> u64 \<Rightarrow> ('p, 'k) pipe \<Rightarrow> ('p, 'k) pipe" where
  "stale_result w uid s = wg_Done (set_buffer w uid [] s)"

definition sent_result :: "nat \<Rightarrow> u64 \<Rightarrow> u64 \<Rightarrow> nat \<Rightarrow> 'p exec_job \<Rightarrow> ('p, 'k) pipe \<Rightarrow> ('p, 'k) pipe" where
  "sent_result w uid n v x s = set_buffer w uid [] (bump uid n
    ((set_buffer w uid [] s)\<lparr>pl_execChans := (pl_execChans s)[v := pl_execChans s ! v @ [x]]\<rparr>))"

lemma prepare_effect:
  assumes "shape_ok e N s" "workers_ok N" "w < N" "known_uid (pj_SignerUID job) s" "tx_Header (pj_Tx job) = Some h"
    and v: "v = nat (ExecRouter_Route (exec_cfg N) (hd_SignerUid h) (hd_MarketSymbol h))"
  shows "prepare_job w job s =
    (if hd_Nonce h < us_nonce (user_of (pj_SignerUID job) s) + 1 then Some (stale_result w (pj_SignerUID job) s)
     else Some (sent_result w (pj_SignerUID job) (hd_Nonce h) v (exec_of job h) s))"
proof -
  let ?uid = "pj_SignerUID job"
  let ?s1 = "set_buffer w ?uid [] s"
  let ?exp = "us_nonce (user_of ?uid s) + 1"
  let ?p = "\<lparr>pd_Nonce = hd_Nonce h, pd_Tx = Some (pj_Tx job), pd_TxHash = pj_TxHash job\<rparr>"
  have route: "ExecRouter_Route (pl_ExecRouter ?s1) (hd_SignerUid h) (hd_MarketSymbol h) = int v" "v < length (pl_execChans ?s1)"
    using exec_route_bound [OF assms(2), of "hd_SignerUid h" "hd_MarketSymbol h"] assms(1) v by (simp_all add: shape_ok_def)
  have flush: "flush_queue ?uid ?exp [?p] ?s1 = Some (1, bump ?uid (hd_Nonce h)
      (?s1\<lparr>pl_execChans := (pl_execChans s)[v := pl_execChans s ! v @ [exec_of job h]]\<rparr>))" if "\<not> hd_Nonce h < ?exp"
    using that [unfolded linorder_not_less] assms(5) route send_ok [OF route(2), of "exec_of job h"]
    by (simp add: bump_def exec_of_def Let_def)
  show ?thesis
    unfolding prepare_job_def stale_result_def sent_result_def Let_def assms(5) option.case
    using assms(4) buffer_lookup [OF assms(1,3), of ?uid] flush
    by (cases "hd_Nonce h < ?exp") simp_all
qed

lemma stale_shape:
  assumes "shape_ok e N s" "w < N"
  shows "shape_ok e N (stale_result w uid s)"
  using set_buffer_empty [OF assms, of uid] assms(1) by (simp add: shape_ok_def stale_result_def)

lemma sent_shape:
  assumes "shape_ok e N s" "w < N" "known_uid uid s"
  shows "shape_ok e N (sent_result w uid n v x s)"
proof -
  let ?t = "(set_buffer w uid [] s)\<lparr>pl_execChans := (pl_execChans s)[v := pl_execChans s ! v @ [x]]\<rparr>"
  let ?b = "bump uid n ?t"
  have us: "\<forall>u\<in>set (pl_users ?t). us_expKey u \<noteq> None \<longrightarrow> us_expKey u = e_expand e (us_pub u)"
    using assms(1) by (simp add: shape_ok_def)
  have "user_of uid ?t \<in> set (pl_users ?t)" by (rule user_of_in) (simp add: assms(3))
  then have "\<forall>u\<in>set (pl_users ?b). us_expKey u \<noteq> None \<longrightarrow> us_expKey u = e_expand e (us_pub u)"
    unfolding bump_def using us by (intro users_update) auto
  moreover have "\<forall>b\<in>set (pl_buffers ?b). \<forall>x\<in>set b. snd x = []"
    using set_buffer_empty [OF assms(1,2), of uid] by simp
  ultimately have b: "shape_ok e N ?b" using assms(1) by (simp add: shape_ok_def)
  then have "\<forall>b\<in>set (pl_buffers (set_buffer w uid [] ?b)). \<forall>x\<in>set b. snd x = []" by (rule set_buffer_empty [OF _ assms(2)])
  then show ?thesis using b unfolding sent_result_def by (simp add: shape_ok_def)
qed

lemma prepare_core:
  assumes "core_inv e N P L s" "workers_ok N" "w < length (pl_prepareChans s)" "pl_prepareChans s ! w \<noteq> []"
  shows "\<exists>s'. prepare_job w (hd (pl_prepareChans s ! w))
      (s\<lparr>pl_prepareChans := (pl_prepareChans s)[w := tl (pl_prepareChans s ! w)]\<rparr>) = Some s' \<and> core_inv e N P L s'"
proof -
  let ?job = "hd (pl_prepareChans s ! w)" and ?s = "s\<lparr>pl_prepareChans := (pl_prepareChans s)[w := tl (pl_prepareChans s ! w)]\<rparr>"
  let ?uid = "pj_SignerUID ?job"
  have sh: "shape_ok e N s" "jobs_ok e P s" "pl_wg s = int (in_flight s) + int L" using assms(1) by (simp_all add: core_inv_def)
  have w: "w < N" using assms(3) sh(1) by (simp add: shape_ok_def)
  have p: "prep_ok e (pubs s) P ?job" using sh(2) assms(3) hd_in_set [OF assms(4)] by (simp add: jobs_ok_def)
  then obtain h where h: "tx_Header (pj_Tx ?job) = Some h" "hd_SignerUid h = ?uid" by (auto simp: prep_ok_def)
  have kn: "known_uid ?uid ?s" using p by (simp add: prep_ok_def known_uid_pubs)
  have sh': "shape_ok e N ?s" using sh(1) by (simp add: shape_ok_def)
  have j': "jobs_ok e P ?s"
    by (rule jobs_ok_update [OF sh(2)]) (use assms(3) list.set_sel(2) [OF assms(4)] in \<open>auto simp: nth_list_update split: if_splits\<close>)
  have fl: "Suc (in_flight ?s) = in_flight s" using sum_lengths_tl [OF assms(3,4)] by (simp add: in_flight_def)
  let ?v = "nat (ExecRouter_Route (exec_cfg N) (hd_SignerUid h) (hd_MarketSymbol h))"
  let ?x = "exec_of ?job h"
  let ?r = "sent_result w ?uid (hd_Nonce h) ?v ?x ?s"
  have v: "ExecRouter_Route (exec_cfg N) ?uid (hd_MarketSymbol h) = int ?v" "?v < length (pl_execChans ?s)"
    using exec_route_bound [OF assms(2), of ?uid "hd_MarketSymbol h"] sh' h(2) by (simp_all add: shape_ok_def)
  have stale: "core_inv e N P L (stale_result w ?uid ?s)"
  proof -
    have "jobs_ok e P (stale_result w ?uid ?s)" by (rule jobs_ok_update [OF j']) (simp_all add: stale_result_def)
    then show ?thesis using stale_shape [OF sh' w, of ?uid] sh(3) fl by (simp add: core_inv_def stale_result_def in_flight_def)
  qed
  have x: "exec_ok e (pubs s) P ?x" using p h by (simp add: prep_ok_def exec_ok_def exec_of_def)
  have rt: "ExecRouter_Route (pl_ExecRouter ?s) (xj_SignerUID ?x) (xj_MarketID ?x) = int ?v"
    using v(1) h(2) sh' by (simp add: exec_of_def shape_ok_def)
  have chans: "pl_execChans ?r = (pl_execChans ?s)[?v := pl_execChans ?s ! ?v @ [?x]]" by (simp add: sent_result_def)
  have sent: "core_inv e N P L ?r"
  proof -
    have "jobs_ok e P ?r"
    proof (rule jobs_ok_update [OF j'])
      show "\<forall>w<length (pl_execChans ?r). \<forall>j\<in>set (pl_execChans ?r ! w). w < length (pl_execChans ?s) \<and>
        (j \<in> set (pl_execChans ?s ! w) \<or> exec_ok e (pubs ?s) P j \<and>
          ExecRouter_Route (pl_ExecRouter ?s) (xj_SignerUID j) (xj_MarketID j) = int w)"
      proof (intro allI impI ballI)
        fix u j assume u: "u < length (pl_execChans ?r)" "j \<in> set (pl_execChans ?r ! u)"
        have len: "u < length (pl_execChans ?s)" using u(1) unfolding chans by simp
        have "j \<in> set (pl_execChans ?s ! u) \<or> (j = ?x \<and> u = ?v)" using u(2) len unfolding chans by (intro chan_snoc)
        then show "u < length (pl_execChans ?s) \<and> (j \<in> set (pl_execChans ?s ! u) \<or> exec_ok e (pubs ?s) P j \<and>
          ExecRouter_Route (pl_ExecRouter ?s) (xj_SignerUID j) (xj_MarketID j) = int u)"
          using len x rt by auto
      qed
    qed (simp_all add: sent_result_def)
    moreover have "in_flight ?r = in_flight s"
      using sum_lengths_snoc [OF v(2), of ?x] fl unfolding in_flight_def chans by (simp add: sent_result_def)
    ultimately show ?thesis using sent_shape [OF sh' w kn] sh(3) by (simp add: core_inv_def sent_result_def)
  qed
  have eff: "prepare_job w ?job ?s = (if hd_Nonce h < us_nonce (user_of ?uid ?s) + 1 then Some (stale_result w ?uid ?s) else Some ?r)"
    by (rule prepare_effect [OF sh' assms(2) w kn h(1) refl])
  show ?thesis unfolding eff using stale sent by (cases "hd_Nonce h < us_nonce (user_of ?uid ?s) + 1") simp_all
qed

subsection \<open>The order of execution\<close>

text \<open>The transactions of a user that go to execution worker \<open>v\<close>, and their nonces.\<close>

definition on_lane :: "exec_router \<Rightarrow> u64 \<Rightarrow> nat \<Rightarrow> 'p trans \<Rightarrow> bool" where
  "on_lane r uid v t = (case tx_Header t of None \<Rightarrow> False
    | Some h \<Rightarrow> hd_SignerUid h = uid \<and> ExecRouter_Route r uid (hd_MarketSymbol h) = int v)"

definition tx_nonce :: "'p trans \<Rightarrow> u64" where
  "tx_nonce t = (case tx_Header t of None \<Rightarrow> 0 | Some h \<Rightarrow> hd_Nonce h)"

definition lane_nonces :: "exec_router \<Rightarrow> u64 \<Rightarrow> nat \<Rightarrow> 'p trans list \<Rightarrow> u64 list" where
  "lane_nonces r uid v ts = map tx_nonce (filter (on_lane r uid v) ts)"

fun done_tx :: "'p pipe_result \<Rightarrow> 'p trans list" where
  "done_tx (TxDone (Some t) _) = [t]"
| "done_tx _ = []"

definition executed :: "('p, 'k) pipe \<Rightarrow> 'p trans list" where
  "executed s = concat (map done_tx (pl_Output s))"

fun job_tx :: "'p exec_job \<Rightarrow> 'p trans list" where
  "job_tx j = (case xj_Tx j of None \<Rightarrow> [] | Some t \<Rightarrow> [t])"

definition queued :: "nat \<Rightarrow> ('p, 'k) pipe \<Rightarrow> 'p trans list" where
  "queued v s = concat (map job_tx (pl_execChans s ! v))"

definition lane :: "u64 \<Rightarrow> nat \<Rightarrow> ('p, 'k) pipe \<Rightarrow> u64 list" where
  "lane uid v s = lane_nonces (pl_ExecRouter s) uid v (executed s @ queued v s)"

definition rising_to :: "u64 \<Rightarrow> u64 list \<Rightarrow> bool" where
  "rising_to m ns \<longleftrightarrow> sorted_wrt (<) ns \<and> (\<forall>n\<in>set ns. n \<le> m)"

definition order_inv :: "('p, 'k) pipe \<Rightarrow> bool" where
  "order_inv s \<longleftrightarrow> (\<forall>uid v. known_uid uid s \<longrightarrow> v < length (pl_execChans s) \<longrightarrow>
    rising_to (us_nonce (user_of uid s)) (lane uid v s)) \<and> (\<forall>u\<in>set (pl_users s). us_nonce u \<noteq> - 1)"

definition nonces_ok :: "('p, 'k) env \<Rightarrow> bytes set \<Rightarrow> bool" where
  "nonces_ok e P \<longleftrightarrow> (\<forall>raw\<in>P. \<forall>t. e_unmarshal e (drop 64 raw) = Some t \<longrightarrow> tx_nonce t \<noteq> - 1)"

lemma rising_snoc:
  assumes "rising_to m ns" "m < n"
  shows "rising_to n (ns @ [n])"
  using assms by (fastforce simp: rising_to_def sorted_wrt_append)

lemma lane_nonces_append [simp]: "lane_nonces r uid v (xs @ ys) = lane_nonces r uid v xs @ lane_nonces r uid v ys"
  by (simp add: lane_nonces_def)

lemma executed_frame [simp]:
  "executed (wg_Done s) = executed s" "executed (set_buffer w uid q s) = executed s" "executed (set_user uid u s) = executed s"
  "executed (bump uid n s) = executed s" "executed (s\<lparr>pl_execChans := cs\<rparr>) = executed s"
  "executed (emit r s) = executed s @ done_tx r"
  by (simp_all add: executed_def)

lemma user_nonce_map: "known_uid uid s \<Longrightarrow> us_nonce (user_of uid s) = map us_nonce (pl_users s) ! (unat uid - 1)"
  using known_idx [of uid s] by (simp add: user_of_def)

text \<open>The steps that neither execute a transaction nor send one to execution.\<close>

lemma order_frame:
  assumes "order_inv s" "executed s' = executed s" "pl_execChans s' = pl_execChans s" "pl_ExecRouter s' = pl_ExecRouter s"
    and "map us_nonce (pl_users s') = map us_nonce (pl_users s)"
  shows "order_inv s'"
proof -
  have len: "length (pl_users s') = length (pl_users s)" using arg_cong [OF assms(5), of length] by simp
  have kn: "known_uid uid s' = known_uid uid s" for uid by (simp add: known_uid_def len)
  have lane: "lane uid v s' = lane uid v s" for uid v by (simp add: lane_def queued_def assms(2-4))
  have nonce: "us_nonce (user_of uid s') = us_nonce (user_of uid s)" if "known_uid uid s" for uid
    using that kn user_nonce_map [of uid s] user_nonce_map [of uid s'] assms(5) by simp
  have "us_nonce ` set (pl_users s') = us_nonce ` set (pl_users s)" using arg_cong [OF assms(5), of set] by simp
  then have "\<forall>u\<in>set (pl_users s'). us_nonce u \<noteq> - 1" using assms(1) unfolding order_inv_def by (metis imageE imageI)
  then show ?thesis using assms(1,3) kn lane nonce unfolding order_inv_def by simp
qed

lemma push_order:
  assumes "order_inv s" "Push raw s = Some (r, s')"
  shows "order_inv s'"
proof -
  have "executed s' = executed s \<and> pl_execChans s' = pl_execChans s \<and> pl_ExecRouter s' = pl_ExecRouter s \<and> pl_users s' = pl_users s"
    using assms(2) by (auto simp: Push_def Let_def executed_def split: option.splits prod.splits if_splits)
  then show ?thesis using assms(1) by (intro order_frame [of s s']) simp_all
qed

lemma decode_order:
  assumes "order_inv s"
  shows "order_inv (decode_job e j (s\<lparr>pl_decoderJobs := js\<rparr>))"
  by (rule order_frame [OF assms])
    (simp_all add: decode_job_def wg_Done_def Let_def executed_def split: option.splits)

lemma expand_nonce: "GetOrInitExpKey e u = (k, u') \<Longrightarrow> us_nonce u' = us_nonce u"
  by (auto simp: GetOrInitExpKey_def Let_def split: if_splits)

lemma map_nonce_set_user: "us_nonce u = us_nonce (user_of uid s) \<Longrightarrow> map us_nonce (pl_users (set_user uid u s)) = map us_nonce (pl_users s)"
  by (cases "unat uid - 1 < length (pl_users s)")
    (auto simp: set_user_def user_of_def map_update list_update_same_conv list_update_beyond)

lemma verify_order:
  assumes "order_inv s" "verify_job e j (s\<lparr>pl_verifierJobs := js\<rparr>) = Some s'"
  shows "order_inv s'"
proof -
  let ?s = "s\<lparr>pl_verifierJobs := js\<rparr>" and ?uid = "vj_SignerUID j"
  obtain k u where g: "GetOrInitExpKey e (user_of ?uid ?s) = (k, u)" by (cases "GetOrInitExpKey e (user_of ?uid ?s)")
  have m: "map us_nonce (pl_users (set_user ?uid u ?s)) = map us_nonce (pl_users s)"
    using map_nonce_set_user [OF expand_nonce [OF g]] by simp
  have "executed s' = executed s \<and> pl_execChans s' = pl_execChans s \<and> pl_ExecRouter s' = pl_ExecRouter s \<and>
      map us_nonce (pl_users s') = map us_nonce (pl_users s)"
  proof (cases "known_uid ?uid ?s")
    case False
    then have "s' = emit (InvalidUID ?uid) (wg_Done ?s)" using assms(2) by (simp add: verify_job_def)
    then show ?thesis by (simp add: executed_def)
  next
    case True
    define s1 where "s1 = set_user ?uid u ?s"
    have f: "executed s1 = executed s" "pl_execChans s1 = pl_execChans s" "pl_ExecRouter s1 = pl_ExecRouter s"
      "map us_nonce (pl_users s1) = map us_nonce (pl_users s)" using m by (simp_all add: s1_def executed_def)
    show ?thesis using assms(2) f True unfolding verify_job_def Let_def g prod.case s1_def [symmetric]
      by (auto simp: executed_def wg_Done_def emit_def split: option.splits if_splits)
  qed
  then show ?thesis using assms(1) by (intro order_frame [of s s']) simp_all
qed

lemma exec_order:
  assumes "core_inv e N P L s" "order_inv s" "w < length (pl_execChans s)" "pl_execChans s ! w \<noteq> []"
  shows "order_inv (execute_job (hd (pl_execChans s ! w)) (s\<lparr>pl_execChans := (pl_execChans s)[w := tl (pl_execChans s ! w)]\<rparr>))"
proof -
  let ?job = "hd (pl_execChans s ! w)" and ?s = "s\<lparr>pl_execChans := (pl_execChans s)[w := tl (pl_execChans s ! w)]\<rparr>"
  let ?s' = "execute_job ?job ?s"
  have j: "exec_ok e (pubs s) P ?job" "ExecRouter_Route (pl_ExecRouter s) (xj_SignerUID ?job) (xj_MarketID ?job) = int w"
    using assms(1,3) hd_in_set [OF assms(4)] by (simp_all add: core_inv_def jobs_ok_def)
  then obtain t h where t: "xj_Tx ?job = Some t" "tx_Header t = Some h" "hd_SignerUid h = xj_SignerUID ?job"
    "hd_MarketSymbol h = xj_MarketID ?job" by (auto simp: exec_ok_def)
  have ex: "executed ?s' = executed s @ [t]" by (simp add: execute_job_def t(1))
  have ch: "pl_execChans s ! w = ?job # tl (pl_execChans s ! w)" using assms(4) by simp
  have lane: "lane uid v ?s' = lane uid v s" if "v < length (pl_execChans s)" for uid v
  proof (cases "v = w")
    case True
    have "queued w s = t # concat (map job_tx (tl (pl_execChans s ! w)))" unfolding queued_def by (subst ch) (simp add: t(1))
    then have "executed s @ queued w s = executed ?s' @ queued w ?s'"
      using ex assms(3) by (simp add: queued_def execute_job_def)
    then show ?thesis using True unfolding lane_def by (simp add: execute_job_def del: lane_nonces_append)
  next
    case False
    have "\<not> on_lane (pl_ExecRouter s) uid v t" using j(2) t False by (auto simp: on_lane_def)
    then show ?thesis using False ex by (simp add: lane_def queued_def execute_job_def lane_nonces_def)
  qed
  have "us_nonce (user_of uid ?s') = us_nonce (user_of uid s)" "known_uid uid ?s' = known_uid uid s" for uid
    by (simp_all add: user_of_def known_uid_def execute_job_def)
  then show ?thesis using assms(2) lane unfolding order_inv_def by (simp add: execute_job_def)
qed

lemma nonce_step: "m \<noteq> - 1 \<Longrightarrow> \<not> n < m + 1 \<Longrightarrow> m < (n :: u64)"
  using unatSuc [of m] by (simp add: word_less_nat_alt eq_neg_iff_add_eq_0 add.commute)

lemma user_of_other:
  assumes "known_uid uid s" "known_uid uid' s" "uid' \<noteq> uid"
  shows "user_of uid' (bump uid n s) = user_of uid' s"
proof -
  have "unat uid \<noteq> 0" "unat uid' \<noteq> 0" using assms(1,2) by (simp_all add: known_uid_def unat_eq_zero)
  moreover have "unat uid' \<noteq> unat uid" using assms(3) by (simp add: word_unat_eq_iff)
  ultimately have "unat uid - 1 \<noteq> unat uid' - 1" by linarith
  then show ?thesis by (simp add: user_of_def bump_def set_user_def)
qed

lemma user_of_bump: "known_uid uid s \<Longrightarrow> user_of uid (bump uid n s) = (user_of uid s)\<lparr>us_nonce := n\<rparr>"
  using known_idx [of uid s] by (simp add: user_of_def bump_def set_user_def)

lemma sent_order:
  assumes "order_inv s" "known_uid uid s" "v < length (pl_execChans s)"
    and x: "xj_Tx x = Some t" "on_lane (pl_ExecRouter s) uid v t" "tx_nonce t = n"
    and n: "us_nonce (user_of uid s) < n" "n \<noteq> - 1"
  shows "order_inv (sent_result w uid n v x s)"
proof -
  let ?r = "sent_result w uid n v x s"
  let ?t = "(set_buffer w uid [] s)\<lparr>pl_execChans := (pl_execChans s)[v := pl_execChans s ! v @ [x]]\<rparr>"
  have chans: "pl_execChans ?r = (pl_execChans s)[v := pl_execChans s ! v @ [x]]" and ex: "executed ?r = executed s"
    and rt: "pl_ExecRouter ?r = pl_ExecRouter s" by (simp_all add: sent_result_def)
  have kt: "known_uid uid' ?t = known_uid uid' s" and ut: "user_of uid' ?t = user_of uid' s" for uid' by simp_all
  have kn: "known_uid uid' ?r = known_uid uid' s" for uid' by (simp add: sent_result_def known_uid_def)
  have ux: "user_of uid ?r = (user_of uid s)\<lparr>us_nonce := n\<rparr>"
    using user_of_bump [of uid ?t n] assms(2) by (simp add: sent_result_def)
  have uo: "user_of uid' ?r = user_of uid' s" if "known_uid uid' s" "uid' \<noteq> uid" for uid'
    using user_of_other [of uid ?t uid' n] assms(2) that by (simp add: sent_result_def)
  have lane: "lane uid' v' ?r = lane uid' v' s @ (if uid' = uid \<and> v' = v then [n] else [])" for uid' v'
  proof (cases "v' = v")
    case True
    have "on_lane (pl_ExecRouter s) uid' v t \<longleftrightarrow> uid' = uid" using x(2) by (auto simp: on_lane_def split: option.splits)
    then show ?thesis using True x(1,3) assms(3) by (simp add: lane_def queued_def ex rt chans lane_nonces_def)
  qed (simp add: lane_def queued_def ex rt chans)
  have "rising_to (us_nonce (user_of uid' ?r)) (lane uid' v' ?r)" if k: "known_uid uid' ?r" and v': "v' < length (pl_execChans ?r)" for uid' v'
  proof -
    have old: "rising_to (us_nonce (user_of uid' s)) (lane uid' v' s)"
      using assms(1) k v' unfolding order_inv_def kn chans by simp
    show ?thesis
    proof (cases "uid' = uid")
      case True
      have "rising_to n (lane uid v' s @ [n])" using old n(1) True by (intro rising_snoc) simp_all
      then have "rising_to n (lane uid v' s)" by (auto simp: rising_to_def sorted_wrt_append)
      then show ?thesis using \<open>rising_to n (lane uid v' s @ [n])\<close> True ux unfolding lane by auto
    next
      case False
      then show ?thesis using old uo k kn unfolding lane by simp
    qed
  qed
  moreover have "\<forall>u\<in>set (pl_users ?r). us_nonce u \<noteq> - 1"
  proof -
    have "pl_users ?r = (pl_users s)[unat uid - 1 := (user_of uid s)\<lparr>us_nonce := n\<rparr>]"
      by (simp add: sent_result_def bump_def set_user_def)
    then have "set (pl_users ?r) \<subseteq> insert ((user_of uid s)\<lparr>us_nonce := n\<rparr>) (set (pl_users s))" by (simp add: set_update_subset_insert)
    then show ?thesis using n(2) assms(1) unfolding order_inv_def by auto
  qed
  ultimately show ?thesis unfolding order_inv_def by blast
qed

lemma accepted_nonce:
  assumes "accepted e pks P t hash" "nonces_ok e P"
  shows "tx_nonce t \<noteq> - 1"
proof -
  obtain raw t0 where r: "raw \<in> P" "e_unmarshal e (drop 64 raw) = Some t0" "t = put_signature (take 64 raw) t0"
    using assms(1) unfolding accepted_def by blast
  have "tx_nonce t = tx_nonce t0" unfolding r(3) by (simp add: tx_nonce_def put_signature_def split: option.split)
  then show ?thesis using assms(2) r(1,2) unfolding nonces_ok_def by auto
qed

lemma prepare_order:
  assumes "core_inv e N P L s" "workers_ok N" "order_inv s" "nonces_ok e P" "w < length (pl_prepareChans s)" "pl_prepareChans s ! w \<noteq> []"
    and "prepare_job w (hd (pl_prepareChans s ! w)) (s\<lparr>pl_prepareChans := (pl_prepareChans s)[w := tl (pl_prepareChans s ! w)]\<rparr>) = Some s'"
  shows "order_inv s'"
proof -
  let ?job = "hd (pl_prepareChans s ! w)" and ?s = "s\<lparr>pl_prepareChans := (pl_prepareChans s)[w := tl (pl_prepareChans s ! w)]\<rparr>"
  let ?uid = "pj_SignerUID ?job"
  have sh: "shape_ok e N s" "jobs_ok e P s" using assms(1) by (simp_all add: core_inv_def)
  have p: "prep_ok e (pubs s) P ?job" using sh(2) assms(5) hd_in_set [OF assms(6)] by (simp add: jobs_ok_def)
  then obtain h where h: "tx_Header (pj_Tx ?job) = Some h" "hd_SignerUid h = ?uid" by (auto simp: prep_ok_def)
  have kn: "known_uid ?uid ?s" using p by (simp add: prep_ok_def known_uid_pubs)
  have sh': "shape_ok e N ?s" "w < N" using sh(1) assms(5) by (simp_all add: shape_ok_def)
  have o': "order_inv ?s" by (rule order_frame [OF assms(3)]) (simp_all add: executed_def)
  let ?v = "nat (ExecRouter_Route (exec_cfg N) (hd_SignerUid h) (hd_MarketSymbol h))"
  note eff = prepare_effect [OF sh'(1) assms(2) sh'(2) kn h(1) refl]
  show ?thesis
  proof (cases "hd_Nonce h < us_nonce (user_of ?uid ?s) + 1")
    case True
    then have s': "s' = stale_result w ?uid ?s" using assms(7) unfolding eff by simp
    show ?thesis unfolding s' by (rule order_frame [OF o']) (simp_all add: stale_result_def)
  next
    case False
    then have s': "s' = sent_result w ?uid (hd_Nonce h) ?v (exec_of ?job h) ?s" using assms(7) unfolding eff by simp
    have v: "?v < length (pl_execChans ?s)" "ExecRouter_Route (exec_cfg N) ?uid (hd_MarketSymbol h) = int ?v" "pl_ExecRouter s = exec_cfg N"
      using exec_route_bound [OF assms(2), of ?uid "hd_MarketSymbol h"] sh(1) h(2) by (simp_all add: shape_ok_def)
    have tn: "tx_nonce (pj_Tx ?job) = hd_Nonce h" using h(1) by (simp add: tx_nonce_def)
    have nm: "hd_Nonce h \<noteq> - 1" using accepted_nonce [OF _ assms(4), of "pubs s" "pj_Tx ?job" "pj_TxHash ?job"] p tn by (simp add: prep_ok_def)
    have "us_nonce (user_of ?uid ?s) \<noteq> - 1" using o' user_of_in [OF kn] by (simp add: order_inv_def)
    then have lt: "us_nonce (user_of ?uid ?s) < hd_Nonce h" using False by (rule nonce_step)
    have er: "pl_ExecRouter ?s = exec_cfg N" by (simp add: v(3))
    have ln: "on_lane (pl_ExecRouter ?s) ?uid ?v (pj_Tx ?job)"
      unfolding on_lane_def h(1) option.case er using h(2) v(2) by (rule conjI)
    show ?thesis unfolding s' by (rule sent_order [OF o' kn v(1) _ ln tn lt nm]) (simp add: exec_of_def)
  qed
qed

subsection \<open>Runs\<close>

fun leaked :: "('p, 'k) env \<Rightarrow> action list \<Rightarrow> ('p, 'k) pipe \<Rightarrow> nat" where
  "leaked e [] s = 0"
| "leaked e (a # as) s = leaks e a s + (case do_action e a s of None \<Rightarrow> 0 | Some s' \<Rightarrow> leaked e as s')"

definition pushes :: "action list \<Rightarrow> bytes set" where
  "pushes as = \<Union> (pushed ` set as)"

lemma pushes_simps [simp]: "pushes [] = {}" "pushes (a # as) = pushed a \<union> pushes as"
  by (simp_all add: pushes_def)

lemma action_core:
  assumes "core_inv e N P L s" "workers_ok N"
  shows "\<exists>s'. do_action e a s = Some s' \<and> core_inv e N (P \<union> pushed a) (L + leaks e a s) s'"
proof (cases a)
  case (DoPush raw)
  then show ?thesis using push_core [OF assms(1), of raw] by (auto simp: pushed_def leaks_def)
next
  case (DoDecode i)
  then show ?thesis using decode_core [OF assms(1), of i] assms(1) by (simp add: pushed_def) (simp add: leaks_def)
next
  case (DoVerify i)
  then show ?thesis using verify_core [OF assms(1,2), of i] assms(1) by (simp add: pushed_def leaks_def)
next
  case (DoPrepare w)
  then show ?thesis using prepare_core [OF assms(1,2), of w] assms(1) by (simp add: pushed_def leaks_def)
next
  case (DoExecute w)
  then show ?thesis using execute_core [OF assms(1), of w] assms(1) by (simp add: pushed_def leaks_def)
qed

lemma action_order:
  assumes "core_inv e N P L s" "workers_ok N" "order_inv s" "nonces_ok e P" "do_action e a s = Some s'"
  shows "order_inv s'"
proof (cases a)
  case (DoPush raw)
  then show ?thesis using assms(5) push_order [OF assms(3)] by auto
next
  case (DoDecode i)
  then show ?thesis using assms(3,5) decode_order [OF assms(3)] by (auto split: if_splits)
next
  case (DoVerify i)
  then show ?thesis using assms(3,5) verify_order [OF assms(3)] by (auto split: if_splits)
next
  case (DoPrepare w)
  then show ?thesis using assms(3,5) prepare_order [OF assms(1-4), of w] by (auto split: if_splits)
next
  case (DoExecute w)
  then show ?thesis using assms(3,5) exec_order [OF assms(1,3), of w] by (auto split: if_splits simp del: executed_frame)
qed

lemma run_core:
  assumes "core_inv e N P L s" "workers_ok N"
  shows "\<exists>s'. run_actions e as s = Some s' \<and> core_inv e N (P \<union> pushes as) (L + leaked e as s) s'"
  using assms(1)
proof (induction as arbitrary: P L s)
  case (Cons a as)
  obtain s1 where s1: "do_action e a s = Some s1" "core_inv e N (P \<union> pushed a) (L + leaks e a s) s1"
    using action_core [OF Cons.prems assms(2)] by blast
  show ?case using Cons.IH [OF s1(2)] s1(1) by (simp add: Un_assoc add.assoc)
qed simp

lemma nonces_ok_union: "nonces_ok e (P \<union> Q) \<longleftrightarrow> nonces_ok e P \<and> nonces_ok e Q"
  unfolding nonces_ok_def by blast

lemma run_order:
  assumes "core_inv e N P L s" "workers_ok N" "order_inv s" "nonces_ok e P" "nonces_ok e (pushes as)" "run_actions e as s = Some s'"
  shows "order_inv s'"
  using assms(1,3-6)
proof (induction as arbitrary: P L s)
  case (Cons a as)
  obtain s1 where s1: "do_action e a s = Some s1" "core_inv e N (P \<union> pushed a) (L + leaks e a s) s1"
    using action_core [OF Cons.prems(1) assms(2)] by blast
  have o1: "order_inv s1" by (rule action_order [OF Cons.prems(1) assms(2) Cons.prems(2,3) s1(1)])
  show ?case using Cons.IH [OF s1(2) o1] Cons.prems(3-5) s1(1) by (simp add: nonces_ok_union)
qed simp

end
