(* ===== verification/PipelineSample.thy ===== *)
theory PipelineSample
  imports PipelineOrder
begin

text \<open>
  A small environment, two users and a run, at which the theorems on the pipeline are evaluated. A
  message names user, nonce and market in the bytes after the signature.
\<close>

definition demo_env :: "(unit, bytes) env" where
  "demo_env = \<lparr>e_hash = (\<lambda>b. b),
    e_unmarshal = (\<lambda>b. if length b = 4 then Some \<lparr>tx_Header = Some \<lparr>hd_SignerUid = ucast (b ! 1), hd_Nonce = ucast (b ! 2),
      hd_MarketSymbol = ucast (b ! 3), hd_Signature = []\<rparr>, tx_Payload = ()\<rparr> else None),
    e_expand = (\<lambda>pk. Some pk), e_verify = (\<lambda>k h sig. take 1 sig = k)\<rparr>"

definition demo_users :: "bytes user list" where
  "demo_users = [\<lparr>us_pub = [1], us_expKey = None, us_inited = False, us_nonce = 0\<rparr>,
    \<lparr>us_pub = [2], us_expKey = None, us_inited = False, us_nonce = 0\<rparr>]"

definition demo_msg :: "u8 \<Rightarrow> u8 \<Rightarrow> u8 \<Rightarrow> u8 \<Rightarrow> bytes" where
  "demo_msg sig uid nonce market = replicate 64 sig @ [0x0A, uid, nonce, market]"

text \<open>User 1 sends nonce 2 twice, then 1, then 3; user 2 is impersonated; user 9 does not exist.\<close>

definition demo_pushes :: "action list" where
  "demo_pushes = map DoPush [demo_msg 1 1 2 5, demo_msg 1 1 2 5, demo_msg 1 1 1 5, demo_msg 1 1 3 5, demo_msg 1 2 1 5, demo_msg 1 9 1 5]"

definition demo_check :: "action list" where
  "demo_check = [DoDecode 0, DoDecode 0, DoDecode 0, DoDecode 0, DoDecode 0, DoDecode 0,
    DoVerify 0, DoVerify 0, DoVerify 0, DoVerify 0, DoVerify 0]"

definition demo_finish :: "action list" where
  "demo_finish = [DoPrepare 0, DoPrepare 0, DoPrepare 0, DoPrepare 0, DoExecute 0, DoExecute 0]"

abbreviation demo_pipe :: "(unit, bytes) pipe" where
  "demo_pipe \<equiv> NewProposerPipeline 4 demo_users SigCache"

definition demo_tx :: "u64 \<Rightarrow> unit trans" where
  "demo_tx nonce = \<lparr>tx_Header = Some \<lparr>hd_SignerUid = 1, hd_Nonce = nonce, hd_MarketSymbol = 5, hd_Signature = replicate 64 1\<rparr>,
    tx_Payload = ()\<rparr>"

lemma demo_cache:
  "length k = 64 \<Longrightarrow> ss_keySize c = 32 \<Longrightarrow> set_Seen k c = Some (False, c)"
  "length k = 64 \<Longrightarrow> ss_keySize c = 32 \<Longrightarrow> set_Put k c = Some c"
  by (simp_all add: set_Seen_def set_Put_def)

lemma demo_push: "ss_keySize (pl_SigCache s) = 32 \<Longrightarrow> Push (demo_msg sig uid nonce market) s =
  Some (None, s\<lparr>pl_wg := pl_wg s + 1,
    pl_decoderJobs := pl_decoderJobs s @ [\<lparr>dj_Sig = replicate 64 sig, dj_Body = [0x0A, uid, nonce, market]\<rparr>]\<rparr>)"
  by (simp add: Push_def demo_msg_def validateMsgLen_def splitSignature_def fastProtoScan_def demo_cache Let_def)

lemma demo_fields: "NewProposerPipeline 4 us c = \<lparr>pl_users = us, pl_SigCache = c, pl_decoderJobs = [], pl_verifierJobs = [],
   pl_prepareChans = replicate 4 [], pl_execChans = replicate 69 [], pl_buffers = replicate 4 [], pl_Output = [],
   pl_Router = tx_cfg 4, pl_ExecRouter = exec_cfg 4, pl_wg = 0, pl_processed = 0\<rparr>"
  by (simp add: NewProposerPipeline_def Let_def tx_cfg_def exec_cfg_def)

lemmas demo_simps = demo_pushes_def demo_check_def demo_push take_out_def decode_job_def demo_env_def known_uid_def demo_users_def
  user_of_def Let_def wg_Done_def verify_job_def GetOrInitExpKey_def set_user_def emit_def TxRouter_Route_def tx_cfg_def
  put_signature_def send_to_def copy_to_def demo_cache

definition demo_job :: "u64 \<Rightarrow> bytes \<Rightarrow> unit prepare_job" where
  "demo_job nonce h = \<lparr>pj_Tx = demo_tx nonce, pj_TxHash = h, pj_SignerUID = 1\<rparr>"

definition demo_run :: "action list" where
  "demo_run = demo_pushes @ demo_check @ demo_finish"

text \<open>After the checks four jobs wait for prepare worker 0; the impersonator's was refused.\<close>

lemma demo_checked:
  "run_actions demo_env (demo_pushes @ demo_check) (NewProposerPipeline 4 demo_users c) = Some \<lparr>
    pl_users = [\<lparr>us_pub = [1], us_expKey = Some [1], us_inited = True, us_nonce = 0\<rparr>,
      \<lparr>us_pub = [2], us_expKey = Some [2], us_inited = True, us_nonce = 0\<rparr>],
    pl_SigCache = c, pl_decoderJobs = [], pl_verifierJobs = [],
    pl_prepareChans = (replicate 4 [])[0 := [demo_job 2 [10, 1, 2, 5], demo_job 2 [10, 1, 2, 5], demo_job 1 [10, 1, 1, 5], demo_job 3 [10, 1, 3, 5]]],
    pl_execChans = replicate 69 [], pl_buffers = replicate 4 [], pl_Output = [InvalidSignature],
    pl_Router = tx_cfg 4, pl_ExecRouter = exec_cfg 4, pl_wg = 5, pl_processed = 4\<rparr>" if "ss_keySize c = 32"
  unfolding demo_fields using that by (simp add: demo_simps demo_job_def demo_tx_def)

text \<open>Nonces 2 and 3 are executed, the copy and nonce 1 are dropped.\<close>

lemma run_actions_append: "run_actions e (as @ bs) s = Option.bind (run_actions e as s) (run_actions e bs)"
  by (induction as arbitrary: s) (auto split: option.split)

lemma update_replicate: "(replicate n x)[i := x] = replicate n x"
  by (cases "i < n") (simp_all add: list_update_same_conv list_update_beyond)

lemma demo_finished:
  assumes "ss_keySize c = 32"
  shows "\<exists>s. run_actions demo_env demo_run (NewProposerPipeline 4 demo_users c) = Some s \<and>
    pl_Output s = [InvalidSignature, TxDone (Some (demo_tx 2)) [10, 1, 2, 5], TxDone (Some (demo_tx 3)) [10, 1, 3, 5]] \<and>
    in_flight s = 0 \<and> pl_wg s = 1"
  unfolding demo_run_def append_assoc [symmetric] run_actions_append [of _ "demo_pushes @ demo_check"] demo_checked [OF assms]
  by (simp add: demo_finish_def prepare_job_def known_uid_def user_of_def set_buffer_def demo_job_def demo_tx_def
      UserBuffer_Add_def ExecRouter_Route_def exec_cfg_def send_to_def set_user_def wg_Done_def emit_def execute_job_def in_flight_def
      update_replicate sum_list_replicate Let_def)

lemma demo_nonces: "nonces_ok demo_env P"
proof -
  have "(ucast (x :: u8) :: u64) \<noteq> - 1" for x
  proof -
    have "\<not> bit (ucast x :: u64) 63" by (simp add: bit_ucast_iff impossible_bit)
    moreover have "bit (- 1 :: u64) 63" by simp
    ultimately show ?thesis by metis
  qed
  then show ?thesis by (auto simp: nonces_ok_def demo_env_def tx_nonce_def split: if_splits)
qed

end
