(* ===== verification/PipelineTheorems.thy ===== *)
theory PipelineTheorems
  imports PipelineSample
begin

text \<open>
  What the proposer pipeline guarantees, for every run from a new pipeline: the actions of the workers
  in any order, with any pushed messages.
\<close>

subsection \<open>A new pipeline\<close>

definition fresh_users :: "'k user list \<Rightarrow> bool" where
  "fresh_users us \<longleftrightarrow> (\<forall>u\<in>set us. us_expKey u = None \<and> us_nonce u \<noteq> - 1)"

definition worker_count :: "int \<Rightarrow> nat" where
  "worker_count numCPU = (if numCPU < 3 then 4 else nat numCPU)"

lemma worker_count_ok: "numCPU < 2 ^ 31 \<Longrightarrow> workers_ok (worker_count numCPU)"
  by (auto simp: worker_count_def workers_ok_def)

lemma sig_hasher_total: "total_hasher (Some DefaultBlake3Hasher) 32"
  by (simp add: total_hasher_def DefaultBlake3Hasher_def Let_def)

lemma SigCache_ok: "set_inv SigCache" "ss_keySize SigCache = 32"
proof -
  have "(256 :: int) AND (256 - 1) = 0" by simp
  then obtain c where c: "NewShardedSet 256 32 (Some DefaultBlake3Hasher) = Some c"
    unfolding NewShardedSet_def by (simp only:) simp
  then have "SigCache = c" by (simp add: SigCache_def)
  then show "set_inv SigCache" "ss_keySize SigCache = 32" using NewShardedSet_ok [OF c sig_hasher_total] by simp_all
qed

definition new_pipeline :: "int \<Rightarrow> 'k user list \<Rightarrow> ('p, 'k) pipe" where
  "new_pipeline numCPU us = NewProposerPipeline numCPU us SigCache"

lemma new_pipeline_fields:
  "pl_users (new_pipeline numCPU us) = us" "pl_SigCache (new_pipeline numCPU us) = SigCache"
  "pl_decoderJobs (new_pipeline numCPU us) = []" "pl_verifierJobs (new_pipeline numCPU us) = []"
  "pl_prepareChans (new_pipeline numCPU us) = replicate (worker_count numCPU) []"
  "pl_execChans (new_pipeline numCPU us) = replicate (65 + worker_count numCPU) []"
  "pl_buffers (new_pipeline numCPU us) = replicate (worker_count numCPU) []"
  "pl_Output (new_pipeline numCPU us) = []" "pl_Router (new_pipeline numCPU us) = tx_cfg (worker_count numCPU)"
  "pl_ExecRouter (new_pipeline numCPU us) = exec_cfg (worker_count numCPU)" "pl_wg (new_pipeline numCPU us) = 0"
  by (simp_all add: new_pipeline_def NewProposerPipeline_def worker_count_def tx_cfg_def exec_cfg_def Let_def nat_add_distrib)

lemma new_core: "fresh_users us \<Longrightarrow> core_inv e (worker_count numCPU) {} 0 (new_pipeline numCPU us)"
  using SigCache_ok(1)
  by (auto simp: core_inv_def shape_ok_def jobs_ok_def in_flight_def new_pipeline_fields fresh_users_def
      sum_list_replicate simp del: replicate_add)

lemma new_order: "fresh_users us \<Longrightarrow> order_inv (new_pipeline numCPU us)"
  by (simp add: order_inv_def new_pipeline_fields fresh_users_def lane_def executed_def queued_def lane_nonces_def
      rising_to_def nth_append del: replicate_add)

text \<open>A run from a new pipeline, and the state it reaches.\<close>

lemma run_reaches:
  assumes "numCPU < 2 ^ 31" "fresh_users us"
  shows "\<exists>s. run_actions e as (new_pipeline numCPU us) = Some s \<and>
    core_inv e (worker_count numCPU) (pushes as) (leaked e as (new_pipeline numCPU us)) s"
  using run_core [OF new_core [OF assms(2), of e numCPU] worker_count_ok [OF assms(1)], of as] by simp

lemma reached_core:
  assumes "numCPU < 2 ^ 31" "fresh_users us" "run_actions e as (new_pipeline numCPU us) = Some s"
  shows "core_inv e (worker_count numCPU) (pushes as) (leaked e as (new_pipeline numCPU us)) s"
  using run_reaches [OF assms(1,2), of e as] assms(3) by simp

lemma reached_order:
  assumes "numCPU < 2 ^ 31" "fresh_users us" "nonces_ok e (pushes as)" "run_actions e as (new_pipeline numCPU us) = Some s"
  shows "order_inv s"
  by (rule run_order [OF new_core [OF assms(2)] worker_count_ok [OF assms(1)] new_order [OF assms(2)] _ assms(3,4)])
    (simp add: nonces_ok_def)

text \<open>The public keys do not change.\<close>

lemma verify_pubs:
  assumes "verify_job e j s = Some s'"
  shows "pubs s' = pubs s"
proof (cases "known_uid (vj_SignerUID j) s")
  case False
  then show ?thesis using assms by (auto simp: verify_job_def)
next
  case True
  obtain k u where g: "GetOrInitExpKey e (user_of (vj_SignerUID j) s) = (k, u)" by (cases "GetOrInitExpKey e (user_of (vj_SignerUID j) s)")
  then have "us_pub u = us_pub (user_of (vj_SignerUID j) s)" by (auto simp: GetOrInitExpKey_def Let_def split: if_splits)
  then have p: "pubs (set_user (vj_SignerUID j) u s) = pubs s" by (rule pubs_set_user)
  define s1 where "s1 = set_user (vj_SignerUID j) u s"
  have p1: "pubs s1 = pubs s" unfolding s1_def by (rule p)
  show ?thesis using assms p1 True unfolding verify_job_def Let_def g prod.case s1_def [symmetric]
    by (auto simp: pubs_def wg_Done_def emit_def split: option.splits if_splits)
qed

lemma action_exec_router:
  assumes "core_inv e N P L s"
  shows "pl_ExecRouter s = exec_cfg N" "length (pl_execChans s) = 65 + N"
  using assms by (simp_all add: core_inv_def shape_ok_def)

lemma prepare_result:
  assumes "core_inv e N P L s" "workers_ok N" "w < length (pl_prepareChans s)" "pl_prepareChans s ! w \<noteq> []"
    and "prepare_job w (hd (pl_prepareChans s ! w)) (s\<lparr>pl_prepareChans := (pl_prepareChans s)[w := tl (pl_prepareChans s ! w)]\<rparr>) = Some s'"
  obtains (stale) uid where "s' = stale_result w uid (s\<lparr>pl_prepareChans := (pl_prepareChans s)[w := tl (pl_prepareChans s ! w)]\<rparr>)"
  | (sent) uid n v x where "v < length (pl_execChans s)"
      "s' = sent_result w uid n v x (s\<lparr>pl_prepareChans := (pl_prepareChans s)[w := tl (pl_prepareChans s ! w)]\<rparr>)"
proof -
  let ?job = "hd (pl_prepareChans s ! w)" and ?s = "s\<lparr>pl_prepareChans := (pl_prepareChans s)[w := tl (pl_prepareChans s ! w)]\<rparr>"
  have sh: "shape_ok e N ?s" "w < N" and p: "prep_ok e (pubs s) P ?job"
    using assms(1,3) hd_in_set [OF assms(4)] by (simp_all add: core_inv_def shape_ok_def jobs_ok_def)
  then obtain h where h: "tx_Header (pj_Tx ?job) = Some h" by (auto simp: prep_ok_def)
  have kn: "known_uid (pj_SignerUID ?job) ?s" using p by (simp add: prep_ok_def known_uid_pubs)
  have v: "nat (ExecRouter_Route (exec_cfg N) (hd_SignerUid h) (hd_MarketSymbol h)) < length (pl_execChans s)"
    using exec_route_bound [OF assms(2), of "hd_SignerUid h" "hd_MarketSymbol h"] action_exec_router [OF assms(1)] by simp
  show thesis
    using assms(5) sent [OF v] stale unfolding prepare_effect [OF sh(1) assms(2) sh(2) kn h refl]
    by (cases "hd_Nonce h < us_nonce (user_of (pj_SignerUID ?job) ?s) + 1") auto
qed

lemma action_pubs:
  assumes "core_inv e N P L s" "workers_ok N" "do_action e a s = Some s'"
  shows "pubs s' = pubs s"
proof (cases a)
  case (DoPush raw)
  then show ?thesis using assms(3)
    by (auto simp: Push_def Let_def pubs_def split: option.splits prod.splits if_splits)
next
  case (DoDecode i)
  then show ?thesis using assms(3)
    by (auto simp: decode_job_def Let_def pubs_def wg_Done_def split: option.splits if_splits)
next
  case (DoVerify i)
  then have "i < length (pl_verifierJobs s) \<Longrightarrow> pubs s' = pubs (s\<lparr>pl_verifierJobs := take_out i (pl_verifierJobs s)\<rparr>)"
    using assms(3) by (intro verify_pubs) auto
  then show ?thesis using assms(3) DoVerify by (auto simp: pubs_def split: if_splits)
next
  case (DoPrepare w)
  then show ?thesis using assms(3)
    by (auto simp: stale_result_def sent_result_def elim!: prepare_result [OF assms(1,2), of w s'] split: if_splits)
next
  case (DoExecute w)
  then show ?thesis using assms(3) by (auto simp: execute_job_def pubs_def wg_Done_def emit_def split: if_splits)
qed

lemma run_pubs:
  assumes "core_inv e N P L s" "workers_ok N" "run_actions e as s = Some s'"
  shows "pubs s' = pubs s"
  using assms(1,3)
proof (induction as arbitrary: P L s)
  case (Cons a as)
  obtain s1 where s1: "do_action e a s = Some s1" "core_inv e N (P \<union> pushed a) (L + leaks e a s) s1"
    using action_core [OF Cons.prems(1) assms(2)] by blast
  show ?case using Cons.IH [OF s1(2)] Cons.prems(2) s1(1) action_pubs [OF Cons.prems(1) assms(2) s1(1)] by simp
qed simp

text \<open>The run at which the theorems are evaluated.\<close>

lemma demo_hyps: "(4 :: int) < 2 ^ 31" "fresh_users demo_users"
  by (simp_all add: fresh_users_def demo_users_def)

lemma demo_reached:
  "\<exists>s. run_actions demo_env demo_run (new_pipeline 4 demo_users) = Some s \<and> in_flight s = 0 \<and> pl_wg s = 1 \<and>
    pl_Output s = [InvalidSignature, TxDone (Some (demo_tx 2)) [10, 1, 2, 5], TxDone (Some (demo_tx 3)) [10, 1, 3, 5]]"
  using demo_finished [OF SigCache_ok(2)] unfolding new_pipeline_def by blast

subsection \<open>Order and replay\<close>

text \<open>C8. The execution workers see the transactions of a user in the order of their nonces: whatever the
  interleaving of decoders and verifiers, the transactions of one user executed by one worker (in
  particular those of one market) have strictly increasing nonces.\<close>

theorem user_nonces_increase:
  assumes "numCPU < 2 ^ 31" "fresh_users us" "nonces_ok e (pushes as)" "run_actions e as (new_pipeline numCPU us) = Some s"
  shows "sorted_wrt (<) (lane_nonces (pl_ExecRouter s) uid v (executed s))"
proof -
  note core = reached_core [OF assms(1,2,4)] and order = reached_order [OF assms]
  let ?r = "pl_ExecRouter s"
  show ?thesis
  proof (cases "known_uid uid s \<and> v < length (pl_execChans s)")
    case True
    then have "rising_to (us_nonce (user_of uid s)) (lane uid v s)" using order by (simp add: order_inv_def)
    then show ?thesis by (auto simp: rising_to_def lane_def sorted_wrt_append)
  next
    case False
    have "\<not> on_lane ?r uid v t" if mem: "t \<in> set (executed s)" for t
    proof
      assume l: "on_lane ?r uid v t"
      obtain r where r: "r \<in> set (pl_Output s)" "t \<in> set (done_tx r)" using mem by (auto simp: executed_def)
      then have "out_ok e (pubs s) (pushes as) r" using core by (simp add: core_inv_def jobs_ok_def)
      moreover obtain hash where "r = TxDone (Some t) hash" using r(2) by (cases r rule: done_tx.cases) auto
      ultimately obtain h where h: "tx_Header t = Some h" "hd_SignerUid h \<noteq> 0" "unat (hd_SignerUid h) \<le> length (pubs s)"
        by (auto simp: out_ok_def)
      have rt: "hd_SignerUid h = uid" "ExecRouter_Route ?r uid (hd_MarketSymbol h) = int v" using l h(1) by (simp_all add: on_lane_def)
      have "v < length (pl_execChans s)"
        using exec_route_bound [OF worker_count_ok [OF assms(1)], of uid "hd_MarketSymbol h"] rt(2) action_exec_router [OF core] by simp
      then show False using False h rt(1) by (simp add: known_uid_pubs)
    qed
    then have "filter (on_lane ?r uid v) (executed s) = []" by (simp add: filter_empty_conv)
    then show ?thesis by (simp add: lane_nonces_def)
  qed
qed

theorem user_nonces_increase_witness:
  "\<exists>s. run_actions demo_env demo_run (new_pipeline 4 demo_users) = Some s \<and> executed s = [demo_tx 2, demo_tx 3] \<and>
    sorted_wrt (<) (lane_nonces (pl_ExecRouter s) 1 0 (executed s))"
proof -
  obtain s where s: "run_actions demo_env demo_run (new_pipeline 4 demo_users) = Some s"
    "pl_Output s = [InvalidSignature, TxDone (Some (demo_tx 2)) [10, 1, 2, 5], TxDone (Some (demo_tx 3)) [10, 1, 3, 5]]"
    using demo_reached by blast
  then show ?thesis using user_nonces_increase [OF demo_hyps demo_nonces s(1), of 1 0] by (simp add: executed_def)
qed

lemma executed_out:
  assumes "core_inv e N P L s" "t \<in> set (executed s)"
  shows "\<exists>hash. TxDone (Some t) hash \<in> set (pl_Output s) \<and> out_ok e (pubs s) P (TxDone (Some t) hash)"
proof -
  obtain r where r: "r \<in> set (pl_Output s)" "t \<in> set (done_tx r)" using assms(2) by (auto simp: executed_def)
  then obtain hash where h: "r = TxDone (Some t) hash" by (cases r rule: done_tx.cases) auto
  then have "out_ok e (pubs s) P (TxDone (Some t) hash)" using assms(1) r(1) by (simp add: core_inv_def jobs_ok_def)
  then show ?thesis using r(1) h by blast
qed

lemma distinct_from_filters:
  assumes "\<forall>x\<in>set xs. \<exists>Q. Q x \<and> distinct (filter Q xs)"
  shows "distinct xs"
proof (rule ccontr)
  assume "\<not> distinct xs"
  then obtain as bs cs x where xs: "xs = as @ [x] @ bs @ [x] @ cs" using not_distinct_decomp by blast
  then obtain Q where "Q x" "distinct (filter Q xs)" using assms by auto
  then show False using xs by simp
qed

text \<open>C9. No transaction is executed twice, also when its message is pushed several times: the stored
  nonce of the user stops the copies, wherever they are in the pipeline.\<close>

theorem no_transaction_executed_twice:
  assumes "numCPU < 2 ^ 31" "fresh_users us" "nonces_ok e (pushes as)" "run_actions e as (new_pipeline numCPU us) = Some s"
  shows "distinct (executed s)"
proof (rule distinct_from_filters, rule ballI)
  fix t assume t: "t \<in> set (executed s)"
  note core = reached_core [OF assms(1,2,4)] and order = reached_order [OF assms]
  obtain hash where "out_ok e (pubs s) (pushes as) (TxDone (Some t) hash)" using executed_out [OF core t] by blast
  then obtain h where h: "tx_Header t = Some h" "hd_SignerUid h \<noteq> 0" "unat (hd_SignerUid h) \<le> length (pubs s)"
    by (auto simp: out_ok_def)
  let ?v = "nat (ExecRouter_Route (pl_ExecRouter s) (hd_SignerUid h) (hd_MarketSymbol h))"
  let ?Q = "on_lane (pl_ExecRouter s) (hd_SignerUid h) ?v"
  have v: "0 \<le> ExecRouter_Route (pl_ExecRouter s) (hd_SignerUid h) (hd_MarketSymbol h)" "?v < length (pl_execChans s)"
    using exec_route_bound [OF worker_count_ok [OF assms(1)], of "hd_SignerUid h" "hd_MarketSymbol h"] action_exec_router [OF core]
    by simp_all
  have "known_uid (hd_SignerUid h) s" using h by (simp add: known_uid_pubs)
  then have "rising_to (us_nonce (user_of (hd_SignerUid h) s)) (lane (hd_SignerUid h) ?v s)"
    using order v(2) by (simp add: order_inv_def)
  then have "sorted_wrt (<) (map tx_nonce (filter ?Q (executed s)))"
    by (auto simp: rising_to_def lane_def lane_nonces_def sorted_wrt_append)
  then have "distinct (filter ?Q (executed s))" by (simp add: strict_sorted_iff distinct_map)
  moreover have "?Q t" using v(1) by (simp add: on_lane_def h(1))
  ultimately show "\<exists>Q. Q t \<and> distinct (filter Q (executed s))" by blast
qed

theorem no_transaction_executed_twice_witness:
  "\<exists>s. run_actions demo_env demo_run (new_pipeline 4 demo_users) = Some s \<and> executed s = [demo_tx 2, demo_tx 3] \<and>
    distinct (executed s)"
proof -
  obtain s where s: "run_actions demo_env demo_run (new_pipeline 4 demo_users) = Some s"
    "pl_Output s = [InvalidSignature, TxDone (Some (demo_tx 2)) [10, 1, 2, 5], TxDone (Some (demo_tx 3)) [10, 1, 3, 5]]"
    using demo_reached by blast
  then show ?thesis using no_transaction_executed_twice [OF demo_hyps demo_nonces s(1)] by (simp add: executed_def)
qed

subsection \<open>Authenticity\<close>

lemma pushes_iff: "raw \<in> pushes as \<longleftrightarrow> DoPush raw \<in> set as"
proof -
  have "raw \<in> pushed a \<longleftrightarrow> a = DoPush raw" for a by (cases a) (auto simp: pushed_def)
  then show ?thesis by (auto simp: pushes_def)
qed

text \<open>C10. Every executed transaction was decoded from a pushed message whose 64-byte prefix is a valid
  signature of the digest of the rest under the key of the user named in the header; the executed
  transaction is that decoding with the signature filled in.\<close>

theorem executed_transactions_are_signed:
  assumes "numCPU < 2 ^ 31" "fresh_users us" "run_actions e as (new_pipeline numCPU us) = Some s" "TxDone to hash \<in> set (pl_Output s)"
  shows "\<exists>raw t h k. DoPush raw \<in> set as \<and> e_unmarshal e (drop 64 raw) = Some t \<and> to = Some (put_signature (take 64 raw) t) \<and>
    hash = e_hash e (drop 64 raw) \<and> tx_Header t = Some h \<and> hd_SignerUid h \<noteq> 0 \<and> unat (hd_SignerUid h) \<le> length us \<and>
    e_expand e (us_pub (us ! (unat (hd_SignerUid h) - 1))) = Some k \<and> e_verify e k hash (take 64 raw)"
proof -
  note core = reached_core [OF assms(1-3)]
  have pk: "pubs s = map us_pub us"
    using run_pubs [OF new_core [OF assms(2)] worker_count_ok [OF assms(1)] assms(3)] by (simp add: pubs_def new_pipeline_fields)
  have "out_ok e (pubs s) (pushes as) (TxDone to hash)" using core assms(4) by (simp add: core_inv_def jobs_ok_def)
  then obtain t where "to = Some t" "accepted e (map us_pub us) (pushes as) t hash" by (auto simp: out_ok_def pk)
  then obtain raw t0 h k where r: "raw \<in> pushes as" "hash = e_hash e (drop 64 raw)" "e_unmarshal e (drop 64 raw) = Some t0"
    "to = Some (put_signature (take 64 raw) t0)" "tx_Header t0 = Some h" "hd_SignerUid h \<noteq> 0" "unat (hd_SignerUid h) \<le> length us"
    "e_expand e (map us_pub us ! (unat (hd_SignerUid h) - 1)) = Some k" "e_verify e k hash (take 64 raw)"
    unfolding accepted_def by auto
  have "DoPush raw \<in> set as" using r(1) by (simp add: pushes_iff)
  moreover have "unat (hd_SignerUid h) - 1 < length us" using r(6,7) by (simp add: unat_eq_zero [symmetric])
  ultimately show ?thesis using r by (intro exI [of _ raw] exI [of _ t0] exI [of _ h] exI [of _ k]) (simp add: nth_map)
qed

theorem executed_transactions_are_signed_witness:
  "\<exists>raw t h k. DoPush raw \<in> set demo_run \<and> e_unmarshal demo_env (drop 64 raw) = Some t \<and>
    demo_tx 3 = put_signature (take 64 raw) t \<and> tx_Header t = Some h \<and>
    e_expand demo_env (us_pub (demo_users ! (unat (hd_SignerUid h) - 1))) = Some k \<and>
    e_verify demo_env k [10, 1, 3, 5] (take 64 raw)"
proof -
  obtain s where s: "run_actions demo_env demo_run (new_pipeline 4 demo_users) = Some s"
    "TxDone (Some (demo_tx 3)) [10, 1, 3, 5] \<in> set (pl_Output s)"
    using demo_reached by auto
  show ?thesis using executed_transactions_are_signed [OF demo_hyps s] by auto
qed

subsection \<open>The wait group\<close>

text \<open>C27. No run panics: the counter never goes negative, no router gives a channel out of range, and the
  counter is the work in flight plus the jobs a decoder dropped for an unknown signer without
  \<^verbatim>\<open>wg.Done\<close>. So once such a job was dropped, \<^verbatim>\<open>wg.Wait\<close> blocks for ever, also with no work left.\<close>

theorem wait_group_counts_work:
  assumes "numCPU < 2 ^ 31" "fresh_users us"
  shows "\<exists>s. run_actions e as (new_pipeline numCPU us) = Some s \<and>
    pl_wg s = int (in_flight s) + int (leaked e as (new_pipeline numCPU us))"
  using run_reaches [OF assms, of e as] by (auto simp: core_inv_def)

text \<open>The job of user 9 was dropped silently: nothing is in flight and the counter stays at 1.\<close>

theorem wait_group_counts_work_witness:
  "\<exists>s. run_actions demo_env demo_run (new_pipeline 4 demo_users) = Some s \<and> in_flight s = 0 \<and> pl_wg s = 1 \<and>
    leaked demo_env demo_run (new_pipeline 4 demo_users) = 1"
  using wait_group_counts_work [OF demo_hyps, of demo_env demo_run] demo_reached by auto

subsection \<open>The signature cache\<close>

lemma set_keySize: "set_Seen k c = Some (r, c') \<Longrightarrow> ss_keySize c' = ss_keySize c" "set_Put k c = Some c' \<Longrightarrow> ss_keySize c' = ss_keySize c"
  by (auto simp: set_Seen_def set_Put_def seen_write_def split: if_splits option.splits)

lemma verify_keySize:
  assumes "verify_job e j s = Some s'"
  shows "ss_keySize (pl_SigCache s') = ss_keySize (pl_SigCache s)"
proof -
  obtain k u where g: "GetOrInitExpKey e (user_of (vj_SignerUID j) s) = (k, u)" by (cases "GetOrInitExpKey e (user_of (vj_SignerUID j) s)")
  define s1 where "s1 = set_user (vj_SignerUID j) u s"
  have c1: "pl_SigCache s1 = pl_SigCache s" by (simp add: s1_def)
  show ?thesis using assms c1 unfolding verify_job_def Let_def g prod.case s1_def [symmetric]
    by (auto dest: set_keySize split: option.splits if_splits)
qed

lemma action_keySize:
  assumes "core_inv e N P L s" "workers_ok N" "do_action e a s = Some s'"
  shows "ss_keySize (pl_SigCache s') = ss_keySize (pl_SigCache s)"
proof (cases a)
  case (DoPush raw)
  then show ?thesis using assms(3)
    by (auto simp: Push_def Let_def dest: set_keySize split: option.splits prod.splits if_splits)
next
  case (DoDecode i)
  then show ?thesis using assms(3) by (auto simp: decode_job_def Let_def split: option.splits if_splits)
next
  case (DoVerify i)
  then show ?thesis using assms(3) by (auto dest!: verify_keySize split: if_splits)
next
  case (DoPrepare w)
  then show ?thesis using assms(3)
    by (auto simp: stale_result_def sent_result_def elim!: prepare_result [OF assms(1,2), of w s'] split: if_splits)
next
  case (DoExecute w)
  then show ?thesis using assms(3) by (auto simp: execute_job_def split: if_splits)
qed

lemma run_keySize:
  assumes "core_inv e N P L s" "workers_ok N" "run_actions e as s = Some s'"
  shows "ss_keySize (pl_SigCache s') = ss_keySize (pl_SigCache s)"
  using assms(1,3)
proof (induction as arbitrary: P L s)
  case (Cons a as)
  obtain s1 where s1: "do_action e a s = Some s1" "core_inv e N (P \<union> pushed a) (L + leaks e a s) s1"
    using action_core [OF Cons.prems(1) assms(2)] by blast
  show ?case using Cons.IH [OF s1(2)] Cons.prems(2) s1(1) action_keySize [OF Cons.prems(1) assms(2) s1(1)] by simp
qed simp

text \<open>The duplicate check of \<^verbatim>\<open>Push\<close> never fires: the cache is built for keys of 32 bytes and a signature
  has 64, so every signature is unseen. What \<^verbatim>\<open>Push\<close> answers depends on the message alone.\<close>

theorem push_ignores_history:
  assumes "numCPU < 2 ^ 31" "fresh_users us" "run_actions e as (new_pipeline numCPU us) = Some s"
  shows "\<exists>s'. Push raw s = Some (if length raw \<le> 64 then Some (MsgTooShort (length raw)) else fastProtoScan (drop 64 raw), s') \<and>
    pl_SigCache s' = pl_SigCache s"
proof -
  have "ss_keySize (pl_SigCache s) = 32"
    using run_keySize [OF new_core [OF assms(2)] worker_count_ok [OF assms(1)] assms(3)] SigCache_ok(2)
    by (simp add: new_pipeline_fields)
  then have "set_Seen (take 64 raw) (pl_SigCache s) = Some (False, pl_SigCache s)" if "64 < length raw"
    using that by (simp add: set_Seen_def)
  then show ?thesis
    by (cases "length raw \<le> 64"; cases "fastProtoScan (drop 64 raw)")
      (simp_all add: Push_def validateMsgLen_def splitSignature_def Let_def)
qed

theorem push_ignores_history_witness:
  "\<exists>s s'. run_actions demo_env demo_run (new_pipeline 4 demo_users) = Some s \<and>
    DoPush (demo_msg 1 1 2 5) \<in> set demo_run \<and> Push (demo_msg 1 1 2 5) s = Some (None, s') \<and> pl_SigCache s' = pl_SigCache s"
proof -
  obtain s where s: "run_actions demo_env demo_run (new_pipeline 4 demo_users) = Some s" using demo_reached by blast
  show ?thesis using push_ignores_history [OF demo_hyps s, of "demo_msg 1 1 2 5"] s
    by (simp add: demo_run_def demo_pushes_def demo_msg_def fastProtoScan_def)
qed

subsection \<open>Gaps in the nonces\<close>

text \<open>Transactions are not reordered: the prepare worker sends a transaction on as soon as its nonce
  exceeds the stored one, whatever the gap, and stores its nonce; a transaction whose nonce was passed is
  dropped. The buffer of every user is empty after every step.\<close>

theorem gaps_are_not_buffered:
  assumes "numCPU < 2 ^ 31" "fresh_users us" "nonces_ok e (pushes as)" "run_actions e as (new_pipeline numCPU us) = Some s"
    and "w < length (pl_prepareChans s)" "pl_prepareChans s ! w = job # rest" "tx_Header (pj_Tx job) = Some h"
  shows "\<exists>s'. do_action e (DoPrepare w) s = Some s' \<and> (\<forall>b\<in>set (pl_buffers s'). \<forall>x\<in>set b. snd x = []) \<and>
    (let uid = hd_SignerUid h; v = nat (ExecRouter_Route (pl_ExecRouter s) uid (hd_MarketSymbol h)) in
     if us_nonce (user_of uid s) < hd_Nonce h
     then us_nonce (user_of uid s') = hd_Nonce h \<and> pl_wg s' = pl_wg s \<and>
       pl_execChans s' = (pl_execChans s)[v := pl_execChans s ! v @ [exec_of job h]]
     else pl_users s' = pl_users s \<and> pl_execChans s' = pl_execChans s \<and> pl_wg s' = pl_wg s - 1)"
proof -
  note core = reached_core [OF assms(1,2,4)] and order = reached_order [OF assms(1-4)] and N = worker_count_ok [OF assms(1)]
  let ?s = "s\<lparr>pl_prepareChans := (pl_prepareChans s)[w := rest]\<rparr>" and ?uid = "hd_SignerUid h"
  have sh: "shape_ok e (worker_count numCPU) ?s" "w < worker_count numCPU" and p: "prep_ok e (pubs s) (pushes as) job"
    using core assms(5,6) by (simp_all add: core_inv_def shape_ok_def jobs_ok_def)
  have uid: "pj_SignerUID job = ?uid" using p assms(7) by (simp add: prep_ok_def)
  have kn: "known_uid (pj_SignerUID job) ?s" using p by (simp add: prep_ok_def known_uid_pubs)
  define v where "v = nat (ExecRouter_Route (pl_ExecRouter s) ?uid (hd_MarketSymbol h))"
  have v: "v = nat (ExecRouter_Route (exec_cfg (worker_count numCPU)) ?uid (hd_MarketSymbol h))"
    using action_exec_router [OF core] by (simp add: v_def)
  have "us_nonce (user_of ?uid s) \<noteq> - 1"
    using order user_of_in [OF kn] uid by (simp add: order_inv_def user_of_def)
  then have cmp: "hd_Nonce h < us_nonce (user_of ?uid s) + 1 \<longleftrightarrow> \<not> us_nonce (user_of ?uid s) < hd_Nonce h"
    using unatSuc [of "us_nonce (user_of ?uid s)"] by (auto simp: word_less_nat_alt eq_neg_iff_add_eq_0 add.commute)
  obtain s' where s': "do_action e (DoPrepare w) s = Some s'" "core_inv e (worker_count numCPU) (pushes as)
      (leaked e as (new_pipeline numCPU us)) s'"
    using action_core [OF core N, of "DoPrepare w"] by (auto simp: pushed_def leaks_def)
  have emp: "\<forall>b\<in>set (pl_buffers s'). \<forall>x\<in>set b. snd x = []" using s'(2) by (simp add: core_inv_def shape_ok_def)
  have eff: "do_action e (DoPrepare w) s = (if us_nonce (user_of ?uid s) < hd_Nonce h
      then Some (sent_result w ?uid (hd_Nonce h) v (exec_of job h) ?s) else Some (stale_result w ?uid ?s))"
    using prepare_effect [OF sh(1) N sh(2) kn assms(7) v] cmp assms(5,6) by (simp add: uid)
  have bump: "user_of ?uid (sent_result w ?uid n v x ?s) = (user_of ?uid s)\<lparr>us_nonce := n\<rparr>" for n x
    using user_of_bump [of ?uid "(set_buffer w ?uid [] ?s)\<lparr>pl_execChans := (pl_execChans ?s)[v := pl_execChans ?s ! v @ [x]]\<rparr>" n] kn uid
    by (simp add: sent_result_def)
  show ?thesis
  proof (cases "us_nonce (user_of ?uid s) < hd_Nonce h")
    case True
    then have "s' = sent_result w ?uid (hd_Nonce h) v (exec_of job h) ?s" using s'(1) unfolding eff by simp
    then show ?thesis using True s'(1) emp bump unfolding v_def [symmetric] Let_def by (simp add: sent_result_def)
  next
    case False
    then have "s' = stale_result w ?uid ?s" using s'(1) unfolding eff by simp
    then show ?thesis using False s'(1) emp unfolding v_def [symmetric] Let_def by (simp add: stale_result_def)
  qed
qed

text \<open>Nonce 2 of user 1 arrives first: it is sent on, although nonce 1 is still to come.\<close>

theorem gaps_are_not_buffered_witness:
  "\<exists>s s'. run_actions demo_env (demo_pushes @ demo_check) (new_pipeline 4 demo_users) = Some s \<and> us_nonce (user_of 1 s) = 0 \<and>
    do_action demo_env (DoPrepare 0) s = Some s' \<and> us_nonce (user_of 1 s') = 2 \<and>
    pl_execChans s' ! 0 = [exec_of (demo_job 2 [10, 1, 2, 5]) \<lparr>hd_SignerUid = 1, hd_Nonce = 2, hd_MarketSymbol = 5, hd_Signature = replicate 64 1\<rparr>]"
proof -
  obtain s where s: "run_actions demo_env (demo_pushes @ demo_check) (new_pipeline 4 demo_users) = Some s"
    and f: "us_nonce (user_of 1 s) = 0" "0 < length (pl_prepareChans s)" "pl_execChans s = replicate 69 []" "pl_ExecRouter s = exec_cfg 4"
      "pl_prepareChans s ! 0 = demo_job 2 [10, 1, 2, 5] # [demo_job 2 [10, 1, 2, 5], demo_job 1 [10, 1, 1, 5], demo_job 3 [10, 1, 3, 5]]"
    using demo_checked [OF SigCache_ok(2)] by (simp add: new_pipeline_def user_of_def)
  let ?h = "\<lparr>hd_SignerUid = 1, hd_Nonce = 2, hd_MarketSymbol = 5, hd_Signature = replicate 64 1\<rparr> :: tx_header"
  have h: "tx_Header (pj_Tx (demo_job 2 [10, 1, 2, 5])) = Some ?h" by (simp add: demo_job_def demo_tx_def)
  show ?thesis
    using gaps_are_not_buffered [OF demo_hyps demo_nonces s f(2,5) h] s f
    by (auto simp: Let_def ExecRouter_Route_def exec_cfg_def)
qed

subsection \<open>Routing\<close>

lemma exec_route_value:
  assumes "workers_ok N"
  shows "ExecRouter_Route (exec_cfg N) uid m = int (if uid \<le> 100 then 0
    else if 0 < unat m \<and> unat m \<le> 64 then unat m else 65 + unat m mod N)"
proof -
  have N: "3 \<le> N" "N < 2 ^ 31" using assms by (simp_all add: workers_ok_def)
  have g: "unat (of_nat N :: u32) = N" using N(2) by (simp add: unat_of_nat take_bit_eq_mod)
  then have "(of_nat N :: u32) \<noteq> 0" using N(1) by (metis unat_0 not_numeral_le_zero)
  moreover have "m > 0 \<longleftrightarrow> 0 < unat m" "m \<le> 64 \<longleftrightarrow> unat m \<le> 64" by (simp_all add: word_less_nat_alt word_le_nat_alt)
  moreover have "uint (of_nat N :: u32) = int N" using g by (metis uint_nat)
  ultimately show ?thesis using unat_eq_zero [of m]
    by (auto simp: ExecRouter_Route_def exec_cfg_def Let_def of_nat_mod)
qed

lemma tx_route_value:
  assumes "workers_ok N"
  shows "TxRouter_Route (tx_cfg N) uid = Some (if uid \<le> 100 then 0 else int (1 + unat uid mod (N - 1)))"
proof -
  have N: "3 \<le> N" "N < 2 ^ 31" using assms by (simp_all add: workers_ok_def)
  let ?g = "of_int (int N - 1) :: u64"
  have "?g = of_nat (N - 1)" using N(1) by (simp add: of_nat_diff)
  moreover have "unat (of_nat (N - 1) :: u64) = N - 1" using N(2) by (simp add: unat_of_nat take_bit_eq_mod)
  ultimately have g: "unat ?g = N - 1" by simp
  then have "unat (uid mod ?g) = unat uid mod (N - 1)" by (simp add: unat_mod)
  moreover have "unat uid mod (N - 1) < N - 1" using N(1) by simp
  ultimately have "sint (uid mod ?g) = int (unat uid mod (N - 1))" using N(2) sint_small [of "uid mod ?g"] by simp
  then show ?thesis using N by (simp add: TxRouter_Route_def tx_cfg_def Let_def)
qed

text \<open>C39. Both routers stay in the range of their channels. Worker 0 of each gets exactly the system users
  (up to 100), for all markets; a dedicated execution worker \<open>1..64\<close> gets exactly its market's orders of the
  other users; every other market goes to a general worker. So a market with a dedicated worker is still
  executed by two workers, its own and worker 0.\<close>

theorem routing_partitions_users_and_markets:
  assumes "numCPU < 2 ^ 31"
  shows "(\<exists>w. TxRouter_Route (pl_Router (new_pipeline numCPU us)) uid = Some (int w) \<and>
      w < length (pl_prepareChans (new_pipeline numCPU us)) \<and> (w = 0 \<longleftrightarrow> uid \<le> 100)) \<and>
    (\<exists>v. ExecRouter_Route (pl_ExecRouter (new_pipeline numCPU us)) uid m = int v \<and>
      v < length (pl_execChans (new_pipeline numCPU us)) \<and> (v = 0 \<longleftrightarrow> uid \<le> 100) \<and>
      (v \<in> {1..64} \<longleftrightarrow> 100 < uid \<and> unat m \<in> {1..64}) \<and> (v \<in> {1..64} \<longrightarrow> unat m = v))"
proof
  note ok = worker_count_ok [OF assms]
  then have N: "3 \<le> worker_count numCPU" by (simp add: workers_ok_def)
  have "unat uid mod (worker_count numCPU - Suc 0) < worker_count numCPU - Suc 0" using N by simp
  then have lt: "Suc (unat uid mod (worker_count numCPU - Suc 0)) < worker_count numCPU" by linarith
  show "\<exists>w. TxRouter_Route (pl_Router (new_pipeline numCPU us)) uid = Some (int w) \<and>
      w < length (pl_prepareChans (new_pipeline numCPU us)) \<and> (w = 0 \<longleftrightarrow> uid \<le> 100)"
    using lt tx_route_value [OF ok, of uid] by (intro exI [of _ "if uid \<le> 100 then 0 else 1 + unat uid mod (worker_count numCPU - 1)"])
      (auto simp: new_pipeline_fields)
  have "unat m mod worker_count numCPU < worker_count numCPU" using N by simp
  then show "\<exists>v. ExecRouter_Route (pl_ExecRouter (new_pipeline numCPU us)) uid m = int v \<and>
      v < length (pl_execChans (new_pipeline numCPU us)) \<and> (v = 0 \<longleftrightarrow> uid \<le> 100) \<and>
      (v \<in> {1..64} \<longleftrightarrow> 100 < uid \<and> unat m \<in> {1..64}) \<and> (v \<in> {1..64} \<longrightarrow> unat m = v)"
    by (cases "uid \<le> 100") (auto simp: new_pipeline_fields exec_route_value [OF ok])
qed

theorem routing_partitions_users_and_markets_witness:
  "TxRouter_Route (pl_Router (new_pipeline 4 demo_users)) 205 = Some 2 \<and>
    ExecRouter_Route (pl_ExecRouter (new_pipeline 4 demo_users)) 205 7 = 7 \<and>
    ExecRouter_Route (pl_ExecRouter (new_pipeline 4 demo_users)) 5 7 = 0 \<and>
    ExecRouter_Route (pl_ExecRouter (new_pipeline 4 demo_users)) 205 70 \<ge> 65"
proof -
  have R: "pl_Router (new_pipeline 4 demo_users :: (unit, bytes) pipe) = tx_cfg 4" "pl_ExecRouter (new_pipeline 4 demo_users :: (unit, bytes) pipe) = exec_cfg 4"
    by (simp_all add: new_pipeline_fields worker_count_def)
  show ?thesis
    using routing_partitions_users_and_markets [OF demo_hyps(1), of demo_users 205 7]
      routing_partitions_users_and_markets [OF demo_hyps(1), of demo_users 5 7]
    by (simp add: new_pipeline_fields worker_count_def tx_cfg_def exec_cfg_def TxRouter_Route_def ExecRouter_Route_def Let_def)
qed

end
