(* ===== verification/Pebble.thy ===== *)
theory Pebble
  imports Prelude "HOL-Library.List_Lexorder"
begin

text \<open>
  The interface of the key-value store Pebble that the state and the snapshots are kept in: committing a
  batch and iterating over a database, in the order of the keys. \<open>kv_laws\<close> states its documented
  behaviour. A \<^verbatim>\<open>Set\<close> outside a batch is a batch of one, \<^verbatim>\<open>Get\<close> and an iterator with bounds read the
  iteration. Byte slices are ordered as \<^verbatim>\<open>bytes.Compare\<close> orders them, lexicographically.
\<close>

text \<open>The bytes of a string constant.\<close>

definition ascii :: "string \<Rightarrow> bytes" where
  "ascii s = map of_char s"

text \<open>A write; a value of \<open>None\<close> deletes.\<close>

record write_task =
  wt_key :: bytes
  wt_value :: "bytes option"

record 'd pebble =
  p_commit :: "write_task list \<Rightarrow> 'd \<Rightarrow> 'd"
  p_iter :: "'d \<Rightarrow> (bytes \<times> bytes) list"

definition apply_task :: "write_task \<Rightarrow> (bytes \<rightharpoonup> bytes) \<Rightarrow> (bytes \<rightharpoonup> bytes)" where
  "apply_task t m = m(wt_key t := wt_value t)"

definition kv_laws :: "'d pebble \<Rightarrow> bool" where
  "kv_laws P \<longleftrightarrow> (\<forall>d. sorted (map fst (p_iter P d)) \<and> distinct (map fst (p_iter P d))) \<and>
    (\<forall>ts d. map_of (p_iter P (p_commit P ts d)) = fold apply_task ts (map_of (p_iter P d)))"

definition put_task :: "bytes \<Rightarrow> bytes \<Rightarrow> write_task" where
  "put_task k v = \<lparr>wt_key = k, wt_value = Some v\<rparr>"

definition delete_task :: "bytes \<Rightarrow> write_task" where
  "delete_task k = \<lparr>wt_key = k, wt_value = None\<rparr>"

definition kv_get :: "'d pebble \<Rightarrow> bytes \<Rightarrow> 'd \<Rightarrow> bytes option" where
  "kv_get P k d = map_of (p_iter P d) k"

text \<open>The lower bound of an iterator is inclusive, the upper bound exclusive.\<close>

definition kv_range :: "'d pebble \<Rightarrow> bytes \<Rightarrow> bytes \<Rightarrow> 'd \<Rightarrow> (bytes \<times> bytes) list" where
  "kv_range P lower upper d = filter (\<lambda>(k, _). lower \<le> k \<and> k < upper) (p_iter P d)"

subsection \<open>Batches as maps\<close>

lemma apply_commute: "wt_key t \<noteq> wt_key u \<Longrightarrow> apply_task t (apply_task u m) = apply_task u (apply_task t m)"
  unfolding apply_task_def by (rule fun_upd_twist) simp

lemma fold_move:
  "\<forall>u\<in>set us. wt_key u \<noteq> wt_key t \<Longrightarrow> apply_task t (fold apply_task us m) = fold apply_task us (apply_task t m)"
proof (induction us arbitrary: m)
  case (Cons u us)
  have "apply_task t (fold apply_task us (apply_task u m)) = fold apply_task us (apply_task t (apply_task u m))"
    using Cons by simp
  also have "apply_task t (apply_task u m) = apply_task u (apply_task t m)"
    using Cons.prems by (intro apply_commute) auto
  finally show ?case by simp
qed simp

lemma fold_apply_upd:
  assumes "\<forall>u\<in>set us. wt_key u \<noteq> k"
  shows "fold apply_task us (m(k := v)) = (fold apply_task us m)(k := v)"
  using fold_move [of us "\<lparr>wt_key = k, wt_value = v\<rparr>" m] assms unfolding apply_task_def by simp

lemma apply_other: "wt_key t \<noteq> k \<Longrightarrow> apply_task t m k = m k"
  by (simp add: apply_task_def)

lemma apply_same: "apply_task t m (wt_key t) = wt_value t"
  by (simp add: apply_task_def)

lemma fold_apply_other: "\<forall>u\<in>set us. wt_key u \<noteq> k \<Longrightarrow> fold apply_task us m k = m k"
  by (induction us arbitrary: m) (simp_all add: apply_other)

subsection \<open>Reading\<close>

lemma get_commit: "kv_laws P \<Longrightarrow> kv_get P k (p_commit P ts d) = fold apply_task ts (map_of (p_iter P d)) k"
  by (simp add: kv_get_def kv_laws_def)

lemma range_set:
  assumes "kv_laws P"
  shows "(k, v) \<in> set (kv_range P lower upper d) \<longleftrightarrow> kv_get P k d = Some v \<and> lower \<le> k \<and> k < upper"
proof -
  have "distinct (map fst (p_iter P d))" using assms by (simp add: kv_laws_def)
  then have "map_of (p_iter P d) k = Some v \<longleftrightarrow> (k, v) \<in> set (p_iter P d)" by (rule map_of_eq_Some_iff)
  then show ?thesis by (auto simp: kv_range_def kv_get_def)
qed

lemma range_sorted:
  assumes "kv_laws P"
  shows "sorted (map fst (kv_range P lower upper d))" "distinct (map fst (kv_range P lower upper d))"
proof -
  have "sorted (map fst (p_iter P d))" "distinct (map fst (p_iter P d))" using assms by (simp_all add: kv_laws_def)
  then show "sorted (map fst (kv_range P lower upper d))" "distinct (map fst (kv_range P lower upper d))"
    unfolding kv_range_def by (auto simp: sorted_map distinct_map sorted_wrt_filter inj_on_def)
qed

text \<open>The keys from a prefix up to the prefix followed by \<open>0xFF\<close>: all extensions of it that do not go on
  with that byte.\<close>

lemma prefix_range: "p \<le> k \<and> k < p @ [b] \<longleftrightarrow> (\<exists>s. k = p @ s \<and> (s = [] \<or> hd s < b))" for b :: "'a :: linorder"
proof (induction p arbitrary: k)
  case Nil
  then show ?case by (cases k) auto
next
  case (Cons a p)
  then show ?case by (cases k) (auto simp: less_le_not_le)
qed

subsection \<open>A store that satisfies the laws\<close>

definition demo_kv :: "(bytes \<times> bytes) list pebble" where
  "demo_kv = \<lparr>p_commit = fold (\<lambda>t d. case wt_value t of None \<Rightarrow> AList.delete (wt_key t) d | Some v \<Rightarrow> AList.update (wt_key t) v d),
    p_iter = (\<lambda>d. sort_key fst (AList.clearjunk d))\<rparr>"

lemma demo_lookup: "map_of (p_iter demo_kv d) = map_of d"
proof -
  have "distinct (map fst (sort_key fst (AList.clearjunk d)))" by (metis distinct_clearjunk distinct_map distinct_sort set_sort)
  then have "map_of (sort_key fst (AList.clearjunk d)) = map_of (AList.clearjunk d)"
    by (intro map_of_inject_set [THEN iffD2]) (simp_all add: distinct_clearjunk)
  then show ?thesis by (simp add: demo_kv_def map_of_clearjunk)
qed

lemma demo_kv_laws: "kv_laws demo_kv"
proof -
  have "map_of (fold (\<lambda>t d. case wt_value t of None \<Rightarrow> AList.delete (wt_key t) d | Some v \<Rightarrow> AList.update (wt_key t) v d) ts d)
      = fold apply_task ts (map_of d)" for ts and d :: "(bytes \<times> bytes) list"
    by (induction ts arbitrary: d) (simp_all add: apply_task_def split: option.split)
  then have "map_of (p_iter demo_kv (p_commit demo_kv ts d)) = fold apply_task ts (map_of (p_iter demo_kv d))" for ts d
    unfolding demo_lookup by (simp add: demo_kv_def)
  moreover have "distinct (map fst (p_iter demo_kv d))" for d
    unfolding demo_kv_def by (simp, metis distinct_clearjunk distinct_map distinct_sort set_sort)
  ultimately show ?thesis by (simp add: kv_laws_def) (simp add: demo_kv_def)
qed

end
