(* ===== verification/ExchangeState.thy ===== *)
theory ExchangeState
  imports Pebble
begin

text \<open>
  The state of \<^verbatim>\<open>v2-tx-pipeline/state/state.go\<close>: maps in memory with their dirty sets, the goroutines that
  hand writes to the background writer, the batches of the writer, and the periodic root.

  \<^item> Pebble is the parameter \<open>P\<close> (theory \<open>Pebble\<close>); a write task without a value deletes.
  \<^item> Every goroutine started by \<^verbatim>\<open>SetOrder\<close> or \<^verbatim>\<open>CancelOrder\<close> waits in \<open>st_started\<close> until it sends.
  \<^item> \<open>step\<close> interleaves the callers, these goroutines, the writer and the root calculator; the last has
    three phases, as it gives up the lock between reading and publishing.
  \<^item> Balances, positions and order books have keys but no operations, so their maps are left out.
\<close>

subsection \<open>Entities and keys\<close>

definition PrefixAccount :: u8 where "PrefixAccount = 0x01"
definition PrefixBalance :: u8 where "PrefixBalance = 0x02"
definition PrefixPosition :: u8 where "PrefixPosition = 0x03"
definition PrefixOrder :: u8 where "PrefixOrder = 0x10"
definition PrefixOrderBook :: u8 where "PrefixOrderBook = 0x20"
definition PrefixTrade :: u8 where "PrefixTrade = 0x30"
definition PrefixMetadata :: u8 where "PrefixMetadata = 0xFF"

definition RootKey :: bytes where
  "RootKey = [PrefixMetadata, 0x01]"

definition BatchSize :: nat where
  "BatchSize = 8192"

record st_account =
  sa_ID :: u64
  sa_Name :: bytes

definition Account_Marshal :: "st_account \<Rightarrow> bytes" where
  "Account_Marshal a = ascii ''account:'' @ sa_Name a"

record st_order =
  so_ID :: u64
  so_InstrumentID :: u32
  so_Side :: u8
  so_Price :: u64
  so_Qty :: u64

definition Order_Marshal :: "st_order \<Rightarrow> bytes" where
  "Order_Marshal ord = ascii ''order''"

record balanceKey =
  bk_AccountID :: u64
  bk_AssetID :: u32

record positionKey =
  pk_AccountID :: u64
  pk_InstrumentID :: u32

definition accountKey :: "u64 \<Rightarrow> bytes" where
  "accountKey i = PrefixAccount # be_bytes 8 i"

definition balanceKeyBytes :: "balanceKey \<Rightarrow> bytes" where
  "balanceKeyBytes k = PrefixBalance # be_bytes 8 (bk_AccountID k) @ be_bytes 4 (bk_AssetID k)"

definition positionKeyBytes :: "positionKey \<Rightarrow> bytes" where
  "positionKeyBytes k = PrefixPosition # be_bytes 8 (pk_AccountID k) @ be_bytes 4 (pk_InstrumentID k)"

definition orderKey :: "u64 \<Rightarrow> bytes" where
  "orderKey i = PrefixOrder # be_bytes 8 i"

definition orderBookKey :: "u32 \<Rightarrow> bytes" where
  "orderBookKey instrumentID = PrefixOrderBook # be_bytes 4 instrumentID"

definition tradeKey :: "u64 \<Rightarrow> bytes" where
  "tradeKey i = PrefixTrade # be_bytes 8 i"

subsection \<open>The state\<close>

datatype calc = Idle | Hashed bytes | Saving bytes

record 'd state =
  st_accounts :: "u64 \<rightharpoonup> st_account"
  st_orders :: "u64 \<rightharpoonup> st_order"
  st_dirtyAccounts :: "u64 set"
  st_dirtyOrders :: "u64 set"
  st_db :: 'd
  st_currentRoot :: bytes
  st_version :: u64
  st_started :: "write_task list"
  st_writeCh :: "write_task list"
  st_batch :: "write_task list"
  st_count :: nat
  st_cancelled :: bool
  st_writing :: bool
  st_calc :: calc

definition empty_state :: "'d \<Rightarrow> 'd state" where
  "empty_state d = \<lparr>st_accounts = Map.empty, st_orders = Map.empty, st_dirtyAccounts = {}, st_dirtyOrders = {}, st_db = d,
    st_currentRoot = zero32, st_version = 0, st_started = [], st_writeCh = [], st_batch = [], st_count = 0,
    st_cancelled = False, st_writing = True, st_calc = Idle\<rparr>"

text \<open>One entry of the load loop; a key too short for its number is a panic.\<close>

definition load_entry :: "bytes \<times> bytes \<Rightarrow> 'd state \<Rightarrow> 'd state option" where
  "load_entry kv s = (case kv of (key, val) \<Rightarrow>
    (case key of
       [] \<Rightarrow> Some s
     | prefix # rest \<Rightarrow>
         if prefix = PrefixAccount then
           (if length rest < 8 then None
            else let i = be_word (take 8 rest) in Some (s\<lparr>st_accounts := (st_accounts s)(i \<mapsto> \<lparr>sa_ID = i, sa_Name = []\<rparr>)\<rparr>))
         else if prefix = PrefixOrder then
           (if length rest < 8 then None
            else let i = be_word (take 8 rest) in Some (s\<lparr>st_orders := (st_orders s)(i \<mapsto>
              \<lparr>so_ID = i, so_InstrumentID = 0, so_Side = 0, so_Price = 0, so_Qty = 0\<rparr>)\<rparr>))
         else if prefix = PrefixMetadata then
           (if key = RootKey then Some (s\<lparr>st_currentRoot := copy_to (st_currentRoot s) val\<rparr>) else Some s)
         else Some s))"

fun load_entries :: "(bytes \<times> bytes) list \<Rightarrow> 'd state \<Rightarrow> 'd state option" where
  "load_entries [] s = Some s"
| "load_entries (kv # kvs) s = (case load_entry kv s of None \<Rightarrow> None | Some s' \<Rightarrow> load_entries kvs s')"

definition NewState :: "'d pebble \<Rightarrow> 'd \<Rightarrow> 'd state option" where
  "NewState P d = load_entries (p_iter P d) (empty_state d)"

subsection \<open>Updates\<close>

definition State_SetOrder :: "st_order \<Rightarrow> 'd state \<Rightarrow> 'd state" where
  "State_SetOrder ord s = s\<lparr>st_orders := (st_orders s)(so_ID ord \<mapsto> ord), st_dirtyOrders := insert (so_ID ord) (st_dirtyOrders s),
    st_started := st_started s @ [\<lparr>wt_key = orderKey (so_ID ord), wt_value = Some (Order_Marshal ord)\<rparr>]\<rparr>"

definition State_CancelOrder :: "u64 \<Rightarrow> 'd state \<Rightarrow> 'd state" where
  "State_CancelOrder i s = s\<lparr>st_orders := (st_orders s)(i := None), st_dirtyOrders := insert i (st_dirtyOrders s),
    st_started := st_started s @ [\<lparr>wt_key = orderKey i, wt_value = None\<rparr>]\<rparr>"

text \<open>The \<open>i\<close>-th waiting goroutine sends; the channel holds 256 K tasks.\<close>

definition send_task :: "nat \<Rightarrow> 'd state \<Rightarrow> 'd state" where
  "send_task i s = s\<lparr>st_writeCh := st_writeCh s @ [st_started s ! i],
    st_started := take i (st_started s) @ drop (Suc i) (st_started s)\<rparr>"

subsection \<open>The background writer\<close>

definition commit_batch :: "'d pebble \<Rightarrow> 'd state \<Rightarrow> 'd state" where
  "commit_batch P s = s\<lparr>st_db := p_commit P (st_batch s) (st_db s), st_batch := [], st_count := 0\<rparr>"

definition take_task :: "'d pebble \<Rightarrow> 'd state \<Rightarrow> 'd state" where
  "take_task P s = (case st_writeCh s of
     [] \<Rightarrow> s
   | task # rest \<Rightarrow>
       let s1 = s\<lparr>st_writeCh := rest, st_batch := st_batch s @ [task], st_count := st_count s + 1\<rparr>
       in if st_count s1 \<ge> BatchSize then commit_batch P s1 else s1)"

definition writer_tick :: "'d pebble \<Rightarrow> 'd state \<Rightarrow> 'd state" where
  "writer_tick P s = (if st_count s > 0 then commit_batch P s else s)"

subsection \<open>The root\<close>

type_synonym entry = "bytes \<times> bytes option"

definition account_entry :: "'d state \<Rightarrow> u64 \<Rightarrow> entry" where
  "account_entry s i = (accountKey i, map_option Account_Marshal (st_accounts s i))"

definition order_entry :: "'d state \<Rightarrow> u64 \<Rightarrow> entry" where
  "order_entry s i = (orderKey i, map_option Order_Marshal (st_orders s i))"

text \<open>\<open>accs\<close> and \<open>ords\<close> are the dirty sets in the order in which the range loops visit them.\<close>

definition collect_entries :: "u64 list \<Rightarrow> u64 list \<Rightarrow> 'd state \<Rightarrow> entry list" where
  "collect_entries accs ords s = map (account_entry s) accs @ map (order_entry s) ords"

definition entry_bytes :: "entry \<Rightarrow> bytes" where
  "entry_bytes e = fst e @ (case snd e of None \<Rightarrow> [0xDE, 0xAD] | Some v \<Rightarrow> v)"

definition entries_root :: "(bytes \<Rightarrow> bytes) \<Rightarrow> entry list \<Rightarrow> bytes" where
  "entries_root H es = H (concat (map entry_bytes (sort_key fst es)))"

definition publish_root :: "bytes \<Rightarrow> 'd state \<Rightarrow> 'd state" where
  "publish_root r s = s\<lparr>st_currentRoot := copy_to (st_currentRoot s) r, st_version := st_version s + 1,
    st_dirtyAccounts := {}, st_dirtyOrders := {}\<rparr>"

definition save_root :: "'d pebble \<Rightarrow> bytes \<Rightarrow> 'd state \<Rightarrow> 'd state" where
  "save_root P r s = s\<lparr>st_db := p_commit P [\<lparr>wt_key = RootKey, wt_value = Some r\<rparr>] (st_db s)\<rparr>"

definition computeAndSaveRoot :: "'d pebble \<Rightarrow> (bytes \<Rightarrow> bytes) \<Rightarrow> u64 list \<Rightarrow> u64 list \<Rightarrow> 'd state \<Rightarrow> 'd state" where
  "computeAndSaveRoot P H accs ords s =
    (let entries = collect_entries accs ords s
     in if length entries = 0 then s
        else let newRoot = entries_root H entries in save_root P newRoot (publish_root newRoot s))"

subsection \<open>Interleavings\<close>

datatype event =
    EvSet st_order | EvCancel u64 | EvSend nat
  | EvTake | EvTick | EvExit
  | EvCollect "u64 list" "u64 list" | EvPublish | EvSave
  | EvClose

inductive step :: "'d pebble \<Rightarrow> (bytes \<Rightarrow> bytes) \<Rightarrow> 'd state \<Rightarrow> event \<Rightarrow> 'd state \<Rightarrow> bool"
  for P :: "'d pebble" and H :: "bytes \<Rightarrow> bytes" where
  Set: "step P H s (EvSet ord) (State_SetOrder ord s)"
| Cancel: "step P H s (EvCancel i) (State_CancelOrder i s)"
| Send: "i < length (st_started s) \<Longrightarrow> length (st_writeCh s) < 256 * 1024 \<Longrightarrow> step P H s (EvSend i) (send_task i s)"
| Take: "st_writing s \<Longrightarrow> st_writeCh s \<noteq> [] \<Longrightarrow> step P H s EvTake (take_task P s)"
| Tick: "st_writing s \<Longrightarrow> step P H s EvTick (writer_tick P s)"
| Exit: "st_cancelled s \<Longrightarrow> step P H s EvExit (s\<lparr>st_writing := False\<rparr>)"
| Collect: "st_calc s = Idle \<Longrightarrow> distinct accs \<Longrightarrow> set accs = st_dirtyAccounts s \<Longrightarrow> distinct ords \<Longrightarrow> set ords = st_dirtyOrders s \<Longrightarrow>
    es = collect_entries accs ords s \<Longrightarrow>
    step P H s (EvCollect accs ords) (if es = [] then s else s\<lparr>st_calc := Hashed (entries_root H es)\<rparr>)"
| Publish: "st_calc s = Hashed r \<Longrightarrow> step P H s EvPublish ((publish_root r s)\<lparr>st_calc := Saving r\<rparr>)"
| Save: "st_calc s = Saving r \<Longrightarrow> step P H s EvSave ((save_root P r s)\<lparr>st_calc := Idle\<rparr>)"
| Close: "step P H s EvClose (s\<lparr>st_cancelled := True\<rparr>)"

text \<open>Each event as an equation.\<close>

inductive_simps event_simps:
  "step P H s (EvSet ord) s'" "step P H s (EvCancel i) s'" "step P H s (EvSend i) s'" "step P H s EvTake s'" "step P H s EvTick s'"
  "step P H s EvExit s'" "step P H s (EvCollect accs ords) s'" "step P H s EvPublish s'" "step P H s EvSave s'" "step P H s EvClose s'"

inductive steps :: "'d pebble \<Rightarrow> (bytes \<Rightarrow> bytes) \<Rightarrow> 'd state \<Rightarrow> event list \<Rightarrow> 'd state \<Rightarrow> bool"
  for P :: "'d pebble" and H :: "bytes \<Rightarrow> bytes" where
  Done: "steps P H s [] s"
| More: "step P H s ev s1 \<Longrightarrow> steps P H s1 evs s' \<Longrightarrow> steps P H s (ev # evs) s'"

inductive_simps steps_simps: "steps P H s [] s'" "steps P H s (ev # evs) s'"

end
