(* ===== verification/ExchangeStateTheorems.thy ===== *)
theory ExchangeStateTheorems
  imports ExchangeState
begin

text \<open>
  Properties of the exchange state: the keys of the entities, what a restart finds in the database when
  the writes arrive in order and when they do not, and what the periodic root commits to.

  \<^item> \<open>pending\<close> is the database with the writes in flight applied; \<open>store_inv\<close> ties it to the orders in memory;
  \<^item> \<open>fifo_steps\<close> are the runs in which two writes of one key are not sent in reverse order;
  \<^item> \<open>root_inv\<close> ties the stored root to the root in memory.
\<close>

subsection \<open>Keys\<close>

datatype entity =
    Account u64 | Balance balanceKey | Position positionKey | Order u64 | Book u32 | Trade u64 | Root

fun entity_key :: "entity \<Rightarrow> bytes" where
  "entity_key (Account i) = accountKey i"
| "entity_key (Balance k) = balanceKeyBytes k"
| "entity_key (Position k) = positionKeyBytes k"
| "entity_key (Order i) = orderKey i"
| "entity_key (Book i) = orderBookKey i"
| "entity_key (Trade i) = tradeKey i"
| "entity_key Root = RootKey"

lemmas key_defs = accountKey_def balanceKeyBytes_def positionKeyBytes_def orderKey_def orderBookKey_def tradeKey_def RootKey_def
  PrefixAccount_def PrefixBalance_def PrefixPosition_def PrefixOrder_def PrefixOrderBook_def PrefixTrade_def PrefixMetadata_def

lemma be_bytes32_inject [simp]: "be_bytes 4 (v :: u32) = be_bytes 4 w \<longleftrightarrow> v = w"
  by (metis be_word32_roundtrip)

lemma key_simps [simp]:
  "orderKey i = orderKey j \<longleftrightarrow> i = j" "accountKey i = accountKey j \<longleftrightarrow> i = j"
  "orderKey i \<noteq> accountKey j" "accountKey i \<noteq> orderKey j" "orderKey i \<noteq> RootKey" "RootKey \<noteq> orderKey i"
  "accountKey i \<noteq> RootKey" "RootKey \<noteq> accountKey i"
  by (simp_all add: key_defs)

lemma entity_key_split: "entity_key a @ x = entity_key b @ y \<longleftrightarrow> a = b \<and> x = y"
proof
  have len: "length (be_bytes 8 (v :: u64)) = 8" "length (be_bytes 4 (w :: u32)) = 4" for v w by simp_all
  have split: "be_bytes 8 (v :: u64) @ x = be_bytes 8 w @ y \<longleftrightarrow> v = w \<and> x = y" for v w and x y :: bytes
    by (simp add: append_eq_append_conv)
  have split4: "be_bytes 4 (v :: u32) @ x = be_bytes 4 w @ y \<longleftrightarrow> v = w \<and> x = y" for v w and x y :: bytes
    by (simp add: append_eq_append_conv)
  assume "entity_key a @ x = entity_key b @ y"
  then show "a = b \<and> x = y"
    by (cases a; cases b) (simp_all add: key_defs split split4 balanceKey.equality positionKey.equality)
qed simp

text \<open>The keys of different entities are different and no key is a prefix of another, so a key
  followed by any bytes determines the entity.\<close>

theorem entity_keys_prefix_free: "entity_key a @ x = entity_key b @ y \<longleftrightarrow> a = b \<and> x = y"
  by (rule entity_key_split)

subsection \<open>Loading a database\<close>

definition good_db :: "(bytes \<rightharpoonup> bytes) \<Rightarrow> bool" where
  "good_db m \<longleftrightarrow> (\<forall>k\<in>dom m. (\<exists>i. k = orderKey i \<or> k = accountKey i) \<or> (k = RootKey \<and> length (the (m k)) = 32))"

definition loaded_order :: "u64 \<Rightarrow> st_order" where
  "loaded_order i = \<lparr>so_ID = i, so_InstrumentID = 0, so_Side = 0, so_Price = 0, so_Qty = 0\<rparr>"

definition loaded_account :: "u64 \<Rightarrow> st_account" where
  "loaded_account i = \<lparr>sa_ID = i, sa_Name = []\<rparr>"

lemma load_cases:
  "load_entry (orderKey i, v) s = Some (s\<lparr>st_orders := (st_orders s)(i \<mapsto> loaded_order i)\<rparr>)"
  "load_entry (accountKey i, v) s = Some (s\<lparr>st_accounts := (st_accounts s)(i \<mapsto> loaded_account i)\<rparr>)"
  "load_entry (RootKey, v) s = Some (s\<lparr>st_currentRoot := copy_to (st_currentRoot s) v\<rparr>)"
  by (simp_all add: load_entry_def key_defs loaded_order_def loaded_account_def Let_def)

definition rest :: "'d state \<Rightarrow> 'd state" where
  "rest s = s\<lparr>st_orders := Map.empty, st_accounts := Map.empty, st_currentRoot := []\<rparr>"

text \<open>What loading a list of entries with distinct keys leaves in memory.\<close>

definition loads :: "(bytes \<rightharpoonup> bytes) \<Rightarrow> 'd state \<Rightarrow> 'd state \<Rightarrow> bool" where
  "loads m s s' \<longleftrightarrow>
    (\<forall>i. st_orders s' i = (if orderKey i \<in> dom m then Some (loaded_order i) else st_orders s i)) \<and>
    (\<forall>i. st_accounts s' i = (if accountKey i \<in> dom m then Some (loaded_account i) else st_accounts s i)) \<and>
    st_currentRoot s' = (case m RootKey of None \<Rightarrow> st_currentRoot s | Some v \<Rightarrow> v) \<and>
    rest s' = rest s"

lemma loads_dom:
  assumes "loads m s s'"
  shows "dom (st_orders s') = dom (st_orders s) \<union> {i. orderKey i \<in> dom m}"
    "dom (st_accounts s') = dom (st_accounts s) \<union> {i. accountKey i \<in> dom m}"
proof -
  have "st_orders s' i = (if orderKey i \<in> dom m then Some (loaded_order i) else st_orders s i)"
    "st_accounts s' i = (if accountKey i \<in> dom m then Some (loaded_account i) else st_accounts s i)" for i
    using assms by (simp_all add: loads_def)
  then show "dom (st_orders s') = dom (st_orders s) \<union> {i. orderKey i \<in> dom m}"
    "dom (st_accounts s') = dom (st_accounts s) \<union> {i. accountKey i \<in> dom m}"
    by (auto simp: dom_def split: if_splits)
qed

lemma load_entries_ok:
  assumes "distinct (map fst es)" "good_db (map_of es)" "length (st_currentRoot s) = 32"
  shows "\<exists>s'. load_entries es s = Some s' \<and> loads (map_of es) s s'"
  using assms
proof (induction es arbitrary: s)
  case Nil
  then show ?case by (simp add: loads_def)
next
  case (Cons e es)
  obtain k v where e: "e = (k, v)" by (cases e)
  have fresh: "map_of es k = None" using Cons.prems(1) e by (simp add: map_of_eq_None_iff)
  have good: "good_db (map_of es)" unfolding good_db_def
  proof
    fix k' assume k': "k' \<in> dom (map_of es)"
    then have "k' \<noteq> k" using fresh by auto
    then show "(\<exists>i. k' = orderKey i \<or> k' = accountKey i) \<or> k' = RootKey \<and> length (the (map_of es k')) = 32"
      using Cons.prems(2) k' e unfolding good_db_def by (auto simp: e)
  qed
  have "(\<exists>i. k = orderKey i \<or> k = accountKey i) \<or> (k = RootKey \<and> length v = 32)"
    using Cons.prems(2) e unfolding good_db_def by auto
  then obtain s1 where s1: "load_entry e s = Some s1" and one: "loads [k \<mapsto> v] s s1" and len: "length (st_currentRoot s1) = 32"
    using Cons.prems(3) by (auto simp: e load_cases loads_def rest_def)
  obtain s' where s': "load_entries es s1 = Some s'" "loads (map_of es) s1 s'"
    using Cons.IH [OF _ good len] Cons.prems(1) by auto
  have "loads (map_of (e # es)) s s'"
    using one s'(2) fresh unfolding loads_def e by (auto split: option.splits if_splits)
  moreover have "load_entries (e # es) s = Some s'" using s1 s'(1) by simp
  ultimately show ?case by blast
qed

lemma NewState_ok:
  assumes "kv_laws P" "good_db (map_of (p_iter P d))"
  shows "\<exists>s. NewState P d = Some s \<and> loads (map_of (p_iter P d)) (empty_state d) s"
  using load_entries_ok [of "p_iter P d" "empty_state d"] assms by (simp add: NewState_def kv_laws_def empty_state_def)

subsection \<open>Writes in flight\<close>

definition queued_tasks :: "'d state \<Rightarrow> write_task list" where
  "queued_tasks s = st_batch s @ st_writeCh s @ st_started s"

definition pending :: "'d pebble \<Rightarrow> 'd state \<Rightarrow> (bytes \<rightharpoonup> bytes)" where
  "pending P s = fold apply_task (queued_tasks s) (map_of (p_iter P (st_db s)))"

text \<open>The database with the writes in flight has exactly the orders and accounts that memory has.\<close>

definition store_inv :: "'d pebble \<Rightarrow> 'd state \<Rightarrow> bool" where
  "store_inv P s \<longleftrightarrow> (\<forall>i. orderKey i \<in> dom (pending P s) \<longleftrightarrow> i \<in> dom (st_orders s)) \<and>
    (\<forall>i. accountKey i \<in> dom (map_of (p_iter P (st_db s))) \<longleftrightarrow> i \<in> dom (st_accounts s)) \<and>
    (\<forall>t\<in>set (queued_tasks s). \<exists>i. wt_key t = orderKey i) \<and> good_db (map_of (p_iter P (st_db s))) \<and>
    st_count s = length (st_batch s)"

definition in_order :: "'d state \<Rightarrow> event \<Rightarrow> bool" where
  "in_order s ev \<longleftrightarrow> (case ev of EvSend i \<Rightarrow> \<forall>j<i. wt_key (st_started s ! j) \<noteq> wt_key (st_started s ! i) | _ \<Rightarrow> True)"

inductive fifo_steps :: "'d pebble \<Rightarrow> (bytes \<Rightarrow> bytes) \<Rightarrow> 'd state \<Rightarrow> event list \<Rightarrow> 'd state \<Rightarrow> bool"
  for P :: "'d pebble" and H :: "bytes \<Rightarrow> bytes" where
  FDone: "fifo_steps P H s [] s"
| FMore: "step P H s ev s1 \<Longrightarrow> in_order s ev \<Longrightarrow> fifo_steps P H s1 evs s' \<Longrightarrow> fifo_steps P H s (ev # evs) s'"

text \<open>Runs, event by event.\<close>

lemma step_fifo:
  "fifo_steps P H (State_SetOrder ord s) evs s' \<Longrightarrow> fifo_steps P H s (EvSet ord # evs) s'"
  "fifo_steps P H (State_CancelOrder c s) evs s' \<Longrightarrow> fifo_steps P H s (EvCancel c # evs) s'"
  "fifo_steps P H (send_task i s) evs s' \<Longrightarrow> i < length (st_started s) \<Longrightarrow> length (st_writeCh s) < 256 * 1024 \<Longrightarrow>
    in_order s (EvSend i) \<Longrightarrow> fifo_steps P H s (EvSend i # evs) s'"
  "fifo_steps P H (take_task P s) evs s' \<Longrightarrow> st_writing s \<Longrightarrow> st_writeCh s \<noteq> [] \<Longrightarrow> fifo_steps P H s (EvTake # evs) s'"
  "fifo_steps P H (writer_tick P s) evs s' \<Longrightarrow> st_writing s \<Longrightarrow> fifo_steps P H s (EvTick # evs) s'"
  by (auto intro!: FMore step.intros simp: in_order_def)

lemma step_run:
  "steps P H (State_SetOrder ord s) evs s' \<Longrightarrow> steps P H s (EvSet ord # evs) s'"
  "steps P H (State_CancelOrder c s) evs s' \<Longrightarrow> steps P H s (EvCancel c # evs) s'"
  "steps P H (send_task i s) evs s' \<Longrightarrow> i < length (st_started s) \<Longrightarrow> length (st_writeCh s) < 256 * 1024 \<Longrightarrow>
    steps P H s (EvSend i # evs) s'"
  "steps P H (take_task P s) evs s' \<Longrightarrow> st_writing s \<Longrightarrow> st_writeCh s \<noteq> [] \<Longrightarrow> steps P H s (EvTake # evs) s'"
  "steps P H (writer_tick P s) evs s' \<Longrightarrow> st_writing s \<Longrightarrow> steps P H s (EvTick # evs) s'"
  "steps P H (s\<lparr>st_cancelled := True\<rparr>) evs s' \<Longrightarrow> steps P H s (EvClose # evs) s'"
  "steps P H (s\<lparr>st_writing := False\<rparr>) evs s' \<Longrightarrow> st_cancelled s \<Longrightarrow> steps P H s (EvExit # evs) s'"
  by (auto intro!: More step.intros)

lemma fold_apply_good:
  "good_db m \<Longrightarrow> \<forall>t\<in>set ts. \<exists>i. wt_key t = orderKey i \<Longrightarrow> good_db (fold apply_task ts m)"
proof (induction ts arbitrary: m)
  case (Cons t ts)
  obtain i where i: "wt_key t = orderKey i" using Cons.prems(2) by auto
  have "good_db (apply_task t m)" using Cons.prems(1) i unfolding good_db_def apply_task_def by (auto split: if_splits)
  then show ?case using Cons by simp
qed simp

subsection \<open>Every step in order keeps the invariant\<close>

lemma update_store:
  assumes "store_inv P s" "st_started s' = st_started s @ [\<lparr>wt_key = orderKey i, wt_value = v\<rparr>]"
    and "st_batch s' = st_batch s" "st_writeCh s' = st_writeCh s" "st_db s' = st_db s" "st_accounts s' = st_accounts s" "st_count s' = st_count s"
    and "st_orders s' = (st_orders s)(i := w)" "v = None \<longleftrightarrow> w = None"
  shows "store_inv P s'"
proof -
  have "queued_tasks s' = queued_tasks s @ [\<lparr>wt_key = orderKey i, wt_value = v\<rparr>]" using assms(2-4) by (simp add: queued_tasks_def)
  moreover from this have "pending P s' = (pending P s)(orderKey i := v)" using assms(5) by (simp add: pending_def apply_task_def)
  ultimately show ?thesis using assms(1,3,5-) unfolding store_inv_def by (auto split: if_splits)
qed

lemma send_store:
  assumes "store_inv P s" "i < length (st_started s)" "in_order s (EvSend i)"
  shows "store_inv P (send_task i s)"
proof -
  let ?t = "st_started s ! i" and ?l = "take i (st_started s)" and ?r = "drop (Suc i) (st_started s)"
  have st: "st_started s = ?l @ [?t] @ ?r" using assms(2) by (simp add: id_take_nth_drop [symmetric])
  have "\<forall>u\<in>set ?l. wt_key u \<noteq> wt_key ?t" using assms(2,3) by (auto simp: in_order_def in_set_conv_nth)
  then have move: "apply_task ?t (fold apply_task ?l m) = fold apply_task ?l (apply_task ?t m)" for m by (rule fold_move)
  have q: "queued_tasks (send_task i s) = (st_batch s @ st_writeCh s) @ (?t # ?l) @ ?r"
    by (simp add: queued_tasks_def send_task_def)
  have q0: "queued_tasks s = (st_batch s @ st_writeCh s) @ (?l @ [?t]) @ ?r"
    unfolding queued_tasks_def by (subst st) simp
  have p: "pending P (send_task i s) = pending P s"
    unfolding pending_def q q0 by (simp add: move send_task_def)
  have "set (queued_tasks (send_task i s)) = set (queued_tasks s)" unfolding q q0 by auto
  then show ?thesis using assms(1) p unfolding store_inv_def by (simp add: send_task_def)
qed

lemma commit_store:
  assumes "kv_laws P" "store_inv P s"
  shows "store_inv P (commit_batch P s)"
proof -
  let ?m = "map_of (p_iter P (st_db s))"
  have db: "map_of (p_iter P (st_db (commit_batch P s))) = fold apply_task (st_batch s) ?m"
    using assms(1) by (simp add: commit_batch_def kv_laws_def)
  have ks: "\<forall>t\<in>set (st_batch s). \<exists>i. wt_key t = orderKey i" using assms(2) by (auto simp: store_inv_def queued_tasks_def)
  have "\<forall>t\<in>set (st_batch s). wt_key t \<noteq> accountKey i" for i using ks by force
  then have acc: "fold apply_task (st_batch s) ?m (accountKey i) = ?m (accountKey i)" for i by (rule fold_apply_other)
  have p: "pending P (commit_batch P s) = pending P s"
    unfolding pending_def db by (simp add: queued_tasks_def commit_batch_def)
  have "good_db (fold apply_task (st_batch s) ?m)" by (rule fold_apply_good [OF _ ks]) (use assms(2) in \<open>simp add: store_inv_def\<close>)
  then show ?thesis using assms(2) p acc unfolding store_inv_def db
    by (auto simp: commit_batch_def queued_tasks_def dom_def)
qed

lemma take_store:
  assumes "kv_laws P" "store_inv P s"
  shows "store_inv P (take_task P s)"
proof (cases "st_writeCh s")
  case Nil
  then show ?thesis using assms(2) by (simp add: take_task_def)
next
  case (Cons t ts)
  let ?s1 = "s\<lparr>st_writeCh := ts, st_batch := st_batch s @ [t], st_count := st_count s + 1\<rparr>"
  have "queued_tasks ?s1 = queued_tasks s" using Cons by (simp add: queued_tasks_def)
  then have "store_inv P ?s1" using assms(2) by (simp add: store_inv_def pending_def)
  then show ?thesis using commit_store [OF assms(1), of ?s1] Cons by (simp add: take_task_def Let_def)
qed

lemma save_store:
  assumes "kv_laws P" "store_inv P s" "length r = 32"
  shows "store_inv P (save_root P r s)"
proof -
  let ?m = "map_of (p_iter P (st_db s))"
  have db: "map_of (p_iter P (st_db (save_root P r s))) = ?m(RootKey \<mapsto> r)"
    using assms(1) by (simp add: save_root_def kv_laws_def apply_task_def)
  have q: "queued_tasks (save_root P r s) = queued_tasks s" by (simp add: queued_tasks_def save_root_def)
  have "\<forall>t\<in>set (queued_tasks s). wt_key t \<noteq> RootKey" using assms(2) unfolding store_inv_def by force
  then have "pending P (save_root P r s) = (pending P s)(RootKey \<mapsto> r)" unfolding pending_def q db by (rule fold_apply_upd)
  moreover have "good_db (?m(RootKey \<mapsto> r))" using assms(2,3) unfolding store_inv_def good_db_def by (auto split: if_splits)
  ultimately show ?thesis using assms(2) unfolding store_inv_def q db by (auto simp: save_root_def split: if_splits)
qed

text \<open>The stored root against the root in memory, between and within the phases of the calculator.\<close>

definition stored_root :: "'d pebble \<Rightarrow> 'd state \<Rightarrow> bytes" where
  "stored_root P s = (case map_of (p_iter P (st_db s)) RootKey of None \<Rightarrow> zero32 | Some v \<Rightarrow> v)"

definition root_inv :: "'d pebble \<Rightarrow> 'd state \<Rightarrow> bool" where
  "root_inv P s \<longleftrightarrow> length (st_currentRoot s) = 32 \<and> (case st_calc s of
     Idle \<Rightarrow> stored_root P s = st_currentRoot s
   | Hashed r \<Rightarrow> stored_root P s = st_currentRoot s \<and> length r = 32
   | Saving r \<Rightarrow> st_currentRoot s = r)"

lemma root_frame:
  assumes "root_inv P s" "st_currentRoot s' = st_currentRoot s" "st_calc s' = st_calc s" "stored_root P s' = stored_root P s"
  shows "root_inv P s'"
  using assms unfolding root_inv_def by (auto split: calc.splits)

lemma root_same_db:
  assumes "root_inv P s" "st_currentRoot s' = st_currentRoot s" "st_calc s' = st_calc s" "st_db s' = st_db s"
  shows "root_inv P s'"
  by (rule root_frame [OF assms(1-3)]) (simp add: stored_root_def assms(4))

lemma store_same:
  assumes "store_inv P s" "queued_tasks s' = queued_tasks s" "st_orders s' = st_orders s" "st_accounts s' = st_accounts s"
    "st_db s' = st_db s" "st_count s' = st_count s" "st_batch s' = st_batch s"
  shows "store_inv P s'"
  using assms unfolding store_inv_def pending_def by simp

lemma commit_stored:
  assumes "kv_laws P" "store_inv P s"
  shows "stored_root P (commit_batch P s) = stored_root P s"
proof -
  have "\<forall>t\<in>set (st_batch s). wt_key t \<noteq> RootKey" using assms(2) unfolding store_inv_def queued_tasks_def by force
  then have "fold apply_task (st_batch s) (map_of (p_iter P (st_db s))) RootKey = map_of (p_iter P (st_db s)) RootKey"
    by (rule fold_apply_other)
  then show ?thesis using assms(1) by (simp add: stored_root_def commit_batch_def kv_laws_def)
qed

definition state_inv :: "'d pebble \<Rightarrow> 'd state \<Rightarrow> bool" where
  "state_inv P s \<longleftrightarrow> store_inv P s \<and> root_inv P s"

lemma commit_state: "kv_laws P \<Longrightarrow> state_inv P s \<Longrightarrow> state_inv P (commit_batch P s)"
  unfolding state_inv_def
  by (intro conjI commit_store root_frame [of P s "commit_batch P s"] commit_stored) (simp_all add: commit_batch_def)

lemma take_state:
  assumes "kv_laws P" "state_inv P s"
  shows "state_inv P (take_task P s)"
proof (cases "st_writeCh s")
  case Nil
  then show ?thesis using assms(2) by (simp add: take_task_def)
next
  case (Cons t ts)
  let ?s1 = "s\<lparr>st_writeCh := ts, st_batch := st_batch s @ [t], st_count := st_count s + 1\<rparr>"
  have "queued_tasks ?s1 = queued_tasks s" using Cons by (simp add: queued_tasks_def)
  then have "store_inv P ?s1" using assms(2) by (simp add: state_inv_def store_inv_def pending_def)
  moreover have "root_inv P ?s1" by (rule root_frame [of P s]) (use assms(2) in \<open>simp_all add: state_inv_def stored_root_def\<close>)
  ultimately have "state_inv P ?s1" by (simp add: state_inv_def)
  then show ?thesis using commit_state [OF assms(1), of ?s1] Cons by (simp add: take_task_def Let_def)
qed

lemma save_state:
  assumes "kv_laws P" "state_inv P s" "st_calc s = Saving r"
  shows "state_inv P ((save_root P r s)\<lparr>st_calc := Idle\<rparr>)"
proof -
  have r: "length r = 32" "st_currentRoot s = r" using assms(2,3) by (auto simp: state_inv_def root_inv_def)
  have st: "store_inv P (save_root P r s)" by (rule save_store [OF assms(1) _ r(1)]) (use assms(2) in \<open>simp add: state_inv_def\<close>)
  have "stored_root P (save_root P r s) = r"
    using assms(1) by (simp add: stored_root_def save_root_def kv_laws_def apply_task_def)
  then show ?thesis using st r
    by (simp add: state_inv_def root_inv_def stored_root_def store_inv_def queued_tasks_def pending_def save_root_def)
qed

lemma step_state:
  assumes "step P H s ev s'" "kv_laws P" "digest H" "in_order s ev" "state_inv P s"
  shows "state_inv P s'"
  using assms
proof (induction rule: step.cases)
  case (Set s ord)
  have "store_inv P (State_SetOrder ord s)"
    by (rule update_store [of P s _ "so_ID ord" "Some (Order_Marshal ord)" "Some ord"]) (use Set in \<open>simp_all add: state_inv_def State_SetOrder_def\<close>)
  moreover have "root_inv P (State_SetOrder ord s)" by (rule root_same_db [of P s]) (use Set in \<open>simp_all add: state_inv_def State_SetOrder_def\<close>)
  ultimately show ?case using Set by (simp add: state_inv_def)
next
  case (Cancel s i)
  have "store_inv P (State_CancelOrder i s)"
    by (rule update_store [of P s _ i None None]) (use Cancel in \<open>simp_all add: state_inv_def State_CancelOrder_def\<close>)
  moreover have "root_inv P (State_CancelOrder i s)" by (rule root_same_db [of P s]) (use Cancel in \<open>simp_all add: state_inv_def State_CancelOrder_def\<close>)
  ultimately show ?case using Cancel by (simp add: state_inv_def)
next
  case (Send i s)
  have "root_inv P (send_task i s)" by (rule root_same_db [of P s]) (use Send in \<open>simp_all add: state_inv_def send_task_def\<close>)
  then show ?case using Send send_store [of P s i] by (simp add: state_inv_def)
next
  case (Take s)
  then show ?case using take_state [of P s] by simp
next
  case (Tick s)
  then show ?case using commit_state [of P s] by (simp add: writer_tick_def)
next
  case (Exit s)
  have "root_inv P (s\<lparr>st_writing := False\<rparr>)" by (rule root_same_db [of P s]) (use Exit in \<open>simp_all add: state_inv_def\<close>)
  moreover have "store_inv P (s\<lparr>st_writing := False\<rparr>)" by (rule store_same [of P s]) (use Exit in \<open>simp_all add: state_inv_def queued_tasks_def\<close>)
  ultimately show ?case using Exit by (simp add: state_inv_def)
next
  case (Collect s accs ords es)
  let ?s = "s\<lparr>st_calc := Hashed (entries_root H es)\<rparr>"
  have "length (entries_root H es) = 32" using Collect by (simp add: entries_root_def digest_def)
  then have "root_inv P ?s" using Collect by (simp add: state_inv_def root_inv_def stored_root_def)
  moreover have "store_inv P ?s" by (rule store_same [of P s]) (use Collect in \<open>simp_all add: state_inv_def queued_tasks_def\<close>)
  ultimately show ?case using Collect by (simp add: state_inv_def)
next
  case (Publish s r)
  let ?s = "(publish_root r s)\<lparr>st_calc := Saving r\<rparr>"
  have "root_inv P ?s" using Publish by (simp add: state_inv_def root_inv_def publish_root_def)
  moreover have "store_inv P ?s" by (rule store_same [of P s]) (use Publish in \<open>simp_all add: state_inv_def queued_tasks_def publish_root_def\<close>)
  ultimately show ?case using Publish by (simp add: state_inv_def)
next
  case (Save s r)
  then show ?case using save_state [of P s r] by simp
next
  case (Close s)
  have "root_inv P (s\<lparr>st_cancelled := True\<rparr>)" by (rule root_same_db [of P s]) (use Close in \<open>simp_all add: state_inv_def\<close>)
  moreover have "store_inv P (s\<lparr>st_cancelled := True\<rparr>)" by (rule store_same [of P s]) (use Close in \<open>simp_all add: state_inv_def queued_tasks_def\<close>)
  ultimately show ?case using Close by (simp add: state_inv_def)
qed

lemma fifo_state:
  assumes "fifo_steps P H s evs s'" "kv_laws P" "digest H" "state_inv P s"
  shows "state_inv P s'"
  using assms by (induction rule: fifo_steps.induct) (auto dest: step_state)

lemma loaded_fields:
  assumes "loads m (empty_state d) s"
  shows "st_db s = d" "st_batch s = []" "st_writeCh s = []" "st_started s = []" "st_count s = 0" "st_calc s = Idle" "st_writing s"
proof -
  have r: "rest s = rest (empty_state d)" using assms by (simp add: loads_def)
  have "st_db s = st_db (rest s)" "st_batch s = st_batch (rest s)" "st_writeCh s = st_writeCh (rest s)"
    "st_started s = st_started (rest s)" "st_count s = st_count (rest s)" "st_calc s = st_calc (rest s)"
    "st_writing s = st_writing (rest s)" by (simp_all add: rest_def)
  then show "st_db s = d" "st_batch s = []" "st_writeCh s = []" "st_started s = []" "st_count s = 0" "st_calc s = Idle" "st_writing s"
    unfolding r by (simp_all add: rest_def empty_state_def)
qed

lemma loaded_state:
  assumes "kv_laws P" "good_db (map_of (p_iter P d))" "NewState P d = Some s"
  shows "state_inv P s"
proof -
  have l: "loads (map_of (p_iter P d)) (empty_state d) s" using NewState_ok [OF assms(1,2)] assms(3) by simp
  note f = loaded_fields [OF l]
  have "length (st_currentRoot s) = 32 \<and> stored_root P s = st_currentRoot s"
    using l assms(2) f(1) unfolding loads_def stored_root_def good_db_def
    by (auto simp: empty_state_def dom_def split: option.splits)
  then show ?thesis using loads_dom [OF l] assms(2) f
    by (simp add: state_inv_def store_inv_def root_inv_def pending_def queued_tasks_def empty_state_def)
qed

subsection \<open>Restart\<close>

text \<open>C19. When the writes of every key are sent in the order of the calls, a restart after the writer has
  caught up finds the same root and an order or account under exactly the IDs that memory had, but nothing of
  their contents: every loaded order has instrument, side, price and quantity zero, and every loaded account the
  empty name, whatever they were.\<close>

theorem restart_recovers_state:
  assumes "kv_laws P" "digest H" "good_db (map_of (p_iter P d))" "NewState P d = Some s0" "fifo_steps P H s0 evs s"
    and "st_started s = []" "st_writeCh s = []" "st_batch s = []" "st_calc s = Idle"
  shows "\<exists>s'. NewState P (st_db s) = Some s' \<and> st_currentRoot s' = st_currentRoot s
    \<and> (\<forall>i. st_orders s' i = map_option (\<lambda>_. \<lparr>so_ID = i, so_InstrumentID = 0, so_Side = 0, so_Price = 0, so_Qty = 0\<rparr>) (st_orders s i))
    \<and> (\<forall>i. st_accounts s' i = map_option (\<lambda>_. \<lparr>sa_ID = i, sa_Name = []\<rparr>) (st_accounts s i))"
proof -
  have inv: "state_inv P s" by (rule fifo_state [OF assms(5,1,2) loaded_state [OF assms(1,3,4)]])
  then have g: "good_db (map_of (p_iter P (st_db s)))" by (simp add: state_inv_def store_inv_def)
  obtain s' where s': "NewState P (st_db s) = Some s'" "loads (map_of (p_iter P (st_db s))) (empty_state (st_db s)) s'"
    using NewState_ok [OF assms(1) g] by blast
  have "stored_root P s = st_currentRoot s" using inv assms(9) by (simp add: state_inv_def root_inv_def)
  then have "st_currentRoot s' = st_currentRoot s"
    using s'(2) by (simp add: loads_def stored_root_def empty_state_def split: option.splits)
  moreover have dom: "orderKey i \<in> dom (map_of (p_iter P (st_db s))) \<longleftrightarrow> st_orders s i \<noteq> None"
    "accountKey i \<in> dom (map_of (p_iter P (st_db s))) \<longleftrightarrow> st_accounts s i \<noteq> None" for i
    using inv assms(6-8) by (simp_all add: state_inv_def store_inv_def pending_def queued_tasks_def domIff)
  have "st_orders s' i = map_option (\<lambda>_. loaded_order i) (st_orders s i)"
    "st_accounts s' i = map_option (\<lambda>_. loaded_account i) (st_accounts s i)" for i
    using s'(2) dom [of i] by (cases "st_orders s i"; cases "st_accounts s i"; simp add: loads_def empty_state_def)+
  ultimately show ?thesis using s'(1) by (auto simp: loaded_order_def loaded_account_def)
qed

lemma demo_empty: "good_db (map_of (p_iter demo_kv []))" "NewState demo_kv [] = Some (empty_state [])"
  by (simp_all add: good_db_def demo_kv_def NewState_def)

definition demo_order :: "u64 \<Rightarrow> st_order" where
  "demo_order i = \<lparr>so_ID = i, so_InstrumentID = 1, so_Side = 0, so_Price = 100, so_Qty = 5\<rparr>"

text \<open>Two orders, one cancelled: written, hashed and saved.\<close>

definition demo_state :: "(bytes \<times> bytes) list state" where
  "demo_state = writer_tick demo_kv (take_task demo_kv (take_task demo_kv (take_task demo_kv
    (send_task 0 (send_task 0 (send_task 0 (State_CancelOrder 1 (State_SetOrder (demo_order 2) (State_SetOrder (demo_order 1) (empty_state []))))))))))"

lemma demo_fifo:
  "fifo_steps demo_kv (\<lambda>b. zero32) (empty_state [])
    [EvSet (demo_order 1), EvSet (demo_order 2), EvCancel 1, EvSend 0, EvSend 0, EvSend 0, EvTake, EvTake, EvTake, EvTick] demo_state"
  unfolding demo_state_def
  by (intro step_fifo FDone) (simp_all add: in_order_def empty_state_def State_SetOrder_def State_CancelOrder_def send_task_def take_task_def BatchSize_def)

theorem restart_recovers_state_witness:
  "st_orders demo_state 2 = Some \<lparr>so_ID = 2, so_InstrumentID = 1, so_Side = 0, so_Price = 100, so_Qty = 5\<rparr> \<and>
    (\<exists>s'. NewState demo_kv (st_db demo_state) = Some s' \<and> st_orders s' 1 = None \<and>
      st_orders s' 2 = Some \<lparr>so_ID = 2, so_InstrumentID = 0, so_Side = 0, so_Price = 0, so_Qty = 0\<rparr>)"
proof -
  have d: "digest (\<lambda>b. zero32)" by (simp add: digest_def)
  have "st_started demo_state = []" "st_writeCh demo_state = []" "st_batch demo_state = []" "st_calc demo_state = Idle"
    "st_orders demo_state 2 = Some (demo_order 2)" "st_orders demo_state 1 = None"
    by (simp_all add: demo_state_def empty_state_def State_SetOrder_def State_CancelOrder_def send_task_def take_task_def writer_tick_def
        commit_batch_def BatchSize_def demo_order_def)
  then show ?thesis using restart_recovers_state [OF demo_kv_laws d demo_empty demo_fifo]
    by (auto simp: demo_order_def)
qed

text \<open>The goroutines of two calls may send in reverse order. Then an order that was set and cancelled is
  back after a restart, although the writer has caught up.\<close>

theorem cancelled_order_returns:
  assumes "kv_laws P" "good_db (map_of (p_iter P d))" "NewState P d = Some s0"
  shows "\<exists>s s'. steps P H s0 [EvSet ord, EvCancel (so_ID ord), EvSend 1, EvSend 0, EvTake, EvTake, EvTick] s \<and>
    st_started s = [] \<and> st_writeCh s = [] \<and> st_batch s = [] \<and> so_ID ord \<notin> dom (st_orders s) \<and>
    NewState P (st_db s) = Some s' \<and> so_ID ord \<in> dom (st_orders s')"
proof -
  have l: "loads (map_of (p_iter P d)) (empty_state d) s0" using NewState_ok [OF assms(1,2)] assms(3) by simp
  note f = loaded_fields [OF l]
  let ?k = "orderKey (so_ID ord)"
  let ?ts = "[\<lparr>wt_key = ?k, wt_value = None\<rparr>, \<lparr>wt_key = ?k, wt_value = Some (Order_Marshal ord)\<rparr>]"
  let ?s = "writer_tick P (take_task P (take_task P (send_task 0 (send_task 1 (State_CancelOrder (so_ID ord) (State_SetOrder ord s0))))))"
  note ops = State_SetOrder_def State_CancelOrder_def send_task_def take_task_def writer_tick_def commit_batch_def BatchSize_def
  have run: "steps P H s0 [EvSet ord, EvCancel (so_ID ord), EvSend 1, EvSend 0, EvTake, EvTake, EvTick] ?s"
    by (intro step_run Done) (simp_all add: ops f)
  have end_state: "st_started ?s = []" "st_writeCh ?s = []" "st_batch ?s = []" "so_ID ord \<notin> dom (st_orders ?s)" "st_db ?s = p_commit P ?ts d"
    by (simp_all add: ops f)
  have db: "map_of (p_iter P (p_commit P ?ts d)) = fold apply_task ?ts (map_of (p_iter P d))" using assms(1) by (simp add: kv_laws_def)
  have "good_db (map_of (p_iter P (p_commit P ?ts d)))" unfolding db by (rule fold_apply_good [OF assms(2)]) simp
  then obtain s' where s': "NewState P (p_commit P ?ts d) = Some s'" "loads (map_of (p_iter P (p_commit P ?ts d))) (empty_state (p_commit P ?ts d)) s'"
    using NewState_ok [OF assms(1)] by blast
  have "?k \<in> dom (map_of (p_iter P (p_commit P ?ts d)))" unfolding db by (simp add: apply_task_def)
  then have "so_ID ord \<in> dom (st_orders s')" using loads_dom(1) [OF s'(2)] by simp
  then have "NewState P (st_db ?s) = Some s' \<and> so_ID ord \<in> dom (st_orders s')" using s'(1) unfolding end_state(5) by simp
  then show ?thesis using run end_state(1-4) by blast
qed

theorem cancelled_order_returns_witness:
  "\<exists>s s'. steps demo_kv (\<lambda>b. zero32) (empty_state []) [EvSet (demo_order 7), EvCancel 7, EvSend 1, EvSend 0, EvTake, EvTake, EvTick] s \<and>
    st_orders s 7 = None \<and> NewState demo_kv (st_db s) = Some s' \<and> 7 \<in> dom (st_orders s')"
  using cancelled_order_returns [OF demo_kv_laws demo_empty, of "\<lambda>b. zero32" "demo_order 7"] by (auto simp: demo_order_def dom_def)

subsection \<open>The writer stops\<close>

text \<open>When the writer has noticed the cancellation of \<^verbatim>\<open>Close\<close>, nothing that is still in its batch, in the
  channel or in a goroutine ever reaches the database: only the root key can change.\<close>

theorem stopped_writer_stores_nothing:
  assumes "kv_laws P" "\<not> st_writing s" "steps P H s evs s'" "k \<noteq> RootKey"
  shows "map_of (p_iter P (st_db s')) k = map_of (p_iter P (st_db s)) k"
proof -
  have one: "\<not> st_writing s1 \<and> map_of (p_iter P (st_db s1)) k = map_of (p_iter P (st_db s)) k"
    if "step P H s ev s1" "\<not> st_writing s" for s ev s1
    using that assms(1,4)
    by (cases rule: step.cases) (auto simp: State_SetOrder_def State_CancelOrder_def send_task_def publish_root_def save_root_def kv_laws_def apply_task_def)
  from assms(3,2) show ?thesis by (induction rule: steps.induct) (auto dest: one)
qed

theorem stopped_writer_stores_nothing_witness:
  "\<exists>s. steps demo_kv (\<lambda>b. zero32) (empty_state []) [EvSet (demo_order 7), EvSend 0, EvTake, EvClose, EvExit] s \<and>
    7 \<in> dom (st_orders s) \<and> (\<forall>evs s'. steps demo_kv (\<lambda>b. zero32) s evs s' \<longrightarrow> map_of (p_iter demo_kv (st_db s')) (orderKey 7) = None)"
proof -
  let ?s = "(take_task demo_kv (send_task 0 (State_SetOrder (demo_order 7) (empty_state []))))\<lparr>st_cancelled := True, st_writing := False\<rparr>"
  note ops = State_SetOrder_def send_task_def take_task_def empty_state_def BatchSize_def
  have run: "steps demo_kv (\<lambda>b. zero32) (empty_state []) [EvSet (demo_order 7), EvSend 0, EvTake, EvClose, EvExit] ?s"
    by (intro step_run Done) (simp_all add: ops)
  have s: "7 \<in> dom (st_orders ?s)" "\<not> st_writing ?s" "map_of (p_iter demo_kv (st_db ?s)) (orderKey 7) = None"
    by (simp_all add: ops demo_order_def demo_kv_def)
  have "map_of (p_iter demo_kv (st_db s')) (orderKey 7) = None" if "steps demo_kv (\<lambda>b. zero32) ?s evs s'" for evs s'
    using stopped_writer_stores_nothing [OF demo_kv_laws s(2) that, of "orderKey 7"] s(3) by simp
  then show ?thesis using run s(1) by blast
qed

subsection \<open>The periodic root\<close>

lemma entry_bytes_inject:
  "entry_bytes (order_entry s i) @ x = entry_bytes (order_entry s' j) @ y \<longleftrightarrow>
    i = j \<and> (i \<in> dom (st_orders s) \<longleftrightarrow> j \<in> dom (st_orders s')) \<and> x = y"
proof -
  have key: "orderKey i @ u = orderKey j @ v \<longleftrightarrow> i = j \<and> u = v" for u v
    using entity_key_split [of "Order i" u "Order j" v] by simp
  show ?thesis
    by (cases "st_orders s i"; cases "st_orders s' j")
      (auto simp: entry_bytes_def order_entry_def key Order_Marshal_def ascii_def)
qed

text \<open>The changes that a round of the calculator hashes: the dirty orders, each alive or deleted.\<close>

definition changes :: "u64 list \<Rightarrow> 'd state \<Rightarrow> (u64 \<times> bool) set" where
  "changes ords s = (\<lambda>i. (i, i \<in> dom (st_orders s))) ` set ords"

lemma insort_key_map: "insort_key f (g x) (map g ys) = map g (insort_key (\<lambda>a. f (g a)) x ys)"
  by (induction ys) simp_all

lemma sort_key_map: "sort_key f (map g xs) = map g (sort_key (\<lambda>a. f (g a)) xs)"
  by (induction xs) (simp_all add: insort_key_map)

lemma concat_entries:
  "concat (map (\<lambda>i. entry_bytes (order_entry s i)) xs) = concat (map (\<lambda>i. entry_bytes (order_entry s' i)) ys) \<Longrightarrow>
    map (\<lambda>i. (i, i \<in> dom (st_orders s))) xs = map (\<lambda>i. (i, i \<in> dom (st_orders s'))) ys"
proof (induction xs arbitrary: ys)
  case Nil
  then show ?case by (cases ys) (simp_all add: entry_bytes_def order_entry_def orderKey_def)
next
  case (Cons x xs)
  have "ys \<noteq> []" using Cons.prems by (auto simp: entry_bytes_def order_entry_def orderKey_def)
  then obtain y zs where ys: "ys = y # zs" by (cases ys) auto
  have "entry_bytes (order_entry s x) @ concat (map (\<lambda>i. entry_bytes (order_entry s i)) xs) =
      entry_bytes (order_entry s' y) @ concat (map (\<lambda>i. entry_bytes (order_entry s' i)) zs)"
    using Cons.prems by (simp add: ys)
  then have eq: "x = y \<and> (x \<in> dom (st_orders s) \<longleftrightarrow> y \<in> dom (st_orders s')) \<and>
    concat (map (\<lambda>i. entry_bytes (order_entry s i)) xs) = concat (map (\<lambda>i. entry_bytes (order_entry s' i)) zs)"
    by (rule iffD1 [OF entry_bytes_inject])
  then have "map (\<lambda>i. (i, i \<in> dom (st_orders s))) xs = map (\<lambda>i. (i, i \<in> dom (st_orders s'))) zs" using Cons.IH [of zs] by blast
  then show ?case unfolding ys list.map using eq by blast
qed

definition root_input :: "entry list \<Rightarrow> bytes" where
  "root_input es = concat (map entry_bytes (sort_key fst es))"

lemma root_of_input: "entries_root H es = H (root_input es)"
  by (simp add: entries_root_def root_input_def)

lemma root_input_orders:
  "root_input (collect_entries [] ords s) = concat (map (\<lambda>i. entry_bytes (order_entry s i)) (sort_key (\<lambda>i. fst (order_entry s i)) ords))"
  by (simp add: root_input_def collect_entries_def sort_key_map comp_def)

lemma changes_sort: "changes ords s = set (map (\<lambda>i. (i, i \<in> dom (st_orders s))) (sort_key (\<lambda>i. fst (order_entry s i)) ords))"
  by (simp add: changes_def)

lemma distinct_entries: "distinct zs \<Longrightarrow> distinct (map fst (map (order_entry st) zs))"
  by (simp add: distinct_map inj_on_def order_entry_def comp_def)

lemma same_changes:
  assumes "changes xs s = changes ys s'" "distinct xs" "distinct ys"
  shows "root_input (collect_entries [] xs s) = root_input (collect_entries [] ys s')"
proof -
  have "fst ` changes xs s = fst ` changes ys s'" by (simp only: assms(1))
  then have ids: "set xs = set ys" by (simp add: changes_def image_image)
  have alive: "i \<in> dom (st_orders s) \<longleftrightarrow> i \<in> dom (st_orders s')" if i: "i \<in> set xs" for i
  proof -
    have "(i, i \<in> dom (st_orders s)) \<in> changes xs s" unfolding changes_def using i by (rule imageI)
    then have "(i, i \<in> dom (st_orders s)) \<in> changes ys s'" by (simp only: assms(1))
    then show ?thesis by (auto simp: changes_def)
  qed
  have "order_entry s i = order_entry s' i" if "i \<in> set xs" for i
    using alive [OF that] by (cases "st_orders s i"; cases "st_orders s' i") (auto simp: order_entry_def Order_Marshal_def)
  then have "order_entry s ` set xs = order_entry s' ` set ys" unfolding ids [symmetric] by (rule image_cong [OF refl])
  then have "set (map (order_entry s) xs) = set (map (order_entry s') ys)" by simp
  then have "sort_key fst (map (order_entry s) xs) = sort_key fst (map (order_entry s') ys)"
    by (rule sort_key_unique [OF _ distinct_entries [OF assms(2)] distinct_entries [OF assms(3)]])
  then show ?thesis by (simp add: root_input_def collect_entries_def)
qed

text \<open>A round's root does not depend on the iteration order of the maps, and without a collision it
  determines which orders were changed and which of them are alive. It says nothing about the rest of
  the state. Only orders are ever marked dirty.\<close>

theorem root_commits_to_changes:
  assumes "distinct xs" "distinct ys" "inj_on H {root_input (collect_entries [] xs s), root_input (collect_entries [] ys s')}"
  shows "entries_root H (collect_entries [] xs s) = entries_root H (collect_entries [] ys s') \<longleftrightarrow> changes xs s = changes ys s'"
proof
  assume "entries_root H (collect_entries [] xs s) = entries_root H (collect_entries [] ys s')"
  then have "root_input (collect_entries [] xs s) = root_input (collect_entries [] ys s')"
    unfolding root_of_input by (rule inj_onD [OF assms(3)]) simp_all
  then have "map (\<lambda>i. (i, i \<in> dom (st_orders s))) (sort_key (\<lambda>i. fst (order_entry s i)) xs) =
      map (\<lambda>i. (i, i \<in> dom (st_orders s'))) (sort_key (\<lambda>i. fst (order_entry s' i)) ys)"
    unfolding root_input_orders by (rule concat_entries)
  then show "changes xs s = changes ys s'" unfolding changes_sort by simp
next
  assume "changes xs s = changes ys s'"
  then show "entries_root H (collect_entries [] xs s) = entries_root H (collect_entries [] ys s')"
    unfolding root_of_input by (simp only: same_changes [OF _ assms(1,2)])
qed

theorem root_commits_to_changes_witness:
  "entries_root id (collect_entries [] [2, 1] demo_state) = entries_root id (collect_entries [] [1, 2] demo_state) \<and>
    entries_root id (collect_entries [] [1, 2] demo_state) \<noteq> entries_root id (collect_entries [] [1, 2] (empty_state ([] :: (bytes \<times> bytes) list)))"
proof
  have c: "changes [2, 1] demo_state = changes [1, 2] demo_state" by (auto simp: changes_def)
  show "entries_root id (collect_entries [] [2, 1] demo_state) = entries_root id (collect_entries [] [1, 2] demo_state)"
    using root_commits_to_changes [of "[2, 1]" "[1, 2]" id demo_state demo_state] c by simp
  have "(2, True) \<in> changes [1, 2] demo_state"
    by (simp add: changes_def demo_state_def empty_state_def State_SetOrder_def State_CancelOrder_def send_task_def take_task_def writer_tick_def
        commit_batch_def BatchSize_def demo_order_def)
  moreover have "(2, True) \<notin> changes [1, 2] (empty_state ([] :: (bytes \<times> bytes) list))" by (simp add: changes_def empty_state_def)
  ultimately have "changes [1, 2] demo_state \<noteq> changes [1, 2] (empty_state ([] :: (bytes \<times> bytes) list))" by metis
  then show "entries_root id (collect_entries [] [1, 2] demo_state) \<noteq> entries_root id (collect_entries [] [1, 2] (empty_state ([] :: (bytes \<times> bytes) list)))"
    using root_commits_to_changes [of "[1, 2]" "[1, 2]" id demo_state "empty_state ([] :: (bytes \<times> bytes) list)"] by simp
qed

text \<open>An order set while the calculator hashes, outside the lock, loses its dirty mark: the published
  root does not cover it, and later rounds find nothing to hash.\<close>

theorem update_while_hashing_is_forgotten:
  assumes "step P H s (EvCollect accs ords) s1" "st_calc s1 = Hashed r" "st_calc s = Idle"
  shows "\<exists>s2. steps P H s1 [EvSet ord, EvPublish, EvSave] s2 \<and> st_orders s2 (so_ID ord) = Some ord \<and> st_dirtyOrders s2 = {} \<and>
    st_currentRoot s2 = copy_to (st_currentRoot s) (entries_root H (collect_entries accs ords s)) \<and>
    (\<forall>accs' ords' s3. step P H s2 (EvCollect accs' ords') s3 \<longrightarrow> s3 = s2)"
proof -
  let ?es = "collect_entries accs ords s"
  have s1: "s1 = s\<lparr>st_calc := Hashed (entries_root H ?es)\<rparr>" and r: "r = entries_root H ?es"
    using assms by (auto simp: event_simps split: if_splits)
  let ?s2 = "(save_root P r ((publish_root r (State_SetOrder ord s1))\<lparr>st_calc := Saving r\<rparr>))\<lparr>st_calc := Idle\<rparr>"
  have "step P H s1 (EvSet ord) (State_SetOrder ord s1)" by (rule step.Set)
  moreover have "step P H (State_SetOrder ord s1) EvPublish ((publish_root r (State_SetOrder ord s1))\<lparr>st_calc := Saving r\<rparr>)"
    by (rule step.Publish) (simp add: State_SetOrder_def s1 r)
  moreover have "step P H ((publish_root r (State_SetOrder ord s1))\<lparr>st_calc := Saving r\<rparr>) EvSave ?s2" by (rule step.Save) simp
  ultimately have "steps P H s1 [EvSet ord, EvPublish, EvSave] ?s2"
    by (rule More [OF _ More [OF _ More [OF _ Done]]])
  moreover have "st_dirtyOrders ?s2 = {}" "st_dirtyAccounts ?s2 = {}" "st_orders ?s2 (so_ID ord) = Some ord"
    "st_currentRoot ?s2 = copy_to (st_currentRoot s) (entries_root H ?es)"
    by (simp_all add: save_root_def publish_root_def State_SetOrder_def s1 r)
  moreover from this have "step P H ?s2 (EvCollect accs' ords') s3 \<Longrightarrow> s3 = ?s2" for accs' ords' s3
    by (auto simp: event_simps collect_entries_def)
  ultimately show ?thesis by blast
qed

theorem update_while_hashing_is_forgotten_witness:
  "\<exists>s1 s2. step demo_kv id (State_SetOrder (demo_order 1) (empty_state [])) (EvCollect [] [1]) s1 \<and>
    steps demo_kv id s1 [EvSet (demo_order 2), EvPublish, EvSave] s2 \<and> 2 \<in> dom (st_orders s2) \<and> st_dirtyOrders s2 = {} \<and>
    (\<forall>accs ords s3. step demo_kv id s2 (EvCollect accs ords) s3 \<longrightarrow> s3 = s2)"
proof -
  let ?s = "State_SetOrder (demo_order 1) (empty_state []) :: (bytes \<times> bytes) list state"
  let ?s1 = "?s\<lparr>st_calc := Hashed (entries_root id (collect_entries [] [1] ?s))\<rparr>"
  have one: "step demo_kv id ?s (EvCollect [] [1]) ?s1"
    by (simp add: event_simps collect_entries_def) (simp add: State_SetOrder_def empty_state_def demo_order_def)
  have "st_calc ?s1 = Hashed (entries_root id (collect_entries [] [1] ?s))" "st_calc ?s = Idle" by (simp_all add: State_SetOrder_def empty_state_def)
  from update_while_hashing_is_forgotten [OF one this, of "demo_order 2"]
  show ?thesis using one by (auto simp: demo_order_def dom_def)
qed

end
