(* ===== verification/Snapshot.thy ===== *)
theory Snapshot
  imports Manager Pebble
begin

text \<open>
  Snapshots of a tree manager: \<^verbatim>\<open>mt-manager/merkletree/snapshot.go\<close> and \<^verbatim>\<open>snapshot_storage.go\<close>.

  \<^item> Pebble is the parameter \<open>P\<close>, MessagePack the parameters \<open>marshal\<close> and \<open>unmarshal\<close>. A database that
    answers with an error other than "not found" is not modelled.
  \<^item> The outer option is a panic, the sum an \<^verbatim>\<open>error\<close>. Goroutines that read or build one tree each do not
    interact, so they run in list order; \<open>ord\<close> is the order in which \<^verbatim>\<open>sync.Map.Range\<close> visits the items.
  \<^item> \<^verbatim>\<open>RootHash\<close> and \<^verbatim>\<open>ItemCount\<close> of a tree snapshot are never set. Metrics and the options are left out.
\<close>

subsection \<open>Keys and metadata\<close>

definition prefixSnapshotMeta :: bytes where "prefixSnapshotMeta = ascii ''snap:meta:''"
definition prefixSnapshotTree :: bytes where "prefixSnapshotTree = ascii ''snap:tree:''"
definition prefixGlobalMeta :: bytes where "prefixGlobalMeta = ascii ''global:''"

definition global_first_key :: bytes where "global_first_key = prefixGlobalMeta @ ascii ''first''"
definition global_last_key :: bytes where "global_last_key = prefixGlobalMeta @ ascii ''last''"
definition global_count_key :: bytes where "global_count_key = prefixGlobalMeta @ ascii ''count''"

text \<open>\<^verbatim>\<open>%x\<close> of a byte array.\<close>

definition hex_digit :: "u8 \<Rightarrow> u8" where
  "hex_digit d = (if d < 10 then 48 + d else 87 + d)"

definition hex :: "bytes \<Rightarrow> bytes" where
  "hex bs = concat (map (\<lambda>b. [hex_digit (drop_bit 4 b), hex_digit (b AND 15)]) bs)"

definition go_string :: "bytes \<Rightarrow> string" where
  "go_string bs = map (\<lambda>b. char_of (unat b)) bs"

definition makeSnapshotMetaKey :: "bytes \<Rightarrow> bytes" where
  "makeSnapshotMetaKey version = prefixSnapshotMeta @ version"

definition tree_key_prefix :: "bytes \<Rightarrow> bytes" where
  "tree_key_prefix version = prefixSnapshotTree @ hex version @ ascii '':''"

definition makeSnapshotTreeKey :: "bytes \<Rightarrow> string \<Rightarrow> bytes" where
  "makeSnapshotTreeKey version treeName = tree_key_prefix version @ ascii treeName"

definition encodeSnapshotMeta :: "bytes \<Rightarrow> u64 \<Rightarrow> nat \<Rightarrow> bytes" where
  "encodeSnapshotMeta version timestamp treeCount =
    version @ be_bytes 8 timestamp @ be_bytes 4 (of_nat treeCount :: u32)"

definition decodeSnapshotMeta :: "bytes \<Rightarrow> (bytes \<times> u64 \<times> nat) option" where
  "decodeSnapshotMeta data =
    (if length data < 44 then None
     else Some (go_slice 0 32 data, be_word (go_slice 32 8 data), unat (be_word (go_slice 40 4 data) :: u32)))"

subsection \<open>Storage\<close>

record tree_snapshot =
  ts_TreeID :: string
  ts_Items :: "bytes list"

record snapshot =
  sn_SchemaVersion :: nat
  sn_Version :: bytes
  sn_Timestamp :: u64
  sn_TreeCount :: nat
  sn_Trees :: "(string \<times> tree_snapshot) list"

record snapshot_metadata =
  md_FirstVersion :: bytes
  md_LastVersion :: bytes
  md_Count :: nat
  md_TotalSize :: nat

datatype snapshot_error =
    NoSnapshots
  | SnapshotNotFound bytes
  | TreeUnreadable string
  | UnsupportedSchema nat
  | MarshalFailed string
  | UnmarshalFailed string

definition CurrentSchemaVersion :: nat where
  "CurrentSchemaVersion = 1"

definition listSnapshotTrees :: "'d pebble \<Rightarrow> bytes \<Rightarrow> 'd \<Rightarrow> string list" where
  "listSnapshotTrees P version d =
    (let prefix = tree_key_prefix version
     in map (\<lambda>(key, _). go_string (drop (length prefix) key)) (kv_range P prefix (prefix @ [0xFF]) d))"

definition read_count :: "'d pebble \<Rightarrow> 'd \<Rightarrow> u32 option" where
  "read_count P d = (case kv_get P global_count_key d of
     None \<Rightarrow> Some 0
   | Some data \<Rightarrow> if length data < 4 then None else Some (be_word (take 4 data)))"

definition incrementCount :: "'d pebble \<Rightarrow> 'd \<Rightarrow> write_task option" where
  "incrementCount P d = map_option (\<lambda>count. put_task global_count_key (be_bytes 4 (count + 1))) (read_count P d)"

definition decrementCount :: "'d pebble \<Rightarrow> 'd \<Rightarrow> write_task option" where
  "decrementCount P d = map_option (\<lambda>count. put_task global_count_key (be_bytes 4 (if count > 0 then count - 1 else count)))
     (read_count P d)"

definition updateGlobalMeta :: "'d pebble \<Rightarrow> bytes \<Rightarrow> 'd \<Rightarrow> write_task list option" where
  "updateGlobalMeta P version d =
    (let isFirst = kv_get P global_first_key d = None
     in map_option (\<lambda>inc. (if isFirst then [put_task global_first_key version] else []) @ [put_task global_last_key version] @ [inc])
          (incrementCount P d))"

definition SaveSnapshot :: "'d pebble \<Rightarrow> bytes \<Rightarrow> u64 \<Rightarrow> (string \<times> bytes) list \<Rightarrow> 'd \<Rightarrow> 'd option" where
  "SaveSnapshot P version timestamp trees d =
    map_option (\<lambda>global. p_commit P
        ([put_task (makeSnapshotMetaKey version) (encodeSnapshotMeta version timestamp (length trees))] @
         map (\<lambda>(treeName, treeData). put_task (makeSnapshotTreeKey version treeName) treeData) trees @ global) d)
      (updateGlobalMeta P version d)"

definition getLastVersion :: "'d pebble \<Rightarrow> 'd \<Rightarrow> bytes option" where
  "getLastVersion P d = map_option (copy_to zero32) (kv_get P global_last_key d)"

fun read_trees :: "'d pebble \<Rightarrow> bytes \<Rightarrow> 'd \<Rightarrow> string list \<Rightarrow> snapshot_error + (string \<times> tree_snapshot) list" where
  "read_trees P version d [] = Inr []"
| "read_trees P version d (name # names) = (case kv_get P (makeSnapshotTreeKey version name) d of
     None \<Rightarrow> Inl (TreeUnreadable name)
   | Some treeData \<Rightarrow> map_sum id (\<lambda>ts. (name, \<lparr>ts_TreeID = name, ts_Items = [treeData]\<rparr>) # ts) (read_trees P version d names))"

definition storage_LoadSnapshot :: "'d pebble \<Rightarrow> bytes option \<Rightarrow> 'd \<Rightarrow> (snapshot_error + snapshot) option" where
  "storage_LoadSnapshot P version d =
    (case (case version of None \<Rightarrow> getLastVersion P d | Some v \<Rightarrow> Some v) of
       None \<Rightarrow> Some (Inl NoSnapshots)
     | Some target \<Rightarrow> (case kv_get P (makeSnapshotMetaKey target) d of
         None \<Rightarrow> Some (Inl (SnapshotNotFound target))
       | Some metaData \<Rightarrow> (case decodeSnapshotMeta metaData of
           None \<Rightarrow> None
         | Some (ver, timestamp, treeCount) \<Rightarrow> Some (map_sum id
             (\<lambda>trees. \<lparr>sn_SchemaVersion = CurrentSchemaVersion, sn_Version = ver, sn_Timestamp = timestamp,
                sn_TreeCount = treeCount, sn_Trees = trees\<rparr>)
             (read_trees P target d (listSnapshotTrees P target d))))))"

definition GetMetadata :: "'d pebble \<Rightarrow> 'd \<Rightarrow> snapshot_metadata option" where
  "GetMetadata P d = map_option (\<lambda>count.
     \<lparr>md_FirstVersion = (case kv_get P global_first_key d of None \<Rightarrow> zero32 | Some v \<Rightarrow> copy_to zero32 v),
      md_LastVersion = (case kv_get P global_last_key d of None \<Rightarrow> zero32 | Some v \<Rightarrow> copy_to zero32 v),
      md_Count = unat count,
      md_TotalSize = sum_list (map (\<lambda>(_, v). length v) (kv_range P prefixSnapshotTree (prefixSnapshotTree @ [0xFF]) d))\<rparr>)
   (read_count P d)"

definition ListVersions :: "'d pebble \<Rightarrow> 'd \<Rightarrow> bytes list" where
  "ListVersions P d =
    map (\<lambda>(key, _). copy_to zero32 (drop (length prefixSnapshotMeta) key))
      (filter (\<lambda>(key, _). \<not> length key < length prefixSnapshotMeta + 32)
        (kv_range P prefixSnapshotMeta (prefixSnapshotMeta @ [0xFF]) d))"

definition DeleteSnapshot :: "'d pebble \<Rightarrow> bytes \<Rightarrow> 'd \<Rightarrow> 'd option" where
  "DeleteSnapshot P version d =
    map_option (\<lambda>dec. p_commit P
        ([delete_task (makeSnapshotMetaKey version)] @
         map (\<lambda>treeName. delete_task (makeSnapshotTreeKey version treeName)) (listSnapshotTrees P version d) @ [dec]) d)
      (decrementCount P d)"

subsection \<open>Snapshots of a manager\<close>

definition captureTreeReferences :: "'a manager \<Rightarrow> (string \<times> 'a tree) list" where
  "captureTreeReferences m = m_trees m"

definition serializeTreeLockFree :: "('a list \<Rightarrow> bytes option) \<Rightarrow> ('a list \<Rightarrow> 'a list) \<Rightarrow> 'a tree \<Rightarrow> bytes option" where
  "serializeTreeLockFree marshal ord t = marshal (ord (map snd (t_items t)))"

fun serializeAllTrees :: "('a list \<Rightarrow> bytes option) \<Rightarrow> ('a list \<Rightarrow> 'a list) \<Rightarrow> (string \<times> 'a tree) list \<Rightarrow>
    snapshot_error + (string \<times> bytes) list" where
  "serializeAllTrees marshal ord [] = Inr []"
| "serializeAllTrees marshal ord ((name, t) # refs) = (case serializeTreeLockFree marshal ord t of
     None \<Rightarrow> Inl (MarshalFailed name)
   | Some data \<Rightarrow> map_sum id (\<lambda>ts. (name, data) # ts) (serializeAllTrees marshal ord refs))"

text \<open>The references are pointers: the trees are read as they are after \<^verbatim>\<open>ComputeGlobalRoot\<close>. \<open>now\<close> is
  \<^verbatim>\<open>time.Now().Unix()\<close>.\<close>

definition CreateSnapshot :: "nat \<Rightarrow> (bytes \<Rightarrow> bytes) \<Rightarrow> 'a hashable \<Rightarrow> 'd pebble \<Rightarrow> ('a list \<Rightarrow> bytes option) \<Rightarrow>
    ('a list \<Rightarrow> 'a list) \<Rightarrow> u64 \<Rightarrow> 'a manager \<Rightarrow> 'd \<Rightarrow> (snapshot_error + bytes \<times> 'a manager \<times> 'd) option" where
  "CreateSnapshot numCPU h H P marshal ord now m d = (case ComputeGlobalRoot numCPU h H m of
     None \<Rightarrow> None
   | Some (version, m1) \<Rightarrow> (case serializeAllTrees marshal ord (captureTreeReferences m1) of
       Inl err \<Rightarrow> Some (Inl err)
     | Inr serializedTrees \<Rightarrow>
         map_option (\<lambda>d1. Inr (version, m1, d1)) (SaveSnapshot P version now serializedTrees d)))"

definition deserializeTree :: "'a hashable \<Rightarrow> nat \<Rightarrow> 'a schedule \<Rightarrow> 'a schedule \<Rightarrow> (bytes \<Rightarrow> 'a list option) \<Rightarrow> config option \<Rightarrow>
    string \<Rightarrow> bytes \<Rightarrow> (snapshot_error + 'a tree) option" where
  "deserializeTree H numCPU s1 s2 unmarshal cfg treeName data = (case unmarshal data of
     None \<Rightarrow> Some (Inl (UnmarshalFailed treeName))
   | Some items \<Rightarrow> map_option Inr (InsertBatch H numCPU s1 s2 items ((NewTree cfg)\<lparr>t_name := treeName\<rparr>)))"

fun deserializeTrees :: "'a hashable \<Rightarrow> nat \<Rightarrow> 'a schedule \<Rightarrow> 'a schedule \<Rightarrow> (bytes \<Rightarrow> 'a list option) \<Rightarrow> config option \<Rightarrow>
    (string \<times> tree_snapshot) list \<Rightarrow> (snapshot_error + (string \<times> 'a tree) list) option" where
  "deserializeTrees H numCPU s1 s2 unmarshal cfg [] = Some (Inr [])"
| "deserializeTrees H numCPU s1 s2 unmarshal cfg ((name, treeSnap) # snaps) =
    (if length (ts_Items treeSnap) > 0 then
       (case deserializeTree H numCPU s1 s2 unmarshal cfg name (ts_Items treeSnap ! 0) of
          None \<Rightarrow> None
        | Some (Inl err) \<Rightarrow> map_option (\<lambda>_. Inl err) (deserializeTrees H numCPU s1 s2 unmarshal cfg snaps)
        | Some (Inr t) \<Rightarrow> map_option (map_sum id (\<lambda>ts. (name, t) # ts)) (deserializeTrees H numCPU s1 s2 unmarshal cfg snaps))
     else deserializeTrees H numCPU s1 s2 unmarshal cfg snaps)"

definition LoadSnapshot :: "'a hashable \<Rightarrow> nat \<Rightarrow> 'a schedule \<Rightarrow> 'a schedule \<Rightarrow> 'd pebble \<Rightarrow> (bytes \<Rightarrow> 'a list option) \<Rightarrow>
    bytes option \<Rightarrow> 'd \<Rightarrow> 'a manager \<Rightarrow> (snapshot_error + 'a manager) option" where
  "LoadSnapshot H numCPU s1 s2 P unmarshal version d m = (case storage_LoadSnapshot P version d of
     None \<Rightarrow> None
   | Some (Inl err) \<Rightarrow> Some (Inl err)
   | Some (Inr snap) \<Rightarrow>
       if sn_SchemaVersion snap \<noteq> CurrentSchemaVersion then Some (Inl (UnsupportedSchema (sn_SchemaVersion snap)))
       else map_option (map_sum id (\<lambda>newTrees. adopt_trees newTrees m))
         (deserializeTrees H numCPU s1 s2 unmarshal (m_config m) (sn_Trees snap)))"

end
