(* ===== verification/SnapshotSpec.thy ===== *)
theory SnapshotSpec
  imports Snapshot
begin

text \<open>
  What the snapshot storage holds, key by key: the keys of different snapshots and trees are different,
  the listings are the entries of the database under a prefix, and what saving and deleting a
  snapshot change.
\<close>

subsection \<open>Strings\<close>

lemma go_string_ascii [simp]: "go_string (ascii s) = s"
proof -
  have "unat (of_char c :: u8) = of_char c" for c
  proof -
    have "(of_char c :: u8) = of_nat (of_char c)" by (simp add: of_nat_of_char)
    then show ?thesis by (simp add: unat_of_nat take_bit_eq_mod of_char_mod_256)
  qed
  then show ?thesis by (simp add: go_string_def ascii_def comp_def)
qed

lemma ascii_go_string [simp]: "ascii (go_string bs) = bs"
proof -
  have "(of_char (char_of (unat b)) :: u8) = b" for b :: u8
  proof -
    have "(of_char (char_of (unat b)) :: u8) = of_nat (of_char (char_of (unat b)))" by (simp only: of_nat_of_char)
    also have "\<dots> = of_nat (unat b mod 256)" by (simp only: of_char_of)
    also have "\<dots> = b" using unsigned_less [of b, where 'a = nat] by simp
    finally show ?thesis .
  qed
  then show ?thesis by (simp add: go_string_def ascii_def comp_def)
qed

lemma ascii_inject [simp]: "ascii s = ascii t \<longleftrightarrow> s = t"
  by (metis go_string_ascii)

lemma ascii_simps [simp]: "ascii [] = []" "length (ascii s) = length s" "go_string [] = []"
  by (simp_all add: ascii_def go_string_def)

subsection \<open>Hexadecimal digits\<close>

lemma hex_digit_value: "unat d < 16 \<Longrightarrow> unat (hex_digit d) = (if unat d < 10 then 48 + unat d else 87 + unat d)"
  by (simp add: hex_digit_def word_less_nat_alt unat_plus_if')

lemma hex_digit_inject: "unat d < 16 \<Longrightarrow> unat e < 16 \<Longrightarrow> hex_digit d = hex_digit e \<Longrightarrow> d = e"
  using hex_digit_value [of d] hex_digit_value [of e] by (auto simp: word_unat_eq_iff split: if_splits)

lemma nibbles: "unat (drop_bit 4 b :: u8) = unat b div 16" "unat (b AND 15 :: u8) = unat b mod 16"
proof -
  show "unat (drop_bit 4 b :: u8) = unat b div 16" by (simp add: drop_bit_eq_div unat_div)
  have "b AND 15 = take_bit 4 b" by (simp add: take_bit_eq_mask mask_eq_exp_minus_1)
  then show "unat (b AND 15 :: u8) = unat b mod 16" by (simp add: take_bit_eq_mod unat_mod)
qed

lemma hex_Cons: "hex (b # bs) = [hex_digit (drop_bit 4 b), hex_digit (b AND 15)] @ hex bs" "hex [] = []"
  by (simp_all add: hex_def)

lemma length_hex [simp]: "length (hex bs) = 2 * length bs"
  by (induction bs) (simp_all add: hex_Cons)

lemma hex_inject: "hex v = hex w \<longleftrightarrow> v = w"
proof
  show "hex v = hex w \<Longrightarrow> v = w"
  proof (induction v arbitrary: w)
    case Nil
    then show ?case by (cases w) (simp_all add: hex_Cons)
  next
    case (Cons b v)
    then obtain c w' where w: "w = c # w'" by (cases w) (simp_all add: hex_Cons)
    have "drop_bit 4 b = drop_bit 4 c" "b AND 15 = c AND 15" "hex v = hex w'"
      using Cons.prems unsigned_less [of b, where 'a = nat] unsigned_less [of c, where 'a = nat]
      by (auto simp: w hex_Cons nibbles intro: hex_digit_inject)
    then have "unat b div 16 = unat c div 16" "unat b mod 16 = unat c mod 16" by (metis nibbles)+
    then have "unat b = unat c" by (metis div_mult_mod_eq)
    then show ?case using Cons.IH [OF \<open>hex v = hex w'\<close>] by (simp add: w word_unat_eq_iff)
  qed
qed simp

subsection \<open>Keys\<close>

lemmas prefix_defs = prefixSnapshotMeta_def prefixSnapshotTree_def prefixGlobalMeta_def global_first_key_def global_last_key_def global_count_key_def

lemma prefix_bytes:
  "prefixSnapshotMeta = [115, 110, 97, 112, 58, 109, 101, 116, 97, 58]"
  "prefixSnapshotTree = [115, 110, 97, 112, 58, 116, 114, 101, 101, 58]"
  "global_first_key = [103, 108, 111, 98, 97, 108, 58, 102, 105, 114, 115, 116]"
  "global_last_key = [103, 108, 111, 98, 97, 108, 58, 108, 97, 115, 116]"
  "global_count_key = [103, 108, 111, 98, 97, 108, 58, 99, 111, 117, 110, 116]"
  by (simp_all add: prefix_defs ascii_def)

lemma global_keys [simp]:
  "global_first_key \<noteq> global_last_key" "global_first_key \<noteq> global_count_key" "global_last_key \<noteq> global_count_key" "global_last_key \<noteq> global_first_key" "global_count_key \<noteq> global_first_key" "global_count_key \<noteq> global_last_key"
  by (simp_all add: prefix_bytes)

lemma key_kinds [simp]:
  "makeSnapshotMetaKey v \<noteq> makeSnapshotTreeKey w n" "makeSnapshotTreeKey w n \<noteq> makeSnapshotMetaKey v"
  "makeSnapshotMetaKey v \<noteq> global_first_key" "makeSnapshotMetaKey v \<noteq> global_last_key" "makeSnapshotMetaKey v \<noteq> global_count_key"
  "makeSnapshotTreeKey v n \<noteq> global_first_key" "makeSnapshotTreeKey v n \<noteq> global_last_key" "makeSnapshotTreeKey v n \<noteq> global_count_key"
  "global_first_key \<noteq> makeSnapshotMetaKey v" "global_last_key \<noteq> makeSnapshotMetaKey v" "global_count_key \<noteq> makeSnapshotMetaKey v"
  "global_first_key \<noteq> makeSnapshotTreeKey v n" "global_last_key \<noteq> makeSnapshotTreeKey v n" "global_count_key \<noteq> makeSnapshotTreeKey v n"
  by (simp_all add: makeSnapshotMetaKey_def makeSnapshotTreeKey_def tree_key_prefix_def prefix_bytes)

lemma meta_key_inject [simp]: "makeSnapshotMetaKey v = makeSnapshotMetaKey w \<longleftrightarrow> v = w"
  by (simp add: makeSnapshotMetaKey_def)

lemma tree_key_inject:
  assumes "length v = length w"
  shows "makeSnapshotTreeKey v n = makeSnapshotTreeKey w m \<longleftrightarrow> v = w \<and> n = m"
  using assms by (simp add: makeSnapshotTreeKey_def tree_key_prefix_def append_eq_append_conv hex_inject)

subsection \<open>Listings\<close>

definition listable :: "string \<Rightarrow> bool" where
  "listable n \<longleftrightarrow> n = [] \<or> hd (ascii n) < 0xFF"

lemma range_prefix:
  assumes "kv_laws P"
  shows "(k, v) \<in> set (kv_range P p (p @ [0xFF]) d) \<longleftrightarrow> (\<exists>n. k = p @ ascii n \<and> listable n \<and> kv_get P k d = Some v)"
proof -
  have "(\<exists>s. k = p @ s \<and> (s = [] \<or> hd s < 0xFF)) \<longleftrightarrow> (\<exists>n. k = p @ ascii n \<and> listable n)"
  proof
    assume "\<exists>s. k = p @ s \<and> (s = [] \<or> hd s < 0xFF)"
    then obtain s where "k = p @ s" "s = [] \<or> hd s < 0xFF" by blast
    then have "k = p @ ascii (go_string s)" "listable (go_string s)" by (auto simp: listable_def)
    then show "\<exists>n. k = p @ ascii n \<and> listable n" by blast
  next
    assume "\<exists>n. k = p @ ascii n \<and> listable n"
    then obtain n where "k = p @ ascii n" "listable n" by blast
    then show "\<exists>s. k = p @ s \<and> (s = [] \<or> hd s < 0xFF)" by (intro exI [of _ "ascii n"]) (auto simp: listable_def)
  qed
  then show ?thesis by (auto simp: range_set [OF assms] prefix_range)
qed

lemma listed_trees:
  assumes "kv_laws P"
  shows "n \<in> set (listSnapshotTrees P v d) \<longleftrightarrow> listable n \<and> kv_get P (makeSnapshotTreeKey v n) d \<noteq> None"
    and "distinct (listSnapshotTrees P v d)"
proof -
  let ?p = "tree_key_prefix v"
  have name: "go_string (drop (length ?p) (?p @ ascii m)) = m" for m by simp
  show "n \<in> set (listSnapshotTrees P v d) \<longleftrightarrow> listable n \<and> kv_get P (makeSnapshotTreeKey v n) d \<noteq> None"
  proof
    assume "n \<in> set (listSnapshotTrees P v d)"
    then obtain k x where k: "(k, x) \<in> set (kv_range P ?p (?p @ [0xFF]) d)" "n = go_string (drop (length ?p) k)"
      by (auto simp: listSnapshotTrees_def Let_def)
    then show "listable n \<and> kv_get P (makeSnapshotTreeKey v n) d \<noteq> None"
      using name by (auto simp: range_prefix [OF assms] makeSnapshotTreeKey_def)
  next
    assume n: "listable n \<and> kv_get P (makeSnapshotTreeKey v n) d \<noteq> None"
    then obtain x where "(?p @ ascii n, x) \<in> set (kv_range P ?p (?p @ [0xFF]) d)"
      by (auto simp: range_prefix [OF assms] makeSnapshotTreeKey_def)
    then show "n \<in> set (listSnapshotTrees P v d)"
      unfolding listSnapshotTrees_def Let_def using name by (force simp: image_iff)
  qed
  have "inj_on (\<lambda>k. go_string (drop (length ?p) k)) (fst ` set (kv_range P ?p (?p @ [0xFF]) d))"
    by (rule inj_onI) (auto simp: range_prefix [OF assms])
  then have "distinct (map (\<lambda>k. go_string (drop (length ?p) k)) (map fst (kv_range P ?p (?p @ [0xFF]) d)))"
    using range_sorted(2) [OF assms] by (simp only: distinct_map set_map)
  then show "distinct (listSnapshotTrees P v d)" by (simp add: listSnapshotTrees_def Let_def comp_def case_prod_unfold)
qed

subsection \<open>Reading a snapshot\<close>

definition snapshot_trees :: "'d pebble \<Rightarrow> bytes \<Rightarrow> 'd \<Rightarrow> (string \<times> tree_snapshot) list" where
  "snapshot_trees P v d = map (\<lambda>n. (n, \<lparr>ts_TreeID = n, ts_Items = [the (kv_get P (makeSnapshotTreeKey v n) d)]\<rparr>))
     (listSnapshotTrees P v d)"

lemma read_trees_found:
  "\<forall>n\<in>set ns. kv_get P (makeSnapshotTreeKey v n) d \<noteq> None \<Longrightarrow> read_trees P v d ns =
    Inr (map (\<lambda>n. (n, \<lparr>ts_TreeID = n, ts_Items = [the (kv_get P (makeSnapshotTreeKey v n) d)]\<rparr>)) ns)"
  by (induction ns) auto

lemma map_of_snapshot_trees:
  assumes "kv_laws P"
  shows "map_of (snapshot_trees P v d) n = (if listable n
    then map_option (\<lambda>x. \<lparr>ts_TreeID = n, ts_Items = [x]\<rparr>) (kv_get P (makeSnapshotTreeKey v n) d) else None)"
proof (cases "n \<in> set (listSnapshotTrees P v d)")
  case True
  then show ?thesis using listed_trees(1) [OF assms, of n v d]
    by (auto simp: snapshot_trees_def map_of_map_restrict)
next
  case False
  then have "map_of (snapshot_trees P v d) n = None" by (auto simp: snapshot_trees_def map_of_eq_None_iff image_iff)
  then show ?thesis using False listed_trees(1) [OF assms, of n v d] by auto
qed

lemma decode_encode:
  "length v = 32 \<Longrightarrow> decodeSnapshotMeta (encodeSnapshotMeta v t n) = Some (v, t, unat (of_nat n :: u32))"
  by (simp add: decodeSnapshotMeta_def encodeSnapshotMeta_def go_slice_def)

lemma load_found:
  assumes P: "kv_laws P" and v: "length v = 32" and meta: "kv_get P (makeSnapshotMetaKey v) d = Some (encodeSnapshotMeta v t c)"
  shows "storage_LoadSnapshot P (Some v) d = Some (Inr \<lparr>sn_SchemaVersion = CurrentSchemaVersion, sn_Version = v,
    sn_Timestamp = t, sn_TreeCount = unat (of_nat c :: u32), sn_Trees = snapshot_trees P v d\<rparr>)"
proof -
  have "read_trees P v d (listSnapshotTrees P v d) = Inr (snapshot_trees P v d)"
    unfolding snapshot_trees_def using listed_trees(1) [OF P] by (intro read_trees_found) blast
  then show ?thesis by (simp add: storage_LoadSnapshot_def meta decode_encode [OF v])
qed

lemma load_missing:
  "kv_get P (makeSnapshotMetaKey v) d = None \<Longrightarrow> storage_LoadSnapshot P (Some v) d = Some (Inl (SnapshotNotFound v))"
  by (simp add: storage_LoadSnapshot_def)

subsection \<open>Writing a snapshot\<close>

definition tree_tasks :: "bytes \<Rightarrow> (string \<times> bytes) list \<Rightarrow> write_task list" where
  "tree_tasks v trees = map (\<lambda>(treeName, treeData). put_task (makeSnapshotTreeKey v treeName) treeData) trees"

lemma task_simps [simp]: "wt_key (put_task k x) = k" "wt_value (put_task k x) = Some x"
  "wt_key (delete_task k) = k" "wt_value (delete_task k) = None"
  by (simp_all add: put_task_def delete_task_def)

lemma apply_put: "apply_task (put_task k x) m = m(k \<mapsto> x)" "apply_task (delete_task k) m = m(k := None)"
  by (simp_all add: apply_task_def)

lemma tree_tasks_simps: "tree_tasks v [] = []"
  "tree_tasks v ((n, x) # trees) = put_task (makeSnapshotTreeKey v n) x # tree_tasks v trees"
  by (simp_all add: tree_tasks_def)

lemma fold_tree_tasks:
  assumes "length v = length w" "distinct (map fst trees)"
  shows "fold apply_task (tree_tasks v trees) m (makeSnapshotTreeKey w n) =
    (case if w = v then map_of trees n else None of Some x \<Rightarrow> Some x | None \<Rightarrow> m (makeSnapshotTreeKey w n))"
  using assms(2)
proof (induction trees arbitrary: m)
  case (Cons nx trees)
  obtain k x where nx: "nx = (k, x)" by force
  have "map_of trees k = None" using Cons.prems by (simp add: nx map_of_eq_None_iff)
  with Cons.prems show ?case
    by (auto simp: nx tree_tasks_simps Cons.IH apply_put tree_key_inject tree_key_inject [OF assms(1) [symmetric]] split: option.split)
qed (simp add: tree_tasks_simps)

definition count_ok :: "'d pebble \<Rightarrow> 'd \<Rightarrow> bool" where
  "count_ok P d \<longleftrightarrow> (case kv_get P global_count_key d of None \<Rightarrow> True | Some x \<Rightarrow> 4 \<le> length x)"

lemma read_count_ok: "count_ok P d \<Longrightarrow> \<exists>c. read_count P d = Some c"
  by (auto simp: count_ok_def read_count_def not_less split: option.splits)

text \<open>The batch of a save is the metadata, the trees and the three global entries.\<close>

lemma save_batch:
  assumes "count_ok P d"
  shows "\<exists>c. SaveSnapshot P v t trees d = Some (p_commit P
    (put_task (makeSnapshotMetaKey v) (encodeSnapshotMeta v t (length trees)) # tree_tasks v trees
      @ (if kv_get P global_first_key d = None then [put_task global_first_key v] else [])
      @ [put_task global_last_key v, put_task global_count_key (be_bytes 4 (c :: u32))]) d)"
proof -
  from read_count_ok [OF assms] obtain c where "read_count P d = Some c" by blast
  then show ?thesis
    by (intro exI [of _ "c + 1"]) (simp add: SaveSnapshot_def updateGlobalMeta_def incrementCount_def tree_tasks_def Let_def)
qed

lemma delete_batch:
  assumes "count_ok P d"
  shows "\<exists>c. DeleteSnapshot P v d = Some (p_commit P
    (delete_task (makeSnapshotMetaKey v) # map (\<lambda>n. delete_task (makeSnapshotTreeKey v n)) (listSnapshotTrees P v d)
      @ [put_task global_count_key (be_bytes 4 (c :: u32))]) d)"
proof -
  from read_count_ok [OF assms] obtain c where "read_count P d = Some c" by blast
  then show ?thesis
    by (intro exI [of _ "if c > 0 then c - 1 else c"]) (simp add: DeleteSnapshot_def decrementCount_def)
qed

lemma fold_other_tree: "fold apply_task (tree_tasks v trees) m k = m k" if "\<forall>n. k \<noteq> makeSnapshotTreeKey v n"
  using that by (intro fold_apply_other) (auto simp: tree_tasks_def)

lemma save_get:
  assumes P: "kv_laws P" and c: "count_ok P d" and v: "length v = 32" and trees: "distinct (map fst trees)"
  shows "\<exists>d'. SaveSnapshot P v t trees d = Some d' \<and> count_ok P d'
    \<and> (\<forall>w. kv_get P (makeSnapshotMetaKey w) d' =
         (if w = v then Some (encodeSnapshotMeta v t (length trees)) else kv_get P (makeSnapshotMetaKey w) d))
    \<and> (\<forall>w n. length w = 32 \<longrightarrow> kv_get P (makeSnapshotTreeKey w n) d' =
         (case if w = v then map_of trees n else None of Some x \<Rightarrow> Some x | None \<Rightarrow> kv_get P (makeSnapshotTreeKey w n) d))
    \<and> kv_get P global_last_key d' = Some v"
proof -
  from save_batch [OF c] obtain c' :: u32 and d' where s: "SaveSnapshot P v t trees d = Some d'"
    and d': "d' = p_commit P (put_task (makeSnapshotMetaKey v) (encodeSnapshotMeta v t (length trees)) # tree_tasks v trees
      @ (if kv_get P global_first_key d = None then [put_task global_first_key v] else [])
      @ [put_task global_last_key v, put_task global_count_key (be_bytes 4 c')]) d" by blast
  have old: "map_of (p_iter P d) k = kv_get P k d" for k by (simp add: kv_get_def)
  note simps = d' get_commit [OF P] apply_put fold_other_tree fold_tree_tasks [OF _ trees] old v
  have "kv_get P (makeSnapshotMetaKey w) d' =
      (if w = v then Some (encodeSnapshotMeta v t (length trees)) else kv_get P (makeSnapshotMetaKey w) d)" for w
    by (simp add: simps)
  moreover have "length w = 32 \<Longrightarrow> kv_get P (makeSnapshotTreeKey w n) d' =
      (case if w = v then map_of trees n else None of Some x \<Rightarrow> Some x | None \<Rightarrow> kv_get P (makeSnapshotTreeKey w n) d)" for w n
    by (auto simp: simps split: option.split)
  moreover have "kv_get P global_last_key d' = Some v" "kv_get P global_count_key d' = Some (be_bytes 4 c')" by (simp_all add: simps)
  ultimately show ?thesis using s by (simp add: count_ok_def)
qed

lemma delete_get:
  assumes P: "kv_laws P" and c: "count_ok P d" and v: "length v = 32"
  shows "\<exists>d'. DeleteSnapshot P v d = Some d' \<and> count_ok P d'
    \<and> (\<forall>w. kv_get P (makeSnapshotMetaKey w) d' = (if w = v then None else kv_get P (makeSnapshotMetaKey w) d))
    \<and> (\<forall>w n. length w = 32 \<longrightarrow> kv_get P (makeSnapshotTreeKey w n) d' =
         (if w = v \<and> listable n then None else kv_get P (makeSnapshotTreeKey w n) d))
    \<and> kv_get P global_last_key d' = kv_get P global_last_key d"
proof -
  let ?ns = "listSnapshotTrees P v d"
  from delete_batch [OF c] obtain c' :: u32 and d' where s: "DeleteSnapshot P v d = Some d'"
    and d': "d' = p_commit P (delete_task (makeSnapshotMetaKey v) # map (\<lambda>n. delete_task (makeSnapshotTreeKey v n)) ?ns
      @ [put_task global_count_key (be_bytes 4 c')]) d" by blast
  have old: "map_of (p_iter P d) k = kv_get P k d" for k by (simp add: kv_get_def)
  have del: "fold apply_task (map (\<lambda>n. delete_task (makeSnapshotTreeKey v n)) ns) m k =
      (if k \<in> makeSnapshotTreeKey v ` set ns then None else m k)" for ns m k
    by (induction ns arbitrary: m) (auto simp: apply_put)
  have mem: "makeSnapshotTreeKey w n \<in> makeSnapshotTreeKey v ` set ?ns
      \<longleftrightarrow> w = v \<and> listable n \<and> kv_get P (makeSnapshotTreeKey v n) d \<noteq> None" if "length w = 32" for w n
    using that v by (auto simp: image_iff tree_key_inject listed_trees(1) [OF P])
  have other: "k \<notin> makeSnapshotTreeKey v ` set ?ns" if "\<forall>n. k \<noteq> makeSnapshotTreeKey v n" for k using that by blast
  note simps = d' get_commit [OF P] apply_put del old mem other
  have "kv_get P (makeSnapshotMetaKey w) d' = (if w = v then None else kv_get P (makeSnapshotMetaKey w) d)" for w
    by (simp add: simps)
  moreover have "length w = 32 \<Longrightarrow> kv_get P (makeSnapshotTreeKey w n) d' =
         (if w = v \<and> listable n then None else kv_get P (makeSnapshotTreeKey w n) d)" for w n
    by (auto simp: simps)
  moreover have "kv_get P global_last_key d' = kv_get P global_last_key d" "kv_get P global_count_key d' = Some (be_bytes 4 c')"
    by (simp_all add: simps)
  ultimately show ?thesis using s by (simp add: count_ok_def)
qed

end
