(* ===== verification/SnapshotTheorems.thy ===== *)
theory SnapshotTheorems
  imports SnapshotSpec ManagerTheorems
begin

text \<open>
  The snapshots as a whole: the storage refines a map from versions to contents, with the exact set of
  versions and trees it can still see; the last version is not maintained by a deletion; a snapshot that
  is created and loaded gives back every tree.
\<close>

subsection \<open>The storage as a map\<close>

datatype storage_op = SSave bytes u64 "(string \<times> bytes) list" | SDelete bytes

fun storage_step :: "'d pebble \<Rightarrow> storage_op \<Rightarrow> 'd \<Rightarrow> 'd option" where
  "storage_step P (SSave v t trees) d = SaveSnapshot P v t trees d"
| "storage_step P (SDelete v) d = DeleteSnapshot P v d"

fun storage_run :: "'d pebble \<Rightarrow> storage_op list \<Rightarrow> 'd \<Rightarrow> 'd option" where
  "storage_run P [] d = Some d"
| "storage_run P (x # xs) d = (case storage_step P x d of None \<Rightarrow> None | Some d' \<Rightarrow> storage_run P xs d')"

text \<open>The names of a Go map are distinct, versions are 32 bytes.\<close>

fun storage_op_ok :: "storage_op \<Rightarrow> bool" where
  "storage_op_ok (SSave v t trees) \<longleftrightarrow> length v = 32 \<and> distinct (map fst trees)"
| "storage_op_ok (SDelete v) \<longleftrightarrow> length v = 32"

text \<open>The contents of a version: the time, the number of trees of the last save and the data of every tree
  that a listing sees. Saving a version again adds to the trees that are there.\<close>

type_synonym contents = "u64 \<times> nat \<times> (string \<rightharpoonup> bytes)"

definition trees_of :: "contents option \<Rightarrow> string \<rightharpoonup> bytes" where
  "trees_of c = (case c of None \<Rightarrow> Map.empty | Some (_, _, f) \<Rightarrow> f)"

fun map_step :: "storage_op \<Rightarrow> (bytes \<rightharpoonup> contents) \<Rightarrow> (bytes \<rightharpoonup> contents)" where
  "map_step (SSave v t trees) m = m(v \<mapsto> (t, length trees, trees_of (m v) ++ (map_of trees |` {n. listable n})))"
| "map_step (SDelete v) m = m(v := None)"

definition stored_as :: "'d pebble \<Rightarrow> 'd \<Rightarrow> (bytes \<rightharpoonup> contents) \<Rightarrow> bool" where
  "stored_as P d m \<longleftrightarrow> count_ok P d
    \<and> (\<forall>w. kv_get P (makeSnapshotMetaKey w) d = map_option (\<lambda>(t, c, _). encodeSnapshotMeta w t c) (m w))
    \<and> (\<forall>w n. length w = 32 \<longrightarrow> listable n \<longrightarrow> kv_get P (makeSnapshotTreeKey w n) d = trees_of (m w) n)
    \<and> (\<forall>w. m w \<noteq> None \<longrightarrow> length w = 32) \<and> (\<forall>w n. \<not> listable n \<longrightarrow> trees_of (m w) n = None)"

lemma stored_as_step:
  assumes P: "kv_laws P" and d: "stored_as P d m" and x: "storage_op_ok x"
  shows "\<exists>d'. storage_step P x d = Some d' \<and> stored_as P d' (map_step x m)"
proof (cases x)
  case (SSave v t trees)
  with x d have v: "length v = 32" "distinct (map fst trees)" "count_ok P d" by (simp_all add: stored_as_def)
  from save_get [OF P v(3) v(1,2), of t] obtain d' where s: "SaveSnapshot P v t trees d = Some d'" and c: "count_ok P d'"
    and meta: "\<forall>w. kv_get P (makeSnapshotMetaKey w) d' =
      (if w = v then Some (encodeSnapshotMeta v t (length trees)) else kv_get P (makeSnapshotMetaKey w) d)"
    and tree: "\<forall>w n. length w = 32 \<longrightarrow> kv_get P (makeSnapshotTreeKey w n) d' =
      (case if w = v then map_of trees n else None of Some x \<Rightarrow> Some x | None \<Rightarrow> kv_get P (makeSnapshotTreeKey w n) d)" by blast
  have "stored_as P d' (map_step x m)"
    using d c v(1) unfolding stored_as_def SSave
    by (auto simp: meta tree trees_of_def map_add_def restrict_map_def split: option.split if_splits)
  then show ?thesis using s SSave by auto
next
  case (SDelete v)
  with x d have v: "length v = 32" "count_ok P d" by (simp_all add: stored_as_def)
  from delete_get [OF P v(2,1)] obtain d' where s: "DeleteSnapshot P v d = Some d'" and c: "count_ok P d'"
    and meta: "\<forall>w. kv_get P (makeSnapshotMetaKey w) d' = (if w = v then None else kv_get P (makeSnapshotMetaKey w) d)"
    and tree: "\<forall>w n. length w = 32 \<longrightarrow> kv_get P (makeSnapshotTreeKey w n) d' =
      (if w = v \<and> listable n then None else kv_get P (makeSnapshotTreeKey w n) d)" by blast
  have "stored_as P d' (map_step x m)"
    using d c unfolding stored_as_def SDelete by (auto simp: meta tree trees_of_def split: option.split)
  then show ?thesis using s SDelete by auto
qed

lemma stored_as_run:
  "kv_laws P \<Longrightarrow> stored_as P d m \<Longrightarrow> list_all storage_op_ok xs \<Longrightarrow>
    \<exists>d'. storage_run P xs d = Some d' \<and> stored_as P d' (fold map_step xs m)"
proof (induction xs arbitrary: d m)
  case (Cons x xs)
  from stored_as_step [OF Cons.prems(1,2), of x] Cons.prems(3) obtain d1
    where "storage_step P x d = Some d1" "stored_as P d1 (map_step x m)" by auto
  then show ?case using Cons.IH [OF Cons.prems(1)] Cons.prems(3) by simp
qed simp

lemma stored_as_empty: "kv_laws P \<Longrightarrow> p_iter P d = [] \<Longrightarrow> stored_as P d Map.empty"
  by (simp add: stored_as_def count_ok_def kv_get_def trees_of_def)

lemma stored_as_load:
  assumes P: "kv_laws P" and d: "stored_as P d m" and v: "length v = 32"
  shows "case m v of
      None \<Rightarrow> storage_LoadSnapshot P (Some v) d = Some (Inl (SnapshotNotFound v))
    | Some (t, c, f) \<Rightarrow> \<exists>snap. storage_LoadSnapshot P (Some v) d = Some (Inr snap) \<and> sn_Version snap = v
        \<and> sn_Timestamp snap = t \<and> sn_TreeCount snap = c mod 2 ^ 32
        \<and> (\<forall>n. map_of (sn_Trees snap) n = map_option (\<lambda>x. \<lparr>ts_TreeID = n, ts_Items = [x]\<rparr>) (f n))"
proof (cases "m v")
  case None
  with d have "kv_get P (makeSnapshotMetaKey v) d = None" by (simp add: stored_as_def)
  then show ?thesis using None by (simp add: load_missing)
next
  case (Some tcf)
  obtain t c f where tcf: "tcf = (t, c, f)" by (cases tcf)
  have meta: "kv_get P (makeSnapshotMetaKey v) d = Some (encodeSnapshotMeta v t c)"
    using d Some tcf by (simp add: stored_as_def)
  have "map_of (snapshot_trees P v d) n = map_option (\<lambda>x. \<lparr>ts_TreeID = n, ts_Items = [x]\<rparr>) (f n)" for n
  proof -
    have f: "trees_of (m v) = f" using Some tcf by (simp add: trees_of_def)
    have "listable n \<Longrightarrow> kv_get P (makeSnapshotTreeKey v n) d = f n" "\<not> listable n \<Longrightarrow> f n = None"
      using d v unfolding stored_as_def f [symmetric] by blast+
    then show ?thesis by (simp add: map_of_snapshot_trees [OF P])
  qed
  then show ?thesis using load_found [OF P v meta] Some tcf by (simp add: unat_of_nat take_bit_eq_mod)
qed

subsection \<open>The listing of versions\<close>

lemma append_le: "p @ a \<le> p @ b \<longleftrightarrow> a \<le> b" for p :: "'a :: linorder list"
  by (induction p) auto

lemma ListVersions_eq:
  assumes P: "kv_laws P" and d: "stored_as P d m"
  shows "sorted (ListVersions P d) \<and> distinct (ListVersions P d)
    \<and> set (ListVersions P d) = {v. m v \<noteq> None \<and> hd v < 0xFF}"
proof -
  let ?p = prefixSnapshotMeta
  let ?R = "kv_range P ?p (?p @ [0xFF]) d"
  have mem: "(k, x) \<in> set ?R \<longleftrightarrow> (\<exists>w. k = ?p @ w \<and> hd w < 0xFF \<and> length w = 32
      \<and> map_option (\<lambda>(t, c, _). encodeSnapshotMeta w t c) (m w) = Some x)" for k x
  proof
    assume "(k, x) \<in> set ?R"
    then obtain n where n: "k = ?p @ ascii n" "listable n" "kv_get P (makeSnapshotMetaKey (ascii n)) d = Some x"
      by (auto simp: range_prefix [OF P] makeSnapshotMetaKey_def)
    then have m: "map_option (\<lambda>(t, c, _). encodeSnapshotMeta (ascii n) t c) (m (ascii n)) = Some x"
      using d by (simp add: stored_as_def)
    then have "length (ascii n) = 32" using d by (auto simp: stored_as_def simp del: ascii_simps)
    moreover from this have "n \<noteq> []" by auto
    ultimately show "\<exists>w. k = ?p @ w \<and> hd w < 0xFF \<and> length w = 32
      \<and> map_option (\<lambda>(t, c, _). encodeSnapshotMeta w t c) (m w) = Some x"
      using n m by (intro exI [of _ "ascii n"]) (simp add: listable_def del: ascii_simps)
  next
    assume "\<exists>w. k = ?p @ w \<and> hd w < 0xFF \<and> length w = 32
      \<and> map_option (\<lambda>(t, c, _). encodeSnapshotMeta w t c) (m w) = Some x"
    then obtain w where w: "k = ?p @ w" "hd w < 0xFF" "kv_get P (makeSnapshotMetaKey w) d = Some x"
      using d unfolding stored_as_def by metis
    then show "(k, x) \<in> set ?R"
      by (simp add: range_prefix [OF P] makeSnapshotMetaKey_def)
        (intro exI [of _ "go_string w"], simp add: listable_def)
  qed
  have keys: "\<exists>w. k = ?p @ w \<and> length w = 32" if "(k, x) \<in> set ?R" for k x using that mem by blast
  have "filter (\<lambda>(k, _). \<not> length k < length ?p + 32) ?R = ?R"
    by (rule filter_True) (use keys in fastforce)
  then have L: "ListVersions P d = map (\<lambda>(k, _). copy_to zero32 (drop (length ?p) k)) ?R" by (simp add: ListVersions_def)
  have tail: "copy_to zero32 (drop (length ?p) k) = drop (length ?p) k" if "(k, x) \<in> set ?R" for k x
    using keys [OF that] by (auto simp: copy_to_def zero32_def)
  have L': "ListVersions P d = map (drop (length ?p)) (map fst ?R)" unfolding L using tail by (auto intro: map_cong)
  have split: "k = ?p @ drop (length ?p) k" if "k \<in> set (map fst ?R)" for k using that keys by fastforce
  have "sorted_wrt (\<lambda>a b. drop (length ?p) a \<le> drop (length ?p) b) (map fst ?R)"
    by (rule sorted_wrt_mono_rel [OF _ range_sorted(1) [OF P]]) (metis append_le split)
  then have "sorted (ListVersions P d)" unfolding L' sorted_map .
  moreover have "distinct (ListVersions P d)"
  proof -
    have "inj_on (drop (length ?p)) (set (map fst ?R))" by (rule inj_onI) (metis split)
    then show ?thesis unfolding L' by (intro distinct_map [THEN iffD2] conjI range_sorted(2) [OF P])
  qed
  moreover have "set (ListVersions P d) = {v. m v \<noteq> None \<and> hd v < 0xFF}"
  proof (rule set_eqI)
    fix v
    have "v \<in> set (ListVersions P d) \<longleftrightarrow> (\<exists>k x. (k, x) \<in> set ?R \<and> v = drop (length ?p) k)"
      unfolding L' by (force simp: image_iff)
    also have "\<dots> \<longleftrightarrow> hd v < 0xFF \<and> length v = 32 \<and> m v \<noteq> None"
    proof
      assume a: "hd v < 0xFF \<and> length v = 32 \<and> m v \<noteq> None"
      then obtain t c f where "m v = Some (t, c, f)" by (cases "m v") auto
      with a show "\<exists>k x. (k, x) \<in> set ?R \<and> v = drop (length ?p) k"
        by (intro exI [of _ "?p @ v"] exI [of _ "encodeSnapshotMeta v t c"]) (simp add: mem)
    qed (auto simp: mem)
    also have "\<dots> \<longleftrightarrow> v \<in> {v. m v \<noteq> None \<and> hd v < 0xFF}" using d by (auto simp: stored_as_def)
    finally show "v \<in> set (ListVersions P d) \<longleftrightarrow> v \<in> {v. m v \<noteq> None \<and> hd v < 0xFF}" .
  qed
  ultimately show ?thesis by simp
qed

subsection \<open>The items of a manager\<close>

definition items_of :: "'a trees \<Rightarrow> (string \<times> (u64 \<times> 'a) list) list" where
  "items_of ts = map (\<lambda>(n, t). (n, t_items t)) ts"

lemma items_of_simps [simp]: "items_of [] = []" "items_of ((n, t) # ts) = (n, t_items t) # items_of ts"
  by (simp_all add: items_of_def)

lemma map_of_items_of: "map_of (items_of ts) n = map_option t_items (map_of ts n)"
  by (induction ts) auto

lemma ComputeRoot_items: "ComputeRoot N h H t = Some (r, t') \<Longrightarrow> t_items t' = t_items t"
  by (auto simp: ComputeRoot_def compute_step_def publish_step_def split: if_splits)

lemma items_of_keep:
  "map_of ts n = Some t \<Longrightarrow> t_items t' = t_items t \<Longrightarrow> items_of (AList.update n t' ts) = items_of ts"
  by (induction ts) auto

lemma check_roots_items: "check_roots N h H c ts = Some (b, ts') \<Longrightarrow> items_of ts' = items_of ts"
  by (induction N h H c ts arbitrary: b ts' rule: check_roots.induct)
    (auto split: option.splits prod.splits if_splits simp: ComputeRoot_items)

lemma recheck_roots_items: "recheck_roots N h H c ts = Some (b, ts', c') \<Longrightarrow> items_of ts' = items_of ts"
  by (induction N h H c ts arbitrary: b ts' c' rule: recheck_roots.induct)
    (auto split: option.splits prod.splits if_splits simp: ComputeRoot_items Let_def)

lemma collect_roots_items: "collect_roots N h H ns ts c = Some (rs, ts', c') \<Longrightarrow> items_of ts' = items_of ts"
proof (induction N h H ns ts c arbitrary: rs ts' c' rule: collect_roots.induct)
  case (2 N h H n ns ts c)
  then obtain t r t' rs' where t: "map_of ts n = Some t" and r: "ComputeRoot N h H t = Some (r, t')"
    and c: "collect_roots N h H ns (AList.update n t' ts) (AList.update n r c) = Some (rs', ts', c')"
    by (auto split: option.splits)
  have "items_of ts' = items_of (AList.update n t' ts)" by (rule "2.IH" [OF t r refl c])
  also have "\<dots> = items_of ts" by (rule items_of_keep [OF t ComputeRoot_items [OF r]])
  finally show ?case .
qed simp

lemma recompute_items: "recompute_global N h H m = Some (r, m') \<Longrightarrow> items_of (m_trees m') = items_of (m_trees m)"
  by (auto simp: recompute_global_def Let_def collect_roots_items split: if_splits option.splits)

lemma ComputeGlobalRoot_items:
  assumes "ComputeGlobalRoot N h H m = Some (r, m')"
  shows "items_of (m_trees m') = items_of (m_trees m)"
proof -
  have r: "items_of (m_trees m1) = items_of (m_trees m)" if "read_locked_global N h H m = Some (x, m1)" for x m1
    using that by (auto simp: read_locked_global_def check_roots_items split: if_splits)
  have w: "items_of (m_trees m2) = items_of (m_trees m1)" if "write_locked_global N h H m1 = Some (x, m2)" for x m1 m2
    using that by (auto simp: write_locked_global_def Let_def recheck_roots_items recompute_items
      dest!: recompute_items split: if_splits option.splits)
  show ?thesis using assms r w by (fastforce simp: ComputeGlobalRoot_def split: option.splits)
qed

lemma length_global_now:
  assumes "mgr_ok h H m" "DeletedNodeHash h \<noteq> zero32"
  shows "length (global_now h H m) = 32"
proof -
  have node: "length (node_hash g a b) = 32" for g a b by (simp add: node_hash_def zero32_def)
  have nxt: "\<forall>x\<in>set (next_level g hs). length x = 32" if "\<forall>x\<in>set hs. length x = 32" for g hs
    using that by (induction g hs rule: next_level.induct) (auto simp: node)
  have lv: "\<forall>x\<in>set hs. length x = 32 \<Longrightarrow> hs \<noteq> [] \<Longrightarrow> length (merkle_levels g hs) = 32" for g hs
  proof (induction g hs rule: merkle_levels.induct)
    case (1 g hs)
    show ?case
    proof (cases "1 < length hs")
      case True
      have "next_level g hs \<noteq> []" using True length_next_level [of g hs] by (auto simp flip: length_greater_0_conv)
      then show ?thesis using 1(1) [OF True nxt [OF 1(2)]] True by (simp add: merkle_levels.simps [of g hs])
    next
      case False
      then show ?thesis using 1(2,3) by (cases hs) (simp_all add: merkle_levels.simps)
    qed
  qed
  have root: "length (the (map_of (roots_now h H (m_trees m)) n)) = 32" if n: "n \<in> set (ListTrees m)" for n
  proof -
    from n obtain t where t: "map_of (m_trees m) n = Some t" by (force simp: ListTrees_def dest: weak_map_of_SomeI)
    moreover have "trees_good h H (m_trees m)" using assms(1) by (simp add: mgr_ok_def)
    ultimately have "tree_good h H t" by (rule trees_good_of [rotated])
    then show ?thesis using length_tree_root assms(2) t by (simp add: map_of_roots_now)
  qed
  let ?hs = "map (\<lambda>n. the (map_of (roots_now h H (m_trees m)) n)) (sort (map fst (roots_now h H (m_trees m))))"
  have hs: "\<forall>x\<in>set ?hs. length x = 32" using root by (simp add: ListTrees_def)
  show ?thesis
  proof (cases "?hs = []")
    case True
    then show ?thesis by (simp add: global_now_def global_of_def computeMerkleRoot_def zero32_def)
  next
    case False
    have one: "length (?hs ! 0) = 32" using hs False by (intro bspec [OF hs] nth_mem) simp
    have "global_now h H m = (if length ?hs = 1 then ?hs ! 0 else merkle_levels h ?hs)"
      using False unfolding global_now_def global_of_def computeMerkleRoot_def by (simp only: length_0_conv if_False)
    then show ?thesis using lv [OF hs False] one by (cases "length ?hs = 1") (simp_all only: if_True if_False refl)
  qed
qed

subsection \<open>Writing and restoring the trees\<close>

text \<open>MessagePack writes the exported fields of a struct and reads them back into a fresh one; the fields that
  are not exported come back zero. \<open>wire\<close> is what comes back of an item; the identity for a struct that
  exports all its fields. And \<^verbatim>\<open>sync.Map.Range\<close> visits every item once.\<close>

definition codec_ok :: "('a \<Rightarrow> 'a) \<Rightarrow> ('a list \<Rightarrow> bytes option) \<Rightarrow> (bytes \<Rightarrow> 'a list option) \<Rightarrow> bool" where
  "codec_ok wire marshal unmarshal \<longleftrightarrow> (\<forall>xs. \<exists>b. marshal xs = Some b \<and> unmarshal b = Some (map wire xs))"

definition order_ok :: "('a list \<Rightarrow> 'a list) \<Rightarrow> bool" where
  "order_ok ord \<longleftrightarrow> (\<forall>xs. mset (ord xs) = mset xs)"

lemma serialize_all:
  assumes "codec_ok wire marshal unmarshal"
  shows "serializeAllTrees marshal ord ts = Inr (map (\<lambda>(n, t). (n, the (serializeTreeLockFree marshal ord t))) ts)"
proof (induction ts)
  case (Cons nt ts)
  obtain n t where nt: "nt = (n, t)" by force
  obtain b where "serializeTreeLockFree marshal ord t = Some b"
    using assms by (auto simp: codec_ok_def serializeTreeLockFree_def)
  then show ?case using Cons by (simp add: nt)
qed simp

text \<open>A restored tree holds, under the same IDs, what MessagePack gives back of the items, and has the root
  computed from scratch over these items, placed in some order.\<close>

definition restored_from :: "(bytes \<Rightarrow> bytes) \<Rightarrow> 'a hashable \<Rightarrow> ('a \<Rightarrow> 'a) \<Rightarrow> 'a tree \<Rightarrow> 'a tree \<Rightarrow> bool" where
  "restored_from h H wire t t' \<longleftrightarrow> map_of (t_items t') = map_option wire \<circ> map_of (t_items t)
    \<and> (\<exists>ys. mset ys = mset (map wire (GetAllItems t))
        \<and> tree_root h H t' = root_of h H (levels t') (fold (place_leaf H (t_maxDepth t')) ys []))"

lemma restored_from_cong: "t_items t = t_items u \<Longrightarrow> restored_from h H wire t t' = restored_from h H wire u t'"
  by (simp add: restored_from_def GetAllItems_def)

lemma restored_option_cong:
  assumes "map_option t_items x = map_option t_items y"
  shows "rel_option (restored_from h H wire) x z = rel_option (restored_from h H wire) y z"
proof (cases x)
  case (Some t)
  then obtain u where "y = Some u" "t_items t = t_items u" using assms by (cases y) auto
  then show ?thesis using Some restored_from_cong [of t u] by (cases z) auto
qed (use assms in simp)

lemma NewTree_named_rep:
  assumes "shards_ok cfg"
  shows "tree_rep h H ((NewTree cfg)\<lparr>t_name := n\<rparr>) [] []"
proof -
  have "tree_rep h H (NewTree cfg :: 'a tree) [] []"
  proof (cases cfg)
    case None
    have "CacheShards DefaultConfig < 63" by (simp add: DefaultConfig_def)
    moreover have "NewTree None = (NewTree (Some DefaultConfig) :: 'a tree)" by (simp add: NewTree_def)
    ultimately show ?thesis using NewTree_rep None by metis
  next
    case (Some c)
    then show ?thesis using assms NewTree_rep by (simp add: shards_ok_def)
  qed
  then show ?thesis by (rule tree_rep_counters) simp_all
qed

lemma map_of_fold_store_distinct:
  assumes "mset ys = mset (map f (map snd its))" "distinct (map fst its)" "\<forall>(i, x)\<in>set its. h_ID H (f x) = i"
  shows "map_of (fold (store_pair H) ys []) = map_option f \<circ> map_of its"
proof -
  have ids: "map (h_ID H) (map f (map snd its)) = map fst its" using assms(3) by auto
  have "mset (map (h_ID H) ys) = mset (map fst its)"
    using arg_cong [OF assms(1), of "image_mset (h_ID H)"] by (simp only: mset_map [symmetric] ids)
  then have "distinct (map (h_ID H) ys)" using assms(2) mset_eq_imp_distinct_iff by blast
  moreover have "mset ys = mset (rev (map f (map snd its)))" using assms(1) by (simp only: mset_rev)
  ultimately have "map_of (fold (store_pair H) ys []) = map_of (fold (store_pair H) (rev (map f (map snd its))) [])"
    by (rule fold_store_perm [rotated])
  also have "\<dots> = map_of (map (\<lambda>x. (h_ID H x, x)) (map f (map snd its)))"
    unfolding fun_eq_iff map_of_fold_store by (simp add: rev_map split: option.split)
  also have "map (\<lambda>x. (h_ID H x, x)) (map f (map snd its)) = map (\<lambda>(i, x). (i, f x)) its" using assms(3) by auto
  also have "map_of (map (\<lambda>(i, x). (i, f x)) its) = map_option f \<circ> map_of its" by (simp add: map_of_map)
  finally show ?thesis .
qed

lemma restore_tree:
  fixes H :: "'a hashable"
  assumes t: "tree_good h H t" and codec: "codec_ok wire marshal unmarshal" and ord: "order_ok ord"
    and ids: "\<forall>x. h_ID H (wire x) = h_ID H x" and del: "DeletedNodeHash h \<noteq> zero32"
    and fits: "batch_fits H (config_depth cfg) (map wire (GetAllItems t))" and R: "runtime_ok R" and cfg: "shards_ok cfg"
  shows "\<exists>t'. deserializeTree H (rt_NumCPU R) (rt_store R) (rt_place R) unmarshal cfg n
      (the (serializeTreeLockFree marshal ord t)) = Some (Inr t') \<and> restored_from h H wire t t'"
proof -
  let ?xs = "map wire (ord (map snd (t_items t)))" and ?t0 = "(NewTree cfg)\<lparr>t_name := n\<rparr> :: 'a tree"
  have perm: "mset ?xs = mset (map wire (map snd (t_items t)))" using ord unfolding order_ok_def by (simp only: mset_map)
  from t obtain its lvs where rep: "tree_rep h H t its lvs" by (auto simp: tree_good_def)
  then have its: "t_items t = its" and idt: "\<forall>(i, x)\<in>set its. h_ID H (wire x) = i"
    and dist: "distinct (map fst its)" using ids by (auto simp: tree_rep_def items_rep_def)
  have sets: "set ?xs = set (map wire (GetAllItems t))" "length ?xs = length (map wire (GetAllItems t))"
    unfolding GetAllItems_def by (rule mset_eq_setD [OF perm], rule mset_eq_length [OF perm])
  have fits': "\<forall>x\<in>set ?xs. depth_fits H (t_maxDepth ?t0) x" "grouping_fits H ?xs"
    using fits unfolding batch_fits_def list_all_iff grouping_fits_def sets by (simp_all add: NewTree_depth)
  have R': "0 < rt_NumCPU R" "fair (rt_store R)" "fair (rt_place R)" using R by (simp_all add: runtime_ok_def)
  from InsertBatch_rep [OF NewTree_named_rep [OF cfg, of h H n] fits'(1) R' fits'(2)]
  obtain t' ys zs where run: "InsertBatch H (rt_NumCPU R) (rt_store R) (rt_place R) ?xs ?t0 = Some t'"
    and ys: "mset ys = mset ?xs" "mset zs = mset ?xs"
    and t': "tree_rep h H t' (fold (store_pair H) ys []) (fold (place_leaf H (t_maxDepth ?t0)) zs [])"
    and D: "t_maxDepth t' = t_maxDepth ?t0" by (elim exE conjE) (rule that)
  have "map_of (t_items t') = map_option wire \<circ> map_of (t_items t)"
    using map_of_fold_store_distinct [of ys wire its H] t' ys(1) perm dist idt its by (simp add: tree_rep_def items_rep_def)
  moreover have "mset zs = mset (map wire (GetAllItems t))" using ys(2) perm by (simp only: GetAllItems_def)
  ultimately have "restored_from h H wire t t'"
    using tree_root_rep [OF t' del] D unfolding restored_from_def by auto
  moreover obtain b where "marshal (ord (map snd (t_items t))) = Some b" "unmarshal b = Some ?xs"
    using codec by (auto simp: codec_ok_def)
  ultimately show ?thesis using run by (auto simp: deserializeTree_def serializeTreeLockFree_def)
qed

lemma deserialize_all:
  assumes "\<forall>(n, s)\<in>set snaps. \<exists>b t. ts_Items s = [b] \<and> deserializeTree H N s1 s2 unmarshal cfg n b = Some (Inr t) \<and> Q n t"
  shows "\<exists>ts. deserializeTrees H N s1 s2 unmarshal cfg snaps = Some (Inr ts) \<and> map fst ts = map fst snaps
    \<and> (\<forall>(n, t)\<in>set ts. Q n t)"
  using assms
proof (induction snaps)
  case (Cons ns snaps)
  obtain n s where ns: "ns = (n, s)" by force
  with Cons.prems obtain b t where t: "ts_Items s = [b]" "deserializeTree H N s1 s2 unmarshal cfg n b = Some (Inr t)" "Q n t" by auto
  from Cons obtain ts where "deserializeTrees H N s1 s2 unmarshal cfg snaps = Some (Inr ts)" "map fst ts = map fst snaps"
    "\<forall>(n, t)\<in>set ts. Q n t" by auto
  then show ?case using t by (intro exI [of _ "(n, t) # ts"]) (simp add: ns)
qed simp

lemma distinct_snapshot_trees: "kv_laws P \<Longrightarrow> distinct (map fst (snapshot_trees P v d))"
  using listed_trees(2) [of P v d] by (simp add: snapshot_trees_def comp_def)

lemma load_last:
  assumes "kv_get P global_last_key d = Some v" "length v = 32"
  shows "storage_LoadSnapshot P None d = storage_LoadSnapshot P (Some v) d"
  using assms by (simp add: storage_LoadSnapshot_def getLastVersion_def copy_to_def zero32_def)

text \<open>The trees of a manager, saved under a version with no trees, restored tree by tree.\<close>

lemma restore_all:
  assumes P: "kv_laws P" and ts: "trees_good h H ts" and codec: "codec_ok wire marshal unmarshal" and ord: "order_ok ord"
    and ids: "\<forall>x. h_ID H (wire x) = h_ID H x" and del: "DeletedNodeHash h \<noteq> zero32"
    and names: "\<forall>n\<in>fst ` set ts. listable n"
    and fits: "\<forall>(n, t)\<in>set ts. batch_fits H (config_depth cfg) (map wire (GetAllItems t))" and R: "runtime_ok R" and cfg: "shards_ok cfg"
    and stored: "\<forall>n. listable n \<longrightarrow> kv_get P (makeSnapshotTreeKey v n) d =
      map_of (map (\<lambda>(n, t). (n, the (serializeTreeLockFree marshal ord t))) ts) n"
  shows "\<exists>ts'. deserializeTrees H (rt_NumCPU R) (rt_store R) (rt_place R) unmarshal cfg (snapshot_trees P v d) = Some (Inr ts')
    \<and> (\<forall>n. rel_option (restored_from h H wire) (map_of ts n) (map_of ts' n))"
proof -
  let ?Q = "\<lambda>n t'. \<exists>t. map_of ts n = Some t \<and> restored_from h H wire t t'"
  have data: "map_of (map (\<lambda>(n, t). (n, the (serializeTreeLockFree marshal ord t))) ts) n
      = map_option (\<lambda>t. the (serializeTreeLockFree marshal ord t)) (map_of ts n)" for n by (simp add: map_of_map)
  have look: "map_of (snapshot_trees P v d) n =
      map_option (\<lambda>t. \<lparr>ts_TreeID = n, ts_Items = [the (serializeTreeLockFree marshal ord t)]\<rparr>) (map_of ts n)" for n
  proof (cases "listable n")
    case True
    then show ?thesis using stored by (simp add: map_of_snapshot_trees [OF P] data option.map_comp comp_def)
  next
    case False
    then have "map_of ts n = None" using names by (auto simp: map_of_eq_None_iff)
    then show ?thesis using False by (simp add: map_of_snapshot_trees [OF P])
  qed
  have "\<forall>(n, s)\<in>set (snapshot_trees P v d). \<exists>b t'. ts_Items s = [b]
      \<and> deserializeTree H (rt_NumCPU R) (rt_store R) (rt_place R) unmarshal cfg n b = Some (Inr t') \<and> ?Q n t'"
  proof (intro ballI, clarify)
    fix n s
    assume that: "(n, s) \<in> set (snapshot_trees P v d)"
    have "map_of (snapshot_trees P v d) n = Some s" using that distinct_snapshot_trees [OF P] by simp
    then obtain t where t: "map_of ts n = Some t" "ts_Items s = [the (serializeTreeLockFree marshal ord t)]" by (auto simp: look)
    have "(n, t) \<in> set ts" by (rule map_of_SomeD [OF t(1)])
    then have "batch_fits H (config_depth cfg) (map wire (GetAllItems t))" using fits by blast
    from restore_tree [OF trees_good_of [OF ts t(1)] codec ord ids del this R cfg, of n] t
    show "\<exists>b t'. ts_Items s = [b]
      \<and> deserializeTree H (rt_NumCPU R) (rt_store R) (rt_place R) unmarshal cfg n b = Some (Inr t') \<and> ?Q n t'" by auto
  qed
  from deserialize_all [OF this] obtain ts' where run: "deserializeTrees H (rt_NumCPU R) (rt_store R) (rt_place R) unmarshal cfg (snapshot_trees P v d) = Some (Inr ts')"
    and keys: "map fst ts' = map fst (snapshot_trees P v d)" and Q: "\<forall>(n, t)\<in>set ts'. ?Q n t" by blast
  have "rel_option (restored_from h H wire) (map_of ts n) (map_of ts' n)" for n
  proof (cases "map_of ts' n")
    case None
    then have "n \<notin> fst ` set (snapshot_trees P v d)" using keys by (metis map_of_eq_None_iff set_map)
    then have "map_of ts n = None" using look [of n] by (simp only: map_of_eq_None_iff [symmetric]) simp
    then show ?thesis using None by simp
  next
    case (Some t')
    then have "?Q n t'" using Q map_of_SomeD by fastforce
    then show ?thesis using Some by auto
  qed
  then show ?thesis using run by blast
qed

subsection \<open>Properties\<close>

text \<open>C18. The snapshot storage is a map from versions to contents: after any saves and deletions on an empty
  database, loading a version gives the time and the number of trees of its last save and the data of every
  tree saved under it since its last deletion, an absent version is reported as not found, and the listing
  holds the saved versions in ascending order. Names and versions whose first byte is 0xFF are stored, but no
  listing sees them.\<close>

theorem snapshot_storage_refines_map:
  assumes P: "kv_laws P" and d: "p_iter P d = []" and ops: "list_all storage_op_ok ops"
  shows "\<exists>d'. storage_run P ops d = Some d'
    \<and> (\<forall>v. length v = 32 \<longrightarrow> (case fold map_step ops Map.empty v of
          None \<Rightarrow> storage_LoadSnapshot P (Some v) d' = Some (Inl (SnapshotNotFound v))
        | Some (t, c, f) \<Rightarrow> \<exists>snap. storage_LoadSnapshot P (Some v) d' = Some (Inr snap) \<and> sn_Version snap = v
            \<and> sn_Timestamp snap = t \<and> sn_TreeCount snap = c mod 2 ^ 32
            \<and> (\<forall>n. map_of (sn_Trees snap) n = map_option (\<lambda>x. \<lparr>ts_TreeID = n, ts_Items = [x]\<rparr>) (f n))))
    \<and> sorted (ListVersions P d') \<and> distinct (ListVersions P d')
    \<and> set (ListVersions P d') = {v. fold map_step ops Map.empty v \<noteq> None \<and> hd v < 0xFF}"
proof -
  from stored_as_run [OF P stored_as_empty [OF P d] ops] obtain d' where
    d': "storage_run P ops d = Some d'" "stored_as P d' (fold map_step ops Map.empty)" by blast
  then show ?thesis using stored_as_load [OF P d'(2)] ListVersions_eq [OF P d'(2)] by blast
qed

lemma demo_kv_empty: "p_iter demo_kv [] = []"
  by (simp add: demo_kv_def)

lemma snapshot_storage_refines_map_witness:
  "\<exists>d. storage_run demo_kv [SSave (replicate 32 1) 7 [(''a'', [3])], SSave (replicate 32 0xFF) 8 []] [] = Some d
    \<and> ListVersions demo_kv d = [replicate 32 1]
    \<and> (\<exists>snap. storage_LoadSnapshot demo_kv (Some (replicate 32 1)) d = Some (Inr snap) \<and> sn_Timestamp snap = 7
        \<and> map_of (sn_Trees snap) ''a'' = Some \<lparr>ts_TreeID = ''a'', ts_Items = [[3]]\<rparr>)"
proof -
  let ?one = "replicate 32 (1 :: u8)" and ?ff = "replicate 32 (0xFF :: u8)"
  let ?ops = "[SSave ?one 7 [(''a'', [3])], SSave ?ff 8 []]"
  let ?m = "fold map_step ?ops Map.empty"
  have ne: "?one \<noteq> ?ff" by (simp add: replicate_eq_replicate)
  have ok: "list_all storage_op_ok ?ops" by simp
  have a: "listable ''a''" by (simp add: listable_def ascii_def)
  from snapshot_storage_refines_map [OF demo_kv_laws demo_kv_empty ok] obtain d where
    run: "storage_run demo_kv ?ops [] = Some d"
    and load: "\<And>v. length v = 32 \<Longrightarrow> case ?m v of
          None \<Rightarrow> storage_LoadSnapshot demo_kv (Some v) d = Some (Inl (SnapshotNotFound v))
        | Some (t, c, f) \<Rightarrow> \<exists>snap. storage_LoadSnapshot demo_kv (Some v) d = Some (Inr snap) \<and> sn_Version snap = v
            \<and> sn_Timestamp snap = t \<and> sn_TreeCount snap = c mod 2 ^ 32
            \<and> (\<forall>n. map_of (sn_Trees snap) n = map_option (\<lambda>x. \<lparr>ts_TreeID = n, ts_Items = [x]\<rparr>) (f n))"
    and L: "sorted (ListVersions demo_kv d)" "distinct (ListVersions demo_kv d)"
      "set (ListVersions demo_kv d) = {v. ?m v \<noteq> None \<and> hd v < 0xFF}" by blast
  have m: "?m ?one = Some (7, 1, trees_of None ++ (map_of [(''a'', [3])] |` {n. listable n}))" using ne by simp
  have "\<exists>snap. storage_LoadSnapshot demo_kv (Some ?one) d = Some (Inr snap) \<and> sn_Timestamp snap = 7
      \<and> map_of (sn_Trees snap) ''a'' = Some \<lparr>ts_TreeID = ''a'', ts_Items = [[3]]\<rparr>"
    using load [of ?one] a unfolding m by (auto simp: map_add_def)
  moreover have "set (ListVersions demo_kv d) = {?one}" unfolding L(3) by (auto simp: hd_replicate split: if_splits)
  then have "ListVersions demo_kv d = [?one]"
    using L(1,2) sorted_distinct_set_unique [of "ListVersions demo_kv d" "[?one]"] by simp
  ultimately show ?thesis using run by blast
qed

text \<open>C40. Deleting the snapshot that was saved last leaves the pointer to it: from then on loading "the last
  snapshot" fails, although every other saved version still loads by its number.\<close>

theorem deleted_last_snapshot:
  assumes P: "kv_laws P" and d: "p_iter P d = []" and ops: "list_all storage_op_ok (ops @ [SSave v t trees, SDelete v])"
  shows "\<exists>d'. storage_run P (ops @ [SSave v t trees, SDelete v]) d = Some d'
    \<and> storage_LoadSnapshot P None d' = Some (Inl (SnapshotNotFound v))
    \<and> (\<forall>w. w \<noteq> v \<longrightarrow> fold map_step ops Map.empty w \<noteq> None \<longrightarrow>
        (\<exists>snap. storage_LoadSnapshot P (Some w) d' = Some (Inr snap) \<and> sn_Version snap = w))"
proof -
  have ok: "list_all storage_op_ok ops" "length v = 32" "distinct (map fst trees)" using ops by simp_all
  have run: "storage_run P (xs @ ys) d = (case storage_run P xs d of None \<Rightarrow> None | Some d1 \<Rightarrow> storage_run P ys d1)" for xs ys d
    by (induction xs arbitrary: d) (simp_all split: option.split)
  from stored_as_run [OF P stored_as_empty [OF P d] ok(1)] obtain d0 where
    d0: "storage_run P ops d = Some d0" "stored_as P d0 (fold map_step ops Map.empty)" by blast
  then have c0: "count_ok P d0" by (simp add: stored_as_def)
  from save_get [OF P c0 ok(2,3), of t] obtain d1 where
    d1: "SaveSnapshot P v t trees d0 = Some d1" "count_ok P d1" "kv_get P global_last_key d1 = Some v" by blast
  from delete_get [OF P d1(2) ok(2)] obtain d2 where d2: "DeleteSnapshot P v d1 = Some d2"
    "kv_get P global_last_key d2 = kv_get P global_last_key d1" "kv_get P (makeSnapshotMetaKey v) d2 = None" by auto
  have s: "storage_run P (ops @ [SSave v t trees, SDelete v]) d = Some d2" using d0 d1 d2 by (simp add: run)
  have last: "storage_LoadSnapshot P None d2 = Some (Inl (SnapshotNotFound v))"
    using load_last [of P d2 v] d1(3) d2(2,3) ok(2) by (simp add: load_missing)
  have st: "stored_as P d2 (fold map_step (ops @ [SSave v t trees, SDelete v]) Map.empty)"
    using stored_as_run [OF P stored_as_empty [OF P d] ops] s by auto
  have "\<exists>snap. storage_LoadSnapshot P (Some w) d2 = Some (Inr snap) \<and> sn_Version snap = w"
    if "w \<noteq> v" "fold map_step ops Map.empty w \<noteq> None" for w
  proof -
    have "length w = 32" using d0(2) that(2) by (simp add: stored_as_def)
    from stored_as_load [OF P st this] that show ?thesis by (auto split: option.splits)
  qed
  then show ?thesis using s last by blast
qed

lemma deleted_last_snapshot_witness:
  "\<exists>d. storage_run demo_kv [SSave (replicate 32 1) 7 [], SSave (replicate 32 2) 8 [], SDelete (replicate 32 2)] [] = Some d
    \<and> storage_LoadSnapshot demo_kv None d = Some (Inl (SnapshotNotFound (replicate 32 2)))
    \<and> (\<exists>snap. storage_LoadSnapshot demo_kv (Some (replicate 32 1)) d = Some (Inr snap))"
proof -
  have ne: "replicate 32 (1 :: u8) \<noteq> replicate 32 2" by (simp add: replicate_eq_replicate)
  have ok: "list_all storage_op_ok ([SSave (replicate 32 1) 7 []] @ [SSave (replicate 32 2) 8 [], SDelete (replicate 32 2)])" by simp
  have kept: "fold map_step [SSave (replicate 32 1) 7 []] Map.empty (replicate 32 1) \<noteq> None" by simp
  from deleted_last_snapshot [OF demo_kv_laws demo_kv_empty ok] obtain d where
    d: "storage_run demo_kv ([SSave (replicate 32 1) 7 []] @ [SSave (replicate 32 2) 8 [], SDelete (replicate 32 2)]) [] = Some d"
      "storage_LoadSnapshot demo_kv None d = Some (Inl (SnapshotNotFound (replicate 32 2)))"
    and other: "\<forall>w. w \<noteq> replicate 32 2 \<longrightarrow> fold map_step [SSave (replicate 32 1) 7 []] Map.empty w \<noteq> None \<longrightarrow>
      (\<exists>snap. storage_LoadSnapshot demo_kv (Some w) d = Some (Inr snap) \<and> sn_Version snap = w)" by blast
  from other ne kept have "\<exists>snap. storage_LoadSnapshot demo_kv (Some (replicate 32 1)) d = Some (Inr snap)" by blast
  then show ?thesis using d by (simp only: append_Cons append_Nil) blast
qed

text \<open>C17. A snapshot keeps every item, as far as MessagePack carries it: in any reachable manager, creating a snapshot
  under a version that the storage does not hold succeeds, and loading it, by version or as the last one, into
  any manager gives the same tree names and under each the same IDs; each item is what MessagePack gives
  back of it (\<open>wire\<close>), and the root of each tree is the one computed from scratch over these
  items. MessagePack has to keep the IDs (an exported field in all stored structs); the restored items have to
  fit the configuration of the loading manager; and no tree name may begin with the byte 0xFF. The keys of the structs in
  \<^verbatim>\<open>models\<close> are not exported, so they do not come back, see \<open>restored_accounts_share_a_leaf\<close>.\<close>

theorem snapshot_restores_every_tree:
  assumes m: "mgr_reachable h H R m" "runtime_ok R" "DeletedNodeHash h \<noteq> zero32"
    and P: "kv_laws P" and hist: "p_iter P d0 = []" "list_all storage_op_ok ops" "storage_run P ops d0 = Some d"
    and root: "ComputeGlobalRoot N h H m = Some (v, m1)" and new: "fold map_step ops Map.empty v = None"
    and codec: "codec_ok wire marshal unmarshal" and ord: "order_ok ord" and ids: "\<forall>x. h_ID H (wire x) = h_ID H x"
    and names: "list_all listable (ListTrees m)" and cfg: "shards_ok (m_config m')"
    and fits: "\<forall>n t. GetTree n m = Some t \<longrightarrow> batch_fits H (config_depth (m_config m')) (map wire (GetAllItems t))"
  shows "\<exists>d1 m2. CreateSnapshot N h H P marshal ord now m d = Some (Inr (v, m1, d1))
    \<and> LoadSnapshot H (rt_NumCPU R) (rt_store R) (rt_place R) P unmarshal (Some v) d1 m' = Some (Inr m2)
    \<and> LoadSnapshot H (rt_NumCPU R) (rt_store R) (rt_place R) P unmarshal None d1 m' = Some (Inr m2)
    \<and> m_globalRootDirty m2
    \<and> (\<forall>n. rel_option (restored_from h H wire) (GetTree n m) (GetTree n m2))"
proof -
  have ok: "mgr_ok h H m" using mgr_reachable_inv [OF m] by (simp add: mgr_inv_def)
  have m1: "mgr_ok h H m1" "v = global_now h H m" using ComputeGlobalRoot_ok [OF ok m(3), of N] root by auto
  have v: "length v = 32" unfolding m1(2) by (rule length_global_now [OF ok m(3)])
  have items: "items_of (m_trees m1) = items_of (m_trees m)" by (rule ComputeGlobalRoot_items [OF root])
  have T: "trees_good h H (m_trees m1)" using m1(1) by (simp add: mgr_ok_def)
  let ?ST = "map (\<lambda>(n, t). (n, the (serializeTreeLockFree marshal ord t))) (m_trees m1)"
  have dist: "distinct (map fst ?ST)" using T by (simp add: trees_good_def comp_def case_prod_unfold)
  have st: "stored_as P d (fold map_step ops Map.empty)"
    using stored_as_run [OF P stored_as_empty [OF P hist(1)] hist(2)] hist(3) by auto
  then have c: "count_ok P d" by (simp add: stored_as_def)
  from save_get [OF P c v dist, of now] obtain d1 where s: "SaveSnapshot P v now ?ST d = Some d1"
    and meta: "kv_get P (makeSnapshotMetaKey v) d1 = Some (encodeSnapshotMeta v now (length ?ST))"
    and tree: "\<forall>n. kv_get P (makeSnapshotTreeKey v n) d1 =
      (case map_of ?ST n of Some x \<Rightarrow> Some x | None \<Rightarrow> kv_get P (makeSnapshotTreeKey v n) d)"
    and last: "kv_get P global_last_key d1 = Some v" using v by auto
  have "kv_get P (makeSnapshotTreeKey v n) d = None" if "listable n" for n
    using st new v that by (auto simp: stored_as_def trees_of_def)
  then have stored: "\<forall>n. listable n \<longrightarrow> kv_get P (makeSnapshotTreeKey v n) d1 = map_of ?ST n"
    using tree by (auto split: option.split)
  have keys: "fst ` set (m_trees m1) = fst ` set (m_trees m)"
    using arg_cong [OF items, of "\<lambda>xs. fst ` set xs"] by (simp add: items_of_def image_image case_prod_unfold)
  have names': "\<forall>n\<in>fst ` set (m_trees m1). listable n" using names unfolding keys by (simp add: list_all_iff ListTrees_def)
  have fits': "\<forall>(n, t)\<in>set (m_trees m1). batch_fits H (config_depth (m_config m')) (map wire (GetAllItems t))"
  proof (intro ballI, clarify)
    fix n t assume "(n, t) \<in> set (m_trees m1)"
    then have "map_of (m_trees m1) n = Some t" using T by (simp add: trees_good_def)
    then have "map_option t_items (map_of (m_trees m) n) = Some (t_items t)"
      using map_of_items_of [of "m_trees m1" n] map_of_items_of [of "m_trees m" n] items by simp
    then obtain t0 where "GetTree n m = Some t0" "t_items t = t_items t0" by (auto simp: GetTree_def)
    then show "batch_fits H (config_depth (m_config m')) (map wire (GetAllItems t))" using fits by (simp add: GetAllItems_def)
  qed
  from restore_all [OF P T codec ord ids m(3) names' fits' m(2) cfg stored] obtain ts' where
    load: "deserializeTrees H (rt_NumCPU R) (rt_store R) (rt_place R) unmarshal (m_config m') (snapshot_trees P v d1) = Some (Inr ts')"
    and ts': "\<forall>n. rel_option (restored_from h H wire) (map_of (m_trees m1) n) (map_of ts' n)"
    by blast
  have same: "rel_option (restored_from h H wire) (GetTree n m) (map_of ts' n)" for n
  proof -
    have "map_option t_items (map_of (m_trees m1) n) = map_option t_items (map_of (m_trees m) n)"
      using map_of_items_of [of "m_trees m1" n] map_of_items_of [of "m_trees m" n] items by simp
    from restored_option_cong [OF this, of h H wire "map_of ts' n"] show ?thesis
      using ts' [rule_format, of n] by (simp add: GetTree_def)
  qed
  have create: "CreateSnapshot N h H P marshal ord now m d = Some (Inr (v, m1, d1))"
    using s by (simp add: CreateSnapshot_def root captureTreeReferences_def serialize_all [OF codec])
  have byv: "LoadSnapshot H (rt_NumCPU R) (rt_store R) (rt_place R) P unmarshal (Some v) d1 m'
      = Some (Inr (adopt_trees ts' m'))"
    by (simp add: LoadSnapshot_def load_found [OF P v meta] load)
  moreover have "LoadSnapshot H (rt_NumCPU R) (rt_store R) (rt_place R) P unmarshal None d1 m'
      = LoadSnapshot H (rt_NumCPU R) (rt_store R) (rt_place R) P unmarshal (Some v) d1 m'"
    by (simp add: LoadSnapshot_def load_last [OF last v])
  ultimately show ?thesis using create same
    by (intro exI [of _ d1] exI [of _ "adopt_trees ts' m'"]) (simp add: GetTree_def adopt_trees_def)
qed

subsection \<open>Loading is a step of the manager\<close>

text \<open>What \<^verbatim>\<open>LoadSnapshot\<close> does to a reachable manager is the step \<open>load\<close> of \<open>mgr_reachable\<close>, as long as no
  root stays cached under a name that the snapshot does not have.\<close>

lemma map_sum_eq_InrE: "map_sum f g z = Inr x \<Longrightarrow> (\<And>y. z = Inr y \<Longrightarrow> x = g y \<Longrightarrow> thesis) \<Longrightarrow> thesis"
  by (cases z) auto

lemma deserializeTrees_restored:
  assumes "shards_ok cfg" "\<forall>b xs. unmarshal b = Some xs \<longrightarrow> batch_fits H (config_depth cfg) xs"
  shows "deserializeTrees H (rt_NumCPU R) (rt_store R) (rt_place R) unmarshal cfg snaps = Some (Inr ts) \<Longrightarrow>
    distinct (map fst snaps) \<Longrightarrow> restored_trees H R ts \<and> fst ` set ts \<subseteq> fst ` set snaps"
proof (induction snaps arbitrary: ts)
  case Nil
  then show ?case by (simp add: restored_trees_def)
next
  case (Cons ns snaps)
  obtain n s where ns: "ns = (n, s)" by force
  show ?case
  proof (cases "length (ts_Items s) > 0")
    case False
    then show ?thesis using Cons by (auto simp: ns)
  next
    case True
    with Cons.prems obtain t ts' where t: "deserializeTree H (rt_NumCPU R) (rt_store R) (rt_place R) unmarshal cfg n (ts_Items s ! 0) = Some (Inr t)"
      and ts': "deserializeTrees H (rt_NumCPU R) (rt_store R) (rt_place R) unmarshal cfg snaps = Some (Inr ts')" "ts = (n, t) # ts'"
      by (cases "deserializeTrees H (rt_NumCPU R) (rt_store R) (rt_place R) unmarshal cfg snaps")
        (auto simp: ns split: option.splits sum.splits elim!: map_sum_eq_InrE)
    from t obtain xs where "unmarshal (ts_Items s ! 0) = Some xs"
      and run: "InsertBatch H (rt_NumCPU R) (rt_store R) (rt_place R) xs ((NewTree cfg)\<lparr>t_name := n\<rparr>) = Some t"
      by (auto simp: deserializeTree_def split: option.splits)
    then have "batch_fits H (config_depth cfg) xs" using assms(2) by blast
    with assms(1) run Cons.IH [OF ts'(1)] Cons.prems(2) ts'(2) show ?thesis
      unfolding restored_trees_def ns by auto
  qed
qed

lemma LoadSnapshot_reachable:
  assumes "mgr_reachable h H R m" "kv_laws P" "shards_ok (m_config m)"
    "\<forall>b xs. unmarshal b = Some xs \<longrightarrow> batch_fits H (config_depth (m_config m)) xs"
    "LoadSnapshot H (rt_NumCPU R) (rt_store R) (rt_place R) P unmarshal version d m = Some (Inr m')" "cached_named m'"
  shows "mgr_reachable h H R m'"
proof -
  have read: "map fst trees = ns" if "read_trees P v d ns = Inr trees" for v ns trees
    using that by (induction ns arbitrary: trees) (auto split: option.splits elim!: map_sum_eq_InrE)
  from assms(5) obtain snap where snap: "storage_LoadSnapshot P version d = Some (Inr snap)"
    by (auto simp: LoadSnapshot_def split: option.splits sum.splits)
  with assms(5) obtain ts where
    ts: "deserializeTrees H (rt_NumCPU R) (rt_store R) (rt_place R) unmarshal (m_config m) (sn_Trees snap) = Some (Inr ts)"
      "m' = adopt_trees ts m"
    by (auto simp: LoadSnapshot_def split: if_splits elim!: map_sum_eq_InrE)
  from snap obtain v where "map fst (sn_Trees snap) = listSnapshotTrees P v d"
    using read by (auto simp: storage_LoadSnapshot_def split: option.splits prod.splits elim!: map_sum_eq_InrE)
  then have "distinct (map fst (sn_Trees snap))" using listed_trees(2) [OF assms(2), of v d] by simp
  from deserializeTrees_restored [OF assms(3,4) ts(1) this] assms(1,6) ts(2) show ?thesis by (auto intro: mgr_reachable.load)
qed

subsection \<open>Keys that are not exported\<close>

text \<open>What MessagePack gives back of an account: every field but the cached key.\<close>

definition wire_account :: "account \<Rightarrow> account" where
  "wire_account a = a\<lparr>acc_key := replicate 8 0\<rparr>"

definition account_hashable :: "(bytes \<Rightarrow> bytes) \<Rightarrow> account hashable" where
  "account_hashable b3 = \<lparr>h_Hash = Account_Hash b3, h_Key = Account_Key, h_ID = Account_ID\<rparr>"

lemma wire_account_facts:
  "h_ID (account_hashable b3) (wire_account a) = h_ID (account_hashable b3) a"
  "h_Key (account_hashable b3) (wire_account a) = replicate 8 0"
  by (simp_all add: account_hashable_def wire_account_def Account_ID_def Account_Key_def)

text \<open>Items that come back with one key share one leaf: the root of the restored tree is that of a single
  item, whatever else the tree holds.\<close>

lemma fold_place_one_path:
  "\<forall>x\<in>set ys. path_of H D x = p \<Longrightarrow> ys \<noteq> [] \<Longrightarrow>
    map_of (fold (place_leaf H D) ys []) = map_of [(p, Some (last ys))]"
proof (induction ys rule: rev_induct)
  case (snoc y ys)
  then show ?case by (cases "ys = []") (simp_all add: place_leaf_def update_conv' fun_eq_iff)
qed simp

lemma restored_one_leaf:
  assumes "restored_from h H wire t t'" "\<forall>x. h_Key H (wire x) = k" "GetAllItems t \<noteq> []"
  shows "\<exists>x\<in>set (GetAllItems t). tree_root h H t'
    = root_of h H (levels t') [(path_of H (t_maxDepth t') (wire x), Some (wire x))]"
proof -
  let ?D = "t_maxDepth t'"
  obtain ys where ys: "mset ys = mset (map wire (GetAllItems t))"
    and root: "tree_root h H t' = root_of h H (levels t') (fold (place_leaf H ?D) ys [])"
    using assms(1) by (auto simp: restored_from_def)
  have sets: "set ys = wire ` set (GetAllItems t)" using mset_eq_setD [OF ys] by simp
  then have ne: "ys \<noteq> []" using assms(3) by auto
  then obtain x where x: "x \<in> set (GetAllItems t)" "last ys = wire x" using sets last_in_set [OF ne] by auto
  have "path_of H ?D (wire y) = path_of H ?D (wire x)" for y using assms(2) by (simp add: path_of_def last_key_def)
  then have "\<forall>y\<in>set ys. path_of H ?D y = path_of H ?D (wire x)" using sets by auto
  from fold_place_one_path [OF this ne] root_of_cong x root show ?thesis by metis
qed

lemma restored_accounts_share_a_leaf:
  assumes "restored_from h (account_hashable b3) wire_account t t'" "GetAllItems t \<noteq> []"
  shows "\<exists>a\<in>set (GetAllItems t). tree_root h (account_hashable b3) t'
    = root_of h (account_hashable b3) (levels t')
        [(path_of (account_hashable b3) (t_maxDepth t') (wire_account a), Some (wire_account a))]"
  using restored_one_leaf [OF assms(1) _ assms(2)] wire_account_facts(2) by blast

subsection \<open>A manager with two items\<close>

text \<open>Items that are an ID and a key; the key does not travel.\<close>

definition keyed_hashable :: "(u64 \<times> bytes) hashable" where
  "keyed_hashable = \<lparr>h_Hash = be_bytes 8 \<circ> fst, h_Key = snd, h_ID = fst\<rparr>"

definition demo_wire :: "u64 \<times> bytes \<Rightarrow> u64 \<times> bytes" where
  "demo_wire x = (fst x, replicate 8 0)"

definition demo_marshal :: "(u64 \<times> bytes) list \<Rightarrow> bytes option" where
  "demo_marshal xs = Some (concat (map (\<lambda>x. be_bytes 8 (fst x)) xs))"

function demo_words :: "bytes \<Rightarrow> u64 list" where
  "demo_words bs = (if bs = [] then [] else be_word (take 8 bs) # demo_words (drop 8 bs))"
  by pat_completeness auto
termination by (relation "measure length") auto

declare demo_words.simps [simp del]

definition demo_unmarshal :: "bytes \<Rightarrow> (u64 \<times> bytes) list option" where
  "demo_unmarshal bs = Some (map (\<lambda>i. (i, replicate 8 0)) (demo_words bs))"

lemma demo_codec: "codec_ok demo_wire demo_marshal demo_unmarshal"
proof -
  have "map (\<lambda>i. (i, replicate 8 0)) (demo_words (concat (map (\<lambda>x. be_bytes 8 (fst x)) xs))) = map demo_wire xs"
    for xs :: "(u64 \<times> bytes) list"
  proof (induction xs)
    case (Cons x xs)
    have "be_bytes 8 (fst x) \<noteq> []" by (auto simp flip: length_greater_0_conv)
    then show ?case using Cons by (subst demo_words.simps) (simp add: demo_wire_def)
  qed (simp add: demo_words.simps)
  then show ?thesis by (simp add: codec_ok_def demo_marshal_def demo_unmarshal_def)
qed

abbreviation demo_items :: "(u64 \<times> bytes) list" where
  "demo_items \<equiv> [(5, EncodeKey 5), (6, EncodeKey 6)]"

lemma filled_manager:
  "\<exists>m t. mgr_reachable sample_hash keyed_hashable sample_runtime m \<and> ListTrees m = [''a'']
    \<and> GetTree ''a'' m = Some t \<and> t_items t = [(5, (5, EncodeKey 5)), (6, (6, EncodeKey 6))]"
proof -
  let ?m0 = "NewManager (Some SmallConfig) :: (u64 \<times> bytes) manager"
  let ?t = "(NewTree (Some SmallConfig))\<lparr>t_name := ''a''\<rparr> :: (u64 \<times> bytes) tree"
  have cfg: "shards_ok (Some SmallConfig)" by (simp add: shards_ok_def)
  have D: "t_maxDepth ?t = 3" by (simp add: NewTree_def Let_def)
  have keys: "depth_fits keyed_hashable 3 x" if "x \<in> set demo_items" for x
    using that by (auto simp: depth_fits_def keyed_hashable_def EncodeKey_def)
  have small: "grouping_fits keyed_hashable demo_items" by (simp add: grouping_fits_def)
  obtain t' ys zs where t': "InsertBatch keyed_hashable 4 concat concat demo_items ?t = Some t'"
    "length demo_items < ParallelBatchThreshold \<longrightarrow> ys = demo_items \<and> zs = demo_items"
    "tree_rep sample_hash keyed_hashable t' (fold (store_pair keyed_hashable) ys [])
      (fold (place_leaf keyed_hashable (t_maxDepth ?t)) zs [])"
    using InsertBatch_rep [OF NewTree_named_rep [OF cfg] _ _ _ _ small, of "''a''" 4 concat concat sample_hash] keys
    by (auto simp: D fair_def simp del: set_simps)
  have items: "t_items t' = [(5, (5, EncodeKey 5)), (6, (6, EncodeKey 6))]"
    using t'(2,3) by (simp add: tree_rep_def items_rep_def store_pair_def keyed_hashable_def ParallelBatchThreshold_def)
  let ?m1 = "(set_tree ''a'' ?t ?m0)\<lparr>m_globalRootDirty := True\<rparr>"
  let ?m = "InvalidateTreeRoot ''a'' (set_tree ''a'' t' ?m1)"
  have r: "mgr_reachable sample_hash keyed_hashable sample_runtime ?m1"
    by (rule mgr_reachable.step [where x = "MGetOrCreate ''a''", OF mgr_reachable.start [OF cfg]])
      (simp_all add: mgr_step_def GetOrCreateTree_def NewManager_def Let_def)
  have g: "GetTree ''a'' ?m1 = Some ?t" by (simp add: GetTree_def set_tree_def NewManager_def)
  have st: "mgr_step sample_hash keyed_hashable sample_runtime (MBatch ''a'' demo_items) ?m1 = Some ?m"
    using t'(1) by (simp add: mgr_step_def BatchInsertToTree_def on_tree_def g or_same_def sample_runtime_def)
  have "mgr_op_ok keyed_hashable (MBatch ''a'' demo_items) ?m1"
    using keys small by (simp add: at_tree_def g D batch_fits_def list_all_iff)
  with r have "mgr_reachable sample_hash keyed_hashable sample_runtime ?m" using st by (rule mgr_reachable.step)
  then show ?thesis using items
    by (intro exI [of _ ?m] exI [of _ t']) (simp add: InvalidateTreeRoot_def set_tree_def GetTree_def ListTrees_def NewManager_def)
qed

text \<open>Both items come back, with the same key, so the root of the restored tree is that of one item.\<close>

lemma snapshot_restores_every_tree_witness:
  "\<exists>m v m1 d1 m2 t. mgr_reachable sample_hash keyed_hashable sample_runtime m
    \<and> CreateSnapshot 16 sample_hash keyed_hashable demo_kv demo_marshal rev 9 m [] = Some (Inr (v, m1, d1))
    \<and> LoadSnapshot keyed_hashable (rt_NumCPU (sample_runtime :: u64 runtime)) concat concat demo_kv
        demo_unmarshal None d1 (NewManager (Some SmallConfig)) = Some (Inr m2)
    \<and> GetTree ''a'' m2 = Some t \<and> map_of (t_items t) 5 = Some (5, replicate 8 0) \<and> map_of (t_items t) 6 = Some (6, replicate 8 0)"
proof -
  from filled_manager obtain m t where m: "mgr_reachable sample_hash keyed_hashable sample_runtime m" "ListTrees m = [''a'']"
    "GetTree ''a'' m = Some t" "t_items t = [(5, (5, EncodeKey 5)), (6, (6, EncodeKey 6))]" by blast
  have "mgr_ok sample_hash keyed_hashable m" using mgr_reachable_inv [OF m(1) sample_ok(1,2)] by (simp add: mgr_inv_def)
  then obtain v m1 where root: "ComputeGlobalRoot 16 sample_hash keyed_hashable m = Some (v, m1)"
    using ComputeGlobalRoot_ok sample_ok(2) by blast
  let ?m0 = "NewManager (Some SmallConfig) :: (u64 \<times> bytes) manager"
  have names: "list_all listable (ListTrees m)" unfolding m(2) by (simp add: listable_def ascii_def)
  have cfg: "shards_ok (m_config ?m0)" by (simp add: NewManager_def shards_ok_def)
  have ids: "\<forall>x. h_ID keyed_hashable (demo_wire x) = h_ID keyed_hashable x" by (simp add: keyed_hashable_def demo_wire_def)
  have fits: "\<forall>n t. GetTree n m = Some t \<longrightarrow> batch_fits keyed_hashable (config_depth (m_config ?m0)) (map demo_wire (GetAllItems t))"
  proof (intro allI impI)
    fix n u assume g: "GetTree n m = Some u"
    then have "n \<in> set (ListTrees m)" by (force simp: GetTree_def ListTrees_def dest: map_of_SomeD)
    then have "u = t" using g m by simp
    then show "batch_fits keyed_hashable (config_depth (m_config ?m0)) (map demo_wire (GetAllItems u))"
      by (simp add: batch_fits_def grouping_fits_def GetAllItems_def NewManager_def config_depth_def m(4) demo_wire_def
          depth_fits_def keyed_hashable_def)
  qed
  have ord: "order_ok rev" by (simp add: order_ok_def)
  note snap = snapshot_restores_every_tree [OF m(1) sample_ok(1,2) demo_kv_laws demo_kv_empty _ _ root _ demo_codec ord ids names cfg fits,
      where ops = "[]" and d = "[]" and now = 9]
  have rt: "rt_NumCPU (sample_runtime :: u64 runtime) = rt_NumCPU (sample_runtime :: (u64 \<times> bytes) runtime)"
    "rt_store sample_runtime = concat" "rt_place sample_runtime = concat" by (simp_all add: sample_runtime_def)
  obtain d1 m2 where c: "CreateSnapshot 16 sample_hash keyed_hashable demo_kv demo_marshal rev 9 m [] = Some (Inr (v, m1, d1))"
    and l: "LoadSnapshot keyed_hashable (rt_NumCPU (sample_runtime :: u64 runtime)) concat concat demo_kv
        demo_unmarshal None d1 ?m0 = Some (Inr m2)"
    and e: "\<forall>n. rel_option (restored_from sample_hash keyed_hashable demo_wire) (GetTree n m) (GetTree n m2)"
    using snap unfolding rt by simp blast
  from e [rule_format, of "''a''"] m(3) obtain u where u: "GetTree ''a'' m2 = Some u" "restored_from sample_hash keyed_hashable demo_wire t u"
    by (auto simp: option_rel_Some1)
  then have "map_of (t_items u) 5 = Some (5, replicate 8 0)" "map_of (t_items u) 6 = Some (6, replicate 8 0)"
    using m(4) by (simp_all add: restored_from_def demo_wire_def)
  then show ?thesis using m(1) c l u(1) by blast
qed

end
