(* ===== verification/Verkle.thy ===== *)
theory Verkle
  imports Prelude
begin

text \<open>
  The Verkle tree of \<^verbatim>\<open>v2-verkle-tree-test\<close>: \<^verbatim>\<open>verkle_tree.go\<close>, \<^verbatim>\<open>node_cache.go\<close> and the commitments of
  \<^verbatim>\<open>kzg_crypto.go\<close>.

  \<^item> BLAKE3, the field elements and the KZG commitment are the parameter \<open>C\<close>; a commitment that fails ends
    the operation with an error, and the state after it is not modelled.
  \<^item> A leaf is shared by the tree, the index and the cache, so leaves live in a list and are named by
    their position. Inner nodes have one owner.
  \<^item> \<open>v_mu\<close> is the write lock: an operation that takes it while it is held never returns (\<open>VDeadlock\<close>).
  \<^item> An \<^verbatim>\<open>insert\<close> that calls itself for ever is \<open>None\<close>. JSON, statistics and the reading functions of
    the persistent format that are only stubs in the code are left out.
\<close>

subsection \<open>Configuration\<close>

definition DefaultNodeWidth :: nat where "DefaultNodeWidth = 256"
definition DefaultLevels :: nat where "DefaultLevels = 4"
definition MaxValueSize :: nat where "MaxValueSize = 8 * 1024"
definition StemSize :: nat where "StemSize = 31"

datatype verkle_error = ErrKeyNotFound | ErrInvalidKey | ErrValueTooLarge | ErrClosed | ErrNotALeaf | ErrCommit | ErrMaxDepth | ErrRead

datatype 'a verkle_result = VDone 'a | VErr verkle_error | VDeadlock | VPanic

record 'f crypto =
  c_blake3 :: "bytes \<Rightarrow> bytes"
  c_SetBytes :: "bytes \<Rightarrow> 'f"
  c_Bytes :: "'f \<Rightarrow> bytes"
  c_zero :: 'f
  c_kzg :: "('f list \<Rightarrow> bytes option) option"

record verkle_config =
  vc_Levels :: nat
  vc_NodeWidth :: nat
  vc_UseKZGForInternal :: bool
  vc_AutoGrowDepth :: bool
  vc_MaxLevels :: nat
  vc_NodeMask :: nat

definition validateNodeWidth :: "nat \<Rightarrow> bool" where
  "validateNodeWidth width \<longleftrightarrow> width \<in> set [8, 16, 32, 64, 128, 256]"

definition NewConfig :: "nat \<Rightarrow> nat \<Rightarrow> verkle_config option" where
  "NewConfig levels0 nodeWidth0 =
    (let levels = (if levels0 = 0 then DefaultLevels else levels0);
         nodeWidth = (if nodeWidth0 = 0 then DefaultNodeWidth else nodeWidth0)
     in if \<not> validateNodeWidth nodeWidth then None
        else Some \<lparr>vc_Levels = levels, vc_NodeWidth = nodeWidth, vc_UseKZGForInternal = False, vc_AutoGrowDepth = True,
          vc_MaxLevels = 8, vc_NodeMask = nodeWidth - 1\<rparr>)"

definition getNodeIndex :: "verkle_config \<Rightarrow> u8 \<Rightarrow> nat" where
  "getNodeIndex cfg byteValue = unat byteValue AND vc_NodeMask cfg"

subsection \<open>Nodes\<close>

record verkle_leaf =
  vl_userIDHash :: bytes
  vl_stem :: bytes
  vl_dataKey :: bytes
  vl_inMemoryData :: "bytes option"
  vl_commitment :: "bytes option"
  vl_dirty :: bool
  vl_hasData :: bool

datatype verkle_node =
    LeafNode nat
  | InternalNode "verkle_node option list" "bytes option" nat bool

definition new_internal :: "verkle_config \<Rightarrow> nat \<Rightarrow> verkle_node" where
  "new_internal cfg d = InternalNode (replicate (vc_NodeWidth cfg) None) None d True"

text \<open>\<^verbatim>\<open>Hash\<close>: the commitment, or zeros.\<close>

fun verkle_Hash :: "verkle_leaf list \<Rightarrow> verkle_node \<Rightarrow> bytes" where
  "verkle_Hash L (LeafNode p) = (case vl_commitment (L ! p) of None \<Rightarrow> zero32 | Some c \<Rightarrow> c)"
| "verkle_Hash L (InternalNode ch c d dirty) = (case c of None \<Rightarrow> zero32 | Some c \<Rightarrow> c)"

definition hashToFieldElement :: "'f crypto \<Rightarrow> bytes \<Rightarrow> 'f" where
  "hashToFieldElement C data = c_SetBytes C (c_blake3 C data)"

definition hashValues :: "'f crypto \<Rightarrow> 'f list \<Rightarrow> bytes" where
  "hashValues C values = c_blake3 C (concat (map (c_Bytes C) values))"

definition commitPolynomial :: "'f crypto \<Rightarrow> 'f list \<Rightarrow> bytes option" where
  "commitPolynomial C values = (case c_kzg C of None \<Rightarrow> Some (hashValues C values) | Some commit \<Rightarrow> commit values)"

definition leaf_Commit :: "'f crypto \<Rightarrow> verkle_leaf \<Rightarrow> verkle_leaf option" where
  "leaf_Commit C l =
    (if \<not> vl_dirty l \<and> vl_commitment l \<noteq> None then Some l
     else map_option (\<lambda>c. l\<lparr>vl_commitment := Some c, vl_dirty := False\<rparr>)
       (commitPolynomial C [hashToFieldElement C (vl_userIDHash l)]))"

text \<open>The value an inner node commits to, from the hashes of its children.\<close>

definition internal_value :: "'f crypto \<Rightarrow> verkle_config \<Rightarrow> nat \<Rightarrow> bytes option list \<Rightarrow> bytes option" where
  "internal_value C cfg d hashes =
    (if \<not> vc_UseKZGForInternal cfg \<and> d > 0
     then Some (c_blake3 C (concat (map (\<lambda>x. case x of None \<Rightarrow> zero32 | Some hash \<Rightarrow> hash) hashes)))
     else commitPolynomial C (map (\<lambda>x. case x of None \<Rightarrow> c_zero C | Some hash \<Rightarrow> c_SetBytes C hash) hashes))"

fun internal_Commit :: "'f crypto \<Rightarrow> verkle_config \<Rightarrow> verkle_leaf list \<Rightarrow> verkle_node \<Rightarrow> verkle_node option" where
  "internal_Commit C cfg L (LeafNode p) = Some (LeafNode p)"
| "internal_Commit C cfg L (InternalNode ch c d dirty) =
    (if \<not> dirty \<and> c \<noteq> None then Some (InternalNode ch c d dirty)
     else map_option (\<lambda>v. InternalNode ch (Some v) d False)
       (internal_value C cfg d (map (map_option (verkle_Hash L)) ch)))"

subsection \<open>The node cache\<close>

text \<open>Front first; the map from keys to list elements holds the same entries.\<close>

record node_cache =
  nc_capacity :: nat
  nc_list :: "(bytes \<times> nat) list"
  nc_hits :: u64
  nc_misses :: u64

definition NewNodeCache :: "nat \<Rightarrow> node_cache" where
  "NewNodeCache capacity = \<lparr>nc_capacity = (if capacity = 0 then 1000 else capacity), nc_list = [], nc_hits = 0, nc_misses = 0\<rparr>"

definition nc_Get :: "bytes \<Rightarrow> node_cache \<Rightarrow> nat option \<times> node_cache" where
  "nc_Get key nc = (case map_of (nc_list nc) key of
     Some p \<Rightarrow> (Some p, nc\<lparr>nc_list := (key, p) # AList.delete key (nc_list nc), nc_hits := nc_hits nc + 1\<rparr>)
   | None \<Rightarrow> (None, nc\<lparr>nc_misses := nc_misses nc + 1\<rparr>))"

definition nc_Put :: "bytes \<Rightarrow> nat \<Rightarrow> node_cache \<Rightarrow> node_cache" where
  "nc_Put key p nc = (case map_of (nc_list nc) key of
     Some _ \<Rightarrow> nc\<lparr>nc_list := (key, p) # AList.delete key (nc_list nc)\<rparr>
   | None \<Rightarrow> nc\<lparr>nc_list := (key, p) #
       (if length (nc_list nc) \<ge> nc_capacity nc then butlast (nc_list nc) else nc_list nc)\<rparr>)"

definition nc_Invalidate :: "bytes \<Rightarrow> node_cache \<Rightarrow> node_cache" where
  "nc_Invalidate key nc = nc\<lparr>nc_list := AList.delete key (nc_list nc)\<rparr>"

definition nc_Clear :: "node_cache \<Rightarrow> node_cache" where
  "nc_Clear nc = nc\<lparr>nc_list := [], nc_hits := 0, nc_misses := 0\<rparr>"

subsection \<open>The tree\<close>

text \<open>\<open>v_dataStore\<close> is the database behind the tree, if there is one; \<open>v_queue\<close> counts the tasks of the commit
  queue, all of which name the root node. \<^verbatim>\<open>previousRoot\<close> and \<^verbatim>\<open>lazyCommit\<close> are never read.\<close>

record parallel_config =
  pc_Workers :: nat
  pc_MinNodesForParallel :: nat
  pc_Enabled :: bool

record verkle =
  v_root :: verkle_node
  v_config :: verkle_config
  v_leaves :: "verkle_leaf list"
  v_previousRoot :: "bytes option"
  v_dataStore :: "(bytes \<rightharpoonup> bytes) option"
  v_nodeIndex :: "(bytes \<times> nat) list"
  v_lazyCommit :: bool
  v_asyncMode :: bool
  v_queue :: nat
  v_queueClosed :: bool
  v_pendingRoot :: "bytes option"
  v_currentDepth :: nat
  v_parallelConfig :: parallel_config
  v_nodeCache :: node_cache
  v_mu :: bool

definition NewParallelConfig :: "nat \<Rightarrow> parallel_config" where
  "NewParallelConfig numCPU = \<lparr>pc_Workers = numCPU, pc_MinNodesForParallel = 4, pc_Enabled = True\<rparr>"

definition verkle_New :: "nat \<Rightarrow> nat \<Rightarrow> nat \<Rightarrow> (bytes \<rightharpoonup> bytes) option \<Rightarrow> verkle option" where
  "verkle_New numCPU levels nodeWidth store = map_option (\<lambda>cfg.
     \<lparr>v_root = new_internal cfg 0, v_config = cfg, v_leaves = [], v_previousRoot = None, v_dataStore = store, v_nodeIndex = [],
      v_lazyCommit = True, v_asyncMode = False, v_queue = 0, v_queueClosed = False, v_pendingRoot = None, v_currentDepth = levels,
      v_parallelConfig = NewParallelConfig numCPU, v_nodeCache = NewNodeCache 5000, v_mu = False\<rparr>)
   (NewConfig levels nodeWidth)"

text \<open>\<^verbatim>\<open>vt.mu.Lock()\<close> with the deferred \<^verbatim>\<open>Unlock\<close>.\<close>

definition with_lock :: "(verkle \<Rightarrow> verkle verkle_result) \<Rightarrow> verkle \<Rightarrow> verkle verkle_result" where
  "with_lock f s =
    (if v_mu s then VDeadlock
     else case f (s\<lparr>v_mu := True\<rparr>) of VDone s' \<Rightarrow> VDone (s'\<lparr>v_mu := False\<rparr>) | r \<Rightarrow> r)"

fun updateNodeDepths :: "nat \<Rightarrow> verkle_node \<Rightarrow> verkle_node" where
  "updateNodeDepths newDepth (LeafNode p) = LeafNode p"
| "updateNodeDepths newDepth (InternalNode ch c d dirty) =
    InternalNode (map (map_option (updateNodeDepths (newDepth + 1))) ch) c newDepth dirty"

definition occupied :: "verkle_node option list \<Rightarrow> nat" where
  "occupied ch = length (filter (\<lambda>x. x \<noteq> None) ch)"

fun node_children :: "verkle_node \<Rightarrow> verkle_node option list" where
  "node_children (LeafNode p) = []"
| "node_children (InternalNode ch c d dirty) = ch"

definition needsDepthExpansion :: "verkle \<Rightarrow> bool" where
  "needsDepthExpansion s \<longleftrightarrow> vc_AutoGrowDepth (v_config s) \<and> v_currentDepth s < vc_MaxLevels (v_config s)
    \<and> occupied (node_children (v_root s)) \<ge> vc_NodeWidth (v_config s) * 80 div 100"

definition expandDepth :: "verkle \<Rightarrow> verkle verkle_result" where
  "expandDepth = with_lock (\<lambda>s.
    if v_currentDepth s \<ge> vc_MaxLevels (v_config s) then VErr ErrMaxDepth
    else VDone (s\<lparr>v_root := InternalNode ((replicate (vc_NodeWidth (v_config s)) None)[0 := Some (updateNodeDepths 1 (v_root s))]) None 0 True,
           v_currentDepth := v_currentDepth s + 1, v_config := (v_config s)\<lparr>vc_Levels := v_currentDepth s + 1\<rparr>\<rparr>))"

subsection \<open>Insertion\<close>

text \<open>The loop of \<^verbatim>\<open>insert\<close> down to the node that holds the leaf, missing nodes created on the way; \<open>f\<close> is
  what happens to that node.\<close>

definition step_into :: "verkle_config \<Rightarrow> verkle_leaf list \<Rightarrow> nat \<Rightarrow> verkle_node option \<Rightarrow> verkle_node" where
  "step_into cfg L d child = (case child of
     None \<Rightarrow> new_internal cfg (d + 1)
   | Some (LeafNode p) \<Rightarrow> InternalNode ((replicate (vc_NodeWidth cfg) None)
       [getNodeIndex cfg (vl_stem (L ! p) ! (d + 1)) := Some (LeafNode p)]) None (d + 1) True
   | Some n \<Rightarrow> n)"

fun descend :: "verkle_config \<Rightarrow> verkle_leaf list \<Rightarrow> bytes \<Rightarrow> (verkle_node \<Rightarrow> verkle_node) \<Rightarrow> nat \<Rightarrow> nat \<Rightarrow> verkle_node \<Rightarrow> verkle_node" where
  "descend cfg L stem f 0 d n = f n"
| "descend cfg L stem f (Suc k) d (LeafNode p) = LeafNode p"
| "descend cfg L stem f (Suc k) d (InternalNode ch c d' dirty) =
    (let index = getNodeIndex cfg (stem ! d)
     in InternalNode (ch[index := Some (descend cfg L stem f k (d + 1) (step_into cfg L d (ch ! index)))]) c d' dirty)"

fun bottom :: "verkle_config \<Rightarrow> verkle_leaf list \<Rightarrow> bytes \<Rightarrow> nat \<Rightarrow> nat \<Rightarrow> verkle_node \<Rightarrow> verkle_node" where
  "bottom cfg L stem 0 d n = n"
| "bottom cfg L stem (Suc k) d (LeafNode p) = LeafNode p"
| "bottom cfg L stem (Suc k) d (InternalNode ch c d' dirty) =
    bottom cfg L stem k (d + 1) (step_into cfg L d (ch ! getNodeIndex cfg (stem ! d)))"

fun markDirtyPath :: "verkle_config \<Rightarrow> bytes \<Rightarrow> nat \<Rightarrow> nat \<Rightarrow> verkle_node \<Rightarrow> verkle_node" where
  "markDirtyPath cfg u k d (LeafNode p) = LeafNode p"
| "markDirtyPath cfg u 0 d (InternalNode ch c d' dirty) = InternalNode ch c d' True"
| "markDirtyPath cfg u (Suc k) d (InternalNode ch c d' dirty) =
    (let index = getNodeIndex cfg (u ! d)
     in case ch ! index of
          Some (InternalNode ch2 c2 d2 dirty2) \<Rightarrow>
            InternalNode (ch[index := Some (markDirtyPath cfg u k (d + 1) (InternalNode ch2 c2 d2 dirty2))]) c d' True
        | _ \<Rightarrow> markDirtyPath cfg u k (d + 1) (InternalNode ch c d' True))"

definition shouldExpandLeaf :: "verkle_leaf list \<Rightarrow> verkle_node \<Rightarrow> nat \<Rightarrow> bool" where
  "shouldExpandLeaf L n threshold \<longleftrightarrow>
    length (filter (\<lambda>x. case x of Some (LeafNode p) \<Rightarrow> vl_hasData (L ! p) | _ \<Rightarrow> False) (node_children n)) \<ge> threshold"

fun set_child :: "nat \<Rightarrow> verkle_node \<Rightarrow> verkle_node \<Rightarrow> verkle_node" where
  "set_child i x (InternalNode ch c d dirty) = InternalNode (ch[i := Some x]) c d dirty"
| "set_child i x (LeafNode p) = LeafNode p"

fun set_dirty :: "verkle_node \<Rightarrow> verkle_node" where
  "set_dirty (InternalNode ch c d dirty) = InternalNode ch c d True"
| "set_dirty (LeafNode p) = LeafNode p"

fun node_depth :: "verkle_node \<Rightarrow> nat" where
  "node_depth (InternalNode ch c d dirty) = d"
| "node_depth (LeafNode p) = 0"

text \<open>\<^verbatim>\<open>expandLeaf\<close> on the node that holds the leaf \<open>p\<close> at \<open>leafIndex\<close>; the first component is that node.
  Every caller holds the lock, so \<open>expandDepth\<close> never returns here.\<close>

definition expandLeaf :: "verkle_node \<Rightarrow> nat \<Rightarrow> nat \<Rightarrow> verkle \<Rightarrow> (verkle_node \<times> verkle) verkle_result" where
  "expandLeaf parentNode leafIndex p s =
    (let d = node_depth parentNode + 1;
         split = (\<lambda>s. if d \<ge> StemSize then VPanic else
           VDone (set_dirty (set_child leafIndex (InternalNode ((replicate (vc_NodeWidth (v_config s)) None)
             [getNodeIndex (v_config s) (vl_stem (v_leaves s ! p) ! d) := Some (LeafNode p)]) None d True) parentNode), s))
     in if d \<ge> v_currentDepth s then
          (if vc_AutoGrowDepth (v_config s) \<and> v_currentDepth s < vc_MaxLevels (v_config s) then
             (case expandDepth s of VDone s' \<Rightarrow> split s' | VErr err \<Rightarrow> VErr err | VDeadlock \<Rightarrow> VDeadlock | VPanic \<Rightarrow> VPanic)
           else VDone (parentNode, s))
        else split s)"

definition hex_nibble :: "u8 \<Rightarrow> u8" where
  "hex_nibble d = (if d < 10 then 48 + d else 87 + d)"

definition data_key :: "bytes \<Rightarrow> bytes" where
  "data_key u = map of_char ''data:'' @ concat (map (\<lambda>b. [hex_nibble (drop_bit 4 b), hex_nibble (b AND 15)]) u)"

definition new_leaf :: "bytes \<Rightarrow> bytes option \<Rightarrow> verkle_leaf" where
  "new_leaf u data = \<lparr>vl_userIDHash = u, vl_stem = take StemSize u, vl_dataKey = data_key u, vl_inMemoryData = data,
    vl_commitment = None, vl_dirty = True, vl_hasData = True\<rparr>"

text \<open>One pass of \<^verbatim>\<open>insert\<close>: it returns, or calls itself in the state \<open>Retry\<close>.\<close>

datatype pass = Return "verkle verkle_result" | Retry verkle

definition finish_insert :: "bytes \<Rightarrow> verkle \<Rightarrow> verkle" where
  "finish_insert u s = s\<lparr>v_nodeCache := nc_Invalidate u (v_nodeCache s),
    v_root := markDirtyPath (v_config s) u (vc_Levels (v_config s) - 1) 0 (v_root s)\<rparr>"

definition insert_pass :: "bytes \<Rightarrow> bytes option \<Rightarrow> verkle \<Rightarrow> pass" where
  "insert_pass u data s =
    (let cfg = v_config s; stem = take StemSize u; k = vc_Levels cfg - 1;
         rebuild = (\<lambda>f s. s\<lparr>v_root := descend cfg (v_leaves s) stem f k 0 (v_root s)\<rparr>)
     in if length u \<noteq> 32 then Return (VErr ErrInvalidKey)
        else if vc_Levels cfg > StemSize then Return VPanic
        else
          let node = bottom cfg (v_leaves s) stem k 0 (v_root s);
              leafIndex = getNodeIndex cfg (stem ! k);
              threshold = (vc_NodeWidth cfg + 1) div 2
          in case node_children node ! leafIndex of
               None \<Rightarrow>
                 let p = length (v_leaves s)
                 in Return (VDone (finish_insert u ((rebuild (set_child leafIndex (LeafNode p)) s)
                      \<lparr>v_leaves := v_leaves s @ [new_leaf u data], v_nodeIndex := AList.update u p (v_nodeIndex s)\<rparr>)))
             | Some (InternalNode _ _ _ _) \<Rightarrow> Return (VErr ErrNotALeaf)
             | Some (LeafNode p) \<Rightarrow>
                 let leaf = v_leaves s ! p
                 in if vl_hasData leaf \<and> vl_userIDHash leaf \<noteq> u \<and> shouldExpandLeaf (v_leaves s) node threshold then
                      (case expandLeaf node leafIndex p s of
                         VDone (node', s') \<Rightarrow> Retry (rebuild (\<lambda>_. node') s')
                       | VErr err \<Rightarrow> Return (VErr err) | VDeadlock \<Rightarrow> Return VDeadlock | VPanic \<Rightarrow> Return VPanic)
                    else Return (VDone (finish_insert u ((rebuild id s)\<lparr>v_leaves :=
                      (v_leaves s)[p := leaf\<lparr>vl_inMemoryData := data, vl_hasData := True, vl_dirty := True\<rparr>]\<rparr>))))"

partial_function (option) verkle_insert :: "bytes \<Rightarrow> bytes option \<Rightarrow> verkle \<Rightarrow> verkle verkle_result option" where
  [code]: "verkle_insert u data s = (case insert_pass u data s of Return r \<Rightarrow> Some r | Retry s' \<Rightarrow> verkle_insert u data s')"

end
