(* ===== verification/VerkleCommit.thy ===== *)
theory VerkleCommit
  imports Verkle
begin

text \<open>
  The Verkle tree, continued: recomputing commitments sequentially and in parallel
  (\<^verbatim>\<open>verkle_parallel.go\<close>), batches, the asynchronous mode, and reading.

  \<^item> Goroutines that commit different nodes share nothing, so they run one after the other, in an order
    that is a parameter.
  \<^item> The commit worker takes a whole task in one step: its race with later batches is not modelled.
\<close>

subsection \<open>Recomputing commitments\<close>

text \<open>The state is the list of leaves. \<open>commit_leaves\<close> is the loop over collected leaves.\<close>

fun commit_leaves :: "'f crypto \<Rightarrow> nat list \<Rightarrow> verkle_leaf list \<Rightarrow> verkle_leaf list option" where
  "commit_leaves C [] L = Some L"
| "commit_leaves C (p # ps) L = (case leaf_Commit C (L ! p) of
     None \<Rightarrow> None
   | Some l \<Rightarrow> commit_leaves C ps (L[p := l]))"

definition dirty_leaf :: "verkle_leaf list \<Rightarrow> verkle_node option \<Rightarrow> nat list" where
  "dirty_leaf L x = (case x of Some (LeafNode p) \<Rightarrow> if vl_dirty (L ! p) then [p] else [] | _ \<Rightarrow> [])"

fun node_dirty :: "verkle_leaf list \<Rightarrow> verkle_node \<Rightarrow> bool" where
  "node_dirty L (LeafNode p) = vl_dirty (L ! p)"
| "node_dirty L (InternalNode ch c d dirty) = dirty"

text \<open>The commitments of inner nodes collected as dirty, and of the node itself.\<close>

definition commit_dirty :: "'f crypto \<Rightarrow> verkle_config \<Rightarrow> verkle_leaf list \<Rightarrow> verkle_node \<Rightarrow> verkle_node option" where
  "commit_dirty C cfg L n = (if node_dirty L n then internal_Commit C cfg L n else Some n)"

fun commit_internals :: "'f crypto \<Rightarrow> verkle_config \<Rightarrow> verkle_leaf list \<Rightarrow> verkle_node option list \<Rightarrow> verkle_node option list option" where
  "commit_internals C cfg L [] = Some []"
| "commit_internals C cfg L (Some (InternalNode ch c d dirty) # xs) = (case commit_dirty C cfg L (InternalNode ch c d dirty) of
     None \<Rightarrow> None
   | Some n \<Rightarrow> map_option (Cons (Some n)) (commit_internals C cfg L xs))"
| "commit_internals C cfg L (x # xs) = map_option (Cons x) (commit_internals C cfg L xs)"

fun recomputeCommitments :: "'f crypto \<Rightarrow> verkle_config \<Rightarrow> verkle_node \<Rightarrow> verkle_leaf list \<Rightarrow> (verkle_node \<times> verkle_leaf list) option"
and recompute_kids :: "'f crypto \<Rightarrow> verkle_config \<Rightarrow> verkle_node option list \<Rightarrow> verkle_leaf list \<Rightarrow>
    (verkle_node option list \<times> nat list \<times> verkle_leaf list) option" where
  "recomputeCommitments C cfg (LeafNode p) L = Some (LeafNode p, L)"
| "recomputeCommitments C cfg (InternalNode ch c d dirty) L = (case recompute_kids C cfg ch L of
     None \<Rightarrow> None
   | Some (ch1, dirtyLeaves, L1) \<Rightarrow> (case commit_leaves C dirtyLeaves L1 of
       None \<Rightarrow> None
     | Some L2 \<Rightarrow> (case commit_internals C cfg L2 ch1 of
         None \<Rightarrow> None
       | Some ch2 \<Rightarrow> map_option (\<lambda>n. (n, L2)) (commit_dirty C cfg L2 (InternalNode ch2 c d dirty)))))"
| "recompute_kids C cfg [] L = Some ([], [], L)"
| "recompute_kids C cfg (Some (InternalNode ch c d dirty) # xs) L = (case recomputeCommitments C cfg (InternalNode ch c d dirty) L of
     None \<Rightarrow> None
   | Some (n, L1) \<Rightarrow> map_option (\<lambda>(ys, ps, L2). (Some n # ys, ps, L2)) (recompute_kids C cfg xs L1))"
| "recompute_kids C cfg (x # xs) L =
     map_option (\<lambda>(ys, ps, L1). (x # ys, dirty_leaf L x @ ps, L1)) (recompute_kids C cfg xs L)"

text \<open>\<^verbatim>\<open>parallelCommitLevel\<close>: the subtrees as tasks, run in the order of \<open>ord\<close> when there are enough of them.\<close>

type_synonym subtree_task = "verkle_leaf list \<Rightarrow> (verkle_node \<times> verkle_leaf list) option"

fun run_tasks :: "nat list \<Rightarrow> subtree_task option list \<Rightarrow> verkle_node option list \<Rightarrow> verkle_leaf list \<Rightarrow>
    (verkle_node option list \<times> verkle_leaf list) option" where
  "run_tasks [] tasks ch L = Some (ch, L)"
| "run_tasks (i # is) tasks ch L = (case tasks ! i of
     None \<Rightarrow> run_tasks is tasks ch L
   | Some t \<Rightarrow> (case t L of None \<Rightarrow> None | Some (n, L1) \<Rightarrow> run_tasks is tasks (ch[i := Some n]) L1))"

definition scheduled :: "parallel_config \<Rightarrow> (nat list \<Rightarrow> nat list) \<Rightarrow> nat list \<Rightarrow> nat list" where
  "scheduled pc ord xs = (if length xs < pc_MinNodesForParallel pc then xs else ord xs)"

fun is_internal :: "verkle_node option \<Rightarrow> bool" where
  "is_internal (Some (InternalNode ch c d dirty)) \<longleftrightarrow> True"
| "is_internal _ \<longleftrightarrow> False"

definition internal_indices :: "verkle_node option list \<Rightarrow> nat list" where
  "internal_indices ch = filter (\<lambda>i. is_internal (ch ! i)) [0..<length ch]"

fun parallelCommitLevel :: "'f crypto \<Rightarrow> verkle_config \<Rightarrow> parallel_config \<Rightarrow> (nat list \<Rightarrow> nat list) \<Rightarrow> verkle_node \<Rightarrow> subtree_task" where
  "parallelCommitLevel C cfg pc ord (LeafNode p) = (\<lambda>L. Some (LeafNode p, L))"
| "parallelCommitLevel C cfg pc ord (InternalNode ch c d dirty) = (\<lambda>L.
    let tasks = map (map_option (parallelCommitLevel C cfg pc ord)) ch;
        leafNodes = concat (map (dirty_leaf L) ch)
    in case run_tasks (scheduled pc ord (internal_indices ch)) tasks ch L of
         None \<Rightarrow> None
       | Some (ch1, L1) \<Rightarrow> (case commit_leaves C (scheduled pc ord leafNodes) L1 of
           None \<Rightarrow> None
         | Some L2 \<Rightarrow> map_option (\<lambda>n. (n, L2)) (commit_dirty C cfg L2 (InternalNode ch1 c d dirty))))"

definition recompute_root :: "'f crypto \<Rightarrow> (nat list \<Rightarrow> nat list) \<Rightarrow> verkle \<Rightarrow> verkle verkle_result" where
  "recompute_root C ord s =
    (case (if pc_Enabled (v_parallelConfig s)
           then parallelCommitLevel C (v_config s) (v_parallelConfig s) ord (v_root s) (v_leaves s)
           else recomputeCommitments C (v_config s) (v_root s) (v_leaves s)) of
       None \<Rightarrow> VErr ErrCommit
     | Some (n, L) \<Rightarrow> VDone (s\<lparr>v_root := n, v_leaves := L\<rparr>))"

subsection \<open>Batches\<close>

record batch =
  ba_updates :: "(bytes \<times> bytes option) list"
  ba_closed :: bool

definition BeginBatch :: batch where
  "BeginBatch = \<lparr>ba_updates = [], ba_closed = False\<rparr>"

definition HashUserID :: "'f crypto \<Rightarrow> bytes \<Rightarrow> bytes" where
  "HashUserID C userID = arr32 (c_blake3 C userID)"

definition Batch_Add :: "'f crypto \<Rightarrow> bytes \<Rightarrow> bytes option \<Rightarrow> batch \<Rightarrow> batch verkle_result" where
  "Batch_Add C userID data b =
    (if ba_closed b then VErr ErrClosed
     else if (case data of None \<Rightarrow> 0 | Some x \<Rightarrow> length x) > MaxValueSize then VErr ErrValueTooLarge
     else VDone (b\<lparr>ba_updates := AList.update (HashUserID C userID) data (ba_updates b)\<rparr>))"

fun insert_all :: "(bytes \<times> bytes option) list \<Rightarrow> verkle \<Rightarrow> verkle verkle_result option" where
  "insert_all [] s = Some (VDone s)"
| "insert_all ((u, data) # us) s =
    (let s1 = s\<lparr>v_dataStore := map_option (\<lambda>m. m(data_key u \<mapsto> (case data of None \<Rightarrow> [] | Some x \<Rightarrow> x))) (v_dataStore s)\<rparr>
     in case verkle_insert u data s1 of
          None \<Rightarrow> None
        | Some (VDone s2) \<Rightarrow> insert_all us s2
        | Some r \<Rightarrow> Some r)"

definition root_hash :: "verkle \<Rightarrow> bytes" where
  "root_hash s = verkle_Hash (v_leaves s) (v_root s)"

fun root_commitment :: "verkle_node \<Rightarrow> bytes option" where
  "root_commitment (InternalNode ch c d dirty) = c"
| "root_commitment (LeafNode p) = None"

text \<open>The asynchronous commit: a provisional root from the child hashes as they are, and a task for the
  worker, or a synchronous commit when the queue of 10 is full.\<close>

definition commitBatchAsyncParallel :: "'f crypto \<Rightarrow> (nat list \<Rightarrow> nat list) \<Rightarrow> verkle \<Rightarrow> (bytes \<times> verkle) verkle_result" where
  "commitBatchAsyncParallel C ord s =
    (let tempRoot = c_blake3 C (concat (map (\<lambda>x. case x of None \<Rightarrow> [] | Some n \<Rightarrow> verkle_Hash (v_leaves s) n) (node_children (v_root s))));
         s1 = s\<lparr>v_pendingRoot := Some tempRoot\<rparr>
     in if v_queueClosed s1 then VPanic
        else if v_queue s1 < 10 then VDone (tempRoot, s1\<lparr>v_queue := v_queue s1 + 1\<rparr>)
        else case recompute_root C ord s1 of
               VDone s2 \<Rightarrow> VDone (root_hash s2, s2)
             | VErr err \<Rightarrow> VErr err | VDeadlock \<Rightarrow> VDeadlock | VPanic \<Rightarrow> VPanic)"

text \<open>\<open>upds\<close> are the updates of the batch in the order of the range loop.\<close>

definition commit_locked :: "'f crypto \<Rightarrow> (nat list \<Rightarrow> nat list) \<Rightarrow> (bytes \<times> bytes option) list \<Rightarrow> verkle \<Rightarrow>
    (bytes \<times> verkle) verkle_result option" where
  "commit_locked C ord upds s =
    (let s1 = s\<lparr>v_previousRoot := (case root_commitment (v_root s) of None \<Rightarrow> v_previousRoot s | Some c \<Rightarrow> Some c)\<rparr>
     in case (if needsDepthExpansion s1 then expandDepth s1 else VDone s1) of
          VDone s2 \<Rightarrow> (case insert_all upds s2 of
            None \<Rightarrow> None
          | Some (VDone s3) \<Rightarrow> Some
              (if v_asyncMode s3 then commitBatchAsyncParallel C ord s3
               else case recompute_root C ord s3 of
                      VDone s4 \<Rightarrow> VDone (root_hash s4, s4)
                    | VErr err \<Rightarrow> VErr err | VDeadlock \<Rightarrow> VDeadlock | VPanic \<Rightarrow> VPanic)
          | Some (VErr err) \<Rightarrow> Some (VErr err) | Some VDeadlock \<Rightarrow> Some VDeadlock | Some VPanic \<Rightarrow> Some VPanic)
        | VErr err \<Rightarrow> Some (VErr err) | VDeadlock \<Rightarrow> Some VDeadlock | VPanic \<Rightarrow> Some VPanic)"

definition CommitBatch :: "'f crypto \<Rightarrow> (nat list \<Rightarrow> nat list) \<Rightarrow> (bytes \<times> bytes option) list \<Rightarrow> verkle \<Rightarrow>
    (bytes \<times> verkle) verkle_result option" where
  "CommitBatch C ord upds s =
    (if v_mu s then Some VDeadlock
     else case commit_locked C ord upds (s\<lparr>v_mu := True\<rparr>) of
            Some (VDone (root, s')) \<Rightarrow> Some (VDone (root, s'\<lparr>v_mu := False\<rparr>))
          | r \<Rightarrow> r)"

subsection \<open>Modes\<close>

definition EnableAsyncCommit :: "verkle \<Rightarrow> verkle verkle_result" where
  "EnableAsyncCommit = with_lock (\<lambda>s. VDone (s\<lparr>v_asyncMode := True\<rparr>))"

text \<open>A worker takes a task and commits the root; without an error the result is stored as the root.\<close>

definition commitWorker :: "'f crypto \<Rightarrow> verkle \<Rightarrow> verkle" where
  "commitWorker C s =
    (if v_queue s = 0 then s
     else let s1 = s\<lparr>v_queue := v_queue s - 1\<rparr>
          in case recomputeCommitments C (v_config s1) (v_root s1) (v_leaves s1) of
               None \<Rightarrow> s1
             | Some (n, L) \<Rightarrow> s1\<lparr>v_root := n, v_leaves := L\<rparr>)"

text \<open>\<^verbatim>\<open>DisableAsyncCommit\<close> up to the wait for the workers.\<close>

definition DisableAsyncCommit :: "verkle \<Rightarrow> verkle verkle_result" where
  "DisableAsyncCommit s =
    (if v_mu s then VDeadlock
     else if \<not> v_asyncMode s then VDone s
     else if v_queueClosed s then VPanic
     else VDone (s\<lparr>v_asyncMode := False, v_queueClosed := True\<rparr>))"

definition EnableParallelCommits :: "nat \<Rightarrow> nat \<Rightarrow> verkle \<Rightarrow> verkle verkle_result" where
  "EnableParallelCommits numCPU workers = with_lock (\<lambda>s. VDone (s\<lparr>v_parallelConfig :=
     \<lparr>pc_Workers = (if workers = 0 then numCPU else workers), pc_MinNodesForParallel = 4, pc_Enabled = True\<rparr>\<rparr>))"

definition DisableParallelCommits :: "verkle \<Rightarrow> verkle verkle_result" where
  "DisableParallelCommits = with_lock (\<lambda>s. VDone (s\<lparr>v_parallelConfig := (v_parallelConfig s)\<lparr>pc_Enabled := False\<rparr>\<rparr>))"

datatype optimization = OptimizationNone | OptimizationBasic | OptimizationParallel | OptimizationAsync | OptimizationMax

fun andThen :: "verkle verkle_result \<Rightarrow> (verkle \<Rightarrow> verkle verkle_result) \<Rightarrow> verkle verkle_result" where
  "andThen (VDone s) f = f s"
| "andThen r f = r"

definition SetOptimizationLevel :: "nat \<Rightarrow> optimization \<Rightarrow> verkle \<Rightarrow> verkle verkle_result" where
  "SetOptimizationLevel numCPU level = with_lock (\<lambda>s.
    let stop = (\<lambda>s. if v_asyncMode s then DisableAsyncCommit s else VDone s)
    in case level of
         OptimizationNone \<Rightarrow> andThen (DisableParallelCommits (s\<lparr>v_lazyCommit := False\<rparr>)) stop
       | OptimizationBasic \<Rightarrow> andThen (DisableParallelCommits (s\<lparr>v_lazyCommit := True\<rparr>)) stop
       | OptimizationParallel \<Rightarrow> andThen (EnableParallelCommits numCPU 0 (s\<lparr>v_lazyCommit := True\<rparr>)) stop
       | OptimizationAsync \<Rightarrow> andThen (DisableParallelCommits (s\<lparr>v_lazyCommit := True\<rparr>)) EnableAsyncCommit
       | OptimizationMax \<Rightarrow> andThen (EnableParallelCommits numCPU 0 (s\<lparr>v_lazyCommit := True\<rparr>)) EnableAsyncCommit)"

subsection \<open>Reading\<close>

definition leaf_value :: "verkle \<Rightarrow> nat \<Rightarrow> verkle_error + bytes option" where
  "leaf_value s p = (case v_dataStore s of
     None \<Rightarrow> Inr (vl_inMemoryData (v_leaves s ! p))
   | Some m \<Rightarrow> (case m (vl_dataKey (v_leaves s ! p)) of None \<Rightarrow> Inl ErrRead | Some x \<Rightarrow> Inr (Some x)))"

definition verkle_get :: "bytes \<Rightarrow> verkle \<Rightarrow> (verkle_error + bytes option) \<times> verkle" where
  "verkle_get u s =
    (if length u \<noteq> 32 then (Inl ErrInvalidKey, s)
     else
       let (hit, nc) = nc_Get u (v_nodeCache s);
           s1 = s\<lparr>v_nodeCache := nc\<rparr>;
           miss = (case map_of (v_nodeIndex s1) u of
               None \<Rightarrow> (Inl ErrKeyNotFound, s1)
             | Some p \<Rightarrow>
                 if \<not> vl_hasData (v_leaves s1 ! p) then (Inl ErrKeyNotFound, s1)
                 else let s2 = s1\<lparr>v_nodeCache := nc_Put u p (v_nodeCache s1)\<rparr>
                      in if v_dataStore s2 = None \<and> vl_inMemoryData (v_leaves s2 ! p) = None then (Inl ErrKeyNotFound, s2)
                         else (leaf_value s2 p, s2))
       in case hit of
            Some p \<Rightarrow> if vl_hasData (v_leaves s1 ! p) then (leaf_value s1 p, s1) else miss
          | None \<Rightarrow> miss)"

definition verkle_Get :: "'f crypto \<Rightarrow> bytes \<Rightarrow> verkle \<Rightarrow> (verkle_error + bytes option) \<times> verkle" where
  "verkle_Get C userID s = verkle_get (HashUserID C userID) s"

fun get_multiple :: "bytes list \<Rightarrow> verkle \<Rightarrow> (verkle_error + bytes option list) \<times> verkle" where
  "get_multiple [] s = (Inr [], s)"
| "get_multiple (u # us) s = (case verkle_get u s of
     (Inr data, s1) \<Rightarrow> (case get_multiple us s1 of (r, s2) \<Rightarrow> (map_sum id (Cons data) r, s2))
   | (Inl err, s1) \<Rightarrow> if err = ErrKeyNotFound
       then (case get_multiple us s1 of (r, s2) \<Rightarrow> (map_sum id (Cons None) r, s2)) else (Inl err, s1))"

definition verkle_GetMultiple :: "'f crypto \<Rightarrow> bytes list \<Rightarrow> verkle \<Rightarrow> (verkle_error + bytes option list) \<times> verkle" where
  "verkle_GetMultiple C userIDs s = get_multiple (map (HashUserID C) userIDs) s"

definition HasByHash :: "bytes \<Rightarrow> verkle \<Rightarrow> bool" where
  "HasByHash u s = (case map_of (v_nodeIndex s) u of None \<Rightarrow> False | Some p \<Rightarrow> vl_hasData (v_leaves s ! p))"

definition verkle_Has :: "'f crypto \<Rightarrow> bytes \<Rightarrow> verkle \<Rightarrow> bool" where
  "verkle_Has C userID s = HasByHash (HashUserID C userID) s"

definition verkle_GetRoot :: "verkle \<Rightarrow> bytes option" where
  "verkle_GetRoot s = (case root_commitment (v_root s) of None \<Rightarrow> None | Some c \<Rightarrow> Some (root_hash s))"

definition GetNodeCount :: "verkle \<Rightarrow> nat" where
  "GetNodeCount s = length (v_nodeIndex s)"

end
