(* ===== verification/VerkleTree.thy ===== *)
theory VerkleTree
  imports VerkleCommit
begin

text \<open>
  The shape of the Verkle tree and what an insertion does to it: which leaf lies at which path, and which
  commitments are up to date.
\<close>

subsection \<open>Indices and paths\<close>

definition cfg_ok :: "verkle_config \<Rightarrow> bool" where
  "cfg_ok cfg \<longleftrightarrow> (\<exists>b. 0 < b \<and> vc_NodeWidth cfg = 2 ^ b \<and> vc_NodeMask cfg = mask b)
    \<and> 0 < vc_Levels cfg \<and> vc_Levels cfg \<le> StemSize"

lemma index_less: "cfg_ok cfg \<Longrightarrow> getNodeIndex cfg b < vc_NodeWidth cfg"
  by (auto simp: cfg_ok_def getNodeIndex_def take_bit_eq_mask [symmetric])

definition path_from :: "verkle_config \<Rightarrow> bytes \<Rightarrow> nat \<Rightarrow> nat \<Rightarrow> nat list" where
  "path_from cfg u d k = map (\<lambda>j. getNodeIndex cfg (u ! j)) [d..<d + k]"

lemma path_from_simps [simp]:
  "path_from cfg u d 0 = []" "path_from cfg u d (Suc k) = getNodeIndex cfg (u ! d) # path_from cfg u (Suc d) k"
  "length (path_from cfg u d k) = k"
  by (simp_all add: path_from_def upt_conv_Cons del: upt_Suc)

lemma path_from_snoc: "path_from cfg u d (Suc k) = path_from cfg u d k @ [getNodeIndex cfg (u ! (d + k))]"
  by (simp add: path_from_def)

text \<open>The slot of a user.\<close>

definition slot :: "verkle_config \<Rightarrow> bytes \<Rightarrow> nat list" where
  "slot cfg u = path_from cfg u 0 (vc_Levels cfg)"

subsection \<open>Leaves by path\<close>

lemma verkle_induct [case_names Leaf Internal]:
  assumes "\<And>p. P (LeafNode p)" "\<And>ch c d dirty. (\<And>m. Some m \<in> set ch \<Longrightarrow> P m) \<Longrightarrow> P (InternalNode ch c d dirty)"
  shows "P n"
  by (induction n) (auto intro: assms)

lemma kids_simps [simp]:
  "(\<exists>x\<in>set ch. \<exists>m\<in>set_option x. Q m) \<longleftrightarrow> (\<exists>m. Some m \<in> set ch \<and> Q m)"
  "(\<forall>x\<in>set ch. \<forall>m\<in>set_option x. Q m) \<longleftrightarrow> (\<forall>m. Some m \<in> set ch \<longrightarrow> Q m)"
  by (force, force)

lemma kids_map_cong: "(\<And>m. Some m \<in> set ch \<Longrightarrow> f m = g m) \<Longrightarrow> map (map_option f) ch = map (map_option g) ch"
  by (intro map_cong option.map_cong refl) auto

fun ptr_at :: "verkle_node \<Rightarrow> nat list \<Rightarrow> nat option" where
  "ptr_at (LeafNode p) [] = Some p"
| "ptr_at (InternalNode ch c d dirty) (i # js) = (if i < length ch then case ch ! i of None \<Rightarrow> None | Some n \<Rightarrow> ptr_at n js else None)"
| "ptr_at _ _ = None"

fun wf_node :: "nat \<Rightarrow> nat \<Rightarrow> nat \<Rightarrow> nat \<Rightarrow> verkle_node \<Rightarrow> bool" where
  "wf_node W N 0 d n \<longleftrightarrow> (\<exists>p. n = LeafNode p \<and> p < N)"
| "wf_node W N (Suc k) d n \<longleftrightarrow> (\<exists>ch c dirty. n = InternalNode ch c d dirty \<and> length ch = W
    \<and> (\<forall>m. Some m \<in> set ch \<longrightarrow> wf_node W N k (Suc d) m \<and> (\<exists>p. ptr_at m p \<noteq> None)))"

lemma wf_node_mono: "wf_node W N k d n \<Longrightarrow> N \<le> N' \<Longrightarrow> wf_node W N' k d n"
proof (induction k arbitrary: d n)
  case (Suc k)
  then obtain ch c dirty where n: "n = InternalNode ch c d dirty" "length ch = W"
    and ch: "\<forall>m. Some m \<in> set ch \<longrightarrow> wf_node W N k (Suc d) m \<and> (\<exists>p. ptr_at m p \<noteq> None)" by auto
  have "\<forall>m. Some m \<in> set ch \<longrightarrow> wf_node W N' k (Suc d) m \<and> (\<exists>p. ptr_at m p \<noteq> None)"
    using ch Suc.IH [OF _ Suc.prems(2)] by blast
  then show ?case using n by simp
qed auto

lemma ptr_at_wf: "wf_node W N k d n \<Longrightarrow> ptr_at n q = Some p \<Longrightarrow> length q = k \<and> p < N"
proof (induction k arbitrary: d n q)
  case 0
  then show ?case by (cases q) auto
next
  case (Suc k)
  then obtain ch c dirty where n: "n = InternalNode ch c d dirty"
    and ch: "\<forall>m. Some m \<in> set ch \<longrightarrow> wf_node W N k (Suc d) m" by auto
  from Suc.prems(2) n obtain i js m where q: "q = i # js" "i < length ch" "ch ! i = Some m" "ptr_at m js = Some p"
    by (cases q) (auto split: if_splits option.splits)
  have "Some m \<in> set ch" using q(2,3) nth_mem by metis
  then show ?case using Suc.IH [OF _ q(4)] ch q(1) by auto
qed

subsection \<open>Descending\<close>

text \<open>At a node of height \<open>Suc k\<close> the loop finds an inner node at each of its \<open>k\<close> steps.\<close>

lemma wf_new_internal: "wf_node W N (Suc k) d (new_internal cfg d) \<longleftrightarrow> W = vc_NodeWidth cfg"
  by (auto simp: new_internal_def)

lemma step_into_wf:
  assumes "wf_node (vc_NodeWidth cfg) N (Suc (Suc k)) d (InternalNode ch c d dirty)" "i < length ch"
  shows "wf_node (vc_NodeWidth cfg) N (Suc k) (Suc d) (step_into cfg L d (ch ! i))"
    "ptr_at (step_into cfg L d (ch ! i)) q = ptr_at (InternalNode ch c d dirty) (i # q)"
proof -
  have "wf_node (vc_NodeWidth cfg) N (Suc k) (Suc d) (step_into cfg L d (ch ! i))
    \<and> ptr_at (step_into cfg L d (ch ! i)) q = ptr_at (InternalNode ch c d dirty) (i # q)"
  proof (cases "ch ! i")
    case None
    have "ptr_at (new_internal cfg (Suc d)) q = None" by (cases q) (simp_all add: new_internal_def)
    then show ?thesis using None assms(2) wf_new_internal by (simp add: step_into_def del: wf_node.simps)
  next
    case (Some m)
    then have "Some m \<in> set ch" using assms(2) nth_mem by metis
    then have w: "wf_node (vc_NodeWidth cfg) N (Suc k) (Suc d) m" using assms(1) by simp
    then show ?thesis using Some assms(2) by (auto simp: step_into_def)
  qed
  then show "wf_node (vc_NodeWidth cfg) N (Suc k) (Suc d) (step_into cfg L d (ch ! i))"
    "ptr_at (step_into cfg L d (ch ! i)) q = ptr_at (InternalNode ch c d dirty) (i # q)" by blast+
qed

lemma bottom_wf:
  assumes "cfg_ok cfg" "wf_node (vc_NodeWidth cfg) N (Suc k) d n"
  shows "\<exists>ch c dirty. bottom cfg L u k d n = InternalNode ch c (d + k) dirty \<and> length ch = vc_NodeWidth cfg
    \<and> (\<forall>i m. i < length ch \<and> ch ! i = Some m \<longrightarrow> (\<exists>p. m = LeafNode p \<and> p < N))
    \<and> (\<forall>i p. i < length ch \<longrightarrow> (ch ! i = Some (LeafNode p) \<longleftrightarrow> ptr_at n (path_from cfg u d k @ [i]) = Some p))"
  using assms(2)
proof (induction k arbitrary: d n)
  case 0
  then obtain ch c dirty where n: "n = InternalNode ch c d dirty" "length ch = vc_NodeWidth cfg"
    and ch: "\<forall>m. Some m \<in> set ch \<longrightarrow> (\<exists>p. m = LeafNode p \<and> p < N)" by auto
  have leaf: "\<exists>p. m = LeafNode p \<and> p < N" if "i < length ch" "ch ! i = Some m" for i m
    using ch that nth_mem [of i ch] by metis
  have at: "ptr_at n [i] = Some p \<longleftrightarrow> ch ! i = Some (LeafNode p)" if "i < length ch" for i p
    using that leaf [of i] by (auto simp: n split: option.split)
  show ?case using n leaf at by auto
next
  case (Suc k)
  then obtain ch c dirty where n: "n = InternalNode ch c d dirty" and len: "length ch = vc_NodeWidth cfg" by auto
  let ?i = "getNodeIndex cfg (u ! d)"
  have i: "?i < length ch" using index_less [OF assms(1)] len by simp
  have w: "wf_node (vc_NodeWidth cfg) N (Suc (Suc k)) d (InternalNode ch c d dirty)" using Suc.prems n by simp
  from Suc.IH [OF step_into_wf(1) [OF w i, where L = L]] show ?case
    by (simp add: n step_into_wf(2) [OF w i] del: ptr_at.simps wf_node.simps)
qed

lemma descend_cong: "f (bottom cfg L u k d n) = g (bottom cfg L u k d n) \<Longrightarrow> descend cfg L u f k d n = descend cfg L u g k d n"
  by (induction cfg L u f k d n rule: descend.induct) (simp_all add: Let_def)

text \<open>Putting a leaf at the end of its path.\<close>

lemma descend_leaf:
  assumes "cfg_ok cfg" "wf_node (vc_NodeWidth cfg) N (Suc k) d n" "i < vc_NodeWidth cfg" "p < N"
  shows "wf_node (vc_NodeWidth cfg) N (Suc k) d (descend cfg L u (set_child i (LeafNode p)) k d n)
    \<and> (\<forall>q. ptr_at (descend cfg L u (set_child i (LeafNode p)) k d n) q =
      (if q = path_from cfg u d k @ [i] then Some p else ptr_at n q))"
  using assms(2)
proof (induction k arbitrary: d n)
  case 0
  then obtain ch c dirty where n: "n = InternalNode ch c d dirty" and len: "length ch = vc_NodeWidth cfg"
    and ch: "\<forall>m. Some m \<in> set ch \<longrightarrow> (\<exists>p. m = LeafNode p \<and> p < N) \<and> (\<exists>q. ptr_at m q \<noteq> None)" by auto
  have "\<exists>q. ptr_at (LeafNode p) q \<noteq> None" by (rule exI [of _ "[]"]) simp
  then have w: "\<forall>m. Some m \<in> set (ch[i := Some (LeafNode p)]) \<longrightarrow> (\<exists>p. m = LeafNode p \<and> p < N) \<and> (\<exists>q. ptr_at m q \<noteq> None)"
    using ch assms(4) set_update_subset_insert [of ch i "Some (LeafNode p)"] by blast
  have at: "ptr_at (InternalNode (ch[i := Some (LeafNode p)]) c d dirty) q = (if q = [i] then Some p else ptr_at n q)" for q
  proof (cases q)
    case (Cons j js)
    have "ch ! i = None \<or> (\<exists>p. ch ! i = Some (LeafNode p))"
      using ch assms(3) len nth_mem [of i ch] by (cases "ch ! i") auto
    then have "j = i \<Longrightarrow> js \<noteq> [] \<Longrightarrow> ptr_at n q = None"
      using assms(3) len Cons n by (cases js) auto
    then show ?thesis using Cons assms(3) len n by (cases js) (auto simp: nth_list_update)
  qed (simp add: n)
  show ?case using w at len n by simp
next
  case (Suc k)
  then obtain ch c dirty where n: "n = InternalNode ch c d dirty" and len: "length ch = vc_NodeWidth cfg"
    and ch: "\<forall>m. Some m \<in> set ch \<longrightarrow> wf_node (vc_NodeWidth cfg) N (Suc k) (Suc d) m \<and> (\<exists>q. ptr_at m q \<noteq> None)" by auto
  let ?i = "getNodeIndex cfg (u ! d)"
  have i: "?i < length ch" using index_less [OF assms(1)] len by simp
  have w: "wf_node (vc_NodeWidth cfg) N (Suc (Suc k)) d (InternalNode ch c d dirty)" using Suc.prems n by simp
  let ?m = "descend cfg L u (set_child i (LeafNode p)) k (Suc d) (step_into cfg L d (ch ! ?i))"
  from Suc.IH [OF step_into_wf(1) [OF w i, where L = L]] have m: "wf_node (vc_NodeWidth cfg) N (Suc k) (Suc d) ?m"
    "\<forall>q. ptr_at ?m q = (if q = path_from cfg u (Suc d) k @ [i] then Some p else ptr_at n (?i # q))"
    by (simp_all add: n step_into_wf(2) [OF w i] del: ptr_at.simps wf_node.simps)
  have "\<exists>q. ptr_at ?m q \<noteq> None" using m(2) by (intro exI [of _ "path_from cfg u (Suc d) k @ [i]"]) simp
  then have "\<forall>x. Some x \<in> set (ch[?i := Some ?m]) \<longrightarrow> wf_node (vc_NodeWidth cfg) N (Suc k) (Suc d) x \<and> (\<exists>q. ptr_at x q \<noteq> None)"
    using ch m(1) set_update_subset_insert [of ch ?i "Some ?m"] by blast
  moreover have "ptr_at (InternalNode (ch[?i := Some ?m]) c d dirty) q =
      (if q = path_from cfg u d (Suc k) @ [i] then Some p else ptr_at n q)" for q
    using m(2) i by (cases q) (auto simp: n nth_list_update)
  ultimately show ?case using len n by (simp add: Let_def)
qed

text \<open>Marking a path that ends in a leaf keeps shape and leaves.\<close>

lemma path_child:
  assumes "wf_node W N (Suc (Suc k)) d n" "ptr_at n (i # q) \<noteq> None"
  shows "\<exists>ch c dirty ch2 c2 dirty2. n = InternalNode ch c d dirty \<and> i < length ch \<and> length ch = W
    \<and> ch ! i = Some (InternalNode ch2 c2 (Suc d) dirty2) \<and> wf_node W N (Suc k) (Suc d) (InternalNode ch2 c2 (Suc d) dirty2)
    \<and> ptr_at (InternalNode ch2 c2 (Suc d) dirty2) q = ptr_at n (i # q)"
proof -
  from assms(1) obtain ch c dirty where n: "n = InternalNode ch c d dirty" "length ch = W"
    and ch: "\<forall>m. Some m \<in> set ch \<longrightarrow> wf_node W N (Suc k) (Suc d) m" by auto
  from assms(2) n obtain m where m: "i < length ch" "ch ! i = Some m" by (auto split: if_splits option.splits)
  then have "Some m \<in> set ch" using nth_mem by metis
  then have "wf_node W N (Suc k) (Suc d) m" using ch by blast
  moreover from this obtain ch2 c2 dirty2 where "m = InternalNode ch2 c2 (Suc d) dirty2" by auto
  ultimately show ?thesis using n m by auto
qed

lemma mark_wf:
  assumes "wf_node W N (Suc k) d n" "ptr_at n (path_from cfg u d (Suc k)) \<noteq> None"
  shows "wf_node W N (Suc k) d (markDirtyPath cfg u k d n) \<and> (\<forall>q. ptr_at (markDirtyPath cfg u k d n) q = ptr_at n q)"
  using assms
proof (induction k arbitrary: d n)
  case 0
  then obtain ch c dirty where n: "n = InternalNode ch c d dirty" by auto
  have "ptr_at (InternalNode ch c d True) q = ptr_at n q" for q by (cases q) (simp_all add: n)
  then show ?case using 0 n by auto
next
  case (Suc k)
  let ?i = "getNodeIndex cfg (u ! d)"
  from path_child [OF Suc.prems(1)] Suc.prems(2) obtain ch c dirty ch2 c2 dirty2 where
    n: "n = InternalNode ch c d dirty" "?i < length ch" "length ch = W"
    and m: "ch ! ?i = Some (InternalNode ch2 c2 (Suc d) dirty2)" "wf_node W N (Suc k) (Suc d) (InternalNode ch2 c2 (Suc d) dirty2)"
      "ptr_at (InternalNode ch2 c2 (Suc d) dirty2) (path_from cfg u (Suc d) (Suc k)) = ptr_at n (?i # path_from cfg u (Suc d) (Suc k))"
    by (metis path_from_simps(2))
  let ?m = "InternalNode ch2 c2 (Suc d) dirty2" and ?m' = "markDirtyPath cfg u k (Suc d) (InternalNode ch2 c2 (Suc d) dirty2)"
  have IH: "wf_node W N (Suc k) (Suc d) ?m'" "\<forall>q. ptr_at ?m' q = ptr_at ?m q"
    using Suc.IH [OF m(2)] Suc.prems(2) m(3) by (metis path_from_simps(2))+
  have eq: "markDirtyPath cfg u (Suc k) d n = InternalNode (ch[?i := Some ?m']) c d True"
    unfolding n(1) by (simp add: Let_def m(1))
  have at: "ptr_at (InternalNode (ch[?i := Some ?m']) c d True) q = ptr_at n q" for q
    using IH(2) n(1,2) m(1) by (cases q) (auto simp: nth_list_update)
  have "Some ?m \<in> set ch" using m(1) n(2) nth_mem by metis
  then have "\<exists>q. ptr_at ?m' q \<noteq> None" using Suc.prems(1) n(1) IH(2) by auto
  then have "\<forall>x. Some x \<in> set (ch[?i := Some ?m']) \<longrightarrow> wf_node W N (Suc k) (Suc d) x \<and> (\<exists>q. ptr_at x q \<noteq> None)"
    using Suc.prems(1) n(1) IH(1) set_update_subset_insert [of ch ?i "Some ?m'"] by auto
  then show ?case unfolding eq using at n by auto
qed

subsection \<open>Commitments that are up to date\<close>

fun ptrs :: "verkle_node \<Rightarrow> nat set" where
  "ptrs (LeafNode p) = {p}"
| "ptrs (InternalNode ch c d dirty) = (\<Union>x\<in>set ch. \<Union>m\<in>set_option x. ptrs m)"

definition leaf_fresh :: "'f crypto \<Rightarrow> verkle_leaf \<Rightarrow> bytes" where
  "leaf_fresh C l = the (commitPolynomial C [hashToFieldElement C (vl_userIDHash l)])"

fun fresh :: "'f crypto \<Rightarrow> verkle_config \<Rightarrow> verkle_leaf list \<Rightarrow> verkle_node \<Rightarrow> bytes" where
  "fresh C cfg L (LeafNode p) = leaf_fresh C (L ! p)"
| "fresh C cfg L (InternalNode ch c d dirty) = the (internal_value C cfg d (map (map_option (fresh C cfg L)) ch))"

fun sealed :: "'f crypto \<Rightarrow> verkle_config \<Rightarrow> verkle_leaf list \<Rightarrow> verkle_node \<Rightarrow> verkle_node" where
  "sealed C cfg L (LeafNode p) = LeafNode p"
| "sealed C cfg L (InternalNode ch c d dirty) =
    InternalNode (map (map_option (sealed C cfg L)) ch) (Some (fresh C cfg L (InternalNode ch c d dirty))) d False"

fun clean :: "'f crypto \<Rightarrow> verkle_config \<Rightarrow> verkle_leaf list \<Rightarrow> verkle_node \<Rightarrow> bool" where
  "clean C cfg L (LeafNode p) \<longleftrightarrow> \<not> vl_dirty (L ! p) \<and> vl_commitment (L ! p) = Some (leaf_fresh C (L ! p))"
| "clean C cfg L (InternalNode ch c d dirty) \<longleftrightarrow> \<not> dirty \<and> c = Some (fresh C cfg L (InternalNode ch c d dirty))
    \<and> (\<forall>x\<in>set ch. \<forall>m\<in>set_option x. clean C cfg L m)"

fun marks_ok :: "'f crypto \<Rightarrow> verkle_config \<Rightarrow> verkle_leaf list \<Rightarrow> verkle_node \<Rightarrow> bool" where
  "marks_ok C cfg L (LeafNode p) \<longleftrightarrow> \<not> vl_dirty (L ! p) \<longrightarrow> clean C cfg L (LeafNode p)"
| "marks_ok C cfg L (InternalNode ch c d dirty) \<longleftrightarrow> (\<not> dirty \<longrightarrow> clean C cfg L (InternalNode ch c d dirty))
    \<and> (\<forall>x\<in>set ch. \<forall>m\<in>set_option x. marks_ok C cfg L m)"

lemma ptrs_kid: "Some m \<in> set ch \<Longrightarrow> p \<in> ptrs m \<Longrightarrow> p \<in> ptrs (InternalNode ch c d dirty)"
  by auto

lemma ptrs_at: "p \<in> ptrs n \<longleftrightarrow> (\<exists>q. ptr_at n q = Some p)"
proof (induction n rule: verkle_induct)
  case (Leaf x)
  have "ptr_at (LeafNode x) q = Some p \<Longrightarrow> p = x" for q by (cases q) simp_all
  moreover have "ptr_at (LeafNode x) [] = Some x" by simp
  ultimately show ?case by (metis ptrs.simps(1) singleton_iff)
next
  case (Internal ch c d dirty)
  have "p \<in> ptrs (InternalNode ch c d dirty) \<longleftrightarrow> (\<exists>m. Some m \<in> set ch \<and> (\<exists>q. ptr_at m q = Some p))"
    using Internal by auto
  also have "\<dots> \<longleftrightarrow> (\<exists>i<length ch. \<exists>m q. ch ! i = Some m \<and> ptr_at m q = Some p)"
    unfolding in_set_conv_nth by metis
  also have "\<dots> \<longleftrightarrow> (\<exists>q. ptr_at (InternalNode ch c d dirty) q = Some p)"
  proof
    assume "\<exists>i<length ch. \<exists>m q. ch ! i = Some m \<and> ptr_at m q = Some p"
    then obtain i m q where "i < length ch" "ch ! i = Some m" "ptr_at m q = Some p" by blast
    then show "\<exists>q. ptr_at (InternalNode ch c d dirty) q = Some p" by (intro exI [of _ "i # q"]) simp
  next
    assume "\<exists>q. ptr_at (InternalNode ch c d dirty) q = Some p"
    then obtain q where q: "ptr_at (InternalNode ch c d dirty) q = Some p" by blast
    then show "\<exists>i<length ch. \<exists>m q. ch ! i = Some m \<and> ptr_at m q = Some p"
      by (cases q) (auto split: if_splits option.splits)
  qed
  finally show ?case .
qed

definition same_users :: "verkle_leaf list \<Rightarrow> verkle_leaf list \<Rightarrow> verkle_node \<Rightarrow> bool" where
  "same_users L L' n \<longleftrightarrow> (\<forall>p\<in>ptrs n. vl_userIDHash (L ! p) = vl_userIDHash (L' ! p))"

lemma same_users_kid: "same_users L L' (InternalNode ch c d dirty) \<Longrightarrow> Some m \<in> set ch \<Longrightarrow> same_users L L' m"
  unfolding same_users_def using ptrs_kid by blast

lemma fresh_cong: "same_users L L' n \<Longrightarrow> fresh C cfg L n = fresh C cfg L' n"
proof (induction n rule: verkle_induct)
  case (Internal ch c d dirty)
  have "map (map_option (fresh C cfg L)) ch = map (map_option (fresh C cfg L')) ch"
    by (rule kids_map_cong) (use Internal same_users_kid in blast)
  then show ?case by (simp only: fresh.simps)
qed (simp add: leaf_fresh_def same_users_def)

lemma sealed_cong: "same_users L L' n \<Longrightarrow> sealed C cfg L n = sealed C cfg L' n"
proof (induction n rule: verkle_induct)
  case (Internal ch c d dirty)
  have "map (map_option (sealed C cfg L)) ch = map (map_option (sealed C cfg L')) ch"
    by (rule kids_map_cong) (use Internal same_users_kid in blast)
  then show ?case using fresh_cong [OF Internal.prems] by (simp del: fresh.simps)
qed simp

definition same_leaves :: "verkle_leaf list \<Rightarrow> verkle_leaf list \<Rightarrow> verkle_node \<Rightarrow> bool" where
  "same_leaves L L' n \<longleftrightarrow> (\<forall>p\<in>ptrs n. L ! p = L' ! p)"

lemma same_leaves_kid: "same_leaves L L' (InternalNode ch c d dirty) \<Longrightarrow> Some m \<in> set ch \<Longrightarrow> same_leaves L L' m"
  unfolding same_leaves_def using ptrs_kid by blast

lemma same_leaves_users: "same_leaves L L' n \<Longrightarrow> same_users L L' n"
  by (simp add: same_leaves_def same_users_def)

lemma clean_cong: "same_leaves L L' n \<Longrightarrow> clean C cfg L n = clean C cfg L' n"
proof (induction n rule: verkle_induct)
  case (Internal ch c d dirty)
  have "(\<forall>m. Some m \<in> set ch \<longrightarrow> clean C cfg L m) = (\<forall>m. Some m \<in> set ch \<longrightarrow> clean C cfg L' m)"
    using Internal same_leaves_kid by blast
  then show ?case using fresh_cong [OF same_leaves_users [OF Internal.prems], of C cfg] by (simp del: fresh.simps)
qed (simp add: same_leaves_def)

lemma marks_ok_cong: "same_leaves L L' n \<Longrightarrow> marks_ok C cfg L n = marks_ok C cfg L' n"
proof (induction n rule: verkle_induct)
  case (Internal ch c d dirty)
  have "(\<forall>m. Some m \<in> set ch \<longrightarrow> marks_ok C cfg L m) = (\<forall>m. Some m \<in> set ch \<longrightarrow> marks_ok C cfg L' m)"
    using Internal same_leaves_kid by blast
  then show ?case using clean_cong [OF Internal.prems, of C cfg] by (simp only: marks_ok.simps kids_simps)
qed (simp add: same_leaves_def)

lemma clean_sealed: "clean C cfg L n \<Longrightarrow> sealed C cfg L n = n"
proof (induction n rule: verkle_induct)
  case (Internal ch c d dirty)
  have "map (map_option (sealed C cfg L)) ch = map (map_option id) ch"
    by (rule kids_map_cong) (use Internal in simp)
  then show ?case using Internal.prems by (simp add: option.map_id0)
qed simp

end
