(* ===== verification/VerkleSeal.thy ===== *)
theory VerkleSeal
  imports VerkleTree
begin

text \<open>
  Recomputing commitments, sequentially or in parallel, gives every node the commitment computed from
  scratch, and an insertion marks everything that changes.
\<close>

subsection \<open>Committed leaves\<close>

definition seal_leaf :: "'f crypto \<Rightarrow> verkle_leaf \<Rightarrow> verkle_leaf" where
  "seal_leaf C l = l\<lparr>vl_commitment := Some (leaf_fresh C l), vl_dirty := False\<rparr>"

definition seal :: "'f crypto \<Rightarrow> nat set \<Rightarrow> verkle_leaf list \<Rightarrow> verkle_leaf list" where
  "seal C A L = map (\<lambda>p. if p \<in> A \<and> vl_dirty (L ! p) then seal_leaf C (L ! p) else L ! p) [0..<length L]"

lemma seal_simps [simp]:
  "length (seal C A L) = length L"
  "p < length L \<Longrightarrow> seal C A L ! p = (if p \<in> A \<and> vl_dirty (L ! p) then seal_leaf C (L ! p) else L ! p)"
  "seal C {} L = L"
  by (simp_all add: seal_def map_nth)

lemma seal_leaf_fields [simp]:
  "vl_userIDHash (seal_leaf C l) = vl_userIDHash l" "vl_stem (seal_leaf C l) = vl_stem l"
  "vl_inMemoryData (seal_leaf C l) = vl_inMemoryData l" "vl_hasData (seal_leaf C l) = vl_hasData l"
  "vl_dirty (seal_leaf C l) = False" "vl_commitment (seal_leaf C l) = Some (leaf_fresh C l)"
  "leaf_fresh C (seal_leaf C l) = leaf_fresh C l"
  by (simp_all add: seal_leaf_def leaf_fresh_def)

lemma seal_fields [simp]: "p < length L \<Longrightarrow> vl_userIDHash (seal C A L ! p) = vl_userIDHash (L ! p)"
  by simp

lemma seal_seal: "seal C A (seal C B L) = seal C (A \<union> B) L"
  by (rule nth_equalityI) auto

definition ptrs_in :: "verkle_leaf list \<Rightarrow> verkle_node \<Rightarrow> bool" where
  "ptrs_in L n \<longleftrightarrow> ptrs n \<subseteq> {..<length L}"

lemma ptrs_in_kid: "ptrs_in L (InternalNode ch c d dirty) \<Longrightarrow> Some m \<in> set ch \<Longrightarrow> ptrs_in L m"
  unfolding ptrs_in_def using ptrs_kid by blast

lemma wf_ptrs: "wf_node W (length L) k d n \<Longrightarrow> ptrs_in L n"
  unfolding ptrs_in_def using ptr_at_wf ptrs_at by (metis lessThan_iff subsetI)

lemma seal_users: "ptrs_in L n \<Longrightarrow> same_users (seal C A L) L n"
  by (auto simp: same_users_def ptrs_in_def)

lemma seal_fresh: "ptrs_in L n \<Longrightarrow> fresh C cfg (seal C A L) n = fresh C cfg L n"
  by (rule fresh_cong) (rule seal_users)

lemma seal_sealed: "ptrs_in L n \<Longrightarrow> sealed C cfg (seal C A L) n = sealed C cfg L n"
  by (rule sealed_cong) (rule seal_users)

lemma clean_seal: "ptrs_in L n \<Longrightarrow> clean C cfg L n \<Longrightarrow> clean C cfg (seal C A L) n"
proof (induction n rule: verkle_induct)
  case (Internal ch c d dirty)
  show ?case using Internal ptrs_in_kid [OF Internal.prems(1)] seal_fresh [OF Internal.prems(1), of C cfg A]
    unfolding clean.simps kids_simps by metis
qed (simp add: ptrs_in_def)

lemma marks_ok_seal: "ptrs_in L n \<Longrightarrow> marks_ok C cfg L n \<Longrightarrow> marks_ok C cfg (seal C A L) n"
proof (induction n rule: verkle_induct)
  case (Internal ch c d dirty)
  then show ?case using ptrs_in_kid [OF Internal.prems(1)] clean_seal [OF Internal.prems(1), of C cfg A]
    by (simp only: marks_ok.simps kids_simps) blast
qed (simp add: ptrs_in_def)

subsection \<open>The steps of a recomputation\<close>

text \<open>No commitment to at most \<open>NodeWidth\<close> values fails: there is no SRS, or it is large enough.\<close>

definition commit_total :: "'f crypto \<Rightarrow> verkle_config \<Rightarrow> bool" where
  "commit_total C cfg \<longleftrightarrow> (\<forall>vs. length vs \<le> vc_NodeWidth cfg \<longrightarrow> commitPolynomial C vs \<noteq> None)"

lemma internal_value_total: "commit_total C cfg \<Longrightarrow> length hs = vc_NodeWidth cfg \<Longrightarrow> \<exists>v. internal_value C cfg d hs = Some v"
  by (auto simp: internal_value_def commit_total_def)

lemma leaf_Commit_total:
  assumes "commit_total C cfg" "cfg_ok cfg"
  shows "vl_dirty l \<Longrightarrow> leaf_Commit C l = Some (seal_leaf C l)"
    and "\<not> vl_dirty l \<Longrightarrow> vl_commitment l \<noteq> None \<Longrightarrow> leaf_Commit C l = Some l"
proof -
  have "1 \<le> vc_NodeWidth cfg" using assms(2) by (auto simp: cfg_ok_def)
  then obtain z where "commitPolynomial C [hashToFieldElement C (vl_userIDHash l)] = Some z"
    using assms(1) by (fastforce simp: commit_total_def)
  then show "vl_dirty l \<Longrightarrow> leaf_Commit C l = Some (seal_leaf C l)"
    by (simp add: leaf_Commit_def seal_leaf_def leaf_fresh_def)
  show "\<not> vl_dirty l \<Longrightarrow> vl_commitment l \<noteq> None \<Longrightarrow> leaf_Commit C l = Some l" by (simp add: leaf_Commit_def)
qed

lemma commit_leaves_ok:
  assumes "commit_total C cfg" "cfg_ok cfg"
  shows "\<forall>p\<in>set ps. p < length L \<and> (vl_dirty (L ! p) \<or> vl_commitment (L ! p) \<noteq> None) \<Longrightarrow>
    commit_leaves C ps L = Some (seal C (set ps) L)"
proof (induction ps arbitrary: L)
  case (Cons p ps)
  have one: "leaf_Commit C (L ! p) = Some (if vl_dirty (L ! p) then seal_leaf C (L ! p) else L ! p)"
    using leaf_Commit_total [OF assms] Cons.prems by auto
  have L1: "L[p := if vl_dirty (L ! p) then seal_leaf C (L ! p) else L ! p] = seal C {p} L"
    using Cons.prems by (intro nth_equalityI) (auto simp: nth_list_update)
  have "commit_leaves C ps (seal C {p} L) = Some (seal C (set ps) (seal C {p} L))"
    by (rule Cons.IH) (use Cons.prems in auto)
  then show ?case using one L1 by (simp add: seal_seal)
qed simp

definition internal_part :: "verkle_node option list \<Rightarrow> nat set" where
  "internal_part ch = (\<Union>x\<in>set ch. if is_internal x then \<Union>m\<in>set_option x. ptrs m else {})"

text \<open>Committing a node whose children are committed.\<close>

lemma Hash_sealed:
  assumes "ptrs_in L n" "marks_ok C cfg L n" "ptrs n \<subseteq> A"
  shows "verkle_Hash (seal C A L) (sealed C cfg L n) = fresh C cfg L n"
proof (cases n)
  case (LeafNode p)
  then show ?thesis using assms by (auto simp: ptrs_in_def)
next
  case (InternalNode ch c d dirty)
  then show ?thesis by (simp del: fresh.simps)
qed

lemma commit_node:
  assumes L: "ptrs_in L (InternalNode ch c d dirty)" and ok: "marks_ok C cfg L (InternalNode ch c d dirty)"
    and A: "ptrs (InternalNode ch c d dirty) \<subseteq> A" and C: "commit_total C cfg" and len: "length ch = vc_NodeWidth cfg"
  shows "commit_dirty C cfg (seal C A L) (InternalNode (map (map_option (sealed C cfg L)) ch) c d dirty) =
    Some (sealed C cfg L (InternalNode ch c d dirty))"
proof (cases dirty)
  case True
  have "verkle_Hash (seal C A L) (sealed C cfg L m) = fresh C cfg L m" if "Some m \<in> set ch" for m
    by (rule Hash_sealed) (use L ok A that ptrs_in_kid ptrs_kid in auto)
  then have "map (map_option (\<lambda>m. verkle_Hash (seal C A L) (sealed C cfg L m))) ch = map (map_option (fresh C cfg L)) ch"
    by (rule kids_map_cong)
  then have "map (map_option (verkle_Hash (seal C A L))) (map (map_option (sealed C cfg L)) ch) = map (map_option (fresh C cfg L)) ch"
    by (simp only: map_map comp_def option.map_comp)
  moreover obtain v where "internal_value C cfg d (map (map_option (fresh C cfg L)) ch) = Some v"
    using internal_value_total [OF C, of "map (map_option (fresh C cfg L)) ch"] len by auto
  ultimately show ?thesis using True
    by (simp only: commit_dirty_def node_dirty.simps if_True internal_Commit.simps sealed.simps fresh.simps option.simps option.sel) simp
next
  case False
  then have "clean C cfg L (InternalNode ch c d dirty)" using ok by (simp del: clean.simps)
  then have c: "c = Some (fresh C cfg L (InternalNode ch c d dirty))" unfolding clean.simps by blast
  then show ?thesis using False unfolding sealed.simps by (metis commit_dirty_def node_dirty.simps(2))
qed

lemma sealed_not_dirty: "commit_internals C cfg L (map (map_option (sealed C' cfg' L')) ch) = Some (map (map_option (sealed C' cfg' L')) ch)"
proof (induction ch)
  case (Cons x ch)
  show ?case
  proof (cases x)
    case (Some m)
    then show ?thesis using Cons by (cases m) (simp_all add: commit_dirty_def)
  qed (use Cons in simp)
qed simp

subsection \<open>Sequential and parallel\<close>

definition kid_ptrs :: "verkle_node option list \<Rightarrow> nat set" where
  "kid_ptrs ch = (\<Union>x\<in>set ch. \<Union>m\<in>set_option x. ptrs m)"

lemma kid_ptrs_simps [simp]: "kid_ptrs [] = {}" "kid_ptrs (None # xs) = kid_ptrs xs" "kid_ptrs (Some m # xs) = ptrs m \<union> kid_ptrs xs"
  "ptrs (InternalNode ch c d dirty) = kid_ptrs ch"
  by (simp_all add: kid_ptrs_def)

lemma kid_ptrs_nth: "p \<in> kid_ptrs ch \<longleftrightarrow> (\<exists>i<length ch. \<exists>m. ch ! i = Some m \<and> p \<in> ptrs m)"
proof -
  have "p \<in> kid_ptrs ch \<longleftrightarrow> (\<exists>m. Some m \<in> set ch \<and> p \<in> ptrs m)" by (simp add: kid_ptrs_def)
  then show ?thesis unfolding in_set_conv_nth by metis
qed

declare ptrs.simps(2) [simp del]

definition all_leaves :: "verkle_node option list \<Rightarrow> bool" where
  "all_leaves ch \<longleftrightarrow> (\<forall>m. Some m \<in> set ch \<longrightarrow> (\<exists>p. m = LeafNode p))"

definition all_internal :: "verkle_node option list \<Rightarrow> bool" where
  "all_internal ch \<longleftrightarrow> (\<forall>m. Some m \<in> set ch \<longrightarrow> (\<exists>ch' c d dirty. m = InternalNode ch' c d dirty))"

lemma all_simps [simp]:
  "all_leaves []" "all_leaves (None # xs) \<longleftrightarrow> all_leaves xs" "all_leaves (Some m # xs) \<longleftrightarrow> (\<exists>p. m = LeafNode p) \<and> all_leaves xs"
  "all_internal []" "all_internal (None # xs) \<longleftrightarrow> all_internal xs"
  "all_internal (Some m # xs) \<longleftrightarrow> (\<exists>ch' c d dirty. m = InternalNode ch' c d dirty) \<and> all_internal xs"
  by (auto simp: all_leaves_def all_internal_def)

lemma kids_of_leaves: "all_leaves xs \<Longrightarrow> recompute_kids C cfg xs L = Some (xs, concat (map (dirty_leaf L) xs), L)"
proof (induction xs)
  case (Cons x xs)
  then show ?case by (cases x) (auto simp: dirty_leaf_def)
qed simp

lemma sealed_leaves: "all_leaves ch \<Longrightarrow> map (map_option (sealed C cfg L)) ch = ch"
proof (induction ch)
  case (Cons x ch)
  then show ?case by (cases x) auto
qed simp

lemma commit_no_internals: "all_leaves ch \<Longrightarrow> commit_internals C cfg L ch = Some ch"
  using sealed_not_dirty [of C cfg L C cfg L ch] by (simp only: sealed_leaves)

lemma dirty_leaves: "all_leaves xs \<Longrightarrow> set (concat (map (dirty_leaf L) xs)) = {p \<in> kid_ptrs xs. vl_dirty (L ! p)}"
proof (induction xs)
  case (Cons x xs)
  then show ?case by (cases x) (auto simp: dirty_leaf_def)
qed simp

lemma no_dirty_leaves: "all_internal xs \<Longrightarrow> concat (map (dirty_leaf L) xs) = []"
proof (induction xs)
  case (Cons x xs)
  then show ?case by (cases x) (auto simp: dirty_leaf_def)
qed simp

lemma seal_dirty: "A \<subseteq> {..<length L} \<Longrightarrow> seal C {p \<in> A. vl_dirty (seal C B L ! p)} (seal C B L) = seal C (B \<union> A) L"
  by (rule nth_equalityI) auto

lemma kids_of_internals:
  assumes "\<And>m A. Some m \<in> set xs \<Longrightarrow> recomputeCommitments C cfg m (seal C A L) = Some (sealed C cfg L m, seal C (A \<union> ptrs m) L)"
    and "all_internal xs"
  shows "recompute_kids C cfg xs (seal C A L) = Some (map (map_option (sealed C cfg L)) xs, [], seal C (A \<union> kid_ptrs xs) L)"
  using assms
proof (induction xs arbitrary: A)
  case (Cons x xs)
  show ?case
  proof (cases x)
    case None
    then show ?thesis using Cons by (simp add: dirty_leaf_def)
  next
    case (Some m)
    then obtain ch c d dirty where m: "m = InternalNode ch c d dirty" using Cons.prems(2) by auto
    have "recomputeCommitments C cfg m (seal C A L) = Some (sealed C cfg L m, seal C (A \<union> ptrs m) L)"
      by (rule Cons.prems(1)) (simp add: Some)
    moreover have "recompute_kids C cfg xs (seal C (A \<union> ptrs m) L)
        = Some (map (map_option (sealed C cfg L)) xs, [], seal C (A \<union> ptrs m \<union> kid_ptrs xs) L)"
      using Cons.prems Some by (intro Cons.IH) auto
    ultimately show ?thesis unfolding Some m by (simp add: Un_assoc del: recomputeCommitments.simps sealed.simps kid_ptrs_simps(4))
  qed
qed simp

lemma wf_kids:
  fixes L :: "verkle_leaf list"
  assumes "wf_node W (length L) (Suc k) d (InternalNode ch c d' dirty)"
  shows "length ch = W" "k = 0 \<Longrightarrow> all_leaves ch" "0 < k \<Longrightarrow> all_internal ch" "kid_ptrs ch \<subseteq> {..<length L}"
    "\<And>m. Some m \<in> set ch \<Longrightarrow> wf_node W (length L) k (Suc d) m"
proof -
  show "length ch = W" "\<And>m. Some m \<in> set ch \<Longrightarrow> wf_node W (length L) k (Suc d) m" using assms by auto
  show "k = 0 \<Longrightarrow> all_leaves ch" using assms by (auto simp: all_leaves_def)
  show "0 < k \<Longrightarrow> all_internal ch" using assms by (cases k) (auto simp: all_internal_def)
  show "kid_ptrs ch \<subseteq> {..<length L}" using wf_ptrs [OF assms] by (simp add: ptrs_in_def)
qed

lemma recompute_ok:
  assumes "commit_total C cfg" "cfg_ok cfg"
  shows "wf_node (vc_NodeWidth cfg) (length L) (Suc k) d n \<Longrightarrow> marks_ok C cfg L n \<Longrightarrow>
    recomputeCommitments C cfg n (seal C A L) = Some (sealed C cfg L n, seal C (A \<union> ptrs n) L)"
proof (induction k arbitrary: d n A)
  case 0
  then obtain ch c dirty where n: "n = InternalNode ch c d dirty" by auto
  note w = wf_kids [OF "0.prems"(1) [unfolded n]]
  let ?ps = "concat (map (dirty_leaf (seal C A L)) ch)"
  have "commit_leaves C ?ps (seal C A L) = Some (seal C (set ?ps) (seal C A L))"
    using dirty_leaves [OF w(2)] w(4) by (intro commit_leaves_ok [OF assms]) auto
  then have "commit_leaves C ?ps (seal C A L) = Some (seal C (A \<union> ptrs n) L)"
    using dirty_leaves [OF w(2)] seal_dirty [OF w(4)] n by simp
  moreover have "commit_dirty C cfg (seal C (A \<union> ptrs n) L) (InternalNode (map (map_option (sealed C cfg L)) ch) c d dirty)
      = Some (sealed C cfg L n)"
    unfolding n by (rule commit_node [OF wf_ptrs [OF "0.prems"(1) [unfolded n]] "0.prems"(2) [unfolded n] _ assms(1) w(1)]) simp
  then have "commit_dirty C cfg (seal C (A \<union> ptrs n) L) (InternalNode ch c d dirty) = Some (sealed C cfg L n)"
    by (simp only: sealed_leaves [OF w(2)] refl)
  ultimately show ?case
    using kids_of_leaves [OF w(2), of C cfg "seal C A L"] commit_no_internals [OF w(2), of C cfg] n by (simp del: sealed.simps)
next
  case (Suc k)
  then obtain ch c dirty where n: "n = InternalNode ch c d dirty" by auto
  note w = wf_kids [OF Suc.prems(1) [unfolded n]]
  have "recompute_kids C cfg ch (seal C A L) = Some (map (map_option (sealed C cfg L)) ch, [], seal C (A \<union> ptrs n) L)"
  proof -
    have "recomputeCommitments C cfg m (seal C A L) = Some (sealed C cfg L m, seal C (A \<union> ptrs m) L)" if "Some m \<in> set ch" for m A
      using Suc.prems(2) n that by (intro Suc.IH [OF w(5) [OF that]]) simp
    from kids_of_internals [OF this w(3)] show ?thesis using n by simp
  qed
  moreover have "commit_dirty C cfg (seal C (A \<union> ptrs n) L) (InternalNode (map (map_option (sealed C cfg L)) ch) c d dirty)
      = Some (sealed C cfg L n)"
    unfolding n by (rule commit_node [OF wf_ptrs [OF Suc.prems(1) [unfolded n]] Suc.prems(2) [unfolded n] _ assms(1) w(1)]) simp
  ultimately show ?case using sealed_not_dirty [of C cfg _ C cfg L ch] n by simp
qed

text \<open>Tasks that seal their subtrees, run in any order that misses none.\<close>

lemma run_tasks_ok:
  assumes "\<And>i m A. i \<in> set js \<Longrightarrow> ch ! i = Some m \<Longrightarrow> \<exists>t. tasks ! i = Some t \<and> t (seal C A L) = Some (sealed C cfg L m, seal C (A \<union> ptrs m) L)"
    and "\<And>i. i \<in> set js \<Longrightarrow> i < length ch \<and> ch ! i \<noteq> None" and "length xs = length ch"
  shows "run_tasks js tasks xs (seal C A L) = Some
    (map (\<lambda>i. if i \<in> set js then map_option (sealed C cfg L) (ch ! i) else xs ! i) [0..<length ch],
     seal C (A \<union> (\<Union>i\<in>set js. \<Union>m\<in>set_option (ch ! i). ptrs m)) L)"
  using assms
proof (induction js arbitrary: xs A)
  case Nil
  then show ?case by (auto intro: nth_equalityI)
next
  case (Cons i js)
  obtain m where m: "ch ! i = Some m" "i < length ch" using Cons.prems(2) [of i] by auto
  obtain t where t: "tasks ! i = Some t" "t (seal C A L) = Some (sealed C cfg L m, seal C (A \<union> ptrs m) L)"
    using Cons.prems(1) [OF _ m(1)] by auto
  let ?xs = "xs[i := Some (sealed C cfg L m)]"
  have "run_tasks js tasks ?xs (seal C (A \<union> ptrs m) L) = Some
    (map (\<lambda>i. if i \<in> set js then map_option (sealed C cfg L) (ch ! i) else ?xs ! i) [0..<length ch],
     seal C (A \<union> ptrs m \<union> (\<Union>i\<in>set js. \<Union>m\<in>set_option (ch ! i). ptrs m)) L)"
    by (rule Cons.IH) (use Cons.prems in auto)
  moreover have "map (\<lambda>i. if i \<in> set js then map_option (sealed C cfg L) (ch ! i) else ?xs ! i) [0..<length ch]
      = map (\<lambda>j. if j \<in> set (i # js) then map_option (sealed C cfg L) (ch ! j) else xs ! j) [0..<length ch]"
    using m Cons.prems(3) by (intro map_cong refl) (auto simp: nth_list_update)
  ultimately show ?case using t m(1) by (simp add: Un_assoc)
qed

lemma internal_indices_simps:
  "all_internal ch \<Longrightarrow> set (internal_indices ch) = {i. i < length ch \<and> ch ! i \<noteq> None}" "all_leaves ch \<Longrightarrow> internal_indices ch = []"
proof -
  have int: "is_internal (ch ! i) \<longleftrightarrow> ch ! i \<noteq> None" if "all_internal ch" "i < length ch" for i
    using that nth_mem [of i ch] by (cases "ch ! i") (force simp: all_internal_def)+
  show "all_internal ch \<Longrightarrow> set (internal_indices ch) = {i. i < length ch \<and> ch ! i \<noteq> None}" using int by (auto simp: internal_indices_def)
  have leaf: "\<not> is_internal (ch ! i)" if "all_leaves ch" "i < length ch" for i
    using that nth_mem [of i ch] by (cases "ch ! i") (force simp: all_leaves_def)+
  show "all_leaves ch \<Longrightarrow> internal_indices ch = []" using leaf by (auto simp: internal_indices_def filter_empty_conv)
qed

definition fair_order :: "(nat list \<Rightarrow> nat list) \<Rightarrow> bool" where
  "fair_order ord \<longleftrightarrow> (\<forall>xs. set (ord xs) = set xs)"

lemma scheduled_set: "fair_order ord \<Longrightarrow> set (scheduled pc ord xs) = set xs"
  by (simp add: scheduled_def fair_order_def)

lemma parallel_ok:
  assumes "commit_total C cfg" "cfg_ok cfg" "fair_order ord"
  shows "wf_node (vc_NodeWidth cfg) (length L) (Suc k) d n \<Longrightarrow> marks_ok C cfg L n \<Longrightarrow>
    parallelCommitLevel C cfg pc ord n (seal C A L) = Some (sealed C cfg L n, seal C (A \<union> ptrs n) L)"
proof (induction k arbitrary: d n A)
  case 0
  then obtain ch c dirty where n: "n = InternalNode ch c d dirty" by auto
  note w = wf_kids [OF "0.prems"(1) [unfolded n]]
  let ?ps = "scheduled pc ord (concat (map (dirty_leaf (seal C A L)) ch))"
  have ps: "set ?ps = {p \<in> kid_ptrs ch. vl_dirty (seal C A L ! p)}"
    unfolding scheduled_set [OF assms(3)] by (rule dirty_leaves [OF w(2)]) simp
  have "commit_leaves C ?ps (seal C A L) = Some (seal C (set ?ps) (seal C A L))"
    using w(4) by (intro commit_leaves_ok [OF assms(1,2)]) (auto simp: ps)
  then have "commit_leaves C ?ps (seal C A L) = Some (seal C (A \<union> ptrs n) L)"
    unfolding ps using seal_dirty [OF w(4)] n by simp
  moreover have "commit_dirty C cfg (seal C (A \<union> ptrs n) L) (InternalNode (map (map_option (sealed C cfg L)) ch) c d dirty)
      = Some (sealed C cfg L n)"
    unfolding n by (rule commit_node [OF wf_ptrs [OF "0.prems"(1) [unfolded n]] "0.prems"(2) [unfolded n] _ assms(1) w(1)]) simp
  then have "commit_dirty C cfg (seal C (A \<union> ptrs n) L) (InternalNode ch c d dirty) = Some (sealed C cfg L n)"
    by (simp only: sealed_leaves [OF w(2)] refl)
  moreover have "run_tasks (scheduled pc ord (internal_indices ch)) tasks ch L' = Some (ch, L')" for tasks L'
    using scheduled_set [OF assms(3), of pc "[]"] by (simp add: internal_indices_simps(2) [OF w(2)])
  ultimately show ?case using n by (simp add: Let_def del: sealed.simps)
next
  case (Suc k)
  then obtain ch c dirty where n: "n = InternalNode ch c d dirty" by auto
  note w = wf_kids [OF Suc.prems(1) [unfolded n]]
  have int: "all_internal ch" by (rule w(3)) simp
  let ?js = "scheduled pc ord (internal_indices ch)" and ?tasks = "map (map_option (parallelCommitLevel C cfg pc ord)) ch"
  have js: "set ?js = {i. i < length ch \<and> ch ! i \<noteq> None}"
    unfolding scheduled_set [OF assms(3)] by (rule internal_indices_simps(1) [OF int])
  have kids: "(\<Union>i\<in>set ?js. \<Union>m\<in>set_option (ch ! i). ptrs m) = kid_ptrs ch"
    unfolding js using kid_ptrs_nth by (auto simp: set_eq_iff)
  have all: "map (\<lambda>i. if i \<in> set ?js then map_option (sealed C cfg L) (ch ! i) else ch ! i) [0..<length ch]
      = map (map_option (sealed C cfg L)) ch"
    unfolding js by (rule nth_equalityI) auto
  have "run_tasks ?js ?tasks ch (seal C A L) = Some
    (map (\<lambda>i. if i \<in> set ?js then map_option (sealed C cfg L) (ch ! i) else ch ! i) [0..<length ch],
     seal C (A \<union> (\<Union>i\<in>set ?js. \<Union>m\<in>set_option (ch ! i). ptrs m)) L)"
  proof (rule run_tasks_ok)
    fix i m A
    assume a: "i \<in> set ?js" "ch ! i = Some m"
    then have i: "i < length ch" using js by simp
    have mem: "Some m \<in> set ch" using nth_mem [OF i] a(2) by simp
    then have "parallelCommitLevel C cfg pc ord m (seal C A L) = Some (sealed C cfg L m, seal C (A \<union> ptrs m) L)"
      using Suc.prems(2) n mem by (intro Suc.IH [OF w(5) [OF mem]]) simp
    then show "\<exists>t. ?tasks ! i = Some t \<and> t (seal C A L) = Some (sealed C cfg L m, seal C (A \<union> ptrs m) L)"
      using i a(2) by simp
  qed (use js in auto)
  then have run: "run_tasks ?js ?tasks ch (seal C A L) = Some (map (map_option (sealed C cfg L)) ch, seal C (A \<union> ptrs n) L)"
    unfolding kids all using n by simp
  have "scheduled pc ord (concat (map (dirty_leaf (seal C A L)) ch)) = []"
    using scheduled_set [OF assms(3), of pc "[]"] by (simp only: no_dirty_leaves [OF int]) simp
  moreover have "commit_dirty C cfg (seal C (A \<union> ptrs n) L) (InternalNode (map (map_option (sealed C cfg L)) ch) c d dirty)
      = Some (sealed C cfg L n)"
    unfolding n by (rule commit_node [OF wf_ptrs [OF Suc.prems(1) [unfolded n]] Suc.prems(2) [unfolded n] _ assms(1) w(1)]) simp
  ultimately show ?case using run n by (simp add: Let_def del: sealed.simps)
qed

subsection \<open>Insertions mark what they change\<close>

lemma stem_descend: "d + k \<le> StemSize \<Longrightarrow> descend cfg L (take StemSize u) f k d n = descend cfg L u f k d n"
  by (induction cfg L u f k d n rule: descend.induct) (simp_all add: Let_def)

lemma stem_bottom: "d + k \<le> StemSize \<Longrightarrow> bottom cfg L (take StemSize u) k d n = bottom cfg L u k d n"
  by (induction cfg L u k d n rule: bottom.induct) simp_all

lemma marks_step_into:
  assumes "wf_node (vc_NodeWidth cfg) N (Suc (Suc k)) d (InternalNode ch c d dirty)" "i < length ch"
    "marks_ok C cfg L (InternalNode ch c d dirty)"
  shows "marks_ok C cfg L (step_into cfg L' d (ch ! i))"
proof (cases "ch ! i")
  case None
  then show ?thesis by (simp add: step_into_def new_internal_def)
next
  case (Some m)
  then have m: "Some m \<in> set ch" using assms(2) nth_mem by metis
  then have "\<exists>ch' c' d' dirty'. m = InternalNode ch' c' d' dirty'" using assms(1) by auto
  then have "step_into cfg L' d (ch ! i) = m" using Some by (auto simp: step_into_def)
  then show ?thesis using assms(3) m unfolding marks_ok.simps kids_simps by simp
qed

text \<open>The leaf \<open>p\<close> may be new or changed, the other leaves are as before.\<close>

definition changed_only :: "nat \<Rightarrow> verkle_leaf list \<Rightarrow> verkle_leaf list \<Rightarrow> bool" where
  "changed_only p L L' \<longleftrightarrow> (\<forall>q<length L. q \<noteq> p \<longrightarrow> L' ! q = L ! q) \<and> vl_dirty (L' ! p)"

lemma marks_other:
  assumes "changed_only p L L'" "ptrs_in L m" "marks_ok C cfg L m" "p \<notin> ptrs m"
  shows "marks_ok C cfg L' m"
proof -
  have "same_leaves L' L m" using assms(1,2,4) by (auto simp: same_leaves_def changed_only_def ptrs_in_def)
  then show ?thesis using marks_ok_cong assms(3) by blast
qed

lemma mark_descend:
  assumes "cfg_ok cfg" "changed_only p L L'"
  shows "wf_node (vc_NodeWidth cfg) (length L) (Suc k) d n \<Longrightarrow> marks_ok C cfg L n \<Longrightarrow>
    i = getNodeIndex cfg (u ! (d + k)) \<Longrightarrow> (\<And>q. ptr_at n q = Some p \<Longrightarrow> q = path_from cfg u d (Suc k)) \<Longrightarrow>
    marks_ok C cfg L' (markDirtyPath cfg u k d (descend cfg L u (set_child i (LeafNode p)) k d n))"
proof (induction k arbitrary: d n)
  case 0
  then obtain ch c dirty where n: "n = InternalNode ch c d dirty" by auto
  note w = wf_kids [OF "0.prems"(1) [unfolded n]]
  have "marks_ok C cfg L' m" if m: "Some m \<in> set (ch[i := Some (LeafNode p)])" for m
  proof -
    from m obtain j where j: "j < length ch" "ch[i := Some (LeafNode p)] ! j = Some m" by (auto simp: in_set_conv_nth)
    show ?thesis
    proof (cases "j = i")
      case True
      then show ?thesis using j assms(2) by (auto simp: changed_only_def)
    next
      case False
      then have jm: "ch ! j = Some m" "Some m \<in> set ch" using j nth_mem [of j ch] by auto
      have "p \<notin> ptrs m"
      proof
        assume "p \<in> ptrs m"
        then obtain q where "ptr_at m q = Some p" using ptrs_at by blast
        then have "ptr_at n (j # q) = Some p" using jm j n by simp
        then have "j # q = [i]" using "0.prems"(3,4) by fastforce
        then show False using False by simp
      qed
      moreover have "ptrs_in L m" using wf_ptrs [OF "0.prems"(1)] ptrs_in_kid jm(2) n by blast
      moreover have "marks_ok C cfg L m" using "0.prems"(2) jm(2) n by simp
      ultimately show ?thesis by (intro marks_other [OF assms(2)])
    qed
  qed
  then show ?case using n by simp
next
  case (Suc k)
  then obtain ch c dirty where n: "n = InternalNode ch c d dirty" by auto
  note w = wf_kids [OF Suc.prems(1) [unfolded n]]
  let ?i = "getNodeIndex cfg (u ! d)"
  have i: "?i < length ch" using index_less [OF assms(1)] w(1) by simp
  let ?s = "step_into cfg L d (ch ! ?i)"
  let ?m = "descend cfg L u (set_child i (LeafNode p)) k (Suc d) ?s"
  note step = step_into_wf [OF Suc.prems(1) [unfolded n] i, where L = L]
  have p: "p \<in> ptrs n \<Longrightarrow> p < length L" using wf_ptrs [OF Suc.prems(1)] by (auto simp: ptrs_in_def)
  have IH: "marks_ok C cfg L' (markDirtyPath cfg u k (Suc d) ?m)"
  proof (rule Suc.IH [OF step(1) marks_step_into [OF Suc.prems(1) [unfolded n] i]])
    show "marks_ok C cfg L (InternalNode ch c d dirty)" using Suc.prems(2) n by simp
    show "i = getNodeIndex cfg (u ! (Suc d + k))" using Suc.prems(3) by simp
    fix q assume "ptr_at ?s q = Some p"
    then have "ptr_at n (?i # q) = Some p" using step(2) n by simp
    then show "q = path_from cfg u (Suc d) (Suc k)" using Suc.prems(4) by fastforce
  qed
  have "\<exists>ch2 c2 d2 dirty2. ?m = InternalNode ch2 c2 d2 dirty2"
  proof -
    have "\<exists>ch c dirty. ?s = InternalNode ch c (Suc d) dirty" using step(1) by auto
    then show ?thesis by (cases k) (auto simp: Let_def)
  qed
  then obtain ch2 c2 d2 dirty2 where m: "?m = InternalNode ch2 c2 d2 dirty2" by blast
  have eq: "markDirtyPath cfg u (Suc k) d (descend cfg L u (set_child i (LeafNode p)) (Suc k) d n)
      = InternalNode (ch[?i := Some (markDirtyPath cfg u k (Suc d) ?m)]) c d True"
    using i m unfolding n by (simp add: Let_def)
  have "marks_ok C cfg L' m" if m: "Some m \<in> set (ch[?i := Some (markDirtyPath cfg u k (Suc d) ?m)])" for m
  proof -
    from m obtain j where j: "j < length ch" "ch[?i := Some (markDirtyPath cfg u k (Suc d) ?m)] ! j = Some m"
      by (auto simp: in_set_conv_nth)
    show ?thesis
    proof (cases "j = ?i")
      case True
      then show ?thesis using j IH by simp
    next
      case False
      then have jm: "ch ! j = Some m" "Some m \<in> set ch" using j nth_mem [of j ch] by auto
      have "p \<notin> ptrs m"
      proof
        assume "p \<in> ptrs m"
        then obtain q where "ptr_at m q = Some p" using ptrs_at by blast
        then have "ptr_at n (j # q) = Some p" using jm j n by simp
        then show False using Suc.prems(4) False by fastforce
      qed
      moreover have "ptrs_in L m" using wf_ptrs [OF Suc.prems(1)] ptrs_in_kid jm(2) n by blast
      moreover have "marks_ok C cfg L m" using Suc.prems(2) jm(2) n by simp
      ultimately show ?thesis by (intro marks_other [OF assms(2)])
    qed
  qed
  then show ?case unfolding eq by simp
qed

end
