(* ===== verification/VerkleInv.thy ===== *)
theory VerkleInv
  imports VerkleSeal
begin

text \<open>
  The invariant of a Verkle tree in memory, its contents as a map from slots to owner and data, and what one
  insertion does to that map: which calls return, which wait for the lock they hold, which never end.
\<close>

subsection \<open>Paths that exist\<close>

lemma slot_eq: "vc_Levels cfg = Suc k \<Longrightarrow> slot cfg u = path_from cfg u 0 k @ [getNodeIndex cfg (u ! k)]"
  by (simp add: slot_def path_from_snoc del: path_from_simps(2))

lemma descend_id:
  assumes "cfg_ok cfg"
  shows "wf_node (vc_NodeWidth cfg) N (Suc k) d n \<Longrightarrow> ptr_at n (path_from cfg u d k @ [i]) \<noteq> None \<Longrightarrow> descend cfg L u id k d n = n"
proof (induction k arbitrary: d n)
  case (Suc k)
  let ?i = "getNodeIndex cfg (u ! d)"
  from path_child [OF Suc.prems(1)] Suc.prems(2) obtain ch c dirty ch2 c2 dirty2 where
    n: "n = InternalNode ch c d dirty" "?i < length ch"
    and m: "ch ! ?i = Some (InternalNode ch2 c2 (Suc d) dirty2)"
      "wf_node (vc_NodeWidth cfg) N (Suc k) (Suc d) (InternalNode ch2 c2 (Suc d) dirty2)"
      "ptr_at (InternalNode ch2 c2 (Suc d) dirty2) (path_from cfg u (Suc d) k @ [i]) = ptr_at n (?i # path_from cfg u (Suc d) k @ [i])"
    by (metis path_from_simps(2) append_Cons)
  have s: "step_into cfg L d (ch ! ?i) = InternalNode ch2 c2 (Suc d) dirty2" by (simp add: step_into_def m(1))
  have "descend cfg L u id k (Suc d) (InternalNode ch2 c2 (Suc d) dirty2) = InternalNode ch2 c2 (Suc d) dirty2"
    by (rule Suc.IH [OF m(2)]) (use Suc.prems(2) m(3) in simp)
  then have "(ch[?i := Some (descend cfg L u id k (Suc d) (step_into cfg L d (ch ! ?i)))]) = ch"
    unfolding s using m(1) n(2) list_update_id [of ch ?i] by (simp only:)
  then show ?case unfolding n(1) descend.simps Let_def by (simp only: Suc_eq_plus1)
qed simp

subsection \<open>The invariant\<close>

definition leaf_ok :: "verkle \<Rightarrow> nat \<Rightarrow> bool" where
  "leaf_ok s p \<longleftrightarrow> vl_hasData (v_leaves s ! p) \<and> length (vl_userIDHash (v_leaves s ! p)) = 32
    \<and> ptr_at (v_root s) (slot (v_config s) (vl_userIDHash (v_leaves s ! p))) = Some p"

definition v_static :: "verkle \<Rightarrow> bool" where
  "v_static s \<longleftrightarrow> cfg_ok (v_config s) \<and> vc_AutoGrowDepth (v_config s) \<and> v_currentDepth s = vc_Levels (v_config s)
    \<and> v_dataStore s = None \<and> \<not> v_asyncMode s"

definition v_tree :: "'f crypto \<Rightarrow> verkle \<Rightarrow> bool" where
  "v_tree C s \<longleftrightarrow> wf_node (vc_NodeWidth (v_config s)) (length (v_leaves s)) (vc_Levels (v_config s)) 0 (v_root s)
    \<and> marks_ok C (v_config s) (v_leaves s) (v_root s)
    \<and> (\<forall>p<length (v_leaves s). leaf_ok s p)
    \<and> (\<forall>q p. ptr_at (v_root s) q = Some p \<longrightarrow> q = slot (v_config s) (vl_userIDHash (v_leaves s ! p)))"

definition v_index :: "verkle \<Rightarrow> bool" where
  "v_index s \<longleftrightarrow> (\<forall>u p. map_of (v_nodeIndex s) u = Some p \<longleftrightarrow> p < length (v_leaves s) \<and> vl_userIDHash (v_leaves s ! p) = u)
    \<and> (\<forall>u p. map_of (nc_list (v_nodeCache s)) u = Some p \<longrightarrow> map_of (v_nodeIndex s) u = Some p)"

definition v_inv :: "'f crypto \<Rightarrow> verkle \<Rightarrow> bool" where
  "v_inv C s \<longleftrightarrow> v_static s \<and> v_tree C s \<and> v_index s"

text \<open>The contents.\<close>

type_synonym slots = "nat list \<rightharpoonup> bytes \<times> bytes option"

definition slots_of :: "verkle \<Rightarrow> slots" where
  "slots_of s = (\<lambda>q. map_option (\<lambda>p. (vl_userIDHash (v_leaves s ! p), vl_inMemoryData (v_leaves s ! p))) (ptr_at (v_root s) q))"

subsection \<open>The abstract tree\<close>

definition crowded :: "verkle_config \<Rightarrow> slots \<Rightarrow> nat list \<Rightarrow> bool" where
  "crowded cfg m pre \<longleftrightarrow> (vc_NodeWidth cfg + 1) div 2 \<le> card {i. i < vc_NodeWidth cfg \<and> m (pre @ [i]) \<noteq> None}"

definition root_full :: "verkle_config \<Rightarrow> slots \<Rightarrow> bool" where
  "root_full cfg m \<longleftrightarrow> vc_NodeWidth cfg * 80 div 100 \<le> card {i. i < vc_NodeWidth cfg \<and> (\<exists>q. m (i # q) \<noteq> None)}"

definition can_grow :: "verkle_config \<Rightarrow> bool" where
  "can_grow cfg \<longleftrightarrow> vc_Levels cfg < vc_MaxLevels cfg"

definition spec_insert :: "verkle_config \<Rightarrow> bytes \<Rightarrow> bytes option \<Rightarrow> slots \<Rightarrow> slots verkle_result option" where
  "spec_insert cfg u data m = (case m (slot cfg u) of
     None \<Rightarrow> Some (VDone (m(slot cfg u \<mapsto> (u, data))))
   | Some (owner, old) \<Rightarrow>
       if owner \<noteq> u \<and> crowded cfg m (butlast (slot cfg u)) then (if can_grow cfg then Some VDeadlock else None)
       else Some (VDone (m(slot cfg u \<mapsto> (owner, data)))))"

fun spec_inserts :: "verkle_config \<Rightarrow> (bytes \<times> bytes option) list \<Rightarrow> slots \<Rightarrow> slots verkle_result option" where
  "spec_inserts cfg [] m = Some (VDone m)"
| "spec_inserts cfg ((u, data) # us) m = (case spec_insert cfg u data m of
     Some (VDone m1) \<Rightarrow> spec_inserts cfg us m1
   | r \<Rightarrow> r)"

definition spec_commit :: "verkle_config \<Rightarrow> (bytes \<times> bytes option) list \<Rightarrow> slots \<Rightarrow> slots verkle_result option" where
  "spec_commit cfg upds m = (if can_grow cfg \<and> root_full cfg m then Some VDeadlock else spec_inserts cfg upds m)"

subsection \<open>One pass of an insertion\<close>

lemma insert_diverges: "insert_pass u data s = Retry s \<Longrightarrow> verkle_insert u data s = None"
proof (rule ccontr)
  assume r: "insert_pass u data s = Retry s" and "verkle_insert u data s \<noteq> None"
  then obtain y where y: "verkle_insert u data s = Some y" by blast
  have "insert_pass u data s \<noteq> Retry s"
    by (rule verkle_insert.raw_induct [where P = "\<lambda>u data s y. insert_pass u data s \<noteq> Retry s", OF _ y])
      (auto split: pass.splits)
  then show False using r by blast
qed

text \<open>The node that holds the slot, as the insertion sees it.\<close>

lemma slot_node:
  assumes "v_inv C s" "length u = 32" "vc_Levels (v_config s) = Suc k"
  shows "\<exists>ch c dirty. bottom (v_config s) (v_leaves s) u k 0 (v_root s) = InternalNode ch c k dirty
    \<and> length ch = vc_NodeWidth (v_config s)
    \<and> (\<forall>i<length ch. case ch ! i of
          None \<Rightarrow> ptr_at (v_root s) (path_from (v_config s) u 0 k @ [i]) = None
        | Some m \<Rightarrow> \<exists>p<length (v_leaves s). m = LeafNode p \<and> ptr_at (v_root s) (path_from (v_config s) u 0 k @ [i]) = Some p)"
proof -
  have cfg: "cfg_ok (v_config s)" and w: "wf_node (vc_NodeWidth (v_config s)) (length (v_leaves s)) (Suc k) 0 (v_root s)"
    using assms(1,3) by (simp_all add: v_inv_def v_static_def v_tree_def)
  from bottom_wf [OF cfg w, of "v_leaves s" u] obtain ch c dirty where
    b: "bottom (v_config s) (v_leaves s) u k 0 (v_root s) = InternalNode ch c k dirty" "length ch = vc_NodeWidth (v_config s)"
    and leaf: "\<forall>i m. i < length ch \<and> ch ! i = Some m \<longrightarrow> (\<exists>p. m = LeafNode p \<and> p < length (v_leaves s))"
    and at: "\<forall>i p. i < length ch \<longrightarrow> (ch ! i = Some (LeafNode p) \<longleftrightarrow> ptr_at (v_root s) (path_from (v_config s) u 0 k @ [i]) = Some p)"
    by auto
  have "case ch ! i of
      None \<Rightarrow> ptr_at (v_root s) (path_from (v_config s) u 0 k @ [i]) = None
    | Some m \<Rightarrow> \<exists>p<length (v_leaves s). m = LeafNode p \<and> ptr_at (v_root s) (path_from (v_config s) u 0 k @ [i]) = Some p"
    if i: "i < length ch" for i
  proof (cases "ch ! i")
    case None
    then have "ptr_at (v_root s) (path_from (v_config s) u 0 k @ [i]) \<noteq> Some p" for p using at i by force
    then show ?thesis using None by (cases "ptr_at (v_root s) (path_from (v_config s) u 0 k @ [i])") auto
  next
    case (Some m)
    then obtain p where p: "m = LeafNode p" "p < length (v_leaves s)" using leaf i by blast
    then have "ptr_at (v_root s) (path_from (v_config s) u 0 k @ [i]) = Some p" using at i Some by blast
    then show ?thesis using p Some by simp
  qed
  then show ?thesis using b by blast
qed

lemma crowded_eq:
  assumes inv: "v_inv C s" and len: "length ch = vc_NodeWidth (v_config s)"
    and ch: "\<forall>i<length ch. case ch ! i of
          None \<Rightarrow> ptr_at (v_root s) (pre @ [i]) = None
        | Some m \<Rightarrow> \<exists>p<length (v_leaves s). m = LeafNode p \<and> ptr_at (v_root s) (pre @ [i]) = Some p"
  shows "shouldExpandLeaf (v_leaves s) (InternalNode ch c d dirty) ((vc_NodeWidth (v_config s) + 1) div 2)
    \<longleftrightarrow> crowded (v_config s) (slots_of s) pre"
proof -
  have data: "vl_hasData (v_leaves s ! p)" if "p < length (v_leaves s)" for p
    using inv that by (simp add: v_inv_def v_tree_def leaf_ok_def)
  have "(case ch ! i of Some (LeafNode p) \<Rightarrow> vl_hasData (v_leaves s ! p) | _ \<Rightarrow> False) \<longleftrightarrow> slots_of s (pre @ [i]) \<noteq> None"
    if "i < length ch" for i
  proof -
    note c = ch [rule_format, OF that]
    show ?thesis
    proof (cases "ch ! i")
      case None
      then show ?thesis using c by (simp add: slots_of_def)
    next
      case (Some m)
      then obtain p where "p < length (v_leaves s)" "m = LeafNode p" "ptr_at (v_root s) (pre @ [i]) = Some p" using c by auto
      then show ?thesis using Some data by (simp add: slots_of_def)
    qed
  qed
  then have "{i. i < length ch \<and> (case ch ! i of Some (LeafNode p) \<Rightarrow> vl_hasData (v_leaves s ! p) | _ \<Rightarrow> False)}
      = {i. i < length ch \<and> slots_of s (pre @ [i]) \<noteq> None}" by blast
  then show ?thesis unfolding shouldExpandLeaf_def crowded_def length_filter_conv_card node_children.simps len by simp
qed

end
