(* ===== verification/VerkleInsert.thy ===== *)
theory VerkleInsert
  imports VerkleInv
begin

text \<open>
  One insertion and one batch against the abstract tree: the invariant is kept and the contents change as
  \<open>spec_insert\<close> says, or the call waits for ever or never ends as it says.
\<close>

subsection \<open>Placing a leaf\<close>

text \<open>\<open>p\<close> is a new leaf, or the leaf that the slot of \<open>u\<close> already holds.\<close>

lemma place_leaf:
  assumes tree: "v_tree C s" and cfg: "cfg_ok (v_config s)" "vc_Levels (v_config s) = Suc k"
    and p: "p \<le> length (v_leaves s)" "length L' = max (length (v_leaves s)) (Suc p)"
    and old: "\<And>q. q < length (v_leaves s) \<Longrightarrow> q \<noteq> p \<Longrightarrow> L' ! q = v_leaves s ! q"
    and new: "vl_dirty (L' ! p)" "vl_hasData (L' ! p)" "length (vl_userIDHash (L' ! p)) = 32"
      "slot (v_config s) (vl_userIDHash (L' ! p)) = slot (v_config s) u"
    and at: "ptr_at (v_root s) (slot (v_config s) u) = (if p < length (v_leaves s) then Some p else None)"
    and s': "v_root s' = markDirtyPath (v_config s) u k 0
        (descend (v_config s) (v_leaves s) u (set_child (getNodeIndex (v_config s) (u ! k)) (LeafNode p)) k 0 (v_root s))"
      "v_leaves s' = L'" "v_config s' = v_config s"
  shows "v_tree C s' \<and> slots_of s' = (slots_of s)(slot (v_config s) u \<mapsto> (vl_userIDHash (L' ! p), vl_inMemoryData (L' ! p)))"
proof -
  let ?cfg = "v_config s" and ?L = "v_leaves s" and ?W = "vc_NodeWidth (v_config s)"
  let ?i = "getNodeIndex (v_config s) (u ! k)"
  let ?D = "descend ?cfg ?L u (set_child ?i (LeafNode p)) k 0 (v_root s)"
  have slot: "slot ?cfg u = path_from ?cfg u 0 k @ [?i]" by (rule slot_eq [OF cfg(2)])
  have w: "wf_node ?W (length ?L) (Suc k) 0 (v_root s)" using tree cfg(2) by (simp add: v_tree_def)
  have w': "wf_node ?W (length L') (Suc k) 0 (v_root s)" by (rule wf_node_mono [OF w]) (simp add: p(2))
  note D = descend_leaf [OF cfg(1) w' index_less [OF cfg(1), of "u ! k"], where p = p and u = u and L = ?L]
  have D1: "wf_node ?W (length L') (Suc k) 0 ?D" and D2: "ptr_at ?D q = (if q = slot ?cfg u then Some p else ptr_at (v_root s) q)" for q
    using D p(2) unfolding slot by auto
  have "ptr_at ?D (path_from ?cfg u 0 (Suc k)) \<noteq> None"
    using D2 [of "slot ?cfg u"] by (simp add: slot_def cfg(2) del: path_from_simps)
  note M = mark_wf [OF D1 this]
  have ptr: "ptr_at (v_root s') q = (if q = slot ?cfg u then Some p else ptr_at (v_root s) q)" for q
    unfolding s'(1) using M D2 by simp
  have owner: "ptr_at (v_root s) q = Some r \<Longrightarrow> q = slot ?cfg (vl_userIDHash (?L ! r))" for q r
    using tree unfolding v_tree_def by blast
  have unique: "ptr_at (v_root s) q = Some r \<Longrightarrow> r = p \<Longrightarrow> q = slot ?cfg u" for q r
  proof -
    assume q: "ptr_at (v_root s) q = Some r" "r = p"
    have "p < length ?L" using ptr_at_wf [OF w q(1)] q(2) by simp
    then have "ptr_at (v_root s) (slot ?cfg u) = Some p" using at by simp
    then show "q = slot ?cfg u" using owner q by metis
  qed
  have "changed_only p ?L L'" using old new(1) by (simp add: changed_only_def)
  then have marks: "marks_ok C ?cfg L' (v_root s')" unfolding s'(1)
    by (rule mark_descend [OF cfg(1) _ w])
      (use tree unique in \<open>simp_all add: v_tree_def slot_def cfg(2) del: path_from_simps\<close>)
  have other: "r < length ?L \<Longrightarrow> r \<noteq> p \<Longrightarrow> slot ?cfg (vl_userIDHash (?L ! r)) \<noteq> slot ?cfg u" for r
  proof
    assume r: "r < length ?L" "r \<noteq> p" "slot ?cfg (vl_userIDHash (?L ! r)) = slot ?cfg u"
    have "ptr_at (v_root s) (slot ?cfg (vl_userIDHash (?L ! r))) = Some r"
      using tree r(1) by (simp add: v_tree_def leaf_ok_def)
    then show False using r at by (simp split: if_splits)
  qed
  have leaf: "leaf_ok s' r" if "r < length L'" for r
  proof (cases "r = p")
    case True
    then show ?thesis using new ptr by (simp add: leaf_ok_def s'(2,3))
  next
    case False
    then have r: "r < length ?L" using that p by auto
    then have "leaf_ok s r" using tree by (simp add: v_tree_def)
    then show ?thesis using old [OF r False] other [OF r False] ptr by (simp add: leaf_ok_def s'(2,3))
  qed
  have at': "q = slot ?cfg (vl_userIDHash (L' ! r))" if "ptr_at (v_root s') q = Some r" for q r
  proof (cases "q = slot ?cfg u")
    case True
    then show ?thesis using that ptr new(4) by simp
  next
    case False
    then have r: "ptr_at (v_root s) q = Some r" using that ptr by simp
    then have "r \<noteq> p" using unique False by blast
    then show ?thesis using owner [OF r] old ptr_at_wf [OF w r] by simp
  qed
  have "v_tree C s'" using M leaf at' marks cfg(2) by (simp add: v_tree_def s'(2,3) flip: s'(1) del: wf_node.simps)
  moreover have "slots_of s' q = ((slots_of s)(slot ?cfg u \<mapsto> (vl_userIDHash (L' ! p), vl_inMemoryData (L' ! p)))) q" for q
  proof (cases "q = slot ?cfg u")
    case True
    then show ?thesis by (simp add: slots_of_def ptr s'(2))
  next
    case False
    have "ptr_at (v_root s) q = Some r \<Longrightarrow> L' ! r = ?L ! r" for r
      using old ptr_at_wf [OF w, of q r] unique False by blast
    then show ?thesis using False by (cases "ptr_at (v_root s) q") (simp_all add: slots_of_def ptr s'(2))
  qed
  ultimately show ?thesis by blast
qed

subsection \<open>Index and cache\<close>

lemma index_new:
  assumes "v_index s" "\<And>p. p < length (v_leaves s) \<Longrightarrow> vl_userIDHash (v_leaves s ! p) \<noteq> u"
    and "v_leaves s' = v_leaves s @ [l]" "vl_userIDHash l = u"
    and "v_nodeIndex s' = AList.update u (length (v_leaves s)) (v_nodeIndex s)" "v_nodeCache s' = nc_Invalidate u (v_nodeCache s)"
  shows "v_index s'"
  using assms by (auto simp: v_index_def nc_Invalidate_def update_conv delete_conv nth_append less_Suc_eq split: if_splits)

lemma index_same:
  assumes "v_index s" "length (v_leaves s') = length (v_leaves s)"
    "\<And>p. p < length (v_leaves s) \<Longrightarrow> vl_userIDHash (v_leaves s' ! p) = vl_userIDHash (v_leaves s ! p)"
    and "v_nodeIndex s' = v_nodeIndex s" "v_nodeCache s' = nc_Invalidate u (v_nodeCache s)"
  shows "v_index s'"
  using assms by (auto simp: v_index_def nc_Invalidate_def delete_conv split: if_splits)

subsection \<open>An insertion\<close>

text \<open>What a run keeps: the invariant, the lock, and the settings.\<close>

definition v_step :: "'f crypto \<Rightarrow> verkle \<Rightarrow> verkle \<Rightarrow> bool" where
  "v_step C s s' \<longleftrightarrow> v_inv C s' \<and> v_mu s' = v_mu s \<and> v_config s' = v_config s \<and> v_parallelConfig s' = v_parallelConfig s"

lemma static_same:
  "v_static s \<Longrightarrow> v_config s' = v_config s \<Longrightarrow> v_currentDepth s' = v_currentDepth s \<Longrightarrow> v_dataStore s' = v_dataStore s \<Longrightarrow>
   v_asyncMode s' = v_asyncMode s \<Longrightarrow> v_static s'"
  by (simp add: v_static_def)

lemma insert_step:
  assumes inv: "v_inv C s" and mu: "v_mu s" and u: "length u = 32"
  shows "case spec_insert (v_config s) u data (slots_of s) of
      None \<Rightarrow> verkle_insert u data s = None
    | Some (VDone m) \<Rightarrow> \<exists>s'. verkle_insert u data s = Some (VDone s') \<and> v_step C s s' \<and> slots_of s' = m
    | Some r \<Rightarrow> r = VDeadlock \<and> verkle_insert u data s = Some VDeadlock"
proof -
  let ?cfg = "v_config s" and ?L = "v_leaves s"
  have static: "v_static s" and tree: "v_tree C s" and index: "v_index s" using inv by (simp_all add: v_inv_def)
  then have cfg: "cfg_ok ?cfg" "0 < vc_Levels ?cfg" "vc_Levels ?cfg \<le> StemSize" by (simp_all add: v_static_def cfg_ok_def)
  then obtain k where k: "vc_Levels ?cfg = Suc k" "k < StemSize" using gr0_implies_Suc [OF cfg(2)] by auto
  have w: "wf_node (vc_NodeWidth ?cfg) (length ?L) (Suc k) 0 (v_root s)" using tree k(1) by (simp add: v_tree_def)
  let ?i = "getNodeIndex ?cfg (u ! k)" and ?node = "bottom ?cfg ?L u k 0 (v_root s)" and ?D = "\<lambda>f. descend ?cfg ?L u f k 0 (v_root s)"
  note slot = slot_eq [OF k(1), of u]
  from slot_node [OF inv u k(1)] obtain ch c dirty where node: "?node = InternalNode ch c k dirty" "length ch = vc_NodeWidth ?cfg"
    and ch: "\<forall>i<length ch. case ch ! i of
          None \<Rightarrow> ptr_at (v_root s) (path_from ?cfg u 0 k @ [i]) = None
        | Some m \<Rightarrow> \<exists>p<length ?L. m = LeafNode p \<and> ptr_at (v_root s) (path_from ?cfg u 0 k @ [i]) = Some p" by blast
  have i: "?i < length ch" using index_less [OF cfg(1)] node(2) by simp
  have pass: "insert_pass u data s = (case ch ! ?i of
      None \<Rightarrow> Return (VDone (finish_insert u ((s\<lparr>v_root := ?D (set_child ?i (LeafNode (length ?L)))\<rparr>)
        \<lparr>v_leaves := ?L @ [new_leaf u data], v_nodeIndex := AList.update u (length ?L) (v_nodeIndex s)\<rparr>)))
    | Some (InternalNode _ _ _ _) \<Rightarrow> Return (VErr ErrNotALeaf)
    | Some (LeafNode p) \<Rightarrow>
        if vl_hasData (?L ! p) \<and> vl_userIDHash (?L ! p) \<noteq> u \<and> shouldExpandLeaf ?L ?node ((vc_NodeWidth ?cfg + 1) div 2) then
          (case expandLeaf ?node ?i p s of
             VDone (node', s') \<Rightarrow> Retry (s'\<lparr>v_root := descend ?cfg (v_leaves s') u (\<lambda>_. node') k 0 (v_root s')\<rparr>)
           | VErr err \<Rightarrow> Return (VErr err) | VDeadlock \<Rightarrow> Return VDeadlock | VPanic \<Rightarrow> Return VPanic)
        else Return (VDone (finish_insert u ((s\<lparr>v_root := ?D id\<rparr>)
          \<lparr>v_leaves := ?L[p := (?L ! p)\<lparr>vl_inMemoryData := data, vl_hasData := True, vl_dirty := True\<rparr>]\<rparr>))))"
    using u k cfg(3) node unfolding insert_pass_def
    by (simp add: Let_def stem_descend stem_bottom split: option.split verkle_node.split verkle_result.split)
  note c = ch [rule_format, OF i]
  show ?thesis
  proof (cases "ch ! ?i")
    case None
    then have at: "ptr_at (v_root s) (slot ?cfg u) = None" using c slot by simp
    let ?s = "finish_insert u ((s\<lparr>v_root := ?D (set_child ?i (LeafNode (length ?L)))\<rparr>)
        \<lparr>v_leaves := ?L @ [new_leaf u data], v_nodeIndex := AList.update u (length ?L) (v_nodeIndex s)\<rparr>)"
    have "v_tree C ?s \<and> slots_of ?s = (slots_of s)(slot ?cfg u \<mapsto>
        (vl_userIDHash ((?L @ [new_leaf u data]) ! length ?L), vl_inMemoryData ((?L @ [new_leaf u data]) ! length ?L)))"
      by (rule place_leaf [OF tree cfg(1) k(1), where p = "length ?L" and u = u])
        (simp_all add: new_leaf_def u at finish_insert_def k(1) nth_append)
    moreover have "vl_userIDHash (?L ! r) \<noteq> u" if "r < length ?L" for r
      using tree that at by (auto simp: v_tree_def leaf_ok_def)
    then have "v_index ?s" by (intro index_new [OF index, where l = "new_leaf u data"]) (simp_all add: finish_insert_def new_leaf_def)
    moreover have "v_static ?s" by (rule static_same [OF static]) (simp_all add: finish_insert_def)
    ultimately have "v_step C s ?s" "slots_of ?s = (slots_of s)(slot ?cfg u \<mapsto> (u, data))"
      by (simp_all add: v_step_def v_inv_def finish_insert_def new_leaf_def)
    moreover have "verkle_insert u data s = Some (VDone ?s)" by (subst verkle_insert.simps) (simp add: pass None)
    ultimately show ?thesis using at by (simp add: spec_insert_def slots_of_def)
  next
    case (Some m)
    then obtain p where p: "p < length ?L" "m = LeafNode p" "ptr_at (v_root s) (slot ?cfg u) = Some p" using c slot by auto
    let ?l = "(?L ! p)\<lparr>vl_inMemoryData := data, vl_hasData := True, vl_dirty := True\<rparr>"
    have leaf: "vl_hasData (?L ! p)" "length (vl_userIDHash (?L ! p)) = 32"
      using tree p(1) by (simp_all add: v_tree_def leaf_ok_def)
    have owner: "slot ?cfg (vl_userIDHash (?L ! p)) = slot ?cfg u" using tree p(3) unfolding v_tree_def by metis
    have m: "slots_of s (slot ?cfg u) = Some (vl_userIDHash (?L ! p), vl_inMemoryData (?L ! p))" by (simp add: slots_of_def p(3))
    have crowded: "shouldExpandLeaf ?L ?node (Suc (vc_NodeWidth ?cfg) div 2) \<longleftrightarrow> crowded ?cfg (slots_of s) (butlast (slot ?cfg u))"
      unfolding node(1) slot butlast_snoc Suc_eq_plus1 by (rule crowded_eq [OF inv node(2) ch])
    show ?thesis
    proof (cases "vl_userIDHash (?L ! p) \<noteq> u \<and> crowded ?cfg (slots_of s) (butlast (slot ?cfg u))")
      case True
      have depth: "vc_AutoGrowDepth ?cfg" "v_currentDepth s = Suc k" using static k(1) by (simp_all add: v_static_def)
      show ?thesis
      proof (cases "can_grow ?cfg")
        case grow: True
        have "expandLeaf ?node ?i p s = VDeadlock"
          using grow depth mu k(1) by (simp add: expandLeaf_def node(1) can_grow_def expandDepth_def with_lock_def)
        then have "verkle_insert u data s = Some VDeadlock"
          using True leaf(1) by (subst verkle_insert.simps) (simp add: pass Some p(2) crowded)
        then show ?thesis using True grow by (simp add: spec_insert_def m)
      next
        case False
        have "expandLeaf ?node ?i p s = VDone (?node, s)"
          using False depth k(1) by (simp add: expandLeaf_def node(1) can_grow_def)
        moreover have "?D (\<lambda>_. ?node) = ?D id" by (rule descend_cong) simp
        moreover have "?D id = v_root s" by (rule descend_id [OF cfg(1) w, of u ?i]) (use p(3) slot in simp)
        ultimately have "insert_pass u data s = Retry s"
          using True leaf(1) by (simp add: pass Some p(2) crowded)
        then show ?thesis using insert_diverges True False by (simp add: spec_insert_def m)
      qed
    next
      case False
      let ?s = "finish_insert u ((s\<lparr>v_root := ?D id\<rparr>)\<lparr>v_leaves := ?L[p := ?l]\<rparr>)"
      have ch_p: "ch[?i := Some (LeafNode p)] = ch" using Some p(2) i list_update_id [of ch ?i] by simp
      have "?D id = ?D (set_child ?i (LeafNode p))" by (rule descend_cong) (simp add: node(1) ch_p)
      then have root: "v_root ?s = markDirtyPath ?cfg u k 0 (?D (set_child ?i (LeafNode p)))"
        by (simp add: finish_insert_def k(1))
      have "v_tree C ?s \<and> slots_of ?s = (slots_of s)(slot ?cfg u \<mapsto>
          (vl_userIDHash (?L[p := ?l] ! p), vl_inMemoryData (?L[p := ?l] ! p)))"
        by (rule place_leaf [OF tree cfg(1) k(1), where p = p and u = u and L' = "?L[p := ?l]", OF _ _ _ _ _ _ _ _ root])
          (use p leaf owner in \<open>simp_all add: finish_insert_def\<close>)
      moreover have "v_index ?s"
        by (rule index_same [OF index]) (use p(1) in \<open>simp_all add: finish_insert_def nth_list_update\<close>)
      moreover have "v_static ?s" by (rule static_same [OF static]) (simp_all add: finish_insert_def)
      ultimately have "v_step C s ?s" "slots_of ?s = (slots_of s)(slot ?cfg u \<mapsto> (vl_userIDHash (?L ! p), data))"
        using p(1) by (simp_all add: v_step_def v_inv_def finish_insert_def)
      moreover have "insert_pass u data s = Return (VDone ?s)" using False leaf(1) by (simp add: pass Some p(2) crowded) blast
      then have "verkle_insert u data s = Some (VDone ?s)" by (subst verkle_insert.simps) simp
      ultimately show ?thesis using False by (simp add: spec_insert_def m)
    qed
  qed
qed

end
