(* ===== verification/VerkleRefine.thy ===== *)
theory VerkleRefine
  imports VerkleInsert
begin

text \<open>
  Whole runs of batches and reads: the reference definition of the root over the owners of the slots, the
  abstract runs, and the lemma that every run agrees with them.
\<close>

subsection \<open>The root from the owners\<close>

fun spec_root :: "'f crypto \<Rightarrow> verkle_config \<Rightarrow> nat \<Rightarrow> nat \<Rightarrow> (nat list \<rightharpoonup> bytes) \<Rightarrow> bytes" where
  "spec_root C cfg 0 d m = the (commitPolynomial C [hashToFieldElement C (the (m []))])"
| "spec_root C cfg (Suc k) d m = the (internal_value C cfg d (map (\<lambda>i.
    if \<exists>q. m (i # q) \<noteq> None then Some (spec_root C cfg k (Suc d) (\<lambda>q. m (i # q))) else None) [0..<vc_NodeWidth cfg]))"

definition owners :: "slots \<Rightarrow> nat list \<rightharpoonup> bytes" where
  "owners m = map_option fst \<circ> m"

definition owner_at :: "verkle_leaf list \<Rightarrow> verkle_node \<Rightarrow> nat list \<rightharpoonup> bytes" where
  "owner_at L n = (\<lambda>q. map_option (\<lambda>p. vl_userIDHash (L ! p)) (ptr_at n q))"

lemma owners_slots: "owners (slots_of s) = owner_at (v_leaves s) (v_root s)"
  by (simp add: owners_def owner_at_def slots_of_def option.map_comp comp_def)

lemma fresh_spec: "wf_node (vc_NodeWidth cfg) N k d n \<Longrightarrow> fresh C cfg L n = spec_root C cfg k d (owner_at L n)"
proof (induction k arbitrary: d n)
  case 0
  then show ?case by (auto simp: leaf_fresh_def owner_at_def)
next
  case (Suc k)
  then obtain ch c dirty where n: "n = InternalNode ch c d dirty" and len: "length ch = vc_NodeWidth cfg"
    and ch: "\<forall>m. Some m \<in> set ch \<longrightarrow> wf_node (vc_NodeWidth cfg) N k (Suc d) m \<and> (\<exists>p. ptr_at m p \<noteq> None)" by auto
  have "map_option (fresh C cfg L) (ch ! i) =
      (if \<exists>q. owner_at L n (i # q) \<noteq> None then Some (spec_root C cfg k (Suc d) (\<lambda>q. owner_at L n (i # q))) else None)"
    if i: "i < length ch" for i
  proof (cases "ch ! i")
    case None
    then show ?thesis by (simp add: n owner_at_def)
  next
    case (Some m)
    have "Some m \<in> set ch" using Some i nth_mem by metis
    then have m: "wf_node (vc_NodeWidth cfg) N k (Suc d) m" "\<exists>p. ptr_at m p \<noteq> None" using ch by blast+
    have at: "(\<lambda>q. owner_at L n (i # q)) = owner_at L m" using Some i by (simp add: n owner_at_def)
    have "\<exists>q. owner_at L n (i # q) \<noteq> None" using m(2) Some i by (simp add: n owner_at_def)
    then show ?thesis unfolding at using Suc.IH [OF m(1)] Some by simp
  qed
  then have "map (map_option (fresh C cfg L)) ch = map (\<lambda>i.
      if \<exists>q. owner_at L n (i # q) \<noteq> None then Some (spec_root C cfg k (Suc d) (\<lambda>q. owner_at L n (i # q))) else None) [0..<vc_NodeWidth cfg]"
    by (intro nth_equalityI) (simp_all add: len)
  then show ?case unfolding n fresh.simps spec_root.simps by (simp only: n)
qed

subsection \<open>The threshold of growth\<close>

lemma occupied_card: "occupied ch = card {i. i < length ch \<and> ch ! i \<noteq> None}"
  by (simp add: occupied_def length_filter_conv_card)

lemma needs_spec:
  assumes "v_inv C s"
  shows "needsDepthExpansion s \<longleftrightarrow> can_grow (v_config s) \<and> root_full (v_config s) (slots_of s)"
proof -
  have static: "vc_AutoGrowDepth (v_config s)" "v_currentDepth s = vc_Levels (v_config s)" "0 < vc_Levels (v_config s)"
    using assms by (simp_all add: v_inv_def v_static_def cfg_ok_def)
  then obtain k where k: "vc_Levels (v_config s) = Suc k" using gr0_implies_Suc by blast
  from assms k obtain ch c dirty where n: "v_root s = InternalNode ch c 0 dirty" "length ch = vc_NodeWidth (v_config s)"
    and ch: "\<forall>m. Some m \<in> set ch \<longrightarrow> (\<exists>p. ptr_at m p \<noteq> None)" by (auto simp: v_inv_def v_tree_def)
  have "ch ! i \<noteq> None \<longleftrightarrow> (\<exists>q. slots_of s (i # q) \<noteq> None)" if i: "i < length ch" for i
  proof (cases "ch ! i")
    case None
    then show ?thesis by (simp add: slots_of_def n)
  next
    case (Some m)
    have "Some m \<in> set ch" using Some i nth_mem by metis
    then have "\<exists>p. ptr_at m p \<noteq> None" using ch by blast
    then show ?thesis using Some i by (simp add: slots_of_def n)
  qed
  then have "{i. i < length ch \<and> ch ! i \<noteq> None} = {i. i < vc_NodeWidth (v_config s) \<and> (\<exists>q. slots_of s (i # q) \<noteq> None)}"
    unfolding n(2) [symmetric] by (intro Collect_cong) blast
  then show ?thesis
    by (simp add: needsDepthExpansion_def can_grow_def root_full_def static n(1) occupied_card)
qed

subsection \<open>The state after a recomputation\<close>

lemma ptr_at_sealed [simp]: "ptr_at (sealed C cfg L n) q = ptr_at n q"
proof (induction n arbitrary: q rule: verkle_induct)
  case (Internal ch c d dirty)
  show ?case
  proof (cases q)
    case (Cons i js)
    show ?thesis
    proof (cases "i < length ch \<and> ch ! i \<noteq> None")
      case True
      then obtain m where m: "ch ! i = Some m" by blast
      then have "Some m \<in> set ch" using True nth_mem by metis
      then show ?thesis using Internal m True by (simp add: Cons del: fresh.simps)
    qed (auto simp: Cons)
  qed simp
qed (cases q; simp)+

lemma wf_sealed: "wf_node W N k d n \<Longrightarrow> wf_node W N k d (sealed C cfg L n)"
proof (induction k arbitrary: d n)
  case (Suc k)
  then obtain ch c dirty where n: "n = InternalNode ch c d dirty" "length ch = W"
    and ch: "\<forall>m. Some m \<in> set ch \<longrightarrow> wf_node W N k (Suc d) m \<and> (\<exists>p. ptr_at m p \<noteq> None)" by auto
  have "\<forall>m. Some m \<in> set (map (map_option (sealed C cfg L)) ch) \<longrightarrow> wf_node W N k (Suc d) m \<and> (\<exists>p. ptr_at m p \<noteq> None)"
  proof (intro allI impI)
    fix m assume "Some m \<in> set (map (map_option (sealed C cfg L)) ch)"
    then obtain m0 where "Some m0 \<in> set ch" "m = sealed C cfg L m0" by (auto simp: map_option_case split: option.splits)
    then show "wf_node W N k (Suc d) m \<and> (\<exists>p. ptr_at m p \<noteq> None)" using ch Suc.IH by auto
  qed
  then show ?case by (simp add: n del: set_map) (rule exI [of _ False], simp)
qed auto

lemma ptrs_sealed [simp]: "ptrs (sealed C cfg L n) = ptrs n"
  by (auto simp: ptrs_at)

lemma fresh_sealed [simp]: "fresh C cfg L' (sealed C cfg L n) = fresh C cfg L' n"
proof (induction n rule: verkle_induct)
  case (Internal ch c d dirty)
  have "map (map_option (fresh C cfg L')) (map (map_option (sealed C cfg L)) ch) = map (map_option (fresh C cfg L')) ch"
    unfolding map_map option.map_comp comp_def by (rule kids_map_cong) (use Internal in blast)
  then show ?case by (simp only: sealed.simps fresh.simps)
qed simp

lemma clean_all:
  "ptrs_in L n \<Longrightarrow> marks_ok C cfg L n \<Longrightarrow> ptrs n \<subseteq> A \<Longrightarrow> clean C cfg (seal C A L) (sealed C cfg L n)"
proof (induction n rule: verkle_induct)
  case (Internal ch c d dirty)
  have "clean C cfg (seal C A L) (sealed C cfg L m)" if "Some m \<in> set ch" for m
  proof (rule Internal.IH [OF that])
    show "ptrs_in L m" by (rule ptrs_in_kid [OF Internal.prems(1) that])
    show "marks_ok C cfg L m" using Internal.prems(2) that by (simp only: marks_ok.simps kids_simps)
    show "ptrs m \<subseteq> A" using ptrs_kid [OF that] Internal.prems(3) by blast
  qed
  then have "\<forall>m. Some m \<in> set (map (map_option (sealed C cfg L)) ch) \<longrightarrow> clean C cfg (seal C A L) m"
    by (auto simp: map_option_case split: option.splits)
  moreover have "fresh C cfg (seal C A L) (sealed C cfg L (InternalNode ch c d dirty)) = fresh C cfg L (InternalNode ch c d dirty)"
    by (simp only: fresh_sealed seal_fresh [OF Internal.prems(1)])
  ultimately show ?case by (simp only: sealed.simps clean.simps kids_simps) simp
qed (simp add: ptrs_in_def leaf_fresh_def)

lemma clean_marks: "clean C cfg L n \<Longrightarrow> marks_ok C cfg L n"
proof (induction n rule: verkle_induct)
  case (Internal ch c d dirty)
  then show ?case by (simp only: marks_ok.simps kids_simps) (simp only: clean.simps kids_simps, blast)
qed simp

lemma root_step:
  assumes inv: "v_inv C s" and C: "commit_total C (v_config s)" and ord: "fair_order ord"
  shows "\<exists>s'. recompute_root C ord s = VDone s' \<and> v_step C s s' \<and> slots_of s' = slots_of s
    \<and> root_hash s' = spec_root C (v_config s) (vc_Levels (v_config s)) 0 (owners (slots_of s))"
proof -
  let ?cfg = "v_config s" and ?L = "v_leaves s" and ?n = "v_root s"
  have cfg: "cfg_ok ?cfg" and tree: "v_tree C s" and static: "v_static s" and index: "v_index s"
    using inv by (simp_all add: v_inv_def v_static_def)
  then obtain k where k: "vc_Levels ?cfg = Suc k" using gr0_implies_Suc by (auto simp: cfg_ok_def)
  have w: "wf_node (vc_NodeWidth ?cfg) (length ?L) (Suc k) 0 ?n" and marks: "marks_ok C ?cfg ?L ?n"
    using tree k by (simp_all add: v_tree_def)
  have L: "ptrs_in ?L ?n" by (rule wf_ptrs [OF w])
  define L' n' where "L' = seal C (ptrs ?n) ?L" and "n' = sealed C ?cfg ?L ?n"
  define s' where "s' = s\<lparr>v_root := n', v_leaves := L'\<rparr>"
  have "recompute_root C ord s = VDone s'"
    using recompute_ok [OF C cfg w marks, of "{}"] parallel_ok [OF C cfg ord w marks, of "v_parallelConfig s" "{}"]
    by (simp add: recompute_root_def s'_def L'_def n'_def)
  moreover have "clean C ?cfg L' n'" unfolding L'_def n'_def by (rule clean_all [OF L marks order_refl])
  then have "v_tree C s'" using tree wf_sealed [OF w, of C ?cfg ?L] clean_marks
    by (simp add: v_tree_def leaf_ok_def s'_def k ptr_at_wf [OF w] L'_def n'_def del: wf_node.simps) 
      (simp add: ptr_at_wf [OF w])
  moreover have "v_index s'" using index by (auto simp: v_index_def s'_def L'_def)
  moreover have "v_static s'" by (rule static_same [OF static]) (simp_all add: s'_def)
  moreover have "slots_of s' = slots_of s"
    by (rule ext) (auto simp: slots_of_def s'_def L'_def n'_def map_option_case ptr_at_wf [OF w] split: option.split)
  moreover have "root_hash s' = fresh C ?cfg ?L ?n"
    using Hash_sealed [OF L marks order_refl] by (simp add: root_hash_def s'_def L'_def n'_def)
  then have "root_hash s' = spec_root C ?cfg (vc_Levels ?cfg) 0 (owners (slots_of s))"
    unfolding owners_slots k using fresh_spec [OF w, of C ?L] by simp
  ultimately show ?thesis by (intro exI [of _ s']) (simp add: v_step_def v_inv_def s'_def)
qed

end
