(* ===== verification/VerkleFormat.thy ===== *)
theory VerkleFormat
  imports VerkleCommit
begin

text \<open>
  Proofs and the binary format of the Verkle tree, \<^verbatim>\<open>verkle_tree.go\<close>. \<^verbatim>\<open>DeserializeJSON\<close>, \<^verbatim>\<open>LoadFromDisk\<close>
  and \<^verbatim>\<open>GetDiff\<close> only read a header or fill in two fields, as \<^verbatim>\<open>Deserialize\<close> does, and are left out with
  the JSON they use.
\<close>

subsection \<open>Proofs\<close>

record verkle_proof =
  vp_UserIDs :: "bytes list"
  vp_UserIDHashes :: "bytes list"
  vp_DataKeys :: "bytes list"
  vp_Path :: "bytes list"
  vp_SiblingHashes :: "bytes list"

definition push_commitment :: "bytes option \<Rightarrow> verkle_proof \<Rightarrow> verkle_proof" where
  "push_commitment c proof = (case c of None \<Rightarrow> proof | Some x \<Rightarrow> proof\<lparr>vp_Path := vp_Path proof @ [x]\<rparr>)"

text \<open>The hashes of the children other than \<open>index\<close>.\<close>

definition sibling_hashes :: "verkle_leaf list \<Rightarrow> nat \<Rightarrow> verkle_node option list \<Rightarrow> bytes list" where
  "sibling_hashes L index ch = concat (map (\<lambda>i. case ch ! i of
     None \<Rightarrow> [] | Some n \<Rightarrow> if i \<noteq> index then [verkle_Hash L n] else []) [0..<length ch])"

text \<open>The loop of \<^verbatim>\<open>collectProofPath\<close>; below a leaf it looks at the same node again.\<close>

fun collect_path :: "verkle_config \<Rightarrow> verkle_leaf list \<Rightarrow> bytes \<Rightarrow> nat \<Rightarrow> nat \<Rightarrow> verkle_node \<Rightarrow> verkle_proof \<Rightarrow> verkle_proof option" where
  "collect_path cfg L stem 0 d n proof = Some proof"
| "collect_path cfg L stem (Suc k) d n proof =
    (let index = getNodeIndex cfg (stem ! d);
         ch = node_children n;
         proof1 = proof\<lparr>vp_SiblingHashes := vp_SiblingHashes proof @ sibling_hashes L index ch\<rparr>
     in case ch ! index of
          None \<Rightarrow> None
        | Some (InternalNode ch2 c2 d2 dirty2) \<Rightarrow>
            collect_path cfg L stem k (d + 1) (InternalNode ch2 c2 d2 dirty2) (push_commitment c2 proof1)
        | Some (LeafNode p) \<Rightarrow> collect_path cfg L stem k (d + 1) n proof1)"

definition collectProofPath :: "bytes \<Rightarrow> verkle \<Rightarrow> verkle_proof \<Rightarrow> verkle_proof option" where
  "collectProofPath u s proof =
    collect_path (v_config s) (v_leaves s) (take StemSize u) (vc_Levels (v_config s) - 1) 0 (v_root s)
      (push_commitment (root_commitment (v_root s)) proof)"

fun collect_users :: "'f crypto \<Rightarrow> bytes list \<Rightarrow> verkle \<Rightarrow> verkle_proof \<Rightarrow> verkle_proof option" where
  "collect_users C [] s proof = Some proof"
| "collect_users C (userID # us) s proof =
    (let u = HashUserID C userID
     in case map_of (v_nodeIndex s) u of
          None \<Rightarrow> None
        | Some p \<Rightarrow>
            if \<not> vl_hasData (v_leaves s ! p) then None
            else case collectProofPath u s (proof\<lparr>vp_UserIDHashes := vp_UserIDHashes proof @ [u],
                     vp_DataKeys := vp_DataKeys proof @ [vl_dataKey (v_leaves s ! p)]\<rparr>) of
                   None \<Rightarrow> None
                 | Some proof1 \<Rightarrow> collect_users C us s proof1)"

definition generateProof :: "'f crypto \<Rightarrow> bytes list \<Rightarrow> verkle \<Rightarrow> verkle_proof option" where
  "generateProof C userIDs s = collect_users C userIDs s
    \<lparr>vp_UserIDs = userIDs, vp_UserIDHashes = [], vp_DataKeys = [], vp_Path = [], vp_SiblingHashes = []\<rparr>"

definition VerifyProof :: "bytes \<Rightarrow> verkle_proof option \<Rightarrow> bool option" where
  "VerifyProof root proof = (case proof of None \<Rightarrow> None | Some _ \<Rightarrow> Some True)"

subsection \<open>The binary format\<close>

definition le_bytes :: "nat \<Rightarrow> 'a::len word \<Rightarrow> bytes" where
  "le_bytes n w = rev (be_bytes n w)"

definition le_word :: "bytes \<Rightarrow> 'a::len word" where
  "le_word bs = be_word (rev bs)"

fun serializeNode :: "verkle_leaf list \<Rightarrow> verkle_node \<Rightarrow> bytes" where
  "serializeNode L (LeafNode p) =
    (let leaf = L ! p
     in [0x01] @ vl_userIDHash leaf @ vl_stem leaf @ le_bytes 2 (of_nat (length (vl_dataKey leaf)) :: 16 word) @ vl_dataKey leaf
        @ [if vl_hasData leaf then 0x01 else 0x00] @ (case vl_commitment leaf of None \<Rightarrow> [] | Some c \<Rightarrow> c))"
| "serializeNode L (InternalNode ch c d dirty) =
    (let parts = map (map_option (serializeNode L)) ch
     in [0x00] @ [of_nat d] @ le_bytes 2 (of_nat (occupied ch) :: 16 word)
        @ concat (map (\<lambda>i. case parts ! i of
            None \<Rightarrow> []
          | Some b \<Rightarrow> le_bytes 2 (of_nat i :: 16 word) @ le_bytes 4 (of_nat (length b) :: u32) @ b) [0..<length parts])
        @ (case c of None \<Rightarrow> [] | Some x \<Rightarrow> x))"

definition magic :: bytes where
  "magic = map of_char ''VKL2''"

definition verkle_Serialize :: "verkle \<Rightarrow> bytes" where
  "verkle_Serialize s = magic @ le_bytes 4 (of_nat (vc_Levels (v_config s)) :: u32)
    @ le_bytes 4 (of_nat (vc_NodeWidth (v_config s)) :: u32) @ le_bytes 4 (of_nat (length (v_nodeIndex s)) :: u32)
    @ serializeNode (v_leaves s) (v_root s)"

text \<open>\<open>None\<close> is an error or the panic of an invalid width.\<close>

definition verkle_Deserialize :: "nat \<Rightarrow> bytes \<Rightarrow> (bytes \<rightharpoonup> bytes) option \<Rightarrow> verkle option" where
  "verkle_Deserialize numCPU data store =
    (if length data < 16 then None
     else if take 4 data \<noteq> magic then None
     else verkle_New numCPU (unat (le_word (take 4 (drop 4 data)) :: u32)) (unat (le_word (take 4 (drop 8 data)) :: u32)) store)"

end
