(* ===== verification/VerkleRuns.thy ===== *)
theory VerkleRuns
  imports VerkleRefine VerkleFormat
begin

text \<open>
  Runs of batches and reads from an empty Verkle tree, concretely and over the slots, and their agreement.
\<close>

subsection \<open>Runs\<close>

datatype verkle_op = VCommit "(bytes \<times> bytes option) list" | VGet bytes | VHas bytes
datatype verkle_reply = VRoot bytes | VValue "verkle_error + bytes option" | VKnown bool

definition then_reply :: "verkle_reply \<Rightarrow> (verkle_reply list \<times> 's) verkle_result option \<Rightarrow> (verkle_reply list \<times> 's) verkle_result option" where
  "then_reply r = map_option (map_verkle_result (\<lambda>(rs, s). (r # rs, s)))"

fun run_verkle :: "'f crypto \<Rightarrow> (nat list \<Rightarrow> nat list) \<Rightarrow> verkle_op list \<Rightarrow> verkle \<Rightarrow> (verkle_reply list \<times> verkle) verkle_result option" where
  "run_verkle C ord [] s = Some (VDone ([], s))"
| "run_verkle C ord (VCommit upds # ops) s = (case CommitBatch C ord upds s of
     Some (VDone (root, s')) \<Rightarrow> then_reply (VRoot root) (run_verkle C ord ops s')
   | Some (VErr err) \<Rightarrow> Some (VErr err) | Some VDeadlock \<Rightarrow> Some VDeadlock | Some VPanic \<Rightarrow> Some VPanic | None \<Rightarrow> None)"
| "run_verkle C ord (VGet u # ops) s = (case verkle_get u s of (r, s') \<Rightarrow> then_reply (VValue r) (run_verkle C ord ops s'))"
| "run_verkle C ord (VHas u # ops) s = then_reply (VKnown (HasByHash u s)) (run_verkle C ord ops s)"

text \<open>Over the slots: a user is registered when it owns its slot.\<close>

definition spec_get :: "verkle_config \<Rightarrow> bytes \<Rightarrow> slots \<Rightarrow> verkle_error + bytes option" where
  "spec_get cfg u m = (if length u \<noteq> 32 then Inl ErrInvalidKey
    else case m (slot cfg u) of
      None \<Rightarrow> Inl ErrKeyNotFound
    | Some (owner, data) \<Rightarrow> if owner = u then Inr data else Inl ErrKeyNotFound)"

definition spec_has :: "verkle_config \<Rightarrow> bytes \<Rightarrow> slots \<Rightarrow> bool" where
  "spec_has cfg u m \<longleftrightarrow> (\<exists>data. m (slot cfg u) = Some (u, data))"

fun spec_run :: "'f crypto \<Rightarrow> verkle_config \<Rightarrow> verkle_op list \<Rightarrow> slots \<Rightarrow> (verkle_reply list \<times> slots) verkle_result option" where
  "spec_run C cfg [] m = Some (VDone ([], m))"
| "spec_run C cfg (VCommit upds # ops) m = (case spec_commit cfg upds m of
     Some (VDone m') \<Rightarrow> then_reply (VRoot (spec_root C cfg (vc_Levels cfg) 0 (owners m'))) (spec_run C cfg ops m')
   | Some (VErr err) \<Rightarrow> Some (VErr err) | Some VDeadlock \<Rightarrow> Some VDeadlock | Some VPanic \<Rightarrow> Some VPanic | None \<Rightarrow> None)"
| "spec_run C cfg (VGet u # ops) m = then_reply (VValue (spec_get cfg u m)) (spec_run C cfg ops m)"
| "spec_run C cfg (VHas u # ops) m = then_reply (VKnown (spec_has cfg u m)) (spec_run C cfg ops m)"

text \<open>Keys are digests, and no data is nil.\<close>

definition upds_ok :: "(bytes \<times> bytes option) list \<Rightarrow> bool" where
  "upds_ok upds \<longleftrightarrow> list_all (\<lambda>(u, data). length u = 32 \<and> data \<noteq> None) upds"

fun op_ok :: "verkle_op \<Rightarrow> bool" where
  "op_ok (VCommit upds) \<longleftrightarrow> upds_ok upds"
| "op_ok (VGet u) \<longleftrightarrow> True"
| "op_ok (VHas u) \<longleftrightarrow> length u = 32"

definition replies :: "(verkle_reply list \<times> 's) verkle_result option \<Rightarrow> verkle_reply list verkle_result option" where
  "replies = map_option (map_verkle_result fst)"

lemma replies_simps [simp]:
  "replies None = None" "replies (Some (VDone (rs, s))) = Some (VDone rs)" "replies (Some (VErr err)) = Some (VErr err)"
  "replies (Some VDeadlock) = Some VDeadlock" "replies (Some VPanic) = Some VPanic"
  by (simp_all add: replies_def)

lemma replies_then_reply: "replies (then_reply x r) = map_option (map_verkle_result (Cons x)) (replies r)"
  by (cases r) (auto simp: replies_def then_reply_def verkle_result.map_comp comp_def case_prod_beta)

lemma replies_then: "replies r = replies r' \<Longrightarrow> replies (then_reply x r) = replies (then_reply x r')"
  by (simp add: replies_then_reply)

subsection \<open>Batches\<close>

lemma v_inv_cong:
  "v_root s' = v_root s \<Longrightarrow> v_leaves s' = v_leaves s \<Longrightarrow> v_config s' = v_config s \<Longrightarrow> v_currentDepth s' = v_currentDepth s \<Longrightarrow>
   v_dataStore s' = v_dataStore s \<Longrightarrow> v_asyncMode s' = v_asyncMode s \<Longrightarrow> v_nodeIndex s' = v_nodeIndex s \<Longrightarrow>
   (\<And>u p. map_of (nc_list (v_nodeCache s')) u = Some p \<Longrightarrow> map_of (v_nodeIndex s) u = Some p) \<Longrightarrow>
   v_inv C s \<Longrightarrow> v_inv C s' \<and> slots_of s' = slots_of s"
  by (simp add: v_inv_def v_static_def v_tree_def v_index_def leaf_ok_def slots_of_def)

lemma v_cache: "v_inv C s \<Longrightarrow> map_of (nc_list (v_nodeCache s)) u = Some p \<Longrightarrow> map_of (v_nodeIndex s) u = Some p"
  by (simp add: v_inv_def v_index_def)

lemma step_trans: "v_step C s s1 \<Longrightarrow> v_step C s1 s2 \<Longrightarrow> v_step C s s2"
  by (simp add: v_step_def)

lemma no_store: "v_inv C s \<Longrightarrow> s\<lparr>v_dataStore := map_option f (v_dataStore s)\<rparr> = s"
  by (cases s) (simp add: v_inv_def v_static_def)

lemma insert_all_step:
  assumes "v_inv C s" "v_mu s" "upds_ok upds"
  shows "case spec_inserts (v_config s) upds (slots_of s) of
      None \<Rightarrow> insert_all upds s = None
    | Some (VDone m) \<Rightarrow> \<exists>s'. insert_all upds s = Some (VDone s') \<and> v_step C s s' \<and> slots_of s' = m
    | Some r \<Rightarrow> r = VDeadlock \<and> insert_all upds s = Some VDeadlock"
  using assms
proof (induction upds arbitrary: s)
  case (Cons x upds)
  obtain u data where x: "x = (u, data)" by fastforce
  have u: "length u = 32" and upds: "upds_ok upds" using Cons.prems(3) by (simp_all add: x upds_ok_def)
  note one = insert_step [OF Cons.prems(1,2) u, of data]
  have all: "insert_all (x # upds) s = (case verkle_insert u data s of
      None \<Rightarrow> None | Some (VDone s2) \<Rightarrow> insert_all upds s2 | Some r \<Rightarrow> Some r)"
    by (simp add: x no_store [OF Cons.prems(1)] Let_def)
  show ?case
  proof (cases "spec_insert (v_config s) u data (slots_of s)")
    case None
    then show ?thesis using one by (simp only: all) (simp add: x)
  next
    case (Some r)
    show ?thesis
    proof (cases r)
      case (VDone m)
      then obtain s1 where s1: "verkle_insert u data s = Some (VDone s1)" "v_step C s s1" "slots_of s1 = m" using one Some by auto
      then have "v_inv C s1" "v_mu s1" "v_config s1 = v_config s" using Cons.prems(2) by (simp_all add: v_step_def)
      note IH = Cons.IH [OF this(1,2) upds] and cfg = this(3)
      have spec: "spec_inserts (v_config s) (x # upds) (slots_of s) = spec_inserts (v_config s1) upds (slots_of s1)"
        using Some VDone s1(3) cfg by (simp add: x)
      have ins: "insert_all (x # upds) s = insert_all upds s1" unfolding all by (simp add: s1(1))
      show ?thesis unfolding spec ins using IH step_trans [OF s1(2)] by (auto split: option.splits verkle_result.splits)
    qed (use one Some in \<open>simp only: all, simp add: x\<close>)+
  qed
qed (simp add: v_step_def)

lemma commit_step:
  assumes inv: "v_inv C s" and mu: "\<not> v_mu s" and ok: "upds_ok upds" and C: "commit_total C (v_config s)" and ord: "fair_order ord"
  shows "case spec_commit (v_config s) upds (slots_of s) of
      None \<Rightarrow> CommitBatch C ord upds s = None
    | Some (VDone m) \<Rightarrow> \<exists>s'. CommitBatch C ord upds s = Some (VDone (spec_root C (v_config s) (vc_Levels (v_config s)) 0 (owners m), s'))
        \<and> v_step C s s' \<and> slots_of s' = m
    | Some r \<Rightarrow> r = VDeadlock \<and> CommitBatch C ord upds s = Some VDeadlock"
proof -
  define s1 where "s1 = (s\<lparr>v_mu := True\<rparr>)\<lparr>v_previousRoot := (case root_commitment (v_root (s\<lparr>v_mu := True\<rparr>)) of
    None \<Rightarrow> v_previousRoot (s\<lparr>v_mu := True\<rparr>) | Some c \<Rightarrow> Some c)\<rparr>"
  have s1: "v_inv C s1" "slots_of s1 = slots_of s" "v_mu s1" "v_config s1 = v_config s" "v_parallelConfig s1 = v_parallelConfig s"
    using v_inv_cong [of s1 s C] v_cache [OF inv] inv by (simp_all add: s1_def)
  have commit: "CommitBatch C ord upds s = (case (case (if needsDepthExpansion s1 then expandDepth s1 else VDone s1) of
          VDone s2 \<Rightarrow> (case insert_all upds s2 of
            None \<Rightarrow> None
          | Some (VDone s3) \<Rightarrow> Some
              (if v_asyncMode s3 then commitBatchAsyncParallel C ord s3
               else case recompute_root C ord s3 of
                      VDone s4 \<Rightarrow> VDone (root_hash s4, s4)
                    | VErr err \<Rightarrow> VErr err | VDeadlock \<Rightarrow> VDeadlock | VPanic \<Rightarrow> VPanic)
          | Some (VErr err) \<Rightarrow> Some (VErr err) | Some VDeadlock \<Rightarrow> Some VDeadlock | Some VPanic \<Rightarrow> Some VPanic)
        | VErr err \<Rightarrow> Some (VErr err) | VDeadlock \<Rightarrow> Some VDeadlock | VPanic \<Rightarrow> Some VPanic) of
            Some (VDone (root, s')) \<Rightarrow> Some (VDone (root, s'\<lparr>v_mu := False\<rparr>))
          | r \<Rightarrow> r)"
    unfolding CommitBatch_def commit_locked_def Let_def s1_def [symmetric] using mu by (simp only: if_False)
  have needs: "needsDepthExpansion s1 \<longleftrightarrow> can_grow (v_config s) \<and> root_full (v_config s) (slots_of s)"
    using needs_spec [OF s1(1)] by (simp only: s1)
  show ?thesis
  proof (cases "needsDepthExpansion s1")
    case True
    then show ?thesis using needs s1(3) by (simp add: commit spec_commit_def expandDepth_def with_lock_def)
  next
    case False
    then have spec: "spec_commit (v_config s) upds (slots_of s) = spec_inserts (v_config s1) upds (slots_of s1)"
      using needs unfolding spec_commit_def s1 by (simp only: if_False)
    note all = insert_all_step [OF s1(1,3) ok]
    show ?thesis
    proof (cases "spec_inserts (v_config s1) upds (slots_of s1)")
      case None
      then show ?thesis using all False by (simp only: commit spec) simp
    next
      case (Some r)
      show ?thesis
      proof (cases r)
        case (VDone m)
        then obtain s3 where s3: "insert_all upds s1 = Some (VDone s3)" "v_step C s1 s3" "slots_of s3 = m" using all Some by auto
        then have i3: "v_inv C s3" "v_config s3 = v_config s" "\<not> v_asyncMode s3" "v_mu s3" "v_parallelConfig s3 = v_parallelConfig s"
          using s1 by (simp_all add: v_step_def v_inv_def v_static_def)
        from root_step [OF i3(1) _ ord] C i3(2) obtain s4 where
          s4: "recompute_root C ord s3 = VDone s4" "v_step C s3 s4" "slots_of s4 = slots_of s3"
            "root_hash s4 = spec_root C (v_config s) (vc_Levels (v_config s)) 0 (owners m)"
          using s3(3) by auto
        have i4: "v_inv C s4" using s4(2) by (simp add: v_step_def)
        have i5: "v_inv C (s4\<lparr>v_mu := False\<rparr>) \<and> slots_of (s4\<lparr>v_mu := False\<rparr>) = slots_of s4"
          by (rule v_inv_cong [OF _ _ _ _ _ _ _ _ i4]) (use v_cache [OF i4] in simp_all)
        have "CommitBatch C ord upds s = Some (VDone (root_hash s4, s4\<lparr>v_mu := False\<rparr>))"
          unfolding commit using False by (simp add: s3(1) i3(3) s4(1))
        moreover have "v_step C s (s4\<lparr>v_mu := False\<rparr>)" using i5 s4(2) i3 mu by (simp add: v_step_def)
        ultimately show ?thesis unfolding spec using Some VDone i5 s4(3,4) s3(3) by simp
      qed (use all Some False in \<open>simp only: commit spec, simp\<close>)+
    qed
  qed
qed

subsection \<open>Reads\<close>

definition data_ok :: "slots \<Rightarrow> bool" where
  "data_ok m \<longleftrightarrow> (\<forall>q owner. m q \<noteq> Some (owner, None))"

lemma insert_data: "data_ok m \<Longrightarrow> data \<noteq> None \<Longrightarrow> spec_insert cfg u data m = Some (VDone m') \<Longrightarrow> data_ok m'"
  by (auto simp: spec_insert_def data_ok_def split: option.splits if_splits)

lemma inserts_data: "data_ok m \<Longrightarrow> upds_ok upds \<Longrightarrow> spec_inserts cfg upds m = Some (VDone m') \<Longrightarrow> data_ok m'"
proof (induction upds arbitrary: m)
  case (Cons x upds)
  obtain u data where x: "x = (u, data)" by fastforce
  obtain m1 where m1: "spec_insert cfg u data m = Some (VDone m1)" "spec_inserts cfg upds m1 = Some (VDone m')"
    using Cons.prems(3) by (auto simp: x split: option.splits verkle_result.splits)
  have "data_ok m1" by (rule insert_data [OF Cons.prems(1) _ m1(1)]) (use Cons.prems(2) x in \<open>simp add: upds_ok_def\<close>)
  then show ?case using Cons.IH [OF _ _ m1(2)] Cons.prems(2) by (simp add: upds_ok_def)
qed simp

lemma commit_data: "data_ok m \<Longrightarrow> upds_ok upds \<Longrightarrow> spec_commit cfg upds m = Some (VDone m') \<Longrightarrow> data_ok m'"
  using inserts_data by (simp add: spec_commit_def split: if_splits)

text \<open>The index holds exactly the owners of slots.\<close>

lemma index_spec:
  assumes "v_inv C s"
  shows "(case map_of (v_nodeIndex s) u of
      None \<Rightarrow> \<nexists>data. slots_of s (slot (v_config s) u) = Some (u, data)
    | Some p \<Rightarrow> p < length (v_leaves s) \<and> vl_hasData (v_leaves s ! p)
        \<and> slots_of s (slot (v_config s) u) = Some (u, vl_inMemoryData (v_leaves s ! p)))"
proof (cases "map_of (v_nodeIndex s) u")
  case (Some p)
  then have "p < length (v_leaves s)" "vl_userIDHash (v_leaves s ! p) = u" using assms by (simp_all add: v_inv_def v_index_def)
  moreover from this have "leaf_ok s p" using assms by (simp add: v_inv_def v_tree_def)
  ultimately show ?thesis using Some by (simp add: leaf_ok_def slots_of_def)
next
  case None
  have False if p: "ptr_at (v_root s) (slot (v_config s) u) = Some p" "vl_userIDHash (v_leaves s ! p) = u" for p
  proof -
    have "p < length (v_leaves s)" using ptr_at_wf [OF _ p(1)] assms by (auto simp: v_inv_def v_tree_def)
    then have "map_of (v_nodeIndex s) u = Some p" using assms p(2) by (simp add: v_inv_def v_index_def)
    then show False using None by simp
  qed
  then show ?thesis using None by (auto simp: slots_of_def)
qed

lemma has_step: "v_inv C s \<Longrightarrow> HasByHash u s = spec_has (v_config s) u (slots_of s)"
  using index_spec [of C s u] by (auto simp: HasByHash_def spec_has_def split: option.splits)

lemma map_of_front: "map_of (butlast xs) v = Some q \<Longrightarrow> map_of xs v = Some q"
  by (cases xs rule: rev_cases) (simp_all add: map_add_Some_iff)

lemma nc_list_Get: "map_of (nc_list (snd (nc_Get u nc))) v = map_of (nc_list nc) v"
  by (cases "map_of (nc_list nc) u") (simp_all add: nc_Get_def delete_conv)

lemma nc_list_Put: "map_of (nc_list (nc_Put u p nc)) v = Some q \<Longrightarrow> (v = u \<and> q = p) \<or> map_of (nc_list nc) v = Some q"
  using map_of_front [of "nc_list nc" v q]
  by (cases "map_of (nc_list nc) u") (simp_all add: nc_Put_def delete_conv split: if_splits)

lemma get_step:
  assumes inv: "v_inv C s" and ok: "data_ok (slots_of s)"
  shows "\<exists>s'. verkle_get u s = (spec_get (v_config s) u (slots_of s), s') \<and> v_step C s s' \<and> slots_of s' = slots_of s"
proof -
  have store: "v_dataStore s = None" using inv by (simp add: v_inv_def v_static_def)
  note index = index_spec [OF inv, of u]
  let ?nc = "snd (nc_Get u (v_nodeCache s))"
  have keep: "v_inv C (s\<lparr>v_nodeCache := nc\<rparr>) \<and> slots_of (s\<lparr>v_nodeCache := nc\<rparr>) = slots_of s"
    if "\<And>v q. map_of (nc_list nc) v = Some q \<Longrightarrow> map_of (v_nodeIndex s) v = Some q" for nc
    by (rule v_inv_cong [OF _ _ _ _ _ _ _ _ inv]) (use that in simp_all)
  have nc: "map_of (nc_list ?nc) v = Some q \<Longrightarrow> map_of (v_nodeIndex s) v = Some q" for v q
    using v_cache [OF inv] by (simp add: nc_list_Get)
  have get: "fst (nc_Get u (v_nodeCache s)) = map_of (nc_list (v_nodeCache s)) u" by (simp add: nc_Get_def split: option.split)
  show ?thesis
  proof (cases "length u = 32")
    case len: True
    show ?thesis
    proof (cases "map_of (v_nodeIndex s) u")
      case None
      then have "map_of (nc_list (v_nodeCache s)) u = None" using v_cache [OF inv, of u] by (cases "map_of (nc_list (v_nodeCache s)) u") auto
      then have "verkle_get u s = (Inl ErrKeyNotFound, s\<lparr>v_nodeCache := ?nc\<rparr>)"
        using get None len by (simp add: verkle_get_def Let_def case_prod_beta)
      moreover have "spec_get (v_config s) u (slots_of s) = Inl ErrKeyNotFound"
        using index None len by (auto simp: spec_get_def split: option.split)
      ultimately show ?thesis using keep [OF nc] inv by (auto simp: v_step_def)
    next
      case (Some p)
      then have m: "slots_of s (slot (v_config s) u) = Some (u, vl_inMemoryData (v_leaves s ! p))" "vl_hasData (v_leaves s ! p)"
        using index by auto
      then have data: "vl_inMemoryData (v_leaves s ! p) \<noteq> None" using ok unfolding data_ok_def by metis
      have spec: "spec_get (v_config s) u (slots_of s) = Inr (vl_inMemoryData (v_leaves s ! p))" using len by (simp add: spec_get_def m)
      have "\<exists>nc. verkle_get u s = (Inr (vl_inMemoryData (v_leaves s ! p)), s\<lparr>v_nodeCache := nc\<rparr>)
        \<and> (\<forall>v q. map_of (nc_list nc) v = Some q \<longrightarrow> map_of (v_nodeIndex s) v = Some q)"
      proof (cases "map_of (nc_list (v_nodeCache s)) u")
        case None
        then have "verkle_get u s = (Inr (vl_inMemoryData (v_leaves s ! p)), s\<lparr>v_nodeCache := nc_Put u p ?nc\<rparr>)"
          using get Some len m(2) data store by (simp add: verkle_get_def Let_def case_prod_beta leaf_value_def)
        moreover have "map_of (nc_list (nc_Put u p ?nc)) v = Some q \<Longrightarrow> map_of (v_nodeIndex s) v = Some q" for v q
          using nc_list_Put [of u p ?nc v q] nc [of v q] Some by auto
        ultimately show ?thesis by blast
      next
        case hit: (Some p')
        then have "p' = p" using v_cache [OF inv hit] Some by simp
        then have "verkle_get u s = (Inr (vl_inMemoryData (v_leaves s ! p)), s\<lparr>v_nodeCache := ?nc\<rparr>)"
          using get hit len m(2) store by (simp add: verkle_get_def Let_def case_prod_beta leaf_value_def)
        then show ?thesis using nc by blast
      qed
      then obtain nc' where nc': "verkle_get u s = (Inr (vl_inMemoryData (v_leaves s ! p)), s\<lparr>v_nodeCache := nc'\<rparr>)"
        "\<And>v q. map_of (nc_list nc') v = Some q \<Longrightarrow> map_of (v_nodeIndex s) v = Some q" by blast
      show ?thesis using keep [OF nc'(2)] inv by (auto simp: v_step_def nc'(1) spec)
    qed
  next
    case False
    then show ?thesis using inv by (auto simp: v_step_def verkle_get_def spec_get_def)
  qed
qed

subsection \<open>The agreement\<close>

lemma runs_agree:
  assumes "v_inv C s" "\<not> v_mu s" "data_ok (slots_of s)" "list_all op_ok ops" "commit_total C (v_config s)" "fair_order ord"
  shows "replies (run_verkle C ord ops s) = replies (spec_run C (v_config s) ops (slots_of s))"
  using assms
proof (induction ops arbitrary: s)
  case (Cons op ops)
  have next_op: "replies (run_verkle C ord ops s') = replies (spec_run C (v_config s) ops (slots_of s'))"
    if "v_step C s s'" "data_ok (slots_of s')" for s'
    using Cons.IH [of s'] that Cons.prems by (simp add: v_step_def)
  show ?case
  proof (cases op)
    case (VCommit upds)
    then have ok: "upds_ok upds" using Cons.prems(4) by simp
    note step = commit_step [OF Cons.prems(1,2) ok Cons.prems(5,6)]
    show ?thesis
    proof (cases "spec_commit (v_config s) upds (slots_of s)")
      case None
      then show ?thesis using step by (simp add: VCommit)
    next
      case (Some r)
      note step = step [unfolded Some]
      show ?thesis
      proof (cases r)
        case (VDone m)
        then obtain s' where s': "CommitBatch C ord upds s = Some (VDone (spec_root C (v_config s) (vc_Levels (v_config s)) 0 (owners m), s'))"
          "v_step C s s'" "slots_of s' = m" using step by auto
        have "data_ok m" by (rule commit_data [OF Cons.prems(3) ok, of "v_config s"]) (simp add: Some VDone)
        then have "replies (run_verkle C ord ops s') = replies (spec_run C (v_config s) ops m)"
          using next_op [OF s'(2)] by (simp only: s'(3))
        from replies_then [OF this] show ?thesis unfolding VCommit run_verkle.simps spec_run.simps s'(1) Some VDone by simp
      next
        case VDeadlock
        then have "CommitBatch C ord upds s = Some VDeadlock" using step by simp
        then show ?thesis by (simp add: VCommit Some VDeadlock)
      qed (use step in simp_all)
    qed
  next
    case (VGet u)
    from get_step [OF Cons.prems(1,3), of u] obtain s' where
      s': "verkle_get u s = (spec_get (v_config s) u (slots_of s), s')" "v_step C s s'" "slots_of s' = slots_of s" by blast
    then have "replies (run_verkle C ord ops s') = replies (spec_run C (v_config s) ops (slots_of s))"
      using next_op [OF s'(2)] Cons.prems(3) by (simp only: s'(3))
    from replies_then [OF this] show ?thesis unfolding VGet run_verkle.simps spec_run.simps s'(1) by simp
  next
    case (VHas u)
    have "replies (run_verkle C ord ops s) = replies (spec_run C (v_config s) ops (slots_of s))"
      by (rule next_op) (use Cons.prems in \<open>simp_all add: v_step_def\<close>)
    from replies_then [OF this] show ?thesis unfolding VHas run_verkle.simps spec_run.simps has_step [OF Cons.prems(1)] .
  qed
qed simp

end
