(* ===== verification/VerkleTheorems.thy ===== *)
theory VerkleTheorems
  imports VerkleRuns
begin

text \<open>
  The Verkle tree as a whole: runs of batches and reads against the map of slots, what the root depends on,
  that runs end below the maximal depth, that the parallel recomputation is the sequential one, and what
  the binary format keeps.
\<close>

subsection \<open>The empty tree\<close>

lemma cfg_width:
  assumes "validateNodeWidth w" "vc_NodeWidth cfg = w" "vc_NodeMask cfg = w - 1" "0 < vc_Levels cfg" "vc_Levels cfg \<le> StemSize"
  shows "cfg_ok cfg"
proof -
  have "w \<in> {2 ^ 3, 2 ^ 4, 2 ^ 5, 2 ^ 6, 2 ^ 7, 2 ^ 8}" using assms(1) by (simp add: validateNodeWidth_def)
  then obtain b where b: "0 < b" "w = 2 ^ b" by (metis insert_iff empty_iff zero_less_numeral)
  have "w - 1 = mask b" by (simp add: b mask_eq_exp_minus_1)
  then show ?thesis using assms b by (auto simp: cfg_ok_def)
qed

lemma ptr_at_new: "ptr_at (new_internal cfg d) q = None"
  by (cases q) (simp_all add: new_internal_def)

lemma New_inv:
  assumes new: "verkle_New numCPU levels width None = Some s" and levels: "0 < levels" "levels \<le> StemSize"
  shows "v_inv C s \<and> \<not> v_mu s \<and> slots_of s = Map.empty \<and> vc_Levels (v_config s) = levels \<and> vc_MaxLevels (v_config s) = 8"
proof -
  from new obtain cfg where cfg: "NewConfig levels width = Some cfg" by (auto simp: verkle_New_def)
  have s: "v_root s = new_internal cfg 0" "v_config s = cfg" "v_leaves s = []" "v_dataStore s = None" "v_nodeIndex s = []"
    "\<not> v_asyncMode s" "v_currentDepth s = levels" "nc_list (v_nodeCache s) = []" "\<not> v_mu s"
    using new by (auto simp: verkle_New_def cfg NewNodeCache_def)
  have c: "cfg_ok cfg" "vc_Levels cfg = levels" "vc_AutoGrowDepth cfg" "vc_MaxLevels cfg = 8"
    using cfg levels cfg_width [of "if width = 0 then DefaultNodeWidth else width" cfg]
    by (auto simp: NewConfig_def Let_def split: if_splits)
  from levels obtain k where k: "levels = Suc k" using gr0_implies_Suc by blast
  have "marks_ok C cfg [] (new_internal cfg 0)" by (simp add: new_internal_def)
  moreover have "wf_node (vc_NodeWidth cfg) 0 levels 0 (new_internal cfg 0)" unfolding k wf_new_internal ..
  ultimately show ?thesis
    by (simp add: v_inv_def v_static_def v_tree_def v_index_def s c ptr_at_new slots_of_def)
qed

lemma run_from_new:
  assumes "verkle_New numCPU levels width None = Some s" "0 < levels" "levels \<le> StemSize"
    "list_all op_ok ops" "commit_total C (v_config s)" "fair_order ord"
  shows "replies (run_verkle C ord ops s) = replies (spec_run C (v_config s) ops Map.empty)"
  using runs_agree [of C s ops ord] New_inv [OF assms(1-3), of C] assms(4-) by (simp add: data_ok_def)

text \<open>A hash and a commitment to evaluate with: the digest is the first 32 bytes, padded.\<close>

definition sample_crypto :: "bytes crypto" where
  "sample_crypto = \<lparr>c_blake3 = (\<lambda>bs. take 32 (bs @ replicate 32 7)), c_SetBytes = (\<lambda>bs. bs), c_Bytes = (\<lambda>f. f), c_zero = [], c_kzg = None\<rparr>"

lemma sample_total: "commit_total sample_crypto cfg"
  by (simp add: commit_total_def commitPolynomial_def sample_crypto_def)

lemma fair_id: "fair_order (\<lambda>xs. xs)" and fair_rev: "fair_order rev"
  by (simp_all add: fair_order_def)

definition sample_tree :: verkle where
  "sample_tree = the (verkle_New 2 2 8 None)"

lemma sample_New: "verkle_New 2 2 8 None = Some sample_tree"
  by (simp add: sample_tree_def verkle_New_def NewConfig_def validateNodeWidth_def Let_def)

lemma sample_config: "v_config sample_tree = \<lparr>vc_Levels = 2, vc_NodeWidth = 8, vc_UseKZGForInternal = False, vc_AutoGrowDepth = True,
    vc_MaxLevels = 8, vc_NodeMask = 7\<rparr>"
  by (simp add: sample_tree_def verkle_New_def NewConfig_def validateNodeWidth_def Let_def)

lemmas sample_facts = sample_New sample_total fair_id

subsection \<open>Runs\<close>

text \<open>C6. Runs of batches and reads on a new tree are runs on a map from slots to owner and data. A batch
  returns the root that a recursive definition computes from the owners alone; a user owns its slot when it
  came first, a later user of the slot overwrites the data and is never found. When the node at the end of a
  path is half full the insertion of a foreign user waits for the lock that the batch holds, or at the maximal
  depth never ends, and a batch on a root with 80 percent of its children waits for the lock as well.\<close>

theorem verkle_refines_slots:
  assumes "verkle_New numCPU levels width None = Some s" "0 < levels" "levels \<le> StemSize"
    "list_all op_ok ops" "commit_total C (v_config s)" "fair_order ord"
  shows "replies (run_verkle C ord ops s) = replies (spec_run C (v_config s) ops Map.empty)"
  by (rule run_from_new [OF assms])

lemma sample_slots:
  "slot (v_config sample_tree) (replicate 32 1) = [1, 1]" "slot (v_config sample_tree) (replicate 31 1 @ [2]) = [1, 1]"
proof -
  have two: "vc_Levels (v_config sample_tree) = Suc (Suc 0)" by (simp add: sample_config)
  have "(1 :: nat) AND 7 = 1" by code_simp
  then have one: "getNodeIndex (v_config sample_tree) 1 = 1" by (simp add: getNodeIndex_def sample_config)
  have bytes: "(replicate 32 1 :: bytes) ! 0 = 1" "(replicate 32 1 :: bytes) ! Suc 0 = 1"
    "(replicate 31 1 @ [2] :: bytes) ! 0 = 1" "(replicate 31 1 @ [2] :: bytes) ! Suc 0 = 1" by (simp_all only: nth_append nth_replicate length_replicate) simp_all
  show "slot (v_config sample_tree) (replicate 32 1) = [1, 1]" "slot (v_config sample_tree) (replicate 31 1 @ [2]) = [1, 1]"
    unfolding slot_def two path_from_simps bytes one by simp_all
qed

lemma sample_room: "\<not> root_full (v_config sample_tree) Map.empty" "\<not> root_full (v_config sample_tree) [[1, 1] \<mapsto> x]"
    "\<not> crowded (v_config sample_tree) [[1, 1] \<mapsto> x] [1]"
proof -
  have "{i. i < 8 \<and> (\<exists>q. ([[1, 1] \<mapsto> x]) (i # q) \<noteq> None)} \<subseteq> {1 :: nat}"
    and "{i. i < 8 \<and> ([[1, 1] \<mapsto> x]) ([1] @ [i]) \<noteq> None} \<subseteq> {1 :: nat}" by auto
  from card_mono [OF _ this(1)] card_mono [OF _ this(2)]
  show "\<not> root_full (v_config sample_tree) Map.empty" "\<not> root_full (v_config sample_tree) [[1, 1] \<mapsto> x]"
    "\<not> crowded (v_config sample_tree) [[1, 1] \<mapsto> x] [1]"
    by (simp_all add: root_full_def crowded_def sample_config)
qed

lemma sample_commits:
  "spec_commit (v_config sample_tree) [(replicate 32 1, Some d)] Map.empty = Some (VDone [[1, 1] \<mapsto> (replicate 32 1, Some d)])"
  "spec_commit (v_config sample_tree) [(replicate 31 1 @ [2], Some e)] [[1, 1] \<mapsto> (replicate 32 1, Some d)] =
    Some (VDone [[1, 1] \<mapsto> (replicate 32 1, Some e)])"
proof -
  note s = spec_commit_def spec_insert_def
  show "spec_commit (v_config sample_tree) [(replicate 32 1, Some d)] Map.empty = Some (VDone [[1, 1] \<mapsto> (replicate 32 1, Some d)])"
    using sample_room(1) by (simp add: s sample_slots)
  show "spec_commit (v_config sample_tree) [(replicate 31 1 @ [2], Some e)] [[1, 1] \<mapsto> (replicate 32 1, Some d)] =
    Some (VDone [[1, 1] \<mapsto> (replicate 32 1, Some e)])"
    using sample_room(2,3) [of "(replicate 32 1, Some d)"] by (simp add: s sample_slots)
qed

lemma verkle_refines_slots_witness:
  "\<exists>r. replies (run_verkle sample_crypto (\<lambda>xs. xs)
      [VCommit [(replicate 32 1, Some [5])], VGet (replicate 32 1), VCommit [(replicate 31 1 @ [2], Some [6])],
       VGet (replicate 32 1), VHas (replicate 31 1 @ [2])] sample_tree) =
    Some (VDone [VRoot r, VValue (Inr (Some [5])), VRoot r, VValue (Inr (Some [6])), VKnown False])"
proof -
  let ?u = "replicate 32 1 :: bytes" and ?v = "replicate 31 1 @ [2] :: bytes"
  let ?ops = "[VCommit [(?u, Some [5])], VGet ?u, VCommit [(?v, Some [6])], VGet ?u, VHas ?v] :: verkle_op list"
  define r where "r = spec_root sample_crypto (v_config sample_tree) (vc_Levels (v_config sample_tree)) 0 [[1, 1] \<mapsto> ?u]"
  have o: "owners [[1, 1] \<mapsto> (?u, d)] = [[1, 1] \<mapsto> ?u]" for d by (auto simp: owners_def)
  have get: "spec_get (v_config sample_tree) ?u [[1, 1] \<mapsto> (?u, Some d)] = Inr (Some d)" for d
    by (simp only: spec_get_def sample_slots) simp
  have "?u ! 31 \<noteq> ?v ! 31" by (simp only: nth_append nth_replicate length_replicate) simp
  then have "?u \<noteq> ?v" by metis
  then have has: "\<not> spec_has (v_config sample_tree) ?v [[1, 1] \<mapsto> (?u, Some d)]" for d
    by (simp only: spec_has_def sample_slots) simp
  have "replies (spec_run sample_crypto (v_config sample_tree) ?ops Map.empty) =
      Some (VDone [VRoot r, VValue (Inr (Some [5])), VRoot r, VValue (Inr (Some [6])), VKnown False])"
    by (simp only: spec_run.simps sample_commits option.case verkle_result.case o get has r_def [symmetric] replies_then_reply)
      (simp add: replies_def)
  moreover have "replies (run_verkle sample_crypto (\<lambda>xs. xs) ?ops sample_tree) =
      replies (spec_run sample_crypto (v_config sample_tree) ?ops Map.empty)"
    by (rule verkle_refines_slots [OF sample_New _ _ _ sample_total fair_id])
      (simp_all add: StemSize_def upds_ok_def)
  ultimately show ?thesis by (intro exI) (rule trans)
qed

subsection \<open>What the root depends on\<close>

text \<open>Operations without their data, and the roots among the replies.\<close>

fun forget :: "verkle_op \<Rightarrow> verkle_op" where
  "forget (VCommit upds) = VCommit (map (\<lambda>(u, data). (u, None)) upds)"
| "forget op = op"

fun is_root :: "verkle_reply \<Rightarrow> bool" where
  "is_root (VRoot r) \<longleftrightarrow> True"
| "is_root r \<longleftrightarrow> False"

definition roots :: "(verkle_reply list \<times> 's) verkle_result option \<Rightarrow> verkle_reply list verkle_result option" where
  "roots r = map_option (map_verkle_result (filter is_root)) (replies r)"

definition only_owners :: "slots verkle_result option \<Rightarrow> (nat list \<rightharpoonup> bytes) verkle_result option" where
  "only_owners = map_option (map_verkle_result owners)"

lemma only_owners_simps [simp]:
  "only_owners None = None" "only_owners (Some (VDone m)) = Some (VDone (owners m))" "only_owners (Some VDeadlock) = Some VDeadlock"
  "only_owners (Some (VErr err)) = Some (VErr err)" "only_owners (Some VPanic) = Some VPanic"
  by (simp_all add: only_owners_def)

lemma only_owners_iff [simp]:
  "only_owners x = None \<longleftrightarrow> x = None" "only_owners x = Some VDeadlock \<longleftrightarrow> x = Some VDeadlock" "only_owners x = Some VPanic \<longleftrightarrow> x = Some VPanic"
  "only_owners x = Some (VErr err) \<longleftrightarrow> x = Some (VErr err)" "only_owners x = Some (VDone f) \<longleftrightarrow> (\<exists>m. x = Some (VDone m) \<and> owners m = f)"
  by (cases x; cases "the x"; simp)+

lemma owners_occupied: "owners m = owners m' \<Longrightarrow> m q = None \<longleftrightarrow> m' q = None"
  unfolding owners_def by (metis comp_apply map_option_is_None)

lemma owners_insert:
  assumes "owners m = owners m'"
  shows "only_owners (spec_insert cfg u data m) = only_owners (spec_insert cfg u data' m')"
proof -
  note occ = owners_occupied [OF assms]
  have crowded: "crowded cfg m pre = crowded cfg m' pre" for pre by (simp add: crowded_def occ)
  have upd: "owners (m(q \<mapsto> (v, x))) = owners (m'(q \<mapsto> (v, y)))" for q v x y
    using assms by (auto simp: owners_def fun_eq_iff)
  show ?thesis
  proof (cases "m (slot cfg u)")
    case None
    then show ?thesis using occ [of "slot cfg u"] upd by (simp add: spec_insert_def)
  next
    case (Some a)
    then obtain b where b: "m' (slot cfg u) = Some b" using occ [of "slot cfg u"] by auto
    have "fst a = fst b" using fun_cong [OF assms, of "slot cfg u"] Some b by (simp add: owners_def)
    then show ?thesis using Some b upd by (cases a; cases b) (simp add: spec_insert_def crowded)
  qed
qed

lemma owners_inserts:
  "owners m = owners m' \<Longrightarrow> map fst upds = map fst upds' \<Longrightarrow>
    only_owners (spec_inserts cfg upds m) = only_owners (spec_inserts cfg upds' m')"
proof (induction upds arbitrary: upds' m m')
  case (Cons x upds)
  from Cons.prems(2) obtain y ys where y: "upds' = y # ys" "fst x = fst y" "map fst upds = map fst ys" by (cases upds') auto
  have one: "only_owners (spec_insert cfg (fst x) (snd x) m) = only_owners (spec_insert cfg (fst x) (snd y) m')"
    by (rule owners_insert [OF Cons.prems(1)])
  have steps: "spec_inserts cfg (x # upds) m = (case spec_insert cfg (fst x) (snd x) m of Some (VDone m1) \<Rightarrow> spec_inserts cfg upds m1 | r \<Rightarrow> r)"
    "spec_inserts cfg upds' m' = (case spec_insert cfg (fst x) (snd y) m' of Some (VDone m1) \<Rightarrow> spec_inserts cfg ys m1 | r \<Rightarrow> r)"
    using y(2) unfolding y(1) by (cases x; cases y; simp)+
  show ?case
  proof (cases "\<exists>m1. spec_insert cfg (fst x) (snd x) m = Some (VDone m1)")
    case True
    then obtain m1 where m1: "spec_insert cfg (fst x) (snd x) m = Some (VDone m1)" by blast
    then obtain m2 where m2: "spec_insert cfg (fst x) (snd y) m' = Some (VDone m2)" "owners m2 = owners m1"
      using one [symmetric] by auto
    show ?thesis unfolding steps m1 m2(1) using Cons.IH [OF m2(2) [symmetric] y(3)] by simp
  next
    case False
    have "spec_insert cfg (fst x) (snd y) m' = spec_insert cfg (fst x) (snd x) m"
    proof (cases "spec_insert cfg (fst x) (snd x) m")
      case (Some r)
      then show ?thesis using one [symmetric] False by (cases r) auto
    qed (use one [symmetric] in simp)
    then show ?thesis unfolding steps using False by (auto split: option.split verkle_result.split)
  qed
qed simp

lemma roots_then [simp]:
  "roots (then_reply (VValue x) r) = roots r" "roots (then_reply (VKnown b) r) = roots r"
  "roots (then_reply (VRoot z) r) = map_option (map_verkle_result (Cons (VRoot z))) (roots r)"
  by (simp_all add: roots_def replies_then_reply option.map_comp verkle_result.map_comp comp_def)

lemma owners_run:
  "owners m = owners m' \<Longrightarrow> map forget ops = map forget ops' \<Longrightarrow> roots (spec_run C cfg ops m) = roots (spec_run C cfg ops' m')"
proof (induction ops arbitrary: ops' m m')
  case (Cons x ops)
  from Cons.prems(2) obtain y ys where y: "ops' = y # ys" "forget x = forget y" "map forget ops = map forget ys" by (cases ops') auto
  note IH = Cons.IH [OF _ y(3)]
  show ?case
  proof (cases x)
    case (VCommit upds)
    then obtain upds' where u: "y = VCommit upds'" "map (\<lambda>(u, data). (u, None :: bytes option)) upds = map (\<lambda>(u, data). (u, None)) upds'"
      using y(2) by (cases y) auto
    have "map fst upds = map fst upds'" using arg_cong [OF u(2), of "map fst"] by (simp add: comp_def case_prod_beta)
    moreover have "root_full cfg m = root_full cfg m'"
      using owners_occupied [OF Cons.prems(1)] by (simp add: root_full_def)
    ultimately have c: "only_owners (spec_commit cfg upds m) = only_owners (spec_commit cfg upds' m')"
      using owners_inserts [OF Cons.prems(1)] by (simp add: spec_commit_def)
    show ?thesis
    proof (cases "\<exists>m1. spec_commit cfg upds m = Some (VDone m1)")
      case True
      then obtain m1 where m1: "spec_commit cfg upds m = Some (VDone m1)" by blast
      then obtain m2 where m2: "spec_commit cfg upds' m' = Some (VDone m2)" "owners m2 = owners m1" using c [symmetric] by auto
      show ?thesis unfolding VCommit y(1) u(1) using IH [OF m2(2) [symmetric]] by (simp add: m1 m2)
    next
      case False
      have "spec_commit cfg upds' m' = spec_commit cfg upds m"
      proof (cases "spec_commit cfg upds m")
        case (Some r)
        then show ?thesis using c [symmetric] False by (cases r) auto
      qed (use c [symmetric] in simp)
      then show ?thesis unfolding VCommit y(1) u(1) using False by (auto split: option.split verkle_result.split simp: roots_def)
    qed
  next
    case (VGet u)
    then have "y = VGet u" using y(2) by (cases y) simp_all
    then show ?thesis using IH [OF Cons.prems(1)] by (simp add: VGet y(1))
  next
    case (VHas u)
    then have "y = VHas u" using y(2) by (cases y) simp_all
    then show ?thesis using IH [OF Cons.prems(1)] by (simp add: VHas y(1))
  qed
qed (simp add: roots_def)

text \<open>C21. The roots do not commit to the data: two runs that differ only in the data they store return the
  same roots, whatever the hash function and the commitment are.\<close>

theorem root_ignores_data:
  assumes "verkle_New numCPU levels width None = Some s" "0 < levels" "levels \<le> StemSize"
    "list_all op_ok ops" "list_all op_ok ops'" "map forget ops = map forget ops'" "commit_total C (v_config s)" "fair_order ord"
  shows "roots (run_verkle C ord ops s) = roots (run_verkle C ord ops' s)"
  unfolding roots_def run_from_new [OF assms(1-4,7,8)] run_from_new [OF assms(1-3,5,7,8)]
  using owners_run [OF refl assms(6)] by (simp only: roots_def)

lemma root_ignores_data_witness:
  "roots (run_verkle sample_crypto (\<lambda>xs. xs) [VCommit [(replicate 32 1, Some [5])]] sample_tree) =
   roots (run_verkle sample_crypto (\<lambda>xs. xs) [VCommit [(replicate 32 1, Some [6, 6])]] sample_tree)"
  by (rule root_ignores_data [OF sample_New _ _ _ _ _ sample_total fair_id]) (simp_all add: StemSize_def upds_ok_def)

subsection \<open>Runs end\<close>

lemma insert_ends: "can_grow cfg \<Longrightarrow> \<exists>m'. spec_insert cfg u data m = Some (VDone m') \<or> spec_insert cfg u data m = Some VDeadlock"
  by (simp add: spec_insert_def split: option.split)

lemma inserts_end: "can_grow cfg \<Longrightarrow> \<exists>m'. spec_inserts cfg upds m = Some (VDone m') \<or> spec_inserts cfg upds m = Some VDeadlock"
proof (induction upds arbitrary: m)
  case (Cons x upds)
  obtain u data where x: "x = (u, data)" by fastforce
  from insert_ends [OF Cons.prems, of u data m] obtain m' where
    "spec_insert cfg u data m = Some (VDone m') \<or> spec_insert cfg u data m = Some VDeadlock" by blast
  then show ?case
  proof
    assume m': "spec_insert cfg u data m = Some (VDone m')"
    show ?thesis using Cons.IH [OF Cons.prems, of m'] by (simp add: x m')
  qed (simp add: x)
qed simp

lemma run_ends: "can_grow cfg \<Longrightarrow> \<exists>rs. replies (spec_run C cfg ops m) = Some (VDone rs) \<or> replies (spec_run C cfg ops m) = Some VDeadlock"
proof (induction ops arbitrary: m)
  case (Cons x ops)
  show ?case
  proof (cases x)
    case (VCommit upds)
    from inserts_end [OF Cons.prems, of upds m] have
      "\<exists>m'. spec_commit cfg upds m = Some (VDone m') \<or> spec_commit cfg upds m = Some VDeadlock" by (simp add: spec_commit_def)
    then obtain m' where c: "spec_commit cfg upds m = Some (VDone m') \<or> spec_commit cfg upds m = Some VDeadlock" by blast
    then show ?thesis using Cons.IH [OF Cons.prems, of m'] by (auto simp: VCommit replies_then_reply)
  qed (use Cons.IH [OF Cons.prems, of m] in \<open>auto simp: replies_then_reply\<close>)
qed simp

text \<open>C22. On a tree of fewer than 8 levels every run of batches and reads comes to an end: each insertion
  returns or waits for the lock it already holds, and there is no error and no panic.\<close>

theorem runs_end_below_the_maximal_depth:
  assumes "verkle_New numCPU levels width None = Some s" "0 < levels" "levels < 8"
    "list_all op_ok ops" "commit_total C (v_config s)" "fair_order ord"
  shows "\<exists>rs. replies (run_verkle C ord ops s) = Some (VDone rs) \<or> replies (run_verkle C ord ops s) = Some VDeadlock"
proof -
  have l: "levels \<le> StemSize" using assms(3) by (simp add: StemSize_def)
  have "can_grow (v_config s)" using New_inv [OF assms(1,2) l, of C] assms(3) by (simp add: can_grow_def)
  then show ?thesis unfolding run_from_new [OF assms(1,2) l assms(4-)] by (rule run_ends)
qed

lemma runs_end_below_the_maximal_depth_witness:
  "\<exists>rs. replies (run_verkle sample_crypto rev [VCommit [(replicate 32 1, Some [5])], VGet []] sample_tree) = Some (VDone rs)
    \<or> replies (run_verkle sample_crypto rev [VCommit [(replicate 32 1, Some [5])], VGet []] sample_tree) = Some VDeadlock"
  by (rule runs_end_below_the_maximal_depth [OF sample_New _ _ _ sample_total fair_rev]) (simp_all add: upds_ok_def)

subsection \<open>Parallel and sequential recomputation\<close>

text \<open>C20. \<^verbatim>\<open>parallelCommitLevel\<close> computes what \<^verbatim>\<open>recomputeCommitments\<close> computes, the nodes and the leaves
  with their marks, for every order in which the goroutines run and every threshold: on any tree of the shape
  that insertions build, in which whatever is not marked dirty is up to date.\<close>

theorem parallel_recomputation_is_sequential:
  fixes L :: "verkle_leaf list"
  assumes "commit_total C cfg" "cfg_ok cfg" "fair_order ord"
    "wf_node (vc_NodeWidth cfg) (length L) (Suc k) d n" "marks_ok C cfg L n"
  shows "parallelCommitLevel C cfg pc ord n L = recomputeCommitments C cfg n L \<and> recomputeCommitments C cfg n L \<noteq> None"
  using parallel_ok [OF assms, of pc "{}"] recompute_ok [OF assms(1,2,4,5), of "{}"] by simp

lemma sample_cfg: "cfg_ok (v_config sample_tree)"
  by (rule cfg_width [where w = 8]) (simp_all add: sample_config validateNodeWidth_def StemSize_def)

lemma parallel_recomputation_is_sequential_witness:
  "let n = InternalNode (Some (InternalNode [None, Some (LeafNode 0), None, None, None, None, None, None] None 1 True) # replicate 7 None) None 0 True;
       L = [new_leaf (replicate 32 1) (Some [5])]
   in parallelCommitLevel sample_crypto (v_config sample_tree) (NewParallelConfig 2) rev n L =
        recomputeCommitments sample_crypto (v_config sample_tree) n L
      \<and> recomputeCommitments sample_crypto (v_config sample_tree) n L \<noteq> None"
proof -
  let ?m = "InternalNode [None, Some (LeafNode 0), None, None, None, None, None, None] None 1 True"
  have "ptr_at (LeafNode 0) [] \<noteq> None" "ptr_at ?m [1] \<noteq> None" by simp_all
  then have p: "\<exists>q. ptr_at (LeafNode 0) q \<noteq> None" "\<exists>q. ptr_at ?m q \<noteq> None" by blast+
  show ?thesis unfolding Let_def
    by (rule parallel_recomputation_is_sequential [OF sample_total sample_cfg fair_rev, where k = 1 and d = 0])
      (use p in \<open>simp_all add: sample_config new_leaf_def numeral_2_eq_2 exI [of _ True]\<close>)
qed

subsection \<open>The binary format\<close>

lemma le_roundtrip [simp]: "le_word (le_bytes 4 (w :: u32)) = w"
  by (simp add: le_word_def le_bytes_def)

lemma length_le [simp]: "length (le_bytes n w) = n"
  by (simp add: le_bytes_def)

lemma header:
  "length (verkle_Serialize s) \<ge> 16" "take 4 (verkle_Serialize s) = magic"
  "take 4 (drop 4 (verkle_Serialize s)) = le_bytes 4 (of_nat (vc_Levels (v_config s)) :: u32)"
  "take 4 (drop 8 (verkle_Serialize s)) = le_bytes 4 (of_nat (vc_NodeWidth (v_config s)) :: u32)"
proof -
  have m: "length magic = 4" by (simp add: magic_def)
  show "length (verkle_Serialize s) \<ge> 16" "take 4 (verkle_Serialize s) = magic"
    "take 4 (drop 4 (verkle_Serialize s)) = le_bytes 4 (of_nat (vc_Levels (v_config s)) :: u32)"
    "take 4 (drop 8 (verkle_Serialize s)) = le_bytes 4 (of_nat (vc_NodeWidth (v_config s)) :: u32)"
    by (simp_all add: verkle_Serialize_def m)
qed

lemma NewConfig_Some:
  assumes "NewConfig levels width = Some cfg"
  shows "vc_Levels cfg = (if levels = 0 then DefaultLevels else levels)" "validateNodeWidth (vc_NodeWidth cfg)"
    "NewConfig (vc_Levels cfg) (vc_NodeWidth cfg) = Some cfg"
proof -
  let ?l = "if levels = 0 then DefaultLevels else levels" and ?w = "if width = 0 then DefaultNodeWidth else width"
  have w: "validateNodeWidth ?w" using assms unfolding NewConfig_def Let_def by (simp only: if_not_P split: if_split_asm) simp_all
  then have cfg: "cfg = \<lparr>vc_Levels = ?l, vc_NodeWidth = ?w, vc_UseKZGForInternal = False, vc_AutoGrowDepth = True,
      vc_MaxLevels = 8, vc_NodeMask = ?w - 1\<rparr>"
    using assms unfolding NewConfig_def Let_def by (simp only: if_False not_True_eq_False option.inject)
  have pos: "?l \<noteq> 0" "?w \<noteq> 0" by (simp_all add: DefaultLevels_def DefaultNodeWidth_def)
  show "vc_Levels cfg = ?l" "validateNodeWidth (vc_NodeWidth cfg)" using w unfolding cfg by simp_all
  show "NewConfig (vc_Levels cfg) (vc_NodeWidth cfg) = Some cfg"
    unfolding NewConfig_def Let_def cfg verkle_config.simps if_not_P [OF pos(1)] if_not_P [OF pos(2)] using w by (simp only: if_False not_True_eq_False)
qed

text \<open>C23. \<^verbatim>\<open>Deserialize\<close> undoes \<^verbatim>\<open>Serialize\<close> for the shape of the tree only: whatever a tree made by
  \<^verbatim>\<open>New\<close> holds by now, the tree that is read back has its configuration, but no root and no user, and every
  read answers "key not found".\<close>

theorem deserialized_tree_has_no_users:
  assumes "NewConfig levels width = Some (v_config s)" "levels < 2 ^ 32"
  shows "\<exists>t. verkle_Deserialize numCPU (verkle_Serialize s) store = Some t \<and> v_config t = v_config s \<and> GetNodeCount t = 0
    \<and> verkle_GetRoot t = None \<and> (\<forall>u. length u = 32 \<longrightarrow> \<not> HasByHash u t \<and> fst (verkle_get u t) = Inl ErrKeyNotFound)"
proof -
  let ?l = "vc_Levels (v_config s)" and ?w = "vc_NodeWidth (v_config s)"
  note c = NewConfig_Some [OF assms(1)]
  have l: "?l < 2 ^ 32" using c(1) assms(2) by (simp add: DefaultLevels_def split: if_splits)
  have w32: "?w < 2 ^ 32" using c(2) by (auto simp: validateNodeWidth_def)
  note same = c(3)
  have words: "unat (of_nat ?l :: u32) = ?l" "unat (of_nat ?w :: u32) = ?w" using l w32 by (simp_all add: unat_of_nat)
  let ?t = "the (verkle_New numCPU ?l ?w store)"
  have "verkle_New numCPU ?l ?w store = Some ?t" by (simp add: verkle_New_def same)
  then have "verkle_Deserialize numCPU (verkle_Serialize s) store = Some ?t"
    using header(1) [of s] unfolding verkle_Deserialize_def header le_roundtrip words by simp
  moreover have t: "v_config ?t = v_config s" "v_nodeIndex ?t = []" "nc_list (v_nodeCache ?t) = []" "root_commitment (v_root ?t) = None"
    by (simp_all add: verkle_New_def same NewNodeCache_def new_internal_def)
  ultimately show ?thesis
    by (intro exI [of _ ?t]) (simp add: GetNodeCount_def verkle_GetRoot_def HasByHash_def verkle_get_def nc_Get_def Let_def)
qed

lemma deserialized_tree_has_no_users_witness:
  "let s = sample_tree\<lparr>v_leaves := [new_leaf (replicate 32 1) (Some [5])], v_nodeIndex := [(replicate 32 1, 0)]\<rparr>
   in HasByHash (replicate 32 1) s \<and> (\<exists>t. verkle_Deserialize 2 (verkle_Serialize s) None = Some t
      \<and> \<not> HasByHash (replicate 32 1) t \<and> fst (verkle_get (replicate 32 1) t) = Inl ErrKeyNotFound)"
proof -
  let ?s = "sample_tree\<lparr>v_leaves := [new_leaf (replicate 32 1) (Some [5])], v_nodeIndex := [(replicate 32 1, 0)]\<rparr>"
  have "NewConfig 2 8 = Some (v_config ?s)"
    by (simp add: sample_config NewConfig_def validateNodeWidth_def Let_def)
  from deserialized_tree_has_no_users [OF this, where numCPU = 2 and store = None] obtain t where
    "verkle_Deserialize 2 (verkle_Serialize ?s) None = Some t"
    "\<forall>u. length u = 32 \<longrightarrow> \<not> HasByHash u t \<and> fst (verkle_get u t) = Inl ErrKeyNotFound" by auto
  moreover have "HasByHash (replicate 32 1) ?s" by (simp add: HasByHash_def new_leaf_def)
  ultimately show ?thesis unfolding Let_def by auto
qed

end
