(* ===== verification/Optimized.thy ===== *)
theory Optimized
  imports Verkle
begin

text \<open>
  The Verkle tree of fixed shape in \<^verbatim>\<open>v2-verkle-tree-test/optimized\<close>: 8 levels of 128 children, a hash that is
  cached in every inner node, a KZG commitment for the root only, batches, the queue of commit tasks, reads.

  \<^item> The nodes have the fields of \<^verbatim>\<open>verkle_tree.go\<close>, and so has the cache, whose operations are those of
    \<^verbatim>\<open>node_cache.go\<close>. Leaves live in a list and are named by their position.
  \<^item> BLAKE3, the field and KZG are the parameter \<open>C\<close>.
  \<^item> \<^verbatim>\<open>mu\<close> and \<^verbatim>\<open>treeMu\<close> are released by the call that takes them; each call, and each task of a commit
    worker, is one step. \<^verbatim>\<open>asyncCommit\<close>, \<^verbatim>\<open>parallelBatchInsert\<close>, \<^verbatim>\<open>CommitBatchOLD\<close> and the worker pool
    have no caller, so \<^verbatim>\<open>commitInProgress\<close> stays false and \<^verbatim>\<open>pendingRoot\<close> stays nil.
  \<^item> The mark of a leaf is never read; only \<^verbatim>\<open>insert\<close> sets it here.
\<close>

subsection \<open>Configuration\<close>

definition TreeDepth :: nat where "TreeDepth = 8"
definition NodeWidth :: nat where "NodeWidth = 128"
definition DefaultCacheSize :: nat where "DefaultCacheSize = 5000"
definition MinWorkers :: nat where "MinWorkers = 4"

datatype opt_error = OptKeyNotFound | OptValueTooLarge | OptBatchClosed | OptInvalidProof | OptHashOnly | OptEmpty | OptKZG | OptStorage

datatype 'a opt_result = ODone 'a | OErr opt_error | OBlocked | OPanic

record ('f, 'g, 'o) opt_crypto =
  oc_blake3 :: "bytes \<Rightarrow> bytes"
  oc_SetBytes :: "bytes \<Rightarrow> 'f"
  oc_SetUint64 :: "u64 \<Rightarrow> 'f"
  oc_zero :: 'f
  oc_Commit :: "'f list \<Rightarrow> 'g option"
  oc_Marshal :: "'g \<Rightarrow> bytes"
  oc_Unmarshal :: "bytes \<Rightarrow> 'g option"
  oc_Open :: "'f list \<Rightarrow> 'f \<Rightarrow> 'o option"
  oc_opening_bytes :: "'o \<Rightarrow> 'f \<Rightarrow> bytes"
  oc_Verify :: "'g \<Rightarrow> 'o \<Rightarrow> 'f \<Rightarrow> bool"

text \<open>\<open>of_KZG\<close>: there is a setup. \<^verbatim>\<open>LazyCommit\<close> is never read.\<close>

record opt_config =
  of_KZG :: bool
  of_NodeMask :: nat
  of_Workers :: nat
  of_CacheSize :: nat
  of_AsyncMode :: bool
  of_HashOnly :: bool

definition opt_NewConfig :: "nat \<Rightarrow> bool \<Rightarrow> opt_config" where
  "opt_NewConfig procs srs = \<lparr>of_KZG = srs, of_NodeMask = NodeWidth - 1, of_Workers = max procs MinWorkers,
    of_CacheSize = DefaultCacheSize, of_AsyncMode = True, of_HashOnly = False\<rparr>"

definition NewConfigHashOnly :: "nat \<Rightarrow> opt_config" where
  "NewConfigHashOnly procs = \<lparr>of_KZG = False, of_NodeMask = NodeWidth - 1, of_Workers = max procs MinWorkers,
    of_CacheSize = DefaultCacheSize, of_AsyncMode = True, of_HashOnly = True\<rparr>"

subsection \<open>Nodes\<close>

type_synonym opt_node = verkle_node
type_synonym opt_leaf = verkle_leaf

definition NewInternalNode :: "nat \<Rightarrow> opt_node" where
  "NewInternalNode d = InternalNode (replicate NodeWidth None) None d True"

definition NewLeafNode :: "('f, 'g, 'o) opt_crypto \<Rightarrow> bytes \<Rightarrow> bytes \<Rightarrow> bytes \<Rightarrow> opt_leaf" where
  "NewLeafNode C userIDHash stem dataKey = \<lparr>vl_userIDHash = userIDHash, vl_stem = stem, vl_dataKey = dataKey, vl_inMemoryData = None,
    vl_commitment = Some (oc_blake3 C userIDHash), vl_dirty = False, vl_hasData = False\<rparr>"

fun SetDirty :: "bool \<Rightarrow> opt_node \<Rightarrow> opt_node" where
  "SetDirty b (InternalNode ch c d dirty) = InternalNode ch (if b then None else c) d b"
| "SetDirty b (LeafNode p) = LeafNode p"

definition opt_leaf_hash :: "('f, 'g, 'o) opt_crypto \<Rightarrow> opt_leaf \<Rightarrow> bytes" where
  "opt_leaf_hash C l = (case vl_commitment l of None \<Rightarrow> oc_blake3 C (vl_userIDHash l) | Some c \<Rightarrow> c)"

text \<open>\<^verbatim>\<open>Hash\<close> keeps what it computes in the inner nodes. (A leaf gets its commitment when it is made, so there
  it only reads.)\<close>

fun opt_Hash :: "('f, 'g, 'o) opt_crypto \<Rightarrow> opt_leaf list \<Rightarrow> opt_node \<Rightarrow> bytes \<times> opt_node" where
  "opt_Hash C L (LeafNode p) = (opt_leaf_hash C (L ! p), LeafNode p)"
| "opt_Hash C L (InternalNode ch c d dirty) = (case c of
     Some h \<Rightarrow> (h, InternalNode ch c d dirty)
   | None \<Rightarrow>
       let rs = map (map_option (opt_Hash C L)) ch;
           h = oc_blake3 C (concat (map (\<lambda>x. case x of None \<Rightarrow> zero32 | Some (h, _) \<Rightarrow> h) rs))
       in (h, InternalNode (map (map_option snd) rs) (Some h) d False))"

fun Blake3Hash :: "('f, 'g, 'o) opt_crypto \<Rightarrow> opt_leaf list \<Rightarrow> opt_node \<Rightarrow> bytes" where
  "Blake3Hash C L (LeafNode p) = opt_leaf_hash C (L ! p)"
| "Blake3Hash C L (InternalNode ch c d dirty) =
    oc_blake3 C (concat (map (\<lambda>x. case x of None \<Rightarrow> zero32 | Some h \<Rightarrow> h) (map (map_option (Blake3Hash C L)) ch)))"

subsection \<open>The tree\<close>

record opt_tree =
  ot_root :: opt_node
  ot_leaves :: "opt_leaf list"
  ot_config :: opt_config
  ot_dataStore :: "(bytes \<rightharpoonup> bytes) option"
  ot_nodeIndex :: "(bytes \<times> nat) list"
  ot_cache :: node_cache
  ot_queue :: nat
  ot_closed :: bool

definition NewLRUCache :: "nat \<Rightarrow> node_cache" where
  "NewLRUCache capacity = \<lparr>nc_capacity = capacity, nc_list = [], nc_hits = 0, nc_misses = 0\<rparr>"

definition opt_New :: "opt_config \<Rightarrow> (bytes \<rightharpoonup> bytes) option \<Rightarrow> opt_tree" where
  "opt_New config store = \<lparr>ot_root = NewInternalNode 0, ot_leaves = [], ot_config = config, ot_dataStore = store, ot_nodeIndex = [],
    ot_cache = NewLRUCache (of_CacheSize config), ot_queue = 0, ot_closed = False\<rparr>"

definition opt_index :: "opt_config \<Rightarrow> u8 \<Rightarrow> nat" where
  "opt_index cfg byteValue = unat byteValue AND of_NodeMask cfg"

definition opt_HashUserID :: "('f, 'g, 'o) opt_crypto \<Rightarrow> bytes \<Rightarrow> bytes" where
  "opt_HashUserID C userID = arr32 (oc_blake3 C userID)"

text \<open>The loop of \<^verbatim>\<open>insert\<close> with \<open>f\<close> at the node of the leaf. Where it meets a leaf it calls \<^verbatim>\<open>expandLeaf\<close> and
  returns: then \<open>opt_bottom\<close> is \<open>None\<close>.\<close>

definition opt_expandLeaf :: "opt_config \<Rightarrow> opt_leaf list \<Rightarrow> nat \<Rightarrow> nat \<Rightarrow> opt_node" where
  "opt_expandLeaf cfg L d p = InternalNode ((replicate NodeWidth None)
    [opt_index cfg (vl_stem (L ! p) ! (d + 1)) := Some (LeafNode p)]) None (d + 1) True"

definition next_node :: "nat \<Rightarrow> opt_node option \<Rightarrow> opt_node" where
  "next_node d child = (case child of None \<Rightarrow> NewInternalNode (d + 1) | Some n \<Rightarrow> n)"

fun opt_descend :: "opt_config \<Rightarrow> opt_leaf list \<Rightarrow> bytes \<Rightarrow> (opt_node \<Rightarrow> opt_node) \<Rightarrow> nat \<Rightarrow> nat \<Rightarrow> opt_node \<Rightarrow> opt_node" where
  "opt_descend cfg L stem f 0 d n = f n"
| "opt_descend cfg L stem f (Suc k) d (LeafNode p) = LeafNode p"
| "opt_descend cfg L stem f (Suc k) d (InternalNode ch c d' dirty) =
    (let index = opt_index cfg (stem ! d)
     in SetDirty True (InternalNode (ch[index := Some (case next_node d (ch ! index) of
          LeafNode p \<Rightarrow> opt_expandLeaf cfg L d p
        | InternalNode ch2 c2 d2 dirty2 \<Rightarrow> opt_descend cfg L stem f k (d + 1) (InternalNode ch2 c2 d2 dirty2))]) c d' dirty))"

fun opt_bottom :: "opt_config \<Rightarrow> bytes \<Rightarrow> nat \<Rightarrow> nat \<Rightarrow> opt_node \<Rightarrow> opt_node option" where
  "opt_bottom cfg stem 0 d n = Some n"
| "opt_bottom cfg stem (Suc k) d (LeafNode p) = None"
| "opt_bottom cfg stem (Suc k) d (InternalNode ch c d' dirty) =
    opt_bottom cfg stem k (d + 1) (next_node d (ch ! opt_index cfg (stem ! d)))"

fun opt_markDirtyPath :: "opt_config \<Rightarrow> bytes \<Rightarrow> nat \<Rightarrow> nat \<Rightarrow> opt_node \<Rightarrow> opt_node" where
  "opt_markDirtyPath cfg stem k d (LeafNode p) = LeafNode p"
| "opt_markDirtyPath cfg stem 0 d (InternalNode ch c d' dirty) = SetDirty True (InternalNode ch c d' dirty)"
| "opt_markDirtyPath cfg stem (Suc k) d (InternalNode ch c d' dirty) =
    (let index = opt_index cfg (stem ! d)
     in case ch ! index of
          None \<Rightarrow> opt_markDirtyPath cfg stem k (d + 1) (SetDirty True (InternalNode ch c d' dirty))
        | Some m \<Rightarrow> SetDirty True (InternalNode (ch[index := Some (opt_markDirtyPath cfg stem k (d + 1) m)]) c d' dirty))"

definition opt_insert :: "('f, 'g, 'o) opt_crypto \<Rightarrow> bytes \<Rightarrow> bytes option \<Rightarrow> opt_tree \<Rightarrow> opt_tree" where
  "opt_insert C u data s =
    (let cfg = ot_config s; stem = take StemSize u; k = TreeDepth - 1;
         rebuild = (\<lambda>f s. s\<lparr>ot_root := opt_descend cfg (ot_leaves s) stem f k 0 (ot_root s)\<rparr>);
         mark = (\<lambda>s. s\<lparr>ot_root := opt_markDirtyPath cfg stem k 0 (ot_root s)\<rparr>);
         leafIndex = opt_index cfg (stem ! k)
     in case opt_bottom cfg stem k 0 (ot_root s) of
          None \<Rightarrow> rebuild id s
        | Some node \<Rightarrow> (case node_children node ! leafIndex of
            None \<Rightarrow>
              let p = length (ot_leaves s);
                  leaf = (NewLeafNode C u stem (data_key u))\<lparr>vl_inMemoryData := data, vl_hasData := True, vl_dirty := True\<rparr>
              in mark ((rebuild (set_child leafIndex (LeafNode p)) s)\<lparr>ot_leaves := ot_leaves s @ [leaf],
                   ot_nodeIndex := AList.update u p (ot_nodeIndex s), ot_cache := nc_Put u p (ot_cache s)\<rparr>)
          | Some (LeafNode p) \<Rightarrow>
              mark ((rebuild id s)\<lparr>ot_leaves := (ot_leaves s)[p := (ot_leaves s ! p)\<lparr>vl_inMemoryData := data, vl_hasData := True, vl_dirty := True\<rparr>],
                ot_cache := nc_Put u p (nc_Invalidate u (ot_cache s))\<rparr>)
          | Some (InternalNode _ _ _ _) \<Rightarrow> mark (rebuild id s)))"

subsection \<open>Commitments\<close>

definition opt_hashToFieldElement :: "('f, 'g, 'o) opt_crypto \<Rightarrow> bytes \<Rightarrow> 'f" where
  "opt_hashToFieldElement C hash = (if hash = [] then oc_zero C else oc_SetBytes C hash)"

definition ComputeKZGCommitment :: "('f, 'g, 'o) opt_crypto \<Rightarrow> 'f list \<Rightarrow> bytes option" where
  "ComputeKZGCommitment C values = (if length values \<noteq> NodeWidth then None else map_option (oc_Marshal C) (oc_Commit C values))"

text \<open>The second component says whether there was no error.\<close>

definition computeKZGForRoot :: "('f, 'g, 'o) opt_crypto \<Rightarrow> opt_tree \<Rightarrow> opt_tree \<times> bool" where
  "computeKZGForRoot C s =
    (if of_HashOnly (ot_config s) \<or> \<not> of_KZG (ot_config s) then (s\<lparr>ot_root := SetDirty False (ot_root s)\<rparr>, True)
     else case ot_root s of LeafNode p \<Rightarrow> (s, True) | InternalNode ch c d dirty \<Rightarrow>
       let rs = map (map_option (opt_Hash C (ot_leaves s))) ch;
           values = map (\<lambda>x. case x of None \<Rightarrow> oc_zero C | Some (h, _) \<Rightarrow> opt_hashToFieldElement C h) rs;
           ch' = map (map_option snd) rs
       in case ComputeKZGCommitment C values of
            None \<Rightarrow> (s\<lparr>ot_root := InternalNode ch' c d dirty\<rparr>, False)
          | Some commitment \<Rightarrow> (s\<lparr>ot_root := SetDirty False (InternalNode ch' (Some commitment) d dirty)\<rparr>, True))"

text \<open>The task that an insertion or a batch hands to the workers; a full queue computes in place and ignores
  the error.\<close>

definition enqueue_commit :: "('f, 'g, 'o) opt_crypto \<Rightarrow> opt_tree \<Rightarrow> opt_tree opt_result" where
  "enqueue_commit C s =
    (if ot_closed s then OPanic
     else if ot_queue s < 100 then ODone (s\<lparr>ot_queue := ot_queue s + 1\<rparr>)
     else ODone (if of_HashOnly (ot_config s) then s else fst (computeKZGForRoot C s)))"

definition opt_commitWorker :: "('f, 'g, 'o) opt_crypto \<Rightarrow> opt_tree \<Rightarrow> opt_tree" where
  "opt_commitWorker C s = (if ot_queue s = 0 then s else (fst (computeKZGForRoot C s))\<lparr>ot_queue := ot_queue s - 1\<rparr>)"

definition opt_Insert :: "('f, 'g, 'o) opt_crypto \<Rightarrow> bytes \<Rightarrow> bytes option \<Rightarrow> opt_tree \<Rightarrow> opt_tree opt_result" where
  "opt_Insert C userID data s =
    (if (case data of None \<Rightarrow> 0 | Some x \<Rightarrow> length x) > MaxValueSize then OErr OptValueTooLarge
     else
       let u = opt_HashUserID C userID;
           s1 = s\<lparr>ot_dataStore := map_option (\<lambda>m. m(data_key u \<mapsto> (case data of None \<Rightarrow> [] | Some x \<Rightarrow> x))) (ot_dataStore s)\<rparr>;
           s2 = opt_insert C u data s1
       in if of_AsyncMode (ot_config s2) then enqueue_commit C s2 else ODone s2)"

record opt_batch =
  ob_closed :: bool
  ob_entries :: "(bytes \<times> bytes option) list"

definition NewBatch :: opt_batch where
  "NewBatch = \<lparr>ob_closed = False, ob_entries = []\<rparr>"

definition opt_Batch_Add :: "('f, 'g, 'o) opt_crypto \<Rightarrow> bytes \<Rightarrow> bytes option \<Rightarrow> opt_batch \<Rightarrow> opt_batch opt_result" where
  "opt_Batch_Add C userID data b =
    (if ob_closed b then OErr OptBatchClosed
     else if (case data of None \<Rightarrow> 0 | Some x \<Rightarrow> length x) > MaxValueSize then OErr OptValueTooLarge
     else ODone (b\<lparr>ob_entries := ob_entries b @ [(opt_HashUserID C userID, data)]\<rparr>))"

fun root_bytes :: "opt_node \<Rightarrow> bytes option" where
  "root_bytes (InternalNode ch c d dirty) = c"
| "root_bytes (LeafNode p) = None"

definition opt_CommitBatch :: "('f, 'g, 'o) opt_crypto \<Rightarrow> opt_batch \<Rightarrow> opt_tree \<Rightarrow> (bytes option \<times> opt_tree) opt_result" where
  "opt_CommitBatch C b s =
    (if ob_entries b = [] then ODone (Some (Blake3Hash C (ot_leaves s) (ot_root s)), s)
     else
       let s1 = foldl (\<lambda>s (u, data). opt_insert C u data s) s (ob_entries b);
           s2 = s1\<lparr>ot_root := SetDirty True (ot_root s1)\<rparr>;
           hash = (\<lambda>s. Some (Blake3Hash C (ot_leaves s) (ot_root s)))
       in if of_AsyncMode (ot_config s2) then
            (case enqueue_commit C s2 of ODone s3 \<Rightarrow> ODone (hash s3, s3) | OErr err \<Rightarrow> OErr err | OBlocked \<Rightarrow> OBlocked | OPanic \<Rightarrow> OPanic)
          else if \<not> of_HashOnly (ot_config s2) then
            (case computeKZGForRoot C s2 of (s3, ok) \<Rightarrow> if ok then ODone (root_bytes (ot_root s3), s3) else OErr OptKZG)
          else ODone (hash s2, s2))"

subsection \<open>Reading\<close>

definition opt_leaf_value :: "opt_tree \<Rightarrow> nat \<Rightarrow> opt_error + bytes option" where
  "opt_leaf_value s p = (case ot_dataStore s of
     None \<Rightarrow> Inr (vl_inMemoryData (ot_leaves s ! p))
   | Some m \<Rightarrow> (case m (vl_dataKey (ot_leaves s ! p)) of None \<Rightarrow> Inl OptStorage | Some x \<Rightarrow> Inr (Some x)))"

definition opt_get :: "bytes \<Rightarrow> opt_tree \<Rightarrow> (opt_error + bytes option) \<times> opt_tree" where
  "opt_get u s =
    (let (hit, nc) = nc_Get u (ot_cache s);
         s1 = s\<lparr>ot_cache := nc\<rparr>;
         miss = (case map_of (ot_nodeIndex s1) u of
             None \<Rightarrow> (Inl OptKeyNotFound, s1)
           | Some p \<Rightarrow>
               if \<not> vl_hasData (ot_leaves s1 ! p) then (Inl OptKeyNotFound, s1)
               else let s2 = s1\<lparr>ot_cache := nc_Put u p (ot_cache s1)\<rparr> in (opt_leaf_value s2 p, s2))
     in case hit of
          Some p \<Rightarrow> if vl_hasData (ot_leaves s1 ! p) then (opt_leaf_value s1 p, s1) else miss
        | None \<Rightarrow> miss)"

definition opt_Get :: "('f, 'g, 'o) opt_crypto \<Rightarrow> bytes \<Rightarrow> opt_tree \<Rightarrow> (opt_error + bytes option) \<times> opt_tree" where
  "opt_Get C userID s = opt_get (opt_HashUserID C userID) s"

definition opt_GetRoot :: "('f, 'g, 'o) opt_crypto \<Rightarrow> opt_tree \<Rightarrow> bytes \<times> opt_tree" where
  "opt_GetRoot C s = (case opt_Hash C (ot_leaves s) (ot_root s) of (h, n) \<Rightarrow> (h, s\<lparr>ot_root := n\<rparr>))"

fun opt_IsDirty :: "opt_node \<Rightarrow> bool" where
  "opt_IsDirty (InternalNode ch c d dirty) = dirty"
| "opt_IsDirty (LeafNode p) = False"

text \<open>\<^verbatim>\<open>GetFinalRoot\<close> and \<^verbatim>\<open>Close\<close> wait for the tasks of the queue.\<close>

definition opt_GetFinalRoot :: "('f, 'g, 'o) opt_crypto \<Rightarrow> opt_tree \<Rightarrow> (bytes option \<times> opt_tree) opt_result" where
  "opt_GetFinalRoot C s =
    (if ot_queue s \<noteq> 0 then OBlocked
     else if of_HashOnly (ot_config s) then ODone (Some (Blake3Hash C (ot_leaves s) (ot_root s)), s)
     else if opt_IsDirty (ot_root s) then
       (case computeKZGForRoot C s of (s1, ok) \<Rightarrow> if ok then ODone (root_bytes (ot_root s1), s1) else OErr OptKZG)
     else ODone (root_bytes (ot_root s), s))"

definition opt_Close :: "opt_tree \<Rightarrow> opt_tree opt_result" where
  "opt_Close s = (if ot_queue s \<noteq> 0 then OBlocked else if ot_closed s then OPanic else ODone (s\<lparr>ot_closed := True\<rparr>))"

end
