(* ===== verification/OptimizedProof.thy ===== *)
theory OptimizedProof
  imports Optimized
begin

text \<open>
  Proofs of the fixed-shape Verkle tree, \<^verbatim>\<open>optimized/proof.go\<close>: what \<^verbatim>\<open>GenerateProof\<close> and
  \<^verbatim>\<open>GenerateMultiProof\<close> collect, and what \<^verbatim>\<open>VerifySingleProof\<close> and \<^verbatim>\<open>VerifyBundledProof\<close> check. The
  parallel versions call these for each user and each proof.
\<close>

record opt_proof =
  op_UserIDs :: "bytes list"
  op_UserIDHashes :: "bytes list"
  op_Path :: "bytes list"
  op_PathIndices :: "int list"
  op_ChildrenHashes :: "bytes list list"
  op_KZGOpeningProof :: bytes
  op_KZGCommitment :: bytes
  op_RootHash :: "bytes option"
  op_IsBundled :: bool

subsection \<open>Single proofs\<close>

text \<open>The hashes of all children of a node, and the loop down the path.\<close>

definition children_hashes :: "('f, 'g, 'o) opt_crypto \<Rightarrow> opt_leaf list \<Rightarrow> opt_node \<Rightarrow> bytes list" where
  "children_hashes C L n = map (\<lambda>x. case x of None \<Rightarrow> zero32 | Some m \<Rightarrow> Blake3Hash C L m) (node_children n)"

definition add_level :: "('f, 'g, 'o) opt_crypto \<Rightarrow> opt_leaf list \<Rightarrow> opt_node \<Rightarrow> opt_proof \<Rightarrow> opt_proof" where
  "add_level C L n proof = proof\<lparr>op_Path := op_Path proof @ [Blake3Hash C L n],
    op_ChildrenHashes := op_ChildrenHashes proof @ [children_hashes C L n]\<rparr>"

fun full_path :: "('f, 'g, 'o) opt_crypto \<Rightarrow> opt_config \<Rightarrow> opt_leaf list \<Rightarrow> bytes \<Rightarrow> nat \<Rightarrow> nat \<Rightarrow> opt_node \<Rightarrow> opt_proof \<Rightarrow> opt_proof option" where
  "full_path C cfg L stem 0 d n proof = Some proof"
| "full_path C cfg L stem (Suc k) d n proof =
    (let index = opt_index cfg (stem ! d);
         proof1 = proof\<lparr>op_PathIndices := op_PathIndices proof @ [int index]\<rparr>
     in case node_children n ! index of
          None \<Rightarrow> None
        | Some (LeafNode p) \<Rightarrow> Some proof1
        | Some (InternalNode ch c d2 dirty) \<Rightarrow>
            full_path C cfg L stem k (d + 1) (InternalNode ch c d2 dirty) (add_level C L (InternalNode ch c d2 dirty) proof1))"

definition collectFullProofPath :: "('f, 'g, 'o) opt_crypto \<Rightarrow> bytes \<Rightarrow> opt_tree \<Rightarrow> opt_proof \<Rightarrow> opt_proof option" where
  "collectFullProofPath C u s proof =
    map_option (\<lambda>proof. proof\<lparr>op_RootHash := Some (Blake3Hash C (ot_leaves s) (ot_root s))\<rparr>)
      (full_path C (ot_config s) (ot_leaves s) (take StemSize u) (TreeDepth - 1) 0 (ot_root s)
        (add_level C (ot_leaves s) (ot_root s) proof))"

definition root_values :: "('f, 'g, 'o) opt_crypto \<Rightarrow> opt_leaf list \<Rightarrow> opt_node \<Rightarrow> 'f list" where
  "root_values C L n = map (\<lambda>x. case x of None \<Rightarrow> oc_zero C | Some m \<Rightarrow> opt_hashToFieldElement C (Blake3Hash C L m)) (node_children n)"

definition generateKZGProof :: "('f, 'g, 'o) opt_crypto \<Rightarrow> bytes \<Rightarrow> opt_tree \<Rightarrow> (bytes \<times> bytes) option" where
  "generateKZGProof C u s =
    (let index = opt_index (ot_config s) (take StemSize u ! 0);
         values = root_values C (ot_leaves s) (ot_root s);
         point = oc_SetUint64 C (of_nat index)
     in case oc_Commit C values of
          None \<Rightarrow> None
        | Some commitment \<Rightarrow> (case oc_Open C values point of
            None \<Rightarrow> None
          | Some opening \<Rightarrow> Some (oc_opening_bytes C opening (values ! index), oc_Marshal C commitment)))"

definition generateSingleProof :: "('f, 'g, 'o) opt_crypto \<Rightarrow> bytes \<Rightarrow> opt_tree \<Rightarrow> opt_proof opt_result" where
  "generateSingleProof C userID s =
    (let u = opt_HashUserID C userID
     in case map_of (ot_nodeIndex s) u of
          None \<Rightarrow> OErr OptKeyNotFound
        | Some p \<Rightarrow>
            if \<not> vl_hasData (ot_leaves s ! p) then OErr OptKeyNotFound
            else case collectFullProofPath C u s \<lparr>op_UserIDs = [userID], op_UserIDHashes = [u], op_Path = [], op_PathIndices = [],
                   op_ChildrenHashes = [], op_KZGOpeningProof = [], op_KZGCommitment = [], op_RootHash = None, op_IsBundled = False\<rparr> of
                 None \<Rightarrow> OErr OptKeyNotFound
               | Some proof \<Rightarrow> ODone
                   (if of_KZG (ot_config s) then case generateKZGProof C u s of
                        None \<Rightarrow> proof
                      | Some (opening, commitment) \<Rightarrow> proof\<lparr>op_KZGOpeningProof := opening, op_KZGCommitment := commitment\<rparr>
                    else proof))"

text \<open>The commitment of the root is computed first when it is marked dirty.\<close>

definition settle_root :: "('f, 'g, 'o) opt_crypto \<Rightarrow> opt_tree \<Rightarrow> opt_tree \<times> bool" where
  "settle_root C s = (if opt_IsDirty (ot_root s) then computeKZGForRoot C s else (s, True))"

definition opt_GenerateProof :: "('f, 'g, 'o) opt_crypto \<Rightarrow> bytes \<Rightarrow> opt_tree \<Rightarrow> opt_proof opt_result \<times> opt_tree" where
  "opt_GenerateProof C userID s =
    (if of_HashOnly (ot_config s) then (OErr OptHashOnly, s)
     else case settle_root C s of (s1, ok) \<Rightarrow> if ok then (generateSingleProof C userID s1, s1) else (OErr OptKZG, s1))"

subsection \<open>Bundled proofs\<close>

text \<open>\<open>seen\<close> is the set of keys \<^verbatim>\<open>d%d-i%d\<close>. A node is added with its cached commitment and the hashes of
  its children, which keep them; the node itself comes back with what was cached below it.\<close>

definition cached_commitment :: "opt_node \<Rightarrow> bytes" where
  "cached_commitment n = (case root_bytes n of None \<Rightarrow> [] | Some c \<Rightarrow> c)"

fun bundled_path :: "('f, 'g, 'o) opt_crypto \<Rightarrow> opt_config \<Rightarrow> opt_leaf list \<Rightarrow> bytes \<Rightarrow> nat \<Rightarrow> nat \<Rightarrow> nat \<Rightarrow> opt_node \<Rightarrow>
    opt_proof \<times> (nat \<times> nat) set \<Rightarrow> opt_node \<times> (opt_proof \<times> (nat \<times> nat) set) option" where
  "bundled_path C cfg L stem userIdx 0 d n (proof, seen) = (n, Some (proof, seen))"
| "bundled_path C cfg L stem userIdx (Suc k) d n (proof, seen) =
    (let index = opt_index cfg (stem ! d);
         proof1 = proof\<lparr>op_PathIndices := (op_PathIndices proof)[userIdx * TreeDepth + d := int index]\<rparr>
     in case node_children n ! index of
          None \<Rightarrow> (n, None)
        | Some (LeafNode p) \<Rightarrow> bundled_path C cfg L stem userIdx k (d + 1) n (proof1, seen)
        | Some (InternalNode ch c d2 dirty) \<Rightarrow>
            let rs = map (map_option (opt_Hash C L)) ch;
                (m, acc) = (if (d, index) \<in> seen then (InternalNode ch c d2 dirty, (proof1, seen))
                  else (InternalNode (map (map_option snd) rs) c d2 dirty,
                    (proof1\<lparr>op_Path := op_Path proof1 @ [cached_commitment (InternalNode ch c d2 dirty)],
                       op_ChildrenHashes := op_ChildrenHashes proof1 @ [map (\<lambda>x. case x of None \<Rightarrow> zero32 | Some y \<Rightarrow> fst y) rs]\<rparr>,
                     insert (d, index) seen)));
                (m1, r) = bundled_path C cfg L stem userIdx k (d + 1) m acc
            in (set_child index m1 n, r))"

fun bundled_users :: "('f, 'g, 'o) opt_crypto \<Rightarrow> opt_tree \<Rightarrow> nat \<Rightarrow> bytes list \<Rightarrow> opt_proof \<times> (nat \<times> nat) set \<Rightarrow> opt_proof option \<times> opt_tree" where
  "bundled_users C s i [] acc = (Some (fst acc), s)"
| "bundled_users C s i (u # us) acc =
    (let (n, r) = bundled_path C (ot_config s) (ot_leaves s) (take StemSize u) i (TreeDepth - 1) 0 (ot_root s) acc;
         s1 = s\<lparr>ot_root := n\<rparr>
     in case r of None \<Rightarrow> (None, s1) | Some acc1 \<Rightarrow> bundled_users C s1 (i + 1) us acc1)"

definition generateBundledProof :: "('f, 'g, 'o) opt_crypto \<Rightarrow> bytes list \<Rightarrow> opt_tree \<Rightarrow> opt_proof opt_result \<times> opt_tree" where
  "generateBundledProof C userIDs s =
    (let us = map (opt_HashUserID C) userIDs
     in if \<exists>u\<in>set us. case map_of (ot_nodeIndex s) u of None \<Rightarrow> True | Some p \<Rightarrow> \<not> vl_hasData (ot_leaves s ! p)
        then (OErr OptKeyNotFound, s)
        else case bundled_users C s 0 us (\<lparr>op_UserIDs = userIDs, op_UserIDHashes = us, op_Path = [Blake3Hash C (ot_leaves s) (ot_root s)],
               op_PathIndices = replicate (length userIDs * TreeDepth) 0, op_ChildrenHashes = [children_hashes C (ot_leaves s) (ot_root s)],
               op_KZGOpeningProof = [], op_KZGCommitment = [], op_RootHash = Some (Blake3Hash C (ot_leaves s) (ot_root s)), op_IsBundled = True\<rparr>, {}) of
             (None, s1) \<Rightarrow> (OErr OptKeyNotFound, s1)
           | (Some proof, s1) \<Rightarrow> (ODone proof, s1))"

definition opt_GenerateMultiProof :: "('f, 'g, 'o) opt_crypto \<Rightarrow> bytes list \<Rightarrow> opt_tree \<Rightarrow> opt_proof opt_result \<times> opt_tree" where
  "opt_GenerateMultiProof C userIDs s =
    (if of_HashOnly (ot_config s) then (OErr OptHashOnly, s)
     else if userIDs = [] then (OErr OptEmpty, s)
     else if length userIDs = 1 then opt_GenerateProof C (hd userIDs) s
     else case settle_root C s of (s1, ok) \<Rightarrow> if ok then generateBundledProof C userIDs s1 else (OErr OptKZG, s1))"

subsection \<open>Verification\<close>

text \<open>The hash of a level, and the check of its index.\<close>

definition level_hash :: "('f, 'g, 'o) opt_crypto \<Rightarrow> bytes list \<Rightarrow> bytes" where
  "level_hash C hs = oc_blake3 C (concat (map (\<lambda>i. if i < length hs \<and> 0 < length (hs ! i) then hs ! i else zero32) [0..<NodeWidth]))"

definition index_ok :: "int list \<Rightarrow> nat \<Rightarrow> bytes list \<Rightarrow> bool" where
  "index_ok indices level hs \<longleftrightarrow> (level < length indices \<longrightarrow>
    0 \<le> indices ! level \<and> indices ! level < int (length hs) \<and> 0 < length (hs ! nat (indices ! level)))"

definition verifyBlake3Path :: "('f, 'g, 'o) opt_crypto \<Rightarrow> bytes \<Rightarrow> opt_proof \<Rightarrow> opt_config \<Rightarrow> bool" where
  "verifyBlake3Path C u proof config \<longleftrightarrow>
    op_Path proof \<noteq> [] \<and> op_ChildrenHashes proof \<noteq> [] \<and> length (op_Path proof) = length (op_ChildrenHashes proof)
    \<and> list_all (\<lambda>level. index_ok (op_PathIndices proof) level (op_ChildrenHashes proof ! level)
        \<and> level_hash C (op_ChildrenHashes proof ! level) = op_Path proof ! level) [0..<length (op_Path proof)]
    \<and> (case op_RootHash proof of None \<Rightarrow> True | Some r \<Rightarrow> op_Path proof ! 0 = r)"

definition verifyKZGProof :: "('f, 'g, 'o) opt_crypto \<Rightarrow> opt_proof \<Rightarrow> opt_config \<Rightarrow> bool" where
  "verifyKZGProof C proof config =
    (if \<not> of_KZG config \<or> length (op_KZGCommitment proof) = 0 then False
     else if op_PathIndices proof = [] \<or> op_ChildrenHashes proof = [] then False
     else case oc_Unmarshal C (op_KZGCommitment proof) of None \<Rightarrow> False | Some proofCommitment \<Rightarrow>
       let hs = op_ChildrenHashes proof ! 0;
           values = map (\<lambda>i. if i < length hs \<and> 0 < length (hs ! i) then opt_hashToFieldElement C (hs ! i) else oc_zero C) [0..<NodeWidth]
       in case oc_Commit C values of None \<Rightarrow> False | Some recomputedCommitment \<Rightarrow>
            if oc_Marshal C proofCommitment \<noteq> oc_Marshal C recomputedCommitment then False
            else let point = oc_SetUint64 C (of_int (op_PathIndices proof ! 0))
                 in case oc_Open C values point of None \<Rightarrow> False | Some newOpeningProof \<Rightarrow> oc_Verify C recomputedCommitment newOpeningProof point)"

text \<open>An error always comes with \<^verbatim>\<open>false\<close>; the user hash is read without a check of its presence.\<close>

definition VerifySingleProof :: "('f, 'g, 'o) opt_crypto \<Rightarrow> opt_proof option \<Rightarrow> opt_config \<Rightarrow> bool opt_result" where
  "VerifySingleProof C proof config = (case proof of None \<Rightarrow> OErr OptInvalidProof | Some proof \<Rightarrow>
     if op_IsBundled proof then OErr OptInvalidProof
     else if length (op_UserIDs proof) \<noteq> 1 then OErr OptInvalidProof
     else if op_UserIDHashes proof = [] then OPanic
     else if \<not> verifyBlake3Path C (op_UserIDHashes proof ! 0) proof config then OErr OptInvalidProof
     else if 0 < length (op_KZGOpeningProof proof) \<and> of_KZG config \<and> \<not> verifyKZGProof C proof config then OErr OptKZG
     else ODone True)"

definition verifyBundledPath :: "('f, 'g, 'o) opt_crypto \<Rightarrow> bytes \<Rightarrow> nat \<Rightarrow> opt_proof \<Rightarrow> opt_config \<Rightarrow> bool" where
  "verifyBundledPath C u userIdx proof config \<longleftrightarrow>
    (userIdx + 1) * TreeDepth \<le> length (op_PathIndices proof)
    \<and> list_all (\<lambda>level. let childIndex = op_PathIndices proof ! (userIdx * TreeDepth + level); hs = op_ChildrenHashes proof ! level
        in 0 \<le> childIndex \<and> childIndex < int (length hs) \<and> length (hs ! nat childIndex) = 32)
        [0..<min (length (op_ChildrenHashes proof)) TreeDepth]
    \<and> length (op_Path proof) = length (op_ChildrenHashes proof)
    \<and> list_all (\<lambda>level. level_hash C (op_ChildrenHashes proof ! level) = op_Path proof ! level) [0..<length (op_Path proof)]"

definition VerifyBundledProof :: "('f, 'g, 'o) opt_crypto \<Rightarrow> opt_proof option \<Rightarrow> opt_config \<Rightarrow> bool opt_result" where
  "VerifyBundledProof C proof config = (case proof of None \<Rightarrow> OErr OptInvalidProof | Some proof \<Rightarrow>
     if \<not> op_IsBundled proof then OErr OptInvalidProof
     else if list_all (\<lambda>i. verifyBundledPath C (op_UserIDHashes proof ! i) i proof config) [0..<length (op_UserIDHashes proof)]
     then ODone True else OErr OptInvalidProof)"

end
