(* ===== verification/OptimizedTree.thy ===== *)
theory OptimizedTree
  imports OptimizedProof VerkleRefine
begin

text \<open>
  The fixed-shape Verkle tree: its leaves are where those of the other tree are, its cached hashes are the
  hashes of the subtrees, and its root is a function of the set of users.
\<close>

subsection \<open>The shape\<close>

definition opt_shape :: verkle_config where
  "opt_shape = \<lparr>vc_Levels = TreeDepth, vc_NodeWidth = NodeWidth, vc_UseKZGForInternal = False, vc_AutoGrowDepth = False,
    vc_MaxLevels = TreeDepth, vc_NodeMask = NodeWidth - 1\<rparr>"

lemma shape_fields [simp]: "vc_Levels opt_shape = TreeDepth" "vc_NodeWidth opt_shape = NodeWidth"
  by (simp_all add: opt_shape_def)

lemma shape_ok: "cfg_ok opt_shape"
proof -
  have "NodeWidth = 2 ^ 7" "NodeWidth - 1 = mask 7" by (simp_all add: NodeWidth_def mask_eq_exp_minus_1)
  then show ?thesis unfolding cfg_ok_def by (intro conjI exI [of _ 7]) (simp_all add: opt_shape_def TreeDepth_def StemSize_def)
qed

definition mask_ok :: "opt_config \<Rightarrow> bool" where
  "mask_ok cfg \<longleftrightarrow> of_NodeMask cfg = NodeWidth - 1"

lemma index_shape: "mask_ok cfg \<Longrightarrow> opt_index cfg b = getNodeIndex opt_shape b"
  by (simp add: mask_ok_def opt_index_def getNodeIndex_def opt_shape_def)

lemma new_shape: "NewInternalNode d = new_internal opt_shape d"
  by (simp add: NewInternalNode_def new_internal_def)

subsection \<open>Nodes without their marks\<close>

fun strip :: "opt_node \<Rightarrow> opt_node" where
  "strip (LeafNode p) = LeafNode p"
| "strip (InternalNode ch c d dirty) = InternalNode (map (map_option strip) ch) None d True"

lemma ptr_at_strip [simp]: "ptr_at (strip n) q = ptr_at n q"
proof (induction n arbitrary: q rule: verkle_induct)
  case (Internal ch c d dirty)
  show ?case
  proof (cases q)
    case (Cons i js)
    show ?thesis
    proof (cases "i < length ch \<and> ch ! i \<noteq> None")
      case True
      then obtain m where m: "ch ! i = Some m" by blast
      then have "Some m \<in> set ch" using True nth_mem by metis
      then show ?thesis using Internal m True by (simp add: Cons)
    qed (auto simp: Cons)
  qed simp
qed simp

lemma wf_strip [simp]: "wf_node W N k d (strip n) \<longleftrightarrow> wf_node W N k d n"
proof (induction k arbitrary: d n)
  case 0
  show ?case by (cases n) simp_all
next
  case (Suc k)
  show ?case
  proof (cases n)
    case (InternalNode ch c d' dirty)
    have set: "Some m \<in> set (map (map_option strip) ch) \<longleftrightarrow> (\<exists>x. Some x \<in> set ch \<and> m = strip x)" for m
      by (auto simp: map_option_case image_iff split: option.split)
    have "(\<forall>m. Some m \<in> set (map (map_option strip) ch) \<longrightarrow> wf_node W N k (Suc d) m \<and> (\<exists>p. ptr_at m p \<noteq> None)) \<longleftrightarrow>
        (\<forall>m. Some m \<in> set ch \<longrightarrow> wf_node W N k (Suc d) m \<and> (\<exists>p. ptr_at m p \<noteq> None))"
      (is "?L \<longleftrightarrow> ?R")
    proof -
      have "?L \<longleftrightarrow> (\<forall>x. Some x \<in> set ch \<longrightarrow> wf_node W N k (Suc d) (strip x) \<and> (\<exists>p. ptr_at (strip x) p \<noteq> None))"
        unfolding set by blast
      then show ?thesis by (simp only: Suc.IH ptr_at_strip)
    qed
    then show ?thesis by (simp add: InternalNode del: set_map) blast
  qed simp
qed

lemma strip_SetDirty [simp]: "strip (SetDirty b n) = strip n"
  by (cases n) simp_all

lemma strip_mark [simp]: "strip (opt_markDirtyPath cfg u k d n) = strip n"
proof (induction k arbitrary: d n)
  case 0
  show ?case by (cases n) simp_all
next
  case (Suc k)
  show ?case
  proof (cases n)
    case (InternalNode ch c d' dirty)
    let ?i = "opt_index cfg (u ! d)"
    show ?thesis
    proof (cases "ch ! ?i")
      case None
      then show ?thesis using Suc.IH [of "d + 1" "InternalNode ch None d' True"] by (simp add: InternalNode Let_def)
    next
      case (Some m)
      have "map (map_option strip) (ch[?i := ch ! ?i]) = map (map_option strip) ch" by (simp only: list_update_id)
      then have "(map (map_option strip) ch)[?i := Some (strip m)] = map (map_option strip) ch" by (simp only: map_update Some option.map)
      then show ?thesis by (simp add: InternalNode Let_def Some map_update Suc.IH)
    qed
  qed simp
qed

lemma strip_Hash: "strip (snd (opt_Hash C L n)) = strip n"
proof (induction n rule: verkle_induct)
  case (Internal ch c d dirty)
  have "map (map_option strip) (map (map_option snd) (map (map_option (opt_Hash C L)) ch)) = map (map_option strip) ch"
    unfolding map_map option.map_comp comp_def by (rule kids_map_cong) (use Internal in blast)
  then show ?case by (cases c) (simp_all add: Let_def)
qed simp

lemma next_step:
  assumes "wf_node NodeWidth N (Suc (Suc k)) d (InternalNode ch c d' dirty)" "i < length ch"
  shows "next_node d (ch ! i) = step_into opt_shape L d (ch ! i)"
    "\<exists>ch2 c2 dirty2. next_node d (ch ! i) = InternalNode ch2 c2 (Suc d) dirty2"
proof -
  have "next_node d (ch ! i) = step_into opt_shape L d (ch ! i) \<and> (\<exists>ch2 c2 dirty2. next_node d (ch ! i) = InternalNode ch2 c2 (Suc d) dirty2)"
  proof (cases "ch ! i")
    case None
    then show ?thesis by (simp add: next_node_def step_into_def new_shape) (auto simp: new_internal_def)
  next
    case (Some m)
    then have "Some m \<in> set ch" using assms(2) nth_mem by metis
    then have "\<exists>ch2 c2 dirty2. m = InternalNode ch2 c2 (Suc d) dirty2" using assms(1) by auto
    then show ?thesis using Some by (auto simp: next_node_def step_into_def)
  qed
  then show "next_node d (ch ! i) = step_into opt_shape L d (ch ! i)"
    "\<exists>ch2 c2 dirty2. next_node d (ch ! i) = InternalNode ch2 c2 (Suc d) dirty2" by blast+
qed

lemma descend_shape:
  assumes "mask_ok cfg"
  shows "wf_node NodeWidth N (Suc k) d n \<Longrightarrow> strip (opt_descend cfg L u f k d n) = strip (descend opt_shape L' u f k d n)
    \<and> opt_bottom cfg u k d n = Some (bottom opt_shape L' u k d n)"
proof (induction k arbitrary: d n)
  case (Suc k)
  then obtain ch c dirty where n: "n = InternalNode ch c d dirty" and len: "length ch = NodeWidth" by auto
  let ?i = "getNodeIndex opt_shape (u ! d)"
  have i: "?i < length ch" using index_less [OF shape_ok] len by simp
  have w: "wf_node NodeWidth N (Suc (Suc k)) d (InternalNode ch c d dirty)" using Suc.prems n by simp
  have w2: "wf_node NodeWidth N (Suc k) (Suc d) (step_into opt_shape L' d (ch ! ?i))"
    using step_into_wf(1) [where cfg = opt_shape, unfolded shape_fields(2), OF w i] .
  note s = next_step [OF w i]
  obtain ch2 c2 dirty2 where m: "next_node d (ch ! ?i) = InternalNode ch2 c2 (Suc d) dirty2" using s(2) by blast
  note IH = Suc.IH [OF w2]
  have "strip (opt_descend cfg L u f k (Suc d) (next_node d (ch ! ?i))) = strip (descend opt_shape L' u f k (Suc d) (step_into opt_shape L' d (ch ! ?i)))"
    "opt_bottom cfg u k (Suc d) (next_node d (ch ! ?i)) = Some (bottom opt_shape L' u k (Suc d) (step_into opt_shape L' d (ch ! ?i)))"
    using IH unfolding s(1) [where L = L'] by blast+
  then show ?case unfolding n using m by (simp add: Let_def index_shape [OF assms] map_update)
qed simp

subsection \<open>Hashes\<close>

lemma Blake3Hash_strip: "Blake3Hash C L (strip n) = Blake3Hash C L n"
proof (induction n rule: verkle_induct)
  case (Internal ch c d dirty)
  have "map (map_option (Blake3Hash C L)) (map (map_option strip) ch) = map (map_option (Blake3Hash C L)) ch"
    unfolding map_map option.map_comp comp_def by (rule kids_map_cong) (use Internal in blast)
  then show ?case by (simp only: strip.simps Blake3Hash.simps)
qed simp

lemma Blake3Hash_eq: "strip n = strip n' \<Longrightarrow> Blake3Hash C L n = Blake3Hash C L n'"
  using Blake3Hash_strip [of C L n] Blake3Hash_strip [of C L n'] by simp

text \<open>Every cached hash is the hash of the subtree.\<close>

fun cached :: "('f, 'g, 'o) opt_crypto \<Rightarrow> opt_leaf list \<Rightarrow> opt_node \<Rightarrow> bool" where
  "cached C L (LeafNode p) \<longleftrightarrow> True"
| "cached C L (InternalNode ch c d dirty) \<longleftrightarrow> (c \<noteq> None \<longrightarrow> c = Some (Blake3Hash C L (InternalNode ch c d dirty)))
    \<and> (\<forall>x\<in>set ch. \<forall>m\<in>set_option x. cached C L m)"

fun kids_cached :: "('f, 'g, 'o) opt_crypto \<Rightarrow> opt_leaf list \<Rightarrow> opt_node \<Rightarrow> bool" where
  "kids_cached C L (LeafNode p) \<longleftrightarrow> True"
| "kids_cached C L (InternalNode ch c d dirty) \<longleftrightarrow> (\<forall>x\<in>set ch. \<forall>m\<in>set_option x. cached C L m)"

lemma cached_kids: "cached C L n \<Longrightarrow> kids_cached C L n"
  by (cases n) simp_all

lemma Hash_cached: "cached C L n \<Longrightarrow> fst (opt_Hash C L n) = Blake3Hash C L n \<and> cached C L (snd (opt_Hash C L n))"
proof (induction n rule: verkle_induct)
  case (Internal ch c d dirty)
  show ?case
  proof (cases c)
    case (Some h)
    then show ?thesis using Internal.prems by (simp del: Blake3Hash.simps) 
  next
    case None
    have kids: "\<And>m. Some m \<in> set ch \<Longrightarrow> fst (opt_Hash C L m) = Blake3Hash C L m \<and> cached C L (snd (opt_Hash C L m))"
      using Internal by simp
    let ?rs = "map (map_option (opt_Hash C L)) ch" and ?ch = "map (map_option snd) (map (map_option (opt_Hash C L)) ch)"
    have "map (\<lambda>x. case x of None \<Rightarrow> zero32 | Some (h, _) \<Rightarrow> h) ?rs
        = map (\<lambda>x. case x of None \<Rightarrow> zero32 | Some h \<Rightarrow> h) (map (map_option (Blake3Hash C L)) ch)"
      unfolding map_map using kids by (intro map_cong refl) (auto simp: case_prod_beta split: option.split)
    then have h: "oc_blake3 C (concat (map (\<lambda>x. case x of None \<Rightarrow> zero32 | Some (h, _) \<Rightarrow> h) ?rs)) = Blake3Hash C L (InternalNode ch c d dirty)"
      by (simp only: Blake3Hash.simps)
    have s: "strip (InternalNode ?ch (Some (Blake3Hash C L (InternalNode ch c d dirty))) d False) = strip (InternalNode ch c d dirty)"
      using strip_Hash [of C L "InternalNode ch c d dirty"] by (simp add: None Let_def)
    have "?ch = map (map_option (\<lambda>m. snd (opt_Hash C L m))) ch" by (simp add: option.map_comp comp_def)
    then have "\<exists>x. Some x \<in> set ch \<and> m = snd (opt_Hash C L x)" if "Some m \<in> set ?ch" for m
      using that by (auto simp: map_option_case split: option.splits)
    then have "\<forall>m. Some m \<in> set ?ch \<longrightarrow> cached C L m" using kids by blast
    then have "cached C L (InternalNode ?ch (Some (Blake3Hash C L (InternalNode ch c d dirty))) d False)"
      using Blake3Hash_eq [OF s, of C L] by (simp only: cached.simps kids_simps) simp
    moreover have "opt_Hash C L (InternalNode ch c d dirty) =
        (Blake3Hash C L (InternalNode ch c d dirty), InternalNode ?ch (Some (Blake3Hash C L (InternalNode ch c d dirty))) d False)"
      unfolding h [symmetric] by (simp add: None Let_def)
    ultimately show ?thesis by simp
  qed
qed simp

definition same_hashes :: "('f, 'g, 'o) opt_crypto \<Rightarrow> opt_leaf list \<Rightarrow> opt_leaf list \<Rightarrow> bool" where
  "same_hashes C L L' \<longleftrightarrow> (\<forall>p<length L. opt_leaf_hash C (L' ! p) = opt_leaf_hash C (L ! p))"

lemma Blake3Hash_cong: "same_hashes C L L' \<Longrightarrow> ptrs_in L n \<Longrightarrow> Blake3Hash C L' n = Blake3Hash C L n"
proof (induction n rule: verkle_induct)
  case (Internal ch c d dirty)
  have "map (map_option (Blake3Hash C L')) ch = map (map_option (Blake3Hash C L)) ch"
    by (rule kids_map_cong) (use Internal ptrs_in_kid in blast)
  then show ?case by (simp only: Blake3Hash.simps)
qed (simp add: same_hashes_def ptrs_in_def)

lemma cached_cong: "same_hashes C L L' \<Longrightarrow> ptrs_in L n \<Longrightarrow> cached C L n \<Longrightarrow> cached C L' n"
proof (induction n rule: verkle_induct)
  case (Internal ch c d dirty)
  have kids: "\<forall>m. Some m \<in> set ch \<longrightarrow> cached C L m" using Internal.prems(3) unfolding cached.simps kids_simps by blast
  have "\<forall>m. Some m \<in> set ch \<longrightarrow> cached C L' m"
    using Internal.IH Internal.prems(1) ptrs_in_kid [OF Internal.prems(2)] kids by blast
  then show ?case using Internal.prems(3) unfolding cached.simps kids_simps Blake3Hash_cong [OF Internal.prems(1,2)] by blast
qed simp

text \<open>An insertion clears the hashes on its path and keeps the others.\<close>

lemma cached_insert:
  assumes cfg: "mask_ok cfg" and L: "same_hashes C L L'"
  shows "wf_node NodeWidth (length L) (Suc k) d n \<Longrightarrow> kids_cached C L n \<Longrightarrow>
    cached C L' (opt_markDirtyPath cfg u k d (opt_descend cfg L'' u (set_child i (LeafNode p)) k d n))"
proof (induction k arbitrary: d n)
  case 0
  then obtain ch c dirty where n: "n = InternalNode ch c d dirty" by auto
  have in_L: "ptrs_in L n" by (rule wf_ptrs [OF "0.prems"(1)])
  have "cached C L' m" if m: "Some m \<in> set (ch[i := Some (LeafNode p)])" for m
  proof -
    from m have "m = LeafNode p \<or> Some m \<in> set ch" using set_update_subset_insert [of ch i "Some (LeafNode p)"] by blast
    then show ?thesis
    proof
      assume "Some m \<in> set ch"
      then show ?thesis using cached_cong [OF L] ptrs_in_kid [OF in_L [unfolded n]] "0.prems"(2) n by simp
    qed simp
  qed
  then show ?case by (simp add: n)
next
  case (Suc k)
  then obtain ch c dirty where n: "n = InternalNode ch c d dirty" and len: "length ch = NodeWidth" by auto
  let ?i = "getNodeIndex opt_shape (u ! d)"
  have i: "?i < length ch" using index_less [OF shape_ok] len by simp
  have w: "wf_node NodeWidth (length L) (Suc (Suc k)) d (InternalNode ch c d dirty)" using Suc.prems n by simp
  have in_L: "ptrs_in L (InternalNode ch c d dirty)" by (rule wf_ptrs [OF w])
  from next_step(2) [OF w i] obtain ch2 c2 dirty2 where m: "next_node d (ch ! ?i) = InternalNode ch2 c2 (Suc d) dirty2" by blast
  have "wf_node NodeWidth (length L) (Suc k) (Suc d) (next_node d (ch ! ?i))"
    using step_into_wf(1) [where cfg = opt_shape, unfolded shape_fields(2), OF w i] next_step(1) [OF w i, of L] by simp
  moreover have "kids_cached C L (next_node d (ch ! ?i))"
  proof (cases "ch ! ?i")
    case None
    then show ?thesis by (simp add: next_node_def NewInternalNode_def)
  next
    case (Some x)
    then have "Some x \<in> set ch" using i nth_mem by metis
    then show ?thesis using Suc.prems(2) n Some by (simp add: next_node_def cached_kids)
  qed
  ultimately have IH: "cached C L' (opt_markDirtyPath cfg u k (Suc d) (opt_descend cfg L'' u (set_child i (LeafNode p)) k (Suc d) (next_node d (ch ! ?i))))"
    (is "cached C L' ?m") by (rule Suc.IH)
  have eq: "opt_markDirtyPath cfg u (Suc k) d (opt_descend cfg L'' u (set_child i (LeafNode p)) (Suc k) d n) =
      InternalNode (ch[?i := Some ?m]) None d True"
    using m i by (simp add: n Let_def index_shape [OF cfg])
  have "cached C L' x" if x: "Some x \<in> set (ch[?i := Some ?m])" for x
  proof -
    from x have "x = ?m \<or> Some x \<in> set ch" using set_update_subset_insert [of ch ?i "Some ?m"] by blast
    then show ?thesis
    proof
      assume "Some x \<in> set ch"
      then show ?thesis using cached_cong [OF L] ptrs_in_kid [OF in_L] Suc.prems(2) n by simp
    qed (use IH in simp)
  qed
  then show ?case unfolding eq by simp
qed

subsection \<open>The root from the set of users\<close>

text \<open>The users below a node at depth \<open>d\<close> and height \<open>k\<close>, split by the index of their next byte.\<close>

fun users_root :: "('f, 'g, 'o) opt_crypto \<Rightarrow> nat \<Rightarrow> nat \<Rightarrow> bytes set \<Rightarrow> bytes" where
  "users_root C 0 d U = oc_blake3 C (the_elem U)"
| "users_root C (Suc k) d U = oc_blake3 C (concat (map (\<lambda>i.
    let V = {u \<in> U. getNodeIndex opt_shape (u ! d) = i} in if V = {} then zero32 else users_root C k (Suc d) V) [0..<NodeWidth]))"

definition users_at :: "opt_leaf list \<Rightarrow> opt_node \<Rightarrow> bytes set" where
  "users_at L n = (\<lambda>p. vl_userIDHash (L ! p)) ` ptrs n"

definition leaf_hashes_ok :: "('f, 'g, 'o) opt_crypto \<Rightarrow> opt_leaf list \<Rightarrow> bool" where
  "leaf_hashes_ok C L \<longleftrightarrow> (\<forall>p<length L. opt_leaf_hash C (L ! p) = oc_blake3 C (vl_userIDHash (L ! p)))"

lemma Blake3_users:
  assumes "leaf_hashes_ok C L"
  shows "wf_node NodeWidth (length L) k d n \<Longrightarrow> (\<And>q p. ptr_at n q = Some p \<Longrightarrow> q = path_from opt_shape (vl_userIDHash (L ! p)) d k) \<Longrightarrow>
    Blake3Hash C L n = users_root C k d (users_at L n)"
proof (induction k arbitrary: d n)
  case 0
  then show ?case using assms by (auto simp: users_at_def leaf_hashes_ok_def)
next
  case (Suc k)
  then obtain ch c dirty where n: "n = InternalNode ch c d dirty" and len: "length ch = NodeWidth"
    and ch: "\<forall>m. Some m \<in> set ch \<longrightarrow> wf_node NodeWidth (length L) k (Suc d) m \<and> (\<exists>q. ptr_at m q \<noteq> None)" by auto
  let ?V = "\<lambda>i. {u \<in> users_at L n. getNodeIndex opt_shape (u ! d) = i}"
  have at: "ptr_at n (i # q) = ptr_at m q" if "i < length ch" "ch ! i = Some m" for i m q using that by (simp add: n)
  have split: "?V i = (case ch ! i of None \<Rightarrow> {} | Some m \<Rightarrow> users_at L m)" if i: "i < length ch" for i
  proof -
    have "u \<in> ?V i \<longleftrightarrow> (\<exists>m. ch ! i = Some m \<and> u \<in> users_at L m)" for u
    proof
      assume "u \<in> ?V i"
      then obtain p q where u: "u = vl_userIDHash (L ! p)" "ptr_at n q = Some p" "getNodeIndex opt_shape (u ! d) = i"
        by (auto simp: users_at_def ptrs_at)
      then have "q = i # path_from opt_shape u (Suc d) k" using Suc.prems(2) [OF u(2)] by simp
      then obtain m where "ch ! i = Some m" "ptr_at m (path_from opt_shape u (Suc d) k) = Some p"
        using u(2) by (auto simp: n split: if_splits option.splits)
      then show "\<exists>m. ch ! i = Some m \<and> u \<in> users_at L m" using u(1) ptrs_at by (auto simp: users_at_def)
    next
      assume "\<exists>m. ch ! i = Some m \<and> u \<in> users_at L m"
      then obtain m p q where m: "ch ! i = Some m" "u = vl_userIDHash (L ! p)" "ptr_at m q = Some p"
        by (auto simp: users_at_def ptrs_at)
      then have "ptr_at n (i # q) = Some p" using at [OF i] by simp
      moreover from this have "i # q = path_from opt_shape u d (Suc k)" using Suc.prems(2) m(2) by blast
      ultimately show "u \<in> ?V i" using m(2) ptrs_at by (auto simp: users_at_def)
    qed
    then show ?thesis by (cases "ch ! i") auto
  qed
  have "(case map_option (Blake3Hash C L) (ch ! i) of None \<Rightarrow> zero32 | Some h \<Rightarrow> h) =
      (let V = ?V i in if V = {} then zero32 else users_root C k (Suc d) V)" if i: "i < length ch" for i
  proof (cases "ch ! i")
    case None
    then show ?thesis using split [OF i] by simp
  next
    case (Some m)
    have "Some m \<in> set ch" using Some i nth_mem by metis
    then have m: "wf_node NodeWidth (length L) k (Suc d) m" "\<exists>q. ptr_at m q \<noteq> None" using ch by blast+
    have "Blake3Hash C L m = users_root C k (Suc d) (users_at L m)"
    proof (rule Suc.IH [OF m(1)])
      fix q p assume "ptr_at m q = Some p"
      then have "ptr_at n (i # q) = Some p" using at [OF i Some] by simp
      then show "q = path_from opt_shape (vl_userIDHash (L ! p)) (Suc d) k" using Suc.prems(2) by fastforce
    qed
    moreover have "users_at L m \<noteq> {}" using m(2) ptrs_at [of _ m] by (auto simp: users_at_def)
    ultimately show ?thesis using split [OF i] Some by simp
  qed
  then have "map (\<lambda>i. case map_option (Blake3Hash C L) (ch ! i) of None \<Rightarrow> zero32 | Some h \<Rightarrow> h) [0..<length ch] =
      map (\<lambda>i. let V = ?V i in if V = {} then zero32 else users_root C k (Suc d) V) [0..<NodeWidth]"
    unfolding len by (intro map_cong refl) simp
  moreover have "map (\<lambda>x. case x of None \<Rightarrow> zero32 | Some h \<Rightarrow> h) (map (map_option (Blake3Hash C L)) ch) =
      map (\<lambda>i. case map_option (Blake3Hash C L) (ch ! i) of None \<Rightarrow> zero32 | Some h \<Rightarrow> h) [0..<length ch]"
    by (rule nth_equalityI) (simp_all only: length_map length_upt nth_map nth_upt add_0 diff_zero)
  ultimately have "map (\<lambda>x. case x of None \<Rightarrow> zero32 | Some h \<Rightarrow> h) (map (map_option (Blake3Hash C L)) ch) =
      map (\<lambda>i. let V = ?V i in if V = {} then zero32 else users_root C k (Suc d) V) [0..<NodeWidth]" by simp
  then show ?case unfolding n Blake3Hash.simps users_root.simps by (simp only: n)
qed

end
