(* ===== verification/OptimizedInv.thy ===== *)
theory OptimizedInv
  imports OptimizedTree VerkleRuns
begin

text \<open>
  The invariant of the fixed-shape Verkle tree, its contents as a map from users to data, and what an
  insertion, a commit task and the reads do to them.
\<close>

subsection \<open>Prefixes of the key\<close>

lemma stem_nth: "d < StemSize \<Longrightarrow> take StemSize u ! d = u ! d"
  by simp

lemma opt_stem_descend: "d + k \<le> StemSize \<Longrightarrow> opt_descend cfg L (take StemSize u) f k d n = opt_descend cfg L u f k d n"
  by (induction k arbitrary: d n) (case_tac [!] n, simp_all add: Let_def split: verkle_node.split)

lemma opt_stem_bottom: "d + k \<le> StemSize \<Longrightarrow> opt_bottom cfg (take StemSize u) k d n = opt_bottom cfg u k d n"
  by (induction k arbitrary: d n) (case_tac [!] n, simp_all add: Let_def)

lemma opt_stem_mark: "d + k \<le> StemSize \<Longrightarrow> opt_markDirtyPath cfg (take StemSize u) k d n = opt_markDirtyPath cfg u k d n"
proof (induction k arbitrary: d n)
  case 0
  show ?case by (cases n) simp_all
next
  case (Suc k)
  have "opt_markDirtyPath cfg (take StemSize u) k (Suc d) = opt_markDirtyPath cfg u k (Suc d)"
    by (rule ext) (rule Suc.IH, use Suc.prems in simp)
  then show ?case using Suc.prems by (cases n) (simp_all add: Let_def split: option.split)
qed

lemma opt_descend_cong: "opt_bottom cfg u k d n = Some b \<Longrightarrow> f b = g b \<Longrightarrow> opt_descend cfg L u f k d n = opt_descend cfg L u g k d n"
proof (induction k arbitrary: d n)
  case (Suc k)
  show ?case
  proof (cases n)
    case (InternalNode ch c d' dirty)
    show ?thesis
    proof (cases "next_node d (ch ! opt_index cfg (u ! d))")
      case (InternalNode ch2 c2 d2 dirty2)
      then show ?thesis using Suc by (simp add: \<open>n = _\<close> Let_def)
    qed (simp add: InternalNode Let_def)
  qed simp
qed simp

subsection \<open>The invariant\<close>

definition o_leaf :: "opt_tree \<Rightarrow> nat \<Rightarrow> bool" where
  "o_leaf s p \<longleftrightarrow> vl_hasData (ot_leaves s ! p) \<and> length (vl_userIDHash (ot_leaves s ! p)) = 32
    \<and> ptr_at (ot_root s) (slot opt_shape (vl_userIDHash (ot_leaves s ! p))) = Some p"

definition o_inv :: "('f, 'g, 'o) opt_crypto \<Rightarrow> opt_tree \<Rightarrow> bool" where
  "o_inv C s \<longleftrightarrow> mask_ok (ot_config s) \<and> wf_node NodeWidth (length (ot_leaves s)) TreeDepth 0 (ot_root s)
    \<and> kids_cached C (ot_leaves s) (ot_root s) \<and> (of_HashOnly (ot_config s) \<longrightarrow> cached C (ot_leaves s) (ot_root s))
    \<and> leaf_hashes_ok C (ot_leaves s) \<and> (\<forall>p<length (ot_leaves s). o_leaf s p)
    \<and> (\<forall>q p. ptr_at (ot_root s) q = Some p \<longrightarrow> q = slot opt_shape (vl_userIDHash (ot_leaves s ! p)))
    \<and> (\<forall>u p. map_of (ot_nodeIndex s) u = Some p \<longleftrightarrow> p < length (ot_leaves s) \<and> vl_userIDHash (ot_leaves s ! p) = u)
    \<and> (\<forall>u p. map_of (nc_list (ot_cache s)) u = Some p \<longrightarrow> map_of (ot_nodeIndex s) u = Some p)"

definition o_contents :: "opt_tree \<Rightarrow> bytes \<rightharpoonup> bytes option" where
  "o_contents s = (\<lambda>u. map_option (\<lambda>p. vl_inMemoryData (ot_leaves s ! p)) (map_of (ot_nodeIndex s) u))"

text \<open>The user does not share its slot with another user of the tree.\<close>

definition apart :: "bytes set \<Rightarrow> bool" where
  "apart U \<longleftrightarrow> inj_on (slot opt_shape) U"

lemma o_users: "o_inv C s \<Longrightarrow> users_at (ot_leaves s) (ot_root s) = dom (o_contents s)"
proof -
  assume inv: "o_inv C s"
  have w: "wf_node NodeWidth (length (ot_leaves s)) TreeDepth 0 (ot_root s)" using inv by (simp add: o_inv_def)
  have "p \<in> ptrs (ot_root s) \<longleftrightarrow> p < length (ot_leaves s)" for p
  proof
    assume "p \<in> ptrs (ot_root s)"
    then obtain q where "ptr_at (ot_root s) q = Some p" unfolding ptrs_at ..
    from ptr_at_wf [OF w this] show "p < length (ot_leaves s)" by simp
  next
    assume "p < length (ot_leaves s)"
    then have "o_leaf s p" using inv by (simp add: o_inv_def)
    then show "p \<in> ptrs (ot_root s)" unfolding ptrs_at o_leaf_def by blast
  qed
  then have ptrs: "ptrs (ot_root s) = {..<length (ot_leaves s)}" by auto
  have "u \<in> users_at (ot_leaves s) (ot_root s) \<longleftrightarrow> (\<exists>p. map_of (ot_nodeIndex s) u = Some p)" for u
    using inv unfolding users_at_def ptrs by (auto simp: o_inv_def)
  then show ?thesis by (auto simp: o_contents_def)
qed

lemma o_root_hash:
  assumes "o_inv C s"
  shows "Blake3Hash C (ot_leaves s) (ot_root s) = users_root C TreeDepth 0 (dom (o_contents s))"
  unfolding o_users [OF assms, symmetric]
  by (rule Blake3_users) (use assms in \<open>auto simp: o_inv_def slot_def\<close>)

subsection \<open>An insertion\<close>

lemma depth: "TreeDepth = Suc 7" "TreeDepth - 1 = 7" "7 \<le> StemSize"
  by (simp_all add: TreeDepth_def StemSize_def)

lemma o_place:
  assumes inv: "o_inv C s" and p: "p \<le> length (ot_leaves s)" "length L' = max (length (ot_leaves s)) (Suc p)"
    and old: "\<And>q. q < length (ot_leaves s) \<Longrightarrow> q \<noteq> p \<Longrightarrow> L' ! q = ot_leaves s ! q"
    and new: "vl_userIDHash (L' ! p) = u" "length u = 32" "vl_hasData (L' ! p)" "opt_leaf_hash C (L' ! p) = oc_blake3 C u"
    and own: "p < length (ot_leaves s) \<Longrightarrow> vl_userIDHash (ot_leaves s ! p) = u"
    and at: "ptr_at (ot_root s) (slot opt_shape u) = (if p < length (ot_leaves s) then Some p else None)"
    and s': "ot_root s' = opt_markDirtyPath (ot_config s) u 7 0 (opt_descend (ot_config s) (ot_leaves s) u
        (set_child (opt_index (ot_config s) (u ! 7)) (LeafNode p)) 7 0 (ot_root s))"
      "ot_leaves s' = L'" "ot_config s' = ot_config s"
      "map_of (ot_nodeIndex s') = (map_of (ot_nodeIndex s))(u \<mapsto> p)"
      "\<And>v q. map_of (nc_list (ot_cache s')) v = Some q \<Longrightarrow> v = u \<and> q = p \<or> map_of (nc_list (ot_cache s)) v = Some q"
  shows "o_inv C s' \<and> o_contents s' = (o_contents s)(u \<mapsto> vl_inMemoryData (L' ! p))"
proof -
  let ?L = "ot_leaves s" and ?cfg = "ot_config s"
  have mask: "mask_ok ?cfg" and w: "wf_node NodeWidth (length ?L) (Suc 7) 0 (ot_root s)" and kids: "kids_cached C ?L (ot_root s)"
    and hashes: "leaf_hashes_ok C ?L" and leaves: "\<And>p. p < length ?L \<Longrightarrow> o_leaf s p"
    and owner: "\<And>q p. ptr_at (ot_root s) q = Some p \<Longrightarrow> q = slot opt_shape (vl_userIDHash (?L ! p))"
    and index: "\<And>u p. map_of (ot_nodeIndex s) u = Some p \<longleftrightarrow> p < length ?L \<and> vl_userIDHash (?L ! p) = u"
    and cache: "\<And>u p. map_of (nc_list (ot_cache s)) u = Some p \<Longrightarrow> map_of (ot_nodeIndex s) u = Some p"
    using inv unfolding o_inv_def depth(1) by blast+
  have idx: "opt_index ?cfg (u ! 7) = getNodeIndex opt_shape (u ! 7)" by (rule index_shape [OF mask])
  have slot: "slot opt_shape u = path_from opt_shape u 0 7 @ [getNodeIndex opt_shape (u ! 7)]" by (rule slot_eq) (simp add: depth(1))
  have w': "wf_node NodeWidth (length L') (Suc 7) 0 (ot_root s)" by (rule wf_node_mono [OF w]) (simp add: p(2))
  have i: "getNodeIndex opt_shape (u ! 7) < NodeWidth" using index_less [OF shape_ok] by simp
  note D = descend_leaf [where cfg = opt_shape, unfolded shape_fields(2), OF shape_ok w' i, where p = p and u = u and L = ?L]
  have strip: "strip (ot_root s') = strip (descend opt_shape ?L u (set_child (getNodeIndex opt_shape (u ! 7)) (LeafNode p)) 7 0 (ot_root s))"
    unfolding s'(1) strip_mark idx using descend_shape [OF mask w] by blast
  have W: "wf_node NodeWidth (length L') (Suc 7) 0 (ot_root s')"
    using D p(2) strip wf_strip [of NodeWidth "length L'" "Suc 7" 0 "ot_root s'"] wf_strip by (metis less_max_iff_disj lessI)
  have ptr: "ptr_at (ot_root s') q = (if q = slot opt_shape u then Some p else ptr_at (ot_root s) q)" for q
    using D p(2) strip ptr_at_strip [of "ot_root s'" q] ptr_at_strip unfolding slot by (metis less_max_iff_disj lessI)
  have same: "same_hashes C ?L L'" unfolding same_hashes_def
  proof (intro allI impI)
    fix q assume q: "q < length ?L"
    show "opt_leaf_hash C (L' ! q) = opt_leaf_hash C (?L ! q)"
    proof (cases "q = p")
      case True
      then have "opt_leaf_hash C (?L ! q) = oc_blake3 C u" using hashes own q by (simp add: leaf_hashes_ok_def)
      then show ?thesis using new(4) True by simp
    qed (use old [OF q] in simp)
  qed
  have user: "vl_userIDHash (L' ! q) = vl_userIDHash (?L ! q)" if "q < length ?L" for q
    using old [OF that] own new(1) that by (cases "q = p") simp_all
  have len: "q < length L' \<longleftrightarrow> q < length ?L \<or> q = p" for q using p by auto
  have "cached C L' (ot_root s')" unfolding s'(1) by (rule cached_insert [OF mask same w kids])
  moreover have "leaf_hashes_ok C L'"
    using hashes same new(1,4) user by (auto simp: leaf_hashes_ok_def same_hashes_def len)
  moreover have "o_leaf s' q" if "q < length L'" for q
  proof (cases "q = p")
    case True
    then show ?thesis using new ptr by (simp add: o_leaf_def s'(2))
  next
    case False
    then have q: "q < length ?L" using that len by simp
    have "slot opt_shape (vl_userIDHash (?L ! q)) \<noteq> slot opt_shape u"
      using leaves [OF q] at False by (auto simp: o_leaf_def split: if_splits)
    then show ?thesis using leaves [OF q] old [OF q False] ptr by (simp add: o_leaf_def s'(2))
  qed
  moreover have "q = slot opt_shape (vl_userIDHash (L' ! r))" if "ptr_at (ot_root s') q = Some r" for q r
  proof (cases "q = slot opt_shape u")
    case True
    then show ?thesis using that ptr new(1) by simp
  next
    case False
    then have r: "ptr_at (ot_root s) q = Some r" using that ptr by simp
    then show ?thesis using owner [OF r] user ptr_at_wf [OF w r] by simp
  qed
  moreover have idx': "map_of (ot_nodeIndex s') v = Some r \<longleftrightarrow> r < length L' \<and> vl_userIDHash (L' ! r) = v" for v r
  proof (cases "r = p")
    case True
    then show ?thesis using s'(4) index [of v p] new(1) own len by (auto split: if_splits)
  next
    case False
    have "vl_userIDHash (?L ! r) \<noteq> u" if "r < length ?L"
    proof
      assume "vl_userIDHash (?L ! r) = u"
      then have "ptr_at (ot_root s) (slot opt_shape u) = Some r" using leaves [OF that] by (simp add: o_leaf_def)
      then show False using at False by (simp split: if_splits)
    qed
    then show ?thesis using s'(4) index [of v r] user [of r] len [of r] False by (auto split: if_splits)
  qed
  moreover have "map_of (ot_nodeIndex s') v = Some r" if "map_of (nc_list (ot_cache s')) v = Some r" for v r
    using s'(5) [OF that]
  proof
    assume "map_of (nc_list (ot_cache s)) v = Some r"
    then have r: "map_of (ot_nodeIndex s) v = Some r" by (rule cache)
    then have "r < length ?L \<and> vl_userIDHash (?L ! r) = v" using index by blast
    then have "r < length L' \<and> vl_userIDHash (L' ! r) = v" using user [of r] len [of r] by simp
    then show ?thesis using idx' by blast
  qed (simp add: s'(4))
  ultimately have inv': "o_inv C s'"
    unfolding o_inv_def depth(1) s'(2,3) using mask W cached_kids by blast
  have "map_option (\<lambda>q. vl_inMemoryData (L' ! q)) (map_of (ot_nodeIndex s') v) =
      ((o_contents s)(u \<mapsto> vl_inMemoryData (L' ! p))) v" for v
  proof (cases "v = u")
    case False
    show ?thesis
    proof (cases "map_of (ot_nodeIndex s) v")
      case (Some r)
      then have "r < length ?L" "vl_userIDHash (?L ! r) = v" using index by blast+
      then have "r \<noteq> p" "r < length ?L" using own False by auto
      then show ?thesis using False Some old [of r] by (simp add: o_contents_def s'(4))
    qed (use False in \<open>simp add: o_contents_def s'(4)\<close>)
  qed (simp add: s'(4))
  then show ?thesis using inv' by (simp add: o_contents_def s'(2) fun_eq_iff)
qed

definition o_step :: "('f, 'g, 'o) opt_crypto \<Rightarrow> opt_tree \<Rightarrow> opt_tree \<Rightarrow> bool" where
  "o_step C s s' \<longleftrightarrow> o_inv C s' \<and> ot_config s' = ot_config s \<and> ot_dataStore s' = ot_dataStore s \<and> ot_queue s' = ot_queue s
    \<and> ot_closed s' = ot_closed s"

lemma o_insert:
  assumes inv: "o_inv C s" and u: "length u = 32" and ap: "apart (insert u (dom (o_contents s)))"
  shows "o_step C s (opt_insert C u data s) \<and> o_contents (opt_insert C u data s) = (o_contents s)(u \<mapsto> data)"
proof -
  let ?L = "ot_leaves s" and ?cfg = "ot_config s"
  have mask: "mask_ok ?cfg" and w: "wf_node NodeWidth (length ?L) (Suc 7) 0 (ot_root s)"
    and leaves: "\<And>p. p < length ?L \<Longrightarrow> o_leaf s p" and hashes: "leaf_hashes_ok C ?L"
    and owner: "\<And>q p. ptr_at (ot_root s) q = Some p \<Longrightarrow> q = slot opt_shape (vl_userIDHash (?L ! p))"
    and index: "\<And>u p. map_of (ot_nodeIndex s) u = Some p \<longleftrightarrow> p < length ?L \<and> vl_userIDHash (?L ! p) = u"
    and cache: "\<And>u p. map_of (nc_list (ot_cache s)) u = Some p \<Longrightarrow> map_of (ot_nodeIndex s) u = Some p"
    using inv unfolding o_inv_def depth(1) by blast+
  have idx: "opt_index ?cfg (u ! 7) = getNodeIndex opt_shape (u ! 7)" by (rule index_shape [OF mask])
  have slot: "slot opt_shape u = path_from opt_shape u 0 7 @ [getNodeIndex opt_shape (u ! 7)]" by (rule slot_eq) (simp add: depth(1))
  let ?i = "getNodeIndex opt_shape (u ! 7)"
  from bottom_wf [where cfg = opt_shape, unfolded shape_fields(2), OF shape_ok w, of ?L u] obtain ch c dirty where
    b: "bottom opt_shape ?L u 7 0 (ot_root s) = InternalNode ch c 7 dirty" "length ch = NodeWidth"
    and leaf: "\<forall>i m. i < length ch \<and> ch ! i = Some m \<longrightarrow> (\<exists>p. m = LeafNode p \<and> p < length ?L)"
    and at: "\<forall>i p. i < length ch \<longrightarrow> (ch ! i = Some (LeafNode p) \<longleftrightarrow> ptr_at (ot_root s) (path_from opt_shape u 0 7 @ [i]) = Some p)"
    by auto
  have bot: "opt_bottom ?cfg u 7 0 (ot_root s) = Some (InternalNode ch c 7 dirty)"
    using descend_shape [OF mask w] b(1) by metis
  have i: "?i < length ch" using index_less [OF shape_ok] b(2) by simp
  have stem: "take StemSize u ! 7 = u ! 7" by (rule stem_nth) (simp add: StemSize_def)
  have ins: "opt_insert C u data s = (case ch ! ?i of
        None \<Rightarrow> s\<lparr>ot_root := opt_markDirtyPath ?cfg u 7 0 (opt_descend ?cfg ?L u (set_child ?i (LeafNode (length ?L))) 7 0 (ot_root s)),
          ot_leaves := ?L @ [(NewLeafNode C u (take StemSize u) (data_key u))\<lparr>vl_inMemoryData := data, vl_hasData := True, vl_dirty := True\<rparr>],
          ot_nodeIndex := AList.update u (length ?L) (ot_nodeIndex s), ot_cache := nc_Put u (length ?L) (ot_cache s)\<rparr>
      | Some (LeafNode p) \<Rightarrow> s\<lparr>ot_root := opt_markDirtyPath ?cfg u 7 0 (opt_descend ?cfg ?L u id 7 0 (ot_root s)),
          ot_leaves := ?L[p := (?L ! p)\<lparr>vl_inMemoryData := data, vl_hasData := True, vl_dirty := True\<rparr>],
          ot_cache := nc_Put u p (nc_Invalidate u (ot_cache s))\<rparr>
      | Some (InternalNode _ _ _ _) \<Rightarrow> s\<lparr>ot_root := opt_markDirtyPath ?cfg u 7 0 (opt_descend ?cfg ?L u id 7 0 (ot_root s))\<rparr>)"
    unfolding opt_insert_def depth(2) Let_def stem idx
    using depth(3) by (simp add: opt_stem_bottom opt_stem_descend opt_stem_mark bot split: option.split verkle_node.split)
  show ?thesis
  proof (cases "ch ! ?i")
    case None
    then have "ptr_at (ot_root s) (slot opt_shape u) \<noteq> Some p" for p using at i unfolding slot by (metis option.distinct(1))
    then have none: "ptr_at (ot_root s) (slot opt_shape u) = None" by (cases "ptr_at (ot_root s) (slot opt_shape u)") auto
    let ?l = "(NewLeafNode C u (take StemSize u) (data_key u))\<lparr>vl_inMemoryData := data, vl_hasData := True, vl_dirty := True\<rparr>"
    let ?s = "opt_insert C u data s"
    have l: "opt_leaf_hash C ?l = oc_blake3 C u" by (simp add: opt_leaf_hash_def NewLeafNode_def)
    have "o_inv C ?s \<and> o_contents ?s = (o_contents s)(u \<mapsto> vl_inMemoryData ((?L @ [?l]) ! length ?L))"
      by (rule o_place [OF inv, where p = "length ?L"])
        (use none u l nc_list_Put in \<open>auto simp: ins None idx nth_append NewLeafNode_def update_conv'\<close>)
    then show ?thesis by (simp add: o_step_def ins None)
  next
    case (Some m)
    then obtain p where p: "m = LeafNode p" "p < length ?L" using leaf i by blast
    then have ptr: "ptr_at (ot_root s) (slot opt_shape u) = Some p" using at i Some unfolding slot by blast
    have "slot opt_shape (vl_userIDHash (?L ! p)) = slot opt_shape u" using owner [OF ptr] by simp
    moreover have "vl_userIDHash (?L ! p) \<in> dom (o_contents s)" using index [of "vl_userIDHash (?L ! p)" p] p(2) by (auto simp: o_contents_def)
    ultimately have user: "vl_userIDHash (?L ! p) = u" using ap unfolding apart_def by (meson inj_onD insertI1 insertI2)
    let ?l = "(?L ! p)\<lparr>vl_inMemoryData := data, vl_hasData := True, vl_dirty := True\<rparr>" and ?s = "opt_insert C u data s"
    have ch_p: "ch[?i := Some (LeafNode p)] = ch" using Some p(1) i list_update_id [of ch ?i] by simp
    have "opt_descend ?cfg ?L u id 7 0 (ot_root s) = opt_descend ?cfg ?L u (set_child ?i (LeafNode p)) 7 0 (ot_root s)"
      by (rule opt_descend_cong [OF bot]) (simp add: ch_p)
    then have root: "ot_root ?s = opt_markDirtyPath ?cfg u 7 0 (opt_descend ?cfg ?L u (set_child (opt_index ?cfg (u ! 7)) (LeafNode p)) 7 0 (ot_root s))"
      by (simp add: ins Some p(1) idx)
    have "opt_leaf_hash C ?l = opt_leaf_hash C (?L ! p)" by (cases "vl_commitment (?L ! p)") (simp_all add: opt_leaf_hash_def)
    then have hash: "opt_leaf_hash C ?l = oc_blake3 C u" using hashes p(2) user by (simp add: leaf_hashes_ok_def)
    have "map_of (ot_nodeIndex s) u = Some p" using index user p(2) by blast
    then have upd: "map_of (ot_nodeIndex s) = (map_of (ot_nodeIndex s))(u \<mapsto> p)" by (rule map_upd_triv [symmetric])
    have cache': "map_of (nc_list (nc_Put u p (nc_Invalidate u (ot_cache s)))) v = Some q \<Longrightarrow>
        v = u \<and> q = p \<or> map_of (nc_list (ot_cache s)) v = Some q" for v q
      using nc_list_Put [of u p "nc_Invalidate u (ot_cache s)" v q] by (auto simp: nc_Invalidate_def split: if_splits)
    have "o_inv C ?s \<and> o_contents ?s = (o_contents s)(u \<mapsto> vl_inMemoryData (?L[p := ?l] ! p))"
      by (rule o_place [OF inv, where p = p and L' = "?L[p := ?l]", OF _ _ _ _ u _ _ _ _ root])
        (use p(2) user hash ptr upd cache' in \<open>simp_all add: ins Some p(1)\<close>)
    then show ?thesis using p(2) by (simp add: o_step_def ins Some p(1))
  qed
qed

end
