(* ===== verification/OptimizedRuns.thy ===== *)
theory OptimizedRuns
  imports OptimizedInv
begin

text \<open>
  Runs of the fixed-shape Verkle tree without KZG: insertions, batches, commit tasks, reads and roots, against
  a map from users to data.
\<close>

subsection \<open>Roots and commit tasks\<close>

lemma o_root_node: "o_inv C s \<Longrightarrow> \<exists>ch c dirty. ot_root s = InternalNode ch c 0 dirty \<and> length ch = NodeWidth"
proof -
  assume "o_inv C s"
  then have "wf_node NodeWidth (length (ot_leaves s)) (Suc 7) 0 (ot_root s)" unfolding o_inv_def depth(1) by blast
  then show ?thesis unfolding wf_node.simps(2) by blast
qed

lemma o_root_change:
  assumes inv: "o_inv C s" and root: "strip n = strip (ot_root s)" "kids_cached C (ot_leaves s) n"
    and hash: "of_HashOnly (ot_config s) \<Longrightarrow> cached C (ot_leaves s) n"
  shows "o_step C s (s\<lparr>ot_root := n\<rparr>) \<and> o_contents (s\<lparr>ot_root := n\<rparr>) = o_contents s"
proof -
  have ptr: "ptr_at n q = ptr_at (ot_root s) q" for q using root(1) ptr_at_strip by metis
  have "wf_node W N k d n \<longleftrightarrow> wf_node W N k d (ot_root s)" for W N k d using root(1) wf_strip by metis
  then show ?thesis using inv root(2) hash by (simp add: o_inv_def o_step_def o_leaf_def o_contents_def ptr)
qed

lemma kids_SetDirty [simp]: "kids_cached C L (SetDirty b n) = kids_cached C L n"
  by (cases n) simp_all

lemma cached_SetDirty: "cached C L n \<Longrightarrow> cached C L (SetDirty b n)"
  by (cases n) simp_all

lemma o_SetDirty: "o_inv C s \<Longrightarrow> o_step C s (s\<lparr>ot_root := SetDirty b (ot_root s)\<rparr>) \<and> o_contents (s\<lparr>ot_root := SetDirty b (ot_root s)\<rparr>) = o_contents s"
  by (rule o_root_change) (simp_all add: o_inv_def cached_SetDirty)

lemma kids_hashed:
  assumes "\<forall>m. Some m \<in> set ch \<longrightarrow> cached C L m"
  shows "map (map_option strip) (map (map_option snd) (map (map_option (opt_Hash C L)) ch)) = map (map_option strip) ch"
    "\<forall>m. Some m \<in> set (map (map_option snd) (map (map_option (opt_Hash C L)) ch)) \<longrightarrow> cached C L m"
proof -
  show "map (map_option strip) (map (map_option snd) (map (map_option (opt_Hash C L)) ch)) = map (map_option strip) ch"
    unfolding map_map option.map_comp comp_def by (rule kids_map_cong) (rule strip_Hash)
  have "map (map_option snd) (map (map_option (opt_Hash C L)) ch) = map (map_option (\<lambda>m. snd (opt_Hash C L m))) ch"
    by (simp add: option.map_comp comp_def)
  then have "\<exists>x. Some x \<in> set ch \<and> m = snd (opt_Hash C L x)" if "Some m \<in> set (map (map_option snd) (map (map_option (opt_Hash C L)) ch))" for m
    using that by (auto simp: map_option_case split: option.splits)
  then show "\<forall>m. Some m \<in> set (map (map_option snd) (map (map_option (opt_Hash C L)) ch)) \<longrightarrow> cached C L m"
    using assms Hash_cached by blast
qed

lemma o_compute:
  assumes inv: "o_inv C s"
  shows "o_step C s (fst (computeKZGForRoot C s)) \<and> o_contents (fst (computeKZGForRoot C s)) = o_contents s"
proof (cases "of_HashOnly (ot_config s) \<or> \<not> of_KZG (ot_config s)")
  case True
  then show ?thesis using o_SetDirty [OF inv] by (simp add: computeKZGForRoot_def)
next
  case False
  from o_root_node [OF inv] obtain ch c dirty where n: "ot_root s = InternalNode ch c 0 dirty" by blast
  have "\<forall>m. Some m \<in> set ch \<longrightarrow> cached C (ot_leaves s) m" using inv by (simp add: o_inv_def n)
  note k = kids_hashed [OF this]
  let ?ch = "map (map_option snd) (map (map_option (opt_Hash C (ot_leaves s))) ch)"
  have "kids_cached C (ot_leaves s) (InternalNode ?ch c' 0 b)" for c' b using k(2) by (simp only: kids_cached.simps kids_simps)
  moreover have "strip (InternalNode ?ch c' 0 b) = strip (ot_root s)" for c' b unfolding n strip.simps k(1) ..
  ultimately have change: "o_step C s (s\<lparr>ot_root := InternalNode ?ch c' 0 b\<rparr>) \<and> o_contents (s\<lparr>ot_root := InternalNode ?ch c' 0 b\<rparr>) = o_contents s" for c' b
    using o_root_change [OF inv] False by blast
  show ?thesis using False unfolding computeKZGForRoot_def n Let_def by (simp add: change del: map_map split: option.split)
qed

lemma o_GetRoot:
  assumes inv: "o_inv C s"
  shows "o_step C s (snd (opt_GetRoot C s)) \<and> o_contents (snd (opt_GetRoot C s)) = o_contents s"
    "of_HashOnly (ot_config s) \<Longrightarrow> fst (opt_GetRoot C s) = users_root C TreeDepth 0 (dom (o_contents s))"
proof -
  from o_root_node [OF inv] obtain ch c dirty where n: "ot_root s = InternalNode ch c 0 dirty" by blast
  have kids: "\<forall>m. Some m \<in> set ch \<longrightarrow> cached C (ot_leaves s) m" using inv by (simp add: o_inv_def n)
  have "kids_cached C (ot_leaves s) (snd (opt_Hash C (ot_leaves s) (ot_root s)))"
  proof (cases c)
    case None
    then show ?thesis using kids_hashed(2) [OF kids] unfolding n by (simp add: Let_def del: map_map set_map)
  qed (use kids in \<open>simp add: n\<close>)
  moreover have "of_HashOnly (ot_config s) \<Longrightarrow> cached C (ot_leaves s) (snd (opt_Hash C (ot_leaves s) (ot_root s)))"
    using inv Hash_cached [of C] by (simp add: o_inv_def)
  ultimately show "o_step C s (snd (opt_GetRoot C s)) \<and> o_contents (snd (opt_GetRoot C s)) = o_contents s"
    using o_root_change [OF inv strip_Hash [of C "ot_leaves s"]] by (simp add: opt_GetRoot_def case_prod_beta)
  show "fst (opt_GetRoot C s) = users_root C TreeDepth 0 (dom (o_contents s))" if "of_HashOnly (ot_config s)"
    using that inv Hash_cached [of C] o_root_hash [OF inv] by (simp add: opt_GetRoot_def case_prod_beta o_inv_def)
qed

definition o_work :: "('f, 'g, 'o) opt_crypto \<Rightarrow> opt_tree \<Rightarrow> opt_tree \<Rightarrow> bool" where
  "o_work C s s' \<longleftrightarrow> o_inv C s' \<and> ot_config s' = ot_config s \<and> ot_dataStore s' = ot_dataStore s \<and> ot_closed s' = ot_closed s
    \<and> o_contents s' = o_contents s"

lemma queue_inv: "o_inv C (s\<lparr>ot_queue := q\<rparr>) = o_inv C s" "o_contents (s\<lparr>ot_queue := q\<rparr>) = o_contents s"
  by (simp_all add: o_inv_def o_leaf_def o_contents_def)

lemma o_worker: "o_inv C s \<Longrightarrow> o_work C s (opt_commitWorker C s)"
  using o_compute [of C s] by (simp add: opt_commitWorker_def o_work_def o_step_def queue_inv)

lemma o_enqueue:
  assumes "o_inv C s" "\<not> ot_closed s"
  shows "\<exists>s'. enqueue_commit C s = ODone s' \<and> o_work C s s'"
  using assms o_compute [of C s] by (simp add: enqueue_commit_def o_work_def o_step_def queue_inv)

text \<open>The wait for the queue.\<close>

definition drain :: "('f, 'g, 'o) opt_crypto \<Rightarrow> opt_tree \<Rightarrow> opt_tree" where
  "drain C s = (opt_commitWorker C ^^ ot_queue s) s"

lemma queue_compute: "ot_queue (fst (computeKZGForRoot C s)) = ot_queue s"
  by (simp add: computeKZGForRoot_def Let_def split: verkle_node.split option.split)

lemma drained: "ot_queue (drain C s) = 0"
proof -
  have "ot_queue ((opt_commitWorker C ^^ n) s) = ot_queue s - n" for n
    by (induction n) (simp_all add: opt_commitWorker_def queue_compute)
  then show ?thesis by (simp add: drain_def)
qed

lemma o_drain: "o_inv C s \<Longrightarrow> o_work C s (drain C s)"
proof -
  assume inv: "o_inv C s"
  have "o_work C s ((opt_commitWorker C ^^ n) s)" for n
  proof (induction n)
    case (Suc n)
    then show ?case using o_worker [of C "(opt_commitWorker C ^^ n) s"] by (simp add: o_work_def)
  qed (use inv in \<open>simp add: o_work_def\<close>)
  then show ?thesis by (simp add: drain_def)
qed

subsection \<open>Reads\<close>

lemma o_get:
  assumes inv: "o_inv C s" and store: "ot_dataStore s = None"
  shows "\<exists>s'. opt_get u s = ((case o_contents s u of None \<Rightarrow> Inl OptKeyNotFound | Some d \<Rightarrow> Inr d), s') \<and> o_work C s s'"
proof -
  have cache: "\<And>v q. map_of (nc_list (ot_cache s)) v = Some q \<Longrightarrow> map_of (ot_nodeIndex s) v = Some q" using inv by (simp add: o_inv_def)
  have data: "vl_hasData (ot_leaves s ! p)" if "map_of (ot_nodeIndex s) v = Some p" for v p
    using inv that by (simp add: o_inv_def o_leaf_def)
  have keep: "o_work C s (s\<lparr>ot_cache := nc\<rparr>)" if "\<And>v q. map_of (nc_list nc) v = Some q \<Longrightarrow> map_of (ot_nodeIndex s) v = Some q" for nc
    using inv that by (simp add: o_work_def o_inv_def o_leaf_def o_contents_def)
  let ?nc = "snd (nc_Get u (ot_cache s))"
  have nc: "map_of (nc_list ?nc) v = Some q \<Longrightarrow> map_of (ot_nodeIndex s) v = Some q" for v q using cache by (simp add: nc_list_Get)
  have hit: "fst (nc_Get u (ot_cache s)) = map_of (nc_list (ot_cache s)) u" by (simp add: nc_Get_def split: option.split)
  show ?thesis
  proof (cases "map_of (ot_nodeIndex s) u")
    case None
    then have "map_of (nc_list (ot_cache s)) u = None" using cache [of u] by (cases "map_of (nc_list (ot_cache s)) u") auto
    then have "opt_get u s = (Inl OptKeyNotFound, s\<lparr>ot_cache := ?nc\<rparr>)"
      using hit None by (simp add: opt_get_def Let_def case_prod_beta)
    then show ?thesis using keep [OF nc] None by (simp add: o_contents_def)
  next
    case (Some p)
    have val: "(case o_contents s u of None \<Rightarrow> Inl OptKeyNotFound | Some d \<Rightarrow> Inr d) = (Inr (vl_inMemoryData (ot_leaves s ! p)) :: opt_error + bytes option)"
      by (simp add: o_contents_def Some)
    show ?thesis
    proof (cases "map_of (nc_list (ot_cache s)) u")
      case None
      then have "opt_get u s = (Inr (vl_inMemoryData (ot_leaves s ! p)), s\<lparr>ot_cache := nc_Put u p ?nc\<rparr>)"
        using hit Some data [OF Some] store by (simp add: opt_get_def Let_def case_prod_beta opt_leaf_value_def)
      moreover have "map_of (nc_list (nc_Put u p ?nc)) v = Some q \<Longrightarrow> map_of (ot_nodeIndex s) v = Some q" for v q
        using nc_list_Put [of u p ?nc v q] nc [of v q] Some by auto
      ultimately show ?thesis using keep val by auto
    next
      case c: (Some p')
      then have "p' = p" using cache [OF c] Some by simp
      then have "opt_get u s = (Inr (vl_inMemoryData (ot_leaves s ! p)), s\<lparr>ot_cache := ?nc\<rparr>)"
        using hit c data [OF Some] store by (simp add: opt_get_def Let_def case_prod_beta opt_leaf_value_def)
      then show ?thesis using keep [OF nc] val by auto
    qed
  qed
qed

subsection \<open>Runs\<close>

datatype opt_op = OInsert bytes "bytes option" | OCommit "(bytes \<times> bytes option) list" | OWork | OGet bytes | OGetRoot | OFinalRoot
datatype opt_reply = OAck | ORefused opt_error | ORoot "bytes option" | OValue "opt_error + bytes option"

text \<open>A batch of what \<^verbatim>\<open>Add\<close> takes.\<close>

definition fill_batch :: "('f, 'g, 'o) opt_crypto \<Rightarrow> (bytes \<times> bytes option) list \<Rightarrow> opt_batch" where
  "fill_batch C xs = foldl (\<lambda>b (userID, data). case opt_Batch_Add C userID data b of ODone b' \<Rightarrow> b' | _ \<Rightarrow> b) NewBatch xs"

fun opt_step :: "('f, 'g, 'o) opt_crypto \<Rightarrow> opt_op \<Rightarrow> opt_tree \<Rightarrow> (opt_reply \<times> opt_tree) opt_result" where
  "opt_step C (OInsert userID data) s = (case opt_Insert C userID data s of
     ODone s' \<Rightarrow> ODone (OAck, s') | OErr err \<Rightarrow> ODone (ORefused err, s) | OBlocked \<Rightarrow> OBlocked | OPanic \<Rightarrow> OPanic)"
| "opt_step C (OCommit xs) s = (case opt_CommitBatch C (fill_batch C xs) s of
     ODone (r, s') \<Rightarrow> ODone (ORoot r, s') | OErr err \<Rightarrow> OErr err | OBlocked \<Rightarrow> OBlocked | OPanic \<Rightarrow> OPanic)"
| "opt_step C OWork s = ODone (OAck, opt_commitWorker C s)"
| "opt_step C (OGet userID) s = (case opt_Get C userID s of (r, s') \<Rightarrow> ODone (OValue r, s'))"
| "opt_step C OGetRoot s = (case opt_GetRoot C s of (r, s') \<Rightarrow> ODone (ORoot (Some r), s'))"
| "opt_step C OFinalRoot s = (case opt_GetFinalRoot C (drain C s) of
     ODone (r, s') \<Rightarrow> ODone (ORoot r, s') | OErr err \<Rightarrow> OErr err | OBlocked \<Rightarrow> OBlocked | OPanic \<Rightarrow> OPanic)"

fun opt_run :: "('f, 'g, 'o) opt_crypto \<Rightarrow> opt_op list \<Rightarrow> opt_tree \<Rightarrow> (opt_reply list \<times> opt_tree) opt_result" where
  "opt_run C [] s = ODone ([], s)"
| "opt_run C (x # xs) s = (case opt_step C x s of
     ODone (r, s') \<Rightarrow> map_opt_result (\<lambda>(rs, s). (r # rs, s)) (opt_run C xs s')
   | OErr err \<Rightarrow> OErr err | OBlocked \<Rightarrow> OBlocked | OPanic \<Rightarrow> OPanic)"

text \<open>The same over a map from users to data.\<close>

definition small :: "bytes option \<Rightarrow> bool" where
  "small data \<longleftrightarrow> (case data of None \<Rightarrow> 0 | Some x \<Rightarrow> length x) \<le> MaxValueSize"

definition put_user :: "('f, 'g, 'o) opt_crypto \<Rightarrow> (bytes \<rightharpoonup> bytes option) \<Rightarrow> bytes \<times> bytes option \<Rightarrow> (bytes \<rightharpoonup> bytes option)" where
  "put_user C m x = m(opt_HashUserID C (fst x) \<mapsto> snd x)"

definition put_all :: "('f, 'g, 'o) opt_crypto \<Rightarrow> (bytes \<times> bytes option) list \<Rightarrow> (bytes \<rightharpoonup> bytes option) \<Rightarrow> (bytes \<rightharpoonup> bytes option)" where
  "put_all C xs m = foldl (put_user C) m (filter (small \<circ> snd) xs)"

definition map_root :: "('f, 'g, 'o) opt_crypto \<Rightarrow> (bytes \<rightharpoonup> bytes option) \<Rightarrow> opt_reply" where
  "map_root C m = ORoot (Some (users_root C TreeDepth 0 (dom m)))"

fun data_step :: "('f, 'g, 'o) opt_crypto \<Rightarrow> opt_op \<Rightarrow> (bytes \<rightharpoonup> bytes option) \<Rightarrow> opt_reply \<times> (bytes \<rightharpoonup> bytes option)" where
  "data_step C (OInsert userID data) m =
    (if small data then (OAck, m(opt_HashUserID C userID \<mapsto> data)) else (ORefused OptValueTooLarge, m))"
| "data_step C (OCommit xs) m = (map_root C (put_all C xs m), put_all C xs m)"
| "data_step C OWork m = (OAck, m)"
| "data_step C (OGet userID) m = (OValue (case m (opt_HashUserID C userID) of None \<Rightarrow> Inl OptKeyNotFound | Some d \<Rightarrow> Inr d), m)"
| "data_step C OGetRoot m = (map_root C m, m)"
| "data_step C OFinalRoot m = (map_root C m, m)"

fun data_run :: "('f, 'g, 'o) opt_crypto \<Rightarrow> opt_op list \<Rightarrow> (bytes \<rightharpoonup> bytes option) \<Rightarrow> opt_reply list" where
  "data_run C [] m = []"
| "data_run C (x # xs) m = (case data_step C x m of (r, m') \<Rightarrow> r # data_run C xs m')"

fun op_users :: "('f, 'g, 'o) opt_crypto \<Rightarrow> opt_op \<Rightarrow> bytes set" where
  "op_users C (OInsert userID data) = {opt_HashUserID C userID}"
| "op_users C (OCommit xs) = opt_HashUserID C ` fst ` set xs"
| "op_users C _ = {}"

subsection \<open>The agreement\<close>

lemma fill_entries: "\<not> ob_closed b \<Longrightarrow> (\<And>x. x \<in> set xs \<Longrightarrow> True) \<Longrightarrow>
  ob_entries (foldl (\<lambda>b (userID, data). case opt_Batch_Add C userID data b of ODone b' \<Rightarrow> b' | _ \<Rightarrow> b) b xs) =
    ob_entries b @ map (\<lambda>(userID, data). (opt_HashUserID C userID, data)) (filter (small \<circ> snd) xs)"
  by (induction xs arbitrary: b) (auto simp: opt_Batch_Add_def small_def not_less split: opt_result.split)

lemma fill_batch: "ob_entries (fill_batch C xs) = map (\<lambda>(userID, data). (opt_HashUserID C userID, data)) (filter (small \<circ> snd) xs)"
  unfolding fill_batch_def by (subst fill_entries) (simp_all add: NewBatch_def)

lemma hash_length: "length (opt_HashUserID C x) = 32"
  by (simp add: opt_HashUserID_def)

lemma put_user_pair: "put_user C m (y, data) = m(opt_HashUserID C y \<mapsto> data)"
  by (simp add: put_user_def)

lemma put_all_dom: "dom (put_all C xs m) \<subseteq> dom m \<union> opt_HashUserID C ` fst ` set xs"
proof -
  have "dom (foldl (put_user C) m ys) \<subseteq> dom m \<union> opt_HashUserID C ` fst ` set ys" for ys
  proof (induction ys arbitrary: m)
    case (Cons y ys)
    have "dom (put_user C m y) = insert (opt_HashUserID C (fst y)) (dom m)" by (simp add: put_user_def)
    then show ?case using Cons.IH [of "put_user C m y"] by auto
  qed simp
  from this [of "filter (small \<circ> snd) xs"] have "dom (put_all C xs m) \<subseteq> dom m \<union> opt_HashUserID C ` fst ` set (filter (small \<circ> snd) xs)"
    unfolding put_all_def .
  moreover have "set (filter (small \<circ> snd) xs) \<subseteq> set xs" by simp
  ultimately show ?thesis by blast
qed

lemma apart_mono: "apart V \<Longrightarrow> U \<subseteq> V \<Longrightarrow> apart U"
  unfolding apart_def by (rule inj_on_subset)

lemma o_insert_all:
  assumes "o_inv C s" "apart (dom (o_contents s) \<union> opt_HashUserID C ` fst ` set xs)"
  shows "let s' = foldl (\<lambda>s (u, data). opt_insert C u data s) s (map (\<lambda>(userID, data). (opt_HashUserID C userID, data)) xs)
    in o_step C s s' \<and> o_contents s' = foldl (put_user C) (o_contents s) xs"
  using assms
proof (induction xs arbitrary: s)
  case (Cons x xs)
  obtain y data where x: "x = (y, data)" by fastforce
  let ?s = "opt_insert C (opt_HashUserID C y) data s"
  have "apart (insert (opt_HashUserID C y) (dom (o_contents s)))" by (rule apart_mono [OF Cons.prems(2)]) (auto simp: x)
  note one = o_insert [OF Cons.prems(1) hash_length this, of data]
  have "o_inv C ?s" "dom (o_contents ?s) \<subseteq> insert (opt_HashUserID C y) (dom (o_contents s))" using one by (auto simp: o_step_def)
  then have "let s' = foldl (\<lambda>s (u, data). opt_insert C u data s) ?s (map (\<lambda>(userID, data). (opt_HashUserID C userID, data)) xs)
    in o_step C ?s s' \<and> o_contents s' = foldl (put_user C) (o_contents ?s) xs"
    by (intro Cons.IH apart_mono [OF Cons.prems(2)]) (auto simp: x)
  then show ?case using one by (simp add: x Let_def o_step_def put_user_pair)
qed (simp add: o_step_def)

definition hash_only :: "opt_tree \<Rightarrow> bool" where
  "hash_only s \<longleftrightarrow> of_HashOnly (ot_config s) \<and> of_AsyncMode (ot_config s) \<and> ot_dataStore s = None \<and> \<not> ot_closed s"

lemma hash_only_step: "hash_only s \<Longrightarrow> o_step C s s' \<Longrightarrow> hash_only s'" "hash_only s \<Longrightarrow> o_work C s s' \<Longrightarrow> hash_only s'"
  by (simp_all add: hash_only_def o_step_def o_work_def)

lemma step_agrees:
  assumes inv: "o_inv C s" "hash_only s" and ap: "apart (dom (o_contents s) \<union> op_users C x)"
  shows "\<exists>s'. opt_step C x s = ODone (fst (data_step C x (o_contents s)), s') \<and> o_inv C s' \<and> hash_only s'
    \<and> o_contents s' = snd (data_step C x (o_contents s))"
proof (cases x)
  case (OInsert y data)
  show ?thesis
  proof (cases "small data")
    case True
    let ?u = "opt_HashUserID C y" and ?s = "opt_insert C (opt_HashUserID C y) data s"
    have "apart (insert ?u (dom (o_contents s)))" by (rule apart_mono [OF ap]) (auto simp: OInsert)
    note one = o_insert [OF inv(1) hash_length this, of data]
    then have s: "o_inv C ?s" "\<not> ot_closed ?s" "hash_only ?s" using inv(2) hash_only_step(1) by (auto simp: o_step_def hash_only_def)
    from o_enqueue [OF s(1,2)] obtain s' where s': "enqueue_commit C ?s = ODone s'" "o_work C ?s s'" by blast
    have store: "s\<lparr>ot_dataStore := map_option f (ot_dataStore s)\<rparr> = s" for f using inv(2) by (cases s) (simp add: hash_only_def)
    have "opt_Insert C y data s = ODone s'" using True s(3) s'(1) by (simp add: opt_Insert_def small_def store Let_def hash_only_def)
    then show ?thesis using True s'(2) one hash_only_step(2) [OF s(3) s'(2)] by (simp add: OInsert o_work_def)
  qed (simp add: OInsert opt_Insert_def small_def inv)
next
  case (OCommit xs)
  let ?es = "map (\<lambda>(userID, data). (opt_HashUserID C userID, data)) (filter (small \<circ> snd) xs)"
  let ?s = "foldl (\<lambda>s (u, data). opt_insert C u data s) s ?es"
  have all: "o_step C s ?s \<and> o_contents ?s = put_all C xs (o_contents s)"
  proof -
    have "dom (o_contents s) \<union> opt_HashUserID C ` fst ` set (filter (small \<circ> snd) xs) \<subseteq> dom (o_contents s) \<union> op_users C x"
      unfolding OCommit op_users.simps set_filter by blast
    from o_insert_all [OF inv(1) apart_mono [OF ap this]] show ?thesis unfolding put_all_def Let_def .
  qed
  then have s: "o_inv C ?s" "hash_only ?s" using hash_only_step(1) [OF inv(2)] by (auto simp: o_step_def)
  show ?thesis
  proof (cases "?es = []")
    case True
    then have "put_all C xs (o_contents s) = o_contents s" by (simp add: put_all_def)
    then show ?thesis using True inv o_root_hash [OF inv(1)]
      by (simp add: OCommit opt_CommitBatch_def fill_batch map_root_def)
  next
    case False
    let ?s2 = "?s\<lparr>ot_root := SetDirty True (ot_root ?s)\<rparr>"
    have s2: "o_inv C ?s2" "\<not> ot_closed ?s2" "hash_only ?s2" "o_contents ?s2 = o_contents ?s"
      using o_SetDirty [OF s(1), of True] s(2) by (auto simp: o_step_def hash_only_def)
    from o_enqueue [OF s2(1,2)] obtain s3 where s3: "enqueue_commit C ?s2 = ODone s3" "o_work C ?s2 s3" by blast
    have "opt_CommitBatch C (fill_batch C xs) s = ODone (Some (Blake3Hash C (ot_leaves s3) (ot_root s3)), s3)"
      using False s2(3) s3(1) unfolding opt_CommitBatch_def fill_batch Let_def by (simp add: hash_only_def)
    moreover have "o_inv C s3" "hash_only s3" "o_contents s3 = put_all C xs (o_contents s)"
      using s3(2) hash_only_step(2) [OF s2(3) s3(2)] s2(4) all by (simp_all add: o_work_def)
    ultimately show ?thesis using o_root_hash [of C s3] by (simp add: OCommit map_root_def)
  qed
next
  case OWork
  then show ?thesis using o_worker [OF inv(1)] hash_only_step(2) [OF inv(2)] by (simp add: o_work_def)
next
  case (OGet y)
  from o_get [OF inv(1), of "opt_HashUserID C y"] inv(2) obtain s' where
    "opt_get (opt_HashUserID C y) s = ((case o_contents s (opt_HashUserID C y) of None \<Rightarrow> Inl OptKeyNotFound | Some d \<Rightarrow> Inr d), s')"
    "o_work C s s'" by (auto simp: hash_only_def)
  then show ?thesis using hash_only_step(2) [OF inv(2)] by (auto simp: OGet opt_Get_def o_work_def)
next
  case OGetRoot
  let ?s = "snd (opt_GetRoot C s)"
  have "opt_GetRoot C s = (users_root C TreeDepth 0 (dom (o_contents s)), ?s)"
    using o_GetRoot(2) [OF inv(1)] inv(2) by (simp add: hash_only_def prod_eq_iff)
  then have "opt_step C x s = ODone (map_root C (o_contents s), ?s)" unfolding OGetRoot opt_step.simps map_root_def by (metis case_prod_conv)
  then show ?thesis using o_GetRoot(1) [OF inv(1)] hash_only_step(1) [OF inv(2)] by (auto simp: OGetRoot o_step_def)
next
  case OFinalRoot
  note d = o_drain [OF inv(1)]
  then have i: "o_inv C (drain C s)" "hash_only (drain C s)" "o_contents (drain C s) = o_contents s"
    using hash_only_step(2) [OF inv(2)] by (auto simp: o_work_def)
  have "opt_GetFinalRoot C (drain C s) = ODone (Some (Blake3Hash C (ot_leaves (drain C s)) (ot_root (drain C s))), drain C s)"
    using i(2) drained [of C s] by (simp add: opt_GetFinalRoot_def hash_only_def)
  then show ?thesis using i o_root_hash [OF i(1)] by (simp add: OFinalRoot map_root_def)
qed

lemma step_dom: "dom (snd (data_step C x m)) \<subseteq> dom m \<union> op_users C x"
  using put_all_dom [of C _ m] by (cases x) auto

lemma run_agrees:
  assumes "o_inv C s" "hash_only s" "apart (dom (o_contents s) \<union> (\<Union>x\<in>set xs. op_users C x))"
  shows "\<exists>s'. opt_run C xs s = ODone (data_run C xs (o_contents s), s')"
  using assms
proof (induction xs arbitrary: s)
  case (Cons x xs)
  have "apart (dom (o_contents s) \<union> op_users C x)" by (rule apart_mono [OF Cons.prems(3)]) auto
  from step_agrees [OF Cons.prems(1,2) this] obtain s1 where
    s1: "opt_step C x s = ODone (fst (data_step C x (o_contents s)), s1)" "o_inv C s1" "hash_only s1"
      "o_contents s1 = snd (data_step C x (o_contents s))" by blast
  have "apart (dom (o_contents s1) \<union> (\<Union>x\<in>set xs. op_users C x))"
    unfolding s1(4) by (rule apart_mono [OF Cons.prems(3)]) (use step_dom [of C x "o_contents s"] in auto)
  from Cons.IH [OF s1(2,3) this] obtain s2 where "opt_run C xs s1 = ODone (data_run C xs (o_contents s1), s2)" by blast
  then show ?case using s1 by (simp add: case_prod_beta)
qed simp

lemma New_o_inv: "mask_ok cfg \<Longrightarrow> o_inv C (opt_New cfg store)" "o_contents (opt_New cfg store) = Map.empty"
proof -
  assume mask: "mask_ok cfg"
  have "ptr_at (NewInternalNode 0) q = None" for q unfolding new_shape by (cases q) (simp_all add: new_internal_def)
  moreover have "wf_node NodeWidth 0 TreeDepth 0 (NewInternalNode 0)" unfolding depth(1) new_shape wf_new_internal by simp
  moreover have "cached C [] (NewInternalNode 0)" by (simp add: NewInternalNode_def)
  ultimately show "o_inv C (opt_New cfg store)"
    using mask by (simp add: o_inv_def opt_New_def NewLRUCache_def leaf_hashes_ok_def cached_kids)
qed (simp add: o_contents_def opt_New_def)

end
