(* ===== verification/OptimizedTheorems.thy ===== *)
theory OptimizedTheorems
  imports OptimizedRuns
begin

text \<open>
  The fixed-shape Verkle tree as a whole: runs against a map, what a genuine proof is worth, and what else the
  verification accepts.
\<close>

subsection \<open>Runs\<close>

definition sample_oc :: "(bytes, bytes, bytes) opt_crypto" where
  "sample_oc = \<lparr>oc_blake3 = (\<lambda>bs. take 32 (bs @ replicate 32 7)), oc_SetBytes = (\<lambda>bs. bs), oc_SetUint64 = (\<lambda>w. be_bytes 8 w),
    oc_zero = zero32, oc_Commit = (\<lambda>fs. Some (concat fs)), oc_Marshal = (\<lambda>g. 1 # g), oc_Unmarshal = (\<lambda>bs. Some (tl bs)), oc_Open = (\<lambda>fs x. Some x),
    oc_opening_bytes = (\<lambda>a b. a @ b), oc_Verify = (\<lambda>g a x. a = x)\<rparr>"

lemma sample_user: "opt_HashUserID sample_oc (replicate 32 b) = replicate 32 b"
  by (simp add: opt_HashUserID_def sample_oc_def arr32_def)

text \<open>C7. A tree without KZG is a map from users to data, as long as no two users have the same first eight
  masked bytes: insertions of at most 8 KB take effect, larger ones are refused, a read returns the last data
  of the user, and every root, also the one of a batch and the final one, is the hash that a recursive
  definition computes from the set of users, whatever the commit workers have done in between.\<close>

theorem optimized_refines_map:
  assumes "apart (\<Union>x\<in>set xs. op_users C x)"
  shows "\<exists>s. opt_run C xs (opt_New (NewConfigHashOnly procs) None) = ODone (data_run C xs Map.empty, s)"
proof -
  have mask: "mask_ok (NewConfigHashOnly procs)" by (simp add: mask_ok_def NewConfigHashOnly_def)
  have "hash_only (opt_New (NewConfigHashOnly procs) None)" by (simp add: hash_only_def opt_New_def NewConfigHashOnly_def)
  from run_agrees [OF New_o_inv(1) [OF mask] this] show ?thesis using assms by (simp add: New_o_inv(2))
qed

lemma optimized_refines_map_witness:
  "\<exists>r s. opt_run sample_oc [OInsert (replicate 32 1) (Some [5]), OGet (replicate 32 1), OCommit [(replicate 32 1, Some [6])],
      OGet (replicate 32 1), OFinalRoot] (opt_New (NewConfigHashOnly 1) None) =
    ODone ([OAck, OValue (Inr (Some [5])), ORoot (Some r), OValue (Inr (Some [6])), ORoot (Some r)], s)"
proof -
  let ?xs = "[OInsert (replicate 32 1) (Some [5]), OGet (replicate 32 1), OCommit [(replicate 32 1, Some [6])],
      OGet (replicate 32 1), OFinalRoot]"
  have "(\<Union>x\<in>set ?xs. op_users sample_oc x) = {replicate 32 1}" by (simp add: sample_user)
  then have "apart (\<Union>x\<in>set ?xs. op_users sample_oc x)" by (simp add: apart_def)
  from optimized_refines_map [OF this, of 1] obtain s where
    s: "opt_run sample_oc ?xs (opt_New (NewConfigHashOnly 1) None) = ODone (data_run sample_oc ?xs Map.empty, s)" by blast
  have "data_run sample_oc ?xs Map.empty = [OAck, OValue (Inr (Some [5])), ORoot (Some (users_root sample_oc TreeDepth 0 {replicate 32 1})),
      OValue (Inr (Some [6])), ORoot (Some (users_root sample_oc TreeDepth 0 {replicate 32 1}))]"
    by (simp only: data_run.simps data_step.simps put_all_def sample_user map_root_def filter.simps)
      (simp add: small_def MaxValueSize_def put_user_def sample_user)
  then show ?thesis using s by (intro exI) (simp only: s)
qed

subsection \<open>Genuine proofs\<close>

text \<open>What the proofs rely on: digests of 32 bytes, and the laws of the commitment scheme.\<close>

definition kzg_laws :: "('f, 'g, 'o) opt_crypto \<Rightarrow> bool" where
  "kzg_laws C \<longleftrightarrow> (\<forall>x. length (oc_blake3 C x) = 32) \<and> oc_SetBytes C zero32 = oc_zero C
    \<and> (\<forall>vs x. length vs = NodeWidth \<longrightarrow> (\<exists>g a. oc_Commit C vs = Some g \<and> oc_Open C vs x = Some a \<and> oc_Verify C g a x))
    \<and> (\<forall>g. oc_Unmarshal C (oc_Marshal C g) = Some g \<and> oc_Marshal C g \<noteq> [])"

definition level_good :: "('f, 'g, 'o) opt_crypto \<Rightarrow> bytes \<Rightarrow> bytes list \<Rightarrow> bool" where
  "level_good C h hs \<longleftrightarrow> length hs = NodeWidth \<and> (\<forall>x\<in>set hs. length x = 32) \<and> level_hash C hs = h"

lemma level_hash_full:
  assumes "length hs = NodeWidth" "\<forall>x\<in>set hs. length x = 32"
  shows "level_hash C hs = oc_blake3 C (concat hs)"
proof -
  have "map (\<lambda>i. if i < length hs \<and> 0 < length (hs ! i) then hs ! i else zero32) [0..<NodeWidth] = map ((!) hs) [0..<length hs]"
    using assms by (intro map_cong) auto
  then show ?thesis by (simp add: level_hash_def map_nth)
qed

lemma node_level:
  assumes laws: "kzg_laws C" and hashes: "leaf_hashes_ok C L" and w: "wf_node NodeWidth (length L) (Suc k) d n"
  shows "level_good C (Blake3Hash C L n) (children_hashes C L n)"
proof -
  from w obtain ch c dirty where n: "n = InternalNode ch c d dirty" and len: "length ch = NodeWidth"
    and ch: "\<forall>m. Some m \<in> set ch \<longrightarrow> wf_node NodeWidth (length L) k (Suc d) m" by auto
  have "length (Blake3Hash C L m) = 32" if "Some m \<in> set ch" for m
  proof (cases m)
    case (LeafNode p)
    then have "p < length L" using ch that by (cases k) auto
    then show ?thesis using laws hashes by (simp add: LeafNode kzg_laws_def leaf_hashes_ok_def)
  qed (use laws in \<open>simp add: kzg_laws_def\<close>)
  then have h: "\<forall>x\<in>set (children_hashes C L n). length x = 32" by (auto simp: children_hashes_def n zero32_def split: option.split)
  have l: "length (children_hashes C L n) = NodeWidth" by (simp add: children_hashes_def n len)
  have "children_hashes C L n = map (\<lambda>x. case x of None \<Rightarrow> zero32 | Some h \<Rightarrow> h) (map (map_option (Blake3Hash C L)) ch)"
    by (auto simp: children_hashes_def n split: option.split)
  then have "Blake3Hash C L n = level_hash C (children_hashes C L n)"
    unfolding level_hash_full [OF l h] by (simp only: n Blake3Hash.simps)
  then show ?thesis using l h by (simp add: level_good_def)
qed

definition indices_good :: "int list \<Rightarrow> bool" where
  "indices_good ids \<longleftrightarrow> (\<forall>i\<in>set ids. 0 \<le> i \<and> i < int NodeWidth)"

text \<open>What the loop adds, and what it leaves.\<close>

lemma full_path_good:
  assumes laws: "kzg_laws C" and hashes: "leaf_hashes_ok C L" and mask: "mask_ok cfg"
  shows "wf_node NodeWidth (length L) (Suc k) d n \<Longrightarrow> ptr_at n (path_from opt_shape u d k @ [i]) \<noteq> None \<Longrightarrow>
    list_all2 (level_good C) (op_Path pr) (op_ChildrenHashes pr) \<Longrightarrow> indices_good (op_PathIndices pr) \<Longrightarrow>
    \<exists>hs hss ids. full_path C cfg L u k d n pr = Some (pr\<lparr>op_Path := op_Path pr @ hs,
        op_ChildrenHashes := op_ChildrenHashes pr @ hss, op_PathIndices := op_PathIndices pr @ ids\<rparr>)
      \<and> list_all2 (level_good C) (op_Path pr @ hs) (op_ChildrenHashes pr @ hss) \<and> indices_good (op_PathIndices pr @ ids)
      \<and> (0 < k \<longrightarrow> ids \<noteq> [] \<and> hd ids = int (getNodeIndex opt_shape (u ! d)))"
proof (induction k arbitrary: d n pr)
  case 0
  then show ?case by (intro exI [of _ "[]"]) simp
next
  case (Suc k)
  let ?i = "getNodeIndex opt_shape (u ! d)"
  have here: "ptr_at n (?i # path_from opt_shape u (Suc d) k @ [i]) \<noteq> None" using Suc.prems(2) by simp
  from path_child [OF Suc.prems(1) here] obtain ch c dirty ch2 c2 dirty2 where
    n: "n = InternalNode ch c d dirty" "?i < length ch" "ch ! ?i = Some (InternalNode ch2 c2 (Suc d) dirty2)"
    and m: "wf_node NodeWidth (length L) (Suc k) (Suc d) (InternalNode ch2 c2 (Suc d) dirty2)"
      "ptr_at (InternalNode ch2 c2 (Suc d) dirty2) (path_from opt_shape u (Suc d) k @ [i]) = ptr_at n (?i # path_from opt_shape u (Suc d) k @ [i])"
    by blast
  note m = m(1) here [folded m(2)]
  let ?m = "InternalNode ch2 c2 (Suc d) dirty2"
  let ?p = "add_level C L ?m (pr\<lparr>op_PathIndices := op_PathIndices pr @ [int ?i]\<rparr>)"
  have "list_all2 (level_good C) (op_Path ?p) (op_ChildrenHashes ?p)"
    using Suc.prems(3) node_level [OF laws hashes m(1)] by (simp add: add_level_def list_all2_appendI)
  moreover have "indices_good (op_PathIndices ?p)"
    using Suc.prems(4) index_less [OF shape_ok, of "u ! d"] by (auto simp: add_level_def indices_good_def)
  ultimately obtain hs hss ids where
    r: "full_path C cfg L u k (Suc d) ?m ?p = Some (?p\<lparr>op_Path := op_Path ?p @ hs, op_ChildrenHashes := op_ChildrenHashes ?p @ hss,
        op_PathIndices := op_PathIndices ?p @ ids\<rparr>)"
      "list_all2 (level_good C) (op_Path ?p @ hs) (op_ChildrenHashes ?p @ hss)" "indices_good (op_PathIndices ?p @ ids)"
    using Suc.IH [OF m] by blast
  have "full_path C cfg L u (Suc k) d n pr = full_path C cfg L u k (Suc d) ?m ?p"
    by (simp add: n(1,3) Let_def index_shape [OF mask])
  then show ?case using r
    by (intro exI [of _ "Blake3Hash C L ?m # hs"] exI [of _ "children_hashes C L ?m # hss"] exI [of _ "int ?i # ids"])
      (simp add: add_level_def)
qed

lemma full_stem: "d + k \<le> StemSize \<Longrightarrow> full_path C cfg L (take StemSize u) k d n pr = full_path C cfg L u k d n pr"
  by (induction k arbitrary: d n pr) (simp_all add: Let_def stem_nth split: option.split verkle_node.split)

lemma values_of_hashes:
  assumes "kzg_laws C" "level_good C h (children_hashes C L n)"
  shows "map (\<lambda>i. if i < length (children_hashes C L n) \<and> 0 < length (children_hashes C L n ! i)
      then opt_hashToFieldElement C (children_hashes C L n ! i) else oc_zero C) [0..<NodeWidth] = root_values C L n"
proof (rule nth_equalityI)
  have len: "length (node_children n) = NodeWidth" using assms(2) by (simp add: level_good_def children_hashes_def)
  show "length (map (\<lambda>i. if i < length (children_hashes C L n) \<and> 0 < length (children_hashes C L n ! i)
      then opt_hashToFieldElement C (children_hashes C L n ! i) else oc_zero C) [0..<NodeWidth]) = length (root_values C L n)"
    by (simp add: root_values_def len)
  fix i assume "i < length (map (\<lambda>i. if i < length (children_hashes C L n) \<and> 0 < length (children_hashes C L n ! i)
      then opt_hashToFieldElement C (children_hashes C L n ! i) else oc_zero C) [0..<NodeWidth])"
  then have i: "i < NodeWidth" by simp
  then have "children_hashes C L n ! i \<in> set (children_hashes C L n)" using len by (simp add: children_hashes_def)
  then have "length (children_hashes C L n ! i) = 32" using assms(2) unfolding level_good_def by blast
  moreover have "opt_hashToFieldElement C zero32 = oc_zero C" using assms(1) by (simp add: opt_hashToFieldElement_def kzg_laws_def)
  ultimately show "map (\<lambda>i. if i < length (children_hashes C L n) \<and> 0 < length (children_hashes C L n ! i)
      then opt_hashToFieldElement C (children_hashes C L n ! i) else oc_zero C) [0..<NodeWidth] ! i = root_values C L n ! i"
    using i len by (cases "node_children n ! i") (auto simp: root_values_def children_hashes_def)
qed

lemma commit_ok: "kzg_laws C \<Longrightarrow> length vs = NodeWidth \<Longrightarrow> \<exists>g. oc_Commit C vs = Some g"
  unfolding kzg_laws_def by blast

lemma settled:
  assumes inv: "o_inv C s" and laws: "kzg_laws C"
  shows "\<exists>s'. settle_root C s = (s', True) \<and> o_step C s s' \<and> o_contents s' = o_contents s"
proof (cases "opt_IsDirty (ot_root s)")
  case True
  have "snd (computeKZGForRoot C s)"
  proof (cases "of_HashOnly (ot_config s) \<or> \<not> of_KZG (ot_config s)")
    case False
    from o_root_node [OF inv] obtain ch c dirty where n: "ot_root s = InternalNode ch c 0 dirty" "length ch = NodeWidth" by blast
    let ?vs = "map (\<lambda>x. case x of None \<Rightarrow> oc_zero C | Some (h, _) \<Rightarrow> opt_hashToFieldElement C h) (map (map_option (opt_Hash C (ot_leaves s))) ch)"
    have "length ?vs = NodeWidth" by (simp add: n(2))
    from commit_ok [OF laws this] obtain g where "oc_Commit C ?vs = Some g" ..
    then have "ComputeKZGCommitment C ?vs = Some (oc_Marshal C g)" by (simp add: ComputeKZGCommitment_def n(2) del: map_map)
    then show ?thesis using False by (simp add: computeKZGForRoot_def Let_def n(1) del: map_map)
  qed (simp add: computeKZGForRoot_def)
  then have "settle_root C s = (fst (computeKZGForRoot C s), True)" using True by (simp add: settle_root_def prod_eq_iff)
  then show ?thesis using o_compute [OF inv] by blast
next
  case False
  then show ?thesis using inv by (simp add: settle_root_def o_step_def)
qed

lemma path_verifies:
  assumes "list_all2 (level_good C) (op_Path pr) (op_ChildrenHashes pr)" "indices_good (op_PathIndices pr)" "op_Path pr \<noteq> []"
    "op_RootHash pr = Some (hd (op_Path pr))"
  shows "verifyBlake3Path C u pr cfg"
proof -
  have len: "length (op_Path pr) = length (op_ChildrenHashes pr)" using assms(1) by (rule list_all2_lengthD)
  have level: "level_good C (op_Path pr ! i) (op_ChildrenHashes pr ! i)" if "i < length (op_Path pr)" for i
    using assms(1) that by (rule list_all2_nthD)
  have "index_ok (op_PathIndices pr) i (op_ChildrenHashes pr ! i)" if i: "i < length (op_Path pr)" for i
  proof (cases "i < length (op_PathIndices pr)")
    case True
    then have idx: "0 \<le> op_PathIndices pr ! i" "op_PathIndices pr ! i < int NodeWidth" using assms(2) by (simp_all add: indices_good_def)
    then have "nat (op_PathIndices pr ! i) < length (op_ChildrenHashes pr ! i)" using level [OF i] by (simp add: level_good_def)
    then have "op_ChildrenHashes pr ! i ! nat (op_PathIndices pr ! i) \<in> set (op_ChildrenHashes pr ! i)" by simp
    then have "length (op_ChildrenHashes pr ! i ! nat (op_PathIndices pr ! i)) = 32" using level [OF i] unfolding level_good_def by blast
    then show ?thesis using idx level [OF i] by (simp add: index_ok_def level_good_def)
  qed (simp add: index_ok_def)
  then show ?thesis using level len assms(3,4) by (auto simp: verifyBlake3Path_def list_all_iff level_good_def hd_conv_nth)
qed

text \<open>What \<^verbatim>\<open>GenerateProof\<close> returns, and that it verifies.\<close>

lemma proof_of_user:
  assumes inv: "o_inv C s" and mode: "\<not> of_HashOnly (ot_config s)" and laws: "kzg_laws C"
  shows "\<exists>r s'. opt_GenerateProof C userID s = (r, s') \<and> o_contents s' = o_contents s \<and>
    (case o_contents s (opt_HashUserID C userID) of
       None \<Rightarrow> r = OErr OptKeyNotFound
     | Some data \<Rightarrow> \<exists>pr. r = ODone pr \<and> op_RootHash pr = Some (users_root C TreeDepth 0 (dom (o_contents s)))
         \<and> op_UserIDHashes pr = [opt_HashUserID C userID] \<and> VerifySingleProof C (Some pr) (ot_config s) = ODone True)"
proof -
  let ?u = "opt_HashUserID C userID"
  from settled [OF inv laws] obtain s1 where s1: "settle_root C s = (s1, True)" "o_step C s s1" "o_contents s1 = o_contents s" by blast
  then have i1: "o_inv C s1" and cfg: "ot_config s1 = ot_config s" by (simp_all add: o_step_def)
  have gen: "opt_GenerateProof C userID s = (generateSingleProof C userID s1, s1)" using mode s1(1) by (simp add: opt_GenerateProof_def)
  show ?thesis
  proof (cases "map_of (ot_nodeIndex s1) ?u")
    case None
    then have "o_contents s ?u = None" unfolding s1(3) [symmetric] by (simp add: o_contents_def)
    then show ?thesis using gen None s1(3) by (simp add: generateSingleProof_def)
  next
    case (Some p)
    let ?L = "ot_leaves s1" and ?cfg = "ot_config s1"
    have mask: "mask_ok ?cfg" and w: "wf_node NodeWidth (length ?L) (Suc 7) 0 (ot_root s1)" and hashes: "leaf_hashes_ok C ?L"
      and "\<forall>p<length ?L. o_leaf s1 p"
      and "map_of (ot_nodeIndex s1) ?u = Some p \<longleftrightarrow> p < length ?L \<and> vl_userIDHash (?L ! p) = ?u"
      using i1 unfolding o_inv_def depth(1) by blast+
    then have p: "vl_hasData (?L ! p)" "ptr_at (ot_root s1) (slot opt_shape ?u) = Some p"
      using Some unfolding o_leaf_def by fastforce+
    have slot: "slot opt_shape ?u = path_from opt_shape ?u 0 7 @ [getNodeIndex opt_shape (?u ! 7)]" by (rule slot_eq) (simp add: depth(1))
    have ptr: "ptr_at (ot_root s1) (path_from opt_shape ?u 0 7 @ [getNodeIndex opt_shape (?u ! 7)]) \<noteq> None"
      using p(2) unfolding slot by simp
    let ?empty = "\<lparr>op_UserIDs = [userID], op_UserIDHashes = [?u], op_Path = [], op_PathIndices = [],
                   op_ChildrenHashes = [], op_KZGOpeningProof = [], op_KZGCommitment = [], op_RootHash = None, op_IsBundled = False\<rparr>"
    let ?first = "add_level C ?L (ot_root s1) ?empty" and ?h = "Blake3Hash C ?L (ot_root s1)"
    have level: "level_good C ?h (children_hashes C ?L (ot_root s1))" by (rule node_level [OF laws hashes w])
    have "list_all2 (level_good C) (op_Path ?first) (op_ChildrenHashes ?first)" "indices_good (op_PathIndices ?first)"
      using level by (simp_all add: add_level_def indices_good_def)
    from full_path_good [OF laws hashes mask w ptr this] obtain hs hss ids where
      ex: "full_path C ?cfg ?L ?u 7 0 (ot_root s1) ?first = Some (?first\<lparr>op_Path := op_Path ?first @ hs,
          op_ChildrenHashes := op_ChildrenHashes ?first @ hss, op_PathIndices := op_PathIndices ?first @ ids\<rparr>)
        \<and> list_all2 (level_good C) (op_Path ?first @ hs) (op_ChildrenHashes ?first @ hss) \<and> indices_good (op_PathIndices ?first @ ids)
        \<and> ((0 :: nat) < 7 \<longrightarrow> ids \<noteq> [] \<and> hd ids = int (getNodeIndex opt_shape (?u ! 0)))" by (elim exE)
    note path = conjunct1 [OF ex] conjunct1 [OF conjunct2 [OF ex]] conjunct1 [OF conjunct2 [OF conjunct2 [OF ex]]]
      conjunct2 [OF conjunct2 [OF conjunct2 [OF ex]]]
    have ids: "ids \<noteq> []" "hd ids = int (getNodeIndex opt_shape (?u ! 0))" using path(4) by simp_all
    define pr where "pr = \<lparr>op_UserIDs = [userID], op_UserIDHashes = [?u], op_Path = ?h # hs, op_PathIndices = ids,
        op_ChildrenHashes = children_hashes C ?L (ot_root s1) # hss, op_KZGOpeningProof = [], op_KZGCommitment = [],
        op_RootHash = Some ?h, op_IsBundled = False\<rparr>"
    have collect: "collectFullProofPath C ?u s1 ?empty = Some pr"
      unfolding collectFullProofPath_def depth(2) using path(1) depth(3) by (simp add: full_stem add_level_def pr_def)
    let ?vals = "root_values C ?L (ot_root s1)" and ?point = "oc_SetUint64 C (of_nat (getNodeIndex opt_shape (?u ! 0)))"
    have "length ?vals = NodeWidth" using level by (simp add: root_values_def level_good_def children_hashes_def)
    then obtain g a where g: "oc_Commit C ?vals = Some g" "oc_Open C ?vals ?point = Some a" "oc_Verify C g a ?point"
      using laws unfolding kzg_laws_def by blast
    have kzg: "generateKZGProof C ?u s1 = Some (oc_opening_bytes C a (?vals ! getNodeIndex opt_shape (?u ! 0)), oc_Marshal C g)"
      using g by (simp add: generateKZGProof_def Let_def stem_nth StemSize_def index_shape [OF mask])
    define pr' where "pr' = (if of_KZG ?cfg then pr\<lparr>op_KZGOpeningProof := oc_opening_bytes C a (?vals ! getNodeIndex opt_shape (?u ! 0)),
        op_KZGCommitment := oc_Marshal C g\<rparr> else pr)"
    have r: "generateSingleProof C userID s1 = ODone pr'"
      using Some p(1) collect kzg by (simp add: generateSingleProof_def Let_def pr'_def)
    have fields: "op_Path pr' = ?h # hs" "op_ChildrenHashes pr' = children_hashes C ?L (ot_root s1) # hss" "op_PathIndices pr' = ids"
      "op_RootHash pr' = Some ?h" "op_UserIDs pr' = [userID]" "op_UserIDHashes pr' = [?u]" "\<not> op_IsBundled pr'"
      by (simp_all add: pr'_def pr_def)
    have "verifyBlake3Path C ?u pr' ?cfg"
      by (rule path_verifies) (use path(2,3) in \<open>simp_all add: fields add_level_def\<close>)
    moreover have "verifyKZGProof C pr' ?cfg" if "of_KZG ?cfg"
    proof -
      have "ids ! 0 = int (getNodeIndex opt_shape (?u ! 0))" using ids by (simp add: hd_conv_nth)
      moreover have "op_KZGCommitment pr' = oc_Marshal C g" using that by (simp add: pr'_def)
      moreover have "oc_Unmarshal C (oc_Marshal C g) = Some g" "oc_Marshal C g \<noteq> []" using laws by (simp_all add: kzg_laws_def)
      moreover have "op_ChildrenHashes pr' ! 0 = children_hashes C ?L (ot_root s1)" "op_ChildrenHashes pr' \<noteq> []"
        by (simp_all add: fields)
      ultimately show ?thesis using that g ids(1) values_of_hashes [OF laws level]
        by (simp add: verifyKZGProof_def fields(3) Let_def del: map_eq_conv)
    qed
    ultimately have "VerifySingleProof C (Some pr') ?cfg = ODone True" by (auto simp: VerifySingleProof_def fields)
    moreover have "o_contents s ?u \<noteq> None" unfolding s1(3) [symmetric] by (simp add: o_contents_def Some)
    moreover have "?h = users_root C TreeDepth 0 (dom (o_contents s))" using o_root_hash [OF i1] s1(3) by simp
    ultimately show ?thesis using gen r s1(3) fields cfg by auto
  qed
qed

text \<open>Every run of a tree with workers goes through.\<close>

definition data_map :: "('f, 'g, 'o) opt_crypto \<Rightarrow> opt_op list \<Rightarrow> (bytes \<rightharpoonup> bytes option) \<Rightarrow> (bytes \<rightharpoonup> bytes option)" where
  "data_map C xs m = foldl (\<lambda>m x. snd (data_step C x m)) m xs"

definition running :: "('f, 'g, 'o) opt_crypto \<Rightarrow> opt_tree \<Rightarrow> bool" where
  "running C s \<longleftrightarrow> o_inv C s \<and> of_AsyncMode (ot_config s) \<and> \<not> ot_closed s"

lemma running_step: "running C s \<Longrightarrow> o_step C s s' \<Longrightarrow> running C s'" "running C s \<Longrightarrow> o_work C s s' \<Longrightarrow> running C s'"
  by (simp_all add: running_def o_step_def o_work_def)

lemma o_get_work:
  assumes inv: "o_inv C s"
  shows "o_work C s (snd (opt_get u s))"
proof -
  let ?nc = "snd (nc_Get u (ot_cache s))"
  have keep: "o_work C s (s\<lparr>ot_cache := nc\<rparr>)" if "\<And>v q. map_of (nc_list nc) v = Some q \<Longrightarrow> map_of (ot_nodeIndex s) v = Some q" for nc
    using inv that by (simp add: o_work_def o_inv_def o_leaf_def o_contents_def)
  have nc: "map_of (ot_nodeIndex s) v = Some q" if "map_of (nc_list ?nc) v = Some q" for v q
    using inv that by (simp add: o_inv_def nc_list_Get)
  have put: "map_of (ot_nodeIndex s) v = Some q" if "map_of (nc_list (nc_Put u p ?nc)) v = Some q" "map_of (ot_nodeIndex s) u = Some p" for v q p
    using nc_list_Put [OF that(1)] nc [of v q] that(2) by auto
  show ?thesis using keep [OF nc] keep [OF put]
    by (auto simp: opt_get_def Let_def case_prod_beta split: option.split)
qed

lemma step_runs:
  assumes run: "running C s" and laws: "kzg_laws C" and ap: "apart (dom (o_contents s) \<union> op_users C x)"
  shows "\<exists>r s'. opt_step C x s = ODone (r, s') \<and> running C s' \<and> ot_config s' = ot_config s \<and> o_contents s' = snd (data_step C x (o_contents s))"
proof (cases x)
  case (OInsert y data)
  show ?thesis
  proof (cases "small data")
    case True
    let ?u = "opt_HashUserID C y"
    let ?s1 = "s\<lparr>ot_dataStore := map_option (\<lambda>m. m(data_key ?u \<mapsto> (case data of None \<Rightarrow> [] | Some x \<Rightarrow> x))) (ot_dataStore s)\<rparr>"
    let ?s = "opt_insert C ?u data ?s1"
    have s1: "running C ?s1" "o_contents ?s1 = o_contents s" using run by (simp_all add: running_def o_inv_def o_leaf_def o_contents_def)
    have "apart (insert ?u (dom (o_contents ?s1)))" unfolding s1(2) by (rule apart_mono [OF ap]) (auto simp: OInsert)
    note one = o_insert [OF conjunct1 [OF s1(1) [unfolded running_def]] hash_length this, of data]
    then have s: "running C ?s" using running_step(1) [OF s1(1)] by blast
    then obtain s' where s': "enqueue_commit C ?s = ODone s'" "o_work C ?s s'" using o_enqueue unfolding running_def by blast
    have "opt_Insert C y data s = ODone s'" using True s s'(1) by (simp add: opt_Insert_def small_def Let_def running_def)
    then show ?thesis using True s'(2) one running_step(2) [OF s s'(2)] s1(2) by (simp add: OInsert o_work_def o_step_def)
  qed (use run in \<open>simp add: OInsert opt_Insert_def small_def\<close>)
next
  case (OCommit xs)
  let ?es = "map (\<lambda>(userID, data). (opt_HashUserID C userID, data)) (filter (small \<circ> snd) xs)"
  let ?s = "foldl (\<lambda>s (u, data). opt_insert C u data s) s ?es"
  have all: "o_step C s ?s \<and> o_contents ?s = put_all C xs (o_contents s)"
  proof -
    have "dom (o_contents s) \<union> opt_HashUserID C ` fst ` set (filter (small \<circ> snd) xs) \<subseteq> dom (o_contents s) \<union> op_users C x"
      unfolding OCommit op_users.simps set_filter by blast
    from o_insert_all [OF conjunct1 [OF run [unfolded running_def]] apart_mono [OF ap this]] show ?thesis unfolding put_all_def Let_def .
  qed
  show ?thesis
  proof (cases "?es = []")
    case True
    then have "put_all C xs (o_contents s) = o_contents s" by (simp add: put_all_def)
    then show ?thesis using True run by (simp add: OCommit opt_CommitBatch_def fill_batch)
  next
    case False
    let ?s2 = "?s\<lparr>ot_root := SetDirty True (ot_root ?s)\<rparr>"
    have s: "running C ?s" using running_step(1) [OF run] all by blast
    then have two: "o_step C ?s ?s2 \<and> o_contents ?s2 = o_contents ?s" using o_SetDirty unfolding running_def by blast
    then have s2: "running C ?s2" using running_step(1) [OF s] by blast
    then obtain s3 where s3: "enqueue_commit C ?s2 = ODone s3" "o_work C ?s2 s3" using o_enqueue unfolding running_def by blast
    have "opt_CommitBatch C (fill_batch C xs) s = ODone (Some (Blake3Hash C (ot_leaves s3) (ot_root s3)), s3)"
      using False s2 s3(1) unfolding opt_CommitBatch_def fill_batch Let_def by (simp add: running_def)
    then show ?thesis using s3(2) running_step(2) [OF s2 s3(2)] two all by (simp add: OCommit o_work_def o_step_def)
  qed
next
  case OWork
  have "o_work C s (opt_commitWorker C s)" using run o_worker [of C s] by (simp add: running_def)
  then show ?thesis using running_step(2) [OF run] by (simp add: OWork o_work_def)
next
  case (OGet y)
  have "o_work C s (snd (opt_get (opt_HashUserID C y) s))" using run o_get_work [of C s] by (simp add: running_def)
  then show ?thesis using running_step(2) [OF run] by (simp add: OGet opt_Get_def o_work_def case_prod_beta)
next
  case OGetRoot
  have "o_step C s (snd (opt_GetRoot C s)) \<and> o_contents (snd (opt_GetRoot C s)) = o_contents s" using run o_GetRoot(1) [of C s] by (simp add: running_def)
  then show ?thesis using running_step(1) [OF run] by (simp add: OGetRoot o_step_def case_prod_beta)
next
  case OFinalRoot
  let ?d = "drain C s"
  have d: "o_work C s ?d" using run o_drain [of C s] by (simp add: running_def)
  then have inv: "o_inv C ?d" by (simp add: o_work_def)
  note r = running_step(2) [OF run d]
  from settled [OF inv laws] obtain s1 where s1: "settle_root C ?d = (s1, True)" "o_step C ?d s1" "o_contents s1 = o_contents ?d" by blast
  have "\<exists>r s'. opt_GetFinalRoot C ?d = ODone (r, s') \<and> (s' = ?d \<or> s' = s1)"
    using s1(1) by (auto simp: opt_GetFinalRoot_def drained settle_root_def split: if_splits)
  then show ?thesis using r running_step(1) [OF r s1(2)] d s1(2,3) by (auto simp: OFinalRoot o_work_def o_step_def)
qed

lemma run_runs:
  assumes "running C s" "kzg_laws C" "apart (dom (o_contents s) \<union> (\<Union>x\<in>set xs. op_users C x))"
  shows "\<exists>rs s'. opt_run C xs s = ODone (rs, s') \<and> running C s' \<and> ot_config s' = ot_config s \<and> o_contents s' = data_map C xs (o_contents s)"
  using assms(1,3)
proof (induction xs arbitrary: s)
  case (Cons x xs)
  have "apart (dom (o_contents s) \<union> op_users C x)" by (rule apart_mono [OF Cons.prems(2)]) auto
  from step_runs [OF Cons.prems(1) assms(2) this] obtain r s1 where
    s1: "opt_step C x s = ODone (r, s1)" "running C s1" "ot_config s1 = ot_config s" "o_contents s1 = snd (data_step C x (o_contents s))" by blast
  have "apart (dom (o_contents s1) \<union> (\<Union>x\<in>set xs. op_users C x))"
    unfolding s1(4) by (rule apart_mono [OF Cons.prems(2)]) (use step_dom [of C x "o_contents s"] in auto)
  from Cons.IH [OF s1(2) this] obtain rs s2 where "opt_run C xs s1 = ODone (rs, s2)" "running C s2" "ot_config s2 = ot_config s1"
    "o_contents s2 = data_map C xs (o_contents s1)" by blast
  then show ?case using s1 by (simp add: data_map_def)
qed (simp add: data_map_def)

lemma New_running: "running C (opt_New (opt_NewConfig procs srs) store)"
  by (simp add: running_def New_o_inv mask_ok_def opt_NewConfig_def) (simp add: opt_New_def)

lemma new_runs:
  assumes "kzg_laws C" "apart (\<Union>x\<in>set xs. op_users C x)"
  shows "\<exists>rs s. opt_run C xs (opt_New (opt_NewConfig procs srs) store) = ODone (rs, s) \<and> running C s
    \<and> ot_config s = opt_NewConfig procs srs \<and> o_contents s = data_map C xs Map.empty"
proof -
  let ?s = "opt_New (opt_NewConfig procs srs) store"
  have empty: "o_contents ?s = Map.empty" by (rule New_o_inv(2))
  then have "apart (dom (o_contents ?s) \<union> (\<Union>x\<in>set xs. op_users C x))" using assms(2) by simp
  from run_runs [OF New_running assms(1) this] show ?thesis unfolding empty by (simp add: opt_New_def)
qed

text \<open>C15. A genuine proof is accepted. Take a digest of 32 bytes, a commitment scheme that opens and verifies, and
  users with different first eight masked bytes. Then every run of a new tree goes through, whatever the
  commit workers do, and after it \<^verbatim>\<open>GenerateProof\<close> says "key not found" for a user that was never inserted;
  for a user of the tree it returns a proof for his hash and for the root of the set of users, which
  \<^verbatim>\<open>VerifySingleProof\<close> accepts.\<close>

theorem genuine_proofs_are_accepted:
  assumes "kzg_laws C" "apart (\<Union>x\<in>set xs. op_users C x)"
  shows "\<exists>rs s r s'. opt_run C xs (opt_New (opt_NewConfig procs srs) store) = ODone (rs, s) \<and> opt_GenerateProof C userID s = (r, s') \<and>
    (case data_map C xs Map.empty (opt_HashUserID C userID) of
       None \<Rightarrow> r = OErr OptKeyNotFound
     | Some data \<Rightarrow> \<exists>pr. r = ODone pr \<and> op_RootHash pr = Some (users_root C TreeDepth 0 (dom (data_map C xs Map.empty)))
         \<and> op_UserIDHashes pr = [opt_HashUserID C userID] \<and> VerifySingleProof C (Some pr) (opt_NewConfig procs srs) = ODone True)"
proof -
  let ?cfg = "opt_NewConfig procs srs"
  from new_runs [OF assms] obtain rs s where
    s: "opt_run C xs (opt_New ?cfg store) = ODone (rs, s)" "running C s" "ot_config s = ?cfg" "o_contents s = data_map C xs Map.empty" by blast
  from proof_of_user [OF _ _ assms(1), of s userID] s(2,3) obtain r s' where "opt_GenerateProof C userID s = (r, s')"
    "case o_contents s (opt_HashUserID C userID) of None \<Rightarrow> r = OErr OptKeyNotFound
     | Some data \<Rightarrow> \<exists>pr. r = ODone pr \<and> op_RootHash pr = Some (users_root C TreeDepth 0 (dom (o_contents s)))
         \<and> op_UserIDHashes pr = [opt_HashUserID C userID] \<and> VerifySingleProof C (Some pr) (ot_config s) = ODone True"
    by (auto simp: running_def opt_NewConfig_def)
  then show ?thesis using s(1) unfolding s(3,4) by blast
qed

lemma sample_laws: "kzg_laws sample_oc"
proof -
  have "min (length x) 32 + (32 - length x) = 32" for x :: bytes by simp
  then show ?thesis by (simp add: kzg_laws_def sample_oc_def)
qed

lemma genuine_proofs_are_accepted_witness:
  "\<exists>rs s s' pr. opt_run sample_oc [OInsert (replicate 32 1) (Some [5]), OWork] (opt_New (opt_NewConfig 1 True) None) = ODone (rs, s)
    \<and> opt_GenerateProof sample_oc (replicate 32 1) s = (ODone pr, s')
    \<and> VerifySingleProof sample_oc (Some pr) (opt_NewConfig 1 True) = ODone True"
proof -
  let ?xs = "[OInsert (replicate 32 1) (Some [5]), OWork]"
  have "apart (\<Union>x\<in>set ?xs. op_users sample_oc x)" by (simp add: sample_user apart_def)
  note t = genuine_proofs_are_accepted [OF sample_laws this, of 1 True None "replicate 32 1"]
  have "data_map sample_oc ?xs Map.empty (opt_HashUserID sample_oc (replicate 32 1)) = Some (Some [5])"
    by (simp add: data_map_def sample_user small_def MaxValueSize_def)
  then show ?thesis using t by auto
qed

subsection \<open>Other proofs\<close>

definition forged :: "('f, 'g, 'o) opt_crypto \<Rightarrow> bytes \<Rightarrow> bytes list \<Rightarrow> opt_proof" where
  "forged C userID hs = \<lparr>op_UserIDs = [userID], op_UserIDHashes = [opt_HashUserID C userID], op_Path = [level_hash C hs], op_PathIndices = [],
    op_ChildrenHashes = [hs], op_KZGOpeningProof = [], op_KZGCommitment = [], op_RootHash = Some (level_hash C hs), op_IsBundled = False\<rparr>"

lemma forged_accepted: "VerifySingleProof C (Some (forged C userID hs)) cfg = ODone True"
  by (simp add: VerifySingleProof_def forged_def verifyBlake3Path_def index_ok_def)

lemma verify_transfer:
  assumes "VerifySingleProof C (Some pr) cfg = ODone True" "op_KZGOpeningProof pr \<noteq> []" "us \<noteq> []"
  shows "VerifySingleProof C (Some (pr\<lparr>op_UserIDs := [userID], op_UserIDHashes := us, op_KZGOpeningProof := opening\<rparr>)) cfg = ODone True"
proof -
  let ?pr = "pr\<lparr>op_UserIDs := [userID], op_UserIDHashes := us, op_KZGOpeningProof := opening\<rparr>"
  have path: "verifyBlake3Path C u ?pr cfg = verifyBlake3Path C v pr cfg" for u v
    by (cases "op_RootHash pr") (simp_all add: verifyBlake3Path_def)
  have fields: "op_PathIndices ?pr = op_PathIndices pr" "op_ChildrenHashes ?pr = op_ChildrenHashes pr"
    "op_KZGCommitment ?pr = op_KZGCommitment pr" by simp_all
  have kzg: "verifyKZGProof C ?pr cfg = verifyKZGProof C pr cfg" unfolding verifyKZGProof_def fields ..
  have "\<not> op_IsBundled pr" "verifyBlake3Path C (op_UserIDHashes pr ! 0) pr cfg" "of_KZG cfg \<longrightarrow> verifyKZGProof C pr cfg"
    using assms(1,2) unfolding VerifySingleProof_def by (auto split: if_splits)
  then show ?thesis using assms(3) kzg path [of "us ! 0" "op_UserIDHashes pr ! 0"] unfolding VerifySingleProof_def by simp
qed

lemma bundled_transfer:
  assumes "VerifyBundledProof C (Some pr) cfg = ODone True"
  shows "VerifyBundledProof C (Some (pr\<lparr>op_RootHash := h, op_UserIDs := ids\<rparr>)) cfg = ODone True"
  using assms by (simp add: VerifyBundledProof_def verifyBundledPath_def split: if_splits)

text \<open>C16. What an accepted proof does not say. (1) After any run there is, for every user, also one who was never
  inserted, a proof for his hash and the true root that \<^verbatim>\<open>VerifySingleProof\<close> accepts: one level, no indices, no
  opening. (2) An accepted proof stays accepted when it is given to other users and its opening is replaced by
  any bytes. (3) An accepted bundled proof stays accepted for any root hash and other users, and one without
  users, levels and root is accepted.\<close>

theorem forged_proofs_are_accepted:
  assumes "kzg_laws C" "apart (\<Union>x\<in>set xs. op_users C x)"
  shows "(\<exists>rs s pr. opt_run C xs (opt_New (opt_NewConfig procs srs) store) = ODone (rs, s) \<and> op_UserIDs pr = [userID]
      \<and> op_UserIDHashes pr = [opt_HashUserID C userID] \<and> op_RootHash pr = Some (users_root C TreeDepth 0 (dom (data_map C xs Map.empty)))
      \<and> VerifySingleProof C (Some pr) (opt_NewConfig procs srs) = ODone True)
    \<and> (\<forall>pr cfg us opening. VerifySingleProof C (Some pr) cfg = ODone True \<and> op_KZGOpeningProof pr \<noteq> [] \<and> us \<noteq> [] \<longrightarrow>
        VerifySingleProof C (Some (pr\<lparr>op_UserIDs := [userID], op_UserIDHashes := us, op_KZGOpeningProof := opening\<rparr>)) cfg = ODone True)
    \<and> (\<forall>pr cfg h ids. VerifyBundledProof C (Some pr) cfg = ODone True \<longrightarrow>
        VerifyBundledProof C (Some (pr\<lparr>op_RootHash := h, op_UserIDs := ids\<rparr>)) cfg = ODone True)
    \<and> (\<forall>cfg ids. VerifyBundledProof C (Some \<lparr>op_UserIDs = ids, op_UserIDHashes = [], op_Path = [], op_PathIndices = [], op_ChildrenHashes = [],
        op_KZGOpeningProof = [], op_KZGCommitment = [], op_RootHash = None, op_IsBundled = True\<rparr>) cfg = ODone True)"
    (is "?one \<and> ?two \<and> ?three \<and> ?four")
proof (intro conjI)
  let ?cfg = "opt_NewConfig procs srs"
  from new_runs [OF assms] obtain rs s where
    s: "opt_run C xs (opt_New ?cfg store) = ODone (rs, s)" "running C s" "o_contents s = data_map C xs Map.empty" by blast
  then have inv: "o_inv C s" by (simp add: running_def)
  have "leaf_hashes_ok C (ot_leaves s)" "wf_node NodeWidth (length (ot_leaves s)) (Suc 7) 0 (ot_root s)"
    using inv unfolding o_inv_def depth(1) by blast+
  from node_level [OF assms(1) this] have "level_hash C (children_hashes C (ot_leaves s) (ot_root s)) = Blake3Hash C (ot_leaves s) (ot_root s)"
    by (simp add: level_good_def)
  then have root: "op_RootHash (forged C userID (children_hashes C (ot_leaves s) (ot_root s))) = Some (users_root C TreeDepth 0 (dom (data_map C xs Map.empty)))"
    using o_root_hash [OF inv] s(3) by (simp add: forged_def)
  have user: "op_UserIDs (forged C userID hs) = [userID]" "op_UserIDHashes (forged C userID hs) = [opt_HashUserID C userID]" for hs
    by (simp_all add: forged_def)
  show ?one by (rule exI [of _ rs], rule exI [of _ s], rule exI [of _ "forged C userID (children_hashes C (ot_leaves s) (ot_root s))"])
    (intro conjI s(1) user root forged_accepted)
  show ?two using verify_transfer by blast
  show ?three using bundled_transfer by blast
  show ?four by (simp add: VerifyBundledProof_def)
qed

lemma forged_proofs_are_accepted_witness:
  "\<exists>rs s pr. opt_run sample_oc [OInsert (replicate 32 1) (Some [5])] (opt_New (opt_NewConfig 1 True) None) = ODone (rs, s)
    \<and> data_map sample_oc [OInsert (replicate 32 1) (Some [5])] Map.empty (opt_HashUserID sample_oc (replicate 32 2)) = None
    \<and> op_UserIDHashes pr = [opt_HashUserID sample_oc (replicate 32 2)]
    \<and> VerifySingleProof sample_oc (Some pr) (opt_NewConfig 1 True) = ODone True"
proof -
  let ?xs = "[OInsert (replicate 32 1) (Some [5])]"
  have "apart (\<Union>x\<in>set ?xs. op_users sample_oc x)" by (simp add: sample_user apart_def)
  note t = forged_proofs_are_accepted [OF sample_laws this, of 1 True None "replicate 32 2"]
  have "data_map sample_oc ?xs Map.empty (opt_HashUserID sample_oc (replicate 32 2)) = None"
    by (simp add: data_map_def sample_user small_def MaxValueSize_def)
  then show ?thesis using t by blast
qed

end
