(* ===== verification/SmtStore.thy ===== *)
theory SmtStore
  imports Smt Pebble
begin

text \<open>
  The sparse Merkle tree of \<^verbatim>\<open>smt-v3\<close> over any store of nodes: the sharded LRU cache of nodes of \<^verbatim>\<open>smt.go\<close>, the
  Pebble store of \<^verbatim>\<open>store_pebble.go\<close>, and the operations of the tree with the accesses to nodes as a
  parameter.

  \<^item> A \<^verbatim>\<open>*lruNode\<close> is an address in its shard. The pool of removed nodes is left out: a node that comes from it is
    in no shard and gets new fields, like a new one.
  \<^item> A read may change the state (the order of the cache), also where it fails. A write that fails is a crash: neither
    store returns an error of its own.
  \<^item> Batches on Pebble come from \<^verbatim>\<open>NewBatch\<close>; \<open>bget\<close> is \<^verbatim>\<open>Get\<close> of such a batch, with \<open>None\<close> for an error.
\<close>

subsection \<open>The cache of nodes\<close>

record shard_node =
  sn_key :: bytes
  sn_value :: bytes
  sn_prev :: "nat option"
  sn_next :: "nat option"

record cache_shard =
  cs_capacity :: nat
  cs_items :: "(bytes \<times> nat) list"
  cs_head :: "nat option"
  cs_tail :: "nat option"
  cs_nodes :: "nat \<Rightarrow> shard_node"
  cs_alloc :: nat

type_synonym sharded_nodes = "cache_shard list"

definition ShardCount :: nat where "ShardCount = 256"

definition newCacheShard :: "nat \<Rightarrow> cache_shard" where
  "newCacheShard capacity = \<lparr>cs_capacity = capacity, cs_items = [], cs_head = None, cs_tail = None,
    cs_nodes = (\<lambda>_. \<lparr>sn_key = [], sn_value = [], sn_prev = None, sn_next = None\<rparr>), cs_alloc = 0\<rparr>"

definition NewShardedNodeCache :: "nat \<Rightarrow> sharded_nodes" where
  "NewShardedNodeCache totalCapacity =
    (let shardCap = totalCapacity div ShardCount
     in replicate ShardCount (newCacheShard (if shardCap < 1 then 1 else shardCap)))"

definition upd_shard :: "nat \<Rightarrow> (shard_node \<Rightarrow> shard_node) \<Rightarrow> cache_shard \<Rightarrow> cache_shard" where
  "upd_shard p f c = c\<lparr>cs_nodes := (cs_nodes c)(p := f (cs_nodes c p))\<rparr>"

definition upd_at :: "nat option \<Rightarrow> (shard_node \<Rightarrow> shard_node) \<Rightarrow> cache_shard \<Rightarrow> cache_shard" where
  "upd_at q f c = (case q of None \<Rightarrow> c | Some p \<Rightarrow> upd_shard p f c)"

definition shard_moveToFront :: "nat \<Rightarrow> cache_shard \<Rightarrow> cache_shard" where
  "shard_moveToFront p c =
    (if cs_head c = Some p then c
     else
       let c1 = upd_at (sn_prev (cs_nodes c p)) (\<lambda>n. n\<lparr>sn_next := sn_next (cs_nodes c p)\<rparr>) c;
           c2 = upd_at (sn_next (cs_nodes c1 p)) (\<lambda>n. n\<lparr>sn_prev := sn_prev (cs_nodes c1 p)\<rparr>) c1;
           c3 = (if cs_tail c2 = Some p \<and> sn_prev (cs_nodes c2 p) \<noteq> None then c2\<lparr>cs_tail := sn_prev (cs_nodes c2 p)\<rparr> else c2);
           c4 = upd_shard p (\<lambda>n. n\<lparr>sn_next := cs_head c3, sn_prev := None\<rparr>) c3;
           c5 = upd_at (cs_head c4) (\<lambda>n. n\<lparr>sn_prev := Some p\<rparr>) c4;
           c6 = c5\<lparr>cs_head := Some p\<rparr>
       in if cs_tail c6 = None then c6\<lparr>cs_tail := Some p\<rparr> else c6)"

definition shard_addToFront :: "nat \<Rightarrow> cache_shard \<Rightarrow> cache_shard" where
  "shard_addToFront p c = (case cs_head c of
     None \<Rightarrow> c\<lparr>cs_head := Some p, cs_tail := Some p\<rparr>
   | Some first \<Rightarrow> (upd_shard first (\<lambda>n. n\<lparr>sn_prev := Some p\<rparr>)
       (upd_shard p (\<lambda>n. n\<lparr>sn_next := Some first, sn_prev := None\<rparr>) c))\<lparr>cs_head := Some p\<rparr>)"

definition shard_removeTail :: "cache_shard \<Rightarrow> cache_shard" where
  "shard_removeTail c = (case cs_tail c of
     None \<Rightarrow> c
   | Some oldTail \<Rightarrow>
       let c1 = c\<lparr>cs_items := AList.delete (sn_key (cs_nodes c oldTail)) (cs_items c)\<rparr>;
           c2 = (case sn_prev (cs_nodes c1 oldTail) of
                   Some q \<Rightarrow> upd_shard q (\<lambda>n. n\<lparr>sn_next := None\<rparr>) (c1\<lparr>cs_tail := Some q\<rparr>)
                 | None \<Rightarrow> c1\<lparr>cs_head := None, cs_tail := None\<rparr>)
       in upd_shard oldTail (\<lambda>n. n\<lparr>sn_prev := None, sn_next := None, sn_value := []\<rparr>) c2)"

definition shard_Get :: "bytes \<Rightarrow> cache_shard \<Rightarrow> bytes option \<times> cache_shard" where
  "shard_Get k c = (case map_of (cs_items c) k of
     Some p \<Rightarrow> let c1 = shard_moveToFront p c in (Some (sn_value (cs_nodes c1 p)), c1)
   | None \<Rightarrow> (None, c))"

definition shard_Add :: "bytes \<Rightarrow> bytes \<Rightarrow> cache_shard \<Rightarrow> cache_shard" where
  "shard_Add k value c = (case map_of (cs_items c) k of
     Some p \<Rightarrow> shard_moveToFront p (upd_shard p (\<lambda>n. n\<lparr>sn_value := value\<rparr>) c)
   | None \<Rightarrow>
       let c1 = (if length (cs_items c) \<ge> cs_capacity c then shard_removeTail c else c);
           p = cs_alloc c1;
           c2 = c1\<lparr>cs_alloc := p + 1, cs_nodes := (cs_nodes c1)(p := \<lparr>sn_key = k, sn_value = value, sn_prev = None, sn_next = None\<rparr>),
                 cs_items := AList.update k p (cs_items c1)\<rparr>
       in shard_addToFront p c2)"

text \<open>The shard is chosen by the first byte of the key; there is none in an empty key.\<close>

definition ShardedNodeCache_Get :: "bytes \<Rightarrow> sharded_nodes \<Rightarrow> (bytes option \<times> sharded_nodes) res" where
  "ShardedNodeCache_Get key sc = bind_res (at key 0) (\<lambda>b.
     let (r, c) = shard_Get (arr32 key) (sc ! unat b) in Inr (r, sc[unat b := c]))"

definition ShardedNodeCache_Add :: "bytes \<Rightarrow> bytes \<Rightarrow> sharded_nodes \<Rightarrow> sharded_nodes res" where
  "ShardedNodeCache_Add key value sc = bind_res (at key 0) (\<lambda>b.
     Inr (sc[unat b := shard_Add (arr32 key) value (sc ! unat b)]))"

subsection \<open>Accesses to nodes\<close>

record 's node_io =
  io_load :: "bytes \<Rightarrow> 's \<Rightarrow> bytes res \<times> 's"
  io_put :: "bytes \<Rightarrow> bytes \<Rightarrow> 's \<Rightarrow> 's res"

text \<open>A store with the optional cache in front of it.\<close>

definition cached_load :: "(bytes \<Rightarrow> 'd \<Rightarrow> bytes res) \<Rightarrow> bytes \<Rightarrow> 'd \<times> sharded_nodes option \<Rightarrow> bytes res \<times> ('d \<times> sharded_nodes option)" where
  "cached_load get hash s = (case snd s of
     None \<Rightarrow> (get hash (fst s), s)
   | Some sc \<Rightarrow> (case ShardedNodeCache_Get hash sc of
       Inl e \<Rightarrow> (Inl e, s)
     | Inr (Some val, sc1) \<Rightarrow> (Inr val, (fst s, Some sc1))
     | Inr (None, sc1) \<Rightarrow> (case get hash (fst s) of
         Inl e \<Rightarrow> (Inl e, (fst s, Some sc1))
       | Inr val \<Rightarrow> (case ShardedNodeCache_Add hash val sc1 of
           Inl e \<Rightarrow> (Inl e, (fst s, Some sc1))
         | Inr sc2 \<Rightarrow> (Inr val, (fst s, Some sc2))))))"

definition cached_put :: "(bytes \<Rightarrow> bytes \<Rightarrow> 'd \<Rightarrow> 'd) \<Rightarrow> bytes \<Rightarrow> bytes \<Rightarrow> 'd \<times> sharded_nodes option \<Rightarrow> ('d \<times> sharded_nodes option) res" where
  "cached_put setNode hash data s = (case snd s of
     None \<Rightarrow> Inr (setNode hash data (fst s), None)
   | Some sc \<Rightarrow> bind_res (ShardedNodeCache_Add hash data sc) (\<lambda>sc1. Inr (setNode hash data (fst s), Some sc1)))"

definition memory_io :: "(store \<times> sharded_nodes option) node_io" where
  "memory_io = \<lparr>io_load = cached_load (\<lambda>hash st. MemoryStore_Get st hash), io_put = cached_put MemoryStore_Set\<rparr>"

record 'd pebble_store =
  pb_db :: 'd
  pb_batch :: "write_task list option"

definition PebbleStore_Get :: "'d pebble \<Rightarrow> (write_task list \<Rightarrow> bytes \<Rightarrow> bytes option) \<Rightarrow> bytes \<Rightarrow> 'd pebble_store \<Rightarrow> bytes res" where
  "PebbleStore_Get P bget key s =
    (let db = (case kv_get P key (pb_db s) of None \<Rightarrow> Inl NotFound | Some val \<Rightarrow> Inr val)
     in case pb_batch s of
          None \<Rightarrow> db
        | Some b \<Rightarrow> (case bget b key of Some val \<Rightarrow> Inr val | None \<Rightarrow> db))"

definition pebble_write :: "'d pebble \<Rightarrow> write_task \<Rightarrow> 'd pebble_store \<Rightarrow> 'd pebble_store" where
  "pebble_write P t s = (case pb_batch s of
     None \<Rightarrow> s\<lparr>pb_db := p_commit P [t] (pb_db s)\<rparr>
   | Some b \<Rightarrow> s\<lparr>pb_batch := Some (b @ [t])\<rparr>)"

definition PebbleStore_Set :: "'d pebble \<Rightarrow> bytes \<Rightarrow> bytes \<Rightarrow> 'd pebble_store \<Rightarrow> 'd pebble_store" where
  "PebbleStore_Set P key val s = pebble_write P (put_task key val) s"

definition PebbleStore_Delete :: "'d pebble \<Rightarrow> bytes \<Rightarrow> 'd pebble_store \<Rightarrow> 'd pebble_store" where
  "PebbleStore_Delete P key s = pebble_write P (delete_task key) s"

definition StartBatch :: "'d pebble_store \<Rightarrow> 'd pebble_store" where
  "StartBatch s = (if pb_batch s = None then s\<lparr>pb_batch := Some []\<rparr> else s)"

definition FinishBatch :: "'d pebble \<Rightarrow> 'd pebble_store \<Rightarrow> 'd pebble_store" where
  "FinishBatch P s = (case pb_batch s of
     None \<Rightarrow> s
   | Some b \<Rightarrow> s\<lparr>pb_db := p_commit P b (pb_db s), pb_batch := None\<rparr>)"

definition pebble_SaveRoot :: "'d pebble \<Rightarrow> bytes \<Rightarrow> bytes \<Rightarrow> 'd pebble_store \<Rightarrow> 'd pebble_store" where
  "pebble_SaveRoot P tag root s = s\<lparr>pb_db := p_commit P [put_task (ascii ''root_'' @ tag) root] (pb_db s)\<rparr>"

definition pebble_LoadRoot :: "'d pebble \<Rightarrow> bytes \<Rightarrow> 'd pebble_store \<Rightarrow> bytes option" where
  "pebble_LoadRoot P tag s = kv_get P (ascii ''root_'' @ tag) (pb_db s)"

definition pebble_io :: "'d pebble \<Rightarrow> (write_task list \<Rightarrow> bytes \<Rightarrow> bytes option) \<Rightarrow> ('d pebble_store \<times> sharded_nodes option) node_io" where
  "pebble_io P bget = \<lparr>io_load = cached_load (PebbleStore_Get P bget), io_put = cached_put (PebbleStore_Set P)\<rparr>"

subsection \<open>The tree over accesses\<close>

record 's io_smt =
  is_nodes :: 's
  is_root :: bytes
  is_pending :: "kv list"

definition NewSMT_io :: "'d \<Rightarrow> nat \<Rightarrow> ('d \<times> sharded_nodes option) io_smt" where
  "NewSMT_io st cacheSize = \<lparr>is_nodes = (st, if cacheSize > 0 then Some (NewShardedNodeCache cacheSize) else None),
    is_root = EmptyHash, is_pending = []\<rparr>"

text \<open>What \<^verbatim>\<open>get\<close> does with the bytes of a node: the value, or the hash to go on with.\<close>

definition get_node :: "bytes \<Rightarrow> nat \<Rightarrow> bytes \<Rightarrow> (bytes + bytes) res" where
  "get_node key depth data = bind_res (at data 0) (\<lambda>t.
     if t = 1 then
       bind_res (slice data 1 33) (\<lambda>storedKey.
         if storedKey = key then bind_res (slice data 33 (length data)) (\<lambda>v. Inr (Inl v)) else Inl ShortcutMismatch)
     else if depth \<ge> 32 then Inl Crash
     else
       let idx = unat (key ! depth); segmentIdx = idx div 64; bitIdx = idx mod 64
       in bind_res (le_uint64 data (1 + segmentIdx * 8)) (\<lambda>segment.
         if drop_bit bitIdx segment AND 1 = 0 then Inl BranchEmpty
         else bind_res (read_bitmap data [0..<segmentIdx]) (\<lambda>segs.
           let childIdx = sum_list (map ones segs) + ones (segment AND (push_bit bitIdx 1 - 1));
               offset = 33 + childIdx * 32
           in bind_res (slice data offset (offset + 32)) (\<lambda>childHash. Inr (Inr childHash)))))"

function io_get :: "'s node_io \<Rightarrow> 's \<Rightarrow> bytes \<Rightarrow> bytes \<Rightarrow> nat \<Rightarrow> bytes res \<times> 's" where
  "io_get io s root key depth =
    (if root = EmptyHash then (Inl KeyNotFound, s)
     else case io_load io root s of
       (Inl e, s1) \<Rightarrow> (Inl e, s1)
     | (Inr data, s1) \<Rightarrow> (case get_node key depth data of
         Inl e \<Rightarrow> (Inl e, s1)
       | Inr (Inl v) \<Rightarrow> (Inr v, s1)
       | Inr (Inr childHash) \<Rightarrow> if depth \<ge> 32 then (Inl Crash, s1) else io_get io s1 childHash key (depth + 1)))"
  by pat_completeness auto
termination by (relation "measure (\<lambda>(io, s, root, key, depth). 32 - depth)") auto

definition load_res :: "bytes res \<times> 's \<Rightarrow> (bytes \<times> 's) res" where
  "load_res r = (case fst r of Inl e \<Rightarrow> Inl e | Inr data \<Rightarrow> Inr (data, snd r))"

definition io_storeLeaf :: "'s node_io \<Rightarrow> (bytes \<Rightarrow> bytes) \<Rightarrow> bytes \<Rightarrow> bytes \<Rightarrow> 's \<Rightarrow> (bytes \<times> 's) res" where
  "io_storeLeaf io h key v s = (let data = leaf_data key v; hs = h data in bind_res (io_put io hs data s) (\<lambda>s1. Inr (hs, s1)))"

definition io_storeInternal :: "'s node_io \<Rightarrow> (bytes \<Rightarrow> bytes) \<Rightarrow> bytes list \<Rightarrow> 's \<Rightarrow> (bytes \<times> 's) res" where
  "io_storeInternal io h children s = (let data = internal_data children; hs = h data in bind_res (io_put io hs data s) (\<lambda>s1. Inr (hs, s1)))"

definition io_store_value :: "'s node_io \<Rightarrow> (bytes \<Rightarrow> bytes) \<Rightarrow> kv \<Rightarrow> 's \<Rightarrow> (bytes \<times> 's) res" where
  "io_store_value io h x s = (case snd x of None \<Rightarrow> Inr (EmptyHash, s) | Some v \<Rightarrow> io_storeLeaf io h (fst x) v s)"

definition io_join_leaf :: "'s node_io \<Rightarrow> 's \<Rightarrow> bytes \<Rightarrow> kv list \<Rightarrow> nat \<Rightarrow> nat \<Rightarrow> ((kv list \<times> nat \<times> nat \<times> bool) \<times> 's) res" where
  "io_join_leaf io s root arr lo hi =
    (if root = EmptyHash then Inr ((arr, lo, hi, False), s)
     else bind_res (load_res (io_load io root s)) (\<lambda>(data, s1).
       bind_res (at data 0) (\<lambda>t.
         if t = 1 then
           bind_res (slice data 1 33) (\<lambda>storedKey.
           bind_res (slice data 33 (length data)) (\<lambda>storedVal.
             if list_ex (\<lambda>x. fst x = storedKey) (drop lo (take hi arr)) then Inr ((arr, lo, hi, False), s1)
             else Inr (append_sort (storedKey, Some storedVal) arr lo hi, s1)))
         else Inr ((arr, lo, hi, False), s1))))"

definition io_load_children :: "'s node_io \<Rightarrow> 's \<Rightarrow> bytes \<Rightarrow> (bytes list \<times> 's) res" where
  "io_load_children io s root =
    (if root = EmptyHash then Inr (replicate 256 EmptyHash, s)
     else case io_load io root s of
       (Inl e, s1) \<Rightarrow> Inl Crash
     | (Inr data, s1) \<Rightarrow>
         bind_res (at data 0) (\<lambda>t.
           if t = 0 then bind_res (read_bitmap data [0..<4]) (\<lambda>bitmap.
             bind_res (read_hashes data bitmap [0..<256] 33) (\<lambda>hs. Inr (hs, s1)))
           else Inr (replicate 256 EmptyHash, s1)))"

text \<open>An error of the load keeps the node; a crash of it is one.\<close>

definition io_collapse :: "'s node_io \<Rightarrow> (bytes \<Rightarrow> bytes) \<Rightarrow> bytes list \<Rightarrow> 's \<Rightarrow> (bytes \<times> 's) res" where
  "io_collapse io h children s =
    (let active = filter (\<lambda>i. children ! i \<noteq> EmptyHash) [0..<256]
     in if length active = 0 then Inr (EmptyHash, s)
        else if length active = 1 then
          (case io_load io (children ! last active) s of
             (Inl Crash, s1) \<Rightarrow> Inl Crash
           | (Inl e, s1) \<Rightarrow> io_storeInternal io h children s1
           | (Inr data, s1) \<Rightarrow> bind_res (at data 0) (\<lambda>t.
               if t = 1 then Inr (children ! last active, s1) else io_storeInternal io h children s1))
        else io_storeInternal io h children s)"

function io_updateBatch :: "'s node_io \<Rightarrow> (bytes \<Rightarrow> bytes) \<Rightarrow> 's \<Rightarrow> kv list \<Rightarrow> bytes \<Rightarrow> nat \<Rightarrow> nat \<Rightarrow> nat \<Rightarrow>
    (bytes \<times> 's \<times> kv list) res"
and io_distribute :: "'s node_io \<Rightarrow> (bytes \<Rightarrow> bytes) \<Rightarrow> 's \<Rightarrow> kv list \<Rightarrow> bytes list \<Rightarrow> nat \<Rightarrow> nat \<Rightarrow> nat \<Rightarrow>
    (bytes list \<times> 's \<times> kv list) res" where
  "io_updateBatch io h s arr root lo hi depth =
    (if hi - lo = 0 then Inr (root, s, arr)
     else if depth \<ge> 32 then
       bind_res (io_store_value io h (arr ! (hi - 1)) s) (\<lambda>(root', s'). Inr (root', s', arr))
     else if root = EmptyHash \<and> hi - lo = 1 then
       bind_res (io_store_value io h (arr ! lo) s) (\<lambda>(root', s'). Inr (root', s', arr))
     else
       bind_res (io_join_leaf io s root arr lo hi) (\<lambda>((arr1, lo1, hi1, fresh), s1).
       bind_res (io_load_children io s1 root) (\<lambda>(children, s2).
       bind_res (io_distribute io h s2 arr1 children lo1 hi1 depth) (\<lambda>(children', s3, arr2).
       bind_res (io_collapse io h children' s3) (\<lambda>(root', s').
         Inr (root', s', if fresh then arr else arr2))))))"
| "io_distribute io h s arr children start hi depth =
    (if start \<ge> hi then Inr (children, s, arr)
     else if depth \<ge> 32 then Inl Crash
     else
       let childIdx = fst (arr ! start) ! depth;
           end = group_end arr depth childIdx (start + 1) hi
       in bind_res (io_updateBatch io h s arr (children ! unat childIdx) start end (depth + 1)) (\<lambda>(root', s', arr').
            io_distribute io h s' arr' (children[unat childIdx := root']) end hi depth))"
  by pat_completeness auto
termination
proof (relation "inv_image (less_than <*lex*> less_than <*lex*> less_than)
    (case_sum (\<lambda>(io, h, st, arr, root, lo, hi, depth). (33 - depth, Suc 0, 0 :: nat))
      (\<lambda>(io, h, st, arr, children, start, hi, depth). (33 - depth, 0, hi - start)))", goal_cases)
  case (4 io h st arr children start hi depth childIdx "end")
  then show ?case using group_end_le [of "start + 1" arr depth childIdx hi] by auto
qed auto

declare io_get.simps [simp del] io_updateBatch.simps [simp del] io_distribute.simps [simp del]

definition io_Get :: "'s node_io \<Rightarrow> bytes \<Rightarrow> 's io_smt \<Rightarrow> bytes res \<times> 's io_smt" where
  "io_Get io key s = (case map_of (is_pending s) (arr32 key) of
     Some None \<Rightarrow> (Inl KeyDeleted, s)
   | Some (Some v) \<Rightarrow> (Inr v, s)
   | None \<Rightarrow> (case io_get io (is_nodes s) (is_root s) (arr32 key) 0 of (r, n) \<Rightarrow> (r, s\<lparr>is_nodes := n\<rparr>)))"

definition io_Set :: "bytes \<Rightarrow> bytes option \<Rightarrow> 's io_smt \<Rightarrow> 's io_smt" where
  "io_Set key v s = s\<lparr>is_pending := AList.update (arr32 key) v (is_pending s)\<rparr>"

definition io_Commit :: "'s node_io \<Rightarrow> (bytes \<Rightarrow> bytes) \<Rightarrow> 's io_smt \<Rightarrow> (bytes \<times> 's io_smt) res" where
  "io_Commit io h s =
    (if length (is_pending s) = 0 then Inr (is_root s, s)
     else
       let batch = sort_key fst (is_pending s)
       in bind_res (io_updateBatch io h (is_nodes s) batch (is_root s) 0 (length batch) 0) (\<lambda>(newRoot, n, arr).
            Inr (newRoot, s\<lparr>is_root := newRoot, is_nodes := n, is_pending := []\<rparr>)))"

definition io_Update :: "'s node_io \<Rightarrow> (bytes \<Rightarrow> bytes) \<Rightarrow> bytes \<Rightarrow> bytes option \<Rightarrow> 's io_smt \<Rightarrow> (bytes \<times> 's io_smt) res" where
  "io_Update io h key v s =
    bind_res (io_updateBatch io h (is_nodes s) [(arr32 key, v)] (is_root s) 0 1 0) (\<lambda>(newRoot, n, arr).
      Inr (newRoot, s\<lparr>is_root := newRoot, is_nodes := n\<rparr>))"

definition io_LoadRoot :: "bytes \<Rightarrow> 's io_smt \<Rightarrow> 's io_smt" where
  "io_LoadRoot root s = s\<lparr>is_root := root\<rparr>"

end
