(* ===== verification/SmtStoreSpec.thy ===== *)
theory SmtStoreSpec
  imports SmtStore
begin

text \<open>
  The sparse Merkle tree gives the same results over every access to nodes that gives back what was stored
  under a hash. The locale \<open>node_access\<close> states this law; its lemmas follow the operations call by call.
\<close>

subsection \<open>The interface\<close>

definition ok_store :: "store \<Rightarrow> bool" where
  "ok_store st \<longleftrightarrow> (\<forall>k v. st k = Some v \<longrightarrow> v \<noteq> [])"

definition digests :: "(bytes \<Rightarrow> bytes) \<Rightarrow> bool" where
  "digests h \<longleftrightarrow> (\<forall>x. length (h x) = 32)"

lemma key_arr32: "length k = 32 \<Longrightarrow> arr32 k = k"
  by (simp add: arr32_def)

lemma EmptyHash_length [simp]: "length EmptyHash = 32"
  by (simp add: EmptyHash_def)

lemma slice_size: "slice data a b = Inr x \<Longrightarrow> length x = b - a"
  by (auto simp: slice_def split: if_splits)

lemma bind_InrD: "bind_res r f = Inr y \<Longrightarrow> \<exists>x. r = Inr x \<and> f x = Inr y"
  by (cases r) auto

lemma read_hashes_length: "read_hashes data bitmap ixs offset = Inr hs \<Longrightarrow> length hs = length ixs \<and> (\<forall>x\<in>set hs. length x = 32)"
  by (induction ixs arbitrary: offset hs) (fastforce dest!: bind_InrD slice_size split: if_splits)+

lemma get_node_child: "get_node key depth data = Inr (Inr c) \<Longrightarrow> length c = 32 \<and> depth < 32"
  by (auto simp: get_node_def Let_def dest!: bind_InrD slice_size split: if_splits)

lemma smt_get_node:
  "smt_get st root key depth =
    (if root = EmptyHash then Inl KeyNotFound
     else bind_res (loadNode st root) (\<lambda>data. bind_res (get_node key depth data)
       (\<lambda>x. case x of Inl v \<Rightarrow> Inr v | Inr c \<Rightarrow> smt_get st c key (depth + 1))))"
proof -
  have bind_bind: "bind_res (bind_res r f) g = bind_res r (\<lambda>x. bind_res (f x) g)" for r :: "'x res" and f :: "'x \<Rightarrow> 'y res" and g :: "'y \<Rightarrow> 'z res"
    by (cases r) simp_all
  have id: "bind_res r Inr = r" for r :: "bytes res" by (cases r) simp_all
  have if_bind: "bind_res (if b then x else y) f = (if b then bind_res x f else bind_res y f)" for b and x y :: "(bytes + bytes) res" and f :: "bytes + bytes \<Rightarrow> bytes res"
    by simp
  show ?thesis
    unfolding get_node_def Let_def by (subst smt_get.simps) (simp add: bind_bind if_bind id Let_def cong: if_cong)
qed

text \<open>Results that agree up to the state of the store.\<close>

definition agree :: "('s \<Rightarrow> store \<Rightarrow> bool) \<Rightarrow> ('x \<Rightarrow> bool) \<Rightarrow> ('x \<times> 's \<times> kv list) res \<Rightarrow> ('x \<times> store \<times> kv list) res \<Rightarrow> bool" where
  "agree rel good r r' \<longleftrightarrow> (case r' of Inl e \<Rightarrow> r = Inl e
    | Inr (x, st, arr) \<Rightarrow> good x \<and> (\<exists>s. r = Inr (x, s, arr) \<and> rel s st))"

lemma agree_Inl: "agree rel good (Inl e) (Inl e)"
  by (simp add: agree_def)

lemma agree_Inr: "good x \<Longrightarrow> rel s st \<Longrightarrow> agree rel good (Inr (x, s, arr)) (Inr (x, st, arr))"
  by (simp add: agree_def)

lemma agree_bind:
  assumes "agree rel good r r'" "\<And>x s st arr. r' = Inr (x, st, arr) \<Longrightarrow> good x \<Longrightarrow> rel s st \<Longrightarrow> agree rel good' (f (x, s, arr)) (f' (x, st, arr))"
  shows "agree rel good' (bind_res r f) (bind_res r' f')"
proof (cases r')
  case (Inr y)
  obtain x st arr where y: "y = (x, st, arr)" by (cases y)
  then obtain s where "good x" "r = Inr (x, s, arr)" "rel s st" using assms(1) Inr by (auto simp: agree_def)
  then show ?thesis using assms(2) Inr y by simp
qed (use assms(1) in \<open>simp add: agree_def\<close>)

definition good_children :: "bytes list \<Rightarrow> bool" where
  "good_children children \<longleftrightarrow> length children = 256 \<and> (\<forall>x\<in>set children. length x = 32)"

definition good_hash :: "bytes \<Rightarrow> bool" where
  "good_hash x \<longleftrightarrow> length x = 32"

lemma good_child: "good_children children \<Longrightarrow> i < 256 \<Longrightarrow> length (children ! i) = 32"
  by (simp add: good_children_def)

lemma good_update: "good_children children \<Longrightarrow> good_hash x \<Longrightarrow> good_children (children[i := x])"
  using set_update_subset_insert [of children i x] by (auto simp: good_children_def good_hash_def)

lemma good_empty: "good_children (replicate 256 EmptyHash)"
  by (simp add: good_children_def)

text \<open>Runs of a tree. A run ends with the first \<^verbatim>\<open>Update\<close> or \<^verbatim>\<open>Commit\<close> that fails.\<close>

datatype node_op = NUpdate bytes "bytes option" | NSet bytes "bytes option" | NCommit | NGet bytes | NLoadRoot bytes
datatype node_reply = NRoot bytes | NFail smt_error | NValue "bytes res"

fun io_run :: "'s node_io \<Rightarrow> (bytes \<Rightarrow> bytes) \<Rightarrow> node_op list \<Rightarrow> 's io_smt \<Rightarrow> node_reply list" where
  "io_run io h [] s = []"
| "io_run io h (NUpdate k v # ops) s = (case io_Update io h k v s of
     Inl e \<Rightarrow> [NFail e] | Inr (root, s') \<Rightarrow> NRoot root # io_run io h ops s')"
| "io_run io h (NSet k v # ops) s = io_run io h ops (io_Set k v s)"
| "io_run io h (NCommit # ops) s = (case io_Commit io h s of
     Inl e \<Rightarrow> [NFail e] | Inr (root, s') \<Rightarrow> NRoot root # io_run io h ops s')"
| "io_run io h (NGet k # ops) s = (case io_Get io k s of (r, s') \<Rightarrow> NValue r # io_run io h ops s')"
| "io_run io h (NLoadRoot root # ops) s = io_run io h ops (io_LoadRoot root s)"

fun plain_run :: "(bytes \<Rightarrow> bytes) \<Rightarrow> node_op list \<Rightarrow> smt \<Rightarrow> node_reply list" where
  "plain_run h [] s = []"
| "plain_run h (NUpdate k v # ops) s = (case smt_Update h k v s of
     Inl e \<Rightarrow> [NFail e] | Inr (root, s') \<Rightarrow> NRoot root # plain_run h ops s')"
| "plain_run h (NSet k v # ops) s = plain_run h ops (smt_Set k v s)"
| "plain_run h (NCommit # ops) s = (case smt_Commit h s of
     Inl e \<Rightarrow> [NFail e] | Inr (root, s') \<Rightarrow> NRoot root # plain_run h ops s')"
| "plain_run h (NGet k # ops) s = NValue (smt_Get k s) # plain_run h ops s"
| "plain_run h (NLoadRoot root # ops) s = plain_run h ops (LoadRoot root s)"

definition roots_ok :: "node_op list \<Rightarrow> bool" where
  "roots_ok ops \<longleftrightarrow> (\<forall>root. NLoadRoot root \<in> set ops \<longrightarrow> length root = 32)"

definition same_tree :: "('s \<Rightarrow> store \<Rightarrow> bool) \<Rightarrow> 's io_smt \<Rightarrow> smt \<Rightarrow> bool" where
  "same_tree rel s t \<longleftrightarrow> rel (is_nodes s) (s_store t) \<and> is_root s = s_root t \<and> is_pending s = s_pending t \<and> length (s_root t) = 32"

lemma update_go:
  assumes "\<not> (hi - lo = 0 \<or> depth \<ge> 32 \<or> (root = EmptyHash \<and> hi - lo = 1))"
  shows "updateBatch h st arr root lo hi depth =
      bind_res (join_leaf st root arr lo hi) (\<lambda>(arr1, lo1, hi1, fresh).
      bind_res (load_children st root) (\<lambda>children.
      bind_res (distribute h st arr1 children lo1 hi1 depth) (\<lambda>(children', st2, arr2).
        let (root', st') = collapse h children' st2
        in Inr (root', st', if fresh then arr else arr2))))"
    "io_updateBatch io h s arr root lo hi depth =
      bind_res (io_join_leaf io s root arr lo hi) (\<lambda>((arr1, lo1, hi1, fresh), s1).
      bind_res (io_load_children io s1 root) (\<lambda>(children, s2).
      bind_res (io_distribute io h s2 arr1 children lo1 hi1 depth) (\<lambda>(children', s3, arr2).
      bind_res (io_collapse io h children' s3) (\<lambda>(root', s').
        Inr (root', s', if fresh then arr else arr2)))))"
  using assms unfolding updateBatch.simps [of h st arr root lo hi depth] io_updateBatch.simps [of io h s arr root lo hi depth]
  by (simp_all only: de_Morgan_disj if_False)

locale node_access =
  fixes io :: "'s node_io" and rel :: "'s \<Rightarrow> store \<Rightarrow> bool"
  assumes load: "rel s st \<Longrightarrow> length hash = 32 \<Longrightarrow> \<exists>s'. io_load io hash s = (loadNode st hash, s') \<and> rel s' st"
    and put: "rel s st \<Longrightarrow> length hash = 32 \<Longrightarrow> data \<noteq> [] \<Longrightarrow> \<exists>s'. io_put io hash data s = Inr s' \<and> rel s' (MemoryStore_Set hash data st)"
    and nodes: "rel s st \<Longrightarrow> ok_store st"
begin

lemma get_agrees: "rel s st \<Longrightarrow> length root = 32 \<Longrightarrow> \<exists>s'. io_get io s root key depth = (smt_get st root key depth, s') \<and> rel s' st"
proof (induction "32 - depth" arbitrary: s root depth rule: less_induct)
  case less
  show ?case
  proof (cases "root = EmptyHash")
    case True
    then show ?thesis using less.prems by (simp add: io_get.simps smt_get.simps)
  next
    case False
    from load [OF less.prems] obtain s1 where s1: "io_load io root s = (loadNode st root, s1)" "rel s1 st" by blast
    show ?thesis
    proof (cases "loadNode st root")
      case (Inl e)
      then show ?thesis using False s1 by (simp add: io_get.simps smt_get_node)
    next
      case data: (Inr data)
      show ?thesis
      proof (cases "get_node key depth data")
        case (Inl e)
        then show ?thesis using False s1 data by (simp add: io_get.simps smt_get_node)
      next
        case (Inr x)
        show ?thesis
        proof (cases x)
          case (Inl v)
          then show ?thesis using False s1 data Inr by (simp add: io_get.simps smt_get_node)
        next
          case c: (Inr c)
          note child = get_node_child [OF Inr [unfolded c]]
          then have "32 - (depth + 1) < 32 - depth" by linarith
          from less.hyps [OF this s1(2)] child obtain s2 where
            s2: "io_get io s1 c key (depth + 1) = (smt_get st c key (depth + 1), s2)" "rel s2 st" by blast
          have "smt_get st root key depth = smt_get st c key (depth + 1)"
            using False data Inr c by (subst smt_get_node) simp
          then show ?thesis using False s1 data Inr c child s2 by (subst io_get.simps) simp
        qed
      qed
    qed
  qed
qed

lemma storeLeaf_agrees:
  assumes "rel s st" "digests h"
  shows "\<exists>hs s' st'. io_storeLeaf io h key v s = Inr (hs, s') \<and> storeLeaf h key v st = (hs, st') \<and> rel s' st' \<and> length hs = 32"
proof -
  have l: "length (h (leaf_data key v)) = 32" using assms(2) by (simp add: digests_def)
  moreover have "leaf_data key v \<noteq> []" by (simp add: leaf_data_def)
  ultimately show ?thesis using put [OF assms(1) l] l by (fastforce simp: io_storeLeaf_def storeLeaf_def Let_def)
qed

lemma storeInternal_agrees:
  assumes "rel s st" "digests h"
  shows "\<exists>hs s' st'. io_storeInternal io h children s = Inr (hs, s') \<and> storeInternal h children st = (hs, st') \<and> rel s' st' \<and> length hs = 32"
proof -
  have l: "length (h (internal_data children)) = 32" using assms(2) by (simp add: digests_def)
  moreover have "internal_data children \<noteq> []" by (simp add: internal_data_def Let_def)
  ultimately show ?thesis using put [OF assms(1) l] l by (fastforce simp: io_storeInternal_def storeInternal_def Let_def)
qed

lemma store_value_agrees:
  assumes "rel s st" "digests h"
  shows "\<exists>hs s' st'. io_store_value io h x s = Inr (hs, s') \<and> store_value h x st = (hs, st') \<and> rel s' st' \<and> length hs = 32"
  using storeLeaf_agrees [OF assms] assms(1) by (cases "snd x") (simp_all add: io_store_value_def store_value_def)

lemma join_leaf_agrees:
  assumes "rel s st" "length root = 32"
  shows "case join_leaf st root arr lo hi of Inl e \<Rightarrow> io_join_leaf io s root arr lo hi = Inl e
    | Inr r \<Rightarrow> \<exists>s'. io_join_leaf io s root arr lo hi = Inr (r, s') \<and> rel s' st"
proof (cases "root = EmptyHash")
  case False
  from load [OF assms] obtain s1 where s1: "io_load io root s = (loadNode st root, s1)" "rel s1 st" by blast
  show ?thesis
  proof (cases "loadNode st root")
    case (Inr data)
    then show ?thesis using False s1
      by (cases "at data 0"; cases "slice data 1 33"; cases "slice data 33 (length data)")
        (auto simp: io_join_leaf_def join_leaf_def load_res_def)
  qed (use False s1 in \<open>simp add: io_join_leaf_def join_leaf_def load_res_def\<close>)
qed (use assms in \<open>simp add: io_join_leaf_def join_leaf_def\<close>)

lemma load_children_agrees:
  assumes "rel s st" "length root = 32"
  shows "case load_children st root of Inl e \<Rightarrow> io_load_children io s root = Inl e
    | Inr cs \<Rightarrow> good_children cs \<and> (\<exists>s'. io_load_children io s root = Inr (cs, s') \<and> rel s' st)"
proof (cases "root = EmptyHash")
  case True
  then show ?thesis using assms good_empty by (simp add: io_load_children_def load_children_def)
next
  case False
  from load [OF assms] obtain s1 where s1: "io_load io root s = (loadNode st root, s1)" "rel s1 st" by blast
  show ?thesis
  proof (cases "loadNode st root")
    case (Inl e)
    then show ?thesis using False s1 by (simp add: io_load_children_def load_children_def)
  next
    case data: (Inr data)
    show ?thesis
    proof (cases "at data 0")
      case (Inl e)
      then show ?thesis using False s1 data by (simp add: io_load_children_def load_children_def)
    next
      case t: (Inr t)
      show ?thesis
      proof (cases "t = 0")
        case True
        have "good_children hs" if "read_hashes data bitmap [0..<256] 33 = Inr hs" for bitmap hs
          using read_hashes_length [OF that] by (simp add: good_children_def)
        then show ?thesis using True False s1 data t
          by (cases "read_bitmap data [0..<4]"; cases "read_hashes data (projr (read_bitmap data [0..<4])) [0..<256] 33")
            (auto simp: io_load_children_def load_children_def)
      qed (use False s1 data t good_empty in \<open>simp add: io_load_children_def load_children_def\<close>)
    qed
  qed
qed

lemma collapse_agrees:
  assumes "rel s st" "digests h" "good_children children"
  shows "\<exists>hs s' st'. io_collapse io h children s = Inr (hs, s') \<and> collapse h children st = (hs, st') \<and> rel s' st' \<and> length hs = 32"
proof -
  let ?active = "filter (\<lambda>i. children ! i \<noteq> EmptyHash) [0..<256]"
  show ?thesis
  proof (cases "length ?active = 1")
    case False
    then show ?thesis using storeInternal_agrees [OF assms(1,2)] assms(1) by (simp add: io_collapse_def collapse_def Let_def)
  next
    case True
    then have "last ?active \<in> set ?active" by (intro last_in_set) auto
    then have len: "length (children ! last ?active) = 32" using good_child [OF assms(3)] by simp
    from load [OF assms(1) len] obtain s1 where s1: "io_load io (children ! last ?active) s = (loadNode st (children ! last ?active), s1)" "rel s1 st"
      by blast
    show ?thesis
    proof (cases "loadNode st (children ! last ?active)")
      case (Inl e)
      then have "e = NotFound" by (simp add: loadNode_def MemoryStore_Get_def split: option.splits)
      moreover have "?active \<noteq> []" using True by auto
      ultimately show ?thesis using True Inl s1 storeInternal_agrees [OF s1(2) assms(2)] by (simp add: io_collapse_def collapse_def Let_def)
    next
      case (Inr data)
      then have "data \<noteq> []" using nodes [OF assms(1)] by (auto simp: loadNode_def MemoryStore_Get_def ok_store_def split: option.splits)
      then have "at data 0 = Inr (data ! 0)" by (simp add: at_def)
      moreover have "?active \<noteq> []" using True by auto
      ultimately show ?thesis using True Inr s1 len storeInternal_agrees [OF s1(2) assms(2)] by (simp add: io_collapse_def collapse_def Let_def)
    qed
  qed
qed

lemma update_agrees:
  assumes "digests h"
  shows "rel s st \<Longrightarrow> length root = 32 \<Longrightarrow>
      agree rel good_hash (io_updateBatch io h s arr root lo hi depth) (updateBatch h st arr root lo hi depth)"
    and "rel s st \<Longrightarrow> good_children children \<Longrightarrow>
      agree rel good_children (io_distribute io h s arr children start hi depth) (distribute h st arr children start hi depth)"
  using assms
proof (induction h st arr root lo hi depth and h st arr children start hi depth arbitrary: s and s rule: updateBatch_distribute.induct)
  case (1 h st arr root lo hi depth)
  show ?case
  proof (cases "hi - lo = 0 \<or> depth \<ge> 32 \<or> (root = EmptyHash \<and> hi - lo = 1)")
    case True
    then show ?thesis using 1(2-) store_value_agrees [OF 1(2) 1(4), of "arr ! (hi - 1)"] store_value_agrees [OF 1(2) 1(4), of "arr ! lo"]
      by (auto simp: updateBatch.simps [of h st arr root lo hi depth] io_updateBatch.simps [of io h s arr root lo hi depth] agree_def good_hash_def)
  next
    case go: False
    show ?thesis
    proof (cases "join_leaf st root arr lo hi")
      case (Inl e)
      then show ?thesis using join_leaf_agrees [OF 1(2,3), of arr lo hi] by (simp add: update_go [OF go] agree_Inl)
    next
      case (Inr r)
      obtain arr1 lo1 hi1 fresh where r: "r = (arr1, lo1, hi1, fresh)" by (cases r)
      from join_leaf_agrees [OF 1(2,3), of arr lo hi] obtain s1 where
        s1: "io_join_leaf io s root arr lo hi = Inr ((arr1, lo1, hi1, fresh), s1)" "rel s1 st" by (auto simp: Inr r)
      show ?thesis
      proof (cases "load_children st root")
        case (Inl e)
        then show ?thesis using Inr r s1 load_children_agrees [OF s1(2) 1(3)] by (simp add: update_go [OF go] agree_Inl)
      next
        case cs: (Inr cs)
        from load_children_agrees [OF s1(2) 1(3)] obtain s2 where
          s2: "io_load_children io s1 root = Inr (cs, s2)" "rel s2 st" "good_children cs" by (auto simp: cs)
        have IH: "agree rel good_children (io_distribute io h s2 arr1 cs lo1 hi1 depth) (distribute h st arr1 cs lo1 hi1 depth)"
          by (rule 1(1) [OF _ _ _ Inr [unfolded r] refl refl refl cs s2(2,3) 1(4)]) (use go in auto)
        show ?thesis unfolding update_go [OF go] s1(1) Inr r cs s2(1) bind_res.simps case_prod_conv
        proof (rule agree_bind [OF IH], goal_cases)
          case (1 children s3 st3 arr3)
          from collapse_agrees [OF 1(3) \<open>digests h\<close> 1(2)] show ?case
            using 1 by (auto simp: good_hash_def intro!: agree_Inr)
        qed
      qed
    qed
  qed
next
  case (2 h st arr children start hi depth)
  show ?case
  proof (cases "start \<ge> hi \<or> depth \<ge> 32")
    case True
    then show ?thesis using 2(3-) by (auto simp: distribute.simps [of h st] io_distribute.simps [of io h s] agree_def)
  next
    case False
    let ?b = "fst (arr ! start) ! depth"
    let ?stop = "group_end arr depth ?b (start + 1) hi"
    have b: "unat ?b < 256" using unsigned_less [where ?'a = nat, of ?b] by simp
    have IH: "agree rel good_hash (io_updateBatch io h s arr (children ! unat ?b) start ?stop (depth + 1))
        (updateBatch h st arr (children ! unat ?b) start ?stop (depth + 1))"
      by (rule 2(1)) (use False 2(3-) good_child [OF 2(4) b] in auto)
    have step: "distribute h st arr children start hi depth =
        bind_res (updateBatch h st arr (children ! unat ?b) start ?stop (depth + 1)) (\<lambda>(root', st', arr').
            distribute h st' arr' (children[unat ?b := root']) ?stop hi depth)"
      "io_distribute io h s arr children start hi depth =
        bind_res (io_updateBatch io h s arr (children ! unat ?b) start ?stop (depth + 1)) (\<lambda>(root', s', arr').
            io_distribute io h s' arr' (children[unat ?b := root']) ?stop hi depth)"
      using False unfolding distribute.simps [of h st arr children start hi depth] io_distribute.simps [of io h s arr children start hi depth]
      by (simp_all only: Let_def de_Morgan_disj if_False)
    show ?thesis unfolding step
    proof (rule agree_bind [OF IH], goal_cases)
      case (1 root' s' st' arr')
      then have "good_children (children[unat ?b := root'])" using good_update [OF 2(4)] by blast
      then show ?case using 2(2) False 1 2(5) by auto
    qed
  qed
qed

lemma tree_agrees:
  assumes "same_tree rel s t" "digests h"
  shows "updateBatch h (s_store t) arr (s_root t) 0 n 0 = Inl e \<Longrightarrow> io_updateBatch io h (is_nodes s) arr (is_root s) 0 n 0 = Inl e"
    "updateBatch h (s_store t) arr (s_root t) 0 n 0 = Inr (root, st, arr') \<Longrightarrow>
      \<exists>n'. io_updateBatch io h (is_nodes s) arr (is_root s) 0 n 0 = Inr (root, n', arr') \<and> rel n' st \<and> length root = 32"
  using update_agrees(1) [OF assms(2), of "is_nodes s" "s_store t" "s_root t" arr 0 n 0] assms(1)
  by (auto simp: same_tree_def agree_def good_hash_def)

lemma nodes_run_agrees: "same_tree rel s t \<Longrightarrow> digests h \<Longrightarrow> roots_ok ops \<Longrightarrow> io_run io h ops s = plain_run h ops t"
proof (induction ops arbitrary: s t)
  case (Cons op ops)
  then have ops: "roots_ok ops" by (simp add: roots_ok_def)
  show ?case
  proof (cases op)
    case (NUpdate k v)
    show ?thesis
    proof (cases "updateBatch h (s_store t) [(arr32 k, v)] (s_root t) 0 1 0")
      case (Inl e)
      from tree_agrees(1) [OF Cons.prems(1,2) this] Inl show ?thesis by (simp add: NUpdate io_Update_def smt_Update_def)
    next
      case (Inr r)
      obtain root st arr' where r: "r = (root, st, arr')" by (cases r)
      from tree_agrees(2) [OF Cons.prems(1,2) Inr [unfolded r]] obtain n' where n':
        "io_updateBatch io h (is_nodes s) [(arr32 k, v)] (is_root s) 0 1 0 = Inr (root, n', arr')" "rel n' st" "length root = 32" by blast
      have "same_tree rel (s\<lparr>is_root := root, is_nodes := n'\<rparr>) (t\<lparr>s_root := root, s_store := st\<rparr>)"
        using Cons.prems(1) n' by (simp add: same_tree_def)
      from Cons.IH [OF this Cons.prems(2) ops] show ?thesis using n' Inr r by (simp add: NUpdate io_Update_def smt_Update_def)
    qed
  next
    case (NSet k v)
    have "same_tree rel (io_Set k v s) (smt_Set k v t)" using Cons.prems(1) by (simp add: same_tree_def io_Set_def smt_Set_def)
    from Cons.IH [OF this Cons.prems(2) ops] show ?thesis by (simp add: NSet)
  next
    case NCommit
    have p: "is_pending s = s_pending t" "is_root s = s_root t" using Cons.prems(1) by (simp_all add: same_tree_def)
    let ?batch = "sort_key fst (s_pending t)"
    show ?thesis
    proof (cases "length (s_pending t) = 0")
      case True
      then show ?thesis using Cons.IH [OF Cons.prems(1,2) ops] p by (simp add: NCommit io_Commit_def smt_Commit_def)
    next
      case False
      show ?thesis
      proof (cases "updateBatch h (s_store t) ?batch (s_root t) 0 (length ?batch) 0")
        case (Inl e)
        from tree_agrees(1) [OF Cons.prems(1,2) this] Inl False p show ?thesis by (simp add: NCommit io_Commit_def smt_Commit_def)
      next
        case (Inr r)
        obtain root st arr' where r: "r = (root, st, arr')" by (cases r)
        from tree_agrees(2) [OF Cons.prems(1,2) Inr [unfolded r]] obtain n' where n':
          "io_updateBatch io h (is_nodes s) ?batch (is_root s) 0 (length ?batch) 0 = Inr (root, n', arr')" "rel n' st" "length root = 32" by blast
        have "same_tree rel (s\<lparr>is_root := root, is_nodes := n', is_pending := []\<rparr>) (t\<lparr>s_root := root, s_store := st, s_pending := []\<rparr>)"
          using Cons.prems(1) n' by (simp add: same_tree_def)
        from Cons.IH [OF this Cons.prems(2) ops] show ?thesis using False n' p Inr r
          by (simp add: NCommit io_Commit_def smt_Commit_def)
      qed
    qed
  next
    case (NGet k)
    show ?thesis
    proof (cases "map_of (s_pending t) (arr32 k)")
      case None
      have "rel (is_nodes s) (s_store t)" "length (is_root s) = 32" "is_root s = s_root t" using Cons.prems(1) by (simp_all add: same_tree_def)
      from get_agrees [OF this(1,2), of "arr32 k" 0] this(3) obtain n' where
        n': "io_get io (is_nodes s) (s_root t) (arr32 k) 0 = (smt_get (s_store t) (s_root t) (arr32 k) 0, n')" "rel n' (s_store t)" by auto
      have "same_tree rel (s\<lparr>is_nodes := n'\<rparr>) t" using Cons.prems(1) n' by (simp add: same_tree_def)
      from Cons.IH [OF this Cons.prems(2) ops] show ?thesis using Cons.prems(1) n' None
        by (simp add: NGet io_Get_def smt_Get_def same_tree_def)
    next
      case (Some v)
      then show ?thesis using Cons.IH [OF Cons.prems(1,2) ops] Cons.prems(1)
        by (cases v) (simp_all add: NGet io_Get_def smt_Get_def same_tree_def)
    qed
  next
    case (NLoadRoot root)
    then have "length root = 32" using Cons.prems(3) by (simp add: roots_ok_def)
    then have "same_tree rel (io_LoadRoot root s) (LoadRoot root t)" using Cons.prems(1) by (simp add: same_tree_def io_LoadRoot_def LoadRoot_def)
    from Cons.IH [OF this Cons.prems(2) ops] show ?thesis by (simp add: NLoadRoot)
  qed
qed simp

end

end
