(* ===== verification/SmtStoreTheorems.thy ===== *)
theory SmtStoreTheorems
  imports SmtStoreSpec
begin

text \<open>
  The stores of the sparse Merkle tree: the cache of nodes never answers with anything but what the store has,
  so the results do not depend on it; Pebble is as good as the memory, except inside a batch that cannot be read.
\<close>

subsection \<open>The cache\<close>

definition shard_ok :: "store \<Rightarrow> nat \<Rightarrow> cache_shard \<Rightarrow> bool" where
  "shard_ok st i c \<longleftrightarrow> (\<forall>k p. map_of (cs_items c) k = Some p \<longrightarrow> p < cs_alloc c \<and> sn_key (cs_nodes c p) = k
    \<and> unat (k ! 0) = i \<and> st k = Some (sn_value (cs_nodes c p)))"

definition coherent :: "sharded_nodes option \<Rightarrow> store \<Rightarrow> bool" where
  "coherent sc st \<longleftrightarrow> (case sc of None \<Rightarrow> True | Some sc \<Rightarrow> length sc = 256 \<and> (\<forall>i<256. shard_ok st i (sc ! i)))"

text \<open>The list operations change only the links.\<close>

definition same_values :: "cache_shard \<Rightarrow> cache_shard \<Rightarrow> bool" where
  "same_values c c' \<longleftrightarrow> cs_items c' = cs_items c \<and> cs_alloc c' = cs_alloc c
    \<and> (\<forall>p. sn_key (cs_nodes c' p) = sn_key (cs_nodes c p) \<and> sn_value (cs_nodes c' p) = sn_value (cs_nodes c p))"

lemma same_refl [simp]: "same_values c c"
  by (simp add: same_values_def)

lemma same_trans: "same_values c c' \<Longrightarrow> same_values c' c'' \<Longrightarrow> same_values c c''"
  by (simp add: same_values_def)

lemma same_upd:
  assumes "\<And>n. sn_key (f n) = sn_key n \<and> sn_value (f n) = sn_value n" "same_values c c'"
  shows "same_values c (upd_shard p f c')" "same_values c (upd_at q f c')"
  using assms by (auto simp: same_values_def upd_shard_def upd_at_def split: option.split)

lemma same_ends: "same_values c c' \<Longrightarrow> same_values c (c'\<lparr>cs_head := x\<rparr>)" "same_values c c' \<Longrightarrow> same_values c (c'\<lparr>cs_tail := y\<rparr>)"
  by (simp_all add: same_values_def)

lemma moveToFront_same: "same_values c (shard_moveToFront p c)"
  unfolding shard_moveToFront_def Let_def by (auto intro!: same_upd same_ends)

lemma addToFront_same: "same_values c (shard_addToFront p c)"
  unfolding shard_addToFront_def by (auto intro!: same_upd same_ends split: option.split)

lemma shard_ok_same: "same_values c c' \<Longrightarrow> shard_ok st i c \<Longrightarrow> shard_ok st i c'"
  by (simp add: same_values_def shard_ok_def)

lemma shard_removeTail_ok:
  assumes "shard_ok st i c"
  shows "shard_ok st i (shard_removeTail c)"
proof (cases "cs_tail c")
  case (Some t)
  let ?c = "c\<lparr>cs_items := AList.delete (sn_key (cs_nodes c t)) (cs_items c)\<rparr>"
  let ?d = "case sn_prev (cs_nodes ?c t) of Some q \<Rightarrow> upd_shard q (\<lambda>n. n\<lparr>sn_next := None\<rparr>) (?c\<lparr>cs_tail := Some q\<rparr>)
    | None \<Rightarrow> ?c\<lparr>cs_head := None, cs_tail := None\<rparr>"
  have d: "same_values ?c ?d" by (auto intro!: same_upd same_ends split: option.split)
  have r: "shard_removeTail c = upd_shard t (\<lambda>n. n\<lparr>sn_prev := None, sn_next := None, sn_value := []\<rparr>) ?d"
    by (simp add: shard_removeTail_def Some Let_def)
  show ?thesis unfolding shard_ok_def
  proof (intro allI impI)
    fix k p assume "map_of (cs_items (shard_removeTail c)) k = Some p"
    then have "map_of (AList.delete (sn_key (cs_nodes c t)) (cs_items c)) k = Some p"
      using d by (simp add: r same_values_def upd_shard_def)
    then have k: "map_of (cs_items c) k = Some p" "k \<noteq> sn_key (cs_nodes c t)" by (auto simp: delete_conv' split: if_splits)
    then have p: "p < cs_alloc c" "sn_key (cs_nodes c p) = k" "unat (k ! 0) = i" "st k = Some (sn_value (cs_nodes c p))"
      using assms unfolding shard_ok_def by blast+
    then have "p \<noteq> t" using k(2) by blast
    then show "p < cs_alloc (shard_removeTail c) \<and> sn_key (cs_nodes (shard_removeTail c) p) = k \<and> unat (k ! 0) = i
        \<and> st k = Some (sn_value (cs_nodes (shard_removeTail c) p))"
      using p d by (simp add: r same_values_def upd_shard_def)
  qed
qed (use assms in \<open>simp add: shard_removeTail_def\<close>)

lemma shard_Get_ok:
  assumes "shard_ok st i c"
  shows "shard_ok st i (snd (shard_Get k c))" "fst (shard_Get k c) = Some v \<Longrightarrow> st k = Some v"
proof -
  show "shard_ok st i (snd (shard_Get k c))"
    using assms shard_ok_same [OF moveToFront_same] by (simp add: shard_Get_def Let_def split: option.split)
  show "st k = Some v" if "fst (shard_Get k c) = Some v"
  proof (cases "map_of (cs_items c) k")
    case (Some p)
    then have "v = sn_value (cs_nodes (shard_moveToFront p c) p)" using that by (simp add: shard_Get_def Let_def)
    moreover have "st k = Some (sn_value (cs_nodes c p))" using assms Some unfolding shard_ok_def by blast
    ultimately show ?thesis using moveToFront_same [of c p] by (simp add: same_values_def)
  qed (use that in \<open>simp add: shard_Get_def\<close>)
qed

text \<open>After \<^verbatim>\<open>Add\<close> the shard fits every store that differs from the old one by the added value only.\<close>

lemma shard_Add_ok:
  assumes ok: "shard_ok st i c" and st: "st' = st(k \<mapsto> v)" and k: "unat (k ! 0) = i"
  shows "shard_ok st' i (shard_Add k v c)"
proof (cases "map_of (cs_items c) k")
  case (Some p)
  have "shard_ok st' i (upd_shard p (\<lambda>n. n\<lparr>sn_value := v\<rparr>) c)" unfolding shard_ok_def
  proof (intro allI impI)
    fix k' q assume "map_of (cs_items (upd_shard p (\<lambda>n. n\<lparr>sn_value := v\<rparr>) c)) k' = Some q"
    then have q: "map_of (cs_items c) k' = Some q" by (simp add: upd_shard_def)
    then have "sn_key (cs_nodes c q) = k'" "sn_key (cs_nodes c p) = k" using ok Some unfolding shard_ok_def by blast+
    then have qp: "q = p \<longleftrightarrow> k' = k" using q Some by (metis option.inject)
    show "q < cs_alloc (upd_shard p (\<lambda>n. n\<lparr>sn_value := v\<rparr>) c) \<and> sn_key (cs_nodes (upd_shard p (\<lambda>n. n\<lparr>sn_value := v\<rparr>) c) q) = k'
        \<and> unat (k' ! 0) = i \<and> st' k' = Some (sn_value (cs_nodes (upd_shard p (\<lambda>n. n\<lparr>sn_value := v\<rparr>) c) q))"
    proof -
      have "q < cs_alloc c" "sn_key (cs_nodes c q) = k'" "unat (k' ! 0) = i" "st k' = Some (sn_value (cs_nodes c q))"
        using q ok unfolding shard_ok_def by blast+
      moreover note qp
      ultimately show ?thesis by (cases "k' = k") (simp_all add: upd_shard_def st)
    qed
  qed
  then show ?thesis using shard_ok_same [OF moveToFront_same] by (simp add: shard_Add_def Some)
next
  case None
  let ?c = "if length (cs_items c) \<ge> cs_capacity c then shard_removeTail c else c"
  have c: "shard_ok st i ?c" using ok shard_removeTail_ok by simp
  let ?p = "cs_alloc ?c"
  let ?d = "?c\<lparr>cs_alloc := ?p + 1, cs_nodes := (cs_nodes ?c)(?p := \<lparr>sn_key = k, sn_value = v, sn_prev = None, sn_next = None\<rparr>),
                 cs_items := AList.update k ?p (cs_items ?c)\<rparr>"
  have "shard_ok st' i ?d" unfolding shard_ok_def
  proof (intro allI impI)
    fix k' q assume q: "map_of (cs_items ?d) k' = Some q"
    show "q < cs_alloc ?d \<and> sn_key (cs_nodes ?d q) = k' \<and> unat (k' ! 0) = i \<and> st' k' = Some (sn_value (cs_nodes ?d q))"
    proof (cases "k' = k")
      case True
      then show ?thesis using q k by (auto simp: update_conv' st)
    next
      case False
      then have q: "map_of (cs_items ?c) k' = Some q" using q by (simp add: update_conv')
      then have "q < ?p \<and> sn_key (cs_nodes ?c q) = k' \<and> unat (k' ! 0) = i \<and> st k' = Some (sn_value (cs_nodes ?c q))"
        using c unfolding shard_ok_def by blast
      then show ?thesis using False by (simp add: st)
    qed
  qed
  moreover have "shard_Add k v c = shard_addToFront ?p ?d" by (simp only: shard_Add_def None option.case Let_def)
  ultimately show ?thesis using shard_ok_same [OF addToFront_same] by metis
qed

lemma shard_ok_new: "shard_ok st i (newCacheShard n)"
  by (simp add: shard_ok_def newCacheShard_def)

lemma coherent_new: "coherent (Some (NewShardedNodeCache n)) st"
  by (simp add: coherent_def NewShardedNodeCache_def Let_def ShardCount_def shard_ok_new)

lemma first_byte: "length k = 32 \<Longrightarrow> at k 0 = Inr (k ! 0)" "unat (b :: u8) < 256"
  using unsigned_less [where ?'a = nat, of b] by (simp_all add: at_def)

lemma cache_Get:
  assumes "coherent (Some sc) st" "length k = 32"
  shows "\<exists>r sc'. ShardedNodeCache_Get k sc = Inr (r, sc') \<and> coherent (Some sc') st \<and> (case r of None \<Rightarrow> True | Some v \<Rightarrow> st k = Some v)"
proof -
  let ?i = "unat (k ! 0)"
  have s: "shard_ok st ?i (sc ! ?i)" "length sc = 256" using assms(1) first_byte(2) [of "k ! 0"] by (simp_all add: coherent_def)
  have "shard_ok st i (sc[?i := snd (shard_Get k (sc ! ?i))] ! i)" if "i < 256" for i
    using assms(1) shard_Get_ok(1) [OF s(1), of k] s(2) that by (cases "i = ?i") (simp_all add: coherent_def)
  then have "coherent (Some (sc[?i := snd (shard_Get k (sc ! ?i))])) st" using s(2) by (simp add: coherent_def)
  then show ?thesis using shard_Get_ok(2) [OF s(1), of k] assms(2)
    by (auto simp: ShardedNodeCache_Get_def first_byte key_arr32 case_prod_beta split: option.split)
qed

lemma cache_Add:
  assumes "coherent (Some sc) st" "length k = 32" "st' = st(k \<mapsto> v)"
  shows "\<exists>sc'. ShardedNodeCache_Add k v sc = Inr sc' \<and> coherent (Some sc') st'"
proof -
  let ?i = "unat (k ! 0)"
  have s: "\<And>i. i < 256 \<Longrightarrow> shard_ok st i (sc ! i)" "length sc = 256" using assms(1) by (simp_all add: coherent_def)
  have b: "?i < 256" by (rule first_byte(2))
  have "shard_ok st' i (sc[?i := shard_Add k v (sc ! ?i)] ! i)" if i: "i < 256" for i
  proof (cases "i = ?i")
    case True
    then show ?thesis using shard_Add_ok [OF s(1) [OF b] assms(3)] s(2) b by simp
  next
    case False
    have "st' x = st x" if "unat (x ! 0) = i" for x using that False assms(3) by auto
    then show ?thesis using s(1) [OF i] False by (simp add: shard_ok_def)
  qed
  then show ?thesis using s(2) assms(2) by (auto simp: ShardedNodeCache_Add_def first_byte key_arr32 coherent_def)
qed

subsection \<open>Stores with a cache\<close>

locale raw_store =
  fixes getNode :: "bytes \<Rightarrow> 'd \<Rightarrow> bytes res" and setNode :: "bytes \<Rightarrow> bytes \<Rightarrow> 'd \<Rightarrow> 'd" and holds :: "'d \<Rightarrow> store \<Rightarrow> bool"
  assumes get: "holds d st \<Longrightarrow> length hash = 32 \<Longrightarrow> getNode hash d = loadNode st hash"
    and set: "holds d st \<Longrightarrow> length hash = 32 \<Longrightarrow> data \<noteq> [] \<Longrightarrow> holds (setNode hash data d) (MemoryStore_Set hash data st)"
    and full: "holds d st \<Longrightarrow> ok_store st"

lemma loadNode_32: "length hash = 32 \<Longrightarrow> loadNode st hash = (case st hash of Some v \<Rightarrow> Inr v | None \<Rightarrow> Inl NotFound)"
  by (simp add: loadNode_def MemoryStore_Get_def key_arr32)

context raw_store
begin

lemma cached_load_law:
  assumes "holds (fst s) st \<and> coherent (snd s) st" "length hash = 32"
  shows "\<exists>s'. cached_load getNode hash s = (loadNode st hash, s') \<and> holds (fst s') st \<and> coherent (snd s') st"
proof (cases "snd s")
  case None
  then show ?thesis using assms get by (simp add: cached_load_def)
next
  case (Some sc)
  from cache_Get [of sc st hash] assms obtain r sc1 where g: "ShardedNodeCache_Get hash sc = Inr (r, sc1)" "coherent (Some sc1) st"
    "case r of None \<Rightarrow> True | Some v \<Rightarrow> st hash = Some v" unfolding Some by blast
  note load = get [OF conjunct1 [OF assms(1)] assms(2)]
  show ?thesis
  proof (cases r)
    case (Some v)
    then show ?thesis using g assms \<open>snd s = Some sc\<close> by (simp add: cached_load_def loadNode_32)
  next
    case r: None
    show ?thesis
    proof (cases "st hash")
      case None
      then show ?thesis using r g assms Some load by (simp add: cached_load_def loadNode_32)
    next
      case v: (Some v)
      then have "st = st(hash \<mapsto> v)" by (simp add: map_upd_triv)
      from cache_Add [OF g(2) assms(2) this] obtain sc2 where "ShardedNodeCache_Add hash v sc1 = Inr sc2" "coherent (Some sc2) st" by blast
      then show ?thesis using r g assms Some load v by (simp add: cached_load_def loadNode_32)
    qed
  qed
qed

lemma cached_put_law:
  assumes "holds (fst s) st \<and> coherent (snd s) st" "length hash = 32" "data \<noteq> []"
  shows "\<exists>s'. cached_put setNode hash data s = Inr s' \<and> holds (fst s') (MemoryStore_Set hash data st)
    \<and> coherent (snd s') (MemoryStore_Set hash data st)"
proof (cases "snd s")
  case None
  then show ?thesis using assms set by (simp add: cached_put_def coherent_def)
next
  case (Some sc)
  have "MemoryStore_Set hash data st = st(hash \<mapsto> data)" using assms(2) by (simp add: MemoryStore_Set_def key_arr32)
  from cache_Add [OF _ assms(2) this, of sc] assms(1) obtain sc1 where
    "ShardedNodeCache_Add hash data sc = Inr sc1" "coherent (Some sc1) (MemoryStore_Set hash data st)" unfolding Some by blast
  then show ?thesis using assms set Some by (simp add: cached_put_def)
qed

end

sublocale raw_store \<subseteq> cached: node_access "\<lparr>io_load = cached_load getNode, io_put = cached_put setNode\<rparr>"
  "\<lambda>s st. holds (fst s) st \<and> coherent (snd s) st"
proof unfold_locales
  show "\<exists>s'. io_load \<lparr>io_load = cached_load getNode, io_put = cached_put setNode\<rparr> hash s = (loadNode st hash, s')
      \<and> holds (fst s') st \<and> coherent (snd s') st" if "holds (fst s) st \<and> coherent (snd s) st" "length hash = 32" for s st hash
    using cached_load_law [OF that] by (simp only: node_io.simps)
  show "\<exists>s'. io_put \<lparr>io_load = cached_load getNode, io_put = cached_put setNode\<rparr> hash data s = Inr s'
      \<and> holds (fst s') (MemoryStore_Set hash data st) \<and> coherent (snd s') (MemoryStore_Set hash data st)"
    if "holds (fst s) st \<and> coherent (snd s) st" "length hash = 32" "data \<noteq> []" for s st hash data
    using cached_put_law [OF that] by (simp only: node_io.simps)
qed (use full in blast)

interpretation memory: raw_store "\<lambda>hash st. MemoryStore_Get st hash" MemoryStore_Set "\<lambda>d st. d = st \<and> ok_store st"
  by unfold_locales (auto simp: loadNode_def ok_store_def MemoryStore_Set_def split: if_splits)

text \<open>Pebble: the open batch, if there is one, has to answer with what was written to it.\<close>

definition reads_own :: "(write_task list \<Rightarrow> bytes \<Rightarrow> bytes option) \<Rightarrow> bool" where
  "reads_own bget \<longleftrightarrow> (\<forall>k. bget [] k = None) \<and> (\<forall>b k v k'. bget (b @ [put_task k v]) k' = (if k' = k then Some v else bget b k'))"

definition pebble_holds :: "'d pebble \<Rightarrow> (write_task list \<Rightarrow> bytes \<Rightarrow> bytes option) \<Rightarrow> 'd pebble_store \<Rightarrow> store \<Rightarrow> bool" where
  "pebble_holds P bget d st \<longleftrightarrow> kv_laws P \<and> (pb_batch d \<noteq> None \<longrightarrow> reads_own bget)
    \<and> (\<forall>k. length k = 32 \<longrightarrow> PebbleStore_Get P bget k d = loadNode st k) \<and> ok_store st"

lemma ok_store_Set: "ok_store st \<Longrightarrow> data \<noteq> [] \<Longrightarrow> ok_store (MemoryStore_Set hash data st)"
  by (simp add: ok_store_def MemoryStore_Set_def)

lemma kv_put: "kv_laws P \<Longrightarrow> kv_get P k (p_commit P [put_task hash data] d) = (if k = hash then Some data else kv_get P k d)"
  by (simp add: get_commit apply_task_def put_task_def) (simp add: kv_get_def)

interpretation pebble: raw_store "PebbleStore_Get P bget" "PebbleStore_Set P" "pebble_holds P bget" for P bget
proof unfold_locales
  show "PebbleStore_Get P bget hash d = loadNode st hash" if "pebble_holds P bget d st" "length hash = 32" for d st hash
    using that by (simp add: pebble_holds_def)
  show "ok_store st" if "pebble_holds P bget d st" for d st using that by (simp add: pebble_holds_def)
  show "pebble_holds P bget (PebbleStore_Set P hash data d) (MemoryStore_Set hash data st)"
    if d: "pebble_holds P bget d st" and hash: "length hash = 32" and data: "data \<noteq> []" for d st hash data
  proof -
    have P: "kv_laws P" and own: "pb_batch d \<noteq> None \<Longrightarrow> reads_own bget" and ok: "ok_store st"
      and old: "\<And>k. length k = 32 \<Longrightarrow> PebbleStore_Get P bget k d = loadNode st k" using d by (simp_all add: pebble_holds_def)
    have "PebbleStore_Get P bget k (PebbleStore_Set P hash data d) = loadNode (MemoryStore_Set hash data st) k" if k: "length k = 32" for k
    proof -
      have new: "loadNode (MemoryStore_Set hash data st) k = (if k = hash then Inr data else loadNode st k)"
        using hash k by (simp add: loadNode_32 MemoryStore_Set_def key_arr32)
      show ?thesis
      proof (cases "pb_batch d")
        case None
        then show ?thesis using old [OF k] kv_put [OF P, of k hash data "pb_db d"]
          by (simp add: new PebbleStore_Get_def PebbleStore_Set_def pebble_write_def Let_def)
      next
        case (Some b)
        then have "bget (b @ [put_task hash data]) k = (if k = hash then Some data else bget b k)" using own by (simp add: reads_own_def)
        then show ?thesis using old [OF k] Some
          by (simp add: new PebbleStore_Get_def PebbleStore_Set_def pebble_write_def Let_def)
      qed
    qed
    moreover have "pb_batch (PebbleStore_Set P hash data d) \<noteq> None \<longrightarrow> reads_own bget"
      using own by (auto simp: PebbleStore_Set_def pebble_write_def split: option.splits)
    ultimately show ?thesis using P ok_store_Set [OF ok data] by (simp add: pebble_holds_def)
  qed
qed

subsection \<open>Properties\<close>

lemma new_tree:
  assumes "holds d (Map.empty :: store)"
  shows "same_tree (\<lambda>s st. holds (fst s) st \<and> coherent (snd s) st) (NewSMT_io d cacheSize) NewSMT"
  using assms coherent_new by (simp add: same_tree_def NewSMT_io_def NewSMT_def) (simp add: coherent_def)

text \<open>C12. The results of a tree, the roots, the values read and the first error, do not depend on where it keeps its
  nodes: with a cache of any size or none, in memory, on Pebble outside a batch, and inside a batch that answers
  with what was written to it. (32-byte digests; nothing is assumed on collisions.)\<close>

theorem node_stores_agree:
  assumes "digests h" "roots_ok ops" "kv_laws P" "\<forall>k. kv_get P k d = None" "reads_own own"
  shows "io_run memory_io h ops (NewSMT_io Map.empty cacheSize) = plain_run h ops NewSMT
    \<and> io_run (pebble_io P bget) h ops (NewSMT_io \<lparr>pb_db = d, pb_batch = None\<rparr> cacheSize) = plain_run h ops NewSMT
    \<and> io_run (pebble_io P own) h ops (NewSMT_io (StartBatch \<lparr>pb_db = d, pb_batch = None\<rparr>) cacheSize) = plain_run h ops NewSMT"
proof (intro conjI)
  have empty: "loadNode Map.empty k = Inl NotFound" for k by (simp add: loadNode_def MemoryStore_Get_def)
  have ok: "ok_store Map.empty" by (simp add: ok_store_def)
  show "io_run memory_io h ops (NewSMT_io Map.empty cacheSize) = plain_run h ops NewSMT"
    unfolding memory_io_def by (rule memory.cached.nodes_run_agrees [OF new_tree assms(1,2)]) (simp add: ok)
  show "io_run (pebble_io P bget) h ops (NewSMT_io \<lparr>pb_db = d, pb_batch = None\<rparr> cacheSize) = plain_run h ops NewSMT"
    unfolding pebble_io_def
    by (rule pebble.cached.nodes_run_agrees [OF new_tree assms(1,2)])
      (use assms in \<open>simp add: pebble_holds_def PebbleStore_Get_def ok empty\<close>)
  show "io_run (pebble_io P own) h ops (NewSMT_io (StartBatch \<lparr>pb_db = d, pb_batch = None\<rparr>) cacheSize) = plain_run h ops NewSMT"
    unfolding pebble_io_def
    by (rule pebble.cached.nodes_run_agrees [OF new_tree assms(1,2)])
      (use assms in \<open>simp add: pebble_holds_def PebbleStore_Get_def StartBatch_def reads_own_def ok empty\<close>)
qed

definition demo_own :: "write_task list \<Rightarrow> bytes \<Rightarrow> bytes option" where
  "demo_own b k = map_option (\<lambda>t. the (wt_value t)) (List.find (\<lambda>t. wt_key t = k) (rev b))"

lemma demo_own: "reads_own demo_own"
  by (simp add: reads_own_def demo_own_def put_task_def)

lemma demo_store_empty: "\<forall>k. kv_get demo_kv k [] = None"
  by (simp add: kv_get_def demo_lookup)

lemma node_stores_agree_witness:
  "io_run (pebble_io demo_kv demo_own) (\<lambda>x. take 32 (x @ replicate 32 7)) [NUpdate [1] (Some [5]), NGet [1], NLoadRoot EmptyHash, NGet [1]]
      (NewSMT_io (StartBatch \<lparr>pb_db = [], pb_batch = None\<rparr>) 1000) =
    plain_run (\<lambda>x. take 32 (x @ replicate 32 7)) [NUpdate [1] (Some [5]), NGet [1], NLoadRoot EmptyHash, NGet [1]] NewSMT"
proof -
  have "min (length x) 32 + (32 - length x) = 32" for x :: bytes by simp
  then have "digests (\<lambda>x. take 32 (x @ replicate 32 7))" by (simp add: digests_def)
  from node_stores_agree [OF this _ demo_kv_laws demo_store_empty demo_own, of "[NUpdate [1] (Some [5]), NGet [1], NLoadRoot EmptyHash, NGet [1]]" 1000 demo_own]
  show ?thesis by (simp add: roots_ok_def)
qed

subsection \<open>A batch that cannot be read\<close>

lemma get_node_leaf: "length key = 32 \<Longrightarrow> get_node key depth (leaf_data key v) = Inr (Inl v)"
  by (simp add: get_node_def at_def leaf_data_def slice_def)

definition in_batch :: "'d \<Rightarrow> write_task list \<Rightarrow> 'd pebble_store \<times> sharded_nodes option" where
  "in_batch d b = (\<lparr>pb_db = d, pb_batch = Some b\<rparr>, None)"

definition blind :: "(write_task list \<Rightarrow> bytes \<Rightarrow> bytes option) \<Rightarrow> bool" where
  "blind bget \<longleftrightarrow> (\<forall>b k. bget b k = None)"

lemma batch_load: "blind bget \<Longrightarrow> io_load (pebble_io P bget) hash (in_batch d b) =
    ((case kv_get P hash d of None \<Rightarrow> Inl NotFound | Some v \<Rightarrow> Inr v), in_batch d b)"
  by (simp add: pebble_io_def cached_load_def in_batch_def PebbleStore_Get_def blind_def)

lemma batch_put: "io_put (pebble_io P bget) hash data (in_batch d b) = Inr (in_batch d (b @ [put_task hash data]))"
  by (simp add: pebble_io_def cached_put_def in_batch_def PebbleStore_Set_def pebble_write_def)

lemma batch_leaf: "io_store_value (pebble_io P bget) h (key, Some v) (in_batch d b) =
    Inr (h (leaf_data key v), in_batch d (b @ [put_task (h (leaf_data key v)) (leaf_data key v)]))"
  by (simp add: io_store_value_def io_storeLeaf_def batch_put Let_def)

lemma only_child:
  assumes "x \<noteq> e" "i < n"
  shows "filter (\<lambda>j. (replicate n e)[i := x] ! j \<noteq> e) [0..<n] = [i]"
proof -
  have "filter (\<lambda>j. (replicate n e)[i := x] ! j \<noteq> e) [0..<n] = filter (\<lambda>j. j = i) [0..<n]"
    using assms by (intro filter_cong refl) (auto simp: nth_list_update)
  also have "\<dots> = [i]" using assms(2) by (induction n) (auto simp: filter_empty_conv)
  finally show ?thesis .
qed

text \<open>An update of the only key, whose leaf is in the database.\<close>

lemma batch_update:
  assumes bl: "blind bget" and key: "length key = 32" and root: "root \<noteq> EmptyHash" "kv_get P root d = Some (leaf_data key v)"
    and new: "h (leaf_data key w) \<noteq> EmptyHash" "kv_get P (h (leaf_data key w)) d = None"
  shows "\<exists>n. io_updateBatch (pebble_io P bget) h (in_batch d b) [(key, Some w)] root 0 1 0 =
    Inr (h (internal_data ((replicate 256 EmptyHash)[unat (key ! 0) := h (leaf_data key w)])), n, [(key, Some w)])"
proof -
  let ?io = "pebble_io P bget" and ?s = "in_batch d b" and ?i = "unat (key ! 0)"
  let ?children = "(replicate 256 EmptyHash)[?i := h (leaf_data key w)]"
  let ?s1 = "in_batch d (b @ [put_task (h (leaf_data key w)) (leaf_data key w)])"
  have i: "?i < 256" by (rule first_byte(2))
  have go: "\<not> (1 - 0 = (0 :: nat) \<or> (0 :: nat) \<ge> 32 \<or> (root = EmptyHash \<and> 1 - 0 = (1 :: nat)))" using root(1) by simp
  have t: "at (leaf_data key v) 0 = Inr 1" "slice (leaf_data key v) 1 33 = Inr key"
    "slice (leaf_data key v) 33 (length (leaf_data key v)) = Inr v"
    using key by (simp_all add: at_def leaf_data_def slice_def)
  have join: "io_join_leaf ?io ?s root [(key, Some w)] 0 1 = Inr (([(key, Some w)], 0, 1, False), ?s)"
    using root by (simp add: io_join_leaf_def batch_load [OF bl] load_res_def t t(2) [unfolded One_nat_def])
  have load: "io_load_children ?io ?s root = Inr (replicate 256 EmptyHash, ?s)"
    using root by (simp add: io_load_children_def batch_load [OF bl] t)
  have "group_end [(key, Some w)] 0 (key ! 0) 1 1 = 1" by (subst group_end.simps) simp
  moreover have "io_updateBatch ?io h ?s [(key, Some w)] EmptyHash 0 1 1 = Inr (h (leaf_data key w), ?s1, [(key, Some w)])"
    by (subst io_updateBatch.simps) (simp add: batch_leaf)
  moreover have "io_distribute ?io h ?s1 [(key, Some w)] ?children 1 1 0 = Inr (?children, ?s1, [(key, Some w)])"
    by (subst io_distribute.simps) simp
  ultimately have dist: "io_distribute ?io h ?s [(key, Some w)] (replicate 256 EmptyHash) 0 1 0 = Inr (?children, ?s1, [(key, Some w)])"
    using i by (subst io_distribute.simps) (simp add: Let_def)
  have active: "filter (\<lambda>j. ?children ! j \<noteq> EmptyHash) [0..<256] = [?i]" by (rule only_child [OF new(1) i])
  have child: "?children ! ?i = h (leaf_data key w)" using i by simp
  have "io_collapse ?io h ?children ?s1 = io_storeInternal ?io h ?children ?s1"
    unfolding io_collapse_def Let_def active by (simp add: child batch_load [OF bl] new(2))
  then have "\<exists>n. io_collapse ?io h ?children ?s1 = Inr (h (internal_data ?children), n)"
    by (simp add: io_storeInternal_def Let_def batch_put)
  then show ?thesis unfolding update_go(2) [OF go] join load bind_res.simps case_prod_conv dist by auto
qed

text \<open>The same in memory: the root is the leaf.\<close>

lemma plain_update:
  assumes key: "length key = 32" and root: "root \<noteq> EmptyHash" "loadNode st root = Inr (leaf_data key v)"
    and new: "digests h" "h (leaf_data key w) \<noteq> EmptyHash"
  shows "\<exists>st'. updateBatch h st [(key, Some w)] root 0 1 0 = Inr (h (leaf_data key w), st', [(key, Some w)])"
proof -
  let ?i = "unat (key ! 0)" and ?leaf = "h (leaf_data key w)"
  let ?children = "(replicate 256 EmptyHash)[?i := ?leaf]" and ?st = "MemoryStore_Set ?leaf (leaf_data key w) st"
  have i: "?i < 256" by (rule first_byte(2))
  have go: "\<not> (1 - 0 = (0 :: nat) \<or> (0 :: nat) \<ge> 32 \<or> (root = EmptyHash \<and> 1 - 0 = (1 :: nat)))" using root(1) by simp
  have t: "at (leaf_data key v) 0 = Inr 1" "slice (leaf_data key v) 1 33 = Inr key"
    "slice (leaf_data key v) 33 (length (leaf_data key v)) = Inr v"
    using key by (simp_all add: at_def leaf_data_def slice_def)
  have join: "join_leaf st root [(key, Some w)] 0 1 = Inr ([(key, Some w)], 0, 1, False)"
    using root by (simp add: join_leaf_def t t(2) [unfolded One_nat_def])
  have load: "load_children st root = Inr (replicate 256 EmptyHash)" using root by (simp add: load_children_def t)
  have "group_end [(key, Some w)] 0 (key ! 0) 1 1 = 1" by (subst group_end.simps) simp
  moreover have "updateBatch h st [(key, Some w)] EmptyHash 0 1 1 = Inr (?leaf, ?st, [(key, Some w)])"
    by (subst updateBatch.simps) (simp add: store_value_def storeLeaf_def Let_def)
  moreover have "distribute h ?st [(key, Some w)] ?children 1 1 0 = Inr (?children, ?st, [(key, Some w)])"
    by (subst distribute.simps) simp
  ultimately have dist: "distribute h st [(key, Some w)] (replicate 256 EmptyHash) 0 1 0 = Inr (?children, ?st, [(key, Some w)])"
    using i by (subst distribute.simps) (simp add: Let_def)
  have active: "filter (\<lambda>j. ?children ! j \<noteq> EmptyHash) [0..<256] = [?i]" by (rule only_child [OF new(2) i])
  have "length ?leaf = 32" using new(1) by (simp add: digests_def)
  then have child: "?children ! ?i = ?leaf" "loadNode ?st ?leaf = Inr (leaf_data key w)" "at (leaf_data key w) 0 = Inr 1"
    using i by (simp_all add: loadNode_32 MemoryStore_Set_def key_arr32 at_def leaf_data_def)
  have "collapse h ?children ?st = (?leaf, ?st)" unfolding collapse_def Let_def active by (simp only: last.simps if_True child) (simp add: child)
  then show ?thesis unfolding update_go(1) [OF go] join load bind_res.simps case_prod_conv dist by (simp add: Let_def)
qed

lemma io_first:
  "io_updateBatch io h s [(key, Some v)] EmptyHash 0 1 0 =
    bind_res (io_store_value io h (key, Some v) s) (\<lambda>(root', s'). Inr (root', s', [(key, Some v)]))"
  by (subst io_updateBatch.simps) simp

text \<open>The first update of an empty tree, in a batch.\<close>

lemma batch_first:
  assumes "kv_laws P" "blind bget" "\<forall>k. kv_get P k d = None" "length key = 32" "h (leaf_data key v) \<noteq> EmptyHash"
  shows "\<exists>s. io_Update (pebble_io P bget) h key (Some v) (NewSMT_io (StartBatch \<lparr>pb_db = d, pb_batch = None\<rparr>) 0) = Inr (h (leaf_data key v), s)
      \<and> fst (io_Get (pebble_io P bget) key s) = Inl NotFound \<and> io_Update (pebble_io P bget) h key2 x s = Inl NotFound
      \<and> fst (io_Get (pebble_io P bget) key (s\<lparr>is_nodes := (FinishBatch P (fst (is_nodes s)), None)\<rparr>)) = Inr v"
proof -
  let ?io = "pebble_io P bget" and ?leaf = "h (leaf_data key v)" and ?data = "leaf_data key v"
  have key: "arr32 key = key" by (rule key_arr32 [OF assms(4)])
  have start: "NewSMT_io (StartBatch \<lparr>pb_db = d, pb_batch = None\<rparr>) 0 = \<lparr>is_nodes = in_batch d [], is_root = EmptyHash, is_pending = []\<rparr>"
    by (simp add: NewSMT_io_def StartBatch_def in_batch_def)
  let ?s = "\<lparr>is_nodes = in_batch d [put_task ?leaf ?data], is_root = ?leaf, is_pending = []\<rparr>"
  have first: "io_Update ?io h key (Some v) (NewSMT_io (StartBatch \<lparr>pb_db = d, pb_batch = None\<rparr>) 0) = Inr (?leaf, ?s)"
    by (simp add: start io_Update_def key io_first [unfolded One_nat_def] batch_leaf)
  have lost: "io_load ?io ?leaf (in_batch d b) = (Inl NotFound, in_batch d b)" for b
    using assms(3) by (simp add: batch_load [OF assms(2)])
  have "io_get ?io (in_batch d b) ?leaf key 0 = (Inl NotFound, in_batch d b)" for b
    using assms(5) by (subst io_get.simps) (simp add: lost)
  then have noGet: "fst (io_Get ?io key ?s) = Inl NotFound" by (simp add: io_Get_def key)
  have go: "\<not> (1 - 0 = (0 :: nat) \<or> (0 :: nat) \<ge> 32 \<or> (?leaf = EmptyHash \<and> 1 - 0 = (1 :: nat)))" using assms(5) by simp
  have "io_join_leaf ?io (in_batch d b) ?leaf arr lo hi = Inl NotFound" for b arr lo hi
    using assms(5) by (simp add: io_join_leaf_def lost load_res_def)
  then have noUpdate: "io_Update ?io h key2 x ?s = Inl NotFound" by (simp add: io_Update_def update_go(2) [OF go, unfolded One_nat_def])
  let ?d = "p_commit P [put_task ?leaf ?data] d"
  have stored: "kv_get P k ?d = (if k = ?leaf then Some ?data else None)" for k using kv_put [OF assms(1)] assms(3) by simp
  have after: "io_get ?io (\<lparr>pb_db = ?d, pb_batch = None\<rparr>, None) ?leaf key 0 = (Inr v, (\<lparr>pb_db = ?d, pb_batch = None\<rparr>, None))"
    using assms(5) by (subst io_get.simps)
      (simp add: pebble_io_def cached_load_def PebbleStore_Get_def stored get_node_leaf [OF assms(4)])
  have finish: "?s\<lparr>is_nodes := (FinishBatch P (fst (is_nodes ?s)), None)\<rparr> =
      \<lparr>is_nodes = (\<lparr>pb_db = ?d, pb_batch = None\<rparr>, None), is_root = ?leaf, is_pending = []\<rparr>"
    by (simp add: in_batch_def FinishBatch_def)
  have "fst (io_Get ?io key (?s\<lparr>is_nodes := (FinishBatch P (fst (is_nodes ?s)), None)\<rparr>)) = Inr v"
    unfolding finish by (simp add: io_Get_def key after)
  then show ?thesis using first noGet noUpdate by blast
qed

text \<open>The second update of a key, in a batch and in memory.\<close>

lemma batch_second:
  assumes "kv_laws P" "blind bget" "\<forall>k. kv_get P k d = None" "length key = 32"
    "h (leaf_data key v) \<noteq> EmptyHash" "h (leaf_data key w) \<noteq> EmptyHash" "h (leaf_data key w) \<noteq> h (leaf_data key v)"
  shows "\<exists>s s'. io_Update (pebble_io P bget) h key (Some v) (NewSMT_io \<lparr>pb_db = d, pb_batch = None\<rparr> 0) = Inr (h (leaf_data key v), s)
      \<and> io_Update (pebble_io P bget) h key (Some w) (s\<lparr>is_nodes := (StartBatch (fst (is_nodes s)), None)\<rparr>) =
          Inr (h (internal_data ((replicate 256 EmptyHash)[unat (key ! 0) := h (leaf_data key w)])), s')"
proof -
  let ?io = "pebble_io P bget" and ?leaf = "h (leaf_data key v)" and ?data = "leaf_data key v"
  have key: "arr32 key = key" by (rule key_arr32 [OF assms(4)])
  let ?d = "p_commit P [put_task ?leaf ?data] d"
  have stored: "kv_get P k ?d = (if k = ?leaf then Some ?data else None)" for k using kv_put [OF assms(1)] assms(3) by simp
  let ?t = "\<lparr>is_nodes = (\<lparr>pb_db = ?d, pb_batch = None\<rparr>, None), is_root = ?leaf, is_pending = []\<rparr>"
  have "io_store_value ?io h (key, Some v) (\<lparr>pb_db = d, pb_batch = None\<rparr>, None) = Inr (?leaf, (\<lparr>pb_db = ?d, pb_batch = None\<rparr>, None))"
    by (simp add: io_store_value_def io_storeLeaf_def pebble_io_def cached_put_def PebbleStore_Set_def pebble_write_def Let_def)
  then have t: "io_Update ?io h key (Some v) (NewSMT_io \<lparr>pb_db = d, pb_batch = None\<rparr> 0) = Inr (?leaf, ?t)"
    by (simp add: NewSMT_io_def io_Update_def key io_first [unfolded One_nat_def])
  have nodes: "?t\<lparr>is_nodes := (StartBatch (fst (is_nodes ?t)), None)\<rparr> = \<lparr>is_nodes = in_batch ?d [], is_root = ?leaf, is_pending = []\<rparr>"
    by (simp add: in_batch_def StartBatch_def)
  have "\<exists>n. io_updateBatch ?io h (in_batch ?d []) [(key, Some w)] ?leaf 0 1 0 =
      Inr (h (internal_data ((replicate 256 EmptyHash)[unat (key ! 0) := h (leaf_data key w)])), n, [(key, Some w)])"
    by (rule batch_update [where v = v]) (use assms(2,4,5,6) stored assms(7) in simp_all)
  then have "\<exists>s'. io_Update ?io h key (Some w) (?t\<lparr>is_nodes := (StartBatch (fst (is_nodes ?t)), None)\<rparr>) =
      Inr (h (internal_data ((replicate 256 EmptyHash)[unat (key ! 0) := h (leaf_data key w)])), s')"
    unfolding nodes by (auto simp: io_Update_def key)
  then show ?thesis using t by blast
qed

lemma plain_second:
  assumes "digests h" "length key = 32" "h (leaf_data key v) \<noteq> EmptyHash" "h (leaf_data key w) \<noteq> EmptyHash"
  shows "plain_run h [NUpdate key (Some v), NUpdate key (Some w)] NewSMT = [NRoot (h (leaf_data key v)), NRoot (h (leaf_data key w))]"
proof -
  let ?leaf = "h (leaf_data key v)" and ?data = "leaf_data key v"
  have key: "arr32 key = key" by (rule key_arr32 [OF assms(2)])
  have "updateBatch h st [(key, Some v)] EmptyHash 0 1 0 = Inr (?leaf, MemoryStore_Set ?leaf ?data st, [(key, Some v)])" for st
    by (subst updateBatch.simps) (simp add: store_value_def storeLeaf_def Let_def)
  then have one: "smt_Update h key (Some v) NewSMT = Inr (?leaf, NewSMT\<lparr>s_root := ?leaf, s_store := MemoryStore_Set ?leaf ?data Map.empty\<rparr>)"
    by (simp add: smt_Update_def NewSMT_def key)
  have "length ?leaf = 32" using assms(1) by (simp add: digests_def)
  then have "loadNode (MemoryStore_Set ?leaf ?data Map.empty) ?leaf = Inr ?data" by (simp add: loadNode_32 MemoryStore_Set_def key_arr32)
  from plain_update [OF assms(2,3) this assms(1,4)] obtain st' where
    "updateBatch h (MemoryStore_Set ?leaf ?data Map.empty) [(key, Some w)] ?leaf 0 1 0 = Inr (h (leaf_data key w), st', [(key, Some w)])" by blast
  then show ?thesis by (simp add: one) (simp add: smt_Update_def key)
qed

lemma leaf_internal_data: "leaf_data key v \<noteq> internal_data hs"
  by (simp add: leaf_data_def internal_data_def Let_def)

text \<open>C13. Inside a batch of \<^verbatim>\<open>NewBatch\<close>, which is documented to be write-only, Pebble does not answer with what the
  batch wrote, and without the node cache the tree does not work; shown here on a tree of one key. (1) After the first
  update of an empty tree neither its key can be read nor any key be updated before \<^verbatim>\<open>FinishBatch\<close>; after it
  the key can be read. (2) Updating a key that was stored before the batch succeeds, but makes an internal node
  with one child where the tree in memory has the leaf. So the two roots differ, when the hash
  function does not collide on the strings of these two nodes.\<close>

theorem unreadable_batch_breaks_tree:
  assumes "kv_laws P" "digests h" "blind bget" "\<forall>k. kv_get P k d = None" "length key = 32"
    "h (leaf_data key v) \<noteq> EmptyHash" "h (leaf_data key w) \<noteq> EmptyHash" "h (leaf_data key w) \<noteq> h (leaf_data key v)"
    "inj_on h {leaf_data key w, internal_data ((replicate 256 EmptyHash)[unat (key ! 0) := h (leaf_data key w)])}"
  shows "(\<exists>s. io_Update (pebble_io P bget) h key (Some v) (NewSMT_io (StartBatch \<lparr>pb_db = d, pb_batch = None\<rparr>) 0) = Inr (h (leaf_data key v), s)
      \<and> fst (io_Get (pebble_io P bget) key s) = Inl NotFound \<and> io_Update (pebble_io P bget) h key2 x s = Inl NotFound
      \<and> fst (io_Get (pebble_io P bget) key (s\<lparr>is_nodes := (FinishBatch P (fst (is_nodes s)), None)\<rparr>)) = Inr v)
    \<and> (\<exists>s s' root root'. io_Update (pebble_io P bget) h key (Some v) (NewSMT_io \<lparr>pb_db = d, pb_batch = None\<rparr> 0) = Inr (h (leaf_data key v), s)
      \<and> io_Update (pebble_io P bget) h key (Some w) (s\<lparr>is_nodes := (StartBatch (fst (is_nodes s)), None)\<rparr>) = Inr (root', s')
      \<and> plain_run h [NUpdate key (Some v), NUpdate key (Some w)] NewSMT = [NRoot (h (leaf_data key v)), NRoot root]
      \<and> root' \<noteq> root)"
proof -
  have "h (internal_data ((replicate 256 EmptyHash)[unat (key ! 0) := h (leaf_data key w)])) \<noteq> h (leaf_data key w)"
    using assms(9) leaf_internal_data [of key w] by (auto simp: inj_on_def)
  then show ?thesis
    using batch_first [where h = h and key = key and v = v, OF assms(1,3,4,5,6)]
      batch_second [where h = h and key = key and v = v and w = w, OF assms(1,3-8)]
      plain_second [where h = h and key = key and v = v and w = w, OF assms(2,5,6,7)]
    by blast
qed

definition demo_digest :: "bytes \<Rightarrow> bytes" where
  "demo_digest x = take 32 (rev x @ replicate 32 7)"

lemma demo_digest_digests: "digests demo_digest"
proof -
  have "min (length x) 32 + (32 - length x) = 32" for x :: bytes by simp
  then show ?thesis by (simp add: digests_def demo_digest_def)
qed

lemma unreadable_batch_breaks_tree_witness:
  "(\<exists>s. io_Update (pebble_io demo_kv (\<lambda>b k. None)) demo_digest (replicate 32 1) (Some [5])
        (NewSMT_io (StartBatch \<lparr>pb_db = [], pb_batch = None\<rparr>) 0) = Inr (5 # replicate 31 1, s)
      \<and> fst (io_Get (pebble_io demo_kv (\<lambda>b k. None)) (replicate 32 1) s) = Inl NotFound
      \<and> io_Update (pebble_io demo_kv (\<lambda>b k. None)) demo_digest (replicate 32 2) (Some [6]) s = Inl NotFound
      \<and> fst (io_Get (pebble_io demo_kv (\<lambda>b k. None)) (replicate 32 1)
          (s\<lparr>is_nodes := (FinishBatch demo_kv (fst (is_nodes s)), None)\<rparr>)) = Inr [5])
    \<and> (\<exists>s s' root root'. io_Update (pebble_io demo_kv (\<lambda>b k. None)) demo_digest (replicate 32 1) (Some [5])
        (NewSMT_io \<lparr>pb_db = [], pb_batch = None\<rparr> 0) = Inr (5 # replicate 31 1, s)
      \<and> io_Update (pebble_io demo_kv (\<lambda>b k. None)) demo_digest (replicate 32 1) (Some [6])
          (s\<lparr>is_nodes := (StartBatch (fst (is_nodes s)), None)\<rparr>) = Inr (root', s')
      \<and> plain_run demo_digest [NUpdate (replicate 32 1) (Some [5]), NUpdate (replicate 32 1) (Some [6])] NewSMT
          = [NRoot (5 # replicate 31 1), NRoot root]
      \<and> root' \<noteq> root)"
proof -
  have leaf: "demo_digest (leaf_data (replicate 32 1) [x]) = x # replicate 31 1" for x
    by (simp add: demo_digest_def leaf_data_def numeral_eq_Suc)
  have "blind (\<lambda>b k. None)" by (simp add: blind_def)
  note t = unreadable_batch_breaks_tree [OF demo_kv_laws demo_digest_digests this demo_store_empty,
      of "replicate 32 1" "[5]" "[6]", unfolded leaf]
  have "x # replicate 31 1 \<noteq> EmptyHash" for x :: u8 by (simp add: EmptyHash_def numeral_eq_Suc)
  moreover have "length (replicate 32 (1 :: u8)) = 32" "6 # replicate 31 1 \<noteq> 5 # replicate 31 (1 :: u8)" by simp_all
  moreover have "demo_digest (internal_data ((replicate 256 EmptyHash)[1 := 6 # replicate 31 1])) \<noteq> 6 # replicate 31 1"
    by code_simp
  then have "inj_on demo_digest {leaf_data (replicate 32 1) [6],
      internal_data ((replicate 256 EmptyHash)[unat (replicate 32 1 ! 0 :: u8) := 6 # replicate 31 1])}"
    by (auto simp: inj_on_def leaf)
  ultimately show ?thesis using t by blast
qed

end
