(* ===== verification/BlockCodec.thy ===== *)
theory BlockCodec
  imports Prelude
begin

text \<open>
  The block format of \<^verbatim>\<open>tx-header/block_compress.go\<close>: \<^verbatim>\<open>EncodeBlock\<close> splits the signatures from the
  transactions, frames and compresses the rest; \<^verbatim>\<open>DecodeBlock\<close> is its inverse for blocks that come from the
  network.

  \<^item> A transaction has the header of its oneof and a payload. Of the full header only the signature is touched.
  \<^item> Protobuf and the compressors are the parameter \<open>A\<close>, with \<open>None\<close> for an error (for \<^verbatim>\<open>s2.Encode\<close>, the panic
    on a block that is too large). \<open>ba_max\<close> is the greatest
    length in bytes of a slice that \<^verbatim>\<open>make\<close> can give; beyond it the program panics (or the process dies).
  \<^item> \<^verbatim>\<open>count\<close> and the sizes of the header are \<^verbatim>\<open>uint64\<close>; \<^verbatim>\<open>int(count) * SigSize\<close> wraps. A pointer takes 8 bytes.
\<close>

definition BlockMagicNumber :: u8 where "BlockMagicNumber = 0xBA"
definition SigSize :: nat where "SigSize = 64"
definition TxFrameSeparator :: u8 where "TxFrameSeparator = 0xEE"
definition AlgoNone :: u8 where "AlgoNone = 0"
definition AlgoZstd :: u8 where "AlgoZstd = 1"
definition AlgoLZ4 :: u8 where "AlgoLZ4 = 2"
definition AlgoS2 :: u8 where "AlgoS2 = 3"
definition AlgoGzip :: u8 where "AlgoGzip = 4"

subsection \<open>Data\<close>

datatype block_error = HeaderNil nat | BadSigLen nat | MarshalFailed | UnsupportedAlgo u8 | CompressFailed
  | UnexpectedEOF | BadMagic u8 | UnknownAlgo u8 | DecompressFailed | SizeMismatch | FramingError nat | VarintOverflow | UnmarshalFailed

datatype 'a block_res = BDone 'a | BErr block_error | BPanic

fun bind_block :: "'a block_res \<Rightarrow> ('a \<Rightarrow> 'b block_res) \<Rightarrow> 'b block_res" where
  "bind_block (BDone x) f = f x"
| "bind_block (BErr e) f = BErr e"
| "bind_block BPanic f = BPanic"

definition or_err :: "block_error \<Rightarrow> 'a option \<Rightarrow> 'a block_res" where
  "or_err e r = (case r of None \<Rightarrow> BErr e | Some x \<Rightarrow> BDone x)"

record 'h full_header =
  fh_Signature :: bytes
  fh_fields :: 'h

datatype ('h, 'b) header_data = FullHeader "'h full_header" | BatchHeader 'b | NoHeader

record ('h, 'b, 'p) block_tx =
  bt_HeaderData :: "('h, 'b) header_data"
  bt_Payload :: 'p

record ('h, 'b, 'p, 'r) block_api =
  ba_marshal :: "('h, 'b, 'p) block_tx \<Rightarrow> bytes option"
  ba_unmarshal :: "bytes \<Rightarrow> ('h, 'b, 'p) block_tx option"
  ba_new_fields :: 'h
  ba_zstd :: "bytes option \<Rightarrow> bytes \<Rightarrow> bytes option"
  ba_unzstd :: "bytes option \<Rightarrow> bytes \<Rightarrow> bytes option"
  ba_lz4 :: "bytes \<Rightarrow> bytes option"
  ba_unlz4 :: "nat \<Rightarrow> bytes \<Rightarrow> bytes option"
  ba_s2 :: "bytes \<Rightarrow> bytes option"
  ba_uns2 :: "bytes \<Rightarrow> bytes option"
  ba_gzip :: "bytes \<Rightarrow> bytes"
  ba_gzip_reader :: "bytes \<Rightarrow> 'r option"
  ba_gzip_read :: "'r \<Rightarrow> bytes option"
  ba_max :: nat

definition GetHeader :: "('h, 'b, 'p) block_tx \<Rightarrow> 'h full_header option" where
  "GetHeader t = (case bt_HeaderData t of FullHeader hdr \<Rightarrow> Some hdr | _ \<Rightarrow> None)"

definition set_signature :: "bytes \<Rightarrow> ('h, 'b, 'p) block_tx \<Rightarrow> ('h, 'b, 'p) block_tx" where
  "set_signature sig t = (case bt_HeaderData t of
     FullHeader hdr \<Rightarrow> t\<lparr>bt_HeaderData := FullHeader (hdr\<lparr>fh_Signature := sig\<rparr>)\<rparr>
   | _ \<Rightarrow> t)"

subsection \<open>Numbers\<close>

definition put_le64 :: "u64 \<Rightarrow> bytes" where
  "put_le64 w = rev (be_bytes 8 w)"

text \<open>\<^verbatim>\<open>binary.PutUvarint\<close>, \<^verbatim>\<open>binary.Read\<close> of a \<^verbatim>\<open>uint64\<close>, \<^verbatim>\<open>ReadByte\<close>, \<^verbatim>\<open>io.ReadFull\<close>, \<^verbatim>\<open>binary.ReadUvarint\<close>.\<close>

fun put_uvarint :: "nat \<Rightarrow> bytes" where
  "put_uvarint x = (if x < 128 then [of_nat x] else of_nat (x mod 128 + 128) # put_uvarint (x div 128))"

declare put_uvarint.simps [simp del]

definition read_full :: "nat \<Rightarrow> bytes \<Rightarrow> (bytes \<times> bytes) block_res" where
  "read_full n bs = (if length bs < n then BErr UnexpectedEOF else BDone (take n bs, drop n bs))"

definition read_byte :: "bytes \<Rightarrow> (u8 \<times> bytes) block_res" where
  "read_byte bs = (case bs of [] \<Rightarrow> BErr UnexpectedEOF | b # bs \<Rightarrow> BDone (b, bs))"

definition read_le64 :: "bytes \<Rightarrow> (u64 \<times> bytes) block_res" where
  "read_le64 bs = bind_block (read_full 8 bs) (\<lambda>(w, bs). BDone (be_word (rev w), bs))"

fun read_uvarint :: "nat \<Rightarrow> u64 \<Rightarrow> bytes \<Rightarrow> (u64 \<times> bytes) block_res" where
  "read_uvarint i x [] = (if i = 10 then BErr VarintOverflow else BErr UnexpectedEOF)"
| "read_uvarint i x (b # bs) =
    (if i = 10 then BErr VarintOverflow
     else if b < 0x80 then (if i = 9 \<and> 1 < b then BErr VarintOverflow else BDone (x OR push_bit (7 * i) (ucast b), bs))
     else read_uvarint (i + 1) (x OR push_bit (7 * i) (ucast (b AND 0x7F))) bs)"

definition make_bytes :: "('h, 'b, 'p, 'r) block_api \<Rightarrow> int \<Rightarrow> nat block_res" where
  "make_bytes A n = (if n < 0 \<or> int (ba_max A) < n then BPanic else BDone (nat n))"

subsection \<open>Compression\<close>

definition zstdCompress :: "('h, 'b, 'p, 'r) block_api \<Rightarrow> bytes option \<Rightarrow> bytes \<Rightarrow> bytes block_res" where
  "zstdCompress A dict data = or_err CompressFailed (ba_zstd A dict data)"

definition zstdDecompress :: "('h, 'b, 'p, 'r) block_api \<Rightarrow> bytes option \<Rightarrow> bytes \<Rightarrow> bytes block_res" where
  "zstdDecompress A dict compressed = or_err DecompressFailed (ba_unzstd A (if dict = Some [] then None else dict) compressed)"

definition lz4Compress :: "('h, 'b, 'p, 'r) block_api \<Rightarrow> bytes \<Rightarrow> bytes block_res" where
  "lz4Compress A data = or_err CompressFailed (ba_lz4 A data)"

text \<open>The error of \<^verbatim>\<open>gzip.NewReader\<close> is dropped, and its nil reader is read.\<close>

definition gzipDecompress :: "('h, 'b, 'p, 'r) block_api \<Rightarrow> bytes \<Rightarrow> bytes block_res" where
  "gzipDecompress A compressed = (case ba_gzip_reader A compressed of
     None \<Rightarrow> BPanic
   | Some r \<Rightarrow> or_err DecompressFailed (ba_gzip_read A r))"

definition block_compress :: "('h, 'b, 'p, 'r) block_api \<Rightarrow> u8 \<Rightarrow> bytes option \<Rightarrow> bytes \<Rightarrow> bytes block_res" where
  "block_compress A algoID dict src =
    (if algoID = AlgoZstd then zstdCompress A dict src
     else if algoID = AlgoLZ4 then lz4Compress A src
     else if algoID = AlgoS2 then (case ba_s2 A src of None \<Rightarrow> BPanic | Some c \<Rightarrow> BDone c)
     else if algoID = AlgoGzip then BDone (ba_gzip A src)
     else if algoID = AlgoNone then BDone src
     else BErr (UnsupportedAlgo algoID))"

definition block_decompress :: "('h, 'b, 'p, 'r) block_api \<Rightarrow> u8 \<Rightarrow> bytes option \<Rightarrow> u64 \<Rightarrow> bytes \<Rightarrow> bytes block_res" where
  "block_decompress A algoID dict uncompressedSize compressedBody =
    (if algoID = AlgoZstd then zstdDecompress A dict compressedBody
     else if algoID = AlgoLZ4 then
       bind_block (make_bytes A (uint uncompressedSize)) (\<lambda>n. or_err DecompressFailed (ba_unlz4 A n compressedBody))
     else if algoID = AlgoS2 then or_err DecompressFailed (ba_uns2 A compressedBody)
     else if algoID = AlgoGzip then gzipDecompress A compressedBody
     else if algoID = AlgoNone then BDone compressedBody
     else BErr (UnknownAlgo algoID))"

subsection \<open>Encoding\<close>

text \<open>The loop over the transactions: the slots of the signatures, the framed bodies, and the transactions
  afterwards. The signature is taken out for \<^verbatim>\<open>proto.Marshal\<close> and put back, except when that fails.\<close>

definition sig_slot :: "bytes \<Rightarrow> bytes" where
  "sig_slot sig = (if sig = [] then replicate SigSize 0 else sig)"

definition frame :: "bytes \<Rightarrow> bytes" where
  "frame pbBytes = TxFrameSeparator # put_uvarint (length pbBytes) @ pbBytes"

fun encode_txs :: "('h, 'b, 'p, 'r) block_api \<Rightarrow> nat \<Rightarrow> ('h, 'b, 'p) block_tx list \<Rightarrow>
    (bytes \<times> bytes) block_res \<times> ('h, 'b, 'p) block_tx list" where
  "encode_txs A i [] = (BDone ([], []), [])"
| "encode_txs A i (t # ts) = (case GetHeader t of
     None \<Rightarrow> (BErr (HeaderNil i), t # ts)
   | Some header \<Rightarrow>
       if length (fh_Signature header) \<noteq> SigSize \<and> length (fh_Signature header) \<noteq> 0 then (BErr (BadSigLen i), t # ts)
       else case ba_marshal A (set_signature [] t) of
         None \<Rightarrow> (BErr MarshalFailed, set_signature [] t # ts)
       | Some pbBytes \<Rightarrow> (case encode_txs A (i + 1) ts of (r, ts') \<Rightarrow>
           (bind_block r (\<lambda>(sigs, body). BDone (sig_slot (fh_Signature header) @ sigs, frame pbBytes @ body)), t # ts')))"

definition block_header :: "u8 \<Rightarrow> nat \<Rightarrow> nat \<Rightarrow> nat \<Rightarrow> bytes" where
  "block_header algoID txCount uncompressedSize compressedSize =
    BlockMagicNumber # algoID # put_le64 (of_nat txCount) @ put_le64 (of_nat uncompressedSize) @ put_le64 (of_nat compressedSize)"

definition EncodeBlock :: "('h, 'b, 'p, 'r) block_api \<Rightarrow> ('h, 'b, 'p) block_tx list \<Rightarrow> u8 \<Rightarrow> bytes option \<Rightarrow>
    bytes block_res \<times> ('h, 'b, 'p) block_tx list" where
  "EncodeBlock A txs algoID dict = (case encode_txs A 0 txs of (r, txs') \<Rightarrow>
     (bind_block r (\<lambda>(sigBuf, src).
        bind_block (block_compress A algoID dict src) (\<lambda>compressedBody.
          BDone (block_header algoID (length txs) (length src) (length compressedBody) @ sigBuf @ compressedBody))), txs'))"

subsection \<open>Decoding\<close>

definition inject_signature :: "('h, 'b, 'p, 'r) block_api \<Rightarrow> bytes \<Rightarrow> ('h, 'b, 'p) block_tx \<Rightarrow> ('h, 'b, 'p) block_tx" where
  "inject_signature A sig t =
    (let t1 = (if GetHeader t = None then t\<lparr>bt_HeaderData := FullHeader \<lparr>fh_Signature = [], fh_fields = ba_new_fields A\<rparr>\<rparr> else t)
     in set_signature sig t1)"

text \<open>\<open>n\<close> transactions are left; \<open>i\<close> is the next. \<open>sigs\<close> is the whole block of signatures.\<close>

fun decode_txs :: "('h, 'b, 'p, 'r) block_api \<Rightarrow> bytes \<Rightarrow> nat \<Rightarrow> nat \<Rightarrow> bytes \<Rightarrow> ('h, 'b, 'p) block_tx list block_res" where
  "decode_txs A sigs i 0 body = BDone []"
| "decode_txs A sigs i (Suc n) body =
    bind_block (read_byte body) (\<lambda>(sep, body).
      if sep \<noteq> TxFrameSeparator then BErr (FramingError i)
      else bind_block (read_uvarint 0 0 body) (\<lambda>(l, body).
        bind_block (make_bytes A (uint l)) (\<lambda>l.
        bind_block (read_full l body) (\<lambda>(pbBytes, body).
        bind_block (or_err UnmarshalFailed (ba_unmarshal A pbBytes)) (\<lambda>t.
          if length sigs < i * SigSize + SigSize then BPanic
          else bind_block (decode_txs A sigs (i + 1) n body) (\<lambda>ts.
            BDone (inject_signature A (take SigSize (drop (i * SigSize) sigs)) t # ts)))))))"

definition DecodeBlock :: "('h, 'b, 'p, 'r) block_api \<Rightarrow> bytes \<Rightarrow> bytes option \<Rightarrow> ('h, 'b, 'p) block_tx list block_res" where
  "DecodeBlock A data dict =
    bind_block (read_byte data) (\<lambda>(magic, buf).
      if magic \<noteq> BlockMagicNumber then BErr (BadMagic magic)
      else
        bind_block (read_byte buf) (\<lambda>(algoID, buf).
        bind_block (read_le64 buf) (\<lambda>(count, buf).
        bind_block (read_le64 buf) (\<lambda>(uncompressedSize, buf).
        bind_block (read_le64 buf) (\<lambda>(compressedSize, buf).
        bind_block (make_bytes A (sint (count * of_nat SigSize))) (\<lambda>sigBlockSize.
        bind_block (read_full sigBlockSize buf) (\<lambda>(sigBlock, buf).
        bind_block (make_bytes A (uint compressedSize)) (\<lambda>bodySize.
        bind_block (read_full bodySize buf) (\<lambda>(compressedBody, buf).
        bind_block (block_decompress A algoID dict uncompressedSize compressedBody) (\<lambda>rawBody.
          if of_nat (length rawBody) \<noteq> uncompressedSize then BErr SizeMismatch
          else bind_block (make_bytes A (8 * uint count)) (\<lambda>_.
            decode_txs A sigBlock 0 (unat count) rawBody)))))))))))"

end
