(* ===== verification/BlockCodecTheorems.thy ===== *)
theory BlockCodecTheorems
  imports BlockCodec
begin

text \<open>
  The block format: what is encoded is decoded, with the signatures from their table; and which blocks bring the
  decoder down.
\<close>

subsection \<open>Reading back\<close>

lemma block_bind_BDone: "bind_block r f = BDone y \<longleftrightarrow> (\<exists>x. r = BDone x \<and> f x = BDone y)"
  by (cases r) auto

lemma read_byte_Cons [simp]: "read_byte (b # bs) = BDone (b, bs)"
  by (simp add: read_byte_def)

lemma read_full_append: "length a = n \<Longrightarrow> read_full n (a @ b) = BDone (a, b)"
  by (simp add: read_full_def)

lemma read_le64_append [simp]: "read_le64 (put_le64 w @ bs) = BDone (w, bs)"
proof -
  have "length (put_le64 w) = 8" by (simp add: put_le64_def)
  then show ?thesis by (simp add: read_le64_def read_full_append) (simp add: put_le64_def)
qed

lemma low_bits: "of_nat n = (of_nat (n mod 128) OR push_bit 7 (of_nat (n div 128)) :: u64)" if "n < 2 ^ 64" for n
proof (rule bit_word_eqI)
  fix k assume "k < LENGTH(64)"
  have "n mod 128 = take_bit 7 n" "n div 128 = drop_bit 7 n" by (simp_all add: take_bit_eq_mod drop_bit_eq_div)
  then show "bit (of_nat n :: u64) k \<longleftrightarrow> bit (of_nat (n mod 128) OR push_bit 7 (of_nat (n div 128)) :: u64) k"
    using \<open>k < LENGTH(64)\<close> by (auto simp: bit_simps)
qed

lemma byte_of_nat: "n < 256 \<Longrightarrow> unat (of_nat n :: u8) = n"
  by (simp add: unat_of_nat)

lemma uvarint_roundtrip:
  "n * 2 ^ (7 * i) < 2 ^ 64 \<Longrightarrow> i < 10 \<Longrightarrow> read_uvarint i x (put_uvarint n @ bs) = BDone (x OR push_bit (7 * i) (of_nat n), bs)"
proof (induction n arbitrary: i x rule: less_induct)
  case (less n)
  show ?case
  proof (cases "n < 128")
    case True
    have "unat (of_nat n :: u8) = n" using True by (simp add: byte_of_nat)
    then have lt: "(of_nat n :: u8) < 0x80" using True by (simp add: word_less_nat_alt)
    have "\<not> (i = 9 \<and> 1 < (of_nat n :: u8))"
    proof
      assume a: "i = 9 \<and> 1 < (of_nat n :: u8)"
      then have "1 < n" using \<open>unat (of_nat n :: u8) = n\<close> by (simp add: word_less_nat_alt)
      then show False using less.prems(1) a by simp
    qed
    moreover have "ucast (of_nat n :: u8) = (of_nat n :: u64)"
      using \<open>unat (of_nat n :: u8) = n\<close> by (metis of_nat_unat)
    ultimately show ?thesis using True lt less.prems by (subst put_uvarint.simps) simp
  next
    case False
    let ?b = "of_nat (n mod 128 + 128) :: u8"
    have b: "unat ?b = n mod 128 + 128" by (rule byte_of_nat) simp
    then have "\<not> ?b < 0x80" by (simp add: word_less_nat_alt)
    have low: "ucast (?b AND 0x7F) = (of_nat (n mod 128) :: u64)"
    proof -
      have "unat (?b AND 0x7F) = n mod 128"
      proof -
        have "(0x7F :: u8) = mask 7" by (simp add: mask_eq_exp_minus_1)
        then have "?b AND 0x7F = take_bit 7 ?b" by (simp only: take_bit_eq_mask)
        then have "unat (?b AND 0x7F) = take_bit 7 (unat ?b)" by (simp only: unsigned_take_bit_eq)
        then show ?thesis unfolding b by (simp add: take_bit_eq_mod)
      qed
      then show ?thesis by (metis of_nat_unat)
    qed
    have big: "n div 128 * 2 ^ (7 * (i + 1)) < 2 ^ 64"
    proof -
      have "n div 128 * 2 ^ (7 * (i + 1)) = n div 128 * 128 * 2 ^ (7 * i)" by (simp add: power_add)
      also have "\<dots> \<le> n * 2 ^ (7 * i)" by (simp add: div_times_less_eq_dividend)
      finally show ?thesis using less.prems(1) by simp
    qed
    have "i \<noteq> 9"
    proof
      assume "i = 9"
      then have "n < 2" using less.prems(1) by simp
      then show False using False by simp
    qed
    then have i: "i + 1 < 10" using less.prems(2) by simp
    have n: "n < 2 ^ 64" using less.prems(1) by (metis le_less_trans mult.right_neutral mult_le_mono2 one_le_numeral one_le_power)
    have "n div 128 < n" using False by simp
    note IH = less.IH [OF this big i]
    have "put_uvarint n = ?b # put_uvarint (n div 128)" using False by (subst put_uvarint.simps) simp
    then have "read_uvarint i x (put_uvarint n @ bs) = read_uvarint (i + 1) (x OR push_bit (7 * i) (of_nat (n mod 128))) (put_uvarint (n div 128) @ bs)"
      using \<open>\<not> ?b < 0x80\<close> low less.prems(2) by simp
    also have "\<dots> = BDone ((x OR push_bit (7 * i) (of_nat (n mod 128))) OR push_bit (7 * (i + 1)) (of_nat (n div 128)), bs)" by (rule IH)
    also have "(x OR push_bit (7 * i) (of_nat (n mod 128))) OR push_bit (7 * (i + 1)) (of_nat (n div 128)) = x OR push_bit (7 * i) (of_nat n)"
      by (subst low_bits [OF n]) (simp add: push_bit_or push_bit_push_bit or.assoc add.commute)
    finally show ?thesis .
  qed
qed

subsection \<open>The round trip\<close>

lemma int_less_uint: "int m < uint w \<longleftrightarrow> m < unat w"
  by (metis uint_nat of_nat_less_iff)

lemma make_bytes_uint: "make_bytes A (uint w) = (if ba_max A < unat w then BPanic else BDone (unat w))"
  by (simp add: make_bytes_def int_less_uint)

lemma make_bytes_int: "n \<le> ba_max A \<Longrightarrow> make_bytes A (int n) = BDone n"
  by (simp add: make_bytes_def)

text \<open>What the code relies on: what was marshalled or compressed can be read back (LZ4: into a buffer of the
  original, positive length). Transactions are equal when protobuf's \<^verbatim>\<open>proto.Equal\<close> says so. An empty zstd dictionary is no
  dictionary for the decoder, but is given to the encoder.\<close>

definition proto_laws :: "('h, 'b, 'p, 'r) block_api \<Rightarrow> bool" where
  "proto_laws A \<longleftrightarrow> (\<forall>t b. ba_marshal A t = Some b \<longrightarrow> ba_unmarshal A b = Some t)"

definition compress_laws :: "('h, 'b, 'p, 'r) block_api \<Rightarrow> bytes option \<Rightarrow> bool" where
  "compress_laws A dict \<longleftrightarrow> dict \<noteq> Some []
    \<and> (\<forall>src c. ba_zstd A dict src = Some c \<longrightarrow> ba_unzstd A dict c = Some src)
    \<and> (\<forall>src c. src \<noteq> [] \<longrightarrow> ba_lz4 A src = Some c \<longrightarrow> ba_unlz4 A (length src) c = Some src)
    \<and> (\<forall>src c. ba_s2 A src = Some c \<longrightarrow> ba_uns2 A c = Some src)
    \<and> (\<forall>src. \<exists>r. ba_gzip_reader A (ba_gzip A src) = Some r \<and> ba_gzip_read A r = Some src)"

lemma decompress_compress:
  assumes "compress_laws A dict" "block_compress A algoID dict src = BDone c" "length src \<le> ba_max A" "ba_max A < 2 ^ 62"
    and "algoID = AlgoLZ4 \<Longrightarrow> src \<noteq> []"
  shows "block_decompress A algoID dict (of_nat (length src)) c = BDone src"
proof -
  have "unat (of_nat (length src) :: u64) = length src" using assms(3,4) by (simp add: unat_of_nat)
  then have "uint (of_nat (length src) :: u64) = int (length src)" by (metis uint_nat)
  then have "make_bytes A (uint (of_nat (length src) :: u64)) = BDone (length src)" using assms(3) by (simp add: make_bytes_def)
  moreover have "or_err e r = BDone y \<longleftrightarrow> r = Some y" for e and r :: "bytes option" and y by (simp add: or_err_def split: option.split)
  moreover obtain r where "ba_gzip_reader A (ba_gzip A src) = Some r" "ba_gzip_read A r = Some src"
    using assms(1) unfolding compress_laws_def by blast
  ultimately show ?thesis using assms(1,2,5) unfolding compress_laws_def
    by (auto simp: block_compress_def block_decompress_def zstdCompress_def zstdDecompress_def lz4Compress_def gzipDecompress_def
        split: if_splits option.splits)
qed

definition filled :: "('h, 'b, 'p) block_tx \<Rightarrow> ('h, 'b, 'p) block_tx" where
  "filled t = (case GetHeader t of None \<Rightarrow> t | Some header \<Rightarrow> set_signature (sig_slot (fh_Signature header)) t)"

lemma inject_unsigned: "GetHeader t = Some header \<Longrightarrow> inject_signature A sig (set_signature [] t) = set_signature sig t"
  by (cases t) (auto simp: GetHeader_def inject_signature_def set_signature_def Let_def split: header_data.splits)

lemma encode_length: "encode_txs A i ts = (BDone (sigs, src), ts') \<Longrightarrow> length sigs = SigSize * length ts \<and> ts' = ts"
proof (induction ts arbitrary: i sigs src ts')
  case (Cons t ts)
  then show ?case
    by (auto simp: block_bind_BDone sig_slot_def SigSize_def split: option.splits if_splits prod.splits)
qed simp

lemma encode_empty: "encode_txs A i ts = (BDone (sigs, []), ts') \<Longrightarrow> ts = []"
  by (cases ts) (auto simp: block_bind_BDone frame_def split: option.splits if_splits prod.splits)

lemma filled_signed:
  "encode_txs A i ts = (BDone r, ts') \<Longrightarrow> \<forall>t \<in> set ts. \<forall>header. GetHeader t = Some header \<longrightarrow> fh_Signature header \<noteq> [] \<Longrightarrow>
    map filled ts = ts"
proof (induction ts arbitrary: i r ts')
  case (Cons t ts)
  then show ?case
    by (cases t) (auto simp: block_bind_BDone filled_def sig_slot_def set_signature_def GetHeader_def
        split: option.splits if_splits prod.splits header_data.splits)
qed simp

lemma decode_encoded:
  assumes "proto_laws A" "ba_max A < 2 ^ 62"
  shows "encode_txs A i ts = (BDone (sigs, src), ts') \<Longrightarrow> length pre = i * SigSize \<Longrightarrow> length src \<le> ba_max A \<Longrightarrow>
    decode_txs A (pre @ sigs) i (length ts) src = BDone (map filled ts)"
proof (induction ts arbitrary: i sigs src ts' pre)
  case (Cons t ts)
  from Cons.prems(1) obtain header pb sigs2 src2 ts2 where
    t: "GetHeader t = Some header" "length (fh_Signature header) = SigSize \<or> fh_Signature header = []" "ba_marshal A (set_signature [] t) = Some pb"
    and rest: "encode_txs A (i + 1) ts = (BDone (sigs2, src2), ts2)"
    and eq: "sigs = sig_slot (fh_Signature header) @ sigs2" "src = frame pb @ src2"
    by (auto simp: block_bind_BDone split: option.splits if_splits prod.splits)
  let ?slot = "sig_slot (fh_Signature header)"
  have slot: "length ?slot = SigSize" using t(2) by (auto simp: sig_slot_def)
  have len: "length pb \<le> ba_max A" "length src2 \<le> ba_max A" using Cons.prems(3) by (simp_all add: eq frame_def)
  then have n: "length pb < 2 ^ 62" using assms(2) by simp
  have "unat (of_nat (length pb) :: u64) = length pb" using n by (simp add: unat_of_nat)
  then have "uint (of_nat (length pb) :: u64) = int (length pb)" by (metis uint_nat)
  then have make: "make_bytes A (uint (of_nat (length pb) :: u64)) = BDone (length pb)" using len(1) by (simp add: make_bytes_def)
  have len0: "length pb * 2 ^ (7 * 0) < 2 ^ 64" using n by simp
  have read: "read_uvarint 0 0 (put_uvarint (length pb) @ bs) = BDone (of_nat (length pb), bs)" for bs
    using uvarint_roundtrip [OF len0, of 0 bs] by simp
  have "decode_txs A ((pre @ ?slot) @ sigs2) (i + 1) (length ts) src2 = BDone (map filled ts)"
    by (rule Cons.IH [OF rest]) (use Cons.prems(2) slot len(2) in simp_all)
  then have IH: "decode_txs A (pre @ ?slot @ sigs2) (i + 1) (length ts) src2 = BDone (map filled ts)" by simp
  have cut: "take SigSize (drop (i * SigSize) (pre @ ?slot @ sigs2)) = ?slot" using Cons.prems(2) slot by simp
  have long: "\<not> length (pre @ ?slot @ sigs2) < i * SigSize + SigSize" using Cons.prems(2) slot by simp
  have un: "ba_unmarshal A pb = Some (set_signature [] t)" using assms(1) t(3) by (simp add: proto_laws_def)
  have "decode_txs A (pre @ ?slot @ sigs2) i (Suc (length ts)) (frame pb @ src2) =
      BDone (inject_signature A ?slot (set_signature [] t) # map filled ts)"
    unfolding decode_txs.simps frame_def append_Cons append_assoc read_byte_Cons bind_block.simps case_prod_conv read make
    by (simp only: read_full_append [OF refl] bind_block.simps case_prod_conv un or_err_def option.case long if_False IH cut) simp
  then show ?case using inject_unsigned [OF t(1)] t(1) by (simp add: eq filled_def)
qed simp

lemma EncodeBlock_BDone:
  "EncodeBlock A txs algoID dict = (BDone block, txs') \<longleftrightarrow> (\<exists>sigBuf src compressedBody.
     encode_txs A 0 txs = (BDone (sigBuf, src), txs') \<and> block_compress A algoID dict src = BDone compressedBody
     \<and> block = block_header algoID (length txs) (length src) (length compressedBody) @ sigBuf @ compressedBody)"
  by (auto simp: EncodeBlock_def block_bind_BDone split: prod.splits)

text \<open>The decoder on a block whose header tells the truth about the sizes of the tables.\<close>

lemma small_size: "n \<le> ba_max A \<Longrightarrow> ba_max A < 2 ^ 62 \<Longrightarrow> make_bytes A (uint (of_nat n :: u64)) = BDone n"
proof -
  assume a: "n \<le> ba_max A" "ba_max A < 2 ^ 62"
  then have "unat (of_nat n :: u64) = n" by (simp add: unat_of_nat)
  then have "uint (of_nat n :: u64) = int n" by (metis uint_nat)
  then show ?thesis using a(1) by (simp add: make_bytes_def)
qed

lemma small_signed: "n < 2 ^ 62 \<Longrightarrow> sint (of_nat n :: u64) = int n"
  by (simp add: signed_of_nat signed_take_bit_int_eq_self)

lemma DecodeBlock_header:
  assumes "length sigBuf = SigSize * txCount" "length sigBuf \<le> ba_max A" "length compressedBody \<le> ba_max A" "ba_max A < 2 ^ 62"
  shows "DecodeBlock A (block_header algoID txCount uncompressedSize (length compressedBody) @ sigBuf @ compressedBody @ junk) dict =
    bind_block (block_decompress A algoID dict (of_nat uncompressedSize) compressedBody) (\<lambda>rawBody.
      if (of_nat (length rawBody) :: u64) \<noteq> of_nat uncompressedSize then BErr SizeMismatch
      else decode_txs A sigBuf 0 txCount rawBody)"
proof -
  have "(of_nat txCount * of_nat SigSize :: u64) = of_nat (length sigBuf)" using assms(1) by (simp add: mult.commute)
  moreover have lt: "length sigBuf < 2 ^ 62" using assms(2,4) by simp
  ultimately have sigs: "make_bytes A (sint ((of_nat txCount :: u64) * of_nat SigSize)) = BDone (length sigBuf)"
    using assms(2) by (simp add: small_signed make_bytes_def)
  have "unat (of_nat txCount :: u64) = txCount" using lt assms(1) by (simp add: unat_of_nat SigSize_def)
  moreover from this have "8 * uint (of_nat txCount :: u64) = int (8 * txCount)" by (metis uint_nat of_nat_mult of_nat_numeral)
  then have "make_bytes A (8 * uint (of_nat txCount :: u64)) = BDone (8 * txCount)"
    using assms(1,2) by (simp add: make_bytes_def SigSize_def)
  ultimately show ?thesis
    unfolding DecodeBlock_def block_header_def append_Cons append_assoc
    by (simp add: sigs small_size [OF assms(3,4)] read_full_append cong: if_cong)
qed

text \<open>C0. Decoding gives back what was encoded, with every algorithm: when \<^verbatim>\<open>EncodeBlock\<close> succeeds, it has left the
  transactions as they were, and \<^verbatim>\<open>DecodeBlock\<close> of the block gives the same transactions in order, where an empty signature
  has become 64 zeros; when all are signed they come back unchanged. Bytes behind the block are ignored. Assumed: what
  protobuf and the compressors write they read back, the block and its body fit into memory, and an LZ4 block holds a
  transaction.\<close>
theorem block_roundtrip:
  assumes "proto_laws A" "compress_laws A dict" "ba_max A < 2 ^ 62"
    and "EncodeBlock A txs algoID dict = (BDone block, txs')"
    and "encode_txs A 0 txs = (BDone (sigs, src), txs'')" "length src \<le> ba_max A" "length block \<le> ba_max A"
    and "algoID = AlgoLZ4 \<Longrightarrow> txs \<noteq> []"
  shows "txs' = txs \<and> DecodeBlock A (block @ junk) dict = BDone (map filled txs)
    \<and> ((\<forall>t \<in> set txs. \<forall>header. GetHeader t = Some header \<longrightarrow> fh_Signature header \<noteq> []) \<longrightarrow> map filled txs = txs)"
proof -
  obtain compressedBody where c: "block_compress A algoID dict src = BDone compressedBody" "txs' = txs''"
      "block = block_header algoID (length txs) (length src) (length compressedBody) @ sigs @ compressedBody"
    using assms(4,5) by (auto simp: EncodeBlock_BDone)
  have enc: "length sigs = SigSize * length txs \<and> txs'' = txs" by (rule encode_length [OF assms(5)])
  have len: "length sigs \<le> ba_max A" "length compressedBody \<le> ba_max A" using assms(7) by (simp_all add: c(3))
  have "block_decompress A algoID dict (of_nat (length src)) compressedBody = BDone src"
    by (rule decompress_compress [OF assms(2) c(1) assms(6,3)]) (use assms(5,8) encode_empty in blast)
  moreover have "decode_txs A sigs 0 (length txs) src = BDone (map filled txs)"
    using decode_encoded [OF assms(1,3,5), of "[]"] assms(6) by simp
  ultimately have "DecodeBlock A (block @ junk) dict = BDone (map filled txs)"
    using DecodeBlock_header [OF conjunct1 [OF enc] len assms(3)] by (simp add: c(3))
  then show ?thesis using enc c(2) filled_signed [OF assms(5)] by blast
qed

definition demo_marshal :: "(unit, unit, u8) block_tx \<Rightarrow> bytes option" where
  "demo_marshal t = Some (case bt_HeaderData t of FullHeader hdr \<Rightarrow> 0 # bt_Payload t # fh_Signature hdr
     | BatchHeader _ \<Rightarrow> [1, bt_Payload t] | NoHeader \<Rightarrow> [2, bt_Payload t])"

definition demo_unmarshal :: "bytes \<Rightarrow> (unit, unit, u8) block_tx option" where
  "demo_unmarshal bs = (case bs of k # p # sig \<Rightarrow> Some \<lparr>bt_HeaderData =
       if k = 0 then FullHeader \<lparr>fh_Signature = sig, fh_fields = ()\<rparr> else if k = 1 then BatchHeader () else NoHeader,
       bt_Payload = p\<rparr> | _ \<Rightarrow> None)"

definition behind :: "u8 \<Rightarrow> bytes \<Rightarrow> bytes option" where
  "behind b bs = (case bs of c # cs \<Rightarrow> if c = b then Some cs else None | [] \<Rightarrow> None)"

definition demo_api :: "(unit, unit, u8, bytes) block_api" where
  "demo_api = \<lparr>ba_marshal = demo_marshal, ba_unmarshal = demo_unmarshal, ba_new_fields = (),
     ba_zstd = \<lambda>_ src. Some (0x28 # src), ba_unzstd = \<lambda>_. behind 0x28, ba_lz4 = \<lambda>src. Some (4 # src), ba_unlz4 = \<lambda>_. behind 4,
     ba_s2 = \<lambda>src. Some (2 # src), ba_uns2 = behind 2, ba_gzip = \<lambda>src. 0x1F # src, ba_gzip_reader = behind 0x1F,
     ba_gzip_read = Some, ba_max = 1000\<rparr>"

lemma demo_laws: "proto_laws demo_api" "compress_laws demo_api None"
  by (auto simp: proto_laws_def compress_laws_def demo_api_def demo_marshal_def demo_unmarshal_def behind_def split: header_data.splits)

definition demo_tx :: "bytes \<Rightarrow> u8 \<Rightarrow> (unit, unit, u8) block_tx" where
  "demo_tx sig p = \<lparr>bt_HeaderData = FullHeader \<lparr>fh_Signature = sig, fh_fields = ()\<rparr>, bt_Payload = p\<rparr>"

definition demo_txs :: "(unit, unit, u8) block_tx list" where
  "demo_txs = [demo_tx (replicate 64 7) 1, demo_tx [] 2]"

definition demo_sigs :: bytes where "demo_sigs = replicate 64 7 @ replicate 64 0"
definition demo_src :: bytes where "demo_src = [0xEE, 2, 0, 1, 0xEE, 2, 0, 2]"
definition demo_block :: bytes where
  "demo_block = [0xBA, 4] @ [2, 0, 0, 0, 0, 0, 0, 0] @ [8, 0, 0, 0, 0, 0, 0, 0] @ [9, 0, 0, 0, 0, 0, 0, 0] @ demo_sigs @ 0x1F # demo_src"

lemma demo_encoded: "encode_txs demo_api 0 demo_txs = (BDone (demo_sigs, demo_src), demo_txs)" by code_simp

lemma demo_blocks: "EncodeBlock demo_api demo_txs AlgoGzip None = (BDone demo_block, demo_txs)" by code_simp

theorem block_roundtrip_witness:
  "DecodeBlock demo_api (demo_block @ [9]) None = BDone [demo_tx (replicate 64 7) 1, demo_tx (replicate 64 0) 2]"
proof -
  have m: "ba_max demo_api < 2 ^ 62" "length demo_src \<le> ba_max demo_api" "length demo_block \<le> ba_max demo_api"
    by (simp_all add: demo_api_def demo_src_def demo_block_def demo_sigs_def)
  have "AlgoGzip = AlgoLZ4 \<Longrightarrow> demo_txs \<noteq> []" by (simp add: demo_txs_def)
  note block_roundtrip [OF demo_laws m(1) demo_blocks demo_encoded m(2,3) this, of "[9]"]
  moreover have "map filled demo_txs = [demo_tx (replicate 64 7) 1, demo_tx (replicate 64 0) 2]" by code_simp
  ultimately show ?thesis by simp
qed

subsection \<open>Blocks that bring the decoder down\<close>

definition header_field :: "nat \<Rightarrow> bytes \<Rightarrow> u64" where
  "header_field k data = be_word (rev (take 8 (drop k data)))"

text \<open>What \<^verbatim>\<open>DecodeBlock\<close> does once the header and the two tables are read.\<close>

lemma DecodeBlock_fields:
  assumes "26 \<le> length data" "hd data = BlockMagicNumber"
  shows "DecodeBlock A data dict =
    bind_block (make_bytes A (sint (header_field 2 data * of_nat SigSize))) (\<lambda>sigBlockSize.
    bind_block (read_full sigBlockSize (drop 26 data)) (\<lambda>(sigBlock, buf).
    bind_block (make_bytes A (uint (header_field 18 data))) (\<lambda>bodySize.
    bind_block (read_full bodySize buf) (\<lambda>(compressedBody, buf).
    bind_block (block_decompress A (data ! 1) dict (header_field 10 data) compressedBody) (\<lambda>rawBody.
      if of_nat (length rawBody) \<noteq> header_field 10 data then BErr SizeMismatch
      else bind_block (make_bytes A (8 * uint (header_field 2 data))) (\<lambda>_.
        decode_txs A sigBlock 0 (unat (header_field 2 data)) rawBody))))))"
proof -
  obtain algo rest where data: "data = BlockMagicNumber # algo # rest"
    using assms by (cases data; cases "tl data") auto
  moreover have "read_le64 rest = BDone (header_field 2 data, drop 8 rest)"
    "read_le64 (drop 8 rest) = BDone (header_field 10 data, drop 16 rest)"
    "read_le64 (drop 16 rest) = BDone (header_field 18 data, drop 24 rest)"
    using assms(1) by (simp_all add: data read_le64_def read_full_def header_field_def)
  ultimately show ?thesis by (simp add: DecodeBlock_def cong: if_cong)
qed

lemma DecodeBlock_short:
  assumes "length data < 26 \<or> hd data \<noteq> BlockMagicNumber"
  shows "\<exists>e. DecodeBlock A data dict = BErr e"
proof (cases "data = [] \<or> hd data \<noteq> BlockMagicNumber \<or> length data < 2")
  case True
  then show ?thesis by (cases data; cases "tl data") (auto simp: DecodeBlock_def read_byte_def)
next
  case False
  then obtain algo rest where "data = BlockMagicNumber # algo # rest" "length rest < 24"
    using assms by (cases data; cases "tl data") auto
  then show ?thesis by (auto simp: DecodeBlock_def read_le64_def read_full_def)
qed

lemma make_bytes_BPanic: "make_bytes A n = BPanic \<longleftrightarrow> n < 0 \<or> int (ba_max A) < n"
  by (simp add: make_bytes_def)

lemma make_bytes_BDone: "make_bytes A n = BDone m \<longleftrightarrow> 0 \<le> n \<and> n \<le> int (ba_max A) \<and> m = nat n"
  by (auto simp: make_bytes_def)

lemma read_full_BDone: "read_full n bs = BDone (a, b) \<longleftrightarrow> n \<le> length bs \<and> a = take n bs \<and> b = drop n bs"
  by (auto simp: read_full_def)

lemma block_bind_BPanic: "bind_block r f = BPanic \<longleftrightarrow> r = BPanic \<or> (\<exists>x. r = BDone x \<and> f x = BPanic)"
  by (cases r) auto

lemma never_panics [simp]:
  "read_full n bs \<noteq> BPanic" "read_byte bs \<noteq> BPanic" "or_err e r \<noteq> BPanic"
  by (simp_all add: read_full_def read_byte_def or_err_def split: list.split option.split)

lemma read_uvarint_total [simp]: "read_uvarint i x bs \<noteq> BPanic"
  by (induction i x bs rule: read_uvarint.induct) auto

definition huge_frame :: "('h, 'b, 'p, 'r) block_api \<Rightarrow> bytes \<Rightarrow> bool" where
  "huge_frame A body \<longleftrightarrow> (\<exists>before rest l after. body = before @ TxFrameSeparator # rest \<and> read_uvarint 0 0 rest = BDone (l, after) \<and> ba_max A < unat l)"

lemma read_uvarint_suffix: "read_uvarint i x bs = BDone (l, after) \<Longrightarrow> \<exists>before. bs = before @ after"
proof (induction i x bs rule: read_uvarint.induct)
  case (2 i x b bs)
  then show ?case by (cases "i = 10"; cases "b < 0x80") (auto split: if_splits intro: exI [of _ "[b]"] exI [of _ "b # _"])
qed (simp split: if_splits)

lemma huge_frame_append: "huge_frame A body \<Longrightarrow> huge_frame A (before @ body)"
  unfolding huge_frame_def by (metis append_assoc)

lemma decode_txs_BPanic:
  "decode_txs A sigs i n body = BPanic \<Longrightarrow> length sigs < (i + n) * SigSize \<or> huge_frame A body"
proof (induction n arbitrary: i body)
  case (Suc n)
  show ?case
  proof (rule ccontr)
    assume neg: "\<not> ?thesis"
    obtain rest where body: "body = TxFrameSeparator # rest"
      using Suc.prems by (auto simp: block_bind_BPanic read_byte_def split: list.splits if_splits)
    obtain l after where l: "read_uvarint 0 0 rest = BDone (l, after)"
      using Suc.prems by (auto simp: body block_bind_BPanic)
    have "\<not> ba_max A < unat l" using neg body l unfolding huge_frame_def by blast
    then have "make_bytes A (uint l) = BDone (unat l)" by (simp add: make_bytes_uint)
    moreover have "\<not> length sigs < i * SigSize + SigSize" using neg by (simp add: SigSize_def)
    ultimately have "decode_txs A sigs (i + 1) n (drop (unat l) after) = BPanic"
      using Suc.prems by (auto simp: body l block_bind_BPanic read_full_BDone)
    then have "length sigs < (i + 1 + n) * SigSize \<or> huge_frame A (drop (unat l) after)" by (rule Suc.IH)
    moreover obtain before where "rest = before @ after" using read_uvarint_suffix [OF l] by blast
    then have "body = (TxFrameSeparator # before @ take (unat l) after) @ drop (unat l) after" by (simp add: body)
    ultimately show False using neg huge_frame_append by (metis add.assoc add.commute plus_1_eq_Suc)
  qed
qed simp

definition sane_sizes :: "('h, 'b, 'p, 'r) block_api \<Rightarrow> bytes \<Rightarrow> bool" where
  "sane_sizes A data \<longleftrightarrow> unat (header_field 2 data) * SigSize \<le> ba_max A \<and> unat (header_field 18 data) \<le> ba_max A
    \<and> (data ! 1 = AlgoLZ4 \<longrightarrow> unat (header_field 10 data) \<le> ba_max A)"

definition sent_body :: "bytes \<Rightarrow> bytes" where
  "sent_body data = take (unat (header_field 18 data)) (drop (unat (header_field 2 data) * SigSize + 26) data)"

lemma sane_count:
  assumes "sane_sizes A data" "ba_max A < 2 ^ 62"
  shows "sint (header_field 2 data * of_nat SigSize) = int (unat (header_field 2 data) * SigSize)"
proof -
  let ?n = "unat (header_field 2 data) * SigSize"
  have "header_field 2 data * of_nat SigSize = (of_nat ?n :: u64)" by simp
  moreover have "?n < 2 ^ 62" using assms by (simp add: sane_sizes_def)
  ultimately show ?thesis by (metis small_signed)
qed

lemma decompress_panics:
  assumes "block_decompress A algoID dict usize body = BPanic"
  shows "algoID = AlgoLZ4 \<and> ba_max A < unat usize \<or> algoID = AlgoGzip \<and> ba_gzip_reader A body = None"
  using assms
  by (auto simp: block_decompress_def zstdDecompress_def gzipDecompress_def block_bind_BPanic make_bytes_uint AlgoLZ4_def AlgoGzip_def
      AlgoZstd_def AlgoS2_def AlgoNone_def split: if_splits option.splits)

text \<open>A block of 26 bytes is enough. It claims \<open>2 ^ 58\<close> transactions: the size of the table of signatures wraps to 0 and can
  be read, and only \<^verbatim>\<open>make([]*tx.Transaction, count)\<close> fails, with a panic.\<close>

lemma hostile_count_panics:
  assumes "ba_max A < 2 ^ 61"
  shows "DecodeBlock A (block_header AlgoNone (2 ^ 58) 0 0) dict = BPanic"
proof -
  have "make_bytes A (8 * uint (of_nat (2 ^ 58) :: u64)) = BPanic" using assms by (simp add: make_bytes_def)
  moreover have "make_bytes A 0 = BDone 0" by (simp add: make_bytes_def)
  moreover have "(of_nat (2 ^ 58) :: u64) * of_nat SigSize = 0" by (simp add: SigSize_def)
  moreover have "read_le64 (put_le64 w) = BDone (w, [])" for w using read_le64_append [of w "[]"] by simp
  moreover have "read_full 0 [] = BDone ([], [])" by (simp add: read_full_def)
  ultimately show ?thesis unfolding DecodeBlock_def block_header_def
    by (simp add: block_decompress_def AlgoNone_def AlgoZstd_def AlgoLZ4_def AlgoS2_def AlgoGzip_def)
qed

text \<open>On a block whose header gives sizes that memory can hold, \<^verbatim>\<open>DecodeBlock\<close> panics in two cases only: a gzip body
  that is no gzip stream, or a frame of the body that claims a length memory cannot hold. Every access to the table of
  signatures is in range.\<close>
lemma decoder_panics_only_on_bad_bodies:
  assumes "DecodeBlock A data dict = BPanic" "sane_sizes A data" "ba_max A < 2 ^ 62"
  shows "data ! 1 = AlgoGzip \<and> ba_gzip_reader A (sent_body data) = None
    \<or> (\<exists>rawBody. block_decompress A (data ! 1) dict (header_field 10 data) (sent_body data) = BDone rawBody \<and> huge_frame A rawBody)"
proof -
  have long: "26 \<le> length data" "hd data = BlockMagicNumber"
    using DecodeBlock_short [of data A dict] assms(1) by force+
  let ?n = "unat (header_field 2 data)"
  have u: "uint (header_field k data) = int (unat (header_field k data))" for k by (rule uint_nat)
  have le: "?n * SigSize \<le> ba_max A" "unat (header_field 18 data) \<le> ba_max A" using assms(2) by (simp_all add: sane_sizes_def)
  then have "8 * ?n \<le> ba_max A" by (simp add: SigSize_def)
  then have eight: "make_bytes A (8 * int ?n) = BDone (8 * ?n)" using make_bytes_int [of "8 * ?n" A] by (metis of_nat_mult of_nat_numeral)
  note m = make_bytes_int [OF le(1)] eight make_bytes_int [OF le(2)]
  note D = DecodeBlock_fields [OF long, of A dict, unfolded sane_count [OF assms(2,3)] u m bind_block.simps]
  let ?sigs = "take (?n * SigSize) (drop 26 data)"
  have "length ?sigs = ?n * SigSize
    \<and> (block_decompress A (data ! 1) dict (header_field 10 data) (sent_body data) = BPanic
      \<or> (\<exists>rawBody. block_decompress A (data ! 1) dict (header_field 10 data) (sent_body data) = BDone rawBody
        \<and> decode_txs A ?sigs 0 ?n rawBody = BPanic))"
    using assms(1) unfolding D by (auto simp: block_bind_BPanic read_full_BDone sent_body_def split: if_splits)
  then have sigs: "length ?sigs = ?n * SigSize" and two: "block_decompress A (data ! 1) dict (header_field 10 data) (sent_body data) = BPanic
      \<or> (\<exists>rawBody. block_decompress A (data ! 1) dict (header_field 10 data) (sent_body data) = BDone rawBody
        \<and> decode_txs A ?sigs 0 ?n rawBody = BPanic)" by (rule conjunct1, rule conjunct2)
  from two consider "block_decompress A (data ! 1) dict (header_field 10 data) (sent_body data) = BPanic"
    | rawBody where "block_decompress A (data ! 1) dict (header_field 10 data) (sent_body data) = BDone rawBody"
      "decode_txs A ?sigs 0 ?n rawBody = BPanic" by blast
  then show ?thesis
  proof cases
    case 1
    then show ?thesis using decompress_panics [OF 1] assms(2) by (auto simp: sane_sizes_def)
  next
    case 2
    then show ?thesis using decode_txs_BPanic [OF 2(2)] sigs by auto
  qed
qed

end
