(* ===== verification/Spec2Isabelle.thy ===== *)
theory Spec2Isabelle
  imports Models MetaTree BookPriority BookMaintenance BookTree TreeTheorems ManagerTheorems RangeTheorems SmtTheorems DedupTheorems PipelineTheorems ExchangeStateTheorems SnapshotTheorems VerkleTheorems OptimizedTheorems SmtStoreTheorems BlockCodecTheorems
begin

text \<open>
  Verification of the exchange prototypes.

  The repository holds independent Go programs for the parts of an on-chain exchange: an order book whose
  levels are hashed (\<^verbatim>\<open>verkle-orderbook\<close>), a manager of Merkle trees over accounts, balances and orders
  (\<^verbatim>\<open>mt-manager\<close>), a sparse Merkle tree (\<^verbatim>\<open>smt-v3\<close>), two Verkle trees (\<^verbatim>\<open>v2-verkle-tree-test\<close> and
  its \<^verbatim>\<open>optimized\<close>), and the proposer that checks, orders and executes transactions and stores the
  resulting state (\<^verbatim>\<open>v2-tx-pipeline\<close>). Inside a program the parts call each other directly; the models do
  the same, and share \<^verbatim>\<open>Prelude\<close>.

  \<^bold>\<open>Conventions.\<close> A struct is a record with the fields of the source that its operations read; an interface
  with several implementations is a datatype; Go integers are words of their width where they can overflow and
  naturals where they are lengths or counters; byte slices are lists of \<open>u8\<close>. An operation takes the state and
  returns it; an error, a panic, a call that waits for ever and a call that never ends are values of its result.
  Goroutines are actions on a shared state: a theorem on them quantifies over all sequences of actions, with one
  action per critical section or channel operation. Hash functions, signatures, compression, KZG, JSON, Protobuf
  and Pebble are not part of the repository and are parameters.

  \<^bold>\<open>Theories.\<close>

  \<^item> \<^verbatim>\<open>Prelude\<close>: words, byte encodings, slices and maps as Go has them, the lemmas on them.
  \<^item> \<^verbatim>\<open>Models\<close>: \<^verbatim>\<open>mt-manager/models\<close>, the records, keys, hashes and encodings; the locale \<open>codec\<close>
    is interpreted for the three entities that have one.
  \<^item> \<^verbatim>\<open>Lru\<close>, \<^verbatim>\<open>ShardedCache\<close>, \<^verbatim>\<open>TopNCache\<close>: \<^verbatim>\<open>cache_lru.go\<close> with its linked list on an explicit
    heap, \<^verbatim>\<open>cache_sharded.go\<close> and \<^verbatim>\<open>cache_types.go\<close>, \<^verbatim>\<open>cache_top_n.go\<close>. Both caches of items interpret
    the locale \<open>item_cache\<close>, on which the tree rests.
  \<^item> \<^verbatim>\<open>NodeTree\<close>, \<^verbatim>\<open>NodeSpec\<close>, \<^verbatim>\<open>MerkleTree\<close>, \<^verbatim>\<open>TreeRep\<close>, \<^verbatim>\<open>TreeTheorems\<close>: \<^verbatim>\<open>tree.go\<close>;
    the nodes and their hashes, what they mean as a set of leaves by path, the exported methods, their invariant,
    and the agreement of any sequence of operations with maps.
  \<^item> \<^verbatim>\<open>Manager\<close>, \<^verbatim>\<open>ManagerInv\<close>, \<^verbatim>\<open>ManagerTheorems\<close>, \<^verbatim>\<open>MetaTree\<close>: \<^verbatim>\<open>manager.go\<close> and
    \<^verbatim>\<open>merkle_proof.go\<close>; the cached global root is that of the present trees; proofs of membership are
    complete and sound.
  \<^item> \<^verbatim>\<open>Range\<close>, \<^verbatim>\<open>RangeSpec\<close>, \<^verbatim>\<open>RangeTheorems\<close>: \<^verbatim>\<open>range.go\<close>; which items a query returns.
  \<^item> \<^verbatim>\<open>Pebble\<close>, \<^verbatim>\<open>Snapshot\<close>, \<^verbatim>\<open>SnapshotSpec\<close>, \<^verbatim>\<open>SnapshotTheorems\<close>: \<^verbatim>\<open>snapshot.go\<close> and
    \<^verbatim>\<open>snapshot_storage.go\<close> over the key-value store; the storage refines a map from versions to contents,
    and a snapshot restores every tree as far as MessagePack carries its items.
  \<^item> \<^verbatim>\<open>OrderBook\<close>, \<^verbatim>\<open>Matching\<close>, \<^verbatim>\<open>BookOps\<close>: \<^verbatim>\<open>verkle-orderbook/main.go\<close>, data, matching,
    the other operations. \<^verbatim>\<open>BookInv\<close>, \<^verbatim>\<open>MatchSpec\<close>, \<^verbatim>\<open>MatchInv\<close>, \<^verbatim>\<open>BookProps\<close>: the invariant and
    what the matching loops consume. \<^verbatim>\<open>BookTheorems\<close>, \<^verbatim>\<open>BookPriority\<close>, \<^verbatim>\<open>BookMaintenance\<close>: what follows.
    \<^verbatim>\<open>BookTree\<close>: the 16-ary hash tree of the levels.
  \<^item> \<^verbatim>\<open>Smt\<close>, \<^verbatim>\<open>SmtSpec\<close>, \<^verbatim>\<open>SmtTree\<close>, \<^verbatim>\<open>SmtUpdate\<close>, \<^verbatim>\<open>SmtSample\<close>, \<^verbatim>\<open>SmtWf\<close>,
    \<^verbatim>\<open>SmtTheorems\<close>: \<^verbatim>\<open>smt-v3/smt.go\<close>; the tree is the canonical tree of a finite map, except where
    the batch is overwritten by an append.
  \<^item> \<^verbatim>\<open>SmtStore\<close>, \<^verbatim>\<open>SmtStoreSpec\<close>, \<^verbatim>\<open>SmtStoreTheorems\<close>: the sharded cache of nodes of \<^verbatim>\<open>smt.go\<close>
    and \<^verbatim>\<open>store_pebble.go\<close>; the results of a tree do not depend on where its nodes are kept, by the locales
    \<open>node_access\<close> and \<open>raw_store\<close>, except inside a batch that cannot be read.
  \<^item> \<^verbatim>\<open>Dedup\<close>, \<^verbatim>\<open>DedupTheorems\<close>: \<^verbatim>\<open>v2-tx-pipeline/sharded_cache.go\<close> and the order-ID checks of
    \<^verbatim>\<open>main.go\<close>; the locale \<open>once_filter\<close> is interpreted with the shield off and on.
  \<^item> \<^verbatim>\<open>Pipeline\<close>, \<^verbatim>\<open>PipelineInv\<close>, \<^verbatim>\<open>PipelineOrder\<close>, \<^verbatim>\<open>PipelineSample\<close>, \<^verbatim>\<open>PipelineTheorems\<close>:
    the proposer of \<^verbatim>\<open>v2-tx-pipeline/main.go\<close>; what is executed was pushed, signed and comes in the order of
    nonces, once; nothing that counts in the wait group is lost.
  \<^item> \<^verbatim>\<open>ExchangeState\<close>, \<^verbatim>\<open>ExchangeStateTheorems\<close>: \<^verbatim>\<open>v2-tx-pipeline/state/state.go\<close>; what a restart
    finds, what the periodic root commits to.
  \<^item> \<^verbatim>\<open>Verkle\<close>, \<^verbatim>\<open>VerkleCommit\<close>, \<^verbatim>\<open>VerkleFormat\<close>: \<^verbatim>\<open>verkle_tree.go\<close>, \<^verbatim>\<open>verkle_parallel.go\<close>,
    \<^verbatim>\<open>node_cache.go\<close>, \<^verbatim>\<open>kzg_crypto.go\<close>. \<^verbatim>\<open>VerkleTree\<close>, \<^verbatim>\<open>VerkleSeal\<close>, \<^verbatim>\<open>VerkleInv\<close>,
    \<^verbatim>\<open>VerkleInsert\<close>, \<^verbatim>\<open>VerkleRefine\<close>, \<^verbatim>\<open>VerkleRuns\<close>, \<^verbatim>\<open>VerkleTheorems\<close>: the agreement of runs with
    a map from slots to owner and data, with the calls that wait for ever or never end.
  \<^item> \<^verbatim>\<open>Optimized\<close>, \<^verbatim>\<open>OptimizedProof\<close>: the files of \<^verbatim>\<open>optimized\<close>. \<^verbatim>\<open>OptimizedTree\<close>,
    \<^verbatim>\<open>OptimizedInv\<close>, \<^verbatim>\<open>OptimizedRuns\<close>, \<^verbatim>\<open>OptimizedTheorems\<close>: runs against a map from users to data,
    genuine proofs, and the proofs that are accepted although they say nothing.
  \<^item> \<^verbatim>\<open>BlockCodec\<close>, \<^verbatim>\<open>BlockCodecTheorems\<close>: the block format of \<^verbatim>\<open>tx-header/block_compress.go\<close>; what is
    encoded is decoded, and which blocks bring the decoder down.

  \<^bold>\<open>Hypotheses.\<close> Collision-freeness is assumed only of the strings that the run at hand hashes (\<open>sound\<close>,
  \<open>collision_free\<close>), never of a function on all strings, which would be unsatisfiable with digests of 32 bytes;
  \<open>apart\<close> says that the users of a run have different paths. \<open>runtime_ok\<close> says that there is a processor and that
  the scheduler runs every goroutine; \<open>kv_laws\<close> that Pebble iterates in the order of the keys over what the
  committed batches wrote; \<open>codec_ok\<close> that what was marshalled is read back up to the fields
  that MessagePack drops (\<open>wire\<close>), \<open>proto_laws\<close> and \<open>compress_laws\<close> that Protobuf and the compressors read what they
  wrote; \<open>order_ok\<close> that the iteration over a map visits each entry once; \<open>nonces_ok\<close> that no decoded nonce is the maximal one;
  \<open>commit_total\<close> and \<open>kzg_laws\<close> that a commitment to few enough values exists, is not empty, and that its
  openings verify. Every theorem with hypotheses has a witness that meets them in a concrete case.

  \<^bold>\<open>Guards.\<close> Runs leave out the calls after which the property is false, and a lemma shows each of these failures:
  \<open>op_fits\<close> of the order book (a price given to \<^verbatim>\<open>ModifyOrder\<close> that crosses, \<open>modify_crossing_leaves_ghost\<close>; volumes
  and the order counter within 64 bits), \<open>op_fits\<close> of the item tree (a large batch with colliding items, or with keys
  beyond the grouping table, \<open>large_batch_panics\<close>), \<open>cached_named\<close> of the manager (\<^verbatim>\<open>RenameTree\<close>, \<^verbatim>\<open>RemoveAll\<close> and
  \<^verbatim>\<open>LoadSnapshot\<close> while a root is cached under a name that disappears, \<open>renamed_name_hides_new_tree\<close>).

  \<^bold>\<open>Bounds.\<close> The loops are structurally recursive or have a measure. Two of them need not end, the eviction loop of
  \<^verbatim>\<open>Resize\<close> and the insertion into a Verkle tree: they are partial functions whose value is \<open>None\<close> when they do not
  return, and the theorems say exactly when they do.

  \<^bold>\<open>Not modelled.\<close> Printing, statistics in floating point, JSON and text exports, generators of load, benchmarks,
  tests and \<^verbatim>\<open>main\<close> functions; code generated by \<^verbatim>\<open>protoc\<close> (\<^verbatim>\<open>tx.pb.go\<close> and those of
  \<^verbatim>\<open>protobuf-deserialize\<close>), of which the pipeline uses only the transaction type; \<^verbatim>\<open>smt-v2\<close>, a copy of a
  published trie; the mirrors of an exchange over websockets and gRPC in \<^verbatim>\<open>tx-header\<close>; the benchmarks of
  counters, accounts, signatures, identifiers, compression and KZG; the capacities of the channels, so that a
  worker that waits on a full channel is a worker that has not yet taken its next action; the configuration of \<^verbatim>\<open>v3-cometbft\<close>. The manifest
  lists every such part with its reason.
\<close>

end
